(* ===== verification/Ucore_Prelude.thy ===== *)
theory Ucore_Prelude
  imports Main "HOL-Library.Word" "HOL-Library.Monad_Syntax"
begin

text \<open>
  Shared vocabulary of the development.

  Effects.  A kernel routine that can fail an \<open>assert\<close> or call \<open>panic\<close> returns an
  \<open>option\<close>: \<open>None\<close> is the halted kernel, \<open>Some\<close> carries the result together with the new state.
  An error return (\<open>-E_NO_MEM\<close>, \<open>-E_INVAL\<close>, ...) is an ordinary result, a value
  \<open>Inl e\<close> of the sum type \<open>errno + 'a\<close>, so that the state after a failed call is part of the model.
  The \<open>do\<close>-notation of \<open>Monad_Syntax\<close> at type \<open>option\<close> sequences the statements of a routine.

  The collections \<open>kstep\<close> (unfolding of the option monad) and \<open>kinv\<close> (preservation
  lemmas of invariants) are filled by the component theories.
\<close>

named_theorems kstep "unfolding rules for routines in the option monad"
named_theorems kinv "invariant preservation lemmas"

text \<open>The error codes of \<open>libs/error.h\<close>, by name.\<close>

datatype errno =
    E_UNSPECIFIED | E_BAD_PROC | E_INVAL | E_NO_MEM | E_NO_FREE_PROC | E_FAULT
  | E_SWAP_FAULT | E_INVAL_ELF | E_KILLED | E_PANIC | E_TIMEOUT | E_TOO_BIG
  | E_NO_DEV | E_NA_DEV | E_BUSY | E_NOENT | E_ISDIR | E_NOTDIR | E_XDEV
  | E_UNIMP | E_SEEK | E_MAX_OPEN | E_EXISTS | E_NOTEMPTY

text \<open>\<open>assert\<close> of \<open>kern/debug/assert.h\<close>: the kernel panics unless the condition holds.\<close>

definition kassert :: "bool \<Rightarrow> unit option" where
  "kassert b = (if b then Some () else None)"

lemma kassert_simps [simp, kstep]: "kassert True = Some ()" "kassert False = None"
  by (simp_all add: kassert_def)

lemma kassert_eq_Some [simp, kstep]: "kassert b = Some u \<longleftrightarrow> b"
  by (simp add: kassert_def)

lemma kassert_eq_None [simp, kstep]: "kassert b = None \<longleftrightarrow> \<not> b"
  by (simp add: kassert_def)

lemma bind_kassert [simp, kstep]:
  "(kassert b \<bind> f) = Some y \<longleftrightarrow> b \<and> f () = Some y"
  by (simp add: kassert_def)

lemma bind_kassert_if: "(kassert b \<bind> f) = (if b then f () else None)"
  by (simp add: kassert_def)

lemma bind_Some_iff [kstep]: "(m \<bind> f) = Some y \<longleftrightarrow> (\<exists>x. m = Some x \<and> f x = Some y)"
  by (cases m) auto

text \<open>What an \<open>int\<close> holds after an assignment.\<close>

definition int32 :: "int \<Rightarrow> int" where "int32 k = signed_take_bit 31 k"

lemma int32_eq: "- (2 ^ 31) \<le> k \<Longrightarrow> k < 2 ^ 31 \<Longrightarrow> int32 k = k"
  unfolding int32_def by (rule signed_take_bit_int_eq_self) simp_all

lemma int32_add: "int32 (int32 k + l) = int32 (k + l)"
  unfolding int32_def by (simp add: signed_take_bit_add [of 31 _ l, symmetric] signed_take_bit_add [of 31 k l, symmetric])

text \<open>\<open>if ((ret = f(...)) != 0) return ret;\<close>: the first error ends the routine, with the state it left.\<close>

definition seqE :: "((errno + 'a) \<times> 's) option \<Rightarrow> ('a \<Rightarrow> 's \<Rightarrow> ((errno + 'b) \<times> 's) option)
    \<Rightarrow> ((errno + 'b) \<times> 's) option" where
  "seqE m f = (case m of
       None \<Rightarrow> None
     | Some (Inl e, s) \<Rightarrow> Some (Inl e, s)
     | Some (Inr a, s) \<Rightarrow> f a s)"

lemma seqE_simps [simp]:
  "seqE None f = None" "seqE (Some (Inl e, s)) f = Some (Inl e, s)"
  "seqE (Some (Inr a, s)) f = f a s"
  by (simp_all add: seqE_def)

text \<open>Lists with a distinguished element, and updates at its position.\<close>

lemma in_set_split: "x \<in> set xs \<Longrightarrow> \<exists>us vs. xs = us @ x # vs \<and> x \<notin> set us"
  by (meson split_list_first)

lemma remove1_append_distinct:
  "x \<notin> set us \<Longrightarrow> remove1 x (us @ x # vs) = us @ vs"
  by (simp add: remove1_append)

lemma nth_update_other: "i \<noteq> j \<Longrightarrow> xs[i := v] ! j = xs ! j"
  by simp

end
