(* ===== verification/Kern_List.thy ===== *)
theory Kern_List
  imports Ucore_Prelude
begin

text \<open>
  The intrusive circular doubly linked list of \<open>libs/list.h\<close>, at the level of its pointers:
  a store of \<open>prev\<close>/\<open>next\<close> fields over an address type \<open>'a\<close>, one definition per
  inline function, the fields written in the order the code writes them.  The predicate
  \<open>dlist h hd xs\<close> says that the list with head \<open>hd\<close> links exactly the entries \<open>xs\<close>; the
  locale \<open>circular_list\<close> states the contract the clients use, and the pointer code is
  its interpretation.
\<close>

section \<open>The pointer operations\<close>

record 'a links =
  prv :: "'a \<Rightarrow> 'a"
  nxt :: "'a \<Rightarrow> 'a"

definition list_init :: "'a \<Rightarrow> 'a links \<Rightarrow> 'a links" where
  "list_init elm h =
     (let h1 = h\<lparr>nxt := (nxt h)(elm := elm)\<rparr>
      in h1\<lparr>prv := (prv h1)(elm := elm)\<rparr>)"

definition list_next :: "'a \<Rightarrow> 'a links \<Rightarrow> 'a" where
  "list_next le h = nxt h le"

definition list_prev :: "'a \<Rightarrow> 'a links \<Rightarrow> 'a" where
  "list_prev le h = prv h le"

definition list_empty :: "'a \<Rightarrow> 'a links \<Rightarrow> bool" where
  "list_empty le h \<longleftrightarrow> nxt h le = le"

text \<open>\<open>__list_add\<close>: \<open>prev->next = next->prev = elm; elm->next = next; elm->prev = prev\<close>.\<close>

definition list_add_between :: "'a \<Rightarrow> 'a \<Rightarrow> 'a \<Rightarrow> 'a links \<Rightarrow> 'a links" where
  "list_add_between elm pr ne h =
     (let h1 = h\<lparr>prv := (prv h)(ne := elm)\<rparr>;
          h2 = h1\<lparr>nxt := (nxt h1)(pr := elm)\<rparr>;
          h3 = h2\<lparr>nxt := (nxt h2)(elm := ne)\<rparr>
      in h3\<lparr>prv := (prv h3)(elm := pr)\<rparr>)"

text \<open>\<open>__list_del\<close>: \<open>prev->next = next; next->prev = prev\<close>.\<close>

definition list_del_between :: "'a \<Rightarrow> 'a \<Rightarrow> 'a links \<Rightarrow> 'a links" where
  "list_del_between pr ne h =
     (let h1 = h\<lparr>nxt := (nxt h)(pr := ne)\<rparr>
      in h1\<lparr>prv := (prv h1)(ne := pr)\<rparr>)"

definition list_add_after :: "'a \<Rightarrow> 'a \<Rightarrow> 'a links \<Rightarrow> 'a links" where
  "list_add_after le elm h = list_add_between elm le (nxt h le) h"

definition list_add :: "'a \<Rightarrow> 'a \<Rightarrow> 'a links \<Rightarrow> 'a links" where
  "list_add le elm h = list_add_after le elm h"

definition list_add_before :: "'a \<Rightarrow> 'a \<Rightarrow> 'a links \<Rightarrow> 'a links" where
  "list_add_before le elm h = list_add_between elm (prv h le) le h"

definition list_del :: "'a \<Rightarrow> 'a links \<Rightarrow> 'a links" where
  "list_del le h = list_del_between (prv h le) (nxt h le) h"

definition list_del_init :: "'a \<Rightarrow> 'a links \<Rightarrow> 'a links" where
  "list_del_init le h = list_init le (list_del le h)"

lemmas list_code_defs =
  list_init_def list_next_def list_prev_def list_empty_def list_add_between_def
  list_del_between_def list_add_after_def list_add_def list_add_before_def
  list_del_def list_del_init_def Let_def

section \<open>Well-formed lists\<close>

text \<open>
  \<open>chain h ys\<close>: consecutive entries of \<open>ys\<close> are linked in both directions.  A list with
  head \<open>q\<close> and entries \<open>xs\<close> is the closed chain \<open>q # xs @ [q]\<close> of distinct entries.
\<close>

definition chain :: "'a links \<Rightarrow> 'a list \<Rightarrow> bool" where
  "chain h ys \<longleftrightarrow> successively (\<lambda>y z. nxt h y = z \<and> prv h z = y) ys"

definition dlist :: "'a links \<Rightarrow> 'a \<Rightarrow> 'a list \<Rightarrow> bool" where
  "dlist h q xs \<longleftrightarrow> distinct (q # xs) \<and> chain h (q # xs @ [q])"

lemma chain_simps [simp]:
  "chain h []" "chain h [y]"
  "chain h (y # z # ys) \<longleftrightarrow> nxt h y = z \<and> prv h z = y \<and> chain h (z # ys)"
  by (auto simp: chain_def)

lemma chain_append:
  "chain h (xs @ ys) \<longleftrightarrow> chain h xs \<and> chain h ys
     \<and> (xs = [] \<or> ys = [] \<or> nxt h (last xs) = hd ys \<and> prv h (hd ys) = last xs)"
  by (auto simp: chain_def successively_append_iff)

lemma chain_cong:
  assumes "chain h ys"
    and "\<And>y. y \<in> set (butlast ys) \<Longrightarrow> nxt h' y = nxt h y"
    and "\<And>y. y \<in> set (tl ys) \<Longrightarrow> prv h' y = prv h y"
  shows "chain h' ys"
  using assms
proof (induction ys)
  case Nil
  then show ?case by simp
next
  case (Cons y ys)
  show ?case
  proof (cases ys)
    case Nil
    then show ?thesis by simp
  next
    case [simp]: (Cons z zs)
    have "chain h' ys"
      by (rule Cons.IH) (use Cons.prems in \<open>auto dest: in_set_butlastD list.set_sel(2)\<close>)
    then show ?thesis using Cons.prems by auto
  qed
qed

lemma last_notin_butlast: "distinct ys \<Longrightarrow> ys \<noteq> [] \<Longrightarrow> y \<in> set (butlast ys) \<Longrightarrow> y \<noteq> last ys"
  by (induction ys) auto

lemma dlist_init: "dlist (list_init q h) q []"
  by (simp add: dlist_def list_code_defs)

lemma dlist_empty_iff: "dlist h q xs \<Longrightarrow> list_empty q h \<longleftrightarrow> xs = []"
  by (cases xs) (auto simp: dlist_def list_code_defs)

text \<open>The neighbours of any position: \<open>q # us\<close> before it, \<open>vs @ [q]\<close> from it on.\<close>

lemma dlist_split:
  assumes "dlist h q (us @ vs)"
  shows "list_next (last (q # us)) h = hd (vs @ [q])"
    and "list_prev (hd (vs @ [q])) h = last (q # us)"
proof -
  have "chain h ((q # us) @ (vs @ [q]))"
    using assms by (simp add: dlist_def)
  then show "list_next (last (q # us)) h = hd (vs @ [q])"
    and "list_prev (hd (vs @ [q])) h = last (q # us)"
    unfolding chain_append list_next_def list_prev_def by auto
qed

lemma dlist_next_head: "dlist h q xs \<Longrightarrow> list_next q h = hd (xs @ [q])"
  using dlist_split(1) [of h q "[]" xs] by simp

lemma dlist_prev_head: "dlist h q xs \<Longrightarrow> list_prev q h = last (q # xs)"
  using dlist_split(2) [of h q xs "[]"] by simp

lemma dlist_next_elem: "dlist h q (us @ x # vs) \<Longrightarrow> list_next x h = hd (vs @ [q])"
  using dlist_split(1) [of h q "us @ [x]" vs] by simp

lemma dlist_prev_elem: "dlist h q (us @ x # vs) \<Longrightarrow> list_prev x h = last (q # us)"
  using dlist_split(2) [of h q us "x # vs"] by simp

section \<open>Insertion and removal\<close>

lemma dlist_add_between:
  assumes d: "dlist h q (us @ vs)" and x: "x \<noteq> q" "x \<notin> set us" "x \<notin> set vs"
  shows "dlist (list_add_between x (last (q # us)) (hd (vs @ [q])) h) q (us @ x # vs)"
proof -
  let ?p = "last (q # us)" and ?n = "hd (vs @ [q])"
  let ?h = "list_add_between x ?p ?n h"
  have dist: "distinct (q # us @ vs)" and c: "chain h ((q # us) @ (vs @ [q]))"
    using d by (simp_all add: dlist_def)
  have p: "?p \<in> set (q # us)" and n: "?n \<in> set (vs @ [q])"
    by (rule last_in_set, simp, rule hd_in_set, simp)
  have c1: "chain ?h (q # us)"
  proof (rule chain_cong)
    show "chain h (q # us)" using c unfolding chain_append by simp
    show "nxt ?h y = nxt h y" if "y \<in> set (butlast (q # us))" for y
    proof -
      have "distinct (q # us)" using dist by simp
      then have "y \<noteq> ?p" using that by (intro last_notin_butlast) simp_all
      moreover have "y \<noteq> x" using in_set_butlastD [OF that] x by auto
      ultimately show ?thesis by (simp add: list_code_defs)
    qed
    show "prv ?h y = prv h y" if "y \<in> set (tl (q # us))" for y
      using that dist x by (cases vs) (auto simp: list_code_defs)
  qed
  have c2: "chain ?h (vs @ [q])"
  proof (rule chain_cong)
    show "chain h (vs @ [q])" using c unfolding chain_append by simp
    show "nxt ?h y = nxt h y" if "y \<in> set (butlast (vs @ [q]))" for y
      using that dist x p by (auto simp: list_code_defs)
    show "prv ?h y = prv h y" if "y \<in> set (tl (vs @ [q]))" for y
      using that dist x by (cases vs) (auto simp: list_code_defs)
  qed
  have "x \<noteq> ?p" "x \<noteq> ?n" using p n x by auto
  then have "chain ?h ((q # us) @ [x] @ (vs @ [q]))"
    using c1 c2 unfolding chain_append by (simp add: list_code_defs)
  then show ?thesis using dist x by (simp add: dlist_def)
qed

lemma dlist_add_at:
  "dlist h q (us @ vs) \<Longrightarrow> x \<notin> set (q # us @ vs)
     \<Longrightarrow> dlist (list_add (last (q # us)) x h) q (us @ x # vs)"
  using dlist_add_between [of h q us vs x] dlist_split(1) [of h q us vs]
  by (simp add: list_add_def list_add_after_def list_next_def)

lemma dlist_add_after_head:
  "dlist h q xs \<Longrightarrow> x \<notin> set (q # xs) \<Longrightarrow> dlist (list_add q x h) q (x # xs)"
  using dlist_add_between [of h q "[]" xs x] dlist_next_head [of h q xs]
  by (simp add: list_add_def list_add_after_def list_next_def)

lemma dlist_add_after:
  "dlist h q (us @ y # vs) \<Longrightarrow> x \<notin> set (q # us @ y # vs)
     \<Longrightarrow> dlist (list_add y x h) q (us @ y # x # vs)"
  using dlist_add_between [of h q "us @ [y]" vs x] dlist_next_elem [of h q us y vs]
  by (simp add: list_add_def list_add_after_def list_next_def)

lemma dlist_add_before_head:
  "dlist h q xs \<Longrightarrow> x \<notin> set (q # xs) \<Longrightarrow> dlist (list_add_before q x h) q (xs @ [x])"
  using dlist_add_between [of h q xs "[]" x] dlist_prev_head [of h q xs]
  by (simp add: list_add_before_def list_prev_def)

lemma dlist_add_before:
  "dlist h q (us @ y # vs) \<Longrightarrow> x \<notin> set (q # us @ y # vs)
     \<Longrightarrow> dlist (list_add_before y x h) q (us @ x # y # vs)"
  using dlist_add_between [of h q us "y # vs" x] dlist_prev_elem [of h q us y vs]
  by (simp add: list_add_before_def list_prev_def)

lemma dlist_del:
  assumes d: "dlist h q (us @ x # vs)"
  shows "dlist (list_del x h) q (us @ vs)"
proof -
  let ?p = "last (q # us)" and ?n = "hd (vs @ [q])"
  let ?h = "list_del x h"
  have dist: "distinct (q # us @ x # vs)" and c: "chain h ((q # us) @ [x] @ (vs @ [q]))"
    using d by (simp_all add: dlist_def)
  have pn: "prv h x = ?p" "nxt h x = ?n"
    using dlist_prev_elem [OF d] dlist_next_elem [OF d] by (simp_all add: list_prev_def list_next_def)
  have p: "?p \<in> set (q # us)" by (rule last_in_set) simp
  have c1: "chain ?h (q # us)"
  proof (rule chain_cong)
    show "chain h (q # us)" using c unfolding chain_append by simp
    show "nxt ?h y = nxt h y" if "y \<in> set (butlast (q # us))" for y
    proof -
      have "distinct (q # us)" using dist by simp
      then have "y \<noteq> ?p" using that by (intro last_notin_butlast) simp_all
      then show ?thesis by (simp add: list_code_defs pn)
    qed
    show "prv ?h y = prv h y" if "y \<in> set (tl (q # us))" for y
      using that dist by (cases vs) (auto simp: list_code_defs pn)
  qed
  have c2: "chain ?h (vs @ [q])"
  proof (rule chain_cong)
    show "chain h (vs @ [q])" using c unfolding chain_append by simp
    show "nxt ?h y = nxt h y" if "y \<in> set (butlast (vs @ [q]))" for y
      using that dist p by (auto simp: list_code_defs pn)
    show "prv ?h y = prv h y" if "y \<in> set (tl (vs @ [q]))" for y
      using that dist by (cases vs) (auto simp: list_code_defs pn)
  qed
  have "nxt ?h ?p = ?n" "prv ?h ?n = ?p" by (simp_all add: list_code_defs pn)
  then have "chain ?h ((q # us) @ (vs @ [q]))"
    using c1 c2 unfolding chain_append by simp
  then show ?thesis using dist by (simp add: dlist_def)
qed

lemma dlist_del_init:
  assumes "dlist h q (us @ x # vs)"
  shows "dlist (list_del_init x h) q (us @ vs)" "list_empty x (list_del_init x h)"
proof -
  have d: "dlist (list_del x h) q (us @ vs)" using assms by (rule dlist_del)
  have x: "x \<notin> set (q # us @ vs)" using assms by (auto simp: dlist_def)
  have "chain (list_init x (list_del x h)) (q # (us @ vs) @ [q])"
    by (rule chain_cong [of "list_del x h"])
       (use d x in \<open>auto simp: dlist_def list_init_def Let_def dest: in_set_butlastD\<close>)
  with d show "dlist (list_del_init x h) q (us @ vs)"
    by (simp add: dlist_def list_del_init_def)
  show "list_empty x (list_del_init x h)"
    by (simp add: list_code_defs)
qed

text \<open>A list is untouched by changes to fields of entries outside it.\<close>

lemma dlist_frame:
  assumes "dlist h q xs" and "\<And>y. y \<in> insert q (set xs) \<Longrightarrow> nxt h' y = nxt h y \<and> prv h' y = prv h y"
  shows "dlist h' q xs"
  using assms unfolding dlist_def
  by (auto intro: chain_cong [of h] dest: in_set_butlastD)

section \<open>The contract of the list, and the pointer code as its provider\<close>

locale circular_list =
  fixes rep :: "'s \<Rightarrow> 'a \<Rightarrow> 'a list \<Rightarrow> bool"
    and emp :: "'a \<Rightarrow> 's \<Rightarrow> bool"
    and nx :: "'a \<Rightarrow> 's \<Rightarrow> 'a"
    and pv :: "'a \<Rightarrow> 's \<Rightarrow> 'a"
    and ini :: "'a \<Rightarrow> 's \<Rightarrow> 's"
    and add_tail :: "'a \<Rightarrow> 'a \<Rightarrow> 's \<Rightarrow> 's"
    and del :: "'a \<Rightarrow> 's \<Rightarrow> 's"
  assumes rep_distinct: "rep s q xs \<Longrightarrow> distinct (q # xs)"
    and rep_init: "rep (ini q s) q []"
    and rep_empty: "rep s q xs \<Longrightarrow> emp q s \<longleftrightarrow> xs = []"
    and rep_next: "rep s q (us @ vs) \<Longrightarrow> nx (last (q # us)) s = hd (vs @ [q])"
    and rep_prev: "rep s q (us @ vs) \<Longrightarrow> pv (hd (vs @ [q])) s = last (q # us)"
    and rep_add_tail: "rep s q xs \<Longrightarrow> x \<notin> set (q # xs) \<Longrightarrow> rep (add_tail q x s) q (xs @ [x])"
    and rep_del: "rep s q (us @ x # vs) \<Longrightarrow> rep (del x s) q (us @ vs)"
begin

text \<open>
  The loop \<open>le = q; while ((le = list_next(le)) != q)\<close> of the clients visits the entries
  in order and stops after exactly \<open>length xs\<close> rounds.
\<close>

lemma walk: "rep s q xs \<Longrightarrow> i \<le> length xs \<Longrightarrow> ((\<lambda>le. nx le s) ^^ i) q = (q # xs) ! i"
proof (induction i)
  case 0
  then show ?case by simp
next
  case (Suc i)
  have split: "xs = take i xs @ drop i xs" by simp
  have "last (q # take i xs) = (q # xs) ! i"
    using Suc.prems by (cases i) (auto simp: last_conv_nth)
  moreover have "hd (drop i xs @ [q]) = (q # xs) ! Suc i"
    using Suc.prems by (simp add: hd_append hd_drop_conv_nth)
  moreover have "nx (last (q # take i xs)) s = hd (drop i xs @ [q])"
    using Suc.prems(1) rep_next split by metis
  ultimately show ?case using Suc by simp
qed

lemma walk_stops:
  assumes "rep s q xs" and that: "i \<le> length xs"
  shows "((\<lambda>le. nx le s) ^^ Suc i) q = q \<longleftrightarrow> i = length xs"
proof (cases "i = length xs")
  case True
  then have "((\<lambda>le. nx le s) ^^ i) q = last (q # xs)"
    using walk [OF assms(1), of i] by (cases xs rule: rev_cases) auto
  with True show ?thesis using rep_next [of s q xs "[]"] assms(1) by simp
next
  case False
  then have "((\<lambda>le. nx le s) ^^ Suc i) q = xs ! i"
    using walk [OF assms(1), of "Suc i"] that by simp
  moreover have "xs ! i \<noteq> q"
    using rep_distinct [OF assms(1)] False that by (metis distinct.simps(2) le_neq_implies_less nth_mem)
  ultimately show ?thesis using False by simp
qed

text \<open>The list is a FIFO queue under insertion at the tail and removal of the first entry.\<close>

lemma fifo:
  assumes "rep s q xs" and "x \<notin> set (q # xs)"
  shows "nx q (add_tail q x s) = hd (xs @ [x])"
    and "rep (del (nx q (add_tail q x s)) (add_tail q x s)) q (tl (xs @ [x]))"
proof -
  have r: "rep (add_tail q x s) q (xs @ [x])" using assms by (rule rep_add_tail)
  show n: "nx q (add_tail q x s) = hd (xs @ [x])"
    using rep_next [of "add_tail q x s" q "[]" "xs @ [x]"] r by (simp add: hd_append)
  show "rep (del (nx q (add_tail q x s)) (add_tail q x s)) q (tl (xs @ [x]))"
    using rep_del [of "add_tail q x s" q "[]" "hd (xs @ [x])" "tl (xs @ [x])"] r n by simp
qed

end

interpretation kl: circular_list dlist list_empty list_next list_prev list_init
  list_add_before list_del
proof unfold_locales
  show "dlist s q xs \<Longrightarrow> distinct (q # xs)" for s :: "'a links" and q xs
    by (simp add: dlist_def)
  show "dlist s q xs \<Longrightarrow> x \<notin> set (q # xs) \<Longrightarrow> dlist (list_add_before q x s) q (xs @ [x])"
    for s :: "'a links" and q xs x
    by (rule dlist_add_before_head)
qed (simp_all only: dlist_init dlist_empty_iff dlist_split dlist_del)

end
