(* ===== verification/Pmm_Default.thy ===== *)
theory Pmm_Default
  imports Kern_List
begin

text \<open>
  The first-fit physical page allocator, \<open>kern/mm/default_pmm.c\<close>, over the page
  descriptors of \<open>kern/mm/memlayout.h\<close>.  The free list is modelled at the level of its
  \<open>prev\<close>/\<open>next\<close> pointers: \<open>FreeList\<close> is the list head \<open>&free_list\<close>, \<open>PageLink i\<close>
  the \<open>page_link\<close> field of \<open>pages[i]\<close>, and a page pointer is its index in the page array.
  Counters are natural numbers; \<open>nr_free_bound\<close> below shows that \<open>nr_free\<close>
  never exceeds the number of pages, so the 32-bit counter of the code does not wrap.
\<close>

section \<open>Page descriptors\<close>

record page =
  ref :: int
  flags :: "64 word"
  property :: nat

definition PG_reserved :: nat where "PG_reserved = 0"
definition PG_property :: nat where "PG_property = 1"

definition SetPageReserved :: "page \<Rightarrow> page" where
  "SetPageReserved p = p\<lparr>flags := Bit_Operations.set_bit PG_reserved (flags p)\<rparr>"

definition PageReserved :: "page \<Rightarrow> bool" where
  "PageReserved p \<longleftrightarrow> bit (flags p) PG_reserved"

definition SetPageProperty :: "page \<Rightarrow> page" where
  "SetPageProperty p = p\<lparr>flags := Bit_Operations.set_bit PG_property (flags p)\<rparr>"

definition ClearPageProperty :: "page \<Rightarrow> page" where
  "ClearPageProperty p = p\<lparr>flags := unset_bit PG_property (flags p)\<rparr>"

definition PageProperty :: "page \<Rightarrow> bool" where
  "PageProperty p \<longleftrightarrow> bit (flags p) PG_property"

lemmas page_flag_defs =
  PG_reserved_def PG_property_def SetPageReserved_def PageReserved_def
  SetPageProperty_def ClearPageProperty_def PageProperty_def

lemma page_flag_simps [simp]:
  "PageProperty (SetPageProperty p)"
  "\<not> PageProperty (ClearPageProperty p)"
  "PageReserved (SetPageProperty p) = PageReserved p"
  "PageReserved (ClearPageProperty p) = PageReserved p"
  "property (SetPageProperty p) = property p"
  "property (ClearPageProperty p) = property p"
  "ref (SetPageProperty p) = ref p"
  "ref (ClearPageProperty p) = ref p"
  "PageProperty (p\<lparr>property := k\<rparr>) = PageProperty p"
  "PageProperty (p\<lparr>ref := r\<rparr>) = PageProperty p"
  "PageReserved (p\<lparr>property := k\<rparr>) = PageReserved p"
  "\<not> PageProperty (p\<lparr>flags := 0\<rparr>)"
  "\<not> PageReserved (p\<lparr>flags := 0\<rparr>)"
  by (simp_all add: page_flag_defs bit_set_bit_iff bit_unset_bit_iff)

datatype node = FreeList | PageLink nat

record pmm =
  pages :: "nat \<Rightarrow> page"
  flinks :: "node links"
  nr_free :: nat

definition upd_page :: "nat \<Rightarrow> (page \<Rightarrow> page) \<Rightarrow> pmm \<Rightarrow> pmm" where
  "upd_page i f s = s\<lparr>pages := (pages s)(i := f (pages s i))\<rparr>"

definition upd_links :: "(node links \<Rightarrow> node links) \<Rightarrow> pmm \<Rightarrow> pmm" where
  "upd_links f s = s\<lparr>flinks := f (flinks s)\<rparr>"

lemma upd_simps [simp]:
  "pages (upd_page i f s) = (pages s)(i := f (pages s i))"
  "flinks (upd_page i f s) = flinks s"
  "nr_free (upd_page i f s) = nr_free s"
  "pages (upd_links g s) = pages s"
  "flinks (upd_links g s) = g (flinks s)"
  "nr_free (upd_links g s) = nr_free s"
  by (simp_all add: upd_page_def upd_links_def)

section \<open>The allocator\<close>

definition default_init :: "pmm \<Rightarrow> pmm" where
  "default_init s = (upd_links (list_init FreeList) s)\<lparr>nr_free := 0\<rparr>"

text \<open>The first loop of \<open>default_init_memmap\<close>: reset every page of the block.\<close>

fun init_pages :: "nat \<Rightarrow> nat \<Rightarrow> pmm \<Rightarrow> pmm option" where
  "init_pages p 0 s = Some s"
| "init_pages p (Suc n) s = do {
     kassert (PageReserved (pages s p));
     init_pages (Suc p) n (upd_page p (\<lambda>pg. pg\<lparr>flags := 0, property := 0, ref := 0\<rparr>) s)
   }"

text \<open>
  The address-ordered insertion loop, as written: after the \<open>list_add\<close> of the
  second branch there is no \<open>break\<close>, so the loop goes on from the entry it has just added.
\<close>

partial_function (option) insert_loop :: "nat \<Rightarrow> node \<Rightarrow> node links \<Rightarrow> node links option" where
  "insert_loop base le h =
     (case list_next le h of
        FreeList \<Rightarrow> Some h
      | PageLink pg \<Rightarrow>
          if base < pg then Some (list_add_before (PageLink pg) (PageLink base) h)
          else if list_next (PageLink pg) h = FreeList
          then insert_loop base (PageLink pg) (list_add (PageLink pg) (PageLink base) h)
          else insert_loop base (PageLink pg) h)"

definition insert_block :: "nat \<Rightarrow> pmm \<Rightarrow> pmm option" where
  "insert_block base s =
     (if list_empty FreeList (flinks s)
      then Some (upd_links (list_add FreeList (PageLink base)) s)
      else do {
        h \<leftarrow> insert_loop base FreeList (flinks s);
        Some (s\<lparr>flinks := h\<rparr>)
      })"

definition default_init_memmap :: "nat \<Rightarrow> nat \<Rightarrow> pmm \<Rightarrow> pmm option" where
  "default_init_memmap base n s = do {
     kassert (n > 0);
     s1 \<leftarrow> init_pages base n s;
     let s2 = upd_page base (\<lambda>pg. SetPageProperty (pg\<lparr>property := n\<rparr>)) s1;
     let s3 = s2\<lparr>nr_free := nr_free s2 + n\<rparr>;
     insert_block base s3
   }"

text \<open>The search loop of \<open>default_alloc_pages\<close>: the first block of at least \<open>n\<close> pages.\<close>

partial_function (option) find_first ::
    "nat \<Rightarrow> (nat \<Rightarrow> page) \<Rightarrow> node links \<Rightarrow> node \<Rightarrow> nat option option" where
  "find_first n ps h le =
     (case list_next le h of
        FreeList \<Rightarrow> Some None
      | PageLink p \<Rightarrow>
          if property (ps p) \<ge> n then Some (Some p) else find_first n ps h (PageLink p))"

text \<open>Unlinking the chosen block and returning its tail to the list.\<close>

definition carve :: "nat \<Rightarrow> nat \<Rightarrow> pmm \<Rightarrow> pmm" where
  "carve pg n s =
     (let pr = list_prev (PageLink pg) (flinks s);
          s1 = upd_links (list_del (PageLink pg)) s;
          s2 = (if property (pages s1 pg) > n
                then let p = pg + n;
                         k = property (pages s1 pg) - n;
                         s' = upd_page p (\<lambda>q. SetPageProperty (q\<lparr>property := k\<rparr>)) s1
                     in upd_links (list_add pr (PageLink p)) s'
                else s1);
          s3 = s2\<lparr>nr_free := nr_free s2 - n\<rparr>
      in upd_page pg ClearPageProperty s3)"

definition default_alloc_pages :: "nat \<Rightarrow> pmm \<Rightarrow> (nat option \<times> pmm) option" where
  "default_alloc_pages n s = do {
     kassert (n > 0);
     if n > nr_free s then Some (None, s)
     else do {
       found \<leftarrow> find_first n (pages s) (flinks s) FreeList;
       case found of
         None \<Rightarrow> Some (None, s)
       | Some pg \<Rightarrow> Some (Some pg, carve pg n s)
     }
   }"

text \<open>The first loop of \<open>default_free_pages\<close>.\<close>

fun reset_pages :: "nat \<Rightarrow> nat \<Rightarrow> pmm \<Rightarrow> pmm option" where
  "reset_pages p 0 s = Some s"
| "reset_pages p (Suc n) s = do {
     kassert (\<not> PageReserved (pages s p) \<and> \<not> PageProperty (pages s p));
     reset_pages (Suc p) n (upd_page p (\<lambda>pg. pg\<lparr>flags := 0, ref := 0\<rparr>) s)
   }"

text \<open>Merging with the lower neighbour; the result is the base of the (merged) block.\<close>

definition merge_prev :: "nat \<Rightarrow> pmm \<Rightarrow> nat \<times> pmm" where
  "merge_prev base s =
     (case list_prev (PageLink base) (flinks s) of
        FreeList \<Rightarrow> (base, s)
      | PageLink p \<Rightarrow>
          if p + property (pages s p) = base then
            let s1 = upd_page p (\<lambda>q. q\<lparr>property := property q + property (pages s base)\<rparr>) s;
                s2 = upd_page base ClearPageProperty s1
            in (p, upd_links (list_del (PageLink base)) s2)
          else (base, s))"

definition merge_next :: "nat \<Rightarrow> pmm \<Rightarrow> pmm" where
  "merge_next base s =
     (case list_next (PageLink base) (flinks s) of
        FreeList \<Rightarrow> s
      | PageLink p \<Rightarrow>
          if base + property (pages s base) = p then
            let s1 = upd_page base (\<lambda>q. q\<lparr>property := property q + property (pages s p)\<rparr>) s;
                s2 = upd_page p ClearPageProperty s1
            in upd_links (list_del (PageLink p)) s2
          else s)"

definition default_free_pages :: "nat \<Rightarrow> nat \<Rightarrow> pmm \<Rightarrow> pmm option" where
  "default_free_pages base n s = do {
     kassert (n > 0);
     s1 \<leftarrow> reset_pages base n s;
     let s2 = upd_page base (\<lambda>pg. SetPageProperty (pg\<lparr>property := n\<rparr>)) s1;
     let s3 = s2\<lparr>nr_free := nr_free s2 + n\<rparr>;
     s4 \<leftarrow> insert_block base s3;
     let (b, s5) = merge_prev base s4;
     Some (merge_next b s5)
   }"

definition default_nr_free_pages :: "pmm \<Rightarrow> nat" where
  "default_nr_free_pages s = nr_free s"

lemma list_next_chain: "chain h (le # y # ys) \<Longrightarrow> list_next le h = y"
  by (simp add: list_next_def)

section \<open>The free list as a set of page blocks\<close>

definition block :: "pmm \<Rightarrow> nat \<Rightarrow> nat set" where
  "block s x = {x ..< x + property (pages s x)}"

definition free_set :: "pmm \<Rightarrow> nat set" where
  "free_set s = (\<Union>x \<in> {x. PageProperty (pages s x)}. block s x)"

definition separated :: "(nat \<Rightarrow> page) \<Rightarrow> nat list \<Rightarrow> bool" where
  "separated ps xs \<longleftrightarrow> sorted_wrt (\<lambda>a b. a + property (ps a) < b) xs
     \<and> (\<forall>x \<in> set xs. 0 < property (ps x))"

definition pmm_ok :: "nat list \<Rightarrow> pmm \<Rightarrow> bool" where
  "pmm_ok xs s \<longleftrightarrow> dlist (flinks s) FreeList (map PageLink xs)
     \<and> separated (pages s) xs
     \<and> (\<forall>x. PageProperty (pages s x) \<longleftrightarrow> x \<in> set xs)
     \<and> nr_free s = (\<Sum>x\<leftarrow>xs. property (pages s x))"

definition pmm_inv :: "pmm \<Rightarrow> bool" where
  "pmm_inv s \<longleftrightarrow> (\<exists>xs. pmm_ok xs s)"

lemma separated_cong:
  "(\<And>x. x \<in> set xs \<Longrightarrow> property (ps' x) = property (ps x)) \<Longrightarrow> separated ps xs \<Longrightarrow> separated ps' xs"
  unfolding separated_def by (auto elim!: sorted_wrt_mono_rel [rotated])

lemma separated_append:
  "separated ps (us @ vs) \<longleftrightarrow> separated ps us \<and> separated ps vs
     \<and> (\<forall>u \<in> set us. \<forall>v \<in> set vs. u + property (ps u) < v)"
  by (auto simp: separated_def sorted_wrt_append)

lemma separated_Cons:
  "separated ps (x # vs) \<longleftrightarrow> 0 < property (ps x) \<and> separated ps vs
     \<and> (\<forall>v \<in> set vs. x + property (ps x) < v)"
  by (auto simp: separated_def)

lemma separated_Nil [simp]: "separated ps []"
  by (simp add: separated_def)

lemma separated_distinct: "separated ps xs \<Longrightarrow> distinct xs"
  by (induction xs) (auto simp: separated_Cons)

lemma free_set_ok: "pmm_ok xs s \<Longrightarrow> free_set s = (\<Union>x \<in> set xs. block s x)"
  by (simp add: pmm_ok_def free_set_def)

lemma sorted_wrt_elems:
  "sorted_wrt P xs \<Longrightarrow> x \<in> set xs \<Longrightarrow> y \<in> set xs \<Longrightarrow> x \<noteq> y \<Longrightarrow> P x y \<or> P y x"
  by (induction xs) auto

lemma separated_block_disjoint:
  assumes "separated (pages s) xs" "x \<in> set xs" "y \<in> set xs" "x \<noteq> y"
  shows "block s x \<inter> block s y = {}"
  using sorted_wrt_elems [of _ xs x y] assms unfolding separated_def block_def by fastforce

lemma pmm_ok_card: 
  assumes "pmm_ok xs s" shows "nr_free s = card (free_set s)" and "finite (free_set s)"
proof -
  have sep: "separated (pages s) xs" using assms by (simp add: pmm_ok_def)
  have "card (\<Union>x \<in> set xs. block s x) = (\<Sum>x \<in> set xs. card (block s x))"
    by (rule card_UN_disjoint) (use separated_block_disjoint [OF sep] in \<open>auto simp: block_def\<close>)
  also have "\<dots> = (\<Sum>x\<leftarrow>xs. property (pages s x))"
    using separated_distinct [OF sep] by (simp add: block_def sum_list_distinct_conv_sum_set)
  finally show "nr_free s = card (free_set s)"
    using assms by (simp add: pmm_ok_def free_set_ok [OF assms])
  show "finite (free_set s)" using assms by (simp add: free_set_ok block_def)
qed

section \<open>Allocation\<close>

lemma find_first_chain:
  "chain h (le # map PageLink xs @ [FreeList]) \<Longrightarrow>
     find_first n ps h le = Some (List.find (\<lambda>x. property (ps x) \<ge> n) xs)"
proof (induction xs arbitrary: le)
  case Nil
  then show ?case by (subst find_first.simps) (simp add: list_next_def)
next
  case (Cons x xs)
  then show ?case by (subst find_first.simps) (simp add: list_next_def)
qed

lemma find_first_ok:
  "pmm_ok xs s \<Longrightarrow> find_first n (pages s) (flinks s) FreeList
     = Some (List.find (\<lambda>x. property (pages s x) \<ge> n) xs)"
  by (rule find_first_chain) (simp add: pmm_ok_def dlist_def)

lemma carve_ok:
  assumes ok: "pmm_ok (us @ x # vs) s" and n: "0 < n" "n \<le> property (pages s x)"
  defines "mid \<equiv> if property (pages s x) > n then [x + n] else []"
  shows "pmm_ok (us @ mid @ vs) (carve x n s)"
    and "free_set (carve x n s) = free_set s - {x ..< x + n}"
    and "{x ..< x + n} \<subseteq> free_set s"
    and "\<And>i. ref (pages (carve x n s) i) = ref (pages s i)"
    and "\<And>i. PageReserved (pages (carve x n s) i) = PageReserved (pages s i)"
proof -
  let ?s = "carve x n s" and ?k = "property (pages s x) - n"
  have d: "dlist (flinks s) FreeList (map PageLink us @ PageLink x # map PageLink vs)"
    and sep: "separated (pages s) (us @ x # vs)"
    and pp: "\<And>i. PageProperty (pages s i) \<longleftrightarrow> i \<in> set (us @ x # vs)"
    and nr: "nr_free s = (\<Sum>i\<leftarrow>us @ x # vs. property (pages s i))"
    using ok by (simp_all add: pmm_ok_def)
  have xin: "block s x \<subseteq> free_set s" using ok by (auto simp: free_set_ok)
  then show "{x ..< x + n} \<subseteq> free_set s" using n by (auto simp: block_def)
  have prev: "list_prev (PageLink x) (flinks s) = last (FreeList # map PageLink us)"
    using dlist_prev_elem [OF d] .
  have fresh: "x + n \<notin> set (us @ x # vs)" if "n < property (pages s x)"
    using sep that n by (auto simp: separated_append separated_Cons dest!: bspec)
  have d': "dlist (flinks ?s) FreeList (map PageLink (us @ mid @ vs))"
  proof (cases "n < property (pages s x)")
    case True
    have "dlist (list_add (last (FreeList # map PageLink us)) (PageLink (x + n)) (list_del (PageLink x) (flinks s)))
        FreeList (map PageLink us @ PageLink (x + n) # map PageLink vs)"
      by (rule dlist_add_at [OF dlist_del [OF d]]) (use fresh [OF True] in auto)
    with True show ?thesis by (simp add: carve_def Let_def prev mid_def)
  next
    case False
    with dlist_del [OF d] show ?thesis by (simp add: carve_def Let_def mid_def)
  qed
  have pgs: "pages ?s = (pages s)(x := ClearPageProperty (pages s x)) " if "\<not> n < property (pages s x)"
    using that by (auto simp: carve_def Let_def)
  have pgs': "pages ?s = (pages s)(x := ClearPageProperty (pages s x),
      x + n := SetPageProperty ((pages s (x + n))\<lparr>property := ?k\<rparr>))" if "n < property (pages s x)"
    using that n by (auto simp: carve_def Let_def fun_eq_iff)
  show "ref (pages ?s i) = ref (pages s i)" for i
    by (cases "n < property (pages s x)") (simp_all add: pgs pgs' ClearPageProperty_def)
  show "PageReserved (pages ?s i) = PageReserved (pages s i)" for i
    by (cases "n < property (pages s x)") (simp_all add: pgs pgs')
  have prp: "property (pages ?s i) = (if i = x + n \<and> n < property (pages s x) then ?k else property (pages s i))" for i
  proof (cases "n < property (pages s x)")
    case True
    then show ?thesis using n by (simp add: pgs' [OF True])
  next
    case False
    then show ?thesis by (simp add: pgs [OF False])
  qed
  have PP: "PageProperty (pages ?s i) \<longleftrightarrow> i \<in> set (us @ mid @ vs)" for i
  proof (cases "n < property (pages s x)")
    case True
    then show ?thesis using pp separated_distinct [OF sep] n by (auto simp: mid_def pgs' [OF True])
  next
    case False
    then show ?thesis using pp separated_distinct [OF sep] by (auto simp: mid_def pgs [OF False])
  qed
  have sep': "separated (pages ?s) (us @ mid @ vs)"
  proof -
    have "separated (pages ?s) us" "separated (pages ?s) vs"
      using sep fresh by (auto simp: separated_append separated_Cons prp intro!: separated_cong [of us _ "pages s"] separated_cong [of vs _ "pages s"])
    moreover have "u + property (pages ?s u) < v" if "u \<in> set us" "v \<in> set mid \<union> set vs" for u v
    proof -
      have "u + property (pages ?s u) = u + property (pages s u)" using that fresh by (auto simp: prp)
      moreover have "u + property (pages s u) < x" "\<forall>v\<in>set vs. u + property (pages s u) < v"
        using sep that by (auto simp: separated_append separated_Cons)
      moreover have "v = x + n \<or> v \<in> set vs"
        using that(2) by (cases "n < property (pages s x)") (simp_all add: mid_def)
      ultimately show ?thesis by auto
    qed
    moreover have "\<forall>v\<in>set vs. x + property (pages s x) < v"
      using sep by (auto simp: separated_append separated_Cons)
    moreover have "separated (pages ?s) mid"
      by (cases "n < property (pages s x)") (simp_all add: mid_def separated_Cons prp)
    moreover have "\<forall>w \<in> set mid. \<forall>v \<in> set vs. w + property (pages ?s w) < v"
      using \<open>\<forall>v\<in>set vs. x + property (pages s x) < v\<close>
      by (cases "n < property (pages s x)") (simp_all add: mid_def prp)
    ultimately show ?thesis unfolding separated_append by simp
  qed
  have nr': "nr_free ?s = (\<Sum>i\<leftarrow>us @ mid @ vs. property (pages ?s i))"
  proof -
    have "map (\<lambda>i. property (pages ?s i)) us = map (\<lambda>i. property (pages s i)) us"
      "map (\<lambda>i. property (pages ?s i)) vs = map (\<lambda>i. property (pages s i)) vs"
      using fresh by (auto simp: prp)
    then have eq: "(\<Sum>i\<leftarrow>us @ mid @ vs. property (pages ?s i))
        = (\<Sum>i\<leftarrow>us. property (pages s i)) + (\<Sum>i\<leftarrow>mid. property (pages ?s i))
          + (\<Sum>i\<leftarrow>vs. property (pages s i))"
      by (simp del: map_eq_conv)
    have "(\<Sum>i\<leftarrow>mid. property (pages ?s i)) = property (pages s x) - n"
      using n by (cases "n < property (pages s x)") (simp_all add: mid_def prp)
    moreover have "nr_free ?s = nr_free s - n" by (simp add: carve_def Let_def)
    ultimately show ?thesis unfolding eq using nr n by simp
  qed
  show ok': "pmm_ok (us @ mid @ vs) ?s"
    using d' sep' PP nr' by (simp add: pmm_ok_def)
  have blk: "block ?s i = block s i" if "i \<in> set us \<union> set vs" for i
    using that fresh by (auto simp: block_def prp)
  have split: "(\<Union>i\<in>set mid. block ?s i) = block s x - {x ..< x + n}"
    using n by (cases "n < property (pages s x)") (auto simp: block_def prp mid_def)
  have disj: "{x ..< x + n} \<inter> block s i = {}" if "i \<in> set us \<union> set vs" for i
  proof -
    have "i \<noteq> x" "i \<in> set (us @ x # vs)" using that separated_distinct [OF sep] by auto
    then have "block s x \<inter> block s i = {}" using separated_block_disjoint [OF sep, of x i] by simp
    then show ?thesis using n by (auto simp: block_def)
  qed
  show "free_set ?s = free_set s - {x ..< x + n}"
  proof -
    have "(\<Union>i\<in>set us \<union> set vs. block s i) - {x ..< x + n} = (\<Union>i\<in>set us \<union> set vs. block s i)"
      using disj by blast
    moreover have "free_set ?s = (\<Union>i\<in>set us \<union> set vs. block s i) \<union> (\<Union>i\<in>set mid. block ?s i)"
      unfolding free_set_ok [OF ok'] using blk by auto
    moreover have "free_set s = (\<Union>i\<in>set us \<union> set vs. block s i) \<union> block s x"
      unfolding free_set_ok [OF ok] by auto
    ultimately show ?thesis by (simp add: split Un_Diff)
  qed
qed

lemma find_split:
  "List.find P xs = Some x \<Longrightarrow> \<exists>us vs. xs = us @ x # vs \<and> (\<forall>u \<in> set us. \<not> P u) \<and> P x"
proof (induction xs)
  case (Cons a xs)
  then show ?case
  proof (cases "P a")
    case True
    with Cons.prems show ?thesis by (intro exI [of _ "[]"] exI [of _ xs]) simp
  next
    case False
    with Cons obtain us vs where "xs = us @ x # vs \<and> (\<forall>u \<in> set us. \<not> P u) \<and> P x" by auto
    with False show ?thesis by (intro exI [of _ "a # us"] exI [of _ vs]) simp
  qed
qed simp

lemma nr_free_ge: "pmm_ok xs s \<Longrightarrow> x \<in> set xs \<Longrightarrow> property (pages s x) \<le> nr_free s"
  by (simp add: pmm_ok_def member_le_sum_list)

lemma default_alloc_cases:
  assumes ok: "pmm_ok xs s" and n: "0 < n"
  shows "(\<exists>us x vs. xs = us @ x # vs \<and> (\<forall>u \<in> set us. property (pages s u) < n)
            \<and> n \<le> property (pages s x) \<and> default_alloc_pages n s = Some (Some x, carve x n s))
       \<or> ((\<forall>x \<in> set xs. property (pages s x) < n) \<and> default_alloc_pages n s = Some (None, s))"
proof (cases "List.find (\<lambda>x. n \<le> property (pages s x)) xs")
  case None
  then have "\<forall>x \<in> set xs. property (pages s x) < n" by (auto simp: find_None_iff)
  then show ?thesis using n by (simp add: default_alloc_pages_def find_first_ok [OF ok] None)
next
  case (Some x)
  then obtain us vs where xs: "xs = us @ x # vs" "\<forall>u \<in> set us. \<not> n \<le> property (pages s u)" "n \<le> property (pages s x)"
    using find_split [OF Some] by blast
  then have "\<not> n > nr_free s" using nr_free_ge [OF ok, of x] by simp
  then have "default_alloc_pages n s = Some (Some x, carve x n s)"
    using n by (simp add: default_alloc_pages_def find_first_ok [OF ok] Some)
  with xs show ?thesis by (intro disjI1 exI [of _ us] exI [of _ x] exI [of _ vs]) auto
qed

text \<open>No run of \<open>n\<close> free pages exists outside the blocks: adjacent blocks are always merged.\<close>

lemma free_run_in_block:
  assumes ok: "pmm_ok xs s" and run: "{p ..< p + n} \<subseteq> free_set s" "0 < n"
  shows "\<exists>x \<in> set xs. {p ..< p + n} \<subseteq> block s x"
  using run
proof (induction n)
  case (Suc n)
  have sep: "separated (pages s) xs" using ok by (simp add: pmm_ok_def)
  obtain y where y: "y \<in> set xs" "p + n \<in> block s y"
    using subsetD [OF Suc.prems(1), of "p + n"] by (auto simp: free_set_ok [OF ok])
  show ?case
  proof (cases "n = 0")
    case True
    then show ?thesis using y by (intro bexI [of _ y]) (auto simp: block_def)
  next
    case False
    have "{p ..< p + n} \<subseteq> free_set s" by (rule order_trans [OF _ Suc.prems(1)]) auto
    with Suc.IH False obtain x where x: "x \<in> set xs" "{p ..< p + n} \<subseteq> block s x" by auto
    have "p + n - 1 \<in> block s x" using x(2) False by auto
    then have "x = y"
      using sorted_wrt_elems [of _ xs x y] sep x(1) y
      unfolding separated_def block_def by fastforce
    then have "{p ..< p + Suc n} \<subseteq> block s x" using x(2) y(2) by (auto simp: less_Suc_eq)
    with x(1) show ?thesis by blast
  qed
qed simp

section \<open>Insertion\<close>

lemma insert_loop_before:
  assumes "chain h (le # map PageLink us @ PageLink v # rest)" "rest \<noteq> []"
    and "\<forall>u \<in> set us. \<not> base < u" "base < v"
  shows "insert_loop base le h = Some (list_add_before (PageLink v) (PageLink base) h)"
  using assms
proof (induction us arbitrary: le)
  case Nil
  then show ?case by (subst insert_loop.simps) (simp add: list_next_def)
next
  case (Cons u us)
  have "list_next (PageLink u) h \<noteq> FreeList"
    using Cons.prems(1) by (cases us) (auto simp: list_next_def)
  with Cons show ?case by (subst insert_loop.simps) (simp add: list_next_def)
qed

text \<open>
  Beyond the last block the loop links the new entry and then, one round later, links it
  after itself: its \<open>prev\<close> field ends up pointing at itself.
\<close>

lemma insert_loop_tail:
  assumes "dlist h FreeList (map PageLink (us @ [u]))" "\<forall>v \<in> set (us @ [u]). v < base"
  shows "insert_loop base FreeList h
     = Some (let h1 = list_add (PageLink u) (PageLink base) h
             in h1\<lparr>prv := (prv h1)(PageLink base := PageLink base)\<rparr>)"
proof -
  let ?h1 = "list_add (PageLink u) (PageLink base) h"
  let ?h2 = "list_add (PageLink base) (PageLink base) ?h1"
  have walk: "insert_loop base le h = insert_loop base (PageLink u) ?h1"
    if "chain h (le # map PageLink (ws @ [u]) @ [FreeList])" "\<forall>v \<in> set ws. v < base" for le ws
    using that
  proof (induction ws arbitrary: le)
    case Nil
    then show ?case using assms(2) by (subst insert_loop.simps) (simp add: list_next_def)
  next
    case (Cons w ws)
    have "list_next (PageLink w) h \<noteq> FreeList"
      using Cons.prems(1) by (cases ws) (auto simp: list_next_def)
    with Cons show ?case by (subst insert_loop.simps) (simp add: list_next_def)
  qed
  have d1: "dlist ?h1 FreeList (map PageLink us @ [PageLink u, PageLink base])"
    using dlist_add_after [of h FreeList "map PageLink us" "PageLink u" "[]" "PageLink base"] assms by auto
  have n1: "nxt ?h1 (PageLink u) = PageLink base" "nxt ?h1 (PageLink base) = FreeList"
    "prv ?h1 FreeList = PageLink base"
    using dlist_next_elem [OF d1] dlist_next_elem [of ?h1 FreeList "map PageLink us @ [PageLink u]" "PageLink base" "[]"]
      dlist_prev_head [OF d1] d1 by (simp_all add: list_next_def list_prev_def)
  have h2: "?h2 = ?h1\<lparr>prv := (prv ?h1)(PageLink base := PageLink base)\<rparr>"
    using n1 by (simp add: list_add_def list_add_after_def list_add_between_def Let_def fun_upd_idem fun_upd_twist)
  have "insert_loop base (PageLink u) ?h1 = insert_loop base (PageLink base) ?h2"
    using n1 by (subst insert_loop.simps) (simp add: list_next_def)
  also have "\<dots> = Some ?h2"
    using n1 by (subst insert_loop.simps) (simp add: list_next_def h2)
  finally show ?thesis
    using walk [of FreeList us] assms by (simp add: dlist_def h2 Let_def)
qed

section \<open>Freeing\<close>

lemma reset_pages_Some:
  assumes "\<forall>i \<in> {p ..< p + n}. \<not> PageReserved (pages s i) \<and> \<not> PageProperty (pages s i)"
  shows "reset_pages p n s = Some (s\<lparr>pages := \<lambda>i. if i \<in> {p ..< p + n}
            then (pages s i)\<lparr>flags := 0, ref := 0\<rparr> else pages s i\<rparr>)"
  using assms
proof (induction n arbitrary: p s)
  case 0
  then show ?case by (cases s) simp
next
  case (Suc n)
  let ?s = "upd_page p (\<lambda>pg. pg\<lparr>flags := 0, ref := 0\<rparr>) s"
  have "reset_pages (Suc p) n ?s = Some (?s\<lparr>pages := \<lambda>i. if i \<in> {Suc p ..< Suc p + n}
            then (pages ?s i)\<lparr>flags := 0, ref := 0\<rparr> else pages ?s i\<rparr>)"
    by (rule Suc.IH) (use Suc.prems in auto)
  moreover have "\<not> PageReserved (pages s p) \<and> \<not> PageProperty (pages s p)" using Suc.prems by auto
  ultimately show ?case
    by (cases s) (auto simp: bind_kassert_if upd_page_def fun_eq_iff)
qed

text \<open>
  The state of the free list with the block \<open>base\<close> linked between \<open>us\<close> and \<open>vs\<close>,
  before the merges: touching blocks are still allowed next to \<open>base\<close>.
\<close>

definition linked_ok :: "nat list \<Rightarrow> nat \<Rightarrow> nat list \<Rightarrow> pmm \<Rightarrow> bool" where
  "linked_ok us base vs s \<longleftrightarrow>
     dlist (flinks s) FreeList (map PageLink (us @ base # vs))
     \<and> separated (pages s) us \<and> separated (pages s) vs \<and> 0 < property (pages s base)
     \<and> (\<forall>u \<in> set us. u + property (pages s u) \<le> base)
     \<and> (\<forall>v \<in> set vs. base + property (pages s base) \<le> v)
     \<and> (\<forall>x. PageProperty (pages s x) \<longleftrightarrow> x \<in> set (us @ base # vs))
     \<and> nr_free s = (\<Sum>x\<leftarrow>us @ base # vs. property (pages s x))"

lemma merge_prev_ok:
  assumes ok: "linked_ok us base vs s"
  obtains us' b s' where "merge_prev base s = (b, s')" "linked_ok us' b vs s'"
    "\<forall>u \<in> set us'. u + property (pages s' u) < b" "free_set s' = free_set s"
    "\<And>i. ref (pages s' i) = ref (pages s i)" "\<And>i. PageReserved (pages s' i) = PageReserved (pages s i)"
proof -
  have d: "dlist (flinks s) FreeList (map PageLink us @ PageLink base # map PageLink vs)"
    using ok by (simp add: linked_ok_def)
  have prev: "list_prev (PageLink base) (flinks s) = last (FreeList # map PageLink us)"
    using dlist_prev_elem [OF d] .
  show thesis
  proof (cases us rule: rev_cases)
    case Nil
    then have "merge_prev base s = (base, s)" using prev by (simp add: merge_prev_def)
    then show thesis by (rule that) (use ok Nil in auto)
  next
    case (snoc ws p)
    show thesis
    proof (cases "p + property (pages s p) = base")
      case False
      then have m: "merge_prev base s = (base, s)" using prev snoc by (simp add: merge_prev_def)
      have sep: "separated (pages s) (ws @ [p])" using ok snoc by (simp add: linked_ok_def)
      have "u + property (pages s u) < base" if "u \<in> set us" for u
      proof (cases "u \<in> set ws")
        case True
        then have "u + property (pages s u) < p" using sep by (simp add: separated_append)
        then show ?thesis using ok snoc by (auto simp: linked_ok_def)
      next
        case f: False
        then have "u = p" using that snoc by simp
        then show ?thesis using ok snoc False by (auto simp: linked_ok_def)
      qed
      then show thesis using m ok by (intro that [of base s us]) auto
    next
      case True
      define s' where "s' = snd (merge_prev base s)"
      have m: "merge_prev base s = (p, s')" and
        pg: "pages s' = (pages s)(p := (pages s p)\<lparr>property := property (pages s p) + property (pages s base)\<rparr>,
               base := ClearPageProperty (pages s base))" and
        l: "flinks s' = list_del (PageLink base) (flinks s)" and nr: "nr_free s' = nr_free s"
        using prev snoc True ok by (auto simp: s'_def merge_prev_def Let_def linked_ok_def)
      have pb: "p \<noteq> base" "p \<notin> set ws" "base \<notin> set ws" "base \<notin> set vs" "p \<notin> set vs"
        using d snoc by (auto simp: dlist_def)
      have l': "linked_ok ws p vs s'"
        unfolding linked_ok_def
      proof (intro conjI)
        show "dlist (flinks s') FreeList (map PageLink (ws @ p # vs))"
          using dlist_del [OF d] snoc by (simp add: l)
        have sep: "separated (pages s) (ws @ [p])" "separated (pages s) vs" using ok snoc by (simp_all add: linked_ok_def)
        show "separated (pages s') ws" "separated (pages s') vs"
          by (rule separated_cong [of _ _ "pages s"]; use sep pb in \<open>auto simp: pg separated_append\<close>)+
        show "0 < property (pages s' p)" using pb ok by (simp add: pg linked_ok_def)
        show "\<forall>u \<in> set ws. u + property (pages s' u) \<le> p"
          using sep pb by (auto simp: pg separated_append less_imp_le)
        show "\<forall>v \<in> set vs. p + property (pages s' p) \<le> v"
          using ok True pb by (auto simp: pg linked_ok_def)
        show "\<forall>x. PageProperty (pages s' x) \<longleftrightarrow> x \<in> set (ws @ p # vs)"
          using ok snoc pb by (auto simp: pg linked_ok_def)
        have "map (\<lambda>x. property (pages s' x)) ws = map (\<lambda>x. property (pages s x)) ws"
          "map (\<lambda>x. property (pages s' x)) vs = map (\<lambda>x. property (pages s x)) vs"
          using pb by (auto simp: pg)
        then have "(\<Sum>x\<leftarrow>ws @ p # vs. property (pages s' x)) = (\<Sum>x\<leftarrow>ws. property (pages s x))
           + property (pages s' p) + (\<Sum>x\<leftarrow>vs. property (pages s x))"
          by (simp del: map_eq_conv)
        then show "nr_free s' = (\<Sum>x\<leftarrow>ws @ p # vs. property (pages s' x))"
          using ok snoc pb by (simp add: nr linked_ok_def) (simp add: pg)
      qed
      have "free_set s' = free_set s"
      proof -
        have e: "free_set t = (\<Union>x \<in> {x. PageProperty (pages t x)}. block t x)" for t by (simp add: free_set_def)
        have bl: "block s' x = block s x" if "x \<in> set ws \<union> set vs" for x
          using that pb by (auto simp: block_def pg)
        have "block s' p = block s p \<union> block s base" using True pb by (auto simp: block_def pg)
        moreover have "{x. PageProperty (pages s' x)} = insert p (set ws \<union> set vs)"
          "{x. PageProperty (pages s x)} = insert p (insert base (set ws \<union> set vs))"
          using l' ok snoc by (auto simp: linked_ok_def)
        ultimately show ?thesis unfolding e using bl by auto
      qed
      moreover have "\<forall>u \<in> set ws. u + property (pages s' u) < p"
        using ok snoc pb by (auto simp: linked_ok_def separated_append pg)
      ultimately show thesis using that [OF m l'] by (simp add: pg)
    qed
  qed
qed

lemma merge_next_ok:
  assumes ok: "linked_ok us base vs s" and lt: "\<forall>u \<in> set us. u + property (pages s u) < base"
  shows "pmm_inv (merge_next base s)" "free_set (merge_next base s) = free_set s"
    "ref (pages (merge_next base s) i) = ref (pages s i)"
proof -
  have d: "dlist (flinks s) FreeList (map PageLink us @ PageLink base # map PageLink vs)"
    using ok by (simp add: linked_ok_def)
  have next': "list_next (PageLink base) (flinks s) = hd (map PageLink vs @ [FreeList])"
    using dlist_next_elem [OF d] .
  have sep0: "separated (pages s) us" "separated (pages s) vs" "0 < property (pages s base)"
    using ok by (simp_all add: linked_ok_def)
  let ?t = "merge_next base s"
  have "pmm_inv ?t \<and> free_set ?t = free_set s \<and> (\<forall>i. ref (pages ?t i) = ref (pages s i))"
  proof (cases "vs \<noteq> [] \<and> base + property (pages s base) = hd vs")
    case False
    then have m: "?t = s" using next' by (cases vs) (simp_all add: merge_next_def)
    have "\<forall>v \<in> set vs. base + property (pages s base) < v"
    proof (cases vs)
      case (Cons w ws)
      then have "base + property (pages s base) < w" using ok False by (auto simp: linked_ok_def le_less)
      then show ?thesis using Cons sep0 by (auto simp: separated_Cons dest!: bspec)
    qed simp
    then have "separated (pages s) (us @ base # vs)"
      using sep0 lt by (auto simp: separated_append separated_Cons dest!: bspec)
    then have "pmm_ok (us @ base # vs) s" using ok by (simp add: pmm_ok_def linked_ok_def)
    then show ?thesis using m by (auto simp: pmm_inv_def)
  next
    case True
    then obtain v ws where vs: "vs = v # ws" and adj: "base + property (pages s base) = v" by (cases vs) auto
    have pg: "pages ?t = (pages s)(base := (pages s base)\<lparr>property := property (pages s base) + property (pages s v)\<rparr>,
           v := ClearPageProperty (pages s v))" and
      l: "flinks ?t = list_del (PageLink v) (flinks s)" and nr: "nr_free ?t = nr_free s"
      using next' vs adj sep0 by (auto simp: merge_next_def Let_def)
    have pb: "v \<noteq> base" "v \<notin> set us" "v \<notin> set ws" "base \<notin> set us" "base \<notin> set ws"
      using d vs by (auto simp: dlist_def)
    have ok': "pmm_ok (us @ base # ws) ?t"
      unfolding pmm_ok_def
    proof (intro conjI)
      have "dlist (flinks s) FreeList ((map PageLink us @ [PageLink base]) @ PageLink v # map PageLink ws)"
        using d vs by simp
      from dlist_del [OF this] show "dlist (flinks ?t) FreeList (map PageLink (us @ base # ws))"
        by (simp add: l)
      have "separated (pages ?t) us" "separated (pages ?t) ws"
        by (rule separated_cong [of _ _ "pages s"]; use sep0 pb in \<open>auto simp: pg vs separated_Cons\<close>)+
      moreover have "\<forall>u \<in> set us. u + property (pages ?t u) < base" using lt pb by (auto simp: pg)
      moreover have "\<forall>w \<in> set ws. base + property (pages ?t base) < w"
        using sep0 pb adj by (auto simp: pg vs separated_Cons)
      moreover have "\<forall>w \<in> set ws. base < w"
        using sep0 adj by (auto simp: vs separated_Cons dest!: bspec)
      moreover have "0 < property (pages ?t base)" using sep0 pb by (simp add: pg)
      ultimately show "separated (pages ?t) (us @ base # ws)"
        unfolding separated_append separated_Cons by (auto dest: order.strict_trans)
      show "\<forall>x. PageProperty (pages ?t x) \<longleftrightarrow> x \<in> set (us @ base # ws)"
        using ok pb by (auto simp: pg vs linked_ok_def)
      have "map (\<lambda>x. property (pages ?t x)) us = map (\<lambda>x. property (pages s x)) us"
        "map (\<lambda>x. property (pages ?t x)) ws = map (\<lambda>x. property (pages s x)) ws"
        using pb by (auto simp: pg)
      then have "(\<Sum>x\<leftarrow>us @ base # ws. property (pages ?t x)) = (\<Sum>x\<leftarrow>us. property (pages s x))
         + property (pages ?t base) + (\<Sum>x\<leftarrow>ws. property (pages s x))"
        by (simp del: map_eq_conv)
      then show "nr_free ?t = (\<Sum>x\<leftarrow>us @ base # ws. property (pages ?t x))"
        using ok pb by (simp add: nr linked_ok_def vs) (simp add: pg)
    qed
    have bl: "block ?t x = block s x" if "x \<in> set us \<union> set ws" for x
      using that pb by (auto simp: block_def pg)
    have "block ?t base = block s base \<union> block s v" using adj pb by (auto simp: block_def pg)
    moreover have "{x. PageProperty (pages s x)} = insert base (insert v (set us \<union> set ws))"
      using ok vs by (auto simp: linked_ok_def)
    ultimately have "free_set ?t = free_set s" unfolding free_set_ok [OF ok'] unfolding free_set_def using bl by auto
    then show ?thesis using ok' pb by (auto simp: pmm_inv_def pg)
  qed
  then show "pmm_inv ?t" "free_set ?t = free_set s" "ref (pages ?t i) = ref (pages s i)" by auto
qed

lemma separated_split_at:
  assumes "separated ps xs" "b \<notin> set xs"
  obtains us vs where "xs = us @ vs" "\<forall>u \<in> set us. u < b" "\<forall>v \<in> set vs. b < v"
proof -
  have "sorted_wrt (<) xs" using assms(1) unfolding separated_def by (auto elim!: sorted_wrt_mono_rel [rotated])
  then have "\<forall>v \<in> set (dropWhile (\<lambda>x. x < b) xs). b < v" using assms(2)
    by (induction xs) auto
  moreover have "\<forall>u \<in> set (takeWhile (\<lambda>x. x < b) xs). u < b" by (auto dest: set_takeWhileD)
  ultimately show thesis by (intro that [of "takeWhile (\<lambda>x. x < b) xs" "dropWhile (\<lambda>x. x < b) xs"]) auto
qed

text \<open>Where the block lies below the last one (or the list is empty), insertion is correct.\<close>

lemma insert_block_links:
  assumes d: "dlist (flinks s) FreeList (map PageLink (us @ vs))" and b: "base \<notin> set (us @ vs)"
    and us: "\<forall>u \<in> set us. u < base" and vs: "\<forall>v \<in> set vs. base < v" and c: "us = [] \<or> vs \<noteq> []"
  shows "\<exists>h. insert_block base s = Some (s\<lparr>flinks := h\<rparr>)
           \<and> dlist h FreeList (map PageLink (us @ base # vs))"
proof (cases "us @ vs = []")
  case True
  then show ?thesis using dlist_add_after_head [OF d, of "PageLink base"] dlist_empty_iff [OF d]
    by (intro exI [of _ "list_add FreeList (PageLink base) (flinks s)"])
       (simp add: insert_block_def upd_links_def)
next
  case False
  with c obtain v ws where v: "vs = v # ws" by (cases vs) auto
  have "insert_loop base FreeList (flinks s)
      = Some (list_add_before (PageLink v) (PageLink base) (flinks s))"
    by (rule insert_loop_before [of _ _ us _ "map PageLink ws @ [FreeList]"])
       (use d us vs v in \<open>auto simp: dlist_def\<close>)
  moreover have "dlist (list_add_before (PageLink v) (PageLink base) (flinks s)) FreeList
      (map PageLink us @ PageLink base # PageLink v # map PageLink ws)"
    by (rule dlist_add_before) (use d b v in auto)
  ultimately show ?thesis using dlist_empty_iff [OF d] False v
    by (intro exI [of _ "list_add_before (PageLink v) (PageLink base) (flinks s)"])
       (simp add: insert_block_def)
qed

lemma free_linked:
  assumes ok: "pmm_ok xs s" and n: "0 < n"
    and own: "{base ..< base + n} \<inter> free_set s = {}"
    and res: "\<forall>i \<in> {base ..< base + n}. \<not> PageReserved (pages s i)"
    and low: "free_set s = {} \<or> (\<exists>i \<in> free_set s. base < i)"
  obtains us vs s4 where "linked_ok us base vs s4"
    "default_free_pages base n s = Some (let (b, s5) = merge_prev base s4 in merge_next b s5)"
    "free_set s4 = free_set s \<union> {base ..< base + n}"
    "\<And>i. ref (pages s4 i) = (if i \<in> {base ..< base + n} then 0 else ref (pages s i))"
proof -
  have d: "dlist (flinks s) FreeList (map PageLink xs)" and sep: "separated (pages s) xs"
    and pp: "\<And>x. PageProperty (pages s x) \<longleftrightarrow> x \<in> set xs"
    and nr: "nr_free s = (\<Sum>x\<leftarrow>xs. property (pages s x))"
    using ok by (simp_all add: pmm_ok_def)
  have pos: "\<And>x. x \<in> set xs \<Longrightarrow> 0 < property (pages s x)" using sep by (simp add: separated_def)
  have sub: "block s x \<subseteq> free_set s" if "x \<in> set xs" for x using ok that by (auto simp: free_set_ok)
  have out: "x \<notin> {base ..< base + n}" if "x \<in> set xs" for x
    using own subsetD [OF sub [OF that], of x] pos [OF that] by (auto simp: block_def)
  have b: "base \<notin> set xs" using out [of base] n by auto
  obtain us vs where xs: "xs = us @ vs" and us: "\<forall>u \<in> set us. u < base" and vs: "\<forall>v \<in> set vs. base < v"
    using separated_split_at [OF sep b] by blast
  have us': "u + property (pages s u) \<le> base" if "u \<in> set us" for u
  proof (rule ccontr)
    assume "\<not> u + property (pages s u) \<le> base"
    then have "base \<in> block s u" using us that by (auto simp: block_def)
    then have "base \<in> free_set s" using sub [of u] that xs by auto
    moreover have "base \<in> {base ..< base + n}" using n by simp
    ultimately show False using own by blast
  qed
  have vs': "base + n \<le> v" if "v \<in> set vs" for v
    using out [of v] vs that xs by auto
  have c: "us = [] \<or> vs \<noteq> []"
  proof (rule ccontr)
    assume "\<not> (us = [] \<or> vs \<noteq> [])"
    then have "us \<noteq> []" "vs = []" by auto
    then have "free_set s \<noteq> {}" and "\<forall>i \<in> free_set s. i < base"
      using us' pos xs hd_in_set [of us] by (force simp: free_set_ok [OF ok] block_def)+
    then show False using low by force
  qed
  let ?s1 = "s\<lparr>pages := \<lambda>i. if i \<in> {base ..< base + n}
            then (pages s i)\<lparr>flags := 0, ref := 0\<rparr> else pages s i\<rparr>"
  let ?s2 = "upd_page base (\<lambda>pg. SetPageProperty (pg\<lparr>property := n\<rparr>)) ?s1"
  let ?s3 = "?s2\<lparr>nr_free := nr_free ?s2 + n\<rparr>"
  have r: "reset_pages base n s = Some ?s1"
    by (rule reset_pages_Some) (use res out pp in auto)
  obtain h where ins: "insert_block base ?s3 = Some (?s3\<lparr>flinks := h\<rparr>)"
    and dh: "dlist h FreeList (map PageLink (us @ base # vs))"
    using insert_block_links [of ?s3 us vs base] d b us vs c xs by auto
  let ?s4 = "?s3\<lparr>flinks := h\<rparr>"
  have pb: "property (pages ?s4 base) = n" and po: "\<And>x. x \<noteq> base \<Longrightarrow> property (pages ?s4 x) = property (pages s x)"
    by simp_all
  have lk: "linked_ok us base vs ?s4"
    unfolding linked_ok_def
  proof (intro conjI)
    show "dlist (flinks ?s4) FreeList (map PageLink (us @ base # vs))" using dh by simp
    show "separated (pages ?s4) us" "separated (pages ?s4) vs"
      by (rule separated_cong [of _ _ "pages s"]; use sep b xs in \<open>auto simp: separated_append\<close>)+
    show "0 < property (pages ?s4 base)" using n by simp
    show "\<forall>u \<in> set us. u + property (pages ?s4 u) \<le> base"
      using us' us by (auto simp: po)
    show "\<forall>v \<in> set vs. base + property (pages ?s4 base) \<le> v"
      using vs' by simp
    show "\<forall>x. PageProperty (pages ?s4 x) \<longleftrightarrow> x \<in> set (us @ base # vs)"
      using pp xs out n by auto
    have "map (\<lambda>x. property (pages ?s4 x)) us = map (\<lambda>x. property (pages s x)) us"
        "map (\<lambda>x. property (pages ?s4 x)) vs = map (\<lambda>x. property (pages s x)) vs"
      using b xs by auto
    then have "(\<Sum>x\<leftarrow>us @ base # vs. property (pages ?s4 x)) = (\<Sum>x\<leftarrow>us. property (pages s x))
         + n + (\<Sum>x\<leftarrow>vs. property (pages s x))"
      using pb by (simp del: map_eq_conv)
    then show "nr_free ?s4 = (\<Sum>x\<leftarrow>us @ base # vs. property (pages ?s4 x))"
      using nr xs by simp
  qed
  have "free_set ?s4 = free_set s \<union> {base ..< base + n}"
  proof -
    have "{x. PageProperty (pages ?s4 x)} = insert base (set us \<union> set vs)"
      using lk by (auto simp: linked_ok_def)
    moreover have "block ?s4 x = block s x" if "x \<in> set us \<union> set vs" for x
      using that b xs by (auto simp: block_def)
    moreover have "block ?s4 base = {base ..< base + n}" by (simp add: block_def)
    ultimately show ?thesis unfolding free_set_ok [OF ok] xs unfolding free_set_def by auto
  qed
  moreover have "default_free_pages base n s = Some (let (b, s5) = merge_prev base ?s4 in merge_next b s5)"
    using n r ins by (simp add: default_free_pages_def Let_def split: prod.split)
  ultimately show thesis using that [OF lk] by simp
qed

lemma default_free_ok:
  assumes "pmm_inv s" "0 < n" "{base ..< base + n} \<inter> free_set s = {}"
    "\<forall>i \<in> {base ..< base + n}. \<not> PageReserved (pages s i)"
    "free_set s = {} \<or> (\<exists>i \<in> free_set s. base < i)"
  shows "\<exists>s'. default_free_pages base n s = Some s' \<and> pmm_inv s'
    \<and> free_set s' = free_set s \<union> {base ..< base + n}
    \<and> nr_free s' = nr_free s + n
    \<and> (\<forall>i. ref (pages s' i) = (if i \<in> {base ..< base + n} then 0 else ref (pages s i)))"
proof -
  obtain xs where xs: "pmm_ok xs s" using assms(1) by (auto simp: pmm_inv_def)
  obtain us vs s4 where l: "linked_ok us base vs s4"
    and f: "default_free_pages base n s = Some (let (b, s5) = merge_prev base s4 in merge_next b s5)"
    and fs: "free_set s4 = free_set s \<union> {base ..< base + n}"
    and rf: "\<And>i. ref (pages s4 i) = (if i \<in> {base ..< base + n} then 0 else ref (pages s i))"
    using free_linked [OF xs assms(2-5)] by blast
  obtain us' b s5 where m: "merge_prev base s4 = (b, s5)" "linked_ok us' b vs s5"
    "\<forall>u \<in> set us'. u + property (pages s5 u) < b" "free_set s5 = free_set s4"
    "\<And>i. ref (pages s5 i) = ref (pages s4 i)"
    using merge_prev_ok [OF l] by metis
  let ?t = "merge_next b s5"
  have t: "pmm_inv ?t" "free_set ?t = free_set s4" "\<And>i. ref (pages ?t i) = ref (pages s5 i)"
    using merge_next_ok [OF m(2,3)] m(4) by auto
  have fin: "finite (free_set s)" "nr_free s = card (free_set s)" using pmm_ok_card [OF xs] by auto
  have "nr_free ?t = card (free_set ?t)" using t(1) pmm_ok_card by (auto simp: pmm_inv_def)
  also have "\<dots> = nr_free s + n" using fin assms(3) by (simp add: t(2) fs card_Un_disjoint Int_commute)
  finally show ?thesis using f m t fs rf by auto
qed

lemma init_pages_Some:
  assumes "\<forall>i \<in> {p ..< p + n}. PageReserved (pages s i)"
  shows "init_pages p n s = Some (s\<lparr>pages := \<lambda>i. if i \<in> {p ..< p + n}
            then (pages s i)\<lparr>flags := 0, property := 0, ref := 0\<rparr> else pages s i\<rparr>)"
  using assms
proof (induction n arbitrary: p s)
  case 0
  then show ?case by (cases s) simp
next
  case (Suc n)
  let ?s = "upd_page p (\<lambda>pg. pg\<lparr>flags := 0, property := 0, ref := 0\<rparr>) s"
  have "init_pages (Suc p) n ?s = Some (?s\<lparr>pages := \<lambda>i. if i \<in> {Suc p ..< Suc p + n}
            then (pages ?s i)\<lparr>flags := 0, property := 0, ref := 0\<rparr> else pages ?s i\<rparr>)"
    by (rule Suc.IH) (use Suc.prems in auto)
  moreover have "PageReserved (pages s p)" using Suc.prems by auto
  ultimately show ?case
    by (cases s) (auto simp: bind_kassert_if upd_page_def fun_eq_iff)
qed

lemma default_init_memmap_ok:
  assumes "0 < n" "\<forall>i \<in> {base ..< base + n}. PageReserved (pages s i)"
    "\<forall>i. \<not> PageProperty (pages s i)"
  shows "\<exists>s'. default_init_memmap base n (default_init s) = Some s' \<and> pmm_inv s'
    \<and> free_set s' = {base ..< base + n} \<and> nr_free s' = n"
proof -
  let ?s0 = "default_init s"
  let ?s1 = "?s0\<lparr>pages := \<lambda>i. if i \<in> {base ..< base + n}
            then (pages ?s0 i)\<lparr>flags := 0, property := 0, ref := 0\<rparr> else pages ?s0 i\<rparr>"
  let ?s2 = "upd_page base (\<lambda>pg. SetPageProperty (pg\<lparr>property := n\<rparr>)) ?s1"
  let ?s3 = "?s2\<lparr>nr_free := n\<rparr>"
  have pg: "pages ?s0 = pages s" "nr_free ?s0 = 0" by (simp_all add: default_init_def)
  have "init_pages base n ?s0 = Some ?s1"
    by (rule init_pages_Some) (use assms pg in simp)
  moreover have d: "dlist (flinks ?s3) FreeList (map PageLink ([] @ []))"
    by (simp add: default_init_def dlist_init)
  obtain h where h: "insert_block base ?s3 = Some (?s3\<lparr>flinks := h\<rparr>)"
    "dlist h FreeList (map PageLink [base])"
    using insert_block_links [OF d, of base] by auto
  ultimately have r: "default_init_memmap base n ?s0 = Some (?s3\<lparr>flinks := h\<rparr>)"
    using assms(1) pg by (simp add: default_init_memmap_def Let_def)
  have ok: "pmm_ok [base] (?s3\<lparr>flinks := h\<rparr>)"
    using h assms pg by (auto simp: pmm_ok_def separated_Cons)
  then have "free_set (?s3\<lparr>flinks := h\<rparr>) = {base ..< base + n}"
    by (simp add: free_set_ok block_def)
  with r ok show ?thesis by (auto simp: pmm_inv_def)
qed

section \<open>The contract of \<open>struct pmm_manager\<close> towards its callers\<close>

locale page_source =
  fixes inv :: "'s \<Rightarrow> bool"
    and avail :: "'s \<Rightarrow> nat set"
    and alloc :: "nat \<Rightarrow> 's \<Rightarrow> (nat option \<times> 's) option"
  assumes alloc_total: "inv s \<Longrightarrow> 0 < n \<Longrightarrow> \<exists>r s'. alloc n s = Some (r, s')"
    and alloc_inv: "inv s \<Longrightarrow> alloc n s = Some (r, s') \<Longrightarrow> inv s'"
    and alloc_some: "inv s \<Longrightarrow> alloc n s = Some (Some p, s') \<Longrightarrow>
          {p ..< p + n} \<subseteq> avail s \<and> avail s' = avail s - {p ..< p + n}"
    and alloc_none: "inv s \<Longrightarrow> alloc n s = Some (None, s') \<Longrightarrow> s' = s"

text \<open>A sequence of requests, as a caller issues them; failed requests return no block.\<close>

fun alloc_many :: "(nat \<Rightarrow> 's \<Rightarrow> (nat option \<times> 's) option) \<Rightarrow> nat list \<Rightarrow> 's \<Rightarrow> (nat set list \<times> 's) option" where
  "alloc_many alloc [] s = Some ([], s)"
| "alloc_many alloc (n # ns) s = do {
     (r, s1) \<leftarrow> alloc n s;
     (bs, s2) \<leftarrow> alloc_many alloc ns s1;
     Some ((case r of None \<Rightarrow> {} | Some p \<Rightarrow> {p ..< p + n}) # bs, s2)
   }"

context page_source begin

lemma alloc_many_ok:
  assumes "inv s" "\<forall>n \<in> set ns. 0 < n"
  shows "\<exists>bs s'. alloc_many alloc ns s = Some (bs, s') \<and> inv s'
     \<and> (\<forall>i < length bs. \<forall>j < length bs. i \<noteq> j \<longrightarrow> bs ! i \<inter> bs ! j = {})
     \<and> \<Union> (set bs) \<subseteq> avail s \<and> avail s' = avail s - \<Union> (set bs)"
  using assms
proof (induction ns arbitrary: s)
  case Nil
  then show ?case by simp
next
  case (Cons n ns)
  obtain r s1 where a: "alloc n s = Some (r, s1)" using alloc_total Cons.prems by fastforce
  let ?b = "case r of None \<Rightarrow> {} | Some p \<Rightarrow> {p ..< p + n}"
  have s1: "inv s1" "?b \<subseteq> avail s" "avail s1 = avail s - ?b"
    using a alloc_inv alloc_some alloc_none Cons.prems(1) by (cases r; fastforce)+
  obtain bs s' where bs: "alloc_many alloc ns s1 = Some (bs, s')" "inv s'"
    "\<forall>i < length bs. \<forall>j < length bs. i \<noteq> j \<longrightarrow> bs ! i \<inter> bs ! j = {}"
    "\<Union> (set bs) \<subseteq> avail s1" "avail s' = avail s1 - \<Union> (set bs)"
    using Cons.IH [OF s1(1)] Cons.prems by auto
  have "(?b # bs) ! i \<inter> (?b # bs) ! j = {}" if "i < Suc (length bs)" "j < Suc (length bs)" "i \<noteq> j" for i j
  proof -
    have sep: "?b \<inter> bs ! k = {}" if "k < length bs" for k
      using bs(4) s1(3) nth_mem [OF that] by blast
    show ?thesis using that bs(3) sep by (cases i; cases j) (auto simp: Int_commute)
  qed
  then show ?case using a bs s1 by (intro exI [of _ "?b # bs"] exI [of _ s']) auto
qed

end

lemma default_alloc_spec:
  assumes "pmm_inv s" "0 < n"
  shows "\<exists>r s'. default_alloc_pages n s = Some (r, s') \<and> pmm_inv s' \<and>
    (case r of
       None \<Rightarrow> s' = s \<and> (\<forall>p. \<not> {p ..< p + n} \<subseteq> free_set s)
     | Some p \<Rightarrow> {p ..< p + n} \<subseteq> free_set s \<and> free_set s' = free_set s - {p ..< p + n}
           \<and> nr_free s' = nr_free s - n
           \<and> (\<forall>q. {q ..< q + n} \<subseteq> free_set s \<longrightarrow> p \<le> q))"
proof -
  obtain xs where ok: "pmm_ok xs s" using assms(1) by (auto simp: pmm_inv_def)
  have sep: "separated (pages s) xs" using ok by (simp add: pmm_ok_def)
  have fit: "\<exists>x \<in> set xs. q \<ge> x \<and> n \<le> property (pages s x)" if run: "{q ..< q + n} \<subseteq> free_set s" for q
  proof -
    obtain x where x: "x \<in> set xs" "{q ..< q + n} \<subseteq> block s x"
      using free_run_in_block [OF ok run assms(2)] by blast
    have "q \<in> block s x" "q + n - 1 \<in> block s x" using subsetD [OF x(2)] assms(2) by auto
    then show ?thesis using x(1) by (intro bexI [of _ x]) (auto simp: block_def)
  qed
  from default_alloc_cases [OF ok assms(2)] show ?thesis
  proof (elim disjE exE conjE)
    fix us x vs assume *: "xs = us @ x # vs" "\<forall>u \<in> set us. property (pages s u) < n"
      "n \<le> property (pages s x)" "default_alloc_pages n s = Some (Some x, carve x n s)"
    have "pmm_ok (us @ x # vs) s" using ok * by simp
    note c = carve_ok [OF this assms(2) *(3)]
    have "x \<le> q" if run: "{q ..< q + n} \<subseteq> free_set s" for q
    proof -
      obtain y where y: "y \<in> set xs" "y \<le> q" "n \<le> property (pages s y)" using fit [OF run] by blast
      then have "y \<notin> set us" using * by auto
      then have "x \<le> y" using y sep * by (auto simp: separated_append separated_Cons)
      with y show ?thesis by simp
    qed
    moreover have "nr_free (carve x n s) = nr_free s - n" by (simp add: carve_def Let_def)
    ultimately show ?thesis using * c by (auto simp: pmm_inv_def)
  next
    assume "\<forall>x \<in> set xs. property (pages s x) < n" "default_alloc_pages n s = Some (None, s)"
    then show ?thesis using fit assms(1) by fastforce
  qed
qed

interpretation ff: page_source pmm_inv free_set default_alloc_pages
proof unfold_locales
  fix s n r s' p
  show "pmm_inv s \<Longrightarrow> 0 < n \<Longrightarrow> \<exists>r s'. default_alloc_pages n s = Some (r, s')"
    using default_alloc_spec by blast
  have pos: "default_alloc_pages n s = Some y \<Longrightarrow> 0 < n" for y
    by (auto simp: default_alloc_pages_def bind_kassert_if split: if_splits)
  show "pmm_inv s \<Longrightarrow> default_alloc_pages n s = Some (r, s') \<Longrightarrow> pmm_inv s'"
    using default_alloc_spec [of s n] pos by auto
  show "pmm_inv s \<Longrightarrow> default_alloc_pages n s = Some (Some p, s') \<Longrightarrow>
      {p ..< p + n} \<subseteq> free_set s \<and> free_set s' = free_set s - {p ..< p + n}"
    using default_alloc_spec [of s n] pos by auto
  show "pmm_inv s \<Longrightarrow> default_alloc_pages n s = Some (None, s') \<Longrightarrow> s' = s"
    using default_alloc_spec [of s n] pos by auto
qed

section \<open>Properties of the first-fit allocator\<close>

text \<open>A pool for the examples: one free block of ten pages starting at page 0, the rest in use.\<close>

definition ex_pmm :: pmm where
  "ex_pmm = \<lparr>pages = (\<lambda>i. if i = 0 then \<lparr>ref = 0, flags = 2, property = 10\<rparr>
                               else \<lparr>ref = 0, flags = 0, property = 0\<rparr>),
     flinks = \<lparr>prv = (\<lambda>x. if x = FreeList then PageLink 0 else FreeList),
               nxt = (\<lambda>x. if x = FreeList then PageLink 0 else FreeList)\<rparr>,
     nr_free = 10\<rparr>"

lemma ex_pmm_ok: "pmm_ok [0] ex_pmm"
  by (auto simp: pmm_ok_def ex_pmm_def dlist_def separated_Cons page_flag_defs bit_simps)

lemma ex_pmm_inv: "pmm_inv ex_pmm" and ex_pmm_free: "free_set ex_pmm = {0 ..< 10}"
  using ex_pmm_ok by (auto simp: pmm_inv_def free_set_ok block_def ex_pmm_def)

text \<open>
  C6. First-fit allocation is correct on a well-formed pool: it always returns; a success
  hands out \<open>n\<close> contiguous pages that were free, the lowest such run of the pool, removes exactly
  these pages from the free set and lowers \<open>nr_free\<close> by \<open>n\<close>; it fails only when no run of
  \<open>n\<close> contiguous free pages exists, and then changes nothing.
\<close>

theorem first_fit_alloc_correct:
  assumes "pmm_inv s" "0 < n"
  shows "\<exists>r s'. default_alloc_pages n s = Some (r, s') \<and> pmm_inv s' \<and>
    (case r of
       None \<Rightarrow> s' = s \<and> (\<forall>p. \<not> {p ..< p + n} \<subseteq> free_set s)
     | Some p \<Rightarrow> {p ..< p + n} \<subseteq> free_set s \<and> free_set s' = free_set s - {p ..< p + n}
           \<and> nr_free s' = nr_free s - n
           \<and> (\<forall>q. {q ..< q + n} \<subseteq> free_set s \<longrightarrow> p \<le> q))"
  using assms by (rule default_alloc_spec)

theorem first_fit_alloc_correct_witness:
  "\<exists>r s'. default_alloc_pages 3 ex_pmm = Some (r, s') \<and> pmm_inv s'"
  using first_fit_alloc_correct [OF ex_pmm_inv, of 3] by auto

text \<open>
  C7. Freeing a block that lies below some free page (or into an empty pool) is correct: it
  returns, the pool stays well formed with all adjacent blocks merged, the free set grows by
  exactly the freed pages, \<open>nr_free\<close> grows by \<open>n\<close> and the reference counts of the freed pages are cleared.
\<close>

theorem first_fit_free_correct:
  assumes "pmm_inv s" "0 < n" "{base ..< base + n} \<inter> free_set s = {}"
    "\<forall>i \<in> {base ..< base + n}. \<not> PageReserved (pages s i)"
    "free_set s = {} \<or> (\<exists>i \<in> free_set s. base < i)"
  shows "\<exists>s'. default_free_pages base n s = Some s' \<and> pmm_inv s'
    \<and> free_set s' = free_set s \<union> {base ..< base + n}
    \<and> nr_free s' = nr_free s + n
    \<and> (\<forall>i. ref (pages s' i) = (if i \<in> {base ..< base + n} then 0 else ref (pages s i)))"
  using assms by (rule default_free_ok)

definition ex_pmm_used :: pmm where
  "ex_pmm_used = carve 0 3 ex_pmm"

lemma ex_pmm_used: "pmm_inv ex_pmm_used" "free_set ex_pmm_used = {3 ..< 10}"
  "\<not> PageReserved (pages ex_pmm_used i)"
proof -
  have "pmm_ok ([] @ 0 # []) ex_pmm" using ex_pmm_ok by simp
  note c = carve_ok [OF this, of 3]
  have p: "property (pages ex_pmm 0) = 10" by (simp add: ex_pmm_def)
  show "pmm_inv ex_pmm_used" using c(1) p by (auto simp: pmm_inv_def ex_pmm_used_def)
  show "free_set ex_pmm_used = {3 ..< 10}" using c(2) p by (auto simp: ex_pmm_used_def ex_pmm_free)
  show "\<not> PageReserved (pages ex_pmm_used i)" using c(5) p
    by (auto simp: ex_pmm_used_def ex_pmm_def PageReserved_def PG_reserved_def bit_simps)
qed

theorem first_fit_free_correct_witness:
  "\<exists>s'. default_free_pages 0 2 ex_pmm_used = Some s' \<and> free_set s' = {3 ..< 10} \<union> {0 ..< 2}"
proof -
  have "{0 ..< 0 + 2} \<inter> free_set ex_pmm_used = {}" by (auto simp: ex_pmm_used)
  moreover have "\<exists>i \<in> free_set ex_pmm_used. 0 < i" by (auto simp: ex_pmm_used intro: bexI [of _ 3])
  ultimately show ?thesis
    using first_fit_free_correct [OF ex_pmm_used(1), of 2 0] by (auto simp: ex_pmm_used)
qed

text \<open>
  Boot: \<open>default_init\<close> followed by \<open>default_init_memmap\<close> on reserved pages builds a
  well-formed pool whose free pages are exactly the given range.
\<close>

lemma first_fit_boot_correct:
  assumes "0 < n" "\<forall>i \<in> {base ..< base + n}. PageReserved (pages s i)"
    "\<forall>i. \<not> PageProperty (pages s i)"
  shows "\<exists>s'. default_init_memmap base n (default_init s) = Some s' \<and> pmm_inv s'
    \<and> free_set s' = {base ..< base + n} \<and> nr_free s' = n"
  using assms by (rule default_init_memmap_ok)

definition boot_pmm :: pmm where
  "boot_pmm = \<lparr>pages = (\<lambda>_. \<lparr>ref = 0, flags = 1, property = 0\<rparr>),
     flinks = \<lparr>prv = (\<lambda>x. x), nxt = (\<lambda>x. x)\<rparr>, nr_free = 0\<rparr>"

lemma first_fit_boot_correct_witness:
  "\<exists>s'. default_init_memmap 5 4 (default_init boot_pmm) = Some s' \<and> nr_free s' = 4"
proof -
  have "\<forall>i \<in> {5 ..< 5 + 4}. PageReserved (pages boot_pmm i)" "\<forall>i. \<not> PageProperty (pages boot_pmm i)"
    by (simp_all add: boot_pmm_def page_flag_defs bit_simps)
  then show ?thesis using first_fit_boot_correct [of 4 5 boot_pmm] by auto
qed

text \<open>
  A sequence of allocation requests hands out pairwise disjoint blocks, all taken from
  the initial free set, and leaves exactly the other pages free.
\<close>

lemma first_fit_blocks_disjoint:
  assumes "pmm_inv s" "\<forall>n \<in> set ns. 0 < n"
  shows "\<exists>bs s'. alloc_many default_alloc_pages ns s = Some (bs, s') \<and> pmm_inv s'
     \<and> (\<forall>i < length bs. \<forall>j < length bs. i \<noteq> j \<longrightarrow> bs ! i \<inter> bs ! j = {})
     \<and> \<Union> (set bs) \<subseteq> free_set s \<and> free_set s' = free_set s - \<Union> (set bs)"
  using assms by (rule ff.alloc_many_ok)

lemma first_fit_blocks_disjoint_witness:
  "\<exists>bs s'. alloc_many default_alloc_pages [2, 20, 3] ex_pmm = Some (bs, s') \<and> pmm_inv s'"
  using first_fit_blocks_disjoint [OF ex_pmm_inv, of "[2, 20, 3]"] by auto

text \<open>
  Inserting a block above all free blocks damages the list: the insertion loop has no
  \<open>break\<close> after it has appended the block, visits the block it has just added and links it
  behind itself, so that the block's \<open>prev\<close> pointer points at the block itself and the
  list is no longer well formed.
\<close>

lemma insert_above_last_self_link:
  assumes "dlist (flinks s) FreeList (map PageLink (us @ [u]))" "\<forall>v \<in> set (us @ [u]). v < base"
  shows "\<exists>h. insert_block base s = Some (s\<lparr>flinks := h\<rparr>)
     \<and> list_prev (PageLink base) h = PageLink base
     \<and> \<not> dlist h FreeList (map PageLink (us @ [u, base]))"
proof -
  let ?h1 = "list_add (PageLink u) (PageLink base) (flinks s)"
  let ?h = "?h1\<lparr>prv := (prv ?h1)(PageLink base := PageLink base)\<rparr>"
  have "insert_block base s = Some (s\<lparr>flinks := ?h\<rparr>)"
    using dlist_empty_iff [OF assms(1)] insert_loop_tail [OF assms]
    by (simp add: insert_block_def Let_def)
  moreover have "\<not> dlist ?h FreeList (map PageLink (us @ [u, base]))"
  proof
    assume "dlist ?h FreeList (map PageLink (us @ [u, base]))"
    then have "dlist ?h FreeList ((map PageLink us @ [PageLink u]) @ PageLink base # [])" by simp
    from dlist_prev_elem [OF this] have "PageLink base = PageLink u" by (simp add: list_prev_def)
    then show False using assms(2) by simp
  qed
  ultimately show ?thesis by (intro exI [of _ ?h]) (simp add: list_prev_def)
qed

lemma insert_above_last_self_link_witness:
  "\<exists>h. insert_block 12 ex_pmm = Some (ex_pmm\<lparr>flinks := h\<rparr>)
     \<and> list_prev (PageLink 12) h = PageLink 12"
proof -
  have "dlist (flinks ex_pmm) FreeList (map PageLink ([] @ [0]))"
    using ex_pmm_ok by (simp add: pmm_ok_def)
  then show ?thesis using insert_above_last_self_link [of ex_pmm "[]" 0 12] by auto
qed

declare insert_loop.simps [code] find_first.simps [code]

definition double_run :: "pmm \<Rightarrow> nat option list option" where
  "double_run s = do {
     s \<leftarrow> default_init_memmap 0 10 (default_init s);
     (a1, s) \<leftarrow> default_alloc_pages 10 s;
     s \<leftarrow> default_free_pages 0 1 s;
     s \<leftarrow> default_free_pages 2 2 s;
     (a2, s) \<leftarrow> default_alloc_pages 2 s;
     s \<leftarrow> default_free_pages 5 2 s;
     (a3, s) \<leftarrow> default_alloc_pages 2 s;
     Some [a1, a2, a3]
   }"

text \<open>
  The consequence for the callers: with pages 2 and 3 freed above page 0, an
  allocation returns page 2 without unlinking it, and after the freeing of a block further up
  the next request of two pages is handed the very same pages although nobody freed them.
\<close>

lemma free_above_last_double_allocation:
  "double_run boot_pmm = Some [Some 0, Some 2, Some 2]"
  by code_simp

end
