(* ===== verification/Pmm_Best_Fit.thy ===== *)
theory Pmm_Best_Fit
  imports Pmm_Default
begin

text \<open>
  The best-fit allocator of \<open>lab2-basic/kern/mm/best_fit_pmm.c\<close>.  It works on the same page
  descriptors and free list as the first-fit allocator; the statements it shares with
  \<open>default_pmm.c\<close> (the page reset loops, the ordered insertion, the unlinking of a block, the
  two merges) are the definitions of \<open>Pmm_Default\<close>, the search loop is its own.
\<close>

definition best_fit_init :: "pmm \<Rightarrow> pmm" where
  "best_fit_init s = (upd_links (list_init FreeList) s)\<lparr>nr_free := 0\<rparr>"

definition best_fit_init_memmap :: "nat \<Rightarrow> nat \<Rightarrow> pmm \<Rightarrow> pmm option" where
  "best_fit_init_memmap base n s = do {
     kassert (n > 0);
     s1 \<leftarrow> init_pages base n s;
     let s2 = upd_page base (\<lambda>pg. SetPageProperty (pg\<lparr>property := n\<rparr>)) s1;
     let s3 = s2\<lparr>nr_free := nr_free s2 + n\<rparr>;
     insert_block base s3
   }"

definition min_property_init :: nat where
  "min_property_init = 1145141919"

partial_function (option) find_best ::
    "nat \<Rightarrow> (nat \<Rightarrow> page) \<Rightarrow> node links \<Rightarrow> node \<Rightarrow> nat option \<Rightarrow> nat \<Rightarrow> nat option option" where
  "find_best n ps h le pg min_property =
     (case list_next le h of
        FreeList \<Rightarrow> Some pg
      | PageLink p \<Rightarrow>
          if property (ps p) \<ge> n \<and> property (ps p) < min_property
          then find_best n ps h (PageLink p) (Some p) (property (ps p))
          else find_best n ps h (PageLink p) pg min_property)"

declare find_best.simps [code]

definition best_fit_alloc_pages :: "nat \<Rightarrow> pmm \<Rightarrow> (nat option \<times> pmm) option" where
  "best_fit_alloc_pages n s = do {
     kassert (n > 0);
     if n > nr_free s then Some (None, s)
     else do {
       found \<leftarrow> find_best n (pages s) (flinks s) FreeList None min_property_init;
       case found of
         None \<Rightarrow> Some (None, s)
       | Some pg \<Rightarrow> Some (Some pg, carve pg n s)
     }
   }"

definition best_fit_free_pages :: "nat \<Rightarrow> nat \<Rightarrow> pmm \<Rightarrow> pmm option" where
  "best_fit_free_pages base n s = do {
     kassert (n > 0);
     s1 \<leftarrow> reset_pages base n s;
     let s2 = upd_page base (\<lambda>pg. SetPageProperty (pg\<lparr>property := n\<rparr>)) s1;
     let s3 = s2\<lparr>nr_free := nr_free s2 + n\<rparr>;
     s4 \<leftarrow> insert_block base s3;
     let (b, s5) = merge_prev base s4;
     Some (merge_next b s5)
   }"

definition best_fit_nr_free_pages :: "pmm \<Rightarrow> nat" where
  "best_fit_nr_free_pages s = nr_free s"

section \<open>The search\<close>

text \<open>The loop over the list of blocks, and what it computes.\<close>

fun best_of :: "(nat \<Rightarrow> nat) \<Rightarrow> nat \<Rightarrow> nat list \<Rightarrow> nat option \<Rightarrow> nat \<Rightarrow> nat option" where
  "best_of f n [] pg m = pg"
| "best_of f n (x # xs) pg m =
     (if f x \<ge> n \<and> f x < m then best_of f n xs (Some x) (f x) else best_of f n xs pg m)"

lemma find_best_chain:
  "chain h (le # map PageLink xs @ [FreeList]) \<Longrightarrow>
     find_best n ps h le pg m = Some (best_of (\<lambda>x. property (ps x)) n xs pg m)"
proof (induction xs arbitrary: le pg m)
  case Nil
  then show ?case by (subst find_best.simps) (simp add: list_next_def)
next
  case (Cons x xs)
  then show ?case by (subst find_best.simps) (simp add: list_next_def)
qed

lemma best_of_cases:
  "(best_of f n xs pg m = pg \<and> (\<forall>x \<in> set xs. f x \<ge> n \<longrightarrow> f x \<ge> m))
   \<or> (\<exists>x \<in> set xs. best_of f n xs pg m = Some x \<and> f x \<ge> n \<and> f x < m
        \<and> (\<forall>y \<in> set xs. f y \<ge> n \<longrightarrow> f x \<le> f y))"
proof (induction xs arbitrary: pg m)
  case Nil
  then show ?case by simp
next
  case (Cons x xs)
  show ?case
  proof (cases "f x \<ge> n \<and> f x < m")
    case True
    from Cons.IH [of "Some x" "f x"] show ?thesis
    proof (elim disjE bexE conjE)
      assume "best_of f n xs (Some x) (f x) = Some x" "\<forall>y \<in> set xs. f y \<ge> n \<longrightarrow> f y \<ge> f x"
      then show ?thesis using True by auto
    next
      fix y assume "y \<in> set xs" "best_of f n xs (Some x) (f x) = Some y" "f y \<ge> n" "f y < f x"
        "\<forall>z \<in> set xs. f z \<ge> n \<longrightarrow> f y \<le> f z"
      then show ?thesis using True by (intro disjI2 bexI [of _ y]) auto
    qed
  next
    case False
    then have "best_of f n (x # xs) pg m = best_of f n xs pg m" by auto
    with Cons.IH [of pg m] False show ?thesis by fastforce
  qed
qed

lemma best_fit_alloc_cases:
  assumes ok: "pmm_ok xs s" and n: "0 < n" and small: "nr_free s < min_property_init"
  shows "(\<exists>us x vs. xs = us @ x # vs \<and> n \<le> property (pages s x)
            \<and> (\<forall>y \<in> set xs. n \<le> property (pages s y) \<longrightarrow> property (pages s x) \<le> property (pages s y))
            \<and> best_fit_alloc_pages n s = Some (Some x, carve x n s))
       \<or> ((\<forall>x \<in> set xs. property (pages s x) < n) \<and> best_fit_alloc_pages n s = Some (None, s))"
proof -
  let ?f = "\<lambda>x. property (pages s x)"
  have bound: "?f x < min_property_init" if "x \<in> set xs" for x
    using nr_free_ge [OF ok that] small by simp
  have "chain (flinks s) (FreeList # map PageLink xs @ [FreeList])"
    using ok by (simp add: pmm_ok_def dlist_def)
  note search = find_best_chain [OF this, of n "pages s" None min_property_init]
  from best_of_cases [of ?f n xs None min_property_init] show ?thesis
  proof (elim disjE bexE conjE)
    assume a: "best_of ?f n xs None min_property_init = None" "\<forall>x \<in> set xs. ?f x \<ge> n \<longrightarrow> ?f x \<ge> min_property_init"
    then have "\<forall>x \<in> set xs. ?f x < n" using bound by (meson not_le)
    then show ?thesis using n by (simp add: best_fit_alloc_pages_def search a)
  next
    fix x assume x: "x \<in> set xs" "best_of ?f n xs None min_property_init = Some x" "?f x \<ge> n"
      "\<forall>y \<in> set xs. ?f y \<ge> n \<longrightarrow> ?f x \<le> ?f y"
    obtain us vs where "xs = us @ x # vs" using split_list [OF x(1)] by blast
    moreover have "\<not> n > nr_free s" using nr_free_ge [OF ok x(1)] x(3) by simp
    ultimately show ?thesis using n x
      by (intro disjI1 exI [of _ us] exI [of _ x] exI [of _ vs]) (simp add: best_fit_alloc_pages_def search)
  qed
qed

text \<open>
  The blocks of the pool, as the maximal runs of free pages.
\<close>

definition max_run :: "nat set \<Rightarrow> nat \<Rightarrow> nat \<Rightarrow> bool" where
  "max_run A x k \<longleftrightarrow> 0 < k \<and> {x ..< x + k} \<subseteq> A \<and> x + k \<notin> A \<and> (x = 0 \<or> x - 1 \<notin> A)"

lemma block_max_run:
  assumes ok: "pmm_ok xs s" and x: "x \<in> set xs"
  shows "max_run (free_set s) x (property (pages s x))"
proof -
  have sep: "separated (pages s) xs" using ok by (simp add: pmm_ok_def)
  have other: "y + property (pages s y) < x \<or> x + property (pages s x) < y" if "y \<in> set xs" "y \<noteq> x" for y
    using sorted_wrt_elems [of _ xs x y] sep x that unfolding separated_def by blast
  have "x + property (pages s x) \<notin> block s y" if "y \<in> set xs" for y
    using other [OF that] by (cases "y = x") (auto simp: block_def)
  moreover have "x - 1 \<notin> block s y" if "y \<in> set xs" "x \<noteq> 0" for y
    using other [OF that(1)] that(2) by (cases "y = x") (auto simp: block_def)
  moreover have "{x ..< x + property (pages s x)} \<subseteq> free_set s"
    using x by (auto simp: free_set_ok [OF ok] block_def)
  ultimately show ?thesis using sep x by (auto simp: max_run_def free_set_ok [OF ok] separated_def)
qed

lemma max_run_block:
  assumes ok: "pmm_ok xs s" and r: "max_run (free_set s) y k"
  shows "y \<in> set xs \<and> k = property (pages s y)"
proof -
  have run: "{y ..< y + k} \<subseteq> free_set s" "0 < k" using r by (simp_all add: max_run_def)
  obtain x where x: "x \<in> set xs" "{y ..< y + k} \<subseteq> block s x"
    using free_run_in_block [OF ok run] by blast
  have y: "y \<in> block s x" "y + k - 1 \<in> block s x" using subsetD [OF x(2)] run(2) by auto
  have sub: "block s x \<subseteq> free_set s" using x(1) by (auto simp: free_set_ok [OF ok])
  have "y = x"
  proof (rule ccontr)
    assume "y \<noteq> x"
    then have "y - 1 \<in> block s x" "y \<noteq> 0" using y by (auto simp: block_def)
    then show False using r sub by (auto simp: max_run_def)
  qed
  moreover have "k = property (pages s x)"
  proof (rule ccontr)
    assume "k \<noteq> property (pages s x)"
    then have "y + k \<in> block s x" using y \<open>y = x\<close> by (auto simp: block_def)
    then show False using r sub by (auto simp: max_run_def)
  qed
  ultimately show ?thesis using x(1) by simp
qed

lemma best_fit_alloc_spec:
  assumes "pmm_inv s" "0 < n" "nr_free s < min_property_init"
  shows "\<exists>r s'. best_fit_alloc_pages n s = Some (r, s') \<and> pmm_inv s' \<and>
    (case r of
       None \<Rightarrow> s' = s \<and> (\<forall>p. \<not> {p ..< p + n} \<subseteq> free_set s)
     | Some p \<Rightarrow> {p ..< p + n} \<subseteq> free_set s \<and> free_set s' = free_set s - {p ..< p + n}
           \<and> nr_free s' = nr_free s - n
           \<and> (\<exists>k \<ge> n. max_run (free_set s) p k
                \<and> (\<forall>q j. max_run (free_set s) q j \<and> n \<le> j \<longrightarrow> k \<le> j)))"
proof -
  obtain xs where ok: "pmm_ok xs s" using assms(1) by (auto simp: pmm_inv_def)
  from best_fit_alloc_cases [OF ok assms(2,3)] show ?thesis
  proof (elim disjE exE conjE)
    fix us x vs assume *: "xs = us @ x # vs" "n \<le> property (pages s x)"
      "\<forall>y \<in> set xs. n \<le> property (pages s y) \<longrightarrow> property (pages s x) \<le> property (pages s y)"
      "best_fit_alloc_pages n s = Some (Some x, carve x n s)"
    have "pmm_ok (us @ x # vs) s" using ok * by simp
    note c = carve_ok [OF this assms(2) *(2)]
    have "max_run (free_set s) x (property (pages s x))" using block_max_run [OF ok] *(1) by simp
    moreover have "property (pages s x) \<le> j" if "max_run (free_set s) q j" "n \<le> j" for q j
      using max_run_block [OF ok that(1)] that(2) *(3) by auto
    moreover have "nr_free (carve x n s) = nr_free s - n" by (simp add: carve_def Let_def)
    ultimately show ?thesis using * c by (auto simp: pmm_inv_def)
  next
    assume *: "\<forall>x \<in> set xs. property (pages s x) < n" "best_fit_alloc_pages n s = Some (None, s)"
    have "\<not> {p ..< p + n} \<subseteq> free_set s" for p
    proof
      assume "{p ..< p + n} \<subseteq> free_set s"
      then obtain x where x: "x \<in> set xs" "{p ..< p + n} \<subseteq> block s x"
        using free_run_in_block [OF ok _ assms(2)] by blast
      have "p \<in> block s x" "p + n - 1 \<in> block s x" using subsetD [OF x(2)] assms(2) by auto
      then show False using *(1) x(1) by (auto simp: block_def dest!: bspec)
    qed
    then show ?thesis using * assms(1) by auto
  qed
qed

section \<open>The best-fit allocator as a page source\<close>

definition best_inv :: "pmm \<Rightarrow> bool" where
  "best_inv s \<longleftrightarrow> pmm_inv s \<and> nr_free s < min_property_init"

interpretation bf: page_source best_inv free_set best_fit_alloc_pages
proof unfold_locales
  fix s n r s' p
  show "best_inv s \<Longrightarrow> 0 < n \<Longrightarrow> \<exists>r s'. best_fit_alloc_pages n s = Some (r, s')"
    using best_fit_alloc_spec [of s n] by (auto simp: best_inv_def)
  have pos: "best_fit_alloc_pages n s = Some y \<Longrightarrow> 0 < n" for y
    by (auto simp: best_fit_alloc_pages_def bind_kassert_if split: if_splits)
  show "best_inv s \<Longrightarrow> best_fit_alloc_pages n s = Some (r, s') \<Longrightarrow> best_inv s'"
    using best_fit_alloc_spec [of s n] pos by (cases r) (auto simp: best_inv_def)
  show "best_inv s \<Longrightarrow> best_fit_alloc_pages n s = Some (Some p, s') \<Longrightarrow>
      {p ..< p + n} \<subseteq> free_set s \<and> free_set s' = free_set s - {p ..< p + n}"
    using best_fit_alloc_spec [of s n] pos by (auto simp: best_inv_def)
  show "best_inv s \<Longrightarrow> best_fit_alloc_pages n s = Some (None, s') \<Longrightarrow> s' = s"
    using best_fit_alloc_spec [of s n] pos by (auto simp: best_inv_def)
qed

lemma best_fit_free_default: "best_fit_free_pages = default_free_pages"
  by (intro ext) (simp add: best_fit_free_pages_def default_free_pages_def)

section \<open>Properties of the best-fit allocator\<close>

text \<open>
  C8. Best-fit allocation on a well-formed pool of fewer than 1145141919 free pages (the
  constant the search starts from): it always returns; a success takes the first \<open>n\<close> pages of a
  maximal run of free pages whose length is minimal among the runs of at least \<open>n\<close> pages; it
  fails only when there is no such run, and then changes nothing.
\<close>

theorem best_fit_alloc_correct:
  assumes "pmm_inv s" "0 < n" "nr_free s < min_property_init"
  shows "\<exists>r s'. best_fit_alloc_pages n s = Some (r, s') \<and> pmm_inv s' \<and>
    (case r of
       None \<Rightarrow> s' = s \<and> (\<forall>p. \<not> {p ..< p + n} \<subseteq> free_set s)
     | Some p \<Rightarrow> {p ..< p + n} \<subseteq> free_set s \<and> free_set s' = free_set s - {p ..< p + n}
           \<and> nr_free s' = nr_free s - n
           \<and> (\<exists>k \<ge> n. max_run (free_set s) p k
                \<and> (\<forall>q j. max_run (free_set s) q j \<and> n \<le> j \<longrightarrow> k \<le> j)))"
  using assms by (rule best_fit_alloc_spec)

theorem best_fit_alloc_correct_witness:
  "\<exists>r s'. best_fit_alloc_pages 3 ex_pmm = Some (r, s') \<and> pmm_inv s'"
proof -
  have "nr_free ex_pmm < min_property_init" by (simp add: ex_pmm_def min_property_init_def)
  then show ?thesis using best_fit_alloc_correct [OF ex_pmm_inv, of 3] by auto
qed

text \<open>
  Best-fit freeing of a block below some free page (or into an empty pool): the pool stays
  well formed and merged, and gains exactly the freed pages.
\<close>

lemma best_fit_free_correct:
  assumes "pmm_inv s" "0 < n" "{base ..< base + n} \<inter> free_set s = {}"
    "\<forall>i \<in> {base ..< base + n}. \<not> PageReserved (pages s i)"
    "free_set s = {} \<or> (\<exists>i \<in> free_set s. base < i)"
  shows "\<exists>s'. best_fit_free_pages base n s = Some s' \<and> pmm_inv s'
    \<and> free_set s' = free_set s \<union> {base ..< base + n} \<and> nr_free s' = nr_free s + n"
  using default_free_ok [OF assms] by (auto simp: best_fit_free_default)

lemma best_fit_free_correct_witness:
  "\<exists>s'. best_fit_free_pages 0 2 ex_pmm_used = Some s' \<and> free_set s' = {3 ..< 10} \<union> {0 ..< 2}"
proof -
  have "{0 ..< 0 + 2} \<inter> free_set ex_pmm_used = {}" by (auto simp: ex_pmm_used)
  moreover have "\<exists>i \<in> free_set ex_pmm_used. 0 < i" by (auto simp: ex_pmm_used intro: bexI [of _ 3])
  ultimately show ?thesis
    using best_fit_free_correct [OF ex_pmm_used(1), of 2 0] by (auto simp: ex_pmm_used)
qed

end
