(* ===== verification/Bitmap.thy ===== *)
theory Bitmap
  imports Ucore_Prelude
begin

text \<open>
  The bitmap of \<open>kern/fs/sfs/bitmap.c\<close>: an array of 32-bit words in which a set bit marks a
  free index.  \<open>bitmap_create\<close>, \<open>bitmap_alloc\<close>, \<open>bitmap_test\<close>, \<open>bitmap_free\<close> are modelled
  with their assertions (\<open>None\<close> is the panic).  The two \<open>kmalloc\<close> calls of \<open>bitmap_create\<close> are
  two booleans that say whether the allocation succeeded.  The sizes are computed in 64 bits by
  the code (\<open>WORD_BITS\<close> has type \<open>size_t\<close>), so natural numbers are exact for \<open>nbits < 2 ^ 32\<close>.
  The locale \<open>index_pool\<close> is the contract the file system relies on.
\<close>

unbundle bit_operations_syntax

definition WORD_BITS :: nat where "WORD_BITS = 32"

record bitmap =
  nbits :: nat
  nwords :: nat
  bmap :: "32 word list"

section \<open>The operations\<close>

text \<open>The loop that marks the bits beyond \<open>nbits\<close> of the last word as in use.\<close>

function mark_leftover :: "nat \<Rightarrow> 32 word \<Rightarrow> 32 word" where
  "mark_leftover overbits w =
     (if overbits < WORD_BITS
      then mark_leftover (Suc overbits) (w XOR push_bit overbits 1) else w)"
  by pat_completeness auto
termination by (relation "measure (\<lambda>(k, _). WORD_BITS - k)") auto

declare mark_leftover.simps [simp del]

definition bitmap_create :: "bool \<Rightarrow> bool \<Rightarrow> nat \<Rightarrow> bitmap option option" where
  "bitmap_create mem1 mem2 n = do {
     kassert (n \<noteq> 0 \<and> n + WORD_BITS > n);
     if \<not> mem1 then Some None
     else do {
       let nw = (n + WORD_BITS - 1) div WORD_BITS;
       if \<not> mem2 then Some None
       else do {
         let m = replicate nw (0xFFFFFFFF :: 32 word);
         if n \<noteq> nw * WORD_BITS then do {
           let ix = nw - 1;
           let overbits = n - ix * WORD_BITS;
           kassert (n div WORD_BITS = ix);
           kassert (overbits > 0 \<and> overbits < WORD_BITS);
           Some (Some \<lparr>nbits = n, nwords = nw, bmap = m[ix := mark_leftover overbits (m ! ix)]\<rparr>)
         }
         else Some (Some \<lparr>nbits = n, nwords = nw, bmap = m\<rparr>)
       }
     }
   }"

text \<open>The inner loop of \<open>bitmap_alloc\<close>: the first set bit of a word, from \<open>offset\<close> on.\<close>

function first_bit :: "32 word \<Rightarrow> nat \<Rightarrow> nat option" where
  "first_bit w offset =
     (if offset < WORD_BITS
      then if w AND push_bit offset 1 \<noteq> 0 then Some offset else first_bit w (Suc offset)
      else None)"
  by pat_completeness auto
termination by (relation "measure (\<lambda>(_, k). WORD_BITS - k)") auto

declare first_bit.simps [simp del]

text \<open>The outer loop; the \<open>assert(0)\<close> after the inner loop is the panic.\<close>

function alloc_scan :: "bitmap \<Rightarrow> nat \<Rightarrow> ((errno + nat) \<times> bitmap) option" where
  "alloc_scan b ix =
     (if ix < nwords b then
        if bmap b ! ix \<noteq> 0 then
          (case first_bit (bmap b ! ix) 0 of
             None \<Rightarrow> None
           | Some offset \<Rightarrow>
               Some (Inr (ix * WORD_BITS + offset),
                     b\<lparr>bmap := (bmap b)[ix := bmap b ! ix XOR push_bit offset 1]\<rparr>))
        else alloc_scan b (Suc ix)
      else Some (Inl E_NO_MEM, b))"
  by pat_completeness auto
termination by (relation "measure (\<lambda>(b, ix). nwords b - ix)") auto

declare alloc_scan.simps [simp del]

definition bitmap_alloc :: "bitmap \<Rightarrow> ((errno + nat) \<times> bitmap) option" where
  "bitmap_alloc b = alloc_scan b 0"

definition bitmap_translate :: "bitmap \<Rightarrow> nat \<Rightarrow> (nat \<times> 32 word) option" where
  "bitmap_translate b index = do {
     kassert (index < nbits b);
     let ix = index div WORD_BITS;
     let offset = index mod WORD_BITS;
     Some (ix, push_bit offset 1)
   }"

definition bitmap_test :: "bitmap \<Rightarrow> nat \<Rightarrow> bool option" where
  "bitmap_test b index = do {
     (ix, mask) \<leftarrow> bitmap_translate b index;
     Some (bmap b ! ix AND mask \<noteq> 0)
   }"

definition bitmap_free :: "bitmap \<Rightarrow> nat \<Rightarrow> bitmap option" where
  "bitmap_free b index = do {
     (ix, mask) \<leftarrow> bitmap_translate b index;
     kassert (\<not> (bmap b ! ix AND mask \<noteq> 0));
     Some (b\<lparr>bmap := (bmap b)[ix := bmap b ! ix OR mask]\<rparr>)
   }"

definition bitmap_getdata :: "bitmap \<Rightarrow> 32 word list \<times> nat" where
  "bitmap_getdata b = (bmap b, 4 * nwords b)"

section \<open>The set of free indices\<close>

definition bm_bit :: "bitmap \<Rightarrow> nat \<Rightarrow> bool" where
  "bm_bit b i \<longleftrightarrow> bit (bmap b ! (i div 32)) (i mod 32)"

definition free_bits :: "bitmap \<Rightarrow> nat set" where
  "free_bits b = {i. i < nbits b \<and> bm_bit b i}"

definition bm_ok :: "bitmap \<Rightarrow> bool" where
  "bm_ok b \<longleftrightarrow> length (bmap b) = nwords b \<and> nbits b \<le> 32 * nwords b
     \<and> (\<forall>i. nbits b \<le> i \<and> i < 32 * nwords b \<longrightarrow> \<not> bm_bit b i)"

lemma and_mask_bit [simp]: "w AND 2 ^ k = 0 \<longleftrightarrow> \<not> bit w k" for w :: "32 word"
proof
  assume z: "w AND 2 ^ k = 0"
  show "\<not> bit w k"
  proof
    assume b: "bit w k"
    then have "k < 32" using bit_imp_le_length by fastforce
    with b have "bit (w AND 2 ^ k) k" by (simp add: bit_simps)
    with z show False by simp
  qed
next
  assume "\<not> bit w k"
  then show "w AND 2 ^ k = 0" by (intro bit_word_eqI) (auto simp: bit_simps)
qed

lemma bit_xor_mask: "bit (w XOR 2 ^ k) j \<longleftrightarrow> (if j = k \<and> k < 32 then \<not> bit w j else bit w j)"
  for w :: "32 word"
  by (auto simp: bit_simps)

lemma bit_or_mask: "bit (w OR 2 ^ k) j \<longleftrightarrow> bit w j \<or> (j = k \<and> k < 32)"
  for w :: "32 word"
  by (auto simp: bit_simps)

lemma word_nonzero_bit: "w \<noteq> 0 \<longleftrightarrow> (\<exists>k < 32. bit w k)" for w :: "32 word"
  by (auto simp: bit_eq_iff bit_simps dest: bit_imp_le_length)

lemma bit_mark_leftover:
  "j < 32 \<Longrightarrow> bit (mark_leftover k w) j \<longleftrightarrow> (if k \<le> j then \<not> bit w j else bit w j)"
proof (induction k w rule: mark_leftover.induct)
  case (1 k w)
  show ?case
  proof (cases "k < WORD_BITS")
    case True
    with 1 show ?thesis
      by (subst mark_leftover.simps) (auto simp: bit_xor_mask WORD_BITS_def)
  next
    case False
    with 1 show ?thesis by (subst mark_leftover.simps) (auto simp: WORD_BITS_def)
  qed
qed

lemma first_bit_Some:
  "first_bit w k = Some j \<Longrightarrow> k \<le> j \<and> j < 32 \<and> bit w j \<and> (\<forall>i. k \<le> i \<and> i < j \<longrightarrow> \<not> bit w i)"
proof (induction w k rule: first_bit.induct)
  case (1 w k)
  show ?case
  proof (cases "k < WORD_BITS")
    case True
    show ?thesis
    proof (cases "bit w k")
      case b: True
      then have "first_bit w k = Some k" using True
        by (subst first_bit.simps) simp
      with 1 b True show ?thesis by (auto simp: WORD_BITS_def)
    next
      case b: False
      then have "first_bit w k = first_bit w (Suc k)" using True
        by (subst first_bit.simps) (simp add: and_mask_bit)
      with 1 b True have "Suc k \<le> j \<and> j < 32 \<and> bit w j \<and> (\<forall>i. Suc k \<le> i \<and> i < j \<longrightarrow> \<not> bit w i)"
        by (simp add: and_mask_bit)
      with b show ?thesis by (metis Suc_leD le_antisym not_less_eq_eq)
    qed
  next
    case False
    with 1 show ?thesis by (subst (asm) first_bit.simps) simp
  qed
qed

lemma first_bit_None: "first_bit w k = None \<Longrightarrow> \<forall>i. k \<le> i \<and> i < 32 \<longrightarrow> \<not> bit w i"
proof (induction w k rule: first_bit.induct)
  case (1 w k)
  show ?case
  proof (cases "k < WORD_BITS")
    case True
    then have "\<not> bit w k" "first_bit w (Suc k) = None"
      using "1.prems" by (auto simp: first_bit.simps [of w k] and_mask_bit WORD_BITS_def split: if_splits)
    with "1.IH" True have "\<forall>i. Suc k \<le> i \<and> i < 32 \<longrightarrow> \<not> bit w i" by (simp add: and_mask_bit)
    with \<open>\<not> bit w k\<close> show ?thesis by (metis Suc_leI le_neq_implies_less)
  next
    case False
    then show ?thesis by (auto simp: WORD_BITS_def)
  qed
qed

text \<open>The scan finds the least index whose bit is set, or nothing when all words are zero.\<close>

lemma alloc_scan_cases:
  assumes "length (bmap b) = nwords b"
  shows "(\<exists>i. 32 * ix \<le> i \<and> i < 32 * nwords b \<and> bm_bit b i
            \<and> (\<forall>j. 32 * ix \<le> j \<and> j < i \<longrightarrow> \<not> bm_bit b j)
            \<and> alloc_scan b ix = Some (Inr i, b\<lparr>bmap := (bmap b)
                 [i div 32 := bmap b ! (i div 32) XOR push_bit (i mod 32) 1]\<rparr>))
     \<or> ((\<forall>j. 32 * ix \<le> j \<and> j < 32 * nwords b \<longrightarrow> \<not> bm_bit b j)
            \<and> alloc_scan b ix = Some (Inl E_NO_MEM, b))"
  using assms
proof (induction b ix rule: alloc_scan.induct)
  case (1 b ix)
  show ?case
  proof (cases "ix < nwords b")
    case False
    then show ?thesis by (subst (1 2) alloc_scan.simps) auto
  next
    case True
    show ?thesis
    proof (cases "bmap b ! ix = 0")
      case z: True
      have zero: "\<not> bm_bit b j" if "32 * ix \<le> j" "j < 32 * Suc ix" for j
      proof -
        have "j div 32 = ix" using that by (simp add: div_nat_eqI)
        then show ?thesis by (simp add: bm_bit_def z)
      qed
      have step: "alloc_scan b ix = alloc_scan b (Suc ix)"
        using True z by (subst alloc_scan.simps) simp
      have "32 * Suc ix \<le> j \<or> \<not> bm_bit b j" if "32 * ix \<le> j" for j
        using zero that by (meson not_le)
    moreover have "32 * Suc ix \<le> i \<Longrightarrow> 32 * ix \<le> i" for i by simp
      moreover have "\<not> bmap b ! ix \<noteq> 0" using z by simp
      note "1.IH" [OF True this "1.prems"]
      ultimately show ?thesis unfolding step by (elim disjE exE conjE) blast+
    next
      case nz: False
      then obtain k where k: "first_bit (bmap b ! ix) 0 = Some k"
        using first_bit_None [of "bmap b ! ix" 0] word_nonzero_bit by fastforce
      note f = first_bit_Some [OF k]
      let ?i = "32 * ix + k"
      have i: "?i div 32 = ix" "?i mod 32 = k" using f by auto
      have "\<not> bm_bit b j" if "32 * ix \<le> j" "j < ?i" for j
      proof -
        have "j div 32 = ix" using that f by (simp add: div_nat_eqI)
        moreover have "j mod 32 < k" using that f calculation by (simp add: minus_mult_div_eq_mod [symmetric])
        ultimately show ?thesis using f by (simp add: bm_bit_def)
      qed
      moreover have "bm_bit b ?i" using f i by (simp add: bm_bit_def)
      moreover have "alloc_scan b ix = Some (Inr ?i, b\<lparr>bmap := (bmap b)
                 [?i div 32 := bmap b ! (?i div 32) XOR push_bit (?i mod 32) 1]\<rparr>)"
        using True nz k unfolding i by (subst alloc_scan.simps) (simp add: WORD_BITS_def mult.commute)
      moreover have "?i < 32 * nwords b" using True f by simp
      ultimately show ?thesis by (intro disjI1 exI [of _ ?i]) auto
    qed
  qed
qed

lemma bm_bit_update:
  assumes "length (bmap b) = nwords b" "i < 32 * nwords b"
    and "\<And>j. bit w j \<longleftrightarrow> (if j = i mod 32 then v else bit (bmap b ! (i div 32)) j)"
  shows "bm_bit (b\<lparr>bmap := (bmap b)[i div 32 := w]\<rparr>) j \<longleftrightarrow> (if j = i then v else bm_bit b j)"
proof (cases "j div 32 = i div 32")
  case True
  moreover have "j mod 32 = i mod 32 \<longleftrightarrow> j = i" using True by (metis div_mult_mod_eq)
  moreover have "i div 32 < nwords b" using assms(2) by (simp add: less_mult_imp_div_less mult.commute)
  ultimately show ?thesis using assms by (simp add: bm_bit_def)
next
  case False
  then have "j \<noteq> i" by auto
  with False show ?thesis by (simp add: bm_bit_def)
qed

lemma bitmap_alloc_spec:
  assumes ok: "bm_ok b"
  shows "(\<exists>b'. free_bits b \<noteq> {} \<and> bitmap_alloc b = Some (Inr (Min (free_bits b)), b')
            \<and> bm_ok b' \<and> nbits b' = nbits b \<and> free_bits b' = free_bits b - {Min (free_bits b)})
     \<or> (free_bits b = {} \<and> bitmap_alloc b = Some (Inl E_NO_MEM, b))"
proof -
  have len: "length (bmap b) = nwords b" using ok by (simp add: bm_ok_def)
  from alloc_scan_cases [OF len, of 0] show ?thesis
  proof (elim disjE exE conjE)
    fix i
    let ?b = "b\<lparr>bmap := (bmap b)[i div 32 := bmap b ! (i div 32) XOR push_bit (i mod 32) 1]\<rparr>"
    assume *: "i < 32 * nwords b" "bm_bit b i" "\<forall>j. 32 * 0 \<le> j \<and> j < i \<longrightarrow> \<not> bm_bit b j"
      "alloc_scan b 0 = Some (Inr i, ?b)"
    have i: "i \<in> free_bits b" using ok * by (auto simp: bm_ok_def free_bits_def not_le [symmetric])
    have min: "Min (free_bits b) = i"
    proof (rule Min_eqI)
      show "finite (free_bits b)" by (simp add: free_bits_def)
      show "\<And>j. j \<in> free_bits b \<Longrightarrow> i \<le> j" using *(3) by (auto simp: free_bits_def not_less [symmetric])
    qed (rule i)
    have "bit (bmap b ! (i div 32)) (i mod 32)" using *(2) by (simp add: bm_bit_def)
    then have upd: "bm_bit ?b j \<longleftrightarrow> (if j = i then False else bm_bit b j)" for j
      by (intro bm_bit_update [OF len *(1)]) (auto simp: bit_xor_mask)
    have "bm_ok ?b" using ok upd by (auto simp: bm_ok_def)
    moreover have "free_bits ?b = free_bits b - {i}" using upd by (auto simp: free_bits_def)
    ultimately show ?thesis using *(4) i min by (intro disjI1 exI [of _ ?b]) (auto simp: bitmap_alloc_def)
  next
    assume "\<forall>j. 32 * 0 \<le> j \<and> j < 32 * nwords b \<longrightarrow> \<not> bm_bit b j" "alloc_scan b 0 = Some (Inl E_NO_MEM, b)"
    then show ?thesis using ok by (auto simp: bitmap_alloc_def free_bits_def bm_ok_def)
  qed
qed

lemma bitmap_test_spec:
  "bitmap_test b i = (if i < nbits b then Some (i \<in> free_bits b) else None)"
  by (simp add: bitmap_test_def bitmap_translate_def bind_kassert_if Let_def and_mask_bit
      free_bits_def bm_bit_def WORD_BITS_def)

lemma bitmap_free_spec:
  assumes ok: "bm_ok b"
  shows "bitmap_free b i \<noteq> None \<longleftrightarrow> i < nbits b \<and> i \<notin> free_bits b"
    and "bitmap_free b i = Some b' \<Longrightarrow> bm_ok b' \<and> nbits b' = nbits b \<and> free_bits b' = insert i (free_bits b)"
proof -
  let ?b = "b\<lparr>bmap := (bmap b)[i div 32 := bmap b ! (i div 32) OR push_bit (i mod 32) 1]\<rparr>"
  have f: "bitmap_free b i = (if i < nbits b \<and> i \<notin> free_bits b then Some ?b else None)"
    by (simp add: bitmap_free_def bitmap_translate_def bind_kassert_if Let_def and_mask_bit
      free_bits_def bm_bit_def WORD_BITS_def)
  then show "bitmap_free b i \<noteq> None \<longleftrightarrow> i < nbits b \<and> i \<notin> free_bits b" by simp
  show "bm_ok b' \<and> nbits b' = nbits b \<and> free_bits b' = insert i (free_bits b)" if "bitmap_free b i = Some b'"
  proof -
    have b': "b' = ?b" "i < nbits b" using that f by (auto split: if_splits)
    have len: "length (bmap b) = nwords b" "i < 32 * nwords b" using ok b' by (auto simp: bm_ok_def)
    have upd: "bm_bit ?b j \<longleftrightarrow> (if j = i then True else bm_bit b j)" for j
      by (rule bm_bit_update [OF len]) (auto simp: bit_or_mask)
    show ?thesis using ok upd b' by (auto simp: bm_ok_def free_bits_def)
  qed
qed

lemma bitmap_create_spec:
  assumes "n \<noteq> 0"
  shows "\<exists>b. bitmap_create True True n = Some (Some b) \<and> bm_ok b \<and> nbits b = n \<and> free_bits b = {0 ..< n}"
proof -
  define nw where "nw = (n + 31) div 32"
  let ?m = "replicate nw (0xFFFFFFFF :: 32 word)"
  have nw: "n \<le> 32 * nw" "32 * nw < n + 32" unfolding nw_def by presburger+
  have ones: "bit (0xFFFFFFFF :: 32 word) k" if "k < 32" for k
  proof -
    have "(0xFFFFFFFF :: 32 word) = - 1" by simp
    then show ?thesis using that by (simp only: bit_minus_1_iff) simp
  qed
  show ?thesis
  proof (cases "n = nw * 32")
    case True
    let ?b = "\<lparr>nbits = n, nwords = nw, bmap = ?m\<rparr>"
    have "bm_bit ?b i" if "i < n" for i
    proof -
      have "i div 32 < nw" using that True by (simp add: less_mult_imp_div_less)
      then show ?thesis using ones [of "i mod 32"] by (simp add: bm_bit_def)
    qed
    moreover have "bitmap_create True True n = Some (Some ?b)"
      using assms True by (simp add: bitmap_create_def Let_def WORD_BITS_def nw_def [symmetric])
    ultimately show ?thesis using True by (intro exI [of _ ?b]) (auto simp: bm_ok_def free_bits_def)
  next
    case False
    let ?ix = "nw - 1" and ?o = "n - (nw - 1) * 32"
    let ?b = "\<lparr>nbits = n, nwords = nw, bmap = ?m[?ix := mark_leftover ?o (?m ! ?ix)]\<rparr>"
    have nw1: "0 < nw" "(nw - 1) * 32 < n" "n < nw * 32" using nw assms False by auto
    have bits: "bm_bit ?b i \<longleftrightarrow> i < n" if "i < nw * 32" for i
    proof (cases "i div 32 = ?ix")
      case True
      have "i = ?ix * 32 + i mod 32" using True by (metis div_mult_mod_eq)
      then have "?o \<le> i mod 32 \<longleftrightarrow> n \<le> i" using nw1 by linarith
      then show ?thesis using True nw1 ones [of "i mod 32"] by (simp add: bm_bit_def bit_mark_leftover)
    next
      case c: False
      then have "i div 32 < ?ix" using that by (metis Suc_diff_1 less_antisym less_mult_imp_div_less nw1(1))
      then have "i < ?ix * 32" by (simp add: div_less_iff_less_mult)
      then show ?thesis using c nw1 \<open>i div 32 < ?ix\<close> ones [of "i mod 32"] by (simp add: bm_bit_def)
    qed
    have nwd: "(n + 31) div 32 = nw" "(31 + n) div 32 = nw" by (simp_all add: nw_def add.commute)
    have "n - ?ix * 32 < 32" using nw1 by simp
    moreover have "n div 32 = ?ix" using nw1 by (intro div_nat_eqI) (auto simp: mult.commute)
    ultimately have "bitmap_create True True n = Some (Some ?b)"
      using assms nw1 nwd by (simp add: bitmap_create_def Let_def WORD_BITS_def bind_kassert_if)
    moreover have "bm_ok ?b" using bits nw1 by (auto simp: bm_ok_def mult.commute)
    moreover have "free_bits ?b = {0 ..< n}" using bits nw1 by (auto simp: free_bits_def)
    ultimately show ?thesis by (intro exI [of _ ?b]) simp
  qed
qed

text \<open>The number of words never changes.\<close>

lemma alloc_scan_nwords: "alloc_scan b ix = Some (r, b') \<Longrightarrow> nwords b' = nwords b"
  by (induction b ix rule: alloc_scan.induct)
    (subst (asm) (2) alloc_scan.simps, auto split: if_splits option.splits)

lemma bitmap_alloc_nwords: "bitmap_alloc b = Some (r, b') \<Longrightarrow> nwords b' = nwords b"
  by (simp add: bitmap_alloc_def alloc_scan_nwords)

lemma bitmap_free_nwords: "bitmap_free b i = Some b' \<Longrightarrow> nwords b' = nwords b"
  by (auto simp: bitmap_free_def bitmap_translate_def bind_kassert_if Let_def split: if_splits)

lemma bitmap_create_nwords: "bitmap_create m1 m2 n = Some (Some b) \<Longrightarrow> nwords b = (n + 31) div 32"
  by (auto simp: bitmap_create_def bind_kassert_if Let_def WORD_BITS_def add.commute split: if_splits)

section \<open>The contract of an index pool\<close>

locale index_pool =
  fixes inv :: "'s \<Rightarrow> bool"
    and frees :: "'s \<Rightarrow> nat set"
    and take :: "'s \<Rightarrow> ((errno + nat) \<times> 's) option"
    and give :: "'s \<Rightarrow> nat \<Rightarrow> 's option"
  assumes frees_finite: "inv b \<Longrightarrow> finite (frees b)"
    and take_some: "inv b \<Longrightarrow> frees b \<noteq> {} \<Longrightarrow>
          \<exists>b'. take b = Some (Inr (Min (frees b)), b') \<and> inv b' \<and> frees b' = frees b - {Min (frees b)}"
    and take_none: "inv b \<Longrightarrow> frees b = {} \<Longrightarrow> take b = Some (Inl E_NO_MEM, b)"
    and give_back: "inv b \<Longrightarrow> take b = Some (Inr i, b1) \<Longrightarrow>
          \<exists>b2. give b1 i = Some b2 \<and> inv b2 \<and> frees b2 = insert i (frees b1)"

text \<open>\<open>k\<close> requests in a row; the answers of the successful ones, in order.\<close>

fun take_many :: "('s \<Rightarrow> ((errno + nat) \<times> 's) option) \<Rightarrow> nat \<Rightarrow> 's \<Rightarrow> (nat list \<times> 's) option" where
  "take_many f 0 b = Some ([], b)"
| "take_many f (Suc k) b = do {
     (r, b1) \<leftarrow> f b;
     (is, b2) \<leftarrow> take_many f k b1;
     Some (case r of Inl e \<Rightarrow> is | Inr i \<Rightarrow> i # is, b2)
   }"

context index_pool begin

text \<open>The answers are the least free indices in increasing order, as many as there are.\<close>

lemma take_many_ok:
  assumes "inv b"
  shows "\<exists>is b'. take_many take k b = Some (is, b') \<and> inv b' \<and> sorted_wrt (<) is
     \<and> set is \<subseteq> frees b \<and> frees b' = frees b - set is \<and> length is = min k (card (frees b))"
  using assms
proof (induction k arbitrary: b)
  case 0
  then show ?case by simp
next
  case (Suc k)
  show ?case
  proof (cases "frees b = {}")
    case True
    with Suc.IH [OF Suc.prems] take_none [OF Suc.prems] show ?thesis by fastforce
  next
    case False
    let ?i = "Min (frees b)"
    have fin: "finite (frees b)" using Suc.prems by (rule frees_finite)
    have i: "?i \<in> frees b" using False fin by simp
    obtain b1 where b1: "take b = Some (Inr ?i, b1)" "inv b1" "frees b1 = frees b - {?i}"
      using take_some [OF Suc.prems False] by blast
    obtain js b' where js: "take_many take k b1 = Some (js, b')" "inv b'" "sorted_wrt (<) js"
      "set js \<subseteq> frees b1" "frees b' = frees b1 - set js" "length js = min k (card (frees b1))"
      using Suc.IH [OF b1(2)] by blast
    have "\<forall>j \<in> set js. ?i < j"
      using js(4) b1(3) fin by (metis DiffD1 DiffD2 Min_le insertI1 le_neq_implies_less subsetD)
    moreover have "card (frees b) = Suc (card (frees b1))"
      using b1(3) i fin by (metis card_Suc_Diff1)
    ultimately show ?thesis using b1 js i
      by (intro exI [of _ "?i # js"] exI [of _ b']) auto
  qed
qed

text \<open>Giving an index back undoes its allocation.\<close>

lemma take_give:
  assumes "inv b" "take b = Some (Inr i, b1)"
  shows "\<exists>b2. give b1 i = Some b2 \<and> inv b2 \<and> frees b2 = frees b"
proof (cases "frees b = {}")
  case True
  with assms take_none [OF assms(1)] show ?thesis by simp
next
  case False
  with assms take_some [OF assms(1)] have b1: "i = Min (frees b)" "inv b1" "frees b1 = frees b - {i}" by auto
  have "i \<in> frees b" using False frees_finite [OF assms(1)] b1(1) by simp
  with give_back [OF assms] b1(3) show ?thesis by auto
qed

end

interpretation bm: index_pool bm_ok free_bits bitmap_alloc bitmap_free
proof unfold_locales
  fix b :: bitmap
  show "finite (free_bits b)" by (simp add: free_bits_def)
  show "bm_ok b \<Longrightarrow> free_bits b \<noteq> {} \<Longrightarrow>
     \<exists>b'. bitmap_alloc b = Some (Inr (Min (free_bits b)), b') \<and> bm_ok b'
       \<and> free_bits b' = free_bits b - {Min (free_bits b)}"
    using bitmap_alloc_spec [of b] by blast
  show "bm_ok b \<Longrightarrow> free_bits b = {} \<Longrightarrow> bitmap_alloc b = Some (Inl E_NO_MEM, b)"
    using bitmap_alloc_spec [of b] by blast
next
  fix b b1 :: bitmap and i
  assume ok: "bm_ok b" and a: "bitmap_alloc b = Some (Inr i, b1)"
  then have b1: "free_bits b \<noteq> {}" "i = Min (free_bits b)" "bm_ok b1" "nbits b1 = nbits b"
    "free_bits b1 = free_bits b - {i}"
    using bitmap_alloc_spec [of b] by auto
  have "i \<in> free_bits b" unfolding b1(2) by (rule Min_in) (use b1(1) in \<open>simp_all add: free_bits_def\<close>)
  then have "i < nbits b1 \<and> i \<notin> free_bits b1" using b1 by (simp add: free_bits_def)
  then obtain b2 where "bitmap_free b1 i = Some b2" using bitmap_free_spec(1) [OF b1(3)] by blast
  with bitmap_free_spec(2) [OF b1(3)]
  show "\<exists>b2. bitmap_free b1 i = Some b2 \<and> bm_ok b2 \<and> free_bits b2 = insert i (free_bits b1)"
    by blast
qed

section \<open>Properties of the bitmap\<close>

definition ex_bitmap :: bitmap where
  "ex_bitmap = \<lparr>nbits = 64, nwords = 2, bmap = [0, 0xFFFFFFFF]\<rparr>"

lemma ex_bitmap_ok: "bm_ok ex_bitmap"
  unfolding bm_ok_def ex_bitmap_def by auto

text \<open>
  \<open>bitmap_alloc\<close> on a well-formed bitmap never panics; it returns the least free index and
  marks exactly this index as used, or \<open>E_NO_MEM\<close> with the bitmap unchanged precisely when no
  index is free.
\<close>

lemma bitmap_alloc_correct:
  assumes "bm_ok b"
  shows "(\<exists>b'. free_bits b \<noteq> {} \<and> bitmap_alloc b = Some (Inr (Min (free_bits b)), b')
            \<and> bm_ok b' \<and> nbits b' = nbits b \<and> free_bits b' = free_bits b - {Min (free_bits b)})
     \<or> (free_bits b = {} \<and> bitmap_alloc b = Some (Inl E_NO_MEM, b))"
  using assms by (rule bitmap_alloc_spec)

lemma bitmap_alloc_correct_witness:
  "(\<exists>b'. bitmap_alloc ex_bitmap = Some (Inr (Min (free_bits ex_bitmap)), b') \<and> bm_ok b')
     \<or> bitmap_alloc ex_bitmap = Some (Inl E_NO_MEM, ex_bitmap)"
  using bitmap_alloc_correct [OF ex_bitmap_ok] by blast

text \<open>
  Freeing the index that was just allocated never panics and restores the set of free
  indices.
\<close>

lemma bitmap_alloc_free_roundtrip:
  assumes "bm_ok b" "bitmap_alloc b = Some (Inr i, b1)"
  shows "\<exists>b2. bitmap_free b1 i = Some b2 \<and> bm_ok b2 \<and> free_bits b2 = free_bits b"
  using assms by (rule bm.take_give)

lemma bitmap_alloc_free_roundtrip_witness:
  "\<exists>b2. bitmap_free \<lparr>nbits = 64, nwords = 2, bmap = [0, 0xFFFFFFFE]\<rparr> 32 = Some b2 \<and> bm_ok b2"
proof -
  have f: "first_bit (0xFFFFFFFF :: 32 word) 0 = Some 0"
    by (subst first_bit.simps) (simp add: WORD_BITS_def)
  have 1: "alloc_scan ex_bitmap (Suc 0) = Some (Inr 32, \<lparr>nbits = 64, nwords = 2, bmap = [0, 0xFFFFFFFE]\<rparr>)"
    by (subst alloc_scan.simps) (simp add: ex_bitmap_def WORD_BITS_def f)
  have "alloc_scan ex_bitmap 0 = alloc_scan ex_bitmap (Suc 0)"
    by (subst alloc_scan.simps) (simp add: ex_bitmap_def)
  with 1 have "bitmap_alloc ex_bitmap = Some (Inr 32, \<lparr>nbits = 64, nwords = 2, bmap = [0, 0xFFFFFFFE]\<rparr>)"
    by (simp add: bitmap_alloc_def)
  from bitmap_alloc_free_roundtrip [OF ex_bitmap_ok this] show ?thesis by blast
qed

text \<open>
  A fresh bitmap of \<open>n > 0\<close> indices: creation passes all its assertions, every index below
  \<open>n\<close> is free, and \<open>k\<close> allocations in a row return the indices in increasing order, without
  repetition, until all \<open>n\<close> are used.
\<close>

lemma bitmap_create_then_alloc:
  assumes "n \<noteq> 0"
  shows "\<exists>b is b'. bitmap_create True True n = Some (Some b)
     \<and> take_many bitmap_alloc k b = Some (is, b')
     \<and> sorted_wrt (<) is \<and> set is \<subseteq> {0 ..< n} \<and> length is = min k n
     \<and> free_bits b' = {0 ..< n} - set is"
proof -
  obtain b where b: "bitmap_create True True n = Some (Some b)" "bm_ok b" "free_bits b = {0 ..< n}"
    using bitmap_create_spec [OF assms] by blast
  from bm.take_many_ok [OF b(2), of k] b show ?thesis by auto
qed

lemma bitmap_create_then_alloc_witness:
  "\<exists>b is b'. bitmap_create True True 40 = Some (Some b)
     \<and> take_many bitmap_alloc 50 b = Some (is, b') \<and> length is = 40"
  using bitmap_create_then_alloc [of 40 50] by auto

end
