(* ===== verification/Skew_Heap.thy ===== *)
theory Skew_Heap
  imports Ucore_Prelude "HOL-Library.Tree" "HOL-Library.Multiset"
begin

text \<open>
  The skew heap of \<open>libs/skew_heap.h\<close>, at the level of its pointers: a store maps each entry to
  its \<open>parent\<close>, \<open>left\<close> and \<open>right\<close> pointers, and \<open>NULL\<close> is \<open>None\<close>.  The recursion of
  \<open>skew_heap_merge\<close> follows pointers, so it is a partial function; that it returns on well-formed
  heaps is a theorem.  \<open>rep\<close> relates a pointer to the tree below it, and the tree-level functions
  \<open>merge_t\<close> and \<open>remove_t\<close> are what the pointer code implements.
\<close>

record 'a entry =
  parent :: "'a option"
  left :: "'a option"
  right :: "'a option"

type_synonym 'a hstore = "'a \<Rightarrow> 'a entry"

section \<open>The operations\<close>

definition set_parent :: "'a option \<Rightarrow> 'a option \<Rightarrow> 'a hstore \<Rightarrow> 'a hstore" where
  "set_parent l p h = (case l of None \<Rightarrow> h | Some z \<Rightarrow> h(z := (h z)\<lparr>parent := p\<rparr>))"

definition skew_heap_init :: "'a \<Rightarrow> 'a hstore \<Rightarrow> 'a hstore" where
  "skew_heap_init a h = h(a := \<lparr>parent = None, left = None, right = None\<rparr>)"

partial_function (option) skew_heap_merge ::
  "('a \<Rightarrow> 'a \<Rightarrow> int) \<Rightarrow> 'a option \<Rightarrow> 'a option \<Rightarrow> 'a hstore \<Rightarrow> ('a option \<times> 'a hstore) option" where
  "skew_heap_merge cmp a b h =
     (case a of None \<Rightarrow> Some (b, h)
      | Some x \<Rightarrow>
        (case b of None \<Rightarrow> Some (a, h)
         | Some y \<Rightarrow>
           if cmp x y = -1 then do {
             let r = left (h x);
             (l, h) \<leftarrow> skew_heap_merge cmp (right (h x)) b h;
             let h = h(x := (h x)\<lparr>left := l\<rparr>);
             let h = h(x := (h x)\<lparr>right := r\<rparr>);
             Some (a, set_parent l a h)
           }
           else do {
             let r = left (h y);
             (l, h) \<leftarrow> skew_heap_merge cmp a (right (h y)) h;
             let h = h(y := (h y)\<lparr>left := l\<rparr>);
             let h = h(y := (h y)\<lparr>right := r\<rparr>);
             Some (b, set_parent l b h)
           }))"

declare skew_heap_merge.simps [code]

definition skew_heap_insert ::
  "('a \<Rightarrow> 'a \<Rightarrow> int) \<Rightarrow> 'a option \<Rightarrow> 'a \<Rightarrow> 'a hstore \<Rightarrow> ('a option \<times> 'a hstore) option" where
  "skew_heap_insert cmp a b h = (let h = skew_heap_init b h in skew_heap_merge cmp a (Some b) h)"

definition skew_heap_remove ::
  "('a \<Rightarrow> 'a \<Rightarrow> int) \<Rightarrow> 'a option \<Rightarrow> 'a \<Rightarrow> 'a hstore \<Rightarrow> ('a option \<times> 'a hstore) option" where
  "skew_heap_remove cmp a b h = do {
     let p = parent (h b);
     (rep, h) \<leftarrow> skew_heap_merge cmp (left (h b)) (right (h b)) h;
     let h = set_parent rep p h;
     (case p of
        Some q \<Rightarrow>
          if left (h q) = Some b then Some (a, h(q := (h q)\<lparr>left := rep\<rparr>))
          else Some (a, h(q := (h q)\<lparr>right := rep\<rparr>))
      | None \<Rightarrow> Some (rep, h))
   }"

section \<open>Trees\<close>

definition root_of :: "'a tree \<Rightarrow> 'a option" where
  "root_of t = (case t of Leaf \<Rightarrow> None | Node _ x _ \<Rightarrow> Some x)"

lemma root_of_simps [simp]: "root_of Leaf = None" "root_of (Node l x r) = Some x"
  by (simp_all add: root_of_def)

lemma root_of_in: "root_of t = Some x \<Longrightarrow> x \<in> set_tree t"
  by (cases t) auto

fun merge_t :: "('a \<Rightarrow> 'a \<Rightarrow> int) \<Rightarrow> 'a tree \<Rightarrow> 'a tree \<Rightarrow> 'a tree" where
  "merge_t cmp Leaf t = t"
| "merge_t cmp t Leaf = t"
| "merge_t cmp (Node l1 a r1) (Node l2 b r2) =
     (if cmp a b = -1 then Node (merge_t cmp r1 (Node l2 b r2)) a l1
      else Node (merge_t cmp (Node l1 a r1) r2) b l2)"

lemma merge_t_Leaf2 [simp]: "merge_t cmp t Leaf = t"
  by (cases t) auto

text \<open>Removing an element merges its two subtrees in its place.\<close>

fun remove_t :: "('a \<Rightarrow> 'a \<Rightarrow> int) \<Rightarrow> 'a \<Rightarrow> 'a tree \<Rightarrow> 'a tree" where
  "remove_t cmp b Leaf = Leaf"
| "remove_t cmp b (Node l x r) =
     (if x = b then merge_t cmp l r
      else if b \<in> set_tree l then Node (remove_t cmp b l) x r
      else Node l x (remove_t cmp b r))"

lemma mset_inorder_merge_t [simp]:
  "mset (inorder (merge_t cmp t u)) = mset (inorder t) + mset (inorder u)"
  by (induction cmp t u rule: merge_t.induct) auto

lemma set_merge_t [simp]: "set_tree (merge_t cmp t u) = set_tree t \<union> set_tree u"
  by (induction cmp t u rule: merge_t.induct) auto

lemma distinct_merge_t:
  "distinct (inorder (merge_t cmp t u)) \<longleftrightarrow> distinct (inorder t @ inorder u)"
  by (rule mset_eq_imp_distinct_iff) simp

lemma set_remove_t: "distinct (inorder t) \<Longrightarrow> set_tree (remove_t cmp b t) = set_tree t - {b}"
  by (induction t) (auto simp: set_inorder)

lemma distinct_remove_t: "distinct (inorder t) \<Longrightarrow> distinct (inorder (remove_t cmp b t))"
proof (induction t)
  case (Node l x r)
  then show ?case
    using set_remove_t [of l cmp b] set_remove_t [of r cmp b]
    by (auto simp: distinct_merge_t set_inorder)
qed simp

text \<open>A tree is a heap for a comparison when no element is greater than one above it.\<close>

fun heap_by :: "('a \<Rightarrow> 'a \<Rightarrow> bool) \<Rightarrow> 'a tree \<Rightarrow> bool" where
  "heap_by le Leaf \<longleftrightarrow> True"
| "heap_by le (Node l x r) \<longleftrightarrow> (\<forall>y \<in> set_tree l \<union> set_tree r. le x y) \<and> heap_by le l \<and> heap_by le r"

text \<open>The laws the comparison function must satisfy on the elements in play.\<close>

definition total_on_by :: "('a \<Rightarrow> 'a \<Rightarrow> int) \<Rightarrow> ('a \<Rightarrow> 'a \<Rightarrow> bool) \<Rightarrow> 'a set \<Rightarrow> bool" where
  "total_on_by cmp le A \<longleftrightarrow>
     (\<forall>x \<in> A. \<forall>y \<in> A. (cmp x y = -1 \<longrightarrow> le x y) \<and> (cmp x y \<noteq> -1 \<longrightarrow> le y x))
     \<and> (\<forall>x \<in> A. \<forall>y \<in> A. \<forall>z \<in> A. le x y \<longrightarrow> le y z \<longrightarrow> le x z) \<and> (\<forall>x \<in> A. le x x)"

lemma total_on_by_subset: "total_on_by cmp le A \<Longrightarrow> B \<subseteq> A \<Longrightarrow> total_on_by cmp le B"
  unfolding total_on_by_def by (meson subsetD)

lemma heap_merge_t:
  "heap_by le t \<Longrightarrow> heap_by le u \<Longrightarrow> total_on_by cmp le (set_tree t \<union> set_tree u)
     \<Longrightarrow> heap_by le (merge_t cmp t u)"
proof (induction cmp t u rule: merge_t.induct)
  case (3 cmp l1 a r1 l2 b r2)
  let ?A = "set_tree (Node l1 a r1) \<union> set_tree (Node l2 b r2)"
  have trans: "le x y \<Longrightarrow> le y z \<Longrightarrow> le x z" if "x \<in> ?A" "y \<in> ?A" "z \<in> ?A" for x y z
    using 3(5) that unfolding total_on_by_def by blast
  have cmps: "cmp a b = -1 \<Longrightarrow> le a b" "cmp a b \<noteq> -1 \<Longrightarrow> le b a"
    using 3(5) unfolding total_on_by_def by simp_all
  show ?case
  proof (cases "cmp a b = -1")
    case True
    have "le a y" if "y \<in> set_tree l2 \<union> set_tree r2" for y
      using trans [of a b y] 3(4) that cmps(1) [OF True] by auto
    moreover have "heap_by le (merge_t cmp r1 (Node l2 b r2))"
      by (rule 3(1) [OF True]) (use 3(3,4) in \<open>auto intro!: total_on_by_subset [OF 3(5)]\<close>)
    ultimately show ?thesis using 3(3,4) True cmps(1) [OF True] by auto
  next
    case False
    have "le b y" if "y \<in> set_tree l1 \<union> set_tree r1" for y
      using trans [of b a y] 3(3) that cmps(2) [OF False] by auto
    moreover have "heap_by le (merge_t cmp (Node l1 a r1) r2)"
      by (rule 3(2) [OF False]) (use 3(3,4) in \<open>auto intro!: total_on_by_subset [OF 3(5)]\<close>)
    ultimately show ?thesis using 3(3,4) False cmps(2) [OF False] by auto
  qed
qed auto

section \<open>Pointers and trees\<close>

definition up :: "'a hstore \<Rightarrow> 'a \<Rightarrow> 'a tree \<Rightarrow> bool" where
  "up h x t \<longleftrightarrow> (\<forall>y. root_of t = Some y \<longrightarrow> parent (h y) = Some x)"

fun rep :: "'a hstore \<Rightarrow> 'a option \<Rightarrow> 'a tree \<Rightarrow> bool" where
  "rep h p Leaf \<longleftrightarrow> p = None"
| "rep h p (Node l x r) \<longleftrightarrow> p = Some x \<and> rep h (left (h x)) l \<and> rep h (right (h x)) r
     \<and> up h x l \<and> up h x r"

lemma rep_root: "rep h p t \<Longrightarrow> p = root_of t"
  by (cases t) auto

lemma up_frame: "up h x t \<Longrightarrow> (\<And>y. y \<in> set_tree t \<Longrightarrow> h' y = h y) \<Longrightarrow> up h' x t"
  by (auto simp: up_def root_of_in)

lemma rep_frame:
  "rep h p t \<Longrightarrow> (\<And>x. x \<in> set_tree t \<Longrightarrow> h' x = h x) \<Longrightarrow> rep h' p t"
proof (induction t arbitrary: p)
  case (Node l x r)
  then have "up h' x l" "up h' x r" by (auto intro: up_frame)
  then show ?case using Node by auto
qed simp

lemma rep_set_parent:
  assumes "rep h p t" "distinct (inorder t)"
  shows "rep (set_parent p q h) p t"
proof (cases t)
  case Leaf
  then show ?thesis using assms by (simp add: set_parent_def)
next
  case [simp]: (Node l x r)
  let ?h = "h(x := (h x)\<lparr>parent := q\<rparr>)"
  have "rep ?h (left (h x)) l" "rep ?h (right (h x)) r"
    using assms by (auto intro!: rep_frame [of h] simp: set_inorder)
  moreover have "up ?h x l" "up ?h x r"
    using assms by (auto simp: up_def set_inorder dest: root_of_in)
  ultimately show ?thesis using assms by (simp add: set_parent_def)
qed

lemma set_parent_other: "p \<noteq> Some z \<Longrightarrow> set_parent p q h z = h z"
  by (auto simp: set_parent_def split: option.splits)

lemma set_parent_at: "parent (set_parent (Some z) q h z) = q"
  by (simp add: set_parent_def)

text \<open>The step both branches of the merge end with.\<close>

lemma rep_join:
  assumes l: "rep h p l" and r: "rep h q r" and d: "distinct (inorder l @ x # inorder r)"
    and u: "up h x r"
  shows "rep (set_parent p (Some x) (h(x := (h x)\<lparr>left := p, right := q\<rparr>))) (Some x) (Node l x r)"
proof -
  let ?g = "h(x := (h x)\<lparr>left := p, right := q\<rparr>)"
  let ?h = "set_parent p (Some x) ?g"
  have p: "p = root_of l" using rep_root [OF l] .
  have px: "p \<noteq> Some x" using d p by (auto simp: set_inorder dest: root_of_in)
  have hx: "?h x = ?g x" by (rule set_parent_other [OF px])
  have "rep ?g p l" by (rule rep_frame [OF l]) (use d in \<open>auto simp: set_inorder\<close>)
  then have 1: "rep ?h p l" by (rule rep_set_parent) (use d in simp)
  have same: "?h y = h y" if "y \<in> set_tree r" for y
  proof -
    have "p \<noteq> Some y" using p d that by (auto simp: set_inorder dest!: root_of_in)
    moreover have "y \<noteq> x" using d that by (auto simp: set_inorder)
    ultimately show ?thesis by (simp add: set_parent_other)
  qed
  have 2: "rep ?h q r" by (rule rep_frame [OF r]) (rule same)
  have 3: "up ?h x r" by (rule up_frame [OF u]) (rule same)
  have 4: "up ?h x l" unfolding up_def using p by (auto simp: set_parent_at)
  show ?thesis using 1 2 3 4 hx by simp
qed

text \<open>
  The pointer merge returns, and implements the tree merge.  Entries outside the two heaps and
  the parent pointer of the new root are untouched.
\<close>

lemma skew_heap_merge_spec:
  "rep h a t \<Longrightarrow> rep h b u \<Longrightarrow> distinct (inorder t @ inorder u) \<Longrightarrow>
   \<exists>h'. skew_heap_merge cmp a b h = Some (root_of (merge_t cmp t u), h')
     \<and> rep h' (root_of (merge_t cmp t u)) (merge_t cmp t u)
     \<and> (\<forall>z. z \<notin> set_tree t \<union> set_tree u \<longrightarrow> h' z = h z)
     \<and> (\<forall>z. root_of (merge_t cmp t u) = Some z \<longrightarrow> parent (h' z) = parent (h z))"
proof (induction cmp t u arbitrary: a b rule: merge_t.induct)
  case (1 cmp t)
  then show ?case using rep_root [OF 1(2)] by (subst skew_heap_merge.simps) simp
next
  case (2 cmp l x r)
  then show ?case by (subst skew_heap_merge.simps) simp
next
  case (3 cmp l1 x r1 l2 y r2)
  have ab: "a = Some x" "b = Some y" using 3(3,4) by auto
  show ?case
  proof (cases "cmp x y = -1")
    case True
    let ?m = "merge_t cmp r1 (Node l2 y r2)"
    have "rep h (right (h x)) r1" "distinct (inorder r1 @ inorder (Node l2 y r2))"
      using 3(3,5) by auto
    from 3(1) [OF True this(1) 3(4) this(2)] obtain h1
      where m: "skew_heap_merge cmp (right (h x)) b h = Some (root_of ?m, h1)"
        "rep h1 (root_of ?m) ?m" "\<forall>z. z \<notin> set_tree r1 \<union> set_tree (Node l2 y r2) \<longrightarrow> h1 z = h z"
      by blast
    have hx: "h1 x = h x" using m(3) 3(5) by (auto simp: set_inorder)
    have l1: "h1 z = h z" if "z \<in> set_tree l1" for z
      using m(3) that 3(5) by (auto simp: set_inorder)
    have "rep h1 (left (h x)) l1" by (rule rep_frame [of h]) (use 3(3) l1 in auto)
    moreover have "up h1 x l1" by (rule up_frame [of h]) (use 3(3) l1 in auto)
    moreover have "distinct (inorder ?m @ x # inorder l1)"
      using 3(5) by (auto simp: distinct_merge_t set_inorder)
    ultimately have rp: "rep (set_parent (root_of ?m) (Some x)
        (h1(x := (h1 x)\<lparr>left := root_of ?m, right := left (h x)\<rparr>))) (Some x) (Node ?m x l1)"
      by (intro rep_join [OF m(2)])
    have nx: "root_of ?m \<noteq> Some x" using 3(5) by (auto simp: set_inorder dest!: root_of_in)
    have fr: "set_parent (root_of ?m) (Some x) (h1(x := (h1 x)\<lparr>left := root_of ?m, right := left (h x)\<rparr>)) z = h z"
      if "z \<notin> set_tree (Node l1 x r1) \<union> set_tree (Node l2 y r2)" for z
    proof -
      have "root_of ?m \<noteq> Some z" using that by (auto dest!: root_of_in)
      then show ?thesis using that m(3) by (simp add: set_parent_other)
    qed
    show ?thesis
      by (subst skew_heap_merge.simps)
        (use True rp fr in \<open>simp add: ab m(1) [unfolded ab] Let_def hx set_parent_other [OF nx]\<close>)
  next
    case False
    let ?m = "merge_t cmp (Node l1 x r1) r2"
    have "rep h (right (h y)) r2" "distinct (inorder (Node l1 x r1) @ inorder r2)"
      using 3(4,5) by auto
    from 3(2) [OF False 3(3) this(1) this(2)] obtain h1
      where m: "skew_heap_merge cmp a (right (h y)) h = Some (root_of ?m, h1)"
        "rep h1 (root_of ?m) ?m" "\<forall>z. z \<notin> set_tree (Node l1 x r1) \<union> set_tree r2 \<longrightarrow> h1 z = h z"
      by blast
    have hx: "h1 y = h y" using m(3) 3(5) by (auto simp: set_inorder)
    have l1: "h1 z = h z" if "z \<in> set_tree l2" for z
      using m(3) that 3(5) by (auto simp: set_inorder)
    have "rep h1 (left (h y)) l2" by (rule rep_frame [of h]) (use 3(4) l1 in auto)
    moreover have "up h1 y l2" by (rule up_frame [of h]) (use 3(4) l1 in auto)
    moreover have "distinct (inorder ?m @ y # inorder l2)"
      using 3(5) by (auto simp: distinct_merge_t set_inorder)
    ultimately have rp: "rep (set_parent (root_of ?m) (Some y)
        (h1(y := (h1 y)\<lparr>left := root_of ?m, right := left (h y)\<rparr>))) (Some y) (Node ?m y l2)"
      by (intro rep_join [OF m(2)])
    have nx: "root_of ?m \<noteq> Some y" using 3(5) by (auto simp: set_inorder dest!: root_of_in)
    have fr: "set_parent (root_of ?m) (Some y) (h1(y := (h1 y)\<lparr>left := root_of ?m, right := left (h y)\<rparr>)) z = h z"
      if "z \<notin> set_tree (Node l1 x r1) \<union> set_tree (Node l2 y r2)" for z
    proof -
      have "root_of ?m \<noteq> Some z" using that by (auto dest!: root_of_in)
      then show ?thesis using that m(3) by (simp add: set_parent_other)
    qed
    show ?thesis
      by (subst skew_heap_merge.simps)
        (use False rp fr in \<open>simp add: ab m(1) [unfolded ab] Let_def hx set_parent_other [OF nx]\<close>)
  qed
qed

text \<open>Insertion re-initialises the entry first, so what it held before does not matter.\<close>

lemma skew_heap_insert_spec:
  assumes "rep h a t" "distinct (inorder t)" "b \<notin> set_tree t"
    "m = merge_t cmp t (Node Leaf b Leaf)"
  shows "\<exists>h'. skew_heap_insert cmp a b h = Some (root_of m, h') \<and> rep h' (root_of m) m
     \<and> (\<forall>z. z \<notin> insert b (set_tree t) \<longrightarrow> h' z = h z)
     \<and> (\<forall>z. root_of m = Some z \<longrightarrow> parent (h' z) = (if z = b then None else parent (h z)))"
proof -
  let ?h = "skew_heap_init b h"
  have "rep ?h a t"
    by (rule rep_frame [OF assms(1)]) (use assms(3) in \<open>auto simp: skew_heap_init_def\<close>)
  moreover have "rep ?h (Some b) (Node Leaf b Leaf)" by (simp add: skew_heap_init_def up_def)
  moreover have "distinct (inorder t @ inorder (Node Leaf b Leaf))" using assms by simp
  ultimately show ?thesis
    using skew_heap_merge_spec [of ?h a t "Some b" "Node Leaf b Leaf" cmp] assms(4)
    by (auto simp: skew_heap_insert_def skew_heap_init_def)
qed

text \<open>
  Removal of an entry of the heap, wherever it stands: the two subtrees of the entry are merged
  and take its place below the entry's parent.
\<close>

fun kids :: "'a \<Rightarrow> 'a tree \<Rightarrow> 'a tree \<times> 'a tree" where
  "kids b Leaf = (Leaf, Leaf)"
| "kids b (Node l x r) = (if x = b then (l, r) else if b \<in> set_tree l then kids b l else kids b r)"

lemma kids_rep:
  "rep h a t \<Longrightarrow> distinct (inorder t) \<Longrightarrow> b \<in> set_tree t \<Longrightarrow> kids b t = (l, r) \<Longrightarrow>
   rep h (left (h b)) l \<and> rep h (right (h b)) r \<and> distinct (inorder l @ b # inorder r)
     \<and> set_tree l \<union> set_tree r \<subseteq> set_tree t"
  by (induction t arbitrary: a) (fastforce split: if_splits)+

lemma kids_root:
  "distinct (inorder t) \<Longrightarrow> kids b t = (l, r) \<Longrightarrow> b \<in> set_tree t \<Longrightarrow> root_of t = Some z
     \<Longrightarrow> z \<notin> set_tree l \<union> set_tree r"
proof (cases t)
  case [simp]: (Node tl x tr)
  assume a: "distinct (inorder t)" "kids b t = (l, r)" "b \<in> set_tree t" "root_of t = Some z"
  have sub: "set_tree l \<union> set_tree r \<subseteq> set_tree u"
    if "kids b u = (l, r)" "b \<in> set_tree u" for u
    using that by (induction u) (auto split: if_splits)
  show ?thesis
    using a sub [of tl] sub [of tr] by (auto split: if_splits)
qed simp

lemma root_remove_t: "root_of t \<noteq> Some b \<Longrightarrow> root_of (remove_t cmp b t) = root_of t"
  by (cases t) auto

lemma rep_remove_child:
  assumes g: "rep g (root_of m) m" "up g q m" "m = merge_t cmp l r"
    and same: "\<And>z. z \<notin> set_tree l \<union> set_tree r \<Longrightarrow> z \<noteq> q \<Longrightarrow> g z = h z"
    and q: "parent (h b) = Some q" "parent (g q) = parent (h q)"
      "left (g q) = (if left (h q) = Some b then root_of m else left (h q))"
      "right (g q) = (if left (h q) = Some b then right (h q) else root_of m)"
  shows "rep h a t \<Longrightarrow> distinct (inorder t) \<Longrightarrow> b \<in> set_tree t \<Longrightarrow> root_of t \<noteq> Some b \<Longrightarrow>
     kids b t = (l, r) \<Longrightarrow> q \<in> set_tree t \<and> q \<notin> set_tree l \<union> set_tree r \<and> rep g a (remove_t cmp b t)"
proof (induction t arbitrary: a)
  case (Node tl x tr)
  have xb: "x \<noteq> b" using Node.prems by simp
  have a: "a = Some x" using Node.prems by simp
  have lr: "set_tree l \<union> set_tree r \<subseteq> (if b \<in> set_tree tl then set_tree tl else set_tree tr)"
  proof (cases "b \<in> set_tree tl")
    case True
    then show ?thesis
      using kids_rep [of h "left (h x)" tl b l r] Node.prems xb by auto
  next
    case False
    then show ?thesis
      using kids_rep [of h "right (h x)" tr b l r] Node.prems xb by auto
  qed
  have fresh: "z \<notin> set_tree l \<union> set_tree r" if "z \<in> (if b \<in> set_tree tl then set_tree tr else set_tree tl)" for z
    using that lr Node.prems(2) by (auto split: if_splits simp: set_inorder)
  have xf: "x \<notin> set_tree l \<union> set_tree r"
    using lr Node.prems(2) by (auto split: if_splits simp: set_inorder)
  show ?case
  proof (cases "b \<in> set_tree tl")
    case True
    have rt: "rep h (left (h x)) tl" "rep h (right (h x)) tr" "up h x tl" "up h x tr"
      and k: "kids b tl = (l, r)" and d: "distinct (inorder tl)"
      using Node.prems True xb by auto
    show ?thesis
    proof (cases "root_of tl = Some b")
      case True
      have qx: "q = x" using rt(3) True q(1) by (simp add: up_def)
      have lx: "left (h x) = Some b" using rep_root [OF rt(1)] True by simp
      have m: "remove_t cmp b tl = m" using True k g(3) by (cases tl) auto
      have gz: "g z = h z" if "z \<in> set_tree tr" for z
        using that fresh [of z] same [of z] \<open>b \<in> set_tree tl\<close> qx Node.prems(2) by (auto simp: set_inorder)
      have "rep g (right (h x)) tr" "up g x tr"
        by (rule rep_frame [OF rt(2) gz], assumption, rule up_frame [OF rt(4) gz])
      then show ?thesis using g(1,2) qx lx q(3,4) m xb xf \<open>b \<in> set_tree tl\<close> a by simp
    next
      case False
      from Node.IH(1) [OF rt(1) d \<open>b \<in> set_tree tl\<close> False k]
      have ih: "q \<in> set_tree tl" "q \<notin> set_tree l \<union> set_tree r" "rep g (left (h x)) (remove_t cmp b tl)"
        by auto
      have gz: "g z = h z" if "z = x \<or> z \<in> set_tree tr" for z
        using that fresh [of z] same [of z] \<open>b \<in> set_tree tl\<close> ih(1) xf Node.prems(2)
        by (auto simp: set_inorder)
      have "rep g (right (h x)) tr" "up g x tr"
        using gz by (auto intro: rep_frame [OF rt(2)] up_frame [OF rt(4)])
      moreover have "up g x (remove_t cmp b tl)"
        unfolding up_def root_remove_t [OF False]
      proof (intro allI impI)
        fix z assume z: "root_of tl = Some z"
        have "parent (g z) = parent (h z)"
          using kids_root [OF d k \<open>b \<in> set_tree tl\<close> z] same [of z] q(2) by (cases "z = q") auto
        then show "parent (g z) = Some x" using rt(3) z by (simp add: up_def)
      qed
      ultimately show ?thesis using ih gz [of x] xb \<open>b \<in> set_tree tl\<close> a by simp
    qed
  next
    case False
    have rt: "rep h (left (h x)) tl" "rep h (right (h x)) tr" "up h x tl" "up h x tr"
      and k: "kids b tr = (l, r)" and d: "distinct (inorder tr)" and br: "b \<in> set_tree tr"
      using Node.prems False xb by auto
    show ?thesis
    proof (cases "root_of tr = Some b")
      case True
      have qx: "q = x" using rt(4) True q(1) by (simp add: up_def)
      have lx: "left (h x) \<noteq> Some b" using rep_root [OF rt(1)] False by (auto dest!: root_of_in)
      have m: "remove_t cmp b tr = m" using True k g(3) by (cases tr) auto
      have gz: "g z = h z" if "z \<in> set_tree tl" for z
        using that fresh [of z] same [of z] False qx Node.prems(2) by (auto simp: set_inorder)
      have "rep g (left (h x)) tl" "up g x tl"
        by (rule rep_frame [OF rt(1) gz], assumption, rule up_frame [OF rt(3) gz])
      then show ?thesis using g(1,2) qx lx q(3,4) m xb xf False a by simp
    next
      case nr: False
      from Node.IH(2) [OF rt(2) d br nr k]
      have ih: "q \<in> set_tree tr" "q \<notin> set_tree l \<union> set_tree r" "rep g (right (h x)) (remove_t cmp b tr)"
        by auto
      have gz: "g z = h z" if "z = x \<or> z \<in> set_tree tl" for z
        using that fresh [of z] same [of z] False ih(1) xf Node.prems(2)
        by (auto simp: set_inorder)
      have "rep g (left (h x)) tl" "up g x tl"
        using gz by (auto intro: rep_frame [OF rt(1)] up_frame [OF rt(3)])
      moreover have "up g x (remove_t cmp b tr)"
        unfolding up_def root_remove_t [OF nr]
      proof (intro allI impI)
        fix z assume z: "root_of tr = Some z"
        have "parent (g z) = parent (h z)"
          using kids_root [OF d k br z] same [of z] q(2) by (cases "z = q") auto
        then show "parent (g z) = Some x" using rt(4) z by (simp add: up_def)
      qed
      ultimately show ?thesis using ih gz [of x] xb False a by simp
    qed
  qed
qed simp

lemma parent_outside:
  "rep h a t \<Longrightarrow> distinct (inorder t) \<Longrightarrow> b \<in> set_tree t \<Longrightarrow> root_of t \<noteq> Some b \<Longrightarrow> kids b t = (l, r)
   \<Longrightarrow> \<exists>q. parent (h b) = Some q \<and> q \<in> set_tree t \<and> q \<noteq> b \<and> q \<notin> set_tree l \<union> set_tree r"
proof (induction t arbitrary: a)
  case (Node tl x tr)
  have xb: "x \<noteq> b" using Node.prems by simp
  show ?case
  proof (cases "b \<in> set_tree tl")
    case True
    have sub: "set_tree l \<union> set_tree r \<subseteq> set_tree tl"
      using kids_rep [of h "left (h x)" tl b l r] Node.prems xb True by auto
    show ?thesis
    proof (cases "root_of tl = Some b")
      case True
      then show ?thesis using Node.prems xb sub by (intro exI [of _ x]) (auto simp: up_def set_inorder)
    next
      case False
      then show ?thesis using Node.IH(1) [of "left (h x)"] Node.prems xb True by auto
    qed
  next
    case False
    then have br: "b \<in> set_tree tr" using Node.prems xb by simp
    have sub: "set_tree l \<union> set_tree r \<subseteq> set_tree tr"
      using kids_rep [of h "right (h x)" tr b l r] Node.prems xb False by auto
    show ?thesis
    proof (cases "root_of tr = Some b")
      case True
      then show ?thesis using Node.prems xb sub by (intro exI [of _ x]) (auto simp: up_def set_inorder)
    next
      case nr: False
      then show ?thesis using Node.IH(2) [of "right (h x)"] Node.prems xb False by auto
    qed
  qed
qed simp

section \<open>Well-formed heaps\<close>

definition is_heap :: "'a hstore \<Rightarrow> 'a option \<Rightarrow> 'a tree \<Rightarrow> bool" where
  "is_heap h a t \<longleftrightarrow> rep h a t \<and> distinct (inorder t)
     \<and> (\<forall>z. root_of t = Some z \<longrightarrow> parent (h z) = None)"

lemma is_heap_root: "is_heap h a t \<Longrightarrow> a = root_of t"
  unfolding is_heap_def using rep_root by blast

lemma is_heap_frame:
  "is_heap h a t \<Longrightarrow> (\<And>x. x \<in> set_tree t \<Longrightarrow> h' x = h x) \<Longrightarrow> is_heap h' a t"
  unfolding is_heap_def by (auto simp: root_of_in intro: rep_frame)

lemma is_heap_empty [simp]: "is_heap h None t \<longleftrightarrow> t = Leaf"
  by (cases t) (auto simp: is_heap_def)

lemma heap_root_least:
  assumes "heap_by le t" "root_of t = Some x" "y \<in> set_tree t" "le x x"
  shows "le x y"
  using assms by (cases t) auto

lemma heap_remove_t:
  "heap_by le t \<Longrightarrow> distinct (inorder t) \<Longrightarrow> total_on_by cmp le (set_tree t) \<Longrightarrow>
   heap_by le (remove_t cmp b t)"
proof (induction t)
  case (Node l x r)
  have sub: "total_on_by cmp le (set_tree l)" "total_on_by cmp le (set_tree r)"
    "total_on_by cmp le (set_tree l \<union> set_tree r)"
    using Node.prems(3) by (auto elim: total_on_by_subset)
  then show ?case using Node set_remove_t [of l cmp b] set_remove_t [of r cmp b]
    by (auto intro: heap_merge_t)
qed simp

lemma skew_heap_insert_ok:
  assumes "is_heap h a t" "b \<notin> set_tree t"
  shows "\<exists>h' t'. skew_heap_insert cmp a b h = Some (root_of t', h') \<and> is_heap h' (root_of t') t'
     \<and> t' = merge_t cmp t (Node Leaf b Leaf) \<and> set_tree t' = insert b (set_tree t)
     \<and> (\<forall>z. z \<notin> set_tree t' \<longrightarrow> h' z = h z)"
proof -
  let ?m = "merge_t cmp t (Node Leaf b Leaf)"
  have d: "rep h a t" "distinct (inorder t)" "\<forall>z. root_of t = Some z \<longrightarrow> parent (h z) = None"
    using assms(1) by (auto simp: is_heap_def)
  from skew_heap_insert_spec [OF d(1,2) assms(2) refl, of cmp] obtain h'
    where h': "skew_heap_insert cmp a b h = Some (root_of ?m, h')" "rep h' (root_of ?m) ?m"
      "\<forall>z. z \<notin> insert b (set_tree t) \<longrightarrow> h' z = h z"
      "\<forall>z. root_of ?m = Some z \<longrightarrow> parent (h' z) = (if z = b then None else parent (h z))"
    by blast
  have "root_of ?m = Some z \<Longrightarrow> z = b \<or> root_of t = Some z" for z
    by (cases t) (auto split: if_splits)
  then have "is_heap h' (root_of ?m) ?m"
    using h' d assms(2) by (auto simp: is_heap_def distinct_merge_t)
  then show ?thesis using h' by auto
qed

lemma skew_heap_remove_ok:
  assumes "is_heap h a t" "b \<in> set_tree t"
  shows "\<exists>h' t'. skew_heap_remove cmp a b h = Some (root_of t', h') \<and> is_heap h' (root_of t') t'
     \<and> t' = remove_t cmp b t \<and> set_tree t' = set_tree t - {b}
     \<and> (\<forall>z. z \<notin> set_tree t \<longrightarrow> h' z = h z)"
proof -
  have d: "rep h a t" "distinct (inorder t)" "\<And>z. root_of t = Some z \<Longrightarrow> parent (h z) = None"
    using assms(1) by (auto simp: is_heap_def)
  obtain l r where k: "kids b t = (l, r)" by force
  let ?m = "merge_t cmp l r"
  have lr: "rep h (left (h b)) l" "rep h (right (h b)) r" "distinct (inorder l @ b # inorder r)"
    "set_tree l \<union> set_tree r \<subseteq> set_tree t"
    using kids_rep [OF d(1,2) assms(2) k] by auto
  have dlr: "distinct (inorder l @ inorder r)" using lr(3) by simp
  obtain h1 where m: "skew_heap_merge cmp (left (h b)) (right (h b)) h = Some (root_of ?m, h1)"
    "rep h1 (root_of ?m) ?m" "\<And>z. z \<notin> set_tree l \<union> set_tree r \<Longrightarrow> h1 z = h z"
    using skew_heap_merge_spec [OF lr(1,2) dlr, of cmp] by blast
  have dm: "distinct (inorder ?m)" using dlr by (simp add: distinct_merge_t)
  have dr: "distinct (inorder (remove_t cmp b t))" by (rule distinct_remove_t [OF d(2)])
  have mroot: "z \<in> set_tree l \<union> set_tree r" if "root_of ?m = Some z" for z
    using root_of_in [OF that] by simp
  show ?thesis
  proof (cases "root_of t = Some b")
    case True
    have t: "remove_t cmp b t = ?m" using True k by (cases t) auto
    let ?g = "set_parent (root_of ?m) None h1"
    have "?g z = h z" if "z \<notin> set_tree t" for z
    proof -
      have "root_of ?m \<noteq> Some z" using mroot lr(4) that by blast
      then show ?thesis using m(3) [of z] lr(4) that by (auto simp: set_parent_other)
    qed
    moreover have "is_heap ?g (root_of ?m) ?m"
      unfolding is_heap_def using rep_set_parent [OF m(2) dm] dm by (auto simp: set_parent_at)
    ultimately show ?thesis
      using d(3) [OF True] m(1) set_remove_t [OF d(2), of cmp b] t
      by (auto simp: skew_heap_remove_def Let_def)
  next
    case False
    from parent_outside [OF d(1,2) assms(2) False k] obtain q
      where q: "parent (h b) = Some q" "q \<in> set_tree t" "q \<noteq> b" "q \<notin> set_tree l \<union> set_tree r" by blast
    let ?f = "set_parent (root_of ?m) (Some q) h1"
    let ?g = "if left (?f q) = Some b then ?f(q := (?f q)\<lparr>left := root_of ?m\<rparr>)
      else ?f(q := (?f q)\<lparr>right := root_of ?m\<rparr>)"
    have run: "skew_heap_remove cmp a b h = Some (a, ?g)"
      by (simp add: skew_heap_remove_def m(1) q Let_def)
    have nq: "root_of ?m \<noteq> Some q" using mroot q(4) by blast
    have fq: "?f q = h q" using set_parent_other [OF nq] m(3) [OF q(4)] by simp
    have same: "?g z = h z" if "z \<notin> set_tree l \<union> set_tree r" "z \<noteq> q" for z
    proof -
      have "root_of ?m \<noteq> Some z" using mroot that(1) by blast
      then show ?thesis using m(3) [OF that(1)] that(2) by (auto simp: set_parent_other)
    qed
    have gf: "?g z = ?f z" if "z \<in> set_tree ?m" for z using that q(4) by auto
    have g1: "rep ?g (root_of ?m) ?m"
      by (rule rep_frame [OF rep_set_parent [OF m(2) dm, of "Some q"]]) (rule gf)
    have g2: "up ?g q ?m"
      unfolding up_def using gf set_parent_at mroot by (auto dest: root_of_in)
    have g3: "parent (?g q) = parent (h q)"
      "left (?g q) = (if left (h q) = Some b then root_of ?m else left (h q))"
      "right (?g q) = (if left (h q) = Some b then right (h q) else root_of ?m)"
      using fq by auto
    from rep_remove_child [OF g1 g2 refl same q(1) g3 d(1,2) assms(2) False k]
    have rg: "rep ?g a (remove_t cmp b t)" by auto
    have rt: "root_of (remove_t cmp b t) = root_of t" by (rule root_remove_t [OF False])
    have "parent (?g z) = None" if "root_of t = Some z" for z
      using d(3) [OF that] kids_root [OF d(2) k assms(2) that] same [of z] g3(1) by (cases "z = q") auto
    then have "is_heap ?g (root_of t) (remove_t cmp b t)"
      using rg dr rep_root [OF d(1)] rt by (simp add: is_heap_def)
    moreover have "?g z = h z" if "z \<notin> set_tree t" for z
      by (rule same) (use lr(4) q(2) that in blast)+
    ultimately show ?thesis
      using run rep_root [OF d(1)] rt set_remove_t [OF d(2), of cmp b] by auto
  qed
qed


section \<open>Properties of the skew heap\<close>

definition ex_cmp :: "nat \<Rightarrow> nat \<Rightarrow> int" where
  "ex_cmp x y = (if x < y then -1 else if x = y then 0 else 1)"

definition ex_heap :: "nat hstore" where
  "ex_heap = (\<lambda>_. \<lparr>parent = None, left = None, right = None\<rparr>)
     (3 := \<lparr>parent = None, left = Some 5, right = None\<rparr>,
      5 := \<lparr>parent = Some 3, left = None, right = None\<rparr>)"

lemma ex_heap_ok: "is_heap ex_heap (Some 3) (Node (Node Leaf 5 Leaf) 3 Leaf)"
  by (simp add: is_heap_def ex_heap_def up_def)

lemma ex_cmp_total: "total_on_by ex_cmp (\<le>) A"
  by (auto simp: total_on_by_def ex_cmp_def)

text \<open>
  \<open>skew_heap_insert\<close> into a well-formed heap returns a well-formed heap of the old entries and
  the new one, whatever the new entry's pointers held, and keeps the heap order when the comparison
  function is a total preorder on the entries.  No pointer outside the heap is written.
\<close>

lemma skew_heap_insert_correct:
  assumes "is_heap h a t" "b \<notin> set_tree t" "heap_by le t"
    "total_on_by cmp le (insert b (set_tree t))"
  shows "\<exists>h' t'. skew_heap_insert cmp a b h = Some (root_of t', h') \<and> is_heap h' (root_of t') t'
     \<and> set_tree t' = insert b (set_tree t) \<and> heap_by le t'
     \<and> (\<forall>z. z \<notin> set_tree t' \<longrightarrow> h' z = h z)"
proof -
  have "heap_by le (merge_t cmp t (Node Leaf b Leaf))"
    by (rule heap_merge_t) (use assms(3,4) in auto)
  then show ?thesis using skew_heap_insert_ok [OF assms(1,2), of cmp] by blast
qed

lemma skew_heap_insert_correct_witness:
  "\<exists>h' t'. skew_heap_insert ex_cmp (Some 3) 4 ex_heap = Some (root_of t', h')
     \<and> is_heap h' (root_of t') t' \<and> set_tree t' = {3, 4, 5} \<and> heap_by (\<le>) t'"
proof -
  have "insert 4 {3, 5} = {3, 4, 5 :: nat}" by auto
  then show ?thesis
    using skew_heap_insert_correct [OF ex_heap_ok, of 4 "(\<le>)" ex_cmp] ex_cmp_total by auto
qed

text \<open>
  C13. \<open>skew_heap_remove\<close> takes any entry out of a well-formed heap, wherever it stands: it returns,
  the result is a well-formed heap of exactly the other entries, the heap order is kept, and no
  pointer outside the heap is written.
\<close>

theorem skew_heap_remove_correct:
  assumes "is_heap h a t" "b \<in> set_tree t" "heap_by le t" "total_on_by cmp le (set_tree t)"
  shows "\<exists>h' t'. skew_heap_remove cmp a b h = Some (root_of t', h') \<and> is_heap h' (root_of t') t'
     \<and> set_tree t' = set_tree t - {b} \<and> heap_by le t'
     \<and> (\<forall>z. z \<notin> set_tree t \<longrightarrow> h' z = h z)"
proof -
  have "heap_by le (remove_t cmp b t)"
    by (rule heap_remove_t) (use assms in \<open>auto simp: is_heap_def\<close>)
  then show ?thesis using skew_heap_remove_ok [OF assms(1,2), of cmp] by blast
qed

theorem skew_heap_remove_correct_witness:
  "\<exists>h' t'. skew_heap_remove ex_cmp (Some 3) 5 ex_heap = Some (root_of t', h')
     \<and> is_heap h' (root_of t') t' \<and> set_tree t' = {3} \<and> heap_by (\<le>) t'"
proof -
  have "{3, 5} - {5} = {3 :: nat}" by auto
  then show ?thesis
    using skew_heap_remove_correct [OF ex_heap_ok, of 5 "(\<le>)" ex_cmp] ex_cmp_total by auto
qed

end
