(* ===== verification/Sched_Class.thy ===== *)
theory Sched_Class
  imports Ucore_Prelude Skew_Heap
begin

text \<open>
  The process descriptor of \<open>kern/process/proc.h\<close>, the scheduler state of
  \<open>kern/schedule/sched.h\<close>, and the two scheduling classes of the repository: the stride scheduler
  (\<open>default_sched_stride.c\<close>) and the round-robin scheduler (lab6, \<open>default_sched_c.c\<close>).  A process
  is named by the address of its descriptor (a natural number; a pointer that may be \<open>NULL\<close> is an
  option).  There is one run queue, so \<open>proc->rq == rq\<close> is the boolean \<open>p_rq\<close>.  The link fields of
  the descriptor are the containers of the state: the skew-heap store \<open>pool\<close>, the list
  \<open>run_list\<close>.  The locale \<open>run_queue\<close> is the contract of a scheduling class.
\<close>

unbundle bit_operations_syntax

section \<open>Process descriptors and the scheduler state\<close>

type_synonym pptr = nat

datatype proc_state = PROC_UNINIT | PROC_SLEEPING | PROC_RUNNABLE | PROC_ZOMBIE

record proc_struct =
  p_state :: proc_state
  p_pid :: int
  p_runs :: int
  p_kstack :: nat
  p_need_resched :: bool
  p_parent :: "pptr option"
  p_mm :: "nat option"
  p_cr3 :: nat
  p_flags :: "32 word"
  p_name :: string
  p_exit_code :: int
  p_wait_state :: "32 word"
  p_cptr :: "pptr option"
  p_yptr :: "pptr option"
  p_optr :: "pptr option"
  p_rq :: bool
  p_time_slice :: int
  p_stride :: "32 word"
  p_priority :: "32 word"
  p_filesp :: "nat option"

definition PF_EXITING :: "32 word" where "PF_EXITING = 0x00000001"
definition WT_INTERRUPTED :: "32 word" where "WT_INTERRUPTED = 0x80000000"
definition WT_CHILD :: "32 word" where "WT_CHILD = 0x00000001 OR WT_INTERRUPTED"
definition WT_KSEM :: "32 word" where "WT_KSEM = 0x00000100"
definition WT_TIMER :: "32 word" where "WT_TIMER = 0x00000002 OR WT_INTERRUPTED"
definition WT_KBD :: "32 word" where "WT_KBD = 0x00000004 OR WT_INTERRUPTED"
definition MAX_TIME_SLICE :: int where "MAX_TIME_SLICE = 5"

text \<open>
  The fields of \<open>struct run_queue\<close>, the globals \<open>current\<close>, \<open>idleproc\<close> and the timers; a timer is
  named by its address, and \<open>timer_list\<close> is the sequence of the linked ones.
\<close>

record ksched =
  procs :: "pptr \<Rightarrow> proc_struct"
  current :: pptr
  idleproc :: pptr
  run_list :: "pptr list"
  pool :: "pptr hstore"
  run_pool :: "pptr option"
  proc_num :: nat
  max_time_slice :: int
  timer_expires :: "nat \<Rightarrow> 32 word"
  timer_proc :: "nat \<Rightarrow> pptr option"
  timer_list :: "nat list"

definition upd :: "pptr \<Rightarrow> (proc_struct \<Rightarrow> proc_struct) \<Rightarrow> 'a ksched_scheme \<Rightarrow> 'a ksched_scheme" where
  "upd p f s = s\<lparr>procs := (procs s)(p := f (procs s p))\<rparr>"

lemma proc_upd_simps [simp]:
  "procs (upd p f s) = (procs s)(p := f (procs s p))"
  "current (upd p f s) = current s" "idleproc (upd p f s) = idleproc s"
  "run_list (upd p f s) = run_list s" "pool (upd p f s) = pool s"
  "run_pool (upd p f s) = run_pool s" "proc_num (upd p f s) = proc_num s"
  "max_time_slice (upd p f s) = max_time_slice s" "timer_list (upd p f s) = timer_list s"
  "timer_expires (upd p f s) = timer_expires s" "timer_proc (upd p f s) = timer_proc s"
  by (simp_all add: upd_def)

text \<open>The operations of a scheduling class, \<open>struct sched_class\<close>.\<close>

record 's sched_class =
  sc_init :: "'s \<Rightarrow> 's"
  sc_enqueue :: "pptr \<Rightarrow> 's \<Rightarrow> 's option"
  sc_dequeue :: "pptr \<Rightarrow> 's \<Rightarrow> 's option"
  sc_pick_next :: "'s \<Rightarrow> pptr option \<times> 's"
  sc_proc_tick :: "pptr \<Rightarrow> 's \<Rightarrow> 's"

section \<open>The stride scheduler\<close>

definition BIG_STRIDE :: "32 word" where "BIG_STRIDE = push_bit 30 1"

definition proc_stride_comp_f :: "(pptr \<Rightarrow> proc_struct) \<Rightarrow> pptr \<Rightarrow> pptr \<Rightarrow> int" where
  "proc_stride_comp_f ps a b =
     (let c = sint (p_stride (ps a) - p_stride (ps b)) in
      if c > 0 then 1 else if c = 0 then 0 else -1)"

definition stride_init :: "'a ksched_scheme \<Rightarrow> 'a ksched_scheme" where
  "stride_init s = s\<lparr>run_list := [], run_pool := None, proc_num := 0\<rparr>"

text \<open>The time slice a process gets when it is queued, the same in both classes.\<close>

definition refill :: "int \<Rightarrow> proc_struct \<Rightarrow> proc_struct" where
  "refill m p = (if p_time_slice p = 0 \<or> p_time_slice p > m then p\<lparr>p_time_slice := m\<rparr> else p)"

definition stride_enqueue :: "pptr \<Rightarrow> 'a ksched_scheme \<Rightarrow> 'a ksched_scheme option" where
  "stride_enqueue proc s = do {
     (rp, h) \<leftarrow> skew_heap_insert (proc_stride_comp_f (procs s)) (run_pool s) proc (pool s);
     let s = s\<lparr>run_pool := rp, pool := h\<rparr>;
     let s = upd proc (refill (max_time_slice s)) s;
     let s = upd proc (\<lambda>p. p\<lparr>p_rq := True\<rparr>) s;
     Some (s\<lparr>proc_num := proc_num s + 1\<rparr>)
   }"

definition stride_dequeue :: "pptr \<Rightarrow> 'a ksched_scheme \<Rightarrow> 'a ksched_scheme option" where
  "stride_dequeue proc s = do {
     kassert (p_rq (procs s proc) \<and> proc_num s > 0);
     (rp, h) \<leftarrow> skew_heap_remove (proc_stride_comp_f (procs s)) (run_pool s) proc (pool s);
     let s = s\<lparr>run_pool := rp, pool := h\<rparr>;
     Some (s\<lparr>proc_num := proc_num s - 1\<rparr>)
   }"

definition stride_pass :: "proc_struct \<Rightarrow> 32 word" where
  "stride_pass p = (if p_priority p \<noteq> 0 then BIG_STRIDE div p_priority p else BIG_STRIDE)"

definition stride_pick_next :: "'a ksched_scheme \<Rightarrow> pptr option \<times> 'a ksched_scheme" where
  "stride_pick_next s =
     (case run_pool s of
        None \<Rightarrow> (None, s)
      | Some proc \<Rightarrow>
          (Some proc, upd proc (\<lambda>p. p\<lparr>p_stride := p_stride p + stride_pass p\<rparr>) s))"

definition stride_proc_tick :: "pptr \<Rightarrow> 'a ksched_scheme \<Rightarrow> 'a ksched_scheme" where
  "stride_proc_tick proc s =
     (let s = (if p_time_slice (procs s proc) > 0
               then upd proc (\<lambda>p. p\<lparr>p_time_slice := p_time_slice p - 1\<rparr>) s else s)
      in if p_time_slice (procs s proc) = 0
         then upd proc (\<lambda>p. p\<lparr>p_need_resched := True\<rparr>) s else s)"

definition stride_sched_class :: "'a ksched_scheme sched_class" where
  "stride_sched_class = \<lparr>sc_init = stride_init, sc_enqueue = stride_enqueue,
     sc_dequeue = stride_dequeue, sc_pick_next = stride_pick_next, sc_proc_tick = stride_proc_tick\<rparr>"

section \<open>The round-robin scheduler\<close>

definition RR_init :: "'a ksched_scheme \<Rightarrow> 'a ksched_scheme" where
  "RR_init s = s\<lparr>run_list := [], proc_num := 0\<rparr>"

definition RR_enqueue :: "pptr \<Rightarrow> 'a ksched_scheme \<Rightarrow> 'a ksched_scheme option" where
  "RR_enqueue proc s = do {
     kassert (proc \<notin> set (run_list s));
     let s = s\<lparr>run_list := run_list s @ [proc]\<rparr>;
     let s = upd proc (refill (max_time_slice s)) s;
     let s = upd proc (\<lambda>p. p\<lparr>p_rq := True\<rparr>) s;
     Some (s\<lparr>proc_num := proc_num s + 1\<rparr>)
   }"

definition RR_dequeue :: "pptr \<Rightarrow> 'a ksched_scheme \<Rightarrow> 'a ksched_scheme option" where
  "RR_dequeue proc s = do {
     kassert (proc \<in> set (run_list s) \<and> p_rq (procs s proc));
     let s = s\<lparr>run_list := remove1 proc (run_list s)\<rparr>;
     Some (s\<lparr>proc_num := proc_num s - 1\<rparr>)
   }"

definition RR_pick_next :: "'a ksched_scheme \<Rightarrow> pptr option \<times> 'a ksched_scheme" where
  "RR_pick_next s = (case run_list s of [] \<Rightarrow> (None, s) | p # _ \<Rightarrow> (Some p, s))"

definition RR_proc_tick :: "pptr \<Rightarrow> 'a ksched_scheme \<Rightarrow> 'a ksched_scheme" where
  "RR_proc_tick proc s =
     (let s = (if p_time_slice (procs s proc) > 0
               then upd proc (\<lambda>p. p\<lparr>p_time_slice := p_time_slice p - 1\<rparr>) s else s)
      in if p_time_slice (procs s proc) = 0
         then upd proc (\<lambda>p. p\<lparr>p_need_resched := True\<rparr>) s else s)"

definition RR_sched_class :: "'a ksched_scheme sched_class" where
  "RR_sched_class = \<lparr>sc_init = RR_init, sc_enqueue = RR_enqueue,
     sc_dequeue = RR_dequeue, sc_pick_next = RR_pick_next, sc_proc_tick = RR_proc_tick\<rparr>"

section \<open>The contract of a scheduling class\<close>

text \<open>What the operations of a class never touch.\<close>

definition core_same :: "'a ksched_scheme \<Rightarrow> 'a ksched_scheme \<Rightarrow> bool" where
  "core_same s s' \<longleftrightarrow> current s' = current s \<and> idleproc s' = idleproc s
     \<and> timer_list s' = timer_list s \<and> timer_expires s' = timer_expires s
     \<and> timer_proc s' = timer_proc s
     \<and> (\<forall>q. p_state (procs s' q) = p_state (procs s q)
           \<and> p_wait_state (procs s' q) = p_wait_state (procs s q))"

text \<open>
  \<open>queued s\<close> is the set of processes on the run queue and \<open>inv\<close> the invariant of the class.  The
  core scheduler changes descriptors of processes (never their \<open>rq\<close> pointer) and globals between
  two calls; \<open>core_upd\<close> says that the class does not mind.
\<close>

locale run_queue =
  fixes sc :: "'a ksched_scheme sched_class"
    and rq_inv :: "'a ksched_scheme \<Rightarrow> bool"
    and queued :: "'a ksched_scheme \<Rightarrow> pptr set"
  assumes enqueue_ok: "rq_inv s \<Longrightarrow> p \<notin> queued s \<Longrightarrow>
      \<exists>s'. sc_enqueue sc p s = Some s' \<and> rq_inv s' \<and> queued s' = insert p (queued s)
        \<and> core_same s s'"
    and pick_none: "rq_inv s \<Longrightarrow> queued s = {} \<Longrightarrow> sc_pick_next sc s = (None, s)"
    and pick_dequeue: "rq_inv s \<Longrightarrow> queued s \<noteq> {} \<Longrightarrow>
      \<exists>p s1 s'. sc_pick_next sc s = (Some p, s1) \<and> p \<in> queued s \<and> sc_dequeue sc p s1 = Some s'
        \<and> rq_inv s' \<and> queued s' = queued s - {p}
        \<and> core_same s s'"
    and tick_ok: "rq_inv s \<Longrightarrow> rq_inv (sc_proc_tick sc p s)
      \<and> queued (sc_proc_tick sc p s) = queued s \<and> core_same s (sc_proc_tick sc p s)"
    and core_upd: "rq_inv s \<Longrightarrow> (\<And>p. p_rq (ps p) = p_rq (procs s p)) \<Longrightarrow>
      rq_inv (s\<lparr>procs := ps, current := c, timer_expires := e, timer_list := l\<rparr>)
      \<and> queued (s\<lparr>procs := ps, current := c, timer_expires := e, timer_list := l\<rparr>) = queued s"

section \<open>The stride scheduler meets the contract\<close>

definition stride_inv :: "'a ksched_scheme \<Rightarrow> bool" where
  "stride_inv s \<longleftrightarrow> (\<exists>t. is_heap (pool s) (run_pool s) t \<and> proc_num s = card (set_tree t)
     \<and> (\<forall>p \<in> set_tree t. p_rq (procs s p)))"

lemma is_heap_unique: "is_heap h a t \<Longrightarrow> is_heap h a u \<Longrightarrow> t = u"
proof -
  have "rep h a t \<Longrightarrow> rep h a u \<Longrightarrow> t = u"
  proof (induction t arbitrary: a u)
    case Leaf then show ?case by (cases u) auto
  next
    case (Node l x r)
    then show ?case by (cases u) auto
  qed
  then show "is_heap h a t \<Longrightarrow> is_heap h a u \<Longrightarrow> t = u" by (simp add: is_heap_def)
qed

definition stride_queued :: "'a ksched_scheme \<Rightarrow> pptr set" where
  "stride_queued s = {p. \<exists>t. is_heap (pool s) (run_pool s) t \<and> p \<in> set_tree t}"

lemma stride_queued_tree: "is_heap (pool s) (run_pool s) t \<Longrightarrow> stride_queued s = set_tree t"
  unfolding stride_queued_def using is_heap_unique by blast

lemma finite_set_tree' [simp]: "finite (set_tree t)"
  by (induction t) auto

lemma stride_enqueue_ok:
  assumes h: "is_heap (pool s) (run_pool s) t" and n: "proc_num s = card (set_tree t)"
    and q: "\<forall>p \<in> set_tree t. p_rq (procs s p)" and p: "p \<notin> set_tree t"
  shows "\<exists>s' t'. stride_enqueue p s = Some s' \<and> is_heap (pool s') (run_pool s') t'
     \<and> t' = merge_t (proc_stride_comp_f (procs s)) t (Node Leaf p Leaf)
     \<and> proc_num s' = card (set_tree t') \<and> (\<forall>x \<in> set_tree t'. p_rq (procs s' x))
     \<and> set_tree t' = insert p (set_tree t)
     \<and> procs s' = (procs s)(p := (refill (max_time_slice s) (procs s p))\<lparr>p_rq := True\<rparr>)
     \<and> current s' = current s \<and> idleproc s' = idleproc s \<and> timer_list s' = timer_list s
     \<and> timer_expires s' = timer_expires s \<and> timer_proc s' = timer_proc s"
proof -
  obtain h' t' where i: "skew_heap_insert (proc_stride_comp_f (procs s)) (run_pool s) p (pool s) = Some (root_of t', h')"
    "is_heap h' (root_of t') t'" "t' = merge_t (proc_stride_comp_f (procs s)) t (Node Leaf p Leaf)"
    "set_tree t' = insert p (set_tree t)"
    using skew_heap_insert_ok [OF h p, of "proc_stride_comp_f (procs s)"] by blast
  let ?s = "(upd p (p_rq_update (\<lambda>_. True)) (upd p (refill (max_time_slice s))
    (s\<lparr>run_pool := root_of t', pool := h'\<rparr>)))\<lparr>proc_num := Suc (proc_num s)\<rparr>"
  have "stride_enqueue p s = Some ?s" by (simp add: i(1) stride_enqueue_def Let_def)
  then show ?thesis
    by (intro exI [of _ ?s] exI [of _ t']) (use i(2-4) n q p in simp)
qed

lemma stride_pick_dequeue:
  assumes h: "is_heap (pool s) (run_pool s) t" and n: "proc_num s = card (set_tree t)"
    and q: "\<forall>p \<in> set_tree t. p_rq (procs s p)" and p: "root_of t = Some p"
  shows "\<exists>s1 s' t'. stride_pick_next s = (Some p, s1) \<and> stride_dequeue p s1 = Some s'
     \<and> is_heap (pool s') (run_pool s') t' \<and> t' = remove_t (proc_stride_comp_f (procs s1)) p t
     \<and> proc_num s' = card (set_tree t') \<and> (\<forall>x \<in> set_tree t'. p_rq (procs s' x))
     \<and> set_tree t' = set_tree t - {p} \<and> procs s' = procs s1
     \<and> procs s1 = (procs s)(p := (procs s p)\<lparr>p_stride := p_stride (procs s p) + stride_pass (procs s p)\<rparr>)
     \<and> current s' = current s \<and> idleproc s' = idleproc s \<and> timer_list s' = timer_list s
     \<and> timer_expires s' = timer_expires s \<and> timer_proc s' = timer_proc s"
proof -
  have rp: "run_pool s = Some p" using is_heap_root [OF h] p by simp
  have pt: "p \<in> set_tree t" by (rule root_of_in [OF p])
  let ?s1 = "upd p (\<lambda>x. x\<lparr>p_stride := p_stride x + stride_pass x\<rparr>) s"
  obtain h' t' where i: "skew_heap_remove (proc_stride_comp_f (procs ?s1)) (run_pool s) p (pool s) = Some (root_of t', h')"
    "is_heap h' (root_of t') t'" "t' = remove_t (proc_stride_comp_f (procs ?s1)) p t"
    "set_tree t' = set_tree t - {p}"
    using skew_heap_remove_ok [OF h pt, of "proc_stride_comp_f (procs ?s1)"] by blast
  have n0: "proc_num s > 0" using n pt card_gt_0_iff by fastforce
  let ?s = "(?s1\<lparr>run_pool := root_of t', pool := h'\<rparr>)\<lparr>proc_num := proc_num s - 1\<rparr>"
  have 1: "stride_pick_next s = (Some p, ?s1)" by (simp add: stride_pick_next_def rp)
  have "p_rq (procs ?s1 p)" using q pt by simp
  then have 2: "stride_dequeue p ?s1 = Some ?s"
    using n0 i(1) by (simp add: stride_dequeue_def Let_def kassert_def)
  have 3: "proc_num ?s = card (set_tree t')" using n pt i(4) by simp
  show ?thesis
    by (intro exI [of _ ?s1] exI [of _ ?s] exI [of _ t']) (use 1 2 3 i(2-4) q in simp)
qed

interpretation stride: run_queue stride_sched_class stride_inv stride_queued
proof unfold_locales
  fix s :: "'a ksched_scheme" and p
  assume inv: "stride_inv s" and p: "p \<notin> stride_queued s"
  from inv obtain t where t: "is_heap (pool s) (run_pool s) t" "proc_num s = card (set_tree t)"
    "\<forall>p \<in> set_tree t. p_rq (procs s p)" by (auto simp: stride_inv_def)
  have "p \<notin> set_tree t" using p stride_queued_tree [OF t(1)] by simp
  from stride_enqueue_ok [OF t this] obtain s' t' where
    s': "stride_enqueue p s = Some s'" "is_heap (pool s') (run_pool s') t'"
      "proc_num s' = card (set_tree t')" "\<forall>x \<in> set_tree t'. p_rq (procs s' x)"
      "set_tree t' = insert p (set_tree t)"
      "procs s' = (procs s)(p := (refill (max_time_slice s) (procs s p))\<lparr>p_rq := True\<rparr>)"
      "current s' = current s" "idleproc s' = idleproc s" "timer_list s' = timer_list s"
      "timer_expires s' = timer_expires s" "timer_proc s' = timer_proc s"
    by blast
  have "stride_inv s'" unfolding stride_inv_def using s'(2-4) by blast
  moreover have "stride_queued s' = insert p (stride_queued s)"
    using stride_queued_tree [OF s'(2)] stride_queued_tree [OF t(1)] s'(5) by simp
  moreover have "core_same s s'" using s'(6-) by (simp add: refill_def core_same_def)
  ultimately show "\<exists>s'. sc_enqueue stride_sched_class p s = Some s' \<and> stride_inv s'
    \<and> stride_queued s' = insert p (stride_queued s)
    \<and> core_same s s'"
    using s' by (auto simp: stride_sched_class_def)
next
  fix s :: "'a ksched_scheme"
  assume inv: "stride_inv s" and e: "stride_queued s = {}"
  from inv obtain t where t: "is_heap (pool s) (run_pool s) t" by (auto simp: stride_inv_def)
  have "t = Leaf" using e stride_queued_tree [OF t] by (cases t) auto
  then show "sc_pick_next stride_sched_class s = (None, s)"
    using is_heap_root [OF t] by (simp add: stride_sched_class_def stride_pick_next_def)
next
  fix s :: "'a ksched_scheme"
  assume inv: "stride_inv s" and e: "stride_queued s \<noteq> {}"
  from inv obtain t where t: "is_heap (pool s) (run_pool s) t" "proc_num s = card (set_tree t)"
    "\<forall>p \<in> set_tree t. p_rq (procs s p)" by (auto simp: stride_inv_def)
  obtain p where p: "root_of t = Some p" using e stride_queued_tree [OF t(1)] by (cases t) auto
  from stride_pick_dequeue [OF t p] obtain s1 s' t' where
    s': "stride_pick_next s = (Some p, s1)" "stride_dequeue p s1 = Some s'"
      "is_heap (pool s') (run_pool s') t'" "proc_num s' = card (set_tree t')"
      "\<forall>x \<in> set_tree t'. p_rq (procs s' x)" "set_tree t' = set_tree t - {p}"
      "procs s' = procs s1"
      "procs s1 = (procs s)(p := (procs s p)\<lparr>p_stride := p_stride (procs s p) + stride_pass (procs s p)\<rparr>)"
      "current s' = current s" "idleproc s' = idleproc s" "timer_list s' = timer_list s"
      "timer_expires s' = timer_expires s" "timer_proc s' = timer_proc s"
    by blast
  have "stride_inv s'" unfolding stride_inv_def using s'(3-5) by blast
  moreover have "stride_queued s' = stride_queued s - {p}"
    using stride_queued_tree [OF s'(3)] stride_queued_tree [OF t(1)] s'(6) by simp
  moreover have "p \<in> stride_queued s" using stride_queued_tree [OF t(1)] root_of_in [OF p] by simp
  moreover have "core_same s s'" using s'(7-) by (simp add: core_same_def)
  ultimately show "\<exists>p s1 s'. sc_pick_next stride_sched_class s = (Some p, s1) \<and> p \<in> stride_queued s
    \<and> sc_dequeue stride_sched_class p s1 = Some s'
    \<and> stride_inv s' \<and> stride_queued s' = stride_queued s - {p}
    \<and> core_same s s'"
    using s' by (intro exI [of _ p] exI [of _ s1] exI [of _ s']) (simp add: stride_sched_class_def)
next
  fix s :: "'a ksched_scheme" and p
  assume inv: "stride_inv s"
  have "stride_inv (stride_proc_tick p s) \<and> stride_queued (stride_proc_tick p s) = stride_queued s \<and> core_same s (stride_proc_tick p s)"
    using inv by (auto simp: stride_proc_tick_def Let_def stride_inv_def stride_queued_def core_same_def)
  then show "stride_inv (sc_proc_tick stride_sched_class p s)
      \<and> stride_queued (sc_proc_tick stride_sched_class p s) = stride_queued s \<and> core_same s (sc_proc_tick stride_sched_class p s)"
    by (simp add: stride_sched_class_def)
next
  fix s :: "'a ksched_scheme" and ps :: "pptr \<Rightarrow> proc_struct" and c e l
  assume "stride_inv s" "\<And>p. p_rq (ps p) = p_rq (procs s p)"
  then show "stride_inv (s\<lparr>procs := ps, current := c, timer_expires := e, timer_list := l\<rparr>)
     \<and> stride_queued (s\<lparr>procs := ps, current := c, timer_expires := e, timer_list := l\<rparr>) = stride_queued s"
    by (auto simp: stride_inv_def stride_queued_def)
qed

section \<open>The round-robin scheduler meets the contract\<close>

definition RR_inv :: "'a ksched_scheme \<Rightarrow> bool" where
  "RR_inv s \<longleftrightarrow> distinct (run_list s) \<and> proc_num s = length (run_list s)
     \<and> (\<forall>p \<in> set (run_list s). p_rq (procs s p))"

definition RR_queued :: "'a ksched_scheme \<Rightarrow> pptr set" where
  "RR_queued s = set (run_list s)"

interpretation RR: run_queue RR_sched_class RR_inv RR_queued
proof unfold_locales
  fix s :: "'a ksched_scheme" and p
  assume inv: "RR_inv s" and p: "p \<notin> RR_queued s"
  let ?s = "(upd p (p_rq_update (\<lambda>_. True)) (upd p (refill (max_time_slice s))
    (s\<lparr>run_list := run_list s @ [p]\<rparr>)))\<lparr>proc_num := Suc (proc_num s)\<rparr>"
  have "RR_enqueue p s = Some ?s" using p
    by (simp add: RR_enqueue_def RR_queued_def kassert_def Let_def)
  moreover have "RR_inv ?s" using inv p by (auto simp: RR_inv_def RR_queued_def)
  ultimately show "\<exists>s'. sc_enqueue RR_sched_class p s = Some s' \<and> RR_inv s'
    \<and> RR_queued s' = insert p (RR_queued s)
    \<and> core_same s s'"
    by (intro exI [of _ ?s]) (simp add: RR_sched_class_def RR_queued_def refill_def core_same_def)
next
  fix s :: "'a ksched_scheme"
  assume "RR_inv s" and "RR_queued s = {}"
  then show "sc_pick_next RR_sched_class s = (None, s)"
    by (simp add: RR_sched_class_def RR_pick_next_def RR_queued_def core_same_def)
next
  fix s :: "'a ksched_scheme"
  assume inv: "RR_inv s" and e: "RR_queued s \<noteq> {}"
  obtain p ps where r: "run_list s = p # ps" using e by (auto simp: RR_queued_def neq_Nil_conv)
  let ?s = "s\<lparr>run_list := ps, proc_num := proc_num s - 1\<rparr>"
  have "RR_dequeue p s = Some ?s" using inv r
    by (simp add: RR_dequeue_def RR_inv_def kassert_def Let_def)
  moreover have "RR_inv ?s" "RR_queued ?s = RR_queued s - {p}"
    using inv r by (auto simp: RR_inv_def RR_queued_def)
  ultimately show "\<exists>p s1 s'. sc_pick_next RR_sched_class s = (Some p, s1) \<and> p \<in> RR_queued s
    \<and> sc_dequeue RR_sched_class p s1 = Some s'
    \<and> RR_inv s' \<and> RR_queued s' = RR_queued s - {p}
    \<and> core_same s s'"
    using r by (intro exI [of _ p] exI [of _ s] exI [of _ ?s])
      (simp add: RR_sched_class_def RR_pick_next_def RR_queued_def core_same_def)
next
  fix s :: "'a ksched_scheme" and p
  assume inv: "RR_inv s"
  have "RR_inv (RR_proc_tick p s) \<and> RR_queued (RR_proc_tick p s) = RR_queued s \<and> core_same s (RR_proc_tick p s)"
    using inv by (auto simp: RR_proc_tick_def Let_def RR_inv_def RR_queued_def core_same_def)
  then show "RR_inv (sc_proc_tick RR_sched_class p s)
      \<and> RR_queued (sc_proc_tick RR_sched_class p s) = RR_queued s \<and> core_same s (sc_proc_tick RR_sched_class p s)"
    by (simp add: RR_sched_class_def)
next
  fix s :: "'a ksched_scheme" and ps :: "pptr \<Rightarrow> proc_struct" and c e l
  assume "RR_inv s" "\<And>p. p_rq (ps p) = p_rq (procs s p)"
  then show "RR_inv (s\<lparr>procs := ps, current := c, timer_expires := e, timer_list := l\<rparr>)
     \<and> RR_queued (s\<lparr>procs := ps, current := c, timer_expires := e, timer_list := l\<rparr>) = RR_queued s"
    by (auto simp: RR_inv_def RR_queued_def)
qed

end
