(* ===== verification/Sched.thy ===== *)
theory Sched
  imports Sched_Class
begin

text \<open>
  The core scheduler of \<open>kern/schedule/sched.c\<close>: \<open>wakeup_proc\<close>, \<open>schedule\<close> and the timers, over
  a scheduling class given as a record of functions, as in the code.  Interrupts are disabled
  between \<open>local_intr_save\<close> and \<open>local_intr_restore\<close>, so each function is one atomic step.
  \<open>proc_run\<close> sets \<open>current\<close>; the register and page-table switch is outside the model.
  \<open>warn\<close> only prints.  The lemmas about \<open>schedule\<close> and \<open>wakeup_proc\<close> are proved once, in the
  locale of the scheduling classes.
\<close>

section \<open>The operations\<close>

definition sched_class_enqueue ::
  "'a ksched_scheme sched_class \<Rightarrow> pptr \<Rightarrow> 'a ksched_scheme \<Rightarrow> 'a ksched_scheme option" where
  "sched_class_enqueue sc proc s = (if proc \<noteq> idleproc s then sc_enqueue sc proc s else Some s)"

definition sched_class_dequeue ::
  "'a ksched_scheme sched_class \<Rightarrow> pptr \<Rightarrow> 'a ksched_scheme \<Rightarrow> 'a ksched_scheme option" where
  "sched_class_dequeue sc proc s = sc_dequeue sc proc s"

definition sched_class_pick_next ::
  "'a ksched_scheme sched_class \<Rightarrow> 'a ksched_scheme \<Rightarrow> pptr option \<times> 'a ksched_scheme" where
  "sched_class_pick_next sc s = sc_pick_next sc s"

definition sched_class_proc_tick ::
  "'a ksched_scheme sched_class \<Rightarrow> pptr \<Rightarrow> 'a ksched_scheme \<Rightarrow> 'a ksched_scheme" where
  "sched_class_proc_tick sc proc s =
     (if proc \<noteq> idleproc s then sc_proc_tick sc proc s
      else upd proc (\<lambda>p. p\<lparr>p_need_resched := True\<rparr>) s)"

definition sched_init :: "'a ksched_scheme sched_class \<Rightarrow> 'a ksched_scheme \<Rightarrow> 'a ksched_scheme" where
  "sched_init sc s = sc_init sc (s\<lparr>timer_list := [], max_time_slice := MAX_TIME_SLICE\<rparr>)"

definition wakeup_proc ::
  "'a ksched_scheme sched_class \<Rightarrow> pptr \<Rightarrow> 'a ksched_scheme \<Rightarrow> 'a ksched_scheme option" where
  "wakeup_proc sc proc s = do {
     kassert (p_state (procs s proc) \<noteq> PROC_ZOMBIE);
     if p_state (procs s proc) \<noteq> PROC_RUNNABLE then do {
       let s = upd proc (\<lambda>p. p\<lparr>p_state := PROC_RUNNABLE\<rparr>) s;
       let s = upd proc (\<lambda>p. p\<lparr>p_wait_state := 0\<rparr>) s;
       if proc \<noteq> current s then sched_class_enqueue sc proc s else Some s
     }
     else Some s
   }"

definition proc_run :: "pptr \<Rightarrow> 'a ksched_scheme \<Rightarrow> 'a ksched_scheme" where
  "proc_run proc s = (if proc \<noteq> current s then s\<lparr>current := proc\<rparr> else s)"

definition schedule ::
  "'a ksched_scheme sched_class \<Rightarrow> 'a ksched_scheme \<Rightarrow> 'a ksched_scheme option" where
  "schedule sc s = do {
     let s = upd (current s) (\<lambda>p. p\<lparr>p_need_resched := False\<rparr>) s;
     s \<leftarrow> (if p_state (procs s (current s)) = PROC_RUNNABLE
          then sched_class_enqueue sc (current s) s else Some s);
     let (next, s) = sched_class_pick_next sc s;
     s \<leftarrow> (case next of Some n \<Rightarrow> sched_class_dequeue sc n s | None \<Rightarrow> Some s);
     let next = (case next of None \<Rightarrow> idleproc s | Some n \<Rightarrow> n);
     let s = upd next (\<lambda>p. p\<lparr>p_runs := p_runs p + 1\<rparr>) s;
     Some (if next \<noteq> current s then proc_run next s else s)
   }"

subsection \<open>Timers\<close>

definition timer_init :: "nat \<Rightarrow> pptr option \<Rightarrow> 32 word \<Rightarrow> 'a ksched_scheme \<Rightarrow> 'a ksched_scheme" where
  "timer_init t proc e s = s\<lparr>timer_expires := (timer_expires s)(t := e),
     timer_proc := (timer_proc s)(t := proc)\<rparr>"

text \<open>The insertion loop of \<open>add_timer\<close> over the linked timers.\<close>

fun add_scan :: "(nat \<Rightarrow> 32 word) \<Rightarrow> nat \<Rightarrow> nat list \<Rightarrow> (nat \<Rightarrow> 32 word) \<times> nat list" where
  "add_scan e t [] = (e, [t])"
| "add_scan e t (n # ns) =
     (if e t < e n then (e(n := e n - e t), t # n # ns)
      else let (e', ns') = add_scan (e(t := e t - e n)) t ns in (e', n # ns'))"

definition add_timer :: "nat \<Rightarrow> 'a ksched_scheme \<Rightarrow> 'a ksched_scheme option" where
  "add_timer t s = do {
     kassert (timer_expires s t > 0 \<and> timer_proc s t \<noteq> None);
     kassert (t \<notin> set (timer_list s));
     let (e, ts) = add_scan (timer_expires s) t (timer_list s);
     Some (s\<lparr>timer_expires := e, timer_list := ts\<rparr>)
   }"

text \<open>The timer after \<open>t\<close> in the list, \<open>None\<close> at the list head.\<close>

fun next_timer :: "nat \<Rightarrow> nat list \<Rightarrow> nat option" where
  "next_timer t [] = None"
| "next_timer t (x # xs) = (if x = t then (case xs of [] \<Rightarrow> None | y # _ \<Rightarrow> Some y) else next_timer t xs)"

definition del_timer :: "nat \<Rightarrow> 'a ksched_scheme \<Rightarrow> 'a ksched_scheme" where
  "del_timer t s =
     (if t \<in> set (timer_list s) then
        let e = timer_expires s;
            e = (if e t \<noteq> 0 then
                   (case next_timer t (timer_list s) of
                      Some n \<Rightarrow> e(n := e n + e t) | None \<Rightarrow> e)
                 else e)
        in s\<lparr>timer_expires := e, timer_list := remove1 t (timer_list s)\<rparr>
      else s)"

text \<open>The loop of \<open>run_timer_list\<close>: \<open>le\<close> is advanced before the timer is unlinked.\<close>

fun fire_timers ::
  "'a ksched_scheme sched_class \<Rightarrow> nat list \<Rightarrow> 'a ksched_scheme \<Rightarrow> 'a ksched_scheme option" where
  "fire_timers sc [] s = Some s"
| "fire_timers sc (t # le) s =
     (if timer_expires s t = 0 then
        (case timer_proc s t of
           None \<Rightarrow> None
         | Some proc \<Rightarrow> do {
             kassert (p_wait_state (procs s proc) \<noteq> 0 \<longrightarrow>
               p_wait_state (procs s proc) AND WT_INTERRUPTED \<noteq> 0);
             s \<leftarrow> wakeup_proc sc proc s;
             fire_timers sc le (del_timer t s)
           })
      else Some s)"

definition run_timer_list ::
  "'a ksched_scheme sched_class \<Rightarrow> 'a ksched_scheme \<Rightarrow> 'a ksched_scheme option" where
  "run_timer_list sc s = do {
     s \<leftarrow> (case timer_list s of
            [] \<Rightarrow> Some s
          | t # _ \<Rightarrow> do {
              kassert (timer_expires s t \<noteq> 0);
              fire_timers sc (timer_list s)
                (s\<lparr>timer_expires := (timer_expires s)(t := timer_expires s t - 1)\<rparr>)
            });
     Some (sched_class_proc_tick sc (current s) s)
   }"

section \<open>Scheduling keeps every ready process\<close>

context run_queue
begin

definition sched_ok :: "'a ksched_scheme \<Rightarrow> bool" where
  "sched_ok s \<longleftrightarrow> rq_inv s \<and> current s \<notin> queued s \<and> idleproc s \<notin> queued s
     \<and> (\<forall>p \<in> queued s. p_state (procs s p) = PROC_RUNNABLE)"

text \<open>The processes that can run after the current one stops: the queue, and the current process
  when it is still runnable and is not the idle process.\<close>

definition ready :: "'a ksched_scheme \<Rightarrow> pptr set" where
  "ready s = (if p_state (procs s (current s)) = PROC_RUNNABLE \<and> current s \<noteq> idleproc s
              then insert (current s) (queued s) else queued s)"

lemma upd_inv:
  assumes "rq_inv s" "\<And>q. p_rq (f q) = p_rq q"
  shows "rq_inv (upd p f s) \<and> queued (upd p f s) = queued s"
  using core_upd [OF assms(1), where ps = "(procs s)(p := f (procs s p))" and c = "current s"
      and e = "timer_expires s" and l = "timer_list s"]
    assms(2)
  by (simp add: upd_def)

lemma current_inv: "rq_inv s \<Longrightarrow> rq_inv (s\<lparr>current := c\<rparr>) \<and> queued (s\<lparr>current := c\<rparr>) = queued s"
  using core_upd [where s = s and ps = "procs s" and c = c and e = "timer_expires s" and l = "timer_list s"] by simp

lemma timers_inv:
  "rq_inv s \<Longrightarrow> rq_inv (s\<lparr>timer_expires := e, timer_list := l\<rparr>)
     \<and> queued (s\<lparr>timer_expires := e, timer_list := l\<rparr>) = queued s"
  using core_upd [where s = s and ps = "procs s" and c = "current s" and e = e and l = l] by simp

lemma run_inv:
  "rq_inv s \<Longrightarrow> rq_inv (if p \<noteq> current s then proc_run p s else s)
     \<and> queued (if p \<noteq> current s then proc_run p s else s) = queued s"
  using current_inv by (auto simp: proc_run_def)

lemma schedule_ok:
  assumes "sched_ok s"
  shows "\<exists>s'. schedule sc s = Some s' \<and> sched_ok s' \<and> idleproc s' = idleproc s
     \<and> (\<forall>q. p_state (procs s' q) = p_state (procs s q)
           \<and> p_wait_state (procs s' q) = p_wait_state (procs s q))
     \<and> (if ready s = {} then current s' = idleproc s \<and> queued s' = {}
        else current s' \<in> ready s \<and> queued s' = ready s - {current s'})"
proof -
  have inv: "rq_inv s" and cq: "current s \<notin> queued s" and iq: "idleproc s \<notin> queued s"
    and run: "\<And>p. p \<in> queued s \<Longrightarrow> p_state (procs s p) = PROC_RUNNABLE"
    using assms by (auto simp: sched_ok_def)
  define s1 where "s1 = upd (current s) (\<lambda>p. p\<lparr>p_need_resched := False\<rparr>) s"
  have s1: "rq_inv s1" "queued s1 = queued s" "current s1 = current s" "idleproc s1 = idleproc s"
    "\<And>q. p_state (procs s1 q) = p_state (procs s q) \<and> p_wait_state (procs s1 q) = p_wait_state (procs s q)"
    using upd_inv [OF inv, of "\<lambda>p. p\<lparr>p_need_resched := False\<rparr>" "current s"]
    by (auto simp: s1_def)
  obtain s2 where s2: "(if p_state (procs s1 (current s1)) = PROC_RUNNABLE
      then sched_class_enqueue sc (current s1) s1 else Some s1) = Some s2"
    "rq_inv s2" "queued s2 = ready s" "current s2 = current s" "idleproc s2 = idleproc s"
    "\<And>q. p_state (procs s2 q) = p_state (procs s q) \<and> p_wait_state (procs s2 q) = p_wait_state (procs s q)"
    using enqueue_ok [OF s1(1), of "current s"] s1 cq
    by (cases "p_state (procs s (current s)) = PROC_RUNNABLE \<and> current s \<noteq> idleproc s")
      (auto simp: sched_class_enqueue_def ready_def core_same_def)
  have rr: "p_state (procs s p) = PROC_RUNNABLE" if "p \<in> ready s" for p
    using that run by (auto simp: ready_def split: if_splits)
  have ir: "idleproc s \<notin> ready s" using iq by (auto simp: ready_def)
  show ?thesis
  proof (cases "ready s = {}")
    case True
    have pick: "sc_pick_next sc s2 = (None, s2)" using pick_none [OF s2(2)] s2(3) True by simp
    let ?s3 = "upd (idleproc s2) (\<lambda>p. p\<lparr>p_runs := p_runs p + 1\<rparr>) s2"
    let ?s4 = "if idleproc s2 \<noteq> current ?s3 then proc_run (idleproc s2) ?s3 else ?s3"
    have 3: "rq_inv ?s3" "queued ?s3 = {}" using upd_inv [OF s2(2)] s2(3) True by auto
    have "schedule sc s = Some ?s4"
      unfolding schedule_def Let_def s1_def [symmetric] s2(1)
      by (simp add: sched_class_pick_next_def pick)
    moreover have "rq_inv ?s4 \<and> queued ?s4 = {}"
      using run_inv [OF 3(1), of "idleproc s2"] 3(2) by simp
    moreover have "current ?s4 = idleproc s" "idleproc ?s4 = idleproc s"
      "\<And>q. p_state (procs ?s4 q) = p_state (procs s q) \<and> p_wait_state (procs ?s4 q) = p_wait_state (procs s q)"
      using s2 by (auto simp: proc_run_def)
    ultimately show ?thesis using True by (intro exI [of _ ?s4]) (simp add: sched_ok_def)
  next
    case False
    then obtain p t s3 where p: "sc_pick_next sc s2 = (Some p, t)" "p \<in> ready s"
      "sc_dequeue sc p t = Some s3" "rq_inv s3" "queued s3 = ready s - {p}"
      "current s3 = current s" "idleproc s3 = idleproc s"
      "\<And>q. p_state (procs s3 q) = p_state (procs s q) \<and> p_wait_state (procs s3 q) = p_wait_state (procs s q)"
      using pick_dequeue [OF s2(2)] s2(3-6) unfolding core_same_def by metis
    let ?s4 = "upd p (\<lambda>p. p\<lparr>p_runs := p_runs p + 1\<rparr>) s3"
    let ?s5 = "if p \<noteq> current ?s4 then proc_run p ?s4 else ?s4"
    have 4: "rq_inv ?s4" "queued ?s4 = ready s - {p}" using upd_inv [OF p(4)] p(5) by auto
    have "schedule sc s = Some ?s5"
      unfolding schedule_def Let_def s1_def [symmetric] s2(1)
      by (simp add: sched_class_pick_next_def sched_class_dequeue_def p(1,3))
    moreover have "rq_inv ?s5 \<and> queued ?s5 = ready s - {p}"
      using run_inv [OF 4(1), of p] 4(2) by simp
    moreover have "current ?s5 = p" "idleproc ?s5 = idleproc s"
      "\<And>q. p_state (procs ?s5 q) = p_state (procs s q) \<and> p_wait_state (procs ?s5 q) = p_wait_state (procs s q)"
      using p by (auto simp: proc_run_def)
    ultimately show ?thesis
      using False p(2) rr ir by (intro exI [of _ ?s5]) (simp add: sched_ok_def)
  qed
qed

lemma wakeup_ok:
  assumes "sched_ok s" "p_state (procs s p) \<noteq> PROC_ZOMBIE"
  shows "\<exists>s'. wakeup_proc sc p s = Some s' \<and> sched_ok s' \<and> current s' = current s
     \<and> idleproc s' = idleproc s \<and> timer_list s' = timer_list s
     \<and> timer_expires s' = timer_expires s \<and> timer_proc s' = timer_proc s
     \<and> (\<forall>q. p_state (procs s' q) = (if q = p then PROC_RUNNABLE else p_state (procs s q)))
     \<and> (\<forall>q. p_wait_state (procs s' q) =
           (if q = p \<and> p_state (procs s p) \<noteq> PROC_RUNNABLE then 0 else p_wait_state (procs s q)))
     \<and> queued s' = (if p_state (procs s p) \<noteq> PROC_RUNNABLE \<and> p \<noteq> current s \<and> p \<noteq> idleproc s
                    then insert p (queued s) else queued s)"
proof (cases "p_state (procs s p) = PROC_RUNNABLE")
  case True
  then show ?thesis using assms by (auto simp: wakeup_proc_def kassert_def)
next
  case False
  have inv: "rq_inv s" and cq: "current s \<notin> queued s" and iq: "idleproc s \<notin> queued s"
    and run: "\<And>p. p \<in> queued s \<Longrightarrow> p_state (procs s p) = PROC_RUNNABLE"
    using assms by (auto simp: sched_ok_def)
  have pq: "p \<notin> queued s" using run False by blast
  let ?s1 = "upd p (\<lambda>p. p\<lparr>p_state := PROC_RUNNABLE\<rparr>) s"
  let ?s2 = "upd p (\<lambda>p. p\<lparr>p_wait_state := 0\<rparr>) ?s1"
  have 1: "rq_inv ?s1" "queued ?s1 = queued s"
    using upd_inv [OF inv, of "\<lambda>p. p\<lparr>p_state := PROC_RUNNABLE\<rparr>" p] by auto
  have 2: "rq_inv ?s2" "queued ?s2 = queued s"
    using upd_inv [OF 1(1), of "\<lambda>p. p\<lparr>p_wait_state := 0\<rparr>" p] 1(2) by auto
  show ?thesis
  proof (cases "p \<noteq> current s \<and> p \<noteq> idleproc s")
    case True
    from enqueue_ok [OF 2(1), of p] pq 2(2) obtain s' where s': "sc_enqueue sc p ?s2 = Some s'"
      "rq_inv s'" "queued s' = insert p (queued s)" "current s' = current s"
      "idleproc s' = idleproc s" "timer_list s' = timer_list s"
      "timer_expires s' = timer_expires s" "timer_proc s' = timer_proc s"
      "\<forall>q. p_state (procs s' q) = (if q = p then PROC_RUNNABLE else p_state (procs s q))"
      "\<forall>q. p_wait_state (procs s' q) = (if q = p then 0 else p_wait_state (procs s q))"
      by (auto simp: core_same_def)
    moreover have "wakeup_proc sc p s = Some s'"
      using True s'(1) False assms(2)
      by (simp add: wakeup_proc_def sched_class_enqueue_def kassert_def Let_def)
    ultimately show ?thesis
      using False True cq iq run by (intro exI [of _ s']) (auto simp: sched_ok_def)
  next
    case nc: False
    have "wakeup_proc sc p s = Some ?s2"
      using nc False assms(2)
      by (auto simp: wakeup_proc_def sched_class_enqueue_def kassert_def Let_def)
    then show ?thesis
      using nc 2 cq iq run False by (intro exI [of _ ?s2]) (auto simp: sched_ok_def)
  qed
qed

end

section \<open>The timer list holds the absolute deadlines as differences\<close>

text \<open>\<open>due e ts acc\<close> pairs each timer of the list with its deadline in ticks from now.\<close>

fun due :: "(nat \<Rightarrow> 32 word) \<Rightarrow> nat list \<Rightarrow> nat \<Rightarrow> (nat \<times> nat) list" where
  "due e [] acc = []"
| "due e (t # ts) acc = (t, acc + unat (e t)) # due e ts (acc + unat (e t))"

definition deadlines :: "'a ksched_scheme \<Rightarrow> (nat \<times> nat) set" where
  "deadlines s = set (due (timer_expires s) (timer_list s) 0)"

definition timers_ok :: "'a ksched_scheme \<Rightarrow> bool" where
  "timers_ok s \<longleftrightarrow> distinct (timer_list s)
     \<and> (timer_list s \<noteq> [] \<longrightarrow> timer_expires s (hd (timer_list s)) \<noteq> 0)
     \<and> (\<forall>(t, d) \<in> deadlines s. d < 2 ^ 32)"

lemma due_cong: "(\<And>x. x \<in> set ts \<Longrightarrow> e x = e' x) \<Longrightarrow> due e ts acc = due e' ts acc"
  by (induction ts arbitrary: acc) auto

lemma map_fst_due [simp]: "map fst (due e ts acc) = ts"
  by (induction ts arbitrary: acc) auto

lemma fst_due: "(t, d) \<in> set (due e ts acc) \<Longrightarrow> t \<in> set ts"
  using map_fst_due [of e ts acc] by (metis fst_conv image_eqI list.set_map)

lemma due_ge: "(t, d) \<in> set (due e ts acc) \<Longrightarrow> acc \<le> d"
  by (induction ts arbitrary: acc) fastforce+

lemma due_shift: "due e ts (acc + k) = map (\<lambda>(t, d). (t, d + k)) (due e ts acc)"
proof (induction ts arbitrary: acc)
  case (Cons t ts)
  have eq: "acc + k + unat (e t) = (acc + unat (e t)) + k" by simp
  show ?case unfolding due.simps eq Cons.IH [of "acc + unat (e t)"] by simp
qed simp

lemma unat_lt32 [simp]: "unat w < 4294967296" for w :: "32 word"
proof -
  have "unat w < 2 ^ LENGTH(32)" by (rule unsigned_less)
  then show ?thesis by simp
qed

lemma unat_diff_le: "b \<le> a \<Longrightarrow> unat (a - b) = unat a - unat b" for a b :: "32 word"
  by (simp add: unat_sub)

lemma add_scan_other:
  "add_scan e t ts = (e', ts') \<Longrightarrow> x \<notin> set ts \<Longrightarrow> x \<noteq> t \<Longrightarrow> e' x = e x"
  by (induction e t ts arbitrary: e' ts' rule: add_scan.induct) (auto split: if_splits prod.splits)

lemma add_scan_due:
  "add_scan e t ts = (e', ts') \<Longrightarrow> distinct (t # ts) \<Longrightarrow>
   set (due e' ts' acc) = insert (t, acc + unat (e t)) (set (due e ts acc)) \<and> distinct ts'"
proof (induction e t ts arbitrary: e' ts' acc rule: add_scan.induct)
  case (2 e t n ns)
  show ?case
  proof (cases "e t < e n")
    case True
    have u: "unat (e t) + unat (e n - e t) = unat (e n)"
      using True unat_diff_le [of "e t" "e n"] by (simp add: word_less_nat_alt word_le_nat_alt)
    have "e' = e(n := e n - e t)" "ts' = t # n # ns" using 2(2) True by auto
    moreover have "due (e(n := e n - e t)) ns k = due e ns k" for k
      by (rule due_cong) (use 2(3) in auto)
    ultimately show ?thesis
      using 2(3) u by (simp add: add.assoc insert_commute fun_upd_same fun_upd_other del: fun_upd_apply)
  next
    case False
    have u: "unat (e n) + unat (e t - e n) = unat (e t)"
      using False unat_diff_le [of "e n" "e t"] by (simp add: word_less_nat_alt not_less word_le_nat_alt)
    obtain e1 ts1 where s: "add_scan (e(t := e t - e n)) t ns = (e1, ts1)" by force
    have "e' = e1" "ts' = n # ts1" using 2(2) False s by auto
    moreover have "e1 n = e n" using add_scan_other [OF s, of n] 2(3) by auto
    moreover have "set (due e1 ts1 (acc + unat (e n))) =
        insert (t, acc + unat (e n) + unat (e t - e n)) (set (due (e(t := e t - e n)) ns (acc + unat (e n))))
        \<and> distinct ts1"
      using 2(1) [OF False s, of "acc + unat (e n)"] 2(3)
      by (simp add: fun_upd_same del: fun_upd_apply)
    moreover have "due (e(t := e t - e n)) ns k = due e ns k" for k
      by (rule due_cong) (use 2(3) in auto)
    moreover have "n \<notin> set ts1"
    proof -
      have "set ts1 = insert t (set ns)"
        using arg_cong [OF conjunct1 [OF calculation(4)], of "image fst"] map_fst_due list.set_map
        by (metis fst_conv image_insert)
      then show ?thesis using 2(3) by auto
    qed
    ultimately show ?thesis using u by (auto simp: add.assoc)
  qed
qed auto

lemma add_scan_hd:
  "add_scan e t ts = (e', ts') \<Longrightarrow> distinct (t # ts) \<Longrightarrow> e t \<noteq> 0 \<Longrightarrow> (ts \<noteq> [] \<longrightarrow> e (hd ts) \<noteq> 0)
   \<Longrightarrow> ts' \<noteq> [] \<and> e' (hd ts') \<noteq> 0"
proof (cases ts)
  case (Cons n ns)
  assume a: "add_scan e t ts = (e', ts')" "distinct (t # ts)" "e t \<noteq> 0" "ts \<noteq> [] \<longrightarrow> e (hd ts) \<noteq> 0"
  show ?thesis
  proof (cases "e t < e n")
    case True
    then show ?thesis using a Cons by auto
  next
    case False
    obtain e1 ts1 where s: "add_scan (e(t := e t - e n)) t ns = (e1, ts1)" by force
    then show ?thesis using a Cons False add_scan_other [OF s, of n] by auto
  qed
qed auto

lemma add_timer_ok:
  assumes "timers_ok s" "t \<notin> set (timer_list s)" "timer_expires s t > 0" "timer_proc s t \<noteq> None"
  shows "\<exists>s'. add_timer t s = Some s' \<and> timers_ok s'
     \<and> deadlines s' = insert (t, unat (timer_expires s t)) (deadlines s)"
proof -
  obtain e ts where s: "add_scan (timer_expires s) t (timer_list s) = (e, ts)" by force
  have d: "distinct (t # timer_list s)" using assms by (simp add: timers_ok_def)
  from add_scan_due [OF s d, of 0] add_scan_hd [OF s d] assms
  have "timers_ok (s\<lparr>timer_expires := e, timer_list := ts\<rparr>)"
    "deadlines (s\<lparr>timer_expires := e, timer_list := ts\<rparr>)
       = insert (t, unat (timer_expires s t)) (deadlines s)"
    by (auto simp: timers_ok_def deadlines_def word_gt_0)
  then show ?thesis using s assms by (auto simp: add_timer_def kassert_def)
qed

lemma due_remove:
  assumes "distinct ts" "t \<in> set ts" "\<forall>(x, d) \<in> set (due e ts acc). d < 2 ^ 32"
  defines "e' \<equiv> (if e t \<noteq> 0 then (case next_timer t ts of Some n \<Rightarrow> e(n := e n + e t) | None \<Rightarrow> e) else e)"
  shows "set (due e' (remove1 t ts) acc) = {(x, d) \<in> set (due e ts acc). x \<noteq> t}"
  using assms(1-3) unfolding e'_def
proof (induction ts arbitrary: acc)
  case (Cons x xs)
  let ?e = "\<lambda>ts. if e t \<noteq> 0 then (case next_timer t ts of Some n \<Rightarrow> e(n := e n + e t) | None \<Rightarrow> e) else e"
  show ?case
  proof (cases "x = t")
    case [simp]: True
    show ?thesis
    proof (cases xs)
      case Nil
      then show ?thesis by auto
    next
      case [simp]: (Cons n ns)
      have lt: "acc + unat (e t) + unat (e n) < 2 ^ 32" using Cons.prems(3) by simp
      have u: "unat (e n + e t) = unat (e n) + unat (e t)"
        by (rule unat_add_lem [THEN iffD1]) (use lt in simp)
      have "due (e(n := e n + e t)) ns k = due e ns k" for k
        by (rule due_cong) (use Cons.prems in auto)
      moreover have "(t, d) \<notin> set (due e ns k)" for d k
        using Cons.prems fst_due [of t d e ns k] by auto
      ultimately show ?thesis using u Cons.prems(1) by (auto simp: ac_simps)
    qed
  next
    case False
    have ih: "set (due (?e xs) (remove1 t xs) (acc + unat (e x)))
        = {(y, d) \<in> set (due e xs (acc + unat (e x))). y \<noteq> t}"
      by (rule Cons.IH) (use Cons.prems False in auto)
    have "next_timer t xs \<noteq> Some x"
    proof
      assume n: "next_timer t xs = Some x"
      have "next_timer t ys = Some z \<Longrightarrow> z \<in> set ys" for ys z
        by (induction t ys rule: next_timer.induct) (auto split: if_splits list.splits)
      with n Cons.prems(1) show False by auto
    qed
    then have "?e xs x = e x" by (auto split: option.splits)
    with ih False show ?thesis by auto
  qed
qed simp

lemma hd_remove1: "distinct ts \<Longrightarrow> ts = t # us \<Longrightarrow> remove1 t ts = us"
  by simp

lemma next_timer_in: "next_timer t ts = Some z \<Longrightarrow> z \<in> set (tl ts)"
  by (induction t ts rule: next_timer.induct)
    (auto split: if_splits list.splits, metis list.sel(2) list.set_sel(2))

lemma timer_list_del [simp]: "timer_list (del_timer t s) = remove1 t (timer_list s)"
  by (auto simp: del_timer_def Let_def remove1_idem)

lemma del_timer_ok:
  assumes "timers_ok s"
  shows "timers_ok (del_timer t s) \<and> deadlines (del_timer t s) = {(x, d) \<in> deadlines s. x \<noteq> t}"
proof (cases "t \<in> set (timer_list s)")
  case False
  then have "del_timer t s = s" by (simp add: del_timer_def)
  moreover have "x \<noteq> t" if "(x, d) \<in> deadlines s" for x d
    using that False fst_due unfolding deadlines_def by blast
  ultimately show ?thesis using assms by auto
next
  case True
  let ?e = "timer_expires s" and ?ts = "timer_list s"
  define e' where "e' = (if ?e t \<noteq> 0 then (case next_timer t ?ts of Some n \<Rightarrow> ?e(n := ?e n + ?e t) | None \<Rightarrow> ?e) else ?e)"
  have del: "del_timer t s = s\<lparr>timer_expires := e', timer_list := remove1 t ?ts\<rparr>"
    using True by (simp add: del_timer_def e'_def Let_def)
  have ok: "distinct ?ts" "?e (hd ?ts) \<noteq> 0" "\<forall>(x, d) \<in> set (due ?e ?ts 0). d < 2 ^ 32"
    using assms True by (auto simp: timers_ok_def deadlines_def)
  have dl: "deadlines (del_timer t s) = {(x, d) \<in> deadlines s. x \<noteq> t}"
    using due_remove [OF ok(1) True ok(3)] unfolding del deadlines_def by (simp add: e'_def)
  moreover have "e' (hd (remove1 t ?ts)) \<noteq> 0" if ne: "remove1 t ?ts \<noteq> []"
  proof -
    obtain x xs where ts: "?ts = x # xs" using True by (cases ?ts) auto
    show ?thesis
    proof (cases "x = t")
      case [simp]: True
      obtain n ns where xs: "xs = n # ns" using ne ts by (cases xs) auto
      have lt: "unat (?e t) + unat (?e n) < 2 ^ 32" using ok(3) ts xs by simp
      have u: "unat (?e n + ?e t) = unat (?e n) + unat (?e t)"
        by (rule unat_add_lem [THEN iffD1]) (use lt in simp)
      have "?e t \<noteq> 0" using ok(2) ts by simp
      then have "unat (?e t) \<noteq> 0" by (simp add: unat_eq_0)
      then have "?e n + ?e t \<noteq> 0" using u by (metis add_is_0 unat_0)
      then show ?thesis using ts xs \<open>?e t \<noteq> 0\<close> by (simp add: e'_def)
    next
      case False
      have "next_timer t ?ts \<noteq> Some x" using next_timer_in [of t ?ts x] ts ok(1) by auto
      then have "e' x = ?e x" by (auto simp: e'_def split: option.splits)
      then show ?thesis using ok(2) ts False by simp
    qed
  qed
  moreover have "\<forall>(x, d) \<in> deadlines (del_timer t s). d < 2 ^ 32"
    using dl ok(3) by (auto simp: deadlines_def)
  ultimately show ?thesis using ok(1) unfolding timers_ok_def by (simp add: del)
qed

lemma del_timer_zero:
  "timer_expires s t = 0 \<Longrightarrow>
   del_timer t s = s\<lparr>timer_expires := timer_expires s, timer_list := remove1 t (timer_list s)\<rparr>"
  by (simp add: del_timer_def remove1_idem)

text \<open>The processes behind the timers may be woken.\<close>

definition can_wake :: "'a ksched_scheme \<Rightarrow> bool" where
  "can_wake s \<longleftrightarrow> (\<forall>t \<in> set (timer_list s). \<exists>p. timer_proc s t = Some p
     \<and> p_state (procs s p) \<noteq> PROC_ZOMBIE
     \<and> (p_wait_state (procs s p) = 0 \<or> p_wait_state (procs s p) AND WT_INTERRUPTED \<noteq> 0))"

definition woken :: "'a ksched_scheme \<Rightarrow> nat list \<Rightarrow> pptr set" where
  "woken s ts = {p. \<exists>t \<in> set ts. timer_proc s t = Some p}"

context run_queue
begin

lemma fire_timers_ok:
  "sched_ok s \<Longrightarrow> can_wake s \<Longrightarrow> timer_list s = ts \<Longrightarrow>
   \<exists>s'. fire_timers sc ts s = Some s' \<and> sched_ok s'
     \<and> timer_list s' = dropWhile (\<lambda>t. timer_expires s t = 0) ts
     \<and> timer_expires s' = timer_expires s \<and> current s' = current s \<and> idleproc s' = idleproc s
     \<and> (\<forall>q. p_state (procs s' q) =
          (if q \<in> woken s (takeWhile (\<lambda>t. timer_expires s t = 0) ts) then PROC_RUNNABLE
           else p_state (procs s q)))"
proof (induction ts arbitrary: s)
  case Nil
  then show ?case by (simp add: woken_def)
next
  case (Cons t le)
  show ?case
  proof (cases "timer_expires s t = 0")
    case False
    then show ?thesis using Cons.prems by (simp add: woken_def)
  next
    case True
    obtain p where p: "timer_proc s t = Some p" "p_state (procs s p) \<noteq> PROC_ZOMBIE"
      "p_wait_state (procs s p) = 0 \<or> p_wait_state (procs s p) AND WT_INTERRUPTED \<noteq> 0"
      using Cons.prems by (auto simp: can_wake_def)
    obtain s1 where s1: "wakeup_proc sc p s = Some s1" "sched_ok s1" "current s1 = current s"
      "idleproc s1 = idleproc s" "timer_list s1 = t # le" "timer_expires s1 = timer_expires s"
      "timer_proc s1 = timer_proc s"
      "\<And>q. p_state (procs s1 q) = (if q = p then PROC_RUNNABLE else p_state (procs s q))"
      "\<And>q. p_wait_state (procs s1 q) =
           (if q = p \<and> p_state (procs s p) \<noteq> PROC_RUNNABLE then 0 else p_wait_state (procs s q))"
      using wakeup_ok [OF Cons.prems(1) p(2)] Cons.prems(3) by auto
    let ?s2 = "del_timer t s1"
    have s2: "?s2 = s1\<lparr>timer_expires := timer_expires s1, timer_list := le\<rparr>"
      using del_timer_zero [of s1 t] s1(5,6) True by simp
    have ok2: "sched_ok ?s2"
      using s1(2) timers_inv [where s = s1 and e = "timer_expires s1" and l = le] unfolding s2 by (simp add: sched_ok_def)
    have cw2: "can_wake ?s2"
      unfolding can_wake_def
    proof
      fix x assume "x \<in> set (timer_list ?s2)"
      then have "x \<in> set (timer_list s)" using s2 Cons.prems(3) by simp
      then obtain q where "timer_proc s x = Some q" "p_state (procs s q) \<noteq> PROC_ZOMBIE"
        "p_wait_state (procs s q) = 0 \<or> p_wait_state (procs s q) AND WT_INTERRUPTED \<noteq> 0"
        using Cons.prems(2) by (auto simp: can_wake_def)
      then show "\<exists>q. timer_proc ?s2 x = Some q \<and> p_state (procs ?s2 q) \<noteq> PROC_ZOMBIE
          \<and> (p_wait_state (procs ?s2 q) = 0 \<or> p_wait_state (procs ?s2 q) AND WT_INTERRUPTED \<noteq> 0)"
        using s1(7-9) unfolding s2 by (intro exI [of _ q]) auto
    qed
    have l2: "timer_list ?s2 = le" using s2 by simp
    from Cons.IH [OF ok2 cw2 l2] obtain s' where s': "fire_timers sc le ?s2 = Some s'" "sched_ok s'"
      "timer_list s' = dropWhile (\<lambda>t. timer_expires s t = 0) le"
      "timer_expires s' = timer_expires s" "current s' = current s" "idleproc s' = idleproc s"
      "\<forall>q. p_state (procs s' q) =
          (if q \<in> woken s (takeWhile (\<lambda>t. timer_expires s t = 0) le) then PROC_RUNNABLE
           else p_state (procs s1 q))"
      using s1 unfolding s2 by (auto simp: woken_def)
    have "fire_timers sc (t # le) s = Some s'"
      using True p s1(1) s'(1) by (simp add: kassert_def)
    then show ?thesis
      using s' s1(8) True p(1) by (intro exI [of _ s']) (auto simp: woken_def)
  qed
qed

lemma tick_inv:
  assumes "sched_ok s"
  shows "sched_ok (sched_class_proc_tick sc p s) \<and> core_same s (sched_class_proc_tick sc p s)"
proof (cases "p = idleproc s")
  case True
  then show ?thesis
    using assms upd_inv [of s "\<lambda>p. p\<lparr>p_need_resched := True\<rparr>" p]
    by (auto simp: sched_class_proc_tick_def sched_ok_def core_same_def)
next
  case False
  then show ?thesis
    using assms tick_ok [of s p] by (auto simp: sched_class_proc_tick_def sched_ok_def core_same_def)
qed

lemma due_drop:
  "set (due e (dropWhile (\<lambda>t. e t = 0) ts) 0) = {(t, d) \<in> set (due e ts 0). d > 0}"
proof (induction ts)
  case (Cons t ts)
  show ?case
  proof (cases "e t = 0")
    case True
    then show ?thesis using Cons by auto
  next
    case False
    then have "unat (e t) > 0" by (simp add: unat_gt_0)
    then show ?thesis using False due_ge [of _ _ e ts "unat (e t)"] by fastforce
  qed
qed simp

lemma due_zero:
  "t \<in> set (takeWhile (\<lambda>t. e t = 0) ts) \<longleftrightarrow> (t, 0) \<in> set (due e ts 0)"
proof (induction ts)
  case (Cons x xs)
  show ?case
  proof (cases "e x = 0")
    case True
    then show ?thesis using Cons by auto
  next
    case False
    then have "unat (e x) > 0" by (simp add: unat_gt_0)
    then show ?thesis using False due_ge [of t 0 e xs "unat (e x)"] by auto
  qed
qed simp

lemma run_timer_list_ok:
  assumes ok: "sched_ok s" and tm: "timers_ok s" and cw: "can_wake s"
  shows "\<exists>s'. run_timer_list sc s = Some s' \<and> sched_ok s' \<and> timers_ok s'
     \<and> deadlines s' = {(t, d). (t, Suc d) \<in> deadlines s \<and> d > 0}
     \<and> (\<forall>q. p_state (procs s' q) =
          (if \<exists>t. (t, 1) \<in> deadlines s \<and> timer_proc s t = Some q then PROC_RUNNABLE
           else p_state (procs s q)))"
proof (cases "timer_list s")
  case Nil
  let ?s = "sched_class_proc_tick sc (current s) s"
  have "run_timer_list sc s = Some ?s" using Nil by (simp add: run_timer_list_def)
  moreover have "sched_ok ?s" "core_same s ?s" using tick_inv [OF ok, of "current s"] by auto
  ultimately show ?thesis using Nil by (auto simp: core_same_def timers_ok_def deadlines_def)
next
  case (Cons t ts)
  let ?e = "(timer_expires s)(t := timer_expires s t - 1)"
  let ?s1 = "s\<lparr>timer_expires := ?e\<rparr>"
  have nz: "timer_expires s t \<noteq> 0" and d: "distinct (t # ts)"
    using tm Cons by (auto simp: timers_ok_def)
  have u: "unat (timer_expires s t) = Suc (unat (timer_expires s t - 1))"
    using nz unat_gt_0 [of "timer_expires s t"] by (simp add: unat_minus_one)
  have ok1: "sched_ok ?s1"
    using ok timers_inv [where s = s and e = ?e and l = "timer_list s"] by (simp add: sched_ok_def)
  have cw1: "can_wake ?s1" using cw by (simp add: can_wake_def)
  have l1: "timer_list ?s1 = timer_list s" by simp
  have due1: "due (timer_expires s) (t # ts) 0 = map (\<lambda>(t, d). (t, d + 1)) (due ?e (t # ts) 0)"
  proof -
    have "due (timer_expires s) ts k = due ?e ts k" for k
      by (rule due_cong) (use d in auto)
    then show ?thesis using u due_shift [of ?e ts "unat (timer_expires s t - 1)" 1] by simp
  qed
  have dl: "(x, k) \<in> set (due ?e (t # ts) 0) \<longleftrightarrow> (x, Suc k) \<in> deadlines s" for x k
    using due1 unfolding deadlines_def Cons by auto
  from fire_timers_ok [OF ok1 cw1 l1] obtain s2 where s2:
    "fire_timers sc (timer_list s) ?s1 = Some s2" "sched_ok s2"
    "timer_list s2 = dropWhile (\<lambda>t. ?e t = 0) (t # ts)" "timer_expires s2 = ?e"
    "\<forall>q. p_state (procs s2 q) =
        (if q \<in> woken ?s1 (takeWhile (\<lambda>t. ?e t = 0) (t # ts)) then PROC_RUNNABLE
         else p_state (procs s q))"
    unfolding Cons by auto
  let ?s = "sched_class_proc_tick sc (current s2) s2"
  have run: "run_timer_list sc s = Some ?s"
    using Cons nz s2(1) by (simp add: run_timer_list_def kassert_def)
  have t: "sched_ok ?s" "core_same s2 ?s" using tick_inv [OF s2(2), of "current s2"] by auto
  have dl2: "deadlines ?s = {(x, k). (x, Suc k) \<in> deadlines s \<and> k > 0}"
    using due_drop [of ?e "t # ts"] dl s2(3,4) t(2) by (auto simp: deadlines_def core_same_def)
  have "timers_ok ?s"
    unfolding timers_ok_def
  proof (intro conjI impI)
    show "distinct (timer_list ?s)" using t(2) s2(3) d distinct_dropWhile [of "t # ts"] by (simp only: core_same_def)
    show "timer_expires ?s (hd (timer_list ?s)) \<noteq> 0" if "timer_list ?s \<noteq> []"
      using that hd_dropWhile [of "\<lambda>t. ?e t = 0" "t # ts"] t(2) s2(3,4)
      by (simp only: core_same_def not_False_eq_True simp_thms)
    show "\<forall>(x, k) \<in> deadlines ?s. k < 2 ^ 32" using dl2 tm by (fastforce simp: timers_ok_def)
  qed
  moreover have "q \<in> woken ?s1 (takeWhile (\<lambda>t. ?e t = 0) (t # ts))
      \<longleftrightarrow> (\<exists>t. (t, 1) \<in> deadlines s \<and> timer_proc s t = Some q)" for q
    unfolding woken_def using due_zero [of _ ?e "t # ts"] dl [of _ 0] by auto
  ultimately show ?thesis
    using run t dl2 s2(5) by (intro exI [of _ ?s]) (simp add: core_same_def)
qed

end

end
