(* ===== verification/Wait_Sem.thy ===== *)
theory Wait_Sem
  imports Sched
begin

text \<open>
  Wait queues (\<open>kern/sync/wait.c\<close>) and semaphores (\<open>kern/sync/sem.c\<close>), over the scheduler state.
  A wait entry, a wait queue and a semaphore are named by their addresses; a semaphore and the queue
  inside it share one name.  A queue is the sequence of its linked entries (the circular list of
  \<open>Kern_List\<close>), and \<open>w_linked\<close> is \<open>!list_empty(&wait->wait_link)\<close>.  \<open>down\<close> gives up the processor
  in its middle: \<open>down_enter\<close> is the code before \<open>schedule()\<close>, \<open>down_leave\<close> the code after it, and
  what the other processes do in between is a parameter of \<open>sem_down\<close> (the code's \<open>__down\<close>).  The abstract semaphore \<open>asem\<close>
  is a counter with a FIFO of blocked processes; \<open>up\<close> and \<open>down\<close> refine it.
\<close>

record wait_t =
  w_proc :: "pptr option"
  w_flags :: "32 word"
  w_queue :: "nat option"
  w_linked :: bool

record sync =
  waits :: "nat \<Rightarrow> wait_t"
  wqueues :: "nat \<Rightarrow> nat list"
  sem_value :: "nat \<Rightarrow> int"

definition upd_wait :: "nat \<Rightarrow> (wait_t \<Rightarrow> wait_t) \<Rightarrow> sync \<Rightarrow> sync" where
  "upd_wait w f y = y\<lparr>waits := (waits y)(w := f (waits y w))\<rparr>"

definition set_queue :: "nat \<Rightarrow> nat list \<Rightarrow> sync \<Rightarrow> sync" where
  "set_queue q ws y = y\<lparr>wqueues := (wqueues y)(q := ws)\<rparr>"

lemma sync_simps [simp]:
  "waits (upd_wait w f y) = (waits y)(w := f (waits y w))" "wqueues (upd_wait w f y) = wqueues y"
  "sem_value (upd_wait w f y) = sem_value y" "waits (set_queue q ws y) = waits y"
  "wqueues (set_queue q ws y) = (wqueues y)(q := ws)" "sem_value (set_queue q ws y) = sem_value y"
  by (simp_all add: upd_wait_def set_queue_def)

section \<open>Wait queues\<close>

definition wait_init :: "nat \<Rightarrow> pptr option \<Rightarrow> sync \<Rightarrow> sync" where
  "wait_init w p y =
     upd_wait w (\<lambda>x. x\<lparr>w_proc := p, w_flags := WT_INTERRUPTED, w_linked := False\<rparr>) y"

definition wait_queue_init :: "nat \<Rightarrow> sync \<Rightarrow> sync" where
  "wait_queue_init q y = set_queue q [] y"

definition wait_queue_add :: "nat \<Rightarrow> nat \<Rightarrow> sync \<Rightarrow> sync option" where
  "wait_queue_add q w y = do {
     kassert (\<not> w_linked (waits y w) \<and> w_proc (waits y w) \<noteq> None);
     let y = upd_wait w (\<lambda>x. x\<lparr>w_queue := Some q\<rparr>) y;
     Some (set_queue q (wqueues y q @ [w]) (upd_wait w (\<lambda>x. x\<lparr>w_linked := True\<rparr>) y))
   }"

definition wait_queue_del :: "nat \<Rightarrow> nat \<Rightarrow> sync \<Rightarrow> sync option" where
  "wait_queue_del q w y = do {
     kassert (w_linked (waits y w) \<and> w_queue (waits y w) = Some q);
     Some (set_queue q (remove1 w (wqueues y q)) (upd_wait w (\<lambda>x. x\<lparr>w_linked := False\<rparr>) y))
   }"

text \<open>The entry after \<open>w\<close> in a queue, \<open>None\<close> at the queue's head.\<close>

fun entry_after :: "nat \<Rightarrow> nat list \<Rightarrow> nat option" where
  "entry_after w [] = None"
| "entry_after w (x # xs) =
     (if x = w then (case xs of [] \<Rightarrow> None | y # _ \<Rightarrow> Some y) else entry_after w xs)"

definition wait_queue_next :: "nat \<Rightarrow> nat \<Rightarrow> sync \<Rightarrow> nat option option" where
  "wait_queue_next q w y = do {
     kassert (w_linked (waits y w) \<and> w_queue (waits y w) = Some q);
     Some (entry_after w (wqueues y q))
   }"

definition wait_queue_prev :: "nat \<Rightarrow> nat \<Rightarrow> sync \<Rightarrow> nat option option" where
  "wait_queue_prev q w y = do {
     kassert (w_linked (waits y w) \<and> w_queue (waits y w) = Some q);
     Some (entry_after w (rev (wqueues y q)))
   }"

definition wait_queue_first :: "nat \<Rightarrow> sync \<Rightarrow> nat option" where
  "wait_queue_first q y = (case wqueues y q of [] \<Rightarrow> None | w # _ \<Rightarrow> Some w)"

definition wait_queue_last :: "nat \<Rightarrow> sync \<Rightarrow> nat option" where
  "wait_queue_last q y = (case rev (wqueues y q) of [] \<Rightarrow> None | w # _ \<Rightarrow> Some w)"

definition wait_queue_empty :: "nat \<Rightarrow> sync \<Rightarrow> bool" where
  "wait_queue_empty q y \<longleftrightarrow> wqueues y q = []"

definition wait_in_queue :: "nat \<Rightarrow> sync \<Rightarrow> bool" where
  "wait_in_queue w y \<longleftrightarrow> w_linked (waits y w)"

definition wakeup_wait ::
  "'a ksched_scheme sched_class \<Rightarrow> nat \<Rightarrow> nat \<Rightarrow> 32 word \<Rightarrow> bool
     \<Rightarrow> sync \<times> 'a ksched_scheme \<Rightarrow> (sync \<times> 'a ksched_scheme) option" where
  "wakeup_wait sc q w wakeup_flags del ys = do {
     y \<leftarrow> (if del then wait_queue_del q w (fst ys) else Some (fst ys));
     let y = upd_wait w (\<lambda>x. x\<lparr>w_flags := wakeup_flags\<rparr>) y;
     (case w_proc (waits y w) of
        None \<Rightarrow> None
      | Some p \<Rightarrow> do { s \<leftarrow> wakeup_proc sc p (snd ys); Some (y, s) })
   }"

definition wakeup_first ::
  "'a ksched_scheme sched_class \<Rightarrow> nat \<Rightarrow> 32 word \<Rightarrow> bool
     \<Rightarrow> sync \<times> 'a ksched_scheme \<Rightarrow> (sync \<times> 'a ksched_scheme) option" where
  "wakeup_first sc q wakeup_flags del ys =
     (case wait_queue_first q (fst ys) of
        None \<Rightarrow> Some ys
      | Some w \<Rightarrow> wakeup_wait sc q w wakeup_flags del ys)"

text \<open>The two \<open>do\<close>-\<open>while\<close> loops of \<open>wakeup_queue\<close>, entered with an entry \<open>w\<close>.\<close>

partial_function (option) wakeup_del_loop ::
  "'a ksched_scheme sched_class \<Rightarrow> nat \<Rightarrow> 32 word \<Rightarrow> nat
     \<Rightarrow> sync \<times> 'a ksched_scheme \<Rightarrow> (sync \<times> 'a ksched_scheme) option" where
  "wakeup_del_loop sc q wakeup_flags w ys = do {
     ys \<leftarrow> wakeup_wait sc q w wakeup_flags True ys;
     (case wait_queue_first q (fst ys) of
        None \<Rightarrow> Some ys
      | Some w \<Rightarrow> wakeup_del_loop sc q wakeup_flags w ys)
   }"

partial_function (option) wakeup_keep_loop ::
  "'a ksched_scheme sched_class \<Rightarrow> nat \<Rightarrow> 32 word \<Rightarrow> nat
     \<Rightarrow> sync \<times> 'a ksched_scheme \<Rightarrow> (sync \<times> 'a ksched_scheme) option" where
  "wakeup_keep_loop sc q wakeup_flags w ys = do {
     ys \<leftarrow> wakeup_wait sc q w wakeup_flags False ys;
     nxt \<leftarrow> wait_queue_next q w (fst ys);
     (case nxt of
        None \<Rightarrow> Some ys
      | Some w \<Rightarrow> wakeup_keep_loop sc q wakeup_flags w ys)
   }"

declare wakeup_del_loop.simps [code] wakeup_keep_loop.simps [code]

definition wakeup_queue ::
  "'a ksched_scheme sched_class \<Rightarrow> nat \<Rightarrow> 32 word \<Rightarrow> bool
     \<Rightarrow> sync \<times> 'a ksched_scheme \<Rightarrow> (sync \<times> 'a ksched_scheme) option" where
  "wakeup_queue sc q wakeup_flags del ys =
     (case wait_queue_first q (fst ys) of
        None \<Rightarrow> Some ys
      | Some w \<Rightarrow>
          if del then wakeup_del_loop sc q wakeup_flags w ys
          else wakeup_keep_loop sc q wakeup_flags w ys)"

definition wait_current_set ::
  "nat \<Rightarrow> nat \<Rightarrow> 32 word \<Rightarrow> sync \<times> 'a ksched_scheme \<Rightarrow> (sync \<times> 'a ksched_scheme) option" where
  "wait_current_set q w wait_state ys = do {
     let s = snd ys;
     let y = wait_init w (Some (current s)) (fst ys);
     let s = upd (current s) (\<lambda>p. p\<lparr>p_state := PROC_SLEEPING\<rparr>) s;
     let s = upd (current s) (\<lambda>p. p\<lparr>p_wait_state := wait_state\<rparr>) s;
     y \<leftarrow> wait_queue_add q w y;
     Some (y, s)
   }"

definition wait_current_del :: "nat \<Rightarrow> nat \<Rightarrow> sync \<Rightarrow> sync option" where
  "wait_current_del q w y = (if wait_in_queue w y then wait_queue_del q w y else Some y)"

section \<open>Semaphores\<close>

definition set_value :: "nat \<Rightarrow> int \<Rightarrow> sync \<Rightarrow> sync" where
  "set_value sem v y = y\<lparr>sem_value := (sem_value y)(sem := v)\<rparr>"

lemma set_value_simps [simp]:
  "waits (set_value sem v y) = waits y" "wqueues (set_value sem v y) = wqueues y"
  "sem_value (set_value sem v y) = (sem_value y)(sem := v)"
  by (simp_all add: set_value_def)

definition sem_init :: "nat \<Rightarrow> int \<Rightarrow> sync \<Rightarrow> sync" where
  "sem_init sem v y = wait_queue_init sem (set_value sem v y)"

definition sem_up ::
  "'a ksched_scheme sched_class \<Rightarrow> nat \<Rightarrow> 32 word \<Rightarrow> sync \<times> 'a ksched_scheme
     \<Rightarrow> (sync \<times> 'a ksched_scheme) option" where
  "sem_up sc sem wait_state ys =
     (case wait_queue_first sem (fst ys) of
        None \<Rightarrow> Some (set_value sem (sem_value (fst ys) sem + 1) (fst ys), snd ys)
      | Some w \<Rightarrow>
          (case w_proc (waits (fst ys) w) of
             None \<Rightarrow> None
           | Some p \<Rightarrow> do {
               kassert (p_wait_state (procs (snd ys) p) = wait_state);
               wakeup_wait sc sem w wait_state True ys
             }))"

text \<open>\<open>down_enter\<close>: \<open>True\<close> when the semaphore was taken, \<open>False\<close> when the process went to sleep.\<close>

definition down_enter ::
  "nat \<Rightarrow> nat \<Rightarrow> 32 word \<Rightarrow> sync \<times> 'a ksched_scheme \<Rightarrow> (bool \<times> sync \<times> 'a ksched_scheme) option" where
  "down_enter sem w wait_state ys =
     (if sem_value (fst ys) sem > 0
      then Some (True, set_value sem (sem_value (fst ys) sem - 1) (fst ys), snd ys)
      else do {
        ys \<leftarrow> wait_current_set sem w wait_state ys;
        Some (False, ys)
      })"

definition down_leave ::
  "nat \<Rightarrow> nat \<Rightarrow> 32 word \<Rightarrow> sync \<Rightarrow> (32 word \<times> sync) option" where
  "down_leave sem w wait_state y = do {
     y \<leftarrow> wait_current_del sem w y;
     if w_flags (waits y w) \<noteq> wait_state then Some (w_flags (waits y w), y) else Some (0, y)
   }"

text \<open>The whole of \<open>__down\<close>: \<open>others\<close> is what the system does from the switch away from this process
  to the switch back.\<close>

definition sem_down ::
  "'a ksched_scheme sched_class \<Rightarrow> (sync \<times> 'a ksched_scheme \<Rightarrow> (sync \<times> 'a ksched_scheme) option)
     \<Rightarrow> nat \<Rightarrow> nat \<Rightarrow> 32 word \<Rightarrow> sync \<times> 'a ksched_scheme
     \<Rightarrow> (32 word \<times> sync \<times> 'a ksched_scheme) option" where
  "sem_down sc others sem w wait_state ys = do {
     (taken, ys) \<leftarrow> down_enter sem w wait_state ys;
     if taken then Some (0, ys)
     else do {
       s \<leftarrow> schedule sc (snd ys);
       ys \<leftarrow> others (fst ys, s);
       (flags, y) \<leftarrow> down_leave sem w wait_state (fst ys);
       Some (flags, y, snd ys)
     }
   }"

definition up ::
  "'a ksched_scheme sched_class \<Rightarrow> nat \<Rightarrow> sync \<times> 'a ksched_scheme
     \<Rightarrow> (sync \<times> 'a ksched_scheme) option" where
  "up sc sem ys = sem_up sc sem WT_KSEM ys"

definition down ::
  "'a ksched_scheme sched_class \<Rightarrow> (sync \<times> 'a ksched_scheme \<Rightarrow> (sync \<times> 'a ksched_scheme) option)
     \<Rightarrow> nat \<Rightarrow> nat \<Rightarrow> sync \<times> 'a ksched_scheme \<Rightarrow> (sync \<times> 'a ksched_scheme) option" where
  "down sc others sem w ys = do {
     (flags, ys) \<leftarrow> sem_down sc others sem w WT_KSEM ys;
     kassert (flags = 0);
     Some ys
   }"

definition try_down :: "nat \<Rightarrow> sync \<Rightarrow> bool \<times> sync" where
  "try_down sem y =
     (if sem_value y sem > 0 then (True, set_value sem (sem_value y sem - 1) y) else (False, y))"

section \<open>The abstract semaphore\<close>

record asem =
  val :: int
  blocked :: "nat list"

definition a_up :: "asem \<Rightarrow> nat option \<times> asem" where
  "a_up m = (case blocked m of
       [] \<Rightarrow> (None, m\<lparr>val := val m + 1\<rparr>)
     | p # ps \<Rightarrow> (Some p, m\<lparr>blocked := ps\<rparr>))"

definition a_down :: "nat \<Rightarrow> asem \<Rightarrow> bool \<times> asem" where
  "a_down p m = (if val m > 0 then (True, m\<lparr>val := val m - 1\<rparr>)
                 else (False, m\<lparr>blocked := blocked m @ [p]\<rparr>))"

definition abs_sem :: "sync \<Rightarrow> nat \<Rightarrow> asem" where
  "abs_sem y q = \<lparr>val = sem_value y q, blocked = map (\<lambda>w. the (w_proc (waits y w))) (wqueues y q)\<rparr>"

text \<open>
  The consistency of wait queues and process states: an entry is linked exactly when it stands in
  the queue it points at; a process waits in one place; it sleeps with the wait state of the
  semaphore code.
\<close>

definition sync_ok :: "sync \<Rightarrow> 'a ksched_scheme \<Rightarrow> bool" where
  "sync_ok y s \<longleftrightarrow>
     (\<forall>q. distinct (wqueues y q))
     \<and> (\<forall>q w. w \<in> set (wqueues y q) \<longleftrightarrow> w_linked (waits y w) \<and> w_queue (waits y w) = Some q)
     \<and> (\<forall>w. w_linked (waits y w) \<longrightarrow> (\<exists>p. w_proc (waits y w) = Some p
            \<and> p_state (procs s p) = PROC_SLEEPING \<and> p_wait_state (procs s p) = WT_KSEM))
     \<and> (\<forall>w u. w_linked (waits y w) \<and> w_linked (waits y u) \<and> w_proc (waits y w) = w_proc (waits y u)
            \<longrightarrow> w = u)"

lemma sync_okD:
  assumes "sync_ok y s" "w \<in> set (wqueues y q)"
  obtains p where "w_linked (waits y w)" "w_queue (waits y w) = Some q" "w_proc (waits y w) = Some p"
    "p_state (procs s p) = PROC_SLEEPING" "p_wait_state (procs s p) = WT_KSEM"
  using assms unfolding sync_ok_def by blast

context run_queue
begin

text \<open>Waking the process of a queued entry and unlinking the entry.\<close>

lemma wakeup_wait_del_ok:
  assumes ok: "sync_ok y s" "sched_ok s" and w: "wqueues y q = w # ws"
  shows "\<exists>y' s' p. wakeup_wait sc q w flags True (y, s) = Some (y', s') \<and> sync_ok y' s' \<and> sched_ok s'
     \<and> w_proc (waits y w) = Some p \<and> wqueues y' = (wqueues y)(q := ws) \<and> sem_value y' = sem_value y
     \<and> (\<forall>u. w_proc (waits y' u) = w_proc (waits y u)) \<and> w_flags (waits y' w) = flags
     \<and> \<not> w_linked (waits y' w) \<and> current s' = current s
     \<and> (\<forall>x. p_state (procs s' x) = (if x = p then PROC_RUNNABLE else p_state (procs s x)))
     \<and> queued s' = (if p \<noteq> current s \<and> p \<noteq> idleproc s then insert p (queued s) else queued s)"
proof -
  obtain p where p: "w_linked (waits y w)" "w_queue (waits y w) = Some q" "w_proc (waits y w) = Some p"
    "p_state (procs s p) = PROC_SLEEPING" "p_wait_state (procs s p) = WT_KSEM"
    using sync_okD [OF ok(1), of w q] w by auto
  let ?y = "upd_wait w (\<lambda>x. x\<lparr>w_flags := flags\<rparr>)
    (set_queue q ws (upd_wait w (\<lambda>x. x\<lparr>w_linked := False\<rparr>) y))"
  obtain s' where s': "wakeup_proc sc p s = Some s'" "sched_ok s'" "current s' = current s"
    "\<forall>x. p_state (procs s' x) = (if x = p then PROC_RUNNABLE else p_state (procs s x))"
    "\<forall>x. p_wait_state (procs s' x) = (if x = p then 0 else p_wait_state (procs s x))"
    "queued s' = (if p \<noteq> current s \<and> p \<noteq> idleproc s then insert p (queued s) else queued s)"
    using wakeup_ok [OF ok(2), of p] p(4) by auto
  have run: "wakeup_wait sc q w flags True (y, s) = Some (?y, s')"
    using p(1-3) w s'(1) by (simp add: wakeup_wait_def wait_queue_del_def kassert_def Let_def)
  have only: "u = w" if "w_linked (waits y u)" "w_proc (waits y u) = Some p" for u
    using ok(1) that p(1,3) unfolding sync_ok_def by metis
  have dw: "w \<notin> set ws" using ok(1) w unfolding sync_ok_def by (metis distinct.simps(2))
  have "sync_ok ?y s'"
    unfolding sync_ok_def
  proof (intro conjI allI impI)
    fix r show "distinct (wqueues ?y r)"
      using ok(1) w unfolding sync_ok_def by (metis distinct.simps(2) fun_upd_apply sync_simps(2,5))
  next
    fix r u
    show "(u \<in> set (wqueues ?y r)) = (w_linked (waits ?y u) \<and> w_queue (waits ?y u) = Some r)"
    proof (cases "u = w")
      case True
      have "w \<notin> set (wqueues y r)" if "r \<noteq> q" using ok(1) p(2) that unfolding sync_ok_def by auto
      then show ?thesis using True dw by auto
    next
      case False
      have "u \<in> set (wqueues y r) \<longleftrightarrow> w_linked (waits y u) \<and> w_queue (waits y u) = Some r"
        using ok(1) unfolding sync_ok_def by blast
      then show ?thesis using False w by (cases "r = q") auto
    qed
  next
    fix u assume u: "w_linked (waits ?y u)"
    then have un: "u \<noteq> w" by auto
    then obtain p' where "w_proc (waits y u) = Some p'" "p_state (procs s p') = PROC_SLEEPING"
      "p_wait_state (procs s p') = WT_KSEM"
      using u ok(1) unfolding sync_ok_def by (metis fun_upd_other sync_simps(1,4))
    moreover have "p' \<noteq> p" using only [of u] un u calculation(1) by auto
    ultimately show "\<exists>p. w_proc (waits ?y u) = Some p \<and> p_state (procs s' p) = PROC_SLEEPING
        \<and> p_wait_state (procs s' p) = WT_KSEM"
      using s'(4,5) un by (intro exI [of _ p']) simp
  next
    fix u v assume "w_linked (waits ?y u) \<and> w_linked (waits ?y v) \<and> w_proc (waits ?y u) = w_proc (waits ?y v)"
    then show "u = v"
      using ok(1) unfolding sync_ok_def by (cases "u = w"; cases "v = w") auto
  qed
  then show ?thesis using run s' p(3) by (intro exI [of _ ?y] exI [of _ s'] exI [of _ p]) auto
qed

text \<open>\<open>wakeup_queue\<close> with \<open>del\<close> wakes every process of the queue and empties it.\<close>

lemma wakeup_del_loop_ok:
  "sync_ok y s \<Longrightarrow> sched_ok s \<Longrightarrow> wqueues y q = w # ws \<Longrightarrow>
   \<exists>y' s'. wakeup_del_loop sc q flags w (y, s) = Some (y', s') \<and> sync_ok y' s' \<and> sched_ok s'
     \<and> wqueues y' = (wqueues y)(q := []) \<and> sem_value y' = sem_value y
     \<and> (\<forall>x. p_state (procs s' x) =
           (if \<exists>u \<in> set (w # ws). w_proc (waits y u) = Some x then PROC_RUNNABLE
            else p_state (procs s x)))"
proof (induction ws arbitrary: y s w)
  case Nil
  from wakeup_wait_del_ok [OF Nil, of flags] obtain y' s' p where
    "wakeup_wait sc q w flags True (y, s) = Some (y', s')" "sync_ok y' s'" "sched_ok s'"
    "w_proc (waits y w) = Some p" "wqueues y' = (wqueues y)(q := [])" "sem_value y' = sem_value y"
    "\<forall>x. p_state (procs s' x) = (if x = p then PROC_RUNNABLE else p_state (procs s x))"
    by blast
  then show ?case
    by (subst wakeup_del_loop.simps) (auto simp: wait_queue_first_def)
next
  case (Cons v ws)
  from wakeup_wait_del_ok [OF Cons.prems, of flags] obtain y1 s1 p where 1:
    "wakeup_wait sc q w flags True (y, s) = Some (y1, s1)" "sync_ok y1 s1" "sched_ok s1"
    "w_proc (waits y w) = Some p" "wqueues y1 = (wqueues y)(q := v # ws)" "sem_value y1 = sem_value y"
    "\<forall>u. w_proc (waits y1 u) = w_proc (waits y u)"
    "\<forall>x. p_state (procs s1 x) = (if x = p then PROC_RUNNABLE else p_state (procs s x))"
    by blast
  have q1: "wqueues y1 q = v # ws" using 1(5) by simp
  from Cons.IH [OF 1(2,3) q1] obtain y' s' where 2:
    "wakeup_del_loop sc q flags v (y1, s1) = Some (y', s')" "sync_ok y' s'" "sched_ok s'"
    "wqueues y' = (wqueues y1)(q := [])" "sem_value y' = sem_value y1"
    "\<forall>x. p_state (procs s' x) =
       (if \<exists>u \<in> set (v # ws). w_proc (waits y1 u) = Some x then PROC_RUNNABLE else p_state (procs s1 x))"
    by blast
  have q2: "wqueues y' = (wqueues y)(q := [])" unfolding 2(4) 1(5) by (rule fun_upd_upd)
  have "wakeup_del_loop sc q flags w (y, s) = Some (y', s')"
    using 1(1,5) 2(1) by (subst wakeup_del_loop.simps) (simp add: wait_queue_first_def)
  moreover have "\<forall>x. p_state (procs s' x) =
       (if \<exists>u \<in> set (w # v # ws). w_proc (waits y u) = Some x then PROC_RUNNABLE else p_state (procs s x))"
    using 1(4,7,8) 2(6) by auto
  ultimately show ?case using 1(6) 2(2,3,5) q2 by (intro exI [of _ y'] exI [of _ s']) simp
qed

lemma wakeup_queue_ok:
  assumes "sync_ok y s" "sched_ok s"
  shows "\<exists>y' s'. wakeup_queue sc q flags True (y, s) = Some (y', s') \<and> sync_ok y' s' \<and> sched_ok s'
     \<and> wqueues y' = (wqueues y)(q := []) \<and> sem_value y' = sem_value y
     \<and> (\<forall>x. p_state (procs s' x) =
           (if x \<in> set (blocked (abs_sem y q)) then PROC_RUNNABLE else p_state (procs s x)))"
proof (cases "wqueues y q")
  case Nil
  then show ?thesis using assms
    by (intro exI [of _ y] exI [of _ s])
      (auto simp: wakeup_queue_def wait_queue_first_def abs_sem_def fun_upd_idem_iff)
next
  case (Cons w ws)
  have key: "w_proc (waits y u) = Some (the (w_proc (waits y u)))" if u: "u \<in> set (w # ws)" for u
  proof -
    obtain p where "w_proc (waits y u) = Some p"
      using sync_okD [OF assms(1), of u q] u unfolding Cons by blast
    then show ?thesis by simp
  qed
  have "(\<exists>u \<in> set (w # ws). w_proc (waits y u) = Some x) \<longleftrightarrow> x \<in> set (blocked (abs_sem y q))" for x
  proof
    assume "\<exists>u \<in> set (w # ws). w_proc (waits y u) = Some x"
    then obtain u where "u \<in> set (w # ws)" "x = the (w_proc (waits y u))" by force
    then show "x \<in> set (blocked (abs_sem y q))" unfolding abs_sem_def Cons by auto
  next
    assume "x \<in> set (blocked (abs_sem y q))"
    then obtain u where "u \<in> set (w # ws)" "x = the (w_proc (waits y u))"
      unfolding abs_sem_def Cons by auto
    then show "\<exists>u \<in> set (w # ws). w_proc (waits y u) = Some x" using key [of u] by metis
  qed
  then show ?thesis
    using wakeup_del_loop_ok [OF assms Cons, of flags] Cons
    by (simp add: wakeup_queue_def wait_queue_first_def)
qed

text \<open>\<open>up\<close> refines the abstract operation, and wakes the process the abstract operation names.\<close>

lemma up_refines:
  assumes "sync_ok y s" "sched_ok s"
  shows "\<exists>y' s' wk. up sc q (y, s) = Some (y', s') \<and> a_up (abs_sem y q) = (wk, abs_sem y' q)
     \<and> (\<forall>r. r \<noteq> q \<longrightarrow> abs_sem y' r = abs_sem y r) \<and> sync_ok y' s' \<and> sched_ok s'
     \<and> wqueues y' = (wqueues y)(q := tl (wqueues y q)) \<and> current s' = current s
     \<and> (\<forall>u. u \<notin> set (wqueues y q) \<longrightarrow> waits y' u = waits y u)
     \<and> (\<forall>u. wqueues y q \<noteq> [] \<and> u = hd (wqueues y q) \<longrightarrow>
           w_flags (waits y' u) = WT_KSEM \<and> \<not> w_linked (waits y' u))
     \<and> (\<forall>x. p_state (procs s' x) = (if wk = Some x then PROC_RUNNABLE else p_state (procs s x)))"
proof (cases "wqueues y q")
  case Nil
  have "up sc q (y, s) = Some (set_value q (sem_value y q + 1) y, s)"
    using Nil by (simp add: up_def sem_up_def wait_queue_first_def)
  moreover have "sync_ok (set_value q (sem_value y q + 1) y) s"
    using assms(1) unfolding sync_ok_def by simp
  ultimately show ?thesis using assms(2) Nil
    by (intro exI [of _ "set_value q (sem_value y q + 1) y"] exI [of _ s] exI [of _ None])
      (auto simp: a_up_def abs_sem_def fun_upd_idem_iff)
next
  case (Cons w ws)
  obtain p where p: "w_proc (waits y w) = Some p" "p_wait_state (procs s p) = WT_KSEM"
    using sync_okD [OF assms(1), of w q] Cons by auto
  from wakeup_wait_del_ok [OF assms Cons, of WT_KSEM] obtain y' s' where 1:
    "wakeup_wait sc q w WT_KSEM True (y, s) = Some (y', s')" "sync_ok y' s'" "sched_ok s'"
    "wqueues y' = (wqueues y)(q := ws)" "sem_value y' = sem_value y"
    "\<forall>u. w_proc (waits y' u) = w_proc (waits y u)" "w_flags (waits y' w) = WT_KSEM"
    "\<not> w_linked (waits y' w)" "current s' = current s"
    "\<forall>x. p_state (procs s' x) = (if x = p then PROC_RUNNABLE else p_state (procs s x))"
    using p(1) by auto
  have run: "up sc q (y, s) = Some (y', s')"
    using Cons p 1(1) by (simp add: up_def sem_up_def wait_queue_first_def kassert_def)
  have same: "waits y' u = waits y u" if "u \<noteq> w" for u
    using 1(1) that p(1)
    by (auto simp: wakeup_wait_def wait_queue_del_def kassert_def Let_def bind_Some_iff split: if_splits)
  show ?thesis using run 1 p(1) Cons same
    by (intro exI [of _ y'] exI [of _ s'] exI [of _ "Some p"]) (auto simp: a_up_def abs_sem_def)
qed

lemma down_enter_refines:
  assumes ok: "sync_ok y s" "sched_ok s" and w: "\<not> w_linked (waits y w)"
    and c: "p_state (procs s (current s)) = PROC_RUNNABLE"
  shows "\<exists>y' s' taken. down_enter q w WT_KSEM (y, s) = Some (taken, y', s')
     \<and> a_down (current s) (abs_sem y q) = (taken, abs_sem y' q)
     \<and> (\<forall>r. r \<noteq> q \<longrightarrow> abs_sem y' r = abs_sem y r) \<and> sync_ok y' s' \<and> sched_ok s'
     \<and> current s' = current s \<and> idleproc s' = idleproc s \<and> queued s' = queued s
     \<and> (\<not> taken \<longrightarrow> wqueues y' q = wqueues y q @ [w] \<and> w_linked (waits y' w))
     \<and> (\<forall>x. p_state (procs s' x) =
           (if \<not> taken \<and> x = current s then PROC_SLEEPING else p_state (procs s x)))"
proof (cases "sem_value y q > 0")
  case True
  have "down_enter q w WT_KSEM (y, s) = Some (True, set_value q (sem_value y q - 1) y, s)"
    using True by (simp add: down_enter_def)
  moreover have "sync_ok (set_value q (sem_value y q - 1) y) s"
    using ok(1) unfolding sync_ok_def by simp
  ultimately show ?thesis using ok(2) True
    by (intro exI [of _ "set_value q (sem_value y q - 1) y"] exI [of _ s] exI [of _ True])
      (auto simp: a_down_def abs_sem_def)
next
  case False
  let ?c = "current s"
  let ?s1 = "upd ?c (\<lambda>p. p\<lparr>p_state := PROC_SLEEPING\<rparr>) s"
  let ?s = "upd ?c (\<lambda>p. p\<lparr>p_wait_state := WT_KSEM\<rparr>) ?s1"
  let ?y1 = "upd_wait w (\<lambda>x. x\<lparr>w_queue := Some q\<rparr>) (wait_init w (Some ?c) y)"
  let ?y = "set_queue q (wqueues y q @ [w]) (upd_wait w (\<lambda>x. x\<lparr>w_linked := True\<rparr>) ?y1)"
  have run: "down_enter q w WT_KSEM (y, s) = Some (False, ?y, ?s)"
    using False
    by (simp add: down_enter_def wait_current_set_def wait_queue_add_def kassert_def Let_def wait_init_def)
  have nw: "w \<notin> set (wqueues y r)" for r using ok(1) w unfolding sync_ok_def by blast
  have nc: "w_proc (waits y u) \<noteq> Some ?c" if "w_linked (waits y u)" for u
    using ok(1) that c unfolding sync_ok_def by fastforce
  have "sync_ok ?y ?s"
    unfolding sync_ok_def
  proof (intro conjI allI impI)
    fix r show "distinct (wqueues ?y r)"
      using ok(1) nw unfolding sync_ok_def by (simp add: wait_init_def)
  next
    fix r u
    show "(u \<in> set (wqueues ?y r)) = (w_linked (waits ?y u) \<and> w_queue (waits ?y u) = Some r)"
      using ok(1) nw unfolding sync_ok_def by (auto simp: wait_init_def)
  next
    fix u assume u: "w_linked (waits ?y u)"
    show "\<exists>p. w_proc (waits ?y u) = Some p \<and> p_state (procs ?s p) = PROC_SLEEPING
        \<and> p_wait_state (procs ?s p) = WT_KSEM"
    proof (cases "u = w")
      case True
      then show ?thesis by (intro exI [of _ ?c]) (simp add: wait_init_def)
    next
      case nuw: False
      then have "w_linked (waits y u)" using u by (simp add: wait_init_def)
      then show ?thesis using ok(1) nc [of u] nuw unfolding sync_ok_def by (fastforce simp: wait_init_def)
    qed
  next
    fix u v assume "w_linked (waits ?y u) \<and> w_linked (waits ?y v) \<and> w_proc (waits ?y u) = w_proc (waits ?y v)"
    then show "u = v"
      using ok(1) nc [of u] nc [of v] unfolding sync_ok_def
      by (cases "u = w"; cases "v = w") (auto simp: wait_init_def)
  qed
  moreover have "sched_ok ?s \<and> queued ?s = queued s"
  proof -
    have inv: "rq_inv s" and cq: "?c \<notin> queued s" using ok(2) by (auto simp: sched_ok_def)
    have 1: "rq_inv ?s1" "queued ?s1 = queued s"
      using upd_inv [OF inv, of "\<lambda>p. p\<lparr>p_state := PROC_SLEEPING\<rparr>" ?c] by auto
    have 2: "rq_inv ?s" "queued ?s = queued s"
      using upd_inv [OF 1(1), of "\<lambda>p. p\<lparr>p_wait_state := WT_KSEM\<rparr>" ?c] 1(2) by auto
    then show ?thesis using ok(2) cq by (auto simp: sched_ok_def)
  qed
  moreover have "abs_sem ?y q = \<lparr>val = sem_value y q, blocked = blocked (abs_sem y q) @ [?c]\<rparr>"
    using nw by (auto simp: abs_sem_def wait_init_def)
  moreover have "abs_sem ?y r = abs_sem y r" if "r \<noteq> q" for r
    using nw that by (auto simp: abs_sem_def wait_init_def)
  ultimately show ?thesis using run False
    by (intro exI [of _ ?y] exI [of _ ?s] exI [of _ False])
      (auto simp: a_down_def abs_sem_def wait_init_def)
qed

text \<open>What the rest of the system may do while a process sleeps: a number of \<open>up\<close> operations.\<close>

fun ups :: "nat \<Rightarrow> nat \<Rightarrow> sync \<times> 'a ksched_scheme \<Rightarrow> (sync \<times> 'a ksched_scheme) option" where
  "ups q 0 ys = Some ys"
| "ups q (Suc n) ys = do { ys \<leftarrow> up sc q ys; ups q n ys }"

lemma ups_ok:
  "sync_ok y s \<Longrightarrow> sched_ok s \<Longrightarrow> n = length (wqueues y q) \<Longrightarrow>
   \<exists>y' s'. ups q n (y, s) = Some (y', s') \<and> sync_ok y' s' \<and> sched_ok s' \<and> wqueues y' q = []
     \<and> sem_value y' q = sem_value y q
     \<and> (\<forall>u \<in> set (wqueues y q). w_flags (waits y' u) = WT_KSEM \<and> \<not> w_linked (waits y' u)
           \<and> p_state (procs s' (the (w_proc (waits y u)))) = PROC_RUNNABLE)
     \<and> (\<forall>u. u \<notin> set (wqueues y q) \<longrightarrow> waits y' u = waits y u)
     \<and> (\<forall>x. p_state (procs s x) = PROC_RUNNABLE \<longrightarrow> p_state (procs s' x) = PROC_RUNNABLE)"
proof (induction n arbitrary: y s)
  case 0
  then show ?case by auto
next
  case (Suc n)
  then obtain w ws where w: "wqueues y q = w # ws" by (cases "wqueues y q") auto
  from up_refines [OF Suc.prems(1,2), of q] obtain y1 s1 wk where 1: "up sc q (y, s) = Some (y1, s1)"
    "a_up (abs_sem y q) = (wk, abs_sem y1 q)" "sync_ok y1 s1" "sched_ok s1"
    "wqueues y1 = (wqueues y)(q := ws)" "\<forall>u. u \<notin> set (wqueues y q) \<longrightarrow> waits y1 u = waits y u"
    "w_flags (waits y1 w) = WT_KSEM" "\<not> w_linked (waits y1 w)"
    "\<forall>x. p_state (procs s1 x) = (if wk = Some x then PROC_RUNNABLE else p_state (procs s x))"
    unfolding w by auto
  have wk: "wk = Some (the (w_proc (waits y w)))" "sem_value y1 q = sem_value y q"
    and pr: "map (\<lambda>u. the (w_proc (waits y u))) ws = map (\<lambda>u. the (w_proc (waits y1 u))) ws"
    using 1(2,5) w by (auto simp: a_up_def abs_sem_def)
  have dw: "w \<notin> set ws" using Suc.prems(1) w unfolding sync_ok_def by (metis distinct.simps(2))
  from Suc.IH [OF 1(3,4)] 1(5) Suc.prems(3) w obtain y' s' where 2: "ups q n (y1, s1) = Some (y', s')"
    "sync_ok y' s'" "sched_ok s'" "wqueues y' q = []" "sem_value y' q = sem_value y1 q"
    "\<forall>u \<in> set ws. w_flags (waits y' u) = WT_KSEM \<and> \<not> w_linked (waits y' u)
           \<and> p_state (procs s' (the (w_proc (waits y1 u)))) = PROC_RUNNABLE"
    "\<forall>u. u \<notin> set ws \<longrightarrow> waits y' u = waits y1 u"
    "\<forall>x. p_state (procs s1 x) = PROC_RUNNABLE \<longrightarrow> p_state (procs s' x) = PROC_RUNNABLE"
    by auto
  have run: "ups q (Suc n) (y, s) = Some (y', s')" using 1(1) 2(1) by simp
  have r: "w_flags (waits y' u) = WT_KSEM \<and> \<not> w_linked (waits y' u)
      \<and> p_state (procs s' (the (w_proc (waits y u)))) = PROC_RUNNABLE" if u: "u \<in> set (wqueues y q)" for u
  proof (cases "u = w")
    case True
    then show ?thesis using 1(7-9) 2(7,8) dw wk(1) by simp
  next
    case False
    then have "u \<in> set ws" using u w by simp
    then show ?thesis using 2(6) pr by auto
  qed
  show ?case
  proof (intro exI conjI)
    show "ups q (Suc n) (y, s) = Some (y', s')" by (rule run)
    show "\<forall>u. u \<notin> set (wqueues y q) \<longrightarrow> waits y' u = waits y u" using 1(6) 2(7) w by simp
    show "\<forall>x. p_state (procs s x) = PROC_RUNNABLE \<longrightarrow> p_state (procs s' x) = PROC_RUNNABLE"
      using 1(9) 2(8) by simp
  qed (use 2 r wk(2) in auto)
qed

lemma schedule_sync_ok:
  assumes "sync_ok y s" "sched_ok s"
  shows "\<exists>s'. schedule sc s = Some s' \<and> sched_ok s' \<and> sync_ok y s'
     \<and> (\<forall>q. p_state (procs s' q) = p_state (procs s q))"
proof -
  obtain s' where s': "schedule sc s = Some s'" "sched_ok s'"
    "\<And>q. p_state (procs s' q) = p_state (procs s q) \<and> p_wait_state (procs s' q) = p_wait_state (procs s q)"
    using schedule_ok [OF assms(2)] by blast
  have "sync_ok y s'" using assms(1) s'(3) unfolding sync_ok_def by simp
  then show ?thesis using s' by blast
qed

lemma handoff_ok:
  assumes ok: "sync_ok y s" "sched_ok s" and w: "\<not> w_linked (waits y w)"
    and c: "p_state (procs s (current s)) = PROC_RUNNABLE" and v: "sem_value y q \<le> 0"
    and n: "n = Suc (length (wqueues y q))"
  shows "\<exists>y' s'. down sc (ups q n) q w (y, s) = Some (y', s') \<and> sync_ok y' s' \<and> sched_ok s'
     \<and> wqueues y' q = [] \<and> sem_value y' q = sem_value y q
     \<and> p_state (procs s' (current s)) = PROC_RUNNABLE"
proof -
  have nt: "a_down (current s) (abs_sem y q) = (False, snd (a_down (current s) (abs_sem y q)))"
    using v by (simp add: a_down_def abs_sem_def)
  from down_enter_refines [OF ok w c, of q] nt obtain y1 s1 where 1:
    "down_enter q w WT_KSEM (y, s) = Some (False, y1, s1)" "sync_ok y1 s1" "sched_ok s1"
    "snd (a_down (current s) (abs_sem y q)) = abs_sem y1 q"
    "wqueues y1 q = wqueues y q @ [w]" "w_linked (waits y1 w)"
    by force
  have wp: "w_proc (waits y1 w) = Some (current s)"
  proof -
    obtain p where p: "w_proc (waits y1 w) = Some p" using sync_okD [OF 1(2), of w q] 1(5) by auto
    have "\<not> 0 < val (abs_sem y q)" using v by (simp add: abs_sem_def)
    then have "last (blocked (abs_sem y1 q)) = current s"
      unfolding 1(4) [symmetric] by (simp add: a_down_def)
    then show ?thesis using p 1(5) by (simp add: abs_sem_def [of y1 q])
  qed
  from schedule_sync_ok [OF 1(2,3)] obtain s2 where 2: "schedule sc s1 = Some s2" "sched_ok s2"
    "sync_ok y1 s2" by blast
  have n1: "n = length (wqueues y1 q)" using n 1(5) by simp
  from ups_ok [OF 2(3,2) n1] obtain y' s' where 3: "ups q n (y1, s2) = Some (y', s')" "sync_ok y' s'"
    "sched_ok s'" "wqueues y' q = []" "sem_value y' q = sem_value y1 q"
    "w_flags (waits y' w) = WT_KSEM" "\<not> w_linked (waits y' w)"
    "p_state (procs s' (the (w_proc (waits y1 w)))) = PROC_RUNNABLE"
    using 1(5) by auto
  have "val (abs_sem y1 q) = val (abs_sem y q)"
    unfolding 1(4) [symmetric] using v by (simp add: a_down_def abs_sem_def)
  then have "sem_value y1 q = sem_value y q" by (simp add: abs_sem_def)
  moreover have "down sc (ups q n) q w (y, s) = Some (y', s')"
    using 1(1) 2(1) 3(1,6,7)
    by (simp add: down_def sem_down_def down_leave_def wait_current_del_def wait_in_queue_def
        kassert_def Let_def)
  ultimately show ?thesis using 3 wp by (intro exI [of _ y'] exI [of _ s']) simp
qed

end

section \<open>Properties of wait queues and semaphores\<close>

text \<open>
  The abstract semaphore never has both a positive count and a blocked process; both operations
  keep this, and a \<open>down\<close> is granted exactly when the count is positive.
\<close>

definition asem_ok :: "asem \<Rightarrow> bool" where
  "asem_ok m \<longleftrightarrow> val m \<ge> 0 \<and> (blocked m \<noteq> [] \<longrightarrow> val m = 0)"

lemma asem_ok_up: "asem_ok m \<Longrightarrow> asem_ok (snd (a_up m))"
  by (auto simp: asem_ok_def a_up_def split: list.splits)

lemma asem_ok_down: "asem_ok m \<Longrightarrow> asem_ok (snd (a_down p m))"
  by (auto simp: asem_ok_def a_down_def)

definition ex_procs :: "pptr \<Rightarrow> proc_struct" where
  "ex_procs = (\<lambda>p. \<lparr>p_state = (if p = 4 then PROC_SLEEPING else PROC_RUNNABLE), p_pid = 0, p_runs = 0, p_kstack = 0,
     p_need_resched = False, p_parent = None, p_mm = None, p_cr3 = 0, p_flags = 0, p_name = [],
     p_exit_code = 0, p_wait_state = (if p = 4 then WT_KSEM else 0), p_cptr = None, p_yptr = None, p_optr = None, p_rq = True,
     p_time_slice = 5, p_stride = 0, p_priority = 1, p_filesp = None\<rparr>)"

definition ex_ks :: ksched where
  "ex_ks = \<lparr>procs = ex_procs, current = 1, idleproc = 0, run_list = [2, 3],
     pool = (\<lambda>_. \<lparr>parent = None, left = None, right = None\<rparr>), run_pool = None, proc_num = 0,
     max_time_slice = 5, timer_expires = (\<lambda>_. 0), timer_proc = (\<lambda>_. None), timer_list = []\<rparr>"

text \<open>Process 4 sleeps on the semaphore 9 with the entry 50.\<close>

definition ex_sync :: sync where
  "ex_sync = \<lparr>waits = (\<lambda>w. \<lparr>w_proc = Some 4, w_flags = WT_INTERRUPTED, w_queue = Some 9, w_linked = (w = 50)\<rparr>),
     wqueues = (\<lambda>q. if q = 9 then [50] else []), sem_value = (\<lambda>_. 0)\<rparr>"

lemma ex_ks_ok: "stride.sched_ok ex_ks"
proof -
  have h: "is_heap (pool ex_ks) (run_pool ex_ks) Leaf" by (simp add: ex_ks_def)
  have "stride_queued ex_ks = {}" using stride_queued_tree [OF h] by simp
  moreover have "stride_inv ex_ks"
    unfolding stride_inv_def by (rule exI [of _ Leaf]) (simp add: ex_ks_def)
  ultimately show ?thesis by (simp add: stride.sched_ok_def)
qed

lemma ex_sync_ok: "sync_ok ex_sync ex_ks"
  by (auto simp: sync_ok_def ex_sync_def ex_ks_def ex_procs_def)

text \<open>
  C16. \<open>up\<close> refines the abstract semaphore: with nobody waiting it increments the count; otherwise
  it unlinks the longest waiting entry and makes exactly its process runnable.  Its assertion on
  the wait state holds, no other semaphore changes, and the consistency of queues, process states
  and run queue is kept.
\<close>

theorem sem_up_refinement:
  assumes "sync_ok y s" "stride.sched_ok s"
  shows "\<exists>y' s' wk. up stride_sched_class q (y, s) = Some (y', s')
     \<and> a_up (abs_sem y q) = (wk, abs_sem y' q)
     \<and> (\<forall>r. r \<noteq> q \<longrightarrow> abs_sem y' r = abs_sem y r) \<and> sync_ok y' s' \<and> stride.sched_ok s'
     \<and> (\<forall>x. p_state (procs s' x) = (if wk = Some x then PROC_RUNNABLE else p_state (procs s x)))"
  using stride.up_refines [OF assms, of q] by blast

theorem sem_up_refinement_witness:
  "\<exists>y' s'. up stride_sched_class 9 (ex_sync, ex_ks) = Some (y', s') \<and> p_state (procs s' 4) = PROC_RUNNABLE"
proof -
  have "a_up (abs_sem ex_sync 9) = (Some 4, \<lparr>val = 0, blocked = []\<rparr>)"
    by (simp add: a_up_def abs_sem_def ex_sync_def)
  then show ?thesis using sem_up_refinement [OF ex_sync_ok ex_ks_ok, of 9] by auto
qed

text \<open>
  The first half of \<open>down\<close> refines the abstract semaphore: it takes the semaphore exactly when
  the count is positive, and otherwise appends the current process to the waiting queue and puts
  it to sleep, with queues, process states and run queue consistent.
\<close>

lemma sem_down_refinement:
  assumes "sync_ok y s" "stride.sched_ok s" "\<not> w_linked (waits y w)"
    "p_state (procs s (current s)) = PROC_RUNNABLE"
  shows "\<exists>y' s' taken. down_enter q w WT_KSEM (y, s) = Some (taken, y', s')
     \<and> a_down (current s) (abs_sem y q) = (taken, abs_sem y' q)
     \<and> (\<forall>r. r \<noteq> q \<longrightarrow> abs_sem y' r = abs_sem y r) \<and> sync_ok y' s' \<and> stride.sched_ok s'
     \<and> (\<forall>x. p_state (procs s' x) =
           (if \<not> taken \<and> x = current s then PROC_SLEEPING else p_state (procs s x)))"
  using stride.down_enter_refines [OF assms, of q] by blast

lemma sem_down_refinement_witness:
  "\<exists>y' s'. down_enter 9 51 WT_KSEM (ex_sync, ex_ks) = Some (False, y', s')
     \<and> blocked (abs_sem y' 9) = [4, 1]"
proof -
  have "a_down (current ex_ks) (abs_sem ex_sync 9) = (False, \<lparr>val = 0, blocked = [4, 1]\<rparr>)"
    by (simp add: a_down_def abs_sem_def ex_sync_def ex_ks_def)
  moreover have "\<not> w_linked (waits ex_sync 51)" "p_state (procs ex_ks (current ex_ks)) = PROC_RUNNABLE"
    by (simp_all add: ex_sync_def ex_ks_def ex_procs_def)
  ultimately show ?thesis
    using sem_down_refinement [OF ex_sync_ok ex_ks_ok, of 51 9] by (auto dest: sym)
qed

text \<open>
  C17. No lost wake-up: a \<open>down\<close> that has to sleep behind \<open>k\<close> other processes returns, without failing
  its assertion, once the rest of the system has performed \<open>k + 1\<close> \<open>up\<close> operations; the queue is
  then empty and the count is what it was.
\<close>

theorem down_returns_after_ups:
  assumes "sync_ok y s" "stride.sched_ok s" "\<not> w_linked (waits y w)"
    "p_state (procs s (current s)) = PROC_RUNNABLE" "sem_value y q \<le> 0"
    "n = Suc (length (wqueues y q))"
  shows "\<exists>y' s'. down stride_sched_class (stride.ups q n) q w (y, s) = Some (y', s')
     \<and> sync_ok y' s' \<and> stride.sched_ok s' \<and> wqueues y' q = [] \<and> sem_value y' q = sem_value y q
     \<and> p_state (procs s' (current s)) = PROC_RUNNABLE"
  by (rule stride.handoff_ok [OF assms])

theorem down_returns_after_ups_witness:
  "\<exists>y' s'. down stride_sched_class (stride.ups 9 2) 9 51 (ex_sync, ex_ks) = Some (y', s')
     \<and> wqueues y' 9 = []"
proof -
  have "\<not> w_linked (waits ex_sync 51)" "p_state (procs ex_ks (current ex_ks)) = PROC_RUNNABLE"
    "sem_value ex_sync 9 \<le> 0" "2 = Suc (length (wqueues ex_sync 9))"
    by (simp_all add: ex_sync_def ex_ks_def ex_procs_def)
  then show ?thesis using down_returns_after_ups [OF ex_sync_ok ex_ks_ok, of 51 9 2] by blast
qed

text \<open>
  \<open>wakeup_queue\<close> with \<open>del\<close> terminates, empties the queue and makes exactly the processes that
  waited in it runnable.
\<close>

lemma wakeup_queue_correct:
  assumes "sync_ok y s" "stride.sched_ok s"
  shows "\<exists>y' s'. wakeup_queue stride_sched_class q flags True (y, s) = Some (y', s')
     \<and> sync_ok y' s' \<and> stride.sched_ok s' \<and> wqueues y' = (wqueues y)(q := [])
     \<and> (\<forall>x. p_state (procs s' x) =
           (if x \<in> set (blocked (abs_sem y q)) then PROC_RUNNABLE else p_state (procs s x)))"
  using stride.wakeup_queue_ok [OF assms, of q flags] by blast

lemma wakeup_queue_correct_witness:
  "\<exists>y' s'. wakeup_queue stride_sched_class 9 WT_KBD True (ex_sync, ex_ks) = Some (y', s')
     \<and> p_state (procs s' 4) = PROC_RUNNABLE"
proof -
  have "4 \<in> set (blocked (abs_sem ex_sync 9))" by (simp add: abs_sem_def ex_sync_def)
  then show ?thesis using wakeup_queue_correct [OF ex_sync_ok ex_ks_ok, of 9 WT_KBD] by auto
qed

end
