(* ===== verification/Philosophers.thy ===== *)
theory Philosophers
  imports Wait_Sem
begin

text \<open>
  The dining philosophers of \<open>kern/sync/check_sync.c\<close> on semaphores: \<open>N = 5\<close> kernel threads that
  each run \<open>philosopher_using_semaphore\<close>.  A thread's position is a program counter; one step of the
  relation executes one statement of one thread, in any order, so every schedule of the threads
  (preemptive ones as well) is covered.  The semaphores are the abstract ones of \<open>Wait_Sem\<close>, which
  \<open>up\<close> and \<open>down\<close> refine: a thread that has to sleep in \<open>down\<close> is blocked until an \<open>up\<close> of another
  thread resumes it behind the \<open>down\<close>.  \<open>do_sleep\<close> only delays, and the output is dropped.
\<close>

definition N :: nat where "N = 5"
definition TIMES :: nat where "TIMES = 4"

definition LEFT :: "nat \<Rightarrow> nat" where "LEFT i = (i + N - 1) mod N"
definition RIGHT :: "nat \<Rightarrow> nat" where "RIGHT i = (i + 1) mod N"

datatype phil_state = THINKING | HUNGRY | EATING

text \<open>The positions of a thread: before each statement, and inside a \<open>down\<close> that sleeps.\<close>

datatype pc = Loop | Sleep1 | Take_down | Take_wait | Take_set | Take_test | Take_up | Take_s
  | Take_s_wait | Sleep2 | Put_down | Put_wait | Put_set | Put_left | Put_right | Put_up | Quit

record phils =
  pcs :: "nat \<Rightarrow> pc"
  iter :: "nat \<Rightarrow> nat"
  state_sema :: "nat \<Rightarrow> phil_state"
  mutex :: asem
  s_sem :: "nat \<Rightarrow> asem"

definition goto :: "nat \<Rightarrow> pc \<Rightarrow> phils \<Rightarrow> phils" where
  "goto i l g = g\<lparr>pcs := (pcs g)(i := l)\<rparr>"

definition set_state :: "nat \<Rightarrow> phil_state \<Rightarrow> phils \<Rightarrow> phils" where
  "set_state i x g = g\<lparr>state_sema := (state_sema g)(i := x)\<rparr>"

text \<open>Where a thread goes on when the \<open>down\<close> it sleeps in returns.\<close>

fun after_down :: "pc \<Rightarrow> pc" where
  "after_down Take_wait = Take_set"
| "after_down Put_wait = Put_set"
| "after_down Take_s_wait = Sleep2"
| "after_down l = l"

definition resume :: "nat option \<Rightarrow> phils \<Rightarrow> phils" where
  "resume wk g = (case wk of None \<Rightarrow> g | Some j \<Rightarrow> goto j (after_down (pcs g j)) g)"

definition up_mutex :: "phils \<Rightarrow> phils" where
  "up_mutex g = (let (wk, m) = a_up (mutex g) in resume wk (g\<lparr>mutex := m\<rparr>))"

definition up_s :: "nat \<Rightarrow> phils \<Rightarrow> phils" where
  "up_s i g = (let (wk, m) = a_up (s_sem g i) in resume wk (g\<lparr>s_sem := (s_sem g)(i := m)\<rparr>))"

definition phi_test_sema :: "nat \<Rightarrow> phils \<Rightarrow> phils" where
  "phi_test_sema i g =
     (if state_sema g i = HUNGRY \<and> state_sema g (LEFT i) \<noteq> EATING \<and> state_sema g (RIGHT i) \<noteq> EATING
      then up_s i (set_state i EATING g) else g)"

definition down_mutex :: "nat \<Rightarrow> pc \<Rightarrow> pc \<Rightarrow> phils \<Rightarrow> phils" where
  "down_mutex i taken asleep g =
     (let (ok, m) = a_down i (mutex g) in goto i (if ok then taken else asleep) (g\<lparr>mutex := m\<rparr>))"

definition down_s :: "nat \<Rightarrow> phils \<Rightarrow> phils" where
  "down_s i g =
     (let (ok, m) = a_down i (s_sem g i)
      in goto i (if ok then Sleep2 else Take_s_wait) (g\<lparr>s_sem := (s_sem g)(i := m)\<rparr>))"

text \<open>One statement of thread \<open>i\<close>; \<open>None\<close> when the thread sleeps or is done.\<close>

definition phi_take_forks_sema :: "nat \<Rightarrow> phils \<Rightarrow> phils option" where
  "phi_take_forks_sema i g =
     (case pcs g i of
        Take_down \<Rightarrow> Some (down_mutex i Take_set Take_wait g)
      | Take_set \<Rightarrow> Some (goto i Take_test (set_state i HUNGRY g))
      | Take_test \<Rightarrow> Some (phi_test_sema i (goto i Take_up g))
      | Take_up \<Rightarrow> Some (up_mutex (goto i Take_s g))
      | Take_s \<Rightarrow> Some (down_s i g)
      | _ \<Rightarrow> None)"

definition phi_put_forks_sema :: "nat \<Rightarrow> phils \<Rightarrow> phils option" where
  "phi_put_forks_sema i g =
     (case pcs g i of
        Put_down \<Rightarrow> Some (down_mutex i Put_set Put_wait g)
      | Put_set \<Rightarrow> Some (goto i Put_left (set_state i THINKING g))
      | Put_left \<Rightarrow> Some (phi_test_sema (LEFT i) (goto i Put_right g))
      | Put_right \<Rightarrow> Some (phi_test_sema (RIGHT i) (goto i Put_up g))
      | Put_up \<Rightarrow> Some (up_mutex (goto i Loop g))
      | _ \<Rightarrow> None)"

definition philosopher_using_semaphore :: "nat \<Rightarrow> phils \<Rightarrow> phils option" where
  "philosopher_using_semaphore i g =
     (case pcs g i of
        Loop \<Rightarrow> Some (goto i (if iter g i < TIMES then Sleep1 else Quit)
                   (g\<lparr>iter := (iter g)(i := iter g i + 1)\<rparr>))
      | Sleep1 \<Rightarrow> Some (goto i Take_down g)
      | Sleep2 \<Rightarrow> Some (goto i Put_down g)
      | Quit \<Rightarrow> None
      | Put_down \<Rightarrow> phi_put_forks_sema i g
      | Put_wait \<Rightarrow> phi_put_forks_sema i g
      | Put_set \<Rightarrow> phi_put_forks_sema i g
      | Put_left \<Rightarrow> phi_put_forks_sema i g
      | Put_right \<Rightarrow> phi_put_forks_sema i g
      | Put_up \<Rightarrow> phi_put_forks_sema i g
      | _ \<Rightarrow> phi_take_forks_sema i g)"

text \<open>The start: \<open>check_sync\<close> initialises the mutex to 1 and every other semaphore to 0.\<close>

definition phil_start :: phils where
  "phil_start = \<lparr>pcs = (\<lambda>_. Loop), iter = (\<lambda>_. 0), state_sema = (\<lambda>_. THINKING),
     mutex = \<lparr>val = 1, blocked = []\<rparr>, s_sem = (\<lambda>_. \<lparr>val = 0, blocked = []\<rparr>)\<rparr>"

inductive phil_step :: "phils \<Rightarrow> phils \<Rightarrow> bool" where
  step: "i < N \<Longrightarrow> philosopher_using_semaphore i g = Some g' \<Longrightarrow> phil_step g g'"

inductive phil_reach :: "phils \<Rightarrow> bool" where
  start: "phil_reach phil_start"
| again: "phil_reach g \<Longrightarrow> phil_step g g' \<Longrightarrow> phil_reach g'"

inductive_cases phil_stepE: "phil_step g g'"

section \<open>The ring\<close>

lemma lt_N: "i < N \<longleftrightarrow> i = 0 \<or> i = 1 \<or> i = 2 \<or> i = 3 \<or> i = 4"
  by (auto simp: N_def)

lemma ring [simp]:
  assumes "i < N"
  shows "LEFT i < N" "RIGHT i < N" "LEFT i \<noteq> i" "RIGHT i \<noteq> i" "LEFT (RIGHT i) = i" "RIGHT (LEFT i) = i"
    "LEFT i \<noteq> RIGHT i" "i \<noteq> LEFT i" "i \<noteq> RIGHT i"
  using assms by (auto simp: lt_N LEFT_def RIGHT_def) (auto simp: N_def)

lemma LEFT_eq: "i < N \<Longrightarrow> j < N \<Longrightarrow> LEFT i = j \<longleftrightarrow> i = RIGHT j"
  by (metis ring(5) ring(6))

lemma RIGHT_eq: "i < N \<Longrightarrow> j < N \<Longrightarrow> RIGHT i = j \<longleftrightarrow> i = LEFT j"
  by (metis ring(5) ring(6))

section \<open>The invariant\<close>

definition in_cs :: "pc \<Rightarrow> bool" where
  "in_cs l \<longleftrightarrow> l \<in> {Take_set, Take_test, Take_up, Put_set, Put_left, Put_right, Put_up}"

definition mwait :: "pc \<Rightarrow> bool" where
  "mwait l \<longleftrightarrow> l \<in> {Take_wait, Put_wait}"

definition mutex_inv :: "(nat \<Rightarrow> pc) \<Rightarrow> asem \<Rightarrow> bool" where
  "mutex_inv f m \<longleftrightarrow> distinct (blocked m) \<and> set (blocked m) = {i. i < N \<and> mwait (f i)}
     \<and> ((val m = 1 \<and> blocked m = [] \<and> (\<forall>i < N. \<not> in_cs (f i)))
        \<or> (val m = 0 \<and> (\<exists>h < N. \<forall>i < N. in_cs (f i) \<longleftrightarrow> i = h)))"

definition empty_sem :: asem where "empty_sem = \<lparr>val = 0, blocked = []\<rparr>"
definition one_sem :: asem where "one_sem = \<lparr>val = 1, blocked = []\<rparr>"

text \<open>What holds of a thread's own state and semaphore at each position.\<close>

definition local_inv :: "nat \<Rightarrow> pc \<Rightarrow> phil_state \<Rightarrow> asem \<Rightarrow> bool" where
  "local_inv i l x m \<longleftrightarrow>
     (if l \<in> {Take_up, Take_s} then (x = HUNGRY \<and> m = empty_sem) \<or> (x = EATING \<and> m = one_sem)
      else if l = Take_test then x = HUNGRY \<and> m = empty_sem
      else if l = Take_s_wait then x = HUNGRY \<and> m = \<lparr>val = 0, blocked = [i]\<rparr>
      else if l \<in> {Sleep2, Put_down, Put_wait, Put_set} then x = EATING \<and> m = empty_sem
      else x = THINKING \<and> m = empty_sem)"

text \<open>A hungry philosopher that has made its test has an eating neighbour, or a neighbour that is
  about to test it.\<close>

definition excused :: "(nat \<Rightarrow> pc) \<Rightarrow> (nat \<Rightarrow> phil_state) \<Rightarrow> nat \<Rightarrow> bool" where
  "excused f x i \<longleftrightarrow> x (LEFT i) = EATING \<or> x (RIGHT i) = EATING \<or> f (RIGHT i) = Put_left
     \<or> f (LEFT i) = Put_left \<or> f (LEFT i) = Put_right"

definition phil_inv :: "phils \<Rightarrow> bool" where
  "phil_inv g \<longleftrightarrow> mutex_inv (pcs g) (mutex g)
     \<and> (\<forall>i < N. local_inv i (pcs g i) (state_sema g i) (s_sem g i))
     \<and> (\<forall>i < N. state_sema g i = EATING \<longrightarrow> state_sema g (RIGHT i) \<noteq> EATING)
     \<and> (\<forall>i < N. state_sema g i = HUNGRY \<and> pcs g i \<noteq> Take_test \<longrightarrow> excused (pcs g) (state_sema g) i)"

lemma phil_inv_start: "phil_inv phil_start"
proof -
  have "mutex_inv (\<lambda>_. Loop) \<lparr>val = 1, blocked = []\<rparr>"
    unfolding mutex_inv_def in_cs_def mwait_def by simp
  moreover have "local_inv i Loop THINKING \<lparr>val = 0, blocked = []\<rparr>" for i
    unfolding local_inv_def empty_sem_def by simp
  ultimately show ?thesis by (simp add: phil_inv_def phil_start_def)
qed

lemma in_cs_not_mwait: "in_cs l \<Longrightarrow> \<not> mwait l"
  by (cases l) (simp_all add: in_cs_def mwait_def)

lemma after_mwait: "mwait l \<Longrightarrow> in_cs (after_down l) \<and> \<not> mwait (after_down l)"
  by (cases l) (simp_all add: in_cs_def mwait_def)

subsection \<open>The mutex\<close>

text \<open>A step that neither enters nor leaves the critical section nor the mutex queue.\<close>

lemma mutex_inv_goto:
  assumes "mutex_inv f m" "in_cs (f i) = in_cs l" "mwait (f i) = mwait l"
  shows "mutex_inv (f(i := l)) m"
proof -
  have "in_cs ((f(i := l)) j) = in_cs (f j)" "mwait ((f(i := l)) j) = mwait (f j)" for j
    using assms(2,3) by simp_all
  then show ?thesis using assms(1) unfolding mutex_inv_def by (simp only:)
qed

lemma mutex_inv_down:
  assumes inv: "mutex_inv f m" and i: "i < N" "\<not> in_cs (f i)" "\<not> mwait (f i)"
    and l: "in_cs taken" "\<not> mwait taken" "mwait asleep" "\<not> in_cs asleep"
    and d: "a_down i m = (ok, m')"
  shows "mutex_inv (f(i := if ok then taken else asleep)) m'"
proof (cases "val m > 0")
  case True
  then have v: "val m = 1" "blocked m = []" "\<forall>j < N. \<not> in_cs (f j)"
    using inv unfolding mutex_inv_def by auto
  have "ok" "m' = m\<lparr>val := val m - 1\<rparr>" using d True by (auto simp: a_down_def)
  moreover have "\<forall>j < N. in_cs ((f(i := taken)) j) \<longleftrightarrow> j = i" using v(3) l(1) by simp
  ultimately show ?thesis using v inv i(1) l(2) unfolding mutex_inv_def by auto
next
  case False
  then obtain h where v: "val m = 0" "h < N" "\<forall>j < N. in_cs (f j) \<longleftrightarrow> j = h"
    using inv unfolding mutex_inv_def by auto
  have m': "\<not> ok" "m' = m\<lparr>blocked := blocked m @ [i]\<rparr>" using d False by (auto simp: a_down_def)
  have b: "distinct (blocked m)" "set (blocked m) = {i. i < N \<and> mwait (f i)}"
    using inv unfolding mutex_inv_def by auto
  have "\<forall>j < N. in_cs ((f(i := asleep)) j) \<longleftrightarrow> j = h" using v(3) i l(4) by auto
  moreover have "set (blocked m') = {j. j < N \<and> mwait ((f(i := asleep)) j)}"
    using b(2) m'(2) i(1) l(3) by auto
  moreover have "distinct (blocked m')" using b i(3) m'(2) by auto
  ultimately show ?thesis using v(1,2) m' unfolding mutex_inv_def by auto
qed

lemma mutex_inv_up:
  assumes inv: "mutex_inv f m" and i: "i < N" "in_cs (f i)" and l: "\<not> in_cs l" "\<not> mwait l"
    and u: "a_up m = (wk, m')"
  shows "mutex_inv (case wk of None \<Rightarrow> f(i := l) | Some j \<Rightarrow> (f(i := l))(j := after_down (f j))) m'
    \<and> (\<forall>j. wk = Some j \<longrightarrow> j < N \<and> j \<noteq> i \<and> mwait (f j))"
proof -
  obtain h where v: "val m = 0" "h < N" "\<forall>j < N. in_cs (f j) \<longleftrightarrow> j = h"
    using inv i unfolding mutex_inv_def by auto
  have hi: "h = i" using v(3) i by simp
  have b: "distinct (blocked m)" "set (blocked m) = {i. i < N \<and> mwait (f i)}"
    using inv unfolding mutex_inv_def by auto
  show ?thesis
  proof (cases "blocked m")
    case Nil
    then have "wk = None" "m' = m\<lparr>val := val m + 1\<rparr>" using u by (auto simp: a_up_def)
    moreover have "\<forall>j < N. \<not> in_cs ((f(i := l)) j)" using v(3) hi l(1) by simp
    moreover have "\<forall>j < N. \<not> mwait ((f(i := l)) j)" using b(2) Nil l(2) by auto
    ultimately show ?thesis using v(1) Nil unfolding mutex_inv_def by simp
  next
    case (Cons j js)
    then have wk: "wk = Some j" "m' = m\<lparr>blocked := js\<rparr>" using u by (auto simp: a_up_def)
    have j: "j < N" "mwait (f j)" using b(2) Cons by auto
    have ji: "j \<noteq> i" using j(2) in_cs_not_mwait [OF i(2)] by auto
    have a: "in_cs (after_down (f j))" "\<not> mwait (after_down (f j))"
      using after_mwait [OF j(2)] by simp_all
    let ?f = "(f(i := l))(j := after_down (f j))"
    have "\<forall>k < N. in_cs (?f k) \<longleftrightarrow> k = j" using v(3) hi l(1) a(1) by simp
    moreover have "set js = {k. k < N \<and> mwait (?f k)}"
    proof -
      have "set js = set (blocked m) - {j}" using Cons b(1) by auto
      then show ?thesis using b(2) a(2) l(2) in_cs_not_mwait [OF i(2)] ji by auto
    qed
    ultimately show ?thesis using wk v(1) j ji b(1) Cons unfolding mutex_inv_def by auto
  qed
qed

subsection \<open>The ring\<close>

definition ring_inv :: "nat set \<Rightarrow> (nat \<Rightarrow> pc) \<Rightarrow> (nat \<Rightarrow> phil_state) \<Rightarrow> (nat \<Rightarrow> asem) \<Rightarrow> bool" where
  "ring_inv K f x ms \<longleftrightarrow> (\<forall>i < N. local_inv i (f i) (x i) (ms i))
     \<and> (\<forall>i < N. x i = EATING \<longrightarrow> x (RIGHT i) \<noteq> EATING)
     \<and> (\<forall>i < N. i \<notin> K \<longrightarrow> x i = HUNGRY \<and> f i \<noteq> Take_test \<longrightarrow> excused f x i)"

lemma phil_inv_ring:
  "phil_inv g \<longleftrightarrow> mutex_inv (pcs g) (mutex g) \<and> ring_inv {} (pcs g) (state_sema g) (s_sem g)"
  unfolding phil_inv_def ring_inv_def by simp

lemma excused_goto:
  assumes "excused f x j" "l = Put_left \<or> f i \<noteq> Put_left" "l \<in> {Put_left, Put_right} \<or> f i \<notin> {Put_left, Put_right}"
  shows "excused (f(i := l)) x j"
  using assms unfolding excused_def by (cases "RIGHT j = i"; cases "LEFT j = i") auto

text \<open>A position change of one thread that is in no pending test.\<close>

lemma ring_goto:
  assumes "ring_inv K f x ms" "local_inv i l (x i) (ms i)" "f i \<notin> {Put_left, Put_right}"
    "f i \<noteq> Take_test \<or> i \<in> K"
  shows "ring_inv K (f(i := l)) x ms"
  unfolding ring_inv_def
proof (intro conjI allI impI)
  fix j assume "j < N"
  then show "local_inv j ((f(i := l)) j) (x j) (ms j)"
    using assms(1,2) unfolding ring_inv_def by (cases "j = i") simp_all
next
  fix j assume "j < N" "x j = EATING" then show "x (RIGHT j) \<noteq> EATING"
    using assms(1) unfolding ring_inv_def by blast
next
  fix j assume j: "j < N" "j \<notin> K" "x j = HUNGRY \<and> (f(i := l)) j \<noteq> Take_test"
  then have "f j \<noteq> Take_test" using assms(4) by (cases "j = i") auto
  then have "excused f x j" using assms(1) j unfolding ring_inv_def by blast
  then show "excused (f(i := l)) x j" by (rule excused_goto) (use assms(3) in auto)
qed

text \<open>The two test positions: leaving one may end the excuse of the philosopher tested next only.\<close>

lemma ring_leave_test:
  assumes r: "ring_inv {} f x ms" and i: "i < N" and l: "local_inv i l (x i) (ms i)"
    and t: "(f i = Put_left \<and> l = Put_right \<and> k = LEFT i) \<or> (f i = Put_right \<and> l = Put_up \<and> k = RIGHT i)"
  shows "ring_inv {k} (f(i := l)) x ms"
  unfolding ring_inv_def
proof (intro conjI allI impI)
  fix j assume "j < N"
  then show "local_inv j ((f(i := l)) j) (x j) (ms j)"
    using r l unfolding ring_inv_def by (cases "j = i") simp_all
next
  fix j assume "j < N" "x j = EATING" then show "x (RIGHT j) \<noteq> EATING"
    using r unfolding ring_inv_def by blast
next
  fix j assume j: "j < N" "j \<notin> {k}" "x j = HUNGRY \<and> (f(i := l)) j \<noteq> Take_test"
  have "f i \<noteq> Take_test" using t by auto
  then have "f j \<noteq> Take_test" using j(3) by (cases "j = i") auto
  then have e: "excused f x j" using r j unfolding ring_inv_def by blast
  have n: "RIGHT j \<noteq> i" if "k = LEFT i" using j(1,2) that ring(5) [OF j(1)] by auto
  have m: "LEFT j \<noteq> i" if "k = RIGHT i" using j(1,2) that ring(6) [OF j(1)] by auto
  show "excused (f(i := l)) x j"
    using e t
  proof (elim disjE conjE)
    assume "f i = Put_left" "l = Put_right" "k = LEFT i"
    then show ?thesis using e n unfolding excused_def by (cases "LEFT j = i") auto
  next
    assume "f i = Put_right" "l = Put_up" "k = RIGHT i"
    then show ?thesis using e m unfolding excused_def by (cases "RIGHT j = i") auto
  qed
qed

text \<open>A philosopher starts or stops being hungry or eating.\<close>

lemma ring_hungry:
  assumes r: "ring_inv {} f x ms" and i: "i < N" "f i = Take_set"
  shows "ring_inv {} (f(i := Take_test)) (x(i := HUNGRY)) ms"
  unfolding ring_inv_def
proof (intro conjI allI impI)
  have li: "local_inv i (f i) (x i) (ms i)" using r i unfolding ring_inv_def by blast
  then have th: "x i = THINKING" "ms i = empty_sem" using i(2) unfolding local_inv_def by auto
  {
    fix j assume j: "j < N"
    show "local_inv j ((f(i := Take_test)) j) ((x(i := HUNGRY)) j) (ms j)"
      using r j th unfolding ring_inv_def by (cases "j = i") (simp_all add: local_inv_def)
  next
    fix j assume j: "j < N" "(x(i := HUNGRY)) j = EATING"
    then show "(x(i := HUNGRY)) (RIGHT j) \<noteq> EATING"
      using r unfolding ring_inv_def by (cases "j = i"; cases "RIGHT j = i") auto
  next
    fix j assume j: "j < N" "(x(i := HUNGRY)) j = HUNGRY \<and> (f(i := Take_test)) j \<noteq> Take_test"
    then have "excused f x j" using r unfolding ring_inv_def by (cases "j = i") auto
    then show "excused (f(i := Take_test)) (x(i := HUNGRY)) j"
      using th(1) i(2) unfolding excused_def by (cases "LEFT j = i"; cases "RIGHT j = i") auto
  }
qed

lemma ring_thinking:
  assumes r: "ring_inv {} f x ms" and i: "i < N" "f i = Put_set"
  shows "ring_inv {} (f(i := Put_left)) (x(i := THINKING)) ms"
  unfolding ring_inv_def
proof (intro conjI allI impI)
  have li: "local_inv i (f i) (x i) (ms i)" using r i unfolding ring_inv_def by blast
  then have th: "ms i = empty_sem" using i(2) unfolding local_inv_def by auto
  {
    fix j assume j: "j < N"
    show "local_inv j ((f(i := Put_left)) j) ((x(i := THINKING)) j) (ms j)"
      using r j th unfolding ring_inv_def by (cases "j = i") (simp_all add: local_inv_def)
  next
    fix j assume j: "j < N" "(x(i := THINKING)) j = EATING"
    then show "(x(i := THINKING)) (RIGHT j) \<noteq> EATING"
      using r unfolding ring_inv_def by (cases "j = i"; cases "RIGHT j = i") auto
  next
    fix j assume j: "j < N" "(x(i := THINKING)) j = HUNGRY \<and> (f(i := Put_left)) j \<noteq> Take_test"
    then have "excused f x j" using r unfolding ring_inv_def by (cases "j = i") auto
    then show "excused (f(i := Put_left)) (x(i := THINKING)) j"
      unfolding excused_def by (cases "LEFT j = i"; cases "RIGHT j = i") auto
  }
qed

text \<open>The test of philosopher \<open>k\<close>: it is excused afterwards, and nobody else loses an excuse.\<close>

lemma test_ok:
  assumes m: "mutex_inv (pcs g) (mutex g)" and r: "ring_inv {k} (pcs g) (state_sema g) (s_sem g)"
    and k: "k < N" "state_sema g k = HUNGRY \<Longrightarrow> pcs g k \<noteq> Take_test"
  shows "phil_inv (phi_test_sema k g)"
proof (cases "state_sema g k = HUNGRY \<and> state_sema g (LEFT k) \<noteq> EATING \<and> state_sema g (RIGHT k) \<noteq> EATING")
  case False
  have "excused (pcs g) (state_sema g) k" if "state_sema g k = HUNGRY"
    using False that unfolding excused_def by blast
  then have "ring_inv {} (pcs g) (state_sema g) (s_sem g)"
    using r unfolding ring_inv_def by auto
  moreover have "phi_test_sema k g = g" using False by (auto simp: phi_test_sema_def)
  ultimately show ?thesis using m by (simp add: phil_inv_ring)
next
  case True
  let ?f = "pcs g" and ?x = "state_sema g"
  let ?x' = "?x(k := EATING)"
  have lk: "local_inv k (?f k) HUNGRY (s_sem g k)" using r k(1) True unfolding ring_inv_def by metis
  have cases: "(?f k \<in> {Take_up, Take_s} \<and> s_sem g k = empty_sem)
      \<or> (?f k = Take_s_wait \<and> s_sem g k = \<lparr>val = 0, blocked = [k]\<rparr>)"
    using lk k(2) True unfolding local_inv_def by (auto split: if_splits)
  define l where "l = (if ?f k = Take_s_wait then Sleep2 else ?f k)"
  define n where "n = (if ?f k = Take_s_wait then empty_sem else one_sem)"
  have res: "phi_test_sema k g = g\<lparr>pcs := ?f(k := l), state_sema := ?x', s_sem := (s_sem g)(k := n)\<rparr>"
    using cases True
    by (auto simp: phi_test_sema_def up_s_def a_up_def set_state_def resume_def goto_def l_def n_def
        empty_sem_def one_sem_def)
  have "mutex_inv (?f(k := l)) (mutex g)"
    by (rule mutex_inv_goto [OF m]) (auto simp: l_def in_cs_def mwait_def)
  moreover have "ring_inv {} (?f(k := l)) ?x' ((s_sem g)(k := n))"
    unfolding ring_inv_def
  proof (intro conjI allI impI)
    fix j assume j: "j < N"
    show "local_inv j ((?f(k := l)) j) (?x' j) (((s_sem g)(k := n)) j)"
    proof (cases "j = k")
      case True
      then show ?thesis using cases by (auto simp: local_inv_def l_def n_def)
    next
      case False
      then show ?thesis using r j unfolding ring_inv_def by simp
    qed
  next
    fix j assume j: "j < N" "?x' j = EATING"
    show "?x' (RIGHT j) \<noteq> EATING"
    proof (cases "j = k")
      case True
      then show ?thesis using \<open>?x k = HUNGRY \<and> _\<close> ring(4) [OF k(1)] by auto
    next
      case nk: False
      show ?thesis
      proof (cases "RIGHT j = k")
        case True
        then have "j = LEFT k" using ring(5) [OF j(1)] by simp
        then show ?thesis using j nk \<open>?x k = HUNGRY \<and> _\<close> by simp
      next
        case False
        then show ?thesis using r j nk unfolding ring_inv_def by simp
      qed
    qed
  next
    fix j assume j: "j < N" "?x' j = HUNGRY \<and> (?f(k := l)) j \<noteq> Take_test"
    then have jk: "j \<noteq> k" by auto
    then have "excused ?f ?x j" using r j unfolding ring_inv_def by auto
    moreover have "?f k \<noteq> Put_left" "?f k \<noteq> Put_right" using cases by auto
    ultimately show "excused (?f(k := l)) ?x' j"
      unfolding excused_def by (cases "LEFT j = k"; cases "RIGHT j = k") auto
  qed
  ultimately show ?thesis unfolding res phil_inv_ring by simp
qed

lemma phil_inv_cs_unique:
  "mutex_inv f m \<Longrightarrow> i < N \<Longrightarrow> j < N \<Longrightarrow> in_cs (f i) \<Longrightarrow> in_cs (f j) \<Longrightarrow> i = j"
  unfolding mutex_inv_def by (elim conjE disjE exE) metis+

text \<open>Entering the critical section, or queueing for it.\<close>

lemma down_mutex_ok:
  assumes inv: "phil_inv g" and i: "i < N" "\<not> in_cs (pcs g i)" "\<not> mwait (pcs g i)"
    and l: "in_cs taken" "\<not> mwait taken" "mwait asleep" "\<not> in_cs asleep"
    and loc: "local_inv i taken (state_sema g i) (s_sem g i)" "local_inv i asleep (state_sema g i) (s_sem g i)"
  shows "phil_inv (down_mutex i taken asleep g)"
proof -
  obtain ok m where d: "a_down i (mutex g) = (ok, m)" by force
  let ?l = "if ok then taken else asleep"
  have "mutex_inv ((pcs g)(i := ?l)) m"
    by (rule mutex_inv_down) (use i l d inv in \<open>simp_all add: phil_inv_ring\<close>)
  moreover have "ring_inv {} ((pcs g)(i := ?l)) (state_sema g) (s_sem g)"
  proof (rule ring_goto)
    show "pcs g i \<notin> {Put_left, Put_right}" "pcs g i \<noteq> Take_test \<or> i \<in> {}"
      using i(2) unfolding in_cs_def by auto
  qed (use inv loc in \<open>auto simp: phil_inv_ring\<close>)
  ultimately show ?thesis by (simp add: down_mutex_def d goto_def phil_inv_ring)
qed

text \<open>Leaving it.\<close>

lemma up_mutex_ok:
  assumes inv: "phil_inv g" and i: "i < N" "pcs g i = Take_up \<and> l = Take_s \<or> pcs g i = Put_up \<and> l = Loop"
  shows "phil_inv (up_mutex (goto i l g))"
proof -
  obtain wk m where u: "a_up (mutex g) = (wk, m)" by force
  have mi: "mutex_inv (pcs g) (mutex g)" and r: "ring_inv {} (pcs g) (state_sema g) (s_sem g)"
    using inv by (auto simp: phil_inv_ring)
  have cs: "in_cs (pcs g i)" "\<not> in_cs l" "\<not> mwait l" using i(2) by (auto simp: in_cs_def mwait_def)
  have li: "local_inv i (pcs g i) (state_sema g i) (s_sem g i)" using r i(1) unfolding ring_inv_def by blast
  have r1: "ring_inv {} ((pcs g)(i := l)) (state_sema g) (s_sem g)"
    by (rule ring_goto [OF r]) (use li i(2) in \<open>auto simp: local_inv_def\<close>)
  note up = mutex_inv_up [OF mi i(1) cs u]
  show ?thesis
  proof (cases wk)
    case None
    then show ?thesis using up r1 by (simp add: up_mutex_def goto_def u resume_def phil_inv_ring)
  next
    case (Some j)
    then have j: "j < N" "j \<noteq> i" "mwait (pcs g j)" using up by auto
    have lj: "local_inv j (pcs g j) (state_sema g j) (s_sem g j)" using r j(1) unfolding ring_inv_def by blast
    have "ring_inv {} ((pcs g)(i := l, j := after_down (pcs g j))) (state_sema g) (s_sem g)"
      by (rule ring_goto [OF r1]) (use lj j(2,3) in \<open>auto simp: local_inv_def mwait_def\<close>)
    moreover have "mutex_inv ((pcs g)(i := l, j := after_down (pcs g j))) m" using up Some by simp
    ultimately show ?thesis
      using Some j(2) by (simp add: up_mutex_def goto_def u resume_def phil_inv_ring)
  qed
qed

lemma down_s_ok:
  assumes inv: "phil_inv g" and i: "i < N" "pcs g i = Take_s"
  shows "phil_inv (down_s i g)"
proof -
  have m: "mutex_inv (pcs g) (mutex g)" and r: "ring_inv {} (pcs g) (state_sema g) (s_sem g)"
    using inv by (auto simp: phil_inv_ring)
  obtain ok n where d: "a_down i (s_sem g i) = (ok, n)" by force
  let ?l = "if ok then Sleep2 else Take_s_wait"
  have li: "local_inv i Take_s (state_sema g i) (s_sem g i)" using r i unfolding ring_inv_def by metis
  have loc: "local_inv i ?l (state_sema g i) n"
    using li d by (auto simp: local_inv_def a_down_def empty_sem_def one_sem_def)
  have "mutex_inv ((pcs g)(i := ?l)) (mutex g)"
    by (rule mutex_inv_goto [OF m]) (use i(2) in \<open>auto simp: in_cs_def mwait_def\<close>)
  moreover have "ring_inv {} ((pcs g)(i := ?l)) (state_sema g) ((s_sem g)(i := n))"
    unfolding ring_inv_def
  proof (intro conjI allI impI)
    fix j assume "j < N"
    then show "local_inv j (((pcs g)(i := ?l)) j) (state_sema g j) (((s_sem g)(i := n)) j)"
      using r loc unfolding ring_inv_def by (cases "j = i") simp_all
  next
    fix j assume "j < N" "state_sema g j = EATING" then show "state_sema g (RIGHT j) \<noteq> EATING"
      using r unfolding ring_inv_def by blast
  next
    fix j assume j: "j < N" "j \<notin> {}" "state_sema g j = HUNGRY \<and> ((pcs g)(i := ?l)) j \<noteq> Take_test"
    then have "pcs g j \<noteq> Take_test" using i(2) by (cases "j = i") auto
    then have "excused (pcs g) (state_sema g) j" using r j unfolding ring_inv_def by blast
    then show "excused ((pcs g)(i := ?l)) (state_sema g) j" by (rule excused_goto) (use i(2) in auto)
  qed
  ultimately show ?thesis by (simp add: down_s_def d goto_def phil_inv_ring)
qed

text \<open>A position change outside the critical section.\<close>

lemma goto_ok:
  assumes inv: "phil_inv g" and l: "in_cs (pcs g i) = in_cs l" "mwait (pcs g i) = mwait l"
    and loc: "local_inv i l (state_sema g i) (s_sem g i)"
    and p: "pcs g i \<notin> {Put_left, Put_right, Take_test}"
  shows "phil_inv (goto i l g)"
proof -
  have "mutex_inv ((pcs g)(i := l)) (mutex g)"
    by (rule mutex_inv_goto) (use inv l in \<open>auto simp: phil_inv_ring\<close>)
  moreover have "ring_inv {} ((pcs g)(i := l)) (state_sema g) (s_sem g)"
    by (rule ring_goto) (use inv loc p in \<open>auto simp: phil_inv_ring\<close>)
  ultimately show ?thesis by (simp add: goto_def phil_inv_ring)
qed

lemma test_step_ok:
  assumes inv: "phil_inv g" and i: "i < N"
    and t: "(pcs g i = Put_left \<and> l = Put_right \<and> k = LEFT i) \<or> (pcs g i = Put_right \<and> l = Put_up \<and> k = RIGHT i)"
  shows "phil_inv (phi_test_sema k (goto i l g))"
proof (rule test_ok)
  have m: "mutex_inv (pcs g) (mutex g)" and r: "ring_inv {} (pcs g) (state_sema g) (s_sem g)"
    using inv by (auto simp: phil_inv_ring)
  have li: "local_inv i (pcs g i) (state_sema g i) (s_sem g i)" using r i unfolding ring_inv_def by blast
  have cs: "in_cs (pcs g i)" "in_cs l" "\<not> mwait l" "\<not> mwait (pcs g i)" using t by (auto simp: in_cs_def mwait_def)
  show "mutex_inv (pcs (goto i l g)) (mutex (goto i l g))"
    using mutex_inv_goto [OF m, of i l] cs by (simp add: goto_def)
  have "local_inv i l (state_sema g i) (s_sem g i)" using li t by (auto simp: local_inv_def)
  from ring_leave_test [OF r i this t]
  show "ring_inv {k} (pcs (goto i l g)) (state_sema (goto i l g)) (s_sem (goto i l g))"
    by (simp add: goto_def)
  show k: "k < N" using t i by auto
  have "k \<noteq> i" using t i by auto
  moreover have "\<not> in_cs (pcs g k)" using phil_inv_cs_unique [OF m i k cs(1)] calculation by auto
  ultimately show "pcs (goto i l g) k \<noteq> Take_test" by (auto simp: goto_def in_cs_def)
qed

lemma take_test_ok:
  assumes inv: "phil_inv g" and i: "i < N" "pcs g i = Take_test"
  shows "phil_inv (phi_test_sema i (goto i Take_up g))"
proof (rule test_ok)
  have m: "mutex_inv (pcs g) (mutex g)" and r: "ring_inv {} (pcs g) (state_sema g) (s_sem g)"
    using inv by (auto simp: phil_inv_ring)
  have li: "local_inv i Take_test (state_sema g i) (s_sem g i)" using r i unfolding ring_inv_def by metis
  show "mutex_inv (pcs (goto i Take_up g)) (mutex (goto i Take_up g))"
    using mutex_inv_goto [OF m, of i Take_up] i(2) by (simp add: goto_def in_cs_def mwait_def)
  have "ring_inv {i} (pcs g) (state_sema g) (s_sem g)" using r unfolding ring_inv_def by auto
  from ring_goto [OF this, of i Take_up] li i(2)
  show "ring_inv {i} (pcs (goto i Take_up g)) (state_sema (goto i Take_up g)) (s_sem (goto i Take_up g))"
    by (simp add: goto_def local_inv_def)
qed (use i in \<open>simp_all add: goto_def\<close>)

lemma phil_inv_step:
  assumes inv: "phil_inv g" and i: "i < N" and s: "philosopher_using_semaphore i g = Some g'"
  shows "phil_inv g'"
proof -
  have r: "ring_inv {} (pcs g) (state_sema g) (s_sem g)" using inv by (simp add: phil_inv_ring)
  have li: "local_inv i (pcs g i) (state_sema g i) (s_sem g i)" using r i unfolding ring_inv_def by blast
  note defs = philosopher_using_semaphore_def phi_take_forks_sema_def phi_put_forks_sema_def
  show ?thesis
  proof (cases "pcs g i")
    case Loop
    let ?g = "g\<lparr>iter := (iter g)(i := iter g i + 1)\<rparr>"
    have "phil_inv ?g" using inv by (simp add: phil_inv_def)
    then have "phil_inv (goto i (if iter g i < TIMES then Sleep1 else Quit) ?g)"
      by (rule goto_ok) (use Loop li in \<open>auto simp: in_cs_def mwait_def local_inv_def\<close>)
    then show ?thesis using s Loop by (simp add: defs)
  next
    case Sleep1
    have "phil_inv (goto i Take_down g)"
      by (rule goto_ok [OF inv]) (use Sleep1 li in \<open>auto simp: in_cs_def mwait_def local_inv_def\<close>)
    then show ?thesis using s Sleep1 by (simp add: defs)
  next
    case Sleep2
    have "phil_inv (goto i Put_down g)"
      by (rule goto_ok [OF inv]) (use Sleep2 li in \<open>auto simp: in_cs_def mwait_def local_inv_def\<close>)
    then show ?thesis using s Sleep2 by (simp add: defs)
  next
    case Take_down
    have "phil_inv (down_mutex i Take_set Take_wait g)"
      by (rule down_mutex_ok [OF inv i]) (use Take_down li in \<open>auto simp: in_cs_def mwait_def local_inv_def\<close>)
    then show ?thesis using s Take_down by (simp add: defs)
  next
    case Put_down
    have "phil_inv (down_mutex i Put_set Put_wait g)"
      by (rule down_mutex_ok [OF inv i]) (use Put_down li in \<open>auto simp: in_cs_def mwait_def local_inv_def\<close>)
    then show ?thesis using s Put_down by (simp add: defs)
  next
    case Take_set
    have "mutex_inv ((pcs g)(i := Take_test)) (mutex g)"
      by (rule mutex_inv_goto) (use inv Take_set in \<open>auto simp: phil_inv_ring in_cs_def mwait_def\<close>)
    then have "phil_inv (goto i Take_test (set_state i HUNGRY g))"
      using ring_hungry [OF r i Take_set] by (simp add: phil_inv_ring goto_def set_state_def)
    then show ?thesis using s Take_set by (simp add: defs)
  next
    case Put_set
    have "mutex_inv ((pcs g)(i := Put_left)) (mutex g)"
      by (rule mutex_inv_goto) (use inv Put_set in \<open>auto simp: phil_inv_ring in_cs_def mwait_def\<close>)
    then have "phil_inv (goto i Put_left (set_state i THINKING g))"
      using ring_thinking [OF r i Put_set] by (simp add: phil_inv_ring goto_def set_state_def)
    then show ?thesis using s Put_set by (simp add: defs)
  next
    case Take_test
    then show ?thesis using s take_test_ok [OF inv i Take_test] by (simp add: defs)
  next
    case Take_up
    then show ?thesis using s up_mutex_ok [OF inv i, of Take_s] by (simp add: defs)
  next
    case Put_up
    then show ?thesis using s up_mutex_ok [OF inv i, of Loop] by (simp add: defs)
  next
    case Take_s
    then show ?thesis using s down_s_ok [OF inv i Take_s] by (simp add: defs)
  next
    case Put_left
    then show ?thesis using s test_step_ok [OF inv i, of Put_right "LEFT i"] by (simp add: defs)
  next
    case Put_right
    then show ?thesis using s test_step_ok [OF inv i, of Put_up "RIGHT i"] by (simp add: defs)
  qed (use s in \<open>simp_all add: defs\<close>)
qed

lemma phil_inv_reach: "phil_reach g \<Longrightarrow> phil_inv g"
  by (induction rule: phil_reach.induct)
    (auto simp: phil_inv_start elim!: phil_stepE intro: phil_inv_step)

section \<open>Properties of the philosophers\<close>

text \<open>
  C14. Mutual exclusion: in every reachable state, under every interleaving, no two neighbouring
  philosophers eat at the same time, and at most one thread is inside the critical section of the
  mutex.
\<close>

theorem philosophers_exclusion:
  assumes "phil_reach g" "i < N"
  shows "\<not> (state_sema g i = EATING \<and> state_sema g (RIGHT i) = EATING)
     \<and> (\<forall>j < N. in_cs (pcs g i) \<and> in_cs (pcs g j) \<longrightarrow> i = j)"
  using phil_inv_reach [OF assms(1)] assms(2) phil_inv_cs_unique
  unfolding phil_inv_def by blast

theorem philosophers_exclusion_witness:
  "\<not> (state_sema phil_start 3 = EATING \<and> state_sema phil_start (RIGHT 3) = EATING)"
  using philosophers_exclusion [OF phil_reach.start, of 3] by (simp add: N_def)

text \<open>
  C15. No deadlock: in every reachable state in which some philosopher has not finished its \<open>TIMES\<close>
  meals, some thread can execute its next statement.
\<close>

theorem philosophers_progress:
  assumes "phil_reach g" "i < N" "pcs g i \<noteq> Quit"
  shows "\<exists>g'. phil_step g g'"
proof (rule ccontr)
  assume none: "\<nexists>g'. phil_step g g'"
  have inv: "phil_inv g" by (rule phil_inv_reach [OF assms(1)])
  then have m: "mutex_inv (pcs g) (mutex g)" and r: "ring_inv {} (pcs g) (state_sema g) (s_sem g)"
    by (auto simp: phil_inv_ring)
  have stuck: "pcs g j \<in> {Take_wait, Put_wait, Take_s_wait, Quit}" if "j < N" for j
  proof (rule ccontr)
    assume "pcs g j \<notin> {Take_wait, Put_wait, Take_s_wait, Quit}"
    then obtain g' where "philosopher_using_semaphore j g = Some g'"
      by (cases "pcs g j")
        (auto simp: philosopher_using_semaphore_def phi_take_forks_sema_def phi_put_forks_sema_def)
    then show False using none that phil_step.step by blast
  qed
  have "\<not> in_cs (pcs g j)" if "j < N" for j using stuck [OF that] by (auto simp: in_cs_def)
  then have free: "blocked (mutex g) = []" using m unfolding mutex_inv_def by blast
  then have "\<not> mwait (pcs g j)" if "j < N" for j using m that unfolding mutex_inv_def by auto
  then have pc: "pcs g j \<in> {Take_s_wait, Quit}" if "j < N" for j
    using stuck [OF that] that by (auto simp: mwait_def)
  have loc: "local_inv j (pcs g j) (state_sema g j) (s_sem g j)" if "j < N" for j
    using r that unfolding ring_inv_def by blast
  have noteat: "state_sema g j \<noteq> EATING" if "j < N" for j
    using pc [OF that] loc [OF that] by (auto simp: local_inv_def)
  have "pcs g i = Take_s_wait" using pc [OF assms(2)] assms(3) by simp
  then have "state_sema g i = HUNGRY" using loc [OF assms(2)] by (simp add: local_inv_def)
  then have "excused (pcs g) (state_sema g) i"
    using r assms(2) \<open>pcs g i = Take_s_wait\<close> unfolding ring_inv_def by auto
  then show False
    using noteat [of "LEFT i"] noteat [of "RIGHT i"] pc [of "LEFT i"] pc [of "RIGHT i"] assms(2)
    unfolding excused_def by auto
qed

theorem philosophers_progress_witness: "\<exists>g'. phil_step phil_start g'"
  using philosophers_progress [OF phil_reach.start, of 0] by (simp add: N_def phil_start_def)

end
