(* ===== verification/Monitor.thy ===== *)
theory Monitor
  imports Wait_Sem
begin

text \<open>
  The monitor of \<open>kern/sync/monitor.c\<close> and the philosophers that use it
  (\<open>kern/sync/check_sync.c\<close>), as they stand in the repository: \<open>cond_signal\<close> and \<open>cond_wait\<close> only
  print, and the bodies of \<open>phi_take_forks_condvar\<close> and \<open>phi_put_forks_condvar\<close> are empty, so only
  the locking around them is left.  The output is dropped.  Semaphores are named by addresses: those
  of \<open>mutex\<close>, \<open>next\<close> and, for each \<open>i\<close>, of \<open>cv[i].sem\<close>.
\<close>

record condvar =
  cv_sem :: nat
  cv_count :: int

record monitor =
  m_mutex :: nat
  m_next :: nat
  next_count :: int
  m_cv :: "condvar list"

text \<open>The loop over the condition variables; \<open>i\<close> counts up to \<open>n\<close>.\<close>

function init_cvs :: "(nat \<Rightarrow> nat) \<Rightarrow> nat \<Rightarrow> nat \<Rightarrow> sync \<Rightarrow> condvar list \<times> sync" where
  "init_cvs cvsem i n y =
     (if i < n then
        let y = sem_init (cvsem i) 0 y;
            (cvs, y) = init_cvs cvsem (Suc i) n y
        in (\<lparr>cv_sem = cvsem i, cv_count = 0\<rparr> # cvs, y)
      else ([], y))"
  by pat_completeness auto
termination by (relation "measure (\<lambda>(_, i, n, _). n - i)") auto

declare init_cvs.simps [simp del]

text \<open>\<open>mem\<close>: whether \<open>kmalloc\<close> returned memory.\<close>

definition monitor_init ::
  "nat \<Rightarrow> nat \<Rightarrow> (nat \<Rightarrow> nat) \<Rightarrow> bool \<Rightarrow> nat \<Rightarrow> sync \<Rightarrow> (monitor \<times> sync) option" where
  "monitor_init mtx nxt cvsem mem num_cv y = do {
     kassert (num_cv > 0);
     let y = sem_init mtx 1 y;
     let y = sem_init nxt 0 y;
     kassert mem;
     let (cvs, y) = init_cvs cvsem 0 num_cv y;
     Some (\<lparr>m_mutex = mtx, m_next = nxt, next_count = 0, m_cv = cvs\<rparr>, y)
   }"

definition cond_signal :: "nat \<Rightarrow> monitor \<Rightarrow> monitor" where
  "cond_signal cvp m = m"

definition cond_wait :: "nat \<Rightarrow> monitor \<Rightarrow> monitor" where
  "cond_wait cvp m = m"

datatype cphil_state = CTHINKING | CHUNGRY | CEATING

definition phi_test_condvar ::
  "nat \<Rightarrow> (nat \<Rightarrow> cphil_state) \<times> monitor \<Rightarrow> (nat \<Rightarrow> cphil_state) \<times> monitor" where
  "phi_test_condvar i g =
     (let (st, m) = g in
      if st i = CHUNGRY \<and> st ((i + 5 - 1) mod 5) \<noteq> CEATING \<and> st ((i + 1) mod 5) \<noteq> CEATING
      then (st(i := CEATING), cond_signal i m) else (st, m))"

definition leave_monitor ::
  "'a ksched_scheme sched_class \<Rightarrow> monitor \<Rightarrow> sync \<times> 'a ksched_scheme
     \<Rightarrow> (sync \<times> 'a ksched_scheme) option" where
  "leave_monitor sc m ys = (if next_count m > 0 then up sc (m_next m) ys else up sc (m_mutex m) ys)"

definition phi_take_forks_condvar ::
  "'a ksched_scheme sched_class \<Rightarrow> (sync \<times> 'a ksched_scheme \<Rightarrow> (sync \<times> 'a ksched_scheme) option)
     \<Rightarrow> nat \<Rightarrow> (nat \<Rightarrow> cphil_state) \<times> monitor \<Rightarrow> sync \<times> 'a ksched_scheme
     \<Rightarrow> (((nat \<Rightarrow> cphil_state) \<times> monitor) \<times> sync \<times> 'a ksched_scheme) option" where
  "phi_take_forks_condvar sc others w g ys = do {
     ys \<leftarrow> down sc others (m_mutex (snd g)) w ys;
     ys \<leftarrow> leave_monitor sc (snd g) ys;
     Some (g, ys)
   }"

definition phi_put_forks_condvar ::
  "'a ksched_scheme sched_class \<Rightarrow> (sync \<times> 'a ksched_scheme \<Rightarrow> (sync \<times> 'a ksched_scheme) option)
     \<Rightarrow> nat \<Rightarrow> (nat \<Rightarrow> cphil_state) \<times> monitor \<Rightarrow> sync \<times> 'a ksched_scheme
     \<Rightarrow> (((nat \<Rightarrow> cphil_state) \<times> monitor) \<times> sync \<times> 'a ksched_scheme) option" where
  "phi_put_forks_condvar sc others w g ys = do {
     ys \<leftarrow> down sc others (m_mutex (snd g)) w ys;
     ys \<leftarrow> leave_monitor sc (snd g) ys;
     Some (g, ys)
   }"

section \<open>Lemmas\<close>

lemma sem_init_at:
  "sem_value (sem_init a v y) b = (if b = a then v else sem_value y b)"
  "wqueues (sem_init a v y) b = (if b = a then [] else wqueues y b)"
  by (simp_all add: sem_init_def wait_queue_init_def)

lemma init_cvs_ok:
  "init_cvs cvsem i n y = (cvs, y') \<Longrightarrow>
   length cvs = n - i \<and> (\<forall>k < n - i. cvs ! k = \<lparr>cv_sem = cvsem (i + k), cv_count = 0\<rparr>)
   \<and> (\<forall>b. if b \<in> cvsem ` {i ..< n} then sem_value y' b = 0 \<and> wqueues y' b = []
          else sem_value y' b = sem_value y b \<and> wqueues y' b = wqueues y b)"
proof (induction cvsem i n y arbitrary: cvs y' rule: init_cvs.induct)
  case (1 cvsem i n y)
  show ?case
  proof (cases "i < n")
    case False
    then show ?thesis using 1(2) by (simp add: init_cvs.simps)
  next
    case True
    obtain c1 y1 where c: "init_cvs cvsem (Suc i) n (sem_init (cvsem i) 0 y) = (c1, y1)" by force
    have e: "cvs = \<lparr>cv_sem = cvsem i, cv_count = 0\<rparr> # c1" "y' = y1"
      using 1(2) True c by (simp_all add: init_cvs.simps [of cvsem i n y])
    note ih = 1(1) [OF True refl c]
    have "cvs ! k = \<lparr>cv_sem = cvsem (i + k), cv_count = 0\<rparr>" if "k < n - i" for k
      using ih e(1) that by (cases k) auto
    moreover have "{i ..< n} = insert i {Suc i ..< n}" using True by auto
    ultimately show ?thesis using ih e True by (auto simp: sem_init_at split: if_splits)
  qed
qed

text \<open>A fresh monitor is unlocked, nobody waits, and every condition variable is empty.\<close>

lemma monitor_init_ok:
  assumes "n > 0" "mtx \<noteq> nxt" "mtx \<notin> cvsem ` {0 ..< n}" "nxt \<notin> cvsem ` {0 ..< n}"
  shows "\<exists>m y'. monitor_init mtx nxt cvsem True n y = Some (m, y') \<and> next_count m = 0
     \<and> abs_sem y' (m_mutex m) = \<lparr>val = 1, blocked = []\<rparr> \<and> abs_sem y' (m_next m) = \<lparr>val = 0, blocked = []\<rparr>
     \<and> length (m_cv m) = n
     \<and> (\<forall>k < n. cv_count (m_cv m ! k) = 0 \<and> abs_sem y' (cv_sem (m_cv m ! k)) = \<lparr>val = 0, blocked = []\<rparr>)"
proof -
  obtain cvs y' where c: "init_cvs cvsem 0 n (sem_init nxt 0 (sem_init mtx 1 y)) = (cvs, y')" by force
  have f: "length cvs = n" "\<And>k. k < n \<Longrightarrow> cvs ! k = \<lparr>cv_sem = cvsem k, cv_count = 0\<rparr>"
    "\<And>b. b \<in> cvsem ` {0 ..< n} \<Longrightarrow> sem_value y' b = 0 \<and> wqueues y' b = []"
    "\<And>b. b \<notin> cvsem ` {0 ..< n} \<Longrightarrow> sem_value y' b = sem_value (sem_init nxt 0 (sem_init mtx 1 y)) b
        \<and> wqueues y' b = wqueues (sem_init nxt 0 (sem_init mtx 1 y)) b"
    using init_cvs_ok [OF c] by (auto split: if_splits)
  have "monitor_init mtx nxt cvsem True n y =
      Some (\<lparr>m_mutex = mtx, m_next = nxt, next_count = 0, m_cv = cvs\<rparr>, y')"
    using assms(1) c by (simp add: monitor_init_def kassert_def)
  moreover have "abs_sem y' mtx = \<lparr>val = 1, blocked = []\<rparr>" "abs_sem y' nxt = \<lparr>val = 0, blocked = []\<rparr>"
    using f(4) [OF assms(3)] f(4) [OF assms(4)] assms(2) by (simp_all add: abs_sem_def sem_init_at)
  moreover have "abs_sem y' (cvsem k) = \<lparr>val = 0, blocked = []\<rparr>" if "k < n" for k
    using f(3) [of "cvsem k"] that by (simp add: abs_sem_def)
  ultimately show ?thesis using f(1,2)
    by (intro exI [of _ "\<lparr>m_mutex = mtx, m_next = nxt, next_count = 0, m_cv = cvs\<rparr>"] exI [of _ y']) simp
qed

text \<open>
  The monitor version of the philosophers excludes nobody: from a free monitor, taking the forks
  returns at once with the same state, whatever the other philosophers do.
\<close>

lemma condvar_forks_noop:
  assumes "sem_value y (m_mutex m) = 1" "wqueues y (m_mutex m) = []" "next_count m = 0"
  shows "phi_take_forks_condvar sc others w (st, m) (y, s) = Some ((st, m), y, s)"
    "phi_put_forks_condvar sc others w (st, m) (y, s) = Some ((st, m), y, s)"
  using assms
  by (auto simp: phi_take_forks_condvar_def phi_put_forks_condvar_def down_def sem_down_def
      down_enter_def leave_monitor_def up_def sem_up_def wait_queue_first_def kassert_def set_value_def
      fun_upd_idem_iff)

end
