(* ===== verification/Stride_Fair.thy ===== *)
theory Stride_Fair
  imports Sched
begin

text \<open>
  What the stride scheduler promises: the scheduling decisions of \<open>schedule\<close> with
  \<open>stride_sched_class\<close> give every runnable process a share of the turns in proportion to its
  priority.  The strides are 32-bit counters that wrap around, and \<open>proc_stride_comp_f\<close> compares
  them by the sign of their difference.  The argument uses unbounded virtual times \<open>v\<close>: as long
  as the virtual times of the processes in play lie within \<open>BIG_STRIDE\<close> of each other, the
  comparison of the wrapped strides is the comparison of the virtual times, and the choice of the
  least keeps them within \<open>BIG_STRIDE\<close>.
\<close>

definition window :: "(pptr \<Rightarrow> nat) \<Rightarrow> pptr set \<Rightarrow> (pptr \<Rightarrow> proc_struct) \<Rightarrow> bool" where
  "window v A ps \<longleftrightarrow> (\<forall>p \<in> A. p_stride (ps p) = word_of_nat (v p))
     \<and> (\<forall>p \<in> A. \<forall>q \<in> A. v p \<le> v q + 2 ^ 30)"

lemma sint_diff_nat:
  assumes "a \<le> b + 2 ^ 30" "b \<le> a + 2 ^ 30"
  shows "sint (word_of_nat a - word_of_nat b :: 32 word) = int a - int b"
proof -
  have "word_of_nat a - word_of_nat b = (word_of_int (int a - int b) :: 32 word)" by simp
  moreover have "sint (word_of_int (int a - int b) :: 32 word) = int a - int b"
    unfolding sint_sbintrunc' by (rule signed_take_bit_int_eq_self) (use assms in simp_all)
  ultimately show ?thesis by simp
qed

lemma window_cmp:
  assumes "window v A ps" "p \<in> A" "q \<in> A"
  shows "proc_stride_comp_f ps p q = (if v p > v q then 1 else if v p = v q then 0 else -1)"
  using assms sint_diff_nat [of "v p" "v q"]
  by (auto simp: proc_stride_comp_f_def window_def Let_def)

lemma window_total:
  "window v A ps \<Longrightarrow> total_on_by (proc_stride_comp_f ps) (\<lambda>x y. v x \<le> v y) A"
  unfolding total_on_by_def by (auto simp: window_cmp split: if_splits)

lemma stride_pass_le: "unat (stride_pass p) \<le> 2 ^ 30"
proof -
  have b: "unat BIG_STRIDE = 2 ^ 30" by (simp add: BIG_STRIDE_def)
  have "unat (BIG_STRIDE div p_priority p) \<le> unat BIG_STRIDE"
    by (simp add: unat_div div_le_dividend)
  then show ?thesis using b by (simp add: stride_pass_def)
qed

text \<open>The processes in play: the current one and the queue.\<close>

definition team :: "'a ksched_scheme \<Rightarrow> pptr set" where
  "team s = insert (current s) (stride_queued s)"

definition fair_inv :: "(pptr \<Rightarrow> nat) \<Rightarrow> 'a ksched_scheme \<Rightarrow> bool" where
  "fair_inv v s \<longleftrightarrow> stride.sched_ok s \<and> current s \<noteq> idleproc s
     \<and> p_state (procs s (current s)) = PROC_RUNNABLE \<and> window v (team s) (procs s)
     \<and> (\<forall>t. is_heap (pool s) (run_pool s) t \<longrightarrow> heap_by (\<lambda>x y. v x \<le> v y) t)"

lemma heap_by_cong:
  "heap_by le t \<Longrightarrow> (\<And>x y. x \<in> set_tree t \<Longrightarrow> y \<in> set_tree t \<Longrightarrow> le x y \<Longrightarrow> le' x y) \<Longrightarrow> heap_by le' t"
  by (induction t) auto

text \<open>One call of \<open>schedule\<close>, with the class unfolded.\<close>

lemma fair_step:
  assumes "fair_inv v s"
  shows "\<exists>s'. schedule stride_sched_class s = Some s' \<and> team s' = team s \<and> current s' \<in> team s
     \<and> (\<forall>q \<in> team s. v (current s') \<le> v q)
     \<and> fair_inv (v(current s' := v (current s') + unat (stride_pass (procs s (current s'))))) s'
     \<and> (\<forall>q. p_priority (procs s' q) = p_priority (procs s q)
          \<and> p_runs (procs s' q) = p_runs (procs s q) + (if q = current s' then 1 else 0))"
proof -
  let ?c = "current s" and ?le = "\<lambda>x y. v x \<le> v y"
  have ok: "stride.sched_ok s" "?c \<noteq> idleproc s" "p_state (procs s ?c) = PROC_RUNNABLE"
    and w: "window v (team s) (procs s)"
    and hp: "\<And>t. is_heap (pool s) (run_pool s) t \<Longrightarrow> heap_by ?le t"
    using assms by (auto simp: fair_inv_def)
  have cq: "?c \<notin> stride_queued s" and inv: "stride_inv s" and iq: "idleproc s \<notin> stride_queued s"
    and rn: "\<And>p. p \<in> stride_queued s \<Longrightarrow> p_state (procs s p) = PROC_RUNNABLE"
    using ok(1) by (auto simp: stride.sched_ok_def)
  define s1 where "s1 = upd ?c (\<lambda>p. p\<lparr>p_need_resched := False\<rparr>) s"
  from inv obtain t where t: "is_heap (pool s1) (run_pool s1) t" "proc_num s1 = card (set_tree t)"
    "\<forall>p \<in> set_tree t. p_rq (procs s1 p)" by (auto simp: stride_inv_def s1_def)
  have ts: "set_tree t = stride_queued s" using stride_queued_tree [of s t] t(1) by (simp add: s1_def)
  have ct: "?c \<notin> set_tree t" using cq ts by simp
  from stride_enqueue_ok [OF t ct] obtain s2 t2 where s2: "stride_enqueue ?c s1 = Some s2"
    "is_heap (pool s2) (run_pool s2) t2"
    "t2 = merge_t (proc_stride_comp_f (procs s1)) t (Node Leaf ?c Leaf)"
    "proc_num s2 = card (set_tree t2)" "\<forall>x \<in> set_tree t2. p_rq (procs s2 x)"
    "set_tree t2 = team s"
    "procs s2 = (procs s1)(?c := (refill (max_time_slice s1) (procs s1 ?c))\<lparr>p_rq := True\<rparr>)"
    "current s2 = ?c" "idleproc s2 = idleproc s"
    unfolding ts team_def s1_def by auto
  have st1: "p_stride (procs s1 q) = p_stride (procs s q)" for q by (simp add: s1_def)
  have st2: "p_stride (procs s2 q) = p_stride (procs s q)" for q
    using s2(7) st1 by (simp add: refill_def)
  have w1: "window v (team s) (procs s1)" using w st1 by (simp add: window_def)
  have "heap_by ?le t2"
    unfolding s2(3)
  proof (rule heap_merge_t)
    show "heap_by ?le t" using hp [of t] t(1) by (simp add: s1_def)
    show "total_on_by (proc_stride_comp_f (procs s1)) ?le (set_tree t \<union> set_tree (Node Leaf ?c Leaf))"
      using window_total [OF w1] ts by (simp add: team_def)
  qed simp
  obtain p where p: "root_of t2 = Some p" using s2(6) by (cases t2) (auto simp: team_def)
  have pin: "p \<in> team s" using root_of_in [OF p] s2(6) by simp
  have least: "v p \<le> v q" if "q \<in> team s" for q
    using heap_root_least [OF \<open>heap_by ?le t2\<close> p] that s2(6) by simp
  from stride_pick_dequeue [OF s2(2,4,5) p] obtain s3 s4 t4 where s4:
    "stride_pick_next s2 = (Some p, s3)" "stride_dequeue p s3 = Some s4"
    "is_heap (pool s4) (run_pool s4) t4" "t4 = remove_t (proc_stride_comp_f (procs s3)) p t2"
    "set_tree t4 = team s - {p}" "procs s4 = procs s3"
    "procs s3 = (procs s2)(p := (procs s2 p)\<lparr>p_stride := p_stride (procs s2 p) + stride_pass (procs s2 p)\<rparr>)"
    "current s4 = ?c" "idleproc s4 = idleproc s"
    using s2(6,8,9) by auto
  define s5 where "s5 = upd p (\<lambda>p. p\<lparr>p_runs := p_runs p + 1\<rparr>) s4"
  define s6 where "s6 = (if p \<noteq> current s5 then proc_run p s5 else s5)"
  have pi: "p \<noteq> idleproc s" using pin ok(2) iq by (auto simp: team_def)
  have run: "schedule stride_sched_class s = Some s6"
    using s2(1) s4(1,2) ok(2,3)
    by (simp add: schedule_def s1_def [symmetric] sched_class_enqueue_def sched_class_pick_next_def
        sched_class_dequeue_def stride_sched_class_def s5_def s6_def Let_def)
      (cases "p = current s4"; simp add: s1_def sched_class_dequeue_def)
  obtain s6' where s6': "schedule stride_sched_class s = Some s6'" "stride.sched_ok s6'"
    "\<forall>q. p_state (procs s6' q) = p_state (procs s q)"
    using stride.schedule_ok [OF ok(1)] by blast
  then have ok6: "stride.sched_ok s6" "\<And>q. p_state (procs s6 q) = p_state (procs s q)"
    using run by simp_all
  have cur: "current s6 = p" "idleproc s6 = idleproc s" "pool s6 = pool s4" "run_pool s6 = run_pool s4"
    using s4(8,9) by (auto simp: s6_def s5_def proc_run_def)
  have pr6: "procs s6 = procs s5" by (simp add: s6_def proc_run_def)
  have q6: "stride_queued s6 = team s - {p}"
    using stride_queued_tree [of s6 t4] s4(3,5) cur by simp
  have tm: "team s6 = team s" using q6 cur pin by (auto simp: team_def [of s6])
  let ?v = "v(p := v p + unat (stride_pass (procs s p)))"
  have pass2: "stride_pass (procs s2 p) = stride_pass (procs s p)"
    using s2(7) by (simp add: stride_pass_def refill_def s1_def)
  have st6: "p_stride (procs s6 q) = (if q = p then p_stride (procs s p) + stride_pass (procs s p) else p_stride (procs s q))" for q
    using s4(6,7) st2 pass2 by (simp add: pr6 s5_def)
  have w6: "window ?v (team s) (procs s6)"
    unfolding window_def
  proof (intro conjI ballI)
    fix q assume "q \<in> team s"
    then show "p_stride (procs s6 q) = word_of_nat (?v q)"
      using w pin st6 by (simp add: window_def)
  next
    fix x y assume xy: "x \<in> team s" "y \<in> team s"
    then have "v x \<le> v y + 2 ^ 30" "v x \<le> v p + 2 ^ 30" "v p \<le> v y"
      using w pin least by (auto simp: window_def)
    then show "?v x \<le> ?v y + 2 ^ 30"
      using stride_pass_le [of "procs s p"] by (cases "x = p"; cases "y = p") auto
  qed
  have h6: "heap_by (\<lambda>x y. ?v x \<le> ?v y) t4"
  proof (rule heap_by_cong)
    have w3: "proc_stride_comp_f (procs s3) x y = proc_stride_comp_f (procs s6) x y" for x y
      using s4(6) by (simp add: proc_stride_comp_f_def pr6 s5_def)
    have "proc_stride_comp_f (procs s3) = proc_stride_comp_f (procs s6)" using w3 by blast
    then have tot: "total_on_by (proc_stride_comp_f (procs s3)) (\<lambda>x y. ?v x \<le> ?v y) (team s)"
      using window_total [OF w6] by simp
    obtain l r where [simp]: "t2 = Node l p r" using p by (cases t2) auto
    have d: "distinct (inorder t2)" using s2(2) by (simp add: is_heap_def)
    have t4: "t4 = merge_t (proc_stride_comp_f (procs s3)) l r" using s4(4) by simp
    have "heap_by (\<lambda>x y. ?v x \<le> ?v y) l" "heap_by (\<lambda>x y. ?v x \<le> ?v y) r"
      using \<open>heap_by ?le t2\<close> d by (auto intro!: heap_by_cong [of ?le] simp: set_inorder)
    then show "heap_by (\<lambda>x y. ?v x \<le> ?v y) t4"
      unfolding t4
    proof (rule heap_merge_t)
      show "total_on_by (proc_stride_comp_f (procs s3)) (\<lambda>x y. ?v x \<le> ?v y) (set_tree l \<union> set_tree r)"
        by (rule total_on_by_subset [OF tot]) (use s2(6) in auto)
    qed
  qed
  have "fair_inv ?v s6"
    unfolding fair_inv_def tm
  proof (intro conjI allI impI)
    show "p_state (procs s6 (current s6)) = PROC_RUNNABLE"
    proof -
      have "p_state (procs s p) = PROC_RUNNABLE" using pin ok(3) rn by (auto simp: team_def)
      then show ?thesis using ok6(2) cur by simp
    qed
    fix u assume "is_heap (pool s6) (run_pool s6) u"
    then have "u = t4" using is_heap_unique s4(3) cur by metis
    then show "heap_by (\<lambda>x y. ?v x \<le> ?v y) u" using h6 by simp
  qed (use ok6 cur pi w6 in auto)
  moreover have "p_priority (procs s6 q) = p_priority (procs s q)
      \<and> p_runs (procs s6 q) = p_runs (procs s q) + (if q = p then 1 else 0)" for q
    using s4(6,7) s2(7) by (simp add: pr6 s5_def refill_def s1_def)
  ultimately show ?thesis using run cur tm pin least by (intro exI [of _ s6]) simp
qed

section \<open>Many rounds\<close>

fun rounds :: "'a ksched_scheme sched_class \<Rightarrow> nat \<Rightarrow> 'a ksched_scheme \<Rightarrow> 'a ksched_scheme option" where
  "rounds sc 0 s = Some s"
| "rounds sc (Suc n) s = do { s \<leftarrow> schedule sc s; rounds sc n s }"

text \<open>The turns a process had between two states.\<close>

definition turns :: "'a ksched_scheme \<Rightarrow> 'a ksched_scheme \<Rightarrow> pptr \<Rightarrow> nat" where
  "turns s s' p = nat (p_runs (procs s' p) - p_runs (procs s p))"

lemma finite_team: "fair_inv v s \<Longrightarrow> finite (team s)"
proof -
  assume "fair_inv v s"
  then obtain t where "is_heap (pool s) (run_pool s) t"
    by (auto simp: fair_inv_def stride.sched_ok_def stride_inv_def)
  from stride_queued_tree [OF this] show "finite (team s)" by (simp add: team_def)
qed

lemma rounds_fair:
  "fair_inv v s \<Longrightarrow> \<exists>s' v'. rounds stride_sched_class n s = Some s' \<and> fair_inv v' s' \<and> team s' = team s
     \<and> (\<forall>q. p_priority (procs s' q) = p_priority (procs s q) \<and> p_runs (procs s q) \<le> p_runs (procs s' q))
     \<and> (\<forall>q. v' q = v q + turns s s' q * unat (stride_pass (procs s q)))
     \<and> (\<Sum>q \<in> team s. turns s s' q) = n"
proof (induction n arbitrary: v s)
  case 0
  then show ?case by (auto simp: turns_def)
next
  case (Suc n)
  from fair_step [OF Suc.prems] obtain s1 where s1: "schedule stride_sched_class s = Some s1"
    "team s1 = team s" "current s1 \<in> team s"
    "fair_inv (v(current s1 := v (current s1) + unat (stride_pass (procs s (current s1))))) s1"
    "\<forall>q. p_priority (procs s1 q) = p_priority (procs s q)
          \<and> p_runs (procs s1 q) = p_runs (procs s q) + (if q = current s1 then 1 else 0)"
    by blast
  let ?v1 = "v(current s1 := v (current s1) + unat (stride_pass (procs s (current s1))))"
  from Suc.IH [OF s1(4)] obtain s' v' where s': "rounds stride_sched_class n s1 = Some s'"
    "fair_inv v' s'" "team s' = team s1"
    "\<forall>q. p_priority (procs s' q) = p_priority (procs s1 q) \<and> p_runs (procs s1 q) \<le> p_runs (procs s' q)"
    "\<forall>q. v' q = ?v1 q + turns s1 s' q * unat (stride_pass (procs s1 q))"
    "(\<Sum>q \<in> team s1. turns s1 s' q) = n"
    by blast
  have pass: "stride_pass (procs s1 q) = stride_pass (procs s q)" for q
    using s1(5) by (simp add: stride_pass_def)
  have tr: "turns s s' q = turns s1 s' q + (if q = current s1 then 1 else 0)" for q
    using s1(5) s'(4) by (auto simp: turns_def nat_diff_distrib dest: spec [of _ q])
  have 1: "\<forall>q. v' q = v q + turns s s' q * unat (stride_pass (procs s q))"
    using s'(5) pass by (auto simp: tr algebra_simps)
  have "(\<Sum>q \<in> team s. turns s s' q) = n + (\<Sum>q \<in> team s. if q = current s1 then 1 else 0)"
    using s'(6) s1(2) by (simp add: tr sum.distrib)
  also have "\<dots> = Suc n" using s1(3) finite_team [OF Suc.prems] by simp
  finally have 2: "(\<Sum>q \<in> team s. turns s s' q) = Suc n" .
  have 3: "p_priority (procs s' q) = p_priority (procs s q) \<and> p_runs (procs s q) \<le> p_runs (procs s' q)" for q
    using s1(5) s'(4) by (auto dest: spec [of _ q] split: if_splits)
  show ?case
  proof (intro exI conjI)
    show "rounds stride_sched_class (Suc n) s = Some s'" using s1(1) s'(1) by simp
    show "team s' = team s" using s'(3) s1(2) by simp
    show "fair_inv v' s'" by (rule s'(2))
  qed (use 1 2 3 in auto)
qed

text \<open>A group of processes that starts with equal strides.\<close>

definition equal_start :: "32 word \<Rightarrow> 'a ksched_scheme \<Rightarrow> bool" where
  "equal_start c s \<longleftrightarrow> stride.sched_ok s \<and> current s \<noteq> idleproc s
     \<and> p_state (procs s (current s)) = PROC_RUNNABLE
     \<and> (\<forall>p \<in> team s. p_stride (procs s p) = c)"

lemma equal_start_fair: "equal_start c s \<Longrightarrow> fair_inv (\<lambda>_. unat c) s"
proof -
  have "heap_by (\<lambda>x y. True) t" for t :: "pptr tree" by (induction t) auto
  then show "equal_start c s \<Longrightarrow> fair_inv (\<lambda>_. unat c) s"
    by (auto simp: equal_start_def fair_inv_def window_def)
qed

section \<open>Properties of the stride scheduler\<close>

definition blank_proc :: proc_struct where
  "blank_proc = \<lparr>p_state = PROC_RUNNABLE, p_pid = 0, p_runs = 0, p_kstack = 0,
     p_need_resched = False, p_parent = None, p_mm = None, p_cr3 = 0, p_flags = 0, p_name = [],
     p_exit_code = 0, p_wait_state = 0, p_cptr = None, p_yptr = None, p_optr = None, p_rq = True,
     p_time_slice = 5, p_stride = 0, p_priority = 1, p_filesp = None\<rparr>"

text \<open>Process 1 runs, process 2 with priority 3 is queued, process 0 is the idle process.\<close>

definition ex_sched :: ksched where
  "ex_sched = \<lparr>procs = (\<lambda>_. blank_proc)(2 := blank_proc\<lparr>p_priority := 3\<rparr>), current = 1,
     idleproc = 0, run_list = [],
     pool = (\<lambda>_. \<lparr>parent = None, left = None, right = None\<rparr>), run_pool = Some 2, proc_num = 1,
     max_time_slice = MAX_TIME_SLICE, timer_expires = (\<lambda>_. 0)(7 := 3), timer_proc = (\<lambda>_. None)(7 := Some 3),
     timer_list = [7]\<rparr>"

lemma ex_sched_heap: "is_heap (pool ex_sched) (run_pool ex_sched) (Node Leaf 2 Leaf)"
  by (simp add: is_heap_def ex_sched_def up_def)

lemma ex_sched_queued: "stride_queued ex_sched = {2}"
  using stride_queued_tree [OF ex_sched_heap] by simp

lemma ex_sched_ok: "stride.sched_ok ex_sched"
proof -
  have "stride_inv ex_sched"
    unfolding stride_inv_def
    by (rule exI [of _ "Node Leaf 2 Leaf"]) (use ex_sched_heap in \<open>simp add: ex_sched_def blank_proc_def\<close>)
  then show ?thesis
    using ex_sched_queued by (simp add: stride.sched_ok_def) (simp add: ex_sched_def blank_proc_def)
qed

lemma ex_sched_start: "equal_start 0 ex_sched"
  using ex_sched_ok ex_sched_queued
  by (simp add: equal_start_def team_def) (simp add: ex_sched_def blank_proc_def)

text \<open>Process 1 is about to wrap around, process 2 has wrapped around already.\<close>

definition ex_uneven :: ksched where
  "ex_uneven = ex_sched\<lparr>procs := (procs ex_sched)(1 := blank_proc\<lparr>p_stride := 0xFFFFFFFF\<rparr>,
     2 := blank_proc\<lparr>p_priority := 3, p_stride := 999\<rparr>)\<rparr>"

lemma ex_uneven: "team ex_uneven = {1, 2}"
  "fair_inv (\<lambda>p. if p = 2 then 2 ^ 32 + 999 else 2 ^ 32 - 1) ex_uneven"
proof -
  have h: "is_heap (pool ex_uneven) (run_pool ex_uneven) (Node Leaf 2 Leaf)"
    by (simp add: is_heap_def ex_uneven_def ex_sched_def up_def)
  have q: "stride_queued ex_uneven = {2}" using stride_queued_tree [OF h] by simp
  show t: "team ex_uneven = {1, 2}" by (simp add: team_def q) (simp add: ex_uneven_def ex_sched_def)
  have "stride_inv ex_uneven"
    unfolding stride_inv_def
    by (rule exI [of _ "Node Leaf 2 Leaf"]) (use h in \<open>simp add: ex_uneven_def ex_sched_def blank_proc_def\<close>)
  then have "stride.sched_ok ex_uneven"
    using q by (simp add: stride.sched_ok_def) (simp add: ex_uneven_def ex_sched_def blank_proc_def)
  moreover have "window (\<lambda>p. if p = 2 then 2 ^ 32 + 999 else 2 ^ 32 - 1) (team ex_uneven) (procs ex_uneven)"
    unfolding t by (simp add: window_def ex_uneven_def)
  moreover have "heap_by le t" if "is_heap (pool ex_uneven) (run_pool ex_uneven) t" for le t
    using is_heap_unique [OF that h] by simp
  ultimately show "fair_inv (\<lambda>p. if p = 2 then 2 ^ 32 + 999 else 2 ^ 32 - 1) ex_uneven"
    by (simp add: fair_inv_def) (simp add: ex_uneven_def ex_sched_def blank_proc_def)
qed

text \<open>
  C9. Proportional share.  Let the runnable processes start with strides within \<open>BIG_STRIDE\<close> of each
  other: their strides are the low 32 bits of virtual times \<open>v\<close> that differ by at most \<open>BIG_STRIDE\<close> and order
  the heap.  (The code does not set this up: \<open>alloc_proc\<close> leaves \<open>lab6_stride\<close> as it is.)  While the same
  processes stay runnable, any number of calls of \<open>schedule\<close> with the stride class succeeds and gives each
  call's turn to one of them; the virtual times, each advanced by the turns its process had times
  \<open>BIG_STRIDE / priority\<close>, stay within \<open>BIG_STRIDE\<close> of each other and remain those of the strides,
  however often the 32-bit counters wrap.
\<close>

theorem stride_proportional_share:
  assumes "fair_inv v s"
  shows "\<exists>s'. rounds stride_sched_class n s = Some s' \<and> team s' = team s
     \<and> (\<Sum>q \<in> team s. turns s s' q) = n
     \<and> fair_inv (\<lambda>q. v q + turns s s' q * unat (stride_pass (procs s q))) s'
     \<and> (\<forall>p \<in> team s. \<forall>q \<in> team s.
           v p + turns s s' p * unat (stride_pass (procs s p))
             \<le> v q + turns s s' q * unat (stride_pass (procs s q)) + 2 ^ 30)"
proof -
  from rounds_fair [OF assms] obtain s' v' where
    s': "rounds stride_sched_class n s = Some s'" "fair_inv v' s'" "team s' = team s"
    "\<forall>q. v' q = v q + turns s s' q * unat (stride_pass (procs s q))"
    "(\<Sum>q \<in> team s. turns s s' q) = n"
    by blast
  have v: "v' = (\<lambda>q. v q + turns s s' q * unat (stride_pass (procs s q)))" using s'(4) by blast
  have "v' p \<le> v' q + 2 ^ 30" if "p \<in> team s" "q \<in> team s" for p q
    using s'(2,3) that by (auto simp: fair_inv_def window_def)
  then show ?thesis using s'(1,2,3,5) unfolding v by (intro exI [of _ s']) simp
qed

theorem stride_proportional_share_witness:
  "\<exists>s'. rounds stride_sched_class 100 ex_uneven = Some s' \<and> (\<Sum>q \<in> {1, 2}. turns ex_uneven s' q) = 100"
  using stride_proportional_share [OF ex_uneven(2), of 100] unfolding ex_uneven(1) by blast

text \<open>Equal strides are the simplest such start: the shares are then those of the priorities alone.\<close>

lemma equal_start_share:
  assumes "equal_start c s"
  shows "\<exists>s'. rounds stride_sched_class n s = Some s' \<and> (\<Sum>q \<in> team s. turns s s' q) = n
     \<and> (\<forall>p \<in> team s. \<forall>q \<in> team s. turns s s' p * unat (stride_pass (procs s p))
           \<le> turns s s' q * unat (stride_pass (procs s q)) + 2 ^ 30)"
proof -
  from rounds_fair [OF equal_start_fair [OF assms]] obtain s' v' where
    s': "rounds stride_sched_class n s = Some s'" "fair_inv v' s'" "team s' = team s"
    "\<forall>q. v' q = unat c + turns s s' q * unat (stride_pass (procs s q))" "(\<Sum>q \<in> team s. turns s s' q) = n"
    by blast
  have "v' p \<le> v' q + 2 ^ 30" if "p \<in> team s" "q \<in> team s" for p q
    using s'(2,3) that by (auto simp: fair_inv_def window_def)
  then show ?thesis using s'(1,4,5) by (intro exI [of _ s']) simp
qed

text \<open>
  C10. \<open>schedule\<close> with the stride class, from a consistent state, never panics; it hands the
  processor to a process of the ready set (the queue, and the current process when it is runnable)
  and leaves exactly the others queued, or runs the idle process when nothing is ready.
\<close>

theorem schedule_stride_correct:
  assumes "stride.sched_ok s"
  shows "\<exists>s'. schedule stride_sched_class s = Some s' \<and> stride.sched_ok s'
     \<and> (\<forall>q. p_state (procs s' q) = p_state (procs s q))
     \<and> (if stride.ready s = {} then current s' = idleproc s \<and> stride_queued s' = {}
        else current s' \<in> stride.ready s \<and> stride_queued s' = stride.ready s - {current s'})"
  using stride.schedule_ok [OF assms] by blast

theorem schedule_stride_correct_witness:
  "\<exists>s'. schedule stride_sched_class ex_sched = Some s' \<and> stride.sched_ok s'"
  using schedule_stride_correct [OF ex_sched_ok] by blast

text \<open>
  C11. The same contract for the round-robin class, and the order it promises: the process at the
  head of the run list runs next and a runnable current process goes to the tail.
\<close>

theorem schedule_RR_correct:
  assumes "RR.sched_ok s" "p_state (procs s (current s)) = PROC_RUNNABLE" "current s \<noteq> idleproc s"
  shows "\<exists>s'. schedule RR_sched_class s = Some s' \<and> RR.sched_ok s'
     \<and> current s' = hd (run_list s @ [current s]) \<and> run_list s' = tl (run_list s @ [current s])"
proof -
  obtain s' where s': "schedule RR_sched_class s = Some s'" "RR.sched_ok s'"
    using RR.schedule_ok [OF assms(1)] by blast
  have n: "current s \<notin> set (run_list s)"
    using assms(1) by (simp add: RR.sched_ok_def RR_queued_def)
  have rq: "\<forall>p \<in> set (run_list s). p_rq (procs s p)"
    using assms(1) by (simp add: RR.sched_ok_def RR_inv_def)
  have "current s' = hd (run_list s @ [current s]) \<and> run_list s' = tl (run_list s @ [current s])"
    using s'(1) n rq assms(2,3)
    by (cases "run_list s")
      (auto simp: schedule_def sched_class_enqueue_def sched_class_pick_next_def sched_class_dequeue_def
        RR_sched_class_def RR_enqueue_def RR_pick_next_def RR_dequeue_def kassert_def Let_def
        proc_run_def refill_def)
  then show ?thesis using s' by blast
qed

definition ex_RR :: ksched where
  "ex_RR = ex_sched\<lparr>run_list := [2, 5], proc_num := 2\<rparr>"

theorem schedule_RR_correct_witness:
  "\<exists>s'. schedule RR_sched_class ex_RR = Some s' \<and> current s' = 2 \<and> run_list s' = [5, 1]"
proof -
  have "RR.sched_ok ex_RR"
    by (simp add: RR.sched_ok_def RR_inv_def RR_queued_def ex_RR_def ex_sched_def blank_proc_def)
  moreover have "p_state (procs ex_RR (current ex_RR)) = PROC_RUNNABLE" "current ex_RR \<noteq> idleproc ex_RR"
    "run_list ex_RR = [2, 5]" "current ex_RR = 1"
    by (simp_all add: ex_RR_def ex_sched_def blank_proc_def)
  ultimately show ?thesis using schedule_RR_correct [of ex_RR] by auto
qed

section \<open>Properties of wakeup and of the timers\<close>

text \<open>
  \<open>wakeup_proc\<close> of a process that is not a zombie never panics; it makes exactly this process
  runnable and queues it precisely when it was not runnable and is neither the current nor the
  idle process.
\<close>

lemma wakeup_proc_correct:
  assumes "stride.sched_ok s" "p_state (procs s p) \<noteq> PROC_ZOMBIE"
  shows "\<exists>s'. wakeup_proc stride_sched_class p s = Some s' \<and> stride.sched_ok s'
     \<and> (\<forall>q. p_state (procs s' q) = (if q = p then PROC_RUNNABLE else p_state (procs s q)))
     \<and> stride_queued s' = (if p_state (procs s p) \<noteq> PROC_RUNNABLE \<and> p \<noteq> current s \<and> p \<noteq> idleproc s
          then insert p (stride_queued s) else stride_queued s)"
  using stride.wakeup_ok [OF assms] by blast

lemma wakeup_proc_correct_witness:
  "\<exists>s'. wakeup_proc stride_sched_class 3 ex_sched = Some s' \<and> stride.sched_ok s'"
  using wakeup_proc_correct [OF ex_sched_ok, of 3] by (auto simp: ex_sched_def blank_proc_def)

text \<open>
  The timer list keeps absolute deadlines as differences.  \<open>add_timer\<close> adds one deadline,
  \<open>del_timer\<close> removes one, and neither changes the deadline of any other timer; no 32-bit counter
  overflows.
\<close>

lemma timer_deadlines:
  assumes "timers_ok s" "t \<notin> set (timer_list s)" "timer_expires s t > 0" "timer_proc s t \<noteq> None"
  shows "(\<exists>s'. add_timer t s = Some s' \<and> timers_ok s'
        \<and> deadlines s' = insert (t, unat (timer_expires s t)) (deadlines s))
     \<and> (\<forall>u. timers_ok (del_timer u s) \<and> deadlines (del_timer u s) = {(x, d) \<in> deadlines s. x \<noteq> u})"
  using add_timer_ok [OF assms] del_timer_ok [OF assms(1)] by blast

lemma timer_deadlines_witness:
  "\<exists>s'. add_timer 8 (ex_sched\<lparr>timer_expires := (timer_expires ex_sched)(8 := 5),
        timer_proc := (timer_proc ex_sched)(8 := Some 2)\<rparr>) = Some s' \<and> deadlines s' = {(7, 3), (8, 5)}"
proof -
  let ?s = "ex_sched\<lparr>timer_expires := (timer_expires ex_sched)(8 := 5),
        timer_proc := (timer_proc ex_sched)(8 := Some 2)\<rparr>"
  have "timers_ok ?s" "deadlines ?s = {(7, 3)}"
    by (simp_all add: timers_ok_def deadlines_def ex_sched_def)
  then show ?thesis
    using timer_deadlines [of ?s 8] by (auto simp: ex_sched_def)
qed

text \<open>
  C12. One clock tick, \<open>run_timer_list\<close>: it never panics, brings every deadline one tick nearer,
  removes the timers that were due at this tick and makes exactly their processes runnable.
\<close>

theorem run_timer_list_correct:
  assumes "stride.sched_ok s" "timers_ok s" "can_wake s"
  shows "\<exists>s'. run_timer_list stride_sched_class s = Some s' \<and> stride.sched_ok s' \<and> timers_ok s'
     \<and> deadlines s' = {(t, d). (t, Suc d) \<in> deadlines s \<and> d > 0}
     \<and> (\<forall>q. p_state (procs s' q) =
          (if \<exists>t. (t, 1) \<in> deadlines s \<and> timer_proc s t = Some q then PROC_RUNNABLE
           else p_state (procs s q)))"
  by (rule stride.run_timer_list_ok [OF assms])

theorem run_timer_list_correct_witness:
  "\<exists>s'. run_timer_list stride_sched_class ex_sched = Some s' \<and> stride.sched_ok s'
     \<and> (7, 2) \<in> deadlines s'"
proof -
  have "timers_ok ex_sched" "can_wake ex_sched" "deadlines ex_sched = {(7, 3)}"
    by (simp_all add: timers_ok_def deadlines_def can_wake_def ex_sched_def blank_proc_def)
  then show ?thesis using run_timer_list_correct [OF ex_sched_ok] by auto
qed

end
