(* ===== verification/Libs_String.thy ===== *)
theory Libs_String
  imports Ucore_Prelude
begin

text \<open>
  The string and memory routines of \<open>libs/string.c\<close> and \<open>kern/libs/string.c\<close>, the hash of
  \<open>libs/hash.c\<close> and the generator of \<open>libs/rand.c\<close>.  Memory is a map from addresses to bytes; an
  address is a natural number.  A loop that runs to a terminator is a partial function (it never
  returns when there is none); a loop bounded by a count is structural in it.  \<open>cstr m s xs\<close> says
  that the C string \<open>xs\<close> stands at \<open>s\<close>.
\<close>

unbundle bit_operations_syntax

type_synonym byte = "8 word"
type_synonym mem = "nat \<Rightarrow> byte"

section \<open>The routines\<close>

partial_function (option) strlen_loop :: "mem \<Rightarrow> nat \<Rightarrow> nat \<Rightarrow> nat option" where
  "strlen_loop m s cnt = (if m s \<noteq> 0 then strlen_loop m (s + 1) (cnt + 1) else Some cnt)"

definition strlen :: "mem \<Rightarrow> nat \<Rightarrow> nat option" where
  "strlen m s = strlen_loop m s 0"

function strnlen_loop :: "mem \<Rightarrow> nat \<Rightarrow> nat \<Rightarrow> nat \<Rightarrow> nat" where
  "strnlen_loop m s len cnt =
     (if cnt < len \<and> m s \<noteq> 0 then strnlen_loop m (s + 1) len (cnt + 1) else cnt)"
  by pat_completeness auto
termination by (relation "measure (\<lambda>(_, _, len, cnt). len - cnt)") auto

declare strnlen_loop.simps [simp del]

definition strnlen :: "mem \<Rightarrow> nat \<Rightarrow> nat \<Rightarrow> nat" where
  "strnlen m s len = strnlen_loop m s len 0"

partial_function (option) strcpy_loop :: "nat \<Rightarrow> nat \<Rightarrow> mem \<Rightarrow> mem option" where
  "strcpy_loop p src m =
     (let c = m src; m = m(p := c) in
      if c \<noteq> 0 then strcpy_loop (p + 1) (src + 1) m else Some m)"

definition strcpy :: "nat \<Rightarrow> nat \<Rightarrow> mem \<Rightarrow> (nat \<times> mem) option" where
  "strcpy dst src m = do { m \<leftarrow> strcpy_loop dst src m; Some (dst, m) }"

fun strncpy_loop :: "nat \<Rightarrow> nat \<Rightarrow> nat \<Rightarrow> mem \<Rightarrow> mem" where
  "strncpy_loop p src 0 m = m"
| "strncpy_loop p src (Suc len) m =
     (let c = m src; m = m(p := c);
          src = (if c \<noteq> 0 then src + 1 else src)
      in strncpy_loop (p + 1) src len m)"

definition strncpy :: "nat \<Rightarrow> nat \<Rightarrow> nat \<Rightarrow> mem \<Rightarrow> nat \<times> mem" where
  "strncpy dst src len m = (dst, strncpy_loop dst src len m)"

definition strcat :: "nat \<Rightarrow> nat \<Rightarrow> mem \<Rightarrow> (nat \<times> mem) option" where
  "strcat dst src m = do { n \<leftarrow> strlen m dst; strcpy (dst + n) src m }"

partial_function (option) strcmp :: "mem \<Rightarrow> nat \<Rightarrow> nat \<Rightarrow> int option" where
  "strcmp m s1 s2 =
     (if m s1 \<noteq> 0 \<and> m s1 = m s2 then strcmp m (s1 + 1) (s2 + 1)
      else Some (uint (m s1) - uint (m s2)))"

fun strncmp :: "mem \<Rightarrow> nat \<Rightarrow> nat \<Rightarrow> nat \<Rightarrow> int" where
  "strncmp m s1 s2 0 = 0"
| "strncmp m s1 s2 (Suc n) =
     (if m s1 \<noteq> 0 \<and> m s1 = m s2 then strncmp m (s1 + 1) (s2 + 1) n
      else uint (m s1) - uint (m s2))"

partial_function (option) strchr :: "mem \<Rightarrow> nat \<Rightarrow> byte \<Rightarrow> nat option option" where
  "strchr m s c =
     (if m s \<noteq> 0 then (if m s = c then Some (Some s) else strchr m (s + 1) c) else Some None)"

partial_function (option) strfind :: "mem \<Rightarrow> nat \<Rightarrow> byte \<Rightarrow> nat option" where
  "strfind m s c =
     (if m s \<noteq> 0 then (if m s = c then Some s else strfind m (s + 1) c) else Some s)"

fun memset :: "nat \<Rightarrow> byte \<Rightarrow> nat \<Rightarrow> mem \<Rightarrow> mem" where
  "memset p c 0 m = m"
| "memset p c (Suc n) m = memset (p + 1) c n (m(p := c))"

text \<open>The two loops of \<open>memmove\<close>: upwards, and downwards from one past the end.\<close>

fun copy_up :: "nat \<Rightarrow> nat \<Rightarrow> nat \<Rightarrow> mem \<Rightarrow> mem" where
  "copy_up d s 0 m = m"
| "copy_up d s (Suc n) m = copy_up (d + 1) (s + 1) n (m(d := m s))"

fun copy_down :: "nat \<Rightarrow> nat \<Rightarrow> nat \<Rightarrow> mem \<Rightarrow> mem" where
  "copy_down d s 0 m = m"
| "copy_down d s (Suc n) m = (let s = s - 1; d = d - 1 in copy_down d s n (m(d := m s)))"

definition memmove :: "nat \<Rightarrow> nat \<Rightarrow> nat \<Rightarrow> mem \<Rightarrow> mem" where
  "memmove dst src n m =
     (if src < dst \<and> src + n > dst then copy_down (dst + n) (src + n) n m
      else copy_up dst src n m)"

definition memcpy :: "nat \<Rightarrow> nat \<Rightarrow> nat \<Rightarrow> mem \<Rightarrow> mem" where
  "memcpy dst src n m = copy_up dst src n m"

fun memcmp :: "mem \<Rightarrow> nat \<Rightarrow> nat \<Rightarrow> nat \<Rightarrow> int" where
  "memcmp m s1 s2 0 = 0"
| "memcmp m s1 s2 (Suc n) =
     (if m s1 \<noteq> m s2 then uint (m s1) - uint (m s2) else memcmp m (s1 + 1) (s2 + 1) n)"

text \<open>\<open>kmalloc\<close> is given by the block it returns (\<open>None\<close> is \<open>NULL\<close>).\<close>

definition strdup :: "nat option \<Rightarrow> nat \<Rightarrow> mem \<Rightarrow> (nat option \<times> mem) option" where
  "strdup blk src m = do {
     len \<leftarrow> strlen m src;
     (case blk of
        None \<Rightarrow> Some (None, m)
      | Some dst \<Rightarrow> let m = memcpy dst src len m in Some (Some dst, m(dst + len := 0)))
   }"

definition stradd :: "nat option \<Rightarrow> nat \<Rightarrow> nat \<Rightarrow> mem \<Rightarrow> (nat option \<times> mem) option" where
  "stradd blk src1 src2 m = do {
     len1 \<leftarrow> strlen m src1;
     len2 \<leftarrow> strlen m src2;
     (case blk of
        None \<Rightarrow> Some (None, m)
      | Some ret \<Rightarrow>
          let m = memcpy ret src1 len1 m; dst = ret + len1;
              m = memcpy dst src2 len2 m; dst = dst + len2
          in Some (Some ret, m(dst := 0)))
   }"

subsection \<open>\<open>strtol\<close>\<close>

definition chr :: "nat \<Rightarrow> byte" where "chr n = word_of_nat n"

partial_function (option) skip_blanks :: "mem \<Rightarrow> nat \<Rightarrow> nat option" where
  "skip_blanks m s = (if m s = 32 \<or> m s = 9 then skip_blanks m (s + 1) else Some s)"

text \<open>The value of a digit character, \<open>None\<close> for another character.\<close>

definition digit_val :: "byte \<Rightarrow> int option" where
  "digit_val c =
     (if 48 \<le> c \<and> c \<le> 57 then Some (uint c - 48)
      else if 97 \<le> c \<and> c \<le> 122 then Some (uint c - 97 + 10)
      else if 65 \<le> c \<and> c \<le> 90 then Some (uint c - 65 + 10)
      else None)"

partial_function (option) strtol_digits :: "mem \<Rightarrow> nat \<Rightarrow> int \<Rightarrow> 64 word \<Rightarrow> (nat \<times> 64 word) option" where
  "strtol_digits m s base val =
     (case digit_val (m s) of
        None \<Rightarrow> Some (s, val)
      | Some dig \<Rightarrow>
          if dig \<ge> base then Some (s, val)
          else strtol_digits m (s + 1) base (val * word_of_int base + word_of_int dig))"

definition strtol_prefix :: "mem \<Rightarrow> nat \<Rightarrow> int \<Rightarrow> nat \<times> int" where
  "strtol_prefix m s base =
     (if (base = 0 \<or> base = 16) \<and> (m s = 48 \<and> m (s + 1) = 120) then (s + 2, 16)
      else if base = 0 \<and> m s = 48 then (s + 1, 8)
      else if base = 0 then (s, 10)
      else (s, base))"

text \<open>The result is the value and the end pointer.\<close>

definition strtol :: "mem \<Rightarrow> nat \<Rightarrow> int \<Rightarrow> (64 word \<times> nat) option" where
  "strtol m s base = do {
     s \<leftarrow> skip_blanks m s;
     let (neg, s) = (if m s = 43 then (False, s + 1) else if m s = 45 then (True, s + 1) else (False, s));
     let (s, base) = strtol_prefix m s base;
     (s, val) \<leftarrow> strtol_digits m s base 0;
     Some (if neg then - val else val, s)
   }"

subsection \<open>Hash and random numbers\<close>

definition GOLDEN_RATIO_PRIME_32 :: "64 word" where "GOLDEN_RATIO_PRIME_32 = 0x9e370001"

definition hash32 :: "32 word \<Rightarrow> nat \<Rightarrow> 32 word" where
  "hash32 v bits =
     (let hash = (ucast (ucast v * GOLDEN_RATIO_PRIME_32) :: 32 word)
      in drop_bit (32 - bits) hash)"

definition RAND_MAX :: nat where "RAND_MAX = 2147483647"

text \<open>
  \<open>do_div(n, base)\<close> does not put its argument in parentheses: \<open>do_div(result, RAND_MAX + 1)\<close> is
  \<open>result % (unsigned)RAND_MAX + 1\<close>.
\<close>

definition rand :: "64 word \<Rightarrow> nat \<times> 64 word" where
  "rand nx =
     (let nx = (nx * 0x5DEECE66D + 0xB) AND (push_bit 48 1 - 1);
          result = drop_bit 12 nx
      in (unat (result mod word_of_nat RAND_MAX + 1), nx))"

definition srand :: "32 word \<Rightarrow> 64 word" where
  "srand seed = ucast seed"

section \<open>C strings\<close>

definition cstr :: "mem \<Rightarrow> nat \<Rightarrow> byte list \<Rightarrow> bool" where
  "cstr m s xs \<longleftrightarrow> 0 \<notin> set xs \<and> (\<forall>i < length xs. m (s + i) = xs ! i) \<and> m (s + length xs) = 0"

lemma cstr_Nil [simp]: "cstr m s [] \<longleftrightarrow> m s = 0"
  by (simp add: cstr_def)

lemma cstr_Cons [simp]: "cstr m s (x # xs) \<longleftrightarrow> x \<noteq> 0 \<and> m s = x \<and> cstr m (s + 1) xs"
proof -
  have "(\<forall>i < length (x # xs). m (s + i) = (x # xs) ! i)
      \<longleftrightarrow> m s = x \<and> (\<forall>i < length xs. m (s + 1 + i) = xs ! i)"
    by (simp add: All_less_Suc2)
  then show ?thesis unfolding cstr_def by auto
qed

lemma cstr_frame: "cstr m s xs \<Longrightarrow> (\<And>i. i \<le> length xs \<Longrightarrow> m' (s + i) = m (s + i)) \<Longrightarrow> cstr m' s xs"
  unfolding cstr_def by auto

lemma strlen_loop_ok: "cstr m s xs \<Longrightarrow> strlen_loop m s cnt = Some (cnt + length xs)"
  by (induction xs arbitrary: s cnt) (simp_all add: strlen_loop.simps)

lemma strlen_ok: "cstr m s xs \<Longrightarrow> strlen m s = Some (length xs)"
  by (simp add: strlen_def strlen_loop_ok)

lemma strnlen_loop_ok:
  "cstr m s xs \<Longrightarrow> cnt \<le> len \<Longrightarrow> strnlen_loop m s len cnt = min len (cnt + length xs)"
  by (induction xs arbitrary: s cnt) (simp_all add: strnlen_loop.simps)

lemma strcpy_loop_ok:
  "cstr m s xs \<Longrightarrow> p + length xs < s \<or> s + length xs < p \<Longrightarrow>
   \<exists>m'. strcpy_loop p s m = Some m' \<and> cstr m' p xs
     \<and> (\<forall>a. \<not> (p \<le> a \<and> a \<le> p + length xs) \<longrightarrow> m' a = m a)"
proof (induction xs arbitrary: s p m)
  case Nil
  then show ?case by (simp add: strcpy_loop.simps)
next
  case (Cons x xs)
  let ?m = "m(p := x)"
  have "cstr ?m (s + 1) xs"
    by (rule cstr_frame [of m]) (use Cons.prems in auto)
  moreover have "(p + 1) + length xs < s + 1 \<or> (s + 1) + length xs < p + 1"
    using Cons.prems(2) by auto
  ultimately obtain m' where m': "strcpy_loop (p + 1) (s + 1) ?m = Some m'" "cstr m' (p + 1) xs"
    "\<forall>a. \<not> (p + 1 \<le> a \<and> a \<le> p + 1 + length xs) \<longrightarrow> m' a = ?m a"
    using Cons.IH by blast
  have "m' p = x" using m'(3) by simp
  moreover have "strcpy_loop p s m = Some m'"
    using Cons.prems(1) m'(1) by (subst strcpy_loop.simps) (simp add: Let_def)
  ultimately show ?case using Cons.prems(1) m' by (intro exI [of _ m']) auto
qed

lemma strcmp_ok:
  "cstr m s xs \<Longrightarrow> cstr m t ys \<Longrightarrow>
   \<exists>r. strcmp m s t = Some r \<and> (r = 0 \<longleftrightarrow> xs = ys) \<and> (r < 0 \<longleftrightarrow> ord_class.lexordp xs ys)"
proof (induction xs arbitrary: s t ys)
  case Nil
  then show ?case
    by (cases ys) (auto simp: strcmp.simps [of m s t] uint_0_iff word_neq_0_conv word_less_def)
next
  case (Cons x xs)
  show ?case
  proof (cases ys)
    case Nil
    then show ?thesis using Cons.prems
      by (auto simp: strcmp.simps [of m s t] uint_0_iff)
  next
    case [simp]: (Cons y ys')
    show ?thesis
    proof (cases "x = y")
      case True
      then show ?thesis using Cons.prems Cons.IH [of "s + 1" "t + 1" ys']
        by (subst strcmp.simps) auto
    next
      case False
      then have "uint x \<noteq> uint y" by (simp add: word_uint_eq_iff)
      then show ?thesis using Cons.prems False
        by (subst strcmp.simps) (auto simp: word_less_def)
    qed
  qed
qed

text \<open>\<open>memmove\<close> copies correctly in both directions whatever the overlap.\<close>

lemma copy_up_ok:
  "d \<le> s \<or> s + n \<le> d \<Longrightarrow>
   copy_up d s n m a = (if d \<le> a \<and> a < d + n then m (s + (a - d)) else m a)"
proof (induction n arbitrary: d s m)
  case (Suc n)
  have "d + 1 \<le> s + 1 \<or> (s + 1) + n \<le> d + 1" using Suc.prems by auto
  note ih = Suc.IH [OF this]
  have "copy_up d s (Suc n) m a
      = (if d + 1 \<le> a \<and> a < d + 1 + n then (m(d := m s)) (s + 1 + (a - (d + 1))) else (m(d := m s)) a)"
    unfolding copy_up.simps by (rule ih)
  moreover have "Suc (s + a - Suc d) = s + a - d" if "Suc d \<le> a" using that by simp
  ultimately show ?case using Suc.prems by (cases "a = d") auto
qed auto

lemma copy_down_ok:
  "s \<le> d \<Longrightarrow> copy_down (d + n) (s + n) n m a = (if d \<le> a \<and> a < d + n then m (s + (a - d)) else m a)"
proof (induction n arbitrary: m)
  case (Suc n)
  have "copy_down (d + Suc n) (s + Suc n) (Suc n) m a
      = (if d \<le> a \<and> a < d + n then (m(d + n := m (s + n))) (s + (a - d)) else (m(d + n := m (s + n))) a)"
    using Suc.IH [OF Suc.prems] by (simp only: copy_down.simps Let_def add_Suc_right diff_Suc_1)
  then show ?case using Suc.prems by (cases "a = d + n") auto
qed auto

lemma memmove_ok:
  "memmove dst src n m a = (if dst \<le> a \<and> a < dst + n then m (src + (a - dst)) else m a)"
proof (cases "src < dst \<and> src + n > dst")
  case True
  then show ?thesis unfolding memmove_def using copy_down_ok [of src dst n m a] by simp
next
  case False
  then have "dst \<le> src \<or> src + n \<le> dst" by auto
  from copy_up_ok [OF this, of m a] show ?thesis unfolding memmove_def if_not_P [OF False] .
qed

lemma memset_ok: "memset p c n m a = (if p \<le> a \<and> a < p + n then c else m a)"
  by (induction n arbitrary: p m) auto

lemma hash32_ok: "bits \<le> 32 \<Longrightarrow> unat (hash32 v bits) < 2 ^ bits"
proof -
  assume b: "bits \<le> 32"
  let ?h = "ucast (ucast v * GOLDEN_RATIO_PRIME_32) :: 32 word"
  have "unat ?h < 2 ^ LENGTH(32)" by (rule unsigned_less)
  also have "(2 :: nat) ^ LENGTH(32) = 2 ^ bits * 2 ^ (32 - bits)"
    using b by (simp flip: power_add)
  finally have "unat ?h div 2 ^ (32 - bits) < 2 ^ bits" by (simp add: less_mult_imp_div_less)
  then show ?thesis unfolding hash32_def Let_def unat_drop_bit_eq by (simp add: drop_bit_eq_div)
qed

lemma rand_ok: "1 \<le> fst (rand nx) \<and> fst (rand nx) \<le> RAND_MAX"
proof -
  obtain r :: "64 word" and nx' where r: "rand nx = (unat (r mod word_of_nat RAND_MAX + 1), nx')"
    by (simp add: rand_def Let_def)
  have m: "unat (word_of_nat RAND_MAX :: 64 word) = RAND_MAX" by (simp add: RAND_MAX_def)
  have "unat (r mod word_of_nat RAND_MAX) = unat r mod RAND_MAX" by (simp add: unat_mod m)
  also have "\<dots> < RAND_MAX" by (simp add: RAND_MAX_def)
  finally have lt: "unat (r mod word_of_nat RAND_MAX) < RAND_MAX" .
  have "unat (r mod word_of_nat RAND_MAX + 1) = unat (r mod word_of_nat RAND_MAX) + 1"
    using unat_add_lem [of "r mod word_of_nat RAND_MAX" 1] lt by (simp add: RAND_MAX_def)
  then show ?thesis using r lt by simp
qed

section \<open>Parsing numbers\<close>

text \<open>The value of a sequence of digit characters.\<close>

fun num_val :: "int \<Rightarrow> byte list \<Rightarrow> int \<Rightarrow> int" where
  "num_val base [] acc = acc"
| "num_val base (c # cs) acc = num_val base cs (acc * base + the (digit_val c))"

definition is_digits :: "int \<Rightarrow> byte list \<Rightarrow> bool" where
  "is_digits base cs \<longleftrightarrow> (\<forall>c \<in> set cs. \<exists>d. digit_val c = Some d \<and> d < base)"

lemma digit_val_nonneg: "digit_val c = Some d \<Longrightarrow> 0 \<le> d"
  by (auto simp: digit_val_def word_le_def split: if_splits)

lemma digit_val_0 [simp]: "digit_val 0 = None"
  by (simp add: digit_val_def)

lemma strtol_digits_ok:
  "is_digits base cs \<Longrightarrow> \<forall>i < length cs. m (s + i) = cs ! i \<Longrightarrow> digit_val (m (s + length cs)) = None \<Longrightarrow>
   strtol_digits m s base (word_of_int acc) = Some (s + length cs, word_of_int (num_val base cs acc))"
proof (induction cs arbitrary: s acc)
  case Nil
  then show ?case by (simp add: strtol_digits.simps [of m s])
next
  case (Cons c cs)
  obtain d where d: "digit_val c = Some d" "d < base" using Cons.prems(1) by (auto simp: is_digits_def)
  have c: "m s = c" using Cons.prems(2) by (metis add.right_neutral length_greater_0_conv list.simps(3) nth_Cons_0)
  have "\<forall>i < length cs. m (s + 1 + i) = cs ! i"
    using Cons.prems(2) by (simp add: All_less_Suc2)
  then have "strtol_digits m (s + 1) base (word_of_int (acc * base + d))
      = Some (s + 1 + length cs, word_of_int (num_val base cs (acc * base + d)))"
    using Cons.IH [of "s + 1" "acc * base + d"] Cons.prems(1,3) by (simp add: is_digits_def)
  then show ?case using d c by (subst strtol_digits.simps) simp
qed

text \<open>\<open>strtol\<close> on a string of digits of the base, with an optional minus sign.\<close>

lemma strtol_ok:
  assumes "is_digits base cs" "cs \<noteq> []" "1 < base" "cstr m s cs" "\<not> (base = 16 \<and> m s = 48 \<and> m (s + 1) = 120)"
  shows "strtol m s base = Some (word_of_int (num_val base cs 0), s + length cs)"
proof -
  have at: "\<forall>i < length cs. m (s + i) = cs ! i" "m (s + length cs) = 0" using assms(4) by (auto simp: cstr_def)
  have h: "m s = hd cs" using at(1) assms(2) by (cases cs) (auto dest: spec [of _ 0])
  then obtain d where d: "digit_val (m s) = Some d" using assms(1,2) by (cases cs) (auto simp: is_digits_def)
  then have n: "m s \<noteq> 32" "m s \<noteq> 9" "m s \<noteq> 43" "m s \<noteq> 45" by (auto simp: digit_val_def)
  have "skip_blanks m s = Some s" using n by (subst skip_blanks.simps) simp
  moreover have "strtol_prefix m s base = (s, base)"
    using assms(3,5) by (auto simp: strtol_prefix_def)
  ultimately show ?thesis
    using strtol_digits_ok [OF assms(1) at(1), of 0] at(2) n by (simp add: strtol_def)
qed

section \<open>Properties of the string routines\<close>

text \<open>
  \<open>memmove\<close> copies the block as it was before the call, whatever the overlap of source and
  destination and in whichever direction its loop runs, and changes no other byte.
\<close>

lemma memmove_correct:
  "memmove dst src n m = (\<lambda>a. if dst \<le> a \<and> a < dst + n then m (src + (a - dst)) else m a)"
  by (rule ext) (rule memmove_ok)

text \<open>
  On two C strings \<open>strcmp\<close> returns; the result is 0 exactly for equal strings and negative
  exactly when the first is lexicographically smaller by unsigned characters.
\<close>

lemma strcmp_correct:
  assumes "cstr m s xs" "cstr m t ys"
  shows "\<exists>r. strcmp m s t = Some r \<and> (r = 0 \<longleftrightarrow> xs = ys) \<and> (r < 0 \<longleftrightarrow> ord_class.lexordp xs ys)"
  using assms by (rule strcmp_ok)

lemma strcmp_correct_witness:
  "\<exists>r. strcmp ((\<lambda>_. 0)(1 := 97, 10 := 200)) 1 10 = Some r \<and> r < 0"
  using strcmp_correct [of "(\<lambda>_. 0)(1 := 97, 10 := 200)" 1 "[97]" 10 "[200]"] by auto

text \<open>
  \<open>rand\<close> returns a value between 1 and \<open>RAND_MAX\<close> in every state of the generator; it never
  returns 0.
\<close>

lemma rand_range: "1 \<le> fst (rand nx) \<and> fst (rand nx) \<le> RAND_MAX"
  by (rule rand_ok)

end
