(* ===== verification/Printfmt.thy ===== *)
theory Printfmt
  imports Libs_String
begin

text \<open>
  Formatted output, \<open>libs/printfmt.c\<close>.  The characters handed to \<open>putch\<close> are collected in a list
  of bytes.  A format is the list of its characters before the terminator; an argument is a
  64-bit word (narrower integer arguments are read from its low bits) or a string.  \<open>None\<close> stands
  for a format that asks for an argument that is not there.  The two loops of \<open>vprintfmt\<close> are two
  mutually recursive functions: \<open>vp_outer\<close> copies literal text, \<open>vp_inner\<close> is the \<open>switch\<close> with its
  \<open>goto reswitch\<close>; \<open>pre\<close> is what the escape has read since its percent sign, which the default branch
  steps back over.  \<open>printfmt\<close> on the two fixed formats of \<open>%e\<close> is written out.  The \<open>int\<close> variables wrap
  around at 32 bits, and addresses at 64.
\<close>

datatype arg = AInt "64 word" | AStr "byte list option"

definition str :: "string \<Rightarrow> byte list" where
  "str s = map of_char s"

text \<open>What a pointer holds after an addition.\<close>

definition addr64 :: "nat \<Rightarrow> nat" where "addr64 a = a mod 2 ^ 64"

section \<open>Numbers\<close>

text \<open>\<open>base\<close> is 8, 10 or 16 at every call; the guard \<open>1 < base\<close> makes the recursion total.\<close>

function printnum :: "nat \<Rightarrow> nat \<Rightarrow> int \<Rightarrow> byte \<Rightarrow> byte list" where
  "printnum num base width padc =
     (let result = num div base; md = num mod base in
      (if num \<ge> base \<and> 1 < base then printnum result base (int32 (width - 1)) padc
       else replicate (nat (int32 (width - 1))) padc)
      @ [str ''0123456789abcdef'' ! md])"
  by pat_completeness auto
termination by (relation "measure (\<lambda>(n, _, _, _). n)") auto

declare printnum.simps [simp del]

definition getuint :: "64 word \<Rightarrow> nat \<Rightarrow> nat" where
  "getuint a lflag = (if lflag \<ge> 1 then unat a else unat (ucast a :: 32 word))"

definition getint :: "64 word \<Rightarrow> nat \<Rightarrow> int" where
  "getint a lflag = (if lflag \<ge> 1 then sint a else sint (ucast a :: 32 word))"

definition MAXERROR :: int where "MAXERROR = 24"

definition error_string :: "int \<Rightarrow> byte list option" where
  "error_string e = map_of
     [(1, str ''unspecified error''), (2, str ''bad process''), (3, str ''invalid parameter''),
      (4, str ''out of memory''), (5, str ''out of processes''), (6, str ''segmentation fault''),
      (8, str ''invalid elf file''), (9, str ''process is killed''), (10, str ''panic failure''),
      (13, str ''no such device''), (14, str ''device not available''),
      (15, str ''device/file is busy''), (16, str ''no such file or directory''),
      (17, str ''is a directory''), (18, str ''not a directory''), (19, str ''cross device link''),
      (20, str ''unimplemented feature''), (21, str ''illegal seek''),
      (22, str ''too many files are open''), (23, str ''file or directory already exists''),
      (24, str ''directory is not empty'')] e"

section \<open>The conversions\<close>

text \<open>The character loop of \<open>%s\<close>: it returns the output and the remaining width.\<close>

fun put_chars :: "byte list \<Rightarrow> int \<Rightarrow> int \<Rightarrow> bool \<Rightarrow> byte list \<times> int" where
  "put_chars [] precision width altflag = ([], width)"
| "put_chars (ch # p) precision width altflag =
     (if precision < 0 \<or> precision - 1 \<ge> 0 then
        let c = (if altflag \<and> (ch < 32 \<or> ch > 126) then 63 else ch);
            (out, w) = put_chars p (if precision < 0 then precision else precision - 1) (int32 (width - 1)) altflag
        in (c # out, w)
      else ([], width))"

definition put_string :: "byte list \<Rightarrow> byte \<Rightarrow> int \<Rightarrow> int \<Rightarrow> bool \<Rightarrow> byte list" where
  "put_string p padc width precision altflag =
     (let n = (if precision < 0 then length p else min (nat precision) (length p));
          (pad, width) =
            (if width > 0 \<and> padc \<noteq> 45
             then let w = int32 (width - int n) in (replicate (nat w) padc, min w 0)
             else ([], width));
          (out, width) = put_chars p precision width altflag
      in pad @ out @ replicate (nat width) 32)"

definition put_int :: "int \<Rightarrow> int \<Rightarrow> byte \<Rightarrow> byte list" where
  "put_int num width padc =
     (if num < 0 then 45 # printnum (nat (- num)) 10 width padc
      else printnum (nat num) 10 width padc)"

definition put_error :: "int \<Rightarrow> byte list" where
  "put_error err =
     (let err = (if err < 0 then int32 (- err) else err) in
      if err > MAXERROR \<or> error_string err = None
      then str ''error '' @ put_int err (-1) 32
      else put_string (the (error_string err)) 32 (-1) (-1) False)"

text \<open>The digits of a width field after the first: the value, what was read, and the rest.\<close>

fun num_field :: "int \<Rightarrow> byte list \<Rightarrow> int \<times> byte list \<times> byte list" where
  "num_field precision [] = (precision, [], [])"
| "num_field precision (ch # fmt) =
     (if ch < 48 \<or> ch > 57 then (precision, [], ch # fmt)
      else let (p, used, rest) = num_field (int32 (precision * 10 + (uint ch - 48))) fmt
           in (p, ch # used, rest))"

lemma num_field_append: "num_field p f = (q, used, rest) \<Longrightarrow> f = used @ rest"
  by (induction p f arbitrary: q used rest rule: num_field.induct)
    (auto split: if_splits prod.splits)

definition process_precision :: "int \<Rightarrow> int \<Rightarrow> int \<times> int" where
  "process_precision width precision =
     (if width < 0 then (precision, -1) else (width, precision))"

definition percents :: "byte list \<Rightarrow> nat" where
  "percents f = length (filter (\<lambda>c. c = 37) f)"

lemma percents_simps [simp]:
  "percents [] = 0" "percents (c # f) = (if c = 37 then Suc (percents f) else percents f)"
  "percents (f @ g) = percents f + percents g"
  by (simp_all add: percents_def)

section \<open>\<open>vprintfmt\<close>\<close>

function vp_outer :: "byte list \<Rightarrow> arg list \<Rightarrow> byte list option"
  and vp_inner :: "byte list \<Rightarrow> byte list \<Rightarrow> arg list \<Rightarrow> byte \<Rightarrow> int \<Rightarrow> int \<Rightarrow> nat \<Rightarrow> bool
    \<Rightarrow> byte list option" where
  "vp_outer fmt ap =
     (case fmt of
        [] \<Rightarrow> Some []
      | ch # fmt \<Rightarrow>
          if ch \<noteq> 37 then map_option (\<lambda>out. ch # out) (vp_outer fmt ap)
          else vp_inner [] fmt ap 32 (-1) (-1) 0 False)"
| "vp_inner pre fmt ap padc width precision lflag altflag =
     (case fmt of
        [] \<Rightarrow> map_option (\<lambda>out. 37 # out) (vp_outer (pre @ fmt) ap)
      | ch # rest \<Rightarrow>
          if ch = 45 then vp_inner (pre @ [ch]) rest ap 45 width precision lflag altflag
          else if ch = 48 then vp_inner (pre @ [ch]) rest ap 48 width precision lflag altflag
          else if 49 \<le> ch \<and> ch \<le> 57 then
            (let (p, used, rest') = num_field (uint ch - 48) rest;
                 (w, p) = process_precision width p
             in vp_inner (pre @ ch # used) rest' ap padc w p lflag altflag)
          else if ch = 42 then
            (case ap of
               AInt a # ap' \<Rightarrow>
                 (let (w, p) = process_precision width (sint (ucast a :: 32 word))
                  in vp_inner (pre @ [ch]) rest ap' padc w p lflag altflag)
             | _ \<Rightarrow> None)
          else if ch = 46 then
            vp_inner (pre @ [ch]) rest ap padc (if width < 0 then 0 else width) precision lflag altflag
          else if ch = 35 then vp_inner (pre @ [ch]) rest ap padc width precision lflag True
          else if ch = 108 then vp_inner (pre @ [ch]) rest ap padc width precision (lflag + 1) altflag
          else if ch = 99 then
            (case ap of
               AInt a # ap' \<Rightarrow> map_option (\<lambda>out. ucast a # out) (vp_outer rest ap')
             | _ \<Rightarrow> None)
          else if ch = 101 then
            (case ap of
               AInt a # ap' \<Rightarrow>
                 map_option (\<lambda>out. put_error (sint (ucast a :: 32 word)) @ out) (vp_outer rest ap')
             | _ \<Rightarrow> None)
          else if ch = 115 then
            (case ap of
               AStr a # ap' \<Rightarrow>
                 (let p = (case a of None \<Rightarrow> str ''(null)'' | Some p \<Rightarrow> p)
                  in map_option (\<lambda>out. put_string p padc width precision altflag @ out) (vp_outer rest ap'))
             | _ \<Rightarrow> None)
          else if ch = 100 then
            (case ap of
               AInt a # ap' \<Rightarrow>
                 map_option (\<lambda>out. put_int (getint a lflag) width padc @ out) (vp_outer rest ap')
             | _ \<Rightarrow> None)
          else if ch = 117 then
            (case ap of
               AInt a # ap' \<Rightarrow>
                 map_option (\<lambda>out. printnum (getuint a lflag) 10 width padc @ out) (vp_outer rest ap')
             | _ \<Rightarrow> None)
          else if ch = 111 then
            (case ap of
               AInt a # ap' \<Rightarrow>
                 map_option (\<lambda>out. printnum (getuint a lflag) 8 width padc @ out) (vp_outer rest ap')
             | _ \<Rightarrow> None)
          else if ch = 112 then
            (case ap of
               AInt a # ap' \<Rightarrow>
                 map_option (\<lambda>out. str ''0x'' @ printnum (unat a) 16 width padc @ out) (vp_outer rest ap')
             | _ \<Rightarrow> None)
          else if ch = 120 then
            (case ap of
               AInt a # ap' \<Rightarrow>
                 map_option (\<lambda>out. printnum (getuint a lflag) 16 width padc @ out) (vp_outer rest ap')
             | _ \<Rightarrow> None)
          else if ch = 37 then map_option (\<lambda>out. ch # out) (vp_outer rest ap)
          else map_option (\<lambda>out. 37 # out) (vp_outer (pre @ fmt) ap))"
  by pat_completeness auto
termination
  by (relation "measures
      [\<lambda>x. (case x of Inl (f, _) \<Rightarrow> percents f | Inr (pre, f, _) \<Rightarrow> percents (pre @ f)),
       \<lambda>x. (case x of Inl _ \<Rightarrow> 0 | Inr _ \<Rightarrow> 1),
       \<lambda>x. (case x of Inl (f, _) \<Rightarrow> length f | Inr (pre, f, _) \<Rightarrow> length f)]")
    (auto dest!: num_field_append [OF sym])

declare vp_outer.simps [simp del] vp_inner.simps [simp del]

definition vprintfmt :: "byte list \<Rightarrow> arg list \<Rightarrow> byte list option" where
  "vprintfmt fmt ap = vp_outer fmt ap"

definition printfmt :: "byte list \<Rightarrow> arg list \<Rightarrow> byte list option" where
  "printfmt fmt ap = vprintfmt fmt ap"

section \<open>Printing into a buffer\<close>

record sprintbuf =
  sb_buf :: nat
  sb_ebuf :: nat
  sb_cnt :: int

definition sprintputch :: "byte \<Rightarrow> sprintbuf \<times> mem \<Rightarrow> sprintbuf \<times> mem" where
  "sprintputch ch bm =
     (let (b, m) = bm; b = b\<lparr>sb_cnt := int32 (sb_cnt b + 1)\<rparr> in
      if sb_buf b < sb_ebuf b then (b\<lparr>sb_buf := addr64 (sb_buf b + 1)\<rparr>, m(sb_buf b := ch)) else (b, m))"

fun put_all :: "byte list \<Rightarrow> sprintbuf \<times> mem \<Rightarrow> sprintbuf \<times> mem" where
  "put_all [] bm = bm"
| "put_all (c # cs) bm = put_all cs (sprintputch c bm)"

text \<open>\<open>str\<close> at address \<open>dst\<close> (0 is \<open>NULL\<close>); \<open>Inl\<close> is the error, the outer \<open>None\<close> a missing argument.\<close>

definition vsnprintf ::
  "nat \<Rightarrow> nat \<Rightarrow> byte list \<Rightarrow> arg list \<Rightarrow> mem \<Rightarrow> ((errno + int) \<times> mem) option" where
  "vsnprintf dst sz fmt ap m =
     (let b = \<lparr>sb_buf = dst, sb_ebuf = addr64 (dst + sz + (2 ^ 64 - 1)), sb_cnt = 0\<rparr> in
      if dst = 0 \<or> sb_buf b > sb_ebuf b then Some (Inl E_INVAL, m)
      else
        (case vprintfmt fmt ap of
           None \<Rightarrow> None
         | Some out \<Rightarrow> let (b, m) = put_all out (b, m) in Some (Inr (sb_cnt b), m(sb_buf b := 0))))"

definition snprintf ::
  "nat \<Rightarrow> nat \<Rightarrow> byte list \<Rightarrow> arg list \<Rightarrow> mem \<Rightarrow> ((errno + int) \<times> mem) option" where
  "snprintf dst sz fmt ap m = vsnprintf dst sz fmt ap m"

section \<open>Lemmas on numbers\<close>

definition hexdigit :: "nat \<Rightarrow> byte" where
  "hexdigit d = str ''0123456789abcdef'' ! d"

lemma lt16_cases: "d < 16 \<Longrightarrow> d \<in> {0, 1, 2, 3, 4, 5, 6, 7, 8, 9, 10, 11, 12, 13, 14, 15}" for d :: nat
  by simp arith

lemma digit_val_hexdigit: "d < 16 \<Longrightarrow> digit_val (hexdigit d) = Some (int d)"
  by (drule lt16_cases) (auto simp: hexdigit_def str_def digit_val_def)

lemma hexdigit_nonzero: "d < 16 \<Longrightarrow> hexdigit d \<noteq> 0"
  by (drule lt16_cases) (auto simp: hexdigit_def str_def)

text \<open>The digits of a number, without padding.\<close>

function digits :: "nat \<Rightarrow> nat \<Rightarrow> byte list" where
  "digits num base =
     (if num \<ge> base \<and> 1 < base then digits (num div base) base else []) @ [hexdigit (num mod base)]"
  by pat_completeness auto
termination by (relation "measure (\<lambda>(n, _). n)") auto

declare digits.simps [simp del]

lemma digits_nonempty [simp]: "digits n b \<noteq> []"
  by (subst digits.simps) simp

lemma printnum_digits:
  "int (length (digits n b)) \<le> w + 2 ^ 31 \<Longrightarrow> w < 2 ^ 31 \<Longrightarrow>
     printnum n b w c = replicate (nat (w - int (length (digits n b)))) c @ digits n b"
proof (induction n b w c rule: printnum.induct)
  case (1 n b w c)
  have l: "1 \<le> length (digits n b)" by (simp add: Suc_leI)
  have w: "int32 (w - 1) = w - 1" by (rule int32_eq) (use 1(2,3) l in linarith)+
  show ?case
  proof (cases "n \<ge> b \<and> 1 < b")
    case True
    have p: "printnum n b w c = printnum (n div b) b (w - 1) c @ [hexdigit (n mod b)]"
      using True w by (subst printnum.simps) (simp add: hexdigit_def)
    have d: "digits n b = digits (n div b) b @ [hexdigit (n mod b)]"
      using True by (subst digits.simps) simp
    have "printnum (n div b) b (w - 1) c = replicate (nat (w - 1 - int (length (digits (n div b) b)))) c @ digits (n div b) b"
      using 1(1) [OF refl refl True] 1(2,3) w d by simp
    then show ?thesis unfolding p d by (simp add: algebra_simps)
  next
    case False
    then show ?thesis using w
      by (subst printnum.simps, subst (2) digits.simps, subst digits.simps) (auto simp: hexdigit_def Let_def)
  qed
qed

lemma num_val_append: "num_val b (xs @ ys) acc = num_val b ys (num_val b xs acc)"
  by (induction b xs acc rule: num_val.induct) auto

lemma digits_ok:
  "1 < b \<Longrightarrow> b \<le> 16 \<Longrightarrow> is_digits (int b) (digits n b) \<and> num_val (int b) (digits n b) 0 = int n
     \<and> 0 \<notin> set (digits n b)"
proof (induction n b rule: digits.induct)
  case (1 n b)
  have m: "n mod b < 16" using 1(2,3) by (meson less_le_trans mod_less_divisor zero_less_one less_trans)
  have mb: "n mod b < b" using 1(2) by simp
  show ?case
  proof (cases "n \<ge> b")
    case True
    then have d: "digits n b = digits (n div b) b @ [hexdigit (n mod b)]"
      using 1(2) by (subst digits.simps) simp
    have ih: "is_digits (int b) (digits (n div b) b)" "num_val (int b) (digits (n div b) b) 0 = int (n div b)"
      "0 \<notin> set (digits (n div b) b)"
      using 1(1) True 1(2,3) by auto
    have "int (n div b) * int b + int (n mod b) = int n"
      by (metis div_mult_mod_eq of_nat_add of_nat_mult)
    then show ?thesis
      using ih m mb digit_val_hexdigit [OF m] hexdigit_nonzero [OF m]
      by (auto simp: d is_digits_def num_val_append)
  next
    case False
    then have d: "digits n b = [hexdigit n]" by (subst digits.simps) simp
    then show ?thesis
      using False 1(3) digit_val_hexdigit [of n] hexdigit_nonzero [of n] by (simp add: is_digits_def)
  qed
qed

lemma digits_no_leading_zero: "1 < b \<Longrightarrow> b \<le> 16 \<Longrightarrow> n > 0 \<Longrightarrow> digit_val (hd (digits n b)) \<noteq> Some 0"
proof (induction n b rule: digits.induct)
  case (1 n b)
  show ?case
  proof (cases "n \<ge> b")
    case True
    then have "digits n b = digits (n div b) b @ [hexdigit (n mod b)]"
      using 1(2) by (subst digits.simps) simp
    moreover have "n div b > 0" using True 1(2) by (simp add: div_greater_zero_iff)
    ultimately show ?thesis using 1(1) True 1(2,3) by auto
  next
    case False
    then have "digits n b = [hexdigit n]" by (subst digits.simps) simp
    then show ?thesis using False 1(3,4) digit_val_hexdigit [of n] by simp
  qed
qed

section \<open>Lemmas on buffers\<close>

lemma put_all_ok:
  "sb_buf b \<le> sb_ebuf b \<Longrightarrow> sb_ebuf b < 2 ^ 64 \<Longrightarrow> sb_cnt b = int32 (sb_cnt b) \<Longrightarrow>
   \<exists>b' m'. put_all cs (b, m) = (b', m') \<and> sb_cnt b' = int32 (sb_cnt b + int (length cs))
     \<and> sb_ebuf b' = sb_ebuf b \<and> sb_buf b' = min (sb_ebuf b) (sb_buf b + length cs)
     \<and> (\<forall>a. m' a = (if sb_buf b \<le> a \<and> a < sb_buf b' then cs ! (a - sb_buf b) else m a))"
proof (induction cs arbitrary: b m)
  case Nil
  then show ?case by auto
next
  case (Cons c cs)
  show ?case
  proof (cases "sb_buf b < sb_ebuf b")
    case True
    let ?b = "b\<lparr>sb_cnt := int32 (sb_cnt b + 1), sb_buf := sb_buf b + 1\<rparr>"
    have "addr64 (sb_buf b + 1) = sb_buf b + 1" using True Cons.prems(2) by (simp add: addr64_def)
    then have s: "sprintputch c (b, m) = (?b, m(sb_buf b := c))"
      using True by (simp add: sprintputch_def Let_def)
    have pre: "sb_buf ?b \<le> sb_ebuf ?b" "sb_ebuf ?b < 2 ^ 64" "sb_cnt ?b = int32 (sb_cnt ?b)"
      using True Cons.prems(2) int32_add [of "sb_cnt b + 1" 0] by simp_all
    from Cons.IH [OF pre, of "m(sb_buf b := c)"] obtain b' m' where ih:
      "put_all cs (?b, m(sb_buf b := c)) = (b', m')" "sb_cnt b' = int32 (sb_cnt ?b + int (length cs))"
      "sb_ebuf b' = sb_ebuf ?b" "sb_buf b' = min (sb_ebuf ?b) (sb_buf ?b + length cs)"
      "\<forall>a. m' a = (if sb_buf ?b \<le> a \<and> a < sb_buf b' then cs ! (a - sb_buf ?b)
        else (m(sb_buf b := c)) a)"
      by blast
    have "m' a = (if sb_buf b \<le> a \<and> a < sb_buf b' then (c # cs) ! (a - sb_buf b) else m a)" for a
      using ih(4,5) True by (auto simp: nth_Cons' Suc_le_eq le_less)
    moreover have "sb_cnt b' = int32 (sb_cnt b + int (length (c # cs)))"
      using ih(2) int32_add [of "sb_cnt b + 1" "int (length cs)"] by (simp add: add.assoc)
    ultimately show ?thesis using ih(1,3,4) s by (intro exI [of _ b'] exI [of _ m']) auto
  next
    case False
    let ?b = "b\<lparr>sb_cnt := int32 (sb_cnt b + 1)\<rparr>"
    have s: "sprintputch c (b, m) = (?b, m)" using False by (simp add: sprintputch_def Let_def)
    have e: "sb_buf b = sb_ebuf b" using False Cons.prems by simp
    have pre: "sb_buf ?b \<le> sb_ebuf ?b" "sb_ebuf ?b < 2 ^ 64" "sb_cnt ?b = int32 (sb_cnt ?b)"
      using Cons.prems int32_add [of "sb_cnt b + 1" 0] by simp_all
    have "int32 (sb_cnt ?b + int (length cs)) = int32 (sb_cnt b + int (length (c # cs)))"
      using int32_add [of "sb_cnt b + 1" "int (length cs)"] by (simp add: add.assoc)
    with Cons.IH [OF pre, of m] show ?thesis using s e by auto
  qed
qed

section \<open>Properties of formatted output\<close>

text \<open>
  \<open>printnum\<close> prints exactly the canonical digits of the number in the base (no leading zero,
  value equal to the number), padded on the left to the width.
\<close>

lemma printnum_correct:
  assumes "1 < b" "b \<le> 16" "int (length (digits n b)) \<le> w + 2 ^ 31" "w < 2 ^ 31"
  shows "\<exists>ds. printnum n b w c = replicate (nat (w - int (length ds))) c @ ds \<and> ds \<noteq> []
     \<and> is_digits (int b) ds \<and> num_val (int b) ds 0 = int n
     \<and> (n > 0 \<longrightarrow> digit_val (hd ds) \<noteq> Some 0)"
  using printnum_digits [OF assms(3,4), of c] digits_ok [OF assms(1,2), of n] digits_no_leading_zero [OF assms(1,2), of n]
  by (intro exI [of _ "digits n b"]) auto

text \<open>
  Print, then parse: for every base up to 16, \<open>strtol\<close> reads back, modulo \<open>2 ^ 64\<close>, the number
  that \<open>printnum\<close> wrote without padding, and its end pointer is the terminator.
\<close>

lemma strtol_printnum_roundtrip:
  assumes "1 < b" "b \<le> 16" "w \<le> 1" "int (length (digits n b)) \<le> w + 2 ^ 31" "cstr m s (printnum n b w c)"
  shows "strtol m s (int b) = Some (word_of_nat n, s + length (printnum n b w c))"
proof -
  have ds: "printnum n b w c = digits n b"
  proof -
    have "length (digits n b) \<ge> 1" by (simp add: Suc_leI)
    then have "nat (w - int (length (digits n b))) = 0" using assms(3) by simp
    then show ?thesis using printnum_digits [OF assms(4)] assms(3) by simp
  qed
  note ok = digits_ok [OF assms(1,2), of n]
  have hex: "\<not> (int b = 16 \<and> m s = 48 \<and> m (s + 1) = 120)"
  proof
    assume h: "int b = 16 \<and> m s = 48 \<and> m (s + 1) = 120"
    have at: "\<forall>i < length (digits n b). m (s + i) = digits n b ! i" "m (s + length (digits n b)) = 0"
      using assms(5) ds by (auto simp: cstr_def)
    have "length (digits n b) \<noteq> 1" using at(2) h by auto
    then have "1 < length (digits n b)" by (metis digits_nonempty length_0_conv nat_neq_iff less_one)
    then have "120 \<in> set (digits n b)" using at(1) h by (metis nth_mem)
    then obtain d where "digit_val 120 = Some d" "d < int b" using ok by (auto simp: is_digits_def)
    then show False using assms(2) by (simp add: digit_val_def)
  qed
  have "strtol m s (int b) = Some (word_of_int (num_val (int b) (digits n b) 0), s + length (digits n b))"
    by (rule strtol_ok) (use assms ds ok hex in auto)
  then show ?thesis using ok ds by simp
qed

definition ex_mem :: mem where
  "ex_mem a = (if a = 100 then 52 else if a = 101 then 50 else 0)"

lemma printnum_42: "printnum 42 10 0 32 = [52, 50]"
  by (simp add: printnum.simps [of 42] printnum.simps [of 4] str_def int32_eq)

lemma strtol_printnum_roundtrip_witness: "strtol ex_mem 100 10 = Some (42, 102)"
proof -
  have "cstr ex_mem 100 (printnum 42 10 0 32)" unfolding printnum_42 by (simp add: ex_mem_def)
  moreover have "length (digits 42 10) = 2" by (simp add: digits.simps [of 42] digits.simps [of 4])
  ultimately show ?thesis using strtol_printnum_roundtrip [of 10 0 42 ex_mem 100 32] by (simp add: printnum_42)
qed

text \<open>
  C18. \<open>vsnprintf\<close> never writes outside the buffer.  It refuses with \<open>E_INVAL\<close>, and writes nothing, exactly
  when the buffer is \<open>NULL\<close>, empty or runs past the end of the address space; otherwise the bytes of the
  buffer hold the output cut to \<open>size - 1\<close> characters and a terminator, every other byte is unchanged,
  and the result is the length of the whole output as an \<open>int\<close>.
\<close>

theorem vsnprintf_bounds:
  assumes "dst < 2 ^ 64" "sz < 2 ^ 64" "vprintfmt fmt ap = Some out"
  shows "if dst = 0 \<or> sz = 0 \<or> 2 ^ 64 < dst + sz then vsnprintf dst sz fmt ap m = Some (Inl E_INVAL, m)
     else \<exists>m'. vsnprintf dst sz fmt ap m = Some (Inr (int32 (int (length out))), m')
       \<and> (\<forall>i < min (sz - 1) (length out). m' (dst + i) = out ! i)
       \<and> m' (dst + min (sz - 1) (length out)) = 0
       \<and> (\<forall>a. a < dst \<or> dst + sz \<le> a \<longrightarrow> m' a = m a)"
proof -
  define E where "E = addr64 (dst + sz + (2 ^ 64 - 1))"
  let ?b = "\<lparr>sb_buf = dst, sb_ebuf = E, sb_cnt = 0\<rparr>"
  have v: "vsnprintf dst sz fmt ap m = (if dst = 0 \<or> dst > E then Some (Inl E_INVAL, m)
      else (case put_all out (?b, m) of (b, m) \<Rightarrow> Some (Inr (sb_cnt b), m(sb_buf b := 0))))"
    unfolding vsnprintf_def E_def [symmetric] by (simp add: assms(3) Let_def)
  consider (null) "dst = 0" | (empty) "dst \<noteq> 0" "sz = 0" | (past) "dst \<noteq> 0" "sz \<noteq> 0" "2 ^ 64 < dst + sz"
    | (fits) "dst \<noteq> 0" "sz \<noteq> 0" "dst + sz \<le> 2 ^ 64" by linarith
  then show ?thesis
  proof cases
    case null
    then show ?thesis using v by simp
  next
    case empty
    then have "E = dst - 1" using assms(1) by (simp add: E_def addr64_def mod_if [of "dst + _"])
    then show ?thesis using empty v by simp
  next
    case past
    then have "E = dst + sz - 1 - 2 ^ 64" using assms(1,2) by (simp add: E_def addr64_def mod_if)
    then have "E < dst" using past assms(2) by simp
    then show ?thesis using past v by simp
  next
    case fits
    then have e: "E = dst + sz - 1" using assms(1) by (simp add: E_def addr64_def mod_if)
    have z: "int32 0 = 0" by (rule int32_eq) simp_all
    have pre: "sb_buf ?b \<le> sb_ebuf ?b" "sb_ebuf ?b < 2 ^ 64" "sb_cnt ?b = int32 (sb_cnt ?b)"
      using fits e z by simp_all
    from put_all_ok [OF pre, of out m] obtain b' m' where
      p: "put_all out (?b, m) = (b', m')" "sb_cnt b' = int32 (int (length out))"
        "sb_buf b' = dst + min (sz - 1) (length out)"
        "\<And>a. m' a = (if dst \<le> a \<and> a < sb_buf b' then out ! (a - dst) else m a)"
      using fits(2) by (auto simp: e)
    have "vsnprintf dst sz fmt ap m = Some (Inr (int32 (int (length out))), m'(sb_buf b' := 0))"
      using p(1,2) pre(1) fits(1) by (simp add: v)
    moreover have "a \<noteq> sb_buf b'" if "a < dst \<or> dst + sz \<le> a" for a using that p(3) fits(2) by auto
    moreover have "\<not> (dst = 0 \<or> sz = 0 \<or> 2 ^ 64 < dst + sz)" using fits by simp
    ultimately show ?thesis using p(3,4) fits(2) by (simp only: if_False, intro exI [of _ "m'(sb_buf b' := 0)"]) auto
  qed
qed

lemma vprintfmt_ex: "vprintfmt (str ''a%d'') [AInt 5] = Some (str ''a5'')"
  by (simp add: vprintfmt_def str_def vp_outer.simps vp_inner.simps getint_def put_int_def
      printnum.simps [of 5] int32_eq)

theorem vsnprintf_bounds_witness:
  "\<exists>m'. vsnprintf 100 2 (str ''a%d'') [AInt 5] (\<lambda>_. 7) = Some (Inr 2, m') \<and> m' 101 = 0 \<and> m' 102 = 7"
  using vsnprintf_bounds [OF _ _ vprintfmt_ex, of 100 2 "\<lambda>_. 7"] by (auto simp: str_def int32_eq)

text \<open>The left-justify flag fills with its own character on the left of a number.\<close>

lemma minus_flag_number: "vprintfmt (str ''%-4d'') [AInt 5] = Some (str ''---5'')"
  by code_simp

end
