(* ===== verification/Disk.thy ===== *)
theory Disk
  imports Libs_String "HOL-Library.Signed_Division"
begin

text \<open>
  I/O buffers (\<open>kern/fs/iobuf.c\<close>), the RAM disk (\<open>kern/driver/ramdisk.c\<close>, \<open>kern/driver/ide.c\<close>)
  and the block device \<open>disk0\<close> on it (\<open>kern/fs/devs/dev_disk0.c\<close>).  A buffer is an object of its
  own, a map from positions to bytes; a pointer into it is a position.  The scratch buffer
  \<open>disk0_buffer\<close> is an argument of the transfer loop.  32-bit block and sector numbers wrap as in
  the code; \<open>off_t\<close> is an integer, divided as C divides.
\<close>

section \<open>I/O buffers\<close>

record iobuf =
  io_obj :: mem
  io_base :: nat
  io_offset :: int
  io_len :: nat
  io_resid :: nat

definition iobuf_init :: "mem \<Rightarrow> nat \<Rightarrow> nat \<Rightarrow> int \<Rightarrow> iobuf" where
  "iobuf_init obj base len offset =
     \<lparr>io_obj = obj, io_base = base, io_offset = offset, io_len = len, io_resid = len\<rparr>"

definition iobuf_used :: "iobuf \<Rightarrow> nat" where
  "iobuf_used iob = io_len iob - io_resid iob"

definition iobuf_skip :: "iobuf \<Rightarrow> nat \<Rightarrow> iobuf option" where
  "iobuf_skip iob n = do {
     kassert (io_resid iob \<ge> n);
     Some (iob\<lparr>io_base := io_base iob + n, io_offset := io_offset iob + int n,
               io_resid := io_resid iob - n\<rparr>)
   }"

text \<open>\<open>memmove\<close> and \<open>memcpy\<close> between two distinct objects.\<close>

definition blit :: "mem \<Rightarrow> nat \<Rightarrow> mem \<Rightarrow> nat \<Rightarrow> nat \<Rightarrow> mem" where
  "blit dst d src s n = (\<lambda>i. if d \<le> i \<and> i < d + n then src (s + (i - d)) else dst i)"

text \<open>The result, the buffer, the data object and the number of bytes copied.\<close>

definition iobuf_move ::
  "iobuf \<Rightarrow> mem \<Rightarrow> nat \<Rightarrow> nat \<Rightarrow> bool \<Rightarrow> ((errno + unit) \<times> iobuf \<times> mem \<times> nat) option" where
  "iobuf_move iob data dpos len m2b = do {
     let alen = (if io_resid iob > len then len else io_resid iob);
     (iob, data, len) \<leftarrow>
       (if alen > 0 then do {
          let (iob, data) =
            (if m2b then (iob\<lparr>io_obj := blit (io_obj iob) (io_base iob) data dpos alen\<rparr>, data)
             else (iob, blit data dpos (io_obj iob) (io_base iob) alen));
          iob \<leftarrow> iobuf_skip iob alen;
          Some (iob, data, len - alen)
        } else Some (iob, data, len));
     Some (if len = 0 then Inr () else Inl E_NO_MEM, iob, data, alen)
   }"

definition iobuf_move_zeros :: "iobuf \<Rightarrow> nat \<Rightarrow> ((errno + unit) \<times> iobuf \<times> nat) option" where
  "iobuf_move_zeros iob len = do {
     let alen = (if io_resid iob > len then len else io_resid iob);
     (iob, len) \<leftarrow>
       (if alen > 0 then do {
          let iob = iob\<lparr>io_obj := memset (io_base iob) 0 alen (io_obj iob)\<rparr>;
          iob \<leftarrow> iobuf_skip iob alen;
          Some (iob, len - alen)
        } else Some (iob, len));
     Some (if len = 0 then Inr () else Inl E_NO_MEM, iob, alen)
   }"

section \<open>The RAM disk\<close>

definition SECTSIZE :: nat where "SECTSIZE = 512"
definition MAX_NSECS :: nat where "MAX_NSECS = 128"
definition MAX_DISK_NSECS :: nat where "MAX_DISK_NSECS = 0x10000000"

text \<open>
  \<open>valid\<close>, the size in sectors (an \<open>unsigned int\<close>) and the memory from \<open>iobase\<close> on.
  \<open>dev->size - secno\<close> is computed in \<open>size_t\<close>, so it wraps when \<open>secno\<close> is beyond the end and
  the test \<open>nsecs < 0\<close> is never true.
\<close>

record ide_device =
  valid :: bool
  secs :: nat
  store :: mem

definition ramdisk_clip :: "ide_device \<Rightarrow> nat \<Rightarrow> nat \<Rightarrow> nat" where
  "ramdisk_clip dev secno nsecs =
     (let room = (if secno \<le> secs dev then secs dev - secno else secs dev + 2 ^ 64 - secno)
      in if nsecs < room then nsecs else room)"

definition ramdisk_read :: "ide_device \<Rightarrow> nat \<Rightarrow> mem \<Rightarrow> nat \<Rightarrow> int \<times> mem" where
  "ramdisk_read dev secno dst nsecs =
     (0, blit dst 0 (store dev) (secno * SECTSIZE) (ramdisk_clip dev secno nsecs * SECTSIZE))"

definition ramdisk_write :: "ide_device \<Rightarrow> nat \<Rightarrow> mem \<Rightarrow> nat \<Rightarrow> int \<times> ide_device" where
  "ramdisk_write dev secno src nsecs =
     (0, dev\<lparr>store := blit (store dev) (secno * SECTSIZE) src 0 (ramdisk_clip dev secno nsecs * SECTSIZE)\<rparr>)"

definition ide_device_size :: "ide_device \<Rightarrow> nat" where
  "ide_device_size dev = (if valid dev then secs dev else 0)"

definition ide_read_secs :: "ide_device \<Rightarrow> nat \<Rightarrow> mem \<Rightarrow> nat \<Rightarrow> (int \<times> mem) option" where
  "ide_read_secs dev secno dst nsecs = do {
     kassert (nsecs \<le> MAX_NSECS \<and> valid dev);
     kassert (secno < MAX_DISK_NSECS \<and> secno + nsecs \<le> MAX_DISK_NSECS);
     Some (ramdisk_read dev secno dst nsecs)
   }"

definition ide_write_secs :: "ide_device \<Rightarrow> nat \<Rightarrow> mem \<Rightarrow> nat \<Rightarrow> (int \<times> ide_device) option" where
  "ide_write_secs dev secno src nsecs = do {
     kassert (nsecs \<le> MAX_NSECS \<and> valid dev);
     kassert (secno < MAX_DISK_NSECS \<and> secno + nsecs \<le> MAX_DISK_NSECS);
     Some (ramdisk_write dev secno src nsecs)
   }"

section \<open>The block device\<close>

definition DISK0_BLKSIZE :: nat where "DISK0_BLKSIZE = 4096"
definition DISK0_BUFSIZE :: nat where "DISK0_BUFSIZE = 4 * DISK0_BLKSIZE"
definition DISK0_BLK_NSECT :: nat where "DISK0_BLK_NSECT = DISK0_BLKSIZE div SECTSIZE"

record device =
  d_blocks :: nat
  d_blocksize :: nat
  d_ide :: ide_device

definition disk0_read_blks_nolock :: "device \<Rightarrow> mem \<Rightarrow> nat \<Rightarrow> nat \<Rightarrow> mem option" where
  "disk0_read_blks_nolock dev dbuf blkno nblks = do {
     let sectno = blkno * DISK0_BLK_NSECT mod 2 ^ 32;
     let nsecs = nblks * DISK0_BLK_NSECT mod 2 ^ 32;
     (ret, dbuf) \<leftarrow> ide_read_secs (d_ide dev) sectno dbuf nsecs;
     kassert (ret = 0);
     Some dbuf
   }"

definition disk0_write_blks_nolock :: "device \<Rightarrow> mem \<Rightarrow> nat \<Rightarrow> nat \<Rightarrow> device option" where
  "disk0_write_blks_nolock dev dbuf blkno nblks = do {
     let sectno = blkno * DISK0_BLK_NSECT mod 2 ^ 32;
     let nsecs = nblks * DISK0_BLK_NSECT mod 2 ^ 32;
     (ret, ide) \<leftarrow> ide_write_secs (d_ide dev) sectno dbuf nsecs;
     kassert (ret = 0);
     Some (dev\<lparr>d_ide := ide\<rparr>)
   }"

text \<open>The transfer loop: at most four blocks at a time through \<open>disk0_buffer\<close>.\<close>

function disk0_loop ::
  "device \<Rightarrow> iobuf \<Rightarrow> mem \<Rightarrow> nat \<Rightarrow> nat \<Rightarrow> bool \<Rightarrow> (device \<times> iobuf) option" where
  "disk0_loop dev iob dbuf blkno resid write =
     (if resid = 0 then Some (dev, iob)
      else if write then
        (case iobuf_move iob dbuf 0 DISK0_BUFSIZE False of
           None \<Rightarrow> None
         | Some (_, iob, dbuf, copied) \<Rightarrow>
             if copied \<noteq> 0 \<and> copied \<le> resid \<and> copied mod DISK0_BLKSIZE = 0 then
               (let nblks = copied div DISK0_BLKSIZE in
                case disk0_write_blks_nolock dev dbuf blkno nblks of
                  None \<Rightarrow> None
                | Some dev \<Rightarrow> disk0_loop dev iob dbuf ((blkno + nblks) mod 2 ^ 32) (resid - copied) write)
             else None)
      else
        (let alen = (if DISK0_BUFSIZE > resid then resid else DISK0_BUFSIZE);
             nblks = alen div DISK0_BLKSIZE in
         case disk0_read_blks_nolock dev dbuf blkno nblks of
           None \<Rightarrow> None
         | Some dbuf \<Rightarrow>
             (case iobuf_move iob dbuf 0 alen True of
                None \<Rightarrow> None
              | Some (_, iob, dbuf, copied) \<Rightarrow>
                  if copied = alen \<and> copied mod DISK0_BLKSIZE = 0 then
                    disk0_loop dev iob dbuf ((blkno + nblks) mod 2 ^ 32) (resid - copied) write
                  else None)))"
  by pat_completeness auto
termination
  by (relation "measure (\<lambda>(_, _, _, _, resid, _). resid)")
    (auto simp: DISK0_BUFSIZE_def DISK0_BLKSIZE_def split: if_splits)

declare disk0_loop.simps [simp del]

definition disk0_io ::
  "device \<Rightarrow> mem \<Rightarrow> iobuf \<Rightarrow> bool \<Rightarrow> ((errno + unit) \<times> device \<times> iobuf) option" where
  "disk0_io dev dbuf iob write =
     (let offset = io_offset iob; resid = io_resid iob;
          blkno = nat ((offset sdiv int DISK0_BLKSIZE) mod 2 ^ 32);
          nblks = resid div DISK0_BLKSIZE mod 2 ^ 32 in
      if offset smod int DISK0_BLKSIZE \<noteq> 0 \<or> resid mod DISK0_BLKSIZE \<noteq> 0
      then Some (Inl E_INVAL, dev, iob)
      else if (blkno + nblks) mod 2 ^ 32 > d_blocks dev then Some (Inl E_INVAL, dev, iob)
      else if nblks = 0 then Some (Inr (), dev, iob)
      else do {
        (dev, iob) \<leftarrow> disk0_loop dev iob dbuf blkno resid write;
        Some (Inr (), dev, iob)
      })"

definition disk0_open :: "device \<Rightarrow> nat \<Rightarrow> errno + unit" where
  "disk0_open dev open_flags = Inr ()"

definition disk0_close :: "device \<Rightarrow> errno + unit" where
  "disk0_close dev = Inr ()"

definition disk0_ioctl :: "device \<Rightarrow> nat \<Rightarrow> errno + unit" where
  "disk0_ioctl dev op = Inl E_UNIMP"

definition disk0_device_init :: "device \<Rightarrow> ide_device \<Rightarrow> device option" where
  "disk0_device_init dev ide = do {
     kassert (valid ide);
     Some (dev\<lparr>d_blocks := ide_device_size ide div DISK0_BLK_NSECT, d_blocksize := DISK0_BLKSIZE,
               d_ide := ide\<rparr>)
   }"

section \<open>One block\<close>

text \<open>The device as \<open>disk0_device_init\<close> leaves it, with at most \<open>2 ^ 20\<close> blocks.\<close>

definition dev_ok :: "device \<Rightarrow> bool" where
  "dev_ok dev \<longleftrightarrow> valid (d_ide dev) \<and> d_blocks dev \<le> 2 ^ 20 \<and> 8 * d_blocks dev \<le> secs (d_ide dev)"

definition dblk :: "device \<Rightarrow> nat \<Rightarrow> mem" where
  "dblk dev b = (\<lambda>i. store (d_ide dev) (b * 4096 + i))"

definition dev_put :: "device \<Rightarrow> nat \<Rightarrow> mem \<Rightarrow> device" where
  "dev_put dev b f = dev\<lparr>d_ide := d_ide dev\<lparr>store := blit (store (d_ide dev)) (b * 4096) f 0 4096\<rparr>\<rparr>"

lemma block_index:
  "i < 4096 \<Longrightarrow> b * 4096 \<le> c * 4096 + i \<and> c * 4096 + i < b * 4096 + 4096 \<longleftrightarrow> b = c"
  for i b c :: nat
proof -
  assume a: "i < 4096"
  have "b = c" if "b * 4096 \<le> c * 4096 + i \<and> c * 4096 + i < b * 4096 + 4096"
  proof -
    have "b < Suc c" "c < Suc b" using a that by linarith+
    then show ?thesis by simp
  qed
  with a show "(b * 4096 \<le> c * 4096 + i \<and> c * 4096 + i < b * 4096 + 4096) = (b = c)" by auto
qed

lemma dblk_put [simp]: "i < 4096 \<Longrightarrow> dblk (dev_put dev b f) c i = (if b = c then f i else dblk dev c i)"
  by (auto simp: dblk_def dev_put_def blit_def block_index)

lemma dev_put_ok [simp]: "dev_ok (dev_put dev b f) = dev_ok dev" "d_blocks (dev_put dev b f) = d_blocks dev"
  by (simp_all add: dev_ok_def dev_put_def)

lemma offset_blk: "nat (int (b * 4096) sdiv 4096 mod 4294967296) = b mod 4294967296"
  "int (b * 4096) smod 4096 = 0"
proof -
  have s: "int (b * 4096) sdiv 4096 = int b"
    by (cases "b = 0") (simp_all add: signed_divide_int_def)
  then show "nat (int (b * 4096) sdiv 4096 mod 4294967296) = b mod 4294967296"
    by (simp del: of_nat_mult add: nat_mod_distrib)
  show "int (b * 4096) smod 4096 = 0" using s
    by (simp only: signed_modulo_int_def) simp
qed

lemma ramdisk_clip_one:
  assumes "dev_ok dev" "b < d_blocks dev"
  shows "ramdisk_clip (d_ide dev) (8 * b) 8 = 8"
  using assms by (auto simp: ramdisk_clip_def dev_ok_def Let_def)

lemma disk0_io_read_one:
  assumes ok: "dev_ok dev" and b: "b < d_blocks dev"
  shows "disk0_io dev dbuf (iobuf_init obj p 4096 (int (b * 4096))) False
     = Some (Inr (), dev, \<lparr>io_obj = blit obj p (dblk dev b) 0 4096, io_base = p + 4096,
           io_offset = int (b * 4096) + 4096, io_len = 4096, io_resid = 0\<rparr>)"
proof -
  have b': "b < 1048576" using ok b by (simp add: dev_ok_def)
  have eq: "blit obj p (blit dbuf 0 (store (d_ide dev)) (b * 4096) 4096) 0 4096 = blit obj p (dblk dev b) 0 4096"
    by (auto simp: blit_def dblk_def fun_eq_iff)
  have rd: "disk0_read_blks_nolock dev dbuf b 1 = Some (blit dbuf 0 (store (d_ide dev)) (b * 4096) 4096)"
    using ok b b' ramdisk_clip_one [OF ok b]
    by (simp add: disk0_read_blks_nolock_def ide_read_secs_def ramdisk_read_def DISK0_BLK_NSECT_def
        DISK0_BLKSIZE_def SECTSIZE_def MAX_NSECS_def MAX_DISK_NSECS_def dev_ok_def mult.commute)
  show ?thesis using b b' ok rd
    apply (simp add: disk0_io_def iobuf_init_def DISK0_BLKSIZE_def offset_blk dev_ok_def del: of_nat_mult)
    apply (subst disk0_loop.simps)
    apply (simp add: DISK0_BLKSIZE_def DISK0_BUFSIZE_def iobuf_move_def iobuf_skip_def Let_def eq)
    apply (subst disk0_loop.simps)
    apply simp
    done
qed

lemma disk0_io_write_one:
  assumes ok: "dev_ok dev" and b: "b < d_blocks dev"
  shows "disk0_io dev dbuf (iobuf_init obj p 4096 (int (b * 4096))) True
     = Some (Inr (), dev_put dev b (\<lambda>i. obj (p + i)), \<lparr>io_obj = obj, io_base = p + 4096,
           io_offset = int (b * 4096) + 4096, io_len = 4096, io_resid = 0\<rparr>)"
proof -
  have b': "b < 1048576" using ok b by (simp add: dev_ok_def)
  have eq: "blit s (b * 4096) (blit dbuf 0 obj p 4096) 0 4096 = blit s (b * 4096) (\<lambda>i. obj (p + i)) 0 4096" for s
    by (auto simp: blit_def fun_eq_iff)
  have wr: "disk0_write_blks_nolock dev (blit dbuf 0 obj p 4096) b 1 = Some (dev_put dev b (\<lambda>i. obj (p + i)))"
    using ok b b' ramdisk_clip_one [OF ok b] eq
    by (simp add: disk0_write_blks_nolock_def ide_write_secs_def ramdisk_write_def DISK0_BLK_NSECT_def
        DISK0_BLKSIZE_def SECTSIZE_def MAX_NSECS_def MAX_DISK_NSECS_def dev_ok_def mult.commute dev_put_def)
  show ?thesis using b b' ok wr
    apply (simp add: disk0_io_def iobuf_init_def DISK0_BLKSIZE_def offset_blk dev_ok_def del: of_nat_mult)
    apply (subst disk0_loop.simps)
    apply (simp add: DISK0_BLKSIZE_def DISK0_BUFSIZE_def iobuf_move_def iobuf_skip_def Let_def)
    apply (subst disk0_loop.simps)
    apply simp
    done
qed

text \<open>Past the end of the device nothing is transferred.\<close>

lemma disk0_io_past_end:
  assumes "d_blocks dev \<le> b" "b < 2 ^ 32 - 1"
  shows "disk0_io dev dbuf (iobuf_init obj p 4096 (int (b * 4096))) w
     = Some (Inl E_INVAL, dev, iobuf_init obj p 4096 (int (b * 4096)))"
  using assms
  by (simp add: disk0_io_def iobuf_init_def DISK0_BLKSIZE_def offset_blk del: of_nat_mult)

end
