(* ===== verification/Sfs_Io.thy ===== *)
theory Sfs_Io
  imports Disk Bitmap
begin

text \<open>
  The simple file system below its inodes: the on-disk formats of \<open>kern/fs/sfs/sfs.h\<close>, the block
  routines of \<open>sfs_io.c\<close>, and mounting in \<open>sfs_fs.c\<close>.  Every routine runs under its lock, so it
  is one step here.  \<open>sfs->sfs_buffer\<close> is filled before every use, so each routine has its own.
  The outcomes of \<open>kmalloc\<close> in \<open>sfs_do_mount\<close> are booleans.
\<close>

definition SFS_MAGIC :: nat where "SFS_MAGIC = 0x2f8dbe2a"
definition SFS_BLKSIZE :: nat where "SFS_BLKSIZE = 4096"
definition SFS_NDIRECT :: nat where "SFS_NDIRECT = 12"
definition SFS_MAX_INFO_LEN :: nat where "SFS_MAX_INFO_LEN = 31"
definition SFS_MAX_FNAME_LEN :: nat where "SFS_MAX_FNAME_LEN = 255"
definition SFS_MAX_FILE_SIZE :: nat where "SFS_MAX_FILE_SIZE = 1024 * 1024 * 128"
definition SFS_BLKN_SUPER :: nat where "SFS_BLKN_SUPER = 0"
definition SFS_BLKN_ROOT :: nat where "SFS_BLKN_ROOT = 1"
definition SFS_BLKN_FREEMAP :: nat where "SFS_BLKN_FREEMAP = 2"
definition SFS_BLKBITS :: nat where "SFS_BLKBITS = SFS_BLKSIZE * 8"
definition SFS_BLK_NENTRY :: nat where "SFS_BLK_NENTRY = SFS_BLKSIZE div 4"
definition SFS_TYPE_FILE :: nat where "SFS_TYPE_FILE = 1"
definition SFS_TYPE_DIR :: nat where "SFS_TYPE_DIR = 2"
definition SFS_TYPE_LINK :: nat where "SFS_TYPE_LINK = 3"

record sfs_super =
  s_magic :: nat
  s_blocks :: nat
  s_unused_blocks :: nat
  s_info :: "byte list"

record sfs_fs =
  super :: sfs_super
  dev :: device
  freemap :: bitmap
  super_dirty :: bool

definition sfs_freemap_bits :: "sfs_super \<Rightarrow> nat" where
  "sfs_freemap_bits s = (s_blocks s + SFS_BLKBITS - 1) div SFS_BLKBITS * SFS_BLKBITS mod 2 ^ 32"

definition sfs_freemap_blocks :: "sfs_super \<Rightarrow> nat" where
  "sfs_freemap_blocks s = (s_blocks s + SFS_BLKBITS - 1) div SFS_BLKBITS mod 2 ^ 32"

section \<open>Little-endian fields\<close>

text \<open>The \<open>n\<close> bytes of a number as an object, and the number at a position.\<close>

definition le :: "nat \<Rightarrow> mem" where
  "le v = (\<lambda>i. word_of_nat (v div 256 ^ i))"

fun rd :: "nat \<Rightarrow> mem \<Rightarrow> nat \<Rightarrow> nat" where
  "rd 0 m p = 0"
| "rd (Suc n) m p = unat (m p) + 256 * rd n m (p + 1)"

lemma le_shift: "le (v div 256) i = le v (Suc i)"
  by (simp add: le_def div_mult2_eq [symmetric] mult.commute)

lemma rd_le:
  "(\<And>i. i < n \<Longrightarrow> m (p + i) = le v (q + i)) \<Longrightarrow> rd n m p = v div 256 ^ q mod 256 ^ n"
proof (induction n arbitrary: p q)
  case 0
  then show ?case by simp
next
  case (Suc n)
  have "rd n m (p + 1) = v div 256 ^ Suc q mod 256 ^ n"
    by (rule Suc.IH) (use Suc.prems [of "Suc _"] in simp)
  moreover have "unat (m p) = v div 256 ^ q mod 256"
    using Suc.prems [of 0] by (simp add: le_def unat_of_nat)
  moreover have "v div 256 ^ Suc q = v div 256 ^ q div 256"
    by (simp add: div_mult2_eq [symmetric] mult.commute)
  ultimately show ?case by (simp only: rd.simps power_Suc mod_mult2_eq)
qed

lemma rd_le_eq: "(\<And>i. i < n \<Longrightarrow> m (p + i) = le v i) \<Longrightarrow> v < 256 ^ n \<Longrightarrow> rd n m p = v"
  using rd_le [of n m p v 0] by simp

lemma rd_cong: "(\<And>i. i < n \<Longrightarrow> m (p + i) = m' (q + i)) \<Longrightarrow> rd n m p = rd n m' q"
proof (induction n arbitrary: p q)
  case (Suc n)
  have "rd n m (Suc p) = rd n m' (Suc q)"
    by (rule Suc.IH) (use Suc.prems [of "Suc _"] in simp)
  then show ?case using Suc.prems [of 0] by simp
qed simp

lemma rd_less: "rd n m p < 256 ^ n"
proof (induction n arbitrary: p)
  case (Suc n)
  have "unat (m p) < 256" using unsigned_less [of "m p", where ?'a = nat] by simp
  with Suc [of "Suc p"] show ?case by simp
qed simp

section \<open>Block input and output\<close>

text \<open>\<open>dop_io\<close> is \<open>disk0_io\<close>: the file system is mounted on \<open>disk0\<close>.\<close>

definition sfs_rwblock_nolock ::
  "sfs_fs \<Rightarrow> mem \<Rightarrow> nat \<Rightarrow> nat \<Rightarrow> bool \<Rightarrow> bool \<Rightarrow> ((errno + unit) \<times> sfs_fs \<times> mem) option" where
  "sfs_rwblock_nolock sfs buf p blkno write check = do {
     kassert ((blkno \<noteq> 0 \<or> \<not> check) \<and> blkno < s_blocks (super sfs));
     let iob = iobuf_init buf p SFS_BLKSIZE (int (blkno * SFS_BLKSIZE mod 2 ^ 32));
     (ret, d, iob) \<leftarrow> disk0_io (dev sfs) (\<lambda>_. 0) iob write;
     Some (ret, sfs\<lparr>dev := d\<rparr>, io_obj iob)
   }"

fun sfs_rwblock :: "sfs_fs \<Rightarrow> mem \<Rightarrow> nat \<Rightarrow> nat \<Rightarrow> nat \<Rightarrow> bool \<Rightarrow> ((errno + unit) \<times> sfs_fs \<times> mem) option" where
  "sfs_rwblock sfs buf p blkno 0 write = Some (Inr (), sfs, buf)"
| "sfs_rwblock sfs buf p blkno (Suc n) write =
     seqE (sfs_rwblock_nolock sfs buf p blkno write True)
       (\<lambda>_ (sfs, buf). sfs_rwblock sfs buf (p + SFS_BLKSIZE) ((blkno + 1) mod 2 ^ 32) n write)"

definition sfs_rblock :: "sfs_fs \<Rightarrow> mem \<Rightarrow> nat \<Rightarrow> nat \<Rightarrow> nat \<Rightarrow> ((errno + unit) \<times> sfs_fs \<times> mem) option" where
  "sfs_rblock sfs buf p blkno nblks = sfs_rwblock sfs buf p blkno nblks False"

definition sfs_wblock :: "sfs_fs \<Rightarrow> mem \<Rightarrow> nat \<Rightarrow> nat \<Rightarrow> nat \<Rightarrow> ((errno + unit) \<times> sfs_fs \<times> mem) option" where
  "sfs_wblock sfs buf p blkno nblks = sfs_rwblock sfs buf p blkno nblks True"

definition sfs_rbuf ::
  "sfs_fs \<Rightarrow> mem \<Rightarrow> nat \<Rightarrow> nat \<Rightarrow> nat \<Rightarrow> nat \<Rightarrow> ((errno + unit) \<times> sfs_fs \<times> mem) option" where
  "sfs_rbuf sfs buf p len blkno offset = do {
     kassert (offset < SFS_BLKSIZE \<and> offset + len \<le> SFS_BLKSIZE);
     (ret, sfs, sbuf) \<leftarrow> sfs_rwblock_nolock sfs (\<lambda>_. 0) 0 blkno False True;
     Some (case ret of
         Inr _ \<Rightarrow> (Inr (), sfs, blit buf p sbuf offset len)
       | Inl e \<Rightarrow> (Inl e, sfs, buf))
   }"

definition sfs_wbuf ::
  "sfs_fs \<Rightarrow> mem \<Rightarrow> nat \<Rightarrow> nat \<Rightarrow> nat \<Rightarrow> nat \<Rightarrow> ((errno + unit) \<times> sfs_fs \<times> mem) option" where
  "sfs_wbuf sfs buf p len blkno offset = do {
     kassert (offset < SFS_BLKSIZE \<and> offset + len \<le> SFS_BLKSIZE);
     (ret, sfs, sbuf) \<leftarrow> sfs_rwblock_nolock sfs (\<lambda>_. 0) 0 blkno False True;
     (case ret of
        Inr _ \<Rightarrow> do {
          let sbuf = blit sbuf offset buf p len;
          (ret, sfs, sbuf) \<leftarrow> sfs_rwblock_nolock sfs sbuf 0 blkno True True;
          Some (ret, sfs, buf)
        }
      | Inl e \<Rightarrow> Some (Inl e, sfs, buf))
   }"

fun clear_loop :: "sfs_fs \<Rightarrow> mem \<Rightarrow> nat \<Rightarrow> nat \<Rightarrow> ((errno + unit) \<times> sfs_fs \<times> mem) option" where
  "clear_loop sfs sbuf blkno 0 = Some (Inr (), sfs, sbuf)"
| "clear_loop sfs sbuf blkno (Suc n) =
     seqE (sfs_rwblock_nolock sfs sbuf 0 blkno True True)
       (\<lambda>_ (sfs, sbuf). clear_loop sfs sbuf ((blkno + 1) mod 2 ^ 32) n)"

definition sfs_clear_block :: "sfs_fs \<Rightarrow> nat \<Rightarrow> nat \<Rightarrow> ((errno + unit) \<times> sfs_fs) option" where
  "sfs_clear_block sfs blkno nblks = do {
     (ret, sfs, _) \<leftarrow> clear_loop sfs (\<lambda>_. 0) blkno nblks;
     Some (ret, sfs)
   }"

section \<open>Superblock and free map\<close>

text \<open>The 44 bytes of \<open>struct sfs_super\<close> at the start of a zeroed block, and back.\<close>

definition super_mem :: "sfs_super \<Rightarrow> mem" where
  "super_mem s = (\<lambda>i.
     if i < 4 then le (s_magic s) i
     else if i < 8 then le (s_blocks s) (i - 4)
     else if i < 12 then le (s_unused_blocks s) (i - 8)
     else if i < 44 then s_info s ! (i - 12)
     else 0)"

definition mem_super :: "mem \<Rightarrow> sfs_super" where
  "mem_super m = \<lparr>s_magic = rd 4 m 0, s_blocks = rd 4 m 4, s_unused_blocks = rd 4 m 8,
     s_info = List.map (\<lambda>i. m (12 + i)) [0 ..< SFS_MAX_INFO_LEN + 1]\<rparr>"

definition sfs_sync_super :: "sfs_fs \<Rightarrow> ((errno + unit) \<times> sfs_fs) option" where
  "sfs_sync_super sfs = do {
     let sbuf = super_mem (super sfs);
     (ret, sfs, _) \<leftarrow> sfs_rwblock_nolock sfs sbuf 0 SFS_BLKN_SUPER True False;
     Some (ret, sfs)
   }"

text \<open>The words of the free map as bytes.\<close>

definition words_mem :: "32 word list \<Rightarrow> mem" where
  "words_mem ws = (\<lambda>i. le (unat (ws ! (i div 4))) (i mod 4))"

definition mem_words :: "mem \<Rightarrow> nat \<Rightarrow> 32 word list" where
  "mem_words m n = List.map (\<lambda>k. word_of_nat (rd 4 m (4 * k))) [0 ..< n]"

definition sfs_sync_freemap :: "sfs_fs \<Rightarrow> ((errno + unit) \<times> sfs_fs) option" where
  "sfs_sync_freemap sfs = do {
     let nblks = sfs_freemap_blocks (super sfs);
     let (data, _) = bitmap_getdata (freemap sfs);
     (ret, sfs, _) \<leftarrow> sfs_wblock sfs (words_mem data) 0 SFS_BLKN_FREEMAP nblks;
     Some (ret, sfs)
   }"

text \<open>The second half of \<open>sfs_sync\<close>, after the loop over the inodes.\<close>

definition sync_meta :: "sfs_fs \<Rightarrow> ((errno + unit) \<times> sfs_fs) option" where
  "sync_meta sfs =
     (if super_dirty sfs then do {
        let sfs = sfs\<lparr>super_dirty := False\<rparr>;
        (ret, sfs) \<leftarrow> sfs_sync_super sfs;
        (case ret of
           Inl e \<Rightarrow> Some (Inl e, sfs\<lparr>super_dirty := True\<rparr>)
         | Inr _ \<Rightarrow> do {
             (ret, sfs) \<leftarrow> sfs_sync_freemap sfs;
             (case ret of
                Inl e \<Rightarrow> Some (Inl e, sfs\<lparr>super_dirty := True\<rparr>)
              | Inr _ \<Rightarrow> Some (Inr (), sfs))
           })
      } else Some (Inr (), sfs))"

section \<open>Mounting\<close>

definition sfs_init_read :: "device \<Rightarrow> nat \<Rightarrow> mem \<Rightarrow> nat \<Rightarrow> ((errno + unit) \<times> device \<times> mem) option" where
  "sfs_init_read d blkno obj p = do {
     let iob = iobuf_init obj p SFS_BLKSIZE (int (blkno * SFS_BLKSIZE mod 2 ^ 32));
     (ret, d, iob) \<leftarrow> disk0_io d (\<lambda>_. 0) iob False;
     Some (ret, d, io_obj iob)
   }"

fun init_freemap_loop :: "device \<Rightarrow> mem \<Rightarrow> nat \<Rightarrow> nat \<Rightarrow> nat \<Rightarrow> ((errno + unit) \<times> device \<times> mem) option" where
  "init_freemap_loop d data p blkno 0 = Some (Inr (), d, data)"
| "init_freemap_loop d data p blkno (Suc n) =
     seqE (sfs_init_read d blkno data p)
       (\<lambda>_ (d, data). init_freemap_loop d data (p + SFS_BLKSIZE) ((blkno + 1) mod 2 ^ 32) n)"

definition sfs_init_freemap ::
  "device \<Rightarrow> bitmap \<Rightarrow> nat \<Rightarrow> nat \<Rightarrow> ((errno + unit) \<times> device \<times> bitmap) option" where
  "sfs_init_freemap d fm blkno nblks = do {
     let (data, len) = bitmap_getdata fm;
     kassert (len = nblks * SFS_BLKSIZE mod 2 ^ 32);
     (ret, d, obj) \<leftarrow> init_freemap_loop d (words_mem data) 0 blkno nblks;
     Some (ret, d, fm\<lparr>bmap := mem_words obj (nwords fm)\<rparr>)
   }"

fun count_unused :: "bitmap \<Rightarrow> nat \<Rightarrow> nat \<Rightarrow> nat \<Rightarrow> nat option" where
  "count_unused fm i 0 u = Some u"
| "count_unused fm i (Suc n) u = do {
     t \<leftarrow> bitmap_test fm i;
     count_unused fm (i + 1) n (if t then u + 1 else u)
   }"

text \<open>
  \<open>mem_fs\<close>, \<open>mem_buf\<close>, \<open>mem_hash\<close>: whether the allocations of the structure, of the buffer and
  of the hash lists succeed; \<open>mem1\<close>, \<open>mem2\<close> are those of \<open>bitmap_create\<close>.
\<close>

definition sfs_do_mount ::
  "bool \<Rightarrow> bool \<Rightarrow> bool \<Rightarrow> bool \<Rightarrow> bool \<Rightarrow> device \<Rightarrow> ((errno + sfs_fs) \<times> device) option" where
  "sfs_do_mount mem_fs mem_buf mem_hash mem1 mem2 d =
     (if d_blocksize d \<noteq> SFS_BLKSIZE then Some (Inl E_NA_DEV, d)
      else if \<not> mem_fs then Some (Inl E_NO_MEM, d)
      else if \<not> mem_buf then Some (Inl E_NO_MEM, d)
      else do {
        (ret, d, sbuf) \<leftarrow> sfs_init_read d SFS_BLKN_SUPER (\<lambda>_. 0) 0;
        (case ret of Inl e \<Rightarrow> Some (Inl e, d)
         | Inr _ \<Rightarrow>
           (let s = mem_super sbuf in
            if s_magic s \<noteq> SFS_MAGIC then Some (Inl E_INVAL, d)
            else if s_blocks s > d_blocks d then Some (Inl E_INVAL, d)
            else
              (let s = s\<lparr>s_info := (s_info s)[SFS_MAX_INFO_LEN := 0]\<rparr> in
               if \<not> mem_hash then Some (Inl E_NO_MEM, d)
               else do {
                 fm \<leftarrow> bitmap_create mem1 mem2 (sfs_freemap_bits s);
                 (case fm of None \<Rightarrow> Some (Inl E_NO_MEM, d)
                  | Some fm \<Rightarrow> do {
                      (ret, d, fm) \<leftarrow> sfs_init_freemap d fm SFS_BLKN_FREEMAP (sfs_freemap_blocks s);
                      (case ret of Inl e \<Rightarrow> Some (Inl e, d)
                       | Inr _ \<Rightarrow> do {
                           unused \<leftarrow> count_unused fm 0 (sfs_freemap_bits s) 0;
                           kassert (unused = s_unused_blocks s);
                           Some (Inr \<lparr>super = s, dev = d, freemap = fm, super_dirty = False\<rparr>, d)
                         })
                    })
               })))
      })"

section \<open>Specifications\<close>

definition io_ok :: "sfs_fs \<Rightarrow> bool" where
  "io_ok sfs \<longleftrightarrow> dev_ok (dev sfs) \<and> s_blocks (super sfs) \<le> d_blocks (dev sfs)"

definition fblk :: "sfs_fs \<Rightarrow> nat \<Rightarrow> mem" where
  "fblk sfs b = dblk (dev sfs) b"

definition put_blk :: "sfs_fs \<Rightarrow> nat \<Rightarrow> mem \<Rightarrow> sfs_fs" where
  "put_blk sfs b f = sfs\<lparr>dev := dev_put (dev sfs) b f\<rparr>"

lemma fblk_put [simp]:
  "i < 4096 \<Longrightarrow> fblk (put_blk sfs b f) c i = (if b = c then f i else fblk sfs c i)"
  by (simp add: fblk_def put_blk_def)

lemma put_blk_sel [simp]:
  "super (put_blk sfs b f) = super sfs" "freemap (put_blk sfs b f) = freemap sfs"
  "super_dirty (put_blk sfs b f) = super_dirty sfs" "io_ok (put_blk sfs b f) = io_ok sfs"
  by (simp_all add: put_blk_def io_ok_def)

lemma put_blk_cong: "(\<And>i. i < 4096 \<Longrightarrow> f i = g i) \<Longrightarrow> put_blk sfs b f = put_blk sfs b g"
proof -
  assume "\<And>i. i < 4096 \<Longrightarrow> f i = g i"
  then have "blit s (b * 4096) f 0 4096 = blit s (b * 4096) g 0 4096" for s
    by (auto simp: blit_def fun_eq_iff)
  then show ?thesis by (simp add: put_blk_def dev_put_def)
qed

lemma no_wrap: "io_ok sfs \<Longrightarrow> b < s_blocks (super sfs) \<Longrightarrow> b * 4096 mod 4294967296 = b * 4096"
  by (simp add: io_ok_def dev_ok_def)

lemma rwblock_read:
  assumes "io_ok sfs" "b < s_blocks (super sfs)" "b \<noteq> 0 \<or> \<not> check"
  shows "sfs_rwblock_nolock sfs buf p b False check = Some (Inr (), sfs, blit buf p (fblk sfs b) 0 4096)"
  using assms disk0_io_read_one [of "dev sfs" b "\<lambda>_. 0" buf p]
  by (simp add: sfs_rwblock_nolock_def SFS_BLKSIZE_def no_wrap io_ok_def fblk_def del: of_nat_mult)

lemma rwblock_write:
  assumes "io_ok sfs" "b < s_blocks (super sfs)" "b \<noteq> 0 \<or> \<not> check"
  shows "sfs_rwblock_nolock sfs buf p b True check = Some (Inr (), put_blk sfs b (\<lambda>i. buf (p + i)), buf)"
  using assms disk0_io_write_one [of "dev sfs" b "\<lambda>_. 0" buf p]
  by (simp add: sfs_rwblock_nolock_def SFS_BLKSIZE_def no_wrap io_ok_def put_blk_def del: of_nat_mult)

lemma rwblock_nolock_panics:
  "s_blocks (super sfs) \<le> b \<or> b = 0 \<and> check \<Longrightarrow> sfs_rwblock_nolock sfs buf p b w check = None"
  by (auto simp: sfs_rwblock_nolock_def kassert_def)

lemma sfs_rbuf_ok:
  assumes "io_ok sfs" "0 < b" "b < s_blocks (super sfs)" "off < 4096" "off + len \<le> 4096"
  shows "sfs_rbuf sfs buf p len b off = Some (Inr (), sfs, blit buf p (fblk sfs b) off len)"
proof -
  have "blit buf p (blit (\<lambda>_. 0) 0 (fblk sfs b) 0 4096) off len = blit buf p (fblk sfs b) off len"
    using assms(4,5) by (auto simp: blit_def fun_eq_iff)
  then show ?thesis using assms
    by (simp add: sfs_rbuf_def SFS_BLKSIZE_def rwblock_read)
qed

lemma sfs_wbuf_ok:
  assumes "io_ok sfs" "0 < b" "b < s_blocks (super sfs)" "off < 4096" "off + len \<le> 4096"
  shows "sfs_wbuf sfs buf p len b off
     = Some (Inr (), put_blk sfs b (blit (fblk sfs b) off buf p len), buf)"
proof -
  have "put_blk sfs b (\<lambda>i. blit (blit (\<lambda>_. 0) 0 (fblk sfs b) 0 4096) off buf p len (0 + i))
     = put_blk sfs b (blit (fblk sfs b) off buf p len)"
    by (rule put_blk_cong) (auto simp: blit_def)
  then show ?thesis using assms
    by (simp add: sfs_wbuf_def SFS_BLKSIZE_def rwblock_read rwblock_write)
qed

lemma sfs_clear_block_ok:
  assumes "io_ok sfs" "0 < b" "b < s_blocks (super sfs)"
  shows "sfs_clear_block sfs b 1 = Some (Inr (), put_blk sfs b (\<lambda>_. 0))"
  using assms by (simp add: sfs_clear_block_def rwblock_write)

text \<open>Runs of consecutive blocks: what a sequence of reads collects from position \<open>p\<close> on.\<close>

definition gather :: "(nat \<Rightarrow> mem) \<Rightarrow> nat \<Rightarrow> nat \<Rightarrow> nat \<Rightarrow> mem \<Rightarrow> mem" where
  "gather f b p n buf = (\<lambda>j. if p \<le> j \<and> j < p + n * 4096
      then f (b + (j - p) div 4096) ((j - p) mod 4096) else buf j)"

lemma gather_0 [simp]: "gather f b p 0 buf = buf"
  by (auto simp: gather_def fun_eq_iff)

lemma gather_Suc: "gather f (b + 1) (p + 4096) n (blit buf p (f b) 0 4096) = gather f b p (Suc n) buf"
proof
  fix j
  show "gather f (b + 1) (p + 4096) n (blit buf p (f b) 0 4096) j = gather f b p (Suc n) buf j"
  proof (cases "p + 4096 \<le> j")
    case True
    then have "(j - p) div 4096 = 1 + (j - (p + 4096)) div 4096" "(j - p) mod 4096 = (j - (p + 4096)) mod 4096"
      using le_div_geq [of 4096 "j - p"] le_mod_geq [of 4096 "j - p"] by simp_all
    then show ?thesis using True by (auto simp: gather_def blit_def)
  qed (auto simp: gather_def blit_def)
qed

lemma block_succ: "b < n \<Longrightarrow> n \<le> 1048576 \<Longrightarrow> Suc b mod 4294967296 = Suc b"
  by simp

lemma rblock_loop:
  "io_ok sfs \<Longrightarrow> 0 < b \<Longrightarrow> b + n \<le> s_blocks (super sfs)
   \<Longrightarrow> sfs_rwblock sfs buf p b n False = Some (Inr (), sfs, gather (fblk sfs) b p n buf)"
proof (induction n arbitrary: buf p b)
  case (Suc n)
  then have "b < s_blocks (super sfs)" "Suc b mod 4294967296 = Suc b"
    by (simp_all add: io_ok_def dev_ok_def)
  with Suc.IH [of "b + 1" "blit buf p (fblk sfs b) 0 4096" "p + 4096"] Suc.prems
  show ?case by (simp add: rwblock_read SFS_BLKSIZE_def gather_Suc [of "fblk sfs" b p n buf, simplified])
qed simp

lemma init_freemap_loop_ok:
  "dev_ok d \<Longrightarrow> b + n \<le> d_blocks d
   \<Longrightarrow> init_freemap_loop d buf p b n = Some (Inr (), d, gather (dblk d) b p n buf)"
proof (induction n arbitrary: buf p b)
  case (Suc n)
  then have b: "b < d_blocks d" "Suc b mod 4294967296 = Suc b" "b * 4096 mod 4294967296 = b * 4096"
    by (simp_all add: dev_ok_def)
  with Suc.IH [of "b + 1" "blit buf p (dblk d b) 0 4096" "p + 4096"] Suc.prems
  show ?case
    by (simp add: sfs_init_read_def disk0_io_read_one SFS_BLKSIZE_def
        gather_Suc [of "dblk d" b p n buf, simplified] del: of_nat_mult)
qed simp

lemma wblock_loop:
  assumes "io_ok sfs" "0 < b" "b + n \<le> s_blocks (super sfs)"
  shows "\<exists>sfs'. sfs_rwblock sfs buf p b n True = Some (Inr (), sfs', buf)
     \<and> super sfs' = super sfs \<and> freemap sfs' = freemap sfs \<and> super_dirty sfs' = super_dirty sfs
     \<and> io_ok sfs' \<and> d_blocks (dev sfs') = d_blocks (dev sfs) \<and> d_blocksize (dev sfs') = d_blocksize (dev sfs)
     \<and> (\<forall>c i. i < 4096 \<longrightarrow> fblk sfs' c i =
          (if b \<le> c \<and> c < b + n then buf (p + (c - b) * 4096 + i) else fblk sfs c i))"
  using assms
proof (induction n arbitrary: sfs p b)
  case 0
  then show ?case by auto
next
  case (Suc n)
  let ?s = "put_blk sfs b (\<lambda>i. buf (p + i))"
  have bl: "b < s_blocks (super sfs)" using Suc.prems by simp
  have w: "(b + 1) mod 4294967296 = b + 1"
    using Suc.prems by (simp add: io_ok_def dev_ok_def)
  have ds: "d_blocks (dev ?s) = d_blocks (dev sfs)" "d_blocksize (dev ?s) = d_blocksize (dev sfs)"
    by (simp_all add: put_blk_def dev_put_def)
  obtain s' where s': "sfs_rwblock ?s buf (p + 4096) (b + 1) n True = Some (Inr (), s', buf)"
     "super s' = super ?s" "freemap s' = freemap ?s" "super_dirty s' = super_dirty ?s" "io_ok s'"
     "d_blocks (dev s') = d_blocks (dev ?s)" "d_blocksize (dev s') = d_blocksize (dev ?s)"
     and f: "\<And>c i. i < 4096 \<Longrightarrow> fblk s' c i =
          (if b + 1 \<le> c \<and> c < b + 1 + n then buf (p + 4096 + (c - (b + 1)) * 4096 + i) else fblk ?s c i)"
    using Suc.IH [of ?s "b + 1" "p + 4096"] Suc.prems by auto
  have fb: "fblk s' c i = (if b \<le> c \<and> c < b + Suc n then buf (p + (c - b) * 4096 + i) else fblk sfs c i)"
    if "i < 4096" for c i
  proof (cases "b + 1 \<le> c")
    case True
    then have "4096 + (c - (b + 1)) * 4096 = (c - b) * 4096" by (simp add: diff_mult_distrib)
    then show ?thesis using f [OF that, of c] True that by (auto simp: add.assoc)
  next
    case False
    then show ?thesis using f [OF that, of c] that by auto
  qed
  have "sfs_rwblock sfs buf p b (Suc n) True = Some (Inr (), s', buf)"
    using Suc.prems(1,2) bl s'(1) w by (simp add: rwblock_write SFS_BLKSIZE_def)
  then show ?case using s' fb ds by (intro exI [of _ s']) auto
qed

section \<open>Writing the metadata and mounting again\<close>

text \<open>
  The state of a mounted file system: the device is large enough, the free map is well formed and
  covers the volume, only blocks of the volume other than the superblock are free, and the
  superblock counts them.
\<close>

definition fs_ok :: "sfs_fs \<Rightarrow> bool" where
  "fs_ok sfs \<longleftrightarrow> io_ok sfs \<and> bm_ok (freemap sfs)
     \<and> nbits (freemap sfs) = sfs_freemap_bits (super sfs)
     \<and> 32 * nwords (freemap sfs) = nbits (freemap sfs)
     \<and> free_bits (freemap sfs) \<subseteq> {0 <..< s_blocks (super sfs)}
     \<and> s_unused_blocks (super sfs) = card (free_bits (freemap sfs))"

text \<open>What the formatter writes into the superblock; the free map fits into the volume.\<close>

definition super_ok :: "sfs_super \<Rightarrow> bool" where
  "super_ok s \<longleftrightarrow> s_magic s = SFS_MAGIC \<and> 0 < s_blocks s \<and> length (s_info s) = 32 \<and> s_info s ! 31 = 0
     \<and> 2 + sfs_freemap_blocks s \<le> s_blocks s"

lemma mem_words_mem:
  assumes "\<And>j. j < 4 * length ws \<Longrightarrow> m j = words_mem ws j"
  shows "mem_words m (length ws) = ws"
proof (rule nth_equalityI)
  show "length (mem_words m (length ws)) = length ws" by (simp add: mem_words_def)
next
  fix k assume "k < length (mem_words m (length ws))"
  then have k: "k < length ws" by (simp add: mem_words_def)
  have "rd 4 m (4 * k) = unat (ws ! k)"
  proof (rule rd_le_eq)
    fix i :: nat assume "i < 4"
    then show "m (4 * k + i) = le (unat (ws ! k)) i"
      using assms [of "4 * k + i"] k by (simp add: words_mem_def)
  qed (use unsigned_less [of "ws ! k", where ?'a = nat] in simp)
  then show "mem_words m (length ws) ! k = ws ! k" using k by (simp add: mem_words_def)
qed

lemma mem_super_mem:
  assumes "\<And>i. i < 4096 \<Longrightarrow> m i = super_mem s i"
    and "s_magic s < 2 ^ 32" "s_blocks s < 2 ^ 32" "s_unused_blocks s < 2 ^ 32" "length (s_info s) = 32"
  shows "mem_super m = s"
proof -
  have "rd 4 m 0 = s_magic s" "rd 4 m 4 = s_blocks s" "rd 4 m 8 = s_unused_blocks s"
    by (rule rd_le_eq; use assms in \<open>simp add: super_mem_def\<close>)+
  moreover have "List.map (\<lambda>i. m (12 + i)) [0 ..< 32] = s_info s"
    by (rule nth_equalityI) (use assms in \<open>simp_all add: super_mem_def\<close>)
  ultimately show ?thesis by (simp add: mem_super_def SFS_MAX_INFO_LEN_def)
qed

lemma count_unused_card:
  "i + n \<le> nbits fm \<Longrightarrow> count_unused fm i n u = Some (u + card (free_bits fm \<inter> {i ..< i + n}))"
proof (induction n arbitrary: i u)
  case (Suc n)
  have split: "free_bits fm \<inter> {i ..< i + Suc n}
      = (free_bits fm \<inter> {Suc i ..< Suc i + n}) \<union> (if i \<in> free_bits fm then {i} else {})"
    by (auto simp: not_less_eq_eq le_eq_less_or_eq)
  have "card (free_bits fm \<inter> {i ..< i + Suc n})
      = card (free_bits fm \<inter> {Suc i ..< Suc i + n}) + (if i \<in> free_bits fm then 1 else 0)"
    unfolding split by (subst card_Un_disjoint) auto
  then show ?case using Suc by (simp add: bitmap_test_spec)
qed simp

lemma freemap_sizes:
  assumes "s_blocks s \<le> 2 ^ 20"
  shows "sfs_freemap_bits s = sfs_freemap_blocks s * 32768" "s_blocks s \<le> sfs_freemap_bits s"
    "sfs_freemap_blocks s \<le> 32" "0 < s_blocks s \<Longrightarrow> 0 < sfs_freemap_blocks s"
proof -
  let ?q = "(s_blocks s + 32767) div 32768"
  have q: "?q \<le> 32" "s_blocks s \<le> ?q * 32768" "0 < s_blocks s \<Longrightarrow> 0 < ?q" using assms by auto
  then have "sfs_freemap_blocks s = ?q" "sfs_freemap_bits s = ?q * 32768"
    by (simp_all add: sfs_freemap_blocks_def sfs_freemap_bits_def SFS_BLKBITS_def SFS_BLKSIZE_def)
  with q show "sfs_freemap_bits s = sfs_freemap_blocks s * 32768" "s_blocks s \<le> sfs_freemap_bits s"
    "sfs_freemap_blocks s \<le> 32" "0 < s_blocks s \<Longrightarrow> 0 < sfs_freemap_blocks s" by simp_all
qed

lemma fs_ok_small: "fs_ok sfs \<Longrightarrow> s_blocks (super sfs) \<le> 2 ^ 20"
  by (simp add: fs_ok_def io_ok_def dev_ok_def)

lemma sync_meta_ok:
  assumes ok: "fs_ok sfs" and s: "super_ok (super sfs)" and dirty: "super_dirty sfs"
  shows "\<exists>sfs'. sync_meta sfs = Some (Inr (), sfs')
     \<and> super sfs' = super sfs \<and> freemap sfs' = freemap sfs \<and> \<not> super_dirty sfs' \<and> io_ok sfs'
     \<and> d_blocksize (dev sfs') = d_blocksize (dev sfs)
     \<and> (\<forall>i < 4096. dblk (dev sfs') 0 i = super_mem (super sfs) i)
     \<and> (\<forall>j < sfs_freemap_blocks (super sfs) * 4096.
          dblk (dev sfs') (2 + j div 4096) (j mod 4096) = words_mem (bmap (freemap sfs)) j)"
proof -
  let ?s1 = "put_blk (sfs\<lparr>super_dirty := False\<rparr>) 0 (super_mem (super sfs))"
  let ?n = "sfs_freemap_blocks (super sfs)"
  have io: "io_ok (sfs\<lparr>super_dirty := False\<rparr>)" using ok by (simp add: fs_ok_def io_ok_def)
  have 1: "sfs_sync_super (sfs\<lparr>super_dirty := False\<rparr>) = Some (Inr (), ?s1)"
    using io s by (simp add: sfs_sync_super_def rwblock_write SFS_BLKN_SUPER_def super_ok_def)
  have b: "2 + ?n \<le> s_blocks (super ?s1)" using s by (simp add: super_ok_def)
  obtain s2 where s2: "sfs_rwblock ?s1 (words_mem (bmap (freemap sfs))) 0 2 ?n True
        = Some (Inr (), s2, words_mem (bmap (freemap sfs)))"
     "super s2 = super sfs" "freemap s2 = freemap sfs" "\<not> super_dirty s2" "io_ok s2"
     "d_blocksize (dev s2) = d_blocksize (dev ?s1)"
     and f: "\<And>c i. i < 4096 \<Longrightarrow> fblk s2 c i =
          (if 2 \<le> c \<and> c < 2 + ?n then words_mem (bmap (freemap sfs)) ((c - 2) * 4096 + i) else fblk ?s1 c i)"
    using wblock_loop [OF _ _ b, of "words_mem (bmap (freemap sfs))" 0] io by auto
  have "sync_meta sfs = Some (Inr (), s2)"
    using dirty 1 s2(1)
    by (simp add: sync_meta_def sfs_sync_freemap_def bitmap_getdata_def sfs_wblock_def SFS_BLKN_FREEMAP_def)
  moreover have "dblk (dev s2) 0 i = super_mem (super sfs) i" if "i < 4096" for i
    using f [OF that, of 0] that by (simp add: fblk_def [symmetric])
  moreover have "dblk (dev s2) (2 + j div 4096) (j mod 4096) = words_mem (bmap (freemap sfs)) j"
    if "j < ?n * 4096" for j
  proof -
    have "j div 4096 < ?n" using that by (simp add: less_mult_imp_div_less)
    then show ?thesis using f [of "j mod 4096" "2 + j div 4096"] by (simp add: fblk_def [symmetric])
  qed
  ultimately show ?thesis using s2 by (intro exI [of _ s2]) (simp add: put_blk_def dev_put_def)
qed


lemma mount_ok:
  assumes ok: "fs_ok sfs" and s: "super_ok (super sfs)" and d: "dev_ok d" "s_blocks (super sfs) \<le> d_blocks d"
    and bs: "d_blocksize d = 4096"
    and 0: "\<And>i. i < 4096 \<Longrightarrow> dblk d 0 i = super_mem (super sfs) i"
    and fm: "\<And>j. j < sfs_freemap_blocks (super sfs) * 4096
       \<Longrightarrow> dblk d (2 + j div 4096) (j mod 4096) = words_mem (bmap (freemap sfs)) j"
  shows "sfs_do_mount True True True True True d
     = Some (Inr \<lparr>super = super sfs, dev = d, freemap = freemap sfs, super_dirty = False\<rparr>, d)"
proof -
  let ?s = "super sfs"
  let ?n = "sfs_freemap_blocks ?s"
  note small = fs_ok_small [OF ok] and pos = conjunct1 [OF conjunct2 [OF s [unfolded super_ok_def]]]
  note fz = freemap_sizes [OF small]
  have bok: "bm_ok (freemap sfs)" and nb: "nbits (freemap sfs) = ?n * 32768" and nw: "nwords (freemap sfs) = ?n * 1024"
    and un: "s_unused_blocks ?s = card (free_bits (freemap sfs))"
    and sub: "free_bits (freemap sfs) \<subseteq> {0 <..< s_blocks ?s}"
    using ok fz by (auto simp: fs_ok_def)
  have "card (free_bits (freemap sfs)) \<le> card {0 <..< s_blocks ?s}" by (rule card_mono) (use sub in auto)
  then have "card (free_bits (freemap sfs)) \<le> s_blocks ?s" by simp
  then have "mem_super (blit (\<lambda>_. 0) 0 (dblk d 0) 0 4096) = ?s"
    using 0 small s un by (intro mem_super_mem) (auto simp: blit_def super_ok_def SFS_MAGIC_def)
  moreover have "0 < d_blocks d" using d s by (simp add: super_ok_def)
  ultimately have rd: "sfs_init_read d SFS_BLKN_SUPER (\<lambda>_. 0) 0 = Some (Inr (), d, blit (\<lambda>_. 0) 0 (dblk d 0) 0 4096)"
    and ms: "mem_super (blit (\<lambda>_. 0) 0 (dblk d 0) 0 4096) = ?s"
    using disk0_io_read_one [OF d(1), of 0 "\<lambda>_. 0" "\<lambda>_. 0" 0]
    by (simp_all add: sfs_init_read_def SFS_BLKN_SUPER_def SFS_BLKSIZE_def)
  have info: "?s\<lparr>s_info := (s_info ?s)[SFS_MAX_INFO_LEN := 0]\<rparr> = ?s"
    using s list_update_id [of "s_info ?s" 31] by (simp add: super_ok_def SFS_MAX_INFO_LEN_def)
  obtain fm0 where fm0: "bitmap_create True True (sfs_freemap_bits ?s) = Some (Some fm0)" "bm_ok fm0" "nbits fm0 = ?n * 32768"
    using bitmap_create_spec [of "sfs_freemap_bits ?s"] fz pos by auto
  then have nw0: "nwords fm0 = ?n * 1024" using bitmap_create_nwords [OF fm0(1)] fz by simp
  have b: "2 + ?n \<le> d_blocks d" using s d(2) by (simp add: super_ok_def)
  let ?obj = "gather (dblk d) 2 0 ?n (words_mem (bmap fm0))"
  have len: "length (bmap (freemap sfs)) = ?n * 1024" using bok nw by (simp add: bm_ok_def)
  have "mem_words ?obj (length (bmap (freemap sfs))) = bmap (freemap sfs)"
    by (rule mem_words_mem) (use fm len in \<open>simp add: gather_def\<close>)
  then have "fm0\<lparr>bmap := mem_words ?obj (nwords fm0)\<rparr> = freemap sfs"
    using nw0 len fm0(3) nb nw by (simp add: bitmap.equality)
  moreover have "?n * 4096 mod 4294967296 = ?n * 4096" using fz by simp
  ultimately have ifm: "sfs_init_freemap d fm0 SFS_BLKN_FREEMAP ?n = Some (Inr (), d, freemap sfs)"
    using init_freemap_loop_ok [OF d(1) b] nw0
    by (simp add: sfs_init_freemap_def bitmap_getdata_def SFS_BLKN_FREEMAP_def SFS_BLKSIZE_def)
  have "free_bits (freemap sfs) \<inter> {0 ..< sfs_freemap_bits ?s} = free_bits (freemap sfs)"
    using sub fz(2) by fastforce
  then have "count_unused (freemap sfs) 0 (sfs_freemap_bits ?s) 0 = Some (s_unused_blocks ?s)"
    using count_unused_card [of 0 "sfs_freemap_bits ?s" "freemap sfs" 0] nb fz un by simp
  then show ?thesis using bs rd ms info fm0(1) ifm d(2) s
    by (simp add: sfs_do_mount_def SFS_BLKSIZE_def super_ok_def Let_def)
qed


text \<open>A volume of 40 blocks, of which 32 to 39 are free.\<close>

definition ex_super :: sfs_super where
  "ex_super = \<lparr>s_magic = SFS_MAGIC, s_blocks = 40, s_unused_blocks = 8, s_info = replicate 32 0\<rparr>"

definition ex_freemap :: bitmap where
  "ex_freemap = \<lparr>nbits = 32768, nwords = 1024, bmap = (replicate 1024 0)[1 := 0xFF]\<rparr>"

definition ex_dev :: device where
  "ex_dev = \<lparr>d_blocks = 64, d_blocksize = 4096, d_ide = \<lparr>valid = True, secs = 512, store = (\<lambda>_. 0)\<rparr>\<rparr>"

definition ex_sfs :: sfs_fs where
  "ex_sfs = \<lparr>super = ex_super, dev = ex_dev, freemap = ex_freemap, super_dirty = True\<rparr>"

lemma ex_free: "free_bits ex_freemap = {32 ..< 40}"
proof -
  have m: "(0xFF :: 32 word) = mask 8" by (simp add: mask_eq_exp_minus_1)
  have b: "bm_bit ex_freemap i \<longleftrightarrow> 32 \<le> i \<and> i < 40" if "i < 32768" for i
  proof (cases "i div 32 = 1")
    case True
    then have "i = 32 + i mod 32" by (metis div_mult_mod_eq mult_1)
    moreover have "bm_bit ex_freemap i \<longleftrightarrow> i mod 32 < 8"
      using True by (simp add: bm_bit_def ex_freemap_def m bit_mask_iff)
    ultimately show ?thesis using True by (simp; linarith)
  next
    case False
    moreover have "i div 32 < 1024" using that by (simp add: less_mult_imp_div_less)
    ultimately have "\<not> bm_bit ex_freemap i" by (simp add: bm_bit_def ex_freemap_def)
    with False show ?thesis by (auto simp: div_nat_eqI)
  qed
  have "nbits ex_freemap = 32768" by (simp add: ex_freemap_def)
  with b show ?thesis unfolding free_bits_def by (auto 0 3)
qed

lemma ex_sfs_ok: "fs_ok ex_sfs" "super_ok (super ex_sfs)" "super_dirty ex_sfs" "d_blocksize (dev ex_sfs) = 4096"
  using ex_free
  by (auto simp: fs_ok_def io_ok_def dev_ok_def super_ok_def ex_sfs_def ex_dev_def ex_super_def bm_ok_def
      ex_freemap_def sfs_freemap_bits_def sfs_freemap_blocks_def SFS_BLKBITS_def SFS_BLKSIZE_def)

text \<open>
  C19. Writing the metadata and mounting: on a consistent file system whose metadata is dirty,
  \<open>sfs_sync\<close> writes superblock and free map without error, and mounting the device afterwards
  (every allocation succeeding) passes all checks of \<open>sfs_do_mount\<close>, the count of the unused
  blocks included, and yields exactly the state that was written.
\<close>

theorem sync_mount_roundtrip:
  assumes "fs_ok sfs" "super_ok (super sfs)" "super_dirty sfs" "d_blocksize (dev sfs) = SFS_BLKSIZE"
  shows "\<exists>sfs'. sync_meta sfs = Some (Inr (), sfs')
     \<and> super sfs' = super sfs \<and> freemap sfs' = freemap sfs
     \<and> sfs_do_mount True True True True True (dev sfs') = Some (Inr sfs', dev sfs')"
proof -
  obtain s where s: "sync_meta sfs = Some (Inr (), s)" "super s = super sfs" "freemap s = freemap sfs"
    "\<not> super_dirty s" "io_ok s" "d_blocksize (dev s) = d_blocksize (dev sfs)"
    "\<forall>i < 4096. dblk (dev s) 0 i = super_mem (super sfs) i"
    "\<forall>j < sfs_freemap_blocks (super sfs) * 4096.
       dblk (dev s) (2 + j div 4096) (j mod 4096) = words_mem (bmap (freemap sfs)) j"
    using sync_meta_ok [OF assms(1-3)] by blast
  have "sfs_do_mount True True True True True (dev s)
     = Some (Inr \<lparr>super = super sfs, dev = dev s, freemap = freemap sfs, super_dirty = False\<rparr>, dev s)"
    using s assms(4) by (intro mount_ok [OF assms(1,2)]) (simp_all add: io_ok_def SFS_BLKSIZE_def)
  moreover have "\<lparr>super = super sfs, dev = dev s, freemap = freemap sfs, super_dirty = False\<rparr> = s"
    using s by (intro sfs_fs.equality) simp_all
  ultimately show ?thesis using s by auto
qed

theorem sync_mount_roundtrip_witness:
  "\<exists>sfs'. sync_meta ex_sfs = Some (Inr (), sfs')
     \<and> sfs_do_mount True True True True True (dev sfs') = Some (Inr sfs', dev sfs')"
  using sync_mount_roundtrip [of ex_sfs] ex_sfs_ok by (auto simp: SFS_BLKSIZE_def)

end
