(* ===== verification/Page_Table.thy ===== *)
theory Page_Table
  imports Pmm_Default Sfs_Io
begin

text \<open>
  Physical memory and page tables: \<open>kern/mm/pmm.c\<close>, \<open>pmm.h\<close>, \<open>mmu.h\<close>.  A frame of memory is a
  memory object of 4096 bytes, named by its physical page number, and a kernel virtual address is
  the frame it maps; a page-table entry is the 64-bit word at its place in a frame.  Page
  descriptors are those of the allocator; descriptor \<open>i\<close> belongs to frame \<open>i + nbase\<close>.  \<open>None\<close> is a
  panic or an access through a pointer to nothing.  The TLB is not modelled.
\<close>

unbundle bit_operations_syntax

definition PGSIZE :: nat where "PGSIZE = 4096"
definition PTSIZE :: nat where "PTSIZE = PGSIZE * 512"
definition PDSIZE :: nat where "PDSIZE = PTSIZE * 512"
definition NPTEENTRY :: nat where "NPTEENTRY = 512"
definition KERNBASE :: nat where "KERNBASE = 0xFFFFFFFFC0200000"
definition KERNTOP :: nat where "KERNTOP = KERNBASE + 0x7E00000"
definition PHYSICAL_MEMORY_END :: nat where "PHYSICAL_MEMORY_END = 0x88000000"
definition USERTOP :: nat where "USERTOP = 0x80000000"
definition USERBASE :: nat where "USERBASE = 0x00200000"
definition KSTACKPAGE :: nat where "KSTACKPAGE = 2"
definition nbase :: nat where "nbase = 0x80000000 div PGSIZE"
definition npage :: nat where "npage = min PHYSICAL_MEMORY_END KERNTOP div PGSIZE"

definition PTE_V :: "64 word" where "PTE_V = 0x001"
definition PTE_R :: "64 word" where "PTE_R = 0x002"
definition PTE_W :: "64 word" where "PTE_W = 0x004"
definition PTE_X :: "64 word" where "PTE_X = 0x008"
definition PTE_U :: "64 word" where "PTE_U = 0x010"
definition READ_WRITE :: "64 word" where "READ_WRITE = PTE_R OR PTE_W OR PTE_V"
definition PTE_USER :: "64 word" where "PTE_USER = PTE_R OR PTE_W OR PTE_X OR PTE_U OR PTE_V"

definition ROUNDDOWN :: "nat \<Rightarrow> nat \<Rightarrow> nat" where "ROUNDDOWN a n = a - a mod n"
definition ROUNDUP :: "nat \<Rightarrow> nat \<Rightarrow> nat" where "ROUNDUP a n = ROUNDDOWN ((a + n - 1) mod 2 ^ 64) n"

definition USER_ACCESS :: "nat \<Rightarrow> nat \<Rightarrow> bool" where
  "USER_ACCESS lo hi \<longleftrightarrow> USERBASE \<le> lo \<and> lo < hi \<and> hi \<le> USERTOP"

definition KERN_ACCESS :: "nat \<Rightarrow> nat \<Rightarrow> bool" where
  "KERN_ACCESS lo hi \<longleftrightarrow> KERNBASE \<le> lo \<and> lo < hi \<and> hi \<le> KERNTOP"

definition PDX1 :: "nat \<Rightarrow> nat" where "PDX1 la = la div 2 ^ 30 mod 512"
definition PDX0 :: "nat \<Rightarrow> nat" where "PDX0 la = la div 2 ^ 21 mod 512"
definition PTX :: "nat \<Rightarrow> nat" where "PTX la = la div 2 ^ 12 mod 512"

section \<open>Entries, pages and frames\<close>

record phys =
  pool :: pmm
  frame :: "nat \<Rightarrow> mem"
  swap_dev :: ide_device
  swap_init_ok :: bool
  pra_list :: "nat list"
  pra_vaddr :: "nat \<Rightarrow> nat"

definition pte_create :: "nat \<Rightarrow> 64 word \<Rightarrow> 64 word" where
  "pte_create ppn perm = push_bit 10 (word_of_nat ppn) OR PTE_V OR perm"

text \<open>\<open>PTE_ADDR\<close> and \<open>PPN\<close> of it: the physical page number in an entry.\<close>

definition PTE_ADDR :: "64 word \<Rightarrow> 64 word" where
  "PTE_ADDR e = push_bit 2 (e AND NOT 0x3FF)"

definition PPN :: "64 word \<Rightarrow> nat" where "PPN pa = unat (drop_bit 12 pa)"

definition pte_get :: "phys \<Rightarrow> nat \<times> nat \<Rightarrow> 64 word" where
  "pte_get s a = word_of_nat (rd 8 (frame s (fst a)) (8 * snd a))"

definition pte_set :: "nat \<times> nat \<Rightarrow> 64 word \<Rightarrow> phys \<Rightarrow> phys" where
  "pte_set a e s = s\<lparr>frame := (frame s)(fst a := blit (frame s (fst a)) (8 * snd a) (le (unat e)) 0 8)\<rparr>"

definition valid_pte :: "64 word \<Rightarrow> bool" where "valid_pte e \<longleftrightarrow> e AND PTE_V \<noteq> 0"

definition page2ppn :: "nat \<Rightarrow> nat" where "page2ppn p = p + nbase"

definition pa2page :: "64 word \<Rightarrow> nat option" where
  "pa2page pa = do { kassert (PPN pa < npage); kassert (nbase \<le> PPN pa); Some (PPN pa - nbase) }"

text \<open>\<open>KADDR\<close> of a page's address: the frame.\<close>

definition KADDR :: "nat \<Rightarrow> nat option" where
  "KADDR ppn = do { kassert (ppn < npage); Some ppn }"

definition page2kva :: "nat \<Rightarrow> nat option" where "page2kva p = KADDR (page2ppn p)"

text \<open>The kernel address of frame \<open>k\<close>, and the checks of \<open>PADDR\<close>.\<close>

definition kva :: "nat \<Rightarrow> nat" where "kva k = (k * PGSIZE + 0xFFFFFFFF40000000) mod 2 ^ 64"

definition PADDR :: "nat \<Rightarrow> nat option" where
  "PADDR k = do { kassert (KERNBASE \<le> kva k); Some (k * PGSIZE) }"

definition kva2page :: "nat \<Rightarrow> nat option" where
  "kva2page k = do { pa \<leftarrow> PADDR k; pa2page (word_of_nat pa) }"

definition pte2page :: "64 word \<Rightarrow> nat option" where
  "pte2page e = do { kassert (valid_pte e); pa2page (PTE_ADDR e) }"

definition pde2page :: "64 word \<Rightarrow> nat option" where "pde2page e = pa2page (PTE_ADDR e)"

definition page_ref :: "phys \<Rightarrow> nat \<Rightarrow> int" where "page_ref s p = ref (pages (pool s) p)"

definition set_page_ref :: "nat \<Rightarrow> int \<Rightarrow> phys \<Rightarrow> phys" where
  "set_page_ref p v s = s\<lparr>pool := upd_page p (\<lambda>x. x\<lparr>ref := v\<rparr>) (pool s)\<rparr>"

definition page_ref_inc :: "nat \<Rightarrow> phys \<Rightarrow> phys" where
  "page_ref_inc p s = set_page_ref p (page_ref s p + 1) s"

definition page_ref_dec :: "nat \<Rightarrow> phys \<Rightarrow> phys" where
  "page_ref_dec p s = set_page_ref p (page_ref s p - 1) s"

section \<open>Allocating pages\<close>

text \<open>
  \<open>check_mm_struct\<close> is \<open>NULL\<close> outside the self tests, and then \<open>swap_out\<close> reads a field of \<open>NULL\<close>.
\<close>

definition alloc_pages :: "nat \<Rightarrow> phys \<Rightarrow> (nat option \<times> phys) option" where
  "alloc_pages n s = do {
     (page, pl) \<leftarrow> default_alloc_pages n (pool s);
     let s = s\<lparr>pool := pl\<rparr>;
     if page \<noteq> None \<or> n > 1 \<or> \<not> swap_init_ok s then Some (page, s) else None
   }"

definition free_pages :: "nat \<Rightarrow> nat \<Rightarrow> phys \<Rightarrow> phys option" where
  "free_pages base n s = do { pl \<leftarrow> default_free_pages base n (pool s); Some (s\<lparr>pool := pl\<rparr>) }"

definition nr_free_pages :: "phys \<Rightarrow> nat" where "nr_free_pages s = default_nr_free_pages (pool s)"

text \<open>\<open>page_init\<close>: \<open>freemem\<close> is the first physical address behind the page descriptors.\<close>

fun reserve_pages :: "nat \<Rightarrow> nat \<Rightarrow> pmm \<Rightarrow> pmm" where
  "reserve_pages i 0 s = s"
| "reserve_pages i (Suc n) s = reserve_pages (Suc i) n (upd_page i SetPageReserved s)"

definition page_init :: "nat \<Rightarrow> phys \<Rightarrow> phys option" where
  "page_init freemem s = do {
     let s = s\<lparr>pool := reserve_pages 0 (npage - nbase) (pool s)\<rparr>;
     let mem_begin = ROUNDUP freemem PGSIZE;
     let mem_end = ROUNDDOWN PHYSICAL_MEMORY_END PGSIZE;
     if freemem < mem_end then do {
       p \<leftarrow> pa2page (word_of_nat mem_begin);
       pl \<leftarrow> default_init_memmap p ((mem_end - mem_begin) div PGSIZE) (pool s);
       Some (s\<lparr>pool := pl\<rparr>)
     } else Some s
   }"

section \<open>Walking and building the tables\<close>

text \<open>
  One level of \<open>get_pte\<close>: the table an entry points to, made when it is missing and \<open>create\<close> is set.
\<close>

definition get_table :: "phys \<Rightarrow> nat \<times> nat \<Rightarrow> bool \<Rightarrow> (nat option \<times> phys) option" where
  "get_table s pdep create = do {
     (ok, s) \<leftarrow>
       (if \<not> valid_pte (pte_get s pdep) then
          (if \<not> create then Some (False, s)
           else do {
             (page, s) \<leftarrow> alloc_pages 1 s;
             (case page of
                None \<Rightarrow> Some (False, s)
              | Some p \<Rightarrow> do {
                  let s = set_page_ref p 1 s;
                  ppn \<leftarrow> KADDR (page2ppn p);
                  let s = s\<lparr>frame := (frame s)(ppn := (\<lambda>_. 0))\<rparr>;
                  Some (True, pte_set pdep (pte_create (page2ppn p) (PTE_U OR PTE_V)) s)
                })
           })
        else Some (True, s));
     if ok then do { t \<leftarrow> KADDR (PPN (PTE_ADDR (pte_get s pdep))); Some (Some t, s) } else Some (None, s)
   }"

definition get_pte :: "phys \<Rightarrow> nat \<Rightarrow> nat \<Rightarrow> bool \<Rightarrow> ((nat \<times> nat) option \<times> phys) option" where
  "get_pte s pgdir la create = do {
     (pd0, s) \<leftarrow> get_table s (pgdir, PDX1 la) create;
     (case pd0 of
        None \<Rightarrow> Some (None, s)
      | Some pd0 \<Rightarrow> do {
          (pt, s) \<leftarrow> get_table s (pd0, PDX0 la) create;
          Some (map_option (\<lambda>pt. (pt, PTX la)) pt, s)
        })
   }"

definition get_page :: "phys \<Rightarrow> nat \<Rightarrow> nat \<Rightarrow> (nat option \<times> (nat \<times> nat) option) option" where
  "get_page s pgdir la = do {
     (ptep, s) \<leftarrow> get_pte s pgdir la False;
     (case ptep of
        Some a \<Rightarrow> if valid_pte (pte_get s a) then do { p \<leftarrow> pte2page (pte_get s a); Some (Some p, ptep) } else Some (None, ptep)
      | None \<Rightarrow> Some (None, ptep))
   }"

definition page_remove_pte :: "nat \<times> nat \<Rightarrow> phys \<Rightarrow> phys option" where
  "page_remove_pte ptep s =
     (if valid_pte (pte_get s ptep) then do {
        page \<leftarrow> pte2page (pte_get s ptep);
        let s = page_ref_dec page s;
        s \<leftarrow> (if page_ref s page = 0 then free_pages page 1 s else Some s);
        Some (pte_set ptep 0 s)
      } else Some s)"

definition page_remove :: "nat \<Rightarrow> nat \<Rightarrow> phys \<Rightarrow> phys option" where
  "page_remove pgdir la s = do {
     (ptep, s) \<leftarrow> get_pte s pgdir la False;
     (case ptep of None \<Rightarrow> Some s | Some a \<Rightarrow> page_remove_pte a s)
   }"

definition page_insert :: "nat \<Rightarrow> nat \<Rightarrow> nat \<Rightarrow> 64 word \<Rightarrow> phys \<Rightarrow> ((errno + unit) \<times> phys) option" where
  "page_insert pgdir page la perm s = do {
     (ptep, s) \<leftarrow> get_pte s pgdir la True;
     (case ptep of
        None \<Rightarrow> Some (Inl E_NO_MEM, s)
      | Some a \<Rightarrow> do {
          let s = page_ref_inc page s;
          s \<leftarrow> (if valid_pte (pte_get s a) then do {
                  p \<leftarrow> pte2page (pte_get s a);
                  if p = page then Some (page_ref_dec page s) else page_remove_pte a s
                } else Some s);
          Some (Inr (), pte_set a (pte_create (page2ppn page) (PTE_V OR perm)) s)
        })
   }"

text \<open>\<open>check_mm_struct\<close> being \<open>NULL\<close>, the page is not made swappable.\<close>

definition pgdir_alloc_page :: "nat \<Rightarrow> nat \<Rightarrow> 64 word \<Rightarrow> phys \<Rightarrow> (nat option \<times> phys) option" where
  "pgdir_alloc_page pgdir la perm s = do {
     (page, s) \<leftarrow> alloc_pages 1 s;
     (case page of
        None \<Rightarrow> Some (None, s)
      | Some p \<Rightarrow> do {
          (ret, s) \<leftarrow> page_insert pgdir p la perm s;
          (case ret of
             Inl _ \<Rightarrow> do { s \<leftarrow> free_pages p 1 s; Some (None, s) }
           | Inr _ \<Rightarrow> Some (Some p, s))
        })
   }"

fun map_loop :: "nat \<Rightarrow> nat \<Rightarrow> nat \<Rightarrow> nat \<Rightarrow> 64 word \<Rightarrow> phys \<Rightarrow> phys option" where
  "map_loop pgdir 0 la pa perm s = Some s"
| "map_loop pgdir (Suc n) la pa perm s = do {
     (ptep, s) \<leftarrow> get_pte s pgdir la True;
     a \<leftarrow> ptep;
     let s = pte_set a (pte_create (pa div PGSIZE) (PTE_V OR perm)) s;
     map_loop pgdir n (la + PGSIZE) (pa + PGSIZE) perm s
   }"

definition boot_map_segment :: "nat \<Rightarrow> nat \<Rightarrow> nat \<Rightarrow> nat \<Rightarrow> 64 word \<Rightarrow> phys \<Rightarrow> phys option" where
  "boot_map_segment pgdir la len pa perm s = do {
     kassert (la mod PGSIZE = pa mod PGSIZE);
     let n = ROUNDUP (len + la mod PGSIZE) PGSIZE div PGSIZE;
     map_loop pgdir n (ROUNDDOWN la PGSIZE) (ROUNDDOWN pa PGSIZE) perm s
   }"

definition boot_alloc_page :: "phys \<Rightarrow> (nat \<times> phys) option" where
  "boot_alloc_page s = do {
     (page, s) \<leftarrow> alloc_pages 1 s;
     p \<leftarrow> page;
     k \<leftarrow> page2kva p;
     Some (k, s)
   }"

section \<open>Ranges\<close>

text \<open>One round of the loop of \<open>unmap_range\<close>: where the next one starts.\<close>

definition unmap_one :: "nat \<Rightarrow> nat \<Rightarrow> phys \<Rightarrow> (nat \<times> phys) option" where
  "unmap_one pgdir start s = do {
     (ptep, s) \<leftarrow> get_pte s pgdir start False;
     (case ptep of
        None \<Rightarrow> Some (ROUNDDOWN (start + PTSIZE) PTSIZE, s)
      | Some a \<Rightarrow> do {
          s \<leftarrow> (if pte_get s a \<noteq> 0 then page_remove_pte a s else Some s);
          Some (start + PGSIZE, s)
        })
   }"

lemma next_table: "start < ROUNDDOWN (start + PTSIZE) PTSIZE"
proof -
  have "start mod PTSIZE < PTSIZE" by (simp add: PTSIZE_def PGSIZE_def)
  then show ?thesis by (simp add: ROUNDDOWN_def)
qed

lemma unmap_one_next: "unmap_one pgdir start s = Some (st, s') \<Longrightarrow> start < st"
  using next_table by (auto simp: unmap_one_def PGSIZE_def bind_eq_Some_conv split: option.splits)

function unmap_loop :: "nat \<Rightarrow> nat \<Rightarrow> nat \<Rightarrow> phys \<Rightarrow> phys option" where
  "unmap_loop pgdir start hi s =
     (case unmap_one pgdir start s of
        None \<Rightarrow> None
      | Some (start', s) \<Rightarrow> if start' \<noteq> 0 \<and> start' < hi then unmap_loop pgdir start' hi s else Some s)"
  by pat_completeness auto
termination
  by (relation "measure (\<lambda>(_, start, hi, _). hi - start)") (auto dest: unmap_one_next)

declare unmap_loop.simps [simp del]

definition unmap_range :: "nat \<Rightarrow> nat \<Rightarrow> nat \<Rightarrow> phys \<Rightarrow> phys option" where
  "unmap_range pgdir start hi s = do {
     kassert (start mod PGSIZE = 0 \<and> hi mod PGSIZE = 0);
     kassert (USER_ACCESS start hi);
     unmap_loop pgdir start hi s
   }"

text \<open>The two loops of \<open>exit_range\<close>; the inner one tells whether \<open>free_pd0\<close> is still set.\<close>

definition table_empty :: "phys \<Rightarrow> nat \<Rightarrow> bool" where
  "table_empty s pt \<longleftrightarrow> (\<forall>i \<in> {..< NPTEENTRY}. \<not> valid_pte (pte_get s (pt, i)))"

definition exit_one :: "nat \<Rightarrow> nat \<Rightarrow> bool \<Rightarrow> phys \<Rightarrow> (bool \<times> phys) option" where
  "exit_one pd0 d0start free_pd0 s =
     (let pde0 = pte_get s (pd0, PDX0 d0start) in
      if valid_pte pde0 then do {
        p \<leftarrow> pde2page pde0;
        pt \<leftarrow> page2kva p;
        s \<leftarrow> (if table_empty s pt then do {
                s \<leftarrow> free_pages p 1 s;
                Some (pte_set (pd0, PDX0 d0start) 0 s)
              } else Some s);
        Some (free_pd0, s)
      } else Some (False, s))"

function exit_tables :: "nat \<Rightarrow> nat \<Rightarrow> nat \<Rightarrow> nat \<Rightarrow> bool \<Rightarrow> phys \<Rightarrow> (bool \<times> phys) option" where
  "exit_tables pd0 d1start d0start hi free_pd0 s = do {
     (free_pd0, s) \<leftarrow> exit_one pd0 d0start free_pd0 s;
     let d0start' = d0start + PTSIZE;
     if d0start' \<noteq> 0 \<and> d0start' < d1start + PDSIZE \<and> d0start' < hi
     then exit_tables pd0 d1start d0start' hi free_pd0 s else Some (free_pd0, s)
   }"
  by pat_completeness auto
termination
  by (relation "measure (\<lambda>(_, _, d0start, hi, _, _). hi - d0start)") (auto simp: PTSIZE_def PGSIZE_def)

declare exit_tables.simps [simp del]

function exit_dirs :: "nat \<Rightarrow> nat \<Rightarrow> nat \<Rightarrow> nat \<Rightarrow> phys \<Rightarrow> phys option" where
  "exit_dirs pgdir d1start d0start hi s = do {
     let pde1 = pte_get s (pgdir, PDX1 d1start);
     s \<leftarrow> (if valid_pte pde1 then do {
             p \<leftarrow> pde2page pde1;
             pd0 \<leftarrow> page2kva p;
             (free_pd0, s) \<leftarrow> exit_tables pd0 d1start d0start hi True s;
             if free_pd0 then do {
               s \<leftarrow> free_pages p 1 s;
               Some (pte_set (pgdir, PDX1 d1start) 0 s)
             } else Some s
           } else Some s);
     let d1start' = d1start + PDSIZE;
     if d1start' \<noteq> 0 \<and> d1start' < hi then exit_dirs pgdir d1start' d1start' hi s else Some s
   }"
  by pat_completeness auto
termination
  by (relation "measure (\<lambda>(_, d1start, _, hi, _). hi - d1start)") (auto simp: PDSIZE_def PTSIZE_def PGSIZE_def)

declare exit_dirs.simps [simp del]

definition exit_range :: "nat \<Rightarrow> nat \<Rightarrow> nat \<Rightarrow> phys \<Rightarrow> phys option" where
  "exit_range pgdir start hi s = do {
     kassert (start mod PGSIZE = 0 \<and> hi mod PGSIZE = 0);
     kassert (USER_ACCESS start hi);
     exit_dirs pgdir (ROUNDDOWN start PDSIZE) (ROUNDDOWN start PTSIZE) hi s
   }"

text \<open>One round of \<open>copy_range\<close>: the copy of the page of a valid entry, and where the next starts.\<close>

definition copy_page :: "nat \<Rightarrow> nat \<Rightarrow> nat \<times> nat \<Rightarrow> phys \<Rightarrow> ((errno + unit) \<times> phys) option" where
  "copy_page to start a s = do {
     (nptep, s) \<leftarrow> get_pte s to start True;
     (case nptep of
        None \<Rightarrow> Some (Inl E_NO_MEM, s)
      | Some _ \<Rightarrow> do {
          let perm = pte_get s a AND PTE_USER;
          page \<leftarrow> pte2page (pte_get s a);
          (np, s) \<leftarrow> alloc_pages 1 s;
          np \<leftarrow> np;
          src \<leftarrow> page2kva page;
          dst \<leftarrow> page2kva np;
          let s = s\<lparr>frame := (frame s)(dst := blit (frame s dst) 0 (frame s src) 0 PGSIZE)\<rparr>;
          (ret, s) \<leftarrow> page_insert to np start perm s;
          kassert (ret = Inr ());
          Some (Inr (), s)
        })
   }"

definition copy_one :: "nat \<Rightarrow> nat \<Rightarrow> nat \<Rightarrow> phys \<Rightarrow> ((errno + nat) \<times> phys) option" where
  "copy_one to frm start s = do {
     (ptep, s) \<leftarrow> get_pte s frm start False;
     (case ptep of
        None \<Rightarrow> Some (Inr (ROUNDDOWN (start + PTSIZE) PTSIZE), s)
      | Some a \<Rightarrow>
          if valid_pte (pte_get s a) then do {
            (ret, s) \<leftarrow> copy_page to start a s;
            Some (map_sum id (\<lambda>_. start + PGSIZE) ret, s)
          } else Some (Inr (start + PGSIZE), s))
   }"

lemma copy_one_next: "copy_one to frm start s = Some (Inr st, s') \<Longrightarrow> start < st"
proof -
  assume c: "copy_one to frm start s = Some (Inr st, s')"
  then obtain ptep t where g: "get_pte s frm start False = Some (ptep, t)"
    by (cases "get_pte s frm start False") (auto simp: copy_one_def)
  show ?thesis
  proof (cases ptep)
    case None
    then show ?thesis using c g next_table [of start] by (simp add: copy_one_def)
  next
    case (Some a)
    show ?thesis
    proof (cases "valid_pte (pte_get t a)")
      case True
      then obtain ret u where "copy_page to start a t = Some (ret, u)"
        using c g Some by (cases "copy_page to start a t") (auto simp: copy_one_def)
      then show ?thesis using c g Some True by (cases ret) (auto simp: copy_one_def PGSIZE_def)
    qed (use c g Some in \<open>simp add: copy_one_def PGSIZE_def\<close>)
  qed
qed

function copy_loop :: "nat \<Rightarrow> nat \<Rightarrow> nat \<Rightarrow> nat \<Rightarrow> phys \<Rightarrow> ((errno + unit) \<times> phys) option" where
  "copy_loop to frm start hi s =
     (case copy_one to frm start s of
        None \<Rightarrow> None
      | Some (Inl e, s) \<Rightarrow> Some (Inl e, s)
      | Some (Inr start', s) \<Rightarrow>
          if start' \<noteq> 0 \<and> start' < hi then copy_loop to frm start' hi s else Some (Inr (), s))"
  by pat_completeness auto
termination
  by (relation "measure (\<lambda>(_, _, start, hi, _). hi - start)") (auto dest: copy_one_next)

declare copy_loop.simps [simp del]

definition copy_range :: "nat \<Rightarrow> nat \<Rightarrow> nat \<Rightarrow> nat \<Rightarrow> phys \<Rightarrow> ((errno + unit) \<times> phys) option" where
  "copy_range to frm start hi s = do {
     kassert (start mod PGSIZE = 0 \<and> hi mod PGSIZE = 0);
     kassert (USER_ACCESS start hi);
     copy_loop to frm start hi s
   }"

end
