(* ===== verification/Sfs_Map.thy ===== *)
theory Sfs_Map
  imports Sfs_Io
begin

text \<open>
  Block allocation and the block map of an inode: \<open>sfs_block_*\<close>, \<open>sfs_bmap_*_nolock\<close>,
  \<open>sfs_truncfile\<close> and \<open>sfs_tryseek\<close> of \<open>kern/fs/sfs/sfs_inode.c\<close>.  A block number, an entry
  pointer and a size are natural numbers, \<open>0\<close> stands for no block.  A result \<open>Inl e\<close> is the error
  return with the state it leaves behind, \<open>None\<close> an assertion that fails or a call of \<open>panic\<close>.
\<close>

record sfs_disk_inode =
  di_size :: nat
  di_type :: nat
  di_nlinks :: nat
  di_blocks :: nat
  direct :: "nat list"
  indirect :: nat

record sfs_inode =
  din :: sfs_disk_inode
  ino :: nat
  dirty :: bool
  reclaim_count :: int

section \<open>Blocks\<close>

definition sfs_block_inuse :: "sfs_fs \<Rightarrow> nat \<Rightarrow> bool option" where
  "sfs_block_inuse sfs b = do {
     kassert (b \<noteq> 0 \<and> b < s_blocks (super sfs));
     t \<leftarrow> bitmap_test (freemap sfs) b;
     Some (\<not> t)
   }"

definition sfs_block_alloc :: "sfs_fs \<Rightarrow> ((errno + nat) \<times> sfs_fs) option" where
  "sfs_block_alloc sfs = do {
     (ret, fm) \<leftarrow> bitmap_alloc (freemap sfs);
     let sfs = sfs\<lparr>freemap := fm\<rparr>;
     (case ret of
        Inl e \<Rightarrow> Some (Inl e, sfs)
      | Inr b \<Rightarrow> do {
          kassert (s_unused_blocks (super sfs) > 0);
          let sfs = sfs\<lparr>super := (super sfs)\<lparr>s_unused_blocks := s_unused_blocks (super sfs) - 1\<rparr>,
                        super_dirty := True\<rparr>;
          u \<leftarrow> sfs_block_inuse sfs b;
          kassert u;
          seqE (sfs_clear_block sfs b 1) (\<lambda>_ sfs. Some (Inr b, sfs))
        })
   }"

definition sfs_block_free :: "sfs_fs \<Rightarrow> nat \<Rightarrow> sfs_fs option" where
  "sfs_block_free sfs b = do {
     u \<leftarrow> sfs_block_inuse sfs b;
     kassert u;
     fm \<leftarrow> bitmap_free (freemap sfs) b;
     Some (sfs\<lparr>freemap := fm,
       super := (super sfs)\<lparr>s_unused_blocks := (s_unused_blocks (super sfs) + 1) mod 2 ^ 32\<rparr>,
       super_dirty := True\<rparr>)
   }"

section \<open>The block map\<close>

text \<open>
  \<open>sfs_bmap_get_sub_nolock\<close>: the entry pointer \<open>*entp\<close> is passed in and returned.  The two
  parts after the lookup are the allocation of the block and the label \<open>failed_cleanup\<close>.
\<close>

definition get_sub_failed :: "sfs_fs \<Rightarrow> nat \<Rightarrow> nat \<Rightarrow> errno \<Rightarrow> ((errno + nat) \<times> sfs_fs \<times> nat) option" where
  "get_sub_failed sfs entp ent e = do {
     sfs \<leftarrow> (if ent \<noteq> entp then sfs_block_free sfs ent else Some sfs);
     Some (Inl e, sfs, entp)
   }"

definition get_sub_alloc :: "sfs_fs \<Rightarrow> nat \<Rightarrow> nat \<Rightarrow> nat \<Rightarrow> ((errno + nat) \<times> sfs_fs \<times> nat) option" where
  "get_sub_alloc sfs entp ent offset = do {
     (ret, sfs) \<leftarrow> sfs_block_alloc sfs;
     (case ret of
        Inl e \<Rightarrow> get_sub_failed sfs entp ent e
      | Inr b \<Rightarrow> do {
          (ret, sfs, _) \<leftarrow> sfs_wbuf sfs (le b) 0 4 ent offset;
          (case ret of
             Inl e \<Rightarrow> do {
               sfs \<leftarrow> sfs_block_free sfs b;
               get_sub_failed sfs entp ent e
             }
           | Inr _ \<Rightarrow> Some (Inr b, sfs, ent))
        })
   }"

definition sfs_bmap_get_sub_nolock ::
  "sfs_fs \<Rightarrow> nat \<Rightarrow> nat \<Rightarrow> bool \<Rightarrow> ((errno + nat) \<times> sfs_fs \<times> nat) option" where
  "sfs_bmap_get_sub_nolock sfs entp index create = do {
     kassert (index < SFS_BLK_NENTRY);
     let offset = index * 4;
     if entp \<noteq> 0 then do {
       (ret, sfs, buf) \<leftarrow> sfs_rbuf sfs (le 0) 0 4 entp offset;
       (case ret of
          Inl e \<Rightarrow> Some (Inl e, sfs, entp)
        | Inr _ \<Rightarrow>
            (let b = rd 4 buf 0 in
             if b \<noteq> 0 \<or> \<not> create then Some (Inr b, sfs, entp)
             else get_sub_alloc sfs entp entp offset))
     }
     else if \<not> create then Some (Inr 0, sfs, entp)
     else do {
       (ret, sfs) \<leftarrow> sfs_block_alloc sfs;
       (case ret of
          Inl e \<Rightarrow> Some (Inl e, sfs, entp)
        | Inr ent \<Rightarrow> get_sub_alloc sfs entp ent offset)
     }
   }"

text \<open>\<open>out:\<close> of \<open>sfs_bmap_get_nolock\<close>.\<close>

definition get_out :: "sfs_fs \<Rightarrow> sfs_inode \<Rightarrow> nat \<Rightarrow> ((errno + nat) \<times> sfs_fs \<times> sfs_inode) option" where
  "get_out sfs sin b = do {
     u \<leftarrow> (if b = 0 then Some True else sfs_block_inuse sfs b);
     kassert u;
     Some (Inr b, sfs, sin)
   }"

definition sfs_bmap_get_nolock ::
  "sfs_fs \<Rightarrow> sfs_inode \<Rightarrow> nat \<Rightarrow> bool \<Rightarrow> ((errno + nat) \<times> sfs_fs \<times> sfs_inode) option" where
  "sfs_bmap_get_nolock sfs sin index create =
     (if index < SFS_NDIRECT then
        (let b = direct (din sin) ! index in
         if b = 0 \<and> create then do {
           (ret, sfs) \<leftarrow> sfs_block_alloc sfs;
           (case ret of
              Inl e \<Rightarrow> Some (Inl e, sfs, sin)
            | Inr b \<Rightarrow>
                get_out sfs (sin\<lparr>din := (din sin)\<lparr>direct := (direct (din sin))[index := b]\<rparr>, dirty := True\<rparr>) b)
         } else get_out sfs sin b)
      else do {
        let index = index - SFS_NDIRECT;
        kassert (index < SFS_BLK_NENTRY);
        (ret, sfs, ent) \<leftarrow> sfs_bmap_get_sub_nolock sfs (indirect (din sin)) index create;
        (case ret of
           Inl e \<Rightarrow> Some (Inl e, sfs, sin)
         | Inr b \<Rightarrow>
             if ent \<noteq> indirect (din sin) then do {
               kassert (indirect (din sin) = 0);
               get_out sfs (sin\<lparr>din := (din sin)\<lparr>indirect := ent\<rparr>, dirty := True\<rparr>) b
             } else get_out sfs sin b)
      })"

definition sfs_bmap_free_sub_nolock :: "sfs_fs \<Rightarrow> nat \<Rightarrow> nat \<Rightarrow> ((errno + unit) \<times> sfs_fs) option" where
  "sfs_bmap_free_sub_nolock sfs ent index = do {
     u \<leftarrow> sfs_block_inuse sfs ent;
     kassert (u \<and> index < SFS_BLK_NENTRY);
     let offset = index * 4;
     (ret, sfs, buf) \<leftarrow> sfs_rbuf sfs (le 0) 0 4 ent offset;
     (case ret of
        Inl e \<Rightarrow> Some (Inl e, sfs)
      | Inr _ \<Rightarrow>
          (let b = rd 4 buf 0 in
           if b \<noteq> 0 then do {
             (ret, sfs, _) \<leftarrow> sfs_wbuf sfs (le 0) 0 4 ent offset;
             (case ret of
                Inl e \<Rightarrow> Some (Inl e, sfs)
              | Inr _ \<Rightarrow> do { sfs \<leftarrow> sfs_block_free sfs b; Some (Inr (), sfs) })
           } else Some (Inr (), sfs)))
   }"

definition sfs_bmap_free_nolock ::
  "sfs_fs \<Rightarrow> sfs_inode \<Rightarrow> nat \<Rightarrow> ((errno + unit) \<times> sfs_fs \<times> sfs_inode) option" where
  "sfs_bmap_free_nolock sfs sin index =
     (if index < SFS_NDIRECT then
        (let b = direct (din sin) ! index in
         if b \<noteq> 0 then do {
           sfs \<leftarrow> sfs_block_free sfs b;
           Some (Inr (), sfs,
             sin\<lparr>din := (din sin)\<lparr>direct := (direct (din sin))[index := 0]\<rparr>, dirty := True\<rparr>)
         } else Some (Inr (), sfs, sin))
      else
        (let index = index - SFS_NDIRECT in
         if index < SFS_BLK_NENTRY \<and> indirect (din sin) \<noteq> 0 then do {
           (ret, sfs) \<leftarrow> sfs_bmap_free_sub_nolock sfs (indirect (din sin)) index;
           Some (ret, sfs, sin)
         } else Some (Inr (), sfs, sin)))"

definition sfs_bmap_load_nolock ::
  "sfs_fs \<Rightarrow> sfs_inode \<Rightarrow> nat \<Rightarrow> ((errno + nat) \<times> sfs_fs \<times> sfs_inode) option" where
  "sfs_bmap_load_nolock sfs sin index = do {
     kassert (index \<le> di_blocks (din sin));
     let create = (index = di_blocks (din sin));
     seqE (sfs_bmap_get_nolock sfs sin index create) (\<lambda>b (sfs, sin). do {
       u \<leftarrow> sfs_block_inuse sfs b;
       kassert u;
       let sin = (if create then sin\<lparr>din := (din sin)\<lparr>di_blocks := di_blocks (din sin) + 1\<rparr>\<rparr> else sin);
       Some (Inr b, sfs, sin)
     })
   }"

definition sfs_bmap_truncate_nolock ::
  "sfs_fs \<Rightarrow> sfs_inode \<Rightarrow> ((errno + unit) \<times> sfs_fs \<times> sfs_inode) option" where
  "sfs_bmap_truncate_nolock sfs sin = do {
     kassert (di_blocks (din sin) \<noteq> 0);
     seqE (sfs_bmap_free_nolock sfs sin (di_blocks (din sin) - 1)) (\<lambda>_ (sfs, sin).
       Some (Inr (), sfs, sin\<lparr>din := (din sin)\<lparr>di_blocks := di_blocks (din sin) - 1\<rparr>, dirty := True\<rparr>))
   }"

section \<open>Resizing\<close>

fun truncfile_grow :: "sfs_fs \<Rightarrow> sfs_inode \<Rightarrow> nat \<Rightarrow> nat \<Rightarrow> ((errno + unit) \<times> sfs_fs \<times> sfs_inode) option" where
  "truncfile_grow sfs sin nblks 0 = Some (Inr (), sfs, sin)"
| "truncfile_grow sfs sin nblks (Suc k) =
     seqE (sfs_bmap_load_nolock sfs sin nblks) (\<lambda>_ (sfs, sin). truncfile_grow sfs sin (nblks + 1) k)"

fun truncfile_shrink :: "sfs_fs \<Rightarrow> sfs_inode \<Rightarrow> nat \<Rightarrow> ((errno + unit) \<times> sfs_fs \<times> sfs_inode) option" where
  "truncfile_shrink sfs sin 0 = Some (Inr (), sfs, sin)"
| "truncfile_shrink sfs sin (Suc k) =
     seqE (sfs_bmap_truncate_nolock sfs sin) (\<lambda>_ (sfs, sin). truncfile_shrink sfs sin k)"

definition sfs_truncfile :: "sfs_fs \<Rightarrow> sfs_inode \<Rightarrow> int \<Rightarrow> ((errno + unit) \<times> sfs_fs \<times> sfs_inode) option" where
  "sfs_truncfile sfs sin len =
     (if len < 0 \<or> len > int SFS_MAX_FILE_SIZE then Some (Inl E_INVAL, sfs, sin)
      else
        (let tblks = (nat len + SFS_BLKSIZE - 1) div SFS_BLKSIZE in
         if int (di_size (din sin)) = len then do {
           kassert (tblks = di_blocks (din sin));
           Some (Inr (), sfs, sin)
         } else do {
           let nblks = di_blocks (din sin);
           seqE (if nblks < tblks then truncfile_grow sfs sin nblks (tblks - nblks)
                 else if tblks < nblks then truncfile_shrink sfs sin (nblks - tblks)
                 else Some (Inr (), sfs, sin))
             (\<lambda>_ (sfs, sin). do {
               kassert (di_blocks (din sin) = tblks);
               Some (Inr (), sfs, sin\<lparr>din := (din sin)\<lparr>di_size := nat len\<rparr>, dirty := True\<rparr>)
             })
         }))"

definition sfs_tryseek :: "sfs_fs \<Rightarrow> sfs_inode \<Rightarrow> int \<Rightarrow> ((errno + unit) \<times> sfs_fs \<times> sfs_inode) option" where
  "sfs_tryseek sfs sin pos =
     (if pos < 0 \<or> pos \<ge> int SFS_MAX_FILE_SIZE then Some (Inl E_INVAL, sfs, sin)
      else if pos > int (di_size (din sin)) then sfs_truncfile sfs sin pos
      else Some (Inr (), sfs, sin))"

section \<open>Specifications of the block operations\<close>

text \<open>The free blocks, the blocks in use, and the parameters of the volume that never change.\<close>

definition frees :: "sfs_fs \<Rightarrow> nat set" where
  "frees sfs = free_bits (freemap sfs)"

definition used :: "sfs_fs \<Rightarrow> nat set" where
  "used sfs = {0 <..< s_blocks (super sfs)} - frees sfs"

definition vol :: "sfs_fs \<Rightarrow> nat \<times> nat \<times> byte list \<times> nat \<times> nat" where
  "vol sfs = (s_magic (super sfs), s_blocks (super sfs), s_info (super sfs),
     d_blocks (dev sfs), d_blocksize (dev sfs))"

lemma vol_blocks: "vol s = vol s' \<Longrightarrow> s_blocks (super s) = s_blocks (super s')"
  by (simp add: vol_def)

lemma vol_put [simp]: "vol (put_blk s b f) = vol s"
  by (simp add: vol_def put_blk_def dev_put_def)

lemma frees_put [simp]: "frees (put_blk s b f) = frees s"
  by (simp add: frees_def)

lemma fs_ok_put [simp]: "fs_ok (put_blk s b f) = fs_ok s"
  by (simp add: fs_ok_def)

lemma fs_ok_io: "fs_ok s \<Longrightarrow> io_ok s"
  by (simp add: fs_ok_def)

lemma frees_sub: "fs_ok s \<Longrightarrow> frees s \<subseteq> {0 <..< s_blocks (super s)}" "fs_ok s \<Longrightarrow> finite (frees s)"
  by (auto simp: fs_ok_def frees_def intro: finite_subset)

lemma used_iff: "b \<in> used s \<longleftrightarrow> 0 < b \<and> b < s_blocks (super s) \<and> b \<notin> frees s"
  by (auto simp: used_def)

lemma inuse_spec:
  assumes "fs_ok s"
  shows "sfs_block_inuse s b = (if 0 < b \<and> b < s_blocks (super s) then Some (b \<in> used s) else None)"
proof (cases "0 < b \<and> b < s_blocks (super s)")
  case True
  then have "b < nbits (freemap s)"
    using assms freemap_sizes(2) [OF fs_ok_small [OF assms]] by (simp add: fs_ok_def)
  then show ?thesis using True by (simp add: sfs_block_inuse_def bitmap_test_spec used_iff frees_def)
next
  case False
  then show ?thesis by (auto simp: sfs_block_inuse_def kassert_def)
qed

lemma inuse_used [simp]: "fs_ok s \<Longrightarrow> b \<in> used s \<Longrightarrow> sfs_block_inuse s b = Some True"
  by (simp add: inuse_spec used_iff)

lemma block_alloc_ok:
  assumes ok: "fs_ok s"
  shows "frees s = {} \<and> sfs_block_alloc s = Some (Inl E_NO_MEM, s)
    \<or> (\<exists>s'. frees s \<noteq> {} \<and> sfs_block_alloc s = Some (Inr (Min (frees s)), s') \<and> fs_ok s' \<and> vol s' = vol s
         \<and> frees s' = frees s - {Min (frees s)}
         \<and> (\<forall>c i. i < 4096 \<longrightarrow> fblk s' c i = (if c = Min (frees s) then 0 else fblk s c i)))"
proof (cases "frees s = {}")
  case True
  then show ?thesis using bitmap_alloc_spec [of "freemap s"] ok
    by (auto simp: frees_def fs_ok_def sfs_block_alloc_def)
next
  case False
  let ?b = "Min (frees s)"
  have "?b \<in> frees s" using frees_sub(2) [OF ok] False by (rule Min_in)
  moreover from this have "?b \<in> {0 <..< s_blocks (super s)}" using frees_sub(1) [OF ok] by blast
  ultimately have b: "?b \<in> frees s" "0 < ?b" "?b < s_blocks (super s)" by simp_all
  obtain fm where fm: "bitmap_alloc (freemap s) = Some (Inr ?b, fm)" "bm_ok fm" "nbits fm = nbits (freemap s)"
    "free_bits fm = frees s - {?b}"
    using bitmap_alloc_spec [of "freemap s"] ok False by (auto simp: frees_def fs_ok_def)
  let ?s = "s\<lparr>freemap := fm, super := (super s)\<lparr>s_unused_blocks := s_unused_blocks (super s) - 1\<rparr>, super_dirty := True\<rparr>"
  have card: "s_unused_blocks (super s) = card (frees s)" "0 < card (frees s)"
    using ok b frees_sub(2) [OF ok] card_gt_0_iff by (auto simp: fs_ok_def frees_def)
  have ok': "fs_ok ?s"
    using ok fm card b bitmap_alloc_nwords [OF fm(1)] frees_sub [OF ok]
    by (auto simp: fs_ok_def io_ok_def sfs_freemap_bits_def)
  have fr: "frees ?s = frees s - {?b}" using fm by (simp add: frees_def)
  have "?b \<in> used ?s" using b fr by (simp add: used_iff)
  then have "sfs_block_alloc s = Some (Inr ?b, put_blk ?s ?b (\<lambda>_. 0))"
    using fm(1) card inuse_used [OF ok'] sfs_clear_block_ok [OF fs_ok_io [OF ok'], of ?b] b
    by (simp add: sfs_block_alloc_def Let_def)
  moreover have "vol ?s = vol s" by (simp add: vol_def)
  moreover have "fblk ?s = fblk s" by (simp add: fblk_def fun_eq_iff)
  ultimately show ?thesis using ok' fr False
    by (intro disjI2 exI [of _ "put_blk ?s ?b (\<lambda>_. 0)"]) auto
qed

lemma block_free_ok:
  assumes ok: "fs_ok s" and b: "b \<in> used s"
  shows "\<exists>s'. sfs_block_free s b = Some s' \<and> fs_ok s' \<and> vol s' = vol s
     \<and> frees s' = insert b (frees s) \<and> fblk s' = fblk s"
proof -
  have bb: "0 < b" "b < s_blocks (super s)" "b \<notin> frees s" using b by (simp_all add: used_iff)
  have bok: "bm_ok (freemap s)" using ok by (simp add: fs_ok_def)
  have "b < nbits (freemap s)"
    using bb ok freemap_sizes(2) [OF fs_ok_small [OF ok]] by (simp add: fs_ok_def)
  then obtain fm where fm: "bitmap_free (freemap s) b = Some fm"
    using bitmap_free_spec(1) [OF bok] bb by (auto simp: frees_def)
  note f = bitmap_free_spec(2) [OF bok fm] bitmap_free_nwords [OF fm]
  have "card (frees s) \<le> card {0 <..< s_blocks (super s)}" by (rule card_mono) (use frees_sub [OF ok] in auto)
  then have small: "card (frees s) < 2 ^ 32 - 1" using fs_ok_small [OF ok] by simp
  have card: "s_unused_blocks (super s) = card (frees s)" using ok by (simp add: fs_ok_def frees_def)
  let ?s = "s\<lparr>freemap := fm, super := (super s)\<lparr>s_unused_blocks := (s_unused_blocks (super s) + 1) mod 2 ^ 32\<rparr>, super_dirty := True\<rparr>"
  have "sfs_block_free s b = Some ?s"
    using inuse_used [OF ok b] fm by (simp add: sfs_block_free_def)
  moreover have "fs_ok ?s"
    using ok f card small bb frees_sub [OF ok]
    by (auto simp: fs_ok_def io_ok_def sfs_freemap_bits_def frees_def)
  ultimately show ?thesis using f
    by (intro exI [of _ ?s]) (simp add: vol_def frees_def fblk_def fun_eq_iff)
qed


text \<open>The allocation of blocks is an index pool, as the bitmap below it is.\<close>

interpretation blk: index_pool fs_ok frees sfs_block_alloc sfs_block_free
proof unfold_locales
  fix s assume ok: "fs_ok s"
  show "finite (frees s)" by (rule frees_sub(2) [OF ok])
  show "frees s \<noteq> {} \<Longrightarrow> \<exists>s'. sfs_block_alloc s = Some (Inr (Min (frees s)), s') \<and> fs_ok s'
      \<and> frees s' = frees s - {Min (frees s)}"
    using block_alloc_ok [OF ok] by blast
  show "frees s = {} \<Longrightarrow> sfs_block_alloc s = Some (Inl E_NO_MEM, s)"
    using block_alloc_ok [OF ok] by blast
next
  fix s s1 i assume ok: "fs_ok s" and a: "sfs_block_alloc s = Some (Inr i, s1)"
  then have s1: "frees s \<noteq> {}" "i = Min (frees s)" "fs_ok s1" "vol s1 = vol s" "frees s1 = frees s - {i}"
    using block_alloc_ok [OF ok] by auto
  have "i \<in> frees s" unfolding s1(2) using frees_sub(2) [OF ok] s1(1) by (rule Min_in)
  then have "i \<in> used s1" using frees_sub(1) [OF ok] s1(5) vol_blocks [OF s1(4)] by (auto simp: used_def)
  then show "\<exists>s2. sfs_block_free s1 i = Some s2 \<and> fs_ok s2 \<and> frees s2 = insert i (frees s1)"
    using block_free_ok [OF s1(3)] by blast
qed

section \<open>The block map of a file\<close>

text \<open>The block number stored for the \<open>i\<close>-th block of a file, \<open>0\<close> where there is none.\<close>

definition entry :: "sfs_fs \<Rightarrow> sfs_disk_inode \<Rightarrow> nat \<Rightarrow> nat" where
  "entry s d i = (if i < 12 then direct d ! i else if indirect d = 0 then 0
     else rd 4 (fblk s (indirect d)) ((i - 12) * 4))"

abbreviation entries :: "sfs_fs \<Rightarrow> sfs_disk_inode \<Rightarrow> nat set" where
  "entries s d \<equiv> entry s d ` {..< di_blocks d}"

text \<open>
  The invariant of the block map: exactly the first \<open>di_blocks\<close> entries are set, to distinct
  blocks in use, none of which is the indirect block or the block of the inode.
\<close>

definition map_ok :: "sfs_fs \<Rightarrow> sfs_inode \<Rightarrow> bool" where
  "map_ok s sin \<longleftrightarrow> length (direct (din sin)) = 12 \<and> di_blocks (din sin) \<le> 1036
     \<and> (\<forall>i. di_blocks (din sin) \<le> i \<and> i < 1036 \<longrightarrow> entry s (din sin) i = 0)
     \<and> entries s (din sin) \<subseteq> used s \<and> inj_on (entry s (din sin)) {..< di_blocks (din sin)}
     \<and> indirect (din sin) \<in> insert 0 (used s) - entries s (din sin)
     \<and> ino sin \<in> used s - entries s (din sin) \<and> ino sin \<noteq> indirect (din sin)"

text \<open>The blocks a file occupies, its inode included.\<close>

definition owned :: "sfs_fs \<Rightarrow> sfs_inode \<Rightarrow> nat set" where
  "owned s sin = insert (ino sin) (entries s (din sin) \<union> ({indirect (din sin)} - {0}))"

text \<open>The contents of the blocks of a set are the same in two states.\<close>

definition keeps :: "nat set \<Rightarrow> sfs_fs \<Rightarrow> sfs_fs \<Rightarrow> bool" where
  "keeps B s s' \<longleftrightarrow> (\<forall>c \<in> B. \<forall>i < 4096. fblk s' c i = fblk s c i)"

lemma keepsD: "keeps B s s' \<Longrightarrow> c \<in> B \<Longrightarrow> i < 4096 \<Longrightarrow> fblk s' c i = fblk s c i"
  by (simp add: keeps_def)

lemma keeps_refl [simp]: "keeps B s s"
  by (simp add: keeps_def)

lemma keeps_trans: "keeps B s s1 \<Longrightarrow> keeps C s1 s2 \<Longrightarrow> A \<subseteq> B \<inter> C \<Longrightarrow> keeps A s s2"
  unfolding keeps_def by (metis Int_iff subsetD)

lemma keeps_mono: "keeps B s s' \<Longrightarrow> A \<subseteq> B \<Longrightarrow> keeps A s s'"
  by (auto simp: keeps_def)

lemma entry_cong:
  assumes "keeps B s s'" "indirect d \<noteq> 0 \<Longrightarrow> indirect d \<in> B" "i < 1036"
  shows "entry s' d i = entry s d i"
proof -
  have "rd 4 (fblk s' (indirect d)) ((i - 12) * 4) = rd 4 (fblk s (indirect d)) ((i - 12) * 4)"
    if "indirect d \<noteq> 0"
    by (rule rd_cong) (use assms that in \<open>simp add: keeps_def\<close>)
  then show ?thesis by (simp add: entry_def)
qed

lemma entries_cong:
  assumes "keeps B s s'" "indirect d \<noteq> 0 \<Longrightarrow> indirect d \<in> B" "di_blocks d \<le> 1036"
  shows "entries s' d = entries s d"
  using entry_cong [OF assms(1,2)] assms(3) by (intro image_cong) auto

lemma used_mono: "vol s' = vol s \<Longrightarrow> frees s' \<subseteq> frees s \<Longrightarrow> used s \<subseteq> used s'"
  using vol_blocks [of s' s] by (auto simp: used_def)

lemma map_ok_cong:
  assumes m: "map_ok s sin" and k: "keeps B s s'"
    and i: "indirect (din sin) \<noteq> 0 \<Longrightarrow> indirect (din sin) \<in> B" and u: "owned s sin \<subseteq> used s'"
  shows "map_ok s' sin" "owned s' sin = owned s sin"
proof -
  note e = entry_cong [OF k i]
  have n: "di_blocks (din sin) \<le> 1036" using m by (simp add: map_ok_def)
  note es = entries_cong [OF k i n]
  have "inj_on (entry s' (din sin)) {..< di_blocks (din sin)}"
    using m e n by (auto simp: map_ok_def inj_on_def)
  then show "map_ok s' sin" using m u e es by (auto simp: map_ok_def owned_def)
  show "owned s' sin = owned s sin" by (simp add: owned_def es)
qed

lemma owned_used: "map_ok s sin \<Longrightarrow> owned s sin \<subseteq> used s"
  by (auto simp: map_ok_def owned_def)

lemma entry_in:
  assumes "map_ok s sin" "i < di_blocks (din sin)"
  shows "entry s (din sin) i \<in> used s" "entry s (din sin) i \<noteq> indirect (din sin)"
    "entry s (din sin) i \<noteq> ino sin"
proof -
  have "entry s (din sin) i \<in> entries s (din sin)" using assms(2) by simp
  then show "entry s (din sin) i \<in> used s" "entry s (din sin) i \<noteq> indirect (din sin)"
    "entry s (din sin) i \<noteq> ino sin"
    using assms(1) by (auto simp only: map_ok_def)
qed

lemma rd_zero: "(\<And>i. i < n \<Longrightarrow> m (p + i) = 0) \<Longrightarrow> rd n m p = 0"
proof (induction n arbitrary: p)
  case (Suc n)
  have "rd n m (Suc p) = 0" by (rule Suc.IH) (use Suc.prems [of "Suc _"] in simp)
  then show ?case using Suc.prems [of 0] by simp
qed simp

text \<open>Writing one entry of an indirect block.\<close>

lemma entry_write:
  assumes "\<And>j. j < 4096 \<Longrightarrow> m' j = (if k * 4 \<le> j \<and> j < k * 4 + 4 then le v (j - k * 4) else m j)"
    and "k < 1024" "i < 1024" "v < 2 ^ 32"
  shows "rd 4 m' (i * 4) = (if i = k then v else rd 4 m (i * 4))"
proof (cases "i = k")
  case True
  have "rd 4 m' (k * 4) = v" by (rule rd_le_eq) (use assms in simp_all)
  with True show ?thesis by simp
next
  case False
  have "rd 4 m' (i * 4) = rd 4 m (i * 4)"
  proof (rule rd_cong)
    fix j :: nat assume "j < 4"
    then show "m' (i * 4 + j) = m (i * 4 + j)" using False assms(1) [of "i * 4 + j"] assms(3) by auto
  qed
  with False show ?thesis by simp
qed

text \<open>Adding the next block keeps the invariant.\<close>

lemma map_ok_grow:
  assumes m: "map_ok s sin" and n: "di_blocks (din sin) = n" "n < 1036"
    and v: "vol s' = vol s" and fr: "frees s' = frees s - new" "new \<subseteq> frees s" and sub: "frees s \<subseteq> {0 <..< s_blocks (super s)}"
    and d: "length (direct (din sin')) = 12" "di_blocks (din sin') = Suc n" "ino sin' = ino sin"
    and old: "\<And>i. i < n \<Longrightarrow> entry s' (din sin') i = entry s (din sin) i"
    and b: "entry s' (din sin') n = b"
    and zero: "\<And>i. n < i \<Longrightarrow> i < 1036 \<Longrightarrow> entry s' (din sin') i = 0"
    and ind: "indirect (din sin') = indirect (din sin) \<and> new = {b}
       \<or> indirect (din sin) = 0 \<and> new = {b, indirect (din sin')} \<and> indirect (din sin') \<noteq> b"
  shows "map_ok s' sin' \<and> owned s' sin' = owned s sin \<union> new"
proof -
  have bn: "b \<in> new" using ind by auto
  have es: "entries s' (din sin') = insert b (entries s (din sin))"
  proof -
    have "entries s' (din sin') = insert (entry s' (din sin') n) (entry s' (din sin') ` {..< n})"
      by (simp add: d lessThan_Suc)
    also have "entry s' (din sin') ` {..< n} = entry s (din sin) ` {..< n}"
      using old by (intro image_cong) auto
    finally show ?thesis using b n by simp
  qed
  have bl: "s_blocks (super s') = s_blocks (super s)" using v by (rule vol_blocks)
  have newu: "new \<subseteq> used s'" using fr sub bl by (auto simp: used_def)
  have usedu: "used s \<subseteq> used s'" using fr bl by (auto simp: used_def)
  have disj: "new \<inter> used s = {}" using fr by (auto simp: used_def)
  have m': "entries s (din sin) \<subseteq> used s" "ino sin \<in> used s" "ino sin \<notin> entries s (din sin)"
    "ino sin \<noteq> indirect (din sin)" "indirect (din sin) = 0 \<or> indirect (din sin) \<in> used s"
    "indirect (din sin) \<notin> entries s (din sin)"
    using m by (auto simp: map_ok_def)
  have inj: "inj_on (entry s' (din sin')) {..< Suc n}"
  proof -
    have "inj_on (entry s' (din sin')) {..< n}"
      using m old n by (auto simp: map_ok_def inj_on_def)
    moreover have "entry s' (din sin') n \<notin> entry s' (din sin') ` {..< n}"
    proof -
      have "entry s' (din sin') ` {..< n} = entries s (din sin)"
        using old n by (auto intro!: image_cong)
      then show ?thesis using b bn disj m'(1) by auto
    qed
    ultimately show ?thesis by (simp add: lessThan_Suc)
  qed
  define E where "E = entries s (din sin)"
  have "0 \<notin> used s'" "0 \<notin> new" using newu by (auto simp: used_def)
  then have i': "indirect (din sin') = 0 \<or> indirect (din sin') \<in> used s'"
    "indirect (din sin') \<notin> insert b E"
    "ino sin \<noteq> indirect (din sin')" "ino sin \<notin> insert b E"
    using ind m' [folded E_def] disj newu usedu bn by auto
  have "map_ok s' sin'"
    unfolding map_ok_def es using d n zero inj i' [unfolded E_def] newu usedu bn m' by (auto simp: Suc_le_eq)
  moreover have "owned s' sin' = owned s sin \<union> new"
    unfolding owned_def es using ind d \<open>0 \<notin> new\<close> m' by auto
  ultimately show ?thesis ..
qed


lemma used_less: "b \<in> used s \<Longrightarrow> 0 < b" "b \<in> used s \<Longrightarrow> b < s_blocks (super s)"
  by (simp_all add: used_iff)

lemma used32: "fs_ok s \<Longrightarrow> b < s_blocks (super s) \<Longrightarrow> b < 2 ^ 32"
  using fs_ok_small [of s] by simp

lemma wbuf_used:
  assumes "fs_ok s" "b \<in> used s" "off < 4096" "off + len \<le> 4096"
  shows "sfs_wbuf s buf p len b off = Some (Inr (), put_blk s b (blit (fblk s b) off buf p len), buf)"
  using assms by (intro sfs_wbuf_ok fs_ok_io used_less) auto

lemma rbuf_used:
  assumes "fs_ok s" "b \<in> used s" "off < 4096" "off + len \<le> 4096"
  shows "sfs_rbuf s buf p len b off = Some (Inr (), s, blit buf p (fblk s b) off len)"
  using assms by (intro sfs_rbuf_ok fs_ok_io used_less) auto

lemma rd_blit: "off + 4 \<le> 4096 \<Longrightarrow> rd 4 (blit buf 0 m off 4) 0 = rd 4 m off"
  by (rule rd_cong) (simp add: blit_def)

text \<open>The allocation under an indirect block \<open>ent\<close> in use.\<close>

lemma get_sub_alloc_ok:
  assumes ok: "fs_ok s" and ent: "ent \<in> used s" and k: "k < 1024"
  shows "frees s = {} \<and> get_sub_alloc s entp ent (k * 4) = get_sub_failed s entp ent E_NO_MEM
    \<or> (\<exists>s' b. b \<in> frees s \<and> get_sub_alloc s entp ent (k * 4) = Some (Inr b, s', ent) \<and> fs_ok s' \<and> vol s' = vol s
        \<and> frees s' = frees s - {b} \<and> ent \<noteq> b
        \<and> (\<forall>c i. i < 4096 \<longrightarrow> fblk s' c i =
              (if c = ent then (if k * 4 \<le> i \<and> i < k * 4 + 4 then le b (i - k * 4) else fblk s ent i)
               else if c = b then 0 else fblk s c i)))"
  using block_alloc_ok [OF ok]
proof (elim disjE exE conjE)
  assume "frees s = {}" "sfs_block_alloc s = Some (Inl E_NO_MEM, s)"
  then show ?thesis by (simp add: get_sub_alloc_def)
next
  fix s1 let ?b = "Min (frees s)"
  assume a: "frees s \<noteq> {}" "sfs_block_alloc s = Some (Inr ?b, s1)" "fs_ok s1" "vol s1 = vol s"
    "frees s1 = frees s - {?b}" "\<forall>c i. i < 4096 \<longrightarrow> fblk s1 c i = (if c = ?b then 0 else fblk s c i)"
  have b: "?b \<in> frees s" using frees_sub(2) [OF ok] a(1) by (rule Min_in)
  have ne: "ent \<noteq> ?b" using b ent by (auto simp: used_iff)
  have e1: "ent \<in> used s1" using ent used_mono [OF a(4)] a(5) by auto
  let ?s = "put_blk s1 ent (blit (fblk s1 ent) (k * 4) (le ?b) 0 4)"
  have "get_sub_alloc s entp ent (k * 4) = Some (Inr ?b, ?s, ent)"
    using a(2) wbuf_used [OF a(3) e1] k by (simp add: get_sub_alloc_def)
  moreover have "fblk ?s c i = (if c = ent then (if k * 4 \<le> i \<and> i < k * 4 + 4 then le ?b (i - k * 4) else fblk s ent i)
               else if c = ?b then 0 else fblk s c i)" if "i < 4096" for c i
    using that a(6) ne by (simp add: blit_def)
  ultimately show ?thesis using a b ne
    by (intro disjI2 exI [of _ ?s] exI [of _ ?b]) simp
qed

text \<open>Looking up a block that exists changes nothing.\<close>

lemma bmap_get_old:
  assumes ok: "fs_ok s" and m: "map_ok s sin" and i: "i < di_blocks (din sin)"
  shows "sfs_bmap_get_nolock s sin i create = Some (Inr (entry s (din sin) i), s, sin)"
    "entry s (din sin) i \<in> used s"
proof -
  show u: "entry s (din sin) i \<in> used s" using m i by (auto simp: map_ok_def)
  then have nz: "entry s (din sin) i \<noteq> 0" by (simp add: used_iff)
  have i': "i < 1036" using m i by (simp add: map_ok_def)
  show "sfs_bmap_get_nolock s sin i create = Some (Inr (entry s (din sin) i), s, sin)"
  proof (cases "i < 12")
    case True
    then show ?thesis using u nz inuse_used [OF ok u]
      by (simp add: sfs_bmap_get_nolock_def SFS_NDIRECT_def entry_def get_out_def)
  next
    case False
    have ind: "indirect (din sin) \<in> used s"
      using m nz False by (auto simp: map_ok_def entry_def split: if_splits)
    then have "sfs_rbuf s (le 0) 0 4 (indirect (din sin)) ((i - 12) * 4)
       = Some (Inr (), s, blit (le 0) 0 (fblk s (indirect (din sin))) ((i - 12) * 4) 4)"
      using i' by (intro rbuf_used [OF ok]) auto
    moreover have "rd 4 (blit (le 0) 0 (fblk s (indirect (din sin))) ((i - 12) * 4) 4) 0 = entry s (din sin) i"
      using False used_less(1) [OF ind] i' by (simp add: rd_blit entry_def)
    moreover have "indirect (din sin) \<noteq> 0" using used_less(1) [OF ind] by simp
    moreover have "i - 12 < 1024" using i' by simp
    ultimately show ?thesis using False nz inuse_used [OF ok u]
      by (simp add: sfs_bmap_get_nolock_def sfs_bmap_get_sub_nolock_def SFS_NDIRECT_def SFS_BLK_NENTRY_def
          SFS_BLKSIZE_def get_out_def Let_def bind_kassert_if)
  qed
qed

lemma bmap_load_old:
  assumes "fs_ok s" "map_ok s sin" "i < di_blocks (din sin)"
  shows "sfs_bmap_load_nolock s sin i = Some (Inr (entry s (din sin) i), s, sin)"
  using bmap_get_old [OF assms] assms(1,3) by (simp add: sfs_bmap_load_nolock_def)

lemma bmap_load_panics:
  assumes "fs_ok s" "map_ok s sin"
  shows "di_blocks (din sin) < i \<Longrightarrow> sfs_bmap_load_nolock s sin i = None"
    "di_blocks (din sin) = 1036 \<Longrightarrow> sfs_bmap_load_nolock s sin 1036 = None"
  by (simp_all add: sfs_bmap_load_nolock_def kassert_def sfs_bmap_get_nolock_def SFS_NDIRECT_def
      SFS_BLK_NENTRY_def SFS_BLKSIZE_def)


text \<open>
  Appending a block.  Either the volume is full (only the contents of free blocks may differ), or
  the file has one block more, zeroed, and nothing else changed but its own indirect block.
\<close>

definition grows :: "sfs_fs \<Rightarrow> sfs_inode \<Rightarrow> sfs_fs \<Rightarrow> sfs_inode \<Rightarrow> nat \<Rightarrow> bool" where
  "grows s sin s' sin' b \<longleftrightarrow> fs_ok s' \<and> vol s' = vol s \<and> map_ok s' sin' \<and> ino sin' = ino sin
     \<and> di_blocks (din sin') = Suc (di_blocks (din sin))
     \<and> di_size (din sin') = di_size (din sin) \<and> di_type (din sin') = di_type (din sin)
     \<and> di_nlinks (din sin') = di_nlinks (din sin)
     \<and> frees s' \<subseteq> frees s \<and> owned s' sin' = owned s sin \<union> (frees s - frees s') \<and> b \<in> frees s - frees s'
     \<and> (\<forall>i < di_blocks (din sin). entry s' (din sin') i = entry s (din sin) i)
     \<and> entry s' (din sin') (di_blocks (din sin)) = b
     \<and> (\<forall>i < 4096. fblk s' b i = 0)
     \<and> keeps (used s - {indirect (din sin)}) s s'"

lemma grow_sub:
  assumes ok: "fs_ok s" and m: "map_ok s sin" and n: "di_blocks (din sin) = n" "12 \<le> n" "n < 1036"
    and s1: "vol s1 = vol s" "ent \<in> used s1" "keeps (used s) s s1"
    and r1: "\<And>i. i < 1024 \<Longrightarrow> rd 4 (fblk s1 ent) (i * 4) = entry s (din sin) (i + 12)"
    and alt: "ent = indirect (din sin) \<and> frees s1 = frees s
       \<or> indirect (din sin) = 0 \<and> ent \<in> frees s \<and> frees s1 = frees s - {ent}"
    and s': "fs_ok s'" "vol s' = vol s1" "frees s' = frees s1 - {b}" "b \<in> frees s1" "ent \<noteq> b"
    and f: "\<forall>c i. i < 4096 \<longrightarrow> fblk s' c i =
         (if c = ent then (if (n - 12) * 4 \<le> i \<and> i < (n - 12) * 4 + 4 then le b (i - (n - 12) * 4) else fblk s1 ent i)
          else if c = b then 0 else fblk s1 c i)"
    and sin': "din sin' = (din sin)\<lparr>indirect := ent\<rparr>" "ino sin' = ino sin"
  shows "grows s sin s' (sin'\<lparr>din := (din sin')\<lparr>di_blocks := Suc n\<rparr>\<rparr>) b"
proof -
  let ?d = "(din sin)\<lparr>indirect := ent, di_blocks := Suc n\<rparr>"
  have vs: "vol s' = vol s" using s' s1 by simp
  have bl: "s_blocks (super s1) = s_blocks (super s)" by (rule vol_blocks [OF s1(1)])
  have ent: "ent \<noteq> 0" using used_less(1) [OF s1(2)] by simp
  have b: "b \<in> frees s" "b < s_blocks (super s)" "b \<noteq> 0" "b \<notin> used s"
    using s' alt frees_sub(1) [OF ok] by (auto simp: used_iff)
  have b32: "b < 2 ^ 32" by (rule used32 [OF ok b(2)])
  have k12: "n - 12 < 1024" using n by simp
  have e: "entry s' ?d i = (if i = n then b else entry s (din sin) i)" if "i < 1036" for i
  proof (cases "i < 12")
    case True
    then show ?thesis using n by (simp add: entry_def)
  next
    case False
    then have i: "i - 12 < 1024" "i - 12 = n - 12 \<longleftrightarrow> i = n" "i - 12 + 12 = i" using that n by auto
    have "rd 4 (fblk s' ent) ((i - 12) * 4) = (if i - 12 = n - 12 then b else rd 4 (fblk s1 ent) ((i - 12) * 4))"
      by (rule entry_write [OF _ k12 i(1) b32]) (use f in simp)
    then show ?thesis using False ent r1 [OF i(1)] i by (simp add: entry_def)
  qed
  have entne: "ent \<notin> used s - {indirect (din sin)}" using alt by (auto simp: used_iff)
  have kp: "keeps (used s - {indirect (din sin)}) s s'"
    using f entne b(4) s1(3) by (auto simp: keeps_def)
  have fr: "frees s' = frees s - (if ent = indirect (din sin) then {b} else {b, ent})"
  proof (cases "ent = indirect (din sin)")
    case True
    then have "frees s1 = frees s" using alt ent by auto
    with True s'(3) show ?thesis by simp
  next
    case False
    then have "frees s1 = frees s - {ent}" using alt by blast
    with False s'(3) show ?thesis by auto
  qed
  have zero: "\<And>i. n < i \<Longrightarrow> i < 1036 \<Longrightarrow> entry s (din sin) i = 0" using m n by (simp add: map_ok_def)
  have M: "map_ok s' (sin'\<lparr>din := ?d\<rparr>)
    \<and> owned s' (sin'\<lparr>din := ?d\<rparr>) = owned s sin \<union> (if ent = indirect (din sin) then {b} else {b, ent})"
  proof (rule map_ok_grow [OF m n(1,3) vs fr _ frees_sub(1) [OF ok], where b = b])
    show "(if ent = indirect (din sin) then {b} else {b, ent}) \<subseteq> frees s" using b(1) alt by auto
    show "length (direct (din (sin'\<lparr>din := ?d\<rparr>))) = 12" using m by (simp add: map_ok_def)
    show "indirect (din (sin'\<lparr>din := ?d\<rparr>)) = indirect (din sin)
          \<and> (if ent = indirect (din sin) then {b} else {b, ent}) = {b}
       \<or> indirect (din sin) = 0 \<and> (if ent = indirect (din sin) then {b} else {b, ent})
            = {b, indirect (din (sin'\<lparr>din := ?d\<rparr>))} \<and> indirect (din (sin'\<lparr>din := ?d\<rparr>)) \<noteq> b"
      using alt ent s'(5) by auto
  qed (use b e n m sin' zero in simp_all)
  have "(if ent = indirect (din sin) then {b} else {b, ent}) \<subseteq> frees s" using b(1) alt by auto
  then have "frees s - frees s' = (if ent = indirect (din sin) then {b} else {b, ent})"
    unfolding fr by auto
  moreover have "frees s1 \<subseteq> frees s" using alt by auto
  ultimately have "grows s sin s' (sin'\<lparr>din := ?d\<rparr>) b"
    using M s' vs fr e n sin' kp b f by (simp add: grows_def Diff_subset_conv subset_insertI2)
  then show ?thesis by (simp add: sin')
qed

lemma bmap_get_new:
  assumes ok: "fs_ok s" and m: "map_ok s sin" and n: "di_blocks (din sin) = n" "n < 1036"
  shows "(\<exists>s'. card (frees s) < 2 \<and> sfs_bmap_get_nolock s sin n True = Some (Inl E_NO_MEM, s', sin)
            \<and> fs_ok s' \<and> vol s' = vol s \<and> frees s' = frees s \<and> keeps (used s) s s')
    \<or> (\<exists>s' sin' b. sfs_bmap_get_nolock s sin n True = Some (Inr b, s', sin') \<and> di_blocks (din sin') = n
            \<and> grows s sin s' (sin'\<lparr>din := (din sin')\<lparr>di_blocks := Suc n\<rparr>\<rparr>) b)"
proof (cases "n < 12")
  case True
  have z: "direct (din sin) ! n = 0" using m n True by (auto simp: map_ok_def entry_def)
  from block_alloc_ok [OF ok] show ?thesis
  proof (elim disjE exE conjE)
    assume "frees s = {}" "sfs_block_alloc s = Some (Inl E_NO_MEM, s)"
    then show ?thesis using True z ok
      by (intro disjI1 exI [of _ s]) (simp add: sfs_bmap_get_nolock_def SFS_NDIRECT_def)
  next
    fix s1 let ?b = "Min (frees s)"
    assume a: "frees s \<noteq> {}" "sfs_block_alloc s = Some (Inr ?b, s1)" "fs_ok s1" "vol s1 = vol s"
      "frees s1 = frees s - {?b}" "\<forall>c i. i < 4096 \<longrightarrow> fblk s1 c i = (if c = ?b then 0 else fblk s c i)"
    have b: "?b \<in> frees s" using frees_sub(2) [OF ok] a(1) by (rule Min_in)
    then have bu: "?b \<in> used s1" "?b \<notin> used s"
      using frees_sub(1) [OF ok] a(5) vol_blocks [OF a(4)] by (auto simp: used_iff)
    have k: "keeps (used s) s s1" using a(6) bu by (auto simp: keeps_def)
    let ?sin = "sin\<lparr>din := (din sin)\<lparr>direct := (direct (din sin))[n := ?b]\<rparr>, dirty := True\<rparr>"
    let ?sin' = "?sin\<lparr>din := (din ?sin)\<lparr>di_blocks := Suc n\<rparr>\<rparr>"
    have len: "length (direct (din sin)) = 12" using m by (simp add: map_ok_def)
    have iu: "indirect (din sin) \<noteq> 0 \<Longrightarrow> indirect (din sin) \<in> used s" using m by (auto simp: map_ok_def)
    have e: "entry s1 (din ?sin') i = (if i = n then ?b else entry s (din sin) i)" if "i < 1036" for i
      using entry_cong [OF k iu that] True len by (auto simp: entry_def split: if_splits)
    have g: "sfs_bmap_get_nolock s sin n True = Some (Inr ?b, s1, ?sin)"
      using True z a(2) inuse_used [OF a(3) bu(1)]
      by (simp add: sfs_bmap_get_nolock_def SFS_NDIRECT_def get_out_def)
    have "map_ok s1 ?sin' \<and> owned s1 ?sin' = owned s sin \<union> {?b}"
      by (rule map_ok_grow [OF m n a(4,5) _ frees_sub(1) [OF ok], where b = ?b])
        (use b e n len m in \<open>simp_all add: map_ok_def\<close>)
    moreover have "frees s - frees s1 = {?b}" using a(5) b by auto
    ultimately have "grows s sin s1 ?sin' ?b"
      using a e n b keeps_mono [OF k, of "used s - {indirect (din sin)}"] by (simp add: grows_def)
    then show ?thesis using g n by (intro disjI2 exI [of _ s1] exI [of _ ?sin] exI [of _ ?b]) simp
  qed
next
  case False
  then have n12: "12 \<le> n" "n - 12 < 1024" "n - 12 + 12 = n" using n by auto
  let ?e = "indirect (din sin)"
  let ?sin = "\<lambda>ent. sin\<lparr>din := (din sin)\<lparr>indirect := ent\<rparr>, dirty := True\<rparr>"
  have en: "entry s (din sin) n = 0" using m n by (simp add: map_ok_def)
  have out: "get_out s' sin' b = Some (Inr b, s', sin')" if "fs_ok s'" "b \<in> used s'" for s' sin' b
    using inuse_used [OF that] by (simp add: get_out_def)
  have usedb: "b \<in> used s'" if "b \<in> frees s1" "frees s' = frees s1 - {b}" "vol s' = vol s1" "fs_ok s1" for s1 s' b
    using that frees_sub(1) [OF that(4)] vol_blocks [OF that(3)] by (auto simp: used_iff)
  show ?thesis
  proof (cases "?e = 0")
    case nz: False
    then have eu: "?e \<in> used s" using m by (auto simp: map_ok_def)
    have rdn: "rd 4 (blit (le 0) 0 (fblk s ?e) ((n - 12) * 4) 4) 0 = 0"
      using en nz n12 by (simp add: rd_blit entry_def)
    have rb: "sfs_rbuf s (le 0) 0 4 ?e ((n - 12) * 4) = Some (Inr (), s, blit (le 0) 0 (fblk s ?e) ((n - 12) * 4) 4)"
      using n12 by (intro rbuf_used [OF ok eu]) auto
    have sub: "sfs_bmap_get_sub_nolock s ?e (n - 12) True = get_sub_alloc s ?e ?e ((n - 12) * 4)"
      using nz n12 rb rdn
      by (simp add: sfs_bmap_get_sub_nolock_def SFS_BLK_NENTRY_def SFS_BLKSIZE_def Let_def)
    from get_sub_alloc_ok [OF ok eu n12(2), of ?e] show ?thesis
    proof (elim disjE exE conjE)
      assume "frees s = {}" "get_sub_alloc s ?e ?e ((n - 12) * 4) = get_sub_failed s ?e ?e E_NO_MEM"
      then show ?thesis using sub n12 False ok
        by (intro disjI1 exI [of _ s])
          (simp add: sfs_bmap_get_nolock_def SFS_NDIRECT_def SFS_BLK_NENTRY_def SFS_BLKSIZE_def get_sub_failed_def Let_def)
    next
      fix s' b
      assume a: "b \<in> frees s" "get_sub_alloc s ?e ?e ((n - 12) * 4) = Some (Inr b, s', ?e)" "fs_ok s'"
        "vol s' = vol s" "frees s' = frees s - {b}" "?e \<noteq> b"
        "\<forall>c i. i < 4096 \<longrightarrow> fblk s' c i =
              (if c = ?e then (if (n - 12) * 4 \<le> i \<and> i < (n - 12) * 4 + 4 then le b (i - (n - 12) * 4) else fblk s ?e i)
               else if c = b then 0 else fblk s c i)"
      have g: "grows s sin s' (sin\<lparr>din := (din sin)\<lparr>di_blocks := Suc n\<rparr>\<rparr>) b"
        by (rule grow_sub [OF ok m n(1) n12(1) n(2) _ eu _ _ _ a(3,4,5,1,6,7), of sin])
          (use nz in \<open>simp_all add: entry_def\<close>)
      have "sfs_bmap_get_nolock s sin n True = Some (Inr b, s', sin)"
        using a(2) sub n12 False out [OF a(3) usedb [OF a(1,5,4) ok]]
        by (simp add: sfs_bmap_get_nolock_def SFS_NDIRECT_def SFS_BLK_NENTRY_def SFS_BLKSIZE_def Let_def)
      with g n show ?thesis by (intro disjI2 exI [of _ s'] exI [of _ sin] exI [of _ b]) simp
    qed
  next
    case z: True
    have sub: "sfs_bmap_get_sub_nolock s 0 (n - 12) True = (do {
       (ret, s) \<leftarrow> sfs_block_alloc s;
       (case ret of Inl e \<Rightarrow> Some (Inl e, s, 0) | Inr ent \<Rightarrow> get_sub_alloc s 0 ent ((n - 12) * 4)) })"
      using n12 by (simp add: sfs_bmap_get_sub_nolock_def SFS_BLK_NENTRY_def SFS_BLKSIZE_def Let_def)
    from block_alloc_ok [OF ok] show ?thesis
    proof (elim disjE exE conjE)
      assume "frees s = {}" "sfs_block_alloc s = Some (Inl E_NO_MEM, s)"
      then show ?thesis using sub n12 False ok z
        by (intro disjI1 exI [of _ s])
          (simp add: sfs_bmap_get_nolock_def SFS_NDIRECT_def SFS_BLK_NENTRY_def SFS_BLKSIZE_def Let_def)
    next
      fix s1 let ?ent = "Min (frees s)"
      assume a: "frees s \<noteq> {}" "sfs_block_alloc s = Some (Inr ?ent, s1)" "fs_ok s1" "vol s1 = vol s"
        "frees s1 = frees s - {?ent}" "\<forall>c i. i < 4096 \<longrightarrow> fblk s1 c i = (if c = ?ent then 0 else fblk s c i)"
      have ent: "?ent \<in> frees s" using frees_sub(2) [OF ok] a(1) by (rule Min_in)
      have eu: "?ent \<in> used s1" by (rule usedb [OF ent a(5,4) ok])
      have nz: "?ent \<noteq> 0" using used_less(1) [OF eu] by simp
      have k1: "keeps (used s) s s1" using a(6) ent by (auto simp: keeps_def used_iff)
      from get_sub_alloc_ok [OF a(3) eu n12(2), of ?e] show ?thesis
      proof (elim disjE exE conjE)
        assume b: "frees s1 = {}" "get_sub_alloc s1 ?e ?ent ((n - 12) * 4) = get_sub_failed s1 ?e ?ent E_NO_MEM"
        obtain s2 where s2: "sfs_block_free s1 ?ent = Some s2" "fs_ok s2" "vol s2 = vol s1"
          "frees s2 = insert ?ent (frees s1)" "fblk s2 = fblk s1"
          using block_free_ok [OF a(3) eu] by blast
        have "frees s = {?ent}" using a(5) b(1) ent by auto
        then have "card (frees s) = 1" by (metis card_1_singleton_iff One_nat_def)
        moreover have "keeps (used s) s s2" using k1 s2(5) by (simp add: keeps_def)
        moreover have "frees s2 = frees s" using s2(4) b(1) \<open>frees s = {?ent}\<close> by simp
        ultimately show ?thesis using a sub b(2) s2 n12 False z nz
          by (intro disjI1 exI [of _ s2])
            (simp add: sfs_bmap_get_nolock_def SFS_NDIRECT_def SFS_BLK_NENTRY_def SFS_BLKSIZE_def get_sub_failed_def Let_def)
      next
        fix s' b
        assume c: "b \<in> frees s1" "get_sub_alloc s1 ?e ?ent ((n - 12) * 4) = Some (Inr b, s', ?ent)" "fs_ok s'"
          "vol s' = vol s1" "frees s' = frees s1 - {b}" "?ent \<noteq> b"
          "\<forall>c i. i < 4096 \<longrightarrow> fblk s' c i =
              (if c = ?ent then (if (n - 12) * 4 \<le> i \<and> i < (n - 12) * 4 + 4 then le b (i - (n - 12) * 4) else fblk s1 ?ent i)
               else if c = b then 0 else fblk s1 c i)"
        have "rd 4 (fblk s1 ?ent) (i * 4) = entry s (din sin) (i + 12)" if "i < 1024" for i
          using that a(6) z by (simp add: entry_def rd_zero)
        then have g: "grows s sin s' ((?sin ?ent)\<lparr>din := (din (?sin ?ent))\<lparr>di_blocks := Suc n\<rparr>\<rparr>) b"
          by (intro grow_sub [OF ok m n(1) n12(1) n(2) a(4) eu k1 _ _ c(3,4,5,1,6,7)])
            (use z ent a(5) in simp_all)
        have "sfs_bmap_get_nolock s sin n True = Some (Inr b, s', ?sin ?ent)"
          using a(2) c(2) sub n12 False z nz out [OF c(3) usedb [OF c(1,5,4) a(3)]]
          by (simp add: sfs_bmap_get_nolock_def SFS_NDIRECT_def SFS_BLK_NENTRY_def SFS_BLKSIZE_def Let_def)
        with g n show ?thesis by (intro disjI2 exI [of _ s'] exI [of _ "?sin ?ent"] exI [of _ b]) simp
      qed
    qed
  qed
qed


lemma grows_used: "grows s sin s' sin' b \<Longrightarrow> fs_ok s \<Longrightarrow> b \<in> used s'"
  using frees_sub(1) [of s] vol_blocks [of s' s] by (auto simp: grows_def used_iff)

lemma bmap_load_new:
  assumes ok: "fs_ok s" and m: "map_ok s sin" and n: "di_blocks (din sin) = n" "n < 1036"
  shows "(\<exists>s'. card (frees s) < 2 \<and> sfs_bmap_load_nolock s sin n = Some (Inl E_NO_MEM, s', sin)
            \<and> fs_ok s' \<and> vol s' = vol s \<and> frees s' = frees s \<and> keeps (used s) s s')
    \<or> (\<exists>s' sin' b. sfs_bmap_load_nolock s sin n = Some (Inr b, s', sin') \<and> grows s sin s' sin' b)"
  using bmap_get_new [OF assms]
proof (elim disjE exE conjE)
  fix s' assume "card (frees s) < 2" "sfs_bmap_get_nolock s sin n True = Some (Inl E_NO_MEM, s', sin)"
    "fs_ok s'" "vol s' = vol s" "frees s' = frees s" "keeps (used s) s s'"
  then show ?thesis using n by (intro disjI1 exI [of _ s']) (simp add: sfs_bmap_load_nolock_def)
next
  fix s' sin' b
  assume g: "sfs_bmap_get_nolock s sin n True = Some (Inr b, s', sin')" "di_blocks (din sin') = n"
    "grows s sin s' (sin'\<lparr>din := (din sin')\<lparr>di_blocks := Suc n\<rparr>\<rparr>) b"
  have "sfs_block_inuse s' b = Some True"
    using g(3) grows_used [OF g(3) ok] by (intro inuse_used) (simp_all add: grows_def)
  then have "sfs_bmap_load_nolock s sin n = Some (Inr b, s', sin'\<lparr>din := (din sin')\<lparr>di_blocks := Suc n\<rparr>\<rparr>)"
    using g(1,2) n by (simp add: sfs_bmap_load_nolock_def)
  with g(3) show ?thesis by blast
qed

text \<open>Any number of appended blocks, or none.\<close>

definition meta :: "sfs_inode \<Rightarrow> nat \<times> nat \<times> nat \<times> nat" where
  "meta sin = (ino sin, di_size (din sin), di_type (din sin), di_nlinks (din sin))"

definition ext :: "sfs_fs \<Rightarrow> sfs_inode \<Rightarrow> sfs_fs \<Rightarrow> sfs_inode \<Rightarrow> bool" where
  "ext s sin s' sin' \<longleftrightarrow> fs_ok s' \<and> vol s' = vol s \<and> map_ok s' sin' \<and> meta sin' = meta sin
     \<and> di_blocks (din sin) \<le> di_blocks (din sin')
     \<and> frees s' \<subseteq> frees s \<and> owned s' sin' = owned s sin \<union> (frees s - frees s')
     \<and> (\<forall>i < di_blocks (din sin). entry s' (din sin') i = entry s (din sin) i)
     \<and> (\<forall>i \<in> {di_blocks (din sin) ..< di_blocks (din sin')}.
          \<forall>x < 4096. fblk s' (entry s' (din sin') i) x = 0)
     \<and> keeps (used s - {indirect (din sin)}) s s'
     \<and> (indirect (din sin') \<in> used s \<longrightarrow> indirect (din sin') = indirect (din sin))"

lemma ext_refl: "fs_ok s \<Longrightarrow> map_ok s sin \<Longrightarrow> ext s sin s sin"
  by (simp add: ext_def)

lemma grows_ext:
  assumes g: "grows s sin s' sin' b" and m: "map_ok s sin"
  shows "ext s sin s' sin'"
proof -
  have m': "map_ok s' sin'" "owned s' sin' = owned s sin \<union> (frees s - frees s')" "ino sin' = ino sin"
    "entries s (din sin) \<subseteq> entries s' (din sin')"
  proof -
    show "entries s (din sin) \<subseteq> entries s' (din sin')"
    proof
      fix c assume "c \<in> entries s (din sin)"
      then obtain i where "i < di_blocks (din sin)" "c = entry s (din sin) i" by auto
      then show "c \<in> entries s' (din sin')" using g by (intro image_eqI [of _ _ i]) (simp_all add: grows_def)
    qed
  qed (use g in \<open>simp_all add: grows_def\<close>)
  have "indirect (din sin') = indirect (din sin)" if u: "indirect (din sin') \<in> used s"
  proof -
    have "indirect (din sin') \<in> owned s' sin'" using u by (simp add: owned_def used_iff)
    moreover have "indirect (din sin') \<notin> entries s' (din sin')" "indirect (din sin') \<noteq> ino sin'"
      using m'(1) by (auto simp: map_ok_def)
    ultimately show ?thesis using m' u by (auto simp: owned_def used_iff)
  qed
  moreover have "i = di_blocks (din sin)" if "di_blocks (din sin) \<le> i" "i < Suc (di_blocks (din sin))" for i
    using that by simp
  ultimately show ?thesis using g by (auto simp: ext_def grows_def meta_def)
qed

lemma ext_same:
  assumes "fs_ok s'" "vol s' = vol s" "frees s' = frees s" "keeps (used s) s s'" "map_ok s sin"
  shows "ext s sin s' sin"
proof -
  have u: "used s' = used s" using assms(2,3) vol_blocks [OF assms(2)] by (simp add: used_def)
  have i: "indirect (din sin) \<noteq> 0 \<Longrightarrow> indirect (din sin) \<in> used s" using assms(5) by (auto simp: map_ok_def)
  have "owned s sin \<subseteq> used s'" using owned_used [OF assms(5)] u by simp
  note c = map_ok_cong [OF assms(5,4) i this]
  have "entry s' (din sin) x = entry s (din sin) x" if "x < di_blocks (din sin)" for x
    using entry_cong [OF assms(4) i] that assms(5) by (simp add: map_ok_def)
  with c assms show ?thesis
    by (simp add: ext_def keeps_mono [OF assms(4)])
qed

lemma ext_trans:
  assumes e: "ext s sin s1 sin1" "ext s1 sin1 s2 sin2" and m: "map_ok s sin"
  shows "ext s sin s2 sin2"
proof -
  have v: "vol s1 = vol s" "vol s2 = vol s" using e by (auto simp: ext_def)
  have f: "frees s1 \<subseteq> frees s" "frees s2 \<subseteq> frees s1" using e by (auto simp: ext_def)
  have u1: "used s \<subseteq> used s1" by (rule used_mono [OF v(1) f(1)])
  have i2: "indirect (din sin2) \<in> used s1 \<Longrightarrow> indirect (din sin2) = indirect (din sin1)"
    and i1: "indirect (din sin1) \<in> used s \<Longrightarrow> indirect (din sin1) = indirect (din sin)"
    using e by (auto simp: ext_def)
  have sub: "used s - {indirect (din sin)} \<subseteq> used s1 - {indirect (din sin1)}" using u1 i1 by auto
  have k: "keeps (used s - {indirect (din sin)}) s s2"
  proof (rule keeps_trans)
    show "keeps (used s - {indirect (din sin)}) s s1" "keeps (used s1 - {indirect (din sin1)}) s1 s2"
      using e by (simp_all add: ext_def)
    show "used s - {indirect (din sin)} \<subseteq> (used s - {indirect (din sin)}) \<inter> (used s1 - {indirect (din sin1)})"
      using sub by blast
  qed
  have z: "fblk s2 (entry s2 (din sin2) i) x = 0"
    if i: "di_blocks (din sin) \<le> i" "i < di_blocks (din sin2)" and x: "x < 4096" for i x
  proof (cases "i < di_blocks (din sin1)")
    case True
    moreover have m1: "map_ok s1 sin1" using e by (simp add: ext_def)
    ultimately have "entry s1 (din sin1) i \<in> used s1 - {indirect (din sin1)}"
      using entry_in [OF m1 True] by simp
    moreover have "keeps (used s1 - {indirect (din sin1)}) s1 s2" using e by (simp add: ext_def)
    ultimately have "fblk s2 (entry s1 (din sin1) i) x = fblk s1 (entry s1 (din sin1) i) x"
      using x by (simp add: keepsD)
    also have "\<dots> = 0" using e(1) i True x by (simp add: ext_def)
    finally show ?thesis using e(2) True by (simp add: ext_def)
  next
    case False
    then show ?thesis using e(2) i x by (simp add: ext_def)
  qed
  have o: "owned s2 sin2 = owned s sin \<union> (frees s - frees s2)"
  proof -
    have "owned s2 sin2 = owned s sin \<union> (frees s - frees s1) \<union> (frees s1 - frees s2)"
      using e by (simp add: ext_def)
    then show ?thesis using f by auto
  qed
  have en: "entry s2 (din sin2) i = entry s (din sin) i" if "i < di_blocks (din sin)" for i
    using e that by (simp add: ext_def)
  have "fs_ok s2" "map_ok s2 sin2" "meta sin2 = meta sin" "di_blocks (din sin) \<le> di_blocks (din sin2)"
    using e by (simp_all add: ext_def)
  moreover have "frees s2 \<subseteq> frees s" using f by blast
  moreover have "indirect (din sin2) \<in> used s \<longrightarrow> indirect (din sin2) = indirect (din sin)"
    using i1 i2 u1 by auto
  ultimately show ?thesis unfolding ext_def using k z o en v by simp
qed

lemma truncfile_grow_ok:
  "fs_ok s \<Longrightarrow> map_ok s sin \<Longrightarrow> di_blocks (din sin) = n \<Longrightarrow> n + k \<le> 1036 \<Longrightarrow>
   \<exists>s' sin'. ext s sin s' sin' \<and>
     (truncfile_grow s sin n k = Some (Inr (), s', sin') \<and> di_blocks (din sin') = n + k
      \<or> truncfile_grow s sin n k = Some (Inl E_NO_MEM, s', sin') \<and> di_blocks (din sin') < n + k
        \<and> card (frees s') < 2)"
proof (induction k arbitrary: s sin n)
  case 0
  then show ?case by (intro exI [of _ s] exI [of _ sin]) (simp add: ext_refl)
next
  case (Suc k)
  have n: "n < 1036" using Suc.prems by simp
  from bmap_load_new [OF Suc.prems(1-3) n] show ?case
  proof (elim disjE exE conjE)
    fix s' assume a: "card (frees s) < 2" "sfs_bmap_load_nolock s sin n = Some (Inl E_NO_MEM, s', sin)"
      "fs_ok s'" "vol s' = vol s" "frees s' = frees s" "keeps (used s) s s'"
    then show ?case using Suc.prems
      by (intro exI [of _ s'] exI [of _ sin]) (simp add: ext_same)
  next
    fix s1 sin1 b assume a: "sfs_bmap_load_nolock s sin n = Some (Inr b, s1, sin1)" "grows s sin s1 sin1 b"
    note e = grows_ext [OF a(2) Suc.prems(2)]
    have 1: "fs_ok s1" "map_ok s1 sin1" "di_blocks (din sin1) = Suc n" "Suc n + k \<le> 1036"
      using a(2) Suc.prems by (simp_all add: grows_def)
    obtain s2 sin2 where 2: "ext s1 sin1 s2 sin2"
      "truncfile_grow s1 sin1 (Suc n) k = Some (Inr (), s2, sin2) \<and> di_blocks (din sin2) = Suc n + k
      \<or> truncfile_grow s1 sin1 (Suc n) k = Some (Inl E_NO_MEM, s2, sin2) \<and> di_blocks (din sin2) < Suc n + k
        \<and> card (frees s2) < 2"
      using Suc.IH [OF 1] by blast
    show ?case using ext_trans [OF e 2(1) Suc.prems(2)] 2(2) a(1)
      by (intro exI [of _ s2] exI [of _ sin2]) auto
  qed
qed


text \<open>Giving back blocks at the end of a file.\<close>

definition shr :: "sfs_fs \<Rightarrow> sfs_inode \<Rightarrow> sfs_fs \<Rightarrow> sfs_inode \<Rightarrow> bool" where
  "shr s sin s' sin' \<longleftrightarrow> fs_ok s' \<and> vol s' = vol s \<and> map_ok s' sin' \<and> meta sin' = meta sin
     \<and> di_blocks (din sin') \<le> di_blocks (din sin) \<and> indirect (din sin') = indirect (din sin)
     \<and> frees s' = frees s \<union> entry s (din sin) ` {di_blocks (din sin') ..< di_blocks (din sin)}
     \<and> (\<forall>i < di_blocks (din sin'). entry s' (din sin') i = entry s (din sin) i)
     \<and> keeps (- {indirect (din sin)}) s s'"

lemma shr_refl: "fs_ok s \<Longrightarrow> map_ok s sin \<Longrightarrow> shr s sin s sin"
  by (simp add: shr_def)

lemma shr_trans:
  assumes a: "shr s sin s1 sin1" and b: "shr s1 sin1 s2 sin2"
  shows "shr s sin s2 sin2"
proof -
  let ?n = "di_blocks (din sin)" and ?n1 = "di_blocks (din sin1)" and ?n2 = "di_blocks (din sin2)"
  have le: "?n2 \<le> ?n1" "?n1 \<le> ?n" using a b by (auto simp: shr_def)
  have k: "keeps (- {indirect (din sin)}) s s2"
    by (rule keeps_trans [of "- {indirect (din sin)}" s s1 "- {indirect (din sin)}"])
      (use a b in \<open>simp_all add: shr_def\<close>)
  have "entry s1 (din sin1) ` {?n2 ..< ?n1} = entry s (din sin) ` {?n2 ..< ?n1}"
    using a by (intro image_cong) (auto simp: shr_def)
  then have "frees s2 = frees s \<union> (entry s (din sin) ` {?n1 ..< ?n} \<union> entry s (din sin) ` {?n2 ..< ?n1})"
    using a b by (simp add: shr_def Un_assoc)
  also have "entry s (din sin) ` {?n1 ..< ?n} \<union> entry s (din sin) ` {?n2 ..< ?n1} = entry s (din sin) ` {?n2 ..< ?n}"
    using ivl_disj_un_two(3) [OF le] by (metis image_Un Un_commute)
  finally have f: "frees s2 = frees s \<union> entry s (din sin) ` {?n2 ..< ?n}" .
  have "entry s2 (din sin2) i = entry s (din sin) i" if "i < ?n2" for i
    using a b that le by (simp add: shr_def)
  then show ?thesis using a b k f le by (simp add: shr_def)
qed

lemma free_sub_ok:
  assumes ok: "fs_ok s" and ent: "ent \<in> used s" and k: "k < 1024"
    and b: "rd 4 (fblk s ent) (k * 4) \<in> used s"
  shows "\<exists>s'. sfs_bmap_free_sub_nolock s ent k = Some (Inr (), s') \<and> fs_ok s' \<and> vol s' = vol s
     \<and> frees s' = insert (rd 4 (fblk s ent) (k * 4)) (frees s)
     \<and> (\<forall>c i. i < 4096 \<longrightarrow> fblk s' c i =
          (if c = ent \<and> k * 4 \<le> i \<and> i < k * 4 + 4 then le 0 (i - k * 4) else fblk s c i))"
proof -
  let ?b = "rd 4 (fblk s ent) (k * 4)"
  let ?s1 = "put_blk s ent (blit (fblk s ent) (k * 4) (le 0) 0 4)"
  have r: "sfs_rbuf s (le 0) 0 4 ent (k * 4) = Some (Inr (), s, blit (le 0) 0 (fblk s ent) (k * 4) 4)"
    using k by (intro rbuf_used [OF ok ent]) auto
  have w: "sfs_wbuf s (le 0) 0 4 ent (k * 4) = Some (Inr (), ?s1, le 0)"
    using k by (intro wbuf_used [OF ok ent]) auto
  have "?b \<in> used ?s1" using b by (simp add: used_def)
  then obtain s' where s': "sfs_block_free ?s1 ?b = Some s'" "fs_ok s'" "vol s' = vol s"
    "frees s' = insert ?b (frees s)" "fblk s' = fblk ?s1"
    using block_free_ok [of ?s1 ?b] ok by auto
  have "?b \<noteq> 0" using used_less(1) [OF b] by simp
  then have "sfs_bmap_free_sub_nolock s ent k = Some (Inr (), s')"
    using r w s'(1) k inuse_used [OF ok ent]
    by (simp add: sfs_bmap_free_sub_nolock_def SFS_BLK_NENTRY_def SFS_BLKSIZE_def rd_blit)
  then show ?thesis using s' by (intro exI [of _ s']) (simp add: blit_def)
qed

lemma map_ok_shrink:
  assumes m: "map_ok s sin" and n: "di_blocks (din sin) = Suc n" and v: "vol s' = vol s" and ok: "fs_ok s'"
    and fr: "frees s' = insert (entry s (din sin) n) (frees s)"
    and d: "length (direct (din sin')) = 12" "di_blocks (din sin') = n" "meta sin' = meta sin"
      "indirect (din sin') = indirect (din sin)"
    and e: "\<And>i. i < 1036 \<Longrightarrow> entry s' (din sin') i = (if i = n then 0 else entry s (din sin) i)"
    and k: "keeps (- {indirect (din sin)}) s s'"
  shows "shr s sin s' sin'"
proof -
  have n': "n < 1036" using m n by (simp add: map_ok_def)
  note ein = entry_in [OF m, of n, unfolded n, simplified]
  have bl: "s_blocks (super s') = s_blocks (super s)" using v by (rule vol_blocks)
  have u: "used s' = used s - {entry s (din sin) n}" using fr bl by (auto simp: used_def)
  have inj: "inj_on (entry s (din sin)) {..< Suc n}" using m n by (simp add: map_ok_def)
  have es: "entries s' (din sin') = entry s (din sin) ` {..< n}"
    using e n' d by (intro image_cong) auto
  have "entries s' (din sin') = entries s (din sin) - {entry s (din sin) n}"
    unfolding es using inj n by (simp add: lessThan_Suc)
  moreover have "inj_on (entry s' (din sin')) {..< n}"
    using inj e n' by (auto simp: inj_on_def)
  moreover have "ino sin' = ino sin" using d by (simp add: meta_def)
  moreover have "entry s' (din sin') i = 0" if "n \<le> i" "i < 1036" for i
    using m n e that by (auto simp: map_ok_def)
  ultimately have "map_ok s' sin'"
    unfolding map_ok_def using m n d u ein by (auto simp only: map_ok_def insert_iff Diff_iff)
  then show ?thesis using assms n' by (auto simp: shr_def)
qed

lemma bmap_truncate_ok:
  assumes ok: "fs_ok s" and m: "map_ok s sin" and n: "di_blocks (din sin) = Suc n"
  shows "\<exists>s' sin'. sfs_bmap_truncate_nolock s sin = Some (Inr (), s', sin') \<and> shr s sin s' sin'
     \<and> di_blocks (din sin') = n"
proof -
  note ein = entry_in [OF m, of n, unfolded n, simplified]
  have n': "n < 1036" and len: "length (direct (din sin)) = 12" using m n by (simp_all add: map_ok_def)
  have enz: "entry s (din sin) n \<noteq> 0" using used_less(1) [OF ein(1)] by simp
  show ?thesis
  proof (cases "n < 12")
    case True
    then have b: "direct (din sin) ! n = entry s (din sin) n" by (simp add: entry_def)
    obtain s' where s': "sfs_block_free s (entry s (din sin) n) = Some s'" "fs_ok s'" "vol s' = vol s"
      "frees s' = insert (entry s (din sin) n) (frees s)" "fblk s' = fblk s"
      using block_free_ok [OF ok ein(1)] by blast
    let ?sin = "sin\<lparr>din := (din sin)\<lparr>direct := (direct (din sin))[n := 0], di_blocks := n\<rparr>, dirty := True\<rparr>"
    have "sfs_bmap_truncate_nolock s sin = Some (Inr (), s', ?sin)"
      using n True b enz s'(1)
      by (simp add: sfs_bmap_truncate_nolock_def sfs_bmap_free_nolock_def SFS_NDIRECT_def)
    moreover have "shr s sin s' ?sin"
      by (rule map_ok_shrink [OF m n s'(3,2,4)])
        (use len True s'(5) in \<open>auto simp: meta_def entry_def keeps_def nth_list_update\<close>)
    ultimately show ?thesis by (intro exI [of _ s'] exI [of _ ?sin]) simp
  next
    case False
    let ?e = "indirect (din sin)"
    have k: "n - 12 < 1024" using n' by simp
    have e0: "?e \<noteq> 0" using enz False by (auto simp: entry_def split: if_splits)
    then have eu: "?e \<in> used s" using m by (auto simp: map_ok_def)
    have b: "rd 4 (fblk s ?e) ((n - 12) * 4) = entry s (din sin) n" using e0 False by (simp add: entry_def)
    obtain s' where s': "sfs_bmap_free_sub_nolock s ?e (n - 12) = Some (Inr (), s')" "fs_ok s'" "vol s' = vol s"
      "frees s' = insert (entry s (din sin) n) (frees s)"
      and f: "\<forall>c i. i < 4096 \<longrightarrow> fblk s' c i =
          (if c = ?e \<and> (n - 12) * 4 \<le> i \<and> i < (n - 12) * 4 + 4 then le 0 (i - (n - 12) * 4) else fblk s c i)"
      using free_sub_ok [OF ok eu k] b ein(1) by auto
    let ?sin = "sin\<lparr>din := (din sin)\<lparr>di_blocks := n\<rparr>, dirty := True\<rparr>"
    have "sfs_bmap_truncate_nolock s sin = Some (Inr (), s', ?sin)"
      using n False e0 k s'(1)
      by (simp add: sfs_bmap_truncate_nolock_def sfs_bmap_free_nolock_def SFS_NDIRECT_def SFS_BLK_NENTRY_def
          SFS_BLKSIZE_def Let_def)
    moreover have "entry s' (din ?sin) i = (if i = n then 0 else entry s (din sin) i)" if "i < 1036" for i
    proof (cases "i < 12")
      case True
      with False show ?thesis by (auto simp: entry_def)
    next
      case i: False
      have i': "i - 12 < 1024" "i - 12 = n - 12 \<longleftrightarrow> i = n" using that i False by auto
      have "rd 4 (fblk s' ?e) ((i - 12) * 4) = (if i - 12 = n - 12 then 0 else rd 4 (fblk s ?e) ((i - 12) * 4))"
        by (rule entry_write [OF _ k i'(1)]) (use f in simp_all)
      then show ?thesis using i i'(2) e0 by (simp add: entry_def)
    qed
    then have "shr s sin s' ?sin"
      by (intro map_ok_shrink [OF m n s'(3,2,4)]) (use len f in \<open>auto simp: meta_def keeps_def\<close>)
    ultimately show ?thesis by (intro exI [of _ s'] exI [of _ ?sin]) simp
  qed
qed

lemma truncfile_shrink_ok:
  "fs_ok s \<Longrightarrow> map_ok s sin \<Longrightarrow> di_blocks (din sin) = n + k \<Longrightarrow>
   \<exists>s' sin'. truncfile_shrink s sin k = Some (Inr (), s', sin') \<and> shr s sin s' sin' \<and> di_blocks (din sin') = n"
proof (induction k arbitrary: s sin)
  case 0
  then show ?case by (simp add: shr_refl)
next
  case (Suc k)
  obtain s1 sin1 where 1: "sfs_bmap_truncate_nolock s sin = Some (Inr (), s1, sin1)" "shr s sin s1 sin1"
    "di_blocks (din sin1) = n + k"
    using bmap_truncate_ok [OF Suc.prems(1,2), of "n + k"] Suc.prems(3) by (auto simp only: add_Suc_right)
  have "fs_ok s1" "map_ok s1 sin1" using 1(2) by (simp_all add: shr_def)
  from Suc.IH [OF this 1(3)] obtain s2 sin2 where 2: "truncfile_shrink s1 sin1 k = Some (Inr (), s2, sin2)"
    "shr s1 sin1 s2 sin2" "di_blocks (din sin2) = n"
    by blast
  have "truncfile_shrink s sin (Suc k) = Some (Inr (), s2, sin2)" using 1(1) 2(1) by simp
  with 2(3) shr_trans [OF 1(2) 2(2)] show ?case by blast
qed


section \<open>Files\<close>

text \<open>The byte of a file at a position, and a file whose block count fits its size.\<close>

definition fbyte :: "sfs_fs \<Rightarrow> sfs_inode \<Rightarrow> nat \<Rightarrow> byte" where
  "fbyte s sin i = fblk s (entry s (din sin) (i div 4096)) (i mod 4096)"

definition blocks_for :: "nat \<Rightarrow> nat" where
  "blocks_for n = (n + 4095) div 4096"

definition file_ok :: "sfs_fs \<Rightarrow> sfs_inode \<Rightarrow> bool" where
  "file_ok s sin \<longleftrightarrow> fs_ok s \<and> map_ok s sin \<and> di_blocks (din sin) = blocks_for (di_size (din sin))"

text \<open>Every other file keeps its block map and its contents.\<close>

definition untouched :: "sfs_fs \<Rightarrow> sfs_inode \<Rightarrow> sfs_fs \<Rightarrow> bool" where
  "untouched s sin s' \<longleftrightarrow> (\<forall>other. map_ok s other \<and> owned s other \<inter> owned s sin = {}
     \<longrightarrow> map_ok s' other \<and> owned s' other = owned s other
       \<and> (\<forall>i < di_blocks (din other) * 4096. fbyte s' other i = fbyte s other i))"

lemma blocks_for_less: "i < n \<Longrightarrow> i div 4096 < blocks_for n"
  unfolding blocks_for_def by (simp add: div_less_iff_less_mult less_eq_div_iff_mult_less_eq Suc_le_eq [symmetric]; linarith)

lemma blocks_for_mono: "m \<le> n \<Longrightarrow> blocks_for m \<le> blocks_for n"
  unfolding blocks_for_def by (intro div_le_mono) simp

lemma blocks_for_cover: "n \<le> blocks_for n * 4096"
proof -
  have "n + 4095 = blocks_for n * 4096 + (n + 4095) mod 4096" by (simp add: blocks_for_def)
  moreover have "(n + 4095) mod 4096 \<le> 4095" using mod_less_divisor [of 4096 "n + 4095"] by linarith
  ultimately show ?thesis by linarith
qed

lemma untouchedI:
  assumes k: "keeps B s s'" and B: "\<And>other. map_ok s other \<Longrightarrow> owned s other \<inter> owned s sin = {} \<Longrightarrow> owned s other \<subseteq> B \<inter> used s'"
  shows "untouched s sin s'"
  unfolding untouched_def
proof (intro allI impI)
  fix x assume x: "map_ok s x \<and> owned s x \<inter> owned s sin = {}"
  have sub: "owned s x \<subseteq> B" "owned s x \<subseteq> used s'" using B [of x] x by auto
  have i: "indirect (din x) \<noteq> 0 \<Longrightarrow> indirect (din x) \<in> B" using sub(1) by (auto simp: owned_def)
  note c = map_ok_cong [OF conjunct1 [OF x] k i sub(2)]
  have "fbyte s' x p = fbyte s x p" if "p < di_blocks (din x) * 4096" for p
  proof -
    have p: "p div 4096 < di_blocks (din x)" using that by (simp add: less_mult_imp_div_less)
    moreover have "di_blocks (din x) \<le> 1036" using x by (simp add: map_ok_def)
    ultimately have "entry s' (din x) (p div 4096) = entry s (din x) (p div 4096)"
      using entry_cong [OF k i] by simp
    moreover have "entry s (din x) (p div 4096) \<in> B" using p sub(1) by (auto simp: owned_def)
    ultimately show ?thesis using k by (simp add: fbyte_def keepsD)
  qed
  with c show "map_ok s' x \<and> owned s' x = owned s x \<and> (\<forall>i < di_blocks (din x) * 4096. fbyte s' x i = fbyte s x i)"
    by blast
qed

lemma ext_untouched:
  assumes e: "ext s sin s' sin'"
  shows "untouched s sin s'"
proof (rule untouchedI)
  show "keeps (used s - {indirect (din sin)}) s s'" using e by (simp add: ext_def)
  fix x assume x: "map_ok s x" "owned s x \<inter> owned s sin = {}"
  have "used s \<subseteq> used s'" by (rule used_mono) (use e in \<open>simp_all add: ext_def\<close>)
  moreover have "indirect (din sin) \<notin> owned s x \<or> indirect (din sin) = 0"
    using x(2) by (auto simp: owned_def)
  ultimately show "owned s x \<subseteq> (used s - {indirect (din sin)}) \<inter> used s'"
    using owned_used [OF x(1)] by (auto simp: used_def)
qed

lemma shr_untouched:
  assumes e: "shr s sin s' sin'"
  shows "untouched s sin s'"
proof (rule untouchedI)
  show "keeps (- {indirect (din sin)}) s s'" using e by (simp add: shr_def)
  fix x assume x: "map_ok s x" "owned s x \<inter> owned s sin = {}"
  have bl: "s_blocks (super s') = s_blocks (super s)" using e by (intro vol_blocks) (simp add: shr_def)
  have "frees s' \<subseteq> frees s \<union> entries s (din sin)" using e by (auto simp: shr_def)
  then have "frees s' \<subseteq> frees s \<union> owned s sin" by (auto simp: owned_def)
  then have "used s - owned s sin \<subseteq> used s'" using bl by (auto simp: used_def)
  moreover have "indirect (din sin) \<notin> owned s x \<or> indirect (din sin) = 0"
    using x(2) by (auto simp: owned_def)
  ultimately show "owned s x \<subseteq> - {indirect (din sin)} \<inter> used s'"
    using owned_used [OF x(1)] x(2) by (auto simp: used_def)
qed

text \<open>The number of blocks an extension takes.\<close>

lemma ext_card:
  assumes e: "ext s sin s' sin'" and m: "map_ok s sin" and ok: "fs_ok s"
  shows "card (frees s) \<le> card (frees s') + (di_blocks (din sin') - di_blocks (din sin)) + 1"
    and "di_blocks (din sin') \<le> di_blocks (din sin) + card (frees s) + 1"
proof -
  let ?n = "di_blocks (din sin)" and ?n' = "di_blocks (din sin')"
  let ?new = "frees s - frees s'"
  have le: "?n \<le> ?n'" and sub: "frees s' \<subseteq> frees s" and m': "map_ok s' sin'"
    and ow: "owned s' sin' = owned s sin \<union> ?new" and ino: "ino sin' = ino sin"
    using e by (simp_all add: ext_def meta_def)
  have old: "entry s' (din sin') i = entry s (din sin) i" if "i < ?n" for i using e that by (simp add: ext_def)
  have fin: "finite (frees s)" by (rule frees_sub(2) [OF ok])
  have "?new \<subseteq> entry s' (din sin') ` {?n ..< ?n'} \<union> {indirect (din sin')}"
  proof
    fix c assume c: "c \<in> ?new"
    then have "c \<notin> used s" by (simp add: used_def)
    moreover have "c \<in> owned s' sin'" using c ow by simp
    ultimately have "c = indirect (din sin') \<or> (\<exists>i < ?n'. c = entry s' (din sin') i \<and> c \<notin> used s)"
      using m ino by (auto simp: owned_def map_ok_def)
    moreover have "?n \<le> i" if "c = entry s' (din sin') i" "c \<notin> used s" for i
      using old [of i] entry_in(1) [OF m, of i] that by (metis not_le)
    ultimately show "c \<in> entry s' (din sin') ` {?n ..< ?n'} \<union> {indirect (din sin')}" by auto
  qed
  then have "card ?new \<le> card (entry s' (din sin') ` {?n ..< ?n'} \<union> {indirect (din sin')})"
    by (intro card_mono) auto
  also have "\<dots> \<le> card (entry s' (din sin') ` {?n ..< ?n'}) + card {indirect (din sin')}" by (rule card_Un_le)
  also have "\<dots> \<le> (?n' - ?n) + 1" using card_image_le [of "{?n ..< ?n'}" "entry s' (din sin')"] by simp
  finally have "card ?new \<le> (?n' - ?n) + 1" .
  moreover have "card (frees s) = card (frees s') + card ?new"
    using card_Diff_subset [OF finite_subset [OF sub fin] sub] card_mono [OF fin sub] by simp
  ultimately show "card (frees s) \<le> card (frees s') + (?n' - ?n) + 1" by simp
  have "inj_on (entry s' (din sin')) {?n ..< ?n'}"
    using m' by (auto simp: map_ok_def intro: inj_on_subset)
  then have "card (entry s' (din sin') ` {?n ..< ?n'}) = ?n' - ?n" by (simp add: card_image)
  moreover have "entry s' (din sin') ` {?n ..< ?n'} \<subseteq> insert (indirect (din sin)) ?new"
  proof
    fix c assume "c \<in> entry s' (din sin') ` {?n ..< ?n'}"
    then obtain i where i: "?n \<le> i" "i < ?n'" "c = entry s' (din sin') i" by auto
    have "c \<in> owned s' sin'" using i by (simp add: owned_def)
    moreover have "c \<noteq> ino sin" using entry_in(3) [OF m' i(2)] i(3) ino by simp
    moreover have "c \<notin> entries s (din sin)"
    proof
      assume "c \<in> entries s (din sin)"
      then obtain j where j: "j < ?n" "c = entry s' (din sin') j" using old by auto
      then have "i = j" using m' i le unfolding map_ok_def inj_on_def by (metis lessThan_iff less_le_trans)
      with i j show False by simp
    qed
    ultimately show "c \<in> insert (indirect (din sin)) ?new" using ow by (auto simp: owned_def)
  qed
  then have "card (entry s' (din sin') ` {?n ..< ?n'}) \<le> card (insert (indirect (din sin)) ?new)"
    using fin by (intro card_mono) auto
  moreover have "card (insert (indirect (din sin)) ?new) \<le> Suc (card ?new)" using fin by (simp add: card_insert_if)
  moreover have "card ?new \<le> card (frees s)" using fin by (intro card_mono) auto
  ultimately show "?n' \<le> ?n + card (frees s) + 1" by simp
qed


lemma fbyte_same:
  assumes "\<And>j. j < n \<Longrightarrow> entry s' (din sin') j = entry s (din sin) j"
    and "keeps B s s'" "\<And>j. j < n \<Longrightarrow> entry s (din sin) j \<in> B" "i < n * 4096"
  shows "fbyte s' sin' i = fbyte s sin i"
proof -
  have "i div 4096 < n" using assms(4) by (simp add: less_mult_imp_div_less)
  then show ?thesis using assms(1,3) keepsD [OF assms(2)] by (simp add: fbyte_def)
qed

lemma ext_fbyte:
  assumes e: "ext s sin s' sin'" and m: "map_ok s sin" and i: "i < di_blocks (din sin) * 4096"
  shows "fbyte s' sin' i = fbyte s sin i"
  by (rule fbyte_same [of "di_blocks (din sin)" _ _ _ _ "used s - {indirect (din sin)}"])
    (use e i entry_in [OF m] in \<open>simp_all add: ext_def\<close>)

lemma ext_fbyte_new:
  assumes e: "ext s sin s' sin'" and i: "di_blocks (din sin) * 4096 \<le> i" "i < di_blocks (din sin') * 4096"
  shows "fbyte s' sin' i = 0"
proof -
  have "di_blocks (din sin) \<le> i div 4096" "i div 4096 < di_blocks (din sin')"
    using i by (simp_all add: less_eq_div_iff_mult_less_eq less_mult_imp_div_less)
  then show ?thesis using e by (simp add: ext_def fbyte_def)
qed

lemma shr_fbyte:
  assumes e: "shr s sin s' sin'" and m: "map_ok s sin" and i: "i < di_blocks (din sin') * 4096"
  shows "fbyte s' sin' i = fbyte s sin i"
  by (rule fbyte_same [of "di_blocks (din sin')" _ _ _ _ "- {indirect (din sin)}"])
    (use e i entry_in(2) [OF m] in \<open>auto simp: shr_def\<close>)

text \<open>Setting size and the dirty flag does not concern the block map.\<close>

lemma entry_size [simp]: "entry s (d\<lparr>di_size := n\<rparr>) = entry s d"
  by (simp add: entry_def fun_eq_iff)

lemma map_ok_size [simp]:
  "map_ok s (sin\<lparr>din := (din sin)\<lparr>di_size := n\<rparr>, dirty := d\<rparr>) = map_ok s sin"
  "owned s (sin\<lparr>din := (din sin)\<lparr>di_size := n\<rparr>, dirty := d\<rparr>) = owned s sin"
  "fbyte s (sin\<lparr>din := (din sin)\<lparr>di_size := n\<rparr>, dirty := d\<rparr>) i = fbyte s sin i"
  by (simp_all add: map_ok_def owned_def fbyte_def)

lemma truncfile_cases:
  assumes ok: "fs_ok s" and m: "map_ok s sin" and len: "0 \<le> len" "len \<le> 1036 * 4096" "int (di_size (din sin)) \<noteq> len"
  shows "\<exists>s' sin'. (ext s sin s' sin' \<or> shr s sin s' sin') \<and>
     (sfs_truncfile s sin len = Some (Inr (), s', sin'\<lparr>din := (din sin')\<lparr>di_size := nat len\<rparr>, dirty := True\<rparr>)
        \<and> di_blocks (din sin') = blocks_for (nat len)
      \<or> sfs_truncfile s sin len = Some (Inl E_NO_MEM, s', sin') \<and> ext s sin s' sin'
        \<and> di_blocks (din sin') < blocks_for (nat len) \<and> card (frees s') < 2)"
proof -
  let ?n = "di_blocks (din sin)" and ?t = "blocks_for (nat len)"
  have t: "?t = (nat len + SFS_BLKSIZE - 1) div SFS_BLKSIZE" by (simp add: blocks_for_def SFS_BLKSIZE_def)
  have range: "\<not> (len < 0 \<or> len > int SFS_MAX_FILE_SIZE)" using len by (simp add: SFS_MAX_FILE_SIZE_def)
  have t36: "?t \<le> 1036" unfolding blocks_for_def using len by (simp add: div_le_mono [of _ "1036 * 4096 + 4095" 4096, simplified])
  have eq: "sfs_truncfile s sin len =
     seqE (if ?n < ?t then truncfile_grow s sin ?n (?t - ?n)
                 else if ?t < ?n then truncfile_shrink s sin (?n - ?t)
                 else Some (Inr (), s, sin))
             (\<lambda>_ (sfs, sin). do {
               kassert (di_blocks (din sin) = ?t);
               Some (Inr (), sfs, sin\<lparr>din := (din sin)\<lparr>di_size := nat len\<rparr>, dirty := True\<rparr>)
             })"
    using range len(3) unfolding sfs_truncfile_def t Let_def by simp
  consider "?n < ?t" | "?t < ?n" | "?n = ?t" by linarith
  then show ?thesis
  proof cases
    case 1
    then have "?n + (?t - ?n) \<le> 1036" using t36 by simp
    from truncfile_grow_ok [OF ok m refl this] 1 show ?thesis unfolding eq by (elim exE conjE disjE) auto
  next
    case 2
    obtain s' sin' where "truncfile_shrink s sin (?n - ?t) = Some (Inr (), s', sin')" "shr s sin s' sin'"
      "di_blocks (din sin') = ?t"
      using truncfile_shrink_ok [OF ok m, of ?t "?n - ?t"] 2 by auto
    then show ?thesis unfolding eq using 2 by auto
  next
    case 3
    then show ?thesis unfolding eq using shr_refl [OF ok m] by auto
  qed
qed

text \<open>An empty file on the example volume; its inode is in block 3.\<close>

definition ex_sin :: sfs_inode where
  "ex_sin = \<lparr>din = \<lparr>di_size = 0, di_type = SFS_TYPE_FILE, di_nlinks = 1, di_blocks = 0,
     direct = replicate 12 0, indirect = 0\<rparr>, ino = 3, dirty = False, reclaim_count = 1\<rparr>"

lemma ex_frees: "frees ex_sfs = {32 ..< 40}"
  using ex_free by (simp add: frees_def ex_sfs_def)

lemma ex_sin_ok: "map_ok ex_sfs ex_sin"
  using ex_frees by (auto simp: map_ok_def ex_sin_def entry_def used_def ex_sfs_def ex_super_def)

lemma ex_file_ok: "file_ok ex_sfs ex_sin"
  using ex_sin_ok ex_sfs_ok by (simp add: file_ok_def) (simp add: ex_sin_def blocks_for_def)

text \<open>
  C20. \<open>sfs_truncfile\<close> on a consistent file, up to the 1036 blocks an inode can map.  It never
  panics.  When it succeeds, the size is the requested one, the block count fits it, the bytes
  below both sizes are kept, whole new blocks read as zeros, and all other files are untouched.
  It always succeeds when the file shrinks and when two more blocks are free than the file needs;
  the only error is \<open>E_NO_MEM\<close>, which keeps the size and the contents of every file.
\<close>

theorem sfs_truncfile_correct:
  assumes "file_ok s sin" "0 \<le> len" "len \<le> 1036 * 4096"
  shows "\<exists>r s' sin'. sfs_truncfile s sin len = Some (r, s', sin') \<and> fs_ok s' \<and> map_ok s' sin'
     \<and> ino sin' = ino sin \<and> untouched s sin s'
     \<and> (\<forall>i < min (di_size (din sin)) (nat len). fbyte s' sin' i = fbyte s sin i)
     \<and> (r = Inr () \<and> file_ok s' sin' \<and> int (di_size (din sin')) = len
          \<and> (\<forall>i < nat len. di_blocks (din sin) * 4096 \<le> i \<longrightarrow> fbyte s' sin' i = 0)
        \<or> r = Inl E_NO_MEM \<and> di_size (din sin') = di_size (din sin) \<and> int (di_size (din sin)) < len
          \<and> card (frees s) < 2 + (blocks_for (nat len) - di_blocks (din sin)))"
proof -
  have ok: "fs_ok s" and m: "map_ok s sin" and bl: "di_blocks (din sin) = blocks_for (di_size (din sin))"
    using assms(1) by (simp_all add: file_ok_def)
  note cover = blocks_for_cover
  show ?thesis
  proof (cases "int (di_size (din sin)) = len")
    case True
    then have "sfs_truncfile s sin len = Some (Inr (), s, sin)"
      using assms bl by (simp add: sfs_truncfile_def SFS_MAX_FILE_SIZE_def SFS_BLKSIZE_def blocks_for_def)
    moreover have "\<not> di_blocks (din sin) * 4096 \<le> i" if "i < nat len" for i
      using that True bl cover [of "di_size (din sin)"] by linarith
    ultimately show ?thesis using True assms(1) ok m shr_untouched [OF shr_refl [OF ok m]]
      by (intro exI [of _ "Inr ()"] exI [of _ s] exI [of _ sin]) auto
  next
    case False
    obtain s' sin' where e: "ext s sin s' sin' \<or> shr s sin s' sin'" and
      r: "sfs_truncfile s sin len = Some (Inr (), s', sin'\<lparr>din := (din sin')\<lparr>di_size := nat len\<rparr>, dirty := True\<rparr>)
        \<and> di_blocks (din sin') = blocks_for (nat len)
      \<or> sfs_truncfile s sin len = Some (Inl E_NO_MEM, s', sin') \<and> ext s sin s' sin'
        \<and> di_blocks (din sin') < blocks_for (nat len) \<and> card (frees s') < 2"
      using truncfile_cases [OF ok m assms(2,3) False] by blast
    have b: "fs_ok s'" "map_ok s' sin'" "ino sin' = ino sin" "di_size (din sin') = di_size (din sin)"
      using e by (auto simp: ext_def shr_def meta_def)
    have un: "untouched s sin s'" using e ext_untouched shr_untouched by blast
    have keep: "fbyte s' sin' i = fbyte s sin i"
      if "i < di_blocks (din sin) * 4096" "i < di_blocks (din sin') * 4096" for i
      using e that ext_fbyte [OF _ m] shr_fbyte [OF _ m] by blast
    have new: "fbyte s' sin' i = 0"
      if "di_blocks (din sin) * 4096 \<le> i" "i < di_blocks (din sin') * 4096" for i
      using e
    proof
      assume "ext s sin s' sin'" then show ?thesis using that by (rule ext_fbyte_new)
    next
      assume "shr s sin s' sin'" then show ?thesis using that by (simp add: shr_def)
    qed
    note c = cover [of "di_size (din sin)"] cover [of "nat len"]
    from r show ?thesis
    proof
      let ?sin = "sin'\<lparr>din := (din sin')\<lparr>di_size := nat len\<rparr>, dirty := True\<rparr>"
      assume a: "sfs_truncfile s sin len = Some (Inr (), s', ?sin) \<and> di_blocks (din sin') = blocks_for (nat len)"
      then have "file_ok s' ?sin" "int (di_size (din ?sin)) = len"
        using b assms(2) by (simp_all add: file_ok_def)
      moreover have "\<forall>i < min (di_size (din sin)) (nat len). fbyte s' ?sin i = fbyte s sin i"
        using keep c a bl by auto
      moreover have "\<forall>i < nat len. di_blocks (din sin) * 4096 \<le> i \<longrightarrow> fbyte s' ?sin i = 0"
        using new c a by auto
      ultimately show ?thesis using a b un
        by (intro exI [of _ "Inr ()"] exI [of _ s'] exI [of _ ?sin]) simp
    next
      assume a: "sfs_truncfile s sin len = Some (Inl E_NO_MEM, s', sin') \<and> ext s sin s' sin'
        \<and> di_blocks (din sin') < blocks_for (nat len) \<and> card (frees s') < 2"
      then have le: "di_blocks (din sin) \<le> di_blocks (din sin')" by (simp add: ext_def)
      then have "blocks_for (di_size (din sin)) < blocks_for (nat len)" using a bl by simp
      then have "\<not> nat len \<le> di_size (din sin)" using blocks_for_mono by (meson not_le)
      then have lt: "int (di_size (din sin)) < len" by linarith
      have "card (frees s) < 2 + (blocks_for (nat len) - di_blocks (din sin))"
        using ext_card(1) [OF conjunct1 [OF conjunct2 [OF a]] m ok] a le by linarith
      moreover have "\<forall>i < min (di_size (din sin)) (nat len). fbyte s' sin' i = fbyte s sin i"
        using keep c le bl by auto
      ultimately show ?thesis using a b un lt
        by (intro exI [of _ "Inl E_NO_MEM"] exI [of _ s'] exI [of _ sin']) simp
    qed
  qed
qed

theorem sfs_truncfile_correct_witness:
  "\<exists>s' sin'. sfs_truncfile ex_sfs ex_sin 12288 = Some (Inr (), s', sin') \<and> file_ok s' sin'
     \<and> di_size (din sin') = 12288"
proof -
  have "card (frees ex_sfs) = 8" by (simp add: ex_frees)
  moreover have "di_blocks (din ex_sin) = 0" by (simp add: ex_sin_def)
  ultimately show ?thesis
    using sfs_truncfile_correct [OF ex_file_ok, of 12288] by (auto simp: blocks_for_def)
qed

text \<open>
  Running out of space while a file grows: the blocks already appended stay in the block map
  although the size is unchanged.  An empty file whose position is moved beyond what the volume
  can hold gets \<open>E_NO_MEM\<close>; truncating it to its size 0 afterwards, as an open with \<open>O_TRUNC\<close> or
  \<open>O_CREAT\<close> does, fails the assertion \<open>tblks == din->blocks\<close> and halts the kernel.
\<close>

lemma failed_seek_then_truncate_panics:
  assumes "file_ok s sin" "di_size (din sin) = 0" "0 < pos" "pos \<le> 1036 * 4096"
    and "3 \<le> card (frees s)" "card (frees s) + 1 < blocks_for (nat pos)"
  shows "\<exists>s' sin'. sfs_tryseek s sin pos = Some (Inl E_NO_MEM, s', sin') \<and> di_size (din sin') = 0
     \<and> sfs_truncfile s' sin' 0 = None"
proof -
  have ok: "fs_ok s" and m: "map_ok s sin" and bl: "di_blocks (din sin) = 0"
    using assms(1,2) by (simp_all add: file_ok_def blocks_for_def)
  have ts: "sfs_tryseek s sin pos = sfs_truncfile s sin pos"
    using assms by (simp add: sfs_tryseek_def SFS_MAX_FILE_SIZE_def)
  have ne: "int (di_size (din sin)) \<noteq> pos" using assms by simp
  obtain s' sin' where e: "ext s sin s' sin' \<or> shr s sin s' sin'" and
      r: "sfs_truncfile s sin pos = Some (Inr (), s', sin'\<lparr>din := (din sin')\<lparr>di_size := nat pos\<rparr>, dirty := True\<rparr>)
        \<and> di_blocks (din sin') = blocks_for (nat pos)
      \<or> sfs_truncfile s sin pos = Some (Inl E_NO_MEM, s', sin') \<and> ext s sin s' sin'
        \<and> di_blocks (din sin') < blocks_for (nat pos) \<and> card (frees s') < 2"
    using truncfile_cases [OF ok m _ assms(4) ne] assms(3) by auto
  have "di_blocks (din sin') < blocks_for (nat pos)" using e
  proof
    assume "ext s sin s' sin'" from ext_card(2) [OF this m ok] show ?thesis using bl assms(6) by simp
  next
    assume "shr s sin s' sin'" then show ?thesis using bl assms(6) by (simp add: shr_def)
  qed
  with r have a: "sfs_truncfile s sin pos = Some (Inl E_NO_MEM, s', sin')" "ext s sin s' sin'" "card (frees s') < 2"
    by auto
  have "di_blocks (din sin') \<noteq> 0" using ext_card(1) [OF a(2) m ok] a(3) assms(5) bl by simp
  moreover have sz: "di_size (din sin') = 0" using a(2) assms(2) by (simp add: ext_def meta_def)
  ultimately have "sfs_truncfile s' sin' 0 = None"
    by (simp add: sfs_truncfile_def kassert_def SFS_BLKSIZE_def)
  with ts a(1) sz show ?thesis by auto
qed

lemma failed_seek_then_truncate_panics_witness:
  "\<exists>s' sin'. sfs_tryseek ex_sfs ex_sin 40960 = Some (Inl E_NO_MEM, s', sin')
     \<and> sfs_truncfile s' sin' 0 = None"
proof -
  have "card (frees ex_sfs) = 8" "di_size (din ex_sin) = 0" by (simp_all add: ex_frees ex_sin_def)
  then show ?thesis
    using failed_seek_then_truncate_panics [OF ex_file_ok, of 40960] by (auto simp: blocks_for_def)
qed

end
