(* ===== verification/Page_Walk.thy ===== *)
theory Page_Walk
  imports Page_Table Sfs_Map
begin

text \<open>
  What the page tables of an address space promise: the tables reached from a page directory form a
  tree of distinct frames that the allocator does not own, and \<open>get_pte\<close>, \<open>page_insert\<close> and
  \<open>pgdir_alloc_page\<close> change the translation of one page only.
\<close>

section \<open>Entries\<close>

lemma pte_get_set:
  assumes "i < 512" "j < 512"
  shows "pte_get (pte_set (f, i) e s) (g, j) = (if f = g \<and> i = j then e else pte_get s (g, j))"
proof (cases "f = g \<and> i = j")
  case True
  have "rd 8 (blit (frame s f) (8 * i) (le (unat e)) 0 8) (8 * i) = unat e"
  proof (rule rd_le_eq)
    have "unat e < 2 ^ 64" using unsigned_less [of e, where ?'a = nat] by simp
    then show "unat e < 256 ^ 8" by simp
  qed (simp add: blit_def)
  then show ?thesis using True by (simp add: pte_get_def pte_set_def)
next
  case False
  have "rd 8 (blit (frame s f) (8 * i) (le (unat e)) 0 8) (8 * j) = rd 8 (frame s f) (8 * j)" if "i \<noteq> j"
    by (rule rd_cong) (use that in \<open>auto simp: blit_def\<close>)
  then show ?thesis using False by (auto simp: pte_get_def pte_set_def)
qed

lemma pte_set_rest [simp]:
  "pool (pte_set a e s) = pool s" "swap_dev (pte_set a e s) = swap_dev s" "swap_init_ok (pte_set a e s) = swap_init_ok s"
  "pra_list (pte_set a e s) = pra_list s" "g \<noteq> fst a \<Longrightarrow> frame (pte_set a e s) g = frame s g"
  by (simp_all add: pte_set_def)

lemma drop_push_12:
  assumes "take_bit 44 (w :: 64 word) = w"
  shows "drop_bit 12 (push_bit 2 (push_bit 10 w)) = w"
proof (rule bit_word_eqI)
  fix n assume "n < LENGTH(64)"
  have "bit w n \<Longrightarrow> n < 44" using assms by (metis bit_take_bit_iff)
  then show "bit (drop_bit 12 (push_bit 2 (push_bit 10 w))) n \<longleftrightarrow> bit w n" by (auto simp: bit_simps)
qed

lemma pte_fields:
  assumes "ppn < 2 ^ 44" "perm AND NOT 0x3FF = 0"
  shows "PPN (PTE_ADDR (pte_create ppn perm)) = ppn" "valid_pte (pte_create ppn perm)" "pte_create ppn perm \<noteq> 0"
proof -
  let ?w = "word_of_nat ppn :: 64 word"
  have "PTE_V AND NOT 0x3FF = (0 :: 64 word)" by (simp add: PTE_V_def)
  moreover have "push_bit 10 ?w AND NOT 0x3FF = push_bit 10 ?w"
  proof -
    have m: "(0x3FF :: 64 word) = mask 10" by (simp add: mask_eq_exp_minus_1)
    show ?thesis unfolding m by (rule bit_word_eqI) (auto simp: bit_simps)
  qed
  ultimately have a: "PTE_ADDR (pte_create ppn perm) = push_bit 2 (push_bit 10 ?w)"
    using assms(2) by (simp add: PTE_ADDR_def pte_create_def bit.conj_disj_distrib2)
  have t: "take_bit 44 ppn = ppn" using assms(1) by (simp add: take_bit_nat_eq_self_iff)
  have wt: "take_bit 44 ?w = ?w" by (simp add: take_bit_of_nat t)
  have "drop_bit 12 (push_bit 2 (push_bit 10 ?w)) = ?w" by (rule drop_push_12 [OF wt])
  then have "PPN (PTE_ADDR (pte_create ppn perm)) = unat ?w" by (simp add: PPN_def a)
  also have "\<dots> = ppn" using assms(1) by (simp add: unsigned_of_nat take_bit_nat_eq_self_iff)
  finally show "PPN (PTE_ADDR (pte_create ppn perm)) = ppn" .
  have "bit (pte_create ppn perm) 0" by (simp add: pte_create_def PTE_V_def bit_simps)
  then have "bit (pte_create ppn perm AND PTE_V) 0" by (simp add: PTE_V_def bit_simps)
  then show "valid_pte (pte_create ppn perm)" unfolding valid_pte_def by (metis bit_0_eq bot_apply bot_bool_def)
  then show "pte_create ppn perm \<noteq> 0" by (auto simp: valid_pte_def)
qed

lemma page_ppn: "p + nbase < npage \<Longrightarrow> p + nbase < 2 ^ 44"
  by (simp add: npage_def PHYSICAL_MEMORY_END_def PGSIZE_def KERNTOP_def KERNBASE_def)

section \<open>The pool\<close>

lemma upd_ref:
  "property (pages (upd_page p (\<lambda>x. x\<lparr>ref := r\<rparr>) s) x) = property (pages s x)"
  "PageProperty (pages (upd_page p (\<lambda>x. x\<lparr>ref := r\<rparr>) s) x) = PageProperty (pages s x)"
  "PageReserved (pages (upd_page p (\<lambda>x. x\<lparr>ref := r\<rparr>) s) x) = PageReserved (pages s x)"
  by (auto simp: upd_page_def PageProperty_def PageReserved_def)

lemma free_set_ref [simp]: "free_set (upd_page p (\<lambda>x. x\<lparr>ref := r\<rparr>) s) = free_set s"
  unfolding free_set_def block_def upd_ref by (rule refl)

lemma pmm_inv_ref [simp]: "pmm_inv s \<Longrightarrow> pmm_inv (upd_page p (\<lambda>x. x\<lparr>ref := r\<rparr>) s)"
proof -
  assume "pmm_inv s"
  then obtain xs where xs: "pmm_ok xs s" by (auto simp: pmm_inv_def)
  have "separated (pages (upd_page p (\<lambda>x. x\<lparr>ref := r\<rparr>) s)) xs"
    by (rule separated_cong [of _ _ "pages s"]) (use xs in \<open>auto simp: pmm_ok_def upd_ref\<close>)
  then have "pmm_ok xs (upd_page p (\<lambda>x. x\<lparr>ref := r\<rparr>) s)"
    using xs unfolding pmm_ok_def upd_ref by (simp add: upd_page_def)
  then show ?thesis by (auto simp: pmm_inv_def)
qed

lemma alloc_page_ok:
  assumes "pmm_inv (pool s)" "alloc_pages 1 s = Some (r, s')"
  shows "pmm_inv (pool s') \<and> s' = s\<lparr>pool := pool s'\<rparr>
     \<and> (case r of None \<Rightarrow> s' = s \<and> free_set (pool s) = {} | Some p \<Rightarrow> p \<in> free_set (pool s) \<and> free_set (pool s') = free_set (pool s) - {p})"
proof -
  obtain pl where a: "default_alloc_pages 1 (pool s) = Some (r, pl)" "s' = s\<lparr>pool := pl\<rparr>"
    using assms(2) by (auto simp: alloc_pages_def bind_eq_Some_conv Let_def split: if_splits)
  obtain r' pl' where sp: "default_alloc_pages 1 (pool s) = Some (r', pl')" "pmm_inv pl'"
    "case r' of None \<Rightarrow> pl' = pool s \<and> (\<forall>p. \<not> {p ..< p + 1} \<subseteq> free_set (pool s))
       | Some p \<Rightarrow> {p ..< p + 1} \<subseteq> free_set (pool s) \<and> free_set pl' = free_set (pool s) - {p ..< p + 1}"
    using default_alloc_spec [OF assms(1), of 1] by (auto split: option.splits)
  have "r' = r" "pl' = pl" using a(1) sp(1) by simp_all
  then show ?thesis using a(2) sp(2,3) by (auto split: option.splits)
qed


section \<open>The tree of tables\<close>

text \<open>
  The tables below a directory, for the slots \<open>L\<close> of the directory: a node of level one per slot, a
  node of level zero per slot of that.  \<open>tframe\<close> is the frame of a node.
\<close>

datatype tnode = Root | Dir nat | Leaf nat nat

definition tbl :: "phys \<Rightarrow> nat \<times> nat \<Rightarrow> nat option" where
  "tbl s a = (if valid_pte (pte_get s a) then Some (PPN (PTE_ADDR (pte_get s a))) else None)"

fun tframe :: "phys \<Rightarrow> nat \<Rightarrow> nat set \<Rightarrow> tnode \<Rightarrow> nat option" where
  "tframe s pd L Root = Some pd"
| "tframe s pd L (Dir i) = (if i \<in> L then tbl s (pd, i) else None)"
| "tframe s pd L (Leaf i j) = (if i \<in> L \<and> j < 512 then (case tbl s (pd, i) of None \<Rightarrow> None | Some d \<Rightarrow> tbl s (d, j)) else None)"

definition pt_ok :: "phys \<Rightarrow> nat \<Rightarrow> nat set \<Rightarrow> bool" where
  "pt_ok s pd L \<longleftrightarrow> pmm_inv (pool s) \<and> L \<subseteq> {..< 512} \<and> (\<forall>p \<in> free_set (pool s). p + nbase < npage)
     \<and> (\<forall>x y f. tframe s pd L x = Some f \<longrightarrow> tframe s pd L y = Some f \<longrightarrow> x = y)
     \<and> (\<forall>x f. tframe s pd L x = Some f \<longrightarrow> nbase \<le> f \<and> f < npage \<and> f - nbase \<notin> free_set (pool s))"

text \<open>The entry that translates an address, 0 when there is no table for it.\<close>

definition xlate :: "phys \<Rightarrow> nat \<Rightarrow> nat set \<Rightarrow> nat \<Rightarrow> 64 word" where
  "xlate s pd L la = (case tframe s pd L (Leaf (PDX1 la) (PDX0 la)) of None \<Rightarrow> 0 | Some t \<Rightarrow> pte_get s (t, PTX la))"

lemma idx_less [simp]: "PDX1 la < 512" "PDX0 la < 512" "PTX la < 512"
  by (simp_all add: PDX1_def PDX0_def PTX_def)

lemma pt_okD:
  assumes "pt_ok s pd L"
  shows "tframe s pd L x = Some f \<Longrightarrow> tframe s pd L y = Some f \<Longrightarrow> x = y"
    "tframe s pd L x = Some f \<Longrightarrow> nbase \<le> f \<and> f < npage \<and> f - nbase \<notin> free_set (pool s)"
    "i \<in> L \<Longrightarrow> i < 512" "pmm_inv (pool s)" "p \<in> free_set (pool s) \<Longrightarrow> p + nbase < npage"
  using assms by (auto simp: pt_ok_def)

text \<open>Writing an entry of a leaf leaves the tree alone.\<close>

lemma leaf_set:
  assumes ok: "pt_ok s pd L" and t: "tframe s pd L (Leaf i j) = Some t" and k: "k < 512"
  shows "tframe (pte_set (t, k) e s) pd L = tframe s pd L" "pt_ok (pte_set (t, k) e s) pd L"
    "PDX1 la \<in> L \<Longrightarrow> xlate (pte_set (t, k) e s) pd L la = (if PDX1 la = i \<and> PDX0 la = j \<and> PTX la = k then e else xlate s pd L la)"
proof -
  note uniq = pt_okD(1) [OF ok]
  have r: "t \<noteq> pd" using uniq [OF t, of Root] by auto
  have d: "t \<noteq> d" if "i' \<in> L" "tbl s (pd, i') = Some d" for i' d
    using uniq [OF t, of "Dir i'"] that by auto
  have tb: "tbl (pte_set (t, k) e s) (f, n) = tbl s (f, n)" if "f \<noteq> t" "n < 512" for f n
    using that k by (simp add: tbl_def pte_get_set)
  show tf: "tframe (pte_set (t, k) e s) pd L = tframe s pd L"
  proof
    fix x show "tframe (pte_set (t, k) e s) pd L x = tframe s pd L x"
      using r d [THEN not_sym] tb pt_okD(3) [OF ok] by (cases x) (auto split: option.split)
  qed
  then show "pt_ok (pte_set (t, k) e s) pd L" using ok by (simp add: pt_ok_def)
  show "xlate (pte_set (t, k) e s) pd L la = (if PDX1 la = i \<and> PDX0 la = j \<and> PTX la = k then e else xlate s pd L la)" if "PDX1 la \<in> L"
  proof (cases "tframe s pd L (Leaf (PDX1 la) (PDX0 la))")
    case None
    then show ?thesis using t unfolding xlate_def tf by auto
  next
    case (Some u)
    have "u = t \<longleftrightarrow> PDX1 la = i \<and> PDX0 la = j" using uniq [OF t, of "Leaf (PDX1 la) (PDX0 la)"] Some t by auto
    then show ?thesis using Some k unfolding xlate_def tf by (cases "u = t") (auto simp: pte_get_set)
  qed
qed

text \<open>Hanging a fresh zeroed frame \<open>g\<close> under slot \<open>k\<close> of the node \<open>x\<close>.\<close>

definition slot_node :: "tnode \<Rightarrow> nat \<Rightarrow> tnode" where
  "slot_node x k = (case x of Root \<Rightarrow> Dir k | Dir i \<Rightarrow> Leaf i k | Leaf i j \<Rightarrow> Root)"

lemma hang_table:
  assumes ok: "pt_ok s pd L" and x: "tframe s pd L x = Some f" "x = Root \<and> k \<in> L \<or> (\<exists>i. x = Dir i)" "k < 512"
    and none: "tframe s pd L (slot_node x k) = None"
    and g: "p \<in> free_set (pool s)" and pl: "pmm_inv pl" "free_set pl = free_set (pool s) - {p}"
    and u: "u = pte_set (f, k) (pte_create (p + nbase) (PTE_U OR PTE_V)) (s\<lparr>pool := pl, frame := (frame s)(p + nbase := (\<lambda>_. 0))\<rparr>)"
  shows "pt_ok u pd L" "tframe u pd L = (tframe s pd L)(slot_node x k := Some (p + nbase))"
    "PDX1 la \<in> L \<Longrightarrow> xlate u pd L la = xlate s pd L la" "tbl u (f, k) = Some (p + nbase)"
proof -
  let ?g = "p + nbase"
  have gn: "?g < npage" by (rule pt_okD(5) [OF ok g])
  have nt: "tframe s pd L y \<noteq> Some ?g" for y using pt_okD(2) [OF ok, of y ?g] g by auto
  have fg: "f \<noteq> ?g" using nt [of x] x(1) by auto
  have p2: "(PTE_U OR PTE_V) AND NOT 0x3FF = (0 :: 64 word)" by (simp add: PTE_U_def PTE_V_def)
  note pc = pte_fields [OF page_ppn [OF gn] p2]
  let ?s = "s\<lparr>pool := pl, frame := (frame s)(?g := (\<lambda>_. 0))\<rparr>"
  have gs: "pte_get ?s (h, n) = (if h = ?g then 0 else pte_get s (h, n))" for h n
    by (simp add: pte_get_def rd_zero)
  have gu: "pte_get u (h, n) = (if h = f \<and> n = k then pte_create ?g (PTE_U OR PTE_V) else if h = ?g then 0 else pte_get s (h, n))"
    if "n < 512" for h n
    using that x(3) unfolding u pte_get_set [OF x(3) that] gs by auto
  have v0: "\<not> valid_pte 0" by (simp add: valid_pte_def)
  have tu: "tbl u (h, n) = (if h = f \<and> n = k then Some ?g else if h = ?g then None else tbl s (h, n))" if "n < 512" for h n
    using that pc(1,2) v0 fg by (simp add: tbl_def gu)
  show "tbl u (f, k) = Some ?g" using tu [OF x(3)] by simp
  have gpd: "pd \<noteq> ?g" using nt [of Root] by simp
  have gd: "tbl s (pd, i) \<noteq> Some ?g" if "i \<in> L" for i using nt [of "Dir i"] that by simp
  have dpd: "tbl s (pd, i) \<noteq> Some pd" if "i \<in> L" for i using pt_okD(1) [OF ok, of "Dir i" pd Root] that by auto
  have L: "i < 512" if "i \<in> L" for i using pt_okD(3) [OF ok] that by simp
  show tf: "tframe u pd L = (tframe s pd L)(slot_node x k := Some ?g)"
  proof
    fix y
    show "tframe u pd L y = ((tframe s pd L)(slot_node x k := Some ?g)) y"
    proof (cases "x = Root")
      case True
      then have fx: "f = pd" "k \<in> L" "tbl s (pd, k) = None" using x none by (auto simp: slot_node_def)
      show ?thesis
      proof (cases y)
        case (Leaf i j)
        then show ?thesis using True fx tu L gpd gd [of i] dpd [of i] by (auto simp: slot_node_def split: option.split)
      qed (use True fx tu L gpd in \<open>auto simp: slot_node_def\<close>)
    next
      case False
      then obtain i where xi: "x = Dir i" using x(2) by auto
      then have iL: "i \<in> L" "tbl s (pd, i) = Some f" "tbl s (f, k) = None" using x(1,3) none by (auto simp: slot_node_def split: if_splits)
      have fpd: "f \<noteq> pd" using pt_okD(1) [OF ok, of x f Root] x(1) xi by auto
      have only: "i' = i" if "i' \<in> L" "tbl s (pd, i') = Some f" for i'
        using pt_okD(1) [OF ok, of "Dir i'" f "Dir i"] that iL by simp
      show ?thesis
      proof (cases y)
        case (Leaf i' j)
        show ?thesis
        proof (cases "i' \<in> L \<and> j < 512")
          case True
          then have e: "tbl u (pd, i') = tbl s (pd, i')" using tu L fpd gpd by auto
          show ?thesis
          proof (cases "tbl s (pd, i')")
            case None
            then show ?thesis using e True Leaf xi iL by (auto simp: slot_node_def)
          next
            case (Some d)
            have "d \<noteq> ?g" using gd [of i'] Some True by auto
            then have "tbl u (d, j) = (if d = f \<and> j = k then Some ?g else tbl s (d, j))" using tu [of j d] True by simp
            moreover have "d = f \<longleftrightarrow> i' = i" using only [of i'] iL Some True by auto
            ultimately show ?thesis using e Some True Leaf xi by (auto simp: slot_node_def)
          qed
        qed (use Leaf xi iL x(3) in \<open>auto simp: slot_node_def\<close>)
      qed (use xi tu L fpd gpd in \<open>auto simp: slot_node_def\<close>)
    qed
  qed
  have pu: "pool u = pl" by (simp add: u)
  show "pt_ok u pd L"
    unfolding pt_ok_def tf pu
    using pt_okD [OF ok] pl nt gn by (auto simp: fun_upd_apply split: if_splits)
  show "xlate u pd L la = xlate s pd L la" if la: "PDX1 la \<in> L"
  proof (cases "Leaf (PDX1 la) (PDX0 la) = slot_node x k")
    case True
    then have "xlate u pd L la = pte_get u (?g, PTX la)" "xlate s pd L la = 0" using none by (auto simp: xlate_def tf)
    then show ?thesis using gu [of "PTX la" ?g] fg by simp
  next
    case False
    have ne: "h \<noteq> f \<and> h \<noteq> ?g" if "tframe s pd L (Leaf (PDX1 la) (PDX0 la)) = Some h" for h
      using pt_okD(1) [OF ok that, of x] x nt [of "Leaf (PDX1 la) (PDX0 la)"] that by auto
    show ?thesis using False ne gu by (auto simp: xlate_def tf split: option.split)
  qed
qed


section \<open>Walking with creation\<close>

text \<open>What making tables may change: the pool and the frames of the new tables, no translation.\<close>

definition grown :: "nat \<Rightarrow> nat set \<Rightarrow> nat \<Rightarrow> phys \<Rightarrow> phys \<Rightarrow> bool" where
  "grown pd L n s s' \<longleftrightarrow> pt_ok s' pd L \<and> s' = s\<lparr>pool := pool s', frame := frame s'\<rparr>
     \<and> (\<forall>la. PDX1 la \<in> L \<longrightarrow> xlate s' pd L la = xlate s pd L la)
     \<and> (\<forall>x f. tframe s pd L x = Some f \<longrightarrow> tframe s' pd L x = Some f)
     \<and> (\<forall>x f. tframe s' pd L x = Some f \<longrightarrow> tframe s pd L x = Some f \<or> (f - nbase \<in> free_set (pool s) \<and> nbase \<le> f))
     \<and> free_set (pool s') \<subseteq> free_set (pool s) \<and> nr_free (pool s) \<le> nr_free (pool s') + n
     \<and> (\<forall>f. (\<forall>x. tframe s' pd L x \<noteq> Some f) \<longrightarrow> frame s' f = frame s f)"

lemma grown_refl: "pt_ok s pd L \<Longrightarrow> grown pd L 0 s s"
  by (simp add: grown_def)

lemma grown_trans: "grown pd L n s t \<Longrightarrow> grown pd L m t u \<Longrightarrow> grown pd L (n + m) s u"
proof -
  assume g: "grown pd L n s t" "grown pd L m t u"
  have fr: "frame u f = frame s f" if "\<forall>x. tframe u pd L x \<noteq> Some f" for f
  proof -
    have "\<forall>x. tframe t pd L x \<noteq> Some f" using g(2) that unfolding grown_def by metis
    then show ?thesis using g that unfolding grown_def by metis
  qed
  have e: "u = s\<lparr>pool := pool u, frame := frame u\<rparr>"
  proof -
    obtain a b where "t = s\<lparr>pool := a, frame := b\<rparr>" using g(1) unfolding grown_def by blast
    moreover obtain c d where "u = t\<lparr>pool := c, frame := d\<rparr>" using g(2) unfolding grown_def by blast
    ultimately show ?thesis by simp
  qed
  have "free_set (pool u) \<subseteq> free_set (pool s)" "nr_free (pool s) \<le> nr_free (pool u) + (n + m)" "pt_ok u pd L"
    using g unfolding grown_def by auto
  moreover have "xlate u pd L la = xlate s pd L la" if "PDX1 la \<in> L" for la using g that unfolding grown_def by simp
  moreover have "tframe u pd L x = Some f" if "tframe s pd L x = Some f" for x f using g that unfolding grown_def by simp
  moreover have "tframe s pd L x = Some f \<or> (f - nbase \<in> free_set (pool s) \<and> nbase \<le> f)" if "tframe u pd L x = Some f" for x f
    using g that unfolding grown_def by (meson subsetD)
  ultimately show "grown pd L (n + m) s u" unfolding grown_def using e fr by blast
qed

lemma grown_le: "grown pd L n s t \<Longrightarrow> n \<le> m \<Longrightarrow> grown pd L m s t"
  by (auto simp: grown_def)

lemma alloc_page_some:
  assumes "pmm_inv (pool s)" "1 \<le> nr_free (pool s)"
  obtains p pl where "alloc_pages 1 s = Some (Some p, s\<lparr>pool := pl\<rparr>)" "pmm_inv pl" "p \<in> free_set (pool s)"
    "free_set pl = free_set (pool s) - {p}" "nr_free pl = nr_free (pool s) - 1"
proof -
  have "card (free_set (pool s)) = nr_free (pool s)" using assms(1) pmm_ok_card by (auto simp: pmm_inv_def)
  then obtain q where q: "q \<in> free_set (pool s)" using assms(2) by (cases "free_set (pool s) = {}") auto
  obtain r pl where sp: "default_alloc_pages 1 (pool s) = Some (r, pl)" "pmm_inv pl"
    "case r of None \<Rightarrow> pl = pool s \<and> (\<forall>p. \<not> {p ..< p + 1} \<subseteq> free_set (pool s))
       | Some p \<Rightarrow> {p ..< p + 1} \<subseteq> free_set (pool s) \<and> free_set pl = free_set (pool s) - {p ..< p + 1} \<and> nr_free pl = nr_free (pool s) - 1"
    using default_alloc_spec [OF assms(1), of 1] by (auto split: option.splits)
  obtain p where p: "r = Some p"
    using sp(3) q by (cases r) auto
  show thesis by (rule that [of p pl]) (use sp p in \<open>simp_all add: alloc_pages_def\<close>)
qed

lemma tbl_KADDR:
  assumes "pt_ok s pd L" "tframe s pd L y = Some t"
  shows "KADDR t = Some t"
  using pt_okD(2) [OF assms] by (simp add: KADDR_def kassert_def)

lemma get_table_there:
  assumes "pt_ok s pd L" "tframe s pd L y = Some t" "tbl s a = Some t"
  shows "get_table s a create = Some (Some t, s)"
  using assms tbl_KADDR [OF assms(1,2)] by (auto simp: get_table_def tbl_def split: if_splits)

lemma get_table_create:
  assumes ok: "pt_ok s pd L" and x: "tframe s pd L x = Some f" "x = Root \<and> k \<in> L \<or> (\<exists>i. x = Dir i)" "k < 512"
    and n: "1 \<le> nr_free (pool s)" and st: "tframe s pd L (slot_node x k) = tbl s (f, k)"
  shows "\<exists>t s'. get_table s (f, k) True = Some (Some t, s') \<and> grown pd L 1 s s' \<and> tframe s' pd L (slot_node x k) = Some t
     \<and> tbl s' (f, k) = Some t"
proof (cases "tbl s (f, k)")
  case (Some t)
  then show ?thesis using get_table_there [OF ok _ Some] st grown_le [OF grown_refl [OF ok]] by auto
next
  case None
  then have nv: "\<not> valid_pte (pte_get s (f, k))" by (simp add: tbl_def split: if_splits)
  have ni: "tframe s pd L (slot_node x k) = None" using st None by simp
  obtain p pl where a: "alloc_pages 1 s = Some (Some p, s\<lparr>pool := pl\<rparr>)" "pmm_inv pl" "p \<in> free_set (pool s)"
    "free_set pl = free_set (pool s) - {p}" "nr_free pl = nr_free (pool s) - 1"
    using alloc_page_some [OF pt_okD(4) [OF ok] n] by blast
  have gn: "p + nbase < npage" by (rule pt_okD(5) [OF ok a(3)])
  define pl' where "pl' = upd_page p (\<lambda>x. x\<lparr>ref := 1\<rparr>) pl"
  define u where "u = pte_set (f, k) (pte_create (p + nbase) (PTE_U OR PTE_V)) (s\<lparr>pool := pl', frame := (frame s)(p + nbase := (\<lambda>_. 0))\<rparr>)"
  have pl': "pmm_inv pl'" "free_set pl' = free_set (pool s) - {p}" "nr_free pl' = nr_free (pool s) - 1"
    unfolding pl'_def using a(2,4,5) by simp_all
  note h = hang_table [OF ok x ni a(3) pl'(1,2) u_def]
  have K: "KADDR (p + nbase) = Some (p + nbase)" using gn by (simp add: KADDR_def kassert_def)
  have pu: "PPN (PTE_ADDR (pte_get u (f, k))) = p + nbase" using h(4) by (simp add: tbl_def split: if_splits)
  have "get_table s (f, k) True = Some (Some (p + nbase), u)"
    using nv a(1) K pu by (simp add: get_table_def set_page_ref_def page2ppn_def u_def pl'_def [symmetric])
  moreover have "grown pd L 1 s u"
    unfolding grown_def
  proof (intro conjI allI impI)
    show "u = s\<lparr>pool := pool u, frame := frame u\<rparr>" by (simp add: u_def pte_set_def)
    show "free_set (pool u) \<subseteq> free_set (pool s)" "nr_free (pool s) \<le> nr_free (pool u) + 1"
      using pl' n by (auto simp: u_def)
    fix g assume g: "\<forall>y. tframe u pd L y \<noteq> Some g"
    have "tframe u pd L (slot_node x k) = Some (p + nbase)" "tframe u pd L x = Some f"
      unfolding h(2) using x(1) ni by auto
    then have "g \<noteq> p + nbase" "g \<noteq> f" using g by blast+
    then show "frame u g = frame s g" by (simp add: u_def)
  next
    fix y g assume "tframe s pd L y = Some g"
    then show "tframe u pd L y = Some g" unfolding h(2) using ni by auto
  next
    fix y g assume "tframe u pd L y = Some g"
    then show "tframe s pd L y = Some g \<or> (g - nbase \<in> free_set (pool s) \<and> nbase \<le> g)"
      unfolding h(2) using a(3) by (auto split: if_splits)
  qed (use h in auto)
  ultimately show ?thesis using h(2,4) by auto
qed

lemma get_pte_create:
  assumes ok: "pt_ok s pd L" and la: "PDX1 la \<in> L" and n: "2 \<le> nr_free (pool s)"
  shows "\<exists>t s'. get_pte s pd la True = Some (Some (t, PTX la), s') \<and> grown pd L 2 s s'
     \<and> tframe s' pd L (Leaf (PDX1 la) (PDX0 la)) = Some t"
proof -
  obtain d s1 where d: "get_table s (pd, PDX1 la) True = Some (Some d, s1)" "grown pd L 1 s s1"
    "tframe s1 pd L (Dir (PDX1 la)) = Some d"
    using get_table_create [OF ok, of Root pd "PDX1 la"] la n by (auto simp: slot_node_def)
  have ok1: "pt_ok s1 pd L" and n1: "1 \<le> nr_free (pool s1)" using d(2) n by (auto simp: grown_def)
  obtain t s2 where t: "get_table s1 (d, PDX0 la) True = Some (Some t, s2)" "grown pd L 1 s1 s2"
    "tframe s2 pd L (Leaf (PDX1 la) (PDX0 la)) = Some t"
    using get_table_create [OF ok1 d(3), of "PDX0 la"] d(3) n1 by (auto simp: slot_node_def split: if_splits)
  show ?thesis using d(1) t grown_trans [OF d(2) t(2)] by (auto simp: get_pte_def numeral_2_eq_2)
qed

lemma get_pte_there:
  assumes "pt_ok s pd L" "tframe s pd L (Leaf (PDX1 la) (PDX0 la)) = Some t"
  shows "get_pte s pd la create = Some (Some (t, PTX la), s)"
proof -
  obtain d where d: "PDX1 la \<in> L" "tbl s (pd, PDX1 la) = Some d" "tbl s (d, PDX0 la) = Some t"
    using assms(2) by (auto split: if_splits option.splits)
  have "get_table s (pd, PDX1 la) create = Some (Some d, s)"
    using get_table_there [OF assms(1) _ d(2), of "Dir (PDX1 la)"] d by simp
  then show ?thesis using get_table_there [OF assms d(3)] by (simp add: get_pte_def)
qed


lemma get_table_none:
  "tbl s a = None \<Longrightarrow> get_table s a False = Some (None, s)"
  by (auto simp: get_table_def tbl_def split: if_splits)

lemma get_page_xlate:
  assumes "pt_ok s pd L" "PDX1 la \<in> L"
  shows "map_option fst (get_page s pd la)
    = (if valid_pte (xlate s pd L la) then map_option Some (pte2page (xlate s pd L la)) else Some None)"
proof (cases "tframe s pd L (Leaf (PDX1 la) (PDX0 la))")
  case (Some t)
  show ?thesis using get_pte_there [OF assms(1) Some, of False] Some
    by (cases "pte2page (pte_get s (t, PTX la))") (auto simp: get_page_def xlate_def split: if_splits)
next
  case None
  have "get_pte s pd la False = Some (None, s)"
  proof (cases "tbl s (pd, PDX1 la)")
    case (Some d)
    then show ?thesis using get_table_there [OF assms(1) _ Some, of "Dir (PDX1 la)"] assms(2) None
        get_table_none [of s "(d, PDX0 la)"] by (simp add: get_pte_def)
  qed (simp add: get_pte_def get_table_none)
  moreover have "\<not> valid_pte 0" by (simp add: valid_pte_def)
  ultimately show ?thesis using None by (simp add: get_page_def xlate_def)
qed

declare tframe.simps [simp del]

section \<open>Mapping one page\<close>

definition same_page :: "nat \<Rightarrow> nat \<Rightarrow> bool" where
  "same_page a b \<longleftrightarrow> PDX1 a = PDX1 b \<and> PDX0 a = PDX0 b \<and> PTX a = PTX b"

text \<open>The effect of mapping page \<open>p\<close> at \<open>la\<close>, with at most \<open>n\<close> pages spent on tables.\<close>

definition mapped :: "nat \<Rightarrow> nat set \<Rightarrow> nat \<Rightarrow> nat \<Rightarrow> nat \<Rightarrow> 64 word \<Rightarrow> phys \<Rightarrow> phys \<Rightarrow> bool" where
  "mapped pd L n la p perm s s' \<longleftrightarrow> pt_ok s' pd L \<and> s' = s\<lparr>pool := pool s', frame := frame s'\<rparr>
     \<and> (\<forall>lb. PDX1 lb \<in> L \<longrightarrow> xlate s' pd L lb = (if same_page lb la then pte_create (page2ppn p) (PTE_V OR perm) else xlate s pd L lb))
     \<and> free_set (pool s') \<subseteq> free_set (pool s) \<and> nr_free (pool s) \<le> nr_free (pool s') + n
     \<and> (\<forall>x f. tframe s' pd L x = Some f \<longrightarrow> tframe s pd L x = Some f \<or> (f - nbase \<in> free_set (pool s) \<and> nbase \<le> f))
     \<and> (\<forall>f. (\<forall>x. tframe s' pd L x \<noteq> Some f) \<longrightarrow> frame s' f = frame s f)"

lemma pte_get_pool [simp]: "pte_get (s\<lparr>pool := pl\<rparr>) a = pte_get s a"
  by (simp add: pte_get_def)

lemma tbl_pool [simp]: "tbl (s\<lparr>pool := pl\<rparr>) a = tbl s a"
  by (simp add: tbl_def)

lemma tframe_pool [simp]: "tframe (s\<lparr>pool := pl\<rparr>) pd L x = tframe s pd L x"
  by (cases x) (simp_all add: tframe.simps split: option.split)

lemma xlate_pool [simp]: "xlate (s\<lparr>pool := pl\<rparr>) pd L la = xlate s pd L la"
  by (simp only: xlate_def tframe_pool pte_get_pool)

lemma pt_ok_pool:
  assumes "pt_ok s pd L" "pmm_inv pl" "free_set pl \<subseteq> free_set (pool s)"
  shows "pt_ok (s\<lparr>pool := pl\<rparr>) pd L"
  using assms unfolding pt_ok_def tframe_pool by (simp, blast)

lemma insert_step:
  assumes g: "get_pte s pd la True = Some (Some (t, PTX la), s1)" "grown pd L n s s1"
      "tframe s1 pd L (Leaf (PDX1 la) (PDX0 la)) = Some t"
    and la: "PDX1 la \<in> L" and empty: "\<not> valid_pte (xlate s pd L la)"
  shows "\<exists>s'. page_insert pd p la perm s = Some (Inr (), s') \<and> mapped pd L n la p perm s s'"
proof -
  let ?s = "page_ref_inc p s1"
  let ?e = "pte_create (page2ppn p) (PTE_V OR perm)"
  let ?u = "pte_set (t, PTX la) ?e ?s"
  have ok1: "pt_ok s1 pd L" using g(2) by (simp add: grown_def)
  have s: "?s = s1\<lparr>pool := upd_page p (\<lambda>x. x\<lparr>ref := page_ref s1 p + 1\<rparr>) (pool s1)\<rparr>"
    by (simp add: page_ref_inc_def set_page_ref_def)
  have oks: "pt_ok ?s pd L" unfolding s
    by (rule pt_ok_pool [OF ok1]) (use pt_okD(4) [OF ok1] in simp_all)
  have tfs: "tframe ?s pd L = tframe s1 pd L" unfolding s by (rule ext) simp
  have es: "xlate ?s pd L lb = xlate s1 pd L lb" for lb unfolding s by simp
  have ge: "pte_get ?s (t, PTX la) = xlate s pd L la"
  proof -
    have "xlate ?s pd L la = xlate s pd L la" using g(2) la es [of la] by (simp add: grown_def)
    moreover have "xlate ?s pd L la = pte_get ?s (t, PTX la)" unfolding xlate_def tfs g(3) by simp
    ultimately show ?thesis by simp
  qed
  have g3: "tframe ?s pd L (Leaf (PDX1 la) (PDX0 la)) = Some t" by (simp only: tfs g(3))
  note ls = leaf_set [OF oks g3 idx_less(3) [of la], where e = ?e, unfolded tfs]
  have "page_insert pd p la perm s = Some (Inr (), ?u)"
    using g(1) ge empty by (simp add: page_insert_def)
  moreover have "mapped pd L n la p perm s ?u"
    unfolding mapped_def
  proof (intro conjI allI impI)
    show "pt_ok ?u pd L" by (rule ls(2))
    obtain a b where "s1 = s\<lparr>pool := a, frame := b\<rparr>" using g(2) unfolding grown_def by blast
    then show "?u = s\<lparr>pool := pool ?u, frame := frame ?u\<rparr>" by (simp add: page_ref_inc_def set_page_ref_def pte_set_def)
    show "free_set (pool ?u) \<subseteq> free_set (pool s)" "nr_free (pool s) \<le> nr_free (pool ?u) + n"
      using g(2) by (simp_all add: grown_def s upd_page_def [of p _ "pool s1", THEN arg_cong, of nr_free])
    fix lb assume "PDX1 lb \<in> L"
    then show "xlate ?u pd L lb = (if same_page lb la then ?e else xlate s pd L lb)"
      using ls(3) [of lb] g(2) es [of lb] by (simp add: grown_def same_page_def)
  next
    fix x f assume "tframe ?u pd L x = Some f"
    then show "tframe s pd L x = Some f \<or> (f - nbase \<in> free_set (pool s) \<and> nbase \<le> f)"
      using g(2) unfolding ls(1) grown_def by blast
  next
    fix f assume f: "\<forall>x. tframe ?u pd L x \<noteq> Some f"
    then have "f \<noteq> t" using g(3) unfolding ls(1) by auto
    then show "frame ?u f = frame s f" using f g(2) unfolding ls(1) grown_def by (simp add: s)
  qed
  ultimately show ?thesis by blast
qed

text \<open>\<open>pgdir_alloc_page\<close> at an empty place, where the tables may or may not be there yet.\<close>

lemma alloc_map_step:
  assumes ok: "pt_ok s pd L" and la: "PDX1 la \<in> L" and empty: "\<not> valid_pte (xlate s pd L la)"
    and n: "k + 1 \<le> nr_free (pool s)" and k: "k = 2 \<or> tframe s pd L (Leaf (PDX1 la) (PDX0 la)) \<noteq> None \<and> k = 0"
  shows "\<exists>p s'. pgdir_alloc_page pd la perm s = Some (Some p, s') \<and> mapped pd L (k + 1) la p perm s s'
    \<and> p \<in> free_set (pool s) \<and> p \<notin> free_set (pool s') \<and> frame s' (p + nbase) = frame s (p + nbase)"
proof -
  have n1: "1 \<le> nr_free (pool s)" using n by simp
  obtain p pl where a: "alloc_pages 1 s = Some (Some p, s\<lparr>pool := pl\<rparr>)" "pmm_inv pl" "p \<in> free_set (pool s)"
    "free_set pl = free_set (pool s) - {p}" "nr_free pl = nr_free (pool s) - 1"
    by (rule alloc_page_some [OF pt_okD(4) [OF ok] n1])
  let ?s = "s\<lparr>pool := pl\<rparr>"
  have oks: "pt_ok ?s pd L" by (rule pt_ok_pool [OF ok a(2)]) (use a(4) in simp)
  obtain t s1 where g: "get_pte ?s pd la True = Some (Some (t, PTX la), s1)" "grown pd L k ?s s1"
    "tframe s1 pd L (Leaf (PDX1 la) (PDX0 la)) = Some t"
  proof (cases "k = 2")
    case True
    then have "2 \<le> nr_free (pool ?s)" using n a(5) by simp
    from get_pte_create [OF oks la this] show ?thesis using that True by (elim exE conjE) simp
  next
    case False
    then obtain t where t: "tframe ?s pd L (Leaf (PDX1 la) (PDX0 la)) = Some t" "k = 0"
      using k by auto
    show ?thesis by (rule that [OF get_pte_there [OF oks t(1)] _ t(1)]) (simp add: t(2) grown_refl [OF oks])
  qed
  obtain s' where s': "page_insert pd p la perm ?s = Some (Inr (), s')" "mapped pd L k la p perm ?s s'"
    using insert_step [OF g la, of p perm] empty by auto
  have pn: "p \<notin> free_set (pool s')" using s'(2) a(4) by (auto simp: mapped_def)
  have m: "tframe s' pd L x = Some f \<Longrightarrow> tframe s pd L x = Some f \<or> f - nbase \<in> free_set pl \<and> nbase \<le> f" for x f
    using s'(2) by (simp add: mapped_def)
  have "tframe s' pd L x \<noteq> Some (p + nbase)" for x
    using m [of x "p + nbase"] a(3,4) pt_okD(2) [OF ok, of x "p + nbase"] by auto
  then have fr: "frame s' (p + nbase) = frame s (p + nbase)" using s'(2) unfolding mapped_def by simp
  have "mapped pd L (k + 1) la p perm s s'"
    using s'(2) a(4,5) n1 unfolding mapped_def
    apply (elim conjE)
    apply (intro conjI)
          apply assumption
         apply (metis phys.update_convs(1) phys.surjective)
    by auto
  then show ?thesis using a(1,3) s'(1) pn fr by (auto simp: pgdir_alloc_page_def)
qed

end
