(* ===== verification/Vmm.thy ===== *)
theory Vmm
  imports Page_Table
begin

text \<open>
  Virtual memory areas and address spaces: \<open>kern/mm/vmm.c\<close>, with swapping in from
  \<open>kern/mm/swap.c\<close>, \<open>swap_fifo.c\<close> and \<open>kern/fs/swap/swapfs.c\<close>.  A \<open>vma_struct\<close> does not change once
  it is made, so the list of an address space and its cache hold the structures themselves.
  \<open>kmalloc\<close>'s outcomes are arguments.  User memory is what loads from it deliver.
\<close>

definition VM_READ :: "32 word" where "VM_READ = 0x00000001"
definition VM_WRITE :: "32 word" where "VM_WRITE = 0x00000002"
definition VM_EXEC :: "32 word" where "VM_EXEC = 0x00000004"
definition VM_STACK :: "32 word" where "VM_STACK = 0x00000008"

record vma_struct =
  vm_start :: nat
  vm_end :: nat
  vm_flags :: "32 word"

record mm_struct =
  mmap_list :: "vma_struct list"
  mmap_cache :: "vma_struct option"
  pgdir :: "nat option"
  map_count :: int
  sm_priv :: bool
  mm_count :: int

section \<open>Areas\<close>

text \<open>Each new address space empties the one list of swappable pages.\<close>

definition mm_create :: "bool \<Rightarrow> phys \<Rightarrow> mm_struct option \<times> phys" where
  "mm_create mem s =
     (if mem then
        (Some \<lparr>mmap_list = [], mmap_cache = None, pgdir = None, map_count = 0, sm_priv = swap_init_ok s, mm_count = 0\<rparr>,
         if swap_init_ok s then s\<lparr>pra_list := []\<rparr> else s)
      else (None, s))"

definition vma_create :: "bool \<Rightarrow> nat \<Rightarrow> nat \<Rightarrow> 32 word \<Rightarrow> vma_struct option" where
  "vma_create mem st en fl = (if mem then Some \<lparr>vm_start = st, vm_end = en, vm_flags = fl\<rparr> else None)"

definition holds :: "vma_struct \<Rightarrow> nat \<Rightarrow> bool" where
  "holds v addr \<longleftrightarrow> vm_start v \<le> addr \<and> addr < vm_end v"

definition find_vma :: "mm_struct \<Rightarrow> nat \<Rightarrow> vma_struct option \<times> mm_struct" where
  "find_vma mm addr =
     (let vma = (case mmap_cache mm of
          Some c \<Rightarrow> if holds c addr then Some c else List.find (\<lambda>v. holds v addr) (mmap_list mm)
        | None \<Rightarrow> List.find (\<lambda>v. holds v addr) (mmap_list mm))
      in (vma, case vma of None \<Rightarrow> mm | Some _ \<Rightarrow> mm\<lparr>mmap_cache := vma\<rparr>))"

definition check_vma_overlap :: "vma_struct \<Rightarrow> vma_struct \<Rightarrow> unit option" where
  "check_vma_overlap pr ne = do {
     kassert (vm_start pr < vm_end pr);
     kassert (vm_end pr \<le> vm_start ne);
     kassert (vm_start ne < vm_end ne)
   }"

definition insert_vma_struct :: "vma_struct \<Rightarrow> mm_struct \<Rightarrow> mm_struct option" where
  "insert_vma_struct vma mm = do {
     kassert (vm_start vma < vm_end vma);
     let before = takeWhile (\<lambda>v. vm_start v \<le> vm_start vma) (mmap_list mm);
     let after = dropWhile (\<lambda>v. vm_start v \<le> vm_start vma) (mmap_list mm);
     (if before \<noteq> [] then check_vma_overlap (last before) vma else Some ());
     (if after \<noteq> [] then check_vma_overlap vma (hd after) else Some ());
     Some (mm\<lparr>mmap_list := before @ vma # after, map_count := map_count mm + 1\<rparr>)
   }"

definition mm_destroy :: "mm_struct \<Rightarrow> unit option" where
  "mm_destroy mm = kassert (mm_count mm = 0)"

definition mm_map :: "bool \<Rightarrow> mm_struct \<Rightarrow> nat \<Rightarrow> nat \<Rightarrow> 32 word \<Rightarrow> ((errno + vma_struct) \<times> mm_struct) option" where
  "mm_map mem mm addr len vm_fl =
     (let st = ROUNDDOWN addr PGSIZE; en = ROUNDUP ((addr + len) mod 2 ^ 64) PGSIZE in
      if \<not> USER_ACCESS st en then Some (Inl E_INVAL, mm)
      else (case find_vma mm st of
        (vma, mm) \<Rightarrow>
          if (case vma of None \<Rightarrow> False | Some v \<Rightarrow> en > vm_start v) then Some (Inl E_INVAL, mm)
          else (case vma_create mem st en vm_fl of
             None \<Rightarrow> Some (Inl E_NO_MEM, mm)
           | Some v \<Rightarrow> do { mm \<leftarrow> insert_vma_struct v mm; Some (Inr v, mm) })))"

fun dup_vmas :: "(vma_struct \<Rightarrow> bool) \<Rightarrow> vma_struct list \<Rightarrow> nat \<Rightarrow> mm_struct \<Rightarrow> phys
    \<Rightarrow> ((errno + unit) \<times> mm_struct \<times> phys) option" where
  "dup_vmas mem [] frm to s = Some (Inr (), to, s)"
| "dup_vmas mem (v # vs) frm to s =
     (case vma_create (mem v) (vm_start v) (vm_end v) (vm_flags v) of
        None \<Rightarrow> Some (Inl E_NO_MEM, to, s)
      | Some nv \<Rightarrow> do {
          to \<leftarrow> insert_vma_struct nv to;
          pd \<leftarrow> pgdir to;
          (ret, s) \<leftarrow> copy_range pd frm (vm_start v) (vm_end v) s;
          (case ret of
             Inl _ \<Rightarrow> Some (Inl E_NO_MEM, to, s)
           | Inr _ \<Rightarrow> dup_vmas mem vs frm to s)
        })"

text \<open>The list is walked from its end.\<close>

definition dup_mmap :: "(vma_struct \<Rightarrow> bool) \<Rightarrow> mm_struct \<Rightarrow> mm_struct \<Rightarrow> phys \<Rightarrow> ((errno + unit) \<times> mm_struct \<times> phys) option" where
  "dup_mmap mem to frm s =
     (if mmap_list frm = [] then Some (Inr (), to, s)
      else do { pd \<leftarrow> pgdir frm; dup_vmas mem (rev (mmap_list frm)) pd to s })"

fun over_vmas :: "(nat \<Rightarrow> nat \<Rightarrow> phys \<Rightarrow> phys option) \<Rightarrow> vma_struct list \<Rightarrow> phys \<Rightarrow> phys option" where
  "over_vmas f [] s = Some s"
| "over_vmas f (v # vs) s = do { s \<leftarrow> f (vm_start v) (vm_end v) s; over_vmas f vs s }"

definition exit_mmap :: "mm_struct \<Rightarrow> phys \<Rightarrow> phys option" where
  "exit_mmap mm s = do {
     kassert (mm_count mm = 0);
     if mmap_list mm = [] then Some s
     else do {
       pd \<leftarrow> pgdir mm;
       s \<leftarrow> over_vmas (unmap_range pd) (mmap_list mm) s;
       over_vmas (exit_range pd) (mmap_list mm) s
     }
   }"

section \<open>Access from the kernel\<close>

lemma find_vma_holds: "find_vma mm addr = (Some v, mm') \<Longrightarrow> vm_start v \<le> addr \<and> addr < vm_end v"
  by (auto simp: find_vma_def Let_def holds_def find_Some_iff split: option.splits if_splits)

function check_loop :: "mm_struct \<Rightarrow> nat \<Rightarrow> nat \<Rightarrow> bool \<Rightarrow> bool \<times> mm_struct" where
  "check_loop mm st en write =
     (if st < en then
        (case find_vma mm st of
           (None, mm) \<Rightarrow> (False, mm)
         | (Some v, mm) \<Rightarrow>
             if st < vm_start v then (False, mm)
             else if vm_flags v AND (if write then VM_WRITE else VM_READ) = 0 then (False, mm)
             else if write \<and> vm_flags v AND VM_STACK \<noteq> 0 \<and> st < vm_start v + PGSIZE then (False, mm)
             else check_loop mm (vm_end v) en write)
      else (True, mm))"
  by pat_completeness auto
termination
  by (relation "measure (\<lambda>(_, st, en, _). en - st)") (auto dest!: find_vma_holds [OF sym] find_vma_holds)

declare check_loop.simps [simp del]

text \<open>\<open>mm\<close> is \<open>None\<close> for a kernel thread.\<close>

definition user_mem_check :: "mm_struct option \<Rightarrow> nat \<Rightarrow> nat \<Rightarrow> bool \<Rightarrow> bool \<times> mm_struct option" where
  "user_mem_check mm addr len write =
     (let en = (addr + len) mod 2 ^ 64 in
      case mm of
        Some m \<Rightarrow>
          if \<not> USER_ACCESS addr en then (False, mm)
          else (case check_loop m addr en write of (b, m) \<Rightarrow> (b, Some m))
      | None \<Rightarrow> (KERN_ACCESS addr en, mm))"

text \<open>\<open>um\<close> is the memory at user addresses; \<open>dst\<close> and \<open>src\<close> are kernel objects.\<close>

definition copy_from_user :: "mm_struct option \<Rightarrow> mem \<Rightarrow> nat \<Rightarrow> mem \<Rightarrow> nat \<Rightarrow> nat \<Rightarrow> bool \<Rightarrow> bool \<times> mem \<times> mm_struct option" where
  "copy_from_user mm dst d um src len writable =
     (case user_mem_check mm src len writable of
        (ok, mm) \<Rightarrow> if \<not> ok then (False, dst, mm) else (True, blit dst d um src len, mm))"

definition copy_to_user :: "mm_struct option \<Rightarrow> mem \<Rightarrow> nat \<Rightarrow> mem \<Rightarrow> nat \<Rightarrow> nat \<Rightarrow> bool \<times> mem \<times> mm_struct option" where
  "copy_to_user mm um dst src s len =
     (case user_mem_check mm dst len True of
        (ok, mm) \<Rightarrow> if \<not> ok then (False, um, mm) else (True, blit um dst src s len, mm))"


text \<open>The loop of \<open>copy_string\<close>; with nothing to check, \<open>user_mem_check\<close> refuses.\<close>

lemma user_mem_check_empty: "addr < 2 ^ 64 \<Longrightarrow> fst (user_mem_check mm addr 0 w) = False"
  by (cases mm) (simp_all add: user_mem_check_def Let_def USER_ACCESS_def KERN_ACCESS_def)

lemma strnlen_0 [simp]: "strnlen um src 0 = 0"
  by (simp add: strnlen_def strnlen_loop.simps)

function string_loop :: "mm_struct option \<Rightarrow> mem \<Rightarrow> nat \<Rightarrow> mem \<Rightarrow> nat \<Rightarrow> nat \<Rightarrow> nat \<Rightarrow> bool \<times> mem \<times> mm_struct option" where
  "string_loop mm dst d um src maxn part0 =
     (let part = (if part0 > maxn then maxn else part0) in
      case user_mem_check mm src part False of
        (ok, mm) \<Rightarrow>
          if \<not> ok then (False, dst, mm)
          else let alen = strnlen um src part in
            if alen < part then (True, blit dst d um src (alen + 1), mm)
            else if part = maxn then (False, dst, mm)
            else string_loop mm (blit dst d um src part) (d + part) um (src + part) (maxn - part) PGSIZE)"
  by pat_completeness auto
termination
proof (relation "measures [\<lambda>(_, _, _, _, _, maxn, part0). maxn, \<lambda>(_, _, _, _, _, _, part0). if part0 = 0 then 1 else 0]", goal_cases)
  case 2
  then show ?case by (auto simp: PGSIZE_def split: if_splits)
qed simp

declare string_loop.simps [simp del]

definition copy_string :: "mm_struct option \<Rightarrow> mem \<Rightarrow> nat \<Rightarrow> mem \<Rightarrow> nat \<Rightarrow> nat \<Rightarrow> bool \<times> mem \<times> mm_struct option" where
  "copy_string mm dst d um src maxn =
     string_loop mm dst d um src maxn (ROUNDDOWN ((src + PGSIZE) mod 2 ^ 64) PGSIZE - src)"

section \<open>Swapping in and page faults\<close>

definition max_swap_offset :: "phys \<Rightarrow> nat" where
  "max_swap_offset s = ide_device_size (swap_dev s) div (PGSIZE div SECTSIZE)"

definition swapfs_init :: "phys \<Rightarrow> unit option" where
  "swapfs_init s = kassert (valid (swap_dev s))"

definition swap_init :: "phys \<Rightarrow> phys option" where
  "swap_init s = do {
     swapfs_init s;
     kassert (7 \<le> max_swap_offset s \<and> max_swap_offset s < 2 ^ 24);
     Some (s\<lparr>swap_init_ok := True\<rparr>)
   }"

definition swap_offset :: "phys \<Rightarrow> 64 word \<Rightarrow> nat option" where
  "swap_offset s entry = do {
     let off = unat (drop_bit 8 entry);
     kassert (off > 0 \<and> off < max_swap_offset s);
     Some off
   }"

definition PAGE_NSECT :: nat where "PAGE_NSECT = PGSIZE div SECTSIZE"

definition swapfs_read :: "64 word \<Rightarrow> nat \<Rightarrow> phys \<Rightarrow> (int \<times> phys) option" where
  "swapfs_read entry page s = do {
     off \<leftarrow> swap_offset s entry;
     k \<leftarrow> page2kva page;
     (r, m) \<leftarrow> ide_read_secs (swap_dev s) (off * PAGE_NSECT mod 2 ^ 32) (frame s k) PAGE_NSECT;
     Some (r, s\<lparr>frame := (frame s)(k := m)\<rparr>)
   }"

definition swap_in :: "nat \<Rightarrow> nat \<Rightarrow> phys \<Rightarrow> (nat \<times> phys) option" where
  "swap_in pd addr s = do {
     (page, s) \<leftarrow> alloc_pages 1 s;
     p \<leftarrow> page;
     (ptep, s) \<leftarrow> get_pte s pd addr False;
     a \<leftarrow> ptep;
     (r, s) \<leftarrow> swapfs_read (pte_get s a) p s;
     Some (p, s)
   }"

text \<open>\<open>_fifo_map_swappable\<close>; the head of the list is there once the address space has \<open>sm_priv\<close>.\<close>

definition fifo_map_swappable :: "mm_struct \<Rightarrow> nat \<Rightarrow> phys \<Rightarrow> phys option" where
  "fifo_map_swappable mm page s = do {
     kassert (sm_priv mm);
     Some (s\<lparr>pra_list := pra_list s @ [page]\<rparr>)
   }"

text \<open>\<open>_fifo_swap_out_victim\<close>: with no page in the list its head would be taken for one.\<close>

definition fifo_swap_out_victim :: "mm_struct \<Rightarrow> phys \<Rightarrow> (nat \<times> phys) option" where
  "fifo_swap_out_victim mm s = do {
     kassert (sm_priv mm);
     (case pra_list s of [] \<Rightarrow> None | p # ps \<Rightarrow> Some (p, s\<lparr>pra_list := ps\<rparr>))
   }"

definition swapfs_write :: "64 word \<Rightarrow> nat \<Rightarrow> phys \<Rightarrow> (int \<times> phys) option" where
  "swapfs_write entry page s = do {
     off \<leftarrow> swap_offset s entry;
     k \<leftarrow> page2kva page;
     (r, dev) \<leftarrow> ide_write_secs (swap_dev s) (off * PAGE_NSECT mod 2 ^ 32) (frame s k) PAGE_NSECT;
     Some (r, s\<lparr>swap_dev := dev\<rparr>)
   }"

definition swap_entry :: "nat \<Rightarrow> 64 word" where
  "swap_entry v = push_bit 8 (word_of_nat (v div PGSIZE + 1))"

fun swap_out :: "mm_struct \<Rightarrow> nat \<Rightarrow> phys \<Rightarrow> phys option" where
  "swap_out mm 0 s = Some s"
| "swap_out mm (Suc n) s = do {
     (page, s) \<leftarrow> fifo_swap_out_victim mm s;
     let v = pra_vaddr s page;
     pd \<leftarrow> pgdir mm;
     (ptep, s) \<leftarrow> get_pte s pd v False;
     a \<leftarrow> ptep;
     kassert (valid_pte (pte_get s a));
     (r, s) \<leftarrow> swapfs_write (swap_entry v) page s;
     s \<leftarrow> (if r \<noteq> 0 then fifo_map_swappable mm page s else free_pages page 1 (pte_set a (swap_entry v) s));
     swap_out mm n s
   }"

definition fault_perm :: "vma_struct \<Rightarrow> 64 word" where
  "fault_perm v = (if vm_flags v AND VM_WRITE \<noteq> 0 then PTE_U OR READ_WRITE else PTE_U)"

definition do_pgfault :: "mm_struct option \<Rightarrow> nat \<Rightarrow> phys \<Rightarrow> ((errno + unit) \<times> mm_struct option \<times> phys) option" where
  "do_pgfault mm addr s =
     (case mm of
        None \<Rightarrow> Some (Inl E_INVAL, mm, s)
      | Some m \<Rightarrow>
          (case find_vma m addr of
             (None, m) \<Rightarrow> Some (Inl E_INVAL, Some m, s)
           | (Some v, m) \<Rightarrow>
               if vm_start v > addr then Some (Inl E_INVAL, Some m, s)
               else do {
                 let perm = fault_perm v;
                 let addr = ROUNDDOWN addr PGSIZE;
                 pd \<leftarrow> pgdir m;
                 (ptep, s) \<leftarrow> get_pte s pd addr True;
                 (case ptep of
                    None \<Rightarrow> Some (Inl E_NO_MEM, Some m, s)
                  | Some a \<Rightarrow>
                      if pte_get s a = 0 then do {
                        (p, s) \<leftarrow> pgdir_alloc_page pd addr perm s;
                        Some (case p of None \<Rightarrow> Inl E_NO_MEM | Some _ \<Rightarrow> Inr (), Some m, s)
                      }
                      else if swap_init_ok s then do {
                        (p, s) \<leftarrow> swap_in pd addr s;
                        (ret, s) \<leftarrow> page_insert pd p addr perm s;
                        (case ret of
                           Inl _ \<Rightarrow> Some (Inl E_NO_MEM, Some m, s)
                         | Inr _ \<Rightarrow> do { s \<leftarrow> fifo_map_swappable m p s; Some (Inr (), Some m, s\<lparr>pra_vaddr := (pra_vaddr s)(p := addr)\<rparr>) })
                      }
                      else Some (Inl E_NO_MEM, Some m, s))
               }))"

end
