(* ===== verification/Page_Fault.thy ===== *)
theory Page_Fault
  imports Page_Walk Vmm
begin

text \<open>
  Page faults and swapping: what \<open>do_pgfault\<close> does on an absent page and on a present one, and that
  \<open>swapfs_read\<close> gives back what \<open>swapfs_write\<close> stored.
\<close>

section \<open>Addresses\<close>

lemma page_round:
  "PDX1 (ROUNDDOWN a PGSIZE) = PDX1 a" "PDX0 (ROUNDDOWN a PGSIZE) = PDX0 a" "PTX (ROUNDDOWN a PGSIZE) = PTX a"
proof -
  have q: "ROUNDDOWN a PGSIZE div 4096 = a div 4096" by (simp add: ROUNDDOWN_def PGSIZE_def minus_mod_eq_mult_div)
  have d: "x div 2 ^ 30 = x div 4096 div 2 ^ 18" "x div 2 ^ 21 = x div 4096 div 2 ^ 9" "x div 2 ^ 12 = x div 4096" for x :: nat
    by (simp_all add: div_mult2_eq [symmetric])
  show "PDX1 (ROUNDDOWN a PGSIZE) = PDX1 a" "PDX0 (ROUNDDOWN a PGSIZE) = PDX0 a" "PTX (ROUNDDOWN a PGSIZE) = PTX a"
    unfolding PDX1_def PDX0_def PTX_def d q by simp_all
qed

lemma same_page_iff:
  assumes "a < 2 ^ 39" "b < 2 ^ 39"
  shows "same_page a b \<longleftrightarrow> a div PGSIZE = b div PGSIZE"
proof -
  have d: "x div 2 ^ 30 = x div 4096 div 512 div 512" "x div 2 ^ 21 = x div 4096 div 512" "x div 2 ^ 12 = x div 4096" for x :: nat
    by (simp_all add: div_mult2_eq [symmetric])
  have p: "x div 4096 = (PDX1 x * 512 + PDX0 x) * 512 + PTX x" if "x < 2 ^ 39" for x
  proof -
    have "x div 4096 div 512 div 512 < 512" using that by (simp add: div_mult2_eq [symmetric] less_mult_imp_div_less)
    then show ?thesis unfolding PDX1_def PDX0_def PTX_def d by (metis div_mult_mod_eq mod_less)
  qed
  show ?thesis
  proof
    assume "same_page a b"
    then show "a div PGSIZE = b div PGSIZE"
      unfolding PGSIZE_def p [OF assms(1)] p [OF assms(2)] by (simp add: same_page_def)
  next
    assume "a div PGSIZE = b div PGSIZE"
    then show "same_page a b" unfolding same_page_def PDX1_def PDX0_def PTX_def d PGSIZE_def by metis
  qed
qed

text \<open>The user half of an address space: the first two slots of the page directory.\<close>

definition user_slots :: "nat set" where "user_slots = {0, 1}"

lemma user_slot:
  assumes "a < USERTOP"
  shows "PDX1 a \<in> user_slots" "a < 2 ^ 39"
proof -
  have "a div 2 ^ 30 < 2" using assms by (simp add: USERTOP_def less_mult_imp_div_less)
  then show "PDX1 a \<in> user_slots" by (auto simp: PDX1_def user_slots_def)
qed (use assms in \<open>simp add: USERTOP_def\<close>)

section \<open>Faults\<close>

lemma fault_perm_bits: "fault_perm v AND NOT 0x3FF = 0"
  by (simp add: fault_perm_def PTE_V_def PTE_U_def READ_WRITE_def PTE_R_def PTE_W_def)

lemma pte_create_V: "pte_create p (PTE_V OR perm) = pte_create p perm"
  by (rule bit_word_eqI) (auto simp: pte_create_def bit_or_iff)

lemma xlate_round: "xlate s pd L (ROUNDDOWN a PGSIZE) = xlate s pd L a"
  by (simp only: xlate_def page_round)

lemma find_vma_pgdir: "pgdir (snd (find_vma mm a)) = pgdir mm"
  by (simp add: find_vma_def Let_def split: option.split)

lemma fault_page_ok:
  assumes ok: "pt_ok s pd user_slots" and mm: "fst (find_vma m addr) = Some v" "pgdir m = Some pd"
    and addr: "addr < USERTOP" and absent: "xlate s pd user_slots addr = 0" and n: "3 \<le> nr_free_pages s"
  shows "\<exists>p s'. do_pgfault (Some m) addr s = Some (Inr (), Some (snd (find_vma m addr)), s')
     \<and> p \<in> free_set (pool s) \<and> p \<notin> free_set (pool s') \<and> pt_ok s' pd user_slots
     \<and> map_option fst (get_page s' pd addr) = Some (Some p)
     \<and> (\<forall>a < USERTOP. xlate s' pd user_slots a =
          (if a div PGSIZE = addr div PGSIZE then pte_create (page2ppn p) (fault_perm v) else xlate s pd user_slots a))
     \<and> frame s' (page2ppn p) = frame s (page2ppn p)"
proof -
  let ?a = "ROUNDDOWN addr PGSIZE"
  obtain m' where f: "find_vma m addr = (Some v, m')" using mm(1) by (cases "find_vma m addr") simp
  have mp: "pgdir m' = Some pd" using find_vma_pgdir [of m addr] f mm(2) by simp
  have st: "vm_start v \<le> addr" using find_vma_holds [OF f] by simp
  have la: "PDX1 ?a \<in> user_slots" using user_slot(1) [OF addr] by (simp add: page_round)
  have n': "3 \<le> nr_free (pool s)" using n by (simp add: nr_free_pages_def default_nr_free_pages_def)
  obtain t s1 where g: "get_pte s pd ?a True = Some (Some (t, PTX ?a), s1)" "grown pd user_slots 2 s s1"
    "tframe s1 pd user_slots (Leaf (PDX1 ?a) (PDX0 ?a)) = Some t"
    using get_pte_create [OF ok la] n' by auto
  have x0: "xlate s1 pd user_slots ?a = 0"
    using g(2) la absent unfolding grown_def by (simp add: xlate_round page_round)
  have pt: "pte_get s1 (t, PTX ?a) = 0" using x0 g(3) by (simp add: xlate_def)
  have ok1: "pt_ok s1 pd user_slots" "0 + 1 \<le> nr_free (pool s1)" using g(2) n' by (auto simp: grown_def)
  have e1: "\<not> valid_pte (xlate s1 pd user_slots ?a)" by (simp add: x0 valid_pte_def)
  obtain p s' where al: "pgdir_alloc_page pd ?a (fault_perm v) s1 = Some (Some p, s')"
      "mapped pd user_slots (0 + 1) ?a p (fault_perm v) s1 s'" "p \<in> free_set (pool s1)" "p \<notin> free_set (pool s')"
      "frame s' (p + nbase) = frame s1 (p + nbase)"
    using alloc_map_step [OF ok1(1) la e1 ok1(2), of "fault_perm v"] g(3) by auto
  have ps: "p \<in> free_set (pool s)" using al(3) g(2) by (auto simp: grown_def)
  have "tframe s1 pd user_slots x \<noteq> Some (p + nbase)" for x
    using pt_okD(2) [OF ok1(1), of x "p + nbase"] al(3) by auto
  then have fr: "frame s1 (p + nbase) = frame s (p + nbase)" using g(2) unfolding grown_def by simp
  have x: "xlate s' pd user_slots a =
        (if a div PGSIZE = addr div PGSIZE then pte_create (page2ppn p) (fault_perm v) else xlate s pd user_slots a)"
    if a: "a < USERTOP" for a
  proof -
    have "same_page a ?a \<longleftrightarrow> a div PGSIZE = addr div PGSIZE"
      using same_page_iff [OF user_slot(2) [OF a] user_slot(2) [OF addr]] by (simp add: same_page_def page_round)
    moreover have "xlate s1 pd user_slots a = xlate s pd user_slots a" using g(2) user_slot(1) [OF a] unfolding grown_def by blast
    ultimately show ?thesis using al(2) user_slot(1) [OF a] unfolding mapped_def by (simp add: pte_create_V)
  qed
  have pn: "p + nbase < npage" by (rule pt_okD(5) [OF ok ps])
  have pf: "fault_perm v AND NOT 0x3FF = 0" by (rule fault_perm_bits)
  note pc = pte_fields [OF page_ppn [OF pn] pf]
  have p2: "pte2page (pte_create (page2ppn p) (fault_perm v)) = Some p"
    using pc pn by (simp add: pte2page_def pa2page_def page2ppn_def kassert_def)
  have ok': "pt_ok s' pd user_slots" using al(2) by (simp add: mapped_def)
  have gp: "map_option fst (get_page s' pd addr) = Some (Some p)"
    using get_page_xlate [OF ok' user_slot(1) [OF addr]] x [OF addr] pc(2) p2 by (simp add: page2ppn_def)
  have "do_pgfault (Some m) addr s = Some (Inr (), Some m', s')"
    using f st mp g(1) pt al(1) by (simp add: do_pgfault_def Let_def)
  then show ?thesis using ps al(4) ok' gp x al(5) fr f by (auto simp: page2ppn_def)
qed

text \<open>A present entry is taken for a swap entry, whose number is beyond any swap area of 8 GB.\<close>

lemma ppn_le: "4 * PPN (PTE_ADDR e) \<le> unat (drop_bit 8 e)"
proof -
  have a: "unat (e AND NOT 0x3FF) \<le> unat e" using word_and_le1 [of e "NOT 0x3FF"] word_and_le2 [of e "NOT 0x3FF"] unfolding word_le_nat_alt by (simp only: and.commute)
  have "unat (push_bit 2 (e AND NOT 0x3FF)) \<le> 4 * unat (e AND NOT 0x3FF)"
    by (simp add: push_bit_eq_mult unat_word_ariths)
  with a have "unat (push_bit 2 (e AND NOT 0x3FF)) \<le> 4 * unat e" by simp
  then have "unat (push_bit 2 (e AND NOT 0x3FF)) div 4096 \<le> 4 * unat e div 4096" by (rule div_le_mono)
  then have "PPN (PTE_ADDR e) \<le> unat e div 1024"
    by (simp add: PPN_def PTE_ADDR_def unsigned_drop_bit_eq drop_bit_eq_div unat_div)
  moreover have "4 * (unat e div 1024) \<le> unat e div 256" by simp
  ultimately show ?thesis by (simp add: drop_bit_eq_div unat_div)
qed

lemma present_fault_None:
  assumes ok: "pt_ok s pd user_slots" and mm: "fst (find_vma m addr) = Some v" "pgdir m = Some pd"
    and addr: "addr < USERTOP" and present: "valid_pte (xlate s pd user_slots addr)"
    and ppn: "nbase \<le> PPN (PTE_ADDR (xlate s pd user_slots addr))"
    and sw: "swap_init_ok s" "max_swap_offset s \<le> 2 ^ 21"
  shows "do_pgfault (Some m) addr s = None"
proof -
  let ?a = "ROUNDDOWN addr PGSIZE"
  obtain m' where f: "find_vma m addr = (Some v, m')" using mm(1) by (cases "find_vma m addr") simp
  have mp: "pgdir m' = Some pd" using find_vma_pgdir [of m addr] f mm(2) by simp
  have st: "vm_start v \<le> addr" using find_vma_holds [OF f] by simp
  obtain t where t: "tframe s pd user_slots (Leaf (PDX1 ?a) (PDX0 ?a)) = Some t"
    using present by (cases "tframe s pd user_slots (Leaf (PDX1 addr) (PDX0 addr))") (auto simp: xlate_def valid_pte_def page_round)
  have e: "pte_get s (t, PTX ?a) = xlate s pd user_slots addr" using t by (simp add: xlate_def page_round)
  have nz: "pte_get s (t, PTX ?a) \<noteq> 0" using present unfolding e by (auto simp: valid_pte_def)
  have so: "swap_offset (s\<lparr>pool := pl\<rparr>) (pte_get s (t, PTX ?a)) = None" for pl
    using ppn_le [of "xlate s pd user_slots addr"] ppn sw(2) unfolding e
    by (auto simp: swap_offset_def nbase_def PGSIZE_def max_swap_offset_def Let_def)
  have "swap_in pd ?a s = None"
  proof (rule ccontr)
    assume "swap_in pd ?a s \<noteq> None"
    then obtain r s1 where a: "alloc_pages 1 s = Some (r, s1)" by (cases "alloc_pages 1 s") (auto simp: swap_in_def)
    obtain pl where s1: "s1 = s\<lparr>pool := pl\<rparr>" "pmm_inv pl" "free_set pl \<subseteq> free_set (pool s)"
      using alloc_page_ok [OF pt_okD(4) [OF ok] a] by (cases r) (auto intro: that [of "pool s1"] that [of "pool s"])
    have ok1: "pt_ok s1 pd user_slots" unfolding s1(1) by (rule pt_ok_pool [OF ok s1(2,3)])
    have "get_pte s1 pd ?a False = Some (Some (t, PTX ?a), s1)"
      by (rule get_pte_there [OF ok1]) (use t in \<open>simp add: s1(1)\<close>)
    then have "swap_in pd ?a s = None" using a so [of pl] by (cases r) (simp_all add: swap_in_def swapfs_read_def s1(1))
    then show False using \<open>swap_in pd ?a s \<noteq> None\<close> by simp
  qed
  then show ?thesis
    using f st mp get_pte_there [OF ok t, of True] nz sw(1) by (simp add: do_pgfault_def Let_def)
qed


section \<open>Swapping\<close>

lemma tframe_frame:
  assumes "\<And>x. tframe s pd L x \<noteq> Some g" "L \<subseteq> {..< 512}"
  shows "tframe (s\<lparr>frame := (frame s)(g := m)\<rparr>) pd L y = tframe s pd L y"
    "xlate (s\<lparr>frame := (frame s)(g := m)\<rparr>) pd L la = xlate s pd L la"
proof -
  let ?s = "s\<lparr>frame := (frame s)(g := m)\<rparr>"
  have tb: "tbl ?s (f, i) = tbl s (f, i)" "pte_get ?s (f, i) = pte_get s (f, i)" if "f \<noteq> g" for f i
    using that by (simp_all add: tbl_def pte_get_def)
  have r: "pd \<noteq> g" using assms(1) [of Root] by (simp add: tframe.simps)
  have d: "f \<noteq> g" if "i \<in> L" "tbl s (pd, i) = Some f" for i f using assms(1) [of "Dir i"] that by (auto simp: tframe.simps)
  show tf: "tframe ?s pd L y = tframe s pd L y" for y
    using tb(1) r d by (cases y) (auto simp: tframe.simps split: option.split)
  show "xlate ?s pd L la = xlate s pd L la"
    unfolding xlate_def tf using assms(1) [of "Leaf (PDX1 la) (PDX0 la)"] tb(2) by (auto split: option.split)
qed

lemma pt_ok_frame:
  assumes "pt_ok s pd L" "\<And>x. tframe s pd L x \<noteq> Some g"
  shows "pt_ok (s\<lparr>frame := (frame s)(g := m)\<rparr>) pd L"
proof -
  have L: "L \<subseteq> {..< 512}" using assms(1) by (simp add: pt_ok_def)
  have "tframe (s\<lparr>frame := (frame s)(g := m)\<rparr>) pd L = tframe s pd L" by (rule ext) (rule tframe_frame(1) [OF assms(2) L])
  then show ?thesis using assms(1) unfolding pt_ok_def by simp
qed

text \<open>The slot of a user address: its number, and where it lies on the disk.\<close>

definition slot_fits :: "phys \<Rightarrow> nat \<Rightarrow> bool" where
  "slot_fits s v \<longleftrightarrow> v < USERTOP \<and> valid (swap_dev s) \<and> v div PGSIZE + 1 < max_swap_offset s"

lemma slot_facts:
  assumes "slot_fits s v"
  shows "swap_offset s (swap_entry v) = Some (v div PGSIZE + 1)" "swap_entry v \<noteq> 0" "\<not> valid_pte (swap_entry v)"
    "(v div PGSIZE + 1) * PAGE_NSECT mod 2 ^ 32 = (v div PGSIZE + 1) * PAGE_NSECT"
    "(v div PGSIZE + 1) * PAGE_NSECT + PAGE_NSECT \<le> MAX_DISK_NSECS"
    "ramdisk_clip (swap_dev s) ((v div PGSIZE + 1) * PAGE_NSECT) PAGE_NSECT = PAGE_NSECT"
proof -
  have b: "v div PGSIZE + 1 \<le> 2 ^ 19" using assms by (auto simp: slot_fits_def USERTOP_def PGSIZE_def)
  have m: "v div PGSIZE + 1 < ide_device_size (swap_dev s) div 8" using assms by (simp add: slot_fits_def max_swap_offset_def PGSIZE_def SECTSIZE_def)
  define n where "n = v div PGSIZE + 1"
  have n: "n \<le> 2 ^ 19" "0 < n" "n < max_swap_offset s" using b assms by (simp_all add: n_def slot_fits_def)
  have t: "take_bit 64 n = n" using n(1) by (simp add: take_bit_nat_eq_self_iff)
  have u: "unat (swap_entry v) = 256 * n"
    unfolding swap_entry_def n_def [symmetric] using n by (simp add: push_bit_eq_mult unat_word_ariths unsigned_of_nat t)
  have "unat (drop_bit 8 (swap_entry v)) = n"
    using u by (simp add: drop_bit_eq_div unat_div)
  then show "swap_offset s (swap_entry v) = Some (v div PGSIZE + 1)" using n by (simp add: swap_offset_def Let_def n_def)
  show "swap_entry v \<noteq> 0" using u n by auto
  have "swap_entry v AND PTE_V = 0"
    unfolding swap_entry_def PTE_V_def by (rule bit_word_eqI) (auto simp: bit_simps)
  then show "\<not> valid_pte (swap_entry v)" by (simp add: valid_pte_def)
  show "(v div PGSIZE + 1) * PAGE_NSECT mod 2 ^ 32 = (v div PGSIZE + 1) * PAGE_NSECT"
    "(v div PGSIZE + 1) * PAGE_NSECT + PAGE_NSECT \<le> MAX_DISK_NSECS"
    using b by (simp_all add: PAGE_NSECT_def PGSIZE_def SECTSIZE_def MAX_DISK_NSECS_def)
  have "8 * (v div PGSIZE + 1) + 8 \<le> secs (swap_dev s)" using m assms by (simp add: ide_device_size_def slot_fits_def)
  then show "ramdisk_clip (swap_dev s) ((v div PGSIZE + 1) * PAGE_NSECT) PAGE_NSECT = PAGE_NSECT"
    by (auto simp: ramdisk_clip_def Let_def PAGE_NSECT_def PGSIZE_def SECTSIZE_def)
qed

definition slot_of :: "phys \<Rightarrow> nat \<Rightarrow> mem" where
  "slot_of s v = (\<lambda>i. store (swap_dev s) ((v div PGSIZE + 1) * PGSIZE + i))"

lemma page2kva_eq: "p + nbase < npage \<Longrightarrow> page2kva p = Some (p + nbase)"
  by (simp add: page2kva_def KADDR_def page2ppn_def kassert_def)

lemma swapfs_write_ok:
  assumes "slot_fits s v" "p + nbase < npage"
  obtains dev where "swapfs_write (swap_entry v) p s = Some (0, s\<lparr>swap_dev := dev\<rparr>)"
    "slot_fits (s\<lparr>swap_dev := dev\<rparr>) v" "\<And>i. i < PGSIZE \<Longrightarrow> slot_of (s\<lparr>swap_dev := dev\<rparr>) v i = frame s (p + nbase) i"
proof -
  note f = slot_facts [OF assms(1)]
  have va: "valid (swap_dev s)" using assms(1) by (simp add: slot_fits_def)
  let ?d = "(swap_dev s)\<lparr>store := blit (store (swap_dev s)) ((v div PGSIZE + 1) * PAGE_NSECT * SECTSIZE) (frame s (p + nbase)) 0 (PAGE_NSECT * SECTSIZE)\<rparr>"
  have 8: "PAGE_NSECT \<le> MAX_NSECS" "0 < PAGE_NSECT" by (simp_all add: PAGE_NSECT_def PGSIZE_def SECTSIZE_def MAX_NSECS_def)
  have "(v div PGSIZE + 1) * PAGE_NSECT < MAX_DISK_NSECS" using f(5) 8(2) by linarith
  then have "swapfs_write (swap_entry v) p s = Some (0, s\<lparr>swap_dev := ?d\<rparr>)"
    using f(1) page2kva_eq [OF assms(2)] va 8 f(4,5,6)
    by (simp add: swapfs_write_def ide_write_secs_def ramdisk_write_def kassert_def)
  moreover have "slot_fits (s\<lparr>swap_dev := ?d\<rparr>) v" using assms(1) va by (simp add: slot_fits_def max_swap_offset_def ide_device_size_def)
  moreover have "slot_of (s\<lparr>swap_dev := ?d\<rparr>) v i = frame s (p + nbase) i" if "i < PGSIZE" for i
    using that by (simp add: slot_of_def blit_def PAGE_NSECT_def PGSIZE_def SECTSIZE_def mult.commute)
  ultimately show thesis by (rule that)
qed

lemma swapfs_read_ok:
  assumes "slot_fits s v" "q + nbase < npage"
  obtains m where "swapfs_read (swap_entry v) q s = Some (0, s\<lparr>frame := (frame s)(q + nbase := m)\<rparr>)"
    "\<And>i. i < PGSIZE \<Longrightarrow> m i = slot_of s v i"
proof -
  note f = slot_facts [OF assms(1)]
  have va: "valid (swap_dev s)" using assms(1) by (simp add: slot_fits_def)
  let ?m = "blit (frame s (q + nbase)) 0 (store (swap_dev s)) ((v div PGSIZE + 1) * PAGE_NSECT * SECTSIZE) (PAGE_NSECT * SECTSIZE)"
  have 8: "PAGE_NSECT \<le> MAX_NSECS" "0 < PAGE_NSECT" by (simp_all add: PAGE_NSECT_def PGSIZE_def SECTSIZE_def MAX_NSECS_def)
  have "(v div PGSIZE + 1) * PAGE_NSECT < MAX_DISK_NSECS" using f(5) 8(2) by linarith
  then have "swapfs_read (swap_entry v) q s = Some (0, s\<lparr>frame := (frame s)(q + nbase := ?m)\<rparr>)"
    using f(1) page2kva_eq [OF assms(2)] va 8 f(4,5,6)
    by (simp add: swapfs_read_def ide_read_secs_def ramdisk_read_def kassert_def)
  moreover have "?m i = slot_of s v i" if "i < PGSIZE" for i
    using that by (simp add: slot_of_def blit_def PAGE_NSECT_def PGSIZE_def SECTSIZE_def mult.commute)
  ultimately show thesis by (rule that)
qed


lemma swap_out_one:
  assumes ok: "pt_ok s pd user_slots" and mm: "sm_priv m" "pgdir m = Some pd"
    and vic: "pra_list s = p # ps" "slot_fits s (pra_vaddr s p)"
    and e: "valid_pte (xlate s pd user_slots (pra_vaddr s p))"
    and p: "p + nbase < npage" "p \<notin> free_set (pool s)" "\<And>x. tframe s pd user_slots x \<noteq> Some (p + nbase)"
      "\<not> PageReserved (pages (pool s) p)" "\<exists>i \<in> free_set (pool s). p < i"
  obtains s1 where "swap_out m 1 s = Some s1" "pt_ok s1 pd user_slots"
    "\<And>a. a < USERTOP \<Longrightarrow> xlate s1 pd user_slots a =
        (if a div PGSIZE = pra_vaddr s p div PGSIZE then swap_entry (pra_vaddr s p) else xlate s pd user_slots a)"
    "p \<in> free_set (pool s1)" "slot_fits s1 (pra_vaddr s p)" "\<And>i. i < PGSIZE \<Longrightarrow> slot_of s1 (pra_vaddr s p) i = frame s (p + nbase) i"
    "swap_init_ok s1 = swap_init_ok s"
proof -
  define v where "v = pra_vaddr s p"
  note vic = vic [folded v_def] and e = e [folded v_def]
  have vU: "v < USERTOP" using vic(2) by (simp add: slot_fits_def)
  let ?s = "s\<lparr>pra_list := ps\<rparr>"
  have same: "tframe ?s pd user_slots = tframe s pd user_slots" "xlate ?s pd user_slots a = xlate s pd user_slots a" for a
  proof -
    show tf: "tframe ?s pd user_slots = tframe s pd user_slots"
      by (rule ext, rename_tac x, case_tac x) (simp_all add: tframe.simps tbl_def pte_get_def split: option.split)
    show "xlate ?s pd user_slots a = xlate s pd user_slots a" unfolding xlate_def tf by (simp add: pte_get_def split: option.split)
  qed
  obtain t where t: "tframe s pd user_slots (Leaf (PDX1 v) (PDX0 v)) = Some t"
    using e by (cases "tframe s pd user_slots (Leaf (PDX1 v) (PDX0 v))") (auto simp: xlate_def valid_pte_def)
  have oks: "pt_ok ?s pd user_slots" using ok unfolding pt_ok_def same by simp
  have g: "get_pte ?s pd v False = Some (Some (t, PTX v), ?s)"
    by (rule get_pte_there [OF oks]) (simp add: same t)
  have ge: "pte_get ?s (t, PTX v) = xlate s pd user_slots v" using t by (simp add: xlate_def pte_get_def)
  have fit: "slot_fits ?s v" using vic(2) by (simp add: slot_fits_def max_swap_offset_def)
  obtain dev where w: "swapfs_write (swap_entry v) p ?s = Some (0, ?s\<lparr>swap_dev := dev\<rparr>)"
    "slot_fits (?s\<lparr>swap_dev := dev\<rparr>) v" "\<And>i. i < PGSIZE \<Longrightarrow> slot_of (?s\<lparr>swap_dev := dev\<rparr>) v i = frame ?s (p + nbase) i"
    by (rule swapfs_write_ok [OF fit p(1)], rule that, assumption, assumption, blast)
  let ?t = "?s\<lparr>swap_dev := dev\<rparr>"
  have samet: "tframe ?t pd user_slots = tframe s pd user_slots" "xlate ?t pd user_slots a = xlate s pd user_slots a" for a
  proof -
    show tf: "tframe ?t pd user_slots = tframe s pd user_slots"
      by (rule ext, rename_tac x, case_tac x) (simp_all add: tframe.simps tbl_def pte_get_def split: option.split)
    show "xlate ?t pd user_slots a = xlate s pd user_slots a" unfolding xlate_def tf by (simp add: pte_get_def split: option.split)
  qed
  have okt: "pt_ok ?t pd user_slots" using ok unfolding pt_ok_def samet by simp
  have tt: "tframe ?t pd user_slots (Leaf (PDX1 v) (PDX0 v)) = Some t" by (simp add: samet t)
  note ls = leaf_set [OF okt tt idx_less(3) [of v], where e = "swap_entry v"]
  let ?u = "pte_set (t, PTX v) (swap_entry v) ?t"
  have pu: "pool ?u = pool s" by simp
  obtain pl where f: "default_free_pages p 1 (pool s) = Some pl" "pmm_inv pl" "free_set pl = free_set (pool s) \<union> {p}"
    using default_free_ok [OF pt_okD(4) [OF ok], of 1 p] p by auto
  let ?r = "?u\<lparr>pool := pl\<rparr>"
  have tfr: "tframe ?r pd user_slots = tframe s pd user_slots"
    by (rule ext) (simp add: ls(1) samet)
  have okr: "pt_ok ?r pd user_slots"
    using ok p(1,3) f(2,3) unfolding pt_ok_def tfr by auto
  have x: "xlate ?r pd user_slots a = (if a div PGSIZE = v div PGSIZE then swap_entry v else xlate s pd user_slots a)" if a: "a < USERTOP" for a
    using ls(3) [OF user_slot(1) [OF a]] same_page_iff [OF user_slot(2) [OF a] user_slot(2) [OF vU]]
    by (simp add: samet same_page_def)
  have so: "slot_of ?r v = slot_of ?t v" "slot_fits ?r v = slot_fits ?t v"
    by (simp_all add: slot_of_def slot_fits_def max_swap_offset_def)
  have "swap_out m 1 s = Some ?r"
    using mm vic(1) g ge e w(1) f(1) pu
    by (simp add: numeral_eq_Suc fifo_swap_out_victim_def free_pages_def v_def [symmetric] kassert_def)
  then show thesis
    by (rule that [folded v_def]) (use okr x f(3) w(2,3) so in simp_all)
qed


lemma swap_in_one:
  assumes ok: "pt_ok s pd user_slots" and fit: "slot_fits s a" and e: "xlate s pd user_slots a = swap_entry a"
    and n: "free_set (pool s) \<noteq> {}"
  obtains q s1 where "swap_in pd a s = Some (q, s1)" "pt_ok s1 pd user_slots" "q \<in> free_set (pool s)"
    "\<And>b. xlate s1 pd user_slots b = xlate s pd user_slots b" "\<And>x. tframe s1 pd user_slots x \<noteq> Some (q + nbase)"
    "tframe s1 pd user_slots = tframe s pd user_slots"
    "\<And>i. i < PGSIZE \<Longrightarrow> frame s1 (q + nbase) i = slot_of s a i" "swap_init_ok s1 = swap_init_ok s" "q \<notin> free_set (pool s1)"
proof -
  have fin: "finite (free_set (pool s))" and c: "nr_free (pool s) = card (free_set (pool s))"
    using pmm_ok_card pt_okD(4) [OF ok] by (auto simp: pmm_inv_def)
  have n1: "1 \<le> nr_free (pool s)" using n fin by (simp add: c card_gt_0_iff Suc_le_eq)
  obtain q pl where al: "alloc_pages 1 s = Some (Some q, s\<lparr>pool := pl\<rparr>)" "pmm_inv pl" "q \<in> free_set (pool s)"
    "free_set pl = free_set (pool s) - {q}" "nr_free pl = nr_free (pool s) - 1"
    by (rule alloc_page_some [OF pt_okD(4) [OF ok] n1])
  let ?s = "s\<lparr>pool := pl\<rparr>"
  have oks: "pt_ok ?s pd user_slots" by (rule pt_ok_pool [OF ok al(2)]) (use al(4) in simp)
  have qn: "q + nbase < npage" by (rule pt_okD(5) [OF ok al(3)])
  obtain t where t: "tframe s pd user_slots (Leaf (PDX1 a) (PDX0 a)) = Some t"
    using e slot_facts(2) [OF fit] by (cases "tframe s pd user_slots (Leaf (PDX1 a) (PDX0 a))") (auto simp: xlate_def)
  have g: "get_pte ?s pd a False = Some (Some (t, PTX a), ?s)" by (rule get_pte_there [OF oks]) (simp add: t)
  have ge: "pte_get ?s (t, PTX a) = swap_entry a" using e t by (simp add: xlate_def)
  have fs: "slot_fits ?s a" "slot_of ?s a = slot_of s a" using fit by (simp_all add: slot_fits_def max_swap_offset_def slot_of_def)
  obtain m where r: "swapfs_read (swap_entry a) q ?s = Some (0, ?s\<lparr>frame := (frame ?s)(q + nbase := m)\<rparr>)"
    "\<And>i. i < PGSIZE \<Longrightarrow> m i = slot_of s a i"
    by (rule swapfs_read_ok [OF fs(1) qn, unfolded fs(2)], rule that, assumption, blast)
  have nt: "tframe ?s pd user_slots x \<noteq> Some (q + nbase)" for x
    using pt_okD(2) [OF ok, of x "q + nbase"] al(3) by auto
  have L: "user_slots \<subseteq> {..< 512}" by (simp add: user_slots_def)
  note tf = tframe_frame [OF nt L] and ok' = pt_ok_frame [OF oks nt]
  let ?u = "?s\<lparr>frame := (frame ?s)(q + nbase := m)\<rparr>"
  have "swap_in pd a s = Some (q, ?u)" using al(1) g ge r(1) by (simp add: swap_in_def)
  moreover have "tframe ?u pd user_slots = tframe s pd user_slots" by (rule ext) (simp only: tf tframe_pool)
  moreover have "tframe ?u pd user_slots x \<noteq> Some (q + nbase)" for x using nt [of x] by (simp only: tf not_False_eq_True)
  moreover have "frame ?u (q + nbase) i = slot_of s a i" if "i < PGSIZE" for i using r(2) [OF that] by simp
  moreover have "xlate ?u pd user_slots b = xlate s pd user_slots b" for b by (simp only: tf xlate_pool)
  ultimately show thesis using ok' [of m] al(3,4) by (intro that [of q ?u]) simp_all
qed

lemma find_vma_rest: "sm_priv (snd (find_vma mm a)) = sm_priv mm"
  by (simp add: find_vma_def Let_def split: option.split)

lemma swap_fault_ok:
  assumes ok: "pt_ok s pd user_slots" and mm: "fst (find_vma m addr) = Some w" "pgdir m = Some pd" "sm_priv m"
    and v: "v mod PGSIZE = 0" "addr div PGSIZE = v div PGSIZE" "addr < USERTOP"
    and sw: "swap_init_ok s" "slot_fits s v" "xlate s pd user_slots v = swap_entry v" "free_set (pool s) \<noteq> {}"
  shows "\<exists>q s2. do_pgfault (Some m) addr s = Some (Inr (), Some (snd (find_vma m addr)), s2) \<and> pt_ok s2 pd user_slots
    \<and> q \<in> free_set (pool s) \<and> q \<notin> free_set (pool s2) \<and> (\<forall>i < PGSIZE. frame s2 (page2ppn q) i = slot_of s v i)
    \<and> map_option fst (get_page s2 pd addr) = Some (Some q)
    \<and> (\<forall>a < USERTOP. xlate s2 pd user_slots a =
         (if a div PGSIZE = v div PGSIZE then pte_create (page2ppn q) (fault_perm w) else xlate s pd user_slots a))"
proof -
  have ra: "ROUNDDOWN addr PGSIZE = v"
    using v(1,2) unfolding ROUNDDOWN_def by (metis minus_mod_eq_mult_div mult_div_mod_eq add_0_right)
  have vU: "v < USERTOP" using sw(2) by (simp add: slot_fits_def)
  have la: "PDX1 v \<in> user_slots" by (rule user_slot(1) [OF vU])
  obtain m' where f: "find_vma m addr = (Some w, m')" using mm(1) by (cases "find_vma m addr") simp
  have mp: "pgdir m' = Some pd" "sm_priv m'" using find_vma_pgdir [of m addr] find_vma_rest [of m addr] f mm(2,3) by simp_all
  have st: "vm_start w \<le> addr" using find_vma_holds [OF f] by simp
  note sf = slot_facts [OF sw(2)]
  obtain t where t: "tframe s pd user_slots (Leaf (PDX1 v) (PDX0 v)) = Some t"
    using sw(3) sf(2) by (cases "tframe s pd user_slots (Leaf (PDX1 v) (PDX0 v))") (auto simp: xlate_def)
  have ge: "pte_get s (t, PTX v) = swap_entry v" using sw(3) t by (simp add: xlate_def)
  obtain q s1 where i: "swap_in pd v s = Some (q, s1)" "pt_ok s1 pd user_slots" "q \<in> free_set (pool s)"
    "\<And>b. xlate s1 pd user_slots b = xlate s pd user_slots b" "\<And>x. tframe s1 pd user_slots x \<noteq> Some (q + nbase)"
    "tframe s1 pd user_slots = tframe s pd user_slots"
    "\<And>i. i < PGSIZE \<Longrightarrow> frame s1 (q + nbase) i = slot_of s v i" "swap_init_ok s1 = swap_init_ok s" "q \<notin> free_set (pool s1)"
    by (rule swap_in_one [OF ok sw(2,3,4)]) (rule that; blast)
  have t1: "tframe s1 pd user_slots (Leaf (PDX1 v) (PDX0 v)) = Some t" by (simp add: i(6) t)
  have g1: "get_pte s1 pd v True = Some (Some (t, PTX v), s1)" by (rule get_pte_there [OF i(2) t1])
  have em: "\<not> valid_pte (xlate s1 pd user_slots v)" using i(4) [of v] sw(3) sf(3) by simp
  obtain s2 where s2: "page_insert pd q v (fault_perm w) s1 = Some (Inr (), s2)" "mapped pd user_slots 0 v q (fault_perm w) s1 s2"
    using insert_step [OF g1 grown_refl [OF i(2)] t1 la em, of q "fault_perm w"] by auto
  let ?u = "s2\<lparr>pra_list := pra_list s2 @ [q], pra_vaddr := (pra_vaddr s2)(q := v)\<rparr>"
  have tu: "tframe ?u pd user_slots = tframe s2 pd user_slots" "xlate ?u pd user_slots a = xlate s2 pd user_slots a" for a
  proof -
    show tf: "tframe ?u pd user_slots = tframe s2 pd user_slots"
      by (rule ext, rename_tac x, case_tac x) (simp_all add: tframe.simps tbl_def pte_get_def split: option.split)
    show "xlate ?u pd user_slots a = xlate s2 pd user_slots a" unfolding xlate_def tf by (simp add: pte_get_def split: option.split)
  qed
  have ok2: "pt_ok ?u pd user_slots" using s2(2) unfolding mapped_def pt_ok_def tu by simp
  have x: "xlate ?u pd user_slots a = (if a div PGSIZE = v div PGSIZE then pte_create (page2ppn q) (fault_perm w) else xlate s pd user_slots a)"
    if a: "a < USERTOP" for a
    using s2(2) user_slot(1) [OF a] same_page_iff [OF user_slot(2) [OF a] user_slot(2) [OF vU]] i(4) [of a]
    unfolding mapped_def tu by (simp add: pte_create_V)
  have qn: "q + nbase < npage" by (rule pt_okD(5) [OF ok i(3)])
  note pc = pte_fields [OF page_ppn [OF qn] fault_perm_bits [of w]]
  have p2: "pte2page (pte_create (page2ppn q) (fault_perm w)) = Some q"
    using pc qn by (simp add: pte2page_def pa2page_def page2ppn_def kassert_def)
  have gp: "map_option fst (get_page ?u pd addr) = Some (Some q)"
    using get_page_xlate [OF ok2 user_slot(1) [OF v(3)]] x [OF v(3)] v(2) pc(2) p2 by (simp add: page2ppn_def)
  have nt: "tframe s2 pd user_slots y \<noteq> Some (q + nbase)" for y
  proof
    assume "tframe s2 pd user_slots y = Some (q + nbase)"
    then have "tframe s1 pd user_slots y = Some (q + nbase) \<or> q \<in> free_set (pool s1)" using s2(2) unfolding mapped_def by fastforce
    then show False using i(5,9) by blast
  qed
  have fr: "frame ?u (page2ppn q) i = slot_of s v i" if "i < PGSIZE" for i
    using s2(2) nt i(7) [OF that] unfolding mapped_def page2ppn_def by simp
  have qf: "q \<notin> free_set (pool ?u)" using s2(2) i(9) by (auto simp: mapped_def)
  have "do_pgfault (Some m) addr s = Some (Inr (), Some m', ?u)"
    using f st mp get_pte_there [OF ok t, of True] ge sf(2) sw(1) i(1,8) s2(1)
    by (simp add: do_pgfault_def Let_def ra fifo_map_swappable_def kassert_def)
  then show ?thesis using i(3) qf ok2 gp x fr f by auto
qed

end
