(* ===== verification/Vmm_Areas.thy ===== *)
theory Vmm_Areas
  imports Vmm
begin

text \<open>
  What the areas of an address space promise: lookup with and without the cache, mapping, and the
  checks on user memory.
\<close>

definition mm_ok :: "mm_struct \<Rightarrow> bool" where
  "mm_ok mm \<longleftrightarrow> sorted_wrt (\<lambda>v w. vm_end v \<le> vm_start w) (mmap_list mm)
     \<and> (\<forall>v \<in> set (mmap_list mm). vm_start v < vm_end v) \<and> (\<forall>c. mmap_cache mm = Some c \<longrightarrow> c \<in> set (mmap_list mm))
     \<and> map_count mm = int (length (mmap_list mm))"

lemma areas_disjoint:
  "sorted_wrt (\<lambda>v w. vm_end v \<le> vm_start w) vs \<Longrightarrow> (\<forall>v \<in> set vs. vm_start v < vm_end v) \<Longrightarrow>
     v \<in> set vs \<Longrightarrow> w \<in> set vs \<Longrightarrow> holds v a \<Longrightarrow> holds w a \<Longrightarrow> v = w"
  by (induction vs) (auto simp: holds_def)

lemma find_area:
  assumes "mm_ok mm"
  shows "List.find (\<lambda>v. holds v a) (mmap_list mm) = Some v \<longleftrightarrow> v \<in> set (mmap_list mm) \<and> holds v a"
proof
  assume v: "v \<in> set (mmap_list mm) \<and> holds v a"
  then obtain w where w: "List.find (\<lambda>v. holds v a) (mmap_list mm) = Some w"
    by (cases "List.find (\<lambda>v. holds v a) (mmap_list mm)") (auto simp: find_None_iff)
  then have "w \<in> set (mmap_list mm)" "holds w a" by (auto simp: find_Some_iff)
  then have "w = v" using v assms areas_disjoint by (auto simp: mm_ok_def)
  then show "List.find (\<lambda>v. holds v a) (mmap_list mm) = Some v" using w by simp
qed (auto simp: find_Some_iff)

lemma find_vma_ok:
  assumes "mm_ok mm"
  shows "fst (find_vma mm a) = List.find (\<lambda>v. holds v a) (mmap_list mm)" "mm_ok (snd (find_vma mm a))"
    "mmap_list (snd (find_vma mm a)) = mmap_list mm" "pgdir (snd (find_vma mm a)) = pgdir mm" "sm_priv (snd (find_vma mm a)) = sm_priv mm"
proof -
  show f: "fst (find_vma mm a) = List.find (\<lambda>v. holds v a) (mmap_list mm)"
  proof (cases "mmap_cache mm")
    case (Some c)
    then have "c \<in> set (mmap_list mm)" using assms by (simp add: mm_ok_def)
    then show ?thesis using Some find_area [OF assms, of a c] by (cases "holds c a") (simp_all add: find_vma_def Let_def)
  qed (simp add: find_vma_def Let_def)
  have s: "snd (find_vma mm a) = (case fst (find_vma mm a) of None \<Rightarrow> mm | Some v \<Rightarrow> mm\<lparr>mmap_cache := Some v\<rparr>)"
    by (simp add: find_vma_def Let_def split: option.split)
  show "mm_ok (snd (find_vma mm a))" unfolding s f
    using assms find_area [OF assms, of a] by (auto simp: mm_ok_def split: option.split)
  show "mmap_list (snd (find_vma mm a)) = mmap_list mm" "pgdir (snd (find_vma mm a)) = pgdir mm" "sm_priv (snd (find_vma mm a)) = sm_priv mm"
    unfolding s by (simp_all split: option.split)
qed

section \<open>Mapping\<close>

lemma takeWhile_starts:
  "sorted_wrt (\<lambda>v w. vm_end v \<le> vm_start w) vs \<Longrightarrow> (\<forall>v \<in> set vs. vm_start v < vm_end v) \<Longrightarrow>
     set (takeWhile (\<lambda>v. vm_start v \<le> st) vs) = {v \<in> set vs. vm_start v \<le> st}
     \<and> set (dropWhile (\<lambda>v. vm_start v \<le> st) vs) = {v \<in> set vs. st < vm_start v}"
proof (induction vs)
  case (Cons v vs)
  show ?case
  proof (cases "vm_start v \<le> st")
    case True
    then show ?thesis using Cons by auto
  next
    case False
    have "st < vm_start w" if "w \<in> set vs" for w
    proof -
      have "vm_end v \<le> vm_start w" "vm_start v < vm_end v" using Cons.prems that by simp_all
      then show ?thesis using False by linarith
    qed
    then show ?thesis using False by (auto simp: not_le)
  qed
qed simp

lemma insert_vma_ok:
  assumes ok: "mm_ok mm" and v: "vm_start v < vm_end v" and free: "\<forall>w \<in> set (mmap_list mm). \<not> holds w (vm_start v)"
  shows "insert_vma_struct v mm =
     (if \<exists>w \<in> set (mmap_list mm). vm_start v < vm_start w \<and> vm_start w < vm_end v then None
      else Some (mm\<lparr>mmap_list := takeWhile (\<lambda>w. vm_start w \<le> vm_start v) (mmap_list mm) @ v # dropWhile (\<lambda>w. vm_start w \<le> vm_start v) (mmap_list mm),
        map_count := map_count mm + 1\<rparr>))"
proof -
  let ?vs = "mmap_list mm"
  let ?b = "takeWhile (\<lambda>w. vm_start w \<le> vm_start v) ?vs" and ?a = "dropWhile (\<lambda>w. vm_start w \<le> vm_start v) ?vs"
  have s: "sorted_wrt (\<lambda>v w. vm_end v \<le> vm_start w) ?vs" "\<forall>v \<in> set ?vs. vm_start v < vm_end v" using ok by (simp_all add: mm_ok_def)
  note sets = takeWhile_starts [OF s, of "vm_start v"]
  have b: "vm_end w \<le> vm_start v" if "w \<in> set ?b" for w
    using that sets free by (auto simp: holds_def not_less)
  have 1: "(if ?b \<noteq> [] then check_vma_overlap (last ?b) v else Some ()) = Some ()"
    using b [of "last ?b"] s(2) sets v last_in_set [of ?b] by (auto simp: check_vma_overlap_def kassert_def)
  have srt: "sorted_wrt (\<lambda>v w. vm_end v \<le> vm_start w) ?a" using s(1) by (metis sorted_wrt_append takeWhile_dropWhile_id)
  have 2: "(if ?a \<noteq> [] then check_vma_overlap v (hd ?a) else Some ()) =
     (if \<exists>w \<in> set ?vs. vm_start v < vm_start w \<and> vm_start w < vm_end v then None else Some ())"
  proof (cases ?a)
    case Nil
    then show ?thesis using sets by auto
  next
    case (Cons x xs)
    have x: "x \<in> set ?vs" "vm_start v < vm_start x" using sets Cons by auto
    have least: "vm_start x \<le> vm_start w" if "w \<in> set ?a" for w
      using that srt s(2) x(1) unfolding Cons by force
    have "(\<exists>w \<in> set ?vs. vm_start v < vm_start w \<and> vm_start w < vm_end v) \<longleftrightarrow> vm_start x < vm_end v"
      using x least sets by (auto intro: le_less_trans)
    then show ?thesis using Cons v s(2) x(1) by (auto simp: check_vma_overlap_def kassert_def)
  qed
  show ?thesis
    unfolding insert_vma_struct_def Let_def 1 2 using v by (simp add: kassert_def)
qed

lemma insert_keeps_ok:
  assumes ok: "mm_ok mm" and v: "vm_start v < vm_end v"
    and free: "\<forall>w \<in> set (mmap_list mm). \<not> holds w (vm_start v) \<and> \<not> (vm_start v < vm_start w \<and> vm_start w < vm_end v)"
    and i: "insert_vma_struct v mm = Some mm'"
  shows "mm_ok mm' \<and> set (mmap_list mm') = insert v (set (mmap_list mm)) \<and> pgdir mm' = pgdir mm \<and> sm_priv mm' = sm_priv mm
     \<and> mmap_cache mm' = mmap_cache mm \<and> mm_count mm' = mm_count mm"
proof -
  let ?vs = "mmap_list mm"
  let ?b = "takeWhile (\<lambda>w. vm_start w \<le> vm_start v) ?vs" and ?a = "dropWhile (\<lambda>w. vm_start w \<le> vm_start v) ?vs"
  have s: "sorted_wrt (\<lambda>v w. vm_end v \<le> vm_start w) ?vs" "\<forall>v \<in> set ?vs. vm_start v < vm_end v" using ok by (simp_all add: mm_ok_def)
  note sets = takeWhile_starts [OF s, of "vm_start v"]
  have m': "mm' = mm\<lparr>mmap_list := ?b @ v # ?a, map_count := map_count mm + 1\<rparr>"
    using i insert_vma_ok [OF ok v] free by (auto split: if_splits)
  have "sorted_wrt (\<lambda>v w. vm_end v \<le> vm_start w) (?b @ ?a)" using s(1) by (simp only: takeWhile_dropWhile_id)
  then have "sorted_wrt (\<lambda>v w. vm_end v \<le> vm_start w) ?b" "sorted_wrt (\<lambda>v w. vm_end v \<le> vm_start w) ?a"
    "\<forall>x \<in> set ?b. \<forall>y \<in> set ?a. vm_end x \<le> vm_start y" unfolding sorted_wrt_append by blast+
  moreover have "\<forall>w \<in> set ?b. vm_end w \<le> vm_start v" "\<forall>w \<in> set ?a. vm_end v \<le> vm_start w"
    using sets free by (auto simp: holds_def not_less)
  ultimately have "sorted_wrt (\<lambda>v w. vm_end v \<le> vm_start w) (?b @ v # ?a)" by (simp add: sorted_wrt_append)
  moreover have "set (?b @ v # ?a) = insert v (set ?vs)" using sets by auto
  moreover have "length (?b @ v # ?a) = Suc (length ?vs)" using takeWhile_dropWhile_id [of _ ?vs] by (metis length_append length_Cons add_Suc_right)
  ultimately show ?thesis using ok v unfolding m' by (auto simp: mm_ok_def)
qed

section \<open>User memory\<close>

text \<open>An address that may be read or written.\<close>

definition may_access :: "mm_struct \<Rightarrow> nat \<Rightarrow> bool \<Rightarrow> bool" where
  "may_access mm a wr \<longleftrightarrow> (\<exists>v \<in> set (mmap_list mm). holds v a \<and> vm_flags v AND (if wr then VM_WRITE else VM_READ) \<noteq> 0
     \<and> (wr \<and> vm_flags v AND VM_STACK \<noteq> 0 \<longrightarrow> vm_start v + PGSIZE \<le> a))"

lemma check_loop_ok:
  "mm_ok mm \<Longrightarrow> (fst (check_loop mm st en wr) \<longleftrightarrow> (\<forall>a. st \<le> a \<and> a < en \<longrightarrow> may_access mm a wr))
     \<and> mm_ok (snd (check_loop mm st en wr)) \<and> mmap_list (snd (check_loop mm st en wr)) = mmap_list mm"
proof (induction mm st en wr rule: check_loop.induct)
  case (1 mm st en wr)
  note ok = 1(2)
  obtain r mm1 where f: "find_vma mm st = (r, mm1)" by (metis surj_pair)
  have mm1: "r = List.find (\<lambda>v. holds v st) (mmap_list mm)" "mm_ok mm1" "mmap_list mm1 = mmap_list mm"
    using find_vma_ok [OF ok, of st] f by simp_all
  have acc: "may_access mm1 = may_access mm" by (intro ext) (simp add: may_access_def mm1(3))
  show ?case
  proof (cases "st < en")
    case False
    then show ?thesis using ok by (subst (1 2 3) check_loop.simps) auto
  next
    case st: True
    show ?thesis
    proof (cases r)
      case None
      then have "\<not> may_access mm st wr" using mm1(1) by (auto simp: may_access_def find_None_iff)
      then show ?thesis using st f None mm1 by (subst (1 2 3) check_loop.simps) auto
    next
      case (Some v)
      have v: "v \<in> set (mmap_list mm)" "holds v st" using Some mm1(1) find_area [OF ok, of st v] by auto
      have uniq: "w = v" if "w \<in> set (mmap_list mm)" "holds w st" for w
        using find_area [OF ok, of st w] that Some mm1(1) by simp
      have hv: "vm_start v \<le> st" "st < vm_end v" using v(2) by (auto simp: holds_def)
      let ?bad = "vm_flags v AND (if wr then VM_WRITE else VM_READ) = 0 \<or> (wr \<and> vm_flags v AND VM_STACK \<noteq> 0 \<and> st < vm_start v + PGSIZE)"
      show ?thesis
      proof (cases ?bad)
        case True
        then have "\<not> may_access mm st wr" using uniq by (auto simp: may_access_def)
        then show ?thesis using st f Some mm1 True hv by (subst (1 2 3) check_loop.simps) auto
      next
        case False
        have rec: "check_loop mm st en wr = check_loop mm1 (vm_end v) en wr"
          using st f Some False hv by (subst check_loop.simps) auto
        have ih: "(fst (check_loop mm1 (vm_end v) en wr) \<longleftrightarrow> (\<forall>a. vm_end v \<le> a \<and> a < en \<longrightarrow> may_access mm1 a wr))
          \<and> mm_ok (snd (check_loop mm1 (vm_end v) en wr)) \<and> mmap_list (snd (check_loop mm1 (vm_end v) en wr)) = mmap_list mm1"
          using 1(1) [OF st f [symmetric] Some _ _ _ mm1(2)] False hv by auto
        have "may_access mm a wr" if "st \<le> a" "a < vm_end v" for a
        proof -
          have "holds v a" using that hv(1) by (simp add: holds_def)
          then show ?thesis unfolding may_access_def using v(1) False that(1) by (intro bexI [of _ v]) auto
        qed
        then have "(\<forall>a. st \<le> a \<and> a < en \<longrightarrow> may_access mm a wr) \<longleftrightarrow> (\<forall>a. vm_end v \<le> a \<and> a < en \<longrightarrow> may_access mm a wr)"
          using hv(2) by (meson le_less_trans less_imp_le not_le)
        then show ?thesis unfolding rec using ih mm1(3) acc by simp
      qed
    qed
  qed
qed

text \<open>Refinement of the look-up by its cache: \<open>find_vma\<close> delivers, whatever the cache holds, the one area an
  address lies in, and says so in the cache.\<close>

lemma find_vma_correct:
  assumes "mm_ok mm"
  shows "\<exists>mm'. find_vma mm a = (List.find (\<lambda>v. holds v a) (mmap_list mm), mm') \<and> mm_ok mm'
     \<and> mmap_list mm' = mmap_list mm
     \<and> (\<forall>v. List.find (\<lambda>v. holds v a) (mmap_list mm) = Some v \<longleftrightarrow> v \<in> set (mmap_list mm) \<and> holds v a)"
  using find_vma_ok [OF assms, of a] find_area [OF assms, of a] by (metis prod.collapse)

lemma user_mem_ok:
  assumes ok: "mm_ok mm" and len: "addr + len < 2 ^ 64"
  shows "\<exists>mm'. user_mem_check (Some mm) addr len wr =
       (0 < len \<and> USERBASE \<le> addr \<and> addr + len \<le> USERTOP \<and> (\<forall>a. addr \<le> a \<and> a < addr + len \<longrightarrow> may_access mm a wr), Some mm')
     \<and> mm_ok mm' \<and> mmap_list mm' = mmap_list mm"
proof (cases "USER_ACCESS addr (addr + len)")
  case True
  obtain b m' where c: "check_loop mm addr (addr + len) wr = (b, m')" by (metis surj_pair)
  then show ?thesis
    using check_loop_ok [OF ok, of addr "addr + len" wr] True len
    by (auto simp: user_mem_check_def Let_def USER_ACCESS_def)
qed (use ok len in \<open>auto simp: user_mem_check_def Let_def USER_ACCESS_def\<close>)

text \<open>C33. What \<open>user_mem_check\<close> lets through: exactly the nonempty ranges of user addresses whose every
  byte lies in an area of the right kind, the guard page of a stack excepted; the areas stay.\<close>

theorem user_mem_check_correct:
  assumes "mm_ok mm" "addr + len < 2 ^ 64"
  shows "\<exists>mm'. user_mem_check (Some mm) addr len wr =
       (0 < len \<and> USERBASE \<le> addr \<and> addr + len \<le> USERTOP \<and> (\<forall>a. addr \<le> a \<and> a < addr + len \<longrightarrow> may_access mm a wr), Some mm')
     \<and> mm_ok mm' \<and> mmap_list mm' = mmap_list mm"
  using assms by (rule user_mem_ok)

section \<open>Mapping an area\<close>

text \<open>
  C34. Every outcome of \<open>mm_map\<close>: it refuses addresses that are not the user's and a first page that is
  taken; with a free first page it adds the area and keeps the address space in order, unless a later
  area begins inside it, which stops the kernel.
\<close>

theorem mm_map_correct:
  fixes addr len :: nat
  assumes ok: "mm_ok mm"
  defines "st \<equiv> ROUNDDOWN addr PGSIZE" and "en \<equiv> ROUNDUP ((addr + len) mod 2 ^ 64) PGSIZE"
  shows "if \<not> USER_ACCESS st en then mm_map mem mm addr len fl = Some (Inl E_INVAL, mm)
     else if \<exists>v \<in> set (mmap_list mm). holds v st then
       (\<exists>mm'. mm_map mem mm addr len fl = Some (Inl E_INVAL, mm') \<and> mm_ok mm' \<and> mmap_list mm' = mmap_list mm)
     else if \<not> mem then mm_map mem mm addr len fl = Some (Inl E_NO_MEM, mm)
     else if \<exists>v \<in> set (mmap_list mm). st < vm_start v \<and> vm_start v < en then mm_map mem mm addr len fl = None
     else (\<exists>v mm'. v = \<lparr>vm_start = st, vm_end = en, vm_flags = fl\<rparr> \<and> mm_map mem mm addr len fl = Some (Inr v, mm')
       \<and> mm_ok mm' \<and> set (mmap_list mm') = insert v (set (mmap_list mm)))"
proof -
  obtain r mm1 where f: "find_vma mm st = (r, mm1)" by (metis surj_pair)
  have m1: "r = List.find (\<lambda>v. holds v st) (mmap_list mm)" "mm_ok mm1" "mmap_list mm1 = mmap_list mm"
    using find_vma_ok [OF ok, of st] f by simp_all
  have m: "mm_map mem mm addr len fl =
     (if \<not> USER_ACCESS st en then Some (Inl E_INVAL, mm)
      else if (case r of None \<Rightarrow> False | Some v \<Rightarrow> en > vm_start v) then Some (Inl E_INVAL, mm1)
      else if \<not> mem then Some (Inl E_NO_MEM, mm1)
      else do { mm \<leftarrow> insert_vma_struct \<lparr>vm_start = st, vm_end = en, vm_flags = fl\<rparr> mm1;
                Some (Inr \<lparr>vm_start = st, vm_end = en, vm_flags = fl\<rparr>, mm) })"
    unfolding mm_map_def Let_def st_def [symmetric] en_def [symmetric] f by (simp add: vma_create_def)
  show ?thesis
  proof (cases "USER_ACCESS st en")
    case user: True
    then have se: "st < en" by (simp add: USER_ACCESS_def)
    show ?thesis
    proof (cases r)
      case (Some v)
      then have "v \<in> set (mmap_list mm)" "holds v st" using find_area [OF ok, of st v] m1(1) by auto
      moreover from this have "vm_start v < en" using se by (simp add: holds_def)
      ultimately show ?thesis using user Some m1 m by auto
    next
      case None
      then have free: "\<forall>w \<in> set (mmap_list mm1). \<not> holds w st" using m1(1,3) by (auto simp: find_None_iff)
      have same: "mm1 = mm" using f None by (simp add: find_vma_def Let_def split: option.splits)
      let ?v = "\<lparr>vm_start = st, vm_end = en, vm_flags = fl\<rparr>"
      note ins = insert_vma_ok [OF ok, of ?v] insert_keeps_ok [OF ok, of ?v]
      show ?thesis
      proof (cases "\<exists>v \<in> set (mmap_list mm). st < vm_start v \<and> vm_start v < en")
        case True
        then show ?thesis using user None free m ins(1) se unfolding same by auto
      next
        case False
        then obtain mm' where i: "insert_vma_struct ?v mm = Some mm'" using ins(1) se free unfolding same by auto
        have "mm_ok mm' \<and> set (mmap_list mm') = insert ?v (set (mmap_list mm))"
          using ins(2) [OF _ _ i] se free False unfolding same by auto
        then show ?thesis using user None free m i False unfolding same by auto
      qed
    qed
  qed (use m in simp)
qed

end
