(* ===== verification/Vmm_String.thy ===== *)
theory Vmm_String
  imports Vmm_Areas
begin

text \<open>
  What \<open>copy_string\<close> copies and when: a string of user memory is read page by page, each page only
  after it has been checked.
\<close>

definition ends_at :: "mem \<Rightarrow> nat \<Rightarrow> nat \<Rightarrow> bool" where
  "ends_at um src n \<longleftrightarrow> um (src + n) = 0 \<and> (\<forall>i < n. um (src + i) \<noteq> 0)"

definition page_end :: "nat \<Rightarrow> nat" where
  "page_end a = (a div PGSIZE + 1) * PGSIZE"

lemma ends_at_uniq: "ends_at um src n \<Longrightarrow> ends_at um src k \<Longrightarrow> n = k"
  unfolding ends_at_def by (metis linorder_neqE_nat)

lemma ends_at_shift:
  assumes "\<forall>i < p. um (src + i) \<noteq> 0"
  shows "ends_at um (src + p) n \<longleftrightarrow> ends_at um src (p + n)"
proof -
  have "(\<forall>i < n. um (src + p + i) \<noteq> 0) \<longleftrightarrow> (\<forall>i < p + n. um (src + i) \<noteq> 0)"
  proof (intro iffI allI impI)
    fix i assume a: "\<forall>i < n. um (src + p + i) \<noteq> 0" and i: "i < p + n"
    show "um (src + i) \<noteq> 0" using assms a [rule_format, of "i - p"] i by (cases "i < p") auto
  qed (simp add: add.assoc)
  then show ?thesis by (simp add: ends_at_def add.assoc)
qed

lemma shift_ex: "(\<And>n :: nat. P n \<Longrightarrow> p \<le> n) \<Longrightarrow> (\<exists>n < m - p. P (p + n)) \<longleftrightarrow> (\<exists>n < m. P n)"
  by (metis add_diff_inverse_nat less_diff_conv2 less_diff_conv add.commute not_less)

lemma strnlen_loop_stops:
  "cnt \<le> len \<Longrightarrow> \<forall>i < cnt. m (t + i) \<noteq> 0 \<Longrightarrow> s = t + cnt \<Longrightarrow>
     strnlen_loop m s len cnt \<le> len \<and> (\<forall>i < strnlen_loop m s len cnt. m (t + i) \<noteq> 0)
     \<and> (strnlen_loop m s len cnt < len \<longrightarrow> m (t + strnlen_loop m s len cnt) = 0)"
proof (induction m s len cnt rule: strnlen_loop.induct)
  case (1 m s len cnt)
  show ?case
  proof (cases "cnt < len \<and> m s \<noteq> 0")
    case True
    then have e: "strnlen_loop m s len cnt = strnlen_loop m (s + 1) len (cnt + 1)" by (subst strnlen_loop.simps) simp
    have "\<forall>i < cnt + 1. m (t + i) \<noteq> 0" using 1(3,4) True by (auto simp: less_Suc_eq)
    then show ?thesis unfolding e using 1(1) True 1(4) by simp
  next
    case False
    then have e: "strnlen_loop m s len cnt = cnt" by (subst strnlen_loop.simps) auto
    show ?thesis unfolding e using 1(2,3,4) False by auto
  qed
qed

lemma strnlen_stops:
  "strnlen m s len \<le> len" "i < strnlen m s len \<Longrightarrow> m (s + i) \<noteq> 0"
  "strnlen m s len < len \<Longrightarrow> ends_at m s (strnlen m s len)"
  using strnlen_loop_stops [of 0 len m s s] by (simp_all add: strnlen_def ends_at_def)

lemma blit_blit: "blit (blit dst d src s p) (d + p) src (s + p) q = blit dst d src s (p + q)"
  by (rule ext) (auto simp: blit_def)

lemma page_end_next: "ROUNDDOWN (a + PGSIZE) PGSIZE = page_end a"
proof -
  have "a mod 4096 \<le> a" "a - a mod 4096 = a div 4096 * 4096" by (simp_all add: minus_mod_eq_div_mult)
  then show ?thesis by (simp add: ROUNDDOWN_def page_end_def PGSIZE_def)
qed

lemma page_end_facts:
  "a < page_end a" "a \<le> b \<Longrightarrow> page_end a \<le> page_end b" "page_end (page_end a) = page_end a + PGSIZE"
  by (simp_all add: page_end_def PGSIZE_def div_le_mono)

lemma page_end_same: "b < page_end a \<Longrightarrow> a \<le> b \<Longrightarrow> page_end b = page_end a"
proof -
  assume b: "b < page_end a" "a \<le> b"
  have "b div PGSIZE < a div PGSIZE + 1" using b(1) unfolding page_end_def by (rule less_mult_imp_div_less)
  moreover have "a div PGSIZE \<le> b div PGSIZE" using b(2) by (rule div_le_mono)
  ultimately show ?thesis by (simp add: page_end_def)
qed

definition may_copy :: "mm_struct \<Rightarrow> nat \<Rightarrow> nat \<Rightarrow> nat \<Rightarrow> bool" where
  "may_copy mm src maxn n \<longleftrightarrow> USERBASE \<le> src \<and> min (src + maxn) (page_end (src + n)) \<le> USERTOP
     \<and> (\<forall>a. src \<le> a \<and> a < min (src + maxn) (page_end (src + n)) \<longrightarrow> may_access mm a False)"

lemma may_copy_next:
  assumes "\<forall>a. src \<le> a \<and> a < src + p \<longrightarrow> may_access mm a False" "USERBASE \<le> src" "p \<le> maxn"
  shows "may_copy mm (src + p) (maxn - p) n \<longleftrightarrow> may_copy mm src maxn (p + n)"
proof -
  have e: "src + p + (maxn - p) = src + maxn" "src + p + n = src + (p + n)" using assms(3) by simp_all
  show ?thesis unfolding may_copy_def e using assms(1,2) by (meson le_add1 le_trans not_le)
qed

lemma string_loop_ok:
  assumes "mm_ok mm" "src + maxn < 2 ^ 64" "part0 = page_end src - src"
  shows "\<exists>mm' dst'. string_loop (Some mm) dst d um src maxn part0 = (\<exists>n < maxn. ends_at um src n \<and> may_copy mm src maxn n, dst', Some mm')
     \<and> mm_ok mm' \<and> mmap_list mm' = mmap_list mm
     \<and> (\<forall>n < maxn. ends_at um src n \<and> may_copy mm src maxn n \<longrightarrow> dst' = blit dst d um src (n + 1))"
  using assms
proof (induction maxn arbitrary: mm dst d src part0 rule: less_induct)
  case (less maxn)
  define part where "part = min part0 maxn"
  have part0: "0 < part0" "src + part0 = page_end src" using less.prems(3) page_end_facts(1) [of src] by simp_all
  have part_if: "(if part0 > maxn then maxn else part0) = part" by (simp add: part_def)
  have le: "part \<le> maxn" "src + part < 2 ^ 64" using less.prems(2) by (simp_all add: part_def)
  let ?chk = "0 < part \<and> USERBASE \<le> src \<and> src + part \<le> USERTOP \<and> (\<forall>a. src \<le> a \<and> a < src + part \<longrightarrow> may_access mm a False)"
  obtain m1 where m1: "user_mem_check (Some mm) src part False = (?chk, Some m1)" "mm_ok m1" "mmap_list m1 = mmap_list mm"
    using user_mem_ok [OF less.prems(1) le(2), of False] by blast
  have acc: "may_access m1 = may_access mm" by (intro ext) (simp add: may_access_def m1(3))
  have cpy: "may_copy m1 = may_copy mm" by (intro ext) (simp add: may_copy_def acc)
  define alen where "alen = strnlen um src part"
  note step = string_loop.simps [of "Some mm" dst d um src maxn part0, unfolded part_if Let_def m1(1) prod.case, folded alen_def]
  have stop: "src + part \<le> min (src + maxn) (page_end (src + n))" for n
    using page_end_facts(2) [of src "src + n"] part0(2) by (auto simp: part_def)
  show ?case
  proof (cases ?chk)
    case False
    have "\<not> (n < maxn \<and> may_copy mm src maxn n)" for n
    proof
      assume n: "n < maxn \<and> may_copy mm src maxn n"
      then have "0 < part" using part0 by (auto simp: part_def)
      with n False stop [of n] show False unfolding may_copy_def by (meson le_trans less_le_trans)
    qed
    then show ?thesis using step m1(2,3) False by auto
  next
    case chk: True
    show ?thesis
    proof (cases "alen < part")
      case True
      then have n: "alen < maxn" "ends_at um src alen" using le(1) strnlen_stops(3) by (simp_all add: alen_def)
      have "src + alen < page_end src" using True part0(2) by (simp add: part_def)
      then have "page_end (src + alen) = src + part0" using page_end_same [of "src + alen" src] part0(2) by simp
      then have "min (src + maxn) (page_end (src + alen)) = src + part" by (auto simp: part_def)
      then have ok: "may_copy mm src maxn alen" using chk by (simp add: may_copy_def)
      have "string_loop (Some mm) dst d um src maxn part0 = (True, blit dst d um src (alen + 1), Some m1)"
        using step chk True by simp
      moreover have "\<forall>n < maxn. ends_at um src n \<and> may_copy mm src maxn n \<longrightarrow> n = alen" using ends_at_uniq n(2) by blast
      moreover have "\<exists>n < maxn. ends_at um src n \<and> may_copy mm src maxn n" using n ok by blast
      ultimately show ?thesis using m1(2,3) by (intro exI [of _ m1] exI [of _ "blit dst d um src (alen + 1)"]) simp
    next
      case False
      then have nz: "um (src + i) \<noteq> 0" if "i < part" for i
        using that False strnlen_stops(2) [of i um src part] unfolding alen_def by linarith
      then have later: "part \<le> n" if "ends_at um src n" for n using that by (meson ends_at_def not_le)
      show ?thesis
      proof (cases "part = maxn")
        case True
        then have "\<not> (n < maxn \<and> ends_at um src n)" for n using later [of n] by auto
        then show ?thesis using step chk False True m1(2,3) by auto
      next
        case more: False
        then have p: "part = part0" "part < maxn" by (auto simp: part_def)
        have "src + part = page_end src" using p part0(2) by simp
        then have pg: "PGSIZE = page_end (src + part) - (src + part)" by (simp add: page_end_facts(3))
        have lt: "maxn - part < maxn" and bnd: "src + part + (maxn - part) < 2 ^ 64" using chk less.prems(2) p(2) by simp_all
        obtain mm' dst' where r:
          "string_loop (Some m1) (blit dst d um src part) (d + part) um (src + part) (maxn - part) PGSIZE
             = (\<exists>n < maxn - part. ends_at um (src + part) n \<and> may_copy m1 (src + part) (maxn - part) n, dst', Some mm')"
          "mm_ok mm'" "mmap_list mm' = mmap_list m1"
          "\<forall>n < maxn - part. ends_at um (src + part) n \<and> may_copy m1 (src + part) (maxn - part) n \<longrightarrow>
             dst' = blit (blit dst d um src part) (d + part) um (src + part) (n + 1)"
          using less.IH [OF lt m1(2) bnd pg, of "blit dst d um src part" "d + part"]
          by (elim exE conjE) (rule that, assumption+)
        have ends: "ends_at um (src + part) n \<longleftrightarrow> ends_at um src (part + n)" for n
          using ends_at_shift nz by blast
        have copy: "may_copy m1 (src + part) (maxn - part) n \<longleftrightarrow> may_copy mm src maxn (part + n)" for n
          unfolding cpy using may_copy_next chk le(1) by blast
        have shift: "(\<exists>n < maxn - part. ends_at um src (part + n) \<and> may_copy mm src maxn (part + n)) \<longleftrightarrow>
            (\<exists>n < maxn. ends_at um src n \<and> may_copy mm src maxn n)"
          using shift_ex [of "\<lambda>n. ends_at um src n \<and> may_copy mm src maxn n" part maxn] later by blast
        have dst': "dst' = blit dst d um src (n + 1)" if "n < maxn" "ends_at um src n" "may_copy mm src maxn n" for n
        proof -
          have n: "part + (n - part) = n" "n - part < maxn - part" using later that p(2) by simp_all
          then have "dst' = blit (blit dst d um src part) (d + part) um (src + part) (n - part + 1)"
            using r(4) that unfolding ends copy by simp
          then show ?thesis unfolding blit_blit using n(1) by (metis add.assoc)
        qed
        have "string_loop (Some mm) dst d um src maxn part0 =
            string_loop (Some m1) (blit dst d um src part) (d + part) um (src + part) (maxn - part) PGSIZE"
          using step chk False more by simp
        then show ?thesis using r(1,2,3) dst' m1(3) unfolding ends copy shift by auto
      qed
    qed
  qed
qed

text \<open>
  C35. \<open>copy_string\<close> succeeds exactly when the string ends within \<open>maxn\<close> bytes and every page it touches, as
  far as \<open>maxn\<close> reaches, may be read, and then it has copied the string with its terminator and nothing else.
\<close>

theorem copy_string_correct:
  assumes "mm_ok mm" "src + maxn < 2 ^ 64" "src + PGSIZE < 2 ^ 64"
  shows "\<exists>mm' dst'. copy_string (Some mm) dst d um src maxn = (\<exists>n < maxn. ends_at um src n \<and> may_copy mm src maxn n, dst', Some mm')
     \<and> mm_ok mm' \<and> mmap_list mm' = mmap_list mm
     \<and> (\<forall>n < maxn. ends_at um src n \<and> may_copy mm src maxn n \<longrightarrow> dst' = blit dst d um src (n + 1))"
  unfolding copy_string_def using string_loop_ok [OF assms(1,2) refl] assms(3) by (simp add: page_end_next)


section \<open>Examples\<close>

text \<open>Two areas, one for data and one read-only, and memory with the string \<open>hi\<close> at the start of the first.\<close>

definition ex_data :: vma_struct where "ex_data = \<lparr>vm_start = 0x400000, vm_end = 0x402000, vm_flags = 3\<rparr>"
definition ex_text :: vma_struct where "ex_text = \<lparr>vm_start = 0x500000, vm_end = 0x501000, vm_flags = 1\<rparr>"

definition ex_mm :: mm_struct where
  "ex_mm = \<lparr>mmap_list = [ex_data, ex_text], mmap_cache = Some ex_text, pgdir = None, map_count = 2, sm_priv = False, mm_count = 1\<rparr>"

lemma ex_mm: "mm_ok ex_mm" "mmap_list ex_mm = [ex_data, ex_text]"
  by (simp_all add: mm_ok_def ex_mm_def ex_data_def ex_text_def)

lemma ex_access: "0x400000 \<le> a \<Longrightarrow> a < 0x402000 \<Longrightarrow> may_access ex_mm a wr"
  by (simp add: may_access_def ex_mm(2) holds_def ex_data_def VM_READ_def VM_WRITE_def VM_STACK_def)

theorem find_vma_correct_witness: "fst (find_vma ex_mm 0x401000) = Some ex_data"
  using find_vma_correct [OF ex_mm(1), of "0x401000"] by (auto simp: ex_mm(2) holds_def ex_data_def)

theorem user_mem_check_correct_witness:
  "fst (user_mem_check (Some ex_mm) 0x400010 16 True) \<and> \<not> fst (user_mem_check (Some ex_mm) 0x500000 16 True)"
proof (intro conjI)
  show "fst (user_mem_check (Some ex_mm) 0x400010 16 True)"
    using user_mem_check_correct [OF ex_mm(1), of "0x400010" 16 True] ex_access
    by (auto simp: USERBASE_def USERTOP_def)
  have "\<not> may_access ex_mm 0x500000 True"
    by (simp add: may_access_def ex_mm(2) holds_def ex_data_def ex_text_def VM_WRITE_def)
  then show "\<not> fst (user_mem_check (Some ex_mm) 0x500000 16 True)"
    using user_mem_check_correct [OF ex_mm(1), of "0x500000" 16 True]
    by (auto intro!: exI [of _ "0x500000"])
qed

theorem mm_map_correct_witness:
  "(\<exists>v mm'. mm_map True ex_mm 0x600010 4096 1 = Some (Inr v, mm') \<and> vm_start v = 0x600000 \<and> vm_end v = 0x602000 \<and> mm_ok mm')
     \<and> mm_map True ex_mm 0x3ff000 0x2000 1 = None"
proof (intro conjI)
  have r: "ROUNDDOWN 0x600010 PGSIZE = 0x600000" "ROUNDUP ((0x600010 + 4096) mod 2 ^ 64) PGSIZE = 0x602000"
    "ROUNDDOWN 0x3ff000 PGSIZE = 0x3ff000" "ROUNDUP ((0x3ff000 + 0x2000) mod 2 ^ 64) PGSIZE = 0x401000"
    by (simp_all add: ROUNDDOWN_def ROUNDUP_def PGSIZE_def)
  have u: "USER_ACCESS 0x600000 0x602000" "USER_ACCESS 0x3ff000 0x401000" by (simp_all add: USER_ACCESS_def USERBASE_def USERTOP_def)
  show "\<exists>v mm'. mm_map True ex_mm 0x600010 4096 1 = Some (Inr v, mm') \<and> vm_start v = 0x600000 \<and> vm_end v = 0x602000 \<and> mm_ok mm'"
    using mm_map_correct [OF ex_mm(1), of "0x600010" 4096 True 1] unfolding r
    by (auto simp: u ex_mm(2) holds_def ex_data_def ex_text_def)
  show "mm_map True ex_mm 0x3ff000 0x2000 1 = None"
    using mm_map_correct [OF ex_mm(1), of "0x3ff000" "0x2000" True 1] unfolding r
    by (simp add: u ex_mm(2) holds_def ex_data_def ex_text_def)
qed

definition ex_user :: mem where "ex_user = (\<lambda>_. 0)(0x400000 := 104, 0x400001 := 105)"

theorem copy_string_correct_witness:
  "\<exists>mm' dst'. copy_string (Some ex_mm) (\<lambda>_. 0) 0 ex_user 0x400000 100 = (True, dst', Some mm') \<and> dst' 0 = 104 \<and> dst' 1 = 105 \<and> dst' 2 = 0"
proof -
  have e: "ends_at ex_user 0x400000 2" by (auto simp: ends_at_def ex_user_def less_2_cases_iff)
  have "may_copy ex_mm 0x400000 100 2"
    using ex_access by (auto simp: may_copy_def page_end_def PGSIZE_def USERBASE_def USERTOP_def)
  with e have c: "\<exists>n < 100. ends_at ex_user 0x400000 n \<and> may_copy ex_mm 0x400000 100 n" by (intro exI [of _ 2]) simp
  obtain mm' dst' where r: "copy_string (Some ex_mm) (\<lambda>_. 0) 0 ex_user 0x400000 100
       = (\<exists>n < 100. ends_at ex_user 0x400000 n \<and> may_copy ex_mm 0x400000 100 n, dst', Some mm')"
    "\<forall>n < 100. ends_at ex_user 0x400000 n \<and> may_copy ex_mm 0x400000 100 n \<longrightarrow> dst' = blit (\<lambda>_. 0) 0 ex_user 0x400000 (n + 1)"
    using copy_string_correct [OF ex_mm(1), of "0x400000" 100 "\<lambda>_. 0" 0 ex_user] by (auto simp: PGSIZE_def)
  have "dst' = blit (\<lambda>_. 0) 0 ex_user 0x400000 3"
    using r(2) e \<open>may_copy ex_mm 0x400000 100 2\<close> by (auto dest!: spec [of _ 2])
  then show ?thesis using r(1) c by (auto simp: blit_def ex_user_def)
qed

end
