(* ===== verification/Fault_Props.thy ===== *)
theory Fault_Props
  imports Page_Fault Vmm_String
begin

text \<open>
  Properties of page faults and swapping: the first touch of a page, the fault on a page that is
  there, and the way of a page to the disk and back.
\<close>

section \<open>An address space for the examples\<close>

text \<open>
  Page directory in page 20, its tables in pages 21 and 22, page 23 mapped at \<open>0x400000\<close>; pages 100
  to 109 are free.
\<close>

definition ex_pages10 :: pmm where
  "ex_pages10 = \<lparr>pages = (\<lambda>i. if i = 100 then \<lparr>ref = 0, flags = 2, property = 10\<rparr> else \<lparr>ref = 0, flags = 0, property = 0\<rparr>),
     flinks = \<lparr>prv = (\<lambda>x. if x = FreeList then PageLink 100 else FreeList),
               nxt = (\<lambda>x. if x = FreeList then PageLink 100 else FreeList)\<rparr>,
     nr_free = 10\<rparr>"

lemma ex_pages10: "pmm_inv ex_pages10" "free_set ex_pages10 = {100 ..< 110}" "nr_free ex_pages10 = 10" "\<not> PageReserved (pages ex_pages10 p)"
proof -
  have ok: "pmm_ok [100] ex_pages10"
    by (auto simp: pmm_ok_def ex_pages10_def dlist_def separated_Cons page_flag_defs bit_simps)
  then show "pmm_inv ex_pages10" "free_set ex_pages10 = {100 ..< 110}" by (auto simp: pmm_inv_def free_set_ok block_def ex_pages10_def)
qed (auto simp: ex_pages10_def page_flag_defs bit_simps)

definition ex_pte :: "nat \<Rightarrow> 64 word \<Rightarrow> 64 word" where "ex_pte p perm = pte_create (p + nbase) perm"

definition ex_vm :: phys where
  "ex_vm = pte_set (22 + nbase, 0) (ex_pte 23 (PTE_U OR READ_WRITE))
     (pte_set (21 + nbase, 2) (ex_pte 22 (PTE_U OR PTE_V))
       (pte_set (20 + nbase, 0) (ex_pte 21 (PTE_U OR PTE_V))
         \<lparr>pool = ex_pages10, frame = (\<lambda>_ _. 0), swap_dev = \<lparr>valid = True, secs = 0x10000, store = (\<lambda>_. 0)\<rparr>,
          swap_init_ok = True, pra_list = [23], pra_vaddr = (\<lambda>_. 0x400000)\<rparr>))"

definition ex_as :: mm_struct where
  "ex_as = ex_mm\<lparr>pgdir := Some (20 + nbase), sm_priv := True\<rparr>"

lemma ex_pte:
  assumes "p < 100" "perm \<in> {PTE_U OR PTE_V, PTE_U OR READ_WRITE}"
  shows "PPN (PTE_ADDR (ex_pte p perm)) = p + nbase" "valid_pte (ex_pte p perm)"
proof -
  have "perm AND NOT 0x3FF = 0" using assms(2) by (auto simp: PTE_U_def PTE_V_def READ_WRITE_def PTE_R_def PTE_W_def)
  moreover have "p + nbase < 2 ^ 44" using assms(1) by (simp add: nbase_def PGSIZE_def)
  ultimately show "PPN (PTE_ADDR (ex_pte p perm)) = p + nbase" "valid_pte (ex_pte p perm)"
    unfolding ex_pte_def using pte_fields by blast+
qed

lemma ex_vm_get:
  assumes "i < 512"
  shows "pte_get ex_vm (f, i) =
    (if f = 22 + nbase \<and> i = 0 then ex_pte 23 (PTE_U OR READ_WRITE)
     else if f = 21 + nbase \<and> i = 2 then ex_pte 22 (PTE_U OR PTE_V)
     else if f = 20 + nbase \<and> i = 0 then ex_pte 21 (PTE_U OR PTE_V) else 0)"
  using assms by (simp add: ex_vm_def pte_get_set) (simp add: pte_get_def rd_zero)

lemma ex_vm_tframe:
  "tframe ex_vm (20 + nbase) user_slots x =
     (case x of Root \<Rightarrow> Some (20 + nbase) | Dir i \<Rightarrow> if i = 0 then Some (21 + nbase) else None
      | Leaf i j \<Rightarrow> if i = 0 \<and> j = 2 then Some (22 + nbase) else None)"
proof -
  have v0: "\<not> valid_pte 0" by (simp add: valid_pte_def)
  have t: "tbl ex_vm (f, i) =
    (if f = 22 + nbase \<and> i = 0 then Some (23 + nbase) else if f = 21 + nbase \<and> i = 2 then Some (22 + nbase)
     else if f = 20 + nbase \<and> i = 0 then Some (21 + nbase) else None)" if "i < 512" for f i
    using that v0 by (simp add: tbl_def ex_vm_get ex_pte)
  show ?thesis by (cases x) (auto simp: tframe.simps user_slots_def t)
qed

lemma ex_vm_rest:
  "pool ex_vm = ex_pages10" "swap_init_ok ex_vm" "pra_list ex_vm = [23]" "pra_vaddr ex_vm p = 0x400000"
  "valid (swap_dev ex_vm)" "secs (swap_dev ex_vm) = 0x10000"
  by (simp_all add: ex_vm_def pte_set_def)

lemma ex_vm_ok: "pt_ok ex_vm (20 + nbase) user_slots"
  unfolding pt_ok_def ex_vm_tframe ex_vm_rest using ex_pages10(1,2)
  by (auto simp: user_slots_def npage_def nbase_def PHYSICAL_MEMORY_END_def KERNTOP_def KERNBASE_def PGSIZE_def
      split: tnode.splits if_splits)

lemma ex_vm_xlate:
  "xlate ex_vm (20 + nbase) user_slots 0x400000 = ex_pte 23 (PTE_U OR READ_WRITE)"
  "xlate ex_vm (20 + nbase) user_slots 0x401000 = 0"
  by (simp_all add: xlate_def ex_vm_tframe ex_vm_get PDX1_def PDX0_def PTX_def)

lemma ex_as: "fst (find_vma ex_as a) = fst (find_vma ex_mm a)" "pgdir ex_as = Some (20 + nbase)" "sm_priv ex_as"
  by (simp_all add: ex_as_def find_vma_def Let_def split: option.split)


section \<open>The properties\<close>

text \<open>
  C36. Demand paging.  A fault at a user address that lies in an area and has no entry yet succeeds
  when three pages are free: afterwards the address translates to a page that was free, the entry
  carries the rights \<open>do_pgfault\<close> derives from the area, every other user page translates as before,
  the page tables are well formed, and the new page still holds what was in it: it is not cleared.
\<close>

theorem demand_page_correct:
  assumes "pt_ok s pd user_slots" "fst (find_vma m addr) = Some v" "pgdir m = Some pd"
    "addr < USERTOP" "xlate s pd user_slots addr = 0" "3 \<le> nr_free_pages s"
  shows "\<exists>p s'. do_pgfault (Some m) addr s = Some (Inr (), Some (snd (find_vma m addr)), s')
     \<and> p \<in> free_set (pool s) \<and> p \<notin> free_set (pool s') \<and> pt_ok s' pd user_slots
     \<and> map_option fst (get_page s' pd addr) = Some (Some p)
     \<and> (\<forall>a < USERTOP. xlate s' pd user_slots a =
          (if a div PGSIZE = addr div PGSIZE then pte_create (page2ppn p) (fault_perm v) else xlate s pd user_slots a))
     \<and> frame s' (page2ppn p) = frame s (page2ppn p)"
  using assms by (rule fault_page_ok)

theorem demand_page_correct_witness:
  "\<exists>p s'. do_pgfault (Some ex_as) 0x401000 ex_vm = Some (Inr (), Some (snd (find_vma ex_as 0x401000)), s')
     \<and> p \<in> {100 ..< 110} \<and> map_option fst (get_page s' (20 + nbase) 0x401000) = Some (Some p)"
proof -
  have f: "fst (find_vma ex_as 0x401000) = Some ex_data"
    using find_vma_ok [OF ex_mm(1), of "0x401000"] by (auto simp: ex_as(1) ex_mm(2) holds_def ex_data_def)
  have n: "3 \<le> nr_free_pages ex_vm" by (simp add: nr_free_pages_def default_nr_free_pages_def ex_vm_rest ex_pages10(3))
  show ?thesis
    using demand_page_correct [OF ex_vm_ok f ex_as(2) _ ex_vm_xlate(2) n] by (auto simp: USERTOP_def ex_vm_rest ex_pages10(2))
qed

text \<open>
  C38. A fault at an address whose page is there, as a write to a read-only page, panics the kernel
  once swapping is initialised: the entry is taken for a swap entry, and the number in it is never
  smaller than four times the first page number, beyond any swap area of up to 8 GB.
\<close>

theorem present_fault_panics:
  assumes "pt_ok s pd user_slots" "fst (find_vma m addr) = Some v" "pgdir m = Some pd"
    "addr < USERTOP" "valid_pte (xlate s pd user_slots addr)"
    "nbase \<le> PPN (PTE_ADDR (xlate s pd user_slots addr))"
    "swap_init_ok s" "max_swap_offset s \<le> 2 ^ 21"
  shows "do_pgfault (Some m) addr s = None"
  using assms by (rule present_fault_None)

theorem present_fault_panics_witness: "do_pgfault (Some ex_as) 0x400000 ex_vm = None"
proof -
  have f: "fst (find_vma ex_as 0x400000) = Some ex_data"
    using find_vma_ok [OF ex_mm(1), of "0x400000"] by (auto simp: ex_as(1) ex_mm(2) holds_def ex_data_def)
  have m: "max_swap_offset ex_vm \<le> 2 ^ 21"
    by (simp add: max_swap_offset_def ide_device_size_def ex_vm_rest PGSIZE_def SECTSIZE_def)
  show ?thesis
    by (rule present_fault_panics [OF ex_vm_ok f ex_as(2) _ _ _ ex_vm_rest(2) m])
      (simp_all add: USERTOP_def ex_vm_xlate ex_pte)
qed

text \<open>
  C37. A page survives the way to the disk and back.  When \<open>swap_out\<close> picks the page mapped at a user
  address, stores it and frees it, the next fault in that page returns, the address then translates
  to a page with the same 4096 bytes, and every other user page translates as before both steps.
\<close>

theorem swap_out_fault_roundtrip:
  assumes "pt_ok s pd user_slots" "fst (find_vma m addr) = Some w" "pgdir m = Some pd" "sm_priv m"
    "pra_list s = p # ps" "v = pra_vaddr s p" "v mod PGSIZE = 0" "slot_fits s v" "swap_init_ok s"
    "addr < USERTOP" "addr div PGSIZE = v div PGSIZE" "valid_pte (xlate s pd user_slots v)"
    "p + nbase < npage" "p \<notin> free_set (pool s)" "\<And>x. tframe s pd user_slots x \<noteq> Some (p + nbase)"
    "\<not> PageReserved (pages (pool s) p)" "\<exists>i \<in> free_set (pool s). p < i"
  shows "\<exists>s1 q s2. swap_out m 1 s = Some s1 \<and> xlate s1 pd user_slots addr = swap_entry v \<and> p \<in> free_set (pool s1)
     \<and> do_pgfault (Some m) addr s1 = Some (Inr (), Some (snd (find_vma m addr)), s2)
     \<and> map_option fst (get_page s2 pd addr) = Some (Some q)
     \<and> (\<forall>i < PGSIZE. frame s2 (page2ppn q) i = frame s (page2ppn p) i)
     \<and> (\<forall>a < USERTOP. a div PGSIZE \<noteq> addr div PGSIZE \<longrightarrow> xlate s2 pd user_slots a = xlate s pd user_slots a)
     \<and> pt_ok s2 pd user_slots"
proof -
  have fit: "slot_fits s (pra_vaddr s p)" "valid_pte (xlate s pd user_slots (pra_vaddr s p))" using assms(6,8,12) by simp_all
  obtain s1 where s1: "swap_out m 1 s = Some s1" "pt_ok s1 pd user_slots"
    "\<And>a. a < USERTOP \<Longrightarrow> xlate s1 pd user_slots a = (if a div PGSIZE = v div PGSIZE then swap_entry v else xlate s pd user_slots a)"
    "p \<in> free_set (pool s1)" "slot_fits s1 v" "\<And>i. i < PGSIZE \<Longrightarrow> slot_of s1 v i = frame s (p + nbase) i"
    "swap_init_ok s1 = swap_init_ok s"
    by (rule swap_out_one [OF assms(1,4,3,5) fit assms(13-17), folded assms(6)]) (rule that; blast)
  have vU: "v < USERTOP" using assms(8) by (simp add: slot_fits_def)
  have e: "xlate s1 pd user_slots v = swap_entry v" "swap_init_ok s1" "free_set (pool s1) \<noteq> {}"
    using s1(3) [OF vU] s1(4,7) assms(9) by auto
  from swap_fault_ok [OF s1(2) assms(2,3,4,7,11,10) e(2) s1(5) e(1,3)]
  show ?thesis using s1 assms(10,11) by (auto simp: page2ppn_def)
qed

theorem swap_out_fault_roundtrip_witness:
  "\<exists>s1 q s2. swap_out ex_as 1 ex_vm = Some s1 \<and> do_pgfault (Some ex_as) 0x400010 s1 = Some (Inr (), Some (snd (find_vma ex_as 0x400010)), s2)
     \<and> (\<forall>i < PGSIZE. frame s2 (page2ppn q) i = frame ex_vm (page2ppn 23) i)"
proof -
  have f: "fst (find_vma ex_as 0x400010) = Some ex_data"
    using find_vma_ok [OF ex_mm(1), of "0x400010"] by (auto simp: ex_as(1) ex_mm(2) holds_def ex_data_def)
  have fit: "slot_fits ex_vm 0x400000"
    by (simp add: slot_fits_def max_swap_offset_def ide_device_size_def ex_vm_rest PGSIZE_def SECTSIZE_def USERTOP_def)
  have t: "tframe ex_vm (20 + nbase) user_slots x \<noteq> Some (23 + nbase)" for x by (simp add: ex_vm_tframe split: tnode.split)
  have n: "23 + nbase < npage"
    by (simp add: npage_def nbase_def PHYSICAL_MEMORY_END_def KERNTOP_def KERNBASE_def PGSIZE_def)
  have "\<exists>i \<in> free_set (pool ex_vm). 23 < i" by (auto simp: ex_vm_rest ex_pages10(2) intro!: bexI [of _ 100])
  from swap_out_fault_roundtrip [OF ex_vm_ok f ex_as(2,3) ex_vm_rest(3) ex_vm_rest(4) [symmetric] _ fit ex_vm_rest(2) _ _ _ n _ t _ this]
  show ?thesis by (auto simp: PGSIZE_def USERTOP_def ex_vm_xlate ex_pte ex_vm_rest ex_pages10)
qed

end
