(* ===== verification/Kmalloc.thy ===== *)
theory Kmalloc
  imports Page_Table
begin

text \<open>
  The kernel heap, \<open>kern/mm/kmalloc.c\<close>: a circular list of free blocks over pages of the page
  allocator, first fit, with requests of a page or more handed on to the page allocator.  A pointer is
  its address; the header of the block at an address is its \<open>units\<close> and \<open>next\<close>.  \<open>arena\<close> is the
  address of the static block the list starts with.  The list of big blocks is the sequence of its
  entries: the address of each, its order and its pages.
\<close>

record slob =
  mem :: phys
  units :: "nat \<Rightarrow> int"
  nxt_block :: "nat \<Rightarrow> nat"
  arena :: nat
  slobfree :: nat
  bigblocks :: "(nat \<times> nat \<times> nat) list"

definition SLOB_UNIT :: nat where "SLOB_UNIT = 16"
definition SLOB_UNITS :: "nat \<Rightarrow> nat" where "SLOB_UNITS n = (n + SLOB_UNIT - 1) div SLOB_UNIT"
definition BIGBLOCK_SIZE :: nat where "BIGBLOCK_SIZE = 24"

text \<open>Pointer arithmetic on blocks.\<close>

definition plus_units :: "nat \<Rightarrow> int \<Rightarrow> nat" where
  "plus_units b k = nat (int b + int SLOB_UNIT * k)"

definition align_up :: "nat \<Rightarrow> nat \<Rightarrow> nat" where
  "align_up a n = unat ((word_of_nat (a + n - 1) :: 64 word) AND NOT (word_of_nat (n - 1)))"

definition set_units :: "nat \<Rightarrow> int \<Rightarrow> slob \<Rightarrow> slob" where
  "set_units b k s = s\<lparr>units := (units s)(b := k)\<rparr>"

definition set_next :: "nat \<Rightarrow> nat \<Rightarrow> slob \<Rightarrow> slob" where
  "set_next b x s = s\<lparr>nxt_block := (nxt_block s)(b := x)\<rparr>"

section \<open>Pages\<close>

definition slob_get_free_pages :: "nat \<Rightarrow> slob \<Rightarrow> (nat option \<times> slob) option" where
  "slob_get_free_pages order s = do {
     (page, m) \<leftarrow> alloc_pages (2 ^ order) (mem s);
     let s = s\<lparr>mem := m\<rparr>;
     (case page of
        None \<Rightarrow> Some (None, s)
      | Some p \<Rightarrow> do { k \<leftarrow> page2kva p; Some (Some (kva k), s) })
   }"

text \<open>\<open>kva2page\<close> of an address: the checks of \<open>PADDR\<close> and \<open>pa2page\<close>.\<close>

definition addr2page :: "nat \<Rightarrow> nat option" where
  "addr2page a = do {
     kassert (KERNBASE \<le> a);
     pa2page (word_of_nat a - 0xFFFFFFFF40000000)
   }"

definition slob_free_pages :: "nat \<Rightarrow> nat \<Rightarrow> slob \<Rightarrow> slob option" where
  "slob_free_pages a order s = do {
     p \<leftarrow> addr2page a;
     m \<leftarrow> free_pages p (2 ^ order) (mem s);
     Some (s\<lparr>mem := m\<rparr>)
   }"

section \<open>Blocks\<close>

text \<open>The loop that finds where a block belongs: it ends at its predecessor in address order.\<close>

partial_function (option) slob_place :: "(nat \<Rightarrow> nat) \<Rightarrow> nat \<Rightarrow> nat \<Rightarrow> nat option" where
  "slob_place nx b cur =
     (if (b > cur \<and> b < nx cur) \<or> (cur \<ge> nx cur \<and> (b > cur \<or> b < nx cur)) then Some cur
      else slob_place nx b (nx cur))"

definition slob_free :: "nat option \<Rightarrow> nat \<Rightarrow> slob \<Rightarrow> slob option" where
  "slob_free ptr n s =
     (case ptr of
        None \<Rightarrow> Some s
      | Some b \<Rightarrow> do {
          let s = (if n \<noteq> 0 then set_units b (int (SLOB_UNITS n)) s else s);
          cur \<leftarrow> slob_place (nxt_block s) b (slobfree s);
          let s = (if plus_units b (units s b) = nxt_block s cur
                   then let s = set_units b (units s b + units s (nxt_block s cur)) s
                        in set_next b (nxt_block s (nxt_block s cur)) s
                   else set_next b (nxt_block s cur) s);
          let s = (if plus_units cur (units s cur) = b
                   then let s = set_units cur (units s cur + units s b) s
                        in set_next cur (nxt_block s b) s
                   else set_next cur b s);
          Some (s\<lparr>slobfree := cur\<rparr>)
        })"

text \<open>Cutting \<open>k\<close> units, after \<open>delta\<close> more for the alignment, out of \<open>cur\<close>, which follows \<open>prev\<close>.\<close>

definition slob_cut :: "nat \<Rightarrow> nat \<Rightarrow> nat \<Rightarrow> int \<Rightarrow> int \<Rightarrow> slob \<Rightarrow> nat \<times> slob" where
  "slob_cut prev cur aligned k delta s =
     (let (prev, cur, s) =
        (if delta \<noteq> 0 then
           let s = set_units aligned (units s cur - delta) s;
               s = set_next aligned (nxt_block s cur) s;
               s = set_next cur aligned s;
               s = set_units cur delta s
           in (cur, aligned, s)
         else (prev, cur, s));
        s = (if units s cur = k then set_next prev (nxt_block s cur) s
             else let s = set_next prev (plus_units cur k) s;
                      s = set_units (nxt_block s prev) (units s cur - k) s;
                      s = set_next (nxt_block s prev) (nxt_block s cur) s
                  in set_units cur k s)
      in (cur, s\<lparr>slobfree := prev\<rparr>))"

partial_function (option) slob_search :: "nat \<Rightarrow> nat \<Rightarrow> nat \<Rightarrow> nat \<Rightarrow> slob \<Rightarrow> (nat option \<times> slob) option" where
  "slob_search n align prev cur s =
     (let aligned = (if align \<noteq> 0 then align_up cur align else 0);
          delta = (if align \<noteq> 0 then (int aligned - int cur) div int SLOB_UNIT else 0);
          k = int (SLOB_UNITS n)
      in if units s cur \<ge> k + delta then
           (case slob_cut prev cur aligned k delta s of (b, s) \<Rightarrow> Some (Some b, s))
         else if cur = slobfree s then
           (if n = PGSIZE then Some (None, s)
            else do {
              (page, s) \<leftarrow> slob_get_free_pages 0 s;
              (case page of
                 None \<Rightarrow> Some (None, s)
               | Some _ \<Rightarrow> do {
                   s \<leftarrow> slob_free page PGSIZE s;
                   slob_search n align (slobfree s) (nxt_block s (slobfree s)) s
                 })
            })
         else slob_search n align cur (nxt_block s cur) s)"

definition slob_alloc :: "nat \<Rightarrow> nat \<Rightarrow> slob \<Rightarrow> (nat option \<times> slob) option" where
  "slob_alloc n align s = do {
     kassert (n + SLOB_UNIT < PGSIZE);
     slob_search n align (slobfree s) (nxt_block s (slobfree s)) s
   }"

section \<open>The interface\<close>

text \<open>The parameter is an \<open>int\<close>: \<open>__kmalloc\<close> passes the low 32 bits of its \<open>size_t\<close>.\<close>

function find_order :: "int \<Rightarrow> nat" where
  "find_order n = (if n > 4096 then Suc (find_order (n div 2)) else 0)"
  by pat_completeness auto
termination by (relation "measure nat") auto

declare find_order.simps [simp del]

definition kmalloc :: "nat \<Rightarrow> slob \<Rightarrow> (nat option \<times> slob) option" where
  "kmalloc n s =
     (if n < PGSIZE - SLOB_UNIT then do {
        (m, s) \<leftarrow> slob_alloc (n + SLOB_UNIT) 0 s;
        Some (map_option (\<lambda>m. m + SLOB_UNIT) m, s)
      } else do {
        (bb, s) \<leftarrow> slob_alloc BIGBLOCK_SIZE 0 s;
        (case bb of
           None \<Rightarrow> Some (None, s)
         | Some b \<Rightarrow> do {
             (pg, s) \<leftarrow> slob_get_free_pages (find_order (int32 (int n))) s;
             (case pg of
                Some a \<Rightarrow> Some (Some a, s\<lparr>bigblocks := (b, find_order (int32 (int n)), a) # bigblocks s\<rparr>)
              | None \<Rightarrow> do { s \<leftarrow> slob_free bb BIGBLOCK_SIZE s; Some (None, s) })
           })
      })"

definition kfree :: "nat option \<Rightarrow> slob \<Rightarrow> slob option" where
  "kfree ptr s =
     (case ptr of
        None \<Rightarrow> Some s
      | Some a \<Rightarrow>
          (case (if a mod PGSIZE = 0 then List.find (\<lambda>(_, _, pg). pg = a) (bigblocks s) else None) of
             Some (b, order, pg) \<Rightarrow> do {
               let s = s\<lparr>bigblocks := remove1 (b, order, pg) (bigblocks s)\<rparr>;
               s \<leftarrow> slob_free_pages a order s;
               slob_free (Some b) BIGBLOCK_SIZE s
             }
           | None \<Rightarrow> slob_free (Some (a - SLOB_UNIT)) 0 s))"

definition ksize :: "nat option \<Rightarrow> slob \<Rightarrow> nat" where
  "ksize ptr s =
     (case ptr of
        None \<Rightarrow> 0
      | Some a \<Rightarrow>
          (case (if a mod PGSIZE = 0 then List.find (\<lambda>(_, _, pg). pg = a) (bigblocks s) else None) of
             Some (b, order, pg) \<Rightarrow> PGSIZE * 2 ^ order
           | None \<Rightarrow> nat (units s (a - SLOB_UNIT)) * SLOB_UNIT))"

section \<open>The order of a big request\<close>

text \<open>Halving rounds down, so the order is that of the request without its low bits.\<close>

lemma find_order_bounds:
  "0 \<le> n \<Longrightarrow> n < 4097 * 2 ^ find_order n" "4096 < n \<Longrightarrow> 4097 * 2 ^ (find_order n - 1) \<le> n"
proof -
  have "(0 \<le> n \<longrightarrow> n < 4097 * 2 ^ find_order n) \<and> (4096 < n \<longrightarrow> 4097 * 2 ^ (find_order n - 1) \<le> n)"
  proof (induction n rule: find_order.induct)
    case (1 n)
    show ?case
    proof (cases "4096 < n")
      case True
      have f: "find_order n = Suc (find_order (n div 2))" using True by (subst find_order.simps, simp)
      note ih = "1.IH" [OF True]
      have "n div 2 < 4097 * 2 ^ find_order (n div 2)" using ih True by simp
      then have "n < 4097 * 2 ^ find_order n" unfolding f by (simp only: power_Suc)
      moreover have "4097 * 2 ^ find_order (n div 2) \<le> n"
      proof (cases "4096 < n div 2")
        case True
        then have "find_order (n div 2) = Suc (find_order (n div 2 div 2))" by (subst find_order.simps, simp)
        then obtain k where k: "find_order (n div 2) = Suc k" by blast
        have "4097 * 2 ^ k \<le> n div 2" using ih True by (simp add: k)
        then show ?thesis unfolding k by simp
      next
        case False
        then have "find_order (n div 2) = 0" by (subst find_order.simps, simp)
        then show ?thesis using True by simp
      qed
      ultimately show ?thesis unfolding f by simp
    next
      case False
      then have "find_order n = 0" by (subst find_order.simps, simp)
      then show ?thesis using False by simp
    qed
  qed
  then show "0 \<le> n \<Longrightarrow> n < 4097 * 2 ^ find_order n" "4096 < n \<Longrightarrow> 4097 * 2 ^ (find_order n - 1) \<le> n" by auto
qed

end
