(* ===== verification/Kmalloc_Heap.thy ===== *)
theory Kmalloc_Heap
  imports Kmalloc Page_Walk
begin

text \<open>
  The invariant of the kernel heap and what its operations do to the set of free bytes.  The list of
  free blocks is a ring; its blocks ascend from \<open>arena\<close> with a gap between neighbours, so that no two
  of them could be one.
\<close>

section \<open>Rings\<close>

fun path :: "(nat \<Rightarrow> nat) \<Rightarrow> nat \<Rightarrow> nat list \<Rightarrow> bool" where
  "path nx p [] = True"
| "path nx p (y # ys) = (nx p = y \<and> path nx y ys)"

definition ring :: "(nat \<Rightarrow> nat) \<Rightarrow> nat list \<Rightarrow> bool" where
  "ring nx xs \<longleftrightarrow> xs \<noteq> [] \<and> distinct xs \<and> path nx (hd xs) (tl xs @ [hd xs])"

lemma path_append: "path nx p (xs @ ys) \<longleftrightarrow> path nx p xs \<and> path nx (last (p # xs)) ys"
  by (induction xs arbitrary: p) auto

lemma path_cong: "(\<And>x. x \<in> set (p # butlast ys) \<Longrightarrow> nx x = mx x) \<Longrightarrow> path nx p ys = path mx p ys"
proof (induction ys arbitrary: p)
  case (Cons y ys)
  show ?case using Cons.IH [of y] Cons.prems by (cases ys) auto
qed simp

lemma path_upd: "b \<notin> set (p # zs) \<Longrightarrow> path (nx(b := v)) p (zs @ [q]) = path nx p (zs @ [q])"
  by (rule path_cong) auto

lemma ring_Cons: "ring nx (p # xs) \<longleftrightarrow> distinct (p # xs) \<and> path nx p (xs @ [p])"
  by (auto simp: ring_def)

lemma ring_rotate: "ring nx (as @ bs) \<Longrightarrow> ring nx (bs @ as)"
proof (cases as; cases bs)
  fix a as' b bs'
  assume "ring nx (as @ bs)" "as = a # as'" "bs = b # bs'"
  then show "ring nx (bs @ as)" by (auto simp: ring_def path_append split: if_splits)
qed auto

lemma ring_from:
  assumes "ring nx xs" "p \<in> set xs"
  obtains ys where "ring nx (p # ys)" "set (p # ys) = set xs"
proof -
  obtain as bs where s: "xs = as @ p # bs" using assms(2) by (meson split_list)
  then show thesis using ring_rotate [of nx as "p # bs"] assms(1) by (intro that [of "bs @ as"]) auto
qed

lemma path_next: "path nx p (xs @ [q]) \<Longrightarrow> x \<in> set (p # xs) \<Longrightarrow> nx x \<in> set (xs @ [q])"
  by (induction xs arbitrary: p) auto

lemma ring_next:
  assumes "ring nx xs" "x \<in> set xs"
  shows "nx x \<in> set xs"
proof -
  obtain ys where "ring nx (x # ys)" "set (x # ys) = set xs" using ring_from [OF assms] .
  then show ?thesis using path_next [of nx x ys x x] by (auto simp: ring_Cons)
qed

section \<open>The invariant\<close>

definition fin :: "slob \<Rightarrow> nat \<Rightarrow> nat" where "fin s x = plus_units x (units s x)"

definition region :: "slob \<Rightarrow> nat \<Rightarrow> nat set" where "region s x = {x ..< fin s x}"

definition spaced :: "slob \<Rightarrow> nat \<Rightarrow> bool" where
  "spaced s x \<longleftrightarrow> 0 < units s x \<and> (nxt_block s x = arena s \<or> fin s x < nxt_block s x)"

definition heap_ok :: "nat list \<Rightarrow> slob \<Rightarrow> bool" where
  "heap_ok xs s \<longleftrightarrow> ring (nxt_block s) xs \<and> arena s \<in> set xs \<and> slobfree s \<in> set xs \<and> units s (arena s) = 1
     \<and> (\<forall>x \<in> set xs. spaced s x)"

definition free_bytes :: "nat list \<Rightarrow> slob \<Rightarrow> nat set" where
  "free_bytes xs s = (\<Union>x \<in> set xs - {arena s}. region s x)"

lemma fin_eq: "0 < units s x \<Longrightarrow> fin s x = x + 16 * nat (units s x)" "0 < units s x \<Longrightarrow> x < fin s x"
  by (simp_all add: fin_def plus_units_def SLOB_UNIT_def)

lemma heap_okD:
  assumes "heap_ok xs s"
  shows "ring (nxt_block s) xs" "arena s \<in> set xs" "slobfree s \<in> set xs" "units s (arena s) = 1" "x \<in> set xs \<Longrightarrow> spaced s x"
    "x \<in> set xs \<Longrightarrow> 0 < units s x"
  using assms by (auto simp: heap_ok_def spaced_def)

lemma heap_ok_from:
  assumes "heap_ok xs s" "p \<in> set xs"
  obtains ys where "heap_ok (p # ys) s" "set (p # ys) = set xs"
proof -
  obtain ys where "ring (nxt_block s) (p # ys)" "set (p # ys) = set xs" using ring_from [OF heap_okD(1) [OF assms(1)] assms(2)] .
  then show thesis using assms(1) by (intro that [of ys]) (simp_all add: heap_ok_def)
qed

lemma ascending_path:
  assumes "path nx p ys" "\<forall>x \<in> set (p # ys). x < f x" "\<forall>x \<in> set (p # butlast ys). ys \<noteq> [] \<longrightarrow> f x < nx x"
  shows "sorted_wrt (\<lambda>a b. f a < (b :: nat)) (p # ys)"
  using assms
proof (induction ys arbitrary: p)
  case (Cons y ys)
  have "sorted_wrt (\<lambda>a b. f a < b) (y # ys)"
    by (rule Cons.IH) (use Cons.prems in \<open>auto split: if_splits\<close>)
  moreover have "f p < y" using Cons.prems by auto
  moreover have "y < f y" using Cons.prems by simp
  ultimately show ?case by force
qed simp

lemma heap_ascends:
  assumes "heap_ok xs s" "x \<in> set xs" "y \<in> set xs"
  shows "x = y \<or> fin s x < y \<or> fin s y < x" "x < fin s x" "arena s \<le> x" "x \<noteq> arena s \<Longrightarrow> arena s + 16 < x"
proof -
  obtain ys where ys: "heap_ok (arena s # ys) s" "set (arena s # ys) = set xs"
    using heap_ok_from [OF assms(1) heap_okD(2) [OF assms(1)]] .
  note d = heap_okD [OF ys(1)]
  have p: "path (nxt_block s) (arena s) ys" "arena s \<notin> set ys" using d(1) by (auto simp: ring_Cons path_append)
  have f: "fin s z < nxt_block s z" if "z \<in> set (arena s # butlast ys)" "ys \<noteq> []" for z
  proof -
    have "nxt_block s z \<in> set ys"
      using path_next [of "nxt_block s" "arena s" "butlast ys" "last ys" z] p(1) that by simp
    then have "nxt_block s z \<noteq> arena s" using p(2) by auto
    moreover have "spaced s z" using d(5) [of z] that(1) by (auto dest: in_set_butlastD)
    ultimately show ?thesis by (simp add: spaced_def)
  qed
  have so: "sorted_wrt (\<lambda>a b. fin s a < b) (arena s # ys)"
    by (rule ascending_path [OF p(1)]) (use f d(6) fin_eq(2) in auto)
  have in': "x \<in> set (arena s # ys)" "y \<in> set (arena s # ys)" using assms(2,3) unfolding ys(2) .
  then show "x = y \<or> fin s x < y \<or> fin s y < x"
    using so by (metis in_set_conv_nth nat_neq_iff sorted_wrt_nth_less)
  show "x < fin s x" using heap_okD(6) [OF assms(1,2)] fin_eq(2) by simp
  have "fin s (arena s) = arena s + 16" using d(4) by (simp add: fin_eq)
  then show "arena s \<le> x" "x \<noteq> arena s \<Longrightarrow> arena s + 16 < x" using so in'(1) by auto
qed

lemma region_disjoint:
  assumes "heap_ok xs s" "x \<in> set xs" "y \<in> set xs" "a \<in> region s x" "a \<in> region s y"
  shows "x = y"
  using heap_ascends(1) [OF assms(1-3)] assms(4,5) by (auto simp: region_def)

lemma fin_gap:
  assumes "heap_ok xs s" "x \<in> set xs"
  shows "fin s x \<notin> free_bytes xs s"
proof
  assume "fin s x \<in> free_bytes xs s"
  then obtain y where y: "y \<in> set xs" "y \<le> fin s x" "fin s x < fin s y" by (auto simp: free_bytes_def region_def)
  show False using heap_ascends(1) [OF assms y(1)] heap_ascends(2) [OF assms assms(2)] y by auto
qed

text \<open>A run of free bytes lies in one block.\<close>

lemma run_in_block:
  assumes "heap_ok xs s" "{a ..< a + n} \<subseteq> free_bytes xs s" "0 < n"
  obtains x where "x \<in> set xs - {arena s}" "x \<le> a" "a + n \<le> fin s x"
proof -
  have "a \<in> free_bytes xs s" using assms(2,3) by auto
  then obtain x where x: "x \<in> set xs - {arena s}" "x \<le> a" "a < fin s x" by (auto simp: free_bytes_def region_def)
  have "fin s x \<notin> {a ..< a + n}" using fin_gap [OF assms(1), of x] x(1) assms(2) by auto
  then show thesis using x by (intro that [of x]) auto
qed

section \<open>Placing a block\<close>

lemma place_path:
  assumes "path nx c zs" "x \<in> set (c # zs)" "st x"
    and st: "\<And>y. st y \<longleftrightarrow> (b > y \<and> b < nx y) \<or> (y \<ge> nx y \<and> (b > y \<or> b < nx y))"
  shows "\<exists>y \<in> set (c # zs). slob_place nx b c = Some y \<and> st y"
  using assms(1-3)
proof (induction zs arbitrary: c)
  case Nil
  then show ?case using st by (subst slob_place.simps) auto
next
  case (Cons z zs)
  show ?case
  proof (cases "st c")
    case True
    then show ?thesis using st by (subst slob_place.simps) auto
  next
    case False
    then have "x \<in> set (z # zs)" "path nx z zs" using Cons.prems by auto
    from Cons.IH [OF this(2,1) Cons.prems(3)] obtain y where y: "y \<in> set (z # zs)" "slob_place nx b z = Some y" "st y" by blast
    have "slob_place nx b c = slob_place nx b z" using False st Cons.prems(1) by (subst slob_place.simps) auto
    then show ?thesis using y by auto
  qed
qed

lemma place_ok:
  assumes ok: "heap_ok xs s" and b: "arena s < b" "b \<notin> set xs"
  obtains cur where "cur \<in> set xs" "slob_place (nxt_block s) b (slobfree s) = Some cur" "cur < b"
    "b < nxt_block s cur \<or> nxt_block s cur = arena s"
proof -
  let ?nx = "nxt_block s"
  define st where "st y \<longleftrightarrow> (b > y \<and> b < ?nx y) \<or> (y \<ge> ?nx y \<and> (b > y \<or> b < ?nx y))" for y
  have stop: "st y \<longleftrightarrow> y < b \<and> (b < ?nx y \<or> ?nx y = arena s)" if "y \<in> set xs" for y
  proof -
    have "?nx y = arena s \<or> y < ?nx y" using heap_okD(5) [OF ok that] fin_eq(2) [of s y] by (auto simp: spaced_def)
    moreover have "arena s \<le> y" by (rule heap_ascends(3) [OF ok that that])
    ultimately show ?thesis using b(1) by (auto simp: st_def)
  qed
  obtain ys where ys: "heap_ok (slobfree s # ys) s" "set (slobfree s # ys) = set xs"
    using heap_ok_from [OF ok heap_okD(3) [OF ok]] .
  define m where "m = Max {y \<in> set xs. y < b}"
  have ne: "{y \<in> set xs. y < b} \<noteq> {}" "finite {y \<in> set xs. y < b}" using b(1) heap_okD(2) [OF ok] by auto
  have m: "m \<in> set xs" "m < b" "\<And>y. y \<in> set xs \<Longrightarrow> y < b \<Longrightarrow> y \<le> m"
    using Max_in [OF ne(2,1)] Max_ge [OF ne(2)] by (auto simp: m_def)
  have "st m"
  proof -
    have n: "?nx m \<in> set xs" by (rule ring_next [OF heap_okD(1) [OF ok] m(1)])
    have "?nx m = arena s \<or> m < ?nx m" using heap_okD(5) [OF ok m(1)] fin_eq(2) [of s m] by (auto simp: spaced_def)
    then show ?thesis unfolding stop [OF m(1)] using m(2,3) n b(2) by (metis not_less nat_neq_iff)
  qed
  have "path ?nx (slobfree s) ys" using heap_okD(1) [OF ys(1)] by (simp add: ring_Cons path_append)
  from place_path [OF this _ \<open>st m\<close> st_def] m(1) ys(2)
  obtain y where y: "y \<in> set xs" "slob_place ?nx b (slobfree s) = Some y" "st y" by auto
  then show thesis using stop [OF y(1)] by (intro that [of y]) auto
qed


section \<open>Giving a block back\<close>

text \<open>
  What \<open>slob_free\<close> has after its first test: the list \<open>cur # R\<close> without the block \<open>b\<close>, whose
  \<open>next\<close> already leads into it, and the bytes that belong to \<open>b\<close>.
\<close>

definition loose :: "nat \<Rightarrow> nat \<Rightarrow> nat list \<Rightarrow> slob \<Rightarrow> bool" where
  "loose cur b R s \<longleftrightarrow> distinct (cur # b # R) \<and> path (nxt_block s) b (R @ [cur])
     \<and> arena s \<in> set (cur # R) \<and> arena s \<noteq> b \<and> units s (arena s) = 1 \<and> spaced s b \<and> (\<forall>x \<in> set R. spaced s x)
     \<and> 0 < units s cur \<and> cur < b \<and> fin s cur \<le> b"

lemma upd_other [simp]:
  "units (set_next b x s) = units s" "nxt_block (set_units b k s) = nxt_block s"
  "arena (set_next b x s) = arena s" "arena (set_units b k s) = arena s"
  "slobfree (set_next b x s) = slobfree s" "slobfree (set_units b k s) = slobfree s"
  "mem (set_next b x s) = mem s" "mem (set_units b k s) = mem s"
  "bigblocks (set_next b x s) = bigblocks s" "bigblocks (set_units b k s) = bigblocks s"
  "units (set_units b k s) = (units s)(b := k)" "nxt_block (set_next b x s) = (nxt_block s)(b := x)"
  by (simp_all add: set_next_def set_units_def)

lemma fin_upd [simp]:
  "fin (set_next b x s) y = fin s y" "x \<noteq> b \<Longrightarrow> fin (set_units b k s) x = fin s x"
  "fin (s\<lparr>slobfree := c\<rparr>) y = fin s y" "fin (set_units b k s) b = plus_units b k"
  by (simp_all add: fin_def)

lemma link_next:
  assumes ok: "heap_ok (cur # ys) s" and b: "b \<notin> set (cur # ys)" "0 < units s b" "cur < b"
      "b < nxt_block s cur \<or> nxt_block s cur = arena s" "arena s + 16 < b" "region s b \<inter> free_bytes (cur # ys) s = {}"
  defines "t \<equiv> (if plus_units b (units s b) = nxt_block s cur
       then let s = set_units b (units s b + units s (nxt_block s cur)) s in set_next b (nxt_block s (nxt_block s cur)) s
       else set_next b (nxt_block s cur) s)"
  shows "\<exists>R. loose cur b R t \<and> free_bytes R t \<union> region t b = free_bytes ys s \<union> region s b \<and> set R \<subseteq> set ys
    \<and> arena t = arena s \<and> units t cur = units s cur \<and> mem t = mem s \<and> bigblocks t = bigblocks s"
proof -
  let ?n = "nxt_block s cur"
  note d = heap_okD [OF ok]
  have dis: "distinct (cur # b # ys)" and pa: "path (nxt_block s) cur (ys @ [cur])" using d(1) b(1) by (auto simp: ring_Cons)
  have fb: "fin s b = b + 16 * nat (units s b)" "b < fin s b" using fin_eq [OF b(2)] by auto
  have eq: "plus_units b (units s b) = fin s b" by (simp add: fin_def)
  have nin: "?n \<in> set (cur # ys)" by (rule ring_next [OF d(1)]) simp
  have fc: "fin s cur \<le> b"
  proof (rule ccontr)
    assume "\<not> fin s cur \<le> b"
    then have r: "b \<in> region s cur" using b(3) by (simp add: region_def)
    have "cur \<noteq> arena s" using r b(5) d(4) by (auto simp: region_def fin_eq)
    then have "b \<in> free_bytes (cur # ys) s" using r by (auto simp: free_bytes_def)
    moreover have "b \<in> region s b" using fb(2) by (simp add: region_def)
    ultimately show False using b(6) by blast
  qed
  have arb: "arena s \<noteq> b" using b(5) by auto
  have le: "fin s b \<le> ?n" if "?n \<noteq> arena s"
  proof (rule ccontr)
    assume "\<not> fin s b \<le> ?n"
    then have "?n \<in> region s b" using b(4) that by (simp add: region_def)
    moreover have "?n \<in> free_bytes (cur # ys) s"
      using nin that heap_ascends(2) [OF ok nin nin] by (auto simp: free_bytes_def region_def)
    ultimately show False using b(6) by blast
  qed
  show ?thesis
  proof (cases "fin s b = ?n")
    case False
    then have t: "t = set_next b ?n s" by (simp add: t_def eq)
    have "path ((nxt_block s)(b := ?n)) b (ys @ [cur])"
    proof (cases ys)
      case (Cons y zs)
      have "path (nxt_block s) y (zs @ [cur])" using pa Cons by simp
      then have "path ((nxt_block s)(b := ?n)) y (zs @ [cur])"
        using dis Cons by (subst path_upd) auto
      then show ?thesis using pa Cons dis by auto
    qed (use pa in simp)
    moreover have "?n = arena s \<or> fin s b < ?n" using le False by linarith
    ultimately have "loose cur b ys t"
      unfolding loose_def t using dis d(2,4,5,6) arb b(3) fc b(2)
      by (auto simp: spaced_def)
    moreover have "free_bytes ys t = free_bytes ys s" "region t b = region s b" by (simp_all add: t free_bytes_def region_def)
    ultimately show ?thesis by (intro exI [of _ ys]) (simp add: t)
  next
    case True
    have na: "?n \<noteq> arena s" using True fb(2) b(5) by auto
    have nc: "?n \<noteq> cur" using True fb(2) b(3) by auto
    then obtain zs where ys: "ys = ?n # zs" using nin pa by (cases ys) auto
    let ?m = "nxt_block s ?n"
    have t: "t = set_next b ?m (set_units b (units s b + units s ?n) s)" using True by (simp add: t_def eq Let_def)
    have sn: "spaced s ?n" using d(5) [of ?n] nin by blast
    have "path (nxt_block s) ?n (zs @ [cur])" using pa ys by (metis append_Cons path.simps(2))
    then have pz: "path ((nxt_block s)(b := ?m)) b (zs @ [cur])"
    proof (cases zs)
      case (Cons y ws)
      assume p: "path (nxt_block s) ?n (zs @ [cur])"
      then have "path (nxt_block s) y (ws @ [cur])" "?m = y" using Cons by auto
      then have "path ((nxt_block s)(b := ?m)) y (ws @ [cur])"
        using dis ys Cons by (subst path_upd) auto
      then show ?thesis using \<open>?m = y\<close> Cons dis by simp
    qed auto
    have ft: "fin t b = fin s ?n"
      using True fin_eq(1) [OF b(2)] fin_eq(1) [of s ?n] sn b(2)
      by (simp add: t fin_def [of s b] plus_units_def SLOB_UNIT_def spaced_def nat_add_distrib nat_mult_distrib)
    have "distinct (?n # zs)" "?n \<noteq> b" "b \<notin> set zs" "cur \<notin> set zs" using dis ys by (metis distinct.simps(2) insert_iff list.simps(15))+
    moreover have "0 < units s b + units s ?n" using b(2) sn by (simp add: spaced_def)
    ultimately have "loose cur b zs t"
      unfolding loose_def using pz dis d(2,4,5,6) arb b(2,3) fc na sn ft ys
      by (auto simp: spaced_def t)
    moreover have "free_bytes zs t \<union> region t b = free_bytes ys s \<union> region s b"
    proof -
      have "region t w = region s w" if "w \<in> set zs" for w
      proof -
        have "w \<noteq> b" using that \<open>b \<notin> set zs\<close> by auto
        then show ?thesis by (simp add: region_def t)
      qed
      then have z: "free_bytes zs t = free_bytes zs s" by (simp add: free_bytes_def t)
      have y: "free_bytes ys s = region s ?n \<union> free_bytes zs s"
      proof -
        have "set ys = insert ?n (set zs)" using ys by (metis list.simps(15))
        then show ?thesis using na \<open>distinct (?n # zs)\<close> by (auto simp: free_bytes_def)
      qed
      have "region t b = region s b \<union> region s ?n"
        using ft True fb(2) fin_eq(2) [of s ?n] sn by (auto simp: region_def spaced_def)
      then show ?thesis using z y by blast
    qed
    moreover have "set zs \<subseteq> set ys" using ys by (metis set_subset_Cons)
    moreover have "units t cur = units s cur" using b(3) by (simp add: t)
    ultimately show ?thesis by (intro exI [of _ zs]) (simp add: t)
  qed
qed

lemma link_prev:
  assumes l: "loose cur b R t" and ca: "cur = arena t \<longrightarrow> fin t cur \<noteq> b"
  defines "u \<equiv> (if plus_units cur (units t cur) = b
       then let s = set_units cur (units t cur + units t b) t in set_next cur (nxt_block s b) s
       else set_next cur b t)"
  shows "\<exists>xs. heap_ok xs (u\<lparr>slobfree := cur\<rparr>) \<and> free_bytes xs (u\<lparr>slobfree := cur\<rparr>) = free_bytes (cur # R) t \<union> region t b
    \<and> arena u = arena t \<and> mem u = mem t \<and> bigblocks u = bigblocks t"
proof -
  have eq: "plus_units cur (units t cur) = fin t cur" by (simp add: fin_def)
  have dis: "distinct (cur # b # R)" and pa: "path (nxt_block t) b (R @ [cur])" and ar: "arena t \<in> set (cur # R)" "arena t \<noteq> b"
    and u1: "units t (arena t) = 1" "0 < units t cur" and sp: "spaced t b" "\<forall>x \<in> set R. spaced t x" and lt: "cur < b" "fin t cur \<le> b"
    using l by (auto simp: loose_def)
  have bf: "b < fin t b" using fin_eq(2) sp(1) by (simp add: spaced_def)
  show ?thesis
  proof (cases "fin t cur = b")
    case False
    then have u: "u = set_next cur b t" by (simp add: u_def eq)
    have "path ((nxt_block t)(cur := b)) b (R @ [cur])"
      using pa dis by (subst path_upd) auto
    then have "ring (nxt_block u) (cur # b # R)" using dis by (simp add: ring_Cons u)
    moreover have "spaced (u\<lparr>slobfree := cur\<rparr>) x" if "x \<in> set (cur # b # R)" for x
      using that sp u1(2) lt False dis by (auto simp: spaced_def u)
    ultimately have "heap_ok (cur # b # R) (u\<lparr>slobfree := cur\<rparr>)" using ar u1 by (auto simp: heap_ok_def u)
    moreover have "free_bytes (cur # b # R) (u\<lparr>slobfree := cur\<rparr>) = free_bytes (cur # R) t \<union> region t b"
      using ar(2) by (auto simp: free_bytes_def region_def u)
    ultimately show ?thesis by (intro exI [of _ "cur # b # R"]) (simp add: u)
  next
    case True
    then have cna: "cur \<noteq> arena t" using ca by blast
    have u: "u = set_next cur (nxt_block t b) (set_units cur (units t cur + units t b) t)" using True by (simp add: u_def eq Let_def)
    have "path ((nxt_block t)(cur := nxt_block t b)) cur (R @ [cur])"
    proof (cases R)
      case (Cons y ws)
      then have "path (nxt_block t) y (ws @ [cur])" "nxt_block t b = y" using pa by auto
      moreover then have "path ((nxt_block t)(cur := nxt_block t b)) y (ws @ [cur])"
        using dis Cons by (subst path_upd) auto
      ultimately show ?thesis using Cons by simp
    qed (use pa in simp)
    then have "ring (nxt_block u) (cur # R)" using dis by (simp add: ring_Cons u)
    moreover have fu: "fin u cur = fin t b"
      using True fin_eq(1) [OF u1(2)] fin_eq(1) [of t b] sp(1) u1(2)
      by (simp add: u fin_def [of t cur] plus_units_def SLOB_UNIT_def spaced_def nat_add_distrib nat_mult_distrib)
    moreover have "spaced (u\<lparr>slobfree := cur\<rparr>) x" if "x \<in> set (cur # R)" for x
      using that sp u1(2) fu dis by (auto simp: spaced_def u)
    ultimately have "heap_ok (cur # R) (u\<lparr>slobfree := cur\<rparr>)" using ar u1 cna by (auto simp: heap_ok_def u)
    moreover have "region u cur = region t cur \<union> region t b"
      using fu True bf lt(1) fin_eq(2) [OF u1(2)] by (auto simp: region_def)
    then have "free_bytes (cur # R) (u\<lparr>slobfree := cur\<rparr>) = free_bytes (cur # R) t \<union> region t b"
    proof -
      assume r: "region u cur = region t cur \<union> region t b"
      have o: "region (u\<lparr>slobfree := cur\<rparr>) x = region t x" if "x \<in> set R" for x
      proof -
        have "x \<noteq> cur" using that dis by auto
        then show ?thesis by (simp add: region_def u)
      qed
      have "region (u\<lparr>slobfree := cur\<rparr>) cur = region t cur \<union> region t b" using r by (simp add: region_def)
      then show ?thesis using o cna by (auto simp: free_bytes_def u)
    qed
    ultimately show ?thesis by (intro exI [of _ "cur # R"]) (simp add: u)
  qed
qed

text \<open>\<open>slob_free\<close> of a block outside the free list adds exactly its bytes.\<close>

lemma slob_free_ok:
  assumes ok: "heap_ok xs s" and n: "n = 0 \<and> units s b = k \<or> n \<noteq> 0 \<and> k = int (SLOB_UNITS n)"
    and k: "0 < k" and b: "arena s + 16 < b" "{b ..< plus_units b k} \<inter> free_bytes xs s = {}"
  obtains s' xs' where "slob_free (Some b) n s = Some s'" "heap_ok xs' s'"
    "free_bytes xs' s' = free_bytes xs s \<union> {b ..< plus_units b k}" "arena s' = arena s" "mem s' = mem s" "bigblocks s' = bigblocks s"
proof -
  have pb: "b < plus_units b k" using k by (simp add: plus_units_def SLOB_UNIT_def)
  then have bF: "b \<notin> free_bytes xs s" using b(2) by auto
  have bn: "b \<notin> set xs"
  proof
    assume "b \<in> set xs"
    moreover have "b < fin s b" by (rule heap_ascends(2) [OF ok \<open>b \<in> set xs\<close> \<open>b \<in> set xs\<close>])
    ultimately show False using bF b(1) by (auto simp: free_bytes_def region_def)
  qed
  define t0 where "t0 = (if n \<noteq> 0 then set_units b (int (SLOB_UNITS n)) s else s)"
  have t0: "nxt_block t0 = nxt_block s" "slobfree t0 = slobfree s" "arena t0 = arena s" "mem t0 = mem s" "bigblocks t0 = bigblocks s"
    "units t0 b = k" "\<And>x. x \<noteq> b \<Longrightarrow> units t0 x = units s x"
    using n by (auto simp: t0_def)
  have ft: "fin t0 x = fin s x" if "x \<noteq> b" for x using t0(7) [OF that] by (simp add: fin_def)
  have ok0: "heap_ok xs t0"
    using ok bn b(1) t0 ft unfolding heap_ok_def spaced_def by (metis less_irrefl not_add_less1)
  have "region t0 x = region s x" if "x \<in> set xs" for x using ft [of x] that bn by (metis region_def)
  then have fr: "free_bytes xs t0 = free_bytes xs s" by (simp add: free_bytes_def t0(3))
  have rb: "region t0 b = {b ..< plus_units b k}" by (simp add: region_def fin_def t0(6))
  obtain cur where c: "cur \<in> set xs" "slob_place (nxt_block t0) b (slobfree t0) = Some cur" "cur < b"
    "b < nxt_block t0 cur \<or> nxt_block t0 cur = arena t0"
    using place_ok [OF ok0 _ bn] b(1) t0(3) by auto
  obtain ys where ys: "heap_ok (cur # ys) t0" "set (cur # ys) = set xs" using heap_ok_from [OF ok0 c(1)] .
  have fy: "free_bytes (cur # ys) t0 = free_bytes xs t0" using ys(2) by (simp add: free_bytes_def)
  have p: "b \<notin> set (cur # ys)" "0 < units t0 b" "arena t0 + 16 < b" "region t0 b \<inter> free_bytes (cur # ys) t0 = {}"
    using bn ys(2) t0(3,6) k b fy fr rb by auto
  define t where "t = (if plus_units b (units t0 b) = nxt_block t0 cur
       then let s = set_units b (units t0 b + units t0 (nxt_block t0 cur)) t0 in set_next b (nxt_block s (nxt_block s cur)) s
       else set_next b (nxt_block t0 cur) t0)"
  obtain R where R: "loose cur b R t" "free_bytes R t \<union> region t b = free_bytes ys t0 \<union> region t0 b" "set R \<subseteq> set ys"
    "arena t = arena t0" "units t cur = units t0 cur" "mem t = mem t0" "bigblocks t = bigblocks t0"
    using link_next [OF ys(1) p(1,2) c(3,4) p(3,4)] unfolding t_def by blast
  have ca: "cur = arena t \<longrightarrow> fin t cur \<noteq> b"
    using R(4,5) heap_okD(4) [OF ok0] p(3) by (auto simp: fin_def plus_units_def SLOB_UNIT_def)
  define u where "u = (if plus_units cur (units t cur) = b
       then let s = set_units cur (units t cur + units t b) t in set_next cur (nxt_block s b) s
       else set_next cur b t)"
  obtain xs' where x: "heap_ok xs' (u\<lparr>slobfree := cur\<rparr>)"
    "free_bytes xs' (u\<lparr>slobfree := cur\<rparr>) = free_bytes (cur # R) t \<union> region t b"
    "arena u = arena t" "mem u = mem t" "bigblocks u = bigblocks t"
    using link_prev [OF R(1) ca] unfolding u_def by blast
  have rc: "region t cur = region t0 cur" by (simp add: region_def fin_def R(5))
  have "free_bytes (cur # R) t = (if cur = arena t then {} else region t cur) \<union> free_bytes R t"
    by (auto simp: free_bytes_def)
  moreover have "free_bytes (cur # ys) t0 = (if cur = arena t0 then {} else region t0 cur) \<union> free_bytes ys t0"
    by (auto simp: free_bytes_def)
  ultimately have "free_bytes (cur # R) t \<union> region t b = free_bytes (cur # ys) t0 \<union> region t0 b"
    using R(2,4) rc by auto
  then have fu: "free_bytes xs' (u\<lparr>slobfree := cur\<rparr>) = free_bytes xs s \<union> {b ..< plus_units b k}"
    using x(2) fy fr rb by simp
  have "slob_free (Some b) n s = Some (u\<lparr>slobfree := cur\<rparr>)"
    by (simp only: slob_free_def option.case t0_def [symmetric], subst Let_def,
      simp only: c(2) Option.bind_lunit t_def [symmetric], subst Let_def, simp only: u_def [symmetric], subst Let_def, rule refl)
  then show thesis by (rule that [OF _ x(1) fu]) (use x R t0 in simp_all)
qed


section \<open>Taking a block\<close>

lemma cut_ok:
  assumes ok: "heap_ok xs s" and x: "p \<in> set xs" "nxt_block s p = x" "k \<le> units s x" "2 \<le> k"
  obtains s' xs' where "slob_cut p x al k 0 s = (x, s')" "heap_ok xs' s'" "{x ..< plus_units x k} \<subseteq> free_bytes xs s"
    "free_bytes xs' s' = free_bytes xs s - {x ..< plus_units x k}" "units s' x = k" "arena s' = arena s" "mem s' = mem s"
    "bigblocks s' = bigblocks s" "arena s + 16 < x"
proof -
  note d = heap_okD [OF ok]
  obtain ys where ys: "heap_ok (p # ys) s" "set (p # ys) = set xs" using heap_ok_from [OF ok x(1)] .
  have fb: "free_bytes xs s = free_bytes (p # ys) s" using ys(2) by (simp add: free_bytes_def)
  note e = heap_okD [OF ys(1)]
  have xin: "x \<in> set (p # ys)" using ring_next [OF e(1), of p] x(2) by simp
  have xa: "x \<noteq> arena s" using x(3,4) e(4) by auto
  have xp: "x \<noteq> p"
  proof
    assume "x = p"
    then have "ys = []" using e(1) x(2) by (cases ys) (auto simp: ring_Cons)
    then show False using e(2) xa \<open>x = p\<close> by simp
  qed
  then obtain zs where zs: "ys = x # zs" using e(1) xin x(2) by (cases ys) (auto simp: ring_Cons)
  note e = e [unfolded zs] and ok' = ys(1) [unfolded zs]
  have dis: "distinct (p # x # zs)" and pa: "path (nxt_block s) x (zs @ [p])" using e(1) by (auto simp: ring_Cons)
  have ua: "0 < units s x" "0 < units s p" using e(6) by auto
  have ar: "arena s \<in> set (p # zs)" using e(2) xa by auto
  have px: "fin s p < x" using e(5) [of p] x(2) xa by (auto simp: spaced_def)
  have fx: "fin s x = x + 16 * nat (units s x)" by (rule fin_eq(1) [OF ua(1)])
  have pk: "plus_units x k = x + 16 * nat k" using x(4) by (simp add: plus_units_def SLOB_UNIT_def)
  have kle: "plus_units x k \<le> fin s x" "x < plus_units x k" using x(3,4) by (simp_all add: pk fx)
  have sub: "{x ..< plus_units x k} \<subseteq> free_bytes xs s"
    unfolding fb zs using kle xa by (auto simp: free_bytes_def region_def)
  have axl: "arena s + 16 < x" by (rule heap_ascends(4) [OF ok']) (use xa in auto)
  have fb': "free_bytes xs s = free_bytes (p # x # zs) s" unfolding fb zs by (rule refl)
  have reg: "region s y \<inter> region s x = {}" if "y \<in> set (p # zs)" for y
    using region_disjoint [OF ok', of x y] that dis by auto
  have Fx: "free_bytes (p # x # zs) s = free_bytes (p # zs) s \<union> region s x" "free_bytes (p # zs) s \<inter> region s x = {}"
    using reg xa by (auto simp: free_bytes_def)
  show thesis
  proof (cases "units s x = k")
    case True
    let ?t = "(set_next p (nxt_block s x) s)\<lparr>slobfree := p\<rparr>"
    have c: "slob_cut p x al k 0 s = (x, ?t)" using True by (simp add: slob_cut_def)
    have "path ((nxt_block s)(p := nxt_block s x)) p (zs @ [p])"
    proof (cases zs)
      case (Cons y ws)
      then have "path (nxt_block s) y (ws @ [p])" "nxt_block s x = y" using pa by auto
      moreover then have "path ((nxt_block s)(p := nxt_block s x)) y (ws @ [p])" using dis Cons by (subst path_upd) auto
      ultimately show ?thesis using Cons by simp
    qed (use pa in simp)
    then have r: "ring (nxt_block ?t) (p # zs)" using dis by (simp add: ring_Cons)
    have sp: "spaced ?t y" if "y \<in> set (p # zs)" for y
    proof (cases "y = p")
      case True
      have "nxt_block s x = arena s \<or> fin s x < nxt_block s x" using e(5) [of x] by (simp add: spaced_def)
      then show ?thesis using True ua px kle by (auto simp: spaced_def)
    next
      case False
      then show ?thesis using that e(5) [of y] by (auto simp: spaced_def)
    qed
    have "heap_ok (p # zs) ?t" using r ar e(4) sp by (simp add: heap_ok_def)
    moreover have "free_bytes (p # zs) ?t = free_bytes (p # zs) s" by (simp add: free_bytes_def region_def)
    moreover have "region s x = {x ..< plus_units x k}" using True by (simp add: region_def fin_def)
    ultimately show thesis using c Fx sub True axl unfolding fb'
      by (intro that [of ?t "p # zs"]) (auto simp: fb' set_next_def)
  next
    case False
    define y where "y = plus_units x k"
    let ?s1 = "set_units y (units s x - k) (set_next p y s)"
    let ?s2 = "set_next y (nxt_block s x) ?s1"
    let ?t = "(set_units x k ?s2)\<lparr>slobfree := p\<rparr>"
    have yx: "x < y" "y < fin s x" using kle x(3) False unfolding y_def by (simp_all add: pk fx)
    have yreg: "y \<in> region s x" using yx by (simp add: region_def)
    have yn: "y \<notin> set (p # x # zs)"
    proof
      assume yi: "y \<in> set (p # x # zs)"
      have "y < fin s y" by (rule heap_ascends(2) [OF ok' yi yi])
      then have "y = x" using region_disjoint [OF ok' yi _ _ yreg] by (auto simp: region_def)
      then show False using yx by simp
    qed
    have c: "slob_cut p x al k 0 s = (x, ?t)"
      using False xp yn dis by (simp add: slob_cut_def y_def [symmetric] Let_def)
    have u: "units ?t = (units s)(y := units s x - k, x := k)" "nxt_block ?t = (nxt_block s)(p := y, y := nxt_block s x)"
      by simp_all
    have p2: "path (nxt_block ?t) y (zs @ [p])"
    proof (cases zs)
      case (Cons w ws)
      then have "path (nxt_block s) w (ws @ [p])" "nxt_block s x = w" using pa by auto
      moreover then have "path (nxt_block ?t) w (ws @ [p])" unfolding u using dis yn Cons by (simp add: path_upd)
      ultimately show ?thesis using Cons by simp
    qed (use pa in simp)
    have r: "ring (nxt_block ?t) (p # y # zs)"
      using p2 dis yn by (auto simp: ring_Cons)
    have fy: "fin ?t y = fin s x"
      using yx x(3) False x(4) ua(1) unfolding y_def
      by (simp add: fin_def plus_units_def SLOB_UNIT_def nat_add_distrib)
    have fo: "fin ?t w = fin s w" if "w \<noteq> x" "w \<noteq> y" for w using that by (simp add: fin_def)
    have sp: "spaced ?t w" if "w \<in> set (p # y # zs)" for w
    proof -
      have w: "w \<in> set (p # y # zs)" by (rule that)
      consider "w = p" | "w = y" | "w \<in> set zs" "w \<noteq> p" "w \<noteq> y" "w \<noteq> x" using w dis yn by auto
      then show ?thesis
      proof cases
        case 1
        then show ?thesis using ua px yx fo [of p] xp yn by (auto simp: spaced_def)
      next
        case 2
        have "nxt_block s x = arena s \<or> fin s x < nxt_block s x" using e(5) [of x] by (simp add: spaced_def)
        then show ?thesis using 2 fy x(3) False yx by (auto simp: spaced_def)
      next
        case 3
        then show ?thesis using e(5) [of w] fo [of w] by (auto simp: spaced_def)
      qed
    qed
    have ya: "y \<noteq> arena s" using yn ar by auto
    have "heap_ok (p # y # zs) ?t" using r ar e(4) sp xa ya by (auto simp: heap_ok_def)
    moreover have "free_bytes (p # y # zs) ?t = free_bytes (p # zs) s \<union> {y ..< fin s x}"
    proof -
      have "region ?t w = region s w" if "w \<in> set (p # zs)" for w
      proof -
        have "w \<noteq> x" "w \<noteq> y" using that dis yn by auto
        then show ?thesis unfolding region_def using fo [of w] by simp
      qed
      moreover have "region ?t y = {y ..< fin s x}" unfolding region_def fy by simp
      ultimately show ?thesis using ya by (auto simp: free_bytes_def)
    qed
    moreover have "region s x = {x ..< y} \<union> {y ..< fin s x}" using yx by (auto simp: region_def)
    ultimately show thesis using c Fx sub axl unfolding fb' y_def [symmetric]
      by (intro that [of ?t "p # y # zs"]) (auto simp: fb' y_def [symmetric])
  qed
qed

text \<open>The search visits the blocks in the order of the list, from the one after \<open>slobfree\<close> on.\<close>

lemma search_path:
  assumes "path (nxt_block s) p vs" "vs \<noteq> []" "last vs = slobfree s" "slobfree s \<notin> set (butlast vs)"
  shows "(\<exists>q x. q \<in> set (p # vs) \<and> nxt_block s q = x \<and> int (SLOB_UNITS n) \<le> units s x
      \<and> slob_search n 0 p (nxt_block s p) s = (case slob_cut q x 0 (int (SLOB_UNITS n)) 0 s of (b, s) \<Rightarrow> Some (Some b, s)))
    \<or> ((\<forall>x \<in> set vs. units s x < int (SLOB_UNITS n))
      \<and> (\<exists>q. slob_search n 0 p (nxt_block s p) s = slob_search n 0 q (slobfree s) s))"
  using assms
proof (induction vs arbitrary: p)
  case (Cons v vs)
  have v: "nxt_block s p = v" using Cons.prems(1) by simp
  show ?case
  proof (cases "int (SLOB_UNITS n) \<le> units s v")
    case True
    have "slob_search n 0 p v s = (case slob_cut p v 0 (int (SLOB_UNITS n)) 0 s of (b, s) \<Rightarrow> Some (Some b, s))"
      using True by (subst slob_search.simps) (simp add: Let_def)
    then show ?thesis using v True by (intro disjI1 exI [of _ p] exI [of _ v]) simp
  next
    case False
    show ?thesis
    proof (cases vs)
      case Nil
      then show ?thesis using False v Cons.prems by auto
    next
      case (Cons w ws)
      then have vn: "v \<noteq> slobfree s" using Cons.prems(4) by auto
      have "slob_search n 0 p v s = slob_search n 0 v (nxt_block s v) s"
        using False vn by (subst slob_search.simps) (simp add: Let_def)
      moreover have pr: "path (nxt_block s) v vs" "vs \<noteq> []" "last vs = slobfree s" "slobfree s \<notin> set (butlast vs)"
        using Cons.prems Cons by (auto split: if_splits)
      ultimately show ?thesis using Cons.IH [OF pr] v False by auto
    qed
  qed
qed simp

lemma search_ring:
  assumes "heap_ok xs s"
  shows "(\<exists>q x. q \<in> set xs \<and> nxt_block s q = x \<and> int (SLOB_UNITS n) \<le> units s x
      \<and> slob_search n 0 (slobfree s) (nxt_block s (slobfree s)) s
        = (case slob_cut q x 0 (int (SLOB_UNITS n)) 0 s of (b, s) \<Rightarrow> Some (Some b, s)))
    \<or> ((\<forall>x \<in> set xs. units s x < int (SLOB_UNITS n))
      \<and> (\<exists>q. slob_search n 0 (slobfree s) (nxt_block s (slobfree s)) s = slob_search n 0 q (slobfree s) s))"
proof -
  obtain ys where ys: "heap_ok (slobfree s # ys) s" "set (slobfree s # ys) = set xs"
    using heap_ok_from [OF assms heap_okD(3) [OF assms]] .
  have r: "path (nxt_block s) (slobfree s) (ys @ [slobfree s])" "slobfree s \<notin> set ys"
    using heap_okD(1) [OF ys(1)] by (auto simp: ring_Cons)
  have e: "set (ys @ [slobfree s]) = set xs" "set (slobfree s # ys @ [slobfree s]) = set xs" using ys(2) by auto
  have sl: "ys @ [slobfree s] \<noteq> []" "last (ys @ [slobfree s]) = slobfree s" "slobfree s \<notin> set (butlast (ys @ [slobfree s]))"
    using r(2) by simp_all
  show ?thesis using search_path [OF r(1) sl, of n] unfolding e .
qed


section \<open>The heap and the page allocator\<close>

definition page_bytes :: "nat \<Rightarrow> nat set" where
  "page_bytes p = {kva (p + nbase) ..< kva (p + nbase) + PGSIZE}"

text \<open>
  The heap with the free bytes \<open>F\<close>: they, the static block and the pages the page allocator could
  still hand out are apart.
\<close>

definition heap_inv :: "nat set \<Rightarrow> slob \<Rightarrow> bool" where
  "heap_inv F s \<longleftrightarrow> (\<exists>xs. heap_ok xs s \<and> F = free_bytes xs s) \<and> pmm_inv (pool (mem s))
     \<and> (\<forall>p \<in> free_set (pool (mem s)). p + nbase < npage \<and> arena s + 16 < kva (p + nbase) \<and> F \<inter> page_bytes p = {})"

lemma kva_eq: "k < npage \<Longrightarrow> kva k = k * 4096 + 0xFFFFFFFF40000000"
  by (simp add: kva_def npage_def PHYSICAL_MEMORY_END_def KERNTOP_def KERNBASE_def PGSIZE_def)

lemma page_bytes_disjoint:
  assumes "p + nbase < npage" "q + nbase < npage" "p \<noteq> q"
  shows "page_bytes p \<inter> page_bytes q = {}"
  using assms by (auto simp: page_bytes_def kva_eq PGSIZE_def)

lemma alloc_page_none:
  assumes "pmm_inv (pool m)" "free_set (pool m) = {}" "\<not> swap_init_ok m"
  shows "alloc_pages 1 m = Some (None, m)"
proof -
  obtain r pl where r: "default_alloc_pages 1 (pool m) = Some (r, pl)"
    "case r of None \<Rightarrow> pl = pool m | Some p \<Rightarrow> {p ..< p + 1} \<subseteq> free_set (pool m)"
    using default_alloc_spec [OF assms(1), of 1] by (auto split: option.splits)
  then have "r = None" using assms(2) by (cases r) auto
  then show ?thesis using r assms(3) by (simp add: alloc_pages_def)
qed

lemma take_block:
  assumes ok: "heap_ok xs s" and n: "17 \<le> n"
    and x: "q \<in> set xs" "nxt_block s q = x" "int (SLOB_UNITS n) \<le> units s x"
  obtains b s' xs' where "slob_cut q x 0 (int (SLOB_UNITS n)) 0 s = (b, s')" "heap_ok xs' s'"
    "{b ..< b + 16 * SLOB_UNITS n} \<subseteq> free_bytes xs s" "free_bytes xs' s' = free_bytes xs s - {b ..< b + 16 * SLOB_UNITS n}"
    "units s' b = int (SLOB_UNITS n)" "arena s' = arena s" "mem s' = mem s" "bigblocks s' = bigblocks s" "arena s + 16 < b"
proof -
  have k: "2 \<le> int (SLOB_UNITS n)" using n by (simp add: SLOB_UNITS_def SLOB_UNIT_def)
  have pu: "plus_units x (int (SLOB_UNITS n)) = x + 16 * SLOB_UNITS n"
    by (simp add: plus_units_def SLOB_UNIT_def)
  show thesis
    by (rule cut_ok [OF ok x k, of 0]) (rule that, unfold pu; assumption)
qed

lemma alloc_page_fault:
  assumes "pmm_inv (pool m)" "free_set (pool m) = {}" "swap_init_ok m"
  shows "alloc_pages 1 m = None"
proof -
  obtain r pl where r: "default_alloc_pages 1 (pool m) = Some (r, pl)"
    "case r of None \<Rightarrow> pl = pool m | Some p \<Rightarrow> {p ..< p + 1} \<subseteq> free_set (pool m)"
    using default_alloc_spec [OF assms(1), of 1] by (auto split: option.splits)
  then have "r = None" using assms(2) by (cases r) auto
  then show ?thesis using r assms(3) by (simp add: alloc_pages_def)
qed

text \<open>What a request of \<open>n\<close> bytes takes: a block out of the free bytes, with a fresh page if need be.\<close>

definition took :: "nat \<Rightarrow> nat set \<Rightarrow> slob \<Rightarrow> nat \<Rightarrow> nat set \<Rightarrow> slob \<Rightarrow> bool" where
  "took n F s b F' s' \<longleftrightarrow> (\<exists>P. (P = {} \<and> mem s' = mem s
        \<or> (\<exists>p \<in> free_set (pool (mem s)). P = page_bytes p \<and> free_set (pool (mem s')) = free_set (pool (mem s)) - {p}))
      \<and> {b ..< b + 16 * SLOB_UNITS n} \<subseteq> F \<union> P \<and> F' = F \<union> P - {b ..< b + 16 * SLOB_UNITS n})
    \<and> units s' b = int (SLOB_UNITS n) \<and> arena s' = arena s \<and> arena s + 16 < b \<and> bigblocks s' = bigblocks s"

lemma slob_alloc_ok:
  assumes inv: "heap_inv F s" and n: "17 \<le> n" "n + 16 < 4096"
  shows "slob_alloc n 0 s = None \<and> free_set (pool (mem s)) = {} \<and> swap_init_ok (mem s)
    \<or> (\<exists>r s' F'. slob_alloc n 0 s = Some (r, s') \<and> heap_inv F' s'
    \<and> (case r of None \<Rightarrow> free_set (pool (mem s)) = {} \<and> \<not> swap_init_ok (mem s) \<and> s' = s \<and> F' = F | Some b \<Rightarrow> took n F s b F' s'))"
proof -
  let ?k = "int (SLOB_UNITS n)"
  obtain xs where ok: "heap_ok xs s" and F: "F = free_bytes xs s" and pm: "pmm_inv (pool (mem s))"
    using inv by (auto simp: heap_inv_def)
  have sep: "p + nbase < npage" "arena s + 16 < kva (p + nbase)" "F \<inter> page_bytes p = {}" if "p \<in> free_set (pool (mem s))" for p
    using inv that by (auto simp: heap_inv_def)
  have al: "slob_alloc n 0 s = slob_search n 0 (slobfree s) (nxt_block s (slobfree s)) s"
    using n(2) by (simp add: slob_alloc_def SLOB_UNIT_def PGSIZE_def kassert_def)
  from search_ring [OF ok, of n] show ?thesis
  proof (elim disjE exE conjE)
    fix q x assume x: "q \<in> set xs" "nxt_block s q = x" "?k \<le> units s x"
      and r: "slob_search n 0 (slobfree s) (nxt_block s (slobfree s)) s = (case slob_cut q x 0 ?k 0 s of (b, s) \<Rightarrow> Some (Some b, s))"
    obtain b s' xs' where t: "slob_cut q x 0 ?k 0 s = (b, s')" "heap_ok xs' s'"
      "{b ..< b + 16 * SLOB_UNITS n} \<subseteq> free_bytes xs s" "free_bytes xs' s' = free_bytes xs s - {b ..< b + 16 * SLOB_UNITS n}"
      "units s' b = ?k" "arena s' = arena s" "mem s' = mem s" "bigblocks s' = bigblocks s" "arena s + 16 < b"
      by (rule take_block [OF ok n(1) x])
    have "heap_inv (free_bytes xs' s') s'"
      unfolding heap_inv_def
    proof (intro conjI ballI)
      show "\<exists>xs. heap_ok xs s' \<and> free_bytes xs' s' = free_bytes xs s'" using t(2) by blast
      fix p assume "p \<in> free_set (pool (mem s'))"
      then have p: "p \<in> free_set (pool (mem s))" using t(7) by simp
      show "p + nbase < npage" "arena s' + 16 < kva (p + nbase)" using sep [OF p] t(6) by simp_all
      show "free_bytes xs' s' \<inter> page_bytes p = {}" using sep(3) [OF p] unfolding t(4) F by blast
    qed (simp add: t(7) pm)
    moreover have "took n F s b (free_bytes xs' s') s'" unfolding took_def using t F by auto
    ultimately show ?thesis unfolding al r t(1) by auto
  next
    fix q assume small: "\<forall>x \<in> set xs. units s x < ?k"
      and r: "slob_search n 0 (slobfree s) (nxt_block s (slobfree s)) s = slob_search n 0 q (slobfree s) s"
    have "units s (slobfree s) < ?k" using small heap_okD(3) [OF ok] by blast
    then have u: "slob_search n 0 q (slobfree s) s =
       do {
              (page, s) \<leftarrow> slob_get_free_pages 0 s;
              (case page of
                 None \<Rightarrow> Some (None, s)
               | Some _ \<Rightarrow> do {
                   s \<leftarrow> slob_free page PGSIZE s;
                   slob_search n 0 (slobfree s) (nxt_block s (slobfree s)) s
                 })
            }"
      using n by (subst slob_search.simps) (simp add: Let_def PGSIZE_def)
    show ?thesis
    proof (cases "free_set (pool (mem s)) = {}")
      case True
      show ?thesis
      proof (cases "swap_init_ok (mem s)")
        case swap: True
        have "slob_get_free_pages 0 s = None"
          using alloc_page_fault [OF pm True swap] by (simp add: slob_get_free_pages_def)
        then show ?thesis unfolding al r u using True swap by simp
      next
        case noswap: False
        have "slob_get_free_pages 0 s = Some (None, s)"
          using alloc_page_none [OF pm True noswap] by (simp add: slob_get_free_pages_def)
        then show ?thesis unfolding al r u using True noswap inv by auto
      qed
    next
      case False
      have fin: "finite (free_set (pool (mem s)))" and c: "nr_free (pool (mem s)) = card (free_set (pool (mem s)))"
        using pmm_ok_card pm by (auto simp: pmm_inv_def)
      have n1: "1 \<le> nr_free (pool (mem s))" using False fin by (simp add: c card_gt_0_iff Suc_le_eq)
      obtain p pl where a: "alloc_pages 1 (mem s) = Some (Some p, (mem s)\<lparr>pool := pl\<rparr>)" "pmm_inv pl" "p \<in> free_set (pool (mem s))"
        "free_set pl = free_set (pool (mem s)) - {p}" "nr_free pl = nr_free (pool (mem s)) - 1"
        by (rule alloc_page_some [OF pm n1])
      let ?b = "kva (p + nbase)"
      let ?s = "s\<lparr>mem := (mem s)\<lparr>pool := pl\<rparr>\<rparr>"
      note sp = sep [OF a(3)]
      have pg: "slob_get_free_pages 0 s = Some (Some ?b, ?s)"
        using a(1) sp(1) by (simp add: slob_get_free_pages_def page2kva_def KADDR_def page2ppn_def kassert_def)
      have oks: "heap_ok xs ?s" "free_bytes xs ?s = F"
        using ok unfolding F by (simp_all add: heap_ok_def spaced_def free_bytes_def region_def fin_def)
      have pu: "plus_units ?b 256 = ?b + PGSIZE" by (simp add: plus_units_def SLOB_UNIT_def PGSIZE_def nat_add_distrib)
      have fr: "{?b ..< plus_units ?b 256} \<inter> free_bytes xs ?s = {}" using sp(3) unfolding pu oks(2) page_bytes_def by auto
      obtain s1 xs1 where f: "slob_free (Some ?b) PGSIZE ?s = Some s1" "heap_ok xs1 s1"
        "free_bytes xs1 s1 = free_bytes xs ?s \<union> {?b ..< plus_units ?b 256}" "arena s1 = arena ?s" "mem s1 = mem ?s" "bigblocks s1 = bigblocks ?s"
        by (rule slob_free_ok [OF oks(1) _ _ _ fr, of PGSIZE]) (use sp(2) in \<open>simp_all add: PGSIZE_def SLOB_UNITS_def SLOB_UNIT_def\<close>)
      have F1: "free_bytes xs1 s1 = F \<union> page_bytes p" using f(3) oks(2) by (simp add: pu page_bytes_def)
      have run: "{?b ..< ?b + PGSIZE} \<subseteq> free_bytes xs1 s1" unfolding F1 page_bytes_def by auto
      obtain y where y: "y \<in> set xs1 - {arena s1}" "y \<le> ?b" "?b + PGSIZE \<le> fin s1 y"
        by (rule run_in_block [OF f(2) run]) (simp add: PGSIZE_def)
      have "SLOB_UNITS n \<le> 256" using n(2) by (simp add: SLOB_UNITS_def SLOB_UNIT_def)
      moreover have "256 \<le> units s1 y" using y fin_eq(1) [of s1 y] heap_okD(6) [OF f(2), of y] by (auto simp: PGSIZE_def)
      ultimately have "?k \<le> units s1 y" by simp
      then have big: "\<not> (\<forall>x \<in> set xs1. units s1 x < ?k)" using y(1) by force
      from search_ring [OF f(2), of n] big obtain q' x where x: "q' \<in> set xs1" "nxt_block s1 q' = x" "?k \<le> units s1 x"
        and r1: "slob_search n 0 (slobfree s1) (nxt_block s1 (slobfree s1)) s1 = (case slob_cut q' x 0 ?k 0 s1 of (b, s) \<Rightarrow> Some (Some b, s))"
        by blast
      obtain b s' xs' where t: "slob_cut q' x 0 ?k 0 s1 = (b, s')" "heap_ok xs' s'"
        "{b ..< b + 16 * SLOB_UNITS n} \<subseteq> free_bytes xs1 s1" "free_bytes xs' s' = free_bytes xs1 s1 - {b ..< b + 16 * SLOB_UNITS n}"
        "units s' b = ?k" "arena s' = arena s1" "mem s' = mem s1" "bigblocks s' = bigblocks s1" "arena s1 + 16 < b"
        by (rule take_block [OF f(2) n(1) x])
      have m: "pool (mem s') = pl" "arena s' = arena s" "bigblocks s' = bigblocks s" using t(6,7,8) f(4,5,6) by simp_all
      have "heap_inv (free_bytes xs' s') s'"
        unfolding heap_inv_def
      proof (intro conjI ballI)
        show "\<exists>xs. heap_ok xs s' \<and> free_bytes xs' s' = free_bytes xs s'" using t(2) by blast
        fix p' assume "p' \<in> free_set (pool (mem s'))"
        then have p': "p' \<in> free_set (pool (mem s))" "p' \<noteq> p" using a(4) m(1) by auto
        show "p' + nbase < npage" "arena s' + 16 < kva (p' + nbase)" using sep [OF p'(1)] m(2) by simp_all
        have "page_bytes p \<inter> page_bytes p' = {}" by (rule page_bytes_disjoint) (use sp(1) sep(1) [OF p'(1)] p'(2) in auto)
        then show "free_bytes xs' s' \<inter> page_bytes p' = {}" using sep(3) [OF p'(1)] unfolding t(4) F1 by blast
      qed (simp add: m(1) a(2))
      moreover have "took n F s b (free_bytes xs' s') s'"
        unfolding took_def
      proof (intro conjI exI [of _ "page_bytes p"])
        show "page_bytes p = {} \<and> mem s' = mem s \<or> (\<exists>q \<in> free_set (pool (mem s)). page_bytes p = page_bytes q \<and> free_set (pool (mem s')) = free_set (pool (mem s)) - {q})"
          using a(3,4) m(1) by auto
        show "arena s + 16 < b" using t(9) f(4) by simp
      qed (use t m F1 in auto)
      ultimately show ?thesis unfolding al r u pg using f(1) r1 t(1) by auto
    qed
  qed
qed

end
