(* ===== verification/Kmalloc_Props.thy ===== *)
theory Kmalloc_Props
  imports Kmalloc_Heap
begin

text \<open>
  Properties of \<open>kmalloc\<close> and \<open>kfree\<close>: the bytes they take and give back, and the sizes for which
  \<open>kmalloc\<close> does not do what is asked.
\<close>

section \<open>What the heap leaves alone\<close>

lemma set_mem: "mem (set_units b k s) = mem s" "mem (set_next b x s) = mem s"
  by (simp_all add: set_units_def set_next_def)

lemma slob_cut_mem: "slob_cut q x al k d s = (b, s') \<Longrightarrow> mem s' = mem s"
  by (cases "d = 0") (auto simp: slob_cut_def Let_def set_mem)

lemma mem_let: "mem e = m \<Longrightarrow> (\<And>x. mem x = m \<Longrightarrow> mem (f x) = m) \<Longrightarrow> mem (let x = e in f x) = m"
  by (simp add: Let_def)

lemma mem_if: "mem x = m \<Longrightarrow> mem y = m \<Longrightarrow> mem (if c then x else y) = m"
  by simp

lemma slob_free_mem: "slob_free p n s = Some s' \<Longrightarrow> mem s' = mem s"
proof (cases p)
  fix b assume r: "slob_free p n s = Some s'" "p = Some b"
  have k: "r = Some s' \<longrightarrow> mem s' = mem s \<Longrightarrow> r = Some s' \<Longrightarrow> mem s' = mem s" for r :: "slob option" by simp
  have l: "(let x = e in f x) = Some s' \<longrightarrow> mem s' = mem s"
    if "mem e = mem s" "\<And>x. mem x = mem s \<Longrightarrow> f x = Some s' \<longrightarrow> mem s' = mem s" for e :: slob and f
    using that by (simp add: Let_def)
  have b: "Option.bind r f = Some s' \<longrightarrow> mem s' = mem s"
    if "\<And>x :: nat. f x = Some s' \<longrightarrow> mem s' = mem s" for r f
    using that by (cases r) auto
  show "mem s' = mem s"
    using r unfolding slob_free_def option.case
    by (elim k [rotated]) (simp only: option.case, (intro l b mem_let mem_if impI; auto simp: set_mem)+)
qed (simp add: slob_free_def)

lemma carve_reserved: "PageReserved (pages (carve x n s) i) = PageReserved (pages s i)"
  by (simp add: carve_def Let_def)

lemma default_alloc_reserved:
  assumes "default_alloc_pages n s = Some (r, s')"
  shows "PageReserved (pages s' i) = PageReserved (pages s i)"
proof (cases "nr_free s < n")
  case True
  then show ?thesis using assms by (simp add: default_alloc_pages_def bind_Some_iff)
next
  case False
  then obtain found where f: "find_first n (pages s) (flinks s) FreeList = Some found"
    "(case found of None \<Rightarrow> Some (None, s) | Some pg \<Rightarrow> Some (Some pg, carve pg n s)) = Some (r, s')"
    using assms unfolding default_alloc_pages_def by (auto simp: bind_Some_iff)
  show ?thesis using f(2) carve_reserved by (cases found) auto
qed

lemma alloc_pagesD:
  assumes "alloc_pages n m = Some (r, m')"
  obtains pl where "default_alloc_pages n (pool m) = Some (r, pl)" "m' = m\<lparr>pool := pl\<rparr>"
proof (cases "default_alloc_pages n (pool m)")
  case (Some a)
  obtain r' pl where a: "a = (r', pl)" by (cases a)
  have "r' = r \<and> m' = m\<lparr>pool := pl\<rparr>" using assms Some a by (simp add: alloc_pages_def split: if_split_asm)
  then show thesis using that Some a by simp
qed (use assms in \<open>simp add: alloc_pages_def\<close>)

lemma alloc_pages_reserved: "alloc_pages n m = Some (r, m') \<Longrightarrow> PageReserved (pages (pool m') i) = PageReserved (pages (pool m) i)"
  by (erule alloc_pagesD) (simp add: default_alloc_reserved)

lemma addr2page_kva:
  assumes "p + nbase < npage" "KERNBASE \<le> kva (p + nbase)"
  shows "addr2page (kva (p + nbase)) = Some p"
proof -
  obtain k where k: "p + nbase = k" by simp
  have n: "k < 2 ^ 20" using assms k by (simp add: npage_def PHYSICAL_MEMORY_END_def KERNTOP_def KERNBASE_def PGSIZE_def)
  have b: "KERNBASE \<le> kva k" "nbase \<le> k" "k < npage" "k - nbase = p"
    using assms k by auto
  have "word_of_nat (kva k) - (0xFFFFFFFF40000000 :: 64 word) = word_of_nat (k * 4096)"
    by (simp add: kva_eq [OF b(3)])
  moreover have "PPN (word_of_nat (k * 4096)) = k"
  proof -
    have "unat (word_of_nat (k * 4096) :: 64 word) = k * 4096" 
      unfolding unsigned_of_nat of_nat_id by (rule take_bit_nat_eq_self) (use n in simp)
    moreover have "PPN w = unat w div 4096" for w by (simp add: PPN_def drop_bit_eq_div unat_div)
    ultimately show ?thesis by simp
  qed
  ultimately show ?thesis using b unfolding k by (simp add: addr2page_def pa2page_def kassert_def)
qed

lemma kva_less: "p + nbase < npage \<Longrightarrow> q + nbase < npage \<Longrightarrow> kva (p + nbase) < kva (q + nbase) \<longleftrightarrow> p < q"
  by (simp add: kva_eq)

lemma kva_aligned: "p + nbase < npage \<Longrightarrow> kva (p + nbase) mod PGSIZE = 0"
  by (simp add: kva_eq PGSIZE_def mod_add_eq [symmetric])

lemma slob_search_reserved:
  assumes "slob_search n al prev cur s = Some (r, s')"
  shows "PageReserved (pages (pool (mem s')) i) = PageReserved (pages (pool (mem s)) i)"
proof -
  let ?P = "\<lambda>n al prev cur s x. PageReserved (pages (pool (mem (snd x))) i) = PageReserved (pages (pool (mem s)) i)"
  have "?P n al prev cur s (r, s')"
  proof (rule slob_search.raw_induct [OF _ assms, of ?P], goal_cases)
    case (1 f n al prev cur s x)
    obtain aligned delta k where e: "(if units s cur \<ge> k + delta then
           (case slob_cut prev cur aligned k delta s of (b, s) \<Rightarrow> Some (Some b, s))
         else if cur = slobfree s then
           (if n = PGSIZE then Some (None, s)
            else do {
              (page, s) \<leftarrow> slob_get_free_pages 0 s;
              (case page of
                 None \<Rightarrow> Some (None, s)
               | Some _ \<Rightarrow> do {
                   s \<leftarrow> slob_free page PGSIZE s;
                   f n al (slobfree s) (nxt_block s (slobfree s)) s
                 })
            })
         else f n al cur (nxt_block s cur) s) = Some x"
      using 1(2) by (simp only: Let_def)
    show ?case
    proof (cases "units s cur \<ge> k + delta")
      case True
      obtain b t where "slob_cut prev cur aligned k delta s = (b, t)" by (metis surj_pair)
      then show ?thesis using e True slob_cut_mem by auto
    next
      case no: False
      show ?thesis
      proof (cases "cur = slobfree s")
        case False
        then show ?thesis using e no 1(1) by simp
      next
        case True
        have g: "PageReserved (pages (pool (mem t)) i) = PageReserved (pages (pool (mem s)) i)" if "slob_get_free_pages 0 s = Some (page, t)" for page t
          using that alloc_pages_reserved by (auto simp: slob_get_free_pages_def bind_Some_iff Let_def split: option.splits)
        show ?thesis
        proof (cases "n = PGSIZE")
          case False
          then obtain page t where t: "slob_get_free_pages 0 s = Some (page, t)"
            "(case page of None \<Rightarrow> Some (None, t) | Some _ \<Rightarrow> do { s \<leftarrow> slob_free page PGSIZE t; f n al (slobfree s) (nxt_block s (slobfree s)) s }) = Some x"
            using e no True by (auto simp: bind_Some_iff)
          show ?thesis
          proof (cases page)
            case None
            then show ?thesis using t g by auto
          next
            case (Some p)
            then obtain u where u: "slob_free page PGSIZE t = Some u" "f n al (slobfree u) (nxt_block u (slobfree u)) u = Some x"
              using t(2) by (auto simp: bind_Some_iff)
            show ?thesis using 1(1) [OF u(2)] slob_free_mem [OF u(1)] g [OF t(1)] by simp
          qed
        qed (use e no True in auto)
      qed
    qed
  qed
  then show ?thesis by simp
qed

lemma slob_alloc_reserved:
  "slob_alloc n al s = Some (r, s') \<Longrightarrow> PageReserved (pages (pool (mem s')) i) = PageReserved (pages (pool (mem s)) i)"
  using slob_search_reserved by (auto simp: slob_alloc_def)


lemma heap_ok_more:
  "heap_ok xs (s\<lparr>mem := m\<rparr>) = heap_ok xs s" "free_bytes xs (s\<lparr>mem := m\<rparr>) = free_bytes xs s"
  "heap_ok xs (s\<lparr>bigblocks := bs\<rparr>) = heap_ok xs s" "free_bytes xs (s\<lparr>bigblocks := bs\<rparr>) = free_bytes xs s"
  by (simp_all add: heap_ok_def spaced_def free_bytes_def region_def fin_def)

text \<open>A block given back to the heap: \<open>slob_free\<close> with the size \<open>n\<close>, or the size in the header for 0.\<close>

lemma give_back:
  assumes inv: "heap_inv F s" and n: "n = 0 \<and> units s b = int k \<or> n \<noteq> 0 \<and> k = SLOB_UNITS n" and k: "0 < k" and b: "arena s + 16 < b"
    and apart: "{b ..< b + 16 * k} \<inter> F = {}" "\<forall>p \<in> free_set (pool (mem s)). {b ..< b + 16 * k} \<inter> page_bytes p = {}"
  shows "\<exists>s'. slob_free (Some b) n s = Some s' \<and> heap_inv (F \<union> {b ..< b + 16 * k}) s' \<and> mem s' = mem s
    \<and> bigblocks s' = bigblocks s \<and> arena s' = arena s"
proof -
  obtain xs where ok: "heap_ok xs s" and F: "F = free_bytes xs s" using inv by (auto simp: heap_inv_def)
  have pu: "plus_units b (int k) = b + 16 * k" by (simp add: plus_units_def SLOB_UNIT_def)
  have r: "{b ..< plus_units b (int k)} \<inter> free_bytes xs s = {}" using apart(1) F unfolding pu by simp
  have n': "n = 0 \<and> units s b = int k \<or> n \<noteq> 0 \<and> int k = int (SLOB_UNITS n)" using n by auto
  obtain s' xs' where f: "slob_free (Some b) n s = Some s'" "heap_ok xs' s'"
    "free_bytes xs' s' = free_bytes xs s \<union> {b ..< plus_units b (int k)}"
    "arena s' = arena s" "mem s' = mem s" "bigblocks s' = bigblocks s"
    by (rule slob_free_ok [OF ok n' _ b r]) (use k in simp_all)
  have "heap_inv (F \<union> {b ..< b + 16 * k}) s'"
    unfolding heap_inv_def
  proof (intro conjI ballI)
    show "\<exists>xs. heap_ok xs s' \<and> F \<union> {b ..< b + 16 * k} = free_bytes xs s'" using f(2,3) unfolding F pu by blast
    show "pmm_inv (pool (mem s'))" using inv f(5) by (simp add: heap_inv_def)
    fix p assume "p \<in> free_set (pool (mem s'))"
    then have p: "p \<in> free_set (pool (mem s))" by (simp add: f(5))
    show "p + nbase < npage" "arena s' + 16 < kva (p + nbase)" using inv p f(4) by (auto simp: heap_inv_def)
    have "F \<inter> page_bytes p = {}" using inv p by (simp add: heap_inv_def)
    then show "(F \<union> {b ..< b + 16 * k}) \<inter> page_bytes p = {}" using bspec [OF apart(2) p] by (simp add: Int_Un_distrib2)
  qed
  then show ?thesis using f by auto
qed

text \<open>The pages given back to the page allocator, while a free page lies above them.\<close>

lemma slob_free_pages_ok:
  assumes inv: "heap_inv F s" and p: "p + nbase < npage" "KERNBASE \<le> kva (p + nbase)"
    and own: "{p ..< p + 2 ^ k} \<inter> free_set (pool (mem s)) = {}" "\<forall>i \<in> {p ..< p + 2 ^ k}. \<not> PageReserved (pages (pool (mem s)) i)"
    and low: "free_set (pool (mem s)) = {} \<or> (\<exists>i \<in> free_set (pool (mem s)). kva (p + nbase) < kva (i + nbase))"
  obtains m where "slob_free_pages (kva (p + nbase)) k s = Some (s\<lparr>mem := m\<rparr>)" "pmm_inv (pool m)"
    "free_set (pool m) = free_set (pool (mem s)) \<union> {p ..< p + 2 ^ k}"
proof -
  have i: "pmm_inv (pool (mem s))" using inv by (simp add: heap_inv_def)
  have low': "free_set (pool (mem s)) = {} \<or> (\<exists>i \<in> free_set (pool (mem s)). p < i)"
    using low kva_less [OF p(1)] inv by (auto simp: heap_inv_def)
  obtain pl where f: "default_free_pages p (2 ^ k) (pool (mem s)) = Some pl" "pmm_inv pl"
    "free_set pl = free_set (pool (mem s)) \<union> {p ..< p + 2 ^ k}"
    using default_free_ok [OF i _ own low'] by auto
  show thesis
    by (rule that [of "(mem s)\<lparr>pool := pl\<rparr>"]) (use f in \<open>simp_all add: slob_free_pages_def addr2page_kva [OF p] free_pages_def\<close>)
qed

text \<open>What a big request leaves behind: the entry's block, the pages, the entry at the head of the list.\<close>

lemma kmalloc_bigD:
  assumes inv: "heap_inv F s" and n: "4064 \<le> n" and r: "kmalloc n s = Some (Some a, s')"
  obtains b s1 F1 p pl k where "slob_alloc 24 0 s = Some (Some b, s1)" "heap_inv F1 s1" "took 24 F s b F1 s1"
    "p + nbase < npage" "a = kva (p + nbase)" "{p ..< p + 2 ^ k} \<subseteq> free_set (pool (mem s1))" "pmm_inv pl"
    "free_set pl = free_set (pool (mem s1)) - {p ..< p + 2 ^ k}" "default_alloc_pages (2 ^ k) (pool (mem s1)) = Some (Some p, pl)"
    "s' = s1\<lparr>mem := (mem s1)\<lparr>pool := pl\<rparr>, bigblocks := (b, k, a) # bigblocks s1\<rparr>"
proof -
  have n': "\<not> n < PGSIZE - SLOB_UNIT"
  proof
    assume "n < PGSIZE - SLOB_UNIT"
    then have "kmalloc n s = None" using n by (simp add: kmalloc_def slob_alloc_def PGSIZE_def SLOB_UNIT_def kassert_def)
    then show False using r by simp
  qed
  define k where "k = find_order (int32 (int n))"
  have a: "heap_inv F s" "17 \<le> (24 :: nat)" "24 + 16 < (4096 :: nat)" using inv by simp_all
  obtain bb s1 F1 where al: "slob_alloc 24 0 s = Some (bb, s1)" "heap_inv F1 s1"
    "case bb of None \<Rightarrow> free_set (pool (mem s)) = {} \<and> \<not> swap_init_ok (mem s) \<and> s1 = s \<and> F1 = F | Some b \<Rightarrow> took 24 F s b F1 s1"
    using slob_alloc_ok [OF a] r n' by (auto simp: kmalloc_def BIGBLOCK_SIZE_def)
  obtain b where b: "bb = Some b" using al(1) r n' by (cases bb) (auto simp: kmalloc_def BIGBLOCK_SIZE_def)
  obtain m p where m: "alloc_pages (2 ^ k) (mem s1) = Some (Some p, m)" "p + nbase < npage" "a = kva (p + nbase)"
    "s' = s1\<lparr>mem := m, bigblocks := (b, k, a) # bigblocks s1\<rparr>"
  proof -
    have e: "find_order (int32 (int n)) = k" "BIGBLOCK_SIZE = 24" by (simp_all add: k_def BIGBLOCK_SIZE_def)
    from r [unfolded kmalloc_def e] al(1) b n' obtain pg s2 where g: "slob_get_free_pages k s1 = Some (pg, s2)"
      "(case pg of Some a \<Rightarrow> Some (Some a, s2\<lparr>bigblocks := (b, k, a) # bigblocks s2\<rparr>)
        | None \<Rightarrow> do { s \<leftarrow> slob_free (Some b) 24 s2; Some (None, s) }) = Some (Some a, s')"
      by (auto simp: bind_Some_iff)
    then have pg: "pg = Some a" "s' = s2\<lparr>bigblocks := (b, k, a) # bigblocks s2\<rparr>" by (auto simp: bind_Some_iff split: option.splits)
    from g(1) obtain p m where "alloc_pages (2 ^ k) (mem s1) = Some (Some p, m)" "s2 = s1\<lparr>mem := m\<rparr>" "page2kva p = Some (p + nbase)" "a = kva (p + nbase)" "p + nbase < npage"
      unfolding slob_get_free_pages_def pg(1) Let_def bind_Some_iff
      by (auto simp: page2kva_def KADDR_def page2ppn_def kassert_def bind_Some_iff split: option.splits if_split_asm)
    then show thesis using that pg(2) by simp
  qed
  obtain pl where pl: "default_alloc_pages (2 ^ k) (pool (mem s1)) = Some (Some p, pl)" "m = (mem s1)\<lparr>pool := pl\<rparr>"
    by (rule alloc_pagesD [OF m(1)])
  have i: "pmm_inv (pool (mem s1))" using al(2) by (simp add: heap_inv_def)
  have sp: "{p ..< p + 2 ^ k} \<subseteq> free_set (pool (mem s1))" "pmm_inv pl" "free_set pl = free_set (pool (mem s1)) - {p ..< p + 2 ^ k}"
    using default_alloc_spec [OF i, of "2 ^ k"] pl(1) by auto
  show thesis
    by (rule that [OF _ al(2) _ m(2,3) sp(1,2,3) pl(1)]) (use al b m(4) pl(2) in auto)
qed

lemma units_enough: "n + 16 \<le> 16 * SLOB_UNITS (n + 16)"
  by (simp add: SLOB_UNITS_def SLOB_UNIT_def)

lemma kmalloc_small:
  assumes "heap_inv F s" "1 \<le> n" "n < 4064"
  shows "kmalloc n s = None \<and> free_set (pool (mem s)) = {} \<and> swap_init_ok (mem s)
    \<or> (\<exists>r s' F'. kmalloc n s = Some (r, s') \<and> heap_inv F' s'
    \<and> (case r of None \<Rightarrow> free_set (pool (mem s)) = {} \<and> \<not> swap_init_ok (mem s) \<and> s' = s \<and> F' = F
       | Some a \<Rightarrow> 16 \<le> a \<and> took (n + 16) F s (a - 16) F' s' \<and> {a ..< a + n} \<inter> F' = {}))"
proof -
  have n: "17 \<le> n + 16" "n + 16 + 16 < 4096" using assms(2,3) by auto
  from slob_alloc_ok [OF assms(1) n] show ?thesis
  proof (elim disjE exE conjE)
    assume "slob_alloc (n + 16) 0 s = None" "free_set (pool (mem s)) = {}" "swap_init_ok (mem s)"
    then show ?thesis using assms(3) by (simp add: kmalloc_def PGSIZE_def SLOB_UNIT_def)
  next
    fix r s' F'
    assume r: "slob_alloc (n + 16) 0 s = Some (r, s')" "heap_inv F' s'"
      "case r of None \<Rightarrow> free_set (pool (mem s)) = {} \<and> \<not> swap_init_ok (mem s) \<and> s' = s \<and> F' = F | Some b \<Rightarrow> took (n + 16) F s b F' s'"
    have k: "kmalloc n s = Some (map_option (\<lambda>m. m + 16) r, s')"
      using assms(3) r(1) by (simp add: kmalloc_def PGSIZE_def SLOB_UNIT_def)
    show ?thesis
    proof (cases r)
      case None
      then show ?thesis using k r by auto
    next
      case (Some b)
      have "{b + 16 ..< b + 16 + n} \<subseteq> {b ..< b + 16 * SLOB_UNITS (n + 16)}" using units_enough [of n] by auto
      moreover have t: "took (n + 16) F s b F' s'" using r(3) Some by simp
      ultimately have "{b + 16 ..< b + 16 + n} \<inter> F' = {}" unfolding took_def by blast
      then show ?thesis using k r(2) t Some by auto
    qed
  qed
qed

text \<open>A block taken is apart from the pages that are still free.\<close>

lemma took_apart:
  assumes inv: "heap_inv F s" and t: "took n F s b F' s'"
  shows "\<forall>q \<in> free_set (pool (mem s')). {b ..< b + 16 * SLOB_UNITS n} \<inter> page_bytes q = {}"
    "free_set (pool (mem s')) \<subseteq> free_set (pool (mem s))"
    "\<exists>P. {b ..< b + 16 * SLOB_UNITS n} \<subseteq> F \<union> P \<and> F' \<union> {b ..< b + 16 * SLOB_UNITS n} = F \<union> P \<and>
      (P = {} \<and> mem s' = mem s \<or> (\<exists>p \<in> free_set (pool (mem s)). P = page_bytes p \<and> free_set (pool (mem s')) = free_set (pool (mem s)) - {p}))"
proof -
  obtain P where P: "P = {} \<and> mem s' = mem s \<or> (\<exists>p \<in> free_set (pool (mem s)). P = page_bytes p \<and> free_set (pool (mem s')) = free_set (pool (mem s)) - {p})"
    "{b ..< b + 16 * SLOB_UNITS n} \<subseteq> F \<union> P" "F' = F \<union> P - {b ..< b + 16 * SLOB_UNITS n}"
    using t unfolding took_def by blast
  have sep: "p + nbase < npage" "F \<inter> page_bytes p = {}" if "p \<in> free_set (pool (mem s))" for p
    using inv that by (auto simp: heap_inv_def)
  show "free_set (pool (mem s')) \<subseteq> free_set (pool (mem s))" using P(1) by auto
  show "\<forall>q \<in> free_set (pool (mem s')). {b ..< b + 16 * SLOB_UNITS n} \<inter> page_bytes q = {}"
  proof
    fix q assume q: "q \<in> free_set (pool (mem s'))"
    from P(1) show "{b ..< b + 16 * SLOB_UNITS n} \<inter> page_bytes q = {}"
    proof (elim disjE conjE bexE)
      assume "P = {}" "mem s' = mem s"
      then show ?thesis using sep(2) [of q] q P(2) by auto
    next
      fix p assume p: "p \<in> free_set (pool (mem s))" "P = page_bytes p" "free_set (pool (mem s')) = free_set (pool (mem s)) - {p}"
      then have "q \<in> free_set (pool (mem s))" "page_bytes p \<inter> page_bytes q = {}"
        using q page_bytes_disjoint [of p q] sep(1) by auto
      then show ?thesis using sep(2) [of q] P(2) p(2) by blast
    qed
  qed
  have "F' \<union> {b ..< b + 16 * SLOB_UNITS n} = F \<union> P" using P(2,3) by blast
  then show "\<exists>P. {b ..< b + 16 * SLOB_UNITS n} \<subseteq> F \<union> P \<and> F' \<union> {b ..< b + 16 * SLOB_UNITS n} = F \<union> P \<and>
      (P = {} \<and> mem s' = mem s \<or> (\<exists>p \<in> free_set (pool (mem s)). P = page_bytes p \<and> free_set (pool (mem s')) = free_set (pool (mem s)) - {p}))"
    using P(1,2) by blast
qed

text \<open>A heap for the examples: nothing but the static block, below the pages, of which ten are free.\<close>

definition ex_slob :: slob where
  "ex_slob = \<lparr>mem = \<lparr>pool = ex_pmm, frame = (\<lambda>_ _. 0), swap_dev = \<lparr>valid = True, secs = 2048, store = (\<lambda>_. 0)\<rparr>,
       swap_init_ok = True, pra_list = [], pra_vaddr = (\<lambda>_. 0)\<rparr>,
     units = (\<lambda>_. 1), nxt_block = (\<lambda>_. 0xFFFFFFFFBFFFF000), arena = 0xFFFFFFFFBFFFF000, slobfree = 0xFFFFFFFFBFFFF000, bigblocks = []\<rparr>"

lemma ex_slob: "heap_inv {} ex_slob" "free_set (pool (mem ex_slob)) = {0 ..< 10}" "bigblocks ex_slob = []"
proof -
  have "heap_ok [0xFFFFFFFFBFFFF000] ex_slob \<and> {} = free_bytes [0xFFFFFFFFBFFFF000] ex_slob"
    by (simp add: heap_ok_def ring_Cons spaced_def free_bytes_def ex_slob_def)
  then have "\<exists>xs. heap_ok xs ex_slob \<and> {} = free_bytes xs ex_slob" by blast
  moreover have "p + nbase < npage \<and> arena ex_slob + 16 < kva (p + nbase)" if "p < 10" for p
  proof -
    have n: "p + nbase < npage" using that by (simp add: nbase_def npage_def PHYSICAL_MEMORY_END_def KERNTOP_def KERNBASE_def PGSIZE_def)
    then show ?thesis using kva_eq [OF n] by (simp add: ex_slob_def nbase_def PGSIZE_def)
  qed
  ultimately show "heap_inv {} ex_slob"
    using ex_pmm_inv ex_pmm_free by (auto simp: heap_inv_def ex_slob_def)
qed (simp_all add: ex_slob_def ex_pmm_free)


text \<open>
  C39. \<open>kmalloc\<close> of 1 to 4063 bytes on a well-formed heap.  When a block or a page can be had, the block, its
  header of 16 bytes and the bytes asked for, comes out of the free bytes, to which at most one fresh page
  is added first: exactly the block is taken away, the header records its size, the bytes handed out are no
  longer free, and the heap stays well formed.  \<open>NULL\<close> comes back only when the page allocator has nothing left
  and swapping is not yet set up, and then nothing changes; with swapping set up an empty page allocator
  makes the kernel fault in \<open>swap_out\<close> of no address space, and this is the only way not to return.
\<close>

theorem kmalloc_correct:
  assumes "heap_inv F s" "1 \<le> n" "n < 4064"
  shows "kmalloc n s = None \<and> free_set (pool (mem s)) = {} \<and> swap_init_ok (mem s)
    \<or> (\<exists>r s' F'. kmalloc n s = Some (r, s') \<and> heap_inv F' s'
    \<and> (case r of None \<Rightarrow> free_set (pool (mem s)) = {} \<and> \<not> swap_init_ok (mem s) \<and> s' = s \<and> F' = F
       | Some a \<Rightarrow> 16 \<le> a \<and> took (n + 16) F s (a - 16) F' s' \<and> {a ..< a + n} \<inter> F' = {}))"
  using assms by (rule kmalloc_small)

theorem kmalloc_correct_witness: "\<exists>a s'. kmalloc 100 ex_slob = Some (Some a, s') \<and> units s' (a - 16) = 8"
  using kmalloc_correct [OF ex_slob(1), of 100]
  by (auto simp: ex_slob(2) took_def SLOB_UNITS_def SLOB_UNIT_def split: option.splits)

section \<open>Taking and giving back\<close>

lemma kmalloc_kfree_small:
  assumes inv: "heap_inv F s" and n: "1 \<le> n" "n < 4064" and r: "kmalloc n s = Some (Some a, s')"
    and small: "\<forall>(b, order, pg) \<in> set (bigblocks s). pg \<notin> F \<and> (\<forall>p \<in> free_set (pool (mem s)). pg \<notin> page_bytes p)"
  shows "\<exists>s'' P. kfree (Some a) s' = Some s'' \<and> heap_inv (F \<union> P) s'' \<and> bigblocks s'' = bigblocks s
    \<and> (P = {} \<and> free_set (pool (mem s'')) = free_set (pool (mem s))
       \<or> (\<exists>p \<in> free_set (pool (mem s)). P = page_bytes p \<and> free_set (pool (mem s'')) = free_set (pool (mem s)) - {p}))"
proof -
  obtain F' where t: "took (n + 16) F s (a - 16) F' s'" "heap_inv F' s'" "16 \<le> a"
    using kmalloc_small [OF inv n] r by auto
  let ?u = "SLOB_UNITS (n + 16)"
  have u: "units s' (a - 16) = int ?u" "arena s' + 16 < a - 16" "bigblocks s' = bigblocks s" using t(1) by (auto simp: took_def)
  have dis: "{a - 16 ..< a - 16 + 16 * ?u} \<inter> F' = {}" using t(1) unfolding took_def by blast
  have k: "0 < ?u" using units_enough [of n] by auto
  have h: "0 = 0 \<and> units s' (a - 16) = int ?u \<or> 0 \<noteq> 0 \<and> ?u = SLOB_UNITS 0" using u(1) by simp
  obtain s'' where s: "slob_free (Some (a - 16)) 0 s' = Some s''" "heap_inv (F' \<union> {a - 16 ..< a - 16 + 16 * ?u}) s''" "mem s'' = mem s'" "bigblocks s'' = bigblocks s'"
    using give_back [OF t(2) h k u(2) dis took_apart(1) [OF inv t(1)]] by blast
  have "a \<in> {a - 16 ..< a - 16 + 16 * ?u}" using t(3) units_enough [of n] n(1) by auto
  then have "a \<in> F \<or> (\<exists>p \<in> free_set (pool (mem s)). a \<in> page_bytes p)" using took_apart(3) [OF inv t(1)] by blast
  then have "List.find (\<lambda>(_, _, pg). pg = a) (bigblocks s') = None" using small u(3) by (fastforce simp: find_None_iff)
  then have f: "kfree (Some a) s' = Some s''" using s(1) by (simp add: kfree_def SLOB_UNIT_def)
  obtain P where P: "F' \<union> {a - 16 ..< a - 16 + 16 * ?u} = F \<union> P"
    "P = {} \<and> mem s' = mem s \<or> (\<exists>p \<in> free_set (pool (mem s)). P = page_bytes p \<and> free_set (pool (mem s')) = free_set (pool (mem s)) - {p})"
    using took_apart(3) [OF inv t(1)] by blast
  show ?thesis using f s(2,3,4) u(3) P by (intro exI [of _ s''] exI [of _ P]) auto
qed

lemma kmalloc_kfree_big:
  assumes inv: "heap_inv F s" and n: "4064 \<le> n" and r: "kmalloc n s = Some (Some a, s')"
    and own: "KERNBASE \<le> arena s" "\<forall>p \<in> free_set (pool (mem s)). \<not> PageReserved (pages (pool (mem s)) p)"
    and low: "free_set (pool (mem s')) = {} \<or> (\<exists>p \<in> free_set (pool (mem s')). a < kva (p + nbase))"
  shows "\<exists>s'' P. kfree (Some a) s' = Some s'' \<and> heap_inv (F \<union> P) s'' \<and> bigblocks s'' = bigblocks s
    \<and> (P = {} \<and> free_set (pool (mem s'')) = free_set (pool (mem s))
       \<or> (\<exists>p \<in> free_set (pool (mem s)). P = page_bytes p \<and> free_set (pool (mem s'')) = free_set (pool (mem s)) - {p}))"
proof -
  obtain b s1 F1 p pl k where k: "slob_alloc 24 0 s = Some (Some b, s1)" "heap_inv F1 s1" "took 24 F s b F1 s1"
    "p + nbase < npage" "a = kva (p + nbase)" "{p ..< p + 2 ^ k} \<subseteq> free_set (pool (mem s1))" "pmm_inv pl"
    "free_set pl = free_set (pool (mem s1)) - {p ..< p + 2 ^ k}" "default_alloc_pages (2 ^ k) (pool (mem s1)) = Some (Some p, pl)"
    "s' = s1\<lparr>mem := (mem s1)\<lparr>pool := pl\<rparr>, bigblocks := (b, k, a) # bigblocks s1\<rparr>"
    by (rule kmalloc_bigD [OF inv n r])
  note ap = took_apart [OF inv k(3)]
  have t: "arena s1 = arena s" "arena s + 16 < b" "bigblocks s1 = bigblocks s" "{b ..< b + 16 * 2} \<inter> F1 = {}" "SLOB_UNITS 24 = 2"
    using k(3) unfolding took_def by (auto simp: SLOB_UNITS_def SLOB_UNIT_def)
  define s2 where "s2 = s1\<lparr>mem := (mem s1)\<lparr>pool := pl\<rparr>\<rparr>"
  have p: "p \<in> free_set (pool (mem s1))" using k(6) by auto
  have inv2: "heap_inv F1 s2" using k(2,7,8) by (auto simp: heap_inv_def s2_def heap_ok_more)
  have KB: "KERNBASE \<le> kva (p + nbase)" using own(1) k(2) p t(1) by (force simp: heap_inv_def)
  have res: "\<forall>i \<in> {p ..< p + 2 ^ k}. \<not> PageReserved (pages (pool (mem s2)) i)"
    using default_alloc_reserved [OF k(9)] slob_alloc_reserved [OF k(1)] own(2) ap(2) k(6) by (auto simp: s2_def subset_iff)
  have dis: "{p ..< p + 2 ^ k} \<inter> free_set (pool (mem s2)) = {}" by (auto simp: s2_def k(8))
  have low2: "free_set (pool (mem s2)) = {} \<or> (\<exists>i \<in> free_set (pool (mem s2)). kva (p + nbase) < kva (i + nbase))"
    using low k(5,10) by (simp add: s2_def)
  obtain m where m: "slob_free_pages (kva (p + nbase)) k s2 = Some (s2\<lparr>mem := m\<rparr>)" "pmm_inv (pool m)"
    "free_set (pool m) = free_set (pool (mem s2)) \<union> {p ..< p + 2 ^ k}"
    by (rule slob_free_pages_ok [OF inv2 k(4) KB dis res low2])
  have fs: "free_set (pool m) = free_set (pool (mem s1))" using m(3) k(6) by (auto simp: s2_def k(8))
  have inv3: "heap_inv F1 (s2\<lparr>mem := m\<rparr>)" using k(2) m(2) fs by (auto simp: heap_inv_def s2_def heap_ok_more)
  have h: "24 = 0 \<and> units (s2\<lparr>mem := m\<rparr>) b = int 2 \<or> 24 \<noteq> (0 :: nat) \<and> 2 = SLOB_UNITS 24" by (simp add: t(5))
  have out: "arena (s2\<lparr>mem := m\<rparr>) + 16 < b" "\<forall>q \<in> free_set (pool (mem (s2\<lparr>mem := m\<rparr>))). {b ..< b + 16 * 2} \<inter> page_bytes q = {}"
    using t(1,2,5) ap(1) by (simp_all add: s2_def fs)
  obtain s'' where s: "slob_free (Some b) 24 (s2\<lparr>mem := m\<rparr>) = Some s''" "heap_inv (F1 \<union> {b ..< b + 16 * 2}) s''" "mem s'' = m" "bigblocks s'' = bigblocks s"
    using give_back [OF inv3 h _ out(1) t(4) out(2)] t(3) by (auto simp: s2_def)
  have rm: "s'\<lparr>bigblocks := remove1 (b, k, a) (bigblocks s')\<rparr> = s2" by (simp add: k(10) s2_def)
  have "a mod PGSIZE = 0" using kva_aligned [OF k(4)] k(5) by simp
  moreover have "List.find (\<lambda>(_, _, pg). pg = a) (bigblocks s') = Some (b, k, a)" by (simp add: k(10))
  ultimately have f: "kfree (Some a) s' = Some s''"
    using m(1) [folded k(5)] s(1) by (simp add: kfree_def rm BIGBLOCK_SIZE_def)
  obtain P where P: "F1 \<union> {b ..< b + 16 * 2} = F \<union> P"
    "P = {} \<and> mem s1 = mem s \<or> (\<exists>p \<in> free_set (pool (mem s)). P = page_bytes p \<and> free_set (pool (mem s1)) = free_set (pool (mem s)) - {p})"
    using ap(3) unfolding t(5) by blast
  show ?thesis using f s(2,3,4) P fs by (intro exI [of _ s''] exI [of _ P]) auto
qed


text \<open>An example for the big sizes: sixteen free pages above the static block, which lies in the kernel.\<close>

definition ex_big_pmm :: pmm where
  "ex_big_pmm = \<lparr>pages = (\<lambda>i. if i = 600 then \<lparr>ref = 0, flags = 2, property = 16\<rparr>
       else \<lparr>ref = 0, flags = 0, property = 0\<rparr>),
     flinks = \<lparr>prv = (\<lambda>x. case x of FreeList \<Rightarrow> PageLink 600 | PageLink _ \<Rightarrow> FreeList),
       nxt = (\<lambda>x. case x of FreeList \<Rightarrow> PageLink 600 | PageLink _ \<Rightarrow> FreeList)\<rparr>,
     nr_free = 16\<rparr>"

lemma ex_big_pmm: "pmm_inv ex_big_pmm" "free_set ex_big_pmm = {600 ..< 616}" "\<not> PageReserved (pages ex_big_pmm i)"
proof -
  have ok: "pmm_ok [600] ex_big_pmm"
    by (auto simp: pmm_ok_def ex_big_pmm_def dlist_def separated_Cons page_flag_defs bit_simps)
  then show "pmm_inv ex_big_pmm" "free_set ex_big_pmm = {600 ..< 616}"
    by (auto simp: pmm_inv_def free_set_ok block_def ex_big_pmm_def)
  show "\<not> PageReserved (pages ex_big_pmm i)" by (simp add: ex_big_pmm_def page_flag_defs bit_simps)
qed

definition ex_big_slob :: slob where
  "ex_big_slob = ex_slob\<lparr>mem := (mem ex_slob)\<lparr>pool := ex_big_pmm\<rparr>, nxt_block := (\<lambda>_. KERNBASE), arena := KERNBASE, slobfree := KERNBASE\<rparr>"

lemma ex_big_slob: "heap_inv {} ex_big_slob" "free_set (pool (mem ex_big_slob)) = {600 ..< 616}" "bigblocks ex_big_slob = []"
  "arena ex_big_slob = KERNBASE" "\<not> PageReserved (pages (pool (mem ex_big_slob)) i)"
proof -
  have "heap_ok [KERNBASE] ex_big_slob \<and> {} = free_bytes [KERNBASE] ex_big_slob"
    by (simp add: heap_ok_def ring_Cons spaced_def free_bytes_def ex_big_slob_def ex_slob_def)
  then have "\<exists>xs. heap_ok xs ex_big_slob \<and> {} = free_bytes xs ex_big_slob" by blast
  moreover have "p + nbase < npage \<and> arena ex_big_slob + 16 < kva (p + nbase)" if "600 \<le> p" "p < 616" for p
  proof -
    have n: "p + nbase < npage" using that by (simp add: nbase_def npage_def PHYSICAL_MEMORY_END_def KERNTOP_def KERNBASE_def PGSIZE_def)
    then show ?thesis using kva_eq [OF n] that by (simp add: ex_big_slob_def nbase_def PGSIZE_def KERNBASE_def)
  qed
  ultimately show "heap_inv {} ex_big_slob"
    using ex_big_pmm by (auto simp: heap_inv_def ex_big_slob_def)
qed (simp_all add: ex_big_slob_def ex_slob_def ex_big_pmm)

lemma ex_big_request:
  "\<exists>a s'. kmalloc 5000 ex_big_slob = Some (Some a, s') \<and> (\<exists>p \<in> free_set (pool (mem s')). a < kva (p + nbase))"
proof -
  let ?s = ex_big_slob
  have lim: "(17 :: nat) \<le> 24" "24 + 16 < (4096 :: nat)" by simp_all
  obtain b s1 F1 where b: "slob_alloc 24 0 ?s = Some (Some b, s1)" "heap_inv F1 s1" "took 24 {} ?s b F1 s1"
    using slob_alloc_ok [OF ex_big_slob(1) lim] by (auto simp: ex_big_slob(2) split: option.splits)
  obtain p0 where p0: "free_set (pool (mem s1)) \<supseteq> {600 ..< 616} - {p0}" "free_set (pool (mem s1)) \<subseteq> {600 ..< 616}"
    using b(3) by (auto simp: took_def ex_big_slob(2) SLOB_UNITS_def SLOB_UNIT_def)
  have i: "pmm_inv (pool (mem s1))" using b(2) by (simp add: heap_inv_def)
  have run: "\<exists>q \<le> 602. {q ..< q + 2} \<subseteq> free_set (pool (mem s1))"
  proof (cases "p0 < 602")
    case True
    then show ?thesis using p0(1) by (intro exI [of _ 602]) auto
  next
    case False
    then show ?thesis using p0(1) by (intro exI [of _ 600]) auto
  qed
  obtain r pl where a: "default_alloc_pages 2 (pool (mem s1)) = Some (r, pl)"
    "case r of None \<Rightarrow> pl = pool (mem s1) \<and> (\<forall>p. \<not> {p ..< p + 2} \<subseteq> free_set (pool (mem s1)))
     | Some p \<Rightarrow> {p ..< p + 2} \<subseteq> free_set (pool (mem s1)) \<and> free_set pl = free_set (pool (mem s1)) - {p ..< p + 2}
         \<and> (\<forall>q. {q ..< q + 2} \<subseteq> free_set (pool (mem s1)) \<longrightarrow> p \<le> q)"
    using default_alloc_spec [OF i, of 2] by (auto split: option.splits)
  then obtain p where p: "r = Some p" using run by (cases r) auto
  then have pr: "p \<le> 602" "{p ..< p + 2} \<subseteq> free_set (pool (mem s1))" "free_set pl = free_set (pool (mem s1)) - {p ..< p + 2}"
    using a(2) run by auto
  have "find_order (int32 (int 5000)) = 1" by (simp add: int32_def find_order.simps)
  moreover have np: "q + nbase < npage" if "q < 616" for q
    using that by (simp add: nbase_def npage_def PHYSICAL_MEMORY_END_def KERNTOP_def KERNBASE_def PGSIZE_def)
  ultimately have k: "kmalloc 5000 ?s = Some (Some (kva (p + nbase)), s1\<lparr>mem := (mem s1)\<lparr>pool := pl\<rparr>, bigblocks := (b, 1, kva (p + nbase)) # bigblocks s1\<rparr>)"
    using b(1) a(1) p pr(1) by (simp add: kmalloc_def PGSIZE_def SLOB_UNIT_def BIGBLOCK_SIZE_def slob_get_free_pages_def alloc_pages_def page2kva_def KADDR_def page2ppn_def kassert_def)
  have left: "x \<in> free_set pl" if "605 < x" "x < 616" "x \<noteq> p0" for x
    using subsetD [OF p0(1), of x] that pr(1,3) by simp
  obtain q where q: "q \<in> free_set pl" "605 < q" "q < 616"
    using left [of 610] left [of 611] by (cases "p0 = 610") auto
  then have "kva (p + nbase) < kva (q + nbase)" using kva_less [OF np np, of p q] pr(1) by simp
  then show ?thesis using k q(1) by auto
qed

text \<open>
  C40. What \<open>kmalloc\<close> hands out \<open>kfree\<close> takes back, for the small sizes and for the big ones, which have
  an entry in the list of big blocks and pages of their own.  After the pair the free bytes are those from
  before, and the page, if the heap had to take one for the block or for the entry; every other page is free as
  before, and the list of big blocks is the old one.  The pages of the big blocks in use are not free to begin
  with; for a big request the static block lies above \<open>KERNBASE\<close>, no free page is marked reserved, and some
  free page lies above the block given back (or none is left), as \<open>default_free_pages\<close> needs it.
\<close>

theorem kmalloc_kfree_roundtrip:
  assumes "heap_inv F s" "1 \<le> n" "kmalloc n s = Some (Some a, s')"
    "\<forall>(b, order, pg) \<in> set (bigblocks s). pg \<notin> F \<and> (\<forall>p \<in> free_set (pool (mem s)). pg \<notin> page_bytes p)"
    "4064 \<le> n \<Longrightarrow> KERNBASE \<le> arena s \<and> (\<forall>p \<in> free_set (pool (mem s)). \<not> PageReserved (pages (pool (mem s)) p))
      \<and> (free_set (pool (mem s')) = {} \<or> (\<exists>p \<in> free_set (pool (mem s')). a < kva (p + nbase)))"
  shows "\<exists>s'' P. kfree (Some a) s' = Some s'' \<and> heap_inv (F \<union> P) s'' \<and> bigblocks s'' = bigblocks s
    \<and> (P = {} \<and> free_set (pool (mem s'')) = free_set (pool (mem s))
       \<or> (\<exists>p \<in> free_set (pool (mem s)). P = page_bytes p \<and> free_set (pool (mem s'')) = free_set (pool (mem s)) - {p}))"
proof (cases "n < 4064")
  case True
  then show ?thesis using kmalloc_kfree_small [OF assms(1,2) _ assms(3,4)] by simp
next
  case False
  then show ?thesis using kmalloc_kfree_big [OF assms(1) _ assms(3)] assms(5) by simp
qed

theorem kmalloc_kfree_roundtrip_witness:
  "\<exists>a s' s''. kmalloc 5000 ex_big_slob = Some (Some a, s') \<and> kfree (Some a) s' = Some s'' \<and> bigblocks s'' = []"
proof -
  obtain a s' where k: "kmalloc 5000 ex_big_slob = Some (Some a, s')" "\<exists>p \<in> free_set (pool (mem s')). a < kva (p + nbase)"
    using ex_big_request by blast
  show ?thesis using kmalloc_kfree_roundtrip [OF ex_big_slob(1) _ k(1)] k by (auto simp: ex_big_slob)
qed

text \<open>
  The sizes \<open>kmalloc\<close> is wrong about.  A request of 4064 to 4079 bytes passes the test for small
  requests and fails the assertion in \<open>slob_alloc\<close>: a panic.  Of the larger sizes that fit an \<open>int\<close>,
  those between a power of two of pages and one byte less for each of these pages are rounded down, and
  get fewer bytes than asked for; a size of \<open>2 ^ 31\<close> or more is negative as an \<open>int\<close> and gets one page.
\<close>

lemma find_order_short:
  assumes "0 \<le> n"
  shows "4096 * 2 ^ find_order n < n \<longleftrightarrow> (\<exists>k. 4096 * 2 ^ k < n \<and> n < 4097 * 2 ^ k)"
proof
  assume "4096 * 2 ^ find_order n < n"
  then show "\<exists>k. 4096 * 2 ^ k < n \<and> n < 4097 * 2 ^ k" using find_order_bounds(1) [OF assms] by blast
next
  assume "\<exists>k. 4096 * 2 ^ k < n \<and> n < 4097 * 2 ^ k"
  then obtain k where k: "4096 * 2 ^ k < n" "n < 4097 * 2 ^ k" by blast
  have "(1 :: int) \<le> 2 ^ k" by simp
  then have "4096 < n" using k(1) by linarith
  then have b: "4097 * 2 ^ (find_order n - 1) \<le> n" by (rule find_order_bounds(2))
  have "find_order n \<le> k"
  proof (rule ccontr)
    assume "\<not> find_order n \<le> k"
    then have "k \<le> find_order n - 1" by simp
    then have "(2 :: int) ^ k \<le> 2 ^ (find_order n - 1)" by (intro power_increasing) simp_all
    then show False using b k(2) by linarith
  qed
  then have "(2 :: int) ^ find_order n \<le> 2 ^ k" by (intro power_increasing) simp_all
  then show "4096 * 2 ^ find_order n < n" using k(1) by linarith
qed

lemma kmalloc_sizes:
  "4064 \<le> n \<and> n < 4080 \<longrightarrow> kmalloc n s = None"
  "4080 \<le> n \<and> n < 2 ^ 31 \<longrightarrow> (4096 * 2 ^ find_order (int32 (int n)) < int n \<longleftrightarrow> (\<exists>k. 4096 * 2 ^ k < int n \<and> int n < 4097 * 2 ^ k))"
  "2 ^ 31 \<le> n \<and> n < 2 ^ 32 \<longrightarrow> find_order (int32 (int n)) = 0"
proof -
  show "4064 \<le> n \<and> n < 4080 \<longrightarrow> kmalloc n s = None" by (simp add: kmalloc_def slob_alloc_def PGSIZE_def SLOB_UNIT_def kassert_def)
  have i: "int32 (int n) = int n" if "n < 2 ^ 31" using that by (intro int32_eq) auto
  show "4080 \<le> n \<and> n < 2 ^ 31 \<longrightarrow> (4096 * 2 ^ find_order (int32 (int n)) < int n \<longleftrightarrow> (\<exists>k. 4096 * 2 ^ k < int n \<and> int n < 4097 * 2 ^ k))"
    using i find_order_short [of "int n"] by simp
  show "2 ^ 31 \<le> n \<and> n < 2 ^ 32 \<longrightarrow> find_order (int32 (int n)) = 0"
  proof
    assume n: "2 ^ 31 \<le> n \<and> n < 2 ^ 32"
    have "int32 (int n) = int32 (int n - 2 ^ 32)"
      unfolding int32_def signed_take_bit_eq_iff_take_bit_eq by (simp add: take_bit_eq_mod)
    also have "\<dots> = int n - 2 ^ 32" by (rule int32_eq) (use n in auto)
    finally have "int32 (int n) < 0" using n by simp
    then show "find_order (int32 (int n)) = 0" by (subst find_order.simps) simp
  qed
qed

end
