(* ===== verification/Proc_Table.thy ===== *)
theory Proc_Table
  imports Sched Libs_String
begin

text \<open>
  The table of processes in \<open>kern/process/proc.c\<close>: the list of all processes, the hash lists by pid,
  the family pointers \<open>parent\<close>, \<open>cptr\<close>, \<open>yptr\<close>, \<open>optr\<close>, and the allocation of pids.  The lists are
  sequences; the family pointers are the fields of the descriptors.  Reading a field of \<open>NULL\<close> is
  \<open>None\<close>.
\<close>

definition MAX_PROCESS :: int where "MAX_PROCESS = 4096"
definition MAX_PID :: int where "MAX_PID = MAX_PROCESS * 2"
definition HASH_SHIFT :: nat where "HASH_SHIFT = 10"

record ptable = ksched +
  proc_list :: "pptr list"
  proc_hash :: "nat \<Rightarrow> pptr list"
  nr_process :: int
  initproc :: "pptr option"
  next_safe :: int
  last_pid :: int

definition pid_hashfn :: "int \<Rightarrow> nat" where
  "pid_hashfn x = unat (hash32 (word_of_int x) HASH_SHIFT)"

section \<open>Pids\<close>

text \<open>
  One pass over the pids of the list: whether the search starts over, and the two statics.  The
  loop \<open>repeat\<close> has no bound in the code.
\<close>

fun pid_scan :: "int list \<Rightarrow> int \<Rightarrow> int \<Rightarrow> bool \<times> int \<times> int" where
  "pid_scan [] lp ns = (False, lp, ns)"
| "pid_scan (p # ps) lp ns =
     (if p = lp then
        (let lp = lp + 1 in
         if lp \<ge> ns then (True, if lp \<ge> MAX_PID then 1 else lp, MAX_PID)
         else pid_scan ps lp ns)
      else if p > lp \<and> ns > p then pid_scan ps lp p
      else pid_scan ps lp ns)"

partial_function (option) pid_repeat :: "int list \<Rightarrow> int \<Rightarrow> int \<Rightarrow> (int \<times> int) option" where
  "pid_repeat ps lp ns =
     (case pid_scan ps lp ns of
        (again, lp, ns) \<Rightarrow> if again then pid_repeat ps lp ns else Some (lp, ns))"

definition pids :: "'a ptable_scheme \<Rightarrow> int list" where
  "pids s = List.map (\<lambda>p. p_pid (procs s p)) (proc_list s)"

definition get_pid :: "'a ptable_scheme \<Rightarrow> (int \<times> 'a ptable_scheme) option" where
  "get_pid s =
     (let lp = last_pid s + 1 in do {
        (lp, ns) \<leftarrow>
          (if lp \<ge> MAX_PID then pid_repeat (pids s) 1 MAX_PID
           else if lp \<ge> next_safe s then pid_repeat (pids s) lp MAX_PID
           else Some (lp, next_safe s));
        Some (lp, s\<lparr>last_pid := lp, next_safe := ns\<rparr>)
      })"

subsection \<open>The first free pid\<close>

lemma pid_scan_done:
  "pid_scan ps lp ns = (False, lp', ns') \<Longrightarrow> lp < ns \<Longrightarrow>
     lp \<le> lp' \<and> lp' < ns' \<and> ns' \<le> ns \<and> {lp ..< lp'} \<subseteq> set ps \<and> (\<forall>p \<in> set ps. p < lp' \<or> ns' \<le> p)"
proof (induction ps arbitrary: lp ns)
  case Nil then show ?case by simp
next
  case (Cons p ps)
  consider "p = lp" "lp + 1 < ns" | "p \<noteq> lp" "p > lp" "ns > p" | "p \<noteq> lp" "\<not> (p > lp \<and> ns > p)"
    using Cons.prems by (auto simp: Let_def split: if_splits)
  then show ?case
  proof cases
    case 1
    then have "pid_scan ps (lp + 1) ns = (False, lp', ns')" using Cons.prems(1) by (auto simp: Let_def)
    from Cons.IH [OF this] 1 have a: "lp + 1 \<le> lp'" "lp' < ns'" "ns' \<le> ns" "{lp + 1 ..< lp'} \<subseteq> set ps"
      "\<forall>p \<in> set ps. p < lp' \<or> ns' \<le> p" by auto
    have "{lp ..< lp'} = insert lp {lp + 1 ..< lp'}" using a(1) by auto
    then show ?thesis using a 1 by auto
  next
    case 2
    then have "pid_scan ps lp p = (False, lp', ns')" using Cons.prems(1) by auto
    from Cons.IH [OF this] 2 show ?thesis by auto
  next
    case 3
    then have "pid_scan ps lp ns = (False, lp', ns')" using Cons.prems(1) by auto
    from Cons.IH [OF this Cons.prems(2)] 3 show ?thesis by auto
  qed
qed

lemma pid_scan_again:
  "pid_scan ps lp ns = (True, lp', ns') \<Longrightarrow> lp < ns \<Longrightarrow> ns \<le> MAX_PID \<Longrightarrow>
     ns' = MAX_PID \<and> (\<exists>q. lp < q \<and> q \<le> MAX_PID \<and> {lp ..< q} \<subseteq> set ps \<and> lp' = (if q \<ge> MAX_PID then 1 else q))"
proof (induction ps arbitrary: lp ns)
  case Nil then show ?case by simp
next
  case (Cons p ps)
  consider (stop) "p = lp" "lp + 1 \<ge> ns" | (on) "p = lp" "lp + 1 < ns" | (low) "p \<noteq> lp" "p > lp" "ns > p"
    | (skip) "p \<noteq> lp" "\<not> (p > lp \<and> ns > p)"
    by linarith
  then show ?case
  proof cases
    case stop
    then show ?thesis using Cons.prems by (auto simp: Let_def intro!: exI [of _ "lp + 1"])
  next
    case on
    then have "pid_scan ps (lp + 1) ns = (True, lp', ns')" using Cons.prems(1) by (auto simp: Let_def)
    from Cons.IH [OF this] on Cons.prems obtain q where a: "ns' = MAX_PID" "lp + 1 < q" "q \<le> MAX_PID" "{lp + 1 ..< q} \<subseteq> set ps"
      "lp' = (if q \<ge> MAX_PID then 1 else q)" by auto
    have "{lp ..< q} = insert lp {lp + 1 ..< q}" using a(2) by auto
    then show ?thesis using a on by (auto intro!: exI [of _ q])
  next
    case low
    then have sc: "pid_scan ps lp p = (True, lp', ns')" using Cons.prems(1) by auto
    have "p \<le> MAX_PID" using low Cons.prems by simp
    from Cons.IH [OF sc low(2) this] show ?thesis
      by (elim conjE exE) (intro conjI exI, assumption+, rule subset_trans, assumption, rule set_subset_Cons, assumption)
  next
    case skip
    then have sc: "pid_scan ps lp ns = (True, lp', ns')" using Cons.prems(1) by auto
    from Cons.IH [OF sc Cons.prems(2,3)] show ?thesis
      by (elim conjE exE) (intro conjI exI, assumption+, rule subset_trans, assumption, rule set_subset_Cons, assumption)
  qed
qed

definition free_pid :: "int list \<Rightarrow> int \<Rightarrow> int \<Rightarrow> int \<Rightarrow> bool" where
  "free_pid ps lo ns p \<longleftrightarrow> lo \<le> p \<and> p < ns \<and> ns \<le> MAX_PID \<and> p \<notin> set ps \<and> {lo ..< p} \<subseteq> set ps
     \<and> (\<forall>q \<in> set ps. q < p \<or> ns \<le> q)"

lemma pid_repeat_finds:
  "lp \<le> f \<Longrightarrow> f < MAX_PID \<Longrightarrow> f \<notin> set ps \<Longrightarrow>
     \<exists>p ns. pid_repeat ps lp MAX_PID = Some (p, ns) \<and> free_pid ps lp ns p"
proof (induction "nat (f - lp)" arbitrary: lp rule: less_induct)
  case less
  obtain again lp' ns' where s: "pid_scan ps lp MAX_PID = (again, lp', ns')" by (metis prod_cases3)
  have l: "lp < MAX_PID" using less.prems by simp
  show ?case
  proof (cases again)
    case False
    with s have e: "pid_scan ps lp MAX_PID = (False, lp', ns')" by simp
    from pid_scan_done [OF e l] have "free_pid ps lp ns' lp'" by (force simp: free_pid_def)
    then show ?thesis by (subst pid_repeat.simps) (simp add: e)
  next
    case True
    with s have e: "pid_scan ps lp MAX_PID = (True, lp', ns')" by simp
    from pid_scan_again [OF e l] obtain q where q: "ns' = MAX_PID" "lp < q" "{lp ..< q} \<subseteq> set ps"
      "lp' = (if q \<ge> MAX_PID then 1 else q)" by auto
    have "q \<le> f"
    proof (rule ccontr)
      assume "\<not> q \<le> f"
      then have "f \<in> {lp ..< q}" using less.prems by auto
      then show False using q(3) less.prems(3) by blast
    qed
    then have lp': "lp' = q" using q(4) less.prems by simp
    obtain p ns where p: "pid_repeat ps q MAX_PID = Some (p, ns)" "free_pid ps q ns p"
      using less.hyps [of q] q(2) \<open>q \<le> f\<close> less.prems by auto
    have "{lp ..< p} \<subseteq> {lp ..< q} \<union> {q ..< p}" by auto
    then have "free_pid ps lp ns p" using p(2) q(2,3) by (auto simp: free_pid_def)
    moreover have "pid_repeat ps lp MAX_PID = Some (p, ns)"
      using p(1) by (subst pid_repeat.simps) (simp add: e q(1) lp')
    ultimately show ?thesis by blast
  qed
qed

lemma pid_repeat_wraps:
  "lp < MAX_PID \<Longrightarrow> {lp ..< MAX_PID} \<subseteq> set ps \<Longrightarrow> pid_repeat ps lp MAX_PID = pid_repeat ps 1 MAX_PID"
proof (induction "nat (MAX_PID - lp)" arbitrary: lp rule: less_induct)
  case less
  obtain again lp' ns' where s: "pid_scan ps lp MAX_PID = (again, lp', ns')" by (metis prod_cases3)
  show ?case
  proof (cases again)
    case False
    with s have "pid_scan ps lp MAX_PID = (False, lp', ns')" by simp
    from pid_scan_done [OF this less.prems(1)] less.prems(2) show ?thesis by force
  next
    case True
    with s have e: "pid_scan ps lp MAX_PID = (True, lp', ns')" by simp
    from pid_scan_again [OF e less.prems(1)] obtain q where q: "ns' = MAX_PID" "lp < q"
      "lp' = (if q \<ge> MAX_PID then 1 else q)" by auto
    have "pid_repeat ps lp MAX_PID = pid_repeat ps lp' MAX_PID" by (subst pid_repeat.simps) (simp add: e q(1))
    moreover have "q < MAX_PID \<Longrightarrow> pid_repeat ps q MAX_PID = pid_repeat ps 1 MAX_PID"
      using less.hyps [of q] q(2) less.prems by (auto simp: subset_iff)
    ultimately show ?thesis using q(3) by auto
  qed
qed


text \<open>The reference: the first unused pid after the lst one given out, in cyclic order.\<close>

definition pid_order :: "int \<Rightarrow> int list" where
  "pid_order lst = [lst + 1 .. MAX_PID - 1] @ [1 .. min lst (MAX_PID - 1)]"

definition next_pid :: "int list \<Rightarrow> int \<Rightarrow> int option" where
  "next_pid used lst = List.find (\<lambda>p. p \<notin> set used) (pid_order lst)"

text \<open>Between two calls no process has a pid strictly between the two statics.\<close>

definition pid_inv :: "int list \<Rightarrow> int \<Rightarrow> int \<Rightarrow> bool" where
  "pid_inv used lst nsafe \<longleftrightarrow> 1 \<le> lst \<and> lst \<le> MAX_PID \<and> nsafe \<le> MAX_PID
     \<and> (\<forall>q \<in> set used. q \<le> lst \<or> nsafe \<le> q)"

lemma find_upto: "lo \<le> p \<Longrightarrow> p \<le> hi \<Longrightarrow> P p \<Longrightarrow> (\<forall>q. lo \<le> q \<and> q < p \<longrightarrow> \<not> P q) \<Longrightarrow> List.find P [lo .. hi] = Some p"
proof (induction "nat (p - lo)" arbitrary: lo)
  case 0 then show ?case by (simp add: upto_rec1)
next
  case (Suc n)
  then have "lo < p" by simp
  then have "List.find P [lo + 1 .. hi] = Some p" using Suc.hyps(1) [of "lo + 1"] Suc.hyps(2) Suc.prems by auto
  then show ?case using Suc.prems \<open>lo < p\<close> by (simp add: upto_rec1)
qed

lemma find_none: "\<forall>q. lo \<le> q \<and> q \<le> hi \<longrightarrow> \<not> P q \<Longrightarrow> List.find P [lo .. hi] = None"
  by (auto simp: find_None_iff)

lemma find_append: "List.find P (xs @ ys) = (case List.find P xs of None \<Rightarrow> List.find P ys | Some x \<Rightarrow> Some x)"
  by (induction xs) auto

lemma free_pid_find:
  assumes "free_pid us lo ns p" "p \<le> hi" shows "List.find (\<lambda>q. q \<notin> set us) [lo .. hi] = Some p"
proof (rule find_upto)
  have "{lo ..< p} \<subseteq> set us" using assms(1) by (simp add: free_pid_def)
  then show "\<forall>q. lo \<le> q \<and> q < p \<longrightarrow> \<not> q \<notin> set us" by (simp add: subset_iff)
qed (use assms in \<open>simp_all add: free_pid_def\<close>)

lemma pid_exists:
  assumes "int (length used) < MAX_PID - 1"
  shows "\<exists>f. 1 \<le> f \<and> f < MAX_PID \<and> f \<notin> set used"
proof (rule ccontr)
  assume "\<not> ?thesis"
  then have "{1 ..< MAX_PID} \<subseteq> set used" by auto
  then have "card {1 ..< MAX_PID} \<le> card (set used)" by (rule card_mono [OF finite_set])
  also have "\<dots> \<le> length used" by (rule card_length)
  finally show False using assms by (simp add: MAX_PID_def MAX_PROCESS_def)
qed

lemma get_pid_ok:
  assumes "pid_inv (pids s) (last_pid s) (next_safe s)" and "\<not> {1 ..< MAX_PID} \<subseteq> set (pids s)"
  shows "\<exists>p ns. get_pid s = Some (p, s\<lparr>last_pid := p, next_safe := ns\<rparr>)
     \<and> next_pid (pids s) (last_pid s) = Some p \<and> p \<notin> set (pids s) \<and> 0 < p \<and> p < MAX_PID
     \<and> pid_inv (p # pids s) p ns"
proof -
  let ?u = "pids s" and ?l = "last_pid s"
  have inv: "1 \<le> ?l" "?l \<le> MAX_PID" "\<forall>q \<in> set ?u. q \<le> ?l \<or> next_safe s \<le> q" "next_safe s \<le> MAX_PID"
    using assms(1) by (auto simp: pid_inv_def)
  obtain f where f: "1 \<le> f" "f < MAX_PID" "f \<notin> set ?u" using assms(2) by (meson atLeastLessThan_iff subsetI)
  have mp: "1 < MAX_PID" by (simp add: MAX_PID_def MAX_PROCESS_def)
  have fin: "get_pid s = Some (p, s\<lparr>last_pid := p, next_safe := ns\<rparr>) \<Longrightarrow> free_pid ?u lo ns p \<Longrightarrow> 1 \<le> lo \<Longrightarrow>
      next_pid ?u ?l = Some p \<Longrightarrow> ?thesis" for p ns lo
    by (rule exI [of _ p], rule exI [of _ ns]) (auto simp: free_pid_def pid_inv_def)
  consider (fast) "?l + 1 < MAX_PID" "?l + 1 < next_safe s"
    | (up) "?l + 1 < MAX_PID" "\<not> ?l + 1 < next_safe s" "\<not> {?l + 1 ..< MAX_PID} \<subseteq> set ?u"
    | (wrap) "?l + 1 < MAX_PID" "\<not> ?l + 1 < next_safe s" "{?l + 1 ..< MAX_PID} \<subseteq> set ?u"
    | (start) "\<not> ?l + 1 < MAX_PID"
    by blast
  then show ?thesis
  proof cases
    case fast
    have "\<forall>q \<in> set ?u. q < ?l + 1 \<or> next_safe s \<le> q"
    proof
      fix q assume "q \<in> set ?u"
      then have "q \<le> ?l \<or> next_safe s \<le> q" using inv(3) by blast
      then show "q < ?l + 1 \<or> next_safe s \<le> q" by linarith
    qed
    note un = this
    have "?l + 1 \<notin> set ?u"
    proof
      assume "?l + 1 \<in> set ?u"
      with un have "?l + 1 < ?l + 1 \<or> next_safe s \<le> ?l + 1" by (rule bspec)
      then show False using fast(2) by linarith
    qed
    moreover have "{?l + 1 ..< ?l + 1} \<subseteq> set ?u" by simp
    ultimately have fr: "free_pid ?u (?l + 1) (next_safe s) (?l + 1)"
      using un fast(2) inv(4) unfolding free_pid_def by (intro conjI) (simp_all only: order_refl not_False_eq_True)
    have le: "?l + 1 \<le> MAX_PID - 1" using fast(1) by linarith
    have "next_pid ?u ?l = Some (?l + 1)"
      unfolding next_pid_def pid_order_def find_append free_pid_find [OF fr le] by (simp only: option.case)
    moreover have "get_pid s = Some (?l + 1, s\<lparr>last_pid := ?l + 1, next_safe := next_safe s\<rparr>)"
      using fast by (simp only: get_pid_def Let_def not_le [symmetric] if_False bind.bind_lunit split)
    moreover have "1 \<le> ?l + 1" using inv(1) by linarith
    ultimately show ?thesis using fin [OF _ fr] by blast
  next
    case up
    then obtain g where "g \<in> {?l + 1 ..< MAX_PID}" and g: "g \<notin> set ?u" by blast
    then have "?l + 1 \<le> g" "g < MAX_PID" by simp_all
    from pid_repeat_finds [OF this g] obtain p ns where
      p: "pid_repeat ?u (?l + 1) MAX_PID = Some (p, ns)" "free_pid ?u (?l + 1) ns p" by blast
    have "p < ns \<and> ns \<le> MAX_PID" using p(2) unfolding free_pid_def by blast
    then have le: "p \<le> MAX_PID - 1" by linarith
    have "next_pid ?u ?l = Some p"
      unfolding next_pid_def pid_order_def find_append free_pid_find [OF p(2) le] by (simp only: option.case)
    moreover have "1 \<le> ?l + 1" using inv(1) by linarith
    moreover have "get_pid s = Some (p, s\<lparr>last_pid := p, next_safe := ns\<rparr>)"
      using up(1,2) p(1) by (simp add: get_pid_def)
    ultimately show ?thesis using fin [OF _ p(2)] by blast
  next
    case wrap
    from pid_repeat_finds [OF f] obtain p ns where p: "pid_repeat ?u 1 MAX_PID = Some (p, ns)" "free_pid ?u 1 ns p" by blast
    have w: "pid_repeat ?u (?l + 1) MAX_PID = Some (p, ns)" using pid_repeat_wraps [OF wrap(1,3)] p(1) by simp
    have n: "List.find (\<lambda>p. p \<notin> set ?u) [?l + 1 .. MAX_PID - 1] = None"
      using wrap(3) by (intro find_none) (auto simp: subset_iff)
    have "p < ns \<and> ns \<le> MAX_PID \<and> p \<notin> set ?u" using p(2) unfolding free_pid_def by blast
    moreover from this have "p \<notin> {?l + 1 ..< MAX_PID}" using wrap(3) by blast
    ultimately have "p \<le> min ?l (MAX_PID - 1)" by auto
    then have "next_pid ?u ?l = Some p"
      unfolding next_pid_def pid_order_def find_append n by (simp only: option.case free_pid_find [OF p(2)])
    moreover have "get_pid s = Some (p, s\<lparr>last_pid := p, next_safe := ns\<rparr>)"
      using wrap(1,2) w by (simp add: get_pid_def)
    ultimately show ?thesis using fin [OF _ p(2)] by blast
  next
    case start
    from pid_repeat_finds [OF f] obtain p ns where p: "pid_repeat ?u 1 MAX_PID = Some (p, ns)" "free_pid ?u 1 ns p" by blast
    have n: "List.find (\<lambda>p. p \<notin> set ?u) [?l + 1 .. MAX_PID - 1] = None" using start by simp
    have "p < ns \<and> ns \<le> MAX_PID" using p(2) unfolding free_pid_def by blast
    then have "p \<le> min ?l (MAX_PID - 1)" using start by linarith
    then have "next_pid ?u ?l = Some p"
      unfolding next_pid_def pid_order_def find_append n by (simp only: option.case free_pid_find [OF p(2)])
    moreover have "get_pid s = Some (p, s\<lparr>last_pid := p, next_safe := ns\<rparr>)"
      using start p(1) by (simp add: get_pid_def)
    ultimately show ?thesis using fin [OF _ p(2)] by blast
  qed
qed

text \<open>With every pid in use the search never ends.\<close>

lemma pid_repeat_full:
  assumes full: "{1 ..< MAX_PID} \<subseteq> set ps" and "pid_repeat ps lp ns = Some r"
  shows "\<not> (1 \<le> lp \<and> lp < ns \<and> ns \<le> MAX_PID)"
proof -
  have "ps = ps \<longrightarrow> \<not> (1 \<le> lp \<and> lp < ns \<and> ns \<le> MAX_PID)"
  proof (rule pid_repeat.raw_induct [where P = "\<lambda>qs lp ns r. qs = ps \<longrightarrow> \<not> (1 \<le> lp \<and> lp < ns \<and> ns \<le> MAX_PID)", OF _ assms(2)], intro impI notI)
    fix rec qs lp ns r
    assume IH: "\<And>qs lp ns r. rec qs lp ns = Some r \<Longrightarrow> qs = ps \<longrightarrow> \<not> (1 \<le> lp \<and> lp < ns \<and> ns \<le> MAX_PID)"
      and step: "(case pid_scan qs lp ns of (again, lp, ns) \<Rightarrow> if again then rec qs lp ns else Some (lp, ns)) = Some r"
      and qs: "qs = ps" and b: "1 \<le> lp \<and> lp < ns \<and> ns \<le> MAX_PID"
    obtain again lp' ns' where s: "pid_scan ps lp ns = (again, lp', ns')" by (metis prod_cases3)
    show False
    proof (cases again)
      case True
      then have "pid_scan ps lp ns = (True, lp', ns')" using s by simp
      from pid_scan_again [OF this] b
      have "1 \<le> lp' \<and> lp' < ns' \<and> ns' \<le> MAX_PID" by (auto simp: MAX_PID_def MAX_PROCESS_def)
      then show False using IH [of ps lp' ns' r] step qs s True by simp
    next
      case False
      have d: "lp \<le> lp'" "lp' < ns'" "ns' \<le> ns" "\<forall>p \<in> set ps. p < lp' \<or> ns' \<le> p"
        using pid_scan_done [of ps lp ns lp' ns'] s False b by simp_all
      then have "lp' \<in> {1 ..< MAX_PID}" using b by simp
      then have "lp' < lp' \<or> ns' \<le> lp'" using d(4) full by blast
      then show False using d(2) by linarith
    qed
  qed
  then show ?thesis by simp
qed

lemma get_pid_full:
  assumes "pid_inv (pids s) (last_pid s) (next_safe s)" and full: "{1 ..< MAX_PID} \<subseteq> set (pids s)"
  shows "get_pid s = None"
proof -
  let ?l = "last_pid s + 1"
  have l: "2 \<le> ?l" "next_safe s \<le> MAX_PID" using assms(1) by (simp_all add: pid_inv_def)
  have "\<not> (?l < MAX_PID \<and> ?l < next_safe s)"
  proof
    assume a: "?l < MAX_PID \<and> ?l < next_safe s"
    then have "?l \<in> {1 ..< MAX_PID}" using l(1) by simp
    then have "?l \<le> last_pid s \<or> next_safe s \<le> ?l" using assms(1) full unfolding pid_inv_def by blast
    then show False using a by linarith
  qed
  moreover have "pid_repeat (pids s) 1 MAX_PID = None"
    using pid_repeat_full [OF full, of 1 MAX_PID] by (cases "pid_repeat (pids s) 1 MAX_PID") (auto simp: MAX_PID_def MAX_PROCESS_def)
  moreover have "pid_repeat (pids s) ?l MAX_PID = None" if "?l < MAX_PID"
    using pid_repeat_full [OF full, of ?l MAX_PID] that l(1) by (cases "pid_repeat (pids s) ?l MAX_PID") simp_all
  ultimately show ?thesis unfolding get_pid_def Let_def by (cases "?l < MAX_PID") (simp_all add: not_less)
qed

section \<open>Links between processes\<close>

definition hash_proc :: "pptr \<Rightarrow> 'a ptable_scheme \<Rightarrow> 'a ptable_scheme" where
  "hash_proc p s =
     (let b = pid_hashfn (p_pid (procs s p)) in s\<lparr>proc_hash := (proc_hash s)(b := p # proc_hash s b)\<rparr>)"

text \<open>\<open>list_del\<close> unlinks the process wherever it is linked.\<close>

definition unhash_proc :: "pptr \<Rightarrow> 'a ptable_scheme \<Rightarrow> 'a ptable_scheme" where
  "unhash_proc p s = s\<lparr>proc_hash := (\<lambda>b. remove1 p (proc_hash s b))\<rparr>"

definition find_proc :: "'a ptable_scheme \<Rightarrow> int \<Rightarrow> pptr option" where
  "find_proc s pid =
     (if 0 < pid \<and> pid < MAX_PID
      then List.find (\<lambda>p. p_pid (procs s p) = pid) (proc_hash s (pid_hashfn pid)) else None)"

definition set_links :: "pptr \<Rightarrow> 'a ptable_scheme \<Rightarrow> 'a ptable_scheme option" where
  "set_links p s = do {
     let s = s\<lparr>proc_list := p # proc_list s\<rparr>;
     let s = upd p (\<lambda>x. x\<lparr>p_yptr := None\<rparr>) s;
     par \<leftarrow> p_parent (procs s p);
     let s = upd p (\<lambda>x. x\<lparr>p_optr := p_cptr (procs s par)\<rparr>) s;
     let s = (case p_optr (procs s p) of None \<Rightarrow> s | Some old \<Rightarrow> upd old (\<lambda>x. x\<lparr>p_yptr := Some p\<rparr>) s);
     let s = upd par (\<lambda>x. x\<lparr>p_cptr := Some p\<rparr>) s;
     Some (s\<lparr>nr_process := nr_process s + 1\<rparr>)
   }"

definition remove_links :: "pptr \<Rightarrow> 'a ptable_scheme \<Rightarrow> 'a ptable_scheme option" where
  "remove_links p s = do {
     let s = s\<lparr>proc_list := remove1 p (proc_list s)\<rparr>;
     let s = (case p_optr (procs s p) of None \<Rightarrow> s
       | Some old \<Rightarrow> upd old (\<lambda>x. x\<lparr>p_yptr := p_yptr (procs s p)\<rparr>) s);
     s \<leftarrow> (case p_yptr (procs s p) of
         Some yng \<Rightarrow> Some (upd yng (\<lambda>x. x\<lparr>p_optr := p_optr (procs s p)\<rparr>) s)
       | None \<Rightarrow> do {
           par \<leftarrow> p_parent (procs s p);
           Some (upd par (\<lambda>x. x\<lparr>p_cptr := p_optr (procs s p)\<rparr>) s)
         });
     Some (s\<lparr>nr_process := nr_process s - 1\<rparr>)
   }"

text \<open>
  The loop of \<open>do_exit\<close>: the children of \<open>cur\<close> are handed to \<open>initproc\<close>, which is woken for a
  zombie.  The list of children need not be finite as far as the code can tell.
\<close>

partial_function (option) adopt_children ::
  "'a ptable_scheme sched_class \<Rightarrow> pptr \<Rightarrow> 'a ptable_scheme \<Rightarrow> 'a ptable_scheme option" where
  "adopt_children sc cur s =
     (case p_cptr (procs s cur) of
        None \<Rightarrow> Some s
      | Some p \<Rightarrow> do {
          ini \<leftarrow> initproc s;
          let s = upd cur (\<lambda>x. x\<lparr>p_cptr := p_optr (procs s p)\<rparr>) s;
          let s = upd p (\<lambda>x. x\<lparr>p_yptr := None\<rparr>) s;
          let s = upd p (\<lambda>x. x\<lparr>p_optr := p_cptr (procs s ini)\<rparr>) s;
          let s = (case p_cptr (procs s ini) of None \<Rightarrow> s | Some c \<Rightarrow> upd c (\<lambda>x. x\<lparr>p_yptr := Some p\<rparr>) s);
          let s = upd p (\<lambda>x. x\<lparr>p_parent := Some ini\<rparr>) s;
          let s = upd ini (\<lambda>x. x\<lparr>p_cptr := Some p\<rparr>) s;
          s \<leftarrow> (if p_state (procs s p) = PROC_ZOMBIE \<and> p_wait_state (procs s ini) = WT_CHILD
               then wakeup_proc sc ini s else Some s);
          adopt_children sc cur s
        })"

subsection \<open>The family tree\<close>

text \<open>The chain of siblings from a pointer on; \<open>y\<close> is the younger neighbour of the first.\<close>

fun sibs :: "(pptr \<Rightarrow> proc_struct) \<Rightarrow> pptr option \<Rightarrow> pptr list \<Rightarrow> pptr option \<Rightarrow> bool" where
  "sibs ps y [] at \<longleftrightarrow> at = None"
| "sibs ps y (c # cs) at \<longleftrightarrow> at = Some c \<and> p_yptr (ps c) = y \<and> sibs ps (Some c) cs (p_optr (ps c))"

definition family :: "'a ptable_scheme \<Rightarrow> pptr set" where
  "family s = insert (idleproc s) (set (proc_list s))"

definition offspring :: "'a ptable_scheme \<Rightarrow> pptr \<Rightarrow> pptr set" where
  "offspring s q = {p \<in> set (proc_list s). p_parent (procs s p) = Some q}"

definition kids :: "'a ptable_scheme \<Rightarrow> pptr \<Rightarrow> pptr list \<Rightarrow> bool" where
  "kids s q cs \<longleftrightarrow> sibs (procs s) None cs (p_cptr (procs s q)) \<and> distinct cs \<and> set cs = offspring s q"

end
