(* ===== verification/Proc_Tree.thy ===== *)
theory Proc_Tree
  imports Proc_Table Stride_Fair
begin

text \<open>
  The family tree of processes: what \<open>set_links\<close>, \<open>remove_links\<close> and the adoption loop of \<open>do_exit\<close>
  do to the sibling chains, and the invariant of the table of processes.
\<close>

section \<open>Sibling chains\<close>

lemma sibs_cong:
  "(\<And>c. c \<in> set cs \<Longrightarrow> p_yptr (ps' c) = p_yptr (ps c) \<and> p_optr (ps' c) = p_optr (ps c)) \<Longrightarrow>
     sibs ps' y cs at = sibs ps y cs at"
  by (induction cs arbitrary: y at) auto

lemma sibs_at: "sibs ps y cs at \<Longrightarrow> at = (if cs = [] then None else Some (hd cs))"
  by (cases cs) auto

lemma sibs_fun: "sibs ps y cs at \<Longrightarrow> sibs ps y' ds at \<Longrightarrow> cs = ds"
  by (induction cs arbitrary: y y' ds at) (case_tac ds; force)+

lemma sibs_new_head:
  assumes "sibs ps y cs at" "distinct cs"
    and "\<And>c. c \<in> set cs \<Longrightarrow> p_optr (ps' c) = p_optr (ps c)"
    and "\<And>c. c \<in> set cs \<Longrightarrow> p_yptr (ps' c) = (if at = Some c then y' else p_yptr (ps c))"
  shows "sibs ps' y' cs at"
proof (cases cs)
  case (Cons c ds)
  then have "sibs ps' (Some c) ds (p_optr (ps c)) = sibs ps (Some c) ds (p_optr (ps c))"
    using assms by (intro sibs_cong) auto
  then show ?thesis using Cons assms by simp
qed (use assms in simp)

lemma sibs_around:
  "sibs ps y (as @ p # bs) at \<Longrightarrow>
     p_yptr (ps p) = (if as = [] then y else Some (last as)) \<and> p_optr (ps p) = (if bs = [] then None else Some (hd bs))"
proof (induction as arbitrary: y at)
  case Nil then show ?case by (cases bs) auto
next
  case (Cons a as) then show ?case by (cases as) auto
qed

lemma sibs_unlink:
  "sibs ps y (as @ p # bs) at \<Longrightarrow> distinct (as @ p # bs) \<Longrightarrow>
     (\<And>x. x \<in> set as \<union> set bs \<Longrightarrow>
        p_yptr (ps' x) = (if bs \<noteq> [] \<and> x = hd bs then p_yptr (ps p) else p_yptr (ps x))
      \<and> p_optr (ps' x) = (if as \<noteq> [] \<and> x = last as then p_optr (ps p) else p_optr (ps x))) \<Longrightarrow>
     sibs ps' y (as @ bs) (if as = [] then p_optr (ps p) else at)"
proof (induction as arbitrary: y at)
  case Nil
  then have b: "sibs ps (Some p) bs (p_optr (ps p))" "p_yptr (ps p) = y" "distinct bs" by auto
  have at: "p_optr (ps p) = (if bs = [] then None else Some (hd bs))" using sibs_at [OF b(1)] .
  show ?case
    using sibs_new_head [OF b(1,3), of ps' y] Nil.prems(3) b(2) at by (auto split: if_splits)
next
  case (Cons a as)
  have s: "sibs ps (Some a) (as @ p # bs) (p_optr (ps a))" "at = Some a" "p_yptr (ps a) = y" using Cons.prems(1) by auto
  have ih: "sibs ps' (Some a) (as @ bs) (if as = [] then p_optr (ps p) else p_optr (ps a))"
    using s(1) Cons.prems(2,3) by (intro Cons.IH) (auto split: if_splits)
  have a: "a \<notin> set bs" "a \<notin> set as" using Cons.prems(2) by auto
  have "bs \<noteq> [] \<Longrightarrow> a \<noteq> hd bs" using a(1) by (metis hd_in_set)
  moreover have "as \<noteq> [] \<Longrightarrow> a \<noteq> last as" using a(2) by (metis last_in_set)
  ultimately show ?case using Cons.prems(3) [of a] ih s(2,3) by (auto split: if_splits)
qed

section \<open>The invariant\<close>

definition tree_ok :: "'a ptable_scheme \<Rightarrow> bool" where
  "tree_ok s \<longleftrightarrow> distinct (proc_list s) \<and> idleproc s \<notin> set (proc_list s)
     \<and> nr_process s = 1 + int (length (proc_list s))
     \<and> (\<forall>p \<in> set (proc_list s). \<exists>q \<in> family s. p_parent (procs s p) = Some q \<and> q \<noteq> p)
     \<and> (\<forall>q \<in> family s. \<exists>cs. kids s q cs)
     \<and> (\<forall>p \<in> set (proc_list s). p_state (procs s p) = PROC_ZOMBIE \<longrightarrow> p_cptr (procs s p) = None)
     \<and> (\<forall>i. initproc s = Some i \<longrightarrow> i \<in> set (proc_list s) \<and> p_parent (procs s i) = Some (idleproc s))"

definition pids_ok :: "'a ptable_scheme \<Rightarrow> bool" where
  "pids_ok s \<longleftrightarrow> distinct (pids s) \<and> (\<forall>p \<in> set (proc_list s). 0 < p_pid (procs s p) \<and> p_pid (procs s p) < MAX_PID)
     \<and> pid_inv (pids s) (last_pid s) (next_safe s)
     \<and> (\<forall>b. distinct (proc_hash s b)
          \<and> set (proc_hash s b) = {p \<in> set (proc_list s). pid_hashfn (p_pid (procs s p)) = b})"

text \<open>What the scheduler never touches, and what an operation that leaves the tree alone may do.\<close>

definition ident :: "proc_struct \<Rightarrow> int \<times> 32 word \<times> nat \<times> nat option \<times> nat option" where
  "ident x = (p_exit_code x, p_flags x, p_kstack x, p_mm x, p_filesp x)"

definition kin_same :: "'a ptable_scheme \<Rightarrow> 'a ptable_scheme \<Rightarrow> bool" where
  "kin_same s s' \<longleftrightarrow> proc_list s' = proc_list s \<and> proc_hash s' = proc_hash s \<and> nr_process s' = nr_process s
     \<and> initproc s' = initproc s \<and> next_safe s' = next_safe s \<and> last_pid s' = last_pid s \<and> idleproc s' = idleproc s
     \<and> (\<forall>q. p_parent (procs s' q) = p_parent (procs s q) \<and> p_cptr (procs s' q) = p_cptr (procs s q)
          \<and> p_yptr (procs s' q) = p_yptr (procs s q) \<and> p_optr (procs s' q) = p_optr (procs s q)
          \<and> p_pid (procs s' q) = p_pid (procs s q) \<and> ident (procs s' q) = ident (procs s q))"

lemma kin_same_refl [simp]: "kin_same s s"
  by (simp add: kin_same_def)

lemma kin_same_trans: "kin_same s t \<Longrightarrow> kin_same t u \<Longrightarrow> kin_same s u"
  by (simp add: kin_same_def)

lemma ptable_upd [simp]:
  "proc_list (upd p f s) = proc_list s" "proc_hash (upd p f s) = proc_hash s" "nr_process (upd p f s) = nr_process s"
  "initproc (upd p f s) = initproc s" "next_safe (upd p f s) = next_safe s" "last_pid (upd p f s) = last_pid s"
  by (simp_all add: upd_def)

lemma kin_same_upd:
  assumes "\<And>x. p_parent (f x) = p_parent x" "\<And>x. p_cptr (f x) = p_cptr x" "\<And>x. p_yptr (f x) = p_yptr x"
    "\<And>x. p_optr (f x) = p_optr x" "\<And>x. p_pid (f x) = p_pid x" "\<And>x. ident (f x) = ident x"
  shows "kin_same s (upd p f s)"
  using assms by (simp add: kin_same_def)

lemma kin_same_kids: "kin_same s s' \<Longrightarrow> kids s' q cs = kids s q cs"
proof -
  assume k: "kin_same s s'"
  have "sibs (procs s') None cs at = sibs (procs s) None cs at" for at
    using k by (intro sibs_cong) (simp add: kin_same_def)
  then show ?thesis using k by (simp add: kids_def offspring_def kin_same_def)
qed

lemma kin_same_family: "kin_same s s' \<Longrightarrow> family s' = family s"
  by (simp add: family_def kin_same_def)

lemma kin_same_pids: "kin_same s s' \<Longrightarrow> pids s' = pids s"
  by (simp add: pids_def kin_same_def)

lemma kin_same_pids_ok: "kin_same s s' \<Longrightarrow> pids_ok s \<Longrightarrow> pids_ok s'"
  unfolding pids_ok_def by (simp add: kin_same_pids) (simp add: kin_same_def)

lemma kin_same_tree_ok:
  assumes "kin_same s s'" "tree_ok s"
    and "\<And>p. p \<in> set (proc_list s) \<Longrightarrow> p_state (procs s' p) = PROC_ZOMBIE \<Longrightarrow>
        p_state (procs s p) = PROC_ZOMBIE \<or> p_cptr (procs s p) = None"
  shows "tree_ok s'"
  using assms(2,3) kin_same_kids [OF assms(1)] kin_same_family [OF assms(1)] assms(1)
  unfolding tree_ok_def kin_same_def by (simp add: Ball_def) blast


section \<open>A new process\<close>

lemma kidsD: "kids s q cs \<Longrightarrow> set cs = offspring s q" "kids s q cs \<Longrightarrow> distinct cs"
  "kids s q cs \<Longrightarrow> sibs (procs s) None cs (p_cptr (procs s q))"
  by (simp_all add: kids_def)

lemma offspring_disj: "q \<noteq> q' \<Longrightarrow> x \<in> offspring s q \<Longrightarrow> x \<notin> offspring s q'"
  by (simp add: offspring_def)

lemma kids_elsewhere:
  assumes "kids s q cs" "offspring s' q = offspring s q" "p_cptr (procs s' q) = p_cptr (procs s q)"
    and "\<And>c. c \<in> offspring s q \<Longrightarrow> p_yptr (procs s' c) = p_yptr (procs s c) \<and> p_optr (procs s' c) = p_optr (procs s c)"
  shows "kids s' q cs"
  using assms sibs_cong [of cs "procs s'" "procs s"] by (simp add: kids_def)

lemma set_links_eq:
  assumes "p_parent (procs s p) = Some par" "par \<noteq> p" "p_cptr (procs s par) \<noteq> Some p"
  shows "\<exists>s'. set_links p s = Some s' \<and> proc_list s' = p # proc_list s \<and> nr_process s' = nr_process s + 1
     \<and> proc_hash s' = proc_hash s \<and> initproc s' = initproc s \<and> next_safe s' = next_safe s \<and> last_pid s' = last_pid s
     \<and> idleproc s' = idleproc s \<and> current s' = current s
     \<and> (\<forall>q. (procs s' q)\<lparr>p_cptr := None, p_yptr := None, p_optr := None\<rparr> = (procs s q)\<lparr>p_cptr := None, p_yptr := None, p_optr := None\<rparr>
          \<and> p_cptr (procs s' q) = (if q = par then Some p else p_cptr (procs s q))
          \<and> p_yptr (procs s' q) = (if q = p then None else if p_cptr (procs s par) = Some q then Some p else p_yptr (procs s q))
          \<and> p_optr (procs s' q) = (if q = p then p_cptr (procs s par) else p_optr (procs s q)))"
  using assms by (cases "p_cptr (procs s par)") (auto simp: set_links_def Let_def)

text \<open>What the family pointers do not cover.\<close>

definition body :: "proc_struct \<Rightarrow> proc_struct" where
  "body x = x\<lparr>p_cptr := None, p_yptr := None, p_optr := None\<rparr>"

lemma body_fields:
  assumes "body x = body y"
  shows "p_state x = p_state y" "p_pid x = p_pid y" "p_parent x = p_parent y" "p_wait_state x = p_wait_state y" "p_rq x = p_rq y"
    "ident x = ident y"
proof -
  have f: "p_state x = p_state (body x)" "p_pid x = p_pid (body x)" "p_parent x = p_parent (body x)"
    "p_wait_state x = p_wait_state (body x)" "p_rq x = p_rq (body x)"
    "ident x = ident (body x)" for x by (simp_all add: body_def ident_def)
  show "p_state x = p_state y" "p_pid x = p_pid y" "p_parent x = p_parent y" "p_wait_state x = p_wait_state y" "p_rq x = p_rq y"
    "ident x = ident y"
    by (simp_all only: f [of x] f [of y] assms)
qed

lemma set_links_tree:
  assumes t: "tree_ok s" and p: "p \<notin> family s" "p_parent (procs s p) = Some par" "par \<in> family s" "p_cptr (procs s p) = None"
    "p_state (procs s p) \<noteq> PROC_ZOMBIE" "p_state (procs s par) \<noteq> PROC_ZOMBIE"
  shows "\<exists>s'. set_links p s = Some s' \<and> tree_ok s' \<and> proc_list s' = p # proc_list s \<and> offspring s' par = insert p (offspring s par)
     \<and> proc_hash s' = proc_hash s \<and> initproc s' = initproc s \<and> next_safe s' = next_safe s \<and> last_pid s' = last_pid s
     \<and> idleproc s' = idleproc s \<and> current s' = current s \<and> (\<forall>q. body (procs s' q) = body (procs s q))"
proof -
  have pf: "p \<notin> set (proc_list s)" "p \<noteq> idleproc s" "par \<noteq> p" using p(1,3) by (auto simp: family_def)
  obtain cs where cs: "kids s par cs" using t p(3) by (auto simp: tree_ok_def)
  have hd: "p_cptr (procs s par) = (if cs = [] then None else Some (hd cs))" using sibs_at [OF kidsD(3) [OF cs]] .
  have csl: "set cs \<subseteq> set (proc_list s)" using kidsD(1) [OF cs] by (auto simp: offspring_def)
  then have "p_cptr (procs s par) \<noteq> Some p" using hd pf(1) list.set_sel(1) [of cs] subsetD [OF csl, of "hd cs"] by (auto split: if_splits)
  then obtain s' where s': "set_links p s = Some s'" "proc_list s' = p # proc_list s" "nr_process s' = nr_process s + 1"
    "proc_hash s' = proc_hash s" "initproc s' = initproc s" "next_safe s' = next_safe s" "last_pid s' = last_pid s"
    "idleproc s' = idleproc s" "current s' = current s"
    and bd: "\<And>q. body (procs s' q) = body (procs s q)"
    and cp: "\<And>q. p_cptr (procs s' q) = (if q = par then Some p else p_cptr (procs s q))"
    and yp: "\<And>q. p_yptr (procs s' q) = (if q = p then None else if p_cptr (procs s par) = Some q then Some p else p_yptr (procs s q))"
    and op: "\<And>q. p_optr (procs s' q) = (if q = p then p_cptr (procs s par) else p_optr (procs s q))"
    using set_links_eq [OF p(2) pf(3)] unfolding body_def by blast
  note bf = body_fields [OF bd]
  have off: "offspring s' q = (if q = par then insert p (offspring s q) else offspring s q)" for q
    using p(2) by (auto simp: offspring_def s'(2) bf(3))
  have kpar: "kids s' par (p # cs)"
  proof -
    have "sibs (procs s') (Some p) cs (p_cptr (procs s par))"
      using csl pf(1) by (intro sibs_new_head [OF kidsD(3) [OF cs] kidsD(2) [OF cs]]) (auto simp: yp op)
    then show ?thesis using kidsD(1,2) [OF cs] csl pf(1) by (auto simp: kids_def off cp yp op)
  qed
  have kp: "kids s' p []"
  proof -
    have "offspring s p = {}" using t p(1) by (force simp: tree_ok_def offspring_def)
    then show ?thesis using p(4) pf(3) by (simp add: kids_def off cp)
  qed
  have other: "\<exists>ds. kids s' q ds" if q: "q \<in> family s" "q \<noteq> par" for q
  proof -
    obtain ds where ds: "kids s q ds" using t q(1) by (auto simp: tree_ok_def)
    have "c \<noteq> p \<and> p_cptr (procs s par) \<noteq> Some c" if "c \<in> offspring s q" for c
    proof -
      have "c \<notin> set cs" using that q(2) kidsD(1) [OF cs] by (auto simp: offspring_def)
      then show ?thesis using that hd pf(1) by (auto simp: offspring_def)
    qed
    then have "kids s' q ds" using q(2) by (intro kids_elsewhere [OF ds]) (simp_all add: off cp yp op)
    then show ?thesis by blast
  qed
  have fam: "family s' = insert p (family s)" by (auto simp: family_def s'(2,8))
  have "tree_ok s'"
    unfolding tree_ok_def
  proof (intro conjI)
    show "\<forall>q \<in> family s'. \<exists>cs. kids s' q cs" using kpar kp other fam by (metis insertE)
    show "\<forall>x \<in> set (proc_list s'). \<exists>q \<in> family s'. p_parent (procs s' x) = Some q \<and> q \<noteq> x"
      using t p(2,3) pf(3) by (auto simp: tree_ok_def s'(2) bf(3) fam)
    show "\<forall>x \<in> set (proc_list s'). p_state (procs s' x) = PROC_ZOMBIE \<longrightarrow> p_cptr (procs s' x) = None"
      using t p(5,6) by (auto simp: tree_ok_def s'(2) bf(1) cp)
  qed (use t pf in \<open>auto simp: tree_ok_def s' bf(3)\<close>)
  then show ?thesis using s' bd by (intro exI [of _ s']) (simp add: off)
qed


section \<open>A process that is reaped\<close>

lemma remove_links_eq:
  assumes "p_parent (procs s p) = Some par" "p_optr (procs s p) \<noteq> Some p" "p_yptr (procs s p) \<noteq> Some p"
  shows "\<exists>s'. remove_links p s = Some s' \<and> proc_list s' = remove1 p (proc_list s) \<and> nr_process s' = nr_process s - 1
     \<and> proc_hash s' = proc_hash s \<and> initproc s' = initproc s \<and> next_safe s' = next_safe s \<and> last_pid s' = last_pid s
     \<and> idleproc s' = idleproc s \<and> current s' = current s
     \<and> (\<forall>q. body (procs s' q) = body (procs s q)
          \<and> p_cptr (procs s' q) = (if p_yptr (procs s p) = None \<and> q = par then p_optr (procs s p) else p_cptr (procs s q))
          \<and> p_yptr (procs s' q) = (if p_optr (procs s p) = Some q then p_yptr (procs s p) else p_yptr (procs s q))
          \<and> p_optr (procs s' q) = (if p_yptr (procs s p) = Some q then p_optr (procs s p) else p_optr (procs s q)))"
  using assms by (cases "p_optr (procs s p)"; cases "p_yptr (procs s p)") (auto simp: remove_links_def Let_def body_def)

lemma remove_links_tree:
  assumes t: "tree_ok s" and p: "p \<in> set (proc_list s)" "p_parent (procs s p) = Some par" "p_cptr (procs s p) = None"
    "initproc s \<noteq> Some p"
  shows "\<exists>s'. remove_links p s = Some s' \<and> tree_ok s' \<and> proc_list s' = remove1 p (proc_list s)
     \<and> offspring s' par = offspring s par - {p}
     \<and> proc_hash s' = proc_hash s \<and> initproc s' = initproc s \<and> next_safe s' = next_safe s \<and> last_pid s' = last_pid s
     \<and> idleproc s' = idleproc s \<and> current s' = current s \<and> (\<forall>q. body (procs s' q) = body (procs s q))"
proof -
  have d: "distinct (proc_list s)" and pi: "p \<noteq> idleproc s" using t p(1) by (auto simp: tree_ok_def)
  have parf: "par \<in> family s" using t p(1,2) by (auto simp: tree_ok_def)
  obtain cs where cs: "kids s par cs" using t parf by (auto simp: tree_ok_def)
  have pcs: "p \<in> set cs" using kidsD(1) [OF cs] p(1,2) by (simp add: offspring_def)
  then obtain as bs where ab: "cs = as @ p # bs" by (meson split_list)
  have dab: "distinct (as @ p # bs)" using kidsD(2) [OF cs] ab by simp
  obtain ks where "kids s p ks" using t p(1) by (auto simp: tree_ok_def family_def)
  then have nokids: "offspring s p = {}" using p(3) kidsD(1,3) [of s p ks] by (cases ks) auto
  then have pp: "par \<noteq> p" using p(1,2) by (auto simp: offspring_def)
  have ar: "p_yptr (procs s p) = (if as = [] then None else Some (last as))"
    "p_optr (procs s p) = (if bs = [] then None else Some (hd bs))"
    using sibs_around [of "procs s" None as p bs] kidsD(3) [OF cs] ab by blast+
  have l: "as \<noteq> [] \<Longrightarrow> last as \<in> set as" "bs \<noteq> [] \<Longrightarrow> hd bs \<in> set bs" by simp_all
  have "p_optr (procs s p) \<noteq> Some p" "p_yptr (procs s p) \<noteq> Some p" using ar l dab by (auto split: if_splits)
  then obtain s' where s': "remove_links p s = Some s'" "proc_list s' = remove1 p (proc_list s)" "nr_process s' = nr_process s - 1"
    "proc_hash s' = proc_hash s" "initproc s' = initproc s" "next_safe s' = next_safe s" "last_pid s' = last_pid s"
    "idleproc s' = idleproc s" "current s' = current s"
    and bd: "\<And>q. body (procs s' q) = body (procs s q)"
    and cp: "\<And>q. p_cptr (procs s' q) = (if p_yptr (procs s p) = None \<and> q = par then p_optr (procs s p) else p_cptr (procs s q))"
    and yp: "\<And>q. p_yptr (procs s' q) = (if p_optr (procs s p) = Some q then p_yptr (procs s p) else p_yptr (procs s q))"
    and op: "\<And>q. p_optr (procs s' q) = (if p_yptr (procs s p) = Some q then p_optr (procs s p) else p_optr (procs s q))"
    using remove_links_eq [OF p(2)] by blast
  note bf = body_fields [OF bd]
  have pl: "set (proc_list s') = set (proc_list s) - {p}" using d by (simp add: s'(2))
  have off: "offspring s' q = offspring s q - {p}" for q by (auto simp: offspring_def pl bf(3))
  have kpar: "kids s' par (as @ bs)"
  proof -
    have "sibs (procs s') None (as @ bs) (if as = [] then p_optr (procs s p) else p_cptr (procs s par))"
      using kidsD(3) [OF cs] dab l unfolding ab by (intro sibs_unlink) (auto simp: yp op ar)
    then have "sibs (procs s') None (as @ bs) (p_cptr (procs s' par))" by (cases as) (simp_all add: cp ar(1))
    moreover have "set (as @ bs) = offspring s' par" using kidsD(1) [OF cs] dab by (auto simp: ab off)
    ultimately show ?thesis using dab by (auto simp: kids_def)
  qed
  have other: "\<exists>ds. kids s' q ds" if q: "q \<in> family s" "q \<noteq> par" for q
  proof -
    obtain ds where ds: "kids s q ds" using t q(1) by (auto simp: tree_ok_def)
    have po: "p \<notin> offspring s q" using p(2) q(2) by (simp add: offspring_def)
    have "p_yptr (procs s p) \<noteq> Some c \<and> p_optr (procs s p) \<noteq> Some c" if "c \<in> offspring s q" for c
    proof -
      have "c \<notin> set cs" using that q(2) kidsD(1) [OF cs] by (auto simp: offspring_def)
      then show ?thesis using l by (auto simp: ab ar)
    qed
    then have "kids s' q ds" using q(2) po by (intro kids_elsewhere [OF ds]) (simp_all add: off cp yp op)
    then show ?thesis by blast
  qed
  have fam: "family s' = family s - {p}" using pi by (auto simp: family_def pl s'(8))
  have "tree_ok s'"
    unfolding tree_ok_def
  proof (intro conjI)
    show "\<forall>q \<in> family s'. \<exists>cs. kids s' q cs" using kpar other fam by (metis Diff_iff)
    show "\<forall>x \<in> set (proc_list s'). \<exists>q \<in> family s'. p_parent (procs s' x) = Some q \<and> q \<noteq> x"
    proof
      fix x assume x: "x \<in> set (proc_list s')"
      then obtain q where q: "q \<in> family s" "p_parent (procs s x) = Some q" "q \<noteq> x" using t by (auto simp: tree_ok_def pl)
      have "q \<noteq> p" using nokids q(2) x by (auto simp: offspring_def pl)
      then show "\<exists>q \<in> family s'. p_parent (procs s' x) = Some q \<and> q \<noteq> x" using q by (auto simp: fam bf(3))
    qed
    have "p_optr (procs s p) = None" if "p_cptr (procs s par) = None"
      using that kidsD(3) [OF cs] by (cases as) (simp_all add: ab)
    then show "\<forall>x \<in> set (proc_list s'). p_state (procs s' x) = PROC_ZOMBIE \<longrightarrow> p_cptr (procs s' x) = None"
      using t by (auto simp: tree_ok_def pl bf(1) cp)
    show "nr_process s' = 1 + int (length (proc_list s'))"
    proof -
      obtain n where "length (proc_list s) = Suc n" using p(1) by (cases "proc_list s") auto
      then show ?thesis using t p(1) by (simp add: tree_ok_def s'(2,3) length_remove1)
    qed
  qed (use t d p(4) pi in \<open>auto simp: tree_ok_def s'(2,5,8) pl bf(3)\<close>)
  then show ?thesis using s' bd by (intro exI [of _ s']) (simp add: off)
qed


section \<open>Adoption\<close>

text \<open>
  The scheduling class as the process layer needs it: beside the contract of \<open>run_queue\<close> it leaves
  the table of processes alone and does not depend on it, nor on a descriptor that is not queued.
\<close>

text \<open>The part of \<open>do_exit\<close> that changes the table.\<close>

definition exit_table :: "'a ptable_scheme sched_class \<Rightarrow> int \<Rightarrow> 'a ptable_scheme \<Rightarrow> 'a ptable_scheme option" where
  "exit_table sc error_code s = do {
     let cur = current s;
     let s = upd cur (\<lambda>x. x\<lparr>p_state := PROC_ZOMBIE\<rparr>) s;
     let s = upd cur (\<lambda>x. x\<lparr>p_exit_code := error_code\<rparr>) s;
     par \<leftarrow> p_parent (procs s cur);
     s \<leftarrow> (if p_wait_state (procs s par) = WT_CHILD then wakeup_proc sc par s else Some s);
     adopt_children sc cur s
   }"

locale kin_queue = run_queue sc rq_inv queued
  for sc :: "'a ptable_scheme sched_class" and rq_inv and queued +
  assumes enqueue_kin: "sc_enqueue sc p s = Some s' \<Longrightarrow> kin_same s s'"
    and dequeue_kin: "sc_dequeue sc p s = Some s' \<Longrightarrow> kin_same s s'"
    and pick_kin: "sc_pick_next sc s = (nx, s') \<Longrightarrow> kin_same s s'"
    and tick_kin: "kin_same s (sc_proc_tick sc p s)"
    and fresh_upd: "rq_inv s \<Longrightarrow> p \<notin> queued s \<Longrightarrow> rq_inv (upd p f s) \<and> queued (upd p f s) = queued s"
    and table_upd: "rq_inv s \<Longrightarrow>
      rq_inv (s\<lparr>proc_list := l, proc_hash := h, nr_process := n, initproc := i, next_safe := ns, last_pid := lp\<rparr>)
      \<and> queued (s\<lparr>proc_list := l, proc_hash := h, nr_process := n, initproc := i, next_safe := ns, last_pid := lp\<rparr>) = queued s"
begin

lemma wakeup_kin:
  assumes "wakeup_proc sc p s = Some s'" shows "kin_same s s'"
proof -
  let ?t = "upd p (\<lambda>p. p\<lparr>p_wait_state := 0\<rparr>) (upd p (\<lambda>p. p\<lparr>p_state := PROC_RUNNABLE\<rparr>) s)"
  have t: "kin_same s ?t" by (simp add: kin_same_def ident_def)
  have "s' = s \<or> s' = ?t \<or> sc_enqueue sc p ?t = Some s'"
    using assms unfolding wakeup_proc_def kassert_def sched_class_enqueue_def Let_def
    by (simp split: if_split_asm)
  then show ?thesis using t kin_same_trans [OF t enqueue_kin] by auto
qed

lemma schedule_kin:
  assumes "schedule sc s = Some s'" shows "kin_same s s'"
proof -
  let ?t = "upd (current s) (\<lambda>p. p\<lparr>p_need_resched := False\<rparr>) s"
  let ?e = "if p_state (procs ?t (current ?t)) = PROC_RUNNABLE then sched_class_enqueue sc (current ?t) ?t else Some ?t"
  from assms obtain s2 where 2: "?e = Some s2" by (cases ?e) (simp_all add: schedule_def Let_def)
  obtain n s3 where 3: "sched_class_pick_next sc s2 = (n, s3)" by fastforce
  from assms 2 3 obtain s4 where 4: "(case n of Some x \<Rightarrow> sched_class_dequeue sc x s3 | None \<Rightarrow> Some s3) = Some s4"
    by (cases "case n of Some x \<Rightarrow> sched_class_dequeue sc x s3 | None \<Rightarrow> Some s3") (simp_all add: schedule_def Let_def)
  have 5: "(let n = (case n of None \<Rightarrow> idleproc s4 | Some x \<Rightarrow> x); t = upd n (\<lambda>p. p\<lparr>p_runs := p_runs p + 1\<rparr>) s4 in
        if n \<noteq> current t then proc_run n t else t) = s'"
    using assms 2 3 4 by (simp add: schedule_def Let_def)
  have t: "kin_same s ?t" by (simp add: kin_same_def ident_def)
  have "s2 = ?t \<or> sc_enqueue sc (current ?t) ?t = Some s2"
    using 2 unfolding sched_class_enqueue_def by (auto split: if_split_asm)
  then have "kin_same s s2" using t kin_same_trans [OF t enqueue_kin] by auto
  moreover have "kin_same s2 s3" using pick_kin 3 by (simp add: sched_class_pick_next_def)
  moreover have "kin_same s3 s4" using dequeue_kin 4 by (auto simp: sched_class_dequeue_def split: option.splits)
  moreover have "kin_same s4 s'" using 5 unfolding Let_def proc_run_def
    by (auto simp: kin_same_def ident_def split: if_split_asm)
  ultimately show ?thesis using kin_same_trans by blast
qed

lemma sched_ok_upd:
  assumes "sched_ok s" "\<And>x. p_state (f x) = p_state x" "\<And>x. p_rq (f x) = p_rq x"
  shows "sched_ok (upd p f s)"
  using upd_inv [of s f p] assms by (simp add: sched_ok_def)

text \<open>One round of the adoption loop, before the wakeup.\<close>

definition adopt_one :: "pptr \<Rightarrow> pptr \<Rightarrow> pptr \<Rightarrow> 'a ptable_scheme \<Rightarrow> 'a ptable_scheme" where
  "adopt_one cur ini p s =
     (let s = upd cur (\<lambda>x. x\<lparr>p_cptr := p_optr (procs s p)\<rparr>) s;
          s = upd p (\<lambda>x. x\<lparr>p_yptr := None\<rparr>) s;
          s = upd p (\<lambda>x. x\<lparr>p_optr := p_cptr (procs s ini)\<rparr>) s;
          s = (case p_cptr (procs s ini) of None \<Rightarrow> s | Some c \<Rightarrow> upd c (\<lambda>x. x\<lparr>p_yptr := Some p\<rparr>) s);
          s = upd p (\<lambda>x. x\<lparr>p_parent := Some ini\<rparr>) s
      in upd ini (\<lambda>x. x\<lparr>p_cptr := Some p\<rparr>) s)"

lemma adopt_one_fields:
  assumes "cur \<noteq> ini" "p \<noteq> ini" "p \<noteq> cur" "p_cptr (procs s ini) \<noteq> Some p"
  shows "p_cptr (procs (adopt_one cur ini p s) q) = (if q = ini then Some p else if q = cur then p_optr (procs s p) else p_cptr (procs s q))"
    "p_yptr (procs (adopt_one cur ini p s) q) = (if p_cptr (procs s ini) = Some q then Some p else if q = p then None else p_yptr (procs s q))"
    "p_optr (procs (adopt_one cur ini p s) q) = (if q = p then p_cptr (procs s ini) else p_optr (procs s q))"
    "p_parent (procs (adopt_one cur ini p s) q) = (if q = p then Some ini else p_parent (procs s q))"
    "p_state (procs (adopt_one cur ini p s) q) = p_state (procs s q)"
    "p_pid (procs (adopt_one cur ini p s) q) = p_pid (procs s q)"
    "p_wait_state (procs (adopt_one cur ini p s) q) = p_wait_state (procs s q)"
    "ident (procs (adopt_one cur ini p s) q) = ident (procs s q)"
  using assms by (cases "p_cptr (procs s ini)"; auto simp: adopt_one_def Let_def ident_def)+

lemma adopt_one_rest [simp]:
  "proc_list (adopt_one cur ini p s) = proc_list s" "proc_hash (adopt_one cur ini p s) = proc_hash s"
  "nr_process (adopt_one cur ini p s) = nr_process s" "initproc (adopt_one cur ini p s) = initproc s"
  "next_safe (adopt_one cur ini p s) = next_safe s" "last_pid (adopt_one cur ini p s) = last_pid s"
  "idleproc (adopt_one cur ini p s) = idleproc s" "current (adopt_one cur ini p s) = current s"
  by (simp_all add: adopt_one_def Let_def split: option.split)

lemma sched_upd:
  assumes "sched_ok t \<and> queued t = Q" "\<And>x. p_state (f x) = p_state x" "\<And>x. p_rq (f x) = p_rq x"
  shows "sched_ok (upd q f t) \<and> queued (upd q f t) = Q"
  using upd_inv [of t f q] assms by (auto simp: sched_ok_def)

lemma adopt_one_sched:
  assumes "sched_ok s" shows "sched_ok (adopt_one cur ini p s) \<and> queued (adopt_one cur ini p s) = queued s"
proof -
  have c: "sched_ok t \<and> queued t = Q \<Longrightarrow>
      sched_ok (case c of None \<Rightarrow> t | Some d \<Rightarrow> upd d (\<lambda>x. x\<lparr>p_yptr := Some p\<rparr>) t)
      \<and> queued (case c of None \<Rightarrow> t | Some d \<Rightarrow> upd d (\<lambda>x. x\<lparr>p_yptr := Some p\<rparr>) t) = Q" for c t Q
    by (cases c) (simp, simp only: option.case, rule sched_upd, simp_all)
  show ?thesis unfolding adopt_one_def Let_def
    by (intro sched_upd c) (simp_all add: assms)
qed

lemma adopt_simps:
  assumes "p_cptr (procs s cur) = Some p" "initproc s = Some ini"
  shows "adopt_children sc cur s = do {
     let t = adopt_one cur ini p s;
     t \<leftarrow> (if p_state (procs t p) = PROC_ZOMBIE \<and> p_wait_state (procs t ini) = WT_CHILD then wakeup_proc sc ini t else Some t);
     adopt_children sc cur t }"
  by (subst adopt_children.simps) (simp only: assms option.case adopt_one_def Let_def Option.bind.simps)

definition adopted :: "pptr \<Rightarrow> pptr \<Rightarrow> pptr list \<Rightarrow> pptr list \<Rightarrow> 'a ptable_scheme \<Rightarrow> 'a ptable_scheme \<Rightarrow> bool" where
  "adopted cur ini cs ds s s' \<longleftrightarrow> sched_ok s' \<and> current s' = current s
     \<and> (queued s' = queued s \<or> queued s' = insert ini (queued s))
     \<and> proc_list s' = proc_list s \<and> proc_hash s' = proc_hash s \<and> nr_process s' = nr_process s \<and> initproc s' = initproc s
     \<and> next_safe s' = next_safe s \<and> last_pid s' = last_pid s \<and> idleproc s' = idleproc s
     \<and> sibs (procs s') None (rev cs @ ds) (p_cptr (procs s' ini)) \<and> p_cptr (procs s' cur) = None
     \<and> (\<forall>q. p_pid (procs s' q) = p_pid (procs s q) \<and> ident (procs s' q) = ident (procs s q)
          \<and> p_parent (procs s' q) = (if q \<in> set cs then Some ini else p_parent (procs s q))
          \<and> (q \<noteq> ini \<longrightarrow> q \<noteq> cur \<longrightarrow> p_cptr (procs s' q) = p_cptr (procs s q))
          \<and> (q \<notin> set cs \<union> set ds \<longrightarrow> p_yptr (procs s' q) = p_yptr (procs s q) \<and> p_optr (procs s' q) = p_optr (procs s q))
          \<and> (p_state (procs s' q) = p_state (procs s q) \<or> q = ini \<and> p_state (procs s' q) = PROC_RUNNABLE))"

text \<open>The whole loop: the children of \<open>cur\<close>, in reverse, come before those of \<open>initproc\<close>.\<close>

lemma adopt_ok:
  "sibs (procs s) y cs (p_cptr (procs s cur)) \<Longrightarrow> distinct cs \<Longrightarrow> sibs (procs s) None ds (p_cptr (procs s ini)) \<Longrightarrow>
   distinct ds \<Longrightarrow> set cs \<inter> set ds = {} \<Longrightarrow> cur \<notin> set cs \<Longrightarrow> ini \<notin> set cs \<Longrightarrow> cur \<noteq> ini \<Longrightarrow> initproc s = Some ini \<Longrightarrow>
   sched_ok s \<Longrightarrow> p_state (procs s ini) \<noteq> PROC_ZOMBIE \<Longrightarrow> ini \<noteq> idleproc s \<Longrightarrow>
   \<exists>s'. adopt_children sc cur s = Some s' \<and> adopted cur ini cs ds s s'"
proof (induction cs arbitrary: s y ds)
  case Nil
  then have "adopt_children sc cur s = Some s" by (subst adopt_children.simps) simp
  then show ?case using Nil.prems by (intro exI [of _ s]) (simp add: adopted_def)
next
  case (Cons p cs)
  note pr = Cons.prems
  have p: "p_cptr (procs s cur) = Some p" "sibs (procs s) (Some p) cs (p_optr (procs s p))" "p \<noteq> cur" "p \<noteq> ini"
    using pr(1,6,7) by auto
  have ci: "p_cptr (procs s ini) = (if ds = [] then None else Some (hd ds))" using sibs_at [OF pr(3)] .
  have nci: "p_cptr (procs s ini) \<noteq> Some q" if "q \<notin> set ds" for q using that ci hd_in_set [of ds] by auto
  define t where "t = adopt_one cur ini p s"
  have np: "p_cptr (procs s ini) \<noteq> Some p" using nci pr(5) by auto
  note f = adopt_one_fields [OF pr(8) p(4,3) np, folded t_def]
  have tr: "proc_list t = proc_list s" "proc_hash t = proc_hash s" "nr_process t = nr_process s" "initproc t = initproc s"
    "next_safe t = next_safe s" "last_pid t = last_pid s" "idleproc t = idleproc s" "current t = current s"
    by (simp_all add: t_def)
  have ts: "sched_ok t \<and> queued t = queued s" unfolding t_def by (rule adopt_one_sched [OF pr(10)])
  obtain u where u: "(if p_state (procs t p) = PROC_ZOMBIE \<and> p_wait_state (procs t ini) = WT_CHILD
      then wakeup_proc sc ini t else Some t) = Some u" "kin_same t u" "sched_ok u" "current u = current s"
    "queued u = queued s \<or> queued u = insert ini (queued s)"
    "\<And>q. p_state (procs u q) = p_state (procs s q) \<or> q = ini \<and> p_state (procs u q) = PROC_RUNNABLE"
  proof (cases "p_state (procs t p) = PROC_ZOMBIE \<and> p_wait_state (procs t ini) = WT_CHILD")
    case True
    obtain u where w: "wakeup_proc sc ini t = Some u" "sched_ok u" "current u = current t"
      "\<forall>q. p_state (procs u q) = (if q = ini then PROC_RUNNABLE else p_state (procs t q))"
      "queued u = (if p_state (procs t ini) \<noteq> PROC_RUNNABLE \<and> ini \<noteq> current t \<and> ini \<noteq> idleproc t then insert ini (queued t) else queued t)"
      using wakeup_ok [of t ini] ts pr(11) f(5) by auto
    show ?thesis by (rule that [of u]) (use True w wakeup_kin [OF w(1)] ts tr f(5) in \<open>auto split: if_splits\<close>)
  next
    case False
    show ?thesis by (rule that [of t]) (use False ts tr f(5) in auto)
  qed
  have k: "proc_list u = proc_list s" "proc_hash u = proc_hash s" "nr_process u = nr_process s" "initproc u = initproc s"
    "next_safe u = next_safe s" "last_pid u = last_pid s" "idleproc u = idleproc s"
    "\<And>q. p_parent (procs u q) = p_parent (procs t q)" "\<And>q. p_cptr (procs u q) = p_cptr (procs t q)"
    "\<And>q. p_yptr (procs u q) = p_yptr (procs t q)" "\<And>q. p_optr (procs u q) = p_optr (procs t q)"
    "\<And>q. p_pid (procs u q) = p_pid (procs t q)" "\<And>q. ident (procs u q) = ident (procs t q)"
    using u(2) tr unfolding kin_same_def by simp_all
  have s1: "sibs (procs u) (Some p) cs (p_cptr (procs u cur))"
  proof -
    have "sibs (procs u) (Some p) cs (p_optr (procs s p)) = sibs (procs s) (Some p) cs (p_optr (procs s p))"
      using pr(2,5) nci by (intro sibs_cong) (auto simp: k f)
    then show ?thesis using p(2) pr(8) by (simp add: k f)
  qed
  have s2: "sibs (procs u) None (p # ds) (p_cptr (procs u ini))"
  proof -
    have "sibs (procs u) (Some p) ds (p_cptr (procs s ini))"
      using pr(5) by (intro sibs_new_head [OF pr(3,4)]) (auto simp: k f)
    then show ?thesis using np by (simp add: k f)
  qed
  have zi: "p_state (procs u ini) \<noteq> PROC_ZOMBIE" using u(6) [of ini] pr(11) by auto
  have "distinct cs" "distinct (p # ds)" "set cs \<inter> set (p # ds) = {}" "cur \<notin> set cs" "ini \<notin> set cs"
    using pr(2,4,5,6,7) by auto
  then obtain v where v0: "adopt_children sc cur u = Some v" and ad: "adopted cur ini cs (p # ds) u v"
    using Cons.IH [OF s1 _ s2 _ _ _ _ pr(8) _ u(3) zi] pr(9,12) k(4,7) by auto
  from ad have v: "sched_ok v" "current v = current u" "queued v = queued u \<or> queued v = insert ini (queued u)"
     "proc_list v = proc_list u" "proc_hash v = proc_hash u" "nr_process v = nr_process u" "initproc v = initproc u"
     "next_safe v = next_safe u" "last_pid v = last_pid u" "idleproc v = idleproc u"
     "sibs (procs v) None (rev cs @ p # ds) (p_cptr (procs v ini))" "p_cptr (procs v cur) = None"
     and vq: "\<And>q. p_pid (procs v q) = p_pid (procs u q)"
          "\<And>q. p_parent (procs v q) = (if q \<in> set cs then Some ini else p_parent (procs u q))"
          "\<And>q. q \<noteq> ini \<Longrightarrow> q \<noteq> cur \<Longrightarrow> p_cptr (procs v q) = p_cptr (procs u q)"
          "\<And>q. q \<notin> set cs \<union> set (p # ds) \<Longrightarrow> p_yptr (procs v q) = p_yptr (procs u q) \<and> p_optr (procs v q) = p_optr (procs u q)"
          "\<And>q. p_state (procs v q) = p_state (procs u q) \<or> q = ini \<and> p_state (procs v q) = PROC_RUNNABLE"
          "\<And>q. ident (procs v q) = ident (procs u q)"
    unfolding adopted_def by blast+
  have "adopt_children sc cur s = Some v"
    using adopt_simps [OF p(1) pr(9)] u(1) v0 by (simp add: t_def [symmetric] Let_def)
  moreover have "p_state (procs v q) = p_state (procs s q) \<or> q = ini \<and> p_state (procs v q) = PROC_RUNNABLE" for q
    using vq(5) [of q] u(6) [of q] by auto
  moreover have "q \<noteq> ini \<Longrightarrow> q \<noteq> cur \<Longrightarrow> p_cptr (procs v q) = p_cptr (procs s q)" for q
    using vq(3) [of q] by (simp add: k f)
  moreover have "p_yptr (procs v q) = p_yptr (procs s q) \<and> p_optr (procs v q) = p_optr (procs s q)"
    if "q \<notin> set (p # cs) \<union> set ds" for q
    using that vq(4) [of q] nci [of q] by (simp add: k f)
  moreover have "p_parent (procs v q) = (if q \<in> set (p # cs) then Some ini else p_parent (procs s q))" for q
    using vq(2) [of q] by (auto simp: k f)
  moreover have "p_pid (procs v q) = p_pid (procs s q)" for q using vq(1) by (simp add: k f)
  moreover have "ident (procs v q) = ident (procs s q)" for q using vq(6) by (simp add: k f)
  moreover have "queued v = queued s \<or> queued v = insert ini (queued s)" using v(3) u(5) by auto
  ultimately show ?case using v k u(4) by (intro exI [of _ v]) (simp add: adopted_def)
qed

text \<open>The end of \<open>do_exit\<close> before the last \<open>schedule\<close>, over the table.\<close>

lemma exit_table_ok:
  assumes t: "tree_ok s" and sk: "sched_ok s" and idle: "p_state (procs s (idleproc s)) \<noteq> PROC_ZOMBIE"
    and c: "current s \<in> set (proc_list s)" and i: "initproc s = Some ini" "ini \<noteq> current s" "p_state (procs s ini) \<noteq> PROC_ZOMBIE"
  shows "\<exists>s'. exit_table sc code s = Some s' \<and> tree_ok s' \<and> sched_ok s' \<and> current s' = current s
     \<and> proc_list s' = proc_list s \<and> proc_hash s' = proc_hash s \<and> initproc s' = initproc s
     \<and> next_safe s' = next_safe s \<and> last_pid s' = last_pid s \<and> idleproc s' = idleproc s
     \<and> p_state (procs s' (current s)) = PROC_ZOMBIE
     \<and> (\<forall>q. ident (procs s' q) = ident (if q = current s then (procs s q)\<lparr>p_exit_code := code\<rparr> else procs s q)
          \<and> p_pid (procs s' q) = p_pid (procs s q)
          \<and> p_parent (procs s' q) = (if q \<in> offspring s (current s) then Some ini else p_parent (procs s q)))
     \<and> (\<forall>q. q \<noteq> current s \<longrightarrow> p_state (procs s' q) = p_state (procs s q) \<or> p_state (procs s' q) = PROC_RUNNABLE)
     \<and> (\<forall>q. p_parent (procs s (current s)) = Some q \<and> p_wait_state (procs s q) = WT_CHILD \<longrightarrow> p_state (procs s' q) = PROC_RUNNABLE)
     \<and> queued s' \<subseteq> insert ini (queued s \<union> {q. p_parent (procs s (current s)) = Some q})"
proof -
  let ?c = "current s"
  define s1 where "s1 = upd ?c (\<lambda>x. x\<lparr>p_exit_code := code\<rparr>) (upd ?c (\<lambda>x. x\<lparr>p_state := PROC_ZOMBIE\<rparr>) s)"
  have ci: "?c \<noteq> idleproc s" using t c by (auto simp: tree_ok_def)
  obtain par where par: "p_parent (procs s ?c) = Some par" "par \<in> family s" using t c by (auto simp: tree_ok_def)
  have ii: "ini \<in> set (proc_list s)" "p_parent (procs s ini) = Some (idleproc s)" "ini \<noteq> idleproc s"
    using t i(1) by (auto simp: tree_ok_def)
  have inv1: "rq_inv s1 \<and> queued s1 = queued s"
  proof -
    have "rq_inv (upd ?c (\<lambda>x. x\<lparr>p_state := PROC_ZOMBIE\<rparr>) s) \<and> queued (upd ?c (\<lambda>x. x\<lparr>p_state := PROC_ZOMBIE\<rparr>) s) = queued s"
      using sk by (intro upd_inv) (simp_all add: sched_ok_def)
    then show ?thesis unfolding s1_def using upd_inv by simp
  qed
  have sk1: "sched_ok s1" using sk inv1 unfolding sched_ok_def by (auto simp: s1_def)
  have f1: "p_parent (procs s1 q) = p_parent (procs s q)" "p_cptr (procs s1 q) = p_cptr (procs s q)"
    "p_yptr (procs s1 q) = p_yptr (procs s q)" "p_optr (procs s1 q) = p_optr (procs s q)" "p_pid (procs s1 q) = p_pid (procs s q)"
    "ident (procs s1 q) = ident (if q = ?c then (procs s q)\<lparr>p_exit_code := code\<rparr> else procs s q)"
    "p_state (procs s1 q) = (if q = ?c then PROC_ZOMBIE else p_state (procs s q))" for q
    by (simp_all add: s1_def ident_def)
  have l1: "proc_list s1 = proc_list s" "proc_hash s1 = proc_hash s" "nr_process s1 = nr_process s" "initproc s1 = initproc s"
    "next_safe s1 = next_safe s" "last_pid s1 = last_pid s" "idleproc s1 = idleproc s" "current s1 = current s"
    by (simp_all add: s1_def)
  have ws: "p_wait_state (procs s1 q) = p_wait_state (procs s q)" for q by (simp add: s1_def)
  obtain cs where cs: "kids s ?c cs" using t c by (auto simp: tree_ok_def family_def)
  obtain ds where ds: "kids s ini ds" using t ii(1) by (auto simp: tree_ok_def family_def)
  have pc: "par \<noteq> ?c" using t c par(1) by (auto simp: tree_ok_def)
  have pz: "p_state (procs s1 par) \<noteq> PROC_ZOMBIE"
  proof
    assume "p_state (procs s1 par) = PROC_ZOMBIE"
    then have z: "p_state (procs s par) = PROC_ZOMBIE" "par \<in> set (proc_list s)"
      using pc idle par(2) by (auto simp: f1 family_def)
    obtain ks where ks: "kids s par ks" using t par(2) by (auto simp: tree_ok_def)
    have "?c \<in> set ks" using kidsD(1) [OF ks] c par(1) by (simp add: offspring_def)
    moreover have "p_cptr (procs s par) = None" using t z by (simp add: tree_ok_def)
    ultimately show False using kidsD(3) [OF ks] by (cases ks) auto
  qed
  obtain s2 where s2: "(if p_wait_state (procs s1 par) = WT_CHILD then wakeup_proc sc par s1 else Some s1) = Some s2"
    "kin_same s1 s2" "sched_ok s2" "current s2 = ?c" "queued s2 \<subseteq> insert par (queued s)"
    "\<And>q. p_state (procs s2 q) = p_state (procs s1 q) \<or> q = par \<and> p_state (procs s2 q) = PROC_RUNNABLE"
    "p_wait_state (procs s1 par) = WT_CHILD \<Longrightarrow> p_state (procs s2 par) = PROC_RUNNABLE"
  proof (cases "p_wait_state (procs s1 par) = WT_CHILD")
    case True
    obtain u where w: "wakeup_proc sc par s1 = Some u" "sched_ok u" "current u = current s1"
      "\<forall>q. p_state (procs u q) = (if q = par then PROC_RUNNABLE else p_state (procs s1 q))"
      "queued u = (if p_state (procs s1 par) \<noteq> PROC_RUNNABLE \<and> par \<noteq> current s1 \<and> par \<noteq> idleproc s1 then insert par (queued s1) else queued s1)"
      using wakeup_ok [OF sk1 pz] by auto
    show ?thesis by (rule that [of u]) (use True w wakeup_kin [OF w(1)] inv1 l1(8) in \<open>auto split: if_splits\<close>)
  next
    case False
    show ?thesis by (rule that [of s1]) (use False sk1 inv1 l1(8) in auto)
  qed
  have k: "proc_list s2 = proc_list s" "proc_hash s2 = proc_hash s" "nr_process s2 = nr_process s" "initproc s2 = initproc s"
    "next_safe s2 = next_safe s" "last_pid s2 = last_pid s" "idleproc s2 = idleproc s"
    "\<And>q. p_parent (procs s2 q) = p_parent (procs s q)" "\<And>q. p_cptr (procs s2 q) = p_cptr (procs s q)"
    "\<And>q. p_yptr (procs s2 q) = p_yptr (procs s q)" "\<And>q. p_optr (procs s2 q) = p_optr (procs s q)"
    "\<And>q. p_pid (procs s2 q) = p_pid (procs s q)"
    "\<And>q. ident (procs s2 q) = ident (if q = ?c then (procs s q)\<lparr>p_exit_code := code\<rparr> else procs s q)"
    using s2(2) l1 f1 unfolding kin_same_def by simp_all
  have st: "q \<noteq> ?c \<Longrightarrow> p_state (procs s2 q) = p_state (procs s q) \<or> p_state (procs s2 q) = PROC_RUNNABLE" for q
    using s2(6) [of q] f1(7) [of q] by auto
  have cz: "p_state (procs s2 ?c) = PROC_ZOMBIE" using s2(6) [of ?c] pc by (simp add: f1)
  have sib: "sibs (procs s2) None xs at = sibs (procs s) None xs at" for xs at by (intro sibs_cong) (simp add: k)
  have cso: "set cs = offspring s ?c" "set ds = offspring s ini" using kidsD(1) cs ds by blast+
  have disj: "set cs \<inter> set ds = {}" "?c \<notin> set cs" "ini \<notin> set cs"
    using i(2) ii ci t c unfolding cso by (auto simp: offspring_def tree_ok_def)
  have zi: "p_state (procs s2 ini) \<noteq> PROC_ZOMBIE" using st [of ini] i(2,3) by auto
  have "\<exists>s'. adopt_children sc ?c s2 = Some s' \<and> adopted ?c ini cs ds s2 s'"
    by (rule adopt_ok [of _ None])
      (use kidsD(2,3) [OF cs] kidsD(2,3) [OF ds] disj i zi ii(3) s2(3) in \<open>simp_all add: sib k\<close>)
  then obtain s' where a: "adopt_children sc ?c s2 = Some s'" and ad: "adopted ?c ini cs ds s2 s'" by blast
  have s': "sched_ok s'" "current s' = ?c" "queued s' = queued s2 \<or> queued s' = insert ini (queued s2)"
     "proc_list s' = proc_list s" "proc_hash s' = proc_hash s" "nr_process s' = nr_process s" "initproc s' = initproc s"
     "next_safe s' = next_safe s" "last_pid s' = last_pid s" "idleproc s' = idleproc s"
     "sibs (procs s') None (rev cs @ ds) (p_cptr (procs s' ini))" "p_cptr (procs s' ?c) = None"
    using ad s2(4) k unfolding adopted_def by auto
  have q: "p_pid (procs s' q) = p_pid (procs s q)"
      "ident (procs s' q) = ident (if q = ?c then (procs s q)\<lparr>p_exit_code := code\<rparr> else procs s q)"
      "p_parent (procs s' q) = (if q \<in> offspring s ?c then Some ini else p_parent (procs s q))"
      "q \<noteq> ini \<Longrightarrow> q \<noteq> ?c \<Longrightarrow> p_cptr (procs s' q) = p_cptr (procs s q)"
      "q \<notin> set cs \<union> set ds \<Longrightarrow> p_yptr (procs s' q) = p_yptr (procs s q) \<and> p_optr (procs s' q) = p_optr (procs s q)"
      "p_state (procs s' q) = p_state (procs s2 q) \<or> q = ini \<and> p_state (procs s' q) = PROC_RUNNABLE" for q
    using ad k cso unfolding adopted_def by auto
  have off: "offspring s' p = (if p = ini then set cs \<union> set ds else offspring s p - set cs)" for p
    unfolding cso by (auto simp: offspring_def s'(4) q(3))
  have fam: "family s' = family s" by (simp add: family_def s'(4,10))
  have "tree_ok s'"
    unfolding tree_ok_def
  proof (intro conjI)
    show "\<forall>p \<in> family s'. \<exists>cs. kids s' p cs"
    proof
      fix p assume p: "p \<in> family s'"
      consider "p = ?c" | "p = ini" | "p \<noteq> ?c" "p \<noteq> ini" by blast
      then show "\<exists>cs. kids s' p cs"
      proof cases
        case 1
        then have "kids s' p []" using i(2) cso by (simp add: kids_def off s'(12))
        then show ?thesis by blast
      next
        case 2
        then have "kids s' p (rev cs @ ds)"
          using s'(11) kidsD(2) [OF cs] kidsD(2) [OF ds] disj(1) by (auto simp: kids_def off)
        then show ?thesis by blast
      next
        case 3
        obtain es where es: "kids s p es" using t p fam by (auto simp: tree_ok_def)
        have nin: "x \<notin> set cs \<union> set ds" if "x \<in> offspring s p" for x
          using that 3 unfolding cso by (auto simp: offspring_def)
        then have "offspring s p \<inter> set cs = {}" by blast
        then have "kids s' p es" using 3 nin q(4,5) by (intro kids_elsewhere [OF es]) (auto simp: off)
        then show ?thesis by blast
      qed
    qed
    show "\<forall>p \<in> set (proc_list s'). \<exists>q \<in> family s'. p_parent (procs s' p) = Some q \<and> q \<noteq> p"
      using t ii(1) disj(3) unfolding cso tree_ok_def s'(4) fam q(3) by (auto simp: family_def)
    show "\<forall>p \<in> set (proc_list s'). p_state (procs s' p) = PROC_ZOMBIE \<longrightarrow> p_cptr (procs s' p) = None"
    proof (intro ballI impI)
      fix p assume p: "p \<in> set (proc_list s')" "p_state (procs s' p) = PROC_ZOMBIE"
      show "p_cptr (procs s' p) = None"
      proof (cases "p = ?c")
        case False
        have pi: "p \<noteq> ini" using p(2) q(6) [of p] zi by auto
        then have "p_state (procs s p) = PROC_ZOMBIE" using p(2) q(6) [of p] st [OF False] by auto
        then show ?thesis using t p(1) s'(4) q(4) [OF pi False] by (simp add: tree_ok_def)
      qed (simp add: s'(12))
    qed
    show "\<forall>i. initproc s' = Some i \<longrightarrow> i \<in> set (proc_list s') \<and> p_parent (procs s' i) = Some (idleproc s')"
      using ii i(1) disj(3) by (simp add: s'(4,7,10) q(3) cso)
  qed (use t in \<open>simp_all add: tree_ok_def s'(4,6,10)\<close>)
  moreover have "exit_table sc code s = Some s'"
    unfolding exit_table_def Let_def s1_def [symmetric] by (simp only: f1(1) par(1) Option.bind.simps s2(1) a)
  moreover have "p_state (procs s' ?c) = PROC_ZOMBIE" using q(6) [of ?c] cz i(2) by auto
  moreover have "r \<noteq> ?c \<Longrightarrow> p_state (procs s' r) = p_state (procs s r) \<or> p_state (procs s' r) = PROC_RUNNABLE" for r
    using q(6) [of r] st [of r] by auto
  moreover have "p_state (procs s' r) = PROC_RUNNABLE" if "p_parent (procs s ?c) = Some r \<and> p_wait_state (procs s r) = WT_CHILD" for r
    using q(6) [of r] s2(7) that par(1) by (auto simp: ws)
  moreover have "queued s' \<subseteq> insert ini (queued s \<union> {q. p_parent (procs s ?c) = Some q})"
    using s'(3) s2(5) par(1) by auto
  ultimately show ?thesis using s' q(1,2,3) by (intro exI [of _ s']) blast
qed

end

section \<open>Both classes\<close>

lemma refill_kin: "p_parent (refill m x) = p_parent x" "p_cptr (refill m x) = p_cptr x" "p_yptr (refill m x) = p_yptr x"
  "p_optr (refill m x) = p_optr x" "p_pid (refill m x) = p_pid x" "ident (refill m x) = ident x" "p_state (refill m x) = p_state x"
  by (simp_all add: refill_def ident_def)

lemma ident_rq: "ident (x\<lparr>p_rq := b\<rparr>) = ident x" "ident (x\<lparr>p_time_slice := i\<rparr>) = ident x"
  "ident (x\<lparr>p_need_resched := b\<rparr>) = ident x" "ident (x\<lparr>p_stride := w\<rparr>) = ident x"
  by (simp_all add: ident_def)

interpretation stride_kin: kin_queue stride_sched_class stride_inv stride_queued
proof (intro kin_queue.intro stride.run_queue_axioms kin_queue_axioms.intro)
  fix p :: pptr and s s' :: "'a ptable_scheme"
  show "sc_enqueue stride_sched_class p s = Some s' \<Longrightarrow> kin_same s s'"
    by (cases "skew_heap_insert (proc_stride_comp_f (procs s)) (run_pool s) p (pool s)")
      (auto simp: stride_sched_class_def stride_enqueue_def Let_def kin_same_def refill_kin ident_rq)
  show "sc_dequeue stride_sched_class p s = Some s' \<Longrightarrow> kin_same s s'"
    by (cases "skew_heap_remove (proc_stride_comp_f (procs s)) (run_pool s) p (pool s)")
      (auto simp: stride_sched_class_def stride_dequeue_def Let_def kin_same_def kassert_def split: if_splits)
  show "sc_pick_next stride_sched_class s = (nx, s') \<Longrightarrow> kin_same s s'" for nx
    by (cases "run_pool s") (auto simp: stride_sched_class_def stride_pick_next_def kin_same_def ident_rq)
  show "kin_same s (sc_proc_tick stride_sched_class p s)"
    by (simp add: stride_sched_class_def stride_proc_tick_def Let_def kin_same_def ident_rq)
  show "stride_inv s \<Longrightarrow> p \<notin> stride_queued s \<Longrightarrow> stride_inv (upd p f s) \<and> stride_queued (upd p f s) = stride_queued s" for f
    by (auto simp: stride_inv_def stride_queued_def)
  show "stride_inv s \<Longrightarrow>
      stride_inv (s\<lparr>proc_list := l, proc_hash := h, nr_process := n, initproc := i, next_safe := ns, last_pid := lp\<rparr>)
      \<and> stride_queued (s\<lparr>proc_list := l, proc_hash := h, nr_process := n, initproc := i, next_safe := ns, last_pid := lp\<rparr>) = stride_queued s" for l h n i ns lp
    by (simp add: stride_inv_def stride_queued_def)
qed

interpretation RR_kin: kin_queue RR_sched_class RR_inv RR_queued
proof (intro kin_queue.intro RR.run_queue_axioms kin_queue_axioms.intro)
  fix p :: pptr and s s' :: "'a ptable_scheme"
  show "sc_enqueue RR_sched_class p s = Some s' \<Longrightarrow> kin_same s s'"
    by (auto simp: RR_sched_class_def RR_enqueue_def Let_def kin_same_def refill_kin ident_rq kassert_def split: if_splits)
  show "sc_dequeue RR_sched_class p s = Some s' \<Longrightarrow> kin_same s s'"
    by (auto simp: RR_sched_class_def RR_dequeue_def Let_def kin_same_def kassert_def split: if_splits)
  show "sc_pick_next RR_sched_class s = (nx, s') \<Longrightarrow> kin_same s s'" for nx
    by (cases "run_list s") (auto simp: RR_sched_class_def RR_pick_next_def)
  show "kin_same s (sc_proc_tick RR_sched_class p s)"
    by (simp add: RR_sched_class_def RR_proc_tick_def Let_def kin_same_def ident_rq)
  show "RR_inv s \<Longrightarrow> p \<notin> RR_queued s \<Longrightarrow> RR_inv (upd p f s) \<and> RR_queued (upd p f s) = RR_queued s" for f
    by (auto simp: RR_inv_def RR_queued_def)
  show "RR_inv s \<Longrightarrow>
      RR_inv (s\<lparr>proc_list := l, proc_hash := h, nr_process := n, initproc := i, next_safe := ns, last_pid := lp\<rparr>)
      \<and> RR_queued (s\<lparr>proc_list := l, proc_hash := h, nr_process := n, initproc := i, next_safe := ns, last_pid := lp\<rparr>) = RR_queued s" for l h n i ns lp
    by (simp add: RR_inv_def RR_queued_def)
qed

section \<open>Pids and hash lists\<close>

lemma find_proc_ok:
  assumes "pids_ok s"
  shows "find_proc s n = Some p \<longleftrightarrow> p \<in> set (proc_list s) \<and> p_pid (procs s p) = n"
proof
  assume "find_proc s n = Some p"
  then have "List.find (\<lambda>p. p_pid (procs s p) = n) (proc_hash s (pid_hashfn n)) = Some p"
    by (simp add: find_proc_def split: if_splits)
  then have "p \<in> set (proc_hash s (pid_hashfn n))" "p_pid (procs s p) = n"
    by (auto simp: find_Some_iff)
  then show "p \<in> set (proc_list s) \<and> p_pid (procs s p) = n" using assms by (auto simp: pids_ok_def)
next
  assume p: "p \<in> set (proc_list s) \<and> p_pid (procs s p) = n"
  then have n: "0 < n" "n < MAX_PID" and h: "p \<in> set (proc_hash s (pid_hashfn n))" using assms by (auto simp: pids_ok_def)
  have u: "q = p" if "q \<in> set (proc_hash s (pid_hashfn n))" "p_pid (procs s q) = n" for q
  proof -
    have "inj_on (\<lambda>p. p_pid (procs s p)) (set (proc_list s))"
      using assms by (auto simp: pids_ok_def pids_def distinct_map)
    then show ?thesis using that p assms by (auto simp: pids_ok_def inj_on_def)
  qed
  obtain q where q: "List.find (\<lambda>p. p_pid (procs s p) = n) (proc_hash s (pid_hashfn n)) = Some q"
    using h p by (cases "List.find (\<lambda>p. p_pid (procs s p) = n) (proc_hash s (pid_hashfn n))") (auto simp: find_None_iff)
  then have "q = p" using u by (auto simp: find_Some_iff)
  then show "find_proc s n = Some p" using q n by (simp add: find_proc_def)
qed

lemma pids_ok_new:
  assumes "pids_ok s" "p \<notin> set (proc_list s)" "n \<notin> set (pids s)" "0 < n" "n < MAX_PID" "pid_inv (n # pids s) lp ns"
    and s': "proc_list s' = p # proc_list s" "last_pid s' = lp" "next_safe s' = ns"
      "proc_hash s' = (proc_hash s)(pid_hashfn n := p # proc_hash s (pid_hashfn n))"
      "\<And>q. p_pid (procs s' q) = (if q = p then n else p_pid (procs s q))"
  shows "pids_ok s'"
proof -
  have "pids s' = n # pids s" using assms(2) s' by (auto simp: pids_def)
  then show ?thesis using assms by (auto simp: pids_ok_def)
qed

lemma pids_ok_reap:
  assumes "pids_ok s" "distinct (proc_list s)" "p \<in> set (proc_list s)"
    and s': "proc_list s' = remove1 p (proc_list s)" "last_pid s' = last_pid s" "next_safe s' = next_safe s"
      "proc_hash s' = (\<lambda>b. remove1 p (proc_hash s b))" "\<And>q. p_pid (procs s' q) = p_pid (procs s q)"
  shows "pids_ok s'"
proof -
  have "set (pids s') \<subseteq> set (pids s)" using s' set_remove1_subset by (fastforce simp: pids_def)
  moreover have "distinct (pids s')" using assms(1,2) unfolding pids_ok_def pids_def s'(1,5) distinct_map
    by (auto intro: inj_on_subset set_remove1_subset)
  ultimately show ?thesis
    using assms by (auto simp: pids_ok_def pid_inv_def)
qed

end
