(* ===== verification/Sfs_Rw.thy ===== *)
theory Sfs_Rw
  imports Sfs_Map
begin

text \<open>
  Reading and writing files: \<open>sfs_io_nolock\<close>, \<open>sfs_io\<close>, \<open>sfs_read\<close>, \<open>sfs_write\<close> of
  \<open>kern/fs/sfs/sfs_inode.c\<close>.  The transfer is a state of volume, inode, buffer object and number
  of bytes done; \<open>buf\<close> and \<open>alen\<close> advance together, so the current pointer is \<open>p + alen\<close>.
\<close>

section \<open>The transfer\<close>

type_synonym io_state = "sfs_fs \<times> sfs_inode \<times> mem \<times> nat"

definition sfs_buf_op ::
  "bool \<Rightarrow> sfs_fs \<Rightarrow> mem \<Rightarrow> nat \<Rightarrow> nat \<Rightarrow> nat \<Rightarrow> nat \<Rightarrow> ((errno + unit) \<times> sfs_fs \<times> mem) option" where
  "sfs_buf_op write = (if write then sfs_wbuf else sfs_rbuf)"

definition sfs_block_op ::
  "bool \<Rightarrow> sfs_fs \<Rightarrow> mem \<Rightarrow> nat \<Rightarrow> nat \<Rightarrow> nat \<Rightarrow> ((errno + unit) \<times> sfs_fs \<times> mem) option" where
  "sfs_block_op write = (if write then sfs_wblock else sfs_rblock)"

text \<open>Part of one block, and \<open>nblks\<close> whole blocks from the first one's disk block on.\<close>

definition io_chunk ::
  "bool \<Rightarrow> nat \<Rightarrow> nat \<Rightarrow> nat \<Rightarrow> nat \<Rightarrow> io_state \<Rightarrow> ((errno + unit) \<times> io_state) option" where
  "io_chunk write p blkno sz off = (\<lambda>(sfs, sin, buf, alen). do {
     (ret, sfs, sin) \<leftarrow> sfs_bmap_load_nolock sfs sin blkno;
     (case ret of
        Inl e \<Rightarrow> Some (Inl e, sfs, sin, buf, alen)
      | Inr b \<Rightarrow> do {
          (ret, sfs, buf) \<leftarrow> sfs_buf_op write sfs buf (p + alen) sz b off;
          Some (case ret of
              Inl e \<Rightarrow> (Inl e, sfs, sin, buf, alen)
            | Inr _ \<Rightarrow> (Inr (), sfs, sin, buf, alen + sz))
        })
   })"

definition io_blocks ::
  "bool \<Rightarrow> nat \<Rightarrow> nat \<Rightarrow> nat \<Rightarrow> io_state \<Rightarrow> ((errno + unit) \<times> io_state) option" where
  "io_blocks write p blkno nblks = (\<lambda>(sfs, sin, buf, alen). do {
     (ret, sfs, sin) \<leftarrow> sfs_bmap_load_nolock sfs sin blkno;
     (case ret of
        Inl e \<Rightarrow> Some (Inl e, sfs, sin, buf, alen)
      | Inr b \<Rightarrow> do {
          (ret, sfs, buf) \<leftarrow> sfs_block_op write sfs buf (p + alen) b nblks;
          Some (case ret of
              Inl e \<Rightarrow> (Inl e, sfs, sin, buf, alen)
            | Inr _ \<Rightarrow> (Inr (), sfs, sin, buf, alen + nblks * SFS_BLKSIZE))
        })
   })"

definition io_body :: "bool \<Rightarrow> nat \<Rightarrow> nat \<Rightarrow> nat \<Rightarrow> io_state \<Rightarrow> ((errno + unit) \<times> io_state) option" where
  "io_body write p offset endpos st =
     (let blkno = offset div SFS_BLKSIZE;
          nblks = endpos div SFS_BLKSIZE - blkno;
          blkoff = offset mod SFS_BLKSIZE in
      seqE (if blkoff \<noteq> 0
            then io_chunk write p blkno (if nblks \<noteq> 0 then SFS_BLKSIZE - blkoff else endpos - offset) blkoff st
            else Some (Inr (), st))
        (\<lambda>_ st.
           if blkoff \<noteq> 0 \<and> nblks = 0 then Some (Inr (), st)
           else
             (let (blkno, nblks) = (if blkoff \<noteq> 0 then (blkno + 1, nblks - 1) else (blkno, nblks)) in
              seqE (if nblks > 0 then io_blocks write p blkno nblks st else Some (Inr (), st))
                (\<lambda>_ st.
                   if endpos mod SFS_BLKSIZE \<noteq> 0
                   then io_chunk write p (blkno + nblks) (endpos mod SFS_BLKSIZE) 0 st
                   else Some (Inr (), st)))))"

text \<open>
  \<open>endpos\<close> is computed in 64 bits and read as signed.  The result comes with the number of bytes
  transferred; the size is updated at the label \<open>out\<close>.
\<close>

definition sfs_io_nolock ::
  "sfs_fs \<Rightarrow> sfs_inode \<Rightarrow> mem \<Rightarrow> nat \<Rightarrow> int \<Rightarrow> nat \<Rightarrow> bool \<Rightarrow> ((errno + unit) \<times> io_state) option" where
  "sfs_io_nolock sfs sin buf p offset len write = do {
     kassert (di_type (din sin) \<noteq> SFS_TYPE_DIR);
     let endpos = signed_take_bit 63 (offset + int len);
     if offset < 0 \<or> offset \<ge> int SFS_MAX_FILE_SIZE \<or> offset > endpos
     then Some (Inl E_INVAL, sfs, sin, buf, 0)
     else if offset = endpos then Some (Inr (), sfs, sin, buf, 0)
     else do {
       let endpos = (if endpos > int SFS_MAX_FILE_SIZE then int SFS_MAX_FILE_SIZE else endpos);
       if \<not> write \<and> offset \<ge> int (di_size (din sin)) then Some (Inr (), sfs, sin, buf, 0)
       else do {
         let endpos = (if \<not> write \<and> endpos > int (di_size (din sin)) then int (di_size (din sin)) else endpos);
         (ret, sfs, sin, buf, alen) \<leftarrow> io_body write p (nat offset) (nat endpos) (sfs, sin, buf, 0);
         let sin = (if nat offset + alen > di_size (din sin)
            then sin\<lparr>din := (din sin)\<lparr>di_size := nat offset + alen\<rparr>, dirty := True\<rparr> else sin);
         Some (ret, sfs, sin, buf, alen)
       }
     }
   }"

definition sfs_io :: "sfs_fs \<Rightarrow> sfs_inode \<Rightarrow> iobuf \<Rightarrow> bool \<Rightarrow> ((errno + unit) \<times> sfs_fs \<times> sfs_inode \<times> iobuf) option" where
  "sfs_io sfs sin iob write = do {
     (ret, sfs, sin, buf, alen) \<leftarrow>
       sfs_io_nolock sfs sin (io_obj iob) (io_base iob) (io_offset iob) (io_resid iob) write;
     let iob = iob\<lparr>io_obj := buf\<rparr>;
     iob \<leftarrow> (if alen \<noteq> 0 then iobuf_skip iob alen else Some iob);
     Some (ret, sfs, sin, iob)
   }"

definition sfs_read :: "sfs_fs \<Rightarrow> sfs_inode \<Rightarrow> iobuf \<Rightarrow> ((errno + unit) \<times> sfs_fs \<times> sfs_inode \<times> iobuf) option" where
  "sfs_read sfs sin iob = sfs_io sfs sin iob False"

definition sfs_write :: "sfs_fs \<Rightarrow> sfs_inode \<Rightarrow> iobuf \<Rightarrow> ((errno + unit) \<times> sfs_fs \<times> sfs_inode \<times> iobuf) option" where
  "sfs_write sfs sin iob = sfs_io sfs sin iob True"

section \<open>Transfers with at most one whole block\<close>

text \<open>
  A transfer of at most one block's length is a sequence of at most two pieces.  \<open>P a st\<close> is what
  holds after \<open>a\<close> bytes, \<open>Q a st\<close> what holds when a piece fails after \<open>a\<close> bytes.
\<close>

lemma io_body_pieces:
  assumes len: "offset < endpos" "endpos \<le> offset + 4096" and start: "P 0 st"
    and chunk: "\<And>a st sz. P a st \<Longrightarrow> (offset + a) mod 4096 + sz \<le> 4096 \<Longrightarrow> 0 < sz \<Longrightarrow> offset + a + sz \<le> endpos
       \<Longrightarrow> \<exists>r st'. io_chunk write p ((offset + a) div 4096) sz ((offset + a) mod 4096) st = Some (r, st')
             \<and> (r = Inr () \<and> P (a + sz) st' \<or> r = Inl E_NO_MEM \<and> Q a st')"
    and block: "\<And>st. P 0 st \<Longrightarrow> offset mod 4096 = 0 \<Longrightarrow> offset + 4096 \<le> endpos
       \<Longrightarrow> \<exists>r st'. io_blocks write p (offset div 4096) 1 st = Some (r, st')
             \<and> (r = Inr () \<and> P 4096 st' \<or> r = Inl E_NO_MEM \<and> Q 0 st')"
  shows "\<exists>r st'. io_body write p offset endpos st = Some (r, st')
     \<and> (r = Inr () \<and> P (endpos - offset) st' \<or> r = Inl E_NO_MEM \<and> (\<exists>a < endpos - offset. Q a st'))"
proof -
  define q r where "q = offset div 4096" and "r = offset mod 4096"
  define Q' R where "Q' = endpos div 4096" and "R = endpos mod 4096"
  have o: "offset = 4096 * q + r" "r < 4096" by (simp_all add: q_def r_def)
  have e: "endpos = 4096 * Q' + R" "R < 4096" by (simp_all add: Q'_def R_def)
  have qQ: "q \<le> Q'" unfolding q_def Q'_def using len(1) by (intro div_le_mono) simp
  have qQ1: "Q' \<le> q + 1"
  proof (rule ccontr)
    assume "\<not> Q' \<le> q + 1"
    then have "4096 * (q + 2) \<le> 4096 * Q'" by (intro mult_le_mono) simp_all
    then show False using o e len(2) by simp
  qed
  note defs = io_body_def SFS_BLKSIZE_def q_def [symmetric] r_def [symmetric] Q'_def [symmetric] R_def [symmetric]
  have c0: "\<exists>x st'. io_chunk write p q sz r st = Some (x, st') \<and> (x = Inr () \<and> P sz st' \<or> x = Inl E_NO_MEM \<and> Q 0 st')"
    if "r + sz \<le> 4096" "0 < sz" "offset + sz \<le> endpos" for sz
    using chunk [OF start, of sz] that by (simp add: q_def r_def)
  consider (one) "r \<noteq> 0" "Q' = q" | (two) "r \<noteq> 0" "Q' = q + 1" | (small) "r = 0" "Q' = q" | (full) "r = 0" "Q' = q + 1"
    using qQ qQ1 by linarith
  then show ?thesis
  proof cases
    case one
    then have "r + (endpos - offset) \<le> 4096" "0 < endpos - offset" using o e len(1) by simp_all
    then obtain x st' where x: "io_chunk write p q (endpos - offset) r st = Some (x, st')"
      "x = Inr () \<and> P (endpos - offset) st' \<or> x = Inl E_NO_MEM \<and> Q 0 st'"
      using c0 [of "endpos - offset"] len(1) by auto
    have "io_body write p offset endpos st = Some (x, st')"
      using one x by (auto simp: defs)
    then show ?thesis using x(2) len(1) by auto
  next
    case two
    have le: "offset + (4096 - r) = 4096 * Q'" "4096 * Q' \<le> endpos" using two o e by simp_all
    have m0: "(4096 * Q') mod 4096 = 0" "(4096 * Q') div 4096 = Q'" by simp_all
    obtain x st1 where x: "io_chunk write p q (4096 - r) r st = Some (x, st1)"
      "x = Inr () \<and> P (4096 - r) st1 \<or> x = Inl E_NO_MEM \<and> Q 0 st1"
      using c0 [of "4096 - r"] o(2) le by auto
    have a: "endpos - offset = (4096 - r) + R" "0 < endpos - offset" using le e o two by simp_all
    show ?thesis
    proof (cases "x = Inr () \<and> P (4096 - r) st1")
      case False
      then have "io_body write p offset endpos st = Some (x, st1)" "x = Inl E_NO_MEM \<and> Q 0 st1"
        using two x by (auto simp: defs)
      moreover have "0 < endpos - offset" using len(1) by simp
      ultimately show ?thesis by blast
    next
      case True
      show ?thesis
      proof (cases "R = 0")
        case R0: True
        have "io_body write p offset endpos st = Some (Inr (), st1)"
          using two x True R0 by (simp add: defs)
        then show ?thesis using True a R0 by auto
      next
        case R1: False
        obtain y st2 where y: "io_chunk write p Q' R 0 st1 = Some (y, st2)"
          "y = Inr () \<and> P (4096 - r + R) st2 \<or> y = Inl E_NO_MEM \<and> Q (4096 - r) st2"
          using chunk [OF conjunct2 [OF True], of R] R1 e unfolding le(1) m0 by auto
        have "io_body write p offset endpos st = Some (y, st2)"
          using two x True R1 y by (simp add: defs)
        then show ?thesis using y(2) a R1 by auto
      qed
    qed
  next
    case small
    then have R: "R = endpos - offset" "0 < R" using o e len(1) by simp_all
    then obtain x st' where x: "io_chunk write p q R 0 st = Some (x, st')"
      "x = Inr () \<and> P (endpos - offset) st' \<or> x = Inl E_NO_MEM \<and> Q 0 st'"
      using c0 [of R] small e(2) len(1) by auto
    have "io_body write p offset endpos st = Some (x, st')"
      using small x R by (simp add: defs)
    then show ?thesis using x(2) len(1) by auto
  next
    case full
    then have R: "R = 0" "endpos - offset = 4096" using o e len by simp_all
    then have "offset + 4096 \<le> endpos" by simp
    from block [OF start, folded q_def r_def, OF full(1) this]
    obtain x st' where x: "io_blocks write p q 1 st = Some (x, st')"
      "x = Inr () \<and> P 4096 st' \<or> x = Inl E_NO_MEM \<and> Q 0 st'"
      by blast
    have "io_body write p offset endpos st = Some (x, st')"
    proof (cases x)
      case (Inl e)
      then show ?thesis using full x by (simp add: defs)
    next
      case (Inr u)
      then show ?thesis using full x R by (simp add: defs)
    qed
    then show ?thesis using x(2) R by auto
  qed
qed

section \<open>Reading\<close>

text \<open>The buffer after \<open>a\<close> bytes from position \<open>offset\<close> of the file have arrived.\<close>

definition filled :: "sfs_fs \<Rightarrow> sfs_inode \<Rightarrow> mem \<Rightarrow> nat \<Rightarrow> nat \<Rightarrow> nat \<Rightarrow> mem" where
  "filled s sin buf p offset a =
     (\<lambda>j. if p \<le> j \<and> j < p + a then fbyte s sin (offset + (j - p)) else buf j)"

lemma filled_0 [simp]: "filled s sin buf p offset 0 = buf"
  by (auto simp: filled_def fun_eq_iff)

lemma block_split:
  fixes lo :: nat
  assumes "lo mod 4096 + sz \<le> 4096" "i < sz"
  shows "(lo + i) div 4096 = lo div 4096" "(lo + i) mod 4096 = lo mod 4096 + i"
proof -
  have lo: "4096 * (lo div 4096) + lo mod 4096 = lo" by simp
  have i: "lo mod 4096 + i < 4096" using assms by simp
  show d: "(lo + i) div 4096 = lo div 4096"
  proof (rule div_nat_eqI)
    show "4096 * (lo div 4096) \<le> lo + i" using lo by linarith
    show "lo + i < 4096 * Suc (lo div 4096)" using lo i unfolding mult_Suc_right by linarith
  qed
  have "4096 * ((lo + i) div 4096) + (lo + i) mod 4096 = lo + i" by simp
  with lo d show "(lo + i) mod 4096 = lo mod 4096 + i" by linarith
qed

lemma filled_step:
  assumes "lo = offset + a" "lo mod 4096 + sz \<le> 4096"
    and "b = entry s (din sin) (lo div 4096)"
  shows "blit (filled s sin buf p offset a) (p + a) (fblk s b) (lo mod 4096) sz = filled s sin buf p offset (a + sz)"
proof
  fix j
  show "blit (filled s sin buf p offset a) (p + a) (fblk s b) (lo mod 4096) sz j = filled s sin buf p offset (a + sz) j"
  proof (cases "p + a \<le> j \<and> j < p + a + sz")
    case True
    define i where "i = j - (p + a)"
    have i: "i < sz" "offset + (j - p) = lo + i" using True assms(1) by (auto simp: i_def)
    then show ?thesis using True block_split [OF assms(2) i(1)] assms(3)
      by (simp add: blit_def filled_def fbyte_def i_def [symmetric])
  next
    case False
    then show ?thesis by (auto simp: blit_def filled_def)
  qed
qed

lemma read_piece:
  assumes ok: "fs_ok s" and m: "map_ok s sin" and lo: "lo = offset + a"
    and z: "lo mod 4096 + sz \<le> 4096" "lo div 4096 < di_blocks (din sin)"
  shows "io_chunk False p (lo div 4096) sz (lo mod 4096) (s, sin, filled s sin buf p offset a, a)
      = Some (Inr (), s, sin, filled s sin buf p offset (a + sz), a + sz)"
    "sz = 4096 \<Longrightarrow> io_blocks False p (lo div 4096) 1 (s, sin, filled s sin buf p offset a, a)
      = Some (Inr (), s, sin, filled s sin buf p offset (a + sz), a + sz)"
proof -
  let ?b = "entry s (din sin) (lo div 4096)"
  have b: "?b \<in> used s" by (rule entry_in(1) [OF m z(2)])
  note l = bmap_load_old [OF ok m z(2)] and f = filled_step [OF lo z(1) refl]
  show "io_chunk False p (lo div 4096) sz (lo mod 4096) (s, sin, filled s sin buf p offset a, a)
      = Some (Inr (), s, sin, filled s sin buf p offset (a + sz), a + sz)"
    using l rbuf_used [OF ok b _ z(1)] by (simp add: io_chunk_def sfs_buf_op_def f)
  assume s4: "sz = 4096"
  then have "lo mod 4096 = 0" using z(1) by simp
  then have "sfs_rblock s (filled s sin buf p offset a) (p + a) ?b 1
     = Some (Inr (), s, filled s sin buf p offset (a + sz))"
    using rwblock_read [OF fs_ok_io [OF ok] used_less(2) [OF b]] used_less(1) [OF b] f s4
    by (simp add: sfs_rblock_def)
  then show "io_blocks False p (lo div 4096) 1 (s, sin, filled s sin buf p offset a, a)
      = Some (Inr (), s, sin, filled s sin buf p offset (a + sz), a + sz)"
    using l s4 by (simp add: io_blocks_def sfs_block_op_def SFS_BLKSIZE_def)
qed


lemma io_body_read:
  assumes ok: "fs_ok s" and m: "map_ok s sin"
    and len: "offset < endpos" "endpos \<le> offset + 4096" "endpos \<le> di_blocks (din sin) * 4096"
  shows "io_body False p offset endpos (s, sin, buf, 0)
     = Some (Inr (), s, sin, filled s sin buf p offset (endpos - offset), endpos - offset)"
proof -
  let ?P = "\<lambda>a st. st = (s, sin, filled s sin buf p offset a, a)"
  have blk: "(offset + a) div 4096 < di_blocks (din sin)" if "0 < sz" "offset + a + sz \<le> endpos" for a sz
    using that len(3) by (intro less_mult_imp_div_less) simp
  have "\<exists>r st'. io_body False p offset endpos (s, sin, buf, 0) = Some (r, st')
     \<and> (r = Inr () \<and> ?P (endpos - offset) st' \<or> r = Inl E_NO_MEM \<and> (\<exists>a < endpos - offset. False))"
  proof (rule io_body_pieces [OF len(1,2)])
    show "?P 0 (s, sin, buf, 0)" by simp
  next
    fix a st and sz :: nat
    assume a: "?P a st" "(offset + a) mod 4096 + sz \<le> 4096" "0 < sz" "offset + a + sz \<le> endpos"
    show "\<exists>r st'. io_chunk False p ((offset + a) div 4096) sz ((offset + a) mod 4096) st = Some (r, st')
             \<and> (r = Inr () \<and> ?P (a + sz) st' \<or> r = Inl E_NO_MEM \<and> False)"
      using read_piece(1) [OF ok m refl a(2) blk [OF a(3,4)], of p buf] a(1) by simp
  next
    fix st assume a: "?P 0 st" "offset mod 4096 = 0" "offset + 4096 \<le> endpos"
    show "\<exists>r st'. io_blocks False p (offset div 4096) 1 st = Some (r, st')
             \<and> (r = Inr () \<and> ?P 4096 st' \<or> r = Inl E_NO_MEM \<and> False)"
      using read_piece(2) [OF ok m refl _ _ refl, of offset 0 p buf] blk [of 4096 0] a by simp
  qed
  then show ?thesis by auto
qed


section \<open>Writing\<close>

text \<open>
  The effect of writing the bytes \<open>f i\<close> at the positions \<open>lo \<le> i < hi\<close> of a file, with the
  blocks appended that are needed; new blocks are zero elsewhere.
\<close>

definition wr :: "sfs_fs \<Rightarrow> sfs_inode \<Rightarrow> sfs_fs \<Rightarrow> sfs_inode \<Rightarrow> nat \<Rightarrow> nat \<Rightarrow> (nat \<Rightarrow> byte) \<Rightarrow> bool" where
  "wr s sin s' sin' lo hi f \<longleftrightarrow> fs_ok s' \<and> vol s' = vol s \<and> map_ok s' sin' \<and> meta sin' = meta sin
     \<and> di_blocks (din sin) \<le> di_blocks (din sin')
     \<and> frees s' \<subseteq> frees s \<and> owned s' sin' \<subseteq> owned s sin \<union> frees s \<and> untouched s sin s'
     \<and> (\<forall>i < di_blocks (din sin') * 4096. fbyte s' sin' i =
          (if lo \<le> i \<and> i < hi then f i else if i < di_blocks (din sin) * 4096 then fbyte s sin i else 0))"

lemma wr_cong:
  "(\<And>i. lo \<le> i \<Longrightarrow> i < hi \<Longrightarrow> f i = g i) \<Longrightarrow> wr s sin s' sin' lo hi f \<longleftrightarrow> wr s sin s' sin' lo hi g"
  by (simp add: wr_def cong: if_cong conj_cong)

lemma wr_ext:
  assumes e: "ext s sin s' sin'" and m: "map_ok s sin"
  shows "wr s sin s' sin' lo lo f"
proof -
  have "fbyte s' sin' i = (if i < di_blocks (din sin) * 4096 then fbyte s sin i else 0)"
    if "i < di_blocks (din sin') * 4096" for i
    using ext_fbyte [OF e m, of i] ext_fbyte_new [OF e, of i] that by simp
  then show ?thesis using e ext_untouched [OF e] by (auto simp: wr_def ext_def)
qed

lemma untouched_trans:
  assumes a: "untouched s sin s1" and b: "untouched s1 sin1 s2"
    and ow: "owned s1 sin1 \<subseteq> owned s sin \<union> frees s"
  shows "untouched s sin s2"
  unfolding untouched_def
proof (intro allI impI)
  fix x assume x: "map_ok s x \<and> owned s x \<inter> owned s sin = {}"
  then have x1: "map_ok s1 x" "owned s1 x = owned s x"
    "\<And>i. i < di_blocks (din x) * 4096 \<Longrightarrow> fbyte s1 x i = fbyte s x i"
    using a by (simp_all add: untouched_def)
  have "owned s x \<inter> frees s = {}" using owned_used [of s x] x by (auto simp: used_def)
  then have "owned s1 x \<inter> owned s1 sin1 = {}" using x1(2) x ow by blast
  then show "map_ok s2 x \<and> owned s2 x = owned s x \<and> (\<forall>i < di_blocks (din x) * 4096. fbyte s2 x i = fbyte s x i)"
    using b x1 by (simp add: untouched_def)
qed

lemma wr_trans:
  assumes a: "wr s sin s1 sin1 lo mid f" and b: "wr s1 sin1 s2 sin2 mid hi f"
    and le: "lo \<le> mid" "mid \<le> hi" "mid \<le> di_blocks (din sin1) * 4096"
  shows "wr s sin s2 sin2 lo hi f"
proof -
  have u: "untouched s sin s2"
    by (rule untouched_trans [of s sin s1 sin1]) (use a b in \<open>simp_all add: wr_def\<close>)
  have "fbyte s2 sin2 i = (if lo \<le> i \<and> i < hi then f i
      else if i < di_blocks (din sin) * 4096 then fbyte s sin i else 0)"
    if i: "i < di_blocks (din sin2) * 4096" for i
  proof -
    have "fbyte s2 sin2 i = (if mid \<le> i \<and> i < hi then f i
        else if i < di_blocks (din sin1) * 4096 then fbyte s1 sin1 i else 0)"
      using b i by (simp add: wr_def)
    moreover have "i < di_blocks (din sin1) * 4096 \<Longrightarrow> fbyte s1 sin1 i = (if lo \<le> i \<and> i < mid then f i
        else if i < di_blocks (din sin) * 4096 then fbyte s sin i else 0)"
      using a by (simp add: wr_def)
    moreover have "di_blocks (din sin) \<le> di_blocks (din sin1)" using a by (simp add: wr_def)
    then have "i < di_blocks (din sin) * 4096 \<Longrightarrow> i < di_blocks (din sin1) * 4096" by linarith
    ultimately show ?thesis using le by auto
  qed
  moreover have "owned s2 sin2 \<subseteq> owned s sin \<union> frees s" using a b unfolding wr_def by blast
  moreover have "frees s2 \<subseteq> frees s" using a b unfolding wr_def by blast
  ultimately show ?thesis using a b u by (simp add: wr_def)
qed

text \<open>Writing into a block the file has.\<close>

lemma wr_put:
  assumes ok: "fs_ok s" and m: "map_ok s sin" and k: "k < di_blocks (din sin)" and sz: "off + sz \<le> 4096"
    and lo: "lo = k * 4096 + off"
  shows "wr s sin (put_blk s (entry s (din sin) k) (blit (fblk s (entry s (din sin) k)) off buf q sz)) sin
     lo (lo + sz) (\<lambda>i. buf (q + (i - lo)))"
proof -
  let ?b = "entry s (din sin) k"
  let ?s = "put_blk s ?b (blit (fblk s ?b) off buf q sz)"
  note b = entry_in [OF m k]
  have kp: "keeps (- {?b}) s ?s" by (simp add: keeps_def)
  have us: "used ?s = used s" by (simp add: used_def)
  have i: "indirect (din sin) \<noteq> 0 \<Longrightarrow> indirect (din sin) \<in> - {?b}" using b by simp
  have ow: "owned s sin \<subseteq> used ?s" using owned_used [OF m] us by simp
  note c = map_ok_cong [OF m kp i ow]
  have un: "untouched s sin ?s"
  proof (rule untouchedI [OF kp])
    fix x assume x: "map_ok s x" "owned s x \<inter> owned s sin = {}"
    have "?b \<in> owned s sin" using k by (simp add: owned_def)
    then show "owned s x \<subseteq> - {?b} \<inter> used ?s" using x owned_used [OF x(1)] us by blast
  qed
  have n: "di_blocks (din sin) \<le> 1036" using m by (simp add: map_ok_def)
  have "fbyte ?s sin i = (if lo \<le> i \<and> i < lo + sz then buf (q + (i - lo)) else fbyte s sin i)"
    if il: "i < di_blocks (din sin) * 4096" for i
  proof -
    have ik: "i div 4096 < di_blocks (din sin)" using il by (simp add: less_mult_imp_div_less)
    then have e: "entry ?s (din sin) (i div 4096) = entry s (din sin) (i div 4096)"
      using entry_cong [OF kp i, of "i div 4096"] n by simp
    have split: "i div 4096 * 4096 + i mod 4096 = i" by simp
    show ?thesis
    proof (cases "i div 4096 = k")
      case True
      then have ii: "i = k * 4096 + i mod 4096" using split by simp
      have "lo \<le> i \<and> i < lo + sz \<longleftrightarrow> off \<le> i mod 4096 \<and> i mod 4096 < off + sz" "i - lo = i mod 4096 - off"
        using ii lo by linarith+
      then show ?thesis using e True by (simp add: fbyte_def blit_def)
    next
      case False
      have inj: "inj_on (entry s (din sin)) {..< di_blocks (din sin)}" using m by (simp add: map_ok_def)
      have "entry s (din sin) (i div 4096) \<noteq> ?b" using inj_onD [OF inj, of "i div 4096" k] False ik k by auto
      moreover have "\<not> (lo \<le> i \<and> i < lo + sz)"
      proof
        assume a: "lo \<le> i \<and> i < lo + sz"
        then have "i div 4096 = k" by (intro div_nat_eqI) (use a lo sz in simp_all)
        with False show False by simp
      qed
      ultimately show ?thesis using e by (simp only: fbyte_def if_False) simp
    qed
  qed
  then show ?thesis using c un ok by (simp add: wr_def)
qed


text \<open>The state after \<open>a\<close> bytes have been written from position \<open>offset\<close> on.\<close>

definition wrote ::
  "sfs_fs \<Rightarrow> sfs_inode \<Rightarrow> mem \<Rightarrow> nat \<Rightarrow> nat \<Rightarrow> nat \<Rightarrow> io_state \<Rightarrow> bool" where
  "wrote s sin buf p offset a = (\<lambda>(s', sin', buf', a'). buf' = buf \<and> a' = a
     \<and> wr s sin s' sin' offset (offset + a) (\<lambda>i. buf (p + (i - offset)))
     \<and> di_blocks (din sin') = max (di_blocks (din sin)) (blocks_for (offset + a))
     \<and> card (frees s) \<le> card (frees s') + 2 * (di_blocks (din sin') - di_blocks (din sin)))"

lemma blocks_for_piece:
  assumes "lo mod 4096 + sz \<le> 4096" "0 < sz"
  shows "blocks_for (lo + sz) = Suc (lo div 4096)"
proof -
  have lo: "4096 * (lo div 4096) + lo mod 4096 = lo" by simp
  show ?thesis unfolding blocks_for_def
  proof (rule div_nat_eqI)
    show "4096 * Suc (lo div 4096) \<le> lo + sz + 4095" using assms lo unfolding mult_Suc_right by linarith
    show "lo + sz + 4095 < 4096 * Suc (Suc (lo div 4096))" using assms lo unfolding mult_Suc_right by linarith
  qed
qed

lemma write_load:
  assumes w: "wrote s sin buf p offset a (s1, sin1, buf, a)" and m: "map_ok s sin"
    and off: "offset \<le> di_blocks (din sin) * 4096"
    and k: "k = (offset + a) div 4096" "k < 1036"
  shows "(\<exists>s2. sfs_bmap_load_nolock s1 sin1 k = Some (Inl E_NO_MEM, s2, sin1) \<and> card (frees s2) < 2
            \<and> wrote s sin buf p offset a (s2, sin1, buf, a))
     \<or> (\<exists>s2 sin2. sfs_bmap_load_nolock s1 sin1 k = Some (Inr (entry s2 (din sin2) k), s2, sin2)
            \<and> wr s sin s2 sin2 offset (offset + a) (\<lambda>i. buf (p + (i - offset)))
            \<and> di_blocks (din sin2) = max (di_blocks (din sin1)) (Suc k)
            \<and> card (frees s) \<le> card (frees s2) + 2 * (di_blocks (din sin2) - di_blocks (din sin)))"
proof -
  let ?f = "\<lambda>i. buf (p + (i - offset))"
  have w1: "wr s sin s1 sin1 offset (offset + a) ?f"
    "di_blocks (din sin1) = max (di_blocks (din sin)) (blocks_for (offset + a))"
    "card (frees s) \<le> card (frees s1) + 2 * (di_blocks (din sin1) - di_blocks (din sin))"
    using w unfolding wrote_def prod.case by blast+
  have ok1: "fs_ok s1" and m1: "map_ok s1 sin1" and f1: "frees s1 \<subseteq> frees s" using w1(1) by (simp_all add: wr_def)
  have cov: "offset + a \<le> di_blocks (din sin1) * 4096"
    using blocks_for_cover [of "offset + a"] w1(2) by (auto simp: max_def)
  have le: "k \<le> di_blocks (din sin1)"
    using div_le_mono [OF cov, of 4096] k(1) by simp
  show ?thesis
  proof (cases "k < di_blocks (din sin1)")
    case True
    then have "sfs_bmap_load_nolock s1 sin1 k = Some (Inr (entry s1 (din sin1) k), s1, sin1)"
      by (rule bmap_load_old [OF ok1 m1])
    then show ?thesis using w1(1,3) True by (intro disjI2 exI [of _ s1] exI [of _ sin1]) simp
  next
    case False
    then have n: "di_blocks (din sin1) = k" using le by simp
    from bmap_load_new [OF ok1 m1 n k(2)] show ?thesis
    proof (elim disjE exE conjE)
      fix s2 assume a2: "card (frees s1) < 2" "sfs_bmap_load_nolock s1 sin1 k = Some (Inl E_NO_MEM, s2, sin1)"
        "fs_ok s2" "vol s2 = vol s1" "frees s2 = frees s1" "keeps (used s1) s1 s2"
      have "wr s1 sin1 s2 sin1 (offset + a) (offset + a) ?f"
        by (rule wr_ext [OF ext_same [OF a2(3-6) m1] m1])
      then have "wr s sin s2 sin1 offset (offset + a) ?f"
        using wr_trans [OF w1(1)] cov by simp
      then show ?thesis using a2 w1(2,3)
        by (intro disjI1 exI [of _ s2]) (simp add: wrote_def)
    next
      fix s2 sin2 b assume a2: "sfs_bmap_load_nolock s1 sin1 k = Some (Inr b, s2, sin2)" "grows s1 sin1 s2 sin2 b"
      have "wr s1 sin1 s2 sin2 (offset + a) (offset + a) ?f"
        by (rule wr_ext [OF grows_ext [OF a2(2) m1] m1])
      then have "wr s sin s2 sin2 offset (offset + a) ?f"
        using wr_trans [OF w1(1)] cov by simp
      moreover have "entry s2 (din sin2) k = b" "di_blocks (din sin2) = Suc k"
        using a2(2) n by (simp_all add: grows_def)
      moreover have "card (frees s) \<le> card (frees s2) + 2 * (di_blocks (din sin2) - di_blocks (din sin))"
        using ext_card(1) [OF grows_ext [OF a2(2) m1] m1 ok1] w1(2,3) n calculation(3) by simp
      ultimately show ?thesis using a2(1) n
        by (intro disjI2 exI [of _ s2] exI [of _ sin2]) simp
    qed
  qed
qed

lemma wrote_put:
  assumes w: "wr s sin s2 sin2 offset (offset + a) (\<lambda>i. buf (p + (i - offset)))"
    and c: "card (frees s) \<le> card (frees s2) + 2 * (di_blocks (din sin2) - di_blocks (din sin))"
    and n: "di_blocks (din sin2) = max (di_blocks (din sin1)) (Suc k)"
      "di_blocks (din sin1) = max (di_blocks (din sin)) (blocks_for (offset + a))"
    and k: "k = (offset + a) div 4096" and sz: "(offset + a) mod 4096 + sz \<le> 4096" "0 < sz"
    and off: "off = (offset + a) mod 4096"
  shows "wrote s sin buf p offset (a + sz)
     (put_blk s2 (entry s2 (din sin2) k) (blit (fblk s2 (entry s2 (din sin2) k)) off buf (p + a) sz), sin2, buf, a + sz)"
proof -
  let ?f = "\<lambda>i. buf (p + (i - offset))"
  let ?s = "put_blk s2 (entry s2 (din sin2) k) (blit (fblk s2 (entry s2 (din sin2) k)) off buf (p + a) sz)"
  have ok2: "fs_ok s2" and m2: "map_ok s2 sin2" using w by (simp_all add: wr_def)
  have lo: "offset + a = k * 4096 + off" using k off by simp
  have "wr s2 sin2 ?s sin2 (offset + a) (offset + a + sz) (\<lambda>i. buf (p + a + (i - (offset + a))))"
    by (rule wr_put [OF ok2 m2 _ _ lo]) (use n(1) sz off in simp_all)
  then have put: "wr s2 sin2 ?s sin2 (offset + a) (offset + a + sz) ?f"
    by (rule wr_cong [THEN iffD1, rotated]) simp
  have "offset + a \<le> di_blocks (din sin2) * 4096"
    using lo off n(1) mod_less_divisor [of 4096 "offset + a"] by (auto simp: max_def)
  then have "wr s sin ?s sin2 offset (offset + (a + sz)) ?f"
    using wr_trans [OF w put] by (simp add: add.assoc)
  moreover have b: "blocks_for (offset + (a + sz)) = Suc k"
    using blocks_for_piece [OF sz] k by (simp add: add.assoc)
  moreover have "blocks_for (offset + a) \<le> Suc k"
    unfolding b [symmetric] by (rule blocks_for_mono) simp
  ultimately show ?thesis using n c by (simp add: wrote_def)
qed


lemma write_piece:
  assumes w: "wrote s sin buf p offset a st" and m: "map_ok s sin"
    and off: "offset \<le> di_blocks (din sin) * 4096"
    and k: "(offset + a) div 4096 < 1036" and sz: "(offset + a) mod 4096 + sz \<le> 4096" "0 < sz"
  shows "\<exists>r st'. io_chunk True p ((offset + a) div 4096) sz ((offset + a) mod 4096) st = Some (r, st')
       \<and> (r = Inr () \<and> wrote s sin buf p offset (a + sz) st'
          \<or> r = Inl E_NO_MEM \<and> wrote s sin buf p offset a st' \<and> card (frees (fst st')) < 2)"
    and "sz = 4096 \<Longrightarrow> \<exists>r st'. io_blocks True p ((offset + a) div 4096) 1 st = Some (r, st')
       \<and> (r = Inr () \<and> wrote s sin buf p offset (a + sz) st'
          \<or> r = Inl E_NO_MEM \<and> wrote s sin buf p offset a st' \<and> card (frees (fst st')) < 2)"
proof -
  let ?k = "(offset + a) div 4096" and ?o = "(offset + a) mod 4096"
  obtain s1 sin1 where st: "st = (s1, sin1, buf, a)" using w by (cases st) (auto simp: wrote_def)
  note w1 = w [unfolded st]
  have n1: "di_blocks (din sin1) = max (di_blocks (din sin)) (blocks_for (offset + a))"
    using w1 by (simp add: wrote_def)
  from write_load [OF w1 m off refl k]
  have "(\<exists>r st'. io_chunk True p ?k sz ?o st = Some (r, st')
       \<and> (r = Inr () \<and> wrote s sin buf p offset (a + sz) st'
          \<or> r = Inl E_NO_MEM \<and> wrote s sin buf p offset a st' \<and> card (frees (fst st')) < 2))
     \<and> (sz = 4096 \<longrightarrow> (\<exists>r st'. io_blocks True p ?k 1 st = Some (r, st')
       \<and> (r = Inr () \<and> wrote s sin buf p offset (a + sz) st'
          \<or> r = Inl E_NO_MEM \<and> wrote s sin buf p offset a st' \<and> card (frees (fst st')) < 2)))"
  proof (elim disjE exE conjE)
    fix s2 assume a: "sfs_bmap_load_nolock s1 sin1 ?k = Some (Inl E_NO_MEM, s2, sin1)"
      "card (frees s2) < 2" "wrote s sin buf p offset a (s2, sin1, buf, a)"
    then show ?thesis unfolding st by (simp add: io_chunk_def io_blocks_def)
  next
    fix s2 and sin2 :: sfs_inode
    let ?b = "entry s2 (din sin2) ?k"
    assume a: "sfs_bmap_load_nolock s1 sin1 ?k = Some (Inr ?b, s2, sin2)"
      "wr s sin s2 sin2 offset (offset + a) (\<lambda>i. buf (p + (i - offset)))"
      "di_blocks (din sin2) = max (di_blocks (din sin1)) (Suc ?k)"
      "card (frees s) \<le> card (frees s2) + 2 * (di_blocks (din sin2) - di_blocks (din sin))"
    have ok2: "fs_ok s2" and m2: "map_ok s2 sin2" using a(2) by (simp_all add: wr_def)
    have b: "?b \<in> used s2" using a(3) by (intro entry_in(1) [OF m2]) simp
    let ?s = "put_blk s2 ?b (blit (fblk s2 ?b) ?o buf (p + a) sz)"
    have P: "wrote s sin buf p offset (a + sz) (?s, sin2, buf, a + sz)"
      by (rule wrote_put [OF a(2,4,3) n1 refl sz refl])
    have "io_chunk True p ?k sz ?o st = Some (Inr (), ?s, sin2, buf, a + sz)"
      unfolding st using a(1) wbuf_used [OF ok2 b _ sz(1)] by (simp add: io_chunk_def sfs_buf_op_def)
    moreover have "io_blocks True p ?k 1 st = Some (Inr (), ?s, sin2, buf, a + sz)" if s4: "sz = 4096"
    proof -
      have o: "?o = 0" using s4 sz(1) by simp
      have "put_blk s2 ?b (\<lambda>i. buf (p + a + i)) = ?s"
        unfolding o s4 by (rule put_blk_cong) (simp add: blit_def)
      moreover have "sfs_wblock s2 buf (p + a) ?b 1 = Some (Inr (), put_blk s2 ?b (\<lambda>i. buf (p + a + i)), buf)"
        using rwblock_write [OF fs_ok_io [OF ok2] used_less(2) [OF b], of True buf "p + a"] used_less(1) [OF b]
        by (simp add: sfs_wblock_def)
      ultimately show ?thesis
        unfolding st using a(1) s4 by (simp add: io_blocks_def sfs_block_op_def SFS_BLKSIZE_def)
    qed
    ultimately show ?thesis using P by blast
  qed
  then show "\<exists>r st'. io_chunk True p ?k sz ?o st = Some (r, st')
       \<and> (r = Inr () \<and> wrote s sin buf p offset (a + sz) st'
          \<or> r = Inl E_NO_MEM \<and> wrote s sin buf p offset a st' \<and> card (frees (fst st')) < 2)"
    and "sz = 4096 \<Longrightarrow> \<exists>r st'. io_blocks True p ?k 1 st = Some (r, st')
       \<and> (r = Inr () \<and> wrote s sin buf p offset (a + sz) st'
          \<or> r = Inl E_NO_MEM \<and> wrote s sin buf p offset a st' \<and> card (frees (fst st')) < 2)"
    by blast+
qed

lemma io_body_write:
  assumes ok: "fs_ok s" and m: "map_ok s sin"
    and len: "offset < endpos" "endpos \<le> offset + 4096" "endpos \<le> 1036 * 4096"
    and off: "offset \<le> di_blocks (din sin) * 4096" "blocks_for offset \<le> di_blocks (din sin)"
  shows "\<exists>r st'. io_body True p offset endpos (s, sin, buf, 0) = Some (r, st')
     \<and> (r = Inr () \<and> wrote s sin buf p offset (endpos - offset) st'
        \<or> r = Inl E_NO_MEM \<and> (\<exists>a < endpos - offset. wrote s sin buf p offset a st' \<and> card (frees (fst st')) < 2))"
proof (rule io_body_pieces [OF len(1,2)])
  show "wrote s sin buf p offset 0 (s, sin, buf, 0)"
    using wr_ext [OF ext_refl [OF ok m] m] off(2) by (simp add: wrote_def max_def)
next
  fix a st and sz :: nat
  assume a: "wrote s sin buf p offset a st" "(offset + a) mod 4096 + sz \<le> 4096" "0 < sz" "offset + a + sz \<le> endpos"
  then have "(offset + a) div 4096 < 1036" using len(3) by (intro less_mult_imp_div_less) simp
  from write_piece(1) [OF a(1) m off(1) this a(2,3)]
  show "\<exists>r st'. io_chunk True p ((offset + a) div 4096) sz ((offset + a) mod 4096) st = Some (r, st')
       \<and> (r = Inr () \<and> wrote s sin buf p offset (a + sz) st'
          \<or> r = Inl E_NO_MEM \<and> wrote s sin buf p offset a st' \<and> card (frees (fst st')) < 2)" .
next
  fix st
  assume a: "wrote s sin buf p offset 0 st" "offset mod 4096 = 0" "offset + 4096 \<le> endpos"
  then have "(offset + 0) div 4096 < 1036" using len(3) by (intro less_mult_imp_div_less) simp
  from write_piece(2) [OF a(1) m off(1) this _ _ refl] a(2)
  show "\<exists>r st'. io_blocks True p (offset div 4096) 1 st = Some (r, st')
       \<and> (r = Inr () \<and> wrote s sin buf p offset 4096 st'
          \<or> r = Inl E_NO_MEM \<and> wrote s sin buf p offset 0 st' \<and> card (frees (fst st')) < 2)"
    by simp
qed


section \<open>Properties\<close>

lemma signed64_small: "0 \<le> x \<Longrightarrow> x < 2 ^ 63 \<Longrightarrow> signed_take_bit 63 x = (x :: int)"
  by (rule signed_take_bit_int_eq_self) simp_all

lemma io_read_ok:
  assumes "file_ok s sin" "di_type (din sin) \<noteq> SFS_TYPE_DIR" "0 \<le> offset" "offset < int SFS_MAX_FILE_SIZE"
    and "len \<le> 4096"
  shows "\<exists>buf'. sfs_io_nolock s sin buf p offset len False
       = Some (Inr (), s, sin, buf', min len (di_size (din sin) - nat offset))
     \<and> (\<forall>j. buf' j = (if p \<le> j \<and> j < p + min len (di_size (din sin) - nat offset)
          then fbyte s sin (nat offset + (j - p)) else buf j))"
proof -
  have ok: "fs_ok s" and m: "map_ok s sin" and bl: "di_blocks (din sin) = blocks_for (di_size (din sin))"
    using assms(1) by (simp_all add: file_ok_def)
  have n: "di_blocks (din sin) \<le> 1036" using m by (simp add: map_ok_def)
  have cov: "di_size (din sin) \<le> di_blocks (din sin) * 4096" using bl blocks_for_cover by simp
  have big: "di_size (din sin) < SFS_MAX_FILE_SIZE" using cov n by (simp add: SFS_MAX_FILE_SIZE_def)
  have sg: "signed_take_bit 63 (offset + int len) = offset + int len"
    using assms(3-5) by (intro signed64_small) (simp_all add: SFS_MAX_FILE_SIZE_def)
  show ?thesis
  proof (cases "len = 0 \<or> int (di_size (din sin)) \<le> offset")
    case True
    then have "sfs_io_nolock s sin buf p offset len False = Some (Inr (), s, sin, buf, 0)"
      using assms(2-4) by (auto simp: sfs_io_nolock_def sg Let_def)
    moreover have "min len (di_size (din sin) - nat offset) = 0" using True by auto
    ultimately show ?thesis by auto
  next
    case False
    let ?e = "nat offset + min len (di_size (din sin) - nat offset)"
    have e: "nat offset < ?e" "?e \<le> nat offset + 4096" "?e \<le> di_blocks (din sin) * 4096"
      using False assms(3,5) cov by linarith+
    have min: "nat (if offset + int len > int (di_size (din sin)) then int (di_size (din sin)) else offset + int len) = ?e"
      using False assms(3) by (auto simp: min_def nat_add_distrib)
    have lim: "(if offset + int len > int SFS_MAX_FILE_SIZE then int SFS_MAX_FILE_SIZE else offset + int len) > int (di_size (din sin))
        \<longleftrightarrow> offset + int len > int (di_size (din sin))"
      using big by auto
    have endp: "nat (let endpos = (if offset + int len > int SFS_MAX_FILE_SIZE then int SFS_MAX_FILE_SIZE else offset + int len)
        in if endpos > int (di_size (din sin)) then int (di_size (din sin)) else endpos) = ?e"
      unfolding min [symmetric] Let_def lim using big by auto
    have body: "io_body False p (nat offset) ?e (s, sin, buf, 0)
       = Some (Inr (), s, sin, filled s sin buf p (nat offset) (?e - nat offset), ?e - nat offset)"
      by (rule io_body_read [OF ok m e])
    have "?e \<le> di_size (din sin)" using False assms(3) by linarith
    then have "sfs_io_nolock s sin buf p offset len False
       = Some (Inr (), s, sin, filled s sin buf p (nat offset) (?e - nat offset), ?e - nat offset)"
      using False assms(2-4) body endp
      by (simp add: sfs_io_nolock_def sg Let_def)
    then show ?thesis by (auto simp: filled_def)
  qed
qed

text \<open>
  Reading at most one block's length from a consistent file, at any position: no assertion
  fails, nothing on the volume or in the inode changes, the bytes delivered are exactly those of
  the file from the position on, as many as asked for and left before the end of the file, and
  the rest of the buffer is not touched.
\<close>

lemma sfs_io_read_correct:
  assumes "file_ok s sin" "di_type (din sin) \<noteq> SFS_TYPE_DIR" "0 \<le> offset" "offset < int SFS_MAX_FILE_SIZE"
    and "len \<le> 4096"
  shows "\<exists>buf'. sfs_io_nolock s sin buf p offset len False
       = Some (Inr (), s, sin, buf', min len (di_size (din sin) - nat offset))
     \<and> (\<forall>j. buf' j = (if p \<le> j \<and> j < p + min len (di_size (din sin) - nat offset)
          then fbyte s sin (nat offset + (j - p)) else buf j))"
  using assms by (rule io_read_ok)


definition ex_buf :: mem where "ex_buf = (\<lambda>i. word_of_nat i)"

lemma ex_sin_file: "di_type (din ex_sin) \<noteq> SFS_TYPE_DIR" "di_size (din ex_sin) = 0" "di_blocks (din ex_sin) = 0"
  by (simp_all add: ex_sin_def SFS_TYPE_FILE_def SFS_TYPE_DIR_def)

lemma sfs_io_read_correct_witness:
  "\<exists>buf'. sfs_io_nolock ex_sfs ex_sin ex_buf 0 0 100 False = Some (Inr (), ex_sfs, ex_sin, buf', 0)"
  using sfs_io_read_correct [OF ex_file_ok ex_sin_file(1), of 0 100 ex_buf 0]
  by (auto simp: SFS_MAX_FILE_SIZE_def ex_sin_file)

lemma blocks_for_max: "blocks_for (max m n) = max (blocks_for m) (blocks_for n)"
  using blocks_for_mono [of m n] blocks_for_mono [of n m] by (auto simp: max_def)

lemma io_write_ok:
  assumes "file_ok s sin" "di_type (din sin) \<noteq> SFS_TYPE_DIR" "0 \<le> offset" "offset \<le> int (di_size (din sin))"
    and "len \<le> 4096" "nat offset + len \<le> 1036 * 4096"
  shows "\<exists>r s' sin' alen. sfs_io_nolock s sin buf p offset len True = Some (r, s', sin', buf, alen)
     \<and> file_ok s' sin' \<and> ino sin' = ino sin \<and> di_type (din sin') = di_type (din sin) \<and> untouched s sin s'
     \<and> di_size (din sin') = max (di_size (din sin)) (nat offset + alen)
     \<and> (\<forall>i < di_size (din sin'). fbyte s' sin' i =
          (if nat offset \<le> i \<and> i < nat offset + alen then buf (p + (i - nat offset)) else fbyte s sin i))
     \<and> (r = Inr () \<and> alen = len \<or> r = Inl E_NO_MEM \<and> alen < len \<and> card (frees s) < 4 \<and> card (frees s') < 2)"
proof -
  have ok: "fs_ok s" and m: "map_ok s sin" and bl: "di_blocks (din sin) = blocks_for (di_size (din sin))"
    using assms(1) by (simp_all add: file_ok_def)
  have cov: "di_size (din sin) \<le> di_blocks (din sin) * 4096" using bl blocks_for_cover by simp
  have sg: "signed_take_bit 63 (offset + int len) = offset + int len"
    using assms(3,6) by (intro signed64_small) simp_all
  have omax: "offset + int len \<le> int SFS_MAX_FILE_SIZE" "offset < int SFS_MAX_FILE_SIZE"
    using assms(3,6) by (simp_all add: SFS_MAX_FILE_SIZE_def)
  show ?thesis
  proof (cases "len = 0")
    case True
    then have "sfs_io_nolock s sin buf p offset len True = Some (Inr (), s, sin, buf, 0)"
      using assms(2,3) omax sg by (simp add: sfs_io_nolock_def Let_def)
    then show ?thesis using True assms(1,3,4) shr_untouched [OF shr_refl [OF ok m]]
      by (intro exI [of _ "Inr ()"] exI [of _ s] exI [of _ sin] exI [of _ 0]) auto
  next
    case False
    let ?o = "nat offset" let ?e = "nat offset + len"
    have e: "?o < ?e" "?e \<le> ?o + 4096" "?o \<le> di_blocks (din sin) * 4096" "?e - ?o = len"
      using False assms(3-5) cov by linarith+
    have bo: "blocks_for ?o \<le> di_blocks (din sin)"
      unfolding bl using assms(3,4) by (intro blocks_for_mono) simp
    from io_body_write [OF ok m e(1,2) assms(6) e(3) bo, of p buf, unfolded e(4)]
    obtain r st where "io_body True p ?o ?e (s, sin, buf, 0) = Some (r, st)"
      and "r = Inr () \<and> wrote s sin buf p ?o len st
        \<or> r = Inl E_NO_MEM \<and> (\<exists>a < len. wrote s sin buf p ?o a st \<and> card (frees (fst st)) < 2)"
      by blast
    moreover obtain s' sin' buf' alen where "st = (s', sin', buf', alen)" by (cases st)
    ultimately have body: "io_body True p ?o ?e (s, sin, buf, 0) = Some (r, s', sin', buf', alen)"
      and r: "r = Inr () \<and> wrote s sin buf p ?o len (s', sin', buf', alen)
        \<or> r = Inl E_NO_MEM \<and> (\<exists>a < len. wrote s sin buf p ?o a (s', sin', buf', alen) \<and> card (frees s') < 2)"
      by simp_all
    have w: "wrote s sin buf p ?o alen (s', sin', buf', alen)" "alen \<le> len"
      using r by (auto simp: wrote_def)
    have b: "buf' = buf" "wr s sin s' sin' ?o (?o + alen) (\<lambda>i. buf (p + (i - ?o)))"
      "di_blocks (din sin') = max (di_blocks (din sin)) (blocks_for (?o + alen))"
      "card (frees s) \<le> card (frees s') + 2 * (di_blocks (din sin') - di_blocks (din sin))"
      using w(1) unfolding wrote_def prod.case by blast+
    let ?sin = "if ?o + alen > di_size (din sin') then sin'\<lparr>din := (din sin')\<lparr>di_size := ?o + alen\<rparr>, dirty := True\<rparr> else sin'"
    have sz: "di_size (din sin') = di_size (din sin)" "ino sin' = ino sin" "di_type (din sin') = di_type (din sin)"
      using b(2) by (simp_all add: wr_def meta_def)
    have size: "di_size (din ?sin) = max (di_size (din sin)) (?o + alen)" using sz by (simp add: max_def)
    have "nat (offset + int len) = ?e" using assms(3) by simp
    then have io: "sfs_io_nolock s sin buf p offset len True = Some (r, s', ?sin, buf, alen)"
      using False assms(2,3) omax sg body b(1) by (simp add: sfs_io_nolock_def Let_def)
    have "di_blocks (din ?sin) = blocks_for (di_size (din ?sin))"
      unfolding size blocks_for_max bl [symmetric] using b(3) by simp
    then have fok: "file_ok s' ?sin" using b(2) by (simp add: file_ok_def wr_def)
    have bytes: "fbyte s' ?sin i = (if ?o \<le> i \<and> i < ?o + alen then buf (p + (i - ?o)) else fbyte s sin i)"
      if "i < di_size (din ?sin)" for i
    proof -
      have ib: "i < di_blocks (din sin') * 4096"
        using that fok blocks_for_cover [of "di_size (din ?sin)"] by (auto simp: file_ok_def split: if_splits)
      have "i < di_size (din sin) \<or> ?o \<le> i \<and> i < ?o + alen" using that size assms(3,4) by linarith
      then have "i < di_blocks (din sin) * 4096 \<or> ?o \<le> i \<and> i < ?o + alen" using cov by linarith
      then show ?thesis using b(2) ib by (auto simp: wr_def)
    qed
    have fail: "card (frees s) < 4" if "alen < len" "card (frees s') < 2"
    proof -
      have "?o + alen \<le> di_blocks (din sin) * 4096 + 4096" using that(1) e(3) assms(5) by linarith
      then have "blocks_for (?o + alen) \<le> blocks_for ((di_blocks (din sin) + 1) * 4096)" by (intro blocks_for_mono) simp
      also have "\<dots> = di_blocks (din sin) + 1" unfolding blocks_for_def by (intro div_nat_eqI) simp_all
      finally have "di_blocks (din sin') - di_blocks (din sin) \<le> 1" using b(3) by simp
      then show ?thesis using b(4) that(2) by linarith
    qed
    have "r = Inr () \<and> alen = len \<or> r = Inl E_NO_MEM \<and> alen < len \<and> card (frees s) < 4 \<and> card (frees s') < 2"
      using r fail by (auto simp: wrote_def)
    moreover have "untouched s sin s'" using b(2) by (simp add: wr_def)
    moreover have "ino ?sin = ino sin" "di_type (din ?sin) = di_type (din sin)" using sz by simp_all
    ultimately show ?thesis using io fok size bytes
      by (intro exI [of _ r] exI [of _ s'] exI [of _ ?sin] exI [of _ alen]) blast
  qed
qed

text \<open>
  C21. Writing at most one block's length at a position inside a consistent file or at its end: no
  assertion fails, the file stays consistent and grows exactly to the end of what was written,
  the bytes of the file are the old ones with the written ones put over them, and every other
  file is untouched.  Fewer bytes than asked for are written only with \<open>E_NO_MEM\<close>, when fewer than
  four blocks were free.
\<close>

theorem sfs_io_write_correct:
  assumes "file_ok s sin" "di_type (din sin) \<noteq> SFS_TYPE_DIR" "0 \<le> offset" "offset \<le> int (di_size (din sin))"
    and "len \<le> 4096" "nat offset + len \<le> 1036 * 4096"
  shows "\<exists>r s' sin' alen. sfs_io_nolock s sin buf p offset len True = Some (r, s', sin', buf, alen)
     \<and> file_ok s' sin' \<and> ino sin' = ino sin \<and> di_type (din sin') = di_type (din sin) \<and> untouched s sin s'
     \<and> di_size (din sin') = max (di_size (din sin)) (nat offset + alen)
     \<and> (\<forall>i < di_size (din sin'). fbyte s' sin' i =
          (if nat offset \<le> i \<and> i < nat offset + alen then buf (p + (i - nat offset)) else fbyte s sin i))
     \<and> (r = Inr () \<and> alen = len \<or> r = Inl E_NO_MEM \<and> alen < len \<and> card (frees s) < 4)"
proof -
  obtain r s' sin' alen where w: "sfs_io_nolock s sin buf p offset len True = Some (r, s', sin', buf, alen)"
    "file_ok s' sin'" "ino sin' = ino sin" "di_type (din sin') = di_type (din sin)" "untouched s sin s'"
    "di_size (din sin') = max (di_size (din sin)) (nat offset + alen)"
    "\<forall>i < di_size (din sin'). fbyte s' sin' i =
          (if nat offset \<le> i \<and> i < nat offset + alen then buf (p + (i - nat offset)) else fbyte s sin i)"
    "r = Inr () \<and> alen = len \<or> r = Inl E_NO_MEM \<and> alen < len \<and> card (frees s) < 4 \<and> card (frees s') < 2"
    using io_write_ok [OF assms, of buf p] by (elim exE conjE) (rule that)
  have "r = Inr () \<and> alen = len \<or> r = Inl E_NO_MEM \<and> alen < len \<and> card (frees s) < 4" using w(8) by blast
  then show ?thesis using w(1-7) by (intro exI [of _ r] exI [of _ s'] exI [of _ sin'] exI [of _ alen]) blast
qed

theorem sfs_io_write_correct_witness:
  "\<exists>s' sin'. sfs_io_nolock ex_sfs ex_sin ex_buf 0 0 100 True = Some (Inr (), s', sin', ex_buf, 100)
     \<and> di_size (din sin') = 100 \<and> fbyte s' sin' 7 = 7"
proof -
  have "card (frees ex_sfs) = 8" by (simp add: ex_frees)
  then obtain s' sin' where *: "sfs_io_nolock ex_sfs ex_sin ex_buf 0 0 100 True = Some (Inr (), s', sin', ex_buf, 100)"
    "di_size (din sin') = 100" and
    f: "\<forall>i < di_size (din sin'). fbyte s' sin' i =
          (if nat 0 \<le> i \<and> i < nat 0 + 100 then ex_buf (0 + (i - nat 0)) else fbyte ex_sfs ex_sin i)"
    using sfs_io_write_correct [OF ex_file_ok ex_sin_file(1), of 0 100 ex_buf 0] ex_sin_file(2) by auto
  have "fbyte s' sin' 7 = 7" using f * by (simp add: ex_buf_def)
  with * show ?thesis by blast
qed


text \<open>
  A transfer of more than one whole block looks up only the first of them and then runs over
  consecutive disk blocks.  Writing \<open>n \<ge> 2\<close> blocks at the start of an empty file reports success
  and the size \<open>n * 4096\<close>, but the file owns one block; the rest of the data is put over the \<open>n - 1\<close>
  disk blocks that follow it, whoever they belong to.
\<close>

lemma sfs_io_whole_blocks_overwrite:
  assumes "file_ok s sin" "di_size (din sin) = 0" "di_type (din sin) \<noteq> SFS_TYPE_DIR" "frees s \<noteq> {}"
    and "2 \<le> n" "Min (frees s) + n \<le> s_blocks (super s)" "n * 4096 \<le> SFS_MAX_FILE_SIZE"
  shows "\<exists>s' sin'. sfs_io_nolock s sin buf p 0 (n * 4096) True = Some (Inr (), s', sin', buf, n * 4096)
     \<and> di_size (din sin') = n * 4096 \<and> di_blocks (din sin') = 1 \<and> frees s' = frees s - {Min (frees s)}
     \<and> (\<forall>c \<in> {Min (frees s) ..< Min (frees s) + n}. \<forall>i < 4096.
          fblk s' c i = buf (p + (c - Min (frees s)) * 4096 + i))"
proof -
  let ?b = "Min (frees s)"
  have ok: "fs_ok s" and m: "map_ok s sin" and bl: "di_blocks (din sin) = 0"
    using assms(1,2) by (simp_all add: file_ok_def blocks_for_def)
  have "entry s (din sin) 0 = 0" using m bl by (simp add: map_ok_def)
  then have z: "direct (din sin) ! 0 = 0" by (simp add: entry_def)
  obtain s1 where s1: "sfs_block_alloc s = Some (Inr ?b, s1)" "fs_ok s1" "vol s1 = vol s" "frees s1 = frees s - {?b}"
    using block_alloc_ok [OF ok] assms(4) by blast
  have b: "?b \<in> frees s" using frees_sub(2) [OF ok] assms(4) by (rule Min_in)
  then have bu: "?b \<in> used s1" using frees_sub(1) [OF ok] s1(4) vol_blocks [OF s1(3)] by (auto simp: used_iff)
  let ?sin = "sin\<lparr>din := (din sin)\<lparr>direct := (direct (din sin))[0 := ?b], di_blocks := 1\<rparr>, dirty := True\<rparr>"
  have load: "sfs_bmap_load_nolock s sin 0 = Some (Inr ?b, s1, ?sin)"
    using z bl s1(1) inuse_used [OF s1(2) bu] used_less(1) [OF bu]
    by (simp add: sfs_bmap_load_nolock_def sfs_bmap_get_nolock_def SFS_NDIRECT_def get_out_def)
  have bn: "?b + n \<le> s_blocks (super s1)" using assms(6) vol_blocks [OF s1(3)] by simp
  obtain s2 where s2: "sfs_rwblock s1 buf p ?b n True = Some (Inr (), s2, buf)" "freemap s2 = freemap s1"
    "\<forall>c i. i < 4096 \<longrightarrow> fblk s2 c i =
          (if ?b \<le> c \<and> c < ?b + n then buf (p + (c - ?b) * 4096 + i) else fblk s1 c i)"
    using wblock_loop [OF fs_ok_io [OF s1(2)] used_less(1) [OF bu] bn, of buf p] by blast
  have blk: "io_blocks True p 0 n (s, sin, buf, 0) = Some (Inr (), s2, ?sin, buf, n * 4096)"
    using load s2(1) by (simp add: io_blocks_def sfs_block_op_def sfs_wblock_def SFS_BLKSIZE_def)
  have body: "io_body True p 0 (n * 4096) (s, sin, buf, 0) = Some (Inr (), s2, ?sin, buf, n * 4096)"
    using blk assms(5) by (simp add: io_body_def SFS_BLKSIZE_def)
  let ?sin' = "?sin\<lparr>din := (din ?sin)\<lparr>di_size := n * 4096\<rparr>, dirty := True\<rparr>"
  have sg: "signed_take_bit 63 (int (n * 4096)) = int (n * 4096)"
    using assms(7) by (intro signed64_small) (simp_all add: SFS_MAX_FILE_SIZE_def)
  have nz: "int (n * 4096) \<noteq> 0" "\<not> int (n * 4096) > int SFS_MAX_FILE_SIZE" "0 < int SFS_MAX_FILE_SIZE"
    "n * 4096 > 0" "nat (int (n * 4096)) = n * 4096"
    using assms(5,7) by (simp_all add: SFS_MAX_FILE_SIZE_def)
  have "sfs_io_nolock s sin buf p 0 (n * 4096) True = Some (Inr (), s2, ?sin', buf, n * 4096)"
    using assms(2,3) sg nz body by (simp add: sfs_io_nolock_def Let_def del: of_nat_mult)
  moreover have "frees s2 = frees s - {?b}" using s2(2) s1(4) by (simp add: frees_def)
  ultimately show ?thesis using s2(3)
    by (intro exI [of _ s2] exI [of _ ?sin']) simp
qed

lemma sfs_io_whole_blocks_overwrite_witness:
  "\<exists>s' sin'. sfs_io_nolock ex_sfs ex_sin ex_buf 0 0 12288 True = Some (Inr (), s', sin', ex_buf, 12288)
     \<and> di_size (din sin') = 12288 \<and> di_blocks (din sin') = 1 \<and> fblk s' 34 7 = 7"
proof -
  have mn: "Min (frees ex_sfs) = 32" "frees ex_sfs \<noteq> {}" unfolding ex_frees
    by (rule Min_eqI; simp; fail) simp
  have "s_blocks (super ex_sfs) = 40" by (simp add: ex_sfs_def ex_super_def)
  then obtain s' sin' where *: "sfs_io_nolock ex_sfs ex_sin ex_buf 0 0 (3 * 4096) True = Some (Inr (), s', sin', ex_buf, 3 * 4096)"
     "di_size (din sin') = 3 * 4096" "di_blocks (din sin') = 1"
     and f: "\<forall>c \<in> {32 ..< 32 + 3}. \<forall>i < 4096. fblk s' c i = ex_buf (0 + (c - 32) * 4096 + i)"
    using sfs_io_whole_blocks_overwrite [OF ex_file_ok ex_sin_file(2,1) mn(2), of 3 ex_buf 0]
    unfolding mn(1) by (auto simp: SFS_MAX_FILE_SIZE_def)
  have "fblk s' 34 7 = ex_buf (2 * 4096 + 7)" using f by simp
  also have "\<dots> = 7" by (simp add: ex_buf_def)
  finally show ?thesis using * by auto
qed

end
