(* ===== verification/Sfs_Dir.thy ===== *)
theory Sfs_Dir
  imports Sfs_Rw
begin

text \<open>
  Directories and the inode on disk: the entry routines, \<open>sfs_getdirentry\<close>, \<open>sfs_fsync\<close> and the
  small inode operations of \<open>kern/fs/sfs/sfs_inode.c\<close>.  A file name is the list of its characters
  without the terminator; an entry's name is the 256 bytes of the field.
\<close>

unbundle bit_operations_syntax

definition O_RDONLY :: nat where "O_RDONLY = 0"
definition O_WRONLY :: nat where "O_WRONLY = 1"
definition O_RDWR :: nat where "O_RDWR = 2"
definition O_CREAT :: nat where "O_CREAT = 0x00000004"
definition O_EXCL :: nat where "O_EXCL = 0x00000008"
definition O_TRUNC :: nat where "O_TRUNC = 0x00000010"
definition O_APPEND :: nat where "O_APPEND = 0x00000020"
definition O_ACCMODE :: nat where "O_ACCMODE = 3"

definition S_IFREG :: nat where "S_IFREG = 0x1000"
definition S_IFDIR :: nat where "S_IFDIR = 0x2000"
definition S_IFLNK :: nat where "S_IFLNK = 0x3000"

section \<open>Directory entries\<close>

record sfs_disk_entry =
  de_ino :: nat
  de_name :: "byte list"

definition mem_entry :: "mem \<Rightarrow> sfs_disk_entry" where
  "mem_entry m = \<lparr>de_ino = rd 4 m 0, de_name = List.map (\<lambda>i. m (4 + i)) [0 ..< SFS_MAX_FNAME_LEN + 1]\<rparr>"

text \<open>The C string in the name field.\<close>

definition entry_name :: "sfs_disk_entry \<Rightarrow> byte list" where
  "entry_name e = takeWhile (\<lambda>c. c \<noteq> 0) (de_name e)"

definition sfs_dentry_size :: nat where "sfs_dentry_size = SFS_MAX_FNAME_LEN + 1"

definition sfs_dirent_read_nolock ::
  "sfs_fs \<Rightarrow> sfs_inode \<Rightarrow> nat \<Rightarrow> ((errno + sfs_disk_entry) \<times> sfs_fs \<times> sfs_inode) option" where
  "sfs_dirent_read_nolock sfs sin slot = do {
     kassert (di_type (din sin) = SFS_TYPE_DIR \<and> slot < di_blocks (din sin));
     seqE (sfs_bmap_load_nolock sfs sin slot) (\<lambda>b (sfs, sin). do {
       u \<leftarrow> sfs_block_inuse sfs b;
       kassert u;
       (ret, sfs, buf) \<leftarrow> sfs_rbuf sfs (\<lambda>_. 0) 0 (4 + sfs_dentry_size) b 0;
       Some (case ret of
           Inl e \<Rightarrow> (Inl e, sfs, sin)
         | Inr _ \<Rightarrow>
             (let en = mem_entry buf in
              (Inr (en\<lparr>de_name := (de_name en)[SFS_MAX_FNAME_LEN := 0]\<rparr>), sfs, sin)))
     })
   }"

text \<open>The search loop; \<open>es\<close> is \<open>*empty_slot\<close>, the result the inode number and the slot.\<close>

fun search_loop ::
  "sfs_fs \<Rightarrow> sfs_inode \<Rightarrow> byte list \<Rightarrow> nat \<Rightarrow> nat \<Rightarrow> nat \<Rightarrow> ((errno + nat \<times> nat) \<times> nat \<times> sfs_fs \<times> sfs_inode) option" where
  "search_loop sfs sin name i 0 es = Some (Inl E_NOENT, es, sfs, sin)"
| "search_loop sfs sin name i (Suc k) es = do {
     (ret, sfs, sin) \<leftarrow> sfs_dirent_read_nolock sfs sin i;
     (case ret of
        Inl e \<Rightarrow> Some (Inl e, es, sfs, sin)
      | Inr en \<Rightarrow>
          if de_ino en = 0 then search_loop sfs sin name (i + 1) k i
          else if name = entry_name en then Some (Inr (de_ino en, i), es, sfs, sin)
          else search_loop sfs sin name (i + 1) k es)
   }"

definition sfs_dirent_search_nolock ::
  "bool \<Rightarrow> sfs_fs \<Rightarrow> sfs_inode \<Rightarrow> byte list \<Rightarrow> ((errno + nat \<times> nat) \<times> nat \<times> sfs_fs \<times> sfs_inode) option" where
  "sfs_dirent_search_nolock mem_ok sfs sin name = do {
     kassert (length name \<le> SFS_MAX_FNAME_LEN);
     if \<not> mem_ok then Some (Inl E_NO_MEM, di_blocks (din sin), sfs, sin)
     else
       (let nslots = di_blocks (din sin) in search_loop sfs sin name 0 nslots nslots)
   }"

fun findino_loop ::
  "sfs_fs \<Rightarrow> sfs_inode \<Rightarrow> nat \<Rightarrow> nat \<Rightarrow> nat \<Rightarrow> ((errno + sfs_disk_entry) \<times> sfs_fs \<times> sfs_inode) option" where
  "findino_loop sfs sin no i 0 = Some (Inl E_NOENT, sfs, sin)"
| "findino_loop sfs sin no i (Suc k) =
     seqE (sfs_dirent_read_nolock sfs sin i) (\<lambda>en (sfs, sin).
       if de_ino en = no then Some (Inr en, sfs, sin)
       else findino_loop sfs sin no (i + 1) k)"

definition sfs_dirent_findino_nolock ::
  "sfs_fs \<Rightarrow> sfs_inode \<Rightarrow> nat \<Rightarrow> ((errno + sfs_disk_entry) \<times> sfs_fs \<times> sfs_inode) option" where
  "sfs_dirent_findino_nolock sfs sin no = findino_loop sfs sin no 0 (di_blocks (din sin))"

fun getdirentry_loop ::
  "sfs_fs \<Rightarrow> sfs_inode \<Rightarrow> nat \<Rightarrow> nat \<Rightarrow> nat \<Rightarrow> ((errno + sfs_disk_entry) \<times> sfs_fs \<times> sfs_inode) option" where
  "getdirentry_loop sfs sin slot i 0 = Some (Inl E_NOENT, sfs, sin)"
| "getdirentry_loop sfs sin slot i (Suc k) =
     seqE (sfs_dirent_read_nolock sfs sin i) (\<lambda>en (sfs, sin).
       if de_ino en \<noteq> 0 then
         (if slot = 0 then Some (Inr en, sfs, sin)
          else getdirentry_loop sfs sin (slot - 1) (i + 1) k)
       else getdirentry_loop sfs sin slot (i + 1) k)"

definition sfs_getdirentry_sub_nolock ::
  "sfs_fs \<Rightarrow> sfs_inode \<Rightarrow> nat \<Rightarrow> ((errno + sfs_disk_entry) \<times> sfs_fs \<times> sfs_inode) option" where
  "sfs_getdirentry_sub_nolock sfs sin slot = getdirentry_loop sfs sin slot 0 (di_blocks (din sin))"

text \<open>\<open>slot\<close> is an \<open>int\<close>: the quotient is cut to 32 bits and compared as unsigned.\<close>

definition sfs_getdirentry ::
  "bool \<Rightarrow> sfs_fs \<Rightarrow> sfs_inode \<Rightarrow> iobuf \<Rightarrow> ((errno + unit) \<times> sfs_fs \<times> sfs_inode \<times> iobuf) option" where
  "sfs_getdirentry mem_ok sfs sin iob =
     (if \<not> mem_ok then Some (Inl E_NO_MEM, sfs, sin, iob)
      else
        (let offset = io_offset iob in
         if offset < 0 \<or> nat offset mod sfs_dentry_size \<noteq> 0 then Some (Inl E_INVAL, sfs, sin, iob)
         else
           (let slot = nat offset div sfs_dentry_size mod 2 ^ 32 in
            if slot > di_blocks (din sin) then Some (Inl E_NOENT, sfs, sin, iob)
            else do {
              (ret, sfs, sin) \<leftarrow> sfs_getdirentry_sub_nolock sfs sin slot;
              (case ret of
                 Inl e \<Rightarrow> Some (Inl e, sfs, sin, iob)
               | Inr en \<Rightarrow> do {
                   (ret, iob, _, _) \<leftarrow> iobuf_move iob (\<lambda>i. de_name en ! i) 0 sfs_dentry_size True;
                   Some (ret, sfs, sin, iob)
                 })
            })))"

section \<open>The inode on disk\<close>

text \<open>The 64 bytes of \<open>struct sfs_disk_inode\<close>, and back.\<close>

definition din_mem :: "sfs_disk_inode \<Rightarrow> mem" where
  "din_mem d = (\<lambda>i.
     if i < 4 then le (di_size d) i
     else if i < 6 then le (di_type d) (i - 4)
     else if i < 8 then le (di_nlinks d) (i - 6)
     else if i < 12 then le (di_blocks d) (i - 8)
     else if i < 60 then le (direct d ! ((i - 12) div 4)) ((i - 12) mod 4)
     else le (indirect d) (i - 60))"

definition mem_din :: "mem \<Rightarrow> sfs_disk_inode" where
  "mem_din m = \<lparr>di_size = rd 4 m 0, di_type = rd 2 m 4, di_nlinks = rd 2 m 6, di_blocks = rd 4 m 8,
     direct = List.map (\<lambda>k. rd 4 m (12 + 4 * k)) [0 ..< SFS_NDIRECT], indirect = rd 4 m 60\<rparr>"

definition DIN_SIZE :: nat where "DIN_SIZE = 64"

definition sfs_fsync :: "sfs_fs \<Rightarrow> sfs_inode \<Rightarrow> ((errno + unit) \<times> sfs_fs \<times> sfs_inode) option" where
  "sfs_fsync sfs sin =
     (if dirty sin then do {
        let sin = sin\<lparr>dirty := False\<rparr>;
        (ret, sfs, _) \<leftarrow> sfs_wbuf sfs (din_mem (din sin)) 0 DIN_SIZE (ino sin) 0;
        Some (case ret of
            Inl e \<Rightarrow> (Inl e, sfs, sin\<lparr>dirty := True\<rparr>)
          | Inr _ \<Rightarrow> (Inr (), sfs, sin))
      } else Some (Inr (), sfs, sin))"

definition sfs_opendir :: "nat \<Rightarrow> errno + unit" where
  "sfs_opendir open_flags =
     (if open_flags AND O_ACCMODE = O_RDONLY then
        (if open_flags AND O_APPEND \<noteq> 0 then Inl E_ISDIR else Inr ())
      else Inl E_ISDIR)"

definition sfs_openfile :: "nat \<Rightarrow> errno + unit" where
  "sfs_openfile open_flags = Inr ()"

definition sfs_gettype :: "sfs_inode \<Rightarrow> nat option" where
  "sfs_gettype sin =
     (if di_type (din sin) = SFS_TYPE_DIR then Some S_IFDIR
      else if di_type (din sin) = SFS_TYPE_FILE then Some S_IFREG
      else if di_type (din sin) = SFS_TYPE_LINK then Some S_IFLNK
      else None)"

record stat =
  st_mode :: nat
  st_nlinks :: nat
  st_blocks :: nat
  st_size :: nat

definition sfs_fstat :: "sfs_inode \<Rightarrow> stat option" where
  "sfs_fstat sin = do {
     t \<leftarrow> sfs_gettype sin;
     Some \<lparr>st_mode = t, st_nlinks = di_nlinks (din sin), st_blocks = di_blocks (din sin),
       st_size = di_size (din sin)\<rparr>
   }"

section \<open>Specifications\<close>

text \<open>The entry in a slot, as \<open>sfs_dirent_read_nolock\<close> delivers it.\<close>

definition dent :: "sfs_fs \<Rightarrow> sfs_inode \<Rightarrow> nat \<Rightarrow> sfs_disk_entry" where
  "dent s sin i = (let en = mem_entry (fblk s (entry s (din sin) i)) in
     en\<lparr>de_name := (de_name en)[SFS_MAX_FNAME_LEN := 0]\<rparr>)"

lemma mem_entry_cong: "(\<And>i. i < 260 \<Longrightarrow> m i = m' i) \<Longrightarrow> mem_entry m = mem_entry m'"
  using rd_cong [of 4 m 0 m' 0] by (simp add: mem_entry_def SFS_MAX_FNAME_LEN_def)

lemma dirent_read_ok:
  assumes ok: "fs_ok s" and m: "map_ok s sin" and d: "di_type (din sin) = SFS_TYPE_DIR" and i: "i < di_blocks (din sin)"
  shows "sfs_dirent_read_nolock s sin i = Some (Inr (dent s sin i), s, sin)"
proof -
  let ?b = "entry s (din sin) i"
  have b: "?b \<in> used s" by (rule entry_in(1) [OF m i])
  have "mem_entry (blit (\<lambda>_. 0) 0 (fblk s ?b) 0 260) = mem_entry (fblk s ?b)"
    by (rule mem_entry_cong) (simp add: blit_def)
  moreover have "sfs_rbuf s (\<lambda>_. 0) 0 260 ?b 0 = Some (Inr (), s, blit (\<lambda>_. 0) 0 (fblk s ?b) 0 260)"
    by (rule rbuf_used [OF ok b]) simp_all
  ultimately show ?thesis
    using d i bmap_load_old [OF ok m i] inuse_used [OF ok b]
    by (simp add: sfs_dirent_read_nolock_def sfs_dentry_size_def SFS_MAX_FNAME_LEN_def dent_def Let_def)
qed

text \<open>The slot a search finds: the first one in use that carries the name.\<close>

definition hit :: "sfs_fs \<Rightarrow> sfs_inode \<Rightarrow> byte list \<Rightarrow> nat \<Rightarrow> bool" where
  "hit s sin name i \<longleftrightarrow> de_ino (dent s sin i) \<noteq> 0 \<and> entry_name (dent s sin i) = name"

text \<open>The last unused slot below \<open>n\<close>, or \<open>d\<close>.\<close>

definition last_empty :: "sfs_fs \<Rightarrow> sfs_inode \<Rightarrow> nat \<Rightarrow> nat \<Rightarrow> nat" where
  "last_empty s sin n d = foldl (\<lambda>es i. if de_ino (dent s sin i) = 0 then i else es) d [0 ..< n]"

lemma search_loop_ok:
  assumes ok: "fs_ok s" and m: "map_ok s sin" and d: "di_type (din sin) = SFS_TYPE_DIR"
  shows "i + k = di_blocks (din sin) \<Longrightarrow> \<forall>j < i. \<not> hit s sin name j \<Longrightarrow> es = last_empty s sin i e0 \<Longrightarrow>
     (\<exists>j < di_blocks (din sin). hit s sin name j \<and> (\<forall>j' < j. \<not> hit s sin name j')
        \<and> search_loop s sin name i k es = Some (Inr (de_ino (dent s sin j), j), last_empty s sin j e0, s, sin))
   \<or> (\<forall>j < di_blocks (din sin). \<not> hit s sin name j)
        \<and> search_loop s sin name i k es = Some (Inl E_NOENT, last_empty s sin (di_blocks (din sin)) e0, s, sin)"
proof (induction k arbitrary: i es)
  case 0
  then show ?case by simp
next
  case (Suc k)
  have i: "i < di_blocks (din sin)" using Suc.prems(1) by simp
  note r = dirent_read_ok [OF ok m d i]
  have le: "last_empty s sin (Suc i) e0 = (if de_ino (dent s sin i) = 0 then i else es)"
    using Suc.prems(3) by (simp add: last_empty_def)
  show ?case
  proof (cases "hit s sin name i")
    case True
    then have "search_loop s sin name i (Suc k) es = Some (Inr (de_ino (dent s sin i), i), es, s, sin)"
      using r by (simp add: hit_def)
    then show ?thesis using True Suc.prems i by blast
  next
    case False
    then have n: "\<forall>j < Suc i. \<not> hit s sin name j" using Suc.prems(2) less_Suc_eq by auto
    have "search_loop s sin name i (Suc k) es = search_loop s sin name (Suc i) k (last_empty s sin (Suc i) e0)"
      using r False by (auto simp: hit_def le)
    moreover have "Suc i + k = di_blocks (din sin)" using Suc.prems(1) by simp
    ultimately show ?thesis using Suc.IH [OF _ n refl] by simp
  qed
qed

lemma mem_din_mem:
  assumes "\<And>i. i < 64 \<Longrightarrow> m i = din_mem d i" and len: "length (direct d) = 12"
    and b: "di_size d < 2 ^ 32" "di_type d < 2 ^ 16" "di_nlinks d < 2 ^ 16" "di_blocks d < 2 ^ 32"
      "\<And>k. k < 12 \<Longrightarrow> direct d ! k < 2 ^ 32" "indirect d < 2 ^ 32"
  shows "mem_din m = d"
proof -
  have f: "rd 4 m 0 = di_size d" "rd 2 m 4 = di_type d" "rd 2 m 6 = di_nlinks d" "rd 4 m 8 = di_blocks d"
    "rd 4 m 60 = indirect d"
    by (rule rd_le_eq; use assms(1) b in \<open>simp add: din_mem_def\<close>)+
  have "rd 4 m (12 + 4 * k) = direct d ! k" if "k < 12" for k
  proof (rule rd_le_eq)
    fix i :: nat assume "i < 4"
    then have "(12 + 4 * k + i - 12) div 4 = k" "(12 + 4 * k + i - 12) mod 4 = i" by simp_all
    then show "m (12 + 4 * k + i) = le (direct d ! k) i"
      using assms(1) [of "12 + 4 * k + i"] that \<open>i < 4\<close> by (simp add: din_mem_def)
  qed (use b(5) [OF that] in simp)
  then have "List.map (\<lambda>k. rd 4 m (12 + 4 * k)) [0 ..< 12] = direct d"
    using len by (intro nth_equalityI) simp_all
  with f show ?thesis by (simp add: mem_din_def SFS_NDIRECT_def)
qed

section \<open>Looking up a name\<close>

text \<open>A directory with one entry, the name \<open>a\<close> for the inode in block 3.\<close>

definition ex_dir :: sfs_inode where
  "ex_dir = \<lparr>din = \<lparr>di_size = 4096, di_type = SFS_TYPE_DIR, di_nlinks = 1, di_blocks = 1,
     direct = (replicate 12 0)[0 := 4], indirect = 0\<rparr>, ino = 1, dirty = False, reclaim_count = 1\<rparr>"

definition ex_dir_fs :: sfs_fs where
  "ex_dir_fs = put_blk ex_sfs 4 (\<lambda>i. if i = 0 then 3 else if i = 4 then 97 else 0)"

lemma ex_dir_ok: "fs_ok ex_dir_fs" "map_ok ex_dir_fs ex_dir" "di_type (din ex_dir) = SFS_TYPE_DIR"
proof -
  show "fs_ok ex_dir_fs" using ex_sfs_ok(1) by (simp add: ex_dir_fs_def)
  have u: "used ex_dir_fs = {0 <..< 40} - {32 ..< 40}"
    using ex_frees by (simp add: used_def ex_dir_fs_def) (simp add: ex_sfs_def ex_super_def)
  have e: "entry ex_dir_fs (din ex_dir) i = (if i = 0 then 4 else 0)" if "i < 1036" for i
    using that by (simp add: entry_def ex_dir_def)
  have "entries ex_dir_fs (din ex_dir) = {4}" using e [of 0] by (simp add: ex_dir_def lessThan_Suc)
  moreover have "inj_on (entry ex_dir_fs (din ex_dir)) {..< di_blocks (din ex_dir)}"
    by (simp add: ex_dir_def lessThan_Suc)
  ultimately show "map_ok ex_dir_fs ex_dir"
    using e u by (simp add: map_ok_def) (simp add: ex_dir_def)
  show "di_type (din ex_dir) = SFS_TYPE_DIR" by (simp add: ex_dir_def)
qed

lemma ex_dir_hit: "hit ex_dir_fs ex_dir [97] 0" "de_ino (dent ex_dir_fs ex_dir 0) = 3"
proof -
  let ?m = "\<lambda>i. if i = 0 then 3 else if i = 4 then 97 else 0 :: byte"
  have e: "entry ex_dir_fs (din ex_dir) 0 = 4" by (simp add: entry_def ex_dir_def)
  have "rd (Suc (Suc (Suc (Suc 0)))) ?m 0 = 3" by simp
  then have r: "rd 4 ?m 0 = 3" by (simp only: numeral_eq_Suc pred_numeral_simps BitM.simps)
  have n: "List.map (\<lambda>i. ?m (4 + i)) [0 ..< 256] = 97 # replicate 255 0"
    by (rule nth_equalityI) (auto simp: nth_Cons split: nat.splits)
  have "mem_entry (fblk ex_dir_fs 4) = mem_entry ?m"
    by (rule mem_entry_cong) (simp add: ex_dir_fs_def)
  also have "\<dots> = \<lparr>de_ino = 3, de_name = 97 # replicate 255 0\<rparr>"
    using r n by (simp add: mem_entry_def SFS_MAX_FNAME_LEN_def)
  finally have d: "dent ex_dir_fs ex_dir 0 = \<lparr>de_ino = 3, de_name = (97 # replicate 255 0)[255 := 0]\<rparr>"
    by (simp add: dent_def e SFS_MAX_FNAME_LEN_def)
  show "de_ino (dent ex_dir_fs ex_dir 0) = 3" by (simp add: d)
  have "(97 # replicate 255 0)[255 := 0] = 97 # (replicate 255 (0 :: byte))"
    by (rule nth_equalityI) (auto simp: nth_list_update nth_Cons split: nat.splits)
  then show "hit ex_dir_fs ex_dir [97] 0" by (simp add: hit_def d entry_name_def)
qed

text \<open>
  C22. Searching a name in a consistent directory never fails an assertion and changes nothing.  It
  returns the number and the slot of the first entry in use that carries the name, and
  \<open>E_NOENT\<close> exactly when there is none; \<open>*empty_slot\<close> is the last unused slot passed over, and
  the number of slots when there was none.
\<close>

theorem sfs_dirent_search_correct:
  assumes "fs_ok s" "map_ok s sin" "di_type (din sin) = SFS_TYPE_DIR" "length name \<le> SFS_MAX_FNAME_LEN"
  shows "(\<exists>j < di_blocks (din sin). hit s sin name j \<and> (\<forall>j' < j. \<not> hit s sin name j')
        \<and> sfs_dirent_search_nolock True s sin name
            = Some (Inr (de_ino (dent s sin j), j), last_empty s sin j (di_blocks (din sin)), s, sin))
   \<or> (\<forall>j < di_blocks (din sin). \<not> hit s sin name j)
        \<and> sfs_dirent_search_nolock True s sin name
            = Some (Inl E_NOENT, last_empty s sin (di_blocks (din sin)) (di_blocks (din sin)), s, sin)"
proof -
  have "di_blocks (din sin) = last_empty s sin 0 (di_blocks (din sin))" by (simp add: last_empty_def)
  from search_loop_ok [OF assms(1-3) _ _ this, of "di_blocks (din sin)" name] assms(4)
  show ?thesis by (simp add: sfs_dirent_search_nolock_def Let_def)
qed

theorem sfs_dirent_search_correct_witness:
  "sfs_dirent_search_nolock True ex_dir_fs ex_dir [97] = Some (Inr (3, 0), 1, ex_dir_fs, ex_dir)"
proof -
  have n: "di_blocks (din ex_dir) = 1" by (simp add: ex_dir_def)
  have "length [97 :: byte] \<le> SFS_MAX_FNAME_LEN" by (simp add: SFS_MAX_FNAME_LEN_def)
  from sfs_dirent_search_correct [OF ex_dir_ok this] show ?thesis
    using ex_dir_hit by (auto simp: n last_empty_def)
qed

end
