(* ===== verification/Devs.thy ===== *)
theory Devs
  imports Sfs_Dir
begin

text \<open>
  The devices behind device inodes: \<open>kern/fs/devs/dev.c\<close>, the keyboard buffer of \<open>dev_stdin.c\<close> and
  the console of \<open>dev_stdout.c\<close>.  A read of \<open>stdin\<close> sleeps while the buffer is empty; \<open>typed\<close> holds,
  for each return of \<open>schedule()\<close> to come, the characters that \<open>dev_stdin_write\<close> is called with
  meanwhile and whether the process was woken by the keyboard.  A read that never returns is
  \<open>None\<close>, as a panic is.  The positions \<open>p_rpos\<close> and \<open>p_wpos\<close> are numbers without a bound.
\<close>

definition STDIN_BUFSIZE :: nat where "STDIN_BUFSIZE = 4096"
definition S_IFMT :: nat where "S_IFMT = 0x7000"
definition S_IFCHR :: nat where "S_IFCHR = 0x4000"
definition S_IFBLK :: nat where "S_IFBLK = 0x5000"

record tty =
  stdin_buffer :: mem
  p_rpos :: nat
  p_wpos :: nat
  typed :: "(byte list \<times> bool) list"
  printed :: "byte list"

section \<open>The keyboard buffer\<close>

definition dev_stdin_write :: "tty \<Rightarrow> byte \<Rightarrow> tty" where
  "dev_stdin_write t c =
     (if c \<noteq> 0 then
        (let t = t\<lparr>stdin_buffer := (stdin_buffer t)(p_wpos t mod STDIN_BUFSIZE := c)\<rparr> in
         if p_wpos t - p_rpos t < STDIN_BUFSIZE then t\<lparr>p_wpos := p_wpos t + 1\<rparr> else t)
      else t)"

lemma typed_write [simp]: "typed (dev_stdin_write t c) = typed t"
  by (simp add: dev_stdin_write_def Let_def)

lemma typed_writes [simp]: "typed (foldl dev_stdin_write t cs) = typed t"
  by (induction cs arbitrary: t) simp_all

function dev_stdin_read :: "tty \<Rightarrow> nat \<Rightarrow> (byte list \<times> tty) option" where
  "dev_stdin_read t 0 = Some ([], t)"
| "dev_stdin_read t (Suc n) =
     (if p_rpos t < p_wpos t then
        (case dev_stdin_read (t\<lparr>p_rpos := p_rpos t + 1\<rparr>) n of
           None \<Rightarrow> None
         | Some (cs, t') \<Rightarrow> Some (stdin_buffer t (p_rpos t mod STDIN_BUFSIZE) # cs, t'))
      else
        (case typed t of
           [] \<Rightarrow> None
         | (keys, kbd) # later \<Rightarrow>
             (let t = foldl dev_stdin_write (t\<lparr>typed := later\<rparr>) keys in
              if kbd then dev_stdin_read t (Suc n) else Some ([], t))))"
  by pat_completeness auto
termination
  by (relation "measure (\<lambda>(t, n). n + length (typed t))") auto

declare dev_stdin_read.simps(2) [simp del]

definition stdin_open :: "nat \<Rightarrow> errno + unit" where
  "stdin_open open_flags = (if open_flags \<noteq> O_RDONLY then Inl E_INVAL else Inr ())"

text \<open>The number of characters read is the result, and \<open>io_base\<close> stays.\<close>

definition stdin_io :: "tty \<Rightarrow> iobuf \<Rightarrow> bool \<Rightarrow> ((errno + nat) \<times> tty \<times> iobuf) option" where
  "stdin_io t iob write =
     (if \<not> write then do {
        (cs, t) \<leftarrow> dev_stdin_read t (io_resid iob);
        let n = length cs;
        let iob = iob\<lparr>io_obj := blit (io_obj iob) (io_base iob) (\<lambda>i. cs ! i) 0 n, io_resid := io_resid iob - n\<rparr>;
        Some (Inr n, t, iob)
      } else Some (Inl E_INVAL, t, iob))"

section \<open>The console\<close>

definition stdout_open :: "nat \<Rightarrow> errno + unit" where
  "stdout_open open_flags = (if open_flags \<noteq> O_WRONLY then Inl E_INVAL else Inr ())"

definition stdout_io :: "tty \<Rightarrow> iobuf \<Rightarrow> bool \<Rightarrow> (errno + nat) \<times> tty \<times> iobuf" where
  "stdout_io t iob write =
     (if write then
        (Inr 0, t\<lparr>printed := printed t @ List.map (\<lambda>i. io_obj iob (io_base iob + i)) [0 ..< io_resid iob]\<rparr>,
         iob\<lparr>io_resid := 0\<rparr>)
      else (Inl E_INVAL, t, iob))"

section \<open>Device operations\<close>

text \<open>The function table of \<open>struct device\<close>, by the device it belongs to; \<open>d\<close> is the disk's.\<close>

datatype dev_class = Stdin | Stdout | Disk0

definition dev_geometry :: "dev_class \<Rightarrow> device \<Rightarrow> nat \<times> nat" where
  "dev_geometry c d = (case c of Disk0 \<Rightarrow> (d_blocks d, d_blocksize d) | _ \<Rightarrow> (0, 1))"

definition dop_open :: "dev_class \<Rightarrow> nat \<Rightarrow> errno + unit" where
  "dop_open c open_flags =
     (case c of Stdin \<Rightarrow> stdin_open open_flags | Stdout \<Rightarrow> stdout_open open_flags | Disk0 \<Rightarrow> Inr ())"

definition dop_close :: "dev_class \<Rightarrow> errno + unit" where
  "dop_close c = Inr ()"

definition dop_io ::
  "dev_class \<Rightarrow> tty \<Rightarrow> device \<Rightarrow> iobuf \<Rightarrow> bool \<Rightarrow> ((errno + nat) \<times> tty \<times> device \<times> iobuf) option" where
  "dop_io c t d iob write =
     (case c of
        Stdin \<Rightarrow> do { (ret, t, iob) \<leftarrow> stdin_io t iob write; Some (ret, t, d, iob) }
      | Stdout \<Rightarrow> (let (ret, t, iob) = stdout_io t iob write in Some (ret, t, d, iob))
      | Disk0 \<Rightarrow> do {
          (ret, d, iob) \<leftarrow> disk0_io d (\<lambda>_. 0) iob write;
          Some (case ret of Inl e \<Rightarrow> Inl e | Inr _ \<Rightarrow> Inr 0, t, d, iob)
        })"

definition dop_ioctl :: "dev_class \<Rightarrow> errno" where
  "dop_ioctl c = (case c of Disk0 \<Rightarrow> E_UNIMP | _ \<Rightarrow> E_INVAL)"

definition dev_open :: "dev_class \<Rightarrow> nat \<Rightarrow> errno + unit" where
  "dev_open c open_flags =
     (if open_flags AND (O_CREAT OR O_TRUNC OR O_EXCL OR O_APPEND) \<noteq> 0 then Inl E_INVAL
      else dop_open c open_flags)"

definition dev_close :: "dev_class \<Rightarrow> errno + unit" where
  "dev_close c = dop_close c"

definition dev_read ::
  "dev_class \<Rightarrow> tty \<Rightarrow> device \<Rightarrow> iobuf \<Rightarrow> ((errno + nat) \<times> tty \<times> device \<times> iobuf) option" where
  "dev_read c t d iob = dop_io c t d iob False"

definition dev_write ::
  "dev_class \<Rightarrow> tty \<Rightarrow> device \<Rightarrow> iobuf \<Rightarrow> ((errno + nat) \<times> tty \<times> device \<times> iobuf) option" where
  "dev_write c t d iob = dop_io c t d iob True"

definition dev_ioctl :: "dev_class \<Rightarrow> errno" where
  "dev_ioctl c = dop_ioctl c"

definition dev_gettype :: "dev_class \<Rightarrow> device \<Rightarrow> nat" where
  "dev_gettype c d = (if fst (dev_geometry c d) > 0 then S_IFBLK else S_IFCHR)"

definition dev_fstat :: "dev_class \<Rightarrow> device \<Rightarrow> stat" where
  "dev_fstat c d =
     (let (blocks, bsize) = dev_geometry c d in
      \<lparr>st_mode = dev_gettype c d, st_nlinks = 1, st_blocks = blocks, st_size = blocks * bsize mod 2 ^ 64\<rparr>)"

text \<open>\<open>pos % dev->d_blocksize\<close> and the comparison with the size are unsigned.\<close>

definition dev_tryseek :: "dev_class \<Rightarrow> device \<Rightarrow> int \<Rightarrow> errno + unit" where
  "dev_tryseek c d pos =
     (let (blocks, bsize) = dev_geometry c d in
      if blocks > 0 \<and> nat (pos mod 2 ^ 64) mod bsize = 0
         \<and> pos \<ge> 0 \<and> nat (pos mod 2 ^ 64) < blocks * bsize mod 2 ^ 64
      then Inr () else Inl E_INVAL)"

section \<open>The keyboard buffer is a queue\<close>

definition unread :: "tty \<Rightarrow> byte list" where
  "unread t = List.map (\<lambda>i. stdin_buffer t (i mod STDIN_BUFSIZE)) [p_rpos t ..< p_wpos t]"

definition tty_ok :: "tty \<Rightarrow> bool" where
  "tty_ok t \<longleftrightarrow> p_rpos t \<le> p_wpos t \<and> p_wpos t - p_rpos t \<le> STDIN_BUFSIZE"

text \<open>
  The queue: a character goes to the end, unless 4096 are waiting; then it replaces the oldest.  A
  read takes characters from the front and waits for more when there are none.
\<close>

definition q_put :: "byte list \<Rightarrow> byte \<Rightarrow> byte list" where
  "q_put q c = (if c = 0 then q else if length q < STDIN_BUFSIZE then q @ [c] else c # tl q)"

function q_read :: "byte list \<Rightarrow> (byte list \<times> bool) list \<Rightarrow> nat \<Rightarrow> (byte list \<times> byte list \<times> (byte list \<times> bool) list) option" where
  "q_read q w 0 = Some ([], q, w)"
| "q_read (c # q) w (Suc n) = map_option (\<lambda>(cs, r). (c # cs, r)) (q_read q w n)"
| "q_read [] [] (Suc n) = None"
| "q_read [] ((keys, kbd) # w) (Suc n) =
     (let q = foldl q_put [] keys in if kbd then q_read q w (Suc n) else Some ([], q, w))"
  by pat_completeness auto
termination
  by (relation "measure (\<lambda>(q, w, n). n + length w)") auto

lemma length_unread: "tty_ok t \<Longrightarrow> length (unread t) = p_wpos t - p_rpos t"
  by (simp add: unread_def tty_ok_def)

lemma mod_window_inj:
  assumes "i mod B = j mod B" "r \<le> i" "i < r + B" "r \<le> j" "j < r + B"
  shows "i = (j :: nat)"
proof (rule ccontr)
  assume "i \<noteq> j"
  then consider "i < j" | "j < i" by linarith
  then show False
  proof cases
    case 1
    then have "B dvd j - i" using assms(1) by (metis less_imp_le_nat mod_eq_dvd_iff_nat)
    then show False using 1 assms by (auto dest!: dvd_imp_le)
  next
    case 2
    then have "B dvd i - j" using assms(1) by (metis less_imp_le_nat mod_eq_dvd_iff_nat)
    then show False using 2 assms by (auto dest!: dvd_imp_le)
  qed
qed

lemma stdin_write_ok:
  assumes t: "tty_ok t"
  shows "tty_ok (dev_stdin_write t c) \<and> unread (dev_stdin_write t c) = q_put (unread t) c"
proof (cases "c = 0")
  case True
  then show ?thesis using t by (simp add: dev_stdin_write_def q_put_def)
next
  case c: False
  let ?B = STDIN_BUFSIZE and ?r = "p_rpos t" and ?w = "p_wpos t"
  have B: "?B > 0" by (simp add: STDIN_BUFSIZE_def)
  have le: "?r \<le> ?w" "?w - ?r \<le> ?B" using t by (auto simp: tty_ok_def)
  show ?thesis
  proof (cases "?w - ?r < ?B")
    case True
    have ne: "i mod ?B \<noteq> ?w mod ?B" if "i \<in> set [?r ..< ?w]" for i
    proof
      assume *: "i mod ?B = ?w mod ?B"
      have "?w < ?r + ?B" "?r \<le> i" "i < ?w" using True le that by auto
      then show False using mod_window_inj [OF *, of ?r] le by auto
    qed
    have "unread (dev_stdin_write t c) = unread t @ [c]"
      using c True le ne by (simp add: dev_stdin_write_def unread_def Let_def)
    then show ?thesis using c True le t length_unread [OF t]
      by (simp add: q_put_def tty_ok_def dev_stdin_write_def Let_def)
  next
    case False
    then have w: "?w = ?r + ?B" using le by simp
    then have up: "[?r ..< ?r + ?B] = ?r # [Suc ?r ..< ?r + ?B]" using B by (simp add: upt_conv_Cons)
    have ne: "i mod ?B \<noteq> ?r mod ?B" if "i \<in> set [Suc ?r ..< ?w]" for i
      using mod_window_inj [of i ?B ?r ?r] that w B by auto
    have "unread (dev_stdin_write t c) = c # tl (unread t)"
      using c w ne unfolding dev_stdin_write_def unread_def Let_def by (simp add: up)
    then show ?thesis using c w le t length_unread [OF t]
      by (simp add: q_put_def tty_ok_def dev_stdin_write_def Let_def)
  qed
qed

lemma stdin_writes_ok:
  "tty_ok t \<Longrightarrow> tty_ok (foldl dev_stdin_write t cs)
     \<and> unread (foldl dev_stdin_write t cs) = foldl q_put (unread t) cs"
  using stdin_write_ok by (induction cs arbitrary: t) auto

lemma unread_pop:
  assumes "p_rpos t < p_wpos t"
  shows "unread t = stdin_buffer t (p_rpos t mod STDIN_BUFSIZE) # unread (t\<lparr>p_rpos := p_rpos t + 1\<rparr>)"
  using assms by (simp add: unread_def upt_conv_Cons)

lemma unread_typed [simp]: "unread (t\<lparr>typed := w\<rparr>) = unread t" "tty_ok (t\<lparr>typed := w\<rparr>) = tty_ok t"
  by (simp_all add: unread_def tty_ok_def)

lemma stdin_read_refines:
  "tty_ok t \<Longrightarrow> map_option (\<lambda>(cs, t'). (cs, unread t', typed t')) (dev_stdin_read t n) = q_read (unread t) (typed t) n
     \<and> pred_option (\<lambda>(cs, t'). tty_ok t') (dev_stdin_read t n)"
proof (induction t n rule: dev_stdin_read.induct)
  case (1 t)
  then show ?case by simp
next
  case (2 t n)
  note [simp] = dev_stdin_read.simps(2)
  show ?case
  proof (cases "p_rpos t < p_wpos t")
    case True
    have ok: "tty_ok (t\<lparr>p_rpos := p_rpos t + 1\<rparr>)" using True "2.prems" by (simp add: tty_ok_def)
    note ih = "2.IH"(1) [OF True ok]
    have q: "q_read (unread (t\<lparr>p_rpos := Suc (p_rpos t)\<rparr>)) (typed t) n
        = map_option (\<lambda>(cs, t'). (cs, unread t', typed t')) (dev_stdin_read (t\<lparr>p_rpos := Suc (p_rpos t)\<rparr>) n)"
      using conjunct1 [OF ih] by simp
    show ?thesis
      using conjunct2 [OF ih] unread_pop [OF True] True
      by (cases "dev_stdin_read (t\<lparr>p_rpos := p_rpos t + 1\<rparr>) n") (auto simp: q)
  next
    case False
    then have e: "unread t = []" by (simp add: unread_def)
    show ?thesis
    proof (cases "typed t")
      case Nil
      then show ?thesis using e False by simp
    next
      case (Cons a later)
      obtain keys kbd where a: "a = (keys, kbd)" by fastforce
      let ?t = "foldl dev_stdin_write (t\<lparr>typed := later\<rparr>) keys"
      have ok: "tty_ok ?t" "unread ?t = foldl q_put [] keys" "typed ?t = later"
        using stdin_writes_ok [of "t\<lparr>typed := later\<rparr>" keys] "2.prems" e by auto
      show ?thesis
      proof (cases kbd)
        case True
        show ?thesis using "2.IH"(2) [OF False Cons a [symmetric] refl True ok(1)] ok e False Cons a True
          by (simp add: Let_def)
      next
        case kbd: False
        then show ?thesis using ok e False Cons a by (simp add: Let_def)
      qed
    qed
  qed
qed

text \<open>
  C27. The keyboard buffer is a bounded queue: typing a character puts it at the end, and a read of
  \<open>n\<close> characters, with whatever is typed while it sleeps, delivers exactly what the queue does and
  leaves the same queue; a read that finds nothing and is never woken again does not return in
  either.  When 4096 characters wait, the next one typed takes the place of the oldest.
\<close>

theorem stdin_refines_queue:
  assumes "tty_ok t"
  shows "tty_ok (dev_stdin_write t c) \<and> unread (dev_stdin_write t c) = q_put (unread t) c
     \<and> map_option (\<lambda>(cs, t'). (cs, unread t', typed t')) (dev_stdin_read t n) = q_read (unread t) (typed t) n"
  using stdin_write_ok [OF assms] stdin_read_refines [OF assms] by blast

definition ex_tty :: tty where
  "ex_tty = \<lparr>stdin_buffer = (\<lambda>_. 0), p_rpos = 0, p_wpos = 0, typed = [([104], True), ([105, 0, 33], True)], printed = []\<rparr>"

theorem stdin_refines_queue_witness:
  "map_option (\<lambda>(cs, t'). (cs, unread t')) (dev_stdin_read ex_tty 2) = Some ([104, 105], [33])"
proof -
  have q: "q_read [] [([104], True), ([105, 0, 33], True)] 2 = Some ([104, 105], [33], [])"
  proof -
    have two: "(2 :: nat) = Suc (Suc 0)" by simp
    have "foldl q_put [] [104] = [104]" "foldl q_put [] [105, 0, 33] = [105, 33]"
      by (simp_all add: q_put_def STDIN_BUFSIZE_def)
    then show ?thesis unfolding two by (simp only: q_read.simps Let_def if_True option.map prod.case)
  qed
  have "tty_ok ex_tty" "unread ex_tty = []" by (simp_all add: ex_tty_def tty_ok_def unread_def)
  with stdin_refines_queue [of ex_tty 65 2] q
  have "map_option (\<lambda>(cs, t'). (cs, unread t', typed t')) (dev_stdin_read ex_tty 2) = Some ([104, 105], [33], [])"
    by (simp add: ex_tty_def)
  then show ?thesis by auto
qed

text \<open>
  When the keyboard buffer is full, the character typed last is the first one the next read
  delivers, and the one that should have been first is lost.
\<close>

lemma stdin_overrun:
  assumes "tty_ok t" "length (unread t) = STDIN_BUFSIZE" "c \<noteq> 0"
  shows "\<exists>t'. dev_stdin_read (dev_stdin_write t c) 1 = Some ([c], t') \<and> unread t' = tl (unread t)"
proof -
  let ?t = "dev_stdin_write t c"
  have u: "tty_ok ?t" "unread ?t = c # tl (unread t)"
    using stdin_write_ok [OF assms(1), of c] assms by (auto simp: q_put_def)
  have "q_read (unread ?t) (typed ?t) 1 = Some ([c], tl (unread t), typed t)"
    by (simp add: u(2) One_nat_def)
  with stdin_read_refines [OF u(1), of 1] show ?thesis by auto
qed

definition full_tty :: tty where
  "full_tty = ex_tty\<lparr>p_rpos := 7, p_wpos := 4103\<rparr>"

lemma stdin_overrun_witness:
  "\<exists>t'. dev_stdin_read (dev_stdin_write full_tty 120) 1 = Some ([120], t') \<and> unread t' = tl (unread full_tty)"
  by (rule stdin_overrun) (simp_all add: full_tty_def tty_ok_def unread_def STDIN_BUFSIZE_def)

end
