(* ===== verification/Sfs_Node.thy ===== *)
theory Sfs_Node
  imports Sfs_Dir
begin

text \<open>
  Inodes in memory: the VFS inode with its two counts (\<open>kern/fs/vfs/inode.c\<close>), the inode list and
  the hash lists of a mounted file system, and the operations of \<open>sfs_inode.c\<close> and \<open>sfs_fs.c\<close>
  that use them.  A node is named by its address.  \<open>fresh st\<close> is the address \<open>alloc_inode\<close> returns
  in a state (\<open>None\<close> is \<open>NULL\<close>), \<open>mem\<close> says whether the other \<open>kmalloc\<close> calls succeed.
\<close>

record vnode =
  vn_sin :: sfs_inode
  ref_count :: int
  open_count :: int

record mnt =
  fs :: sfs_fs
  nodes :: "nat \<Rightarrow> vnode option"
  inode_list :: "nat list"
  hash_list :: "nat \<Rightarrow> nat list"

definition MAX_INODE_COUNT :: int where "MAX_INODE_COUNT = 0x10000"
definition SFS_HLIST_SHIFT :: nat where "SFS_HLIST_SHIFT = 10"

section \<open>Counts and links\<close>

definition get_node :: "mnt \<Rightarrow> nat \<Rightarrow> vnode" where
  "get_node st a = the (nodes st a)"

definition set_node :: "mnt \<Rightarrow> nat \<Rightarrow> vnode \<Rightarrow> mnt" where
  "set_node st a v = st\<lparr>nodes := (nodes st)(a := Some v)\<rparr>"

text \<open>The check before every \<open>vop_*\<close> call; the node must exist.\<close>

definition inode_check :: "mnt \<Rightarrow> nat \<Rightarrow> unit option" where
  "inode_check st a = do {
     v \<leftarrow> nodes st a;
     kassert (ref_count v \<ge> open_count v \<and> open_count v \<ge> 0);
     kassert (ref_count v < MAX_INODE_COUNT \<and> open_count v < MAX_INODE_COUNT)
   }"

definition inode_ref_inc :: "mnt \<Rightarrow> nat \<Rightarrow> int \<times> mnt" where
  "inode_ref_inc st a =
     (let v = get_node st a; n = ref_count v + 1 in (n, set_node st a (v\<lparr>ref_count := n\<rparr>)))"

definition inode_open_inc :: "mnt \<Rightarrow> nat \<Rightarrow> int \<times> mnt" where
  "inode_open_inc st a =
     (let v = get_node st a; n = open_count v + 1 in (n, set_node st a (v\<lparr>open_count := n\<rparr>)))"

definition inode_init :: "sfs_inode \<Rightarrow> vnode" where
  "inode_init sin = \<lparr>vn_sin = sin, ref_count = 1, open_count = 0\<rparr>"

definition inode_kill :: "mnt \<Rightarrow> nat \<Rightarrow> mnt option" where
  "inode_kill st a = do {
     v \<leftarrow> nodes st a;
     kassert (ref_count v = 0);
     kassert (open_count v = 0);
     Some (st\<lparr>nodes := (nodes st)(a := None)\<rparr>)
   }"

definition sin_hashfn :: "nat \<Rightarrow> nat" where
  "sin_hashfn no = unat (hash32 (word_of_nat no) SFS_HLIST_SHIFT)"

definition sfs_set_links :: "mnt \<Rightarrow> nat \<Rightarrow> mnt" where
  "sfs_set_links st a =
     (let h = sin_hashfn (ino (vn_sin (get_node st a))) in
      st\<lparr>inode_list := a # inode_list st, hash_list := (hash_list st)(h := a # hash_list st h)\<rparr>)"

definition sfs_remove_links :: "mnt \<Rightarrow> nat \<Rightarrow> mnt" where
  "sfs_remove_links st a =
     st\<lparr>inode_list := remove1 a (inode_list st), hash_list := (\<lambda>h. remove1 a (hash_list st h))\<rparr>"

section \<open>Loading an inode\<close>

text \<open>\<open>sfs_get_ops\<close> panics for a type other than directory and file.\<close>

definition sfs_get_ops :: "nat \<Rightarrow> unit option" where
  "sfs_get_ops t = kassert (t = SFS_TYPE_DIR \<or> t = SFS_TYPE_FILE)"

definition sfs_create_inode ::
  "(mnt \<Rightarrow> nat option) \<Rightarrow> mnt \<Rightarrow> sfs_disk_inode \<Rightarrow> nat \<Rightarrow> ((errno + nat) \<times> mnt) option" where
  "sfs_create_inode fresh st d no =
     (case fresh st of
        None \<Rightarrow> Some (Inl E_NO_MEM, st)
      | Some a \<Rightarrow> do {
          sfs_get_ops (di_type d);
          let sin = \<lparr>din = d, ino = no, dirty = False, reclaim_count = 1\<rparr>;
          Some (Inr a, set_node st a (inode_init sin))
        })"

definition lookup_sfs_nolock :: "mnt \<Rightarrow> nat \<Rightarrow> nat option \<times> mnt" where
  "lookup_sfs_nolock st no =
     (case List.find (\<lambda>a. ino (vn_sin (get_node st a)) = no) (hash_list st (sin_hashfn no)) of
        None \<Rightarrow> (None, st)
      | Some a \<Rightarrow>
          (let (n, st) = inode_ref_inc st a in
           if n = 1 then
             (let v = get_node st a; sin = vn_sin v in
              (Some a, set_node st a (v\<lparr>vn_sin := sin\<lparr>reclaim_count := reclaim_count sin + 1\<rparr>\<rparr>)))
           else (Some a, st)))"

definition sfs_load_inode ::
  "bool \<Rightarrow> (mnt \<Rightarrow> nat option) \<Rightarrow> mnt \<Rightarrow> nat \<Rightarrow> ((errno + nat) \<times> mnt) option" where
  "sfs_load_inode mem fresh st no =
     (case lookup_sfs_nolock st no of
        (Some a, st) \<Rightarrow> Some (Inr a, st)
      | (None, st) \<Rightarrow>
          if \<not> mem then Some (Inl E_NO_MEM, st)
          else do {
            u \<leftarrow> sfs_block_inuse (fs st) no;
            kassert u;
            (ret, s, buf) \<leftarrow> sfs_rbuf (fs st) (\<lambda>_. 0) 0 DIN_SIZE no 0;
            let st = st\<lparr>fs := s\<rparr>;
            (case ret of
               Inl e \<Rightarrow> Some (Inl e, st)
             | Inr _ \<Rightarrow> do {
                 let d = mem_din buf;
                 kassert (di_nlinks d \<noteq> 0);
                 (ret, st) \<leftarrow> sfs_create_inode fresh st d no;
                 Some (case ret of
                     Inl e \<Rightarrow> (Inl e, st)
                   | Inr a \<Rightarrow> (Inr a, sfs_set_links st a))
               })
          })"

section \<open>Operations on a node\<close>

text \<open>An operation on the volume and the inode of a node.\<close>

definition on_node ::
  "mnt \<Rightarrow> nat \<Rightarrow> (sfs_fs \<Rightarrow> sfs_inode \<Rightarrow> ((errno + 'a) \<times> sfs_fs \<times> sfs_inode) option) \<Rightarrow> ((errno + 'a) \<times> mnt) option" where
  "on_node st a f = do {
     v \<leftarrow> nodes st a;
     (ret, s, sin) \<leftarrow> f (fs st) (vn_sin v);
     Some (ret, set_node (st\<lparr>fs := s\<rparr>) a (v\<lparr>vn_sin := sin\<rparr>))
   }"

definition sfs_vop_fsync :: "mnt \<Rightarrow> nat \<Rightarrow> ((errno + unit) \<times> mnt) option" where
  "sfs_vop_fsync st a = do { inode_check st a; on_node st a sfs_fsync }"

text \<open>Only files have \<open>vop_truncate\<close>; calling the operation a type lacks fails an assertion.\<close>

definition sfs_vop_truncate :: "mnt \<Rightarrow> nat \<Rightarrow> int \<Rightarrow> ((errno + unit) \<times> mnt) option" where
  "sfs_vop_truncate st a len = do {
     kassert (di_type (din (vn_sin (get_node st a))) = SFS_TYPE_FILE);
     inode_check st a;
     on_node st a (\<lambda>s sin. sfs_truncfile s sin len)
   }"

definition sfs_close :: "mnt \<Rightarrow> nat \<Rightarrow> ((errno + unit) \<times> mnt) option" where
  "sfs_close st a = sfs_vop_fsync st a"

definition sfs_vop_close :: "mnt \<Rightarrow> nat \<Rightarrow> ((errno + unit) \<times> mnt) option" where
  "sfs_vop_close st a = do { inode_check st a; sfs_close st a }"

definition free_blocks :: "mnt \<Rightarrow> sfs_inode \<Rightarrow> mnt option" where
  "free_blocks st sin =
     (if di_nlinks (din sin) = 0 then do {
        s \<leftarrow> sfs_block_free (fs st) (ino sin);
        s \<leftarrow> (if indirect (din sin) \<noteq> 0 then sfs_block_free s (indirect (din sin)) else Some s);
        Some (st\<lparr>fs := s\<rparr>)
      } else Some st)"

definition sfs_reclaim :: "mnt \<Rightarrow> nat \<Rightarrow> ((errno + unit) \<times> mnt) option" where
  "sfs_reclaim st a = do {
     v \<leftarrow> nodes st a;
     kassert (reclaim_count (vn_sin v) > 0);
     let v = v\<lparr>vn_sin := (vn_sin v)\<lparr>reclaim_count := reclaim_count (vn_sin v) - 1\<rparr>\<rparr>;
     let st = set_node st a v;
     if reclaim_count (vn_sin v) \<noteq> 0 \<or> ref_count v \<noteq> 0 then Some (Inl E_BUSY, st)
     else
       seqE (if di_nlinks (din (vn_sin v)) = 0 then sfs_vop_truncate st a 0 else Some (Inr (), st))
         (\<lambda>_ st.
           seqE (if dirty (vn_sin (get_node st a)) then sfs_vop_fsync st a else Some (Inr (), st))
             (\<lambda>_ st. do {
               let st = sfs_remove_links st a;
               st \<leftarrow> free_blocks st (vn_sin (get_node st a));
               st \<leftarrow> inode_kill st a;
               Some (Inr (), st)
             }))
   }"

text \<open>A failing \<open>vop_reclaim\<close> or \<open>vop_close\<close> is only reported on the console.\<close>

definition inode_ref_dec :: "mnt \<Rightarrow> nat \<Rightarrow> (int \<times> mnt) option" where
  "inode_ref_dec st a = do {
     v \<leftarrow> nodes st a;
     kassert (ref_count v > 0);
     let n = ref_count v - 1;
     let st = set_node st a (v\<lparr>ref_count := n\<rparr>);
     if n = 0 then do {
       inode_check st a;
       (_, st) \<leftarrow> sfs_reclaim st a;
       Some (n, st)
     } else Some (n, st)
   }"

definition inode_open_dec :: "mnt \<Rightarrow> nat \<Rightarrow> (int \<times> mnt) option" where
  "inode_open_dec st a = do {
     v \<leftarrow> nodes st a;
     kassert (open_count v > 0);
     let n = open_count v - 1;
     let st = set_node st a (v\<lparr>open_count := n\<rparr>);
     if n = 0 then do {
       (_, st) \<leftarrow> sfs_vop_close st a;
       Some (n, st)
     } else Some (n, st)
   }"

section \<open>Looking up names\<close>

definition sfs_lookup_once ::
  "bool \<Rightarrow> (mnt \<Rightarrow> nat option) \<Rightarrow> mnt \<Rightarrow> nat \<Rightarrow> byte list \<Rightarrow> ((errno + nat) \<times> mnt) option" where
  "sfs_lookup_once mem fresh st a name = do {
     (ret, st) \<leftarrow> on_node st a (\<lambda>s sin. do {
        (ret, _, s, sin) \<leftarrow> sfs_dirent_search_nolock mem s sin name;
        Some (ret, s, sin)
      });
     (case ret of
        Inl e \<Rightarrow> Some (Inl e, st)
      | Inr (no, _) \<Rightarrow> sfs_load_inode mem fresh st no)
   }"

definition sfs_lookup ::
  "bool \<Rightarrow> (mnt \<Rightarrow> nat option) \<Rightarrow> mnt \<Rightarrow> nat \<Rightarrow> byte list \<Rightarrow> ((errno + nat) \<times> mnt) option" where
  "sfs_lookup mem fresh st a path = do {
     kassert (path \<noteq> [] \<and> hd path \<noteq> 47);
     let (_, st) = inode_ref_inc st a;
     if di_type (din (vn_sin (get_node st a))) \<noteq> SFS_TYPE_DIR then do {
       (_, st) \<leftarrow> inode_ref_dec st a;
       Some (Inl E_NOTDIR, st)
     } else do {
       (ret, st) \<leftarrow> sfs_lookup_once mem fresh st a path;
       (_, st) \<leftarrow> inode_ref_dec st a;
       Some (ret, st)
     }
   }"

section \<open>The path of a directory\<close>

text \<open>
  The loop of \<open>sfs_namefile\<close>: it follows \<open>..\<close> to the root and writes the names, each with a slash,
  from the end of the buffer down.  \<open>ptr\<close> is a position in the buffer object.  Nothing bounds the
  number of turns but the root being its own parent, so the loop is a partial function.
\<close>

definition namefile_failed :: "mnt \<Rightarrow> nat \<Rightarrow> mem \<Rightarrow> errno \<Rightarrow> ((errno + nat \<times> nat) \<times> mnt \<times> mem) option" where
  "namefile_failed st a buf e = do { (_, st) \<leftarrow> inode_ref_dec st a; Some (Inl e, st, buf) }"

partial_function (option) namefile_loop ::
  "bool \<Rightarrow> (mnt \<Rightarrow> nat option) \<Rightarrow> mnt \<Rightarrow> nat \<Rightarrow> nat \<Rightarrow> nat \<Rightarrow> mem
    \<Rightarrow> ((errno + nat \<times> nat) \<times> mnt \<times> mem) option" where
  "namefile_loop mem fresh st a ptr resid buf = do {
     (ret, st) \<leftarrow> sfs_lookup_once mem fresh st a [46, 46];
     (case ret of
        Inl e \<Rightarrow> namefile_failed st a buf e
      | Inr parent \<Rightarrow> do {
          let no = ino (vn_sin (get_node st a));
          (_, st) \<leftarrow> inode_ref_dec st a;
          if a = parent then do {
            (_, st) \<leftarrow> inode_ref_dec st a;
            Some (Inr (ptr, resid), st, buf)
          } else do {
            let sin = vn_sin (get_node st parent);
            kassert (no \<noteq> ino sin \<and> di_type (din sin) = SFS_TYPE_DIR);
            (ret, st) \<leftarrow> on_node st parent (\<lambda>s sin. sfs_dirent_findino_nolock s sin no);
            (case ret of
               Inl e \<Rightarrow> namefile_failed st parent buf e
             | Inr en \<Rightarrow>
                 (let alen = length (entry_name en) + 1 in
                  if alen > resid then namefile_failed st parent buf E_NO_MEM
                  else
                    (let resid = resid - alen; ptr = ptr - alen;
                         buf = blit buf ptr (\<lambda>i. de_name en ! i) 0 (alen - 1) in
                     namefile_loop mem fresh st parent ptr resid (buf(ptr + alen - 1 := 47)))))
          }
        })
   }"

definition sfs_namefile ::
  "bool \<Rightarrow> (mnt \<Rightarrow> nat option) \<Rightarrow> mnt \<Rightarrow> nat \<Rightarrow> iobuf \<Rightarrow> ((errno + unit) \<times> mnt \<times> iobuf) option" where
  "sfs_namefile mem fresh st a iob =
     (if io_resid iob \<le> 2 \<or> \<not> mem then Some (Inl E_NO_MEM, st, iob)
      else do {
        let (_, st) = inode_ref_inc st a;
        (ret, st, buf) \<leftarrow> namefile_loop mem fresh st a (io_base iob + io_resid iob) (io_resid iob - 2) (io_obj iob);
        (case ret of
           Inl e \<Rightarrow> Some (Inl e, st, iob\<lparr>io_obj := buf\<rparr>)
         | Inr (ptr, resid) \<Rightarrow> do {
             let alen = io_resid iob - resid - 2;
             let buf = blit buf (io_base iob + 1) buf ptr alen;
             let buf = buf(io_base iob := 47, io_base iob + 1 + alen := 0);
             iob \<leftarrow> iobuf_skip (iob\<lparr>io_obj := buf\<rparr>) alen;
             Some (Inr (), st, iob)
           })
      })"

section \<open>The file system operations\<close>

fun sync_inodes :: "mnt \<Rightarrow> nat list \<Rightarrow> mnt option" where
  "sync_inodes st [] = Some st"
| "sync_inodes st (a # as) = do { (_, st) \<leftarrow> sfs_vop_fsync st a; sync_inodes st as }"

definition sfs_sync :: "mnt \<Rightarrow> ((errno + unit) \<times> mnt) option" where
  "sfs_sync st = do {
     st \<leftarrow> sync_inodes st (inode_list st);
     (ret, s) \<leftarrow> sync_meta (fs st);
     Some (ret, st\<lparr>fs := s\<rparr>)
   }"

definition sfs_get_root :: "bool \<Rightarrow> (mnt \<Rightarrow> nat option) \<Rightarrow> mnt \<Rightarrow> (nat \<times> mnt) option" where
  "sfs_get_root mem fresh st = do {
     (ret, st) \<leftarrow> sfs_load_inode mem fresh st SFS_BLKN_ROOT;
     (case ret of Inl e \<Rightarrow> None | Inr a \<Rightarrow> Some (a, st))
   }"

definition sfs_unmount :: "mnt \<Rightarrow> (errno + unit) option" where
  "sfs_unmount st =
     (if inode_list st \<noteq> [] then Some (Inl E_BUSY)
      else do { kassert (\<not> super_dirty (fs st)); Some (Inr ()) })"

fun cleanup_loop :: "nat \<Rightarrow> mnt \<Rightarrow> mnt option" where
  "cleanup_loop 0 st = Some st"
| "cleanup_loop (Suc k) st = do {
     (ret, st) \<leftarrow> sfs_sync st;
     (case ret of Inr _ \<Rightarrow> Some st | Inl _ \<Rightarrow> cleanup_loop k st)
   }"

definition sfs_cleanup :: "mnt \<Rightarrow> mnt option" where
  "sfs_cleanup st = cleanup_loop 32 st"


section \<open>One copy of every inode\<close>

definition ino_of :: "mnt \<Rightarrow> nat \<Rightarrow> nat" where
  "ino_of st a = ino (vn_sin (get_node st a))"

text \<open>
  The inode list holds every node once, each hash list exactly the nodes whose number hashes to
  it, and no two nodes have the same number.
\<close>

definition table_ok :: "mnt \<Rightarrow> bool" where
  "table_ok st \<longleftrightarrow> distinct (inode_list st) \<and> set (inode_list st) = dom (nodes st)
     \<and> (\<forall>h. distinct (hash_list st h) \<and> set (hash_list st h) = {a \<in> dom (nodes st). sin_hashfn (ino_of st a) = h})
     \<and> inj_on (ino_of st) (dom (nodes st))"

lemma set_node_sel [simp]:
  "nodes (set_node st a v) = (nodes st)(a := Some v)" "inode_list (set_node st a v) = inode_list st"
  "hash_list (set_node st a v) = hash_list st" "fs (set_node st a v) = fs st"
  by (simp_all add: set_node_def)

lemma get_set_node [simp]: "get_node (set_node st a v) b = (if b = a then v else get_node st b)"
  by (simp add: get_node_def)

lemma ino_of_set: "ino_of (set_node st a v) b = (if b = a then ino (vn_sin v) else ino_of st b)"
  by (simp add: ino_of_def)

text \<open>Changing a node, not its number, or the volume.\<close>

lemma table_ok_set:
  assumes t: "table_ok st" and a: "a \<in> dom (nodes st)" and i: "ino (vn_sin v) = ino_of st a"
  shows "table_ok (set_node st a v)"
proof -
  have d: "dom ((nodes st)(a := Some v)) = dom (nodes st)" using a by auto
  have e: "ino_of (set_node st a v) = ino_of st" using i by (auto simp: ino_of_set fun_eq_iff)
  show ?thesis using t unfolding table_ok_def set_node_sel d e by blast
qed

lemma set_set_node [simp]: "set_node (set_node st a v) a w = set_node st a w"
  by (simp add: set_node_def)

lemma ino_of_fs [simp]: "ino_of (st\<lparr>fs := s\<rparr>) = ino_of st"
  by (simp add: ino_of_def get_node_def fun_eq_iff)

lemma table_ok_fs [simp]: "table_ok (st\<lparr>fs := s\<rparr>) = table_ok st"
  by (simp add: table_ok_def)

lemma table_ok_add:
  assumes t: "table_ok st" and a: "a \<notin> dom (nodes st)" and i: "ino (vn_sin v) \<notin> ino_of st ` dom (nodes st)"
  shows "table_ok (sfs_set_links (set_node st a v) a)"
proof -
  let ?st = "sfs_set_links (set_node st a v) a"
  have n: "nodes ?st = (nodes st)(a := Some v)" by (simp add: sfs_set_links_def Let_def)
  have il: "inode_list ?st = a # inode_list st" by (simp add: sfs_set_links_def Let_def)
  have hl: "hash_list ?st h = (if h = sin_hashfn (ino (vn_sin v)) then a # hash_list st h else hash_list st h)" for h
    by (simp add: sfs_set_links_def Let_def)
  have io: "ino_of ?st b = (if b = a then ino (vn_sin v) else ino_of st b)" for b
    using n by (simp add: ino_of_def get_node_def)
  have "inj_on (ino_of ?st) (insert a (dom (nodes st)))"
  proof (rule inj_onI)
    fix x y assume xy: "x \<in> insert a (dom (nodes st))" "y \<in> insert a (dom (nodes st))" "ino_of ?st x = ino_of ?st y"
    have ne: "ino_of st b \<noteq> ino (vn_sin v)" if "b \<in> dom (nodes st)" for b using i that by (metis imageI)
    have inj: "inj_on (ino_of st) (dom (nodes st))" using t by (simp add: table_ok_def)
    show "x = y" using xy ne inj_onD [OF inj] by (auto simp only: io split: if_splits)
  qed
  then show ?thesis using t a unfolding table_ok_def by (auto simp: n il hl io)
qed

lemma lookup_sfs_cases:
  assumes t: "table_ok st"
  shows "(\<exists>a v w. nodes st a = Some v \<and> ino (vn_sin v) = no \<and> lookup_sfs_nolock st no = (Some a, set_node st a w)
       \<and> ref_count w = ref_count v + 1 \<and> open_count w = open_count v \<and> din (vn_sin w) = din (vn_sin v)
       \<and> ino (vn_sin w) = no \<and> dirty (vn_sin w) = dirty (vn_sin v))
     \<or> no \<notin> ino_of st ` dom (nodes st) \<and> lookup_sfs_nolock st no = (None, st)"
proof (cases "List.find (\<lambda>a. ino (vn_sin (get_node st a)) = no) (hash_list st (sin_hashfn no))")
  case None
  have "no \<notin> ino_of st ` dom (nodes st)"
  proof
    assume "no \<in> ino_of st ` dom (nodes st)"
    then obtain a where a: "a \<in> dom (nodes st)" "ino_of st a = no" by auto
    then have "a \<in> set (hash_list st (sin_hashfn no))" using t by (simp add: table_ok_def)
    then show False using None a(2) by (auto simp: find_None_iff ino_of_def)
  qed
  with None show ?thesis by (simp add: lookup_sfs_nolock_def)
next
  case (Some a)
  then have "ino (vn_sin (get_node st a)) = no" "a \<in> set (hash_list st (sin_hashfn no))"
    by (auto simp: find_Some_iff)
  moreover from this obtain v where v: "nodes st a = Some v" using t by (auto simp: table_ok_def)
  ultimately have i: "ino (vn_sin v) = no" "get_node st a = v" by (simp_all add: get_node_def)
  let ?w = "if ref_count v + 1 = 1 then v\<lparr>ref_count := 1, vn_sin := (vn_sin v)\<lparr>reclaim_count := reclaim_count (vn_sin v) + 1\<rparr>\<rparr>
     else v\<lparr>ref_count := ref_count v + 1\<rparr>"
  have "lookup_sfs_nolock st no = (Some a, set_node st a ?w)"
    using Some i by (simp add: lookup_sfs_nolock_def inode_ref_inc_def Let_def)
  with v i show ?thesis
    by (intro disjI1 exI [of _ a] exI [of _ v] exI [of _ ?w]) auto
qed

lemma load_inode_cases:
  assumes t: "table_ok st" and l: "sfs_load_inode mem fresh st no = Some (Inr a, st')"
    and fr: "\<And>st a. fresh st = Some a \<Longrightarrow> nodes st a = None" and ok: "fs_ok (fs st)"
  shows "table_ok st' \<and> fs st' = fs st \<and> a \<in> dom (nodes st') \<and> ino_of st' a = no \<and> (\<forall>b. b \<noteq> a \<longrightarrow> nodes st' b = nodes st b)
     \<and> (if a \<in> dom (nodes st)
        then ino_of st a = no \<and> din (vn_sin (get_node st' a)) = din (vn_sin (get_node st a))
             \<and> ref_count (get_node st' a) = ref_count (get_node st a) + 1
        else no \<notin> ino_of st ` dom (nodes st) \<and> din (vn_sin (get_node st' a)) = mem_din (fblk (fs st) no)
             \<and> ref_count (get_node st' a) = 1)"
  using lookup_sfs_cases [OF t, of no]
proof (elim disjE exE conjE)
  fix b v w assume *: "nodes st b = Some v" "ino (vn_sin v) = no" "lookup_sfs_nolock st no = (Some b, set_node st b w)"
    "ref_count w = ref_count v + 1" "open_count w = open_count v" "din (vn_sin w) = din (vn_sin v)" "ino (vn_sin w) = no"
  then have "a = b" "st' = set_node st b w" using l by (auto simp: sfs_load_inode_def)
  moreover have "table_ok (set_node st b w)"
    by (rule table_ok_set [OF t]) (use * in \<open>auto simp: ino_of_def get_node_def\<close>)
  ultimately show ?thesis using * by (auto simp: ino_of_set ino_of_def get_node_def)
next
  assume n: "no \<notin> ino_of st ` dom (nodes st)" "lookup_sfs_nolock st no = (None, st)"
  obtain u where u: "sfs_block_inuse (fs st) no = Some u" "u" "mem"
    using l n(2) by (auto simp: sfs_load_inode_def bind_Some_iff split: if_splits)
  then have no: "no \<in> used (fs st)" using ok by (auto simp: inuse_spec split: if_splits)
  have rb: "sfs_rbuf (fs st) (\<lambda>_. 0) 0 DIN_SIZE no 0 = Some (Inr (), fs st, blit (\<lambda>_. 0) 0 (fblk (fs st) no) 0 64)"
    using rbuf_used [OF ok no, of 0 64] by (simp add: DIN_SIZE_def)
  have md: "mem_din (blit (\<lambda>_. 0) 0 (fblk (fs st) no) 0 64) = mem_din (fblk (fs st) no)"
  proof -
    have r: "rd k (blit (\<lambda>_. 0) 0 (fblk (fs st) no) 0 64) p = rd k (fblk (fs st) no) p" if "p + k \<le> 64" for k p
      by (rule rd_cong) (use that in \<open>simp add: blit_def\<close>)
    show ?thesis by (simp add: mem_din_def r SFS_NDIRECT_def)
  qed
  let ?d = "mem_din (fblk (fs st) no)"
  let ?sin = "\<lparr>din = ?d, ino = no, dirty = False, reclaim_count = 1\<rparr>"
  have st0: "st\<lparr>fs := fs st\<rparr> = st" by simp
  have a: "fresh st = Some a" "st' = sfs_set_links (set_node st a (inode_init ?sin)) a"
    using l u rb n(2) unfolding sfs_load_inode_def
    by (auto simp: md st0 sfs_create_inode_def bind_kassert_if sfs_get_ops_def Let_def split: option.splits if_splits)
  then have nd: "a \<notin> dom (nodes st)" using fr by auto
  have "table_ok st'" unfolding a(2)
    by (rule table_ok_add [OF t nd]) (use n(1) in \<open>simp add: inode_init_def\<close>)
  then show ?thesis using a nd n(1)
    by (auto simp: sfs_set_links_def Let_def ino_of_def get_node_def inode_init_def)
qed


lemma din_bounds:
  assumes ok: "fs_ok s" and m: "map_ok s sin"
  shows "length (direct (din sin)) = 12" "di_blocks (din sin) < 2 ^ 32" "k < 12 \<Longrightarrow> direct (din sin) ! k < 2 ^ 32"
    "indirect (din sin) < 2 ^ 32"
proof -
  show "length (direct (din sin)) = 12" "di_blocks (din sin) < 2 ^ 32" using m by (simp_all add: map_ok_def)
  show "indirect (din sin) < 2 ^ 32"
    using m used32 [OF ok used_less(2)] by (auto simp: map_ok_def)
  show "direct (din sin) ! k < 2 ^ 32" if k: "k < 12"
  proof (cases "k < di_blocks (din sin)")
    case True
    then show ?thesis using used32 [OF ok used_less(2) [OF entry_in(1) [OF m True]]] k by (simp add: entry_def)
  next
    case False
    then have "entry s (din sin) k = 0" using m k by (simp add: map_ok_def)
    then show ?thesis using k by (simp add: entry_def)
  qed
qed

lemma fsync_ok:
  assumes ok: "fs_ok s" and m: "map_ok s sin" and d: "dirty sin"
    and b: "di_size (din sin) < 2 ^ 32" "di_type (din sin) < 2 ^ 16" "di_nlinks (din sin) < 2 ^ 16"
  shows "\<exists>s'. sfs_fsync s sin = Some (Inr (), s', sin\<lparr>dirty := False\<rparr>) \<and> fs_ok s' \<and> used s' = used s
     \<and> keeps (- {ino sin}) s s' \<and> map_ok s' sin \<and> mem_din (fblk s' (ino sin)) = din sin"
proof -
  have i: "ino sin \<in> used s" "ino sin \<noteq> indirect (din sin)" using m by (auto simp: map_ok_def)
  let ?s = "put_blk s (ino sin) (blit (fblk s (ino sin)) 0 (din_mem (din sin)) 0 64)"
  have "sfs_fsync s sin = Some (Inr (), ?s, sin\<lparr>dirty := False\<rparr>)"
    using d wbuf_used [OF ok i(1), of 0 64] by (simp add: sfs_fsync_def DIN_SIZE_def)
  moreover have k: "keeps (- {ino sin}) s ?s" by (simp add: keeps_def)
  moreover have u: "used ?s = used s" by (simp add: used_def)
  moreover have "map_ok ?s sin"
    by (rule map_ok_cong(1) [OF m k]) (use i owned_used [OF m] u in simp_all)
  moreover have "mem_din (fblk ?s (ino sin)) = din sin"
    using din_bounds [OF ok m] b by (intro mem_din_mem) (simp_all add: blit_def)
  ultimately show ?thesis using ok by (intro exI [of _ ?s]) simp
qed

lemma load_inode_new:
  assumes t: "table_ok st" and ok: "fs_ok (fs st)" and no: "no \<notin> ino_of st ` dom (nodes st)" "no \<in> used (fs st)"
    and f: "fresh st = Some a" and d: "mem_din (fblk (fs st) no) = d"
      "di_type d = SFS_TYPE_DIR \<or> di_type d = SFS_TYPE_FILE" "di_nlinks d \<noteq> 0"
  shows "sfs_load_inode True fresh st no = Some (Inr a, sfs_set_links (set_node st a
     (inode_init \<lparr>din = d, ino = no, dirty = False, reclaim_count = 1\<rparr>)) a)"
proof -
  have "ino (vn_sin v) \<noteq> no" if "nodes st a = Some v" for a v
    using no(1) imageI [of a "dom (nodes st)" "ino_of st"] that by (auto simp: ino_of_def get_node_def)
  then have l: "lookup_sfs_nolock st no = (None, st)" using lookup_sfs_cases [OF t, of no] by blast
  have rb: "sfs_rbuf (fs st) (\<lambda>_. 0) 0 DIN_SIZE no 0 = Some (Inr (), fs st, blit (\<lambda>_. 0) 0 (fblk (fs st) no) 0 64)"
    using rbuf_used [OF ok no(2), of 0 64] by (simp add: DIN_SIZE_def)
  have r: "rd k (blit (\<lambda>_. 0) 0 (fblk (fs st) no) 0 64) p = rd k (fblk (fs st) no) p" if "p + k \<le> 64" for k p
    by (rule rd_cong) (use that in \<open>simp add: blit_def\<close>)
  have md: "mem_din (blit (\<lambda>_. 0) 0 (fblk (fs st) no) 0 64) = d"
    unfolding d(1) [symmetric] by (simp add: mem_din_def r SFS_NDIRECT_def)
  have st0: "st\<lparr>fs := fs st\<rparr> = st" by simp
  show ?thesis
    using l inuse_used [OF ok no(2)] rb md d(2,3) f
    by (auto simp: sfs_load_inode_def st0 sfs_create_inode_def sfs_get_ops_def Let_def)
qed

text \<open>The volume with an inode in block 3, and nothing loaded.\<close>

definition ex_mnt :: mnt where
  "ex_mnt = \<lparr>fs = put_blk ex_sfs 3 (din_mem (din ex_sin)), nodes = (\<lambda>_. None), inode_list = [], hash_list = (\<lambda>_. [])\<rparr>"

definition ex_fresh :: "mnt \<Rightarrow> nat option" where
  "ex_fresh st = (if nodes st 100 = None then Some 100 else None)"

lemma ex_mnt_ok: "table_ok ex_mnt" "fs_ok (fs ex_mnt)" "3 \<in> used (fs ex_mnt)"
  "mem_din (fblk (fs ex_mnt) 3) = din ex_sin"
proof -
  show "table_ok ex_mnt" by (simp add: table_ok_def ex_mnt_def dom_def)
  show "fs_ok (fs ex_mnt)" using ex_sfs_ok(1) by (simp add: ex_mnt_def)
  show "3 \<in> used (fs ex_mnt)" using ex_frees by (simp add: ex_mnt_def used_def) (simp add: ex_sfs_def ex_super_def)
  show "mem_din (fblk (fs ex_mnt) 3) = din ex_sin"
    using din_bounds [OF ex_sfs_ok(1) ex_sin_ok]
    by (intro mem_din_mem) (simp_all add: ex_mnt_def ex_sin_def SFS_TYPE_FILE_def)
qed

lemma ex_load: "\<exists>st. sfs_load_inode True ex_fresh ex_mnt 3 = Some (Inr 100, st)"
  using load_inode_new [OF ex_mnt_ok(1,2) _ ex_mnt_ok(3) _ ex_mnt_ok(4), of ex_fresh 100]
  by (simp add: ex_fresh_def ex_mnt_def ex_sin_def)

text \<open>
  C23. Loading an inode keeps exactly one copy of every inode in memory: the inode list, the hash
  lists and the nodes stay consistent, the node returned has the number asked for and one
  reference more (the first one when it was not loaded), no other node changes, and loading the
  same number again returns the same node, without memory or disk access.
\<close>

theorem sfs_load_inode_one_copy:
  assumes "table_ok st" "fs_ok (fs st)" "\<And>st a. fresh st = Some a \<Longrightarrow> nodes st a = None"
    and "sfs_load_inode mem fresh st no = Some (Inr a, st')"
  shows "table_ok st' \<and> fs st' = fs st \<and> ino_of st' a = no \<and> (\<forall>b. b \<noteq> a \<longrightarrow> nodes st' b = nodes st b)
     \<and> ref_count (get_node st' a) = (if a \<in> dom (nodes st) then ref_count (get_node st a) + 1 else 1)
     \<and> (\<forall>mem' fresh'. \<exists>st''. sfs_load_inode mem' fresh' st' no = Some (Inr a, st'')
          \<and> ref_count (get_node st'' a) = ref_count (get_node st' a) + 1)"
proof -
  note c = load_inode_cases [OF assms(1,4,3,2), rule_format]
  have t': "table_ok st'" and a: "a \<in> dom (nodes st')" "ino_of st' a = no" using c by auto
  have "\<exists>st''. sfs_load_inode mem' fresh' st' no = Some (Inr a, st'')
          \<and> ref_count (get_node st'' a) = ref_count (get_node st' a) + 1" for mem' fresh'
    using lookup_sfs_cases [OF t', of no]
  proof (elim disjE exE conjE)
    fix b v w assume *: "nodes st' b = Some v" "ino (vn_sin v) = no" "lookup_sfs_nolock st' no = (Some b, set_node st' b w)"
      "ref_count w = ref_count v + 1"
    have "ino_of st' b = no" using * by (simp add: ino_of_def get_node_def)
    then have "b = a" using t' a * unfolding table_ok_def inj_on_def by (metis domI)
    then show ?thesis using * by (simp add: sfs_load_inode_def get_node_def)
  next
    assume "no \<notin> ino_of st' ` dom (nodes st')"
    with a show ?thesis by auto
  qed
  then show ?thesis using c by (auto split: if_splits)
qed

theorem sfs_load_inode_one_copy_witness:
  "\<exists>st st'. sfs_load_inode True ex_fresh ex_mnt 3 = Some (Inr 100, st) \<and> table_ok st
     \<and> sfs_load_inode False ex_fresh st 3 = Some (Inr 100, st') \<and> ref_count (get_node st' 100) = 2"
proof -
  obtain st where st: "sfs_load_inode True ex_fresh ex_mnt 3 = Some (Inr 100, st)" using ex_load by blast
  have f: "nodes st a = None" if "ex_fresh st = Some a" for st a
    using that by (auto simp: ex_fresh_def split: if_splits)
  note p = sfs_load_inode_one_copy [OF ex_mnt_ok(1,2) f st]
  obtain st' where "sfs_load_inode False ex_fresh st 3 = Some (Inr 100, st')"
    "ref_count (get_node st' 100) = ref_count (get_node st 100) + 1"
    using p by blast
  moreover have "ref_count (get_node st 100) = 1" using p by (simp add: ex_mnt_def)
  ultimately show ?thesis using st p by auto
qed

text \<open>
  C24. Writing an inode back and loading it: \<open>sfs_fsync\<close> of a dirty inode succeeds, changes no
  other block, and after it any load of that inode into memory yields exactly the inode that was
  written, in a node that is not dirty.
\<close>

theorem sfs_fsync_load_roundtrip:
  assumes "fs_ok s" "map_ok s sin" "dirty sin" "di_size (din sin) < 2 ^ 32" "di_nlinks (din sin) < 2 ^ 16"
    and "di_nlinks (din sin) \<noteq> 0" "di_type (din sin) = SFS_TYPE_DIR \<or> di_type (din sin) = SFS_TYPE_FILE"
    and "table_ok st" "ino sin \<notin> ino_of st ` dom (nodes st)" "\<And>st. fresh st = Some a"
  shows "\<exists>s' st'. sfs_fsync s sin = Some (Inr (), s', sin\<lparr>dirty := False\<rparr>) \<and> fs_ok s' \<and> map_ok s' sin
     \<and> keeps (- {ino sin}) s s'
     \<and> sfs_load_inode True fresh (st\<lparr>fs := s'\<rparr>) (ino sin) = Some (Inr a, st')
     \<and> vn_sin (get_node st' a) = \<lparr>din = din sin, ino = ino sin, dirty = False, reclaim_count = 1\<rparr>"
proof -
  have t: "di_type (din sin) < 2 ^ 16" using assms(7) by (auto simp: SFS_TYPE_DIR_def SFS_TYPE_FILE_def)
  obtain s' where s': "sfs_fsync s sin = Some (Inr (), s', sin\<lparr>dirty := False\<rparr>)" "fs_ok s'" "used s' = used s"
    "keeps (- {ino sin}) s s'" "map_ok s' sin" "mem_din (fblk s' (ino sin)) = din sin"
    using fsync_ok [OF assms(1-4) t assms(5)] by blast
  have "ino sin \<in> used s'" using s'(5) by (simp add: map_ok_def)
  then have "sfs_load_inode True fresh (st\<lparr>fs := s'\<rparr>) (ino sin) = Some (Inr a, sfs_set_links (set_node (st\<lparr>fs := s'\<rparr>) a
     (inode_init \<lparr>din = din sin, ino = ino sin, dirty = False, reclaim_count = 1\<rparr>)) a)"
    using assms s' by (intro load_inode_new) simp_all
  moreover have "vn_sin (get_node (sfs_set_links (set_node (st\<lparr>fs := s'\<rparr>) a
     (inode_init \<lparr>din = din sin, ino = ino sin, dirty = False, reclaim_count = 1\<rparr>)) a) a)
     = \<lparr>din = din sin, ino = ino sin, dirty = False, reclaim_count = 1\<rparr>"
    by (simp add: sfs_set_links_def Let_def get_node_def inode_init_def)
  ultimately show ?thesis using s' by blast
qed

theorem sfs_fsync_load_roundtrip_witness:
  "\<exists>s' st'. sfs_fsync ex_sfs (ex_sin\<lparr>dirty := True\<rparr>) = Some (Inr (), s', ex_sin)
     \<and> sfs_load_inode True (\<lambda>_. Some 100) (ex_mnt\<lparr>fs := s'\<rparr>) 3 = Some (Inr 100, st')
     \<and> din (vn_sin (get_node st' 100)) = din ex_sin"
proof -
  have m: "map_ok ex_sfs (ex_sin\<lparr>dirty := True\<rparr>)" using ex_sin_ok by (simp add: map_ok_def)
  have "ex_sin\<lparr>dirty := True, dirty := False\<rparr> = ex_sin" "ino ex_sin = 3" by (simp_all add: ex_sin_def)
  moreover have "\<exists>s' st'. sfs_fsync ex_sfs (ex_sin\<lparr>dirty := True\<rparr>) = Some (Inr (), s', ex_sin\<lparr>dirty := True, dirty := False\<rparr>)
     \<and> fs_ok s' \<and> map_ok s' (ex_sin\<lparr>dirty := True\<rparr>) \<and> keeps (- {ino (ex_sin\<lparr>dirty := True\<rparr>)}) ex_sfs s'
     \<and> sfs_load_inode True (\<lambda>_. Some 100) (ex_mnt\<lparr>fs := s'\<rparr>) (ino (ex_sin\<lparr>dirty := True\<rparr>)) = Some (Inr 100, st')
     \<and> vn_sin (get_node st' 100) = \<lparr>din = din (ex_sin\<lparr>dirty := True\<rparr>), ino = ino (ex_sin\<lparr>dirty := True\<rparr>), dirty = False, reclaim_count = 1\<rparr>"
    by (rule sfs_fsync_load_roundtrip [OF ex_sfs_ok(1) m])
      (use ex_mnt_ok(1) in \<open>simp_all add: ex_sin_def SFS_TYPE_FILE_def SFS_TYPE_DIR_def ex_mnt_def\<close>)
  ultimately show ?thesis by auto
qed

end
