(* ===== verification/Vfs.thy ===== *)
theory Vfs
  imports Devs Sfs_Node
begin

text \<open>
  The VFS layer: the inode operations of both kinds of inode (\<open>kern/fs/vfs/inode.h\<close> and the tables
  \<open>dev_node_ops\<close>, \<open>sfs_node_dirops\<close>, \<open>sfs_node_fileops\<close>), the device list (\<open>vfsdev.c\<close>), the boot
  file system (\<open>vfs.c\<close>), path lookup (\<open>vfslookup.c\<close>), the current directory (\<open>vfspath.c\<close>) and
  opening (\<open>vfsfile.c\<close>).  An inode is a device's or one of a mounted volume, by address.  Calling
  an operation its table lacks fails the assertion in \<open>__vop_op\<close>: the result is \<open>None\<close>.
\<close>

datatype inode = Dnode nat | Snode nat nat

record dnode =
  dn_class :: dev_class
  dn_ref :: int
  dn_open :: int

record vfs_dev =
  devname :: "byte list"
  devnode :: "inode option"
  vd_fs :: "nat option"
  mountable :: bool

text \<open>
  \<open>disk\<close> is the disk's device while no file system is mounted on it; a mounted one carries it.
\<close>

record vfs =
  mnts :: "nat \<Rightarrow> mnt option"
  devs :: "nat \<Rightarrow> dnode option"
  vdev_list :: "vfs_dev list"
  bootfs_node :: "inode option"
  console :: tty
  disk :: device

text \<open>The outcomes of \<open>kmalloc\<close> and the address of a new inode, as in \<open>Sfs_Node\<close>.\<close>

record kalloc =
  k_mem :: bool
  k_inode :: "mnt \<Rightarrow> nat option"

definition FS_MAX_DNAME_LEN :: nat where "FS_MAX_DNAME_LEN = 31"
definition FS_MAX_FPATH_LEN :: nat where "FS_MAX_FPATH_LEN = 4095"

definition put_mnt :: "vfs \<Rightarrow> nat \<Rightarrow> mnt \<Rightarrow> vfs" where
  "put_mnt v k m = v\<lparr>mnts := (mnts v)(k := Some m)\<rparr>"

definition on_mnt :: "vfs \<Rightarrow> nat \<Rightarrow> (mnt \<Rightarrow> ('a \<times> mnt) option) \<Rightarrow> ('a \<times> vfs) option" where
  "on_mnt v k f = do { m \<leftarrow> mnts v k; (r, m) \<leftarrow> f m; Some (r, put_mnt v k m) }"

definition dev_fs :: "vfs \<Rightarrow> nat \<Rightarrow> nat option" where
  "dev_fs v k = (case List.find (\<lambda>d. devnode d = Some (Dnode k)) (vdev_list v) of
     None \<Rightarrow> None | Some d \<Rightarrow> vd_fs d)"

definition get_disk :: "vfs \<Rightarrow> nat \<Rightarrow> device" where
  "get_disk v k = (case Option.bind (dev_fs v k) (mnts v) of None \<Rightarrow> disk v | Some m \<Rightarrow> dev (fs m))"

definition set_disk :: "vfs \<Rightarrow> nat \<Rightarrow> device \<Rightarrow> vfs" where
  "set_disk v k d = (case Option.bind (dev_fs v k) (mnts v) of
     None \<Rightarrow> v\<lparr>disk := d\<rparr>
   | Some m \<Rightarrow> put_mnt v (the (dev_fs v k)) (m\<lparr>fs := (fs m)\<lparr>dev := d\<rparr>\<rparr>))"

section \<open>Reference and open counts\<close>

definition inode_counts :: "vfs \<Rightarrow> inode \<Rightarrow> (int \<times> int) option" where
  "inode_counts v n = (case n of
     Dnode k \<Rightarrow> map_option (\<lambda>d. (dn_ref d, dn_open d)) (devs v k)
   | Snode k a \<Rightarrow> (case mnts v k of None \<Rightarrow> None
       | Some m \<Rightarrow> map_option (\<lambda>x. (ref_count x, open_count x)) (nodes m a)))"

definition vop_check :: "vfs \<Rightarrow> inode \<Rightarrow> unit option" where
  "vop_check v n = do {
     (r, p) \<leftarrow> inode_counts v n;
     kassert (r \<ge> p \<and> p \<ge> 0);
     kassert (r < MAX_INODE_COUNT \<and> p < MAX_INODE_COUNT)
   }"

definition vop_ref_inc :: "vfs \<Rightarrow> inode \<Rightarrow> vfs" where
  "vop_ref_inc v n = (case n of
     Dnode k \<Rightarrow> v\<lparr>devs := (devs v)(k := map_option (\<lambda>d. d\<lparr>dn_ref := dn_ref d + 1\<rparr>) (devs v k))\<rparr>
   | Snode k a \<Rightarrow> put_mnt v k (snd (inode_ref_inc (the (mnts v k)) a)))"

definition vop_open_inc :: "vfs \<Rightarrow> inode \<Rightarrow> vfs" where
  "vop_open_inc v n = (case n of
     Dnode k \<Rightarrow> v\<lparr>devs := (devs v)(k := map_option (\<lambda>d. d\<lparr>dn_open := dn_open d + 1\<rparr>) (devs v k))\<rparr>
   | Snode k a \<Rightarrow> put_mnt v k (snd (inode_open_inc (the (mnts v k)) a)))"

text \<open>At zero a device inode would be reclaimed, and \<open>dev_node_ops\<close> has no \<open>vop_reclaim\<close>.\<close>

definition vop_ref_dec :: "vfs \<Rightarrow> inode \<Rightarrow> vfs option" where
  "vop_ref_dec v n = (case n of
     Dnode k \<Rightarrow> do {
       d \<leftarrow> devs v k;
       kassert (dn_ref d > 0);
       kassert (dn_ref d - 1 \<noteq> 0);
       Some (v\<lparr>devs := (devs v)(k := Some (d\<lparr>dn_ref := dn_ref d - 1\<rparr>))\<rparr>)
     }
   | Snode k a \<Rightarrow> do { (_, v) \<leftarrow> on_mnt v k (\<lambda>m. inode_ref_dec m a); Some v })"

definition vop_open_dec :: "vfs \<Rightarrow> inode \<Rightarrow> vfs option" where
  "vop_open_dec v n = (case n of
     Dnode k \<Rightarrow> do {
       d \<leftarrow> devs v k;
       kassert (dn_open d > 0);
       let v' = v\<lparr>devs := (devs v)(k := Some (d\<lparr>dn_open := dn_open d - 1\<rparr>))\<rparr>;
       if dn_open d - 1 = 0 then do { vop_check v' n; let _ = dev_close (dn_class d); Some v' }
       else Some v'
     }
   | Snode k a \<Rightarrow> do { (_, v) \<leftarrow> on_mnt v k (\<lambda>m. inode_open_dec m a); Some v })"

section \<open>Operations on an inode\<close>

definition node_type :: "vfs \<Rightarrow> nat \<Rightarrow> nat \<Rightarrow> nat" where
  "node_type v k a = di_type (din (vn_sin (get_node (the (mnts v k)) a)))"

definition vop_open :: "vfs \<Rightarrow> inode \<Rightarrow> nat \<Rightarrow> (errno + unit) option" where
  "vop_open v n open_flags = do {
     vop_check v n;
     (case n of
        Dnode k \<Rightarrow> do { d \<leftarrow> devs v k; Some (dev_open (dn_class d) open_flags) }
      | Snode k a \<Rightarrow>
          Some (if node_type v k a = SFS_TYPE_DIR then sfs_opendir open_flags else sfs_openfile open_flags))
   }"

text \<open>A transfer on a volume's inode and on a device.\<close>

definition node_io ::
  "(sfs_fs \<Rightarrow> sfs_inode \<Rightarrow> iobuf \<Rightarrow> ((errno + unit) \<times> sfs_fs \<times> sfs_inode \<times> iobuf) option)
    \<Rightarrow> vfs \<Rightarrow> nat \<Rightarrow> nat \<Rightarrow> iobuf \<Rightarrow> ((errno + nat) \<times> vfs \<times> iobuf) option" where
  "node_io f v k a iob = do {
     m \<leftarrow> mnts v k;
     x \<leftarrow> nodes m a;
     (ret, s, sin, iob) \<leftarrow> f (fs m) (vn_sin x) iob;
     Some (map_sum id (\<lambda>_. 0) ret, put_mnt v k (set_node (m\<lparr>fs := s\<rparr>) a (x\<lparr>vn_sin := sin\<rparr>)), iob)
   }"

definition dnode_io ::
  "(dev_class \<Rightarrow> tty \<Rightarrow> device \<Rightarrow> iobuf \<Rightarrow> ((errno + nat) \<times> tty \<times> device \<times> iobuf) option)
    \<Rightarrow> vfs \<Rightarrow> nat \<Rightarrow> iobuf \<Rightarrow> ((errno + nat) \<times> vfs \<times> iobuf) option" where
  "dnode_io f v k iob = do {
     d \<leftarrow> devs v k;
     (ret, t, dk, iob) \<leftarrow> f (dn_class d) (console v) (get_disk v k) iob;
     let v = v\<lparr>console := t\<rparr>;
     Some (ret, if dn_class d = Disk0 then set_disk v k dk else v, iob)
   }"

definition vop_read :: "vfs \<Rightarrow> inode \<Rightarrow> iobuf \<Rightarrow> ((errno + nat) \<times> vfs \<times> iobuf) option" where
  "vop_read v n iob = do {
     vop_check v n;
     (case n of
        Dnode k \<Rightarrow> dnode_io dev_read v k iob
      | Snode k a \<Rightarrow> do { kassert (node_type v k a \<noteq> SFS_TYPE_DIR); node_io sfs_read v k a iob })
   }"

definition vop_write :: "vfs \<Rightarrow> inode \<Rightarrow> iobuf \<Rightarrow> ((errno + nat) \<times> vfs \<times> iobuf) option" where
  "vop_write v n iob = do {
     vop_check v n;
     (case n of
        Dnode k \<Rightarrow> dnode_io dev_write v k iob
      | Snode k a \<Rightarrow> do { kassert (node_type v k a \<noteq> SFS_TYPE_DIR); node_io sfs_write v k a iob })
   }"

definition vop_fstat :: "vfs \<Rightarrow> inode \<Rightarrow> (errno + stat) option" where
  "vop_fstat v n = do {
     vop_check v n;
     (case n of
        Dnode k \<Rightarrow> do { d \<leftarrow> devs v k; Some (Inr (dev_fstat (dn_class d) (get_disk v k))) }
      | Snode k a \<Rightarrow> do { m \<leftarrow> mnts v k; x \<leftarrow> nodes m a; st \<leftarrow> sfs_fstat (vn_sin x); Some (Inr st) })
   }"

definition vop_gettype :: "vfs \<Rightarrow> inode \<Rightarrow> (errno + nat) option" where
  "vop_gettype v n = do {
     vop_check v n;
     (case n of
        Dnode k \<Rightarrow> do { d \<leftarrow> devs v k; Some (Inr (dev_gettype (dn_class d) (get_disk v k))) }
      | Snode k a \<Rightarrow> do { m \<leftarrow> mnts v k; x \<leftarrow> nodes m a; t \<leftarrow> sfs_gettype (vn_sin x); Some (Inr t) })
   }"

definition vop_fsync :: "vfs \<Rightarrow> inode \<Rightarrow> ((errno + unit) \<times> vfs) option" where
  "vop_fsync v n = (case n of
     Dnode k \<Rightarrow> None
   | Snode k a \<Rightarrow> on_mnt v k (\<lambda>m. sfs_vop_fsync m a))"

definition vop_truncate :: "vfs \<Rightarrow> inode \<Rightarrow> int \<Rightarrow> ((errno + unit) \<times> vfs) option" where
  "vop_truncate v n len = (case n of
     Dnode k \<Rightarrow> None
   | Snode k a \<Rightarrow> on_mnt v k (\<lambda>m. sfs_vop_truncate m a len))"

definition vop_tryseek :: "vfs \<Rightarrow> inode \<Rightarrow> int \<Rightarrow> ((errno + unit) \<times> vfs) option" where
  "vop_tryseek v n pos = do {
     vop_check v n;
     (case n of
        Dnode k \<Rightarrow> do { d \<leftarrow> devs v k; Some (dev_tryseek (dn_class d) (get_disk v k) pos, v) }
      | Snode k a \<Rightarrow> do {
          kassert (node_type v k a \<noteq> SFS_TYPE_DIR);
          on_mnt v k (\<lambda>m. on_node m a (\<lambda>s sin. sfs_tryseek s sin pos))
        })
   }"

definition vop_getdirentry :: "kalloc \<Rightarrow> vfs \<Rightarrow> inode \<Rightarrow> iobuf \<Rightarrow> ((errno + nat) \<times> vfs \<times> iobuf) option" where
  "vop_getdirentry al v n iob = do {
     vop_check v n;
     (case n of
        Dnode k \<Rightarrow> None
      | Snode k a \<Rightarrow> do {
          kassert (node_type v k a = SFS_TYPE_DIR);
          node_io (\<lambda>s sin iob. sfs_getdirentry (k_mem al) s sin iob) v k a iob
        })
   }"

definition vop_namefile :: "kalloc \<Rightarrow> vfs \<Rightarrow> inode \<Rightarrow> iobuf \<Rightarrow> ((errno + unit) \<times> vfs \<times> iobuf) option" where
  "vop_namefile al v n iob = do {
     vop_check v n;
     (case n of
        Dnode k \<Rightarrow> None
      | Snode k a \<Rightarrow> do {
          kassert (node_type v k a = SFS_TYPE_DIR);
          m \<leftarrow> mnts v k;
          (ret, m, iob) \<leftarrow> sfs_namefile (k_mem al) (k_inode al) m a iob;
          Some (ret, put_mnt v k m, iob)
        })
   }"

text \<open>\<open>dev_lookup\<close> finds the device itself under the empty name only.\<close>

definition vop_lookup :: "kalloc \<Rightarrow> vfs \<Rightarrow> inode \<Rightarrow> byte list \<Rightarrow> ((errno + inode) \<times> vfs) option" where
  "vop_lookup al v n path = do {
     vop_check v n;
     (case n of
        Dnode k \<Rightarrow> Some (if path \<noteq> [] then (Inl E_NOENT, v) else (Inr n, vop_ref_inc v n))
      | Snode k a \<Rightarrow> do {
          kassert (node_type v k a = SFS_TYPE_DIR);
          (ret, v) \<leftarrow> on_mnt v k (\<lambda>m. sfs_lookup (k_mem al) (k_inode al) m a path);
          Some (map_sum id (Snode k) ret, v)
        })
   }"

text \<open>No table has \<open>vop_create\<close>.\<close>

definition vop_create :: "vfs \<Rightarrow> inode \<Rightarrow> byte list \<Rightarrow> bool \<Rightarrow> ((errno + inode) \<times> vfs) option" where
  "vop_create v n name excl = None"

section \<open>The device list\<close>

definition fsop_get_root :: "kalloc \<Rightarrow> vfs \<Rightarrow> nat \<Rightarrow> (inode \<times> vfs) option" where
  "fsop_get_root al v k = do {
     (a, v) \<leftarrow> on_mnt v k (sfs_get_root (k_mem al) (k_inode al));
     Some (Snode k a, v)
   }"

definition vfs_get_root :: "kalloc \<Rightarrow> vfs \<Rightarrow> byte list \<Rightarrow> ((errno + inode) \<times> vfs) option" where
  "vfs_get_root al v name =
     (case List.find (\<lambda>d. name = devname d) (vdev_list v) of
        None \<Rightarrow> Some (Inl E_NO_DEV, v)
      | Some d \<Rightarrow>
          (case vd_fs d of
             Some k \<Rightarrow> do { (n, v) \<leftarrow> fsop_get_root al v k; Some (Inr n, v) }
           | None \<Rightarrow>
               if \<not> mountable d then do { n \<leftarrow> devnode d; Some (Inr n, vop_ref_inc v n) }
               else Some (Inl E_NA_DEV, v)))"

definition vfs_get_devname :: "vfs \<Rightarrow> nat \<Rightarrow> byte list option" where
  "vfs_get_devname v k = map_option devname (List.find (\<lambda>d. vd_fs d = Some k) (vdev_list v))"

definition check_devname_conflict :: "vfs \<Rightarrow> byte list \<Rightarrow> bool" where
  "check_devname_conflict v name \<longleftrightarrow> List.find (\<lambda>d. devname d = name) (vdev_list v) = None"

text \<open>\<open>mem_name\<close> and \<open>mem_vdev\<close>: the outcomes of \<open>strdup\<close> and \<open>kmalloc\<close>.\<close>

definition vfs_do_add ::
  "bool \<Rightarrow> bool \<Rightarrow> vfs \<Rightarrow> byte list \<Rightarrow> inode option \<Rightarrow> nat option \<Rightarrow> bool \<Rightarrow> ((errno + unit) \<times> vfs) option" where
  "vfs_do_add mem_name mem_vdev v name node k mountbl = do {
     kassert (case node of None \<Rightarrow> \<not> mountbl | Some (Dnode _) \<Rightarrow> True | Some (Snode _ _) \<Rightarrow> False);
     if length name > FS_MAX_DNAME_LEN then Some (Inl E_TOO_BIG, v)
     else if \<not> mem_name then Some (Inl E_NO_MEM, v)
     else if \<not> mem_vdev then Some (Inl E_NO_MEM, v)
     else if \<not> check_devname_conflict v name then Some (Inl E_EXISTS, v)
     else
       Some (Inr (), v\<lparr>vdev_list := \<lparr>devname = name, devnode = node, vd_fs = k, mountable = mountbl\<rparr> # vdev_list v\<rparr>)
   }"

definition vfs_add_fs :: "bool \<Rightarrow> bool \<Rightarrow> vfs \<Rightarrow> byte list \<Rightarrow> nat \<Rightarrow> ((errno + unit) \<times> vfs) option" where
  "vfs_add_fs mem_name mem_vdev v name k = vfs_do_add mem_name mem_vdev v name None (Some k) False"

definition vfs_add_dev :: "bool \<Rightarrow> bool \<Rightarrow> vfs \<Rightarrow> byte list \<Rightarrow> inode \<Rightarrow> bool \<Rightarrow> ((errno + unit) \<times> vfs) option" where
  "vfs_add_dev mem_name mem_vdev v name n mountbl = vfs_do_add mem_name mem_vdev v name (Some n) None mountbl"

text \<open>The position of the entry in the list.\<close>

fun find_entry :: "(vfs_dev \<Rightarrow> bool) \<Rightarrow> vfs_dev list \<Rightarrow> nat option" where
  "find_entry P [] = None"
| "find_entry P (d # ds) = (if P d then Some 0 else map_option Suc (find_entry P ds))"

definition find_mount :: "vfs \<Rightarrow> byte list \<Rightarrow> errno + nat" where
  "find_mount v name =
     (case find_entry (\<lambda>d. mountable d \<and> devname d = name) (vdev_list v) of
        None \<Rightarrow> Inl E_NO_DEV | Some i \<Rightarrow> Inr i)"

definition set_fs :: "vfs \<Rightarrow> nat \<Rightarrow> nat option \<Rightarrow> vfs" where
  "set_fs v i k = v\<lparr>vdev_list := (vdev_list v)[i := (vdev_list v ! i)\<lparr>vd_fs := k\<rparr>]\<rparr>"

text \<open>\<open>k\<close> is the address of the new \<open>struct fs\<close>; \<open>mountfunc\<close> delivers the volume on the device.\<close>

definition vfs_mount ::
  "vfs \<Rightarrow> byte list \<Rightarrow> nat \<Rightarrow> (device \<Rightarrow> ((errno + sfs_fs) \<times> device) option) \<Rightarrow> ((errno + unit) \<times> vfs) option" where
  "vfs_mount v name k mountfunc =
     (case find_mount v name of
        Inl e \<Rightarrow> Some (Inl e, v)
      | Inr i \<Rightarrow>
          if vd_fs (vdev_list v ! i) \<noteq> None then Some (Inl E_BUSY, v)
          else (case devnode (vdev_list v ! i) of
             Some (Dnode dn) \<Rightarrow> do {
               (ret, d) \<leftarrow> mountfunc (get_disk v dn);
               let v = set_disk v dn d;
               (case ret of
                  Inl e \<Rightarrow> Some (Inl e, v)
                | Inr s \<Rightarrow>
                    Some (Inr (), set_fs (put_mnt v k
                      \<lparr>fs = s, nodes = (\<lambda>_. None), inode_list = [], hash_list = (\<lambda>_. [])\<rparr>) i (Some k)))
             }
           | _ \<Rightarrow> None))"

definition sfs_mount ::
  "bool \<Rightarrow> bool \<Rightarrow> bool \<Rightarrow> bool \<Rightarrow> bool \<Rightarrow> vfs \<Rightarrow> byte list \<Rightarrow> nat \<Rightarrow> ((errno + unit) \<times> vfs) option" where
  "sfs_mount mem_fs mem_buf mem_hash mem1 mem2 v name k =
     vfs_mount v name k (sfs_do_mount mem_fs mem_buf mem_hash mem1 mem2)"

definition sfs_init :: "vfs \<Rightarrow> nat \<Rightarrow> vfs option" where
  "sfs_init v k = do {
     (ret, v) \<leftarrow> sfs_mount True True True True True v (List.map chr [100, 105, 115, 107, 48]) k;
     (case ret of Inl _ \<Rightarrow> None | Inr _ \<Rightarrow> Some v)
   }"

text \<open>A successful \<open>fsop_unmount\<close> frees the volume; the disk is left.\<close>

definition drop_fs :: "vfs \<Rightarrow> nat \<Rightarrow> nat \<Rightarrow> vfs" where
  "drop_fs v i k =
     (let v = v\<lparr>disk := dev (fs (the (mnts v k))), mnts := (mnts v)(k := None)\<rparr>
      in set_fs v i None)"

definition sync_unmount :: "vfs \<Rightarrow> nat \<Rightarrow> nat \<Rightarrow> ((errno + unit) \<times> vfs) option" where
  "sync_unmount v i k =
     seqE (on_mnt v k sfs_sync) (\<lambda>_ v. do {
       m \<leftarrow> mnts v k;
       ret \<leftarrow> sfs_unmount m;
       (case ret of
          Inl e \<Rightarrow> Some (Inl e, v)
        | Inr _ \<Rightarrow> Some (Inr (), drop_fs v i k))
     })"

definition vfs_unmount :: "vfs \<Rightarrow> byte list \<Rightarrow> ((errno + unit) \<times> vfs) option" where
  "vfs_unmount v name =
     (case find_mount v name of
        Inl e \<Rightarrow> Some (Inl e, v)
      | Inr i \<Rightarrow>
          (case vd_fs (vdev_list v ! i) of
             None \<Rightarrow> Some (Inl E_INVAL, v)
           | Some k \<Rightarrow> sync_unmount v i k))"

fun unmount_loop :: "vfs \<Rightarrow> nat list \<Rightarrow> vfs option" where
  "unmount_loop v [] = Some v"
| "unmount_loop v (i # is) =
     (case vd_fs (vdev_list v ! i) of
        Some k \<Rightarrow>
          if mountable (vdev_list v ! i) then do { (_, v) \<leftarrow> sync_unmount v i k; unmount_loop v is }
          else unmount_loop v is
      | None \<Rightarrow> unmount_loop v is)"

definition vfs_unmount_all :: "vfs \<Rightarrow> vfs option" where
  "vfs_unmount_all v = unmount_loop v [0 ..< length (vdev_list v)]"

fun vfs_cleanup_loop :: "vfs \<Rightarrow> vfs_dev list \<Rightarrow> vfs option" where
  "vfs_cleanup_loop v [] = Some v"
| "vfs_cleanup_loop v (d # ds) =
     (case vd_fs d of
        Some k \<Rightarrow> do {
          (_, v) \<leftarrow> on_mnt v k (\<lambda>m. do { m \<leftarrow> sfs_cleanup m; Some ((), m) });
          vfs_cleanup_loop v ds
        }
      | None \<Rightarrow> vfs_cleanup_loop v ds)"

definition vfs_cleanup :: "vfs \<Rightarrow> vfs option" where
  "vfs_cleanup v = vfs_cleanup_loop v (vdev_list v)"

section \<open>Current directory, boot file system and paths\<close>

definition vfs_get_curdir :: "vfs \<Rightarrow> inode option \<Rightarrow> (errno + inode) \<times> vfs" where
  "vfs_get_curdir v pwd = (case pwd of
     Some n \<Rightarrow> (Inr n, vop_ref_inc v n)
   | None \<Rightarrow> (Inl E_NOENT, v))"

definition vfs_get_bootfs :: "vfs \<Rightarrow> (errno + inode) \<times> vfs" where
  "vfs_get_bootfs v = (case bootfs_node v of
     Some n \<Rightarrow> (Inr n, vop_ref_inc v n)
   | None \<Rightarrow> (Inl E_NOENT, v))"

text \<open>The first colon before any slash, or the first slash before any colon; \<open>-1\<close> for none.\<close>

fun scan_path :: "byte list \<Rightarrow> int \<Rightarrow> int \<times> int" where
  "scan_path [] i = (-1, -1)"
| "scan_path (c # cs) i =
     (if c = 58 then (-1, i) else if c = 47 then (i, -1) else scan_path cs (i + 1))"

text \<open>
  The inode to start from and the rest of the path; then what the caller's string holds after the
  call, which a device name has been cut off from.
\<close>

definition get_device ::
  "kalloc \<Rightarrow> vfs \<Rightarrow> inode option \<Rightarrow> byte list \<Rightarrow> ((errno + byte list \<times> inode) \<times> byte list \<times> vfs) option" where
  "get_device al v pwd path =
     (let (slash, colon) = scan_path path 0 in
      if colon < 0 \<and> slash \<noteq> 0 then
        (let (ret, v) = vfs_get_curdir v pwd in Some (map_sum id (Pair path) ret, path, v))
      else if colon > 0 then do {
        let name = take (nat colon) path;
        let subpath = dropWhile (\<lambda>c. c = 47) (drop (nat colon + 1) path);
        (ret, v) \<leftarrow> vfs_get_root al v name;
        Some (map_sum id (Pair subpath) ret, name, v)
      }
      else do {
        let subpath = dropWhile (\<lambda>c. c = 47) (tl path);
        if hd path = 47 then
          (let (ret, v) = vfs_get_bootfs v in Some (map_sum id (Pair subpath) ret, path, v))
        else
          (case vfs_get_curdir v pwd of
             (Inl e, v) \<Rightarrow> Some (Inl e, path, v)
           | (Inr (Dnode k), v) \<Rightarrow> None
           | (Inr (Snode k a), v) \<Rightarrow> do {
               (root, v) \<leftarrow> fsop_get_root al v k;
               v \<leftarrow> vop_ref_dec v (Snode k a);
               Some (Inr (subpath, root), path, v)
             })
      })"

definition vfs_lookup ::
  "kalloc \<Rightarrow> vfs \<Rightarrow> inode option \<Rightarrow> byte list \<Rightarrow> ((errno + inode) \<times> byte list \<times> vfs) option" where
  "vfs_lookup al v pwd path = do {
     (ret, path', v) \<leftarrow> get_device al v pwd path;
     (case ret of
        Inl e \<Rightarrow> Some (Inl e, path', v)
      | Inr (subpath, n) \<Rightarrow>
          if subpath \<noteq> [] then do {
            (ret, v) \<leftarrow> vop_lookup al v n subpath;
            v \<leftarrow> vop_ref_dec v n;
            Some (ret, path', v)
          } else Some (Inr n, path', v))
   }"

definition vfs_lookup_parent ::
  "kalloc \<Rightarrow> vfs \<Rightarrow> inode option \<Rightarrow> byte list \<Rightarrow> ((errno + inode \<times> byte list) \<times> vfs) option" where
  "vfs_lookup_parent al v pwd path = do {
     (ret, _, v) \<leftarrow> get_device al v pwd path;
     Some (map_sum id (\<lambda>(subpath, n). (n, subpath)) ret, v)
   }"

definition vfs_set_curdir :: "vfs \<Rightarrow> inode option \<Rightarrow> inode option \<Rightarrow> ((errno + unit) \<times> inode option \<times> vfs) option" where
  "vfs_set_curdir v pwd dir =
     (if pwd = dir then Some (Inr (), pwd, v)
      else do {
        (ret, v) \<leftarrow> (case dir of
            None \<Rightarrow> Some (Inr (), v)
          | Some n \<Rightarrow> do {
              t \<leftarrow> vop_gettype v n;
              Some (case t of
                  Inl e \<Rightarrow> (Inl e, v)
                | Inr t \<Rightarrow> if t AND S_IFMT \<noteq> S_IFDIR then (Inl E_NOTDIR, v) else (Inr (), vop_ref_inc v n))
            });
        (case ret of
           Inl e \<Rightarrow> Some (Inl e, pwd, v)
         | Inr _ \<Rightarrow> do {
             v \<leftarrow> (case pwd of None \<Rightarrow> Some v | Some old \<Rightarrow> vop_ref_dec v old);
             Some (Inr (), dir, v)
           })
      })"

definition vfs_chdir :: "kalloc \<Rightarrow> vfs \<Rightarrow> inode option \<Rightarrow> byte list \<Rightarrow> ((errno + unit) \<times> inode option \<times> vfs) option" where
  "vfs_chdir al v pwd path = do {
     (ret, _, v) \<leftarrow> vfs_lookup al v pwd path;
     (case ret of
        Inl e \<Rightarrow> Some (Inl e, pwd, v)
      | Inr n \<Rightarrow> do {
          (ret, pwd, v) \<leftarrow> vfs_set_curdir v pwd (Some n);
          v \<leftarrow> vop_ref_dec v n;
          Some (ret, pwd, v)
        })
   }"

definition vfs_getcwd :: "kalloc \<Rightarrow> vfs \<Rightarrow> inode option \<Rightarrow> iobuf \<Rightarrow> ((errno + unit) \<times> vfs \<times> iobuf) option" where
  "vfs_getcwd al v pwd iob =
     (case vfs_get_curdir v pwd of
        (Inl e, v) \<Rightarrow> Some (Inl e, v, iob)
      | (Inr (Dnode k), v) \<Rightarrow> None
      | (Inr (Snode k a), v) \<Rightarrow> do {
          name \<leftarrow> vfs_get_devname v k;
          (ret, iob, _, _) \<leftarrow> iobuf_move iob (\<lambda>i. name ! i) 0 (length name) True;
          (ret, v, iob) \<leftarrow>
            (case ret of
               Inl e \<Rightarrow> Some (Inl e, v, iob)
             | Inr _ \<Rightarrow> do {
                 (ret, iob, _, _) \<leftarrow> iobuf_move iob (\<lambda>_. 58) 0 1 True;
                 (case ret of
                    Inl e \<Rightarrow> Some (Inl e, v, iob)
                  | Inr _ \<Rightarrow> vop_namefile al v (Snode k a) iob)
               });
          v \<leftarrow> vop_ref_dec v (Snode k a);
          Some (ret, v, iob)
        })"

definition change_bootfs :: "vfs \<Rightarrow> inode option \<Rightarrow> vfs option" where
  "change_bootfs v n =
     (let old = bootfs_node v; v = v\<lparr>bootfs_node := n\<rparr> in
      case old of None \<Rightarrow> Some v | Some o' \<Rightarrow> vop_ref_dec v o')"

text \<open>The name must hold a colon, at its end.\<close>

definition vfs_set_bootfs ::
  "kalloc \<Rightarrow> vfs \<Rightarrow> inode option \<Rightarrow> byte list option \<Rightarrow> ((errno + unit) \<times> inode option \<times> vfs) option" where
  "vfs_set_bootfs al v pwd fsname =
     (case fsname of
        None \<Rightarrow> do { v \<leftarrow> change_bootfs v None; Some (Inr (), pwd, v) }
      | Some name \<Rightarrow>
          if dropWhile (\<lambda>c. c \<noteq> 58) name \<noteq> [58] then Some (Inl E_INVAL, pwd, v)
          else do {
            (ret, pwd, v) \<leftarrow> vfs_chdir al v pwd name;
            (case ret of
               Inl e \<Rightarrow> Some (Inl e, pwd, v)
             | Inr _ \<Rightarrow>
                 (case vfs_get_curdir v pwd of
                    (Inl e, v) \<Rightarrow> Some (Inl e, pwd, v)
                  | (Inr n, v) \<Rightarrow> do { v \<leftarrow> change_bootfs v (Some n); Some (Inr (), pwd, v) }))
          })"

section \<open>Opening and closing\<close>

text \<open>After the lookup: the assertion on \<open>node\<close> holds, since the lookup delivered it.\<close>

definition open_node :: "vfs \<Rightarrow> inode \<Rightarrow> nat \<Rightarrow> ((errno + inode) \<times> vfs) option" where
  "open_node v n open_flags = do {
     ret \<leftarrow> vop_open v n open_flags;
     (case ret of
        Inl e \<Rightarrow> do { v \<leftarrow> vop_ref_dec v n; Some (Inl e, v) }
      | Inr _ \<Rightarrow> do {
          let v = vop_open_inc v n;
          if open_flags AND O_TRUNC \<noteq> 0 \<or> open_flags AND O_CREAT \<noteq> 0 then do {
            (ret, v) \<leftarrow> vop_truncate v n 0;
            (case ret of
               Inl e \<Rightarrow> do { v \<leftarrow> vop_open_dec v n; v \<leftarrow> vop_ref_dec v n; Some (Inl e, v) }
             | Inr _ \<Rightarrow> Some (Inr n, v))
          } else Some (Inr n, v)
        })
   }"

definition vfs_open ::
  "kalloc \<Rightarrow> vfs \<Rightarrow> inode option \<Rightarrow> byte list \<Rightarrow> nat \<Rightarrow> ((errno + inode) \<times> vfs) option" where
  "vfs_open al v pwd path open_flags =
     (let acc = open_flags AND O_ACCMODE; can_write = (acc = O_WRONLY \<or> acc = O_RDWR);
          excl = (open_flags AND O_EXCL \<noteq> 0); create = (open_flags AND O_CREAT \<noteq> 0) in
      if acc \<noteq> O_RDONLY \<and> \<not> can_write then Some (Inl E_INVAL, v)
      else if open_flags AND O_TRUNC \<noteq> 0 \<and> \<not> can_write then Some (Inl E_INVAL, v)
      else do {
        (ret, path, v) \<leftarrow> vfs_lookup al v pwd path;
        (case ret of
           Inl e \<Rightarrow>
             if e = E_NOENT \<and> create then do {
               (ret, v) \<leftarrow> vfs_lookup_parent al v pwd path;
               (case ret of
                  Inl e \<Rightarrow> Some (Inl e, v)
                | Inr (dir, name) \<Rightarrow> do {
                    (ret, v) \<leftarrow> vop_create v dir name excl;
                    (case ret of Inl _ \<Rightarrow> None | Inr n \<Rightarrow> open_node v n open_flags)
                  })
             } else Some (Inl e, v)
         | Inr n \<Rightarrow>
             if excl \<and> create then Some (Inl E_EXISTS, v)
             else open_node v n open_flags)
      })"

definition vfs_close :: "vfs \<Rightarrow> inode \<Rightarrow> vfs option" where
  "vfs_close v n = do { v \<leftarrow> vop_open_dec v n; vop_ref_dec v n }"

definition vfs_unlink :: "byte list \<Rightarrow> errno" where "vfs_unlink path = E_UNIMP"
definition vfs_rename :: "byte list \<Rightarrow> byte list \<Rightarrow> errno" where "vfs_rename old_path new_path = E_UNIMP"
definition vfs_link :: "byte list \<Rightarrow> byte list \<Rightarrow> errno" where "vfs_link old_path new_path = E_UNIMP"
definition vfs_symlink :: "byte list \<Rightarrow> byte list \<Rightarrow> errno" where "vfs_symlink old_path new_path = E_UNIMP"
definition vfs_readlink :: "byte list \<Rightarrow> errno" where "vfs_readlink path = E_UNIMP"
definition vfs_mkdir :: "byte list \<Rightarrow> errno" where "vfs_mkdir path = E_UNIMP"

section \<open>Initialisation\<close>

text \<open>\<open>k\<close> is the address of the new inode, \<open>None\<close> when there is no memory for it.\<close>

definition dev_create_inode :: "vfs \<Rightarrow> nat option \<Rightarrow> dev_class \<Rightarrow> (nat \<times> vfs) option" where
  "dev_create_inode v k c = do {
     k \<leftarrow> k;
     Some (k, v\<lparr>devs := (devs v)(k := Some \<lparr>dn_class = c, dn_ref = 1, dn_open = 0\<rparr>)\<rparr>)
   }"

definition add_or_panic :: "vfs \<Rightarrow> byte list \<Rightarrow> nat \<Rightarrow> bool \<Rightarrow> vfs option" where
  "add_or_panic v name k mountbl = do {
     (ret, v) \<leftarrow> vfs_add_dev True True v name (Dnode k) mountbl;
     (case ret of Inl _ \<Rightarrow> None | Inr _ \<Rightarrow> Some v)
   }"

definition dev_init_stdin :: "vfs \<Rightarrow> nat option \<Rightarrow> vfs option" where
  "dev_init_stdin v k = do {
     (k, v) \<leftarrow> dev_create_inode v k Stdin;
     let v = v\<lparr>console := (console v)\<lparr>p_rpos := 0, p_wpos := 0\<rparr>\<rparr>;
     add_or_panic v (List.map chr [115, 116, 100, 105, 110]) k False
   }"

definition dev_init_stdout :: "vfs \<Rightarrow> nat option \<Rightarrow> vfs option" where
  "dev_init_stdout v k = do {
     (k, v) \<leftarrow> dev_create_inode v k Stdout;
     add_or_panic v (List.map chr [115, 116, 100, 111, 117, 116]) k False
   }"

definition dev_init_disk0 :: "vfs \<Rightarrow> nat option \<Rightarrow> ide_device \<Rightarrow> vfs option" where
  "dev_init_disk0 v k ide = do {
     (k, v) \<leftarrow> dev_create_inode v k Disk0;
     d \<leftarrow> disk0_device_init (disk v) ide;
     add_or_panic (v\<lparr>disk := d\<rparr>) (List.map chr [100, 105, 115, 107, 48]) k True
   }"

definition dev_init :: "vfs \<Rightarrow> nat option \<Rightarrow> nat option \<Rightarrow> nat option \<Rightarrow> ide_device \<Rightarrow> vfs option" where
  "dev_init v k1 k2 k3 ide = do {
     v \<leftarrow> dev_init_stdin v k1;
     v \<leftarrow> dev_init_stdout v k2;
     dev_init_disk0 v k3 ide
   }"

definition vfs_init :: "vfs \<Rightarrow> vfs" where
  "vfs_init v = v\<lparr>vdev_list := []\<rparr>"

definition fs_init :: "vfs \<Rightarrow> nat option \<Rightarrow> nat option \<Rightarrow> nat option \<Rightarrow> ide_device \<Rightarrow> nat \<Rightarrow> vfs option" where
  "fs_init v k1 k2 k3 ide k = do {
     v \<leftarrow> dev_init (vfs_init v) k1 k2 k3 ide;
     sfs_init v k
   }"

end
