(* ===== verification/File.thy ===== *)
theory File
  imports Vfs
begin

text \<open>
  The open-files table of a process: \<open>kern/fs/file.h\<close>, \<open>file.c\<close>, and the tables' life in
  \<open>kern/fs/fs.c\<close>.  A pointer to an entry is its index in \<open>fd_array\<close>.  The routines work on the VFS
  state and on the table of the current process; the semaphore \<open>files_sem\<close> is not modelled, a
  routine runs as one step.  \<open>off_t\<close> is a signed 64-bit number.
\<close>

datatype fd_status = FD_NONE | FD_INIT | FD_OPENED | FD_CLOSED

record file_t =
  f_status :: fd_status
  f_readable :: bool
  f_writable :: bool
  f_fd :: int
  f_pos :: int
  f_node :: "inode option"
  f_open_count :: int

record files =
  pwd :: "inode option"
  fd_array :: "file_t list"
  files_count :: int

text \<open>\<open>sizeof(struct files_struct)\<close> is 48 and \<open>sizeof(struct file)\<close> is 56 (\<open>bool\<close> is \<open>long long\<close>).\<close>

definition FILES_STRUCT_BUFSIZE :: nat where "FILES_STRUCT_BUFSIZE = 4096 - 48"
definition FILES_STRUCT_NENTRY :: nat where "FILES_STRUCT_NENTRY = FILES_STRUCT_BUFSIZE div 56"
definition NO_FD :: int where "NO_FD = - 0x9527"
definition LSEEK_SET :: int where "LSEEK_SET = 0"
definition LSEEK_CUR :: int where "LSEEK_CUR = 1"
definition LSEEK_END :: int where "LSEEK_END = 2"

definition off_t :: "int \<Rightarrow> int" where "off_t x = signed_take_bit 63 x"

definition set_file :: "files \<Rightarrow> nat \<Rightarrow> file_t \<Rightarrow> files" where
  "set_file f i x = f\<lparr>fd_array := (fd_array f)[i := x]\<rparr>"

section \<open>The table\<close>

definition testfd :: "int \<Rightarrow> bool" where
  "testfd fd \<longleftrightarrow> fd \<ge> 0 \<and> fd < int FILES_STRUCT_NENTRY"

definition get_fd_array :: "files \<Rightarrow> file_t list option" where
  "get_fd_array f = do { kassert (files_count f > 0); Some (fd_array f) }"

text \<open>The fields that \<open>fd_array_init\<close> does not set keep what the memory held.\<close>

fun fd_array_init_from :: "nat \<Rightarrow> file_t list \<Rightarrow> file_t list" where
  "fd_array_init_from fd [] = []"
| "fd_array_init_from fd (x # xs) =
     x\<lparr>f_open_count := 0, f_status := FD_NONE, f_fd := int fd\<rparr> # fd_array_init_from (fd + 1) xs"

definition fd_array_init :: "file_t list \<Rightarrow> file_t list" where
  "fd_array_init arr = fd_array_init_from 0 arr"

fun first_none :: "file_t list \<Rightarrow> nat \<Rightarrow> nat option" where
  "first_none [] fd = None"
| "first_none (x # xs) fd = (if f_status x = FD_NONE then Some fd else first_none xs (fd + 1))"

definition fd_array_alloc :: "files \<Rightarrow> int \<Rightarrow> ((errno + nat) \<times> files) option" where
  "fd_array_alloc f fd = do {
     arr \<leftarrow> get_fd_array f;
     (case (if fd = NO_FD then
              (case first_none arr 0 of None \<Rightarrow> Inl E_MAX_OPEN | Some i \<Rightarrow> Inr i)
            else if testfd fd then
              (if f_status (arr ! nat fd) = FD_NONE then Inr (nat fd) else Inl E_BUSY)
            else Inl E_INVAL) of
        Inl e \<Rightarrow> Some (Inl e, f)
      | Inr i \<Rightarrow> do {
          kassert (f_open_count (arr ! i) = 0);
          Some (Inr i, set_file f i ((arr ! i)\<lparr>f_status := FD_INIT, f_node := None\<rparr>))
        })
   }"

definition fd_array_free :: "vfs \<Rightarrow> files \<Rightarrow> nat \<Rightarrow> (vfs \<times> files) option" where
  "fd_array_free v f i = do {
     let x = fd_array f ! i;
     kassert (f_status x = FD_INIT \<or> f_status x = FD_CLOSED);
     kassert (f_open_count x = 0);
     v \<leftarrow> (if f_status x = FD_CLOSED then do { n \<leftarrow> f_node x; vfs_close v n } else Some v);
     Some (v, set_file f i (x\<lparr>f_status := FD_NONE\<rparr>))
   }"

definition fd_array_acquire :: "files \<Rightarrow> nat \<Rightarrow> files option" where
  "fd_array_acquire f i = do {
     let x = fd_array f ! i;
     kassert (f_status x = FD_OPENED);
     Some (set_file f i (x\<lparr>f_open_count := f_open_count x + 1\<rparr>))
   }"

definition fd_array_release :: "vfs \<Rightarrow> files \<Rightarrow> nat \<Rightarrow> (vfs \<times> files) option" where
  "fd_array_release v f i = do {
     let x = fd_array f ! i;
     kassert (f_status x = FD_OPENED \<or> f_status x = FD_CLOSED);
     kassert (f_open_count x > 0);
     let f = set_file f i (x\<lparr>f_open_count := f_open_count x - 1\<rparr>);
     if f_open_count x - 1 = 0 then fd_array_free v f i else Some (v, f)
   }"

definition fd_array_open :: "files \<Rightarrow> nat \<Rightarrow> files option" where
  "fd_array_open f i = do {
     let x = fd_array f ! i;
     kassert (f_status x = FD_INIT \<and> f_node x \<noteq> None);
     Some (set_file f i (x\<lparr>f_status := FD_OPENED, f_open_count := f_open_count x + 1\<rparr>))
   }"

definition fd_array_close :: "vfs \<Rightarrow> files \<Rightarrow> nat \<Rightarrow> (vfs \<times> files) option" where
  "fd_array_close v f i = do {
     let x = fd_array f ! i;
     kassert (f_status x = FD_OPENED);
     kassert (f_open_count x > 0);
     let f = set_file f i (x\<lparr>f_status := FD_CLOSED, f_open_count := f_open_count x - 1\<rparr>);
     if f_open_count x - 1 = 0 then fd_array_free v f i else Some (v, f)
   }"

text \<open>The entry \<open>from\<close> is only read; it may be one of another table.\<close>

definition fd_array_dup :: "vfs \<Rightarrow> files \<Rightarrow> nat \<Rightarrow> file_t \<Rightarrow> (vfs \<times> files) option" where
  "fd_array_dup v f i frm = do {
     let x = fd_array f ! i;
     kassert (f_status x = FD_INIT \<and> f_status frm = FD_OPENED);
     n \<leftarrow> f_node frm;
     let v = vop_open_inc (vop_ref_inc v n) n;
     let f = set_file f i (x\<lparr>f_pos := f_pos frm, f_readable := f_readable frm,
       f_writable := f_writable frm, f_node := Some n\<rparr>);
     f \<leftarrow> fd_array_open f i;
     Some (v, f)
   }"

definition fd2file :: "files \<Rightarrow> int \<Rightarrow> (errno + nat) option" where
  "fd2file f fd =
     (if testfd fd then do {
        arr \<leftarrow> get_fd_array f;
        Some (if f_status (arr ! nat fd) = FD_OPENED \<and> f_fd (arr ! nat fd) = fd then Inr (nat fd) else Inl E_INVAL)
      } else Some (Inl E_INVAL))"

definition file_testfd :: "files \<Rightarrow> int \<Rightarrow> bool \<Rightarrow> bool \<Rightarrow> bool option" where
  "file_testfd f fd readable writable = do {
     ret \<leftarrow> fd2file f fd;
     Some (case ret of
         Inl _ \<Rightarrow> False
       | Inr i \<Rightarrow>
           if readable \<and> \<not> f_readable (fd_array f ! i) then False
           else if writable \<and> \<not> f_writable (fd_array f ! i) then False
           else True)
   }"

section \<open>Operations on open files\<close>

text \<open>After \<open>vfs_open\<close>.\<close>

definition file_open_node ::
  "vfs \<Rightarrow> files \<Rightarrow> nat \<Rightarrow> inode \<Rightarrow> nat \<Rightarrow> bool \<Rightarrow> bool \<Rightarrow> ((errno + int) \<times> vfs \<times> files) option" where
  "file_open_node v f i n open_flags readable writable = do {
     let x = (fd_array f ! i)\<lparr>f_pos := 0\<rparr>;
     ret \<leftarrow> (if open_flags AND O_APPEND \<noteq> 0 then
         do { st \<leftarrow> vop_fstat v n; Some (map_sum id (\<lambda>st. off_t (int (st_size st))) st) }
       else Some (Inr 0));
     (case ret of
        Inl e \<Rightarrow> do {
          v \<leftarrow> vfs_close v n;
          (v, f) \<leftarrow> fd_array_free v (set_file f i x) i;
          Some (Inl e, v, f)
        }
      | Inr p \<Rightarrow> do {
          let f = set_file f i (x\<lparr>f_pos := p, f_node := Some n, f_readable := readable, f_writable := writable\<rparr>);
          f \<leftarrow> fd_array_open f i;
          Some (Inr (f_fd (fd_array f ! i)), v, f)
        })
   }"

definition file_open :: "kalloc \<Rightarrow> vfs \<Rightarrow> files \<Rightarrow> byte list \<Rightarrow> nat \<Rightarrow> ((errno + int) \<times> vfs \<times> files) option" where
  "file_open al v f path open_flags =
     (let acc = open_flags AND O_ACCMODE in
      if acc \<noteq> O_RDONLY \<and> acc \<noteq> O_WRONLY \<and> acc \<noteq> O_RDWR then Some (Inl E_INVAL, v, f)
      else do {
        let readable = (acc = O_RDONLY \<or> acc = O_RDWR);
        let writable = (acc = O_WRONLY \<or> acc = O_RDWR);
        (ret, f) \<leftarrow> fd_array_alloc f NO_FD;
        (case ret of
           Inl e \<Rightarrow> Some (Inl e, v, f)
         | Inr i \<Rightarrow> do {
             (ret, v) \<leftarrow> vfs_open al v (pwd f) path open_flags;
             (case ret of
                Inl e \<Rightarrow> do { (v, f) \<leftarrow> fd_array_free v f i; Some (Inl e, v, f) }
              | Inr n \<Rightarrow> file_open_node v f i n open_flags readable writable)
           })
      })"

definition file_close :: "vfs \<Rightarrow> files \<Rightarrow> int \<Rightarrow> ((errno + unit) \<times> vfs \<times> files) option" where
  "file_close v f fd = do {
     ret \<leftarrow> fd2file f fd;
     (case ret of
        Inl e \<Rightarrow> Some (Inl e, v, f)
      | Inr i \<Rightarrow> do { (v, f) \<leftarrow> fd_array_close v f i; Some (Inr (), v, f) })
   }"

text \<open>The common middle of \<open>file_read\<close> and \<open>file_write\<close>; \<open>copied\<close> and the buffer are delivered too.\<close>

definition file_transfer ::
  "(vfs \<Rightarrow> inode \<Rightarrow> iobuf \<Rightarrow> ((errno + nat) \<times> vfs \<times> iobuf) option) \<Rightarrow> vfs \<Rightarrow> files \<Rightarrow> nat \<Rightarrow> mem \<Rightarrow> nat \<Rightarrow> nat
    \<Rightarrow> ((errno + nat) \<times> nat \<times> mem \<times> vfs \<times> files) option" where
  "file_transfer io v f i buf base len = do {
     f \<leftarrow> fd_array_acquire f i;
     n \<leftarrow> f_node (fd_array f ! i);
     (ret, v, iob) \<leftarrow> io v n (iobuf_init buf base len (f_pos (fd_array f ! i)));
     let copied = iobuf_used iob;
     let x = fd_array f ! i;
     let f = (if f_status x = FD_OPENED then set_file f i (x\<lparr>f_pos := off_t (f_pos x + int copied)\<rparr>) else f);
     (v, f) \<leftarrow> fd_array_release v f i;
     Some (ret, copied, io_obj iob, v, f)
   }"

definition file_read ::
  "vfs \<Rightarrow> files \<Rightarrow> int \<Rightarrow> mem \<Rightarrow> nat \<Rightarrow> nat \<Rightarrow> ((errno + nat) \<times> nat \<times> mem \<times> vfs \<times> files) option" where
  "file_read v f fd buf base len = do {
     ret \<leftarrow> fd2file f fd;
     (case ret of
        Inl e \<Rightarrow> Some (Inl e, 0, buf, v, f)
      | Inr i \<Rightarrow>
          if \<not> f_readable (fd_array f ! i) then Some (Inl E_INVAL, 0, buf, v, f)
          else file_transfer vop_read v f i buf base len)
   }"

definition file_write ::
  "vfs \<Rightarrow> files \<Rightarrow> int \<Rightarrow> mem \<Rightarrow> nat \<Rightarrow> nat \<Rightarrow> ((errno + nat) \<times> nat \<times> mem \<times> vfs \<times> files) option" where
  "file_write v f fd buf base len = do {
     ret \<leftarrow> fd2file f fd;
     (case ret of
        Inl e \<Rightarrow> Some (Inl e, 0, buf, v, f)
      | Inr i \<Rightarrow>
          if \<not> f_writable (fd_array f ! i) then Some (Inl E_INVAL, 0, buf, v, f)
          else file_transfer vop_write v f i buf base len)
   }"

text \<open>Where \<open>file_seek\<close> goes.\<close>

definition seek_target :: "vfs \<Rightarrow> file_t \<Rightarrow> inode \<Rightarrow> int \<Rightarrow> int \<Rightarrow> (errno + int) option" where
  "seek_target v x n p whence =
     (if whence = LSEEK_SET then Some (Inr p)
      else if whence = LSEEK_CUR then Some (Inr (off_t (p + f_pos x)))
      else if whence = LSEEK_END then
        do { st \<leftarrow> vop_fstat v n; Some (map_sum id (\<lambda>st. off_t (p + int (st_size st))) st) }
      else Some (Inl E_INVAL))"

definition file_seek :: "vfs \<Rightarrow> files \<Rightarrow> int \<Rightarrow> int \<Rightarrow> int \<Rightarrow> ((errno + unit) \<times> vfs \<times> files) option" where
  "file_seek v f fd p whence = do {
     ret \<leftarrow> fd2file f fd;
     (case ret of
        Inl e \<Rightarrow> Some (Inl e, v, f)
      | Inr i \<Rightarrow> do {
          f \<leftarrow> fd_array_acquire f i;
          let x = fd_array f ! i;
          n \<leftarrow> f_node x;
          t \<leftarrow> seek_target v x n p whence;
          (ret, v, f) \<leftarrow>
            (case t of
               Inl e \<Rightarrow> Some (Inl e, v, f)
             | Inr p \<Rightarrow> do {
                 (ret, v) \<leftarrow> vop_tryseek v n p;
                 Some (ret, v, (case ret of Inl _ \<Rightarrow> f | Inr _ \<Rightarrow> set_file f i (x\<lparr>f_pos := p\<rparr>)))
               });
          (v, f) \<leftarrow> fd_array_release v f i;
          Some (ret, v, f)
        })
   }"

definition file_fstat :: "vfs \<Rightarrow> files \<Rightarrow> int \<Rightarrow> ((errno + stat) \<times> vfs \<times> files) option" where
  "file_fstat v f fd = do {
     ret \<leftarrow> fd2file f fd;
     (case ret of
        Inl e \<Rightarrow> Some (Inl e, v, f)
      | Inr i \<Rightarrow> do {
          f \<leftarrow> fd_array_acquire f i;
          n \<leftarrow> f_node (fd_array f ! i);
          st \<leftarrow> vop_fstat v n;
          (v, f) \<leftarrow> fd_array_release v f i;
          Some (st, v, f)
        })
   }"

definition file_fsync :: "vfs \<Rightarrow> files \<Rightarrow> int \<Rightarrow> ((errno + unit) \<times> vfs \<times> files) option" where
  "file_fsync v f fd = do {
     ret \<leftarrow> fd2file f fd;
     (case ret of
        Inl e \<Rightarrow> Some (Inl e, v, f)
      | Inr i \<Rightarrow> do {
          f \<leftarrow> fd_array_acquire f i;
          n \<leftarrow> f_node (fd_array f ! i);
          (ret, v) \<leftarrow> vop_fsync v n;
          (v, f) \<leftarrow> fd_array_release v f i;
          Some (ret, v, f)
        })
   }"

record dirent =
  de_offset :: int
  de_buf :: mem

definition file_getdirentry ::
  "kalloc \<Rightarrow> vfs \<Rightarrow> files \<Rightarrow> int \<Rightarrow> dirent \<Rightarrow> ((errno + nat) \<times> dirent \<times> vfs \<times> files) option" where
  "file_getdirentry al v f fd d = do {
     ret \<leftarrow> fd2file f fd;
     (case ret of
        Inl e \<Rightarrow> Some (Inl e, d, v, f)
      | Inr i \<Rightarrow> do {
          f \<leftarrow> fd_array_acquire f i;
          n \<leftarrow> f_node (fd_array f ! i);
          (ret, v, iob) \<leftarrow> vop_getdirentry al v n (iobuf_init (de_buf d) 0 (SFS_MAX_FNAME_LEN + 1) (de_offset d));
          let d = d\<lparr>de_buf := io_obj iob\<rparr>;
          let d = (case ret of Inl _ \<Rightarrow> d | Inr _ \<Rightarrow> d\<lparr>de_offset := off_t (de_offset d + int (iobuf_used iob))\<rparr>);
          (v, f) \<leftarrow> fd_array_release v f i;
          Some (ret, d, v, f)
        })
   }"

definition file_dup :: "vfs \<Rightarrow> files \<Rightarrow> int \<Rightarrow> int \<Rightarrow> ((errno + int) \<times> vfs \<times> files) option" where
  "file_dup v f fd1 fd2 = do {
     ret \<leftarrow> fd2file f fd1;
     (case ret of
        Inl e \<Rightarrow> Some (Inl e, v, f)
      | Inr i1 \<Rightarrow> do {
          (ret, f) \<leftarrow> fd_array_alloc f fd2;
          (case ret of
             Inl e \<Rightarrow> Some (Inl e, v, f)
           | Inr i2 \<Rightarrow> do {
               (v, f) \<leftarrow> fd_array_dup v f i2 (fd_array f ! i1);
               Some (Inr (f_fd (fd_array f ! i2)), v, f)
             })
        })
   }"

section \<open>The life of a table\<close>

text \<open>\<open>arr\<close> is the memory behind the new structure, \<open>None\<close> when there is none.\<close>

definition files_create :: "file_t list option \<Rightarrow> files option" where
  "files_create arr = map_option (\<lambda>arr. \<lparr>pwd = None, fd_array = fd_array_init arr, files_count = 0\<rparr>) arr"

fun destroy_loop :: "vfs \<Rightarrow> files \<Rightarrow> nat list \<Rightarrow> (vfs \<times> files) option" where
  "destroy_loop v f [] = Some (v, f)"
| "destroy_loop v f (i # is) = do {
     (v, f) \<leftarrow> (if f_status (fd_array f ! i) = FD_OPENED then fd_array_close v f i else Some (v, f));
     kassert (f_status (fd_array f ! i) = FD_NONE);
     destroy_loop v f is
   }"

definition files_destroy :: "vfs \<Rightarrow> files \<Rightarrow> vfs option" where
  "files_destroy v f = do {
     kassert (files_count f = 0);
     v \<leftarrow> (case pwd f of None \<Rightarrow> Some v | Some n \<Rightarrow> vop_ref_dec v n);
     (v, f) \<leftarrow> destroy_loop v f [0 ..< FILES_STRUCT_NENTRY];
     Some v
   }"

fun closeall_loop :: "vfs \<Rightarrow> files \<Rightarrow> nat list \<Rightarrow> (vfs \<times> files) option" where
  "closeall_loop v f [] = Some (v, f)"
| "closeall_loop v f (i # is) = do {
     (v, f) \<leftarrow> (if f_status (fd_array f ! i) = FD_OPENED then fd_array_close v f i else Some (v, f));
     closeall_loop v f is
   }"

definition files_closeall :: "vfs \<Rightarrow> files \<Rightarrow> (vfs \<times> files) option" where
  "files_closeall v f = do {
     kassert (files_count f > 0);
     closeall_loop v f [2 ..< FILES_STRUCT_NENTRY]
   }"

fun dup_loop :: "vfs \<Rightarrow> files \<Rightarrow> files \<Rightarrow> nat list \<Rightarrow> (vfs \<times> files) option" where
  "dup_loop v to frm [] = Some (v, to)"
| "dup_loop v to frm (i # is) =
     (if f_status (fd_array frm ! i) = FD_OPENED then do {
        let to = set_file to i ((fd_array to ! i)\<lparr>f_status := FD_INIT\<rparr>);
        (v, to) \<leftarrow> fd_array_dup v to i (fd_array frm ! i);
        dup_loop v to frm is
      } else dup_loop v to frm is)"

definition dup_files :: "vfs \<Rightarrow> files \<Rightarrow> files \<Rightarrow> (vfs \<times> files) option" where
  "dup_files v to frm = do {
     kassert (files_count to = 0 \<and> files_count frm > 0);
     let to = to\<lparr>pwd := pwd frm\<rparr>;
     let v = (case pwd frm of None \<Rightarrow> v | Some n \<Rightarrow> vop_ref_inc v n);
     dup_loop v to frm [0 ..< FILES_STRUCT_NENTRY]
   }"

end
