(* ===== verification/Counts.thy ===== *)
theory Counts
  imports File
begin

text \<open>
  The reference and open counts of inodes: what every operation does to them.  The locale states
  the contract of a counted object; both pairs of VFS operations, \<open>vop_ref_inc\<close>/\<open>vop_ref_dec\<close> and
  \<open>vop_open_inc\<close>/\<open>vop_open_dec\<close>, are instances of it.
\<close>

lemma seqE_eq_Some:
  "seqE m f = Some y \<longleftrightarrow> (\<exists>e s. m = Some (Inl e, s) \<and> y = (Inl e, s)) \<or> (\<exists>a s. m = Some (Inr a, s) \<and> f a s = Some y)"
  by (auto simp: seqE_def split: option.splits sum.splits prod.splits)

lemma seqE_induct:
  assumes "seqE m f = Some (r, s')" "\<And>r s. m = Some (r, s) \<Longrightarrow> Q s" "\<And>a s. Q s \<Longrightarrow> f a s = Some (r, s') \<Longrightarrow> P s'"
    and "\<And>s. Q s \<Longrightarrow> P s"
  shows "P s'"
  using assms by (auto simp: seqE_eq_Some)

section \<open>Counts on a volume\<close>

definition node_counts :: "mnt \<Rightarrow> nat \<Rightarrow> (int \<times> int) option" where
  "node_counts m a = map_option (\<lambda>x. (ref_count x, open_count x)) (nodes m a)"

lemma node_counts_set [simp]: "node_counts (set_node m a x) = (node_counts m)(a := Some (ref_count x, open_count x))"
  by (auto simp: node_counts_def fun_eq_iff)

lemma node_counts_upd [simp]:
  "node_counts (m\<lparr>fs := s\<rparr>) = node_counts m" "node_counts (m\<lparr>inode_list := l\<rparr>) = node_counts m"
  "node_counts (m\<lparr>hash_list := h\<rparr>) = node_counts m" "node_counts (sfs_remove_links m a) = node_counts m"
  "node_counts (sfs_set_links m a) = node_counts m"
  by (simp_all add: node_counts_def fun_eq_iff sfs_remove_links_def sfs_set_links_def Let_def)

lemma node_counts_Some: "nodes m a = Some x \<Longrightarrow> node_counts m a = Some (ref_count x, open_count x)"
  by (simp add: node_counts_def)

lemma node_counts_None: "nodes m a = None \<longleftrightarrow> node_counts m a = None"
  by (simp add: node_counts_def)

text \<open>Transfers, \<open>fsync\<close> and \<open>truncate\<close> leave the counts and the hash lists alone.\<close>

definition quiet :: "mnt \<Rightarrow> mnt \<Rightarrow> bool" where
  "quiet m m' \<longleftrightarrow> node_counts m' = node_counts m \<and> hash_list m' = hash_list m"

lemma quiet_refl [simp]: "quiet m m" "quiet m (m\<lparr>fs := s\<rparr>)"
  by (simp_all add: quiet_def)

lemma quiet_trans: "quiet m m1 \<Longrightarrow> quiet m1 m2 \<Longrightarrow> quiet m m2"
  by (simp add: quiet_def)

lemma on_node_quiet: "on_node m a f = Some (r, m') \<Longrightarrow> quiet m m'"
  by (auto simp: on_node_def bind_Some_iff node_counts_def fun_eq_iff quiet_def)

lemma vop_quiet:
  "sfs_vop_fsync m a = Some (r, m') \<Longrightarrow> quiet m m'"
  "sfs_vop_truncate m a len = Some (r, m') \<Longrightarrow> quiet m m'"
  "sfs_vop_close m a = Some (r, m') \<Longrightarrow> quiet m m'"
  by (auto simp: sfs_vop_fsync_def sfs_vop_truncate_def sfs_vop_close_def sfs_close_def bind_Some_iff
      dest: on_node_quiet)

lemma free_blocks_quiet: "free_blocks m sin = Some m' \<Longrightarrow> quiet m m'"
  by (auto simp: free_blocks_def bind_Some_iff split: if_splits)

lemma inode_kill_counts:
  "inode_kill m a = Some m' \<Longrightarrow>
     node_counts m a = Some (0, 0) \<and> node_counts m' = (node_counts m)(a := None) \<and> hash_list m' = hash_list m"
  by (auto simp: inode_kill_def bind_Some_iff node_counts_def fun_eq_iff)

text \<open>Reclaiming keeps the counts or removes a node that has none.\<close>

definition gone :: "mnt \<Rightarrow> nat \<Rightarrow> mnt \<Rightarrow> bool" where
  "gone m a m' \<longleftrightarrow> node_counts m a = Some (0, 0) \<and> node_counts m' = (node_counts m)(a := None)
     \<and> hash_list m' = (\<lambda>h. remove1 a (hash_list m h))"

lemma sfs_reclaim_counts:
  assumes "sfs_reclaim m a = Some (r, m')"
  shows "quiet m m' \<or> gone m a m'"
proof -
  obtain x where x: "nodes m a = Some x" using assms by (auto simp: sfs_reclaim_def bind_Some_iff)
  define m1 where "m1 = set_node m a (x\<lparr>vn_sin := (vn_sin x)\<lparr>reclaim_count := reclaim_count (vn_sin x) - 1\<rparr>\<rparr>)"
  have m1: "quiet m m1" using x by (simp add: m1_def node_counts_def fun_eq_iff quiet_def)
  have t: "quiet m s" if "(if b then sfs_vop_truncate m1 a 0 else Some (Inr (), m1)) = Some (r', s)" for b r' s
    using that m1 by (auto split: if_splits dest: vop_quiet quiet_trans)
  have u: "quiet m s'" if "quiet m s" "(if b then sfs_vop_fsync s a else Some (Inr (), s)) = Some (r', s')" for b r' s s'
    using that by (auto split: if_splits dest: vop_quiet quiet_trans)
  have k: "gone m a s'" if "quiet m s" "free_blocks (sfs_remove_links s a) sin = Some s2" "inode_kill s2 a = Some s'" for s sin s2 s'
    using that(1) free_blocks_quiet [OF that(2)] inode_kill_counts [OF that(3)]
    by (auto simp: quiet_def gone_def) (simp add: sfs_remove_links_def)
  show ?thesis
  proof (cases "reclaim_count (vn_sin x) - 1 \<noteq> 0 \<or> ref_count x \<noteq> 0")
    case True
    then have "m' = m1" using assms x unfolding sfs_reclaim_def m1_def by (auto simp: Let_def bind_kassert_if split: if_splits)
    then show ?thesis using m1 by simp
  next
    case False
    then obtain b1 c where e: "seqE (if b1 then sfs_vop_truncate m1 a 0 else Some (Inr (), m1))
         (\<lambda>_ st. seqE (if dirty (vn_sin (get_node st a)) then sfs_vop_fsync st a else Some (Inr (), st)) (c a)) = Some (r, m')"
      and c: "\<And>st. c a () st = do {
               let st = sfs_remove_links st a;
               st \<leftarrow> free_blocks st (vn_sin (get_node st a));
               st \<leftarrow> inode_kill st a;
               Some (Inr (), st) }"
      using assms x unfolding sfs_reclaim_def m1_def by (auto simp: Let_def bind_kassert_if split: if_splits)
    show ?thesis
      using e
    proof (rule seqE_induct)
      fix r' s assume "(if b1 then sfs_vop_truncate m1 a 0 else Some (Inr (), m1)) = Some (r', s)"
      then show "quiet m s" by (rule t)
    next
      fix a' :: unit and s assume q: "quiet m s"
        "seqE (if dirty (vn_sin (get_node s a)) then sfs_vop_fsync s a else Some (Inr (), s)) (c a) = Some (r, m')"
      from q(2) show "quiet m m' \<or> gone m a m'"
      proof (rule seqE_induct)
        fix r' s' assume "(if dirty (vn_sin (get_node s a)) then sfs_vop_fsync s a else Some (Inr (), s)) = Some (r', s')"
        then show "quiet m s'" by (rule u [OF q(1)])
      next
        fix a' :: unit and s' assume "quiet m s'" "c a a' s' = Some (r, m')"
        then show "quiet m m' \<or> gone m a m'" by (auto simp: c Let_def bind_Some_iff intro: k)
      qed simp
    qed simp
  qed
qed

text \<open>The hash lists hold nodes that exist, each once.\<close>

definition links_ok :: "mnt \<Rightarrow> bool" where
  "links_ok m \<longleftrightarrow> (\<forall>h. distinct (hash_list m h) \<and> (\<forall>a \<in> set (hash_list m h). node_counts m a \<noteq> None))"

definition node_refs :: "mnt \<Rightarrow> nat \<Rightarrow> int" where
  "node_refs m a = (case node_counts m a of None \<Rightarrow> 0 | Some (r, p) \<Rightarrow> r)"

definition node_opens :: "mnt \<Rightarrow> nat \<Rightarrow> int" where
  "node_opens m a = (case node_counts m a of None \<Rightarrow> 0 | Some (r, p) \<Rightarrow> p)"

text \<open>How many references and opens of each node a step adds.\<close>

definition shifts :: "mnt \<Rightarrow> mnt \<Rightarrow> (nat \<Rightarrow> int) \<Rightarrow> (nat \<Rightarrow> int) \<Rightarrow> bool" where
  "shifts m m' dr dp \<longleftrightarrow> links_ok m'
     \<and> (\<forall>b. node_refs m' b = node_refs m b + dr b \<and> node_opens m' b = node_opens m b + dp b)"

definition one :: "'n \<Rightarrow> 'n \<Rightarrow> int" where "one a b = of_bool (b = a)"

lemma quiet_shifts: "links_ok m \<Longrightarrow> quiet m m' \<Longrightarrow> shifts m m' (\<lambda>_. 0) (\<lambda>_. 0)"
  by (simp add: quiet_def shifts_def links_ok_def node_refs_def node_opens_def)

lemma gone_shifts:
  assumes l: "links_ok m" and g: "gone m a m'"
  shows "shifts m m' (\<lambda>_. 0) (\<lambda>_. 0)"
proof -
  have c: "node_counts m' = (node_counts m)(a := None)" "hash_list m' h = remove1 a (hash_list m h)" for h
    using g by (simp_all add: gone_def)
  have "node_counts m' b \<noteq> None" if "b \<in> set (hash_list m' h)" for b h
  proof -
    have "b \<noteq> a \<and> b \<in> set (hash_list m h)" using that l by (simp add: c links_ok_def)
    then show ?thesis using l by (auto simp: c links_ok_def simp del: not_None_eq)
  qed
  moreover have "distinct (hash_list m' h)" for h using l by (simp add: links_ok_def c)
  ultimately have "links_ok m'" unfolding links_ok_def by blast
  then show ?thesis using g by (simp add: shifts_def node_refs_def node_opens_def c gone_def)
qed

lemma shifts_trans:
  "shifts m m1 d1 e1 \<Longrightarrow> shifts m1 m2 d2 e2 \<Longrightarrow> shifts m m2 (\<lambda>b. d1 b + d2 b) (\<lambda>b. e1 b + e2 b)"
  by (simp add: shifts_def)

lemma shifts_eq: "shifts m m' d e \<Longrightarrow> (\<And>b. d b = d' b) \<Longrightarrow> (\<And>b. e b = e' b) \<Longrightarrow> shifts m m' d' e'"
  by (simp add: shifts_def)

lemma shifts_links: "shifts m m' d e \<Longrightarrow> links_ok m'"
  by (simp add: shifts_def)

lemma shifts_upd:
  assumes "links_ok m" "node_counts m a = Some (r, p)" "node_counts m' = (node_counts m)(a := Some (r', p'))"
    "hash_list m' = hash_list m"
  shows "shifts m m' (\<lambda>b. (r' - r) * one a b) (\<lambda>b. (p' - p) * one a b)"
  using assms by (auto simp: shifts_def links_ok_def node_refs_def node_opens_def one_def)

lemma inode_inc_shifts:
  assumes "links_ok m" "node_counts m a \<noteq> None"
  shows "shifts m (snd (inode_ref_inc m a)) (one a) (\<lambda>_. 0)" "shifts m (snd (inode_open_inc m a)) (\<lambda>_. 0) (one a)"
proof -
  obtain x where x: "nodes m a = Some x" using assms by (auto simp: node_counts_def)
  note c = node_counts_Some [OF x]
  show "shifts m (snd (inode_ref_inc m a)) (one a) (\<lambda>_. 0)"
    by (rule shifts_eq [OF shifts_upd [OF assms(1) c, of _ "ref_count x + 1" "open_count x"]])
      (use x in \<open>simp_all add: inode_ref_inc_def Let_def get_node_def\<close>)
  show "shifts m (snd (inode_open_inc m a)) (\<lambda>_. 0) (one a)"
    by (rule shifts_eq [OF shifts_upd [OF assms(1) c, of _ "ref_count x" "open_count x + 1"]])
      (use x in \<open>simp_all add: inode_open_inc_def Let_def get_node_def\<close>)
qed

lemma inode_ref_dec_shifts:
  assumes "inode_ref_dec m a = Some (n, m')" "links_ok m"
  shows "shifts m m' (\<lambda>b. - one a b) (\<lambda>_. 0) \<and> node_refs m a > 0"
proof -
  obtain x where x: "nodes m a = Some x" "ref_count x > 0" using assms by (auto simp: inode_ref_dec_def bind_Some_iff)
  note cx = node_counts_Some [OF x(1)]
  define m1 where "m1 = set_node m a (x\<lparr>ref_count := ref_count x - 1\<rparr>)"
  have c: "node_counts m1 = (node_counts m)(a := Some (ref_count x - 1, open_count x))" "hash_list m1 = hash_list m"
    by (simp_all add: m1_def)
  have s1: "shifts m m1 (\<lambda>b. - one a b) (\<lambda>_. 0)"
    by (rule shifts_eq [OF shifts_upd [OF assms(2) cx c]]) simp_all
  have "m' = m1 \<or> (\<exists>r. sfs_reclaim m1 a = Some (r, m'))"
    using assms x unfolding inode_ref_dec_def by (auto simp: Let_def m1_def bind_Some_iff split: if_splits)
  then have "quiet m1 m' \<or> gone m1 a m'"
    using sfs_reclaim_counts by auto
  then have "shifts m1 m' (\<lambda>_. 0) (\<lambda>_. 0)"
    using quiet_shifts [OF shifts_links [OF s1]] gone_shifts [OF shifts_links [OF s1]] by blast
  from shifts_trans [OF s1 this] show ?thesis using x cx by (auto simp: node_refs_def)
qed

lemma inode_open_dec_shifts:
  assumes "inode_open_dec m a = Some (n, m')" "links_ok m"
  shows "shifts m m' (\<lambda>_. 0) (\<lambda>b. - one a b) \<and> node_opens m a > 0"
proof -
  obtain x where x: "nodes m a = Some x" "open_count x > 0" using assms by (auto simp: inode_open_dec_def bind_Some_iff)
  note cx = node_counts_Some [OF x(1)]
  define m1 where "m1 = set_node m a (x\<lparr>open_count := open_count x - 1\<rparr>)"
  have c: "node_counts m1 = (node_counts m)(a := Some (ref_count x, open_count x - 1))" "hash_list m1 = hash_list m"
    by (simp_all add: m1_def)
  have s1: "shifts m m1 (\<lambda>_. 0) (\<lambda>b. - one a b)"
    by (rule shifts_eq [OF shifts_upd [OF assms(2) cx c]]) simp_all
  have "m' = m1 \<or> (\<exists>r. sfs_vop_close m1 a = Some (r, m'))"
    using assms x unfolding inode_open_dec_def by (auto simp: Let_def m1_def bind_Some_iff split: if_splits)
  then have "quiet m1 m'" using vop_quiet(3) by auto
  from shifts_trans [OF s1 quiet_shifts [OF shifts_links [OF s1] this]]
  show ?thesis using x cx by (auto simp: node_opens_def)
qed

text \<open>A new node's address is unused.\<close>

definition fresh_ok :: "(mnt \<Rightarrow> nat option) \<Rightarrow> bool" where
  "fresh_ok fresh \<longleftrightarrow> (\<forall>m a. fresh m = Some a \<longrightarrow> nodes m a = None)"

lemma create_inode_counts:
  assumes "sfs_create_inode fresh m d no = Some (ret, m')"
  shows "hash_list m' = hash_list m \<and> (case ret of Inl e \<Rightarrow> m' = m
     | Inr a \<Rightarrow> fresh m = Some a \<and> node_counts m' = (node_counts m)(a := Some (1, 0)))"
  using assms by (auto simp: sfs_create_inode_def bind_Some_iff inode_init_def split: option.splits)

definition got :: "mnt \<Rightarrow> mnt \<Rightarrow> (errno + nat) \<Rightarrow> bool" where
  "got m m' ret \<longleftrightarrow> (case ret of Inl e \<Rightarrow> shifts m m' (\<lambda>_. 0) (\<lambda>_. 0)
     | Inr a \<Rightarrow> shifts m m' (one a) (\<lambda>_. 0) \<and> node_counts m' a \<noteq> None)"

lemma lookup_counts:
  assumes "lookup_sfs_nolock m no = (ret, m')" "links_ok m"
  shows "(case ret of None \<Rightarrow> m' = m | Some a \<Rightarrow> got m m' (Inr a))"
proof (cases "List.find (\<lambda>a. ino (vn_sin (get_node m a)) = no) (hash_list m (sin_hashfn no))")
  case None
  then show ?thesis using assms(1) by (simp add: lookup_sfs_nolock_def)
next
  case (Some a)
  then have "a \<in> set (hash_list m (sin_hashfn no))" by (auto simp: find_Some_iff)
  then have l: "node_counts m a \<noteq> None" using assms(2) unfolding links_ok_def by blast
  define m1 where "m1 = snd (inode_ref_inc m a)"
  have c: "shifts m m1 (one a) (\<lambda>_. 0)" unfolding m1_def by (rule inode_inc_shifts(1) [OF assms(2) l])
  have x: "nodes m1 a = Some (get_node m1 a)"
    by (simp add: m1_def inode_ref_inc_def Let_def)
  have "ret = Some a \<and> quiet m1 m'"
    using assms(1) Some x unfolding lookup_sfs_nolock_def
    by (auto simp: m1_def case_prod_unfold Let_def node_counts_def fun_eq_iff quiet_def split: if_splits)
  moreover from this have "shifts m m' (one a) (\<lambda>_. 0)"
    using shifts_trans [OF c quiet_shifts [OF shifts_links [OF c]]] by auto
  moreover have "node_counts m1 a \<noteq> None" using x by (simp add: node_counts_def)
  ultimately show ?thesis by (auto simp: got_def quiet_def)
qed

lemma load_inode_counts:
  assumes l: "sfs_load_inode mem fresh m no = Some (ret, m')" and f: "fresh_ok fresh" and h: "links_ok m"
  shows "got m m' ret"
proof (cases "lookup_sfs_nolock m no")
  case (Pair r m1)
  show ?thesis
  proof (cases r)
    case (Some a)
    then have "ret = Inr a" "m' = m1" using l Pair by (auto simp: sfs_load_inode_def)
    then show ?thesis using lookup_counts [OF Pair h] Some by simp
  next
    case None
    then have m1: "m1 = m" using lookup_counts [OF Pair h] by simp
    show ?thesis
    proof (cases mem)
      case False
      then have "ret = Inl E_NO_MEM" "m' = m" using l Pair None m1 by (auto simp: sfs_load_inode_def)
      then show ?thesis using quiet_shifts [OF h] by (simp add: got_def)
    next
      case True
      obtain e s buf where b: "sfs_rbuf (fs m) (\<lambda>_. 0) 0 DIN_SIZE no 0 = Some (e, s, buf)"
        using l Pair None True by (auto simp: sfs_load_inode_def m1 bind_Some_iff)
      let ?m = "m\<lparr>fs := s\<rparr>"
      have h': "links_ok ?m" using h by (simp add: links_ok_def)
      have s: "shifts m ?m (\<lambda>_. 0) (\<lambda>_. 0)" using quiet_shifts [OF h] by simp
      show ?thesis
      proof (cases e)
        case (Inl err)
        then have "ret = Inl err" "m' = ?m" using l Pair None True b m1 by (auto simp: sfs_load_inode_def bind_Some_iff)
        then show ?thesis using s by (simp add: got_def)
      next
        case (Inr u)
        obtain r2 m2 where create: "sfs_create_inode fresh ?m (mem_din buf) no = Some (r2, m2)"
          using l Pair None True b m1 Inr by (auto simp: sfs_load_inode_def bind_Some_iff Let_def)
        have r2: "sfs_create_inode fresh ?m (mem_din buf) no = Some (r2, m2)"
          "ret = r2" "m' = (case r2 of Inl e \<Rightarrow> m2 | Inr a \<Rightarrow> sfs_set_links m2 a)"
          using l Pair None True b m1 Inr create
          by (cases r2; auto simp: sfs_load_inode_def bind_Some_iff Let_def)+
        note c = create_inode_counts [OF r2(1)]
        show ?thesis
        proof (cases r2)
          case (Inl err)
          then show ?thesis using c r2 s by (simp add: got_def)
        next
          case (Inr a)
          then have a: "nodes m a = None" "node_counts m a = None"
            using c f unfolding fresh_ok_def node_counts_def by fastforce+
          have n: "node_counts m' = (node_counts m)(a := Some (1, 0))" using c Inr r2(3) by simp
          have "hash_list m' h = (if h = sin_hashfn (ino (vn_sin (get_node m2 a))) then a # hash_list m h else hash_list m h)" for h
            using c Inr r2(3) by (simp add: sfs_set_links_def Let_def)
          moreover have "a \<notin> set (hash_list m h')" for h'
            using h a(2) unfolding links_ok_def by blast
          ultimately have "links_ok m'" using h n by (auto simp: links_ok_def)
          then have "shifts m m' (one a) (\<lambda>_. 0)"
            using a n by (auto simp: shifts_def node_refs_def node_opens_def one_def)
          then show ?thesis using r2(2) Inr n by (simp add: got_def)
        qed
      qed
    qed
  qed
qed

lemma lookup_once_counts:
  assumes l: "sfs_lookup_once mem fresh m a name = Some (ret, m')" and f: "fresh_ok fresh" and h: "links_ok m"
  shows "got m m' ret"
proof -
  obtain r m1 where r: "on_node m a (\<lambda>s sin. do {
        (ret, _, s, sin) \<leftarrow> sfs_dirent_search_nolock mem s sin name;
        Some (ret, s, sin) }) = Some (r, m1)"
    using l unfolding sfs_lookup_once_def by (auto simp only: bind_Some_iff split: prod.splits)
  have s: "shifts m m1 (\<lambda>_. 0) (\<lambda>_. 0)" by (rule quiet_shifts [OF h on_node_quiet [OF r]])
  show ?thesis
  proof (cases r)
    case (Inl e)
    then have "ret = Inl e" "m' = m1" using l r by (auto simp: sfs_lookup_once_def)
    then show ?thesis using s by (simp add: got_def)
  next
    case (Inr p)
    then have "sfs_load_inode mem fresh m1 (fst p) = Some (ret, m')"
      using l r by (auto simp: sfs_lookup_once_def split: prod.splits)
    from load_inode_counts [OF this f shifts_links [OF s]]
    show ?thesis using shifts_trans [OF s] by (fastforce simp: got_def split: sum.splits)
  qed
qed

lemma sfs_lookup_counts:
  assumes l: "sfs_lookup mem fresh m a path = Some (ret, m')" and f: "fresh_ok fresh" and h: "links_ok m"
    and a: "node_counts m a \<noteq> None"
  shows "case ret of Inl e \<Rightarrow> shifts m m' (\<lambda>_. 0) (\<lambda>_. 0) | Inr b \<Rightarrow> shifts m m' (one b) (\<lambda>_. 0)"
proof -
  let ?m = "snd (inode_ref_inc m a)"
  have s1: "shifts m ?m (one a) (\<lambda>_. 0)" by (rule inode_inc_shifts(1) [OF h a])
  show ?thesis
  proof (cases "di_type (din (vn_sin (get_node ?m a))) = SFS_TYPE_DIR")
    case False
    then obtain n where n: "inode_ref_dec ?m a = Some (n, m')" "ret = Inl E_NOTDIR"
      using l by (auto simp: sfs_lookup_def bind_Some_iff case_prod_unfold Let_def)
    have "shifts ?m m' (\<lambda>b. - one a b) (\<lambda>_. 0)" using inode_ref_dec_shifts [OF n(1) shifts_links [OF s1]] by simp
    from shifts_trans [OF s1 this] show ?thesis using n(2) by simp
  next
    case True
    then obtain m1 n where m1: "sfs_lookup_once mem fresh ?m a path = Some (ret, m1)" "inode_ref_dec m1 a = Some (n, m')"
      using l by (auto simp: sfs_lookup_def bind_Some_iff case_prod_unfold Let_def)
    have g: "got ?m m1 ret" by (rule lookup_once_counts [OF m1(1) f shifts_links [OF s1]])
    then have "links_ok m1" by (auto simp: got_def shifts_def split: sum.splits)
    from inode_ref_dec_shifts [OF m1(2) this] g s1
    show ?thesis by (auto simp: got_def shifts_def split: sum.splits)
  qed
qed

section \<open>The contract of a counted object\<close>

text \<open>
  \<open>cnt\<close> counts the holders of an object; \<open>inc\<close> adds one to a live object, and \<open>dec\<close>, where it returns,
  removes one.  It returns whenever another holder is left.
\<close>

locale counted =
  fixes cnt :: "'s \<Rightarrow> 'n \<Rightarrow> int" and ok :: "'s \<Rightarrow> bool"
    and inc :: "'s \<Rightarrow> 'n \<Rightarrow> 's" and dec :: "'s \<Rightarrow> 'n \<Rightarrow> 's option"
  assumes inc_law: "ok s \<Longrightarrow> cnt s n > 0 \<Longrightarrow> ok (inc s n) \<and> cnt (inc s n) m = cnt s m + one n m"
    and dec_law: "ok s \<Longrightarrow> dec s n = Some s' \<Longrightarrow> ok s' \<and> cnt s' m = cnt s m - one n m \<and> cnt s n > 0"
    and dec_returns: "ok s \<Longrightarrow> cnt s n > 1 \<Longrightarrow> \<exists>s'. dec s n = Some s'"
begin

lemma inc_dec: "ok s \<Longrightarrow> cnt s n > 0 \<Longrightarrow> \<exists>s'. dec (inc s n) n = Some s' \<and> ok s' \<and> (\<forall>m. cnt s' m = cnt s m)"
proof -
  assume a: "ok s" "cnt s n > 0"
  then obtain s' where "dec (inc s n) n = Some s'"
    using dec_returns [of "inc s n" n] inc_law [of s n n] by (auto simp: one_def)
  then show ?thesis using dec_law [of "inc s n" n s'] inc_law [OF a] by auto
qed

text \<open>Replacing a holding of \<open>n'\<close> by one of \<open>n\<close>.\<close>

lemma swap:
  assumes "ok s" "cnt s n > 0" "dec (inc s n) n' = Some s'"
  shows "ok s' \<and> cnt s' m = cnt s m + one n m - one n' m"
  using inc_law [OF assms(1,2)] dec_law [OF _ assms(3)] by auto

end

section \<open>Counts in the VFS\<close>

definition refs :: "vfs \<Rightarrow> inode \<Rightarrow> int" where
  "refs v n = (case inode_counts v n of None \<Rightarrow> 0 | Some (r, p) \<Rightarrow> r)"

definition opens :: "vfs \<Rightarrow> inode \<Rightarrow> int" where
  "opens v n = (case inode_counts v n of None \<Rightarrow> 0 | Some (r, p) \<Rightarrow> p)"

lemma refs_simps [simp]:
  "refs v (Snode k a) = (case mnts v k of None \<Rightarrow> 0 | Some m \<Rightarrow> node_refs m a)"
  "opens v (Snode k a) = (case mnts v k of None \<Rightarrow> 0 | Some m \<Rightarrow> node_opens m a)"
  "refs v (Dnode k) = (case devs v k of None \<Rightarrow> 0 | Some d \<Rightarrow> dn_ref d)"
  "opens v (Dnode k) = (case devs v k of None \<Rightarrow> 0 | Some d \<Rightarrow> dn_open d)"
  by (auto simp: refs_def opens_def inode_counts_def node_refs_def node_opens_def node_counts_def split: option.splits)

lemma counts_pos: "refs v n > 0 \<Longrightarrow> inode_counts v n \<noteq> None"
  by (cases "inode_counts v n") (auto simp: refs_def)

text \<open>The links of every volume are sound, and the devices in the list have their inodes.\<close>

definition vfs_ok :: "vfs \<Rightarrow> bool" where
  "vfs_ok v \<longleftrightarrow> (\<forall>k m. mnts v k = Some m \<longrightarrow> links_ok m)
     \<and> (\<forall>d \<in> set (vdev_list v). \<forall>n. devnode d = Some n \<longrightarrow> (case n of Dnode k \<Rightarrow> devs v k \<noteq> None | Snode _ _ \<Rightarrow> False))"

text \<open>A step of the VFS: what it adds to the counts, and that the devices and the boot node stay.\<close>

definition vshifts :: "vfs \<Rightarrow> vfs \<Rightarrow> (inode \<Rightarrow> int) \<Rightarrow> (inode \<Rightarrow> int) \<Rightarrow> bool" where
  "vshifts v v' dr dp \<longleftrightarrow> vfs_ok v' \<and> bootfs_node v' = bootfs_node v
     \<and> (\<forall>n. refs v' n = refs v n + dr n \<and> opens v' n = opens v n + dp n)"

abbreviation vquiet :: "vfs \<Rightarrow> vfs \<Rightarrow> bool" where
  "vquiet v v' \<equiv> vshifts v v' (\<lambda>_. 0) (\<lambda>_. 0)"

lemma vshifts_ok: "vshifts v v' d e \<Longrightarrow> vfs_ok v'"
  by (simp add: vshifts_def)

lemma vshifts_trans:
  "vshifts v v1 d1 e1 \<Longrightarrow> vshifts v1 v2 d2 e2 \<Longrightarrow> vshifts v v2 (\<lambda>b. d1 b + d2 b) (\<lambda>b. e1 b + e2 b)"
  by (simp add: vshifts_def)

lemma vquiet_refl: "vfs_ok v \<Longrightarrow> vquiet v v"
  by (simp add: vshifts_def)

definition lift :: "nat \<Rightarrow> (nat \<Rightarrow> int) \<Rightarrow> inode \<Rightarrow> int" where
  "lift k d n = (case n of Dnode _ \<Rightarrow> 0 | Snode k' a \<Rightarrow> if k' = k then d a else 0)"

lemma lift_simps [simp]:
  "lift k (\<lambda>_. 0) = (\<lambda>_. 0)" "lift k (one a) = one (Snode k a)" "lift k (\<lambda>b. - one a b) = (\<lambda>n. - one (Snode k a) n)"
  by (auto simp: lift_def fun_eq_iff one_def split: inode.splits)

lemma put_mnt_shifts:
  assumes ok: "vfs_ok v" and m: "mnts v k = Some m" and s: "shifts m m' dr dp"
  shows "vshifts v (put_mnt v k m') (lift k dr) (lift k dp)"
proof -
  have "refs (put_mnt v k m') n = refs v n + lift k dr n \<and> opens (put_mnt v k m') n = opens v n + lift k dp n" for n
    using m s by (cases n) (auto simp: put_mnt_def lift_def shifts_def)
  moreover have "vfs_ok (put_mnt v k m')"
    using ok s by (auto simp: vfs_ok_def put_mnt_def shifts_def cong: inode.case_cong)
  ultimately show ?thesis by (simp add: vshifts_def put_mnt_def)
qed

lemma on_mnt_shifts:
  assumes "on_mnt v k f = Some (r, v')" "vfs_ok v"
    and "\<And>m m'. f m = Some (r, m') \<Longrightarrow> links_ok m \<Longrightarrow> mnts v k = Some m \<Longrightarrow> shifts m m' dr dp"
  shows "vshifts v v' (lift k dr) (lift k dp)"
  using assms put_mnt_shifts by (fastforce simp: on_mnt_def bind_Some_iff vfs_ok_def)

lemma set_dev_shifts:
  assumes ok: "vfs_ok v" and d: "devs v k = Some d"
    and r: "dn_ref d' = dn_ref d + r" "dn_open d' = dn_open d + p"
  shows "vshifts v (v\<lparr>devs := (devs v)(k := Some d')\<rparr>) (\<lambda>n. r * one (Dnode k) n) (\<lambda>n. p * one (Dnode k) n)"
    (is "vshifts v ?v _ _")
proof -
  have "refs ?v n = refs v n + r * one (Dnode k) n \<and> opens ?v n = opens v n + p * one (Dnode k) n" for n
    using d r by (cases n) (auto simp: one_def)
  moreover have "vfs_ok ?v" using ok unfolding vfs_ok_def by (fastforce split: inode.splits)
  ultimately show ?thesis by (simp add: vshifts_def)
qed

lemma vop_inc_shifts:
  assumes ok: "vfs_ok v" and n: "inode_counts v n \<noteq> None"
  shows "vshifts v (vop_ref_inc v n) (one n) (\<lambda>_. 0)" "vshifts v (vop_open_inc v n) (\<lambda>_. 0) (one n)"
proof -
  consider (D) k d where "n = Dnode k" "devs v k = Some d"
    | (S) k a m where "n = Snode k a" "mnts v k = Some m" "node_counts m a \<noteq> None"
    using n by (cases n) (auto simp: inode_counts_def node_counts_def split: option.splits)
  then have "vshifts v (vop_ref_inc v n) (one n) (\<lambda>_. 0) \<and> vshifts v (vop_open_inc v n) (\<lambda>_. 0) (one n)"
  proof cases
    case D
    then show ?thesis
      using set_dev_shifts [OF ok D(2), of "d\<lparr>dn_ref := dn_ref d + 1\<rparr>" 1 0]
        set_dev_shifts [OF ok D(2), of "d\<lparr>dn_open := dn_open d + 1\<rparr>" 0 1]
      by (simp add: vop_ref_inc_def vop_open_inc_def)
  next
    case S
    then have "links_ok m" using ok by (auto simp: vfs_ok_def)
    then show ?thesis
      using put_mnt_shifts [OF ok S(2) inode_inc_shifts(1), of a] put_mnt_shifts [OF ok S(2) inode_inc_shifts(2), of a] S
      by (simp add: vop_ref_inc_def vop_open_inc_def)
  qed
  then show "vshifts v (vop_ref_inc v n) (one n) (\<lambda>_. 0)" "vshifts v (vop_open_inc v n) (\<lambda>_. 0) (one n)" by auto
qed

lemma vop_ref_dec_shifts:
  assumes d: "vop_ref_dec v n = Some v'" and ok: "vfs_ok v"
  shows "vshifts v v' (\<lambda>b. - one n b) (\<lambda>_. 0)" "refs v n > 0"
proof -
  have "vshifts v v' (\<lambda>b. - one n b) (\<lambda>_. 0) \<and> refs v n > 0"
  proof (cases n)
    case (Dnode k)
    then obtain x where x: "devs v k = Some x" "dn_ref x > 0" "v' = v\<lparr>devs := (devs v)(k := Some (x\<lparr>dn_ref := dn_ref x - 1\<rparr>))\<rparr>"
      using d by (auto simp: vop_ref_dec_def bind_Some_iff)
    then show ?thesis using Dnode set_dev_shifts [OF ok x(1), of "x\<lparr>dn_ref := dn_ref x - 1\<rparr>" "-1" 0] by simp
  next
    case (Snode k a)
    then obtain m r m' where m: "mnts v k = Some m" "inode_ref_dec m a = Some (r, m')" "v' = put_mnt v k m'"
      using d by (auto simp: vop_ref_dec_def on_mnt_def bind_Some_iff)
    then have "links_ok m" using ok by (auto simp: vfs_ok_def)
    from inode_ref_dec_shifts [OF m(2) this] put_mnt_shifts [OF ok m(1)] m
    show ?thesis using Snode by fastforce
  qed
  then show "vshifts v v' (\<lambda>b. - one n b) (\<lambda>_. 0)" "refs v n > 0" by auto
qed

lemma vop_open_dec_shifts:
  assumes d: "vop_open_dec v n = Some v'" and ok: "vfs_ok v"
  shows "vshifts v v' (\<lambda>_. 0) (\<lambda>b. - one n b)" "opens v n > 0"
proof -
  have "vshifts v v' (\<lambda>_. 0) (\<lambda>b. - one n b) \<and> opens v n > 0"
  proof (cases n)
    case (Dnode k)
    then obtain x where x: "devs v k = Some x" "dn_open x > 0" "v' = v\<lparr>devs := (devs v)(k := Some (x\<lparr>dn_open := dn_open x - 1\<rparr>))\<rparr>"
      using d by (auto simp: vop_open_dec_def bind_Some_iff Let_def split: if_splits)
    then show ?thesis using Dnode set_dev_shifts [OF ok x(1), of "x\<lparr>dn_open := dn_open x - 1\<rparr>" 0 "-1"] by simp
  next
    case (Snode k a)
    then obtain m r m' where m: "mnts v k = Some m" "inode_open_dec m a = Some (r, m')" "v' = put_mnt v k m'"
      using d by (auto simp: vop_open_dec_def on_mnt_def bind_Some_iff)
    then have "links_ok m" using ok by (auto simp: vfs_ok_def)
    from inode_open_dec_shifts [OF m(2) this] put_mnt_shifts [OF ok m(1)] m
    show ?thesis using Snode by fastforce
  qed
  then show "vshifts v v' (\<lambda>_. 0) (\<lambda>b. - one n b)" "opens v n > 0" by auto
qed

text \<open>Operations that leave the counts alone.\<close>

lemma on_mnt_quiet:
  assumes "on_mnt v k f = Some (r, v')" "vfs_ok v" "\<And>m m'. f m = Some (r, m') \<Longrightarrow> quiet m m'"
  shows "vquiet v v'"
  using on_mnt_shifts [OF assms(1,2), of "\<lambda>_. 0" "\<lambda>_. 0"] quiet_shifts assms(3) by simp

lemma put_mnt_quiet: "vfs_ok v \<Longrightarrow> mnts v k = Some m \<Longrightarrow> quiet m m' \<Longrightarrow> vquiet v (put_mnt v k m')"
  using put_mnt_shifts [of v k m m' "\<lambda>_. 0" "\<lambda>_. 0"] quiet_shifts by (auto simp: vfs_ok_def)

lemma node_io_quiet:
  assumes "node_io f v k a iob = Some (r, v', iob')" "vfs_ok v"
  shows "vquiet v v'"
proof -
  obtain m x s sin where m: "mnts v k = Some m" "nodes m a = Some x"
    "v' = put_mnt v k (set_node (m\<lparr>fs := s\<rparr>) a (x\<lparr>vn_sin := sin\<rparr>))"
    using assms(1) by (auto simp: node_io_def bind_Some_iff)
  have "quiet m (set_node (m\<lparr>fs := s\<rparr>) a (x\<lparr>vn_sin := sin\<rparr>))"
    using node_counts_Some [OF m(2)] by (simp add: quiet_def fun_eq_iff)
  with m show ?thesis using put_mnt_quiet [OF assms(2)] by simp
qed

lemma vquiet_fields:
  assumes "vfs_ok v"
  shows "vquiet v (v\<lparr>console := t\<rparr>)" "vquiet v (v\<lparr>disk := d\<rparr>)"
proof -
  have c: "inode_counts (v\<lparr>console := t\<rparr>) = inode_counts v" "inode_counts (v\<lparr>disk := d\<rparr>) = inode_counts v"
    by (simp_all add: inode_counts_def fun_eq_iff cong: inode.case_cong)
  show "vquiet v (v\<lparr>console := t\<rparr>)" "vquiet v (v\<lparr>disk := d\<rparr>)"
    using assms by (simp_all add: vshifts_def refs_def opens_def c) (simp_all add: vfs_ok_def cong: inode.case_cong)
qed

lemma vquiet_trans: "vquiet v v1 \<Longrightarrow> vshifts v1 v2 d e \<Longrightarrow> vshifts v v2 d e"
  by (simp add: vshifts_def)

lemma trans_vquiet: "vshifts v v1 d e \<Longrightarrow> vquiet v1 v2 \<Longrightarrow> vshifts v v2 d e"
  by (simp add: vshifts_def)

lemma set_disk_quiet: "vfs_ok v \<Longrightarrow> vquiet v (set_disk v k d)"
  by (auto simp: set_disk_def bind_Some_iff vquiet_fields intro!: put_mnt_quiet split: option.splits)

lemma dnode_io_quiet:
  assumes "dnode_io f v k iob = Some (r, v', iob')" "vfs_ok v"
  shows "vquiet v v'"
proof -
  obtain t dk where "v' = v\<lparr>console := t\<rparr> \<or> v' = set_disk (v\<lparr>console := t\<rparr>) k dk"
    using assms(1) by (auto simp: dnode_io_def bind_Some_iff Let_def split: if_splits)
  moreover have "vquiet v (v\<lparr>console := t\<rparr>)" by (rule vquiet_fields(1) [OF assms(2)])
  ultimately show ?thesis using vquiet_trans [OF _ set_disk_quiet] vshifts_ok by blast
qed

lemma vop_quiet_v:
  assumes ok: "vfs_ok v"
  shows "vop_read v n iob = Some (r, v', iob') \<Longrightarrow> vquiet v v'"
    and "vop_write v n iob = Some (r, v', iob') \<Longrightarrow> vquiet v v'"
    and "vop_getdirentry al v n iob = Some (r, v', iob') \<Longrightarrow> vquiet v v'"
    and "vop_fsync v n = Some (r', v') \<Longrightarrow> vquiet v v'"
    and "vop_truncate v n len = Some (r', v') \<Longrightarrow> vquiet v v'"
    and "vop_tryseek v n pos = Some (r', v') \<Longrightarrow> vquiet v v'"
proof -
  show "vop_read v n iob = Some (r, v', iob') \<Longrightarrow> vquiet v v'"
    by (auto simp: vop_read_def bind_Some_iff dest: node_io_quiet [OF _ ok] dnode_io_quiet [OF _ ok] split: inode.splits)
  show "vop_write v n iob = Some (r, v', iob') \<Longrightarrow> vquiet v v'"
    by (auto simp: vop_write_def bind_Some_iff dest: node_io_quiet [OF _ ok] dnode_io_quiet [OF _ ok] split: inode.splits)
  show "vop_getdirentry al v n iob = Some (r, v', iob') \<Longrightarrow> vquiet v v'"
    by (auto simp: vop_getdirentry_def bind_Some_iff dest: node_io_quiet [OF _ ok] split: inode.splits)
  show "vop_fsync v n = Some (r', v') \<Longrightarrow> vquiet v v'"
    by (auto simp: vop_fsync_def intro: on_mnt_quiet [OF _ ok] vop_quiet split: inode.splits)
  show "vop_truncate v n len = Some (r', v') \<Longrightarrow> vquiet v v'"
    by (auto simp: vop_truncate_def intro: on_mnt_quiet [OF _ ok] vop_quiet split: inode.splits)
  show "vop_tryseek v n pos = Some (r', v') \<Longrightarrow> vquiet v v'"
    using ok by (auto simp: vop_tryseek_def bind_Some_iff intro: on_mnt_quiet on_node_quiet vquiet_refl split: inode.splits)
qed

section \<open>Counts under lookups\<close>

text \<open>A lookup that delivers an inode adds a reference to it, one that fails adds none.\<close>

definition vgot :: "vfs \<Rightarrow> vfs \<Rightarrow> (errno + inode) \<Rightarrow> bool" where
  "vgot v v' ret \<longleftrightarrow> (case ret of Inl e \<Rightarrow> vquiet v v' | Inr n \<Rightarrow> vshifts v v' (one n) (\<lambda>_. 0))"

lemma vgot_ok: "vgot v v' ret \<Longrightarrow> vfs_ok v'"
  by (auto simp: vgot_def vshifts_def split: sum.splits)

lemma fsop_get_root_counts:
  assumes r: "fsop_get_root al v k = Some (n, v')" and ok: "vfs_ok v" and f: "fresh_ok (k_inode al)"
  shows "vshifts v v' (one n) (\<lambda>_. 0)"
proof -
  obtain a where a: "n = Snode k a" "on_mnt v k (sfs_get_root (k_mem al) (k_inode al)) = Some (a, v')"
    using r by (auto simp: fsop_get_root_def bind_Some_iff)
  have "shifts m m' (one a) (\<lambda>_. 0)" if "sfs_get_root (k_mem al) (k_inode al) m = Some (a, m')" "links_ok m" for m m'
  proof -
    note h = that(1)
    obtain r1 m1 where l: "sfs_load_inode (k_mem al) (k_inode al) m SFS_BLKN_ROOT = Some (r1, m1)"
      using h by (auto simp: sfs_get_root_def bind_Some_iff)
    then have "sfs_load_inode (k_mem al) (k_inode al) m SFS_BLKN_ROOT = Some (Inr a, m')"
      using that(1) by (cases r1) (auto simp: sfs_get_root_def)
    from load_inode_counts [OF this f that(2)] show ?thesis by (simp add: got_def)
  qed
  from on_mnt_shifts [OF a(2) ok, of "one a" "\<lambda>_. 0"] this show ?thesis using a(1) by simp
qed

lemma vfs_get_root_counts:
  assumes r: "vfs_get_root al v name = Some (ret, v')" and ok: "vfs_ok v" and f: "fresh_ok (k_inode al)"
  shows "vgot v v' ret"
proof (cases "List.find (\<lambda>d. name = devname d) (vdev_list v)")
  case None
  then show ?thesis using r vquiet_refl [OF ok] by (auto simp: vfs_get_root_def vgot_def)
next
  case (Some d)
  then have d: "d \<in> set (vdev_list v)" by (auto simp: find_Some_iff)
  show ?thesis
  proof (cases "vd_fs d")
    case (Some k)
    with r \<open>List.find _ _ = _\<close> show ?thesis
      using fsop_get_root_counts [OF _ ok f] by (auto simp: vfs_get_root_def vgot_def bind_Some_iff)
  next
    case None
    show ?thesis
    proof (cases "mountable d")
      case True
      then show ?thesis using r Some None vquiet_refl [OF ok] by (auto simp: vfs_get_root_def vgot_def)
    next
      case False
      then obtain n where n: "devnode d = Some n" "ret = Inr n" "v' = vop_ref_inc v n"
        using r Some None by (auto simp: vfs_get_root_def bind_Some_iff)
      have "case n of Dnode k \<Rightarrow> devs v k \<noteq> None | Snode _ _ \<Rightarrow> False"
        using ok d n(1) unfolding vfs_ok_def by blast
      then have "inode_counts v n \<noteq> None" by (auto simp: inode_counts_def split: inode.splits)
      then show ?thesis using vop_inc_shifts(1) [OF ok] n by (simp add: vgot_def)
    qed
  qed
qed

text \<open>The current directory and the boot node are held.\<close>

definition roots_held :: "vfs \<Rightarrow> inode option \<Rightarrow> bool" where
  "roots_held v cwd \<longleftrightarrow> (\<forall>n. cwd = Some n \<or> bootfs_node v = Some n \<longrightarrow> refs v n > 0)"

lemma get_curdir_counts:
  assumes "vfs_ok v" "roots_held v cwd" "vfs_get_curdir v cwd = (ret, v')"
  shows "vgot v v' ret"
  using assms vop_inc_shifts(1) [OF assms(1) counts_pos] vquiet_refl [OF assms(1)]
  by (auto simp: vfs_get_curdir_def vgot_def roots_held_def split: option.splits)

lemma get_bootfs_counts:
  assumes "vfs_ok v" "roots_held v cwd" "vfs_get_bootfs v = (ret, v')"
  shows "vgot v v' ret"
  using assms vop_inc_shifts(1) [OF assms(1) counts_pos] vquiet_refl [OF assms(1)]
  by (auto simp: vfs_get_bootfs_def vgot_def roots_held_def split: option.splits)

lemma vgot_map [simp]: "vgot v v' (map_sum id snd (map_sum id (Pair p) ret)) = vgot v v' ret"
  by (cases ret) (simp_all add: vgot_def)

lemma get_device_counts:
  assumes r: "get_device al v cwd path = Some (ret, path', v')" and ok: "vfs_ok v" "roots_held v cwd"
    and f: "fresh_ok (k_inode al)"
  shows "vgot v v' (map_sum id snd ret)"
proof -
  obtain slash colon where sc: "scan_path path 0 = (slash, colon)" by fastforce
  consider (rel) "colon < 0" "slash \<noteq> 0" | (dev) "colon > 0" | (boot) "\<not> colon > 0" "\<not> (colon < 0 \<and> slash \<noteq> 0)" "hd path = 47"
    | (cur) "\<not> colon > 0" "\<not> (colon < 0 \<and> slash \<noteq> 0)" "hd path \<noteq> 47" by blast
  then show ?thesis
  proof cases
    case rel
    then show ?thesis using r sc get_curdir_counts [OF ok] by (auto simp: get_device_def Let_def split: prod.splits)
  next
    case dev
    then show ?thesis using r sc vfs_get_root_counts [OF _ ok(1) f]
      by (auto simp: get_device_def Let_def bind_Some_iff)
  next
    case boot
    then show ?thesis using r sc get_bootfs_counts [OF ok] by (auto simp: get_device_def Let_def split: prod.splits)
  next
    case cur
    obtain c v1 where c: "vfs_get_curdir v cwd = (c, v1)" by fastforce
    note g = get_curdir_counts [OF ok c]
    show ?thesis
    proof (cases c)
      case (Inl e)
      then show ?thesis using r sc cur c g by (auto simp: get_device_def Let_def vgot_def)
    next
      case (Inr n)
      then obtain k a root v2 where n: "n = Snode k a" "fsop_get_root al v1 k = Some (root, v2)" "vop_ref_dec v2 n = Some v'"
        "map_sum id snd ret = Inr root"
        using r sc cur c by (cases n) (auto simp: get_device_def Let_def bind_Some_iff)
      have s1: "vshifts v v1 (one n) (\<lambda>_. 0)" using g Inr by (simp add: vgot_def)
      note s2 = fsop_get_root_counts [OF n(2) vshifts_ok [OF s1] f]
      note s3 = vop_ref_dec_shifts(1) [OF n(3) vshifts_ok [OF s2]]
      from s1 s2 s3 show ?thesis using n(4) by (simp add: vgot_def vshifts_def)
    qed
  qed
qed

lemma vop_lookup_counts:
  assumes r: "vop_lookup al v n path = Some (ret, v')" and ok: "vfs_ok v" and f: "fresh_ok (k_inode al)"
  shows "vgot v v' ret"
proof -
  have n: "inode_counts v n \<noteq> None" using r by (auto simp: vop_lookup_def vop_check_def bind_Some_iff)
  show ?thesis
  proof (cases n)
    case (Dnode k)
    then show ?thesis using r vop_inc_shifts(1) [OF ok n] vquiet_refl [OF ok]
      by (auto simp: vop_lookup_def bind_Some_iff vgot_def split: if_splits)
  next
    case (Snode k a)
    then obtain ret' where on: "on_mnt v k (\<lambda>m. sfs_lookup (k_mem al) (k_inode al) m a path) = Some (ret', v')"
      "ret = map_sum id (Snode k) ret'"
      using r by (auto simp: vop_lookup_def bind_Some_iff)
    have a: "node_counts m a \<noteq> None" if "mnts v k = Some m" for m
      using n that Snode by (auto simp: inode_counts_def node_counts_def)
    note c = sfs_lookup_counts [OF _ f _ a]
    show ?thesis
    proof (cases ret')
      case (Inl e)
      then have "vshifts v v' (lift k (\<lambda>_. 0)) (lift k (\<lambda>_. 0))"
        by (intro on_mnt_shifts [OF on(1) ok]) (use c in fastforce)
      then show ?thesis using on(2) Inl by (simp add: vgot_def)
    next
      case (Inr b)
      then have "vshifts v v' (lift k (one b)) (lift k (\<lambda>_. 0))"
        by (intro on_mnt_shifts [OF on(1) ok]) (use c in fastforce)
      then show ?thesis using on(2) Inr by (simp add: vgot_def)
    qed
  qed
qed

lemma vfs_lookup_counts:
  assumes r: "vfs_lookup al v cwd path = Some (ret, path', v')" and ok: "vfs_ok v" "roots_held v cwd"
    and f: "fresh_ok (k_inode al)"
  shows "vgot v v' ret"
proof -
  obtain r1 p1 v1 where r1: "get_device al v cwd path = Some (r1, p1, v1)"
    using r by (auto simp: vfs_lookup_def bind_Some_iff)
  note g = get_device_counts [OF r1 ok f]
  show ?thesis
  proof (cases r1)
    case (Inl e)
    then show ?thesis using r r1 g by (auto simp: vfs_lookup_def vgot_def)
  next
    case (Inr p)
    obtain sub n where p: "p = (sub, n)" by fastforce
    have s1: "vshifts v v1 (one n) (\<lambda>_. 0)" using g Inr p by (simp add: vgot_def)
    show ?thesis
    proof (cases "sub = []")
      case True
      then show ?thesis using r r1 Inr p s1 by (auto simp: vfs_lookup_def vgot_def)
    next
      case False
      then obtain v2 where v2: "vop_lookup al v1 n sub = Some (ret, v2)" "vop_ref_dec v2 n = Some v'"
        using r r1 Inr p by (auto simp: vfs_lookup_def bind_Some_iff)
      note s2 = vop_lookup_counts [OF v2(1) vshifts_ok [OF s1] f]
      note s3 = vop_ref_dec_shifts(1) [OF v2(2) vgot_ok [OF s2]]
      from s1 s2 s3 show ?thesis by (auto simp: vgot_def vshifts_def split: sum.splits)
    qed
  qed
qed

section \<open>Counts under opening and closing\<close>

lemma vop_check_counts: "vop_check v n = Some u \<Longrightarrow> inode_counts v n \<noteq> None"
  by (auto simp: vop_check_def bind_Some_iff)

lemma vop_open_counts: "vop_open v n flags = Some ret \<Longrightarrow> inode_counts v n \<noteq> None"
  by (auto simp: vop_open_def bind_Some_iff dest: vop_check_counts)

lemma vfs_close_counts:
  assumes c: "vfs_close v n = Some v'" and ok: "vfs_ok v"
  shows "vshifts v v' (\<lambda>b. - one n b) (\<lambda>b. - one n b)"
proof -
  obtain v1 where v1: "vop_open_dec v n = Some v1" "vop_ref_dec v1 n = Some v'"
    using c by (auto simp: vfs_close_def bind_Some_iff)
  note s1 = vop_open_dec_shifts(1) [OF v1(1) ok]
  note s2 = vop_ref_dec_shifts(1) [OF v1(2) vshifts_ok [OF s1]]
  from vshifts_trans [OF s1 s2] show ?thesis by simp
qed

text \<open>The reference the lookup added is dropped on failure and kept, with an open, on success.\<close>

lemma open_node_counts:
  assumes r: "open_node v n flags = Some (ret, v')" and ok: "vfs_ok v"
  shows "case ret of Inl e \<Rightarrow> vshifts v v' (\<lambda>b. - one n b) (\<lambda>_. 0)
     | Inr n' \<Rightarrow> n' = n \<and> vshifts v v' (\<lambda>_. 0) (one n)"
proof -
  obtain r1 where r1: "vop_open v n flags = Some r1" using r by (auto simp: open_node_def bind_Some_iff)
  show ?thesis
  proof (cases r1)
    case (Inl e)
    then have "vop_ref_dec v n = Some v'" "ret = Inl e" using r r1 by (auto simp: open_node_def bind_Some_iff)
    then show ?thesis using vop_ref_dec_shifts(1) [OF _ ok] by simp
  next
    case (Inr u)
    note s1 = vop_inc_shifts(2) [OF ok vop_open_counts [OF r1]]
    show ?thesis
    proof (cases "flags AND O_TRUNC \<noteq> 0 \<or> flags AND O_CREAT \<noteq> 0")
      case False
      then show ?thesis using r r1 Inr s1 by (auto simp: open_node_def)
    next
      case True
      then obtain r2 v2 where t: "vop_truncate (vop_open_inc v n) n 0 = Some (r2, v2)"
        using r r1 Inr by (auto simp: open_node_def bind_Some_iff Let_def)
      have s2: "vshifts v v2 (\<lambda>_. 0) (one n)"
        by (rule trans_vquiet [OF s1 vop_quiet_v(5) [OF vshifts_ok [OF s1] t]])
      show ?thesis
      proof (cases r2)
        case (Inr u')
        then show ?thesis using r r1 \<open>r1 = _\<close> True t s2 by (auto simp: open_node_def)
      next
        case (Inl e)
        then have c: "vfs_close v2 n = Some v'" "ret = Inl e"
          using r r1 Inr True t by (auto simp: open_node_def vfs_close_def bind_Some_iff)
        from vshifts_trans [OF s2 vfs_close_counts [OF c(1) vshifts_ok [OF s2]]] c(2) show ?thesis by simp
      qed
    qed
  qed
qed

lemma vfs_open_counts:
  assumes r: "vfs_open al v cwd path flags = Some (ret, v')" and ok: "vfs_ok v" "roots_held v cwd"
    and f: "fresh_ok (k_inode al)"
  shows "case ret of
       Inl e \<Rightarrow> vquiet v v' \<or> e = E_EXISTS \<and> flags AND O_EXCL \<noteq> 0 \<and> flags AND O_CREAT \<noteq> 0 \<and> (\<exists>n. vshifts v v' (one n) (\<lambda>_. 0))
     | Inr n \<Rightarrow> vshifts v v' (one n) (one n)"
proof -
  let ?acc = "flags AND O_ACCMODE"
  consider (bad) "ret = Inl E_INVAL" "v' = v"
    | (look) r1 path' v1 where "vfs_lookup al v cwd path = Some (r1, path', v1)"
      "?acc = O_RDONLY \<or> ?acc = O_WRONLY \<or> ?acc = O_RDWR" "flags AND O_TRUNC = 0 \<or> ?acc = O_WRONLY \<or> ?acc = O_RDWR"
    using r unfolding vfs_open_def Let_def by (auto simp: bind_Some_iff split: if_splits)
  then show ?thesis
  proof cases
    case bad
    then show ?thesis using vquiet_refl [OF ok(1)] by simp
  next
    case look
    note g = vfs_lookup_counts [OF look(1) ok f]
    show ?thesis
    proof (cases r1)
      case (Inl e)
      then have q: "vquiet v v1" using g by (simp add: vgot_def)
      show ?thesis
      proof (cases "e = E_NOENT \<and> flags AND O_CREAT \<noteq> 0")
        case False
        then have "ret = Inl e" "v' = v1" using r look Inl by (auto simp: vfs_open_def Let_def)
        then show ?thesis using q by simp
      next
        case True
        obtain r2 v2 where p: "vfs_lookup_parent al v1 cwd path' = Some (r2, v2)"
          using r look Inl True by (auto simp: vfs_open_def Let_def bind_Some_iff)
        then obtain e' where e': "r2 = Inl e'" "ret = Inl e'" "v' = v2"
          using r look Inl True by (cases r2) (auto simp: vfs_open_def Let_def vop_create_def)
        have h: "roots_held v1 cwd" using ok(2) q by (simp add: roots_held_def vshifts_def)
        obtain r3 p3 where d: "get_device al v1 cwd path' = Some (r3, p3, v2)" "r2 = map_sum id (\<lambda>(subpath, n). (n, subpath)) r3"
          using p by (auto simp: vfs_lookup_parent_def bind_Some_iff)
        then have "r3 = Inl e'" using e' by (cases r3) auto
        then have "vquiet v1 v2" using get_device_counts [OF d(1) vshifts_ok [OF q] h f] by (simp add: vgot_def)
        then show ?thesis using vquiet_trans [OF q] e' by simp
      qed
    next
      case (Inr n)
      then have s1: "vshifts v v1 (one n) (\<lambda>_. 0)" using g by (simp add: vgot_def)
      show ?thesis
      proof (cases "flags AND O_EXCL \<noteq> 0 \<and> flags AND O_CREAT \<noteq> 0")
        case True
        then have "ret = Inl E_EXISTS" "v' = v1" using r look Inr by (auto simp: vfs_open_def Let_def)
        then show ?thesis using True s1 by auto
      next
        case False
        then have "open_node v1 n flags = Some (ret, v')" using r look Inr by (auto simp: vfs_open_def Let_def)
        from open_node_counts [OF this vshifts_ok [OF s1]] s1
        show ?thesis by (auto simp: vshifts_def split: sum.splits)
      qed
    qed
  qed
qed

section \<open>Both counts meet the contract\<close>

lemma vop_ref_dec_returns: "refs v n > 1 \<Longrightarrow> \<exists>v'. vop_ref_dec v n = Some v'"
proof (cases n)
  case (Dnode k)
  then show "refs v n > 1 \<Longrightarrow> ?thesis" by (auto simp: vop_ref_dec_def split: option.splits)
next
  case (Snode k a)
  assume "refs v n > 1"
  then obtain m where m: "mnts v k = Some m" "node_refs m a > 1" using Snode by (auto split: option.splits)
  then obtain x where x: "nodes m a = Some x" "ref_count x > 1"
    by (auto simp: node_refs_def node_counts_def split: option.splits)
  then show ?thesis using Snode m by (simp add: vop_ref_dec_def on_mnt_def inode_ref_dec_def Let_def)
qed

lemma vop_open_dec_returns: "opens v n > 1 \<Longrightarrow> \<exists>v'. vop_open_dec v n = Some v'"
proof (cases n)
  case (Dnode k)
  then show "opens v n > 1 \<Longrightarrow> ?thesis" by (auto simp: vop_open_dec_def Let_def split: option.splits)
next
  case (Snode k a)
  assume "opens v n > 1"
  then obtain m where m: "mnts v k = Some m" "node_opens m a > 1" using Snode by (auto split: option.splits)
  then obtain x where x: "nodes m a = Some x" "open_count x > 1"
    by (auto simp: node_opens_def node_counts_def split: option.splits)
  then show ?thesis using Snode m by (simp add: vop_open_dec_def on_mnt_def inode_open_dec_def Let_def)
qed

lemma counts_pos_open: "opens v n > 0 \<Longrightarrow> inode_counts v n \<noteq> None"
  by (cases "inode_counts v n") (auto simp: opens_def)

interpretation ref: counted refs vfs_ok vop_ref_inc vop_ref_dec
proof
  fix v n m v'
  show "vfs_ok v \<Longrightarrow> refs v n > 0 \<Longrightarrow> vfs_ok (vop_ref_inc v n) \<and> refs (vop_ref_inc v n) m = refs v m + one n m"
    using vop_inc_shifts(1) [OF _ counts_pos] by (simp add: vshifts_def)
  show "vfs_ok v \<Longrightarrow> vop_ref_dec v n = Some v' \<Longrightarrow> vfs_ok v' \<and> refs v' m = refs v m - one n m \<and> refs v n > 0"
    using vop_ref_dec_shifts by (simp add: vshifts_def)
  show "vfs_ok v \<Longrightarrow> refs v n > 1 \<Longrightarrow> \<exists>v'. vop_ref_dec v n = Some v'"
    by (rule vop_ref_dec_returns)
qed

interpretation opn: counted opens vfs_ok vop_open_inc vop_open_dec
proof
  fix v n m v'
  show "vfs_ok v \<Longrightarrow> opens v n > 0 \<Longrightarrow> vfs_ok (vop_open_inc v n) \<and> opens (vop_open_inc v n) m = opens v m + one n m"
    using vop_inc_shifts(2) [OF _ counts_pos_open] by (simp add: vshifts_def)
  show "vfs_ok v \<Longrightarrow> vop_open_dec v n = Some v' \<Longrightarrow> vfs_ok v' \<and> opens v' m = opens v m - one n m \<and> opens v n > 0"
    using vop_open_dec_shifts by (simp add: vshifts_def)
  show "vfs_ok v \<Longrightarrow> opens v n > 1 \<Longrightarrow> \<exists>v'. vop_open_dec v n = Some v'"
    by (rule vop_open_dec_returns)
qed

text \<open>Changing the current directory moves one reference.\<close>

lemma set_curdir_counts:
  assumes r: "vfs_set_curdir v cwd dir = Some (ret, cwd', v')" and ok: "vfs_ok v"
    and d: "\<And>n. dir = Some n \<Longrightarrow> refs v n > 0"
  shows "vfs_ok v' \<and> bootfs_node v' = bootfs_node v \<and> (\<forall>n. opens v' n = opens v n
     \<and> refs v' n = refs v n + of_bool (cwd' = Some n) - of_bool (cwd = Some n)) \<and> (cwd' = cwd \<or> cwd' = dir)"
proof (cases "cwd = dir")
  case True
  then show ?thesis using r ok by (auto simp: vfs_set_curdir_def)
next
  case False
  have out: "vop_ref_dec v1 old = Some v' \<Longrightarrow> vfs_ok v1 \<Longrightarrow>
      vfs_ok v' \<and> bootfs_node v' = bootfs_node v1 \<and> (\<forall>n. opens v' n = opens v1 n \<and> refs v' n = refs v1 n - one old n)" for v1 old
    using vop_ref_dec_shifts(1) by (simp add: vshifts_def)
  show ?thesis
  proof (cases dir)
    case None
    then obtain old where "cwd = Some old" using False by (cases cwd) auto
    then show ?thesis using r None ok out [of v old] by (auto simp: vfs_set_curdir_def bind_Some_iff one_def)
  next
    case (Some n)
    then obtain t where t: "vop_gettype v n = Some t" using r False by (auto simp: vfs_set_curdir_def bind_Some_iff)
    have inc: "vshifts v (vop_ref_inc v n) (one n) (\<lambda>_. 0)"
      by (rule vop_inc_shifts(1) [OF ok counts_pos [OF d [OF Some]]])
    show ?thesis
    proof (cases "\<exists>ty. t = Inr ty \<and> ty AND S_IFMT = S_IFDIR")
      case False
      then have "cwd' = cwd" "v' = v" using r t Some \<open>cwd \<noteq> dir\<close> by (cases t; auto simp: vfs_set_curdir_def)+
      then show ?thesis using ok by simp
    next
      case True
      then have c: "cwd' = dir" "(case cwd of None \<Rightarrow> Some (vop_ref_inc v n) | Some old \<Rightarrow> vop_ref_dec (vop_ref_inc v n) old) = Some v'"
        using r t Some \<open>cwd \<noteq> dir\<close> by (auto simp: vfs_set_curdir_def bind_Some_iff)
      show ?thesis
      proof (cases cwd)
        case None
        then show ?thesis using c inc Some by (auto simp: vshifts_def one_def)
      next
        case (Some old)
        then show ?thesis using c inc \<open>dir = Some n\<close> out [of "vop_ref_inc v n" old]
          ref.swap [OF ok d [OF \<open>dir = Some n\<close>], of old v'] by (auto simp: vshifts_def one_def)
      qed
    qed
  qed
qed

lemma chdir_counts:
  assumes r: "vfs_chdir al v cwd path = Some (ret, cwd', v')" and ok: "vfs_ok v" "roots_held v cwd"
    and f: "fresh_ok (k_inode al)" and pos: "\<And>n. refs v n \<ge> 0"
  shows "vfs_ok v' \<and> bootfs_node v' = bootfs_node v \<and> (\<forall>n. opens v' n = opens v n
     \<and> refs v' n = refs v n + of_bool (cwd' = Some n) - of_bool (cwd = Some n))"
proof -
  obtain r1 p1 v1 where l: "vfs_lookup al v cwd path = Some (r1, p1, v1)"
    using r by (auto simp: vfs_chdir_def bind_Some_iff)
  note g = vfs_lookup_counts [OF l ok f]
  show ?thesis
  proof (cases r1)
    case (Inl e)
    then show ?thesis using r l g by (auto simp: vfs_chdir_def vgot_def vshifts_def)
  next
    case (Inr n)
    then obtain r2 v2 where s: "vfs_set_curdir v1 cwd (Some n) = Some (r2, cwd', v2)" "vop_ref_dec v2 n = Some v'"
      using r l by (auto simp: vfs_chdir_def bind_Some_iff)
    have s1: "vshifts v v1 (one n) (\<lambda>_. 0)" using g Inr by (simp add: vgot_def)
    have "refs v1 n > 0" using s1 pos [of n] by (simp add: vshifts_def one_def)
    note c = set_curdir_counts [OF s(1) vshifts_ok [OF s1]]
    with \<open>refs v1 n > 0\<close> have c: "vfs_ok v2" "bootfs_node v2 = bootfs_node v1" "\<forall>n. opens v2 n = opens v1 n
     \<and> refs v2 n = refs v1 n + of_bool (cwd' = Some n) - of_bool (cwd = Some n)" by auto
    from vop_ref_dec_shifts(1) [OF s(2) c(1)] s1 c show ?thesis by (auto simp: vshifts_def)
  qed
qed

end
