(* ===== verification/File_Table.thy ===== *)
theory File_Table
  imports Counts
begin

text \<open>
  Properties of the open-files table: the accounting of references between the table and the
  inodes, the behaviour of descriptors, and what \<open>fork\<close> and \<open>exit\<close> do to the counts.
\<close>

section \<open>Well-formed tables and the account\<close>

text \<open>Between two calls an entry is unused or open, with one opener.\<close>

definition entry_ok :: "nat \<Rightarrow> file_t \<Rightarrow> bool" where
  "entry_ok i x \<longleftrightarrow> f_fd x = int i \<and> (f_status x = FD_NONE \<and> f_open_count x = 0
     \<or> f_status x = FD_OPENED \<and> f_open_count x = 1 \<and> f_node x \<noteq> None)"

definition ftab_ok :: "files \<Rightarrow> bool" where
  "ftab_ok f \<longleftrightarrow> length (fd_array f) = FILES_STRUCT_NENTRY
     \<and> (\<forall>i < FILES_STRUCT_NENTRY. entry_ok i (fd_array f ! i))"

text \<open>The holdings of an entry and of a table.\<close>

definition ent :: "file_t \<Rightarrow> inode \<Rightarrow> int" where
  "ent x n = of_bool (f_status x = FD_OPENED \<and> f_node x = Some n)"

definition held :: "files \<Rightarrow> inode \<Rightarrow> int" where
  "held f n = (\<Sum>x \<leftarrow> fd_array f. ent x n)"

text \<open>
  Every reference and every open of an inode is one of the holders outside (\<open>rb\<close>, \<open>ob\<close>) or of the
  table; the current directory has a reference; the boot node is held from outside.
\<close>

definition acct :: "(inode \<Rightarrow> int) \<Rightarrow> (inode \<Rightarrow> int) \<Rightarrow> vfs \<Rightarrow> files \<Rightarrow> bool" where
  "acct rb ob v f \<longleftrightarrow> vfs_ok v \<and> ftab_ok f \<and> (\<forall>n. rb n \<ge> 0 \<and> ob n \<ge> 0)
     \<and> (\<forall>n. bootfs_node v = Some n \<longrightarrow> rb n > 0)
     \<and> (\<forall>n. refs v n = rb n + held f n + of_bool (pwd f = Some n) \<and> opens v n = ob n + held f n)"

lemma ent_nonneg: "ent x n \<ge> 0"
  by (simp add: ent_def)

lemma held_nonneg: "held f n \<ge> 0"
  unfolding held_def by (rule sum_list_nonneg) (auto simp: ent_nonneg)

lemma sum_list_upd: "i < length xs \<Longrightarrow> sum_list (xs[i := y]) = sum_list xs - xs ! i + (y :: int)"
  by (induction xs arbitrary: i) (auto split: nat.splits)

lemma held_set:
  assumes "i < length (fd_array f)"
  shows "held (set_file f i x) n = held f n - ent (fd_array f ! i) n + ent x n"
  using assms by (simp add: held_def set_file_def map_update sum_list_upd)

lemma acctD:
  assumes "acct rb ob v f"
  shows "vfs_ok v" "ftab_ok f" "roots_held v (pwd f)" "refs v n \<ge> 0"
    "length (fd_array f) = FILES_STRUCT_NENTRY"
    "i < FILES_STRUCT_NENTRY \<Longrightarrow> entry_ok i (fd_array f ! i)"
proof -
  show "vfs_ok v" "ftab_ok f" using assms by (simp_all add: acct_def)
  then show "length (fd_array f) = FILES_STRUCT_NENTRY"
    "i < FILES_STRUCT_NENTRY \<Longrightarrow> entry_ok i (fd_array f ! i)" by (auto simp: ftab_ok_def)
  have b: "rb m + held f m \<ge> 0" for m using assms held_nonneg [of f m] by (simp add: acct_def)
  then show "refs v n \<ge> 0" using assms b [of n] by (simp add: acct_def)
  show "roots_held v (pwd f)"
    unfolding roots_held_def
  proof (intro allI impI)
    fix m assume *: "pwd f = Some m \<or> bootfs_node v = Some m"
    have r: "refs v m = rb m + held f m + of_bool (pwd f = Some m)" using assms by (simp add: acct_def)
    have "rb m > 0 \<or> pwd f = Some m" using * assms by (auto simp: acct_def)
    moreover have "rb m \<ge> 0" using assms by (simp add: acct_def)
    ultimately show "refs v m > 0" using r held_nonneg [of f m] by auto
  qed
qed

lemma set_file_sel [simp]:
  "pwd (set_file f i x) = pwd f" "files_count (set_file f i x) = files_count f"
  "fd_array (set_file f i x) = (fd_array f)[i := x]" "set_file (set_file f i x) i y = set_file f i y"
  by (simp_all add: set_file_def)

text \<open>A step that replaces one entry and moves the counts by what the entry holds.\<close>

lemma acct_set:
  assumes a: "acct rb ob v f" and i: "i < FILES_STRUCT_NENTRY" and x: "entry_ok i x"
    and s: "vshifts v v' d d" and d: "\<And>n. d n = ent x n - ent (fd_array f ! i) n"
  shows "acct rb ob v' (set_file f i x)"
proof -
  have l: "i < length (fd_array f)" using i acctD(5) [OF a] by simp
  have "ftab_ok (set_file f i x)"
    using acctD(2) [OF a] x l by (simp add: ftab_ok_def nth_list_update)
  moreover have "refs v' n = rb n + held (set_file f i x) n + of_bool (pwd f = Some n)"
    "opens v' n = ob n + held (set_file f i x) n" for n
    using a s d [of n] held_set [OF l, of x n] by (simp_all add: acct_def vshifts_def)
  ultimately show ?thesis using a s by (simp add: acct_def vshifts_def)
qed

lemma acct_quiet: "acct rb ob v f \<Longrightarrow> vquiet v v' \<Longrightarrow> acct rb ob v' f"
  by (simp add: acct_def vshifts_def)

lemma acct_pos:
  assumes a: "acct rb ob v f" and i: "i < FILES_STRUCT_NENTRY" "f_status (fd_array f ! i) = FD_OPENED" "f_node (fd_array f ! i) = Some n"
  shows "refs v n > 0" "opens v n > 0"
proof -
  have "fd_array f ! i \<in> set (fd_array f)" using i(1) acctD(5) [OF a] by simp
  then have "ent (fd_array f ! i) n \<le> held f n"
    unfolding held_def by (intro member_le_sum_list) (auto simp: ent_nonneg)
  moreover have "ent (fd_array f ! i) n = 1" using i by (simp add: ent_def)
  moreover have "rb n \<ge> 0" "ob n \<ge> 0" "refs v n = rb n + held f n + of_bool (pwd f = Some n)" "opens v n = ob n + held f n"
    using a by (simp_all add: acct_def)
  ultimately show "refs v n > 0" "opens v n > 0" by simp_all
qed

section \<open>The table routines\<close>

lemma testfd_nat: "testfd fd \<Longrightarrow> nat fd < FILES_STRUCT_NENTRY \<and> int (nat fd) = fd"
  by (auto simp: testfd_def)

lemma fd2file_Inr:
  "fd2file f fd = Some (Inr i) \<Longrightarrow> i < FILES_STRUCT_NENTRY \<and> fd = int i \<and> f_status (fd_array f ! i) = FD_OPENED"
  by (auto simp: fd2file_def get_fd_array_def bind_kassert_if dest: testfd_nat split: if_splits)

lemma first_none_Some:
  "first_none xs k = Some i \<longleftrightarrow> k \<le> i \<and> i < k + length xs \<and> f_status (xs ! (i - k)) = FD_NONE
     \<and> (\<forall>j < i - k. f_status (xs ! j) \<noteq> FD_NONE)"
proof (induction xs k rule: first_none.induct)
  case (1 k)
  then show ?case by simp
next
  case (2 x xs k)
  show ?case
  proof (cases "f_status x = FD_NONE")
    case True
    have "i = k" if "k \<le> i" "\<forall>j < i - k. f_status ((x # xs) ! j) \<noteq> FD_NONE"
      using that True by (metis diff_is_0_eq' le_antisym nat_neq_iff not_less_zero nth_Cons_0 zero_less_diff linorder_not_less)
    then show ?thesis using True by auto
  next
    case False
    have s: "i - k = Suc (i - Suc k)" if "k < i" for i using that by simp
    have "k \<le> i \<and> i < k + length (x # xs) \<and> f_status ((x # xs) ! (i - k)) = FD_NONE
        \<and> (\<forall>j < i - k. f_status ((x # xs) ! j) \<noteq> FD_NONE) \<longleftrightarrow>
       Suc k \<le> i \<and> i < Suc k + length xs \<and> f_status (xs ! (i - Suc k)) = FD_NONE
        \<and> (\<forall>j < i - Suc k. f_status (xs ! j) \<noteq> FD_NONE)"
    proof (cases "k < i")
      case True
      then show ?thesis using False by (auto simp: s [OF True] less_Suc_eq_0_disj)
    next
      case nk: False
      then show ?thesis using False by (cases "i = k") auto
    qed
    then show ?thesis using False 2 by simp
  qed
qed

lemma first_none_None: "first_none xs k = None \<longleftrightarrow> (\<forall>x \<in> set xs. f_status x \<noteq> FD_NONE)"
  by (induction xs k rule: first_none.induct) auto

lemma alloc_ok:
  assumes t: "ftab_ok f" and a: "fd_array_alloc f fd = Some (ret, f')"
  shows "(case ret of Inl e \<Rightarrow> f' = f | Inr i \<Rightarrow> i < FILES_STRUCT_NENTRY \<and> f_status (fd_array f ! i) = FD_NONE
     \<and> f_open_count (fd_array f ! i) = 0 \<and> f_fd (fd_array f ! i) = int i
     \<and> f' = set_file f i ((fd_array f ! i)\<lparr>f_status := FD_INIT, f_node := None\<rparr>))"
proof (cases ret)
  case (Inl e)
  then show ?thesis using a
    by (auto simp: fd_array_alloc_def get_fd_array_def bind_kassert_if split: if_splits option.splits)
next
  case (Inr i)
  have l: "length (fd_array f) = FILES_STRUCT_NENTRY" using t by (simp add: ftab_ok_def)
  have "i < FILES_STRUCT_NENTRY \<and> f_status (fd_array f ! i) = FD_NONE
     \<and> f' = set_file f i ((fd_array f ! i)\<lparr>f_status := FD_INIT, f_node := None\<rparr>)"
    using a Inr l
    by (auto simp: fd_array_alloc_def get_fd_array_def bind_kassert_if first_none_Some dest: testfd_nat
        split: if_splits option.splits)
  then show ?thesis using t Inr by (auto simp: ftab_ok_def entry_ok_def)
qed

text \<open>Acquiring and releasing an open entry leaves what was done to it in between.\<close>

lemma acquire_ok:
  assumes "ftab_ok f" "i < FILES_STRUCT_NENTRY" "f_status (fd_array f ! i) = FD_OPENED"
  shows "fd_array_acquire f i = Some (set_file f i ((fd_array f ! i)\<lparr>f_open_count := 2\<rparr>))"
  using assms by (auto simp: fd_array_acquire_def ftab_ok_def entry_ok_def Let_def)

lemma release_ok:
  assumes "i < length (fd_array f)" "f_status x = FD_OPENED" "f_open_count x = 2"
  shows "fd_array_release v (set_file f i x) i = Some (v, set_file f i (x\<lparr>f_open_count := 1\<rparr>))"
  using assms by (simp add: fd_array_release_def Let_def)

lemma count_one [simp]: "f_open_count x = 1 \<Longrightarrow> x\<lparr>f_open_count := 1\<rparr> = x"
  by (cases x) simp

lemma transfer_ok:
  assumes t: "ftab_ok f" and i: "i < FILES_STRUCT_NENTRY" and o: "f_status (fd_array f ! i) = FD_OPENED"
    and r: "file_transfer io v f i buf base len = Some (ret, copied, buf', v', f')"
  shows "\<exists>n iob. f_node (fd_array f ! i) = Some n
     \<and> io v n (iobuf_init buf base len (f_pos (fd_array f ! i))) = Some (ret, v', iob)
     \<and> copied = iobuf_used iob \<and> buf' = io_obj iob
     \<and> f' = set_file f i ((fd_array f ! i)\<lparr>f_pos := off_t (f_pos (fd_array f ! i) + int copied)\<rparr>)"
proof -
  have l: "i < length (fd_array f)" using t i by (simp add: ftab_ok_def)
  obtain x where x: "fd_array f ! i = x" "f_open_count x = 1" "f_status x = FD_OPENED"
    using t i o by (auto simp: ftab_ok_def entry_ok_def)
  show ?thesis
    using r acquire_ok [OF t i o] l x
    by (auto simp: file_transfer_def bind_Some_iff Let_def release_ok)
qed

section \<open>Every operation keeps the account\<close>

text \<open>An operation that does not change what the entry holds.\<close>

lemma acct_keep:
  assumes a: "acct rb ob v f" and i: "i < FILES_STRUCT_NENTRY" and s: "vquiet v v'"
    and x: "f_status x = f_status (fd_array f ! i)" "f_node x = f_node (fd_array f ! i)"
      "f_fd x = f_fd (fd_array f ! i)" "f_open_count x = f_open_count (fd_array f ! i)"
  shows "acct rb ob v' (set_file f i x)"
  by (rule acct_set [OF a i _ s]) (use acctD(6) [OF a i] x in \<open>simp_all add: entry_ok_def ent_def\<close>)

lemma transfer_acct:
  assumes a: "acct rb ob v f" and i: "fd2file f fd = Some (Inr i)"
    and r: "file_transfer io v f i buf base len = Some (ret, copied, buf', v', f')"
    and q: "\<And>n iob iob'. io v n iob = Some (ret, v', iob') \<Longrightarrow> vquiet v v'"
  shows "acct rb ob v' f'"
proof -
  note i = fd2file_Inr [OF i]
  obtain n iob where "io v n (iobuf_init buf base len (f_pos (fd_array f ! i))) = Some (ret, v', iob)"
    "f' = set_file f i ((fd_array f ! i)\<lparr>f_pos := off_t (f_pos (fd_array f ! i) + int copied)\<rparr>)"
    using transfer_ok [OF acctD(2) [OF a] _ _ r] i by blast
  then show ?thesis using acct_keep [OF a _ q] i by simp
qed

lemma read_acct:
  assumes a: "acct rb ob v f"
  shows "file_read v f fd buf base len = Some (ret, copied, buf', v', f') \<Longrightarrow> acct rb ob v' f'"
    and "file_write v f fd buf base len = Some (ret, copied, buf', v', f') \<Longrightarrow> acct rb ob v' f'"
proof -
  note v = acctD(1) [OF a]
  {
    assume r: "file_read v f fd buf base len = Some (ret, copied, buf', v', f')"
    then obtain r1 where r1: "fd2file f fd = Some r1" by (auto simp: file_read_def bind_Some_iff)
    show "acct rb ob v' f'"
    proof (cases r1)
      case (Inl e)
      then show ?thesis using r r1 a by (simp add: file_read_def)
    next
      case (Inr i)
      then show ?thesis using r r1 a transfer_acct [OF a _ _ vop_quiet_v(1) [OF v], of fd i]
        by (auto simp: file_read_def split: if_splits)
    qed
  }
  {
    assume r: "file_write v f fd buf base len = Some (ret, copied, buf', v', f')"
    then obtain r1 where r1: "fd2file f fd = Some r1" by (auto simp: file_write_def bind_Some_iff)
    show "acct rb ob v' f'"
    proof (cases r1)
      case (Inl e)
      then show ?thesis using r r1 a by (simp add: file_write_def)
    next
      case (Inr i)
      then show ?thesis using r r1 a transfer_acct [OF a _ _ vop_quiet_v(2) [OF v], of fd i]
        by (auto simp: file_write_def split: if_splits)
    qed
  }
qed

text \<open>The open entry that \<open>fd2file\<close> finds, and acquiring it.\<close>

lemma opened:
  assumes a: "acct rb ob v f" and i: "fd2file f fd = Some (Inr i)"
  obtains x n where "i < FILES_STRUCT_NENTRY" "i < length (fd_array f)" "fd = int i" "fd_array f ! i = x"
    "f_status x = FD_OPENED" "f_open_count x = 1" "f_node x = Some n" "f_fd x = int i"
    "fd_array_acquire f i = Some (set_file f i (x\<lparr>f_open_count := 2\<rparr>))"
  using fd2file_Inr [OF i] acctD(5) [OF a] acctD(6) [OF a, of i] acquire_ok [OF acctD(2) [OF a], of i]
  by (auto simp: entry_ok_def)

lemma seek_acct:
  assumes a: "acct rb ob v f" and r: "file_seek v f fd p whence = Some (ret, v', f')"
  shows "acct rb ob v' f'"
proof -
  obtain r1 where r1: "fd2file f fd = Some r1" using r by (auto simp: file_seek_def bind_Some_iff)
  show ?thesis
  proof (cases r1)
    case (Inl e)
    then show ?thesis using r r1 a by (simp add: file_seek_def)
  next
    case (Inr i)
    obtain x n where x: "i < FILES_STRUCT_NENTRY" "i < length (fd_array f)" "fd_array f ! i = x"
      "f_status x = FD_OPENED" "f_open_count x = 1" "f_node x = Some n"
      "fd_array_acquire f i = Some (set_file f i (x\<lparr>f_open_count := 2\<rparr>))"
      using opened [OF a r1 [unfolded Inr]] .
    let ?x = "x\<lparr>f_open_count := 2\<rparr>"
    obtain t where t: "seek_target v ?x n p whence = Some t"
      using r r1 Inr x by (auto simp: file_seek_def bind_Some_iff Let_def)
    show ?thesis
    proof (cases t)
      case (Inl e)
      then have "v' = v" "f' = set_file f i x"
        using r r1 \<open>r1 = Inr i\<close> x t by (auto simp: file_seek_def Let_def release_ok)
      then show ?thesis using acct_keep [OF a x(1) vquiet_refl [OF acctD(1) [OF a]]] x by simp
    next
      case (Inr q)
      then obtain r2 where r2: "vop_tryseek v n q = Some (r2, v')"
        "f' = set_file f i (case r2 of Inl _ \<Rightarrow> x | Inr _ \<Rightarrow> x\<lparr>f_pos := q\<rparr>)"
        using r r1 \<open>r1 = Inr i\<close> x t by (auto simp: file_seek_def Let_def bind_Some_iff release_ok split: sum.splits)
      then show ?thesis using acct_keep [OF a x(1) vop_quiet_v(6) [OF acctD(1) [OF a] r2(1)]] x
        by (auto split: sum.splits)
    qed
  qed
qed

lemma misc_acct:
  assumes a: "acct rb ob v f"
  shows "file_fstat v f fd = Some (st, v', f') \<Longrightarrow> acct rb ob v' f'"
    and "file_fsync v f fd = Some (ret, v', f') \<Longrightarrow> acct rb ob v' f'"
    and "file_getdirentry al v f fd d = Some (ret', d', v', f') \<Longrightarrow> acct rb ob v' f'"
proof -
  note v = acctD(1) [OF a]
  have rel: "fd_array_release w (set_file f i (x\<lparr>f_open_count := 2\<rparr>)) i = Some (w, set_file f i x)"
    if "i < length (fd_array f)" "f_status x = FD_OPENED" "f_open_count x = 1" for w i x
    using that by (simp add: release_ok)
  {
    assume r: "file_fstat v f fd = Some (st, v', f')"
    obtain r1 where r1: "fd2file f fd = Some r1" using r by (auto simp: file_fstat_def bind_Some_iff)
    show "acct rb ob v' f'"
    proof (cases r1)
      case (Inl e)
      then show ?thesis using r r1 a by (simp add: file_fstat_def)
    next
      case (Inr i)
      from opened [OF a r1 [unfolded Inr]] obtain x n where x: "i < FILES_STRUCT_NENTRY" "i < length (fd_array f)" "fd_array f ! i = x"
        "f_status x = FD_OPENED" "f_open_count x = 1" "f_node x = Some n"
        "fd_array_acquire f i = Some (set_file f i (x\<lparr>f_open_count := 2\<rparr>))" .
      then have "v' = v" "f' = set_file f i x" using r r1 Inr rel by (auto simp: file_fstat_def bind_Some_iff)
      then show ?thesis using acct_keep [OF a x(1) vquiet_refl [OF v]] x by simp
    qed
  }
  {
    assume r: "file_fsync v f fd = Some (ret, v', f')"
    obtain r1 where r1: "fd2file f fd = Some r1" using r by (auto simp: file_fsync_def bind_Some_iff)
    show "acct rb ob v' f'"
    proof (cases r1)
      case (Inl e)
      then show ?thesis using r r1 a by (simp add: file_fsync_def)
    next
      case (Inr i)
      from opened [OF a r1 [unfolded Inr]] obtain x n where x: "i < FILES_STRUCT_NENTRY" "i < length (fd_array f)" "fd_array f ! i = x"
        "f_status x = FD_OPENED" "f_open_count x = 1" "f_node x = Some n"
        "fd_array_acquire f i = Some (set_file f i (x\<lparr>f_open_count := 2\<rparr>))" .
      then have "vop_fsync v n = Some (ret, v')" "f' = set_file f i x"
        using r r1 Inr rel by (auto simp: file_fsync_def bind_Some_iff)
      then show ?thesis using acct_keep [OF a x(1) vop_quiet_v(4) [OF v]] x by simp
    qed
  }
  {
    assume r: "file_getdirentry al v f fd d = Some (ret', d', v', f')"
    obtain r1 where r1: "fd2file f fd = Some r1" using r by (auto simp: file_getdirentry_def bind_Some_iff)
    show "acct rb ob v' f'"
    proof (cases r1)
      case (Inl e)
      then show ?thesis using r r1 a by (simp add: file_getdirentry_def)
    next
      case (Inr i)
      from opened [OF a r1 [unfolded Inr]] obtain x n where x: "i < FILES_STRUCT_NENTRY" "i < length (fd_array f)" "fd_array f ! i = x"
        "f_status x = FD_OPENED" "f_open_count x = 1" "f_node x = Some n"
        "fd_array_acquire f i = Some (set_file f i (x\<lparr>f_open_count := 2\<rparr>))" .
      then obtain iob where "vop_getdirentry al v n (iobuf_init (de_buf d) 0 (SFS_MAX_FNAME_LEN + 1) (de_offset d)) = Some (ret', v', iob)"
        "f' = set_file f i x"
        using r r1 Inr rel by (auto simp: file_getdirentry_def bind_Some_iff Let_def)
      then show ?thesis using acct_keep [OF a x(1) vop_quiet_v(3) [OF v]] x by simp
    qed
  }
qed

lemma close_acct:
  assumes a: "acct rb ob v f" and r: "file_close v f fd = Some (ret, v', f')"
  shows "acct rb ob v' f'"
proof -
  obtain r1 where r1: "fd2file f fd = Some r1" using r by (auto simp: file_close_def bind_Some_iff)
  show ?thesis
  proof (cases r1)
    case (Inl e)
    then show ?thesis using r r1 a by (simp add: file_close_def)
  next
    case (Inr i)
    obtain x n where x: "i < FILES_STRUCT_NENTRY" "i < length (fd_array f)" "fd_array f ! i = x"
      "f_status x = FD_OPENED" "f_open_count x = 1" "f_node x = Some n" "f_fd x = int i"
      using opened [OF a r1 [unfolded Inr]] .
    then have c: "vfs_close v n = Some v'" "f' = set_file f i (x\<lparr>f_open_count := 0, f_status := FD_NONE\<rparr>)"
      using r r1 Inr by (auto simp: file_close_def fd_array_close_def fd_array_free_def Let_def bind_Some_iff)
    show ?thesis unfolding c(2)
      by (rule acct_set [OF a x(1) _ vfs_close_counts [OF c(1) acctD(1) [OF a]]])
        (use x in \<open>auto simp: entry_ok_def ent_def one_def\<close>)
  qed
qed

text \<open>A reference that nobody will drop is one more held from outside.\<close>

lemma lost_acct: "acct rb ob v f \<Longrightarrow> vshifts v v' (one n) (\<lambda>_. 0) \<Longrightarrow> acct (\<lambda>m. rb m + one n m) ob v' f"
  by (auto simp: acct_def vshifts_def one_def)

text \<open>An open with \<open>O_CREAT\<close> and \<open>O_EXCL\<close> that fails because the file exists.\<close>

definition exists_already :: "nat \<Rightarrow> errno + 'a \<Rightarrow> bool" where
  "exists_already flags ret \<longleftrightarrow> (case ret of Inl e \<Rightarrow> e = E_EXISTS \<and> flags AND O_EXCL \<noteq> 0 \<and> flags AND O_CREAT \<noteq> 0 | Inr _ \<Rightarrow> False)"

lemma open_acct:
  assumes a: "acct rb ob v f" and r: "file_open al v f path flags = Some (ret, v', f')"
    and fr: "fresh_ok (k_inode al)"
  shows "acct rb ob v' f' \<or> exists_already flags ret \<and> (\<exists>n. acct (\<lambda>m. rb m + one n m) ob v' f')"
proof -
  note t = acctD(2) [OF a]
  let ?acc = "flags AND O_ACCMODE"
  show ?thesis
  proof (cases "?acc \<noteq> O_RDONLY \<and> ?acc \<noteq> O_WRONLY \<and> ?acc \<noteq> O_RDWR")
    case True
    then show ?thesis using r a by (simp add: file_open_def Let_def)
  next
    case False
    then obtain r1 f1 where al: "fd_array_alloc f NO_FD = Some (r1, f1)"
      using r by (auto simp: file_open_def Let_def bind_Some_iff)
    note ao = alloc_ok [OF t al]
    show ?thesis
    proof (cases r1)
      case (Inl e)
      then show ?thesis using r False al ao a by (auto simp: file_open_def Let_def)
    next
      case (Inr i)
      let ?x = "fd_array f ! i"
      have i: "i < FILES_STRUCT_NENTRY" "i < length (fd_array f)" "f_status ?x = FD_NONE" "f_open_count ?x = 0" "f_fd ?x = int i"
        and f1: "f1 = set_file f i (?x\<lparr>f_status := FD_INIT, f_node := None\<rparr>)"
        using ao Inr t by (auto simp: ftab_ok_def)
      have pf: "pwd f1 = pwd f" using f1 by simp
      obtain r2 v2 where o: "vfs_open al v (pwd f) path flags = Some (r2, v2)"
        using r False al Inr f1 by (auto simp: file_open_def Let_def bind_Some_iff)
      note oc = vfs_open_counts [OF o acctD(1,3) [OF a] fr]
      have none': "acct rb' ob w (set_file f i y)"
        if "acct rb' ob u f" "vquiet u w" "f_status y = FD_NONE" "f_open_count y = 0" "f_fd y = int i" for rb' u w y
        by (rule acct_set [OF that(1) i(1) _ that(2)]) (use that i in \<open>simp_all add: entry_ok_def ent_def\<close>)
      note none = none' [OF a]
      show ?thesis
      proof (cases r2)
        case (Inl e)
        have w: "ret = Inl e" "v' = v2" "f' = set_file f i (?x\<lparr>f_node := None, f_status := FD_NONE\<rparr>)"
          using r False al \<open>r1 = Inr i\<close> f1 o Inl i
          by (auto simp: file_open_def Let_def bind_Some_iff fd_array_free_def)
        have "vquiet v v2 \<or> exists_already flags ret \<and> (\<exists>n. vshifts v v2 (one n) (\<lambda>_. 0))"
          using oc Inl w(1) by (simp add: exists_already_def)
        then show ?thesis
        proof (elim disjE conjE exE)
          assume "vquiet v v2"
          then show ?thesis using none i w by simp
        next
          fix n assume e: "exists_already flags ret" and s: "vshifts v v2 (one n) (\<lambda>_. 0)"
          have "acct (\<lambda>m. rb m + one n m) ob v' f'"
            unfolding w by (rule none' [OF lost_acct [OF a s] vquiet_refl [OF vshifts_ok [OF s]]]) (use i in simp_all)
          then show ?thesis using e by blast
        qed
      next
        case (Inr n)
        then have s: "vshifts v v2 (one n) (one n)" using oc by simp
        have on: "file_open_node v2 f1 i n flags (?acc = O_RDONLY \<or> ?acc = O_RDWR) (?acc = O_WRONLY \<or> ?acc = O_RDWR)
            = Some (ret, v', f')"
          using r False al \<open>r1 = Inr i\<close> o Inr by (simp add: file_open_def Let_def pf)
        then obtain r3 where r3: "(if flags AND O_APPEND \<noteq> 0 then
             do { st \<leftarrow> vop_fstat v2 n; Some (map_sum id (\<lambda>st. off_t (int (st_size st))) st) }
             else Some (Inr 0)) = Some r3"
          by (auto simp: file_open_node_def bind_Some_iff)
        show ?thesis
        proof (cases r3)
          case (Inl e)
          then have c: "vfs_close v2 n = Some v'" and f': "f' = set_file f i (?x\<lparr>f_node := None, f_pos := 0, f_status := FD_NONE\<rparr>)"
            using on r3 f1 i by (auto simp: file_open_node_def bind_Some_iff Let_def fd_array_free_def)
          have "vquiet v v'" using vshifts_trans [OF s vfs_close_counts [OF c vshifts_ok [OF s]]] by simp
          then show ?thesis unfolding f' using none i by simp
        next
          case (Inr p)
          then obtain y where y: "f' = set_file f i y" "f_status y = FD_OPENED" "f_open_count y = 1" "f_node y = Some n"
            "f_fd y = int i" and v': "v' = v2"
            using on r3 f1 i by (auto simp: file_open_node_def Let_def fd_array_open_def)
          show ?thesis unfolding y(1) v'
            by (rule disjI1, rule acct_set [OF a i(1) _ s]) (use y i in \<open>auto simp: entry_ok_def ent_def one_def\<close>)
        qed
      qed
    qed
  qed
qed

lemma vop_both_inc:
  assumes "vfs_ok v" "refs v n > 0"
  shows "vshifts v (vop_open_inc (vop_ref_inc v n) n) (one n) (one n)"
proof -
  note s1 = vop_inc_shifts(1) [OF assms(1) counts_pos [OF assms(2)]]
  have "refs (vop_ref_inc v n) n > 0" using s1 assms(2) by (simp add: vshifts_def one_def)
  from vshifts_trans [OF s1 vop_inc_shifts(2) [OF vshifts_ok [OF s1] counts_pos [OF this]]] show ?thesis by simp
qed

lemma dup_acct:
  assumes a: "acct rb ob v f" and r: "file_dup v f fd1 fd2 = Some (ret, v', f')"
  shows "acct rb ob v' f'"
proof -
  note t = acctD(2) [OF a]
  obtain r1 where r1: "fd2file f fd1 = Some r1" using r by (auto simp: file_dup_def bind_Some_iff)
  show ?thesis
  proof (cases r1)
    case (Inl e)
    then show ?thesis using r r1 a by (simp add: file_dup_def)
  next
    case (Inr i1)
    obtain x n where x: "i1 < FILES_STRUCT_NENTRY" "i1 < length (fd_array f)" "fd_array f ! i1 = x"
      "f_status x = FD_OPENED" "f_open_count x = 1" "f_node x = Some n" "f_fd x = int i1"
      using opened [OF a r1 [unfolded Inr]] .
    obtain r2 f2 where al: "fd_array_alloc f fd2 = Some (r2, f2)"
      using r r1 Inr by (auto simp: file_dup_def bind_Some_iff)
    note ao = alloc_ok [OF t al]
    show ?thesis
    proof (cases r2)
      case (Inl e)
      then show ?thesis using r r1 \<open>r1 = Inr i1\<close> al ao a by (auto simp: file_dup_def)
    next
      case (Inr i)
      let ?y = "fd_array f ! i"
      have i: "i < FILES_STRUCT_NENTRY" "i < length (fd_array f)" "f_status ?y = FD_NONE" "f_open_count ?y = 0" "f_fd ?y = int i"
        and f2: "f2 = set_file f i (?y\<lparr>f_status := FD_INIT, f_node := None\<rparr>)"
        using ao Inr t by (auto simp: ftab_ok_def)
      have "i \<noteq> i1" using i x by auto
      then obtain z where z: "f' = set_file f i z" "f_status z = FD_OPENED" "f_open_count z = 1" "f_node z = Some n" "f_fd z = int i"
        and v': "v' = vop_open_inc (vop_ref_inc v n) n"
        using r r1 \<open>r1 = Inr i1\<close> al Inr f2 i x
        by (auto simp: file_dup_def fd_array_dup_def fd_array_open_def Let_def bind_Some_iff)
      have p: "refs v n > 0" using acct_pos(1) [OF a x(1)] x by simp
      show ?thesis unfolding z(1) v'
        by (rule acct_set [OF a i(1) _ vop_both_inc [OF acctD(1) [OF a] p]])
          (use z i in \<open>auto simp: entry_ok_def ent_def one_def\<close>)
    qed
  qed
qed

lemma chdir_acct:
  assumes a: "acct rb ob v f" and r: "vfs_chdir al v (pwd f) path = Some (ret, cwd', v')" and fr: "fresh_ok (k_inode al)"
  shows "acct rb ob v' (f\<lparr>pwd := cwd'\<rparr>)"
proof -
  note c = chdir_counts [OF r acctD(1,3) [OF a] fr acctD(4) [OF a]]
  have h: "held (f\<lparr>pwd := cwd'\<rparr>) = held f" by (simp add: held_def fun_eq_iff)
  show ?thesis using a c by (auto simp: acct_def h ftab_ok_def)
qed

section \<open>Fork and exit\<close>

text \<open>Every inode the table holds has holders outside, too.\<close>

definition backed :: "(inode \<Rightarrow> int) \<Rightarrow> (inode \<Rightarrow> int) \<Rightarrow> files \<Rightarrow> bool" where
  "backed rb ob f \<longleftrightarrow> (\<forall>i < FILES_STRUCT_NENTRY. \<forall>n. f_status (fd_array f ! i) = FD_OPENED
     \<and> f_node (fd_array f ! i) = Some n \<longrightarrow> rb n > 0 \<and> ob n > 0)
     \<and> (\<forall>n. pwd f = Some n \<longrightarrow> rb n > 0)"

lemma backed_counts: "acct rb ob v f \<Longrightarrow> backed (refs v) (opens v) f"
  using acct_pos acctD(3) unfolding backed_def roots_held_def by blast

lemma ent_le_held:
  assumes "acct rb ob v f" "i < FILES_STRUCT_NENTRY"
  shows "ent (fd_array f ! i) n \<le> held f n"
proof -
  have "fd_array f ! i \<in> set (fd_array f)" using assms acctD(5) by simp
  then show ?thesis unfolding held_def by (intro member_le_sum_list) (auto simp: ent_nonneg)
qed

text \<open>Closing an entry whose inode has other holders returns.\<close>

lemma vfs_close_returns:
  assumes ok: "vfs_ok v" and n: "refs v n > 1" "opens v n > 1"
  shows "\<exists>v'. vfs_close v n = Some v'"
proof -
  obtain v1 where v1: "vop_open_dec v n = Some v1" using opn.dec_returns [OF ok n(2)] by blast
  have "vfs_ok v1" "refs v1 n = refs v n" using vop_open_dec_shifts(1) [OF v1 ok] by (simp_all add: vshifts_def)
  then obtain v2 where "vop_ref_dec v1 n = Some v2" using ref.dec_returns n(1) by fastforce
  then show ?thesis using v1 by (simp add: vfs_close_def)
qed

lemma array_close_ok:
  assumes a: "acct rb ob v f" and b: "backed rb ob f" and i: "i < FILES_STRUCT_NENTRY"
    and o: "f_status (fd_array f ! i) = FD_OPENED"
  shows "\<exists>v' x. fd_array_close v f i = Some (v', set_file f i x) \<and> f_status x = FD_NONE
     \<and> acct rb ob v' (set_file f i x)"
proof -
  obtain x n where x: "fd_array f ! i = x" "f_open_count x = 1" "f_node x = Some n" "f_fd x = int i" "f_status x = FD_OPENED"
    using acctD(6) [OF a i] o by (auto simp: entry_ok_def)
  have l: "i < length (fd_array f)" using i acctD(5) [OF a] by simp
  have "ent x n \<le> held f n" using ent_le_held [OF a i] x(1) by simp
  then have "held f n \<ge> 1" using x by (simp add: ent_def)
  then have "refs v n > 1" "opens v n > 1" using a b i o x by (auto simp: acct_def backed_def)
  then obtain v' where v': "vfs_close v n = Some v'" using vfs_close_returns [OF acctD(1) [OF a]] by blast
  let ?x = "x\<lparr>f_open_count := 0, f_status := FD_NONE\<rparr>"
  have "acct rb ob v' (set_file f i ?x)"
    by (rule acct_set [OF a i _ vfs_close_counts [OF v' acctD(1) [OF a]]])
      (use x in \<open>auto simp: entry_ok_def ent_def one_def\<close>)
  moreover have "fd_array_close v f i = Some (v', set_file f i ?x)"
    using x l v' by (simp add: fd_array_close_def fd_array_free_def Let_def)
  ultimately show ?thesis by (intro exI [of _ v'] exI [of _ ?x]) simp
qed

lemma backed_set: "backed rb ob f \<Longrightarrow> f_status x = FD_NONE \<Longrightarrow> i < length (fd_array f) \<Longrightarrow> backed rb ob (set_file f i x)"
  by (auto simp: backed_def nth_list_update)

lemma destroy_loop_ok:
  assumes "acct rb ob v f" "backed rb ob f" "\<forall>i \<in> set is. i < FILES_STRUCT_NENTRY"
  shows "\<exists>v' f'. destroy_loop v f is = Some (v', f') \<and> acct rb ob v' f' \<and> pwd f' = pwd f
     \<and> (\<forall>i \<in> set is. f_status (fd_array f' ! i) = FD_NONE)
     \<and> (\<forall>i < FILES_STRUCT_NENTRY. f_status (fd_array f ! i) = FD_NONE \<longrightarrow> f_status (fd_array f' ! i) = FD_NONE)"
  using assms
proof (induction "is" arbitrary: v f)
  case Nil
  then show ?case by simp
next
  case (Cons i "is")
  have i: "i < FILES_STRUCT_NENTRY" "i < length (fd_array f)" using Cons.prems(3) acctD(5) [OF Cons.prems(1)] by auto
  show ?case
  proof (cases "f_status (fd_array f ! i) = FD_OPENED")
    case True
    obtain v1 x where x: "fd_array_close v f i = Some (v1, set_file f i x)" "f_status x = FD_NONE" "acct rb ob v1 (set_file f i x)"
      using array_close_ok [OF Cons.prems(1,2) i(1) True] by blast
    obtain v' f' where *: "destroy_loop v1 (set_file f i x) is = Some (v', f')" "acct rb ob v' f'" "pwd f' = pwd f"
      "\<forall>i \<in> set is. f_status (fd_array f' ! i) = FD_NONE"
      "\<forall>j < FILES_STRUCT_NENTRY. f_status (fd_array (set_file f i x) ! j) = FD_NONE \<longrightarrow> f_status (fd_array f' ! j) = FD_NONE"
      using Cons.IH [OF x(3) backed_set [OF Cons.prems(2) x(2) i(2)]] Cons.prems(3) by auto
    moreover have "f_status (fd_array (set_file f i x) ! j) = FD_NONE" if "j = i \<or> f_status (fd_array f ! j) = FD_NONE" for j
      using that i x(2) by (cases "j = i") auto
    ultimately show ?thesis using x(1,2) True i by (auto simp: bind_kassert_if)
  next
    case False
    then have n: "f_status (fd_array f ! i) = FD_NONE" using acctD(6) [OF Cons.prems(1) i(1)] by (auto simp: entry_ok_def)
    then show ?thesis using Cons.IH [OF Cons.prems(1,2)] Cons.prems(3) i by (fastforce simp: bind_kassert_if)
  qed
qed

lemma array_close_pwd:
  "fd_array_close v (f\<lparr>pwd := c\<rparr>) i = map_option (\<lambda>(v, f). (v, f\<lparr>pwd := c\<rparr>)) (fd_array_close v f i)"
  by (auto simp: fd_array_close_def fd_array_free_def Let_def set_file_def bind_kassert_if split: Option.bind_splits)

lemma destroy_loop_pwd:
  "destroy_loop v (f\<lparr>pwd := c\<rparr>) is = map_option (\<lambda>(v, f). (v, f\<lparr>pwd := c\<rparr>)) (destroy_loop v f is)"
  by (induction "is" arbitrary: v f) (auto simp: array_close_pwd bind_kassert_if split: option.splits bind_splits)

lemma held_none:
  assumes "\<forall>x \<in> set (fd_array f). f_status x = FD_NONE"
  shows "held f n = 0"
proof -
  have "map (\<lambda>x. ent x n) (fd_array f) = map (\<lambda>_. 0) (fd_array f)" using assms by (simp add: ent_def)
  then show ?thesis unfolding held_def by (simp add: map_replicate_const sum_list_replicate)
qed

lemma acct_closed:
  assumes a: "acct rb ob v f" and n: "\<forall>i < FILES_STRUCT_NENTRY. f_status (fd_array f ! i) = FD_NONE" "pwd f = None"
  shows "refs v = rb \<and> opens v = ob"
proof -
  have "held f m = 0" for m
    by (rule held_none) (use n acctD(5) [OF a] in \<open>auto simp: in_set_conv_nth\<close>)
  then show ?thesis using a n(2) by (auto simp: acct_def fun_eq_iff)
qed

lemma files_destroy_ok:
  assumes a: "acct rb ob v f" and b: "backed rb ob f" and c: "files_count f = 0"
  shows "\<exists>v'. files_destroy v f = Some v' \<and> refs v' = rb \<and> opens v' = ob"
proof -
  obtain v1 where v1: "(case pwd f of None \<Rightarrow> Some v | Some n \<Rightarrow> vop_ref_dec v n) = Some v1"
    and a1: "acct rb ob v1 (f\<lparr>pwd := None\<rparr>)"
  proof (cases "pwd f")
    case None
    then have "f\<lparr>pwd := None\<rparr> = f" by simp
    with a have "acct rb ob v (f\<lparr>pwd := None\<rparr>)" by (simp only:)
    then show ?thesis using that [of v] None by simp
  next
    case (Some n)
    have "refs v n > 1" using a b Some held_nonneg [of f n] by (auto simp: acct_def backed_def)
    then obtain v1 where v1: "vop_ref_dec v n = Some v1" using ref.dec_returns [OF acctD(1) [OF a]] by blast
    have h: "held (f\<lparr>pwd := None\<rparr>) = held f" by (simp add: held_def fun_eq_iff)
    have "acct rb ob v1 (f\<lparr>pwd := None\<rparr>)"
      using a vop_ref_dec_shifts(1) [OF v1 acctD(1) [OF a]] Some
      by (auto simp: acct_def vshifts_def h ftab_ok_def one_def)
    then show ?thesis using that [of v1] v1 Some by simp
  qed
  have b1: "backed rb ob (f\<lparr>pwd := None\<rparr>)" using b by (simp add: backed_def)
  obtain v2 f2 where d: "destroy_loop v1 (f\<lparr>pwd := None\<rparr>) [0 ..< FILES_STRUCT_NENTRY] = Some (v2, f2)" "acct rb ob v2 f2"
    "pwd f2 = None" "\<forall>i < FILES_STRUCT_NENTRY. f_status (fd_array f2 ! i) = FD_NONE"
    using destroy_loop_ok [OF a1 b1, of "[0 ..< FILES_STRUCT_NENTRY]"] by auto
  have "\<exists>f3. destroy_loop v1 f [0 ..< FILES_STRUCT_NENTRY] = Some (v2, f3)"
    using d(1) by (auto simp: destroy_loop_pwd)
  then show ?thesis using v1 c acct_closed [OF d(2,4,3)] by (auto simp: files_destroy_def)
qed

text \<open>The new table: what \<open>files_create\<close> makes.\<close>

lemma init_from:
  "length (fd_array_init_from k xs) = length xs"
  "i < length xs \<Longrightarrow> fd_array_init_from k xs ! i = (xs ! i)\<lparr>f_open_count := 0, f_status := FD_NONE, f_fd := int (k + i)\<rparr>"
  by (induction k xs arbitrary: i rule: fd_array_init_from.induct) (auto simp: nth_Cons split: nat.splits)

lemma create_acct:
  assumes c: "files_create arr = Some to" and l: "length (the arr) = FILES_STRUCT_NENTRY" and a: "acct rb ob v f"
  shows "acct (refs v) (opens v) v to \<and> files_count to = 0 \<and> pwd to = None
     \<and> (\<forall>i < FILES_STRUCT_NENTRY. f_status (fd_array to ! i) = FD_NONE)"
proof -
  obtain xs where xs: "arr = Some xs" "to = \<lparr>pwd = None, fd_array = fd_array_init xs, files_count = 0\<rparr>"
    using c by (auto simp: files_create_def)
  have e: "entry_ok i (fd_array to ! i)" "f_status (fd_array to ! i) = FD_NONE" if "i < FILES_STRUCT_NENTRY" for i
    using that xs l init_from(2) [of i xs 0] by (simp_all add: entry_ok_def fd_array_init_def)
  have len: "length (fd_array to) = FILES_STRUCT_NENTRY" using xs l by (simp add: fd_array_init_def init_from)
  have h: "held to n = 0" for n
    by (rule held_none) (use e(2) len in \<open>auto simp: in_set_conv_nth\<close>)
  have "ftab_ok to" using e len by (simp add: ftab_ok_def)
  moreover have "pwd to = None" "files_count to = 0" using xs(2) by simp_all
  moreover have "\<forall>n. refs v n \<ge> 0 \<and> opens v n \<ge> 0"
    using acctD(4) [OF a] held_nonneg [of f] a by (simp add: acct_def)
  moreover have "\<forall>n. bootfs_node v = Some n \<longrightarrow> refs v n > 0" using acctD(3) [OF a] by (simp add: roots_held_def)
  ultimately show ?thesis using acctD(1) [OF a] e(2) by (simp add: acct_def h)
qed

lemma acct_pwd:
  assumes a: "acct rb ob v f" and p: "pwd f = None" and n: "rb n > 0"
  shows "acct rb ob (vop_ref_inc v n) (f\<lparr>pwd := Some n\<rparr>)"
proof -
  have h: "held (f\<lparr>pwd := Some n\<rparr>) = held f" by (simp add: held_def fun_eq_iff)
  have "refs v n > 0" using a n held_nonneg [of f n] by (simp add: acct_def)
  then show ?thesis using a p vop_inc_shifts(1) [OF acctD(1) [OF a] counts_pos]
    by (auto simp: acct_def vshifts_def h ftab_ok_def one_def)
qed

text \<open>A copied entry.\<close>

definition same_file :: "file_t \<Rightarrow> file_t \<Rightarrow> bool" where
  "same_file x y \<longleftrightarrow> (if f_status y = FD_OPENED then f_status x = FD_OPENED \<and> f_node x = f_node y
     \<and> f_pos x = f_pos y \<and> f_readable x = f_readable y \<and> f_writable x = f_writable y
     else f_status x = FD_NONE)"

lemma dup_loop_ok:
  assumes "acct rb ob v to" "backed rb ob f" "ftab_ok f" "distinct is" "\<forall>i \<in> set is. i < FILES_STRUCT_NENTRY"
    and "\<forall>i \<in> set is. f_status (fd_array to ! i) = FD_NONE"
  shows "\<exists>v' to'. dup_loop v to f is = Some (v', to') \<and> acct rb ob v' to'
     \<and> pwd to' = pwd to \<and> files_count to' = files_count to
     \<and> (\<forall>i \<in> set is. same_file (fd_array to' ! i) (fd_array f ! i))
     \<and> (\<forall>i. i \<notin> set is \<longrightarrow> fd_array to' ! i = fd_array to ! i)"
  using assms
proof (induction "is" arbitrary: v to)
  case Nil
  then show ?case by simp
next
  case (Cons i "is")
  have i: "i < FILES_STRUCT_NENTRY" "i < length (fd_array to)" using Cons.prems(5) acctD(5) [OF Cons.prems(1)] by auto
  show ?case
  proof (cases "f_status (fd_array f ! i) = FD_OPENED")
    case False
    have "same_file (fd_array to ! i) (fd_array f ! i)" using False Cons.prems(6) by (simp add: same_file_def)
    moreover have "i \<notin> set is" using Cons.prems(4) by simp
    ultimately show ?thesis using Cons.IH [OF Cons.prems(1-3)] Cons.prems(4-6) False by fastforce
  next
    case True
    obtain n where n: "f_node (fd_array f ! i) = Some n" using True Cons.prems(3) i by (fastforce simp: ftab_ok_def entry_ok_def)
    let ?t = "fd_array to ! i" and ?y = "fd_array f ! i"
    have t: "f_status ?t = FD_NONE" "f_open_count ?t = 0" "f_fd ?t = int i"
      using Cons.prems(6) acctD(6) [OF Cons.prems(1) i(1)] by (auto simp: entry_ok_def)
    have rb: "rb n > 0" using Cons.prems(2) True n i by (simp add: backed_def)
    then have r: "refs v n > 0" using Cons.prems(1) held_nonneg [of to n] by (simp add: acct_def)
    define z where "z = ?t\<lparr>f_pos := f_pos ?y, f_readable := f_readable ?y, f_writable := f_writable ?y, f_node := Some n,
       f_status := FD_OPENED, f_open_count := 1\<rparr>"
    let ?v = "vop_open_inc (vop_ref_inc v n) n"
    have d: "fd_array_dup v (set_file to i (?t\<lparr>f_status := FD_INIT\<rparr>)) i ?y = Some (?v, set_file to i z)"
      using True n i t by (simp add: fd_array_dup_def fd_array_open_def Let_def z_def)
    have a: "acct rb ob ?v (set_file to i z)"
      by (rule acct_set [OF Cons.prems(1) i(1) _ vop_both_inc [OF acctD(1) [OF Cons.prems(1)] r]])
        (use t in \<open>auto simp: z_def entry_ok_def ent_def one_def\<close>)
    have ni: "i \<notin> set is" using Cons.prems(4) by simp
    have rest: "\<forall>j \<in> set is. f_status (fd_array (set_file to i z) ! j) = FD_NONE"
      using Cons.prems(6) ni by (auto simp: nth_list_update) (metis nth_list_update_neq)
    have "distinct is" "\<forall>i \<in> set is. i < FILES_STRUCT_NENTRY" using Cons.prems(4,5) by simp_all
    from Cons.IH [OF a Cons.prems(2,3) this rest]
    obtain v' to' where *: "dup_loop ?v (set_file to i z) f is = Some (v', to')" "acct rb ob v' to'"
      "pwd to' = pwd to" "files_count to' = files_count to" "\<forall>i \<in> set is. same_file (fd_array to' ! i) (fd_array f ! i)"
      "\<forall>j. j \<notin> set is \<longrightarrow> fd_array to' ! j = fd_array (set_file to i z) ! j" by auto
    have "fd_array to' ! i = z" using *(6) ni i by simp
    moreover have "same_file z ?y" using True n by (simp add: same_file_def z_def)
    ultimately show ?thesis using * d True by auto
  qed
qed

lemma dup_files_ok:
  assumes a: "acct rb ob v f" and c: "files_count f > 0" and n: "files_create arr = Some to"
    and l: "length (the arr) = FILES_STRUCT_NENTRY"
  shows "\<exists>v' to'. dup_files v to f = Some (v', to') \<and> acct (refs v) (opens v) v' to' \<and> backed (refs v) (opens v) to'
     \<and> pwd to' = pwd f \<and> files_count to' = 0
     \<and> (\<forall>i < FILES_STRUCT_NENTRY. same_file (fd_array to' ! i) (fd_array f ! i))"
proof -
  note new = create_acct [OF n l a]
  define v1 where "v1 = (case pwd f of None \<Rightarrow> v | Some n \<Rightarrow> vop_ref_inc v n)"
  have a1: "acct (refs v) (opens v) v1 (to\<lparr>pwd := pwd f\<rparr>)"
  proof (cases "pwd f")
    case None
    then have "to\<lparr>pwd := pwd f\<rparr> = to" using new by simp
    then show ?thesis using new None by (simp only: v1_def) simp
  next
    case (Some m)
    then have "refs v m > 0" using acctD(3) [OF a] by (simp add: roots_held_def)
    then show ?thesis using acct_pwd [of "refs v" "opens v" v to m] new Some by (simp add: v1_def)
  qed
  note b = backed_counts [OF a]
  obtain v' to' where d: "dup_loop v1 (to\<lparr>pwd := pwd f\<rparr>) f [0 ..< FILES_STRUCT_NENTRY] = Some (v', to')"
    "acct (refs v) (opens v) v' to'" "pwd to' = pwd f" "files_count to' = 0"
    "\<forall>i < FILES_STRUCT_NENTRY. same_file (fd_array to' ! i) (fd_array f ! i)"
    using dup_loop_ok [OF a1 b acctD(2) [OF a], of "[0 ..< FILES_STRUCT_NENTRY]"] new by auto
  have s: "f_status (fd_array to' ! i) = FD_OPENED \<Longrightarrow> i < FILES_STRUCT_NENTRY \<Longrightarrow>
      f_status (fd_array f ! i) = FD_OPENED \<and> f_node (fd_array f ! i) = f_node (fd_array to' ! i)" for i
    using d(5) by (auto simp: same_file_def split: if_splits)
  have "backed (refs v) (opens v) to'"
    using b s d(3) unfolding backed_def by fastforce
  then show ?thesis using d c new by (auto simp: dup_files_def v1_def [symmetric])
qed

section \<open>Properties\<close>

text \<open>
  One call of the file layer; the label says whether it was an open that failed because the file
  exists.
\<close>

inductive file_step :: "bool \<Rightarrow> vfs \<times> files \<Rightarrow> vfs \<times> files \<Rightarrow> bool" where
  step_open: "fresh_ok (k_inode al) \<Longrightarrow> file_open al v f path flags = Some (ret, v', f') \<Longrightarrow>
    file_step (exists_already flags ret) (v, f) (v', f')"
| step_close: "file_close v f fd = Some (r1, v', f') \<Longrightarrow> file_step False (v, f) (v', f')"
| step_read: "file_read v f fd buf base len = Some (r2, copied, buf', v', f') \<Longrightarrow> file_step False (v, f) (v', f')"
| step_write: "file_write v f fd buf base len = Some (r2, copied, buf', v', f') \<Longrightarrow> file_step False (v, f) (v', f')"
| step_seek: "file_seek v f fd p whence = Some (r1, v', f') \<Longrightarrow> file_step False (v, f) (v', f')"
| step_fstat: "file_fstat v f fd = Some (st, v', f') \<Longrightarrow> file_step False (v, f) (v', f')"
| step_fsync: "file_fsync v f fd = Some (r1, v', f') \<Longrightarrow> file_step False (v, f) (v', f')"
| step_getdirentry: "file_getdirentry al v f fd d = Some (r2, d', v', f') \<Longrightarrow> file_step False (v, f) (v', f')"
| step_dup: "file_dup v f fd1 fd2 = Some (ret, v', f') \<Longrightarrow> file_step False (v, f) (v', f')"
| step_chdir: "fresh_ok (k_inode al) \<Longrightarrow> vfs_chdir al v (pwd f) path = Some (r1, cwd, v') \<Longrightarrow>
    file_step False (v, f) (v', f\<lparr>pwd := cwd\<rparr>)"

inductive_cases file_stepE: "file_step lost (v, f) (v', f')"

lemma file_step_acct:
  "file_step lost (v, f) (v', f') \<Longrightarrow> acct rb ob v f \<Longrightarrow> acct rb ob v' f' \<or> lost \<and> (\<exists>n. acct (\<lambda>m. rb m + one n m) ob v' f')"
  by (erule file_stepE)
    (blast intro: close_acct read_acct seek_acct misc_acct dup_acct chdir_acct dest: open_acct)+

text \<open>Calls one after the other, and how many of them were such opens.\<close>

inductive file_run :: "vfs \<times> files \<Rightarrow> nat \<Rightarrow> vfs \<times> files \<Rightarrow> bool" where
  run_none: "file_run s 0 s"
| run_more: "file_run s k t \<Longrightarrow> file_step lost t u \<Longrightarrow> file_run s (k + of_bool lost) u"

text \<open>A table with nothing open, and the devices \<open>stdin\<close> and \<open>stdout\<close>.\<close>

definition ex_files :: files where
  "ex_files = \<lparr>pwd = None, fd_array = fd_array_init (replicate FILES_STRUCT_NENTRY
     \<lparr>f_status = FD_CLOSED, f_readable = False, f_writable = False, f_fd = 0, f_pos = 0, f_node = None, f_open_count = 5\<rparr>),
     files_count = 1\<rparr>"

definition ex_vfs :: vfs where
  "ex_vfs = \<lparr>mnts = (\<lambda>_. None), devs = [0 \<mapsto> \<lparr>dn_class = Stdin, dn_ref = 1, dn_open = 0\<rparr>],
     vdev_list = [\<lparr>devname = [115, 105], devnode = Some (Dnode 0), vd_fs = None, mountable = False\<rparr>],
     bootfs_node = None, console = ex_tty, disk = \<lparr>d_blocks = 0, d_blocksize = 1, d_ide = \<lparr>valid = False, secs = 0, store = (\<lambda>_. 0)\<rparr>\<rparr>\<rparr>"

definition ex_alloc :: kalloc where "ex_alloc = \<lparr>k_mem = True, k_inode = (\<lambda>_. None)\<rparr>"

lemma ex_entry:
  "i < FILES_STRUCT_NENTRY \<Longrightarrow> fd_array ex_files ! i = \<lparr>f_status = FD_NONE, f_readable = False, f_writable = False,
     f_fd = int i, f_pos = 0, f_node = None, f_open_count = 0\<rparr>"
  "length (fd_array ex_files) = FILES_STRUCT_NENTRY" "0 < FILES_STRUCT_NENTRY"
  by (simp_all add: ex_files_def fd_array_init_def init_from) (simp add: FILES_STRUCT_NENTRY_def FILES_STRUCT_BUFSIZE_def)

lemma ex_acct: "acct (one (Dnode 0)) (\<lambda>_. 0) ex_vfs ex_files"
proof -
  note e = ex_entry(1) and l = ex_entry(2)
  have h: "held ex_files n = 0" for n
    by (rule held_none) (use e l in \<open>auto simp: in_set_conv_nth\<close>)
  have "ftab_ok ex_files" using e l by (simp add: ftab_ok_def entry_ok_def)
  moreover have "vfs_ok ex_vfs" by (simp add: vfs_ok_def ex_vfs_def)
  moreover have "refs ex_vfs n = one (Dnode 0) n \<and> opens ex_vfs n = 0" for n
    by (cases n) (auto simp: ex_vfs_def one_def)
  moreover have "pwd ex_files = None" "bootfs_node ex_vfs = None" by (simp_all add: ex_files_def ex_vfs_def)
  ultimately show ?thesis by (simp add: acct_def h) (simp add: one_def)
qed

lemma ex_lookup: "vfs_lookup ex_alloc ex_vfs None [115, 105, 58] = Some (Inr (Dnode 0), [115, 105], vop_ref_inc ex_vfs (Dnode 0))"
proof -
  have ne: "(115 :: byte) \<noteq> 58" "(115 :: byte) \<noteq> 47" "(105 :: byte) \<noteq> 58" "(105 :: byte) \<noteq> 47" by simp_all
  have sc: "scan_path [115, 105, 58] 0 = (-1, 2)" by (simp add: ne)
  have "get_device ex_alloc ex_vfs None [115, 105, 58] = Some (Inr ([], Dnode 0), [115, 105], vop_ref_inc ex_vfs (Dnode 0))"
    by (simp add: get_device_def sc Let_def vfs_get_root_def ex_vfs_def)
  then show ?thesis by (simp add: vfs_lookup_def)
qed

lemma ex_open:
  "\<exists>v' f'. file_open ex_alloc ex_vfs ex_files [115, 105, 58] O_RDONLY = Some (Inr 0, v', f') \<and> refs v' (Dnode 0) = 2
     \<and> files_count f' = 1 \<and> pwd f' = None \<and> f_status (fd_array f' ! 0) = FD_OPENED \<and> f_node (fd_array f' ! 0) = Some (Dnode 0)"
proof -
  obtain x xs where x: "fd_array ex_files = x # xs" "f_status x = FD_NONE" "f_open_count x = 0" "f_fd x = 0"
    using ex_entry(1) [OF ex_entry(3)] ex_entry(2,3) by (cases "fd_array ex_files") auto
  have al: "fd_array_alloc ex_files NO_FD = Some (Inr 0, set_file ex_files 0 (x\<lparr>f_status := FD_INIT, f_node := None\<rparr>))"
    using x by (simp add: fd_array_alloc_def get_fd_array_def ex_files_def)
  have op: "open_node (vop_ref_inc ex_vfs (Dnode 0)) (Dnode 0) O_RDONLY
     = Some (Inr (Dnode 0), vop_open_inc (vop_ref_inc ex_vfs (Dnode 0)) (Dnode 0))"
    by (simp add: open_node_def vop_open_def vop_check_def inode_counts_def vop_ref_inc_def ex_vfs_def MAX_INODE_COUNT_def
        dev_open_def dop_open_def stdin_open_def O_RDONLY_def)
  have "vfs_open ex_alloc ex_vfs None [115, 105, 58] O_RDONLY
     = Some (Inr (Dnode 0), vop_open_inc (vop_ref_inc ex_vfs (Dnode 0)) (Dnode 0))"
    using ex_lookup op by (simp add: vfs_open_def Let_def O_RDONLY_def O_EXCL_def O_CREAT_def O_TRUNC_def)
  then show ?thesis using al x
    by (simp add: file_open_def Let_def O_RDONLY_def file_open_node_def fd_array_open_def ex_files_def
        vop_open_inc_def vop_ref_inc_def ex_vfs_def)
qed

lemma ex_step:
  "file_open ex_alloc ex_vfs ex_files [115, 105, 58] O_RDONLY = Some (ret, v, f) \<Longrightarrow> file_step False (ex_vfs, ex_files) (v, f)"
  using step_open [of ex_alloc ex_vfs ex_files "[115, 105, 58]" O_RDONLY ret v f]
  by (auto simp: exists_already_def fresh_ok_def ex_alloc_def O_RDONLY_def split: sum.splits)

text \<open>
  C25. The account between open files and inodes.  In every state that calls of the file layer reach,
  in any order and with any arguments, from a balanced one, every reference and every open of every
  inode is accounted for: by a holder outside the table, by one open descriptor each, by the
  current directory, or by a list \<open>lost\<close> of references nobody will ever drop, at most one for each \<open>open\<close> with
  \<open>O_CREAT | O_EXCL\<close> of a file that exists; without such an \<open>open\<close> the account is exact.  The table is
  well-formed, so that no assertion about an entry's opener count can fail in the next call.
\<close>

theorem file_ops_keep_account:
  assumes "file_run (v, f) k (v', f')" and "acct rb ob v f"
  shows "\<exists>lost. length lost \<le> k \<and> acct (\<lambda>n. rb n + int (count_list lost n)) ob v' f'"
proof -
  have "acct rb ob (fst s) (snd s) \<Longrightarrow> \<exists>lost. length lost \<le> k \<and> acct (\<lambda>n. rb n + int (count_list lost n)) ob (fst t) (snd t)"
    if "file_run s k t" for s k t
    using that
  proof induction
    case (run_none s)
    then show ?case by (intro exI [of _ "[]"]) simp
  next
    case (run_more s k t lost u)
    then obtain ls where ls: "length ls \<le> k" "acct (\<lambda>n. rb n + int (count_list ls n)) ob (fst t) (snd t)" by blast
    have "file_step lost (fst t, snd t) (fst u, snd u)" using run_more.hyps(2) by simp
    from file_step_acct [OF this ls(2)] show ?case
    proof (elim disjE conjE exE)
      fix n assume n: "lost" "acct (\<lambda>m. rb m + int (count_list ls m) + one n m) ob (fst u) (snd u)"
      have "(\<lambda>m. rb m + int (count_list ls m) + one n m) = (\<lambda>m. rb m + int (count_list (n # ls) m))" by (auto simp: one_def)
      then show ?thesis using n ls(1) by (intro exI [of _ "n # ls"]) simp
    next
      assume "acct (\<lambda>n. rb n + int (count_list ls n)) ob (fst u) (snd u)"
      then show ?thesis using ls(1) by (intro exI [of _ ls]) simp
    qed
  qed
  from this [OF assms(1)] assms(2) show ?thesis by simp
qed

theorem file_ops_keep_account_witness:
  "\<exists>v' f'. file_run (ex_vfs, ex_files) 0 (v', f') \<and> refs v' (Dnode 0) = 2 \<and> acct (one (Dnode 0)) (\<lambda>_. 0) v' f'"
proof -
  obtain v' f' where o: "file_open ex_alloc ex_vfs ex_files [115, 105, 58] O_RDONLY = Some (Inr 0, v', f')" "refs v' (Dnode 0) = 2"
    using ex_open by blast
  have "file_run (ex_vfs, ex_files) 0 (v', f')" using run_more [OF run_none ex_step [OF o(1)]] by simp
  then show ?thesis using o file_ops_keep_account [OF _ ex_acct] by fastforce
qed

text \<open>
  C26. Fork and exit.  Copying the table of a process to a new one never fails an assertion; the copy
  has exactly the open descriptors of the original, each on the same inode at the same position
  with the same access, and the same current directory; and when the copy is destroyed, which
  returns, every inode has the counts it had before.
\<close>

theorem fork_exit_restores_counts:
  assumes "acct rb ob v f" "files_count f > 0" "files_create arr = Some to" "length (the arr) = FILES_STRUCT_NENTRY"
  shows "\<exists>v1 to' v2. dup_files v to f = Some (v1, to') \<and> pwd to' = pwd f
     \<and> (\<forall>i < FILES_STRUCT_NENTRY. same_file (fd_array to' ! i) (fd_array f ! i))
     \<and> files_destroy v1 to' = Some v2 \<and> refs v2 = refs v \<and> opens v2 = opens v"
  using dup_files_ok [OF assms] files_destroy_ok by fastforce

theorem fork_exit_restores_counts_witness:
  "\<exists>v f v1 to' v2. file_step False (ex_vfs, ex_files) (v, f) \<and> refs v (Dnode 0) = 2
     \<and> dup_files v (ex_files\<lparr>files_count := 0\<rparr>) f = Some (v1, to') \<and> f_node (fd_array to' ! 0) = Some (Dnode 0)
     \<and> files_destroy v1 to' = Some v2 \<and> refs v2 (Dnode 0) = 2"
proof -
  obtain v f where o: "file_open ex_alloc ex_vfs ex_files [115, 105, 58] O_RDONLY = Some (Inr 0, v, f)" "refs v (Dnode 0) = 2"
    "files_count f = 1" "f_status (fd_array f ! 0) = FD_OPENED" "f_node (fd_array f ! 0) = Some (Dnode 0)"
    using ex_open by blast
  have s: "file_step False (ex_vfs, ex_files) (v, f)" by (rule ex_step [OF o(1)])
  have a: "acct (one (Dnode 0)) (\<lambda>_. 0) v f" using file_step_acct [OF s ex_acct] by simp
  let ?arr = "replicate FILES_STRUCT_NENTRY
     \<lparr>f_status = FD_CLOSED, f_readable = False, f_writable = False, f_fd = 0, f_pos = 0, f_node = None, f_open_count = 5\<rparr>"
  have c: "files_create (Some ?arr) = Some (ex_files\<lparr>files_count := 0\<rparr>)"
    by (simp add: files_create_def ex_files_def)
  have fc: "files_count f > 0" "length (the (Some ?arr)) = FILES_STRUCT_NENTRY" using o(3) by simp_all
  obtain v1 to' v2 where *: "dup_files v (ex_files\<lparr>files_count := 0\<rparr>) f = Some (v1, to')"
    "\<forall>i < FILES_STRUCT_NENTRY. same_file (fd_array to' ! i) (fd_array f ! i)" "files_destroy v1 to' = Some v2" "refs v2 = refs v"
    using fork_exit_restores_counts [OF a fc(1) c fc(2)] by blast
  have "same_file (fd_array to' ! 0) (fd_array f ! 0)" using *(2) ex_entry(3) by blast
  then have "f_node (fd_array to' ! 0) = Some (Dnode 0)" using o(4,5) by (simp add: same_file_def)
  moreover have "refs v2 (Dnode 0) = 2" using *(4) o(2) by simp
  ultimately show ?thesis using * o(2) s by blast
qed

text \<open>
  \<open>open\<close> takes the lowest free descriptor: in a well-formed table the allocation without a wish
  never fails an assertion, delivers the first unused entry, made ready, and reports \<open>E_MAX_OPEN\<close>
  exactly when all are in use; a wish for a descriptor is granted exactly when it is a valid,
  unused one.
\<close>

lemma fd_alloc_lowest:
  assumes "ftab_ok f" "files_count f > 0"
  shows "\<exists>ret f'. fd_array_alloc f fd = Some (ret, f') \<and> (case ret of
       Inl e \<Rightarrow> f' = f \<and> (if fd = NO_FD then e = E_MAX_OPEN \<and> (\<forall>i < FILES_STRUCT_NENTRY. f_status (fd_array f ! i) = FD_OPENED)
         else e = (if testfd fd then E_BUSY else E_INVAL) \<and> (testfd fd \<longrightarrow> f_status (fd_array f ! nat fd) = FD_OPENED))
     | Inr i \<Rightarrow> i < FILES_STRUCT_NENTRY \<and> f_status (fd_array f ! i) = FD_NONE
         \<and> (if fd = NO_FD then \<forall>j < i. f_status (fd_array f ! j) = FD_OPENED else fd = int i)
         \<and> f' = set_file f i ((fd_array f ! i)\<lparr>f_status := FD_INIT, f_node := None\<rparr>))"
proof -
  have l: "length (fd_array f) = FILES_STRUCT_NENTRY" using assms(1) by (simp add: ftab_ok_def)
  have e: "f_status (fd_array f ! i) = FD_NONE \<and> f_open_count (fd_array f ! i) = 0 \<or> f_status (fd_array f ! i) = FD_OPENED"
    if "i < FILES_STRUCT_NENTRY" for i
    using assms(1) that by (auto simp: ftab_ok_def entry_ok_def)
  have g: "get_fd_array f = Some (fd_array f)" using assms(2) by (simp add: get_fd_array_def)
  show ?thesis
  proof (cases "fd = NO_FD")
    case True
    show ?thesis
    proof (cases "first_none (fd_array f) 0")
      case None
      then have "\<forall>i < FILES_STRUCT_NENTRY. f_status (fd_array f ! i) \<noteq> FD_NONE" using l by (auto simp: first_none_None)
      then have "\<forall>i < FILES_STRUCT_NENTRY. f_status (fd_array f ! i) = FD_OPENED" using e by blast
      then show ?thesis using True None g by (simp add: fd_array_alloc_def)
    next
      case (Some i)
      then have i: "i < FILES_STRUCT_NENTRY" "f_status (fd_array f ! i) = FD_NONE" "\<forall>j < i. f_status (fd_array f ! j) \<noteq> FD_NONE"
        using l by (auto simp: first_none_Some)
      then have "\<forall>j < i. f_status (fd_array f ! j) = FD_OPENED" using e less_trans by blast
      then show ?thesis using True Some g i e [OF i(1)] by (simp add: fd_array_alloc_def)
    qed
  next
    case False
    then show ?thesis using g e [of "nat fd"] testfd_nat [of fd] by (auto simp: fd_array_alloc_def bind_kassert_if)
  qed
qed

lemma fd_alloc_lowest_witness:
  "\<exists>f'. fd_array_alloc ex_files NO_FD = Some (Inr 0, f')"
proof -
  have t: "ftab_ok ex_files" "files_count ex_files > 0" using acctD(2) [OF ex_acct] by (simp_all add: ex_files_def)
  have s: "f_status (fd_array ex_files ! 0) = FD_NONE" by (simp add: ex_entry)
  obtain ret f' where *: "fd_array_alloc ex_files NO_FD = Some (ret, f')" "case ret of
       Inl e \<Rightarrow> f' = ex_files \<and> e = E_MAX_OPEN \<and> (\<forall>i < FILES_STRUCT_NENTRY. f_status (fd_array ex_files ! i) = FD_OPENED)
     | Inr i \<Rightarrow> i < FILES_STRUCT_NENTRY \<and> f_status (fd_array ex_files ! i) = FD_NONE
         \<and> (\<forall>j < i. f_status (fd_array ex_files ! j) = FD_OPENED)
         \<and> f' = set_file ex_files i ((fd_array ex_files ! i)\<lparr>f_status := FD_INIT, f_node := None\<rparr>)"
    using fd_alloc_lowest [OF t, of NO_FD] by (auto cong: sum.case_cong)
  have "ret = Inr 0"
  proof (cases ret)
    case (Inl e)
    then show ?thesis using *(2) s ex_entry(3) by fastforce
  next
    case (Inr i)
    then have "\<not> 0 < i" using *(2) s by fastforce
    then show ?thesis using Inr by simp
  qed
  then show ?thesis using *(1) by blast
qed

text \<open>
  \<open>open\<close> with \<open>O_CREAT | O_EXCL\<close> of a path that exists fails with \<open>E_EXISTS\<close>, as it should, and gives
  its descriptor back, but the reference that the lookup took on the inode is never dropped: the
  inode has one reference more than holders.
\<close>

lemma open_excl_leaks:
  assumes a: "acct rb ob v f" and c: "files_count f > 0" and free: "i < FILES_STRUCT_NENTRY" "f_status (fd_array f ! i) = FD_NONE"
    and fl: "flags AND O_ACCMODE = O_RDONLY \<or> flags AND O_ACCMODE = O_WRONLY \<or> flags AND O_ACCMODE = O_RDWR"
      "flags AND O_TRUNC = 0" "flags AND O_EXCL \<noteq> 0" "flags AND O_CREAT \<noteq> 0"
    and l: "vfs_lookup al v (pwd f) path = Some (Inr n, path', v1)" and fr: "fresh_ok (k_inode al)"
  shows "\<exists>f'. file_open al v f path flags = Some (Inl E_EXISTS, v1, f') \<and> held f' = held f \<and> pwd f' = pwd f
     \<and> ftab_ok f' \<and> refs v1 n = rb n + held f' n + of_bool (pwd f' = Some n) + 1"
proof -
  note t = acctD(2) [OF a]
  have len: "length (fd_array f) = FILES_STRUCT_NENTRY" using acctD(5) [OF a] by simp
  have "first_none (fd_array f) 0 \<noteq> None"
    using free len unfolding first_none_None by (metis nth_mem)
  then obtain j where j: "first_none (fd_array f) 0 = Some j" by blast
  then have s: "j < FILES_STRUCT_NENTRY" "f_status (fd_array f ! j) = FD_NONE" using len by (auto simp: first_none_Some)
  then have e: "f_open_count (fd_array f ! j) = 0" "f_fd (fd_array f ! j) = int j"
    using acctD(6) [OF a s(1)] by (auto simp: entry_ok_def)
  let ?x = "(fd_array f ! j)\<lparr>f_status := FD_INIT, f_node := None\<rparr>"
  have al: "fd_array_alloc f NO_FD = Some (Inr j, set_file f j ?x)"
    using c j e by (simp add: fd_array_alloc_def get_fd_array_def)
  have vo: "vfs_open al v (pwd f) path flags = Some (Inl E_EXISTS, v1)"
    using fl l by (auto simp: vfs_open_def Let_def)
  let ?y = "?x\<lparr>f_status := FD_NONE\<rparr>"
  have o: "file_open al v f path flags = Some (Inl E_EXISTS, v1, set_file f j ?y)"
    using fl(1) al vo s e len by (auto simp: file_open_def Let_def fd_array_free_def)
  have h: "held (set_file f j ?y) = held f"
    using s len by (simp add: fun_eq_iff held_set ent_def)
  have q: "acct rb ob v (set_file f j ?y)"
    by (rule acct_set [OF a s(1) _ vquiet_refl [OF acctD(1) [OF a]]]) (use s e in \<open>simp_all add: entry_ok_def ent_def\<close>)
  have "vshifts v v1 (one n) (\<lambda>_. 0)"
    using vfs_lookup_counts [OF l acctD(1,3) [OF a] fr] by (simp add: vgot_def)
  then have "refs v1 n = refs v n + 1" by (simp add: vshifts_def one_def)
  moreover have "refs v n = rb n + held f n + of_bool (pwd f = Some n)" using a by (simp add: acct_def)
  ultimately show ?thesis using o h acctD(2) [OF q] by (intro exI [of _ "set_file f j ?y"]) simp
qed

lemma open_excl_leaks_witness:
  "\<exists>v f. file_open ex_alloc ex_vfs ex_files [115, 105, 58] 12 = Some (Inl E_EXISTS, v, f)
     \<and> held f (Dnode 0) = 0 \<and> refs v (Dnode 0) = 2"
proof -
  have p: "pwd ex_files = None" by (simp add: ex_files_def)
  have s: "f_status (fd_array ex_files ! 0) = FD_NONE" by (simp add: ex_entry)
  have h: "held ex_files n = 0" for n
    by (rule held_none) (use ex_entry(1,2) in \<open>auto simp: in_set_conv_nth\<close>)
  have "\<exists>f'. file_open ex_alloc ex_vfs ex_files [115, 105, 58] 12 = Some (Inl E_EXISTS, vop_ref_inc ex_vfs (Dnode 0), f')
     \<and> held f' = held ex_files \<and> pwd f' = pwd ex_files
     \<and> ftab_ok f' \<and> refs (vop_ref_inc ex_vfs (Dnode 0)) (Dnode 0) = one (Dnode 0) (Dnode 0) + held f' (Dnode 0) + of_bool (pwd f' = Some (Dnode 0)) + 1"
    by (rule open_excl_leaks [OF ex_acct _ ex_entry(3) s])
      (use ex_lookup p in \<open>simp_all add: ex_files_def O_ACCMODE_def O_RDONLY_def O_TRUNC_def O_EXCL_def O_CREAT_def fresh_ok_def ex_alloc_def\<close>)
  then show ?thesis using h p by (auto simp: one_def)
qed

text \<open>
  C28. A system call on an open descriptor can halt the kernel: no operation table is complete, and
  calling an operation it lacks fails an assertion.  Reading or seeking on a directory, listing a
  file or a device, and syncing a device all do.
\<close>

theorem missing_operations_panic:
  assumes "fd2file f fd = Some (Inr i)" "f_node (fd_array f ! i) = Some n" "i < length (fd_array f)"
  shows "(case n of
       Dnode k \<Rightarrow> file_fsync v f fd = None \<and> file_getdirentry al v f fd d = None
     | Snode k a \<Rightarrow>
         if node_type v k a = SFS_TYPE_DIR
         then (f_readable (fd_array f ! i) \<longrightarrow> file_read v f fd buf base len = None) \<and> file_seek v f fd p LSEEK_SET = None
         else file_getdirentry al v f fd d = None)"
proof -
  have s: "f_status (fd_array f ! i) = FD_OPENED" using fd2file_Inr [OF assms(1)] by simp
  have q: "fd_array_acquire f i = Some (set_file f i ((fd_array f ! i)\<lparr>f_open_count := f_open_count (fd_array f ! i) + 1\<rparr>))"
    using s by (simp add: fd_array_acquire_def Let_def)
  show ?thesis
  proof (cases n)
    case (Dnode k)
    have "vop_getdirentry al v (Dnode k) iob = None" for iob by (simp add: vop_getdirentry_def)
    then show ?thesis using assms q Dnode by (simp add: file_fsync_def file_getdirentry_def vop_fsync_def)
  next
    case (Snode k a)
    show ?thesis
    proof (cases "node_type v k a = SFS_TYPE_DIR")
      case True
      then have "vop_read v n iob = None" "vop_tryseek v n p = None" for iob
        using Snode by (simp_all add: vop_read_def vop_tryseek_def bind_kassert_if)
      then show ?thesis using assms q Snode True
        by (simp add: file_read_def file_seek_def file_transfer_def seek_target_def Let_def)
    next
      case False
      then have "vop_getdirentry al v n iob = None" for iob
        using Snode by (simp add: vop_getdirentry_def bind_kassert_if)
      then show ?thesis using assms q Snode False by (simp add: file_getdirentry_def)
    qed
  qed
qed

theorem missing_operations_panic_witness:
  "\<exists>v f. file_step False (ex_vfs, ex_files) (v, f) \<and> file_fsync v f 0 = None"
proof -
  obtain v f where o: "file_open ex_alloc ex_vfs ex_files [115, 105, 58] O_RDONLY = Some (Inr 0, v, f)"
    "files_count f = 1" "f_status (fd_array f ! 0) = FD_OPENED" "f_node (fd_array f ! 0) = Some (Dnode 0)"
    using ex_open by blast
  have s: "file_step False (ex_vfs, ex_files) (v, f)" by (rule ex_step [OF o(1)])
  have a: "acct (one (Dnode 0)) (\<lambda>_. 0) v f" using file_step_acct [OF s ex_acct] by simp
  have "f_fd (fd_array f ! 0) = 0" "0 < length (fd_array f)"
    using acctD(5,6) [OF a] ex_entry(3) by (simp_all add: entry_ok_def)
  then have "fd2file f 0 = Some (Inr 0)" using o ex_entry(3) by (simp add: fd2file_def testfd_def get_fd_array_def)
  then have "file_fsync v f 0 = None"
    using missing_operations_panic [of f 0 0 "Dnode 0"] o(4) \<open>0 < length (fd_array f)\<close> by simp
  then show ?thesis using s by blast
qed

end
