(* ===== verification/Proc.thy ===== *)
theory Proc
  imports Proc_Tree Vmm File_Table
begin

text \<open>
  Processes: \<open>kern/process/proc.c\<close> over the table of processes, physical memory, the address spaces
  and the open-files tables.  An address space and a files table are named by their address; what
  \<open>kmalloc\<close> delivers is an argument.  A trapframe and a context are kept per process.  Where a
  process gives up the processor, \<open>others\<close> is what the system does until it runs again.  The locks
  of address spaces and the page-table register are not modelled.
\<close>

definition PROC_NAME_LEN :: nat where "PROC_NAME_LEN = 15"
definition CLONE_VM :: "32 word" where "CLONE_VM = 0x00000100"
definition CLONE_FS :: "32 word" where "CLONE_FS = 0x00000800"
definition KSTACKSIZE :: nat where "KSTACKSIZE = KSTACKPAGE * PGSIZE"
definition SSTATUS_SIE :: "64 word" where "SSTATUS_SIE = 0x00000002"
definition SSTATUS_SPIE :: "64 word" where "SSTATUS_SPIE = 0x00000020"
definition SSTATUS_SPP :: "64 word" where "SSTATUS_SPP = 0x00000100"

text \<open>Registers are numbered as in the frame: \<open>sp\<close> is 2, \<open>s0\<close> 8, \<open>s1\<close> 9, \<open>a0\<close> 10.\<close>

record trapframe =
  gpr :: "nat \<Rightarrow> 64 word"
  tf_status :: "64 word"
  tf_epc :: "64 word"
  tf_tval :: "64 word"
  tf_cause :: "64 word"

datatype entry_point = Null_entry | Forkret

record proc_context =
  ctx_ra :: entry_point
  ctx_sp :: "64 word"
  ctx_s :: "nat \<Rightarrow> 64 word"

record kernel = ptable +
  mem_of :: phys
  mms :: "nat \<Rightarrow> mm_struct"
  kfs :: vfs
  filess :: "nat \<Rightarrow> files"
  boot_pgdir :: nat
  tfs :: "pptr \<Rightarrow> trapframe option"
  ctxs :: "pptr \<Rightarrow> proc_context"

lemma kernel_upd [simp]:
  "mem_of (upd p f s) = mem_of s" "mms (upd p f s) = mms s" "kfs (upd p f s) = kfs s" "filess (upd p f s) = filess s"
  "boot_pgdir (upd p f s) = boot_pgdir s" "tfs (upd p f s) = tfs s" "ctxs (upd p f s) = ctxs s"
  by (simp_all add: upd_def)

definition upd_mm :: "nat \<Rightarrow> mm_struct \<Rightarrow> 'a kernel_scheme \<Rightarrow> 'a kernel_scheme" where
  "upd_mm m x s = s\<lparr>mms := (mms s)(m := x)\<rparr>"

definition upd_files :: "nat \<Rightarrow> files \<Rightarrow> 'a kernel_scheme \<Rightarrow> 'a kernel_scheme" where
  "upd_files f x s = s\<lparr>filess := (filess s)(f := x)\<rparr>"

text \<open>What the allocators of a \<open>fork\<close> deliver.\<close>

record fork_mem =
  fm_proc :: "pptr option"
  fm_mm :: "nat option"
  fm_vma :: "vma_struct \<Rightarrow> bool"
  fm_files :: "(nat \<times> file_t list) option"

section \<open>Making a process\<close>

text \<open>The scheduler's fields, the exit code and the trapframe of the new descriptor keep what the memory held.\<close>

definition alloc_proc :: "pptr option \<Rightarrow> 'a kernel_scheme \<Rightarrow> pptr option \<times> 'a kernel_scheme" where
  "alloc_proc mem s =
     (case mem of
        None \<Rightarrow> (None, s)
      | Some p \<Rightarrow> (Some p,
          (upd p (\<lambda>x. x\<lparr>p_state := PROC_UNINIT, p_pid := - 1, p_runs := 0, p_kstack := 0, p_need_resched := False,
             p_parent := None, p_mm := None, p_cr3 := boot_pgdir s * PGSIZE, p_flags := 0, p_name := [],
             p_wait_state := 0, p_cptr := None, p_optr := None, p_yptr := None, p_filesp := None\<rparr>) s)
          \<lparr>tfs := (tfs s)(p := None), ctxs := (ctxs s)(p := \<lparr>ctx_ra = Null_entry, ctx_sp = 0, ctx_s = (\<lambda>_. 0)\<rparr>)\<rparr>))"

definition set_proc_name :: "pptr \<Rightarrow> string \<Rightarrow> 'a kernel_scheme \<Rightarrow> 'a kernel_scheme" where
  "set_proc_name p name s = upd p (\<lambda>x. x\<lparr>p_name := take PROC_NAME_LEN name\<rparr>) s"

definition get_proc_name :: "pptr \<Rightarrow> 'a kernel_scheme \<Rightarrow> string" where
  "get_proc_name p s = take PROC_NAME_LEN (p_name (procs s p))"

definition setup_kstack :: "pptr \<Rightarrow> 'a kernel_scheme \<Rightarrow> ((errno + unit) \<times> 'a kernel_scheme) option" where
  "setup_kstack p s = do {
     (page, ph) \<leftarrow> alloc_pages KSTACKPAGE (mem_of s);
     let s = s\<lparr>mem_of := ph\<rparr>;
     (case page of
        Some g \<Rightarrow> do { k \<leftarrow> page2kva g; Some (Inr (), upd p (\<lambda>x. x\<lparr>p_kstack := k\<rparr>) s) }
      | None \<Rightarrow> Some (Inl E_NO_MEM, s))
   }"

definition put_kstack :: "pptr \<Rightarrow> 'a kernel_scheme \<Rightarrow> 'a kernel_scheme option" where
  "put_kstack p s = do {
     g \<leftarrow> kva2page (p_kstack (procs s p));
     ph \<leftarrow> free_pages g KSTACKPAGE (mem_of s);
     Some (s\<lparr>mem_of := ph\<rparr>)
   }"

definition setup_pgdir :: "nat \<Rightarrow> 'a kernel_scheme \<Rightarrow> ((errno + unit) \<times> 'a kernel_scheme) option" where
  "setup_pgdir m s = do {
     (page, ph) \<leftarrow> alloc_pages 1 (mem_of s);
     let s = s\<lparr>mem_of := ph\<rparr>;
     (case page of
        None \<Rightarrow> Some (Inl E_NO_MEM, s)
      | Some g \<Rightarrow> do {
          pd \<leftarrow> page2kva g;
          let s = s\<lparr>mem_of := ph\<lparr>frame := (frame ph)(pd := blit (frame ph pd) 0 (frame ph (boot_pgdir s)) 0 PGSIZE)\<rparr>\<rparr>;
          Some (Inr (), upd_mm m ((mms s m)\<lparr>pgdir := Some pd\<rparr>) s)
        })
   }"

definition put_pgdir :: "nat \<Rightarrow> 'a kernel_scheme \<Rightarrow> 'a kernel_scheme option" where
  "put_pgdir m s = do {
     pd \<leftarrow> pgdir (mms s m);
     g \<leftarrow> kva2page pd;
     ph \<leftarrow> free_pages g 1 (mem_of s);
     Some (s\<lparr>mem_of := ph\<rparr>)
   }"

text \<open>The label \<open>good_mm\<close>.\<close>

definition take_mm :: "pptr \<Rightarrow> nat \<Rightarrow> 'a kernel_scheme \<Rightarrow> ((errno + unit) \<times> 'a kernel_scheme) option" where
  "take_mm p m s = do {
     let s = upd_mm m ((mms s m)\<lparr>mm_count := mm_count (mms s m) + 1\<rparr>) s;
     let s = upd p (\<lambda>x. x\<lparr>p_mm := Some m\<rparr>) s;
     pd \<leftarrow> pgdir (mms s m);
     pa \<leftarrow> PADDR pd;
     Some (Inr (), upd p (\<lambda>x. x\<lparr>p_cr3 := pa\<rparr>) s)
   }"

definition copy_mm :: "fork_mem \<Rightarrow> 32 word \<Rightarrow> pptr \<Rightarrow> 'a kernel_scheme \<Rightarrow> ((errno + unit) \<times> 'a kernel_scheme) option" where
  "copy_mm fm clone_flags p s =
     (case p_mm (procs s (current s)) of
        None \<Rightarrow> Some (Inr (), s)
      | Some old \<Rightarrow>
          if clone_flags AND CLONE_VM \<noteq> 0 then take_mm p old s
          else (case mm_create (fm_mm fm \<noteq> None) (mem_of s) of
             (None, ph) \<Rightarrow> Some (Inl E_NO_MEM, s\<lparr>mem_of := ph\<rparr>)
           | (Some mm, ph) \<Rightarrow> do {
               m \<leftarrow> fm_mm fm;
               let s = upd_mm m mm (s\<lparr>mem_of := ph\<rparr>);
               (ret, s) \<leftarrow> setup_pgdir m s;
               (case ret of
                  Inl _ \<Rightarrow> do { mm_destroy (mms s m); Some (Inl E_NO_MEM, s) }
                | Inr _ \<Rightarrow> do {
                    (ret, mm, ph) \<leftarrow> dup_mmap (fm_vma fm) (mms s m) (mms s old) (mem_of s);
                    let s = upd_mm m mm (s\<lparr>mem_of := ph\<rparr>);
                    (case ret of
                       Inr _ \<Rightarrow> take_mm p m s
                     | Inl e \<Rightarrow> do {
                         ph \<leftarrow> exit_mmap (mms s m) (mem_of s);
                         s \<leftarrow> put_pgdir m (s\<lparr>mem_of := ph\<rparr>);
                         mm_destroy (mms s m);
                         Some (Inl e, s)
                       })
                  })
             }))"

text \<open>The frame is stored at the top of the kernel stack.\<close>

definition tf_addr :: "nat \<Rightarrow> 64 word" where
  "tf_addr k = word_of_nat (kva k + KSTACKSIZE) - 36 * 8"

definition copy_thread :: "pptr \<Rightarrow> 64 word \<Rightarrow> trapframe \<Rightarrow> 'a kernel_scheme \<Rightarrow> 'a kernel_scheme" where
  "copy_thread p esp tf s =
     (let a = tf_addr (p_kstack (procs s p));
          tf = tf\<lparr>gpr := (gpr tf)(10 := 0)\<rparr>;
          tf = tf\<lparr>gpr := (gpr tf)(2 := if esp = 0 then a else esp)\<rparr>
      in s\<lparr>tfs := (tfs s)(p := Some tf), ctxs := (ctxs s)(p := (ctxs s p)\<lparr>ctx_ra := Forkret, ctx_sp := a\<rparr>)\<rparr>)"

definition take_files :: "pptr \<Rightarrow> nat \<Rightarrow> 'a kernel_scheme \<Rightarrow> 'a kernel_scheme" where
  "take_files p f s =
     (let s = upd_files f ((filess s f)\<lparr>files_count := files_count (filess s f) + 1\<rparr>) s
      in upd p (\<lambda>x. x\<lparr>p_filesp := Some f\<rparr>) s)"

text \<open>\<open>dup_files\<close> never fails.\<close>

definition copy_files :: "fork_mem \<Rightarrow> 32 word \<Rightarrow> pptr \<Rightarrow> 'a kernel_scheme \<Rightarrow> ((errno + unit) \<times> 'a kernel_scheme) option" where
  "copy_files fm clone_flags p s = do {
     old \<leftarrow> p_filesp (procs s (current s));
     if clone_flags AND CLONE_FS \<noteq> 0 then Some (Inr (), take_files p old s)
     else (case (fm_files fm, files_create (map_option snd (fm_files fm))) of
        (Some (f, _), Some new) \<Rightarrow> do {
          (v, new) \<leftarrow> dup_files (kfs s) new (filess s old);
          Some (Inr (), take_files p f (upd_files f new (s\<lparr>kfs := v\<rparr>)))
        }
      | _ \<Rightarrow> Some (Inl E_NO_MEM, s))
   }"

definition put_files :: "pptr \<Rightarrow> 'a kernel_scheme \<Rightarrow> 'a kernel_scheme option" where
  "put_files p s =
     (case p_filesp (procs s p) of
        None \<Rightarrow> Some s
      | Some f \<Rightarrow> do {
          let s = upd_files f ((filess s f)\<lparr>files_count := files_count (filess s f) - 1\<rparr>) s;
          if files_count (filess s f) = 0 then do { v \<leftarrow> files_destroy (kfs s) (filess s f); Some (s\<lparr>kfs := v\<rparr>) }
          else Some s
        })"

text \<open>The end of \<open>do_fork\<close>: the new process joins the table and is made ready.\<close>

definition join_table :: "'a kernel_scheme sched_class \<Rightarrow> pptr \<Rightarrow> 'a kernel_scheme \<Rightarrow> (int \<times> 'a kernel_scheme) option" where
  "join_table sc p s = do {
     (pid, s) \<leftarrow> get_pid s;
     let s = upd p (\<lambda>x. x\<lparr>p_pid := pid\<rparr>) s;
     let s = hash_proc p s;
     s \<leftarrow> set_links p s;
     s \<leftarrow> wakeup_proc sc p s;
     Some (p_pid (procs s p), s)
   }"

definition do_fork :: "'a kernel_scheme sched_class \<Rightarrow> fork_mem \<Rightarrow> 32 word \<Rightarrow> 64 word \<Rightarrow> trapframe \<Rightarrow> 'a kernel_scheme
    \<Rightarrow> ((errno + int) \<times> 'a kernel_scheme) option" where
  "do_fork sc fm clone_flags stk tf s =
     (if nr_process s \<ge> MAX_PROCESS then Some (Inl E_NO_FREE_PROC, s)
      else (case alloc_proc (fm_proc fm) s of
         (None, s) \<Rightarrow> Some (Inl E_NO_MEM, s)
       | (Some p, s) \<Rightarrow> do {
           let s = upd p (\<lambda>x. x\<lparr>p_parent := Some (current s)\<rparr>) s;
           kassert (p_wait_state (procs s (current s)) = 0);
           (ret, s) \<leftarrow> setup_kstack p s;
           (case ret of
              Inl _ \<Rightarrow> Some (Inl E_NO_MEM, s)
            | Inr _ \<Rightarrow> do {
                (ret, s) \<leftarrow> copy_mm fm clone_flags p s;
                (case ret of
                   Inl _ \<Rightarrow> do { s \<leftarrow> put_kstack p s; Some (Inl E_NO_MEM, s) }
                 | Inr _ \<Rightarrow> do {
                     (ret, s) \<leftarrow> copy_files fm clone_flags p s;
                     (case ret of
                        Inl _ \<Rightarrow> do { s \<leftarrow> put_kstack p s; Some (Inl E_NO_MEM, s) }
                      | Inr _ \<Rightarrow> do {
                          (pid, s) \<leftarrow> join_table sc p (copy_thread p stk tf s);
                          Some (Inr pid, s)
                        })
                   })
              })
         }))"

definition kernel_thread :: "'a kernel_scheme sched_class \<Rightarrow> fork_mem \<Rightarrow> 64 word \<Rightarrow> 64 word \<Rightarrow> 64 word \<Rightarrow> 64 word \<Rightarrow> 32 word
    \<Rightarrow> 'a kernel_scheme \<Rightarrow> ((errno + int) \<times> 'a kernel_scheme) option" where
  "kernel_thread sc fm kernel_thread_entry sstatus fn arg clone_flags s =
     do_fork sc fm (clone_flags OR CLONE_VM) 0
       \<lparr>gpr = (\<lambda>_. 0)(8 := fn, 9 := arg), tf_status = (sstatus OR SSTATUS_SPP OR SSTATUS_SPIE) AND NOT SSTATUS_SIE,
        tf_epc = kernel_thread_entry, tf_tval = 0, tf_cause = 0\<rparr> s"

section \<open>Ending a process\<close>

definition drop_mm :: "nat \<Rightarrow> 'a kernel_scheme \<Rightarrow> 'a kernel_scheme option" where
  "drop_mm m s = do {
     let s = upd_mm m ((mms s m)\<lparr>mm_count := mm_count (mms s m) - 1\<rparr>) s;
     if mm_count (mms s m) = 0 then do {
       ph \<leftarrow> exit_mmap (mms s m) (mem_of s);
       s \<leftarrow> put_pgdir m (s\<lparr>mem_of := ph\<rparr>);
       mm_destroy (mms s m);
       Some s
     } else Some s
   }"

text \<open>The memory and, only with it, the files.\<close>

definition exit_mem :: "'a kernel_scheme \<Rightarrow> 'a kernel_scheme option" where
  "exit_mem s =
     (case p_mm (procs s (current s)) of
        None \<Rightarrow> Some s
      | Some m \<Rightarrow> do {
          s \<leftarrow> drop_mm m s;
          let s = upd (current s) (\<lambda>x. x\<lparr>p_mm := None\<rparr>) s;
          put_files (current s) s
        })"

text \<open>The state after the switch to the next process; coming back from it is a panic.\<close>

definition do_exit :: "'a kernel_scheme sched_class \<Rightarrow> int \<Rightarrow> 'a kernel_scheme \<Rightarrow> 'a kernel_scheme option" where
  "do_exit sc error_code s = do {
     kassert (current s \<noteq> idleproc s);
     kassert (initproc s \<noteq> Some (current s));
     s \<leftarrow> exit_mem s;
     s \<leftarrow> exit_table sc error_code s;
     schedule sc s
   }"

section \<open>Waiting, killing, sleeping\<close>

definition do_yield :: "'a kernel_scheme \<Rightarrow> 'a kernel_scheme" where
  "do_yield s = upd (current s) (\<lambda>x. x\<lparr>p_need_resched := True\<rparr>) s"

text \<open>The walk over the children, which ends when their chain does.\<close>

partial_function (option) zombie_child :: "(pptr \<Rightarrow> proc_struct) \<Rightarrow> pptr option \<Rightarrow> pptr option option" where
  "zombie_child ps at =
     (case at of
        None \<Rightarrow> Some None
      | Some p \<Rightarrow> if p_state (ps p) = PROC_ZOMBIE then Some (Some p) else zombie_child ps (p_optr (ps p)))"

text \<open>Whether there is a child to wait for, and the dead one found.\<close>

definition wait_pick :: "int \<Rightarrow> 'a kernel_scheme \<Rightarrow> (bool \<times> pptr option) option" where
  "wait_pick pid s =
     (if pid \<noteq> 0 then
        Some (case find_proc s pid of
          None \<Rightarrow> (False, None)
        | Some p \<Rightarrow>
            if p_parent (procs s p) = Some (current s)
            then (True, if p_state (procs s p) = PROC_ZOMBIE then Some p else None) else (False, None))
      else do {
        z \<leftarrow> zombie_child (procs s) (p_cptr (procs s (current s)));
        Some (p_cptr (procs s (current s)) \<noteq> None, z)
      })"

datatype wait_end = Found pptr | No_child | Killed

partial_function (option) wait_loop ::
  "'a kernel_scheme sched_class \<Rightarrow> ('a kernel_scheme \<Rightarrow> 'a kernel_scheme option) \<Rightarrow> int \<Rightarrow> 'a kernel_scheme
     \<Rightarrow> (wait_end \<times> 'a kernel_scheme) option" where
  "wait_loop sc others pid s = do {
     (haskid, z) \<leftarrow> wait_pick pid s;
     (case z of
        Some p \<Rightarrow> Some (Found p, s)
      | None \<Rightarrow>
          if haskid then do {
            let s = upd (current s) (\<lambda>x. x\<lparr>p_state := PROC_SLEEPING\<rparr>) s;
            let s = upd (current s) (\<lambda>x. x\<lparr>p_wait_state := WT_CHILD\<rparr>) s;
            s \<leftarrow> schedule sc s;
            s \<leftarrow> others s;
            if p_flags (procs s (current s)) AND PF_EXITING \<noteq> 0
            then do { s \<leftarrow> do_exit sc (- 9) s; Some (Killed, s) }
            else wait_loop sc others pid s
          } else Some (No_child, s))
   }"

text \<open>The label \<open>found\<close>: the store to user memory, if any, is part of the result.\<close>

definition reap :: "nat option \<Rightarrow> pptr \<Rightarrow> 'a kernel_scheme \<Rightarrow> ((nat \<times> int) option \<times> 'a kernel_scheme) option" where
  "reap code_store p s = do {
     kassert (p \<noteq> idleproc s \<and> initproc s \<noteq> Some p);
     let stored = map_option (\<lambda>a. (a, p_exit_code (procs s p))) code_store;
     s \<leftarrow> remove_links p (unhash_proc p s);
     s \<leftarrow> put_kstack p s;
     Some (stored, s)
   }"

text \<open>\<open>None\<close> in the first component: the call does not return, the process having been killed.\<close>

definition do_wait :: "'a kernel_scheme sched_class \<Rightarrow> ('a kernel_scheme \<Rightarrow> 'a kernel_scheme option) \<Rightarrow> int \<Rightarrow> nat option
    \<Rightarrow> 'a kernel_scheme \<Rightarrow> ((errno + (nat \<times> int) option) option \<times> 'a kernel_scheme) option" where
  "do_wait sc others pid code_store s =
     (let m = p_mm (procs s (current s));
          (ok, s) = (case code_store of
              None \<Rightarrow> (True, s)
            | Some a \<Rightarrow>
                (case user_mem_check (map_option (mms s) m) a 4 True of
                   (ok, mm) \<Rightarrow> (ok, case (m, mm) of (Some m, Some mm) \<Rightarrow> upd_mm m mm s | _ \<Rightarrow> s)))
      in if \<not> ok then Some (Some (Inl E_INVAL), s)
         else do {
           (e, s) \<leftarrow> wait_loop sc others pid s;
           (case e of
              No_child \<Rightarrow> Some (Some (Inl E_BAD_PROC), s)
            | Killed \<Rightarrow> Some (None, s)
            | Found p \<Rightarrow> do { (st, s) \<leftarrow> reap code_store p s; Some (Some (Inr st), s) })
         })"

definition do_kill :: "'a kernel_scheme sched_class \<Rightarrow> int \<Rightarrow> 'a kernel_scheme \<Rightarrow> ((errno + unit) \<times> 'a kernel_scheme) option" where
  "do_kill sc pid s =
     (case find_proc s pid of
        None \<Rightarrow> Some (Inl E_INVAL, s)
      | Some p \<Rightarrow>
          if p_flags (procs s p) AND PF_EXITING = 0 then do {
            let s = upd p (\<lambda>x. x\<lparr>p_flags := p_flags x OR PF_EXITING\<rparr>) s;
            s \<leftarrow> (if p_wait_state (procs s p) AND WT_INTERRUPTED \<noteq> 0 then wakeup_proc sc p s else Some s);
            Some (Inr (), s)
          } else Some (Inl E_KILLED, s))"

text \<open>\<open>t\<close> is the timer on the kernel stack.\<close>

definition do_sleep :: "'a kernel_scheme sched_class \<Rightarrow> ('a kernel_scheme \<Rightarrow> 'a kernel_scheme option) \<Rightarrow> nat \<Rightarrow> 32 word
    \<Rightarrow> 'a kernel_scheme \<Rightarrow> 'a kernel_scheme option" where
  "do_sleep sc others t time s =
     (if time = 0 then Some s
      else do {
        let s = timer_init t (Some (current s)) time s;
        let s = upd (current s) (\<lambda>x. x\<lparr>p_state := PROC_SLEEPING\<rparr>) s;
        let s = upd (current s) (\<lambda>x. x\<lparr>p_wait_state := WT_TIMER\<rparr>) s;
        s \<leftarrow> add_timer t s;
        s \<leftarrow> schedule sc s;
        s \<leftarrow> others s;
        Some (del_timer t s)
      })"

definition lab6_set_priority :: "32 word \<Rightarrow> 'a kernel_scheme \<Rightarrow> 'a kernel_scheme" where
  "lab6_set_priority priority s = upd (current s) (\<lambda>x. x\<lparr>p_priority := if priority = 0 then 1 else priority\<rparr>) s"

section \<open>The first processes\<close>

definition proc_init :: "'a kernel_scheme sched_class \<Rightarrow> pptr option \<Rightarrow> (nat \<times> file_t list) option \<Rightarrow> nat \<Rightarrow> fork_mem
    \<Rightarrow> 64 word \<Rightarrow> 64 word \<Rightarrow> 64 word \<Rightarrow> 'a kernel_scheme \<Rightarrow> 'a kernel_scheme option" where
  "proc_init sc mem fmem bootstack fm kernel_thread_entry sstatus init_main s = do {
     let s = s\<lparr>proc_list := [], proc_hash := (\<lambda>_. [])\<rparr>;
     let (ip, s) = alloc_proc mem s;
     idle \<leftarrow> ip;
     let s = s\<lparr>idleproc := idle\<rparr>;
     let s = upd idle (\<lambda>x. x\<lparr>p_pid := 0, p_state := PROC_RUNNABLE, p_kstack := bootstack, p_need_resched := True\<rparr>) s;
     (f, arr) \<leftarrow> fmem;
     new \<leftarrow> files_create (Some arr);
     let s = upd_files f (new\<lparr>files_count := files_count new + 1\<rparr>) s;
     let s = upd idle (\<lambda>x. x\<lparr>p_filesp := Some f\<rparr>) s;
     let s = set_proc_name idle ''idle'' s;
     let s = s\<lparr>nr_process := nr_process s + 1, current := idle\<rparr>;
     (ret, s) \<leftarrow> kernel_thread sc fm kernel_thread_entry sstatus init_main 0 0 s;
     pid \<leftarrow> (case ret of Inl _ \<Rightarrow> None | Inr pid \<Rightarrow> do { kassert (pid > 0); Some pid });
     ini \<leftarrow> find_proc s pid;
     let s = set_proc_name ini ''init'' (s\<lparr>initproc := Some ini\<rparr>);
     kassert (p_pid (procs s idle) = 0);
     kassert (p_pid (procs s ini) = 1);
     Some s
   }"

end
