(* ===== verification/Proc_Life.thy ===== *)
theory Proc_Life
  imports Proc
begin

text \<open>
  The life of a process: what \<open>do_fork\<close>, \<open>do_exit\<close>, \<open>do_wait\<close> and \<open>do_kill\<close> do to the table, the
  family tree, the pids and the run queue.
\<close>

section \<open>What changes beside the table\<close>

lemma bindE: "(m \<bind> f) = Some y \<Longrightarrow> (\<And>x. m = Some x \<Longrightarrow> f x = Some y \<Longrightarrow> P) \<Longrightarrow> P"
  by (cases m) auto

lemma tree_cong:
  assumes t: "tree_ok s" and s': "proc_list s' = proc_list s" "idleproc s' = idleproc s" "nr_process s' = nr_process s" "initproc s' = initproc s"
    and q: "\<And>q. q \<in> family s \<Longrightarrow> p_parent (procs s' q) = p_parent (procs s q) \<and> p_cptr (procs s' q) = p_cptr (procs s q)
      \<and> p_yptr (procs s' q) = p_yptr (procs s q) \<and> p_optr (procs s' q) = p_optr (procs s q) \<and> p_state (procs s' q) = p_state (procs s q)"
  shows "tree_ok s'"
proof -
  have fam: "family s' = family s" by (simp add: family_def s')
  have off: "offspring s' r = offspring s r" for r
    using q by (auto simp: offspring_def s' family_def)
  have "kids s' r cs" if r: "r \<in> family s" "kids s r cs" for r cs
  proof -
    have "c \<in> family s" if "c \<in> offspring s r" for c using that by (simp add: offspring_def family_def)
    then show ?thesis using q r(1) by (intro kids_elsewhere [OF r(2)]) (simp_all add: off)
  qed
  then have "\<forall>r \<in> family s'. \<exists>cs. kids s' r cs" using t fam unfolding tree_ok_def by metis
  moreover have "p \<in> set (proc_list s) \<Longrightarrow> p \<in> family s" for p by (simp add: family_def)
  ultimately show ?thesis using t q fam unfolding tree_ok_def s' by metis
qed

text \<open>A state without the descriptors, the memory and the files.\<close>

definition bare :: "'a kernel_scheme \<Rightarrow> 'a kernel_scheme" where
  "bare s = s\<lparr>procs := undefined, mem_of := undefined, mms := undefined, kfs := undefined, filess := undefined,
     tfs := undefined, ctxs := undefined\<rparr>"

definition place :: "proc_struct \<Rightarrow> proc_struct" where
  "place x = x\<lparr>p_runs := undefined, p_kstack := undefined, p_need_resched := undefined, p_mm := undefined, p_cr3 := undefined,
     p_flags := undefined, p_name := undefined, p_exit_code := undefined, p_time_slice := undefined, p_stride := undefined,
     p_priority := undefined, p_filesp := undefined\<rparr>"

text \<open>\<open>s'\<close> is \<open>s\<close> but for the descriptor of \<open>p\<close>, which keeps its place in the table, the memory and files.\<close>

definition beside :: "pptr \<Rightarrow> 'a kernel_scheme \<Rightarrow> 'a kernel_scheme \<Rightarrow> bool" where
  "beside p s s' \<longleftrightarrow> bare s' = bare s \<and> (\<forall>q. q \<noteq> p \<longrightarrow> procs s' q = procs s q) \<and> place (procs s' p) = place (procs s p)"

lemma beside_refl: "beside p s s"
  by (simp add: beside_def)

lemma beside_trans: "beside p s t \<Longrightarrow> beside p t u \<Longrightarrow> beside p s u"
  by (simp add: beside_def)

lemma beside_upd: "(\<And>x. place (g x) = place x) \<Longrightarrow> beside p s t \<Longrightarrow> beside p s (upd p g t)"
  by (simp add: beside_def bare_def upd_def)

lemma beside_mem:
  "beside p s t \<Longrightarrow> beside p s (t\<lparr>mem_of := ph\<rparr>)" "beside p s t \<Longrightarrow> beside p s (upd_mm m mm t)"
  "beside p s t \<Longrightarrow> beside p s (t\<lparr>kfs := v\<rparr>)" "beside p s t \<Longrightarrow> beside p s (upd_files n ff t)"
  "beside p s t \<Longrightarrow> beside p s (t\<lparr>tfs := tf, ctxs := cx\<rparr>)"
  by (simp_all add: beside_def bare_def upd_mm_def upd_files_def)

lemma beside_fields:
  assumes "beside p s t"
  shows "current t = current s" "proc_list t = proc_list s" "idleproc t = idleproc s" "initproc t = initproc s"
    "nr_process t = nr_process s" "proc_hash t = proc_hash s" "last_pid t = last_pid s" "next_safe t = next_safe s"
proof -
  have f: "current s = current (bare s)" "proc_list s = proc_list (bare s)" "idleproc s = idleproc (bare s)" "initproc s = initproc (bare s)"
    "nr_process s = nr_process (bare s)" "proc_hash s = proc_hash (bare s)" "last_pid s = last_pid (bare s)" "next_safe s = next_safe (bare s)"
    for s :: "'a kernel_scheme" by (simp_all add: bare_def)
  show "current t = current s" "proc_list t = proc_list s" "idleproc t = idleproc s" "initproc t = initproc s"
    "nr_process t = nr_process s" "proc_hash t = proc_hash s" "last_pid t = last_pid s" "next_safe t = next_safe s"
    using assms unfolding beside_def f [of s] f [of t] by simp_all
qed

lemma place_fields:
  assumes "place x = place y"
  shows "p_state x = p_state y" "p_pid x = p_pid y" "p_parent x = p_parent y" "p_wait_state x = p_wait_state y" "p_rq x = p_rq y"
    "p_cptr x = p_cptr y" "p_yptr x = p_yptr y" "p_optr x = p_optr y"
proof -
  have f: "p_state x = p_state (place x)" "p_pid x = p_pid (place x)" "p_parent x = p_parent (place x)"
    "p_wait_state x = p_wait_state (place x)" "p_rq x = p_rq (place x)" "p_cptr x = p_cptr (place x)"
    "p_yptr x = p_yptr (place x)" "p_optr x = p_optr (place x)" for x by (simp_all add: place_def)
  show "p_state x = p_state y" "p_pid x = p_pid y" "p_parent x = p_parent y" "p_wait_state x = p_wait_state y" "p_rq x = p_rq y"
    "p_cptr x = p_cptr y" "p_yptr x = p_yptr y" "p_optr x = p_optr y"
    by (simp_all only: f [of x] f [of y] assms)
qed

lemma beside_place: "beside p s t \<Longrightarrow> place (procs t q) = place (procs s q)"
  by (cases "q = p") (auto simp: beside_def)

lemma place_simps [simp]:
  "place (x\<lparr>p_kstack := k\<rparr>) = place x" "place (x\<lparr>p_mm := m\<rparr>) = place x" "place (x\<lparr>p_cr3 := c\<rparr>) = place x"
  "place (x\<lparr>p_filesp := f\<rparr>) = place x" "place (x\<lparr>p_flags := w\<rparr>) = place x" "place (x\<lparr>p_exit_code := i\<rparr>) = place x"
  by (simp_all add: place_def)

lemma setup_kstack_beside: "setup_kstack p s = Some (r, s') \<Longrightarrow> beside p s s'"
  unfolding setup_kstack_def Let_def
  by (auto simp: bind_eq_Some_conv split: option.splits intro!: beside_upd beside_mem beside_refl)

lemma put_kstack_beside: "put_kstack p s = Some s' \<Longrightarrow> beside q s s'"
  unfolding put_kstack_def by (auto simp: bind_eq_Some_conv intro!: beside_mem beside_refl)

lemma put_pgdir_beside: "put_pgdir m s = Some s' \<Longrightarrow> beside p s s'"
  unfolding put_pgdir_def by (auto simp: bind_eq_Some_conv intro!: beside_mem beside_refl)

lemma setup_pgdir_beside: "setup_pgdir m s = Some (r, s') \<Longrightarrow> beside p s s'"
  unfolding setup_pgdir_def Let_def
  by (auto simp: bind_eq_Some_conv split: option.splits intro!: beside_mem beside_refl)

lemma take_mm_beside: "take_mm p m s = Some (r, s') \<Longrightarrow> beside p s s'"
  unfolding take_mm_def Let_def by (auto simp: bind_eq_Some_conv intro!: beside_upd beside_mem beside_refl)

lemma copy_mm_beside:
  assumes "copy_mm fm fl p s = Some (r, s')" shows "beside p s s'"
proof (cases "p_mm (procs s (current s))")
  case old: (Some old)
  show ?thesis
  proof (cases "fl AND CLONE_VM = 0")
    case False
    then show ?thesis using assms old by (simp add: copy_mm_def take_mm_beside)
  next
    case fl: True
    obtain mm ph where mc: "mm_create (fm_mm fm \<noteq> None) (mem_of s) = (mm, ph)" by (metis surj_pair)
    show ?thesis
    proof (cases mm)
      case None
      then show ?thesis using assms old fl mc by (auto simp: copy_mm_def intro!: beside_mem beside_refl)
    next
      case (Some x)
      then obtain m r1 t where m: "fm_mm fm = Some m" and t: "setup_pgdir m (upd_mm m x (s\<lparr>mem_of := ph\<rparr>)) = Some (r1, t)"
        using assms old fl mc
        by (auto simp: copy_mm_def Let_def bind_eq_Some_conv)
      have bt: "beside p s t" by (rule beside_trans [OF _ setup_pgdir_beside [OF t]]) (intro beside_mem beside_refl)
      show ?thesis
      proof (cases r1)
        case (Inl e)
        then show ?thesis using assms old fl mc Some m t bt by (auto simp: copy_mm_def Let_def bind_eq_Some_conv)
      next
        case (Inr u)
        then obtain r2 mm2 ph2 where d: "dup_mmap (fm_vma fm) (mms t m) (mms t old) (mem_of t) = Some (r2, mm2, ph2)"
          using assms old fl mc Some m t by (auto simp: copy_mm_def Let_def bind_eq_Some_conv)
        let ?w = "upd_mm m mm2 (t\<lparr>mem_of := ph2\<rparr>)"
        have bw: "beside p s ?w" by (intro beside_mem bt)
        have step: "(case r2 of Inr _ \<Rightarrow> take_mm p m ?w
            | Inl e \<Rightarrow> do { ph \<leftarrow> exit_mmap (mms ?w m) (mem_of ?w); u \<leftarrow> put_pgdir m (?w\<lparr>mem_of := ph\<rparr>); mm_destroy (mms u m); Some (Inl e, u) })
          = Some (r, s')"
          using assms fl t d
          by (simp only: copy_mm_def Let_def mc [unfolded m] prod.case option.case Some Inr sum.case m Option.bind.simps old if_False simp_thms)
        show ?thesis
        proof (cases r2)
          case (Inl e)
          from step obtain ph3 where "put_pgdir m (?w\<lparr>mem_of := ph3\<rparr>) = Some s'"
            unfolding Inl sum.case by (elim bindE) (rule that, simp only: option.inject prod.inject)
          then show ?thesis by (rule beside_trans [OF beside_mem(1) [OF bw] put_pgdir_beside])
        next
          case (Inr u')
          then have "take_mm p m ?w = Some (r, s')"
            using step by (simp only: sum.case)
          then show ?thesis by (rule beside_trans [OF bw take_mm_beside])
        qed
      qed
    qed
  qed
qed (use assms in \<open>simp add: copy_mm_def beside_refl\<close>)

lemma take_files_beside: "beside p s t \<Longrightarrow> beside p s (take_files p f t)"
  unfolding take_files_def Let_def by (intro beside_upd beside_mem) simp_all

lemma copy_files_beside: "copy_files fm fl p s = Some (r, s') \<Longrightarrow> beside p s s'"
  unfolding copy_files_def
  by (auto simp: bind_eq_Some_conv split: option.splits if_splits intro!: take_files_beside beside_mem beside_refl)

lemma copy_thread_beside: "beside p s t \<Longrightarrow> beside p s (copy_thread p esp tf t)"
  unfolding copy_thread_def Let_def by (rule beside_mem)

lemma put_files_beside: "put_files p s = Some s' \<Longrightarrow> beside q s s'"
  unfolding put_files_def Let_def
  by (auto simp: bind_eq_Some_conv split: option.splits if_splits intro!: beside_mem beside_refl)

lemma drop_mm_beside:
  assumes "drop_mm m s = Some s'" shows "beside p s s'"
proof -
  let ?t = "upd_mm m ((mms s m)\<lparr>mm_count := mm_count (mms s m) - 1\<rparr>) s"
  have t: "beside p s ?t" by (intro beside_mem beside_refl)
  show ?thesis
  proof (cases "mm_count (mms ?t m) = 0")
    case True
    have "do { ph \<leftarrow> exit_mmap (mms ?t m) (mem_of ?t); u \<leftarrow> put_pgdir m (?t\<lparr>mem_of := ph\<rparr>); mm_destroy (mms u m); Some u } = Some s'"
      using assms unfolding drop_mm_def Let_def if_P [OF True] .
    then obtain ph where "put_pgdir m (?t\<lparr>mem_of := ph\<rparr>) = Some s'"
      by (elim bindE) (rule that, simp only: option.inject)
    then show ?thesis by (rule beside_trans [OF beside_mem(1) [OF t] put_pgdir_beside])
  next
    case False
    then show ?thesis using assms t by (simp add: drop_mm_def Let_def)
  qed
qed

lemma exit_mem_beside: "exit_mem s = Some s' \<Longrightarrow> beside (current s) s s'"
proof (cases "p_mm (procs s (current s))")
  case (Some m)
  assume e: "exit_mem s = Some s'"
  then obtain t where t: "drop_mm m s = Some t" "put_files (current t) (upd (current t) (\<lambda>x. x\<lparr>p_mm := None\<rparr>) t) = Some s'"
    unfolding exit_mem_def Some option.case Let_def by (elim bindE) (rule that, simp_all)
  have b: "beside (current s) s t" by (rule drop_mm_beside [OF t(1)])
  then have c: "current t = current s" by (rule beside_fields)
  show ?thesis using b by (intro beside_trans [OF beside_upd put_files_beside [OF t(2) [unfolded c]]]) simp_all
qed (auto simp: exit_mem_def beside_refl)

section \<open>Well-formed tables\<close>

text \<open>Between two steps: the tree and the pids are right, and the idle and the current process live.\<close>

definition procs_ok :: "'a ptable_scheme \<Rightarrow> bool" where
  "procs_ok s \<longleftrightarrow> tree_ok s \<and> pids_ok s \<and> current s \<in> family s
     \<and> p_state (procs s (idleproc s)) \<noteq> PROC_ZOMBIE \<and> p_state (procs s (current s)) \<noteq> PROC_ZOMBIE"

lemma pids_cong:
  assumes "pids_ok s" "proc_list s' = proc_list s" "proc_hash s' = proc_hash s" "last_pid s' = last_pid s" "next_safe s' = next_safe s"
    "\<And>q. q \<in> set (proc_list s) \<Longrightarrow> p_pid (procs s' q) = p_pid (procs s q)"
  shows "pids_ok s'" "pids s' = pids s"
proof -
  show p: "pids s' = pids s" using assms by (simp add: pids_def)
  have "{p \<in> set (proc_list s). pid_hashfn (p_pid (procs s' p)) = b} = {p \<in> set (proc_list s). pid_hashfn (p_pid (procs s p)) = b}" for b
    using assms(6) by auto
  then show "pids_ok s'" using assms unfolding pids_ok_def p by simp
qed

lemma beside_tree: "beside p s t \<Longrightarrow> tree_ok s \<Longrightarrow> tree_ok t"
  by (erule tree_cong) (simp_all add: beside_fields place_fields [OF beside_place])

lemma beside_pids: "beside p s t \<Longrightarrow> pids_ok s \<Longrightarrow> pids_ok t" "beside p s t \<Longrightarrow> pids_ok s \<Longrightarrow> pids t = pids s"
  by (erule pids_cong, simp_all add: beside_fields place_fields [OF beside_place])+

lemma beside_procs:
  assumes "beside p s t" "procs_ok s"
  shows "procs_ok t"
proof -
  note f = beside_fields [OF assms(1)] place_fields [OF beside_place [OF assms(1)]]
  have "family t = family s" by (simp add: family_def f)
  then show ?thesis using assms beside_tree [OF assms(1)] beside_pids [OF assms(1)] by (simp add: procs_ok_def f)
qed

lemma beside_sides:
  assumes "beside p s t"
  shows "t = s\<lparr>procs := procs t, current := current s, timer_expires := timer_expires s, timer_list := timer_list s\<rparr>
     \<lparr>mem_of := mem_of t, mms := mms t, kfs := kfs t, filess := filess t, tfs := tfs t, ctxs := ctxs t\<rparr>"
  using assms unfolding beside_def bare_def by (cases s; cases t) simp

text \<open>A new descriptor outside the table.\<close>

lemma fresh_tree:
  assumes "p \<notin> family s" "procs_ok s"
  shows "procs_ok (upd p f s)"
proof -
  have f: "idleproc s \<noteq> p" "current s \<noteq> p" "p \<notin> set (proc_list s)" using assms by (auto simp: family_def procs_ok_def)
  have "tree_ok (upd p f s)" by (rule tree_cong [of s]) (use assms in \<open>auto simp: procs_ok_def\<close>)
  moreover have "pids_ok (upd p f s)" by (rule pids_cong [of s]) (use assms f in \<open>auto simp: procs_ok_def\<close>)
  ultimately show ?thesis using assms f by (simp add: procs_ok_def family_def)
qed

section \<open>With a scheduling class\<close>

text \<open>The scheduling classes do not look at memory and files.\<close>

locale proc_queue = kin_queue sc rq_inv queued
  for sc :: "'a kernel_scheme sched_class" and rq_inv and queued +
  assumes side_inv: "rq_inv s \<Longrightarrow>
      rq_inv (s\<lparr>mem_of := a, mms := b, kfs := c, filess := d, tfs := e, ctxs := g\<rparr>)
      \<and> queued (s\<lparr>mem_of := a, mms := b, kfs := c, filess := d, tfs := e, ctxs := g\<rparr>) = queued s"
begin

lemma beside_sched:
  assumes b: "beside p s t" and s: "sched_ok s"
  shows "sched_ok t" "queued t = queued s"
proof -
  note f = beside_fields [OF b] place_fields [OF beside_place [OF b]]
  let ?u = "s\<lparr>procs := procs t, current := current s, timer_expires := timer_expires s, timer_list := timer_list s\<rparr>"
  have "rq_inv s" using s by (simp add: sched_ok_def)
  then have u: "rq_inv ?u \<and> queued ?u = queued s" by (rule core_upd) (rule f)
  then have v: "rq_inv t \<and> queued t = queued ?u" by (subst (1 2) beside_sides [OF b]) (rule side_inv, simp)
  show "queued t = queued s" using u v by simp
  then show "sched_ok t" using v s by (simp add: sched_ok_def f)
qed

lemma table_sched:
  assumes "sched_ok s \<and> queued s = Q"
  shows "sched_ok (s\<lparr>proc_list := l\<rparr>) \<and> queued (s\<lparr>proc_list := l\<rparr>) = Q"
    "sched_ok (s\<lparr>proc_hash := h\<rparr>) \<and> queued (s\<lparr>proc_hash := h\<rparr>) = Q"
    "sched_ok (s\<lparr>nr_process := n\<rparr>) \<and> queued (s\<lparr>nr_process := n\<rparr>) = Q"
    "sched_ok (s\<lparr>last_pid := lp, next_safe := ns\<rparr>) \<and> queued (s\<lparr>last_pid := lp, next_safe := ns\<rparr>) = Q"
proof -
  have r: "rq_inv s" using assms by (simp add: sched_ok_def)
  note t = table_upd [OF r]
  have e: "s\<lparr>proc_list := l\<rparr> = s\<lparr>proc_list := l, proc_hash := proc_hash s, nr_process := nr_process s, initproc := initproc s,
      next_safe := next_safe s, last_pid := last_pid s\<rparr>"
    "s\<lparr>proc_hash := h\<rparr> = s\<lparr>proc_list := proc_list s, proc_hash := h, nr_process := nr_process s, initproc := initproc s,
      next_safe := next_safe s, last_pid := last_pid s\<rparr>"
    "s\<lparr>nr_process := n\<rparr> = s\<lparr>proc_list := proc_list s, proc_hash := proc_hash s, nr_process := n, initproc := initproc s,
      next_safe := next_safe s, last_pid := last_pid s\<rparr>"
    "s\<lparr>last_pid := lp, next_safe := ns\<rparr> = s\<lparr>proc_list := proc_list s, proc_hash := proc_hash s, nr_process := nr_process s,
      initproc := initproc s, next_safe := ns, last_pid := lp\<rparr>" by simp_all
  have i: "rq_inv (s\<lparr>proc_list := l\<rparr>) \<and> queued (s\<lparr>proc_list := l\<rparr>) = queued s" by (subst (1 2) e(1)) (rule t)
  show "sched_ok (s\<lparr>proc_list := l\<rparr>) \<and> queued (s\<lparr>proc_list := l\<rparr>) = Q" using assms i by (auto simp: sched_ok_def)
  have i: "rq_inv (s\<lparr>proc_hash := h\<rparr>) \<and> queued (s\<lparr>proc_hash := h\<rparr>) = queued s" by (subst (1 2) e(2)) (rule t)
  show "sched_ok (s\<lparr>proc_hash := h\<rparr>) \<and> queued (s\<lparr>proc_hash := h\<rparr>) = Q" using assms i by (auto simp: sched_ok_def)
  have i: "rq_inv (s\<lparr>nr_process := n\<rparr>) \<and> queued (s\<lparr>nr_process := n\<rparr>) = queued s" by (subst (1 2) e(3)) (rule t)
  show "sched_ok (s\<lparr>nr_process := n\<rparr>) \<and> queued (s\<lparr>nr_process := n\<rparr>) = Q" using assms i by (auto simp: sched_ok_def)
  have i: "rq_inv (s\<lparr>last_pid := lp, next_safe := ns\<rparr>) \<and> queued (s\<lparr>last_pid := lp, next_safe := ns\<rparr>) = queued s" by (subst (1 2) e(4)) (rule t)
  show "sched_ok (s\<lparr>last_pid := lp, next_safe := ns\<rparr>) \<and> queued (s\<lparr>last_pid := lp, next_safe := ns\<rparr>) = Q"
    using assms i by (auto simp: sched_ok_def)
qed

lemma case_sched:
  "sched_ok t \<and> queued t = Q \<Longrightarrow> (\<And>d. sched_ok (g d) \<and> queued (g d) = Q) \<Longrightarrow>
     sched_ok (case c of None \<Rightarrow> t | Some d \<Rightarrow> g d) \<and> queued (case c of None \<Rightarrow> t | Some d \<Rightarrow> g d) = Q"
  by (cases c) simp_all

lemma set_links_sched:
  assumes "sched_ok s" "set_links p s = Some s'"
  shows "sched_ok s' \<and> queued s' = queued s"
proof -
  let ?s = "upd p (\<lambda>x. x\<lparr>p_yptr := None\<rparr>) (s\<lparr>proc_list := p # proc_list s\<rparr>)"
  obtain par where par: "p_parent (procs ?s p) = Some par"
    using assms(2) by (auto simp: set_links_def Let_def bind_eq_Some_conv)
  have s': "s' = (let s = upd p (\<lambda>x. x\<lparr>p_optr := p_cptr (procs ?s par)\<rparr>) ?s;
      s = (case p_optr (procs s p) of None \<Rightarrow> s | Some old \<Rightarrow> upd old (\<lambda>x. x\<lparr>p_yptr := Some p\<rparr>) s);
      s = upd par (\<lambda>x. x\<lparr>p_cptr := Some p\<rparr>) s
    in s\<lparr>nr_process := nr_process s + 1\<rparr>)"
    using assms(2) par unfolding set_links_def Let_def by (simp only: Option.bind.simps option.inject)
  show ?thesis unfolding s' Let_def
    by (intro table_sched sched_upd case_sched) (simp_all add: assms)
qed

lemma remove_links_sched:
  assumes "sched_ok s" "remove_links p s = Some s'" "p_parent (procs s p) = Some par"
  shows "sched_ok s' \<and> queued s' = queued s"
proof -
  let ?s = "s\<lparr>proc_list := remove1 p (proc_list s)\<rparr>"
  let ?o = "case p_optr (procs ?s p) of None \<Rightarrow> ?s | Some old \<Rightarrow> upd old (\<lambda>x. x\<lparr>p_yptr := p_yptr (procs ?s p)\<rparr>) ?s"
  have o: "sched_ok ?o \<and> queued ?o = queued s"
    by (intro table_sched sched_upd case_sched) (simp_all add: assms)
  have par: "p_parent (procs ?o p) = Some par" using assms(3) by (simp split: option.split)
  let ?w = "case p_yptr (procs ?o p) of Some yng \<Rightarrow> upd yng (\<lambda>x. x\<lparr>p_optr := p_optr (procs ?o p)\<rparr>) ?o
     | None \<Rightarrow> upd par (\<lambda>x. x\<lparr>p_cptr := p_optr (procs ?o p)\<rparr>) ?o"
  have "s' = ?w\<lparr>nr_process := nr_process ?w - 1\<rparr>"
    using assms(2) par unfolding remove_links_def Let_def
    by (cases "p_yptr (procs ?o p)") (simp_all only: Option.bind.simps option.case option.inject)
  moreover have "sched_ok ?w \<and> queued ?w = queued s" by (rule case_sched; rule sched_upd [OF o]; simp)
  ultimately show ?thesis using table_sched(3) by blast
qed

text \<open>The new process joins: a free pid, the hash list, the tree, the run queue.\<close>

lemma join_table_ok:
  assumes ok: "procs_ok s" "sched_ok s" and n: "nr_process s < MAX_PROCESS"
    and p: "p \<notin> family s" "p \<notin> queued s" "p_parent (procs s p) = Some (current s)" "p_cptr (procs s p) = None"
      "p_state (procs s p) = PROC_UNINIT"
  shows "\<exists>pid s'. join_table sc p s = Some (pid, s') \<and> procs_ok s' \<and> sched_ok s'
     \<and> next_pid (pids s) (last_pid s) = Some pid \<and> pid \<notin> set (pids s) \<and> 0 < pid
     \<and> proc_list s' = p # proc_list s \<and> offspring s' (current s) = insert p (offspring s (current s))
     \<and> current s' = current s \<and> queued s' = insert p (queued s) \<and> p_pid (procs s' p) = pid \<and> initproc s' = initproc s
     \<and> (\<forall>q. ident (procs s' q) = ident (procs s q)
          \<and> p_state (procs s' q) = (if q = p then PROC_RUNNABLE else p_state (procs s q)))"
proof -
  have tree: "tree_ok s" and pd: "pids_ok s" and cur: "current s \<in> family s" "p_state (procs s (current s)) \<noteq> PROC_ZOMBIE"
    and idle: "p_state (procs s (idleproc s)) \<noteq> PROC_ZOMBIE"
    using ok(1) by (simp_all add: procs_ok_def)
  have pf: "p \<notin> set (proc_list s)" "p \<noteq> idleproc s" "p \<noteq> current s" using p(1) cur by (auto simp: family_def)
  have len: "int (length (pids s)) < MAX_PID - 1"
    using n tree by (simp add: tree_ok_def pids_def MAX_PID_def MAX_PROCESS_def)
  have inv: "pid_inv (pids s) (last_pid s) (next_safe s)" using pd by (simp add: pids_ok_def)
  have room: "\<not> {1 ..< MAX_PID} \<subseteq> set (pids s)" using pid_exists [OF len] by (meson atLeastLessThan_iff subsetD)
  obtain pid ns where g: "get_pid s = Some (pid, s\<lparr>last_pid := pid, next_safe := ns\<rparr>)"
    "next_pid (pids s) (last_pid s) = Some pid" "pid \<notin> set (pids s)" "0 < pid" "pid < MAX_PID" "pid_inv (pid # pids s) pid ns"
    using get_pid_ok [OF inv room] by blast
  define t where "t = upd p (\<lambda>x. x\<lparr>p_pid := pid\<rparr>) (s\<lparr>last_pid := pid, next_safe := ns\<rparr>)"
  define u where "u = hash_proc p t"
  have tu: "procs t = (procs s)(p := (procs s p)\<lparr>p_pid := pid\<rparr>)" "procs u = procs t" "proc_list u = proc_list s" "idleproc u = idleproc s"
    "nr_process u = nr_process s" "initproc u = initproc s" "current u = current s" "last_pid u = pid" "next_safe u = ns"
    "proc_hash u = (proc_hash s)(pid_hashfn pid := p # proc_hash s (pid_hashfn pid))"
    by (simp_all add: t_def u_def hash_proc_def upd_def Let_def)
  have "sched_ok t \<and> queued t = queued s" unfolding t_def by (rule sched_upd [OF table_sched(4)]) (simp_all add: ok(2))
  then have us: "sched_ok u \<and> queued u = queued s" unfolding u_def hash_proc_def Let_def by (rule table_sched(2))
  have ut: "tree_ok u" by (rule tree_cong [OF tree]) (use p(1) in \<open>simp_all add: tu\<close>)
  have uf: "family u = family s" "offspring u q = offspring s q" for q by (auto simp: family_def offspring_def tu)
  have "p_parent (procs u p) = Some (current u)" "p_cptr (procs u p) = None" "p_state (procs u p) \<noteq> PROC_ZOMBIE"
    "p_state (procs u (current u)) \<noteq> PROC_ZOMBIE" using p cur(2) pf(3) by (simp_all add: tu)
  from set_links_tree [OF ut _ this(1) _ this(2-4)] p(1) cur(1)
  obtain v where v: "set_links p u = Some v" "tree_ok v" "proc_list v = p # proc_list s" "offspring v (current s) = insert p (offspring s (current s))"
    "proc_hash v = proc_hash u" "initproc v = initproc s" "next_safe v = ns" "last_pid v = pid"
    "idleproc v = idleproc s" "current v = current s" "\<And>q. body (procs v q) = body (procs u q)"
    by (auto simp: uf tu)
  note vb = body_fields [OF v(11)]
  have vs: "sched_ok v" "queued v = queued s" using set_links_sched [OF _ v(1)] us by auto
  have vst: "p_state (procs v p) = PROC_UNINIT" using p(5) by (simp add: vb tu)
  obtain w where w: "wakeup_proc sc p v = Some w" "sched_ok w" "current w = current v"
    "\<And>q. p_state (procs w q) = (if q = p then PROC_RUNNABLE else p_state (procs v q))"
    "queued w = (if p_state (procs v p) \<noteq> PROC_RUNNABLE \<and> p \<noteq> current v \<and> p \<noteq> idleproc v then insert p (queued v) else queued v)"
    using wakeup_ok [OF vs(1), of p] vst by auto
  have k: "kin_same v w" by (rule wakeup_kin [OF w(1)])
  have idq: "ident (procs v q) = ident (procs s q)" for q unfolding vb(6) by (simp add: tu ident_def)
  have kf: "proc_list w = p # proc_list s" "proc_hash w = proc_hash u" "idleproc w = idleproc s" "last_pid w = pid" "next_safe w = ns"
    "\<And>q. p_pid (procs w q) = p_pid (procs u q)" "\<And>q. ident (procs w q) = ident (procs s q)"
    "\<And>q. p_parent (procs w q) = p_parent (procs v q)" "initproc w = initproc s"
    using k v idq unfolding kin_same_def by (simp_all add: vb(1-5) tu)
  have wt: "tree_ok w" by (rule kin_same_tree_ok [OF k v(2)]) (auto simp: w(4) split: if_splits)
  have wp: "pids_ok w"
    by (rule pids_ok_new [OF pd pf(1) g(3-6)]) (simp_all add: kf tu)
  have "procs_ok w"
    using wt wp cur idle pf by (simp add: procs_ok_def family_def kf w(3,4) v(10) vb tu)
  moreover have "join_table sc p s = Some (p_pid (procs w p), w)"
    unfolding join_table_def g(1) Option.bind.simps prod.case Let_def t_def [symmetric] u_def [symmetric] v(1) w(1) by (rule refl)
  moreover have "p_pid (procs w p) = pid" by (simp add: kf tu)
  moreover have "offspring w (current s) = insert p (offspring s (current s))"
    using v(4) unfolding offspring_def kf v(3) by (simp add: kf(8))
  moreover have "queued w = insert p (queued s)" using w(5) vst pf by (simp add: v(9,10) vs(2))
  moreover have "p_state (procs w q) = (if q = p then PROC_RUNNABLE else p_state (procs s q))" for q
    by (simp add: w(4) vb tu)
  ultimately show ?thesis using g(2-4) kf(1,7,9) w(2,3) v(10) by (intro exI [of _ pid] exI [of _ w]) simp
qed

text \<open>The runnable processes are in the table.\<close>

definition life_ok :: "'a kernel_scheme \<Rightarrow> bool" where
  "life_ok s \<longleftrightarrow> procs_ok s \<and> sched_ok s \<and> queued s \<subseteq> set (proc_list s)"

lemma beside_life: "beside p s t \<Longrightarrow> life_ok s \<Longrightarrow> life_ok t \<and> queued t = queued s"
  using beside_procs beside_sched beside_fields(2) unfolding life_ok_def by metis

text \<open>\<open>do_fork\<close>: every outcome leaves the table well formed, and only success changes it.\<close>

lemma do_fork_ok:
  assumes ok: "life_ok s" and fresh: "\<And>p. fm_proc fm = Some p \<Longrightarrow> p \<notin> family s"
    and r: "do_fork sc fm fl stk tf s = Some (r, s')"
  shows "life_ok s' \<and> current s' = current s \<and> initproc s' = initproc s
     \<and> (\<forall>q. fm_proc fm \<noteq> Some q \<longrightarrow> p_state (procs s' q) = p_state (procs s q)) \<and>
     (case r of
        Inl e \<Rightarrow> e = (if MAX_PROCESS \<le> nr_process s then E_NO_FREE_PROC else E_NO_MEM)
          \<and> proc_list s' = proc_list s \<and> pids s' = pids s \<and> queued s' = queued s
      | Inr pid \<Rightarrow> \<exists>p. fm_proc fm = Some p \<and> next_pid (pids s) (last_pid s) = Some pid \<and> pid \<notin> set (pids s) \<and> 0 < pid
          \<and> proc_list s' = p # proc_list s \<and> p_pid (procs s' p) = pid
          \<and> offspring s' (current s) = insert p (offspring s (current s)) \<and> queued s' = insert p (queued s))"
proof (cases "MAX_PROCESS \<le> nr_process s")
  case True
  then show ?thesis using r ok by (auto simp: do_fork_def)
next
  case n: False
  show ?thesis
  proof (cases "fm_proc fm")
    case None
    then show ?thesis using r ok n by (auto simp: do_fork_def alloc_proc_def)
  next
    case (Some p)
    have pf: "p \<notin> family s" "p \<notin> queued s" using fresh [OF Some] ok by (auto simp: life_ok_def family_def)
    define a where "a = snd (alloc_proc (Some p) s)"
    define b where "b = upd p (\<lambda>x. x\<lparr>p_parent := Some (current a)\<rparr>) a"
    have aa: "alloc_proc (Some p) s = (Some p, a)" by (simp add: a_def alloc_proc_def)
    have pc: "p \<noteq> current s" using pf ok by (auto simp: life_ok_def procs_ok_def)
    obtain h where h: "beside p (upd p h s) b" "\<And>x. p_parent (h x) = Some (current s)" "\<And>x. p_cptr (h x) = None" "\<And>x. p_state (h x) = PROC_UNINIT"
    proof -
      let ?h = "\<lambda>x. x\<lparr>p_state := PROC_UNINIT, p_pid := - 1, p_runs := 0, p_kstack := 0, p_need_resched := False,
             p_mm := None, p_cr3 := boot_pgdir s * PGSIZE, p_flags := 0, p_name := [], p_wait_state := 0,
             p_cptr := None, p_optr := None, p_yptr := None, p_filesp := None, p_parent := Some (current s)\<rparr>"
      have "beside p (upd p ?h s) b" by (simp add: b_def a_def alloc_proc_def beside_def bare_def upd_def)
      then show thesis by (rule that) simp_all
    qed
    let ?s = "upd p h s"
    have s: "procs_ok ?s" "sched_ok ?s" "queued ?s = queued s"
      using fresh_tree [OF pf(1)] fresh_upd [of s p h] ok pf(2) unfolding life_ok_def sched_ok_def by auto
    have sf: "pids ?s = pids s" "family ?s = family s" "offspring ?s q = offspring s q" for q
      using pf(1) by (auto simp: pids_def family_def offspring_def)
    have life: "life_ok t \<and> queued t = queued s \<and> current t = current s \<and> pids t = pids s \<and> proc_list t = proc_list s
      \<and> initproc t = initproc s \<and> (\<forall>q. q \<noteq> p \<longrightarrow> p_state (procs t q) = p_state (procs s q))" if "beside p ?s t" for t
    proof -
      have "life_ok ?s" using s ok by (simp add: life_ok_def)
      then show ?thesis using beside_life [OF that] beside_fields [OF that] beside_pids(2) [OF that] place_fields(1) [OF beside_place [OF that]] s sf
        by (simp add: procs_ok_def)
    qed
    have step: "do { kassert (p_wait_state (procs b (current b)) = 0);
       (ret, s) \<leftarrow> setup_kstack p b;
       (case ret of
          Inl _ \<Rightarrow> Some (Inl E_NO_MEM, s)
        | Inr _ \<Rightarrow> do {
            (ret, s) \<leftarrow> copy_mm fm fl p s;
            (case ret of
               Inl _ \<Rightarrow> do { s \<leftarrow> put_kstack p s; Some (Inl E_NO_MEM, s) }
             | Inr _ \<Rightarrow> do {
                 (ret, s) \<leftarrow> copy_files fm fl p s;
                 (case ret of
                    Inl _ \<Rightarrow> do { s \<leftarrow> put_kstack p s; Some (Inl E_NO_MEM, s) }
                  | Inr _ \<Rightarrow> do { (pid, s) \<leftarrow> join_table sc p (copy_thread p stk tf s); Some (Inr pid, s) })
               })
          }) } = Some (r, s')"
      using r n unfolding do_fork_def Some aa b_def Let_def by simp
    have fail: ?thesis if "r = Inl E_NO_MEM" "beside p ?s s'" using life [OF that(2)] that(1) n Some by simp
    have failk: ?thesis if "put_kstack p t \<bind> (\<lambda>s. Some (Inl E_NO_MEM, s)) = Some (r, s')" "beside p ?s t" for t
    proof (rule fail)
      show "r = Inl E_NO_MEM" using that(1) by (auto elim!: bindE)
      have "put_kstack p t = Some s'" using that(1) by (auto elim!: bindE)
      then show "beside p ?s s'" by (rule beside_trans [OF that(2) put_kstack_beside])
    qed
    obtain r1 t1 where 1: "setup_kstack p b = Some (r1, t1)"
      using step by (elim bindE) auto
    have b1: "beside p ?s t1" by (rule beside_trans [OF h(1) setup_kstack_beside [OF 1]])
    show ?thesis
    proof (cases r1)
      case (Inl e)
      then show ?thesis using step 1 b1 fail by (auto elim!: bindE)
    next
      case r1: (Inr u)
      obtain r2 t2 where 2: "copy_mm fm fl p t1 = Some (r2, t2)" using step 1 r1 by (auto elim!: bindE)
      have b2: "beside p ?s t2" by (rule beside_trans [OF b1 copy_mm_beside [OF 2]])
      show ?thesis
      proof (cases r2)
        case (Inl e)
        then have "put_kstack p t2 \<bind> (\<lambda>s. Some (Inl E_NO_MEM, s)) = Some (r, s')" using step 1 2 r1 by (elim bindE) simp
        then show ?thesis by (rule failk [OF _ b2])
      next
        case r2: (Inr u)
        obtain r3 t3 where 3: "copy_files fm fl p t2 = Some (r3, t3)" using step 1 2 r1 r2 by (auto elim!: bindE)
        have b3: "beside p ?s t3" by (rule beside_trans [OF b2 copy_files_beside [OF 3]])
        show ?thesis
        proof (cases r3)
          case (Inl e)
          then have "put_kstack p t3 \<bind> (\<lambda>s. Some (Inl E_NO_MEM, s)) = Some (r, s')" using step 1 2 3 r1 r2 by (elim bindE) simp
          then show ?thesis by (rule failk [OF _ b3])
        next
          case r3: (Inr u)
          let ?t = "copy_thread p stk tf t3"
          have bt: "beside p ?s ?t" by (rule copy_thread_beside [OF b3])
          note f = beside_fields [OF bt] place_fields [OF beside_place [OF bt]]
          have off: "offspring ?t q = offspring s q" for q using sf(3) [of q] by (simp add: offspring_def f)
          have fam: "family ?t = family s" using sf(2) by (simp add: family_def f)
          have t: "procs_ok ?t" "sched_ok ?t" "queued ?t = queued s" using life [OF bt] by (simp_all add: life_ok_def)
          obtain pid u where u: "join_table sc p ?t = Some (pid, u)" "procs_ok u" "sched_ok u"
            "next_pid (pids ?t) (last_pid ?t) = Some pid" "pid \<notin> set (pids ?t)" "0 < pid"
            "proc_list u = p # proc_list ?t" "offspring u (current ?t) = insert p (offspring ?t (current ?t))"
            "current u = current ?t" "queued u = insert p (queued ?t)" "p_pid (procs u p) = pid" "initproc u = initproc ?t"
            "\<forall>q. q \<noteq> p \<longrightarrow> p_state (procs u q) = p_state (procs ?t q)"
            using join_table_ok [OF t(1,2), of p] n pf h(2-4) fam t(3) f by auto
          have "r = Inr pid" "s' = u" using step 1 2 3 r1 r2 r3 u(1) by (auto elim!: bindE)
          moreover have "queued s \<subseteq> set (proc_list s)" using ok by (simp add: life_ok_def)
          ultimately show ?thesis using u Some life [OF bt] off t(3) f by (auto simp: life_ok_def)
        qed
      qed
    qed
  qed
qed

text \<open>\<open>do_exit\<close>, once its memory is released.\<close>

lemma do_exit_ok:
  assumes ok: "life_ok s" and c: "current s \<noteq> idleproc s"
    and i: "initproc s = Some ini" "ini \<noteq> current s" "p_state (procs s ini) \<noteq> PROC_ZOMBIE" and m: "exit_mem s = Some t"
  shows "\<exists>s'. do_exit sc code s = Some s' \<and> life_ok s' \<and> current s' \<noteq> current s
     \<and> p_state (procs s' (current s)) = PROC_ZOMBIE \<and> p_exit_code (procs s' (current s)) = code
     \<and> initproc s' = initproc s
     \<and> (\<forall>q. q \<noteq> current s \<longrightarrow> p_state (procs s' q) = p_state (procs s q) \<or> p_state (procs s' q) = PROC_RUNNABLE)
     \<and> proc_list s' = proc_list s \<and> offspring s' ini = offspring s ini \<union> offspring s (current s)
     \<and> (\<forall>q. p_parent (procs s (current s)) = Some q \<and> p_wait_state (procs s q) = WT_CHILD \<longrightarrow> p_state (procs s' q) = PROC_RUNNABLE)"
proof -
  let ?c = "current s"
  have b: "beside ?c s t" by (rule exit_mem_beside [OF m])
  note f = beside_fields [OF b] place_fields [OF beside_place [OF b]]
  have lt: "life_ok t" using beside_life [OF b ok] by blast
  have tl: "tree_ok t" "pids_ok t" "sched_ok t" "p_state (procs t (idleproc t)) \<noteq> PROC_ZOMBIE" "queued t \<subseteq> set (proc_list t)"
    using lt by (simp_all add: life_ok_def procs_ok_def)
  have cl: "current t \<in> set (proc_list t)" using lt c by (auto simp: life_ok_def procs_ok_def family_def f)
  have it: "initproc t = Some ini" "ini \<noteq> current t" "p_state (procs t ini) \<noteq> PROC_ZOMBIE" using i by (simp_all add: f)
  obtain u where u': "exit_table sc code t = Some u" "tree_ok u" "sched_ok u" "current u = current t"
     "proc_list u = proc_list t" "proc_hash u = proc_hash t" "next_safe u = next_safe t" "last_pid u = last_pid t" "idleproc u = idleproc t"
     "p_state (procs u (current t)) = PROC_ZOMBIE"
     "\<And>q. ident (procs u q) = ident (if q = current t then (procs t q)\<lparr>p_exit_code := code\<rparr> else procs t q)"
     "\<And>q. p_pid (procs u q) = p_pid (procs t q)"
     "\<And>q. p_parent (procs u q) = (if q \<in> offspring t (current t) then Some ini else p_parent (procs t q))"
     "\<And>q. q \<noteq> current t \<Longrightarrow> p_state (procs u q) = p_state (procs t q) \<or> p_state (procs u q) = PROC_RUNNABLE"
     "\<And>q. p_parent (procs t (current t)) = Some q \<and> p_wait_state (procs t q) = WT_CHILD \<Longrightarrow> p_state (procs u q) = PROC_RUNNABLE"
     "queued u \<subseteq> insert ini (queued t \<union> {q. p_parent (procs t (current t)) = Some q})" "initproc u = initproc t"
    using exit_table_ok [OF tl(1,3,4) cl it, of code] by blast
  note u = u' [unfolded f(1-3)]
  obtain v where v: "schedule sc u = Some v" "sched_ok v" "idleproc v = idleproc u"
     "\<And>q. p_state (procs v q) = p_state (procs u q)"
     "if ready u = {} then current v = idleproc u \<and> queued v = {} else current v \<in> ready u \<and> queued v = ready u - {current v}"
    using schedule_ok [OF u(3)] by auto
  have k: "kin_same u v" by (rule schedule_kin [OF v(1)])
  then have kf: "proc_list v = proc_list s" "proc_hash v = proc_hash t" "next_safe v = next_safe t" "last_pid v = last_pid t"
    "\<And>q. p_pid (procs v q) = p_pid (procs t q)" "\<And>q. ident (procs v q) = ident (procs u q)"
    "\<And>q. p_parent (procs v q) = p_parent (procs u q)"
    using u by (simp_all add: kin_same_def)
  have rdy: "ready u = queued u" using u(4,10) by (simp add: ready_def)
  have iniL: "ini \<in> set (proc_list s)" using tl(1) it(1) by (auto simp: tree_ok_def f)
  have qu: "queued u \<subseteq> set (proc_list s)"
  proof
    fix x assume x: "x \<in> queued u"
    show "x \<in> set (proc_list s)"
    proof (cases "p_parent (procs t ?c) = Some x")
      case True
      have "?c \<in> set (proc_list t)" using cl by (simp add: f)
      then have "x \<in> family t" using tl(1) True unfolding tree_ok_def by (metis option.inject)
      moreover have "x \<noteq> idleproc u" using x u(3) by (auto simp: sched_ok_def)
      ultimately show ?thesis by (simp add: family_def u(9) f)
    next
      case False
      then show ?thesis using x u(16) tl(5) iniL by (auto simp: f)
    qed
  qed
  have cv: "current v = idleproc s \<or> current v \<in> queued u" using v(5) rdy u(9) by (auto split: if_splits)
  have qv: "queued v \<subseteq> set (proc_list v)" using v(5) rdy qu by (auto simp: kf split: if_splits)
  have ncu: "?c \<notin> queued u" using u(3,4) by (auto simp: sched_ok_def)
  have vt: "tree_ok v" by (rule kin_same_tree_ok [OF k u(2)]) (simp add: v(4))
  have vp: "pids_ok v" by (rule pids_cong [OF tl(2)]) (simp_all add: kf f)
  have idz: "p_state (procs v (idleproc v)) \<noteq> PROC_ZOMBIE" using u(14) [of "idleproc s"] c tl(4) by (auto simp: v(3,4) u(9) f)
  have "life_ok v"
    unfolding life_ok_def procs_ok_def
  proof (intro conjI)
    show "current v \<in> family v" using cv qu by (auto simp: family_def kf v(3) u(9))
    show "p_state (procs v (current v)) \<noteq> PROC_ZOMBIE"
      using cv idz u(3) unfolding v(3,4) u(9) sched_ok_def by auto
  qed (use vt vp idz qv v(2) in simp_all)
  moreover have "current v \<noteq> ?c" using cv c ncu by auto
  moreover have "do_exit sc code s = Some v"
    unfolding do_exit_def m Option.bind.simps u(1) v(1) using c i by simp
  moreover have "p_exit_code (procs v ?c) = code" using kf(6) [of ?c] u(11) [of ?c] by (simp add: ident_def)
  moreover have "offspring v ini = offspring s ini \<union> offspring s ?c"
    unfolding offspring_def kf(7) u(13) kf(1) by (auto simp: f)
  moreover have "p_parent (procs s ?c) = Some q \<and> p_wait_state (procs s q) = WT_CHILD \<Longrightarrow> p_state (procs v q) = PROC_RUNNABLE" for q
    using u(15) [of q] by (simp add: f v(4))
  moreover have "initproc v = initproc s" using k u(17) by (simp add: kin_same_def f)
  moreover have "q \<noteq> ?c \<Longrightarrow> p_state (procs v q) = p_state (procs s q) \<or> p_state (procs v q) = PROC_RUNNABLE" for q
    using u(14) [of q] by (simp add: f v(4))
  ultimately show ?thesis using u(10) kf(1) v(4) by (intro exI [of _ v]) simp
qed

text \<open>The end of \<open>do_wait\<close>: a dead process leaves the table.\<close>

lemma reap_ok:
  assumes ok: "life_ok s" and z: "p \<in> set (proc_list s)" "p_state (procs s p) = PROC_ZOMBIE" and r: "reap cs p s = Some (st, s')"
  shows "life_ok s' \<and> st = map_option (\<lambda>a. (a, p_exit_code (procs s p))) cs \<and> proc_list s' = remove1 p (proc_list s)
     \<and> current s' = current s \<and> initproc s' = initproc s \<and> (\<forall>q. p_state (procs s' q) = p_state (procs s q))
     \<and> queued s' = queued s \<and> (\<forall>q. offspring s' q = offspring s q - {p})
     \<and> find_proc s' (p_pid (procs s p)) = None"
proof -
  have tree: "tree_ok s" and pd: "pids_ok s" and sk: "sched_ok s" and q: "queued s \<subseteq> set (proc_list s)"
    and cur: "current s \<in> family s" "p_state (procs s (current s)) \<noteq> PROC_ZOMBIE" and idle: "p_state (procs s (idleproc s)) \<noteq> PROC_ZOMBIE"
    using ok by (simp_all add: life_ok_def procs_ok_def)
  let ?u = "unhash_proc p s"
  have uf: "procs ?u = procs s" "proc_list ?u = proc_list s" "initproc ?u = initproc s" "idleproc ?u = idleproc s" "current ?u = current s"
    "proc_hash ?u = (\<lambda>b. remove1 p (proc_hash s b))" "last_pid ?u = last_pid s" "next_safe ?u = next_safe s" "nr_process ?u = nr_process s"
    by (simp_all add: unhash_proc_def)
  have us: "sched_ok ?u \<and> queued ?u = queued s" unfolding unhash_proc_def by (rule table_sched(2)) (simp add: sk)
  have ut: "tree_ok ?u" by (rule tree_cong [OF tree]) (simp_all add: uf)
  obtain par where par: "p_parent (procs s p) = Some par" using tree z(1) unfolding tree_ok_def by blast
  have nk: "p_cptr (procs s p) = None" using tree z by (simp add: tree_ok_def)
  have r': "kassert (p \<noteq> idleproc s \<and> initproc s \<noteq> Some p) \<bind> (\<lambda>_. remove_links p ?u \<bind> (\<lambda>v. put_kstack p v \<bind>
      (\<lambda>w. Some (map_option (\<lambda>a. (a, p_exit_code (procs s p))) cs, w)))) = Some (st, s')"
    using r unfolding reap_def Let_def .
  have ini: "initproc ?u \<noteq> Some p" using r' by (auto simp: uf elim: bindE)
  obtain v where v: "remove_links p ?u = Some v" "tree_ok v" "proc_list v = remove1 p (proc_list s)"
     "proc_hash v = (\<lambda>b. remove1 p (proc_hash s b))" "next_safe v = next_safe s" "last_pid v = last_pid s"
     "idleproc v = idleproc s" "current v = current s" "\<And>q. body (procs v q) = body (procs s q)"
     "initproc v = initproc s"
    using remove_links_tree [OF ut, of p par] z(1) par nk ini unfolding uf by auto
  note vb = body_fields [OF v(9)]
  have vs: "sched_ok v \<and> queued v = queued s" using remove_links_sched [OF _ v(1)] us par by (simp add: uf)
  have vp: "pids_ok v" by (rule pids_ok_reap [OF pd _ z(1)]) (use tree in \<open>simp_all add: tree_ok_def v vb\<close>)
  have st: "st = map_option (\<lambda>a. (a, p_exit_code (procs s p))) cs" "put_kstack p v = Some s'"
    using r' v(1) by (auto elim!: bindE)
  have b: "beside p v s'" by (rule put_kstack_beside [OF st(2)])
  note f = beside_fields [OF b] place_fields [OF beside_place [OF b]]
  have d: "set (remove1 p (proc_list s)) = set (proc_list s) - {p}" using tree by (simp add: tree_ok_def)
  have "p \<notin> queued s" using sk z(2) by (auto simp: sched_ok_def)
  moreover have "p \<noteq> current s" "p \<noteq> idleproc s" using cur idle z(2) by auto
  ultimately have "life_ok v"
    using v(2) vp vs cur idle q by (auto simp: life_ok_def procs_ok_def family_def v(3,7,8) vb(1) d)
  from beside_life [OF b this] have l: "life_ok s'" "queued s' = queued s" using vs by simp_all
  have "find_proc s' (p_pid (procs s p)) = None"
  proof (rule ccontr)
    have ps: "pids_ok s'" using l(1) by (simp add: life_ok_def procs_ok_def)
    assume "find_proc s' (p_pid (procs s p)) \<noteq> None"
    then obtain x where "x \<in> set (proc_list s')" "p_pid (procs s' x) = p_pid (procs s p)" using find_proc_ok [OF ps] by auto
    then have "x \<in> set (proc_list s)" "x \<noteq> p" "p_pid (procs s x) = p_pid (procs s p)" using d by (auto simp: f v(3) vb)
    moreover have "inj_on (\<lambda>p. p_pid (procs s p)) (set (proc_list s))" using pd by (auto simp: pids_ok_def pids_def distinct_map)
    ultimately show False using z(1) by (auto simp: inj_on_def)
  qed
  moreover have "offspring s' q = offspring s q - {p}" for q using d by (auto simp: offspring_def f v(3) vb)
  ultimately show ?thesis using l st(1) by (simp add: f v vb)
qed

end

section \<open>Looking for a dead child\<close>

lemma zombie_child_ok:
  "sibs ps y cs at \<Longrightarrow> zombie_child ps at = Some (List.find (\<lambda>p. p_state (ps p) = PROC_ZOMBIE) cs)"
  by (induction ps y cs at rule: sibs.induct) (auto simp: zombie_child.simps)

text \<open>The children a \<open>wait\<close> is for: all with pid 0, else the one with the pid.\<close>

definition awaited :: "'a ptable_scheme \<Rightarrow> int \<Rightarrow> pptr set" where
  "awaited s pid = {p \<in> offspring s (current s). pid = 0 \<or> p_pid (procs s p) = pid}"

lemma wait_pick_ok:
  assumes ok: "procs_ok s"
  shows "\<exists>z. wait_pick pid s = Some (awaited s pid \<noteq> {}, z)
     \<and> (case z of None \<Rightarrow> \<forall>p \<in> awaited s pid. p_state (procs s p) \<noteq> PROC_ZOMBIE
        | Some p \<Rightarrow> p \<in> awaited s pid \<and> p_state (procs s p) = PROC_ZOMBIE)"
proof (cases "pid = 0")
  case True
  obtain cs where cs: "kids s (current s) cs" using ok by (auto simp: procs_ok_def tree_ok_def)
  have "p_cptr (procs s (current s)) \<noteq> None \<longleftrightarrow> cs \<noteq> []" using sibs_at [OF kidsD(3) [OF cs]] by simp
  moreover have aw: "awaited s pid = set cs" using kidsD(1) [OF cs] True by (simp add: awaited_def)
  ultimately have "wait_pick pid s = Some (awaited s pid \<noteq> {}, List.find (\<lambda>p. p_state (procs s p) = PROC_ZOMBIE) cs)"
    using zombie_child_ok [OF kidsD(3) [OF cs]] True by (simp add: wait_pick_def)
  then show ?thesis using aw by (auto simp: find_None_iff find_Some_iff split: option.split)
next
  case pid: False
  have pd: "pids_ok s" using ok by (simp add: procs_ok_def)
  show ?thesis
  proof (cases "find_proc s pid")
    case None
    then have "awaited s pid = {}" using find_proc_ok [OF pd, of pid] pid by (auto simp: awaited_def offspring_def)
    then show ?thesis using None pid by (simp add: wait_pick_def)
  next
    case (Some p)
    have p: "p \<in> set (proc_list s)" "p_pid (procs s p) = pid" using Some find_proc_ok [OF pd, of pid p] by auto
    have one: "q = p" if "q \<in> awaited s pid" for q
    proof -
      have "find_proc s pid = Some q" using that pid find_proc_ok [OF pd, of pid q] by (simp add: awaited_def offspring_def)
      then show ?thesis using Some by simp
    qed
    have "p \<in> awaited s pid \<longleftrightarrow> p_parent (procs s p) = Some (current s)" using p by (simp add: awaited_def offspring_def)
    then have aw: "awaited s pid = (if p_parent (procs s p) = Some (current s) then {p} else {})"
      using one by (intro set_eqI, metis empty_iff singleton_iff)
    show ?thesis using Some pid aw by (simp add: wait_pick_def)
  qed
qed

end
