(* ===== verification/File_Sfs.thy ===== *)
theory File_Sfs
  imports File_Table
begin

text \<open>
  From the descriptor to the disk: \<open>file_write\<close>, \<open>file_seek\<close> and \<open>file_read\<close> on an open file of a
  mounted volume, through the tables, the VFS and \<open>sfs_io_nolock\<close>.
\<close>

section \<open>Transfers through the VFS\<close>

lemma io_used: "iobuf_used (iobuf_init buf base len p) = 0"
  by (simp add: iobuf_used_def iobuf_init_def)

lemma sfs_io_ok:
  assumes "sfs_io_nolock s sin buf base p len write = Some (r, s', sin', buf', alen)" "alen \<le> len"
  shows "\<exists>iob. sfs_io s sin (iobuf_init buf base len p) write = Some (r, s', sin', iob)
     \<and> iobuf_used iob = alen \<and> io_obj iob = buf'"
  using assms by (auto simp: sfs_io_def iobuf_init_def iobuf_skip_def iobuf_used_def Let_def)

text \<open>An open descriptor on a consistent file of a volume.\<close>

definition on_file :: "vfs \<Rightarrow> files \<Rightarrow> nat \<Rightarrow> nat \<Rightarrow> nat \<Rightarrow> mnt \<Rightarrow> vnode \<Rightarrow> bool" where
  "on_file v f i k a m x \<longleftrightarrow> ftab_ok f \<and> files_count f > 0 \<and> i < FILES_STRUCT_NENTRY
     \<and> f_status (fd_array f ! i) = FD_OPENED \<and> f_node (fd_array f ! i) = Some (Snode k a)
     \<and> mnts v k = Some m \<and> nodes m a = Some x \<and> vop_check v (Snode k a) = Some ()
     \<and> file_ok (fs m) (vn_sin x) \<and> di_type (din (vn_sin x)) \<noteq> SFS_TYPE_DIR"

lemma on_file_fd:
  assumes "on_file v f i k a m x"
  shows "fd2file f (int i) = Some (Inr i)" "node_type v k a \<noteq> SFS_TYPE_DIR" "i < length (fd_array f)"
proof -
  have "f_fd (fd_array f ! i) = int i" "length (fd_array f) = FILES_STRUCT_NENTRY"
    using assms by (auto simp: on_file_def ftab_ok_def entry_ok_def)
  then show "fd2file f (int i) = Some (Inr i)" "i < length (fd_array f)"
    using assms by (simp_all add: fd2file_def testfd_def get_fd_array_def on_file_def)
  show "node_type v k a \<noteq> SFS_TYPE_DIR" using assms by (simp add: node_type_def on_file_def get_node_def)
qed

lemma transfer_eq:
  assumes o: "on_file v f i k a m x"
    and io: "io v (Snode k a) (iobuf_init buf base len (f_pos (fd_array f ! i))) = Some (ret, v', iob)"
  shows "file_transfer io v f i buf base len = Some (ret, iobuf_used iob, io_obj iob, v',
     set_file f i ((fd_array f ! i)\<lparr>f_pos := off_t (f_pos (fd_array f ! i) + int (iobuf_used iob))\<rparr>))"
proof -
  have i: "ftab_ok f" "i < FILES_STRUCT_NENTRY" "f_status (fd_array f ! i) = FD_OPENED"
    "f_node (fd_array f ! i) = Some (Snode k a)" using o by (simp_all add: on_file_def)
  have c: "f_open_count (fd_array f ! i) = 1" using i by (auto simp: ftab_ok_def entry_ok_def)
  let ?x = "(fd_array f ! i)\<lparr>f_open_count := 2\<rparr>"
  have q: "fd_array_acquire f i = Some (set_file f i ?x)" by (rule acquire_ok [OF i(1-3)])
  have l: "i < length (fd_array f)" by (rule on_file_fd(3) [OF o])
  have "fd_array_release v' (set_file f i (?x\<lparr>f_pos := p\<rparr>)) i = Some (v', set_file f i ((fd_array f ! i)\<lparr>f_pos := p\<rparr>))" for p
    using release_ok [OF l, of "?x\<lparr>f_pos := p\<rparr>" v'] i c by simp
  then show ?thesis using q l io i by (simp add: file_transfer_def Let_def)
qed

text \<open>The bytes of the file behind an open descriptor.\<close>

definition content :: "mnt \<Rightarrow> vnode \<Rightarrow> nat \<Rightarrow> byte" where
  "content m x j = fbyte (fs m) (vn_sin x) j"

definition fsize :: "vnode \<Rightarrow> nat" where "fsize x = di_size (din (vn_sin x))"

lemma vop_write_all:
  assumes o: "on_file v f i k a m x" and p: "0 \<le> p" "p \<le> int (fsize x)"
    and l: "len \<le> 4096" "nat p + len \<le> 1036 * 4096"
  shows "\<exists>r v' m' x' iob n. vop_write v (Snode k a) (iobuf_init buf base len p) = Some (r, v', iob)
     \<and> iobuf_used iob = n \<and> io_obj iob = buf \<and> (r = Inr 0 \<and> n = len \<or> r = Inl E_NO_MEM \<and> n < len \<and> card (frees (fs m')) < 2)
     \<and> on_file v' f i k a m' x' \<and> fsize x' = max (fsize x) (nat p + n)
     \<and> (\<forall>j < fsize x'. content m' x' j = (if nat p \<le> j \<and> j < nat p + n then buf (base + (j - nat p)) else content m x j))"
proof -
  have f: "file_ok (fs m) (vn_sin x)" "di_type (din (vn_sin x)) \<noteq> SFS_TYPE_DIR" using o by (simp_all add: on_file_def)
  obtain r s' sin' n where w: "sfs_io_nolock (fs m) (vn_sin x) buf base p len True = Some (r, s', sin', buf, n)"
    "file_ok s' sin'" "di_type (din sin') = di_type (din (vn_sin x))"
    "di_size (din sin') = max (di_size (din (vn_sin x))) (nat p + n)"
    "\<forall>i < di_size (din sin'). fbyte s' sin' i =
          (if nat p \<le> i \<and> i < nat p + n then buf (base + (i - nat p)) else fbyte (fs m) (vn_sin x) i)"
    "r = Inr () \<and> n = len \<or> r = Inl E_NO_MEM \<and> n < len \<and> card (frees (fs m)) < 4 \<and> card (frees s') < 2"
    using io_write_ok [OF f p(1) _ l, of buf base] p(2) unfolding fsize_def by metis
  obtain iob where iob: "sfs_io (fs m) (vn_sin x) (iobuf_init buf base len p) True = Some (r, s', sin', iob)"
    "iobuf_used iob = n" "io_obj iob = buf"
    using sfs_io_ok [OF w(1)] w(6) by (metis less_imp_le order_refl)
  define m' where "m' = set_node (m\<lparr>fs := s'\<rparr>) a (x\<lparr>vn_sin := sin'\<rparr>)"
  define v' where "v' = put_mnt v k m'"
  have e: "mnts v k = Some m" "nodes m a = Some x" "vop_check v (Snode k a) = Some ()" using o by (simp_all add: on_file_def)
  have "vop_write v (Snode k a) (iobuf_init buf base len p) = Some (map_sum id (\<lambda>_. 0) r, v', iob)"
    using o on_file_fd(2) [OF o] iob(1)
    by (simp add: on_file_def vop_write_def node_io_def sfs_write_def v'_def m'_def)
  moreover have "on_file v' f i k a m' (x\<lparr>vn_sin := sin'\<rparr>)"
  proof -
    have "vop_check v' (Snode k a) = Some ()"
      using e by (simp add: v'_def m'_def vop_check_def inode_counts_def put_mnt_def)
    then show ?thesis using o w(2,3) by (simp add: on_file_def v'_def m'_def put_mnt_def)
  qed
  moreover have "map_sum id (\<lambda>_. 0) r = Inr 0 \<and> n = len \<or> map_sum id (\<lambda>_. 0) r = Inl E_NO_MEM \<and> n < len \<and> card (frees (fs m')) < 2"
    using w(6) by (auto simp: m'_def)
  moreover have "\<forall>j < fsize (x\<lparr>vn_sin := sin'\<rparr>). content m' (x\<lparr>vn_sin := sin'\<rparr>) j =
      (if nat p \<le> j \<and> j < nat p + n then buf (base + (j - nat p)) else content m x j)"
    using w(5) by (simp add: fsize_def content_def m'_def)
  ultimately show ?thesis using iob(2,3) w(4)
    by (intro exI [of _ "map_sum id (\<lambda>_. 0) r"] exI [of _ v'] exI [of _ m'] exI [of _ "x\<lparr>vn_sin := sin'\<rparr>"] exI [of _ iob] exI [of _ n])
      (simp add: fsize_def)
qed

lemma vop_read_file:
  assumes o: "on_file v f i k a m x" and p: "0 \<le> p" "p < int SFS_MAX_FILE_SIZE" and l: "len \<le> 4096"
  shows "\<exists>iob. vop_read v (Snode k a) (iobuf_init buf base len p) = Some (Inr 0, v, iob)
     \<and> iobuf_used iob = min len (di_size (din (vn_sin x)) - nat p)
     \<and> (\<forall>j. io_obj iob j = (if base \<le> j \<and> j < base + min len (di_size (din (vn_sin x)) - nat p)
          then fbyte (fs m) (vn_sin x) (nat p + (j - base)) else buf j))"
proof -
  have f: "file_ok (fs m) (vn_sin x)" "di_type (din (vn_sin x)) \<noteq> SFS_TYPE_DIR" "mnts v k = Some m" "nodes m a = Some x"
    "vop_check v (Snode k a) = Some ()" using o by (simp_all add: on_file_def)
  let ?n = "min len (di_size (din (vn_sin x)) - nat p)"
  obtain buf' where r: "sfs_io_nolock (fs m) (vn_sin x) buf base p len False = Some (Inr (), fs m, vn_sin x, buf', ?n)"
    "\<forall>j. buf' j = (if base \<le> j \<and> j < base + ?n then fbyte (fs m) (vn_sin x) (nat p + (j - base)) else buf j)"
    using io_read_ok [OF f(1,2) p l, of buf base] by blast
  obtain iob where iob: "sfs_io (fs m) (vn_sin x) (iobuf_init buf base len p) False = Some (Inr (), fs m, vn_sin x, iob)"
    "iobuf_used iob = ?n" "io_obj iob = buf'"
    using sfs_io_ok [OF r(1)] by auto
  have "set_node (m\<lparr>fs := fs m\<rparr>) a (x\<lparr>vn_sin := vn_sin x\<rparr>) = m" using f(4) by (simp add: set_node_def fun_upd_idem)
  moreover have "put_mnt v k m = v" using f(3) by (simp add: put_mnt_def fun_upd_idem)
  ultimately have "vop_read v (Snode k a) (iobuf_init buf base len p) = Some (Inr 0, v, iob)"
    using f on_file_fd(2) [OF o] iob(1) by (simp add: vop_read_def node_io_def sfs_read_def)
  then show ?thesis using iob r(2) by auto
qed

text \<open>Seeking inside the file changes the descriptor only.\<close>

lemma seek_set_file:
  assumes o: "on_file v f i k a m x" and p: "0 \<le> p" "p \<le> int (di_size (din (vn_sin x)))" "p < int SFS_MAX_FILE_SIZE"
  shows "file_seek v f (int i) p LSEEK_SET = Some (Inr (), v, set_file f i ((fd_array f ! i)\<lparr>f_pos := p\<rparr>))"
proof -
  have f: "mnts v k = Some m" "nodes m a = Some x" "vop_check v (Snode k a) = Some ()" "ftab_ok f" "i < FILES_STRUCT_NENTRY"
    "f_status (fd_array f ! i) = FD_OPENED" "f_node (fd_array f ! i) = Some (Snode k a)" using o by (simp_all add: on_file_def)
  have c: "f_open_count (fd_array f ! i) = 1" using f by (auto simp: ftab_ok_def entry_ok_def)
  let ?x = "(fd_array f ! i)\<lparr>f_open_count := 2\<rparr>"
  have q: "fd_array_acquire f i = Some (set_file f i ?x)" by (rule acquire_ok [OF f(4-6)])
  have l: "i < length (fd_array f)" by (rule on_file_fd(3) [OF o])
  have rel: "fd_array_release v (set_file f i (?x\<lparr>f_pos := p\<rparr>)) i = Some (v, set_file f i ((fd_array f ! i)\<lparr>f_pos := p\<rparr>))"
    using release_ok [OF l, of "?x\<lparr>f_pos := p\<rparr>" v] f c by simp
  have "sfs_tryseek (fs m) (vn_sin x) p = Some (Inr (), fs m, vn_sin x)" using p by (simp add: sfs_tryseek_def)
  then have "on_node m a (\<lambda>s sin. sfs_tryseek s sin p) = Some (Inr (), m)"
    using f(2) by (simp add: on_node_def set_node_def fun_upd_idem)
  then have "vop_tryseek v (Snode k a) p = Some (Inr (), v)"
    using f on_file_fd(2) [OF o] by (simp add: vop_tryseek_def on_mnt_def put_mnt_def fun_upd_idem)
  then show ?thesis using on_file_fd(1) [OF o] q l f rel by (simp add: file_seek_def seek_target_def Let_def)
qed

lemma off_t_small: "0 \<le> p \<Longrightarrow> p < 2 ^ 63 \<Longrightarrow> off_t p = p"
  unfolding off_t_def by (rule signed64_small)

text \<open>Only the position of a descriptor matters to what it is open on.\<close>

lemma on_file_pos: "on_file v (set_file f i ((fd_array f ! i)\<lparr>f_pos := p\<rparr>)) i k a m x = on_file v f i k a m x"
proof (cases "i < length (fd_array f)")
  case True
  have "ftab_ok (set_file f i ((fd_array f ! i)\<lparr>f_pos := p\<rparr>)) = ftab_ok f"
  proof -
    have e: "entry_ok j (if i = j then (fd_array f ! i)\<lparr>f_pos := p\<rparr> else fd_array f ! j) = entry_ok j (fd_array f ! j)" for j
      by (simp add: entry_ok_def)
    show ?thesis using True by (simp add: ftab_ok_def nth_list_update e)
  qed
  then show ?thesis using True by (simp add: on_file_def)
next
  case False
  then show ?thesis by (auto simp: on_file_def ftab_ok_def set_file_def)
qed

section \<open>Reading and writing at a position\<close>

text \<open>A descriptor at a position of a file.\<close>

definition at_pos :: "vfs \<Rightarrow> files \<Rightarrow> nat \<Rightarrow> nat \<Rightarrow> nat \<Rightarrow> mnt \<Rightarrow> vnode \<Rightarrow> nat \<Rightarrow> bool" where
  "at_pos v f i k a m x p \<longleftrightarrow> on_file v f i k a m x \<and> f_pos (fd_array f ! i) = int p \<and> p \<le> fsize x"

definition moved :: "files \<Rightarrow> nat \<Rightarrow> nat \<Rightarrow> files" where
  "moved f i p = set_file f i ((fd_array f ! i)\<lparr>f_pos := int p\<rparr>)"

lemma file_limit:
  assumes "on_file v f i k a m x" shows "fsize x \<le> 1036 * 4096"
proof -
  have "di_blocks (din (vn_sin x)) \<le> 1036" "di_blocks (din (vn_sin x)) = blocks_for (fsize x)"
    using assms by (auto simp: on_file_def fsize_def file_ok_def map_ok_def)
  then show ?thesis using blocks_for_cover [of "fsize x"] by linarith
qed

lemma moved_facts:
  assumes "i < length (fd_array f)"
  shows "fd_array (moved f i p) ! i = (fd_array f ! i)\<lparr>f_pos := int p\<rparr>" "moved (moved f i p) i q = moved f i q"
    "i < length (fd_array (moved f i p))" "length (fd_array (moved f i p)) = length (fd_array f)"
  using assms by (simp_all add: moved_def set_file_def)

lemma on_file_moved: "on_file v (moved f i p) i k a m x = on_file v f i k a m x"
  by (simp add: moved_def on_file_pos)

lemma on_file_length: "on_file v f i k a m x \<Longrightarrow> i < length (fd_array f)"
  by (rule on_file_fd(3))

lemma moved_id: "at_pos v f i k a m x p \<Longrightarrow> moved f i p = f"
proof -
  assume a: "at_pos v f i k a m x p"
  have "(fd_array f ! i)\<lparr>f_pos := int p\<rparr> = fd_array f ! i" using a by (cases "fd_array f ! i") (simp add: at_pos_def)
  then show ?thesis by (simp add: moved_def set_file_def)
qed

lemma file_write_at:
  assumes o: "at_pos v f i k a m x p" "f_writable (fd_array f ! i)" and l: "len \<le> 4096" "p + len \<le> 1036 * 4096"
  shows "\<exists>r n v' m' x'. file_write v f (int i) buf base len = Some (r, n, buf, v', moved f i (p + n))
     \<and> (r = Inr 0 \<and> n = len \<or> r = Inl E_NO_MEM \<and> n < len \<and> card (frees (fs m')) < 2)
     \<and> at_pos v' (moved f i (p + n)) i k a m' x' (p + n) \<and> fsize x' = max (fsize x) (p + n)
     \<and> (\<forall>j < fsize x'. content m' x' j = (if p \<le> j \<and> j < p + n then buf (base + (j - p)) else content m x j))"
proof -
  have f: "on_file v f i k a m x" "f_pos (fd_array f ! i) = int p" "p \<le> fsize x" using o(1) by (simp_all add: at_pos_def)
  have i: "i < length (fd_array f)" using f(1) by (rule on_file_length)
  have l': "nat (int p) + len \<le> 1036 * 4096" "int p \<le> int (fsize x)" using l(2) f(3) by simp_all
  obtain r v' m' x' iob n where w: "vop_write v (Snode k a) (iobuf_init buf base len (int p)) = Some (r, v', iob)"
     "iobuf_used iob = n" "io_obj iob = buf" "r = Inr 0 \<and> n = len \<or> r = Inl E_NO_MEM \<and> n < len \<and> card (frees (fs m')) < 2"
     "on_file v' f i k a m' x'" "fsize x' = max (fsize x) (nat (int p) + n)"
     "\<forall>j < fsize x'. content m' x' j = (if nat (int p) \<le> j \<and> j < nat (int p) + n then buf (base + (j - nat (int p))) else content m x j)"
    using vop_write_all [OF f(1) of_nat_0_le_iff l'(2) l(1) l'(1), of buf base] by blast
  have n: "n \<le> len" using w(4) by auto
  have pos: "off_t (int p + int n) = int (p + n)" using off_t_small [of "int (p + n)"] n l(2) by simp
  have "file_write v f (int i) buf base len = Some (r, n, buf, v', moved f i (p + n))"
    using on_file_fd(1) [OF f(1)] o(2) transfer_eq [OF f(1), of vop_write buf base len] w(1-3)
    by (simp add: file_write_def f(2) pos moved_def)
  moreover have "at_pos v' (moved f i (p + n)) i k a m' x' (p + n)"
    using w(5,6) i by (simp add: at_pos_def on_file_moved moved_facts)
  ultimately show ?thesis using w(4,6,7)
    by (intro exI [of _ r] exI [of _ n] exI [of _ v'] exI [of _ m'] exI [of _ x']) simp
qed

lemma file_read_at:
  assumes o: "at_pos v f i k a m x p" "f_readable (fd_array f ! i)" and l: "len \<le> 4096"
  shows "\<exists>out n. n = min len (fsize x - p) \<and> file_read v f (int i) buf base len = Some (Inr 0, n, out, v, moved f i (p + n))
     \<and> at_pos v (moved f i (p + n)) i k a m x (p + n)
     \<and> (\<forall>j < n. out (base + j) = content m x (p + j))"
proof -
  have f: "on_file v f i k a m x" "f_pos (fd_array f ! i) = int p" "p \<le> fsize x" using o(1) by (simp_all add: at_pos_def)
  have i: "i < length (fd_array f)" using f(1) by (rule on_file_length)
  have lim: "fsize x \<le> 1036 * 4096" by (rule file_limit [OF f(1)])
  have mx: "int p < int SFS_MAX_FILE_SIZE" using f(3) lim by (simp add: SFS_MAX_FILE_SIZE_def)
  let ?n = "min len (fsize x - p)"
  obtain iob where rd: "vop_read v (Snode k a) (iobuf_init buf base len (int p)) = Some (Inr 0, v, iob)" "iobuf_used iob = ?n"
     "\<forall>j. io_obj iob j = (if base \<le> j \<and> j < base + ?n then fbyte (fs m) (vn_sin x) (p + (j - base)) else buf j)"
    using vop_read_file [OF f(1) _ mx l, of buf base] unfolding fsize_def by auto
  have pos: "off_t (int p + int ?n) = int (p + ?n)" using off_t_small [of "int (p + ?n)"] lim f(3) by simp
  have "file_read v f (int i) buf base len = Some (Inr 0, ?n, io_obj iob, v, moved f i (p + ?n))"
    using on_file_fd(1) [OF f(1)] o(2) transfer_eq [OF f(1), of vop_read buf base len] rd(1,2)
    by (simp add: file_read_def f(2) pos moved_def)
  moreover have "at_pos v (moved f i (p + ?n)) i k a m x (p + ?n)"
    using f i by (simp add: at_pos_def on_file_moved moved_facts)
  moreover have "\<forall>j < ?n. io_obj iob (base + j) = content m x (p + j)" using rd(3) by (simp add: content_def)
  ultimately show ?thesis by blast
qed

lemma file_seek_at:
  assumes "at_pos v f i k a m x q" "p \<le> fsize x"
  shows "file_seek v f (int i) (int p) LSEEK_SET = Some (Inr (), v, moved f i p)" "at_pos v (moved f i p) i k a m x p"
proof -
  have o: "on_file v f i k a m x" using assms(1) by (simp add: at_pos_def)
  have "int p < int SFS_MAX_FILE_SIZE" using file_limit [OF o] assms(2) by (simp add: SFS_MAX_FILE_SIZE_def)
  then show "file_seek v f (int i) (int p) LSEEK_SET = Some (Inr (), v, moved f i p)"
    using seek_set_file [OF o, of "int p"] assms(2) by (simp add: fsize_def moved_def)
  show "at_pos v (moved f i p) i k a m x p"
    using o assms(2) on_file_length [OF o] by (simp add: at_pos_def on_file_moved moved_facts)
qed

section \<open>Properties\<close>

text \<open>
  Writing through a descriptor and reading back, from the system-call layer down to the disk.
  On a descriptor open for both on a consistent file, with the position inside the file or at its
  end, a write of at most one block's length returns, moves the position by what was written, and
  writes everything unless the volume is full; seeking back to the old position and reading as many
  bytes, into any buffer, delivers exactly the bytes written and leaves the position as the write did.
\<close>

lemma file_write_seek_read:
  assumes o: "on_file v f i k a m x" and rw: "f_readable (fd_array f ! i)" "f_writable (fd_array f ! i)"
    and p: "p = f_pos (fd_array f ! i)" "0 \<le> p" "p \<le> int (di_size (din (vn_sin x)))"
    and l: "len \<le> 4096" "nat p + len \<le> 1036 * 4096"
  shows "\<exists>r n v1 f1 f2 f3 out. file_write v f (int i) buf base len = Some (r, n, buf, v1, f1)
     \<and> (r = Inr 0 \<and> n = len \<or> r = Inl E_NO_MEM \<and> n < len) \<and> f_pos (fd_array f1 ! i) = p + int n
     \<and> file_seek v1 f1 (int i) p LSEEK_SET = Some (Inr (), v1, f2)
     \<and> file_read v1 f2 (int i) dst base' n = Some (Inr 0, n, out, v1, f3)
     \<and> (\<forall>j < n. out (base' + j) = buf (base + j)) \<and> f_pos (fd_array f3 ! i) = p + int n"
proof -
  have i: "i < length (fd_array f)" by (rule on_file_length [OF o])
  have ip: "int (nat p) = p" using p(2) by simp
  have at: "at_pos v f i k a m x (nat p)" using o p by (simp add: at_pos_def fsize_def)
  obtain r n v1 m1 x1 where w: "file_write v f (int i) buf base len = Some (r, n, buf, v1, moved f i (nat p + n))"
    "r = Inr 0 \<and> n = len \<or> r = Inl E_NO_MEM \<and> n < len \<and> card (frees (fs m1)) < 2"
    "at_pos v1 (moved f i (nat p + n)) i k a m1 x1 (nat p + n)" "fsize x1 = max (fsize x) (nat p + n)"
    "\<forall>j < fsize x1. content m1 x1 j = (if nat p \<le> j \<and> j < nat p + n then buf (base + (j - nat p)) else content m x j)"
    using file_write_at [OF at rw(2) l, of buf base] by blast
  have s: "file_seek v1 (moved f i (nat p + n)) (int i) p LSEEK_SET = Some (Inr (), v1, moved (moved f i (nat p + n)) i (nat p))"
    "at_pos v1 (moved (moved f i (nat p + n)) i (nat p)) i k a m1 x1 (nat p)"
    using file_seek_at [OF w(3), of "nat p", unfolded ip] w(4) by simp_all
  have r: "f_readable (fd_array (moved (moved f i (nat p + n)) i (nat p)) ! i)" using rw(1) i by (simp add: moved_facts)
  have n: "n \<le> 4096" "min n (fsize x1 - nat p) = n" using w(2,4) l by auto
  obtain out where rd: "file_read v1 (moved (moved f i (nat p + n)) i (nat p)) (int i) dst base' n
       = Some (Inr 0, n, out, v1, moved (moved (moved f i (nat p + n)) i (nat p)) i (nat p + n))"
    "\<forall>j < n. out (base' + j) = content m1 x1 (nat p + j)"
    using file_read_at [OF s(2) r n(1), of dst base'] unfolding n(2) by blast
  have "\<forall>j < n. out (base' + j) = buf (base + j)" using rd(2) w(4,5) by simp
  moreover have "r = Inr 0 \<and> n = len \<or> r = Inl E_NO_MEM \<and> n < len" using w(2) by blast
  ultimately show ?thesis using w(1) s(1) rd(1) i p(2)
    by (intro exI [of _ r] exI [of _ n] exI [of _ v1] exI [of _ "moved f i (nat p + n)"]
      exI [of _ "moved (moved f i (nat p + n)) i (nat p)"] exI [of _ "moved (moved (moved f i (nat p + n)) i (nat p)) i (nat p + n)"]
      exI [of _ out]) (auto simp: moved_facts)
qed

text \<open>A descriptor open on the empty file of the example volume.\<close>

definition ex_open_mnt :: mnt where
  "ex_open_mnt = \<lparr>fs = ex_sfs, nodes = [100 \<mapsto> \<lparr>vn_sin = ex_sin, ref_count = 1, open_count = 1\<rparr>],
     inode_list = [100], hash_list = (\<lambda>_. [])\<rparr>"

definition ex_open_vfs :: vfs where
  "ex_open_vfs = ex_vfs\<lparr>mnts := [0 \<mapsto> ex_open_mnt]\<rparr>"

definition ex_open_files :: files where
  "ex_open_files = set_file ex_files 0 \<lparr>f_status = FD_OPENED, f_readable = True, f_writable = True, f_fd = 0,
     f_pos = 0, f_node = Some (Snode 0 100), f_open_count = 1\<rparr>"

lemma ex_on_file: "on_file ex_open_vfs ex_open_files 0 0 100 ex_open_mnt \<lparr>vn_sin = ex_sin, ref_count = 1, open_count = 1\<rparr>"
proof -
  have "ftab_ok ex_open_files"
    using ex_entry by (simp add: ex_open_files_def ftab_ok_def nth_list_update entry_ok_def)
  moreover have "files_count ex_open_files > 0" by (simp add: ex_open_files_def ex_files_def)
  moreover have "fd_array ex_open_files ! 0 = \<lparr>f_status = FD_OPENED, f_readable = True, f_writable = True, f_fd = 0,
     f_pos = 0, f_node = Some (Snode 0 100), f_open_count = 1\<rparr>"
    using ex_entry(2,3) by (simp add: ex_open_files_def)
  ultimately show ?thesis using ex_entry(3) ex_file_ok ex_sin_file(1)
    by (simp add: on_file_def ex_open_vfs_def ex_open_mnt_def vop_check_def inode_counts_def MAX_INODE_COUNT_def)
qed

lemma file_write_seek_read_witness:
  "\<exists>r n v f f' out v'. file_write ex_open_vfs ex_open_files 0 ex_buf 0 100 = Some (r, n, ex_buf, v, f)
     \<and> file_read v f' 0 (\<lambda>_. 0) 5 n = Some (Inr 0, n, out, v, v') \<and> (\<forall>j < n. out (5 + j) = word_of_nat j)"
proof -
  have e: "fd_array ex_open_files ! 0 = \<lparr>f_status = FD_OPENED, f_readable = True, f_writable = True, f_fd = 0,
     f_pos = 0, f_node = Some (Snode 0 100), f_open_count = 1\<rparr>"
    using ex_entry(2,3) by (simp add: ex_open_files_def)
  have "\<exists>r n v1 f1 f2 f3 out. file_write ex_open_vfs ex_open_files (int 0) ex_buf 0 100 = Some (r, n, ex_buf, v1, f1)
     \<and> (r = Inr 0 \<and> n = 100 \<or> r = Inl E_NO_MEM \<and> n < 100) \<and> f_pos (fd_array f1 ! 0) = 0 + int n
     \<and> file_seek v1 f1 (int 0) 0 LSEEK_SET = Some (Inr (), v1, f2)
     \<and> file_read v1 f2 (int 0) (\<lambda>_. 0) 5 n = Some (Inr 0, n, out, v1, f3)
     \<and> (\<forall>j < n. out (5 + j) = ex_buf (0 + j)) \<and> f_pos (fd_array f3 ! 0) = 0 + int n"
    by (rule file_write_seek_read [OF ex_on_file]) (use e in simp_all)
  then obtain r n v1 f1 f2 f3 out where w: "file_write ex_open_vfs ex_open_files (int 0) ex_buf 0 100 = Some (r, n, ex_buf, v1, f1)"
    "file_read v1 f2 (int 0) (\<lambda>_. 0) 5 n = Some (Inr 0, n, out, v1, f3)" "\<forall>j < n. out (5 + j) = ex_buf (0 + j)" by blast
  have "\<forall>j < n. out (5 + j) = word_of_nat j" using w(3) by (simp add: ex_buf_def)
  moreover have "(0::int) = int 0" by simp
  ultimately show ?thesis using w(1,2) by metis
qed

end
