(* ===== verification/Sysfile.thy ===== *)
theory Sysfile
  imports Vmm_String File_Sfs
begin

text \<open>
  The file system calls below the dispatcher, \<open>kern/fs/sysfile.c\<close>: arguments in user memory are
  copied in, the work is done by \<open>file.c\<close> and the VFS, results are copied out in pieces of a buffer.
  \<open>sys\<close> is what these calls work on: the address space and the open files of the current process, its
  memory at user addresses and the VFS.  A buffer of \<open>kmalloc\<close> is \<open>None\<close> or the bytes it holds.
  An \<open>int\<close> result is an error or a number.
\<close>

record sys =
  s_mm :: "mm_struct option"
  s_um :: mem
  s_vfs :: vfs
  s_files :: files

definition IOBUF_SIZE :: nat where "IOBUF_SIZE = 4096"

definition set_vf :: "vfs \<Rightarrow> files \<Rightarrow> sys \<Rightarrow> sys" where
  "set_vf v f s = s\<lparr>s_vfs := v, s_files := f\<rparr>"

text \<open>An unsigned 64-bit number returned as an \<open>int\<close>.\<close>

definition to_int :: "nat \<Rightarrow> int" where "to_int n = signed_take_bit 31 (int n)"

section \<open>Paths\<close>

text \<open>The string in the new buffer.\<close>

definition copy_path :: "mem option \<Rightarrow> nat \<Rightarrow> sys \<Rightarrow> (errno + byte list) \<times> sys" where
  "copy_path mem from s =
     (case mem of
        None \<Rightarrow> (Inl E_NO_MEM, s)
      | Some buffer \<Rightarrow>
          (case copy_string (s_mm s) buffer 0 (s_um s) from (FS_MAX_FPATH_LEN + 1) of
             (ok, buffer, mm) \<Rightarrow>
               (if \<not> ok then Inl E_INVAL else Inr (map buffer [0 ..< strnlen buffer 0 (FS_MAX_FPATH_LEN + 1)]),
                s\<lparr>s_mm := mm\<rparr>)))"

definition sysfile_open :: "kalloc \<Rightarrow> mem option \<Rightarrow> nat \<Rightarrow> nat \<Rightarrow> sys \<Rightarrow> ((errno + int) \<times> sys) option" where
  "sysfile_open al mem upath open_flags s =
     (case copy_path mem upath s of
        (Inl e, s) \<Rightarrow> Some (Inl e, s)
      | (Inr path, s) \<Rightarrow> do {
          (ret, v, f) \<leftarrow> file_open al (s_vfs s) (s_files s) path open_flags;
          Some (ret, set_vf v f s)
        })"

definition sysfile_close :: "int \<Rightarrow> sys \<Rightarrow> ((errno + int) \<times> sys) option" where
  "sysfile_close fd s = do {
     (ret, v, f) \<leftarrow> file_close (s_vfs s) (s_files s) fd;
     Some (map_sum id (\<lambda>_. 0) ret, set_vf v f s)
   }"

section \<open>Reading and writing\<close>

text \<open>
  One round of the loop of \<open>sysfile_read\<close>: the result so far, the length the file delivered, and
  whether it went to the user.
\<close>

definition read_round :: "int \<Rightarrow> mem \<Rightarrow> nat \<Rightarrow> nat \<Rightarrow> sys \<Rightarrow> ((errno + nat) \<times> nat \<times> bool \<times> mem \<times> sys) option" where
  "read_round fd buffer base len s = do {
     let alen = (if IOBUF_SIZE > len then len else IOBUF_SIZE);
     (ret, alen, buffer, v, f) \<leftarrow> file_read (s_vfs s) (s_files s) fd buffer 0 alen;
     let s = set_vf v f s;
     (if alen \<noteq> 0 then
        (case copy_to_user (s_mm s) (s_um s) base buffer 0 alen of
           (ok, um, mm) \<Rightarrow> do {
             let s = s\<lparr>s_um := um, s_mm := mm\<rparr>;
             (if ok then do { kassert (len \<ge> alen); Some (ret, alen, True, buffer, s) }
              else Some (if ret = Inr 0 then Inl E_INVAL else ret, alen, False, buffer, s))
           })
      else Some (ret, 0, False, buffer, s))
   }"

lemma read_round_goes_on:
  "read_round fd buffer base len s = Some (Inr 0, alen, ok, buffer', s') \<Longrightarrow> alen \<noteq> 0 \<Longrightarrow> ok \<and> alen \<le> len"
  by (auto simp: read_round_def Let_def kassert_def split: if_splits prod.splits bind_splits)

function read_loop :: "int \<Rightarrow> mem \<Rightarrow> nat \<Rightarrow> nat \<Rightarrow> nat \<Rightarrow> sys \<Rightarrow> ((errno + nat) \<times> nat \<times> sys) option" where
  "read_loop fd buffer base len copied s =
     (if len = 0 then Some (Inr 0, copied, s)
      else (case read_round fd buffer base len s of
        None \<Rightarrow> None
      | Some (ret, alen, ok, buffer, s) \<Rightarrow>
          (if ret \<noteq> Inr 0 \<or> alen = 0 then Some (ret, if ok then copied + alen else copied, s)
           else read_loop fd buffer ((base + alen) mod 2 ^ 64) (len - alen) (copied + alen) s)))"
  by pat_completeness auto
termination
  by (relation "measure (\<lambda>(_, _, _, len, _, _). len)") (auto dest: read_round_goes_on)

declare read_loop.simps [simp del]

definition sysfile_read :: "mem option \<Rightarrow> int \<Rightarrow> nat \<Rightarrow> nat \<Rightarrow> sys \<Rightarrow> ((errno + int) \<times> sys) option" where
  "sysfile_read mem fd base len s =
     (if len = 0 then Some (Inr 0, s)
      else do {
        ok \<leftarrow> file_testfd (s_files s) fd True False;
        (if \<not> ok then Some (Inl E_INVAL, s)
         else (case mem of
           None \<Rightarrow> Some (Inl E_NO_MEM, s)
         | Some buffer \<Rightarrow> do {
             (ret, copied, s) \<leftarrow> read_loop fd buffer base len 0 s;
             Some (if copied \<noteq> 0 then Inr (to_int copied) else map_sum id to_int ret, s)
           }))
      })"

definition write_round :: "int \<Rightarrow> mem \<Rightarrow> nat \<Rightarrow> nat \<Rightarrow> sys \<Rightarrow> ((errno + nat) \<times> nat \<times> bool \<times> mem \<times> sys) option" where
  "write_round fd buffer base len s = do {
     let alen = (if IOBUF_SIZE > len then len else IOBUF_SIZE);
     (case copy_from_user (s_mm s) buffer 0 (s_um s) base alen False of
        (ok, buffer, mm) \<Rightarrow> do {
          let s = s\<lparr>s_mm := mm\<rparr>;
          (if \<not> ok then Some (Inl E_INVAL, alen, False, buffer, s)
           else do {
             (ret, alen, buffer, v, f) \<leftarrow> file_write (s_vfs s) (s_files s) fd buffer 0 alen;
             kassert (alen \<noteq> 0 \<longrightarrow> len \<ge> alen);
             Some (ret, alen, True, buffer, set_vf v f s)
           })
        })
   }"

lemma write_round_goes_on:
  "write_round fd buffer base len s = Some (Inr 0, alen, ok, buffer', s') \<Longrightarrow> alen \<noteq> 0 \<Longrightarrow> ok \<and> alen \<le> len"
  by (auto simp: write_round_def Let_def kassert_def split: if_splits prod.splits bind_splits)

function write_loop :: "int \<Rightarrow> mem \<Rightarrow> nat \<Rightarrow> nat \<Rightarrow> nat \<Rightarrow> sys \<Rightarrow> ((errno + nat) \<times> nat \<times> sys) option" where
  "write_loop fd buffer base len copied s =
     (if len = 0 then Some (Inr 0, copied, s)
      else (case write_round fd buffer base len s of
        None \<Rightarrow> None
      | Some (ret, alen, ok, buffer, s) \<Rightarrow>
          (if ret \<noteq> Inr 0 \<or> alen = 0 then Some (ret, if ok then copied + alen else copied, s)
           else write_loop fd buffer ((base + alen) mod 2 ^ 64) (len - alen) (copied + alen) s)))"
  by pat_completeness auto
termination
  by (relation "measure (\<lambda>(_, _, _, len, _, _). len)") (auto dest: write_round_goes_on)

declare write_loop.simps [simp del]

definition sysfile_write :: "mem option \<Rightarrow> int \<Rightarrow> nat \<Rightarrow> nat \<Rightarrow> sys \<Rightarrow> ((errno + int) \<times> sys) option" where
  "sysfile_write mem fd base len s =
     (if len = 0 then Some (Inr 0, s)
      else do {
        ok \<leftarrow> file_testfd (s_files s) fd False True;
        (if \<not> ok then Some (Inl E_INVAL, s)
         else (case mem of
           None \<Rightarrow> Some (Inl E_NO_MEM, s)
         | Some buffer \<Rightarrow> do {
             (ret, copied, s) \<leftarrow> write_loop fd buffer base len 0 s;
             Some (if copied \<noteq> 0 then Inr (to_int copied) else map_sum id to_int ret, s)
           }))
      })"

section \<open>The other calls\<close>

definition sysfile_seek :: "int \<Rightarrow> int \<Rightarrow> int \<Rightarrow> sys \<Rightarrow> ((errno + int) \<times> sys) option" where
  "sysfile_seek fd p whence s = do {
     (ret, v, f) \<leftarrow> file_seek (s_vfs s) (s_files s) fd p whence;
     Some (map_sum id (\<lambda>_. 0) ret, set_vf v f s)
   }"

text \<open>\<open>struct stat\<close> in memory; \<open>junk\<close> is what the stack held, of which the padding remains.\<close>

definition stat_mem :: "mem \<Rightarrow> stat \<Rightarrow> mem" where
  "stat_mem junk st =
     blit (blit (blit (blit junk 0 (le (st_mode st)) 0 4) 8 (le (st_nlinks st)) 0 8) 16 (le (st_blocks st)) 0 8) 24 (le (st_size st)) 0 8"

definition sysfile_fstat :: "mem \<Rightarrow> int \<Rightarrow> nat \<Rightarrow> sys \<Rightarrow> ((errno + int) \<times> sys) option" where
  "sysfile_fstat junk fd ustat s = do {
     (ret, v, f) \<leftarrow> file_fstat (s_vfs s) (s_files s) fd;
     let s = set_vf v f s;
     (case ret of
        Inl e \<Rightarrow> Some (Inl e, s)
      | Inr st \<Rightarrow>
          (case copy_to_user (s_mm s) (s_um s) ustat (stat_mem junk st) 0 32 of
             (ok, um, mm) \<Rightarrow> Some (if ok then Inr 0 else Inl E_INVAL, s\<lparr>s_um := um, s_mm := mm\<rparr>)))
   }"

definition sysfile_fsync :: "int \<Rightarrow> sys \<Rightarrow> ((errno + int) \<times> sys) option" where
  "sysfile_fsync fd s = do {
     (ret, v, f) \<leftarrow> file_fsync (s_vfs s) (s_files s) fd;
     Some (map_sum id (\<lambda>_. 0) ret, set_vf v f s)
   }"

definition sysfile_chdir :: "kalloc \<Rightarrow> mem option \<Rightarrow> nat \<Rightarrow> sys \<Rightarrow> ((errno + int) \<times> sys) option" where
  "sysfile_chdir al mem upath s =
     (case copy_path mem upath s of
        (Inl e, s) \<Rightarrow> Some (Inl e, s)
      | (Inr path, s) \<Rightarrow> do {
          (ret, dir, v) \<leftarrow> vfs_chdir al (s_vfs s) (pwd (s_files s)) path;
          Some (map_sum id (\<lambda>_. 0) ret, set_vf v ((s_files s)\<lparr>pwd := dir\<rparr>) s)
        })"

text \<open>Two paths, each into a buffer of its own.\<close>

definition two_paths :: "(byte list \<Rightarrow> byte list \<Rightarrow> errno) \<Rightarrow> mem option \<Rightarrow> mem option \<Rightarrow> nat \<Rightarrow> nat \<Rightarrow> sys \<Rightarrow> (errno + int) \<times> sys" where
  "two_paths act mem1 mem2 upath1 upath2 s =
     (case copy_path mem1 upath1 s of
        (Inl e, s) \<Rightarrow> (Inl e, s)
      | (Inr old_path, s) \<Rightarrow>
          (case copy_path mem2 upath2 s of
             (Inl e, s) \<Rightarrow> (Inl e, s)
           | (Inr new_path, s) \<Rightarrow> (Inl (act old_path new_path), s)))"

definition sysfile_link :: "mem option \<Rightarrow> mem option \<Rightarrow> nat \<Rightarrow> nat \<Rightarrow> sys \<Rightarrow> (errno + int) \<times> sys" where
  "sysfile_link mem1 mem2 upath1 upath2 s = two_paths vfs_link mem1 mem2 upath1 upath2 s"

definition sysfile_rename :: "mem option \<Rightarrow> mem option \<Rightarrow> nat \<Rightarrow> nat \<Rightarrow> sys \<Rightarrow> (errno + int) \<times> sys" where
  "sysfile_rename mem1 mem2 upath1 upath2 s = two_paths vfs_rename mem1 mem2 upath1 upath2 s"

definition sysfile_unlink :: "mem option \<Rightarrow> nat \<Rightarrow> sys \<Rightarrow> (errno + int) \<times> sys" where
  "sysfile_unlink mem upath s =
     (case copy_path mem upath s of
        (Inl e, s) \<Rightarrow> (Inl e, s)
      | (Inr path, s) \<Rightarrow> (Inl (vfs_unlink path), s))"

text \<open>The name is written to user memory directly, through an I/O buffer on it.\<close>

definition sysfile_getcwd :: "kalloc \<Rightarrow> nat \<Rightarrow> nat \<Rightarrow> sys \<Rightarrow> ((errno + int) \<times> sys) option" where
  "sysfile_getcwd al buf len s =
     (if len = 0 then Some (Inl E_INVAL, s)
      else (case user_mem_check (s_mm s) buf len True of
        (ok, mm) \<Rightarrow> do {
          let s = s\<lparr>s_mm := mm\<rparr>;
          (if ok then do {
             (ret, v, iob) \<leftarrow> vfs_getcwd al (s_vfs s) (pwd (s_files s)) (iobuf_init (s_um s) buf len 0);
             Some (map_sum id (\<lambda>_. 0) ret, s\<lparr>s_um := io_obj iob, s_vfs := v\<rparr>)
           } else Some (Inl E_INVAL, s))
        }))"

text \<open>\<open>struct dirent\<close> is the offset, 8 bytes, and the name, 256.\<close>

definition sysfile_getdirentry :: "kalloc \<Rightarrow> mem option \<Rightarrow> int \<Rightarrow> nat \<Rightarrow> sys \<Rightarrow> ((errno + int) \<times> sys) option" where
  "sysfile_getdirentry al mem fd udirent s =
     (case mem of
        None \<Rightarrow> Some (Inl E_NO_MEM, s)
      | Some direntp \<Rightarrow>
          (case copy_from_user (s_mm s) direntp 0 (s_um s) udirent 8 True of
             (ok, direntp, mm) \<Rightarrow> do {
               let s = s\<lparr>s_mm := mm\<rparr>;
               (if \<not> ok then Some (Inl E_INVAL, s)
                else do {
                  let d = \<lparr>de_offset = off_t (int (rd 8 direntp 0)), de_buf = (\<lambda>i. direntp (8 + i))\<rparr>;
                  (ret, d, v, f) \<leftarrow> file_getdirentry al (s_vfs s) (s_files s) fd d;
                  let s = set_vf v f s;
                  (case ret of
                     Inl e \<Rightarrow> Some (Inl e, s)
                   | Inr n \<Rightarrow>
                       if n \<noteq> 0 then Some (Inr (int n), s)
                       else
                         (let direntp = blit (\<lambda>i. de_buf d (i - 8)) 0 (le (nat (de_offset d mod 2 ^ 64))) 0 8
                          in case copy_to_user (s_mm s) (s_um s) udirent direntp 0 (8 + (SFS_MAX_FNAME_LEN + 1)) of
                            (ok, um, mm) \<Rightarrow> Some (if ok then Inr 0 else Inl E_INVAL, s\<lparr>s_um := um, s_mm := mm\<rparr>)))
                })
             }))"

definition sysfile_dup :: "int \<Rightarrow> int \<Rightarrow> sys \<Rightarrow> ((errno + int) \<times> sys) option" where
  "sysfile_dup fd1 fd2 s = do {
     (ret, v, f) \<leftarrow> file_dup (s_vfs s) (s_files s) fd1 fd2;
     Some (ret, set_vf v f s)
   }"

definition sysfile_pipe :: "nat \<Rightarrow> errno" where "sysfile_pipe fd_store = E_UNIMP"
definition sysfile_mkfifo :: "nat \<Rightarrow> nat \<Rightarrow> errno" where "sysfile_mkfifo name open_flags = E_UNIMP"

end
