(* ===== verification/Exec.thy ===== *)
theory Exec
  imports Proc_Life Printfmt Sysfile
begin

text \<open>
  Running a program: \<open>load_icode\<close> and \<open>do_execve\<close> of \<open>kern/process/proc.c\<close> with the ELF headers of
  \<open>libs/elf.h\<close>.  \<open>um\<close> is the memory at the addresses the current process uses; the program read from
  the file goes into page frames, and the arguments into the new stack through its page table.  What
  \<open>kmalloc\<close> delivers is an argument.
\<close>

definition ELF_MAGIC :: nat where "ELF_MAGIC = 0x464C457F"
definition ELF_PT_LOAD :: nat where "ELF_PT_LOAD = 1"
definition ELF_PF_X :: "32 word" where "ELF_PF_X = 1"
definition ELF_PF_W :: "32 word" where "ELF_PF_W = 2"
definition ELF_PF_R :: "32 word" where "ELF_PF_R = 4"
definition USTACKTOP :: nat where "USTACKTOP = USERTOP"
definition USTACKPAGE :: nat where "USTACKPAGE = 256"
definition USTACKSIZE :: nat where "USTACKSIZE = USTACKPAGE * PGSIZE"
definition EXEC_MAX_ARG_NUM :: int where "EXEC_MAX_ARG_NUM = 32"
definition EXEC_MAX_ARG_LEN :: nat where "EXEC_MAX_ARG_LEN = 4095"

section \<open>Headers\<close>

record elfhdr =
  e_magic :: nat
  e_elf :: "byte list"
  e_type :: nat
  e_machine :: nat
  e_version :: nat
  e_entry :: nat
  e_phoff :: nat
  e_shoff :: nat
  e_flags :: nat
  e_ehsize :: nat
  e_phentsize :: nat
  e_phnum :: nat
  e_shentsize :: nat
  e_shnum :: nat
  e_shstrndx :: nat

record proghdr =
  p_type :: nat
  p_phflags :: "32 word"
  p_offset :: nat
  p_va :: nat
  p_pa :: nat
  p_filesz :: nat
  p_memsz :: nat
  p_align :: nat

text \<open>The structures in the bytes read, little-endian.\<close>

definition elfhdr_of :: "mem \<Rightarrow> elfhdr" where
  "elfhdr_of b = \<lparr>e_magic = rd 4 b 0, e_elf = map b [4 ..< 16], e_type = rd 2 b 16, e_machine = rd 2 b 18,
     e_version = rd 4 b 20, e_entry = rd 8 b 24, e_phoff = rd 8 b 32, e_shoff = rd 8 b 40, e_flags = rd 4 b 48,
     e_ehsize = rd 2 b 52, e_phentsize = rd 2 b 54, e_phnum = rd 2 b 56, e_shentsize = rd 2 b 58,
     e_shnum = rd 2 b 60, e_shstrndx = rd 2 b 62\<rparr>"

definition proghdr_of :: "mem \<Rightarrow> proghdr" where
  "proghdr_of b = \<lparr>p_type = rd 4 b 0, p_phflags = word_of_nat (rd 4 b 4), p_offset = rd 8 b 8, p_va = rd 8 b 16,
     p_pa = rd 8 b 24, p_filesz = rd 8 b 32, p_memsz = rd 8 b 40, p_align = rd 8 b 48\<rparr>"

section \<open>The calls of sysfile.c on the kernel's state\<close>

definition sys_of :: "mem \<Rightarrow> nat \<Rightarrow> 'a kernel_scheme \<Rightarrow> sys" where
  "sys_of um f s =
     \<lparr>s_mm = map_option (mms s) (p_mm (procs s (current s))), s_um = um, s_vfs = kfs s, s_files = filess s f\<rparr>"

definition sys_back :: "sys \<Rightarrow> nat \<Rightarrow> 'a kernel_scheme \<Rightarrow> 'a kernel_scheme" where
  "sys_back t f s =
     (let s = (case (p_mm (procs s (current s)), s_mm t) of (Some m, Some mm) \<Rightarrow> upd_mm m mm s | _ \<Rightarrow> s)
      in upd_files f (s_files t) (s\<lparr>kfs := s_vfs t\<rparr>))"

text \<open>A call on user memory \<open>um\<close>; the current process has a files table.\<close>

definition on_sys :: "(sys \<Rightarrow> ('r \<times> sys) option) \<Rightarrow> mem \<Rightarrow> 'a kernel_scheme \<Rightarrow> ('r \<times> mem \<times> 'a kernel_scheme) option" where
  "on_sys call um s = do {
     f \<leftarrow> p_filesp (procs s (current s));
     (r, t) \<leftarrow> call (sys_of um f s);
     Some (r, s_um t, sys_back t f s)
   }"

text \<open>The numbers of \<open>libs/error.h\<close>.\<close>

fun errno_code :: "errno \<Rightarrow> int" where
  "errno_code E_UNSPECIFIED = 1" | "errno_code E_BAD_PROC = 2" | "errno_code E_INVAL = 3" | "errno_code E_NO_MEM = 4"
| "errno_code E_NO_FREE_PROC = 5" | "errno_code E_FAULT = 6" | "errno_code E_SWAP_FAULT = 7" | "errno_code E_INVAL_ELF = 8"
| "errno_code E_KILLED = 9" | "errno_code E_PANIC = 10" | "errno_code E_TIMEOUT = 11" | "errno_code E_TOO_BIG = 12"
| "errno_code E_NO_DEV = 13" | "errno_code E_NA_DEV = 14" | "errno_code E_BUSY = 15" | "errno_code E_NOENT = 16"
| "errno_code E_ISDIR = 17" | "errno_code E_NOTDIR = 18" | "errno_code E_XDEV = 19" | "errno_code E_UNIMP = 20"
| "errno_code E_SEEK = 21" | "errno_code E_MAX_OPEN = 22" | "errno_code E_EXISTS = 23" | "errno_code E_NOTEMPTY = 24"

section \<open>Loading the program\<close>

text \<open>
  The object \<open>obj\<close>, at address \<open>a\<close>, gets \<open>len\<close> bytes of the file from its position \<open>at\<close> on.
\<close>

definition load_icode_read :: "mem option \<Rightarrow> int \<Rightarrow> nat \<Rightarrow> mem \<Rightarrow> nat \<Rightarrow> nat \<Rightarrow> nat \<Rightarrow> 'a kernel_scheme
    \<Rightarrow> ((errno + unit) \<times> mem \<times> 'a kernel_scheme) option" where
  "load_icode_read mem fd a obj at len offset s = do {
     (ret, _, s) \<leftarrow> on_sys (sysfile_seek fd (off_t (int offset)) LSEEK_SET) obj s;
     (case ret of
        Inl e \<Rightarrow> Some (Inl e, obj, s)
      | Inr _ \<Rightarrow> do {
          (ret, um, s) \<leftarrow> on_sys (sysfile_read mem fd (a + at) len) (\<lambda>x. obj (x - a)) s;
          let obj = (\<lambda>x. um (a + x));
          Some (case ret of Inl e \<Rightarrow> Inl e | Inr n \<Rightarrow> if n \<noteq> int len then Inl E_UNSPECIFIED else Inr (), obj, s)
        })
   }"

text \<open>
  What the allocators deliver: the address space, its areas by their addresses, the buffer of the read
  to an address from a position of the file, the copies of the arguments and of the path, the VFS's
  allocations.  \<open>em_stack\<close> is where the headers are on the kernel stack.
\<close>

record exec_mem =
  em_mm :: "nat option"
  em_vma :: "nat \<Rightarrow> bool"
  em_buf :: "nat \<Rightarrow> nat \<Rightarrow> mem option"
  em_args :: "nat \<Rightarrow> mem option"
  em_path :: "mem option"
  em_vfs :: kalloc
  em_stack :: nat

definition set_frame :: "nat \<Rightarrow> mem \<Rightarrow> 'a kernel_scheme \<Rightarrow> 'a kernel_scheme" where
  "set_frame k b s = s\<lparr>mem_of := (mem_of s)\<lparr>frame := (frame (mem_of s))(k := b)\<rparr>\<rparr>"

definition memset_page :: "nat \<Rightarrow> nat \<Rightarrow> nat \<Rightarrow> 'a kernel_scheme \<Rightarrow> 'a kernel_scheme option" where
  "memset_page page off n s = do {
     k \<leftarrow> page2kva page;
     Some (set_frame k (blit (frame (mem_of s) k) off (\<lambda>_. 0) 0 n) s)
   }"

definition alloc_user_page :: "nat \<Rightarrow> nat \<Rightarrow> 64 word \<Rightarrow> 'a kernel_scheme \<Rightarrow> (nat option \<times> 'a kernel_scheme) option" where
  "alloc_user_page pd la perm s = do {
     (page, ph) \<leftarrow> pgdir_alloc_page pd la perm (mem_of s);
     Some (page, s\<lparr>mem_of := ph\<rparr>)
   }"

text \<open>How much of the page at \<open>la\<close>, from \<open>start\<close> on, lies before \<open>hi\<close>.\<close>

definition piece :: "nat \<Rightarrow> nat \<Rightarrow> nat \<Rightarrow> nat" where
  "piece start la hi = (let n = PGSIZE - (start - la) in if hi < la + PGSIZE then n - (la + PGSIZE - hi) else n)"

text \<open>Text and data: where the loop stands at its end is part of the result.\<close>

partial_function (option) load_text ::
  "exec_mem \<Rightarrow> int \<Rightarrow> nat \<Rightarrow> 64 word \<Rightarrow> nat \<Rightarrow> nat \<Rightarrow> nat \<Rightarrow> nat \<Rightarrow> nat option \<Rightarrow> 'a kernel_scheme
     \<Rightarrow> ((errno + nat \<times> nat \<times> nat option) \<times> 'a kernel_scheme) option" where
  "load_text em fd pd perm hi start la offset page s =
     (if start < hi then do {
        (page, s) \<leftarrow> alloc_user_page pd la perm s;
        (case page of
           None \<Rightarrow> Some (Inl E_NO_MEM, s)
         | Some p \<Rightarrow> do {
             let off = start - la;
             let n = piece start la hi;
             k \<leftarrow> page2kva p;
             (ret, b, s) \<leftarrow> load_icode_read (em_buf em (kva k + off) offset) fd (kva k) (frame (mem_of s) k) off n offset s;
             let s = set_frame k b s;
             (case ret of
                Inl e \<Rightarrow> Some (Inl e, s)
              | Inr _ \<Rightarrow> load_text em fd pd perm hi (start + n) (la + PGSIZE) (offset + n) page s)
           })
      } else Some (Inr (start, la, page), s))"

text \<open>Pages of zeros.\<close>

partial_function (option) load_bss ::
  "nat \<Rightarrow> 64 word \<Rightarrow> nat \<Rightarrow> nat \<Rightarrow> nat \<Rightarrow> 'a kernel_scheme \<Rightarrow> ((errno + unit) \<times> 'a kernel_scheme) option" where
  "load_bss pd perm hi start la s =
     (if start < hi then do {
        (page, s) \<leftarrow> alloc_user_page pd la perm s;
        (case page of
           None \<Rightarrow> Some (Inl E_NO_MEM, s)
         | Some p \<Rightarrow> do {
             let n = piece start la hi;
             s \<leftarrow> memset_page p (start - la) n s;
             load_bss pd perm hi (start + n) (la + PGSIZE) s
           })
      } else Some (Inr (), s))"

text \<open>The rest of the last page of the text, and the pages after it.\<close>

definition clear_bss :: "nat \<Rightarrow> 64 word \<Rightarrow> nat \<Rightarrow> nat \<Rightarrow> nat \<Rightarrow> nat option \<Rightarrow> 'a kernel_scheme
    \<Rightarrow> ((errno + unit) \<times> 'a kernel_scheme) option" where
  "clear_bss pd perm hi start la page s =
     (if start < la then
        (if start = hi then Some (Inr (), s)
         else do {
           let n = (let n = PGSIZE - (start + PGSIZE - la) in if hi < la then n - (la - hi) else n);
           p \<leftarrow> page;
           s \<leftarrow> memset_page p (start + PGSIZE - la) n s;
           let start = start + n;
           kassert (hi < la \<and> start = hi \<or> hi \<ge> la \<and> start = la);
           load_bss pd perm hi start la s
         })
      else load_bss pd perm hi start la s)"

definition seg_flags :: "32 word \<Rightarrow> 32 word" where
  "seg_flags fl = (if fl AND ELF_PF_X \<noteq> 0 then VM_EXEC else 0) OR (if fl AND ELF_PF_W \<noteq> 0 then VM_WRITE else 0)
     OR (if fl AND ELF_PF_R \<noteq> 0 then VM_READ else 0)"

definition seg_perm :: "32 word \<Rightarrow> 64 word" where
  "seg_perm vm = PTE_U OR PTE_V OR (if vm AND VM_READ \<noteq> 0 then PTE_R else 0)
     OR (if vm AND VM_WRITE \<noteq> 0 then PTE_W OR PTE_R else 0) OR (if vm AND VM_EXEC \<noteq> 0 then PTE_X else 0)"

definition map_area :: "exec_mem \<Rightarrow> nat \<Rightarrow> nat \<Rightarrow> nat \<Rightarrow> 32 word \<Rightarrow> 'a kernel_scheme \<Rightarrow> ((errno + unit) \<times> 'a kernel_scheme) option" where
  "map_area em m addr len fl s = do {
     (ret, mm) \<leftarrow> mm_map (em_vma em addr) (mms s m) addr len fl;
     Some (map_sum id (\<lambda>_. ()) ret, upd_mm m mm s)
   }"

text \<open>One program header.\<close>

definition load_segment :: "exec_mem \<Rightarrow> int \<Rightarrow> nat \<Rightarrow> proghdr \<Rightarrow> 'a kernel_scheme \<Rightarrow> ((errno + unit) \<times> 'a kernel_scheme) option" where
  "load_segment em fd m ph s =
     (if p_type ph \<noteq> ELF_PT_LOAD then Some (Inr (), s)
      else if p_filesz ph > p_memsz ph then Some (Inl E_INVAL_ELF, s)
      else if p_filesz ph = 0 then Some (Inr (), s)
      else do {
        let fl = seg_flags (p_phflags ph);
        let perm = seg_perm fl;
        (ret, s) \<leftarrow> map_area em m (p_va ph) (p_memsz ph) fl s;
        (case ret of
           Inl e \<Rightarrow> Some (Inl e, s)
         | Inr _ \<Rightarrow> do {
             pd \<leftarrow> pgdir (mms s m);
             (ret, s) \<leftarrow> load_text em fd pd perm ((p_va ph + p_filesz ph) mod 2 ^ 64) (p_va ph) (ROUNDDOWN (p_va ph) PGSIZE)
               (p_offset ph) None s;
             (case ret of
                Inl e \<Rightarrow> Some (Inl e, s)
              | Inr (start, la, page) \<Rightarrow> clear_bss pd perm ((p_va ph + p_memsz ph) mod 2 ^ 64) start la page s)
           })
      })"

fun load_segments :: "exec_mem \<Rightarrow> int \<Rightarrow> nat \<Rightarrow> nat \<Rightarrow> nat list \<Rightarrow> 'a kernel_scheme \<Rightarrow> ((errno + unit) \<times> 'a kernel_scheme) option" where
  "load_segments em fd m phoff [] s = Some (Inr (), s)"
| "load_segments em fd m phoff (i # is) s = do {
     let at = (phoff + 56 * i) mod 2 ^ 64;
     (ret, b, s) \<leftarrow> load_icode_read (em_buf em (em_stack em) at) fd (em_stack em) (\<lambda>_. 0) 0 56 at s;
     (case ret of
        Inl e \<Rightarrow> Some (Inl e, s)
      | Inr _ \<Rightarrow> do {
          (ret, s) \<leftarrow> load_segment em fd m (proghdr_of b) s;
          (case ret of Inl e \<Rightarrow> Some (Inl e, s) | Inr _ \<Rightarrow> load_segments em fd m phoff is s)
        })
   }"


text \<open>The stack: an area, and its four highest pages at once.\<close>

definition setup_stack :: "exec_mem \<Rightarrow> nat \<Rightarrow> 'a kernel_scheme \<Rightarrow> ((errno + unit) \<times> 'a kernel_scheme) option" where
  "setup_stack em m s = do {
     (ret, s) \<leftarrow> map_area em m (USTACKTOP - USTACKSIZE) USTACKSIZE (VM_READ OR VM_WRITE OR VM_STACK) s;
     (case ret of
        Inl e \<Rightarrow> Some (Inl e, s)
      | Inr _ \<Rightarrow> do {
          pd \<leftarrow> pgdir (mms s m);
          (p1, s) \<leftarrow> alloc_user_page pd (USTACKTOP - PGSIZE) PTE_USER s; kassert (p1 \<noteq> None);
          (p2, s) \<leftarrow> alloc_user_page pd (USTACKTOP - 2 * PGSIZE) PTE_USER s; kassert (p2 \<noteq> None);
          (p3, s) \<leftarrow> alloc_user_page pd (USTACKTOP - 3 * PGSIZE) PTE_USER s; kassert (p3 \<noteq> None);
          (p4, s) \<leftarrow> alloc_user_page pd (USTACKTOP - 4 * PGSIZE) PTE_USER s; kassert (p4 \<noteq> None);
          Some (Inr (), s)
        })
   }"

section \<open>The arguments on the new stack\<close>

text \<open>The frame behind an address of the user, mapped by a page fault when it is not there.\<close>

definition lookup_frame :: "phys \<Rightarrow> nat \<Rightarrow> nat \<Rightarrow> nat option option" where
  "lookup_frame ph pd a = do {
     (ptep, _) \<leftarrow> get_pte ph pd a False;
     Some (case ptep of
         None \<Rightarrow> None
       | Some e \<Rightarrow> if valid_pte (pte_get ph e) then Some (PPN (PTE_ADDR (pte_get ph e))) else None)
   }"

definition user_frame :: "nat \<Rightarrow> nat \<Rightarrow> 'a kernel_scheme \<Rightarrow> (nat \<times> 'a kernel_scheme) option" where
  "user_frame m a s = do {
     pd \<leftarrow> pgdir (mms s m);
     at \<leftarrow> lookup_frame (mem_of s) pd a;
     (case at of
        Some k \<Rightarrow> Some (k, s)
      | None \<Rightarrow> do {
          (ret, mm, ph) \<leftarrow> do_pgfault (Some (mms s m)) a (mem_of s);
          kassert (ret = Inr ());
          mm \<leftarrow> mm;
          at \<leftarrow> lookup_frame ph pd a;
          k \<leftarrow> at;
          Some (k, upd_mm m mm (s\<lparr>mem_of := ph\<rparr>))
        })
   }"

fun user_stores :: "nat \<Rightarrow> nat \<Rightarrow> byte list \<Rightarrow> 'a kernel_scheme \<Rightarrow> 'a kernel_scheme option" where
  "user_stores m a [] s = Some s"
| "user_stores m a (b # bs) s = do {
     (k, s) \<leftarrow> user_frame m a s;
     user_stores m (a + 1) bs (set_frame k ((frame (mem_of s) k)(a mod PGSIZE := b)) s)
   }"

definition user_view :: "phys \<Rightarrow> nat \<Rightarrow> mem" where
  "user_view ph pd = (\<lambda>a. case lookup_frame ph pd a of Some (Some k) \<Rightarrow> frame ph k (a mod PGSIZE) | _ \<Rightarrow> 0)"

text \<open>The strings from \<open>stacktop\<close> upwards, the pointers to them from \<open>uargv\<close>.\<close>

fun put_args :: "nat \<Rightarrow> nat \<Rightarrow> nat \<Rightarrow> nat \<Rightarrow> byte list list \<Rightarrow> 'a kernel_scheme \<Rightarrow> 'a kernel_scheme option" where
  "put_args m stacktop uargv argv_size [] s = Some s"
| "put_args m stacktop uargv argv_size (x # xs) s = do {
     s \<leftarrow> user_stores m (stacktop + argv_size) (x @ [0]) s;
     s \<leftarrow> user_stores m uargv (map (le (stacktop + argv_size)) [0 ..< 8]) s;
     put_args m stacktop (uargv + 8) (argv_size + (length x + 1)) xs s
   }"

definition args_size :: "byte list list \<Rightarrow> nat" where
  "args_size argv = sum_list (map (\<lambda>x. length x + 1) argv)"

definition args_top :: "byte list list \<Rightarrow> nat" where
  "args_top argv = USTACKTOP - (args_size argv div 8 + 1) * 8"

section \<open>The new image\<close>

definition cleanup_pgdir :: "nat \<Rightarrow> errno \<Rightarrow> 'a kernel_scheme \<Rightarrow> ((errno + unit) \<times> 'a kernel_scheme) option" where
  "cleanup_pgdir m e s = do { s \<leftarrow> put_pgdir m s; mm_destroy (mms s m); Some (Inl e, s) }"

definition cleanup_mmap :: "nat \<Rightarrow> errno \<Rightarrow> 'a kernel_scheme \<Rightarrow> ((errno + unit) \<times> 'a kernel_scheme) option" where
  "cleanup_mmap m e s = do { ph \<leftarrow> exit_mmap (mms s m) (mem_of s); cleanup_pgdir m e (s\<lparr>mem_of := ph\<rparr>) }"

text \<open>The address space becomes the process's own, gets the arguments, and the trapframe its start.\<close>

definition enter_image :: "64 word \<Rightarrow> nat \<Rightarrow> nat \<Rightarrow> byte list list \<Rightarrow> 'a kernel_scheme \<Rightarrow> 'a kernel_scheme option" where
  "enter_image sstatus m entry_pc argv s = do {
     let s = upd_mm m ((mms s m)\<lparr>mm_count := mm_count (mms s m) + 1\<rparr>) s;
     let s = upd (current s) (\<lambda>x. x\<lparr>p_mm := Some m\<rparr>) s;
     pd \<leftarrow> pgdir (mms s m);
     pa \<leftarrow> PADDR pd;
     let s = upd (current s) (\<lambda>x. x\<lparr>p_cr3 := pa\<rparr>) s;
     let uargv = args_top argv - length argv * 8;
     s \<leftarrow> put_args m (args_top argv) uargv 0 argv s;
     s \<leftarrow> user_stores m (uargv - 4) (map (le (length argv)) [0 ..< 4]) s;
     _ \<leftarrow> tfs s (current s);
     Some (s\<lparr>tfs := (tfs s)(current s := Some \<lparr>gpr = (\<lambda>_. 0)(2 := word_of_nat (uargv - 4)),
       tf_status = sstatus AND NOT SSTATUS_SPP AND NOT SSTATUS_SPIE, tf_epc = word_of_nat entry_pc, tf_tval = 0, tf_cause = 0\<rparr>)\<rparr>)
   }"

definition load_icode :: "exec_mem \<Rightarrow> 64 word \<Rightarrow> int \<Rightarrow> byte list list \<Rightarrow> 'a kernel_scheme \<Rightarrow> ((errno + unit) \<times> 'a kernel_scheme) option" where
  "load_icode em sstatus fd argv s = do {
     kassert (int (length argv) \<le> EXEC_MAX_ARG_NUM);
     kassert (p_mm (procs s (current s)) = None);
     (case mm_create (em_mm em \<noteq> None) (mem_of s) of
        (None, ph) \<Rightarrow> Some (Inl E_NO_MEM, s\<lparr>mem_of := ph\<rparr>)
      | (Some mm, ph) \<Rightarrow> do {
          m \<leftarrow> em_mm em;
          let s = upd_mm m mm (s\<lparr>mem_of := ph\<rparr>);
          (ret, s) \<leftarrow> setup_pgdir m s;
          (case ret of
             Inl _ \<Rightarrow> do { mm_destroy (mms s m); Some (Inl E_NO_MEM, s) }
           | Inr _ \<Rightarrow> do {
               (ret, b, s) \<leftarrow> load_icode_read (em_buf em (em_stack em) 0) fd (em_stack em) (\<lambda>_. 0) 0 64 0 s;
               let elf = elfhdr_of b;
               (case ret of
                  Inl e \<Rightarrow> cleanup_pgdir m e s
                | Inr _ \<Rightarrow>
                    if e_magic elf \<noteq> ELF_MAGIC then cleanup_pgdir m E_INVAL_ELF s
                    else do {
                      (ret, s) \<leftarrow> load_segments em fd m (e_phoff elf) [0 ..< e_phnum elf] s;
                      (case ret of
                         Inl e \<Rightarrow> cleanup_mmap m e s
                       | Inr _ \<Rightarrow> do {
                           (ret, s) \<leftarrow> setup_stack em m s;
                           (case ret of
                              Inl e \<Rightarrow> cleanup_mmap m e s
                            | Inr _ \<Rightarrow> do { s \<leftarrow> enter_image sstatus m (e_entry elf) argv s; Some (Inr (), s) })
                         })
                    })
             })
        })
   }"

section \<open>exec\<close>

definition c_string :: "mem \<Rightarrow> nat \<Rightarrow> nat \<Rightarrow> byte list" where
  "c_string b a n = map b [a ..< a + strnlen b a n]"

fun args_loop :: "exec_mem \<Rightarrow> mem \<Rightarrow> nat \<Rightarrow> nat list \<Rightarrow> mm_struct option \<Rightarrow> (errno + byte list list) \<times> mm_struct option" where
  "args_loop em um argv [] mm = (Inr [], mm)"
| "args_loop em um argv (i # is) mm =
     (case em_args em i of
        None \<Rightarrow> (Inl E_NO_MEM, mm)
      | Some buffer \<Rightarrow>
          (case copy_string mm buffer 0 um (rd 8 um (argv + 8 * i)) (EXEC_MAX_ARG_LEN + 1) of
             (ok, buffer, mm) \<Rightarrow>
               if \<not> ok then (Inl E_INVAL, mm)
               else (case args_loop em um argv is mm of
                  (Inl e, mm) \<Rightarrow> (Inl e, mm)
                | (Inr xs, mm) \<Rightarrow> (Inr (c_string buffer 0 (EXEC_MAX_ARG_LEN + 1) # xs), mm))))"

definition copy_kargv :: "exec_mem \<Rightarrow> mem \<Rightarrow> nat \<Rightarrow> nat \<Rightarrow> mm_struct option \<Rightarrow> (errno + byte list list) \<times> mm_struct option" where
  "copy_kargv em um argc argv mm =
     (case user_mem_check mm argv (8 * argc) False of
        (ok, mm) \<Rightarrow> if \<not> ok then (Inl E_INVAL, mm) else args_loop em um argv [0 ..< argc] mm)"

text \<open>The name for the process: the user's, or one made from the pid.\<close>

definition copy_name :: "exec_mem \<Rightarrow> mem \<Rightarrow> nat \<Rightarrow> int \<Rightarrow> mm_struct option \<Rightarrow> (byte list option \<times> mm_struct option) option" where
  "copy_name em um name pid mm =
     (if name = 0 then do {
        (_, b) \<leftarrow> snprintf (em_stack em) (PROC_NAME_LEN + 1) (str ''<null> %d'') [AInt (word_of_int pid)] (\<lambda>_. 0);
        Some (Some (c_string b (em_stack em) (PROC_NAME_LEN + 1)), mm)
      }
      else
        (case copy_string mm (\<lambda>_. 0) 0 um name (PROC_NAME_LEN + 1) of
           (ok, b, mm) \<Rightarrow> Some (if ok then Some (c_string b 0 (PROC_NAME_LEN + 1)) else None, mm)))"

definition put_mm :: "mm_struct option \<Rightarrow> 'a kernel_scheme \<Rightarrow> 'a kernel_scheme" where
  "put_mm mm s = (case (p_mm (procs s (current s)), mm) of (Some m, Some mm) \<Rightarrow> upd_mm m mm s | _ \<Rightarrow> s)"

definition close_files :: "'a kernel_scheme \<Rightarrow> 'a kernel_scheme option" where
  "close_files s = do {
     f \<leftarrow> p_filesp (procs s (current s));
     (v, ft) \<leftarrow> files_closeall (kfs s) (filess s f);
     Some (upd_files f ft (s\<lparr>kfs := v\<rparr>))
   }"

text \<open>The label \<open>execve_exit\<close>.\<close>

definition execve_exit :: "'a kernel_scheme sched_class \<Rightarrow> errno \<Rightarrow> mem \<Rightarrow> 'a kernel_scheme
    \<Rightarrow> ((errno + unit) option \<times> mem \<times> 'a kernel_scheme) option" where
  "execve_exit sc e um s = do { s \<leftarrow> do_exit sc (- errno_code e) s; Some (None, um, s) }"

text \<open>
  The result is \<open>None\<close> inside when the process did not survive.  The memory returned is that of the
  new image, as its page table shows it.
\<close>

definition do_execve :: "'a kernel_scheme sched_class \<Rightarrow> exec_mem \<Rightarrow> 64 word \<Rightarrow> nat \<Rightarrow> int \<Rightarrow> nat \<Rightarrow> mem \<Rightarrow> 'a kernel_scheme
    \<Rightarrow> ((errno + unit) option \<times> mem \<times> 'a kernel_scheme) option" where
  "do_execve sc em sstatus name argc argv um s =
     (let m = p_mm (procs s (current s)); mm = map_option (mms s) m in
      if \<not> (argc \<ge> 1 \<and> argc \<le> EXEC_MAX_ARG_NUM) then Some (Some (Inl E_INVAL), um, s)
      else do {
        (local_name, mm) \<leftarrow> copy_name em um name (p_pid (procs s (current s))) mm;
        (case local_name of
           None \<Rightarrow> Some (Some (Inl E_INVAL), um, put_mm mm s)
         | Some nm \<Rightarrow>
             (case copy_kargv em um (nat argc) argv mm of
                (Inl e, mm) \<Rightarrow> Some (Some (Inl e), um, put_mm mm s)
              | (Inr kargv, mm) \<Rightarrow> do {
                  s \<leftarrow> close_files (put_mm mm s);
                  (ret, um, s) \<leftarrow> on_sys (sysfile_open (em_vfs em) (em_path em) (rd 8 um argv) O_RDONLY) um s;
                  (case ret of
                     Inl e \<Rightarrow> execve_exit sc e um s
                   | Inr fd \<Rightarrow> do {
                       s \<leftarrow> (case m of
                           None \<Rightarrow> Some s
                         | Some m \<Rightarrow> do { s \<leftarrow> drop_mm m s; Some (upd (current s) (\<lambda>x. x\<lparr>p_mm := None\<rparr>) s) });
                       (ret, s) \<leftarrow> load_icode em sstatus fd kargv s;
                       (case ret of
                          Inl e \<Rightarrow> execve_exit sc e um s
                        | Inr _ \<Rightarrow> do {
                            new \<leftarrow> p_mm (procs s (current s));
                            pd \<leftarrow> pgdir (mms s new);
                            Some (Some (Inr ()), user_view (mem_of s) pd,
                              set_proc_name (current s) (map (\<lambda>b. char_of (unat b)) nm) s)
                          })
                     })
                }))
      })"

end
