(* ===== verification/Syscall.thy ===== *)
theory Syscall
  imports Exec
begin

text \<open>
  The way into the kernel: \<open>kern/syscall/syscall.c\<close> and \<open>kern/trap/trap.c\<close>.  \<open>um\<close> is the memory of
  the current process at user addresses, passed and returned.  What the handlers ask of the
  allocators, the keyboard and the other processes is in \<open>env\<close>.  A result \<open>None\<close> inside says that the
  process has ended; \<open>None\<close> as a whole is a panic.
\<close>

record machine = kernel +
  ticks :: nat

record env =
  e_fork :: fork_mem
  e_exec :: exec_mem
  e_others :: "machine \<Rightarrow> machine option"
  e_timer :: nat
  e_vfs :: kalloc
  e_buf :: "mem option"
  e_junk :: mem
  e_sstatus :: "64 word"
  e_key :: byte

definition SYS_exit :: int where "SYS_exit = 1"
definition SYS_fork :: int where "SYS_fork = 2"
definition SYS_wait :: int where "SYS_wait = 3"
definition SYS_exec :: int where "SYS_exec = 4"
definition SYS_yield :: int where "SYS_yield = 10"
definition SYS_sleep :: int where "SYS_sleep = 11"
definition SYS_kill :: int where "SYS_kill = 12"
definition SYS_gettime :: int where "SYS_gettime = 17"
definition SYS_getpid :: int where "SYS_getpid = 18"
definition SYS_putc :: int where "SYS_putc = 30"
definition SYS_pgdir :: int where "SYS_pgdir = 31"
definition SYS_open :: int where "SYS_open = 100"
definition SYS_close :: int where "SYS_close = 101"
definition SYS_read :: int where "SYS_read = 102"
definition SYS_write :: int where "SYS_write = 103"
definition SYS_seek :: int where "SYS_seek = 104"
definition SYS_fstat :: int where "SYS_fstat = 110"
definition SYS_fsync :: int where "SYS_fsync = 111"
definition SYS_getcwd :: int where "SYS_getcwd = 121"
definition SYS_getdirentry :: int where "SYS_getdirentry = 128"
definition SYS_dup :: int where "SYS_dup = 130"
definition SYS_lab6_set_priority :: int where "SYS_lab6_set_priority = 255"

text \<open>The conversions of an argument register.\<close>

definition arg_int :: "64 word \<Rightarrow> int" where "arg_int a = signed_take_bit 31 (uint a)"
definition arg_off :: "64 word \<Rightarrow> int" where "arg_off a = sint a"

text \<open>An error or number as the \<open>int\<close> a handler returns.\<close>

definition ret_int :: "errno + int \<Rightarrow> int" where
  "ret_int r = (case r of Inl e \<Rightarrow> - errno_code e | Inr n \<Rightarrow> n)"

definition ret_unit :: "errno + unit \<Rightarrow> int" where
  "ret_unit r = (case r of Inl e \<Rightarrow> - errno_code e | Inr _ \<Rightarrow> 0)"

type_synonym handler_result = "(int option \<times> mem \<times> machine) option"

section \<open>Processes and time\<close>

definition sys_exit :: "machine sched_class \<Rightarrow> int \<Rightarrow> mem \<Rightarrow> machine \<Rightarrow> handler_result" where
  "sys_exit sc error_code um s = do { s \<leftarrow> do_exit sc error_code s; Some (None, um, s) }"

definition sys_fork :: "machine sched_class \<Rightarrow> env \<Rightarrow> mem \<Rightarrow> machine \<Rightarrow> handler_result" where
  "sys_fork sc env um s = do {
     tf \<leftarrow> tfs s (current s);
     (ret, s) \<leftarrow> do_fork sc (e_fork env) 0 (gpr tf 2) tf s;
     Some (Some (ret_int ret), um, s)
   }"

definition sys_wait :: "machine sched_class \<Rightarrow> env \<Rightarrow> int \<Rightarrow> nat \<Rightarrow> mem \<Rightarrow> machine \<Rightarrow> handler_result" where
  "sys_wait sc env pid code_store um s = do {
     (ret, s) \<leftarrow> do_wait sc (e_others env) pid (if code_store = 0 then None else Some code_store) s;
     Some (case ret of
         None \<Rightarrow> (None, um, s)
       | Some (Inl e) \<Rightarrow> (Some (- errno_code e), um, s)
       | Some (Inr None) \<Rightarrow> (Some 0, um, s)
       | Some (Inr (Some (a, code))) \<Rightarrow> (Some 0, blit um a (le (nat (code mod 2 ^ 32))) 0 4, s))
   }"

definition sys_exec :: "machine sched_class \<Rightarrow> env \<Rightarrow> nat \<Rightarrow> int \<Rightarrow> nat \<Rightarrow> mem \<Rightarrow> machine \<Rightarrow> handler_result" where
  "sys_exec sc env name argc argv um s = do {
     (ret, um, s) \<leftarrow> do_execve sc (e_exec env) (e_sstatus env) name argc argv um s;
     Some (map_option ret_unit ret, um, s)
   }"

definition sys_yield :: "mem \<Rightarrow> machine \<Rightarrow> handler_result" where
  "sys_yield um s = Some (Some 0, um, do_yield s)"

definition sys_kill :: "machine sched_class \<Rightarrow> int \<Rightarrow> mem \<Rightarrow> machine \<Rightarrow> handler_result" where
  "sys_kill sc pid um s = do { (ret, s) \<leftarrow> do_kill sc pid s; Some (Some (ret_unit ret), um, s) }"

definition sys_getpid :: "mem \<Rightarrow> machine \<Rightarrow> handler_result" where
  "sys_getpid um s = Some (Some (p_pid (procs s (current s))), um, s)"

definition sys_putc :: "int \<Rightarrow> mem \<Rightarrow> machine \<Rightarrow> handler_result" where
  "sys_putc c um s =
     (let v = kfs s; t = console v
      in Some (Some 0, um, s\<lparr>kfs := v\<lparr>console := t\<lparr>printed := printed t @ [word_of_int c]\<rparr>\<rparr>\<rparr>))"

definition sys_pgdir :: "mem \<Rightarrow> machine \<Rightarrow> handler_result" where
  "sys_pgdir um s = Some (Some 0, um, s)"

definition sys_gettime :: "mem \<Rightarrow> machine \<Rightarrow> handler_result" where
  "sys_gettime um s = Some (Some (signed_take_bit 31 (signed_take_bit 31 (int (ticks s)) * 10)), um, s)"

definition sys_lab6_set_priority :: "64 word \<Rightarrow> mem \<Rightarrow> machine \<Rightarrow> handler_result" where
  "sys_lab6_set_priority priority um s = Some (Some 0, um, lab6_set_priority (ucast priority) s)"

definition sys_sleep :: "machine sched_class \<Rightarrow> env \<Rightarrow> 32 word \<Rightarrow> mem \<Rightarrow> machine \<Rightarrow> handler_result" where
  "sys_sleep sc env time um s = do {
     s \<leftarrow> do_sleep sc (e_others env) (e_timer env) time s;
     Some (Some 0, um, s)
   }"

section \<open>Files\<close>

definition file_call :: "(sys \<Rightarrow> ((errno + int) \<times> sys) option) \<Rightarrow> mem \<Rightarrow> machine \<Rightarrow> handler_result" where
  "file_call call um s = do { (ret, um, s) \<leftarrow> on_sys call um s; Some (Some (ret_int ret), um, s) }"

definition sys_open :: "env \<Rightarrow> nat \<Rightarrow> nat \<Rightarrow> mem \<Rightarrow> machine \<Rightarrow> handler_result" where
  "sys_open env path open_flags = file_call (sysfile_open (e_vfs env) (e_buf env) path open_flags)"

definition sys_close :: "int \<Rightarrow> mem \<Rightarrow> machine \<Rightarrow> handler_result" where
  "sys_close fd = file_call (sysfile_close fd)"

definition sys_read :: "env \<Rightarrow> int \<Rightarrow> nat \<Rightarrow> nat \<Rightarrow> mem \<Rightarrow> machine \<Rightarrow> handler_result" where
  "sys_read env fd base len = file_call (sysfile_read (e_buf env) fd base len)"

definition sys_write :: "env \<Rightarrow> int \<Rightarrow> nat \<Rightarrow> nat \<Rightarrow> mem \<Rightarrow> machine \<Rightarrow> handler_result" where
  "sys_write env fd base len = file_call (sysfile_write (e_buf env) fd base len)"

definition sys_seek :: "int \<Rightarrow> int \<Rightarrow> int \<Rightarrow> mem \<Rightarrow> machine \<Rightarrow> handler_result" where
  "sys_seek fd p whence = file_call (sysfile_seek fd p whence)"

definition sys_fstat :: "env \<Rightarrow> int \<Rightarrow> nat \<Rightarrow> mem \<Rightarrow> machine \<Rightarrow> handler_result" where
  "sys_fstat env fd ustat = file_call (sysfile_fstat (e_junk env) fd ustat)"

definition sys_fsync :: "int \<Rightarrow> mem \<Rightarrow> machine \<Rightarrow> handler_result" where
  "sys_fsync fd = file_call (sysfile_fsync fd)"

definition sys_getcwd :: "env \<Rightarrow> nat \<Rightarrow> nat \<Rightarrow> mem \<Rightarrow> machine \<Rightarrow> handler_result" where
  "sys_getcwd env buf len = file_call (sysfile_getcwd (e_vfs env) buf len)"

definition sys_getdirentry :: "env \<Rightarrow> int \<Rightarrow> nat \<Rightarrow> mem \<Rightarrow> machine \<Rightarrow> handler_result" where
  "sys_getdirentry env fd direntp = file_call (sysfile_getdirentry (e_vfs env) (e_buf env) fd direntp)"

definition sys_dup :: "int \<Rightarrow> int \<Rightarrow> mem \<Rightarrow> machine \<Rightarrow> handler_result" where
  "sys_dup fd1 fd2 = file_call (sysfile_dup fd1 fd2)"

section \<open>Dispatch\<close>

text \<open>The table of handlers, by number; an empty entry or a number beyond it is undefined.\<close>

definition syscalls :: "machine sched_class \<Rightarrow> env \<Rightarrow> int \<Rightarrow> (nat \<Rightarrow> 64 word) \<Rightarrow> (mem \<Rightarrow> machine \<Rightarrow> handler_result) option" where
  "syscalls sc env num arg =
     (if num = SYS_exit then Some (sys_exit sc (arg_int (arg 0)))
      else if num = SYS_fork then Some (sys_fork sc env)
      else if num = SYS_wait then Some (sys_wait sc env (arg_int (arg 0)) (unat (arg 1)))
      else if num = SYS_exec then Some (sys_exec sc env (unat (arg 0)) (arg_int (arg 1)) (unat (arg 2)))
      else if num = SYS_yield then Some sys_yield
      else if num = SYS_kill then Some (sys_kill sc (arg_int (arg 0)))
      else if num = SYS_getpid then Some sys_getpid
      else if num = SYS_putc then Some (sys_putc (arg_int (arg 0)))
      else if num = SYS_pgdir then Some sys_pgdir
      else if num = SYS_gettime then Some sys_gettime
      else if num = SYS_lab6_set_priority then Some (sys_lab6_set_priority (arg 0))
      else if num = SYS_sleep then Some (sys_sleep sc env (ucast (arg 0)))
      else if num = SYS_open then Some (sys_open env (unat (arg 0)) (unat (arg 1) mod 2 ^ 32))
      else if num = SYS_close then Some (sys_close (arg_int (arg 0)))
      else if num = SYS_read then Some (sys_read env (arg_int (arg 0)) (unat (arg 1)) (unat (arg 2)))
      else if num = SYS_write then Some (sys_write env (arg_int (arg 0)) (unat (arg 1)) (unat (arg 2)))
      else if num = SYS_seek then Some (sys_seek (arg_int (arg 0)) (arg_off (arg 1)) (arg_int (arg 2)))
      else if num = SYS_fstat then Some (sys_fstat env (arg_int (arg 0)) (unat (arg 1)))
      else if num = SYS_fsync then Some (sys_fsync (arg_int (arg 0)))
      else if num = SYS_getcwd then Some (sys_getcwd env (unat (arg 0)) (unat (arg 1)))
      else if num = SYS_getdirentry then Some (sys_getdirentry env (arg_int (arg 0)) (unat (arg 1)))
      else if num = SYS_dup then Some (sys_dup (arg_int (arg 0)) (arg_int (arg 1)))
      else None)"

text \<open>
  The trapframe stays the one the call began with; a handler that ends the process leaves it alone.
  The number is read from \<open>a0\<close> and the arguments from \<open>a1\<close> on.
\<close>

definition syscall :: "machine sched_class \<Rightarrow> env \<Rightarrow> mem \<Rightarrow> machine \<Rightarrow> (bool \<times> mem \<times> machine) option" where
  "syscall sc env um s = do {
     let p = current s;
     tf \<leftarrow> tfs s p;
     h \<leftarrow> syscalls sc env (arg_int (gpr tf 10)) (\<lambda>i. gpr tf (11 + i));
     (ret, um, s) \<leftarrow> h um s;
     (case ret of
        None \<Rightarrow> Some (False, um, s)
      | Some r \<Rightarrow> do {
          tf \<leftarrow> tfs s p;
          Some (True, um, s\<lparr>tfs := (tfs s)(p := Some (tf\<lparr>gpr := (gpr tf)(10 := word_of_int r)\<rparr>))\<rparr>)
        })
   }"

section \<open>Traps\<close>

definition IRQ_S_TIMER :: nat where "IRQ_S_TIMER = 5"
definition CAUSE_BREAKPOINT :: nat where "CAUSE_BREAKPOINT = 3"
definition CAUSE_LOAD_ACCESS :: nat where "CAUSE_LOAD_ACCESS = 5"
definition CAUSE_MISALIGNED_STORE :: nat where "CAUSE_MISALIGNED_STORE = 6"
definition CAUSE_STORE_ACCESS :: nat where "CAUSE_STORE_ACCESS = 7"
definition CAUSE_USER_ECALL :: nat where "CAUSE_USER_ECALL = 8"
definition CAUSE_SUPERVISOR_ECALL :: nat where "CAUSE_SUPERVISOR_ECALL = 9"
definition CAUSE_FETCH_PAGE_FAULT :: nat where "CAUSE_FETCH_PAGE_FAULT = 12"
definition CAUSE_LOAD_PAGE_FAULT :: nat where "CAUSE_LOAD_PAGE_FAULT = 13"
definition CAUSE_STORE_PAGE_FAULT :: nat where "CAUSE_STORE_PAGE_FAULT = 15"

definition trap_in_kernel :: "trapframe \<Rightarrow> bool" where
  "trap_in_kernel tf \<longleftrightarrow> tf_status tf AND SSTATUS_SPP \<noteq> 0"

text \<open>What became of the trap: the handler came back, the process ended, or \<open>kernel_execve_ret\<close> left
  for the new program.\<close>

datatype outcome = Back | Ended | To_program

text \<open>\<open>check_mm_struct\<close> is \<open>NULL\<close> outside the self tests.  A page that is mapped shows what its frame holds.\<close>

definition pgfault_handler :: "trapframe \<Rightarrow> mem \<Rightarrow> machine \<Rightarrow> ((errno + unit) \<times> mem \<times> machine) option" where
  "pgfault_handler tf um s = do {
     let m = p_mm (procs s (current s));
     let addr = unat (tf_tval tf);
     (ret, mm, ph) \<leftarrow> do_pgfault (map_option (mms s) m) addr (mem_of s);
     let s = put_mm mm (s\<lparr>mem_of := ph\<rparr>);
     let um = (case (ret, Option.bind mm pgdir) of
         (Inr _, Some pd) \<Rightarrow> (\<lambda>a. if a div PGSIZE = addr div PGSIZE then user_view ph pd a else um a)
       | _ \<Rightarrow> um);
     Some (ret, um, s)
   }"

text \<open>The clock; the other interrupts print a line.\<close>

definition interrupt_handler :: "machine sched_class \<Rightarrow> env \<Rightarrow> trapframe \<Rightarrow> machine \<Rightarrow> machine option" where
  "interrupt_handler sc env tf s =
     (if unat (tf_cause tf) mod 2 ^ 63 = IRQ_S_TIMER then do {
        let s = s\<lparr>ticks := (ticks s + 1) mod 2 ^ 64\<rparr>;
        s \<leftarrow> run_timer_list sc s;
        let v = kfs s;
        Some (s\<lparr>kfs := v\<lparr>console := dev_stdin_write (console v) (e_key env)\<rparr>\<rparr>)
      } else Some s)"

definition step_epc :: "pptr \<Rightarrow> machine \<Rightarrow> machine" where
  "step_epc p s = s\<lparr>tfs := (tfs s)(p := map_option (\<lambda>tf. tf\<lparr>tf_epc := tf_epc tf + 4\<rparr>) (tfs s p))\<rparr>"

definition exception_handler :: "machine sched_class \<Rightarrow> env \<Rightarrow> trapframe \<Rightarrow> mem \<Rightarrow> machine \<Rightarrow> (outcome \<times> mem \<times> machine) option" where
  "exception_handler sc env tf um s =
     (let c = unat (tf_cause tf) in
      if c = CAUSE_BREAKPOINT then
        (if gpr tf 17 = 10 then do {
           (ok, um, s) \<leftarrow> syscall sc env um (step_epc (current s) s);
           Some (if ok then To_program else Ended, um, s)
         } else Some (Back, um, s))
      else if c = CAUSE_MISALIGNED_STORE then None
      else if c = CAUSE_LOAD_ACCESS \<or> c = CAUSE_STORE_ACCESS \<or> c = CAUSE_LOAD_PAGE_FAULT \<or> c = CAUSE_STORE_PAGE_FAULT then do {
        (ret, um, s) \<leftarrow> pgfault_handler tf um s;
        kassert (ret = Inr ());
        Some (Back, um, s)
      }
      else if c = CAUSE_USER_ECALL \<or> c = CAUSE_SUPERVISOR_ECALL then do {
        (ok, um, s) \<leftarrow> syscall sc env um (step_epc (current s) s);
        Some (if ok then Back else Ended, um, s)
      }
      else Some (Back, um, s))"

definition trap_dispatch :: "machine sched_class \<Rightarrow> env \<Rightarrow> trapframe \<Rightarrow> mem \<Rightarrow> machine \<Rightarrow> (outcome \<times> mem \<times> machine) option" where
  "trap_dispatch sc env tf um s =
     (if tf_cause tf <s 0 then do { s \<leftarrow> interrupt_handler sc env tf s; Some (Back, um, s) }
      else exception_handler sc env tf um s)"

text \<open>
  The frame the processor resumes from is returned, \<open>None\<close> when this process does not resume here.
  Coming back from \<open>schedule\<close> is coming back after \<open>e_others\<close>.
\<close>

definition trap :: "machine sched_class \<Rightarrow> env \<Rightarrow> trapframe \<Rightarrow> mem \<Rightarrow> machine \<Rightarrow> (trapframe option \<times> mem \<times> machine) option" where
  "trap sc env tf um s = do {
     let p = current s;
     let otf = tfs s p;
     (out, um, s) \<leftarrow> trap_dispatch sc env tf um (s\<lparr>tfs := (tfs s)(p := Some tf)\<rparr>);
     (case out of
        Ended \<Rightarrow> Some (None, um, s)
      | To_program \<Rightarrow> Some (tfs s p, um, s)
      | Back \<Rightarrow> do {
          let tf' = tfs s p;
          let s = s\<lparr>tfs := (tfs s)(p := otf)\<rparr>;
          if trap_in_kernel tf then Some (tf', um, s)
          else if p_flags (procs s (current s)) AND PF_EXITING \<noteq> 0 then do {
            s \<leftarrow> do_exit sc (- errno_code E_KILLED) s;
            Some (None, um, s)
          }
          else do {
            s \<leftarrow> (if p_need_resched (procs s (current s)) then do { s \<leftarrow> schedule sc s; e_others env s } else Some s);
            Some (tf', um, s)
          }
        })
   }"

section \<open>The init process\<close>

text \<open>The list holds the init process alone at the end; \<open>user_main\<close> is the entry of its first child.\<close>

partial_function (option) reap_all :: "machine sched_class \<Rightarrow> (machine \<Rightarrow> machine option) \<Rightarrow> machine \<Rightarrow> machine option" where
  "reap_all sc others s = do {
     (ret, s) \<leftarrow> do_wait sc others 0 None s;
     (if ret = Some (Inr None) then do { s \<leftarrow> schedule sc s; s \<leftarrow> others s; reap_all sc others s }
      else Some s)
   }"

definition init_main :: "machine sched_class \<Rightarrow> env \<Rightarrow> 64 word \<Rightarrow> 64 word \<Rightarrow> machine \<Rightarrow> machine option" where
  "init_main sc env kernel_thread_entry user_main s = do {
     f \<leftarrow> p_filesp (procs s (current s));
     (ret, dir, v) \<leftarrow> vfs_set_bootfs (e_vfs env) (kfs s) (pwd (filess s f)) (Some (str ''disk0:''));
     kassert (ret = Inr ());
     let s = upd_files f ((filess s f)\<lparr>pwd := dir\<rparr>) (s\<lparr>kfs := v\<rparr>);
     (ret, s) \<leftarrow> kernel_thread sc (e_fork env) kernel_thread_entry (e_sstatus env) user_main 0 0 s;
     kassert (case ret of Inl _ \<Rightarrow> False | Inr pid \<Rightarrow> pid > 0);
     s \<leftarrow> reap_all sc (e_others env) s;
     v \<leftarrow> vfs_cleanup (kfs s);
     let s = s\<lparr>kfs := v\<rparr>;
     ini \<leftarrow> initproc s;
     kassert (p_cptr (procs s ini) = None \<and> p_yptr (procs s ini) = None \<and> p_optr (procs s ini) = None);
     kassert (nr_process s = 2);
     kassert (proc_list s = [ini]);
     Some s
   }"

end
