(* ===== verification/Trap_Life.thy ===== *)
theory Trap_Life
  imports Syscall
begin

text \<open>
  Whatever a system call or a trap does, the process layer stays well formed.
\<close>

section \<open>What holds whenever a step returns\<close>

definition after :: "'a option \<Rightarrow> ('a \<Rightarrow> bool) \<Rightarrow> bool" where
  "after m P \<longleftrightarrow> (\<forall>x. m = Some x \<longrightarrow> P x)"

lemma afterD: "after m P \<Longrightarrow> m = Some x \<Longrightarrow> P x"
  by (simp add: after_def)

lemma afterI: "(\<And>x. m = Some x \<Longrightarrow> P x) \<Longrightarrow> after m P"
  by (simp add: after_def)

named_theorems stepwise

lemma after_simps [simp]: "after None P" "after (Some x) P = P x"
  by (simp_all add: after_def)

lemma after_weaken: "after m Q \<Longrightarrow> (\<And>x. Q x \<Longrightarrow> P x) \<Longrightarrow> after m P"
  by (simp add: after_def)

lemma after_bind: "after m Q \<Longrightarrow> (\<And>x. Q x \<Longrightarrow> after (f x) P) \<Longrightarrow> after (m \<bind> f) P"
  by (cases m) (simp_all add: after_def)

lemma after_any: "(\<And>x. m = Some x \<Longrightarrow> after (f x) P) \<Longrightarrow> after (m \<bind> f) P"
  by (cases m) (simp_all add: after_def)

lemma after_cases [stepwise]:
  "(b \<Longrightarrow> after x P) \<Longrightarrow> (\<not> b \<Longrightarrow> after y P) \<Longrightarrow> after (if b then x else y) P"
  "(c = None \<Longrightarrow> after x P) \<Longrightarrow> (\<And>a. c = Some a \<Longrightarrow> after (f a) P) \<Longrightarrow> after (case c of None \<Rightarrow> x | Some a \<Rightarrow> f a) P"
  "(\<And>a. d = Inl a \<Longrightarrow> after (g a) P) \<Longrightarrow> (\<And>a. d = Inr a \<Longrightarrow> after (h a) P) \<Longrightarrow> after (case d of Inl a \<Rightarrow> g a | Inr a \<Rightarrow> h a) P"
  "(\<And>a b. e = (a, b) \<Longrightarrow> after (k a b) P) \<Longrightarrow> after (case e of (a, b) \<Rightarrow> k a b) P"
  by (auto split: option.split sum.split prod.split)

section \<open>What stays in place\<close>

lemma beside_frame: "beside p s t \<Longrightarrow> beside p s (set_frame k b t)"
  unfolding set_frame_def by (rule beside_mem)

lemma sys_back_beside: "beside (current s) s (sys_back t f s)"
  unfolding sys_back_def Let_def
  by (cases "p_mm (procs s (current s))"; cases "s_mm t") (auto intro!: beside_mem beside_refl)

lemma on_sys_beside: "on_sys call um s = Some (r, um', s') \<Longrightarrow> beside (current s) s s'"
  using sys_back_beside by (auto simp: on_sys_def bind_eq_Some_conv)

lemma beside_current: "beside p s t \<Longrightarrow> current t = current s"
  by (rule beside_fields)

text \<open>Steps of the current process one after the other.\<close>

definition here :: "'a kernel_scheme \<Rightarrow> 'a kernel_scheme \<Rightarrow> bool" where
  "here s t \<longleftrightarrow> beside (current s) s t"

lemma here_refl [simp]: "here s s"
  by (simp add: here_def beside_refl)

lemma here_trans: "here s t \<Longrightarrow> here t u \<Longrightarrow> here s u"
  unfolding here_def using beside_trans beside_current by metis

lemma here_on_sys: "on_sys call um s = Some (r, um', s') \<Longrightarrow> here s s'"
  unfolding here_def by (rule on_sys_beside)

lemma here_set: "here s (set_frame k b s)" "here s (s\<lparr>mem_of := ph\<rparr>)" "here s (upd_mm m mm s)" "here s (s\<lparr>kfs := v\<rparr>)"
  "here s (upd_files f ff s)" "here s (put_mm mm' s)"
  unfolding here_def put_mm_def by (auto intro!: beside_frame beside_mem beside_refl split: option.split)

lemma here_tfs: "here s (s\<lparr>tfs := tf\<rparr>)"
  by (simp add: here_def beside_def bare_def)

lemma here_upd: "(\<And>x. place (g x) = place x) \<Longrightarrow> here s (upd (current s) g s)"
  unfolding here_def by (intro beside_upd beside_refl)

lemma place_name [simp]: "place (x\<lparr>p_name := n\<rparr>) = place x" "place (x\<lparr>p_need_resched := b\<rparr>) = place x"
  "place (x\<lparr>p_priority := w\<rparr>) = place x"
  by (simp_all add: place_def)

text \<open>An operation that leaves everything else in place, after others that did.\<close>

abbreviation stays :: "'a kernel_scheme \<Rightarrow> ('r \<times> 'a kernel_scheme) option \<Rightarrow> bool" where
  "stays s0 m \<equiv> after m (\<lambda>(r, s'). here s0 s')"

abbreviation stays1 :: "'a kernel_scheme \<Rightarrow> 'a kernel_scheme option \<Rightarrow> bool" where
  "stays1 s0 m \<equiv> after m (\<lambda>s'. here s0 s')"

lemma here_step:
  "here s0 s \<Longrightarrow> here s0 (set_frame k b s)" "here s0 s \<Longrightarrow> here s0 (s\<lparr>mem_of := ph\<rparr>)" "here s0 s \<Longrightarrow> here s0 (upd_mm m mm s)"
  "here s0 s \<Longrightarrow> here s0 (s\<lparr>kfs := v\<rparr>)" "here s0 s \<Longrightarrow> here s0 (upd_files f ff s)" "here s0 s \<Longrightarrow> here s0 (put_mm mm' s)"
  "here s0 s \<Longrightarrow> here s0 (s\<lparr>tfs := tf\<rparr>)"
  by (erule here_trans, rule here_set here_tfs)+

lemma here_step_upd: "here s0 s \<Longrightarrow> (\<And>x. place (g x) = place x) \<Longrightarrow> here s0 (upd (current s) g s)"
  by (erule here_trans) (rule here_upd)

lemma stays_bind:
  "stays s0 m \<Longrightarrow> (\<And>r s'. here s0 s' \<Longrightarrow> after (g r s') P) \<Longrightarrow> after (m \<bind> (\<lambda>(r, s'). g r s')) P"
  "after m' (\<lambda>(r, b, s'). here s0 s') \<Longrightarrow> (\<And>r b s'. here s0 s' \<Longrightarrow> after (h r b s') P) \<Longrightarrow> after (m' \<bind> (\<lambda>(r, b, s'). h r b s')) P"
  "stays1 s0 m'' \<Longrightarrow> (\<And>s'. here s0 s' \<Longrightarrow> after (k s') P) \<Longrightarrow> after (m'' \<bind> k) P"
  by (auto elim!: after_bind)

lemma stays_Some [stepwise]:
  "here s0 s \<Longrightarrow> stays s0 (Some (r, s))" "here s0 s \<Longrightarrow> after (Some (r, b, s)) (\<lambda>(r, b, s'). here s0 s')" "here s0 s \<Longrightarrow> stays1 s0 (Some s)"
  "after None P"
  by simp_all

lemma here_mono: "here s0 s \<Longrightarrow> (\<And>s'. here s s' \<Longrightarrow> here s0 s')"
  by (rule here_trans)

lemma on_sys_stays: "here s0 s \<Longrightarrow> after (on_sys call um s) (\<lambda>(r, um', s'). here s0 s')"
  by (rule afterI) (auto dest: here_on_sys elim: here_trans)

lemma load_icode_read_stays: "here s0 s \<Longrightarrow> after (load_icode_read mm fd a obj at len off s) (\<lambda>(r, b, s'). here s0 s')"
  unfolding load_icode_read_def Let_def
  by (assumption | rule stepwise | rule stays_bind(2) [OF on_sys_stays])+

lemma memset_page_stays: "here s0 s \<Longrightarrow> stays1 s0 (memset_page page off n s)"
  unfolding memset_page_def by (assumption | rule stepwise here_step | rule after_any)+

lemma alloc_user_page_stays: "here s0 s \<Longrightarrow> stays s0 (alloc_user_page pd la perm s)"
  unfolding alloc_user_page_def by (assumption | rule stepwise here_step | rule after_any)+

lemmas page_stays = stays_bind(2) [OF load_icode_read_stays] stays_bind(1) [OF alloc_user_page_stays] stays_bind(3) [OF memset_page_stays]

text \<open>A partial function is followed through its recursive calls.\<close>

lemma stays_raw: "(\<And>s x. m s = Some x \<Longrightarrow> here s0 s \<longrightarrow> here s0 (snd x)) \<Longrightarrow> here s0 s \<Longrightarrow> stays s0 (m s)"
  unfolding after_def by (auto split: prod.split)

lemma load_text_stays: "here s0 s \<Longrightarrow> stays s0 (load_text em fd pd perm hi start la offset page s)"
proof (rule stays_raw)
  fix s :: "'a kernel_scheme" and x assume l: "load_text em fd pd perm hi start la offset page s = Some x"
  show "here s0 s \<longrightarrow> here s0 (snd x)"
  proof (rule load_text.raw_induct [OF _ l, of "\<lambda>em fd pd perm hi start la offset page s x. here s0 s \<longrightarrow> here s0 (snd x)"], rule impI, goal_cases)
    case (1 f em fd pd perm hi start la offset page s x)
    have ih: "here s0 s \<Longrightarrow> stays s0 (f em fd pd perm hi start la offset page s)" for em fd pd perm hi start la offset page s
      by (rule stays_raw) (rule 1(1))
    have "stays s0 (Some x)"
      unfolding 1(2) [symmetric] Let_def
      by (assumption | rule stepwise here_step ih 1(3) page_stays | rule after_any)+
    then show ?case by (simp split: prod.splits)
  qed
qed

lemma load_bss_stays: "here s0 s \<Longrightarrow> stays s0 (load_bss pd perm hi start la s)"
proof (rule stays_raw)
  fix s :: "'a kernel_scheme" and x assume l: "load_bss pd perm hi start la s = Some x"
  show "here s0 s \<longrightarrow> here s0 (snd x)"
  proof (rule load_bss.raw_induct [OF _ l, of "\<lambda>pd perm hi start la s x. here s0 s \<longrightarrow> here s0 (snd x)"], rule impI, goal_cases)
    case (1 f pd perm hi start la s x)
    have ih: "here s0 s \<Longrightarrow> stays s0 (f pd perm hi start la s)" for pd perm hi start la s
      by (rule stays_raw) (rule 1(1))
    have "stays s0 (Some x)"
      unfolding 1(2) [symmetric] Let_def
      by (assumption | rule stepwise here_step ih 1(3) page_stays | rule after_any)+
    then show ?case by (simp split: prod.splits)
  qed
qed

lemma clear_bss_stays: "here s0 s \<Longrightarrow> stays s0 (clear_bss pd perm hi start la page s)"
  unfolding clear_bss_def Let_def
  by (assumption | rule stepwise page_stays load_bss_stays | rule after_any)+

lemma map_area_stays: "here s0 s \<Longrightarrow> stays s0 (map_area em m addr len fl s)"
  unfolding map_area_def by (assumption | rule stepwise here_step | rule after_any)+

lemma load_segment_stays: "here s0 s \<Longrightarrow> stays s0 (load_segment em fd m ph s)"
  unfolding load_segment_def Let_def
  by (assumption | rule stepwise clear_bss_stays stays_bind(1) [OF map_area_stays] stays_bind(1) [OF load_text_stays] | rule after_any)+

lemma load_segments_stays: "here s0 s \<Longrightarrow> stays s0 (load_segments em fd m phoff is s)"
proof (induction "is" arbitrary: s)
  case Nil
  then show ?case by simp
next
  case (Cons i "is")
  show ?case unfolding load_segments.simps Let_def
    by (assumption | rule stepwise page_stays stays_bind(1) [OF load_segment_stays] Cons.IH Cons.prems)+
qed

lemma setup_stack_stays: "here s0 s \<Longrightarrow> stays s0 (setup_stack em m s)"
  unfolding setup_stack_def
  by (assumption | rule stepwise page_stays stays_bind(1) [OF map_area_stays] | rule after_any)+

lemma user_frame_stays: "here s0 s \<Longrightarrow> stays s0 (user_frame m a s)"
  unfolding user_frame_def by (assumption | rule stepwise here_step | rule after_any)+

lemma user_stores_stays: "here s0 s \<Longrightarrow> stays1 s0 (user_stores m a bs s)"
proof (induction bs arbitrary: a s)
  case (Cons b bs)
  show ?case unfolding user_stores.simps
    by (assumption | rule stepwise here_step stays_bind(1) [OF user_frame_stays] Cons.IH Cons.prems)+
qed simp

lemma put_args_stays: "here s0 s \<Longrightarrow> stays1 s0 (put_args m tp uargv n xs s)"
proof (induction xs arbitrary: uargv n s)
  case (Cons x xs)
  show ?case unfolding put_args.simps
    by (assumption | rule stepwise stays_bind(3) [OF user_stores_stays] Cons.IH Cons.prems)+
qed simp

lemma place_mm: "place (x\<lparr>p_mm := m\<rparr>) = place x" "place (x\<lparr>p_cr3 := c\<rparr>) = place x"
  by simp_all

lemma enter_image_stays: "here s0 s \<Longrightarrow> stays1 s0 (enter_image sstatus m pc argv s)"
  unfolding enter_image_def Let_def
  by (assumption | rule stepwise here_step here_step_upd place_mm stays_bind(3) [OF put_args_stays] stays_bind(3) [OF user_stores_stays] | rule after_any)+

lemma put_pgdir_stays: "here s0 s \<Longrightarrow> stays1 s0 (put_pgdir m s)"
  by (rule afterI) (auto simp: here_def dest: put_pgdir_beside elim: beside_trans)

lemma cleanup_pgdir_stays: "here s0 s \<Longrightarrow> stays s0 (cleanup_pgdir m e s)"
  unfolding cleanup_pgdir_def by (assumption | rule stepwise stays_bind(3) [OF put_pgdir_stays] | rule after_any)+

lemma cleanup_mmap_stays: "here s0 s \<Longrightarrow> stays s0 (cleanup_mmap m e s)"
  unfolding cleanup_mmap_def by (assumption | rule cleanup_pgdir_stays here_step | rule after_any)+

lemma setup_pgdir_stays: "here s0 s \<Longrightarrow> stays s0 (setup_pgdir m s)"
  by (rule afterI) (auto simp: here_def dest: setup_pgdir_beside elim: beside_trans)

lemma load_icode_stays: "here s0 s \<Longrightarrow> stays s0 (load_icode em sstatus fd argv s)"
  unfolding load_icode_def Let_def
  by (assumption | rule stepwise here_step stays_bind(1) [OF setup_pgdir_stays] page_stays cleanup_pgdir_stays cleanup_mmap_stays stays_bind(1) [OF load_segments_stays]
      stays_bind(1) [OF setup_stack_stays] stays_bind(3) [OF enter_image_stays] | rule after_any)+

lemma close_files_stays: "here s0 s \<Longrightarrow> stays1 s0 (close_files s)"
  unfolding close_files_def by (assumption | rule stepwise here_step | rule after_any)+

lemma drop_mm_stays: "here s0 s \<Longrightarrow> stays1 s0 (drop_mm m s)"
  by (rule afterI) (auto simp: here_def dest: drop_mm_beside elim: beside_trans)

section \<open>The process layer\<close>

definition init_alive :: "'a kernel_scheme \<Rightarrow> bool" where
  "init_alive s \<longleftrightarrow> (\<exists>i. initproc s = Some i \<and> p_state (procs s i) \<noteq> PROC_ZOMBIE)"

text \<open>The timers belong to processes of the table.\<close>

definition timers_live :: "'a kernel_scheme \<Rightarrow> bool" where
  "timers_live s \<longleftrightarrow> (\<forall>t \<in> set (timer_list s). \<forall>p. timer_proc s t = Some p \<longrightarrow> p \<in> family s)"

text \<open>The scheduling class does not look at the clock and at whose timers there are either.\<close>

locale trap_queue = proc_queue sc rq_inv queued
  for sc :: "machine sched_class" and rq_inv and queued +
  assumes clock_inv: "rq_inv s \<Longrightarrow> rq_inv (s\<lparr>timer_proc := tp, ticks := n\<rparr>) \<and> queued (s\<lparr>timer_proc := tp, ticks := n\<rparr>) = queued s"
begin

definition sys_ok :: "machine \<Rightarrow> bool" where
  "sys_ok s \<longleftrightarrow> life_ok s \<and> init_alive s"

lemma sys_okD:
  assumes "sys_ok s"
  shows "tree_ok s" "pids_ok s" "sched_ok s" "queued s \<subseteq> set (proc_list s)" "current s \<in> family s"
    "p_state (procs s (current s)) \<noteq> PROC_ZOMBIE" "p_state (procs s (idleproc s)) \<noteq> PROC_ZOMBIE" "init_alive s" "life_ok s"
    "rq_inv s" "current s \<notin> queued s" "idleproc s \<notin> queued s"
  using assms by (auto simp: sys_ok_def life_ok_def procs_ok_def sched_ok_def)

lemma beside_ok: "beside p s t \<Longrightarrow> sys_ok s \<Longrightarrow> sys_ok t"
proof -
  assume b: "beside p s t" and s: "sys_ok s"
  have "p_state (procs t q) = p_state (procs s q)" for q by (rule place_fields(1) [OF beside_place [OF b]])
  then show "sys_ok t" using beside_life [OF b] beside_fields(4) [OF b] s by (simp add: sys_ok_def init_alive_def)
qed

lemma here_ok: "here s t \<Longrightarrow> sys_ok s \<Longrightarrow> sys_ok t"
  unfolding here_def by (rule beside_ok)

text \<open>Nobody becomes a zombie and the links stay.\<close>

lemma core_ok:
  assumes s: "sys_ok s" and k: "kin_same s t"
    and st: "\<And>q. p_state (procs t q) = PROC_ZOMBIE \<Longrightarrow> p_state (procs s q) = PROC_ZOMBIE"
    and c: "current t \<in> family s" "p_state (procs t (current t)) \<noteq> PROC_ZOMBIE"
    and q: "sched_ok t" "queued t \<subseteq> set (proc_list s)"
  shows "sys_ok t"
proof -
  note d = sys_okD [OF s]
  have f: "family t = family s" "proc_list t = proc_list s" "idleproc t = idleproc s" "initproc t = initproc s"
    using kin_same_family [OF k] k by (simp_all add: kin_same_def)
  have "tree_ok t" by (rule kin_same_tree_ok [OF k d(1)]) (use st in blast)
  moreover have "pids_ok t" by (rule kin_same_pids_ok [OF k d(2)])
  moreover have "init_alive t" using d(8) st by (auto simp: init_alive_def f)
  ultimately show ?thesis using c q d(7) st by (auto simp: sys_ok_def life_ok_def procs_ok_def f)
qed

lemma clock_ok:
  assumes s: "sys_ok s"
  shows "sys_ok (s\<lparr>timer_proc := tp, ticks := n\<rparr>)" (is "sys_ok ?t")
proof -
  note d = sys_okD [OF s]
  have q: "rq_inv ?t" "queued ?t = queued s" using clock_inv [where s = s and tp = tp and n = n] d(10) by simp_all
  have k: "kin_same s ?t" by (simp add: kin_same_def)
  have "sched_ok ?t" using d(3) q unfolding sched_ok_def by simp
  then show ?thesis by (rule core_ok [OF s k, rotated 3]) (use d(4-6) q(2) in simp_all)
qed

lemma timer_lists_ok:
  assumes s: "sys_ok s"
  shows "sys_ok (s\<lparr>timer_expires := e, timer_list := l\<rparr>)" (is "sys_ok ?t")
proof -
  note d = sys_okD [OF s]
  have q: "rq_inv ?t" "queued ?t = queued s" using timers_inv [where s = s and e = e and l = l] d(10) by simp_all
  have k: "kin_same s ?t" by (simp add: kin_same_def)
  have "sched_ok ?t" using d(3) q unfolding sched_ok_def by simp
  then show ?thesis by (rule core_ok [OF s k, rotated 3]) (use d(4-6) q(2) in simp_all)
qed

lemma schedule_sys: "sys_ok s \<Longrightarrow> after (schedule sc s) sys_ok"
proof (rule afterI)
  fix t assume s: "sys_ok s" and t: "schedule sc s = Some t"
  note d = sys_okD [OF s]
  obtain u where "schedule sc s = Some u" "sched_ok u" "\<And>q. p_state (procs u q) = p_state (procs s q)"
    "if ready s = {} then current u = idleproc s \<and> queued u = {} else current u \<in> ready s \<and> queued u = ready s - {current u}"
    using schedule_ok [OF d(3)] by blast
  then have u: "sched_ok t" "\<And>q. p_state (procs t q) = p_state (procs s q)"
    "if ready s = {} then current t = idleproc s \<and> queued t = {} else current t \<in> ready s \<and> queued t = ready s - {current t}"
    using t by auto
  have r: "ready s \<subseteq> set (proc_list s)" "\<And>q. q \<in> ready s \<Longrightarrow> p_state (procs s q) \<noteq> PROC_ZOMBIE"
    using d(3,4,5) by (auto simp: ready_def family_def sched_ok_def split: if_splits)
  show "sys_ok t"
  proof (rule core_ok [OF s schedule_kin [OF t]])
    show "current t \<in> family s" using u(3) r(1) by (auto simp: family_def split: if_splits)
    show "p_state (procs t (current t)) \<noteq> PROC_ZOMBIE" using u(2,3) r(2) d(7) by (auto split: if_splits)
    show "queued t \<subseteq> set (proc_list s)" using u(3) r(1) by (auto split: if_splits)
  qed (use u in simp_all)
qed

lemma wakeup_sys:
  assumes s: "sys_ok s" and p: "p \<in> family s" and t: "wakeup_proc sc p s = Some t"
  shows "sys_ok t" "family t = family s" "timer_list t = timer_list s" "timer_proc t = timer_proc s" "timer_expires t = timer_expires s"
proof -
  note d = sys_okD [OF s]
  have z: "p_state (procs s p) \<noteq> PROC_ZOMBIE" using t by (auto simp: wakeup_proc_def kassert_def split: if_splits)
  obtain u where "wakeup_proc sc p s = Some u" "sched_ok u" "current u = current s" "timer_list u = timer_list s"
    "timer_proc u = timer_proc s" "timer_expires u = timer_expires s"
    "\<And>q. p_state (procs u q) = (if q = p then PROC_RUNNABLE else p_state (procs s q))"
    "queued u = (if p_state (procs s p) \<noteq> PROC_RUNNABLE \<and> p \<noteq> current s \<and> p \<noteq> idleproc s then insert p (queued s) else queued s)"
    using wakeup_ok [OF d(3) z] by auto
  then have u: "sched_ok t" "current t = current s" "timer_list t = timer_list s" "timer_proc t = timer_proc s" "timer_expires t = timer_expires s"
    "\<And>q. p_state (procs t q) = (if q = p then PROC_RUNNABLE else p_state (procs s q))"
    "queued t = (if p_state (procs s p) \<noteq> PROC_RUNNABLE \<and> p \<noteq> current s \<and> p \<noteq> idleproc s then insert p (queued s) else queued s)"
    using t by auto
  note k = wakeup_kin [OF t]
  show "sys_ok t"
    by (rule core_ok [OF s k]) (use u d(4-6) p in \<open>auto simp: family_def split: if_splits\<close>)
  show "family t = family s" "timer_list t = timer_list s" "timer_proc t = timer_proc s" "timer_expires t = timer_expires s"
    using kin_same_family [OF k] u by simp_all
qed

lemma do_exit_sys: "sys_ok s \<Longrightarrow> after (do_exit sc code s) sys_ok"
proof (rule afterI)
  fix t assume s: "sys_ok s" and t: "do_exit sc code s = Some t"
  note d = sys_okD [OF s]
  obtain i where i: "initproc s = Some i" "p_state (procs s i) \<noteq> PROC_ZOMBIE" using d(8) by (auto simp: init_alive_def)
  have c: "current s \<noteq> idleproc s" "i \<noteq> current s" using t i(1) by (auto simp: do_exit_def kassert_def split: if_splits)
  obtain m where m: "exit_mem s = Some m" using t by (auto simp: do_exit_def bind_eq_Some_conv)
  obtain u where "do_exit sc code s = Some u" "life_ok u" "initproc u = initproc s"
    "\<forall>q. q \<noteq> current s \<longrightarrow> p_state (procs u q) = p_state (procs s q) \<or> p_state (procs u q) = PROC_RUNNABLE"
    using do_exit_ok [OF d(9) c(1) i(1) c(2) i(2) m] by blast
  then show "sys_ok t" using t i c(2) by (auto simp: sys_ok_def init_alive_def)
qed

lemma do_fork_sys:
  assumes "sys_ok s" "\<And>p. fm_proc fm = Some p \<Longrightarrow> p \<notin> family s"
  shows "after (do_fork sc fm fl stk tf s) (\<lambda>(r, t). sys_ok t)"
proof (rule afterI, clarify)
  fix r t assume t: "do_fork sc fm fl stk tf s = Some (r, t)"
  note d = sys_okD [OF assms(1)]
  obtain i where i: "initproc s = Some i" "p_state (procs s i) \<noteq> PROC_ZOMBIE" using d(8) by (auto simp: init_alive_def)
  have "i \<in> family s" using d(1) i(1) by (auto simp: tree_ok_def family_def)
  then have n: "fm_proc fm \<noteq> Some i" using assms(2) by blast
  have "life_ok t" "initproc t = initproc s" "\<forall>q. fm_proc fm \<noteq> Some q \<longrightarrow> p_state (procs t q) = p_state (procs s q)"
    using do_fork_ok [OF d(9) assms(2) t] by simp_all
  then show "sys_ok t" using i n by (auto simp: sys_ok_def init_alive_def)
qed

text \<open>The current process changes its own state.\<close>

lemma set_current_ok:
  assumes s: "sys_ok s" and f: "\<And>x. p_rq (f x) = p_rq x" "\<And>x. p_parent (f x) = p_parent x \<and> p_cptr (f x) = p_cptr x \<and> p_yptr (f x) = p_yptr x
      \<and> p_optr (f x) = p_optr x \<and> p_pid (f x) = p_pid x \<and> ident (f x) = ident x" "\<And>x. p_state x \<noteq> PROC_ZOMBIE \<Longrightarrow> p_state (f x) \<noteq> PROC_ZOMBIE"
  shows "sys_ok (upd (current s) f s)"
proof -
  note d = sys_okD [OF s]
  have "rq_inv (upd (current s) f s) \<and> queued (upd (current s) f s) = queued s" by (rule upd_inv [OF d(10)]) (rule f)
  then have q: "sched_ok (upd (current s) f s)" "queued (upd (current s) f s) = queued s"
    using d(3,11) by (auto simp: sched_ok_def)
  have "p_state (f (procs s (current s))) \<noteq> PROC_ZOMBIE" by (rule f(3) [OF d(6)])
  then show ?thesis
    by (intro core_ok [OF s]) (use f(2) q d in \<open>auto simp: kin_same_def split: if_splits\<close>)
qed

text \<open>What the other processes do while this one sleeps keeps the invariant.\<close>

definition fair_others :: "(machine \<Rightarrow> machine option) \<Rightarrow> bool" where
  "fair_others others \<longleftrightarrow> (\<forall>t u. sys_ok t \<longrightarrow> others t = Some u \<longrightarrow> sys_ok u)"

lemma others_sys: "fair_others others \<Longrightarrow> sys_ok s \<Longrightarrow> after (others s) sys_ok"
  by (simp add: fair_others_def after_def)

text \<open>Waiting.\<close>

lemma reap_sys:
  assumes s: "sys_ok s" and p: "p \<in> set (proc_list s)" "p_state (procs s p) = PROC_ZOMBIE"
  shows "after (reap cs p s) (\<lambda>(st, t). sys_ok t)"
proof (rule afterI, clarify)
  fix st t assume "reap cs p s = Some (st, t)"
  from reap_ok [OF sys_okD(9) [OF s] p this] sys_okD(8) [OF s] show "sys_ok t"
    by (auto simp: sys_ok_def init_alive_def)
qed

lemma wait_loop_sys:
  assumes "fair_others others" "sys_ok s"
  shows "after (wait_loop sc others pid s) (\<lambda>(e, t). sys_ok t \<and> (\<forall>p. e = Found p \<longrightarrow> p \<in> set (proc_list t) \<and> p_state (procs t p) = PROC_ZOMBIE))"
proof (rule afterI)
  fix x assume l: "wait_loop sc others pid s = Some x"
  let ?P = "\<lambda>sc' oth pid s x. sc' = sc \<and> fair_others oth \<and> sys_ok s \<longrightarrow>
    (case x of (e, t) \<Rightarrow> sys_ok t \<and> (\<forall>p. e = Found p \<longrightarrow> p \<in> set (proc_list t) \<and> p_state (procs t p) = PROC_ZOMBIE))"
  have "?P sc others pid s x"
  proof (rule wait_loop.raw_induct [OF _ l, of ?P], rule impI, goal_cases)
    case (1 f sc' oth pid s x)
    then have sc: "sc' = sc" and o: "fair_others oth" and s: "sys_ok s" by simp_all
    note l = 1(2) [unfolded sc]
    let ?a = "upd (current s) (\<lambda>x. x\<lparr>p_wait_state := WT_CHILD\<rparr>) (upd (current s) (\<lambda>x. x\<lparr>p_state := PROC_SLEEPING\<rparr>) s)"
    have sl: "sys_ok (upd (current s) (\<lambda>x. x\<lparr>p_state := PROC_SLEEPING\<rparr>) s)"
      by (rule set_current_ok [OF s]) (simp_all add: ident_def)
    have a: "sys_ok ?a"
      using set_current_ok [OF sl, of "\<lambda>x. x\<lparr>p_wait_state := WT_CHILD\<rparr>"] by (simp add: ident_def)
    obtain z where z: "wait_pick pid s = Some (awaited s pid \<noteq> {}, z)"
      "case z of None \<Rightarrow> \<forall>p \<in> awaited s pid. p_state (procs s p) \<noteq> PROC_ZOMBIE
        | Some p \<Rightarrow> p \<in> awaited s pid \<and> p_state (procs s p) = PROC_ZOMBIE"
      using wait_pick_ok sys_okD(9) [OF s] unfolding life_ok_def by blast
    show ?case
    proof (cases z)
      case (Some p)
      then have "x = (Found p, s)" using l z(1) by simp
      then show ?thesis using z(2) Some s by (auto simp: awaited_def offspring_def)
    next
      case None
      show ?thesis
      proof (cases "awaited s pid = {}")
        case True
        then have "x = (No_child, s)" using l z(1) None by simp
        then show ?thesis using s by simp
      next
        case False
        have e: "do { t \<leftarrow> schedule sc ?a; u \<leftarrow> oth t;
            if p_flags (procs u (current u)) AND PF_EXITING \<noteq> 0
            then do { v \<leftarrow> do_exit sc (- 9) u; Some (Killed, v) } else f sc oth pid u } = Some x"
          using l z(1) None False by (simp add: Let_def)
        then obtain t u where u: "schedule sc ?a = Some t" "oth t = Some u"
          "(if p_flags (procs u (current u)) AND PF_EXITING \<noteq> 0
            then do { v \<leftarrow> do_exit sc (- 9) u; Some (Killed, v) } else f sc oth pid u) = Some x"
          by (auto simp: bind_eq_Some_conv)
        have uo: "sys_ok u" using afterD [OF schedule_sys [OF a] u(1)] o u(2) by (auto simp: fair_others_def)
        show ?thesis
        proof (cases "p_flags (procs u (current u)) AND PF_EXITING \<noteq> 0")
          case True
          then show ?thesis using u(3) afterD [OF do_exit_sys [OF uo]] by (auto simp: bind_eq_Some_conv)
        next
          case False
          then show ?thesis using u(3) 1(1) [of sc oth pid u x] o uo sc by simp
        qed
      qed
    qed
  qed
  then show "case x of (e, t) \<Rightarrow> sys_ok t \<and> (\<forall>p. e = Found p \<longrightarrow> p \<in> set (proc_list t) \<and> p_state (procs t p) = PROC_ZOMBIE)"
    using assms by simp
qed

lemma do_wait_sys:
  assumes "fair_others others" "sys_ok s"
  shows "after (do_wait sc others pid cs s) (\<lambda>(r, t). sys_ok t)"
proof -
  have m: "sys_ok (case mm of (Some m, Some x) \<Rightarrow> upd_mm m x s | _ \<Rightarrow> s)" for mm :: "nat option \<times> mm_struct option"
    using here_ok [OF here_set(3) assms(2)] assms(2) by (auto split: option.split prod.split)
  let ?e = "case cs of None \<Rightarrow> (True, s)
      | Some a \<Rightarrow> (case user_mem_check (map_option (mms s) (p_mm (procs s (current s)))) a 4 True of
           (ok, mm) \<Rightarrow> (ok, case (p_mm (procs s (current s)), mm) of (Some m, Some mm) \<Rightarrow> upd_mm m mm s | _ \<Rightarrow> s))"
  obtain ok t where t: "?e = (ok, t)" by (metis surj_pair)
  have "sys_ok t"
  proof (cases cs)
    case None
    then show ?thesis using t assms(2) by simp
  next
    case (Some a)
    obtain b mm where u: "user_mem_check (map_option (mms s) (p_mm (procs s (current s)))) a 4 True = (b, mm)" by (metis surj_pair)
    show ?thesis using t m [of "(p_mm (procs s (current s)), mm)"] by (simp add: Some u)
  qed
  then have w: "after (wait_loop sc others pid t) (\<lambda>(e, t). sys_ok t \<and> (\<forall>p. e = Found p \<longrightarrow> p \<in> set (proc_list t) \<and> p_state (procs t p) = PROC_ZOMBIE))"
    by (rule wait_loop_sys [OF assms(1)])
  have d: "do_wait sc others pid cs s = (if \<not> ok then Some (Some (Inl E_INVAL), t)
         else do {
           (e, s) \<leftarrow> wait_loop sc others pid t;
           (case e of
              No_child \<Rightarrow> Some (Some (Inl E_BAD_PROC), s)
            | Killed \<Rightarrow> Some (None, s)
            | Found p \<Rightarrow> do { (st, s) \<leftarrow> reap cs p s; Some (Some (Inr st), s) })
         })"
    unfolding do_wait_def Let_def t by simp
  show ?thesis
    unfolding d
  proof (rule after_cases(1))
    show "after (Some (Some (Inl E_INVAL), t)) (\<lambda>(r, t). sys_ok t)" using \<open>sys_ok t\<close> by simp
    show "after (do {
           (e, s) \<leftarrow> wait_loop sc others pid t;
           (case e of
              No_child \<Rightarrow> Some (Some (Inl E_BAD_PROC), s)
            | Killed \<Rightarrow> Some (None, s)
            | Found p \<Rightarrow> do { (st, s) \<leftarrow> reap cs p s; Some (Some (Inr st), s) })
         }) (\<lambda>(r, t). sys_ok t)"
      by (rule after_bind [OF w]) (auto split: wait_end.split intro!: after_bind [OF reap_sys])
  qed
qed

text \<open>Killing and sleeping.\<close>

lemma do_kill_sys: "sys_ok s \<Longrightarrow> after (do_kill sc pid s) (\<lambda>(r, t). sys_ok t)"
proof (cases "find_proc s pid")
  case None
  then show "sys_ok s \<Longrightarrow> ?thesis" by (simp add: do_kill_def)
next
  case (Some p)
  assume s: "sys_ok s"
  let ?t = "upd p (\<lambda>x. x\<lparr>p_flags := p_flags x OR PF_EXITING\<rparr>) s"
  have p: "p \<in> family ?t" using Some find_proc_ok [OF sys_okD(2) [OF s], of pid p] by (auto simp: family_def)
  have t: "sys_ok ?t" by (rule beside_ok [OF beside_upd [OF _ beside_refl] s]) simp
  show ?thesis using Some wakeup_sys(1) [OF t p] t s
    by (auto simp: do_kill_def Let_def after_def bind_eq_Some_conv split: if_splits)
qed

lemma del_timer_eq: "\<exists>e l. del_timer t s = s\<lparr>timer_expires := e, timer_list := l\<rparr>"
proof (cases "t \<in> set (timer_list s)")
  case False
  then have "del_timer t s = s\<lparr>timer_expires := timer_expires s, timer_list := timer_list s\<rparr>" by (simp add: del_timer_def)
  then show ?thesis by blast
next
  case True
  then show ?thesis unfolding del_timer_def Let_def by (simp only: if_True) blast
qed

lemma add_timer_eq: "add_timer t s = Some s' \<Longrightarrow> \<exists>e l. s' = s\<lparr>timer_expires := e, timer_list := l\<rparr>"
  by (auto simp: add_timer_def bind_eq_Some_conv split: prod.splits)

lemma do_sleep_sys:
  assumes "fair_others others" "sys_ok s"
  shows "after (do_sleep sc others t time s) sys_ok"
proof (cases "time = 0")
  case True
  then show ?thesis using assms(2) by (simp add: do_sleep_def)
next
  case False
  let ?i = "timer_init t (Some (current s)) time s"
  let ?a = "upd (current ?i) (\<lambda>x. x\<lparr>p_state := PROC_SLEEPING\<rparr>) ?i"
  let ?b = "upd (current ?a) (\<lambda>x. x\<lparr>p_wait_state := WT_TIMER\<rparr>) ?a"
  have i: "?i = (s\<lparr>timer_expires := (timer_expires s)(t := time), timer_list := timer_list s\<rparr>)
      \<lparr>timer_proc := (timer_proc s)(t := Some (current s)), ticks := ticks s\<rparr>"
    by (simp add: timer_init_def)
  have "sys_ok ?i" unfolding i by (rule clock_ok [OF timer_lists_ok [OF assms(2)]])
  then have a: "sys_ok ?a" by (rule set_current_ok) (simp_all add: ident_def)
  then have b: "sys_ok ?b" by (rule set_current_ok) (simp_all add: ident_def)
  have d: "do_sleep sc others t time s = do { s \<leftarrow> add_timer t ?b; s \<leftarrow> schedule sc s; s \<leftarrow> others s; Some (del_timer t s) }"
    using False by (simp add: do_sleep_def Let_def)
  show ?thesis unfolding d
  proof (rule after_any)
    fix c assume "add_timer t ?b = Some c"
    then have c: "sys_ok c" using add_timer_eq timer_lists_ok [OF b] by blast
    show "after (do { s \<leftarrow> schedule sc c; s \<leftarrow> others s; Some (del_timer t s) }) sys_ok"
    proof (rule after_bind [OF schedule_sys [OF c]], rule after_bind [OF others_sys [OF assms(1)]], assumption)
      fix u assume "sys_ok u"
      moreover obtain e l where "del_timer t u = u\<lparr>timer_expires := e, timer_list := l\<rparr>" using del_timer_eq by blast
      ultimately show "after (Some (del_timer t u)) sys_ok" using timer_lists_ok by simp
    qed
  qed
qed


text \<open>Loading a program.\<close>

lemma execve_exit_sys: "here s0 s \<Longrightarrow> sys_ok s0 \<Longrightarrow> after (execve_exit sc e um s) (\<lambda>(r, um, t). sys_ok t)"
  unfolding execve_exit_def by (rule after_bind [OF do_exit_sys [OF here_ok]]) simp_all

lemma done_sys: "here s0 s \<Longrightarrow> sys_ok s0 \<Longrightarrow> after (Some (r, um, s)) (\<lambda>(r, um, t). sys_ok t)"
  using here_ok by simp

lemma image_sys:
  assumes i: "here s0 s" and s: "sys_ok s0"
  shows "after (do {
      (ret, s) \<leftarrow> load_icode em sstatus fd kargv s;
      (case ret of
         Inl e \<Rightarrow> execve_exit sc e um s
       | Inr _ \<Rightarrow> do {
           new \<leftarrow> p_mm (procs s (current s));
           pd \<leftarrow> pgdir (mms s new);
           Some (Some (Inr ()), user_view (mem_of s) pd, set_proc_name (current s) (g s) s)
         })
    }) (\<lambda>(r, um, t). sys_ok t)"
proof (rule stays_bind(1) [OF load_icode_stays [OF i]], rule after_cases(3), goal_cases)
  case (1 r t e)
  then show ?case by (intro execve_exit_sys [OF _ s])
next
  case (2 r t x)
  have "here s0 (set_proc_name (current t) (g t) t)" unfolding set_proc_name_def by (rule here_step_upd [OF 2(1)]) simp
  then show ?case by (intro after_any done_sys [OF _ s])
qed

lemma do_execve_sys:
  assumes s: "sys_ok s"
  shows "after (do_execve sc em sstatus name argc argv um s) (\<lambda>(r, um, t). sys_ok t)"
proof -
  have r: "here s s" by simp
  have drop: "stays1 s (case m of None \<Rightarrow> Some u | Some m \<Rightarrow> do { t \<leftarrow> drop_mm m u; Some (upd (current t) (\<lambda>x. x\<lparr>p_mm := None\<rparr>) t) })"
    if "here s u" for m u
  proof (cases m)
    case (Some k)
    have "stays1 s (do { t \<leftarrow> drop_mm k u; Some (upd (current t) (\<lambda>x. x\<lparr>p_mm := None\<rparr>) t) })"
      by (rule stays_bind(3) [OF drop_mm_stays [OF that]], rule stays_Some, erule here_step_upd, rule place_mm)
    then show ?thesis by (simp add: Some)
  qed (use that in simp)
  show ?thesis
    unfolding do_execve_def Let_def
    by (assumption | rule stepwise done_sys [OF _ s] here_step r execve_exit_sys [OF _ s] image_sys [OF _ s]
        | rule stays_bind(3) [OF close_files_stays] stays_bind(2) [OF on_sys_stays] stays_bind(3) [OF drop] | rule after_any)+
qed

section \<open>System calls\<close>

definition handled :: "(mem \<Rightarrow> machine \<Rightarrow> handler_result) \<Rightarrow> machine \<Rightarrow> bool" where
  "handled h s \<longleftrightarrow> (\<forall>um. after (h um s) (\<lambda>(r, um, t). sys_ok t))"

lemma file_call_handled: "sys_ok s \<Longrightarrow> handled (file_call call) s"
  unfolding handled_def file_call_def using here_ok
  by (intro allI stays_bind(2) [OF on_sys_stays [OF here_refl]]) auto

lemma proc_handled:
  assumes s: "sys_ok s" and o: "fair_others (e_others env)"
  shows "handled (sys_exit sc code) s" "handled (sys_wait sc env pid a) s" "handled (sys_exec sc env n c v) s"
    "handled sys_yield s" "handled (sys_kill sc pid) s" "handled sys_getpid s" "handled (sys_putc x) s" "handled sys_pgdir s"
    "handled sys_gettime s" "handled (sys_lab6_set_priority pr) s" "handled (sys_sleep sc env time) s"
proof -
  show "handled (sys_exit sc code) s" unfolding handled_def sys_exit_def
    by (intro allI after_bind [OF do_exit_sys [OF s]]) simp
  show "handled (sys_wait sc env pid a) s" unfolding handled_def sys_wait_def
    by (intro allI after_bind [OF do_wait_sys [OF o s]]) (auto split: option.split sum.split)
  show "handled (sys_exec sc env n c v) s" unfolding handled_def sys_exec_def
    by (intro allI after_bind [OF do_execve_sys [OF s]]) auto
  show "handled (sys_kill sc pid) s" unfolding handled_def sys_kill_def
    by (intro allI after_bind [OF do_kill_sys [OF s]]) auto
  show "handled (sys_sleep sc env time) s" unfolding handled_def sys_sleep_def
    by (intro allI after_bind [OF do_sleep_sys [OF o s]]) simp
  show "handled sys_getpid s" "handled sys_pgdir s" "handled sys_gettime s" 
    using s by (simp_all add: handled_def sys_getpid_def sys_pgdir_def sys_gettime_def)
  show "handled (sys_putc x) s" unfolding handled_def sys_putc_def Let_def using here_ok [OF here_set(4) s] by simp
  have "sys_ok (do_yield s)" unfolding do_yield_def by (rule here_ok [OF here_upd s]) simp
  then show "handled sys_yield s" by (simp add: handled_def sys_yield_def)
  have "sys_ok (lab6_set_priority w s)" for w unfolding lab6_set_priority_def by (rule here_ok [OF here_upd s]) simp
  then show "handled (sys_lab6_set_priority pr) s" by (simp add: handled_def sys_lab6_set_priority_def)
qed

definition fair_env :: "env \<Rightarrow> machine \<Rightarrow> bool" where
  "fair_env env s \<longleftrightarrow> fair_others (e_others env) \<and> (\<forall>p. fm_proc (e_fork env) = Some p \<longrightarrow> p \<notin> family s)"

lemma sys_fork_handled:
  assumes "sys_ok s" "fair_env env s"
  shows "handled (sys_fork sc env) s"
  unfolding handled_def sys_fork_def
  by (intro allI after_any after_bind [OF do_fork_sys [OF assms(1)]]) (use assms(2) in \<open>auto simp: fair_env_def\<close>)

lemma syscalls_handled:
  assumes "sys_ok s" "fair_env env s" "syscalls sc env num arg = Some h"
  shows "handled h s"
proof -
  have f: "handled (file_call call) s" for call by (rule file_call_handled [OF assms(1)])
  have "fair_others (e_others env)" using assms(2) by (simp add: fair_env_def)
  note p = proc_handled [OF assms(1) this] sys_fork_handled [OF assms(1,2)] f
  show ?thesis
    using assms(3) unfolding syscalls_def sys_open_def sys_close_def sys_read_def sys_write_def sys_seek_def sys_fstat_def
      sys_fsync_def sys_getcwd_def sys_getdirentry_def sys_dup_def
    by (auto simp: p split: if_split_asm)
qed

lemma syscall_sys:
  assumes "sys_ok s" "fair_env env s"
  shows "after (syscall sc env um s) (\<lambda>(ok, um, t). sys_ok t)"
proof (rule afterI, clarify)
  fix ok um' t assume "syscall sc env um s = Some (ok, um', t)"
  then have "\<exists>num arg h r u. syscalls sc env num arg = Some h \<and> h um s = Some (r, um', u) \<and> (t = u \<or> (\<exists>f. t = u\<lparr>tfs := f\<rparr>))"
    by (auto simp: syscall_def Let_def bind_eq_Some_conv split: prod.splits option.splits) blast+
  then obtain num arg h r u where h: "syscalls sc env num arg = Some h" "h um s = Some (r, um', u)" "t = u \<or> (\<exists>f. t = u\<lparr>tfs := f\<rparr>)"
    by blast
  have u: "sys_ok u" using syscalls_handled [OF assms h(1)] h(2) unfolding handled_def after_def by auto
  show "sys_ok t" using h(3) u here_ok [OF here_tfs u] by auto
qed

section \<open>Interrupts\<close>

lemma proc_tick_sys:
  assumes s: "sys_ok s"
  shows "sys_ok (sched_class_proc_tick sc p s)" (is "sys_ok ?t")
proof -
  note d = sys_okD [OF s]
  have t: "sched_ok ?t" "core_same s ?t" using tick_inv [OF d(3)] by simp_all
  have k: "kin_same s ?t" using tick_kin by (simp add: sched_class_proc_tick_def) (simp add: kin_same_def ident_def)
  have "rq_inv (upd p (\<lambda>x. x\<lparr>p_need_resched := True\<rparr>) s) \<and> queued (upd p (\<lambda>x. x\<lparr>p_need_resched := True\<rparr>) s) = queued s"
    by (rule upd_inv [OF d(10)]) simp
  then have q: "queued ?t = queued s" using tick_ok [OF d(10), of p] by (auto simp: sched_class_proc_tick_def)
  have c: "current ?t = current s" "p_state (procs ?t x) = p_state (procs s x)" for x using t(2) by (simp_all add: core_same_def)
  show ?thesis by (rule core_ok [OF s k]) (use c q t(1) d(4-6) in simp_all)
qed

lemma del_timer_sys: "sys_ok s \<Longrightarrow> sys_ok (del_timer t s)"
  using del_timer_eq [of t s] timer_lists_ok [of s] by metis

lemma fire_timers_sys:
  "sys_ok s \<Longrightarrow> \<forall>t \<in> set ts. \<forall>p. timer_proc s t = Some p \<longrightarrow> p \<in> family s \<Longrightarrow> after (fire_timers sc ts s) sys_ok"
proof (induction ts arbitrary: s)
  case (Cons t le)
  show ?case
  proof (rule afterI)
    fix u assume u: "fire_timers sc (t # le) s = Some u"
    show "sys_ok u"
    proof (cases "timer_expires s t = 0")
      case True
      then obtain p v where p: "timer_proc s t = Some p" "wakeup_proc sc p s = Some v" "fire_timers sc le (del_timer t v) = Some u"
        using u by (auto simp: bind_eq_Some_conv split: option.splits)
      have f: "p \<in> family s" using Cons.prems(2) p(1) by simp
      note w = wakeup_sys [OF Cons.prems(1) f p(2)]
      obtain e l where dl: "del_timer t v = v\<lparr>timer_expires := e, timer_list := l\<rparr>" using del_timer_eq by blast
      have "family (del_timer t v) = family s" "timer_proc (del_timer t v) = timer_proc s" using w(2,4) by (simp_all add: dl family_def)
      then show ?thesis
        using afterD [OF Cons.IH [OF del_timer_sys [OF w(1), of t]] p(3)] Cons.prems(2) by simp
    qed (use u Cons.prems in simp)
  qed
qed simp

lemma run_timer_list_sys:
  assumes s: "sys_ok s" and l: "timers_live s"
  shows "after (run_timer_list sc s) sys_ok"
proof (rule afterI)
  fix u assume u: "run_timer_list sc s = Some u"
  then obtain v where v: "u = sched_class_proc_tick sc (current v) v" "v = s \<or> (\<exists>e. fire_timers sc (timer_list s) (s\<lparr>timer_expires := e\<rparr>) = Some v)"
    by (cases "timer_list s") (auto simp: run_timer_list_def bind_eq_Some_conv simp del: fire_timers.simps)
  have "sys_ok v"
  proof (cases "v = s")
    case False
    then obtain e where e: "fire_timers sc (timer_list s) (s\<lparr>timer_expires := e\<rparr>) = Some v" using v(2) by blast
    have "sys_ok (s\<lparr>timer_expires := e\<rparr>)" using timer_lists_ok [OF s, where e = e and l = "timer_list s"] by simp
    moreover have "\<forall>t \<in> set (timer_list s). \<forall>p. timer_proc (s\<lparr>timer_expires := e\<rparr>) t = Some p \<longrightarrow> p \<in> family (s\<lparr>timer_expires := e\<rparr>)"
      using l by (simp add: timers_live_def family_def)
    ultimately show ?thesis using afterD [OF fire_timers_sys e] by blast
  qed (use s in simp)
  then show "sys_ok u" unfolding v(1) by (rule proc_tick_sys)
qed

lemma interrupt_sys:
  assumes s: "sys_ok s" and l: "timers_live s"
  shows "after (interrupt_handler sc env tf s) sys_ok"
proof -
  let ?u = "s\<lparr>ticks := (ticks s + 1) mod 2 ^ 64\<rparr>"
  have u: "sys_ok ?u" using clock_ok [OF s, where tp = "timer_proc s" and n = "(ticks s + 1) mod 2 ^ 64"] by simp
  have "timers_live ?u" using l by (simp add: timers_live_def family_def)
  note r = run_timer_list_sys [OF u this]
  show ?thesis
    unfolding interrupt_handler_def Let_def
    by (rule after_cases(1), rule after_bind [OF r]) (use here_ok [OF here_set(4)] s in auto)
qed

section \<open>Traps\<close>

lemma pgfault_stays: "here s0 s \<Longrightarrow> after (pgfault_handler tf um s) (\<lambda>(r, um, t). here s0 t)"
  unfolding pgfault_handler_def Let_def
  by (assumption | rule stepwise here_step | rule after_any)+

lemma step_epc_sys: "sys_ok s \<Longrightarrow> sys_ok (step_epc p s)" "family (step_epc p s) = family s"
  unfolding step_epc_def by (erule here_ok [OF here_tfs]) (simp add: family_def)

lemma exception_sys:
  assumes s: "sys_ok s" and e: "fair_env env s"
  shows "after (exception_handler sc env tf um s) (\<lambda>(out, um, t). sys_ok t)"
proof -
  have f: "fair_env env (step_epc p s)" for p using e by (simp add: fair_env_def step_epc_sys)
  have c: "after (do { (ok, um, s) \<leftarrow> syscall sc env um (step_epc (current s) s); Some (g ok, um, s) }) (\<lambda>(out, um, t). sys_ok t)" for g :: "bool \<Rightarrow> outcome"
    by (rule after_bind [OF syscall_sys [OF step_epc_sys(1) [OF s] f]]) auto
  have p: "after (do { (ret, um, s) \<leftarrow> pgfault_handler tf um s; kassert (ret = Inr ()); Some (Back, um, s) }) (\<lambda>(out, um, t). sys_ok t)"
    by (rule after_bind [OF pgfault_stays [OF here_refl]]) (use here_ok [OF _ s] in \<open>auto intro!: after_any\<close>)
  show ?thesis
    unfolding exception_handler_def Let_def
    using c p s by (auto intro!: after_cases(1))
qed

lemma trap_sys:
  assumes s: "sys_ok s" and e: "fair_env env s" and l: "timers_live s"
  shows "after (trap sc env tf um s) (\<lambda>(r, um, t). sys_ok t)"
proof -
  let ?s = "s\<lparr>tfs := (tfs s)(current s := Some tf)\<rparr>"
  have q: "sys_ok ?s" by (rule here_ok [OF here_tfs s])
  have "fair_env env ?s" "timers_live ?s" using e l by (simp_all add: fair_env_def timers_live_def family_def)
  note x = exception_sys [OF q this(1)] interrupt_sys [OF q this(2)]
  have d: "after (trap_dispatch sc env tf um ?s) (\<lambda>(out, um, t). sys_ok t)"
    unfolding trap_dispatch_def by (rule after_cases(1), rule after_bind [OF x(2)]) (use x(1) in simp_all)
  have o: "after (do { t \<leftarrow> (if b then do { s \<leftarrow> schedule sc t; e_others env s } else Some t); Some (r, um, t) }) (\<lambda>(r, um, t). sys_ok t)"
    if t: "sys_ok t" for b t um and r :: "trapframe option"
  proof -
    have "after (if b then do { s \<leftarrow> schedule sc t; e_others env s } else Some t) sys_ok"
      by (rule after_cases(1), rule after_bind [OF schedule_sys [OF t]])
        (use e t others_sys in \<open>simp_all add: fair_env_def\<close>)
    then show ?thesis by (rule after_bind) simp
  qed
  show ?thesis
    unfolding trap_def Let_def
  proof (rule after_bind [OF d], clarify)
    fix out um t assume t: "sys_ok t"
    let ?t = "t\<lparr>tfs := (tfs t)(current s := tfs s (current s))\<rparr>"
    have v: "sys_ok ?t" by (rule here_ok [OF here_tfs t])
    have x: "after (do { u \<leftarrow> do_exit sc c ?t; Some (None, um, u) }) (\<lambda>(r, um, t). sys_ok t)" for c
      by (rule after_bind [OF do_exit_sys [OF v]]) simp
    show "after (case out of Ended \<Rightarrow> Some (None, um, t) | To_program \<Rightarrow> Some (tfs t (current s), um, t)
      | Back \<Rightarrow> if trap_in_kernel tf then Some (tfs t (current s), um, ?t)
          else if p_flags (procs ?t (current ?t)) AND PF_EXITING \<noteq> 0 then do { u \<leftarrow> do_exit sc (- errno_code E_KILLED) ?t; Some (None, um, u) }
          else do { u \<leftarrow> (if p_need_resched (procs ?t (current ?t)) then do { s \<leftarrow> schedule sc ?t; e_others env s } else Some ?t);
                 Some (tfs t (current s), um, u) }) (\<lambda>(r, um, t). sys_ok t)"
    proof (cases out)
      case Back
      show ?thesis
        unfolding Back outcome.case
        by (rule after_cases(1), use v in simp, rule after_cases(1), rule x, rule o [OF v])
    qed (use t in simp_all)
  qed
qed

end

end
