(* ===== verification/Proc_Props.thy ===== *)
theory Proc_Props
  imports Proc_Life
begin

text \<open>
  The process layer under the stride scheduler and under round robin, and what it promises to the
  rest of the kernel.
\<close>

interpretation stride_proc: proc_queue stride_sched_class stride_inv stride_queued
proof (intro proc_queue.intro stride_kin.kin_queue_axioms proc_queue_axioms.intro)
  fix s :: "'a kernel_scheme" and a b c d e g
  show "stride_inv s \<Longrightarrow> stride_inv (s\<lparr>mem_of := a, mms := b, kfs := c, filess := d, tfs := e, ctxs := g\<rparr>)
      \<and> stride_queued (s\<lparr>mem_of := a, mms := b, kfs := c, filess := d, tfs := e, ctxs := g\<rparr>) = stride_queued s"
    by (simp add: stride_inv_def stride_queued_def)
qed

interpretation RR_proc: proc_queue RR_sched_class RR_inv RR_queued
proof (intro proc_queue.intro RR_kin.kin_queue_axioms proc_queue_axioms.intro)
  fix s :: "'a kernel_scheme" and a b c d e g
  show "RR_inv s \<Longrightarrow> RR_inv (s\<lparr>mem_of := a, mms := b, kfs := c, filess := d, tfs := e, ctxs := g\<rparr>)
      \<and> RR_queued (s\<lparr>mem_of := a, mms := b, kfs := c, filess := d, tfs := e, ctxs := g\<rparr>) = RR_queued s"
    by (simp add: RR_inv_def RR_queued_def)
qed

text \<open>
  A state for the examples: \<open>init\<close> is process 1, its child 2 runs, and the child 3 of 2 is dead, its
  kernel stack in pages 600 and 601; pages 700 to 709 are free.
\<close>

definition ex_pool :: pmm where
  "ex_pool = \<lparr>pages = (\<lambda>i. if i = 700 then \<lparr>ref = 0, flags = 2, property = 10\<rparr> else \<lparr>ref = 0, flags = 0, property = 0\<rparr>),
     flinks = \<lparr>prv = (\<lambda>x. if x = FreeList then PageLink 700 else FreeList),
               nxt = (\<lambda>x. if x = FreeList then PageLink 700 else FreeList)\<rparr>,
     nr_free = 10\<rparr>"

lemma ex_pool: "pmm_inv ex_pool" "free_set ex_pool = {700 ..< 710}" "\<not> PageReserved (pages ex_pool i)"
proof -
  have "pmm_ok [700] ex_pool"
    by (auto simp: pmm_ok_def ex_pool_def dlist_def separated_Cons page_flag_defs bit_simps)
  then show "pmm_inv ex_pool" "free_set ex_pool = {700 ..< 710}"
    by (auto simp: pmm_inv_def free_set_ok block_def ex_pool_def)
  show "\<not> PageReserved (pages ex_pool i)"
    by (auto simp: ex_pool_def PageReserved_def PG_reserved_def bit_simps)
qed

definition ex_proc :: "pptr \<Rightarrow> proc_struct" where
  "ex_proc = (\<lambda>_. blank_proc)
     (1 := blank_proc\<lparr>p_pid := 1, p_parent := Some 0, p_cptr := Some 2, p_state := PROC_SLEEPING, p_wait_state := WT_CHILD\<rparr>,
      0 := blank_proc\<lparr>p_cptr := Some 1\<rparr>,
      2 := blank_proc\<lparr>p_pid := 2, p_parent := Some 1, p_cptr := Some 3, p_filesp := Some 0\<rparr>,
      3 := blank_proc\<lparr>p_pid := 3, p_parent := Some 2, p_state := PROC_ZOMBIE, p_kstack := nbase + 600\<rparr>)"

definition ex_phys :: phys where
  "ex_phys = \<lparr>pool = ex_pool, frame = (\<lambda>_ _. 0), swap_dev = \<lparr>valid = True, secs = 2048, store = (\<lambda>_. 0)\<rparr>,
     swap_init_ok = True, pra_list = [], pra_vaddr = (\<lambda>_. 0)\<rparr>"

definition ex_state :: "'a \<Rightarrow> 'a kernel_scheme" where
  "ex_state rest = \<lparr>procs = ex_proc, current = 2, idleproc = 0, run_list = [],
     pool = (\<lambda>_. \<lparr>parent = None, left = None, right = None\<rparr>), run_pool = None, proc_num = 0,
     max_time_slice = MAX_TIME_SLICE, timer_expires = (\<lambda>_. 0), timer_proc = (\<lambda>_. None), timer_list = [],
     proc_list = [3, 2, 1], proc_hash = (\<lambda>b. [p \<leftarrow> [3, 2, 1]. pid_hashfn (p_pid (ex_proc p)) = b]), nr_process = 4,
     initproc = Some 1, next_safe = MAX_PID, last_pid = 3,
     mem_of = ex_phys, mms = (\<lambda>_. \<lparr>mmap_list = [], mmap_cache = None, pgdir = None, map_count = 0, sm_priv = True, mm_count = 1\<rparr>),
     kfs = ex_vfs, filess = (\<lambda>_. ex_files), boot_pgdir = nbase + 512, tfs = (\<lambda>_. None),
     ctxs = (\<lambda>_. \<lparr>ctx_ra = Null_entry, ctx_sp = 0, ctx_s = (\<lambda>_. 0)\<rparr>),
     \<dots> = rest\<rparr>"

abbreviation ex_kernel :: kernel where "ex_kernel \<equiv> ex_state ()"

lemma ex_proc_simps [simp]:
  "ex_proc 0 = blank_proc\<lparr>p_cptr := Some 1\<rparr>"
  "ex_proc (Suc 0) = blank_proc\<lparr>p_pid := 1, p_parent := Some 0, p_cptr := Some 2, p_state := PROC_SLEEPING, p_wait_state := WT_CHILD\<rparr>"
  "ex_proc 2 = blank_proc\<lparr>p_pid := 2, p_parent := Some 1, p_cptr := Some 3, p_filesp := Some 0\<rparr>"
  "ex_proc 3 = blank_proc\<lparr>p_pid := 3, p_parent := Some 2, p_state := PROC_ZOMBIE, p_kstack := nbase + 600\<rparr>"
  by (simp_all add: ex_proc_def)

lemma ex_kernel_simps [simp]:
  "procs (ex_state x) = ex_proc" "current (ex_state x) = 2" "idleproc (ex_state x) = 0" "proc_list (ex_state x) = [3, 2, 1]"
  "nr_process (ex_state x) = 4" "initproc (ex_state x) = Some 1" "last_pid (ex_state x) = 3" "next_safe (ex_state x) = MAX_PID"
  "mem_of (ex_state x) = ex_phys"
  by (simp_all add: ex_state_def)

lemma ex_kernel_tree: "tree_ok (ex_state x)"
proof -
  have off: "offspring (ex_state x) 0 = {1}" "offspring (ex_state x) (Suc 0) = {2}" "offspring (ex_state x) 2 = {3}" "offspring (ex_state x) 3 = {}"
    by (auto simp: offspring_def blank_proc_def) 
  have "kids (ex_state x) 0 [1]" "kids (ex_state x) 1 [2]" "kids (ex_state x) 2 [3]" "kids (ex_state x) 3 []"
    by (simp_all add: kids_def off) (simp_all add: blank_proc_def)
  then have "\<forall>q \<in> family (ex_state x). \<exists>cs. kids (ex_state x) q cs" by (auto simp: family_def)
  then show ?thesis by (simp add: tree_ok_def family_def) (simp add: blank_proc_def)
qed

lemma ex_kernel_life: "stride_proc.life_ok (ex_state x)" "stride_queued (ex_state x) = {}"
proof -
  have h: "is_heap (ksched.pool (ex_state x)) (run_pool (ex_state x)) Leaf" by (simp add: is_heap_def ex_state_def)
  then show q: "stride_queued (ex_state x) = {}" using stride_queued_tree [OF h] by simp
  have "stride_inv (ex_state x)" unfolding stride_inv_def by (rule exI [of _ Leaf]) (use h in \<open>simp add: ex_state_def\<close>)
  then have "stride.sched_ok (ex_state x)" using q by (simp add: stride.sched_ok_def)
  moreover have "pids_ok (ex_state x)"
  proof -
    have "proc_hash (ex_state x) = (\<lambda>b. [p \<leftarrow> [3, 2, 1]. pid_hashfn (p_pid (procs (ex_state x) p)) = b])" by (simp add: ex_state_def)
    then show ?thesis
      by (auto simp: pids_ok_def pids_def pid_inv_def MAX_PID_def MAX_PROCESS_def blank_proc_def)
  qed
  ultimately show "stride_proc.life_ok (ex_state x)"
    using ex_kernel_tree q by (simp add: stride_proc.life_ok_def procs_ok_def family_def) (simp add: blank_proc_def)
qed

section \<open>Properties\<close>

text \<open>
  The states that creations and exits reach, as far as \<open>get_pid\<close> reads them: at boot no process is listed and
  the two statics are \<open>MAX_PID\<close>; a creation lists one more process, under the pid that \<open>get_pid\<close> returned; an
  exit takes a process off the list.
\<close>

inductive pid_run :: "'a ptable_scheme \<Rightarrow> bool" where
  pid_boot: "pids s = [] \<Longrightarrow> last_pid s = MAX_PID \<Longrightarrow> next_safe s = MAX_PID \<Longrightarrow> pid_run s"
| pid_create: "pid_run s \<Longrightarrow> get_pid s = Some (p, t) \<Longrightarrow> pids s' = p # pids s \<Longrightarrow> last_pid s' = last_pid t
    \<Longrightarrow> next_safe s' = next_safe t \<Longrightarrow> pid_run s'"
| pid_exit: "pid_run s \<Longrightarrow> pids s' = remove1 q (pids s) \<Longrightarrow> last_pid s' = last_pid s
    \<Longrightarrow> next_safe s' = next_safe s \<Longrightarrow> pid_run s'"

lemma pid_run_inv: "pid_run s \<Longrightarrow> pid_inv (pids s) (last_pid s) (next_safe s) \<and> distinct (pids s) \<and> set (pids s) \<subseteq> {1 ..< MAX_PID}"
proof (induction rule: pid_run.induct)
  case (pid_boot s)
  then show ?case by (simp add: pid_inv_def MAX_PID_def MAX_PROCESS_def)
next
  case (pid_create s p t s')
  have inv: "pid_inv (pids s) (last_pid s) (next_safe s)" using pid_create.IH by simp
  have "\<not> {1 ..< MAX_PID} \<subseteq> set (pids s)" using get_pid_full [OF inv] pid_create.hyps by auto
  from get_pid_ok [OF inv this] pid_create show ?case by auto
next
  case (pid_exit s s' q)
  then show ?case using set_remove1_subset [of q "pids s"] by (auto simp: pid_inv_def)
qed

text \<open>
  C29. Equivalence: after any sequence of creations and exits, while fewer processes are listed than there are
  pids, \<open>get_pid\<close> with its cached window delivers what the plain search delivers: the next pid, in cyclic order
  after the last one, that no listed process has.  The pids in use stay distinct, and the window stays right for
  the process that gets the new one and after every exit.
\<close>

theorem get_pid_correct:
  assumes "pid_run s" "int (length (pids s)) < MAX_PID - 1"
  shows "\<exists>p ns. get_pid s = Some (p, s\<lparr>last_pid := p, next_safe := ns\<rparr>)
     \<and> next_pid (pids s) (last_pid s) = Some p \<and> distinct (p # pids s) \<and> 0 < p \<and> p < MAX_PID
     \<and> pid_inv (p # pids s) p ns \<and> (\<forall>q. pid_inv (remove1 q (p # pids s)) p ns)"
proof -
  have inv: "pid_inv (pids s) (last_pid s) (next_safe s)" "distinct (pids s)" using pid_run_inv [OF assms(1)] by simp_all
  have "\<not> {1 ..< MAX_PID} \<subseteq> set (pids s)" using pid_exists [OF assms(2)] by (meson atLeastLessThan_iff subsetD)
  from get_pid_ok [OF inv(1) this] obtain p ns where p: "get_pid s = Some (p, s\<lparr>last_pid := p, next_safe := ns\<rparr>)"
    "next_pid (pids s) (last_pid s) = Some p" "p \<notin> set (pids s)" "0 < p" "p < MAX_PID" "pid_inv (p # pids s) p ns" by blast
  have "\<forall>q. pid_inv (remove1 q (p # pids s)) p ns"
    using p(6) set_remove1_subset [of _ "p # pids s"] unfolding pid_inv_def by blast
  moreover have "distinct (p # pids s)" using p(3) inv(2) by simp
  ultimately show ?thesis using p(1,2,4,5,6) by blast
qed

text \<open>
  C30. Termination: the search of \<open>get_pid\<close>, a loop by \<open>goto repeat\<close> with no bound, ends exactly when some
  pid is free; with every pid in use it runs for ever.
\<close>

theorem get_pid_terminates:
  assumes "pid_inv (pids s) (last_pid s) (next_safe s)"
  shows "get_pid s \<noteq> None \<longleftrightarrow> \<not> {1 ..< MAX_PID} \<subseteq> set (pids s)"
  using get_pid_ok [OF assms] get_pid_full [OF assms] by auto


text \<open>
  C31. \<open>do_fork\<close>, whatever the allocators deliver: the family tree, the pids with their hash lists and the
  run queue stay well formed.  A failure reports a full table or missing memory and leaves the table as it
  was; a success adds one process, the youngest child of the caller, runnable, under the next free pid.
\<close>

theorem do_fork_correct:
  assumes "stride_proc.life_ok s" "\<And>p. fm_proc fm = Some p \<Longrightarrow> p \<notin> family s"
    and "do_fork stride_sched_class fm fl stk tf s = Some (r, s')"
  shows "stride_proc.life_ok s' \<and> current s' = current s \<and>
     (case r of
        Inl e \<Rightarrow> e = (if MAX_PROCESS \<le> nr_process s then E_NO_FREE_PROC else E_NO_MEM)
          \<and> proc_list s' = proc_list s \<and> pids s' = pids s \<and> stride_queued s' = stride_queued s
      | Inr pid \<Rightarrow> \<exists>p. fm_proc fm = Some p \<and> next_pid (pids s) (last_pid s) = Some pid \<and> pid \<notin> set (pids s) \<and> 0 < pid
          \<and> proc_list s' = p # proc_list s \<and> p_pid (procs s' p) = pid
          \<and> offspring s' (current s) = insert p (offspring s (current s)) \<and> stride_queued s' = insert p (stride_queued s))"
  using stride_proc.do_fork_ok [OF assms] by blast

text \<open>
  C32. \<open>do_exit\<close> of a process other than the idle process and \<open>init\<close>, once its memory is released: it becomes a
  zombie with its exit code, its children become children of \<open>init\<close>, a parent asleep in \<open>do_wait\<close> becomes
  runnable, another process runs, and the table stays well formed.
\<close>

theorem do_exit_correct:
  assumes "stride_proc.life_ok s" "current s \<noteq> idleproc s"
    and "initproc s = Some ini" "ini \<noteq> current s" "p_state (procs s ini) \<noteq> PROC_ZOMBIE" "exit_mem s = Some t"
  shows "\<exists>s'. do_exit stride_sched_class code s = Some s' \<and> stride_proc.life_ok s' \<and> current s' \<noteq> current s
     \<and> p_state (procs s' (current s)) = PROC_ZOMBIE \<and> p_exit_code (procs s' (current s)) = code
     \<and> proc_list s' = proc_list s \<and> offspring s' ini = offspring s ini \<union> offspring s (current s)
     \<and> (\<forall>q. p_parent (procs s (current s)) = Some q \<and> p_wait_state (procs s q) = WT_CHILD \<longrightarrow> p_state (procs s' q) = PROC_RUNNABLE)"
  using stride_proc.do_exit_ok [OF assms, of code] by blast

text \<open>The state in which a process sleeps for its children.\<close>

definition asleep :: "'a kernel_scheme \<Rightarrow> 'a kernel_scheme" where
  "asleep s = upd (current s) (\<lambda>x. x\<lparr>p_state := PROC_SLEEPING, p_wait_state := WT_CHILD\<rparr>) s"

lemma asleep_upd:
  "upd (current (upd (current s) (\<lambda>x. x\<lparr>p_state := PROC_SLEEPING\<rparr>) s)) (\<lambda>x. x\<lparr>p_wait_state := WT_CHILD\<rparr>)
     (upd (current s) (\<lambda>x. x\<lparr>p_state := PROC_SLEEPING\<rparr>) s) = asleep s"
  by (simp add: asleep_def upd_def)

lemma bind_if: "Option.bind (if b then x else y) f = (if b then Option.bind x f else Option.bind y f)"
  by simp

text \<open>
  \<open>do_wait\<close> without a place for the exit code.  With no child to wait for it reports \<open>E_BAD_PROC\<close>; with a
  dead one it returns as soon as the kernel stack of that child is free, the child gone from the table and its
  pid free again; otherwise it sleeps, gives up the processor and, unless killed meanwhile, starts over.
\<close>

lemma do_wait_correct:
  assumes ok: "stride_proc.life_ok s"
  shows "if awaited s pid = {} then do_wait stride_sched_class others pid None s = Some (Some (Inl E_BAD_PROC), s)
     else if \<exists>p \<in> awaited s pid. p_state (procs s p) = PROC_ZOMBIE then
       (\<exists>p \<in> awaited s pid. p_state (procs s p) = PROC_ZOMBIE
          \<and> do_wait stride_sched_class others pid None s = do { (st, s) \<leftarrow> reap None p s; Some (Some (Inr st), s) }
          \<and> (\<forall>st s'. reap None p s = Some (st, s') \<longrightarrow> stride_proc.life_ok s' \<and> st = None
               \<and> proc_list s' = remove1 p (proc_list s) \<and> find_proc s' (p_pid (procs s p)) = None))
     else do_wait stride_sched_class others pid None s = do {
       t \<leftarrow> schedule stride_sched_class (asleep s);
       u \<leftarrow> others t;
       if p_flags (procs u (current u)) AND PF_EXITING \<noteq> 0
       then do { v \<leftarrow> do_exit stride_sched_class (- 9) u; Some (None, v) }
       else do_wait stride_sched_class others pid None u }"
proof -
  have pk: "procs_ok s" using ok by (simp add: stride_proc.life_ok_def)
  obtain z where z: "wait_pick pid s = Some (awaited s pid \<noteq> {}, z)"
    "case z of None \<Rightarrow> \<forall>p \<in> awaited s pid. p_state (procs s p) \<noteq> PROC_ZOMBIE
        | Some p \<Rightarrow> p \<in> awaited s pid \<and> p_state (procs s p) = PROC_ZOMBIE"
    using wait_pick_ok [OF pk, of pid] by blast
  have w: "do_wait stride_sched_class others pid None s = do {
       (e, s) \<leftarrow> wait_loop stride_sched_class others pid s;
       (case e of
          No_child \<Rightarrow> Some (Some (Inl E_BAD_PROC), s)
        | Killed \<Rightarrow> Some (None, s)
        | Found p \<Rightarrow> do { (st, s) \<leftarrow> reap None p s; Some (Some (Inr st), s) }) }" for s :: "'a kernel_scheme"
    by (simp add: do_wait_def Let_def)
  note step = wait_loop.simps [of stride_sched_class others pid s, unfolded z(1) Option.bind.simps prod.case Let_def asleep_upd]
  show ?thesis
  proof (cases z)
    case None
    then have live: "\<not> (\<exists>p \<in> awaited s pid. p_state (procs s p) = PROC_ZOMBIE)" using z(2) by auto
    show ?thesis
    proof (cases "awaited s pid = {}")
      case True
      then show ?thesis using w [of s] step None by simp
    next
      case False
      have "do_wait stride_sched_class others pid None s = do {
         t \<leftarrow> schedule stride_sched_class (asleep s);
         u \<leftarrow> others t;
         if p_flags (procs u (current u)) AND PF_EXITING \<noteq> 0
         then do { v \<leftarrow> do_exit stride_sched_class (- 9) u; Some (None, v) }
         else do_wait stride_sched_class others pid None u }"
        using False unfolding w step None by (simp add: bind_assoc bind_if cong: if_cong)
      then show ?thesis using False live by simp
    qed
  next
    case (Some p)
    then have p: "p \<in> awaited s pid" "p_state (procs s p) = PROC_ZOMBIE" using z(2) by auto
    then have pl: "p \<in> set (proc_list s)" by (simp add: awaited_def offspring_def)
    have "do_wait stride_sched_class others pid None s = do { (st, s) \<leftarrow> reap None p s; Some (Some (Inr st), s) }"
      using w [of s] step Some by simp
    moreover have "stride_proc.life_ok s' \<and> st = None \<and> proc_list s' = remove1 p (proc_list s) \<and> find_proc s' (p_pid (procs s p)) = None"
      if "reap None p s = Some (st, s')" for st s'
      using stride_proc.reap_ok [OF ok pl p(2) that] by simp
    ultimately show ?thesis using p by auto
  qed
qed



lemma ex_reap: "\<exists>s'. reap None 3 ex_kernel = Some (None, s')"
proof -
  have "\<exists>i \<in> free_set ex_pool. 600 < i" by (rule bexI [of _ 700]) (simp_all add: ex_pool)
  then obtain pl where pl: "default_free_pages 600 2 ex_pool = Some pl"
    using default_free_ok [OF ex_pool(1), of 2 600] by (auto simp: ex_pool)
  have k: "kva2page (nbase + 600) = Some 600"
    by (simp add: kva2page_def PADDR_def kva_def pa2page_def PPN_def nbase_def npage_def PGSIZE_def KERNBASE_def KERNTOP_def
        PHYSICAL_MEMORY_END_def kassert_def unsigned_of_nat unat_drop_bit_eq drop_bit_eq_div take_bit_eq_mod)
  have f: "free_pages 600 KSTACKPAGE ex_phys = Some (ex_phys\<lparr>pool := pl\<rparr>)"
    by (simp add: free_pages_def ex_phys_def pl KSTACKPAGE_def)
  show ?thesis
    by (simp add: reap_def Let_def unhash_proc_def remove_links_def put_kstack_def) (simp add: blank_proc_def k f)
qed


lemma stride_enqueue_empty:
  assumes "run_pool s = None" "p_pid (procs s p) = n"
  shows "\<exists>u. Option.bind (stride_enqueue p s) (\<lambda>t. Some (Inr (p_pid (procs t p)), t)) = Some (Inr n, u)"
  using assms by (simp add: stride_enqueue_def Let_def skew_heap_insert_def skew_heap_merge.simps refill_kin)

definition ex_fm :: fork_mem where
  "ex_fm = \<lparr>fm_proc = Some 4, fm_mm = None, fm_vma = (\<lambda>_. True), fm_files = None\<rparr>"

definition ex_tf :: trapframe where
  "ex_tf = \<lparr>gpr = (\<lambda>_. 0), tf_status = 0, tf_epc = 0, tf_tval = 0, tf_cause = 0\<rparr>"

lemma ex_fork: "\<exists>s'. do_fork stride_sched_class ex_fm (CLONE_VM OR CLONE_FS) 0 ex_tf ex_kernel = Some (Inr 4, s')"
proof -
  obtain r pl where a: "default_alloc_pages 2 ex_pool = Some (r, pl)"
    "case r of None \<Rightarrow> pl = ex_pool \<and> (\<forall>p. \<not> {p ..< p + 2} \<subseteq> free_set ex_pool) | Some p \<Rightarrow> {p ..< p + 2} \<subseteq> free_set ex_pool"
    using default_alloc_spec [OF ex_pool(1), of 2] by (auto split: option.splits)
  have run: "{700 ..< 700 + 2} \<subseteq> free_set ex_pool" by (simp add: ex_pool)
  obtain g where g: "r = Some g" "{g ..< g + 2} \<subseteq> free_set ex_pool"
  proof (cases r)
    case None
    then have "\<forall>p. \<not> {p ..< p + 2} \<subseteq> free_set ex_pool" using a(2) by simp
    then show thesis using run by blast
  qed (use a(2) in simp)
  then have "g < 710" by (auto simp: ex_pool)
  then have k: "page2kva g = Some (g + nbase)"
    by (simp add: page2kva_def KADDR_def page2ppn_def nbase_def npage_def PGSIZE_def KERNTOP_def KERNBASE_def PHYSICAL_MEMORY_END_def kassert_def)
  have f: "alloc_pages KSTACKPAGE ex_phys = Some (Some g, ex_phys\<lparr>pool := pl\<rparr>)"
    by (simp add: alloc_pages_def ex_phys_def a g KSTACKPAGE_def)
  have n: "MAX_PROCESS = 4096" "MAX_PID = 8192" by (simp_all add: MAX_PROCESS_def MAX_PID_def)
  have c: "(CLONE_VM OR CLONE_FS) AND CLONE_FS = CLONE_FS" "CLONE_FS \<noteq> 0" by (simp_all add: CLONE_VM_def CLONE_FS_def)
  have e: "run_pool ex_kernel = None" by (simp add: ex_state_def)
  show ?thesis
    by (simp add: do_fork_def alloc_proc_def ex_fm_def setup_kstack_def copy_mm_def copy_files_def take_files_def upd_files_def
        join_table_def get_pid_def hash_proc_def set_links_def copy_thread_def n f k c Let_def blank_proc_def kassert_def)
      (simp add: wakeup_proc_def sched_class_enqueue_def stride_sched_class_def, rule stride_enqueue_empty, simp_all add: e)
qed


theorem do_fork_correct_witness:
  "\<exists>s'. do_fork stride_sched_class ex_fm (CLONE_VM OR CLONE_FS) 0 ex_tf ex_kernel = Some (Inr 4, s')
     \<and> proc_list s' = [4, 3, 2, 1] \<and> stride_queued s' = {4} \<and> stride_proc.life_ok s'"
proof -
  obtain s' where s': "do_fork stride_sched_class ex_fm (CLONE_VM OR CLONE_FS) 0 ex_tf ex_kernel = Some (Inr 4, s')"
    using ex_fork by blast
  have "\<And>p. fm_proc ex_fm = Some p \<Longrightarrow> p \<notin> family ex_kernel" by (auto simp: ex_fm_def family_def)
  from do_fork_correct [OF ex_kernel_life(1) this s'] show ?thesis
    using s' ex_kernel_life(2) [of "()"] by (auto simp: ex_fm_def)
qed

theorem do_exit_correct_witness:
  "\<exists>s'. do_exit stride_sched_class 5 ex_kernel = Some s' \<and> p_exit_code (procs s' 2) = 5 \<and> offspring s' 1 = {2, 3}
     \<and> p_state (procs s' 1) = PROC_RUNNABLE"
proof -
  have m: "exit_mem ex_kernel = Some ex_kernel" by (simp add: exit_mem_def) (simp add: blank_proc_def)
  have "offspring ex_kernel 1 = {2}" "offspring ex_kernel 2 = {3}" by (auto simp: offspring_def blank_proc_def)
  then show ?thesis
    using do_exit_correct [OF ex_kernel_life(1) _ _ _ _ m, of 1 5] by (auto simp: blank_proc_def)
qed

lemma do_wait_correct_witness:
  "\<exists>s'. do_wait stride_sched_class (\<lambda>_. None) 0 None ex_kernel = Some (Some (Inr None), s') \<and> proc_list s' = [2, 1]
     \<and> find_proc s' 3 = None"
proof -
  have a: "awaited ex_kernel 0 = {3}" by (auto simp: awaited_def offspring_def blank_proc_def)
  have z: "p_state (procs ex_kernel 3) = PROC_ZOMBIE" "p_pid (procs ex_kernel 3) = 3" by (simp_all add: blank_proc_def)
  obtain s' where s': "reap None 3 ex_kernel = Some (None, s')" using ex_reap by blast
  show ?thesis
    using do_wait_correct [OF ex_kernel_life(1) [of "()"], of 0 "\<lambda>_. None"] by (simp add: a z s')
qed


lemma ex_pids: "pids ex_kernel = [3, 2, 1]" "pid_inv [3, 2, 1] 3 MAX_PID"
  by (simp_all add: pids_def pid_inv_def MAX_PID_def MAX_PROCESS_def blank_proc_def)

text \<open>A creation and an exit: the pid just given back is not the next one.\<close>

theorem get_pid_correct_witness:
  "\<exists>(s :: kernel) ns. pid_run s \<and> pids s = [] \<and> get_pid s = Some (2, s\<lparr>last_pid := 2, next_safe := ns\<rparr>)"
proof -
  let ?m = "MAX_PID" and ?s0 = "ex_kernel\<lparr>proc_list := [], last_pid := MAX_PID\<rparr>"
  have m: "1 < ?m" "1 < ?m - 1" by (simp_all add: MAX_PID_def MAX_PROCESS_def)
  have s0: "pid_run ?s0" by (rule pid_boot) (simp_all add: pids_def)
  have n0: "next_pid (pids ?s0) (last_pid ?s0) = Some 1" using m by (simp add: next_pid_def pid_order_def pids_def upto_rec1)
  obtain ns where g: "get_pid ?s0 = Some (1, ?s0\<lparr>last_pid := 1, next_safe := ns\<rparr>)"
    using get_pid_correct [OF s0] n0 m by (auto simp: pids_def)
  let ?s1 = "?s0\<lparr>proc_list := [1], last_pid := 1, next_safe := ns\<rparr>"
  have s1: "pid_run ?s1" by (rule pid_create [OF s0 g]) (simp_all add: pids_def blank_proc_def)
  let ?s2 = "?s1\<lparr>proc_list := []\<rparr>"
  have s2: "pid_run ?s2" by (rule pid_exit [OF s1, of _ 1]) (simp_all add: pids_def blank_proc_def)
  have n2: "next_pid (pids ?s2) (last_pid ?s2) = Some 2" using m by (simp add: next_pid_def pid_order_def pids_def upto_rec1)
  obtain ns' where "get_pid ?s2 = Some (2, ?s2\<lparr>last_pid := 2, next_safe := ns'\<rparr>)"
    using get_pid_correct [OF s2] n2 m by (auto simp: pids_def)
  then show ?thesis using s2 by (intro exI [of _ ?s2] exI [of _ ns']) (simp add: pids_def)
qed

theorem get_pid_terminates_witness: "get_pid ex_kernel \<noteq> None"
proof -
  have "(4 :: int) \<in> {1 ..< MAX_PID}" by (simp add: MAX_PID_def MAX_PROCESS_def)
  then have "\<not> {1 ..< MAX_PID} \<subseteq> set (pids ex_kernel)" unfolding ex_pids(1) by fastforce
  then show ?thesis using get_pid_terminates [of ex_kernel] ex_pids by simp
qed

end
