(* ===== verification/Sysfile_Props.thy ===== *)
theory Sysfile_Props
  imports Sysfile
begin

text \<open>
  What the calls of \<open>Sysfile\<close> do on a file of a mounted volume and on user memory.
\<close>

section \<open>User memory\<close>

definition may_range :: "mm_struct \<Rightarrow> nat \<Rightarrow> nat \<Rightarrow> bool \<Rightarrow> bool" where
  "may_range mm a n wt \<longleftrightarrow> USERBASE \<le> a \<and> a + n \<le> USERTOP \<and> (\<forall>x. a \<le> x \<and> x < a + n \<longrightarrow> may_access mm x wt)"

lemma may_range_check:
  assumes "mm_ok mm" "may_range mm a n wt" "0 < n"
  shows "\<exists>mm'. user_mem_check (Some mm) a n wt = (True, Some mm') \<and> mm_ok mm' \<and> mmap_list mm' = mmap_list mm"
proof -
  have "a + n < 2 ^ 64" using assms(2) by (simp add: may_range_def USERTOP_def)
  from user_mem_ok [OF assms(1) this, of wt] show ?thesis using assms(2,3) by (auto simp: may_range_def)
qed

lemma may_range_part: "may_range mm a n wt \<Longrightarrow> d + k \<le> n \<Longrightarrow> may_range mm (a + d) k wt"
  by (auto simp: may_range_def)

lemma may_range_cong: "mmap_list mm' = mmap_list mm \<Longrightarrow> may_range mm' a n wt = may_range mm a n wt"
  by (simp add: may_range_def may_access_def)

lemma may_range_wrap: "may_range mm a n wt \<Longrightarrow> k \<le> n \<Longrightarrow> (a + k) mod 2 ^ 64 = a + k"
  by (simp add: may_range_def USERTOP_def)

section \<open>The loops\<close>

text \<open>A state of the calls over its parts, with the address space fixed up to its cache.\<close>

lemma write_loop_ok:
  assumes "mm_ok mm" "may_range mm base len False" "at_pos v f i k a m x p" "f_writable (fd_array f ! i)" "p + len \<le> 1036 * 4096"
  shows "\<exists>r n mm' v' m' x'. write_loop (int i) buffer base len copied \<lparr>s_mm = Some mm, s_um = um, s_vfs = v, s_files = f\<rparr>
       = Some (r, copied + n, \<lparr>s_mm = Some mm', s_um = um, s_vfs = v', s_files = moved f i (p + n)\<rparr>)
     \<and> (r = Inr 0 \<and> n = len \<or> r = Inl E_NO_MEM \<and> n < len \<and> card (frees (fs m')) < 2) \<and> mm_ok mm' \<and> mmap_list mm' = mmap_list mm
     \<and> at_pos v' (moved f i (p + n)) i k a m' x' (p + n) \<and> fsize x' = max (fsize x) (p + n)
     \<and> (\<forall>j < fsize x'. content m' x' j = (if p \<le> j \<and> j < p + n then um (base + (j - p)) else content m x j))"
  using assms
proof (induction len arbitrary: mm base v f m x p buffer copied rule: less_induct)
  case (less len)
  let ?s = "\<lparr>s_mm = Some mm, s_um = um, s_vfs = v, s_files = f\<rparr>"
  show ?case
  proof (cases "len = 0")
    case True
    then show ?thesis using less.prems(1,3) moved_id [OF less.prems(3)]
      by (intro exI [of _ "Inr 0"] exI [of _ 0] exI [of _ mm] exI [of _ v] exI [of _ m] exI [of _ x])
        (auto simp: write_loop.simps at_pos_def)
  next
    case False
    define al where "al = min 4096 len"
    have al: "0 < al" "al \<le> 4096" "al \<le> len" "p + al \<le> 1036 * 4096" using False less.prems(5) by (auto simp: al_def)
    have r1: "may_range mm base al False" using may_range_part [OF less.prems(2), of 0 al] al(3) by simp
    obtain mm1 where c: "user_mem_check (Some mm) base al False = (True, Some mm1)" "mm_ok mm1" "mmap_list mm1 = mmap_list mm"
      using may_range_check [OF less.prems(1) r1 al(1)] by blast
    define buf where "buf = blit buffer 0 um base al"
    obtain r n v1 m1 x1 where w: "file_write v f (int i) buf 0 al = Some (r, n, buf, v1, moved f i (p + n))"
      "r = Inr 0 \<and> n = al \<or> r = Inl E_NO_MEM \<and> n < al \<and> card (frees (fs m1)) < 2"
      "at_pos v1 (moved f i (p + n)) i k a m1 x1 (p + n)" "fsize x1 = max (fsize x) (p + n)"
      "\<forall>j < fsize x1. content m1 x1 j = (if p \<le> j \<and> j < p + n then buf (0 + (j - p)) else content m x j)"
      using file_write_at [OF less.prems(3,4) al(2,4), of buf 0] by blast
    have buf_um: "buf (0 + (j - p)) = um (base + (j - p))" if "p \<le> j \<and> j < p + n" for j
      using that w(2) by (auto simp: buf_def blit_def)
    have al_if: "(if IOBUF_SIZE > len then len else IOBUF_SIZE) = al" by (simp add: al_def IOBUF_SIZE_def)
    have round: "write_round (int i) buffer base len ?s
        = Some (r, n, True, buf, \<lparr>s_mm = Some mm1, s_um = um, s_vfs = v1, s_files = moved f i (p + n)\<rparr>)"
      using c(1) w(1,2) al(3) by (auto simp: write_round_def al_if copy_from_user_def set_vf_def buf_def kassert_def)
    note step = write_loop.simps [of "int i" buffer base len copied ?s, unfolded round, simplified False if_False option.case prod.case]
    show ?thesis
    proof (cases "r = Inr 0 \<and> n = al")
      case stop: False
      then have e: "r = Inl E_NO_MEM" "n < al" "card (frees (fs m1)) < 2" using w(2) by auto
      then show ?thesis using step c(2,3) w(3,4,5) buf_um al(3)
        by (intro exI [of _ r] exI [of _ n] exI [of _ mm1] exI [of _ v1] exI [of _ m1] exI [of _ x1]) auto
    next
      case True
      let ?f = "moved f i (p + al)"
      have i: "i < length (fd_array f)" using less.prems(3) by (auto simp: at_pos_def on_file_length)
      have lt: "len - al < len" and pos: "at_pos v1 ?f i k a m1 x1 (p + al)" and lim: "p + al + (len - al) \<le> 1036 * 4096"
        using al w(3) True less.prems(5) by auto
      have wt': "f_writable (fd_array ?f ! i)" using less.prems(4) i by (simp add: moved_facts)
      have r2: "may_range mm1 (base + al) (len - al) False"
        using may_range_part [OF less.prems(2), of al "len - al"] al(3) may_range_cong [OF c(3)] by simp
      have wrap: "(base + al) mod 18446744073709551616 = base + al"
        using may_range_wrap [OF less.prems(2) al(3)] by simp
      obtain r' n' mm2 v2 m2 x2 where ih: "write_loop (int i) buf (base + al) (len - al) (copied + al)
          \<lparr>s_mm = Some mm1, s_um = um, s_vfs = v1, s_files = ?f\<rparr>
          = Some (r', copied + al + n', \<lparr>s_mm = Some mm2, s_um = um, s_vfs = v2, s_files = moved ?f i (p + al + n')\<rparr>)"
        "r' = Inr 0 \<and> n' = len - al \<or> r' = Inl E_NO_MEM \<and> n' < len - al \<and> card (frees (fs m2)) < 2" "mm_ok mm2" "mmap_list mm2 = mmap_list mm1"
        "at_pos v2 (moved ?f i (p + al + n')) i k a m2 x2 (p + al + n')" "fsize x2 = max (fsize x1) (p + al + n')"
        "\<forall>j < fsize x2. content m2 x2 j = (if p + al \<le> j \<and> j < p + al + n' then um (base + al + (j - (p + al))) else content m1 x1 j)"
        using less.IH [OF lt c(2) r2 pos wt' lim, of buf "copied + al"] by blast
      have st: "write_loop (int i) buffer base len copied ?s
          = Some (r', copied + (al + n'), \<lparr>s_mm = Some mm2, s_um = um, s_vfs = v2, s_files = moved f i (p + (al + n'))\<rparr>)"
        using step True al(1) ih(1) i by (simp add: wrap moved_facts add.assoc)
      have fin: "content m2 x2 j = (if p \<le> j \<and> j < p + (al + n') then um (base + (j - p)) else content m x j)" if j: "j < fsize x2" for j
      proof -
        consider "j < p + al" | "p + al \<le> j" by linarith
        then show ?thesis
        proof cases
          case 1
          then have "content m2 x2 j = content m1 x1 j" "j < fsize x1" using ih(7) j w(4) True by auto
          then show ?thesis using w(5) buf_um 1 True by auto
        next
          case 2
          have "j < fsize x1" if "\<not> j < p + al + n'" using that j ih(6) by auto
          then have "content m1 x1 j = content m x j" if "\<not> j < p + al + n'" using that 2 w(5) True by auto
          then show ?thesis using ih(7) j 2 by auto
        qed
      qed
      show ?thesis unfolding st
        using ih(2-6) fin c(3) w(4) True al i
        by (intro exI [of _ r'] exI [of _ "al + n'"] exI [of _ mm2] exI [of _ v2] exI [of _ m2] exI [of _ x2])
          (auto simp: moved_facts add.assoc)
    qed
  qed
qed

lemma read_loop_ok:
  assumes "mm_ok mm" "may_range mm base len True" "at_pos v f i k a m x p" "f_readable (fd_array f ! i)"
  shows "\<exists>n mm'. n = min len (fsize x - p) \<and> read_loop (int i) buffer base len copied \<lparr>s_mm = Some mm, s_um = um, s_vfs = v, s_files = f\<rparr>
       = Some (Inr 0, copied + n, \<lparr>s_mm = Some mm', s_um = blit um base (content m x) p n, s_vfs = v, s_files = moved f i (p + n)\<rparr>)
     \<and> mm_ok mm' \<and> mmap_list mm' = mmap_list mm \<and> at_pos v (moved f i (p + n)) i k a m x (p + n)"
  using assms
proof (induction len arbitrary: mm base f p buffer copied um rule: less_induct)
  case (less len)
  let ?s = "\<lparr>s_mm = Some mm, s_um = um, s_vfs = v, s_files = f\<rparr>"
  have blit0: "blit um base src q 0 = um" for src q by (rule ext) (auto simp: blit_def)
  have i: "i < length (fd_array f)" using less.prems(3) by (auto simp: at_pos_def on_file_length)
  show ?case
  proof (cases "len = 0")
    case True
    then show ?thesis using less.prems(1,3) moved_id [OF less.prems(3)]
      by (intro exI [of _ 0] exI [of _ mm]) (simp add: read_loop.simps blit0)
  next
    case False
    define al where "al = min 4096 len"
    have al: "0 < al" "al \<le> 4096" "al \<le> len" using False by (auto simp: al_def)
    have al_if: "(if IOBUF_SIZE > len then len else IOBUF_SIZE) = al" by (simp add: al_def IOBUF_SIZE_def)
    obtain buf n where r: "n = min al (fsize x - p)" "file_read v f (int i) buffer 0 al = Some (Inr 0, n, buf, v, moved f i (p + n))"
      "at_pos v (moved f i (p + n)) i k a m x (p + n)" "\<forall>j < n. buf (0 + j) = content m x (p + j)"
      using file_read_at [OF less.prems(3,4) al(2), of buffer 0] by blast
    show ?thesis
    proof (cases "n = 0")
      case True
      then have "read_round (int i) buffer base len ?s = Some (Inr 0, 0, False, buf, ?s)"
        using r(2) moved_id [OF less.prems(3)] by (simp add: read_round_def al_if set_vf_def)
      moreover have "min len (fsize x - p) = 0" using True r(1) al by auto
      ultimately show ?thesis using less.prems(1,3) moved_id [OF less.prems(3)] False
        by (intro exI [of _ 0] exI [of _ mm]) (simp add: read_loop.simps [of "int i" buffer base len] blit0)
    next
      case n: False
      have nle: "n \<le> len" using r(1) al by simp
      have r1: "may_range mm base n True" using may_range_part [OF less.prems(2), of 0 n] nle by simp
      obtain mm1 where c: "user_mem_check (Some mm) base n True = (True, Some mm1)" "mm_ok mm1" "mmap_list mm1 = mmap_list mm"
        using may_range_check [OF less.prems(1) r1] n by blast
      define um1 where "um1 = blit um base (content m x) p n"
      have b: "blit um base buf 0 n = um1"
        using r(4) by (intro ext) (auto simp: um1_def blit_def)
      let ?f = "moved f i (p + n)"
      have round: "read_round (int i) buffer base len ?s = Some (Inr 0, n, True, buf, \<lparr>s_mm = Some mm1, s_um = um1, s_vfs = v, s_files = ?f\<rparr>)"
        using c(1) r(2) n nle by (simp add: read_round_def al_if copy_to_user_def set_vf_def b kassert_def)
      note step = read_loop.simps [of "int i" buffer base len copied ?s, unfolded round, simplified False n if_False option.case prod.case]
      have lt: "len - n < len" using n nle by simp
      have wt': "f_readable (fd_array ?f ! i)" using less.prems(4) i by (simp add: moved_facts)
      have r2: "may_range mm1 (base + n) (len - n) True"
        using may_range_part [OF less.prems(2), of n "len - n"] nle may_range_cong [OF c(3)] by simp
      have wrap: "(base + n) mod 18446744073709551616 = base + n"
        using may_range_wrap [OF less.prems(2) nle] by simp
      obtain n' mm2 where ih: "n' = min (len - n) (fsize x - (p + n))"
        "read_loop (int i) buf (base + n) (len - n) (copied + n) \<lparr>s_mm = Some mm1, s_um = um1, s_vfs = v, s_files = ?f\<rparr>
          = Some (Inr 0, copied + n + n', \<lparr>s_mm = Some mm2, s_um = blit um1 (base + n) (content m x) (p + n) n', s_vfs = v,
              s_files = moved ?f i (p + n + n')\<rparr>)"
        "mm_ok mm2" "mmap_list mm2 = mmap_list mm1" "at_pos v (moved ?f i (p + n + n')) i k a m x (p + n + n')"
        using less.IH [OF lt c(2) r2 r(3) wt', of buf "copied + n" um1] by (elim exE conjE) (rule that)
      have "n \<le> fsize x - p" using r(1) by simp
      then have "n + n' = min len (fsize x - p)" unfolding ih(1) using nle by linarith
      moreover have "blit um1 (base + n) (content m x) (p + n) n' = blit um base (content m x) p (n + n')"
        by (simp add: um1_def blit_blit)
      ultimately show ?thesis using step ih(2-5) c(3) n i
        by (intro exI [of _ "n + n'"] exI [of _ mm2]) (simp add: wrap moved_facts add.assoc)
    qed
  qed
qed

section \<open>The calls\<close>

lemma to_int_small: "n < 2 ^ 31 \<Longrightarrow> to_int n = int n"
  unfolding to_int_def by (rule signed_take_bit_int_eq_self) simp_all

lemma testfd_at:
  "on_file v f i k a m x \<Longrightarrow> (rb \<Longrightarrow> f_readable (fd_array f ! i)) \<Longrightarrow> (wb \<Longrightarrow> f_writable (fd_array f ! i))
     \<Longrightarrow> file_testfd f (int i) rb wb = Some True"
  by (simp add: file_testfd_def on_file_fd(1))

lemma read_call_ok:
  assumes "mm_ok mm" "may_range mm base len True" "at_pos v f i k a m x p" "f_readable (fd_array f ! i)"
  shows "\<exists>n mm'. n = min len (fsize x - p)
     \<and> sysfile_read (Some buffer) (int i) base len \<lparr>s_mm = Some mm, s_um = um, s_vfs = v, s_files = f\<rparr>
       = Some (Inr (int n), \<lparr>s_mm = Some mm', s_um = blit um base (content m x) p n, s_vfs = v, s_files = moved f i (p + n)\<rparr>)
     \<and> mm_ok mm' \<and> mmap_list mm' = mmap_list mm \<and> at_pos v (moved f i (p + n)) i k a m x (p + n)"
proof (cases "len = 0")
  case True
  have "blit um base (content m x) p 0 = um" by (rule ext) (auto simp: blit_def)
  then show ?thesis using True assms(1,3) moved_id [OF assms(3)]
    by (intro exI [of _ 0] exI [of _ mm]) (simp add: sysfile_read_def)
next
  case False
  have o: "on_file v f i k a m x" using assms(3) by (simp add: at_pos_def)
  obtain n mm' where r: "n = min len (fsize x - p)"
    "read_loop (int i) buffer base len 0 \<lparr>s_mm = Some mm, s_um = um, s_vfs = v, s_files = f\<rparr>
       = Some (Inr 0, 0 + n, \<lparr>s_mm = Some mm', s_um = blit um base (content m x) p n, s_vfs = v, s_files = moved f i (p + n)\<rparr>)"
    "mm_ok mm'" "mmap_list mm' = mmap_list mm" "at_pos v (moved f i (p + n)) i k a m x (p + n)"
    using read_loop_ok [OF assms, of buffer 0 um] by blast
  have "n < 2 ^ 31" using r(1) file_limit [OF o] by auto
  then have "to_int n = int n" "to_int 0 = 0" using to_int_small [of 0] by (simp_all add: to_int_small)
  then show ?thesis using r False testfd_at [OF o, of True False] assms(4)
    by (intro exI [of _ n] exI [of _ mm']) (simp add: sysfile_read_def)
qed

lemma write_call_ok:
  assumes "mm_ok mm" "may_range mm base len False" "at_pos v f i k a m x p" "f_writable (fd_array f ! i)" "p + len \<le> 1036 * 4096"
  shows "\<exists>n mm' v' m' x'. sysfile_write (Some buffer) (int i) base len \<lparr>s_mm = Some mm, s_um = um, s_vfs = v, s_files = f\<rparr>
       = Some (if n = 0 \<and> len \<noteq> 0 then Inl E_NO_MEM else Inr (int n),
           \<lparr>s_mm = Some mm', s_um = um, s_vfs = v', s_files = moved f i (p + n)\<rparr>)
     \<and> n \<le> len \<and> (n < len \<longrightarrow> card (frees (fs m')) < 2) \<and> mm_ok mm' \<and> mmap_list mm' = mmap_list mm
     \<and> at_pos v' (moved f i (p + n)) i k a m' x' (p + n) \<and> fsize x' = max (fsize x) (p + n)
     \<and> (\<forall>j < fsize x'. content m' x' j = (if p \<le> j \<and> j < p + n then um (base + (j - p)) else content m x j))"
proof (cases "len = 0")
  case True
  then show ?thesis using assms(1,3) moved_id [OF assms(3)]
    by (intro exI [of _ 0] exI [of _ mm] exI [of _ v] exI [of _ m] exI [of _ x]) (auto simp: sysfile_write_def at_pos_def)
next
  case False
  have o: "on_file v f i k a m x" using assms(3) by (simp add: at_pos_def)
  obtain r n mm' v' m' x' where w: "write_loop (int i) buffer base len 0 \<lparr>s_mm = Some mm, s_um = um, s_vfs = v, s_files = f\<rparr>
       = Some (r, 0 + n, \<lparr>s_mm = Some mm', s_um = um, s_vfs = v', s_files = moved f i (p + n)\<rparr>)"
     "r = Inr 0 \<and> n = len \<or> r = Inl E_NO_MEM \<and> n < len \<and> card (frees (fs m')) < 2" "mm_ok mm'" "mmap_list mm' = mmap_list mm"
     "at_pos v' (moved f i (p + n)) i k a m' x' (p + n)" "fsize x' = max (fsize x) (p + n)"
     "\<forall>j < fsize x'. content m' x' j = (if p \<le> j \<and> j < p + n then um (base + (j - p)) else content m x j)"
    using write_loop_ok [OF assms, of buffer 0 um] by blast
  have "n < 2 ^ 31" using w(2) assms(5) by auto
  then have "to_int n = int n" by (rule to_int_small)
  then have "sysfile_write (Some buffer) (int i) base len \<lparr>s_mm = Some mm, s_um = um, s_vfs = v, s_files = f\<rparr>
       = Some (if n = 0 \<and> len \<noteq> 0 then Inl E_NO_MEM else Inr (int n),
           \<lparr>s_mm = Some mm', s_um = um, s_vfs = v', s_files = moved f i (p + n)\<rparr>)"
    using w(1,2) False testfd_at [OF o, of False True] assms(4) by (auto simp: sysfile_write_def)
  then show ?thesis using w
    by (intro exI [of _ n] exI [of _ mm'] exI [of _ v'] exI [of _ m'] exI [of _ x']) auto
qed

lemma seek_call_ok:
  assumes "at_pos v f i k a m x q" "p \<le> fsize x"
  shows "sysfile_seek (int i) (int p) LSEEK_SET \<lparr>s_mm = mm, s_um = um, s_vfs = v, s_files = f\<rparr>
     = Some (Inr 0, \<lparr>s_mm = mm, s_um = um, s_vfs = v, s_files = moved f i p\<rparr>)"
    "at_pos v (moved f i p) i k a m x p"
  using file_seek_at [OF assms] by (simp_all add: sysfile_seek_def set_vf_def)

section \<open>Properties\<close>

text \<open>
  The system call \<open>read\<close> on an open file, for any length.  With the descriptor at a position \<open>p\<close> of
  a consistent file and the destination writable user memory, it returns the number of bytes from
  \<open>p\<close> to the end of the file or to the end of the request, whichever comes first; exactly so many
  bytes of user memory are changed, to the contents of the file; the position moves on by them.
\<close>

lemma sysfile_read_correct:
  assumes "mm_ok mm" "may_range mm base len True" "at_pos v f i k a m x p" "f_readable (fd_array f ! i)"
  shows "\<exists>n mm'. n = min len (fsize x - p)
     \<and> sysfile_read (Some buffer) (int i) base len \<lparr>s_mm = Some mm, s_um = um, s_vfs = v, s_files = f\<rparr>
       = Some (Inr (int n), \<lparr>s_mm = Some mm', s_um = blit um base (content m x) p n, s_vfs = v, s_files = moved f i (p + n)\<rparr>)
     \<and> mm_ok mm' \<and> mmap_list mm' = mmap_list mm \<and> at_pos v (moved f i (p + n)) i k a m x (p + n)"
  using assms by (rule read_call_ok)

text \<open>
  C4. Writing and reading back at the level of system calls: bytes of user memory go through the
  4096-byte pieces, the descriptor, the VFS and the block map to the disk and return.  A \<open>write\<close> of any
  length that fits below the largest file size writes \<open>n\<close> bytes, all of them unless fewer than two blocks of the volume
  are free afterwards (one for the data, one for the indirect block);
  after a \<open>seek\<close> back, a \<open>read\<close> of \<open>n\<close> bytes into other memory returns \<open>n\<close> and leaves there what the
  source held, and no other byte of user memory is changed by the three calls.
\<close>

theorem sysfile_write_read_roundtrip:
  assumes mm: "mm_ok mm" "may_range mm src len False" "may_range mm dst len True"
    and f: "at_pos v f i k a m x p" "f_readable (fd_array f ! i)" "f_writable (fd_array f ! i)" "p + len \<le> 1036 * 4096"
  shows "\<exists>n m1 s1 s2 s3. sysfile_write (Some buf1) (int i) src len \<lparr>s_mm = Some mm, s_um = um, s_vfs = v, s_files = f\<rparr>
       = Some (if n = 0 \<and> len \<noteq> 0 then Inl E_NO_MEM else Inr (int n), s1) \<and> n \<le> len
     \<and> mnts (s_vfs s1) k = Some m1 \<and> (n < len \<longrightarrow> card (frees (fs m1)) < 2)
     \<and> sysfile_seek (int i) (int p) LSEEK_SET s1 = Some (Inr 0, s2)
     \<and> sysfile_read (Some buf2) (int i) dst n s2 = Some (Inr (int n), s3)
     \<and> (\<forall>j < n. s_um s3 (dst + j) = um (src + j)) \<and> (\<forall>y. y < dst \<or> dst + n \<le> y \<longrightarrow> s_um s3 y = um y)"
proof -
  obtain n mm1 v1 m1 x1 where w: "sysfile_write (Some buf1) (int i) src len \<lparr>s_mm = Some mm, s_um = um, s_vfs = v, s_files = f\<rparr>
       = Some (if n = 0 \<and> len \<noteq> 0 then Inl E_NO_MEM else Inr (int n),
           \<lparr>s_mm = Some mm1, s_um = um, s_vfs = v1, s_files = moved f i (p + n)\<rparr>)"
     "n \<le> len" "n < len \<longrightarrow> card (frees (fs m1)) < 2" "mm_ok mm1" "mmap_list mm1 = mmap_list mm"
     "at_pos v1 (moved f i (p + n)) i k a m1 x1 (p + n)" "fsize x1 = max (fsize x) (p + n)"
     "\<forall>j < fsize x1. content m1 x1 j = (if p \<le> j \<and> j < p + n then um (src + (j - p)) else content m x j)"
    using write_call_ok [OF mm(1,2) f(1,3,4), of buf1 um] by blast
  have i: "i < length (fd_array f)" using f(1) by (auto simp: at_pos_def on_file_length)
  have p: "p \<le> fsize x1" using w(7) by simp
  note sk = seek_call_ok [OF w(6) p]
  have r: "may_range mm1 dst n True" using may_range_part [OF mm(3), of 0 n] w(2) may_range_cong [OF w(5)] by simp
  have rd: "f_readable (fd_array (moved (moved f i (p + n)) i p) ! i)" using f(2) i by (simp add: moved_facts)
  have n: "min n (fsize x1 - p) = n" using w(7) by simp
  obtain mm2 where rd: "sysfile_read (Some buf2) (int i) dst n \<lparr>s_mm = Some mm1, s_um = um, s_vfs = v1, s_files = moved (moved f i (p + n)) i p\<rparr>
       = Some (Inr (int n), \<lparr>s_mm = Some mm2, s_um = blit um dst (content m1 x1) p n, s_vfs = v1,
            s_files = moved (moved (moved f i (p + n)) i p) i (p + n)\<rparr>)"
    using read_call_ok [OF w(4) r sk(2) rd, of buf2 um] unfolding n by blast
  have "\<forall>j < n. blit um dst (content m1 x1) p n (dst + j) = um (src + j)" using w(7,8) by (simp add: blit_def)
  moreover have "\<forall>y. y < dst \<or> dst + n \<le> y \<longrightarrow> blit um dst (content m1 x1) p n y = um y" by (auto simp: blit_def)
  moreover have "mnts v1 k = Some m1" using w(6) by (simp add: at_pos_def on_file_def)
  ultimately show ?thesis using w(1,2,3) sk(1) rd
    by (intro exI [of _ n] exI [of _ m1] exI [of _ "\<lparr>s_mm = Some mm1, s_um = um, s_vfs = v1, s_files = moved f i (p + n)\<rparr>"]
      exI [of _ "\<lparr>s_mm = Some mm1, s_um = um, s_vfs = v1, s_files = moved (moved f i (p + n)) i p\<rparr>"]
      exI [of _ "\<lparr>s_mm = Some mm2, s_um = blit um dst (content m1 x1) p n, s_vfs = v1,
            s_files = moved (moved (moved f i (p + n)) i p) i (p + n)\<rparr>"]) simp
qed

text \<open>The example descriptor and the example address space.\<close>

lemma ex_at: "at_pos ex_open_vfs ex_open_files 0 0 100 ex_open_mnt \<lparr>vn_sin = ex_sin, ref_count = 1, open_count = 1\<rparr> 0"
  "f_readable (fd_array ex_open_files ! 0)" "f_writable (fd_array ex_open_files ! 0)"
  using ex_on_file ex_entry(2,3) by (simp_all add: at_pos_def ex_open_files_def)

lemma ex_range: "0x400000 \<le> a \<Longrightarrow> a + n \<le> 0x402000 \<Longrightarrow> may_range ex_mm a n wt"
  using ex_access by (auto simp: may_range_def USERBASE_def USERTOP_def)

lemma sysfile_read_correct_witness:
  "\<exists>mm'. sysfile_read (Some (\<lambda>_. 0)) 0 0x400000 5000 \<lparr>s_mm = Some ex_mm, s_um = um, s_vfs = ex_open_vfs, s_files = ex_open_files\<rparr>
     = Some (Inr 0, \<lparr>s_mm = Some mm', s_um = um, s_vfs = ex_open_vfs, s_files = ex_open_files\<rparr>)"
proof -
  have z: "fsize \<lparr>vn_sin = ex_sin, ref_count = 1, open_count = 1\<rparr> = 0" by (simp add: fsize_def ex_sin_def)
  have r: "may_range ex_mm 0x400000 5000 True" by (rule ex_range) simp_all
  have "blit um b s q 0 = um" for b s q by (rule ext) (auto simp: blit_def)
  with sysfile_read_correct [OF ex_mm(1) r ex_at(1,2), of "\<lambda>_. 0" um] show ?thesis
    using moved_id [OF ex_at(1)] by (auto simp: z)
qed

theorem sysfile_write_read_roundtrip_witness:
  "\<exists>n s1 s2 s3. sysfile_read (Some (\<lambda>_. 0)) 0 0x401000 n s2 = Some (Inr (int n), s3) \<and> n \<le> 4096
     \<and> sysfile_seek 0 0 LSEEK_SET s1 = Some (Inr 0, s2) \<and> (\<forall>j < n. s_um s3 (0x401000 + j) = word_of_nat j)"
proof -
  have r: "may_range ex_mm 0x400000 4096 False" "may_range ex_mm 0x401000 4096 True" by (rule ex_range; simp)+
  have "0 + 4096 \<le> (1036 * 4096 :: nat)" by simp
  from sysfile_write_read_roundtrip [OF ex_mm(1) r ex_at this, of "\<lambda>_. 0" "\<lambda>a. word_of_nat (a - 0x400000)" "\<lambda>_. 0"]
  show ?thesis by auto
qed

end
