(* ===== verification/Trap_Props.thy ===== *)
theory Trap_Props
  imports Trap_Life Proc_Props Sysfile_Props
begin

text \<open>
  What the kernel as a whole promises at its entry, \<open>trap\<close>, under both scheduling classes.
\<close>

lemma stride_clock:
  fixes s :: machine
  shows "stride_inv s \<Longrightarrow> stride_inv (s\<lparr>timer_proc := tp, ticks := n\<rparr>) \<and> stride_queued (s\<lparr>timer_proc := tp, ticks := n\<rparr>) = stride_queued s"
  by (simp add: stride_inv_def stride_queued_def)

lemma RR_clock:
  fixes s :: machine
  shows "RR_inv s \<Longrightarrow> RR_inv (s\<lparr>timer_proc := tp, ticks := n\<rparr>) \<and> RR_queued (s\<lparr>timer_proc := tp, ticks := n\<rparr>) = RR_queued s"
  by (simp add: RR_inv_def RR_queued_def)

interpretation stride_trap: trap_queue stride_sched_class stride_inv stride_queued
  by (intro trap_queue.intro stride_proc.proc_queue_axioms trap_queue_axioms.intro) (rule stride_clock)

interpretation RR_trap: trap_queue RR_sched_class RR_inv RR_queued
  by (intro trap_queue.intro RR_proc.proc_queue_axioms trap_queue_axioms.intro) (rule RR_clock)

section \<open>Steps of a trap\<close>

text \<open>A trap from user mode whose handling leaves the process running and not marked.\<close>

lemma trap_back:
  assumes d: "trap_dispatch sc env tf um (s\<lparr>tfs := (tfs s)(current s := Some tf)\<rparr>) = Some (Back, um', t)"
    and u: "\<not> trap_in_kernel tf" "p_flags (procs t (current t)) AND PF_EXITING = 0" "\<not> p_need_resched (procs t (current t))"
  shows "trap sc env tf um s = Some (tfs t (current s), um', t\<lparr>tfs := (tfs t)(current s := tfs s (current s))\<rparr>)"
  using assms by (simp add: trap_def Let_def)

lemma no_interrupt: "unat c < 2 ^ 63 \<Longrightarrow> \<not> c <s (0 :: 64 word)"
proof -
  assume a: "unat c < 2 ^ 63"
  have "uint c < 2 ^ 63"
  proof (rule ccontr)
    assume "\<not> uint c < 2 ^ 63"
    then have "nat (2 ^ 63) \<le> nat (uint c)" by (intro nat_mono) simp
    then show False using a by simp
  qed
  moreover have "0 \<le> uint c" by simp
  then have "- (2 ^ 63) \<le> uint c" by (rule order.trans [rotated]) simp
  ultimately have "signed_take_bit 63 (uint c) = uint c" by (intro signed_take_bit_int_eq_self)
  then have "sint c = uint c" by (simp add: sint_uint)
  then show ?thesis by (simp add: word_sless_alt)
qed

lemma ecall_dispatch:
  assumes "unat (tf_cause tf) = CAUSE_USER_ECALL"
  shows "trap_dispatch sc env tf um s = do {
     (ok, um, s) \<leftarrow> syscall sc env um (step_epc (current s) s);
     Some (if ok then Back else Ended, um, s) }"
proof -
  have c: "tf_cause tf = 8" using assms by (simp add: CAUSE_USER_ECALL_def word_unat_eq_iff)
  have "\<not> tf_cause tf <s 0" by (rule no_interrupt) (simp add: c)
  then show ?thesis unfolding trap_dispatch_def exception_handler_def Let_def c
    by (simp add: CAUSE_BREAKPOINT_def CAUSE_MISALIGNED_STORE_def CAUSE_LOAD_ACCESS_def CAUSE_STORE_ACCESS_def CAUSE_LOAD_PAGE_FAULT_def
        CAUSE_STORE_PAGE_FAULT_def CAUSE_USER_ECALL_def)
qed

lemma sys_numbers:
  "SYS_exit = 1" "SYS_fork = 2" "SYS_wait = 3" "SYS_exec = 4" "SYS_yield = 10" "SYS_sleep = 11" "SYS_kill = 12" "SYS_gettime = 17"
  "SYS_getpid = 18" "SYS_putc = 30" "SYS_pgdir = 31" "SYS_open = 100" "SYS_close = 101" "SYS_read = 102" "SYS_write = 103"
  "SYS_seek = 104" "SYS_fstat = 110" "SYS_fsync = 111" "SYS_getcwd = 121" "SYS_getdirentry = 128" "SYS_dup = 130" "SYS_lab6_set_priority = 255"
  by (simp_all add: SYS_exit_def SYS_fork_def SYS_wait_def SYS_exec_def SYS_yield_def SYS_sleep_def SYS_kill_def SYS_gettime_def
      SYS_getpid_def SYS_putc_def SYS_pgdir_def SYS_open_def SYS_close_def SYS_read_def SYS_write_def SYS_seek_def SYS_fstat_def SYS_fsync_def
      SYS_getcwd_def SYS_getdirentry_def SYS_dup_def SYS_lab6_set_priority_def)

lemma read_entry: "syscalls sc env 102 arg = Some (sys_read env (arg_int (arg 0)) (unat (arg 1)) (unat (arg 2)))"
  by (simp add: syscalls_def sys_numbers)

lemma getpid_entry: "syscalls sc env 18 arg = Some sys_getpid"
  by (simp add: syscalls_def sys_numbers)

lemma exit_entry: "syscalls sc env 1 arg = Some (sys_exit sc (arg_int (arg 0)))"
  by (simp add: syscalls_def sys_numbers)

section \<open>Properties\<close>

text \<open>
  C1. Type safety of the kernel entry: whatever trap is taken, by interrupt, page fault or system call, when \<open>trap\<close>
  comes back the process table, its pids and hash lists, the family tree, the run queue and the current process are
  well formed again and \<open>init\<close> is alive.  The descriptor a \<open>fork\<close> allocates is a fresh one, the processes that run
  while this one sleeps keep the same invariant, and the timers belong to processes of the table.
\<close>

theorem trap_keeps_processes:
  assumes "stride_trap.sys_ok s" "stride_trap.fair_env env s" "timers_live s"
    and "trap stride_sched_class env tf um s = Some (r, um', s')"
  shows "stride_trap.sys_ok s'"
  using afterD [OF stride_trap.trap_sys [OF assms(1-3)] assms(4)] by simp

text \<open>
  C2. The system call \<open>read\<close> from the trap to the disk and back.  A user process that executes \<open>ecall\<close> with
  the number 102, a descriptor open for reading at position \<open>p\<close> of a file of a mounted volume, a
  buffer in areas it may write and a length resumes at the next instruction; its register \<open>a0\<close> holds the
  number of bytes read, the smaller of the length and what is left of the file; the buffer holds these
  bytes of the file, every other byte of user memory and every other register is unchanged, the position
  advances, and the file system, the other processes and their files stay as they were.
\<close>

theorem trap_read_correct:
  assumes tf: "unat (tf_cause tf) = CAUSE_USER_ECALL" "\<not> trap_in_kernel tf" "arg_int (gpr tf 10) = SYS_read" "arg_int (gpr tf 11) = int i"
    and s: "p_filesp (procs s (current s)) = Some f" "p_mm (procs s (current s)) = Some m"
      "p_flags (procs s (current s)) AND PF_EXITING = 0" "\<not> p_need_resched (procs s (current s))"
    and mm: "mm_ok (mms s m)" "may_range (mms s m) (unat (gpr tf 12)) (unat (gpr tf 13)) True"
    and fd: "at_pos (kfs s) (filess s f) i k a mnt x p" "f_readable (fd_array (filess s f) ! i)" and b: "e_buf env = Some buffer"
  shows "\<exists>n mm'. n = min (unat (gpr tf 13)) (fsize x - p)
     \<and> trap sc env tf um s = Some (Some (tf\<lparr>gpr := (gpr tf)(10 := word_of_nat n), tf_epc := tf_epc tf + 4\<rparr>),
         blit um (unat (gpr tf 12)) (content mnt x) p n,
         upd_files f (moved (filess s f) i (p + n)) (upd_mm m mm' s))
     \<and> mm_ok mm' \<and> mmap_list mm' = mmap_list (mms s m)"
proof -
  let ?c = "current s"
  let ?tf = "tf\<lparr>tf_epc := tf_epc tf + 4\<rparr>"
  let ?s = "step_epc ?c (s\<lparr>tfs := (tfs s)(?c := Some tf)\<rparr>)"
  have s1: "?s = s\<lparr>tfs := (tfs s)(?c := Some ?tf)\<rparr>" by (simp add: step_epc_def)
  obtain n mm' where r: "n = min (unat (gpr tf 13)) (fsize x - p)"
     "sysfile_read (Some buffer) (int i) (unat (gpr tf 12)) (unat (gpr tf 13)) \<lparr>s_mm = Some (mms s m), s_um = um, s_vfs = kfs s, s_files = filess s f\<rparr>
       = Some (Inr (int n), \<lparr>s_mm = Some mm', s_um = blit um (unat (gpr tf 12)) (content mnt x) p n, s_vfs = kfs s,
          s_files = moved (filess s f) i (p + n)\<rparr>)" "mm_ok mm'" "mmap_list mm' = mmap_list (mms s m)"
    using read_call_ok [OF mm fd, of buffer um] by (elim exE conjE) (rule that)
  let ?t = "upd_files f (moved (filess s f) i (p + n)) (upd_mm m mm' ?s)"
  have k: "(s\<lparr>kfs := kfs s\<rparr>) = s" for s :: machine by simp
  have "on_sys (sysfile_read (e_buf env) (int i) (unat (gpr tf 12)) (unat (gpr tf 13))) um ?s
      = Some (Inr (int n), blit um (unat (gpr tf 12)) (content mnt x) p n, ?t)"
    unfolding s1 by (simp add: on_sys_def sys_of_def sys_back_def s r(2) b upd_mm_def upd_files_def)
  then have y: "syscall sc env um ?s = Some (True, blit um (unat (gpr tf 12)) (content mnt x) p n,
      ?t\<lparr>tfs := (tfs ?t)(?c := Some (?tf\<lparr>gpr := (gpr tf)(10 := word_of_nat n)\<rparr>))\<rparr>)"
    using tf(3,4) unfolding syscall_def s1
    by (simp add: read_entry sys_numbers sys_read_def file_call_def ret_int_def upd_files_def upd_mm_def)
  let ?u = "?t\<lparr>tfs := (tfs ?t)(?c := Some (?tf\<lparr>gpr := (gpr tf)(10 := word_of_nat n)\<rparr>))\<rparr>"
  have "trap_dispatch sc env tf um (s\<lparr>tfs := (tfs s)(?c := Some tf)\<rparr>)
      = Some (Back, blit um (unat (gpr tf 12)) (content mnt x) p n, ?u)"
    unfolding ecall_dispatch [OF tf(1)] using y by simp
  then have "trap sc env tf um s = Some (tfs ?u ?c, blit um (unat (gpr tf 12)) (content mnt x) p n, ?u\<lparr>tfs := (tfs ?u)(?c := tfs s ?c)\<rparr>)"
    by (rule trap_back) (use tf(2) s(3,4) in \<open>simp_all add: upd_files_def upd_mm_def s1\<close>)
  moreover have "?u\<lparr>tfs := (tfs ?u)(?c := tfs s ?c)\<rparr> = upd_files f (moved (filess s f) i (p + n)) (upd_mm m mm' s)"
    by (simp add: s1 upd_files_def upd_mm_def)
  moreover have "tfs ?u ?c = Some (tf\<lparr>gpr := (gpr tf)(10 := word_of_nat n), tf_epc := tf_epc tf + 4\<rparr>)" by simp
  ultimately show ?thesis using r(1,3,4) by (intro exI [of _ n] exI [of _ mm']) simp
qed

text \<open>
  C5. A bad pointer of a user program takes the whole system down: a load or store fault at an address in no
  area of the process, in user mode or while the kernel uses the address, makes \<open>do_pgfault\<close> report
  \<open>E_INVAL\<close>, and the handler panics.
\<close>

theorem bad_access_panics:
  assumes "unat (tf_cause tf) \<in> {CAUSE_LOAD_ACCESS, CAUSE_STORE_ACCESS, CAUSE_LOAD_PAGE_FAULT, CAUSE_STORE_PAGE_FAULT}"
    and "\<And>m. p_mm (procs s (current s)) = Some m \<Longrightarrow>
      mm_ok (mms s m) \<and> (\<forall>v \<in> set (mmap_list (mms s m)). \<not> holds v (unat (tf_tval tf)))"
  shows "trap sc env tf um s = None"
proof -
  have c: "tf_cause tf \<in> {5, 7, 13, 15}"
    using assms(1) by (auto simp: CAUSE_LOAD_ACCESS_def CAUSE_STORE_ACCESS_def CAUSE_LOAD_PAGE_FAULT_def CAUSE_STORE_PAGE_FAULT_def word_unat_eq_iff)
  let ?s = "s\<lparr>tfs := (tfs s)(current s := Some tf)\<rparr>"
  have f: "\<exists>mm. do_pgfault (map_option (mms s) (p_mm (procs s (current s)))) (unat (tf_tval tf)) (mem_of s) = Some (Inl E_INVAL, mm, mem_of s)"
  proof (cases "p_mm (procs s (current s))")
    case (Some m)
    have "List.find (\<lambda>v. holds v (unat (tf_tval tf))) (mmap_list (mms s m)) = None" using assms(2) [OF Some] by (simp add: find_None_iff)
    then have "fst (find_vma (mms s m) (unat (tf_tval tf))) = None" using assms(2) [OF Some] find_vma_ok(1) by simp
    then show ?thesis by (cases "find_vma (mms s m) (unat (tf_tval tf))") (simp add: Some do_pgfault_def)
  qed (simp add: do_pgfault_def)
  then have "\<exists>u. pgfault_handler tf um ?s = Some (Inl E_INVAL, um, u)" by (auto simp: pgfault_handler_def)
  then obtain u where u: "pgfault_handler tf um ?s = Some (Inl E_INVAL, um, u)" by blast
  have "exception_handler sc env tf um ?s = None"
    using c u unfolding exception_handler_def
    by (auto simp: kassert_def CAUSE_BREAKPOINT_def CAUSE_MISALIGNED_STORE_def CAUSE_LOAD_ACCESS_def CAUSE_STORE_ACCESS_def CAUSE_LOAD_PAGE_FAULT_def
        CAUSE_STORE_PAGE_FAULT_def)
  moreover have "\<not> tf_cause tf <s 0" by (rule no_interrupt) (use c in auto)
  ultimately show ?thesis by (simp add: trap_def trap_dispatch_def)
qed

text \<open>
  A killed process does not run user code again: when \<open>trap\<close> resumes a program it interrupted in user mode,
  the process that was current when the handling was over was not marked as exiting, and it either keeps the
  processor or gave it up because it had to.  The one way around is the breakpoint with \<open>a7 = 10\<close> that
  \<open>kernel_execve\<close> uses.
\<close>

lemma killed_never_resumes:
  assumes "trap sc env tf um s = Some (Some tf', um', s')" "\<not> trap_in_kernel tf"
    and "unat (tf_cause tf) = CAUSE_BREAKPOINT \<Longrightarrow> gpr tf 17 \<noteq> 10"
  shows "\<exists>t. p_flags (procs t (current t)) AND PF_EXITING = 0
     \<and> (if p_need_resched (procs t (current t)) then \<exists>u. schedule sc t = Some u \<and> e_others env u = Some s' else s' = t)"
proof -
  let ?s = "s\<lparr>tfs := (tfs s)(current s := Some tf)\<rparr>"
  obtain out um1 t where d: "trap_dispatch sc env tf um ?s = Some (out, um1, t)"
    using assms(1) by (auto simp: trap_def Let_def bind_eq_Some_conv)
  have "out \<noteq> To_program"
    using d assms(3) by (auto simp: trap_dispatch_def exception_handler_def Let_def bind_eq_Some_conv split: if_splits)
  moreover have "out \<noteq> Ended" using assms(1) d by (auto simp: trap_def)
  ultimately have out: "out = Back" by (cases out) simp_all
  let ?t = "t\<lparr>tfs := (tfs t)(current s := tfs s (current s))\<rparr>"
  have x: "p_flags (procs ?t (current ?t)) AND PF_EXITING = 0"
    using assms(1,2) d out by (auto simp: trap_def Let_def bind_eq_Some_conv split: if_splits)
  have y: "(if p_need_resched (procs ?t (current ?t)) then do { s \<leftarrow> schedule sc ?t; e_others env s } else Some ?t) = Some s'"
    using assms(1,2) d out x by (auto simp: trap_def Let_def bind_eq_Some_conv)
  show ?thesis using x y by (intro exI [of _ ?t]) (simp add: bind_eq_Some_conv split: if_splits)
qed


section \<open>Examples\<close>

definition ex_machine :: machine where "ex_machine = ex_state \<lparr>ticks = 0\<rparr>"

definition ex_env :: env where
  "ex_env = \<lparr>e_fork = ex_fm,
     e_exec = \<lparr>em_mm = None, em_vma = (\<lambda>_. True), em_buf = (\<lambda>_ _. None), em_args = (\<lambda>_. None), em_path = None,
       em_vfs = ex_alloc, em_stack = 0\<rparr>,
     e_others = Some, e_timer = 0, e_vfs = ex_alloc, e_buf = Some (\<lambda>_. 0), e_junk = (\<lambda>_. 0), e_sstatus = 0, e_key = 0\<rparr>"

text \<open>The frame of a user program that executes \<open>ecall\<close> with the given registers.\<close>

definition ex_ecall :: "(nat \<Rightarrow> 64 word) \<Rightarrow> trapframe" where
  "ex_ecall r = \<lparr>gpr = r, tf_status = 0, tf_epc = 0x800020, tf_tval = 0, tf_cause = 8\<rparr>"

lemma ex_ecall: "unat (tf_cause (ex_ecall r)) = CAUSE_USER_ECALL" "\<not> trap_in_kernel (ex_ecall r)" "gpr (ex_ecall r) = r"
  by (simp_all add: ex_ecall_def CAUSE_USER_ECALL_def trap_in_kernel_def)

lemma ex_machine_ok: "stride_trap.sys_ok ex_machine" "stride_trap.fair_env ex_env ex_machine" "timers_live ex_machine"
proof -
  have i: "init_alive ex_machine" by (simp add: init_alive_def ex_machine_def ex_state_def)
  then show "stride_trap.sys_ok ex_machine" using ex_kernel_life(1) by (simp add: stride_trap.sys_ok_def ex_machine_def)
  show "stride_trap.fair_env ex_env ex_machine"
    by (simp add: stride_trap.fair_env_def stride_trap.fair_others_def ex_env_def ex_fm_def family_def ex_machine_def)
  show "timers_live ex_machine" by (simp add: timers_live_def ex_machine_def ex_state_def)
qed

text \<open>Process 2 ends itself with code 5.\<close>

theorem trap_keeps_processes_witness:
  "\<forall>um. \<exists>s'. trap stride_sched_class ex_env (ex_ecall ((\<lambda>_. 0)(10 := 1, 11 := 5))) um ex_machine = Some (None, um, s')
     \<and> p_state (procs s' 2) = PROC_ZOMBIE \<and> p_exit_code (procs s' 2) = 5 \<and> stride_trap.sys_ok s'"
proof
  fix um
  let ?tf = "ex_ecall ((\<lambda>_. 0)(10 := 1, 11 := 5))"
  let ?s = "step_epc 2 (ex_machine\<lparr>tfs := (tfs ex_machine)(2 := Some ?tf)\<rparr>)"
  have c: "current ex_machine = 2" by (simp add: ex_machine_def)
  have s: "?s = ex_machine\<lparr>tfs := (tfs ex_machine)(2 := Some (?tf\<lparr>tf_epc := tf_epc ?tf + 4\<rparr>))\<rparr>" by (simp add: step_epc_def)
  have ok: "stride_trap.sys_ok ?s" unfolding s by (rule stride_trap.here_ok [OF here_tfs ex_machine_ok(1)])
  have m: "exit_mem ?s = Some ?s" unfolding s by (simp add: exit_mem_def ex_machine_def) (simp add: blank_proc_def)
  have h: "current ?s = 2" "idleproc ?s = 0" "initproc ?s = Some 1" "p_state (procs ?s 1) = PROC_SLEEPING"
    unfolding s by (simp_all add: ex_machine_def)
  obtain t where t: "do_exit stride_sched_class 5 ?s = Some t" "p_state (procs t 2) = PROC_ZOMBIE" "p_exit_code (procs t 2) = 5"
    using stride_proc.do_exit_ok [OF stride_trap.sys_okD(9) [OF ok] _ h(3) _ _ m, of 5] h by auto
  have "syscall stride_sched_class ex_env um ?s = Some (False, um, t)"
    using t(1) h(1) unfolding syscall_def by (simp add: s ex_ecall(3) exit_entry arg_int_def sys_exit_def)
  then have "trap_dispatch stride_sched_class ex_env ?tf um (ex_machine\<lparr>tfs := (tfs ex_machine)(current ex_machine := Some ?tf)\<rparr>) = Some (Ended, um, t)"
    unfolding ecall_dispatch [OF ex_ecall(1)] by (simp add: c)
  then have "trap stride_sched_class ex_env ?tf um ex_machine = Some (None, um, t)" by (simp add: trap_def)
  then show "\<exists>s'. trap stride_sched_class ex_env (ex_ecall ((\<lambda>_. 0)(10 := 1, 11 := 5))) um ex_machine = Some (None, um, s')
     \<and> p_state (procs s' 2) = PROC_ZOMBIE \<and> p_exit_code (procs s' 2) = 5 \<and> stride_trap.sys_ok s'" using t trap_keeps_processes [OF ex_machine_ok] by blast
qed

text \<open>A process with the example file open on descriptor 0.\<close>

definition ex_reader :: machine where
  "ex_reader = ex_machine\<lparr>procs := ex_proc(2 := blank_proc\<lparr>p_pid := 2, p_parent := Some 1, p_filesp := Some 0, p_mm := Some 0\<rparr>),
     mms := (\<lambda>_. ex_mm), kfs := ex_open_vfs, filess := (\<lambda>_. ex_open_files)\<rparr>"

lemma ex_reader: "current ex_reader = 2" "kfs ex_reader = ex_open_vfs" "filess ex_reader = (\<lambda>_. ex_open_files)" "mms ex_reader = (\<lambda>_. ex_mm)"
  "p_filesp (procs ex_reader 2) = Some 0" "p_mm (procs ex_reader 2) = Some 0" "p_flags (procs ex_reader 2) = 0" "\<not> p_need_resched (procs ex_reader 2)"
  by (simp_all add: ex_reader_def ex_machine_def blank_proc_def)

theorem trap_read_correct_witness:
  "\<forall>um. \<exists>tf s'. trap stride_sched_class ex_env (ex_ecall ((\<lambda>_. 0)(10 := 102, 12 := 0x400000, 13 := 5000))) um ex_reader = Some (Some tf, um, s')
     \<and> gpr tf 10 = 0 \<and> tf_epc tf = 0x800024"
proof
  fix um
  let ?r = "(\<lambda>_. 0)(10 := 102, 12 := 0x400000, 13 := 5000) :: nat \<Rightarrow> 64 word"
  have z: "fsize \<lparr>vn_sin = ex_sin, ref_count = 1, open_count = 1\<rparr> = 0" by (simp add: fsize_def ex_sin_def)
  have r: "may_range ex_mm 0x400000 5000 True" by (rule ex_range) simp_all
  have b: "blit um b s q 0 = um" for b s q by (rule ext) (auto simp: blit_def)
  have "\<exists>n mm'. n = min (unat (gpr (ex_ecall ?r) 13)) (fsize \<lparr>vn_sin = ex_sin, ref_count = 1, open_count = 1\<rparr> - 0)
     \<and> trap stride_sched_class ex_env (ex_ecall ?r) um ex_reader = Some (Some ((ex_ecall ?r)\<lparr>gpr := (gpr (ex_ecall ?r))(10 := word_of_nat n), tf_epc := tf_epc (ex_ecall ?r) + 4\<rparr>),
         blit um (unat (gpr (ex_ecall ?r) 12)) (content ex_open_mnt \<lparr>vn_sin = ex_sin, ref_count = 1, open_count = 1\<rparr>) 0 n,
         upd_files 0 (moved (filess ex_reader 0) 0 (0 + n)) (upd_mm 0 mm' ex_reader))
     \<and> mm_ok mm' \<and> mmap_list mm' = mmap_list (mms ex_reader 0)"
    by (rule trap_read_correct [OF ex_ecall(1,2), where k = 0 and a = 100 and buffer = "\<lambda>_. 0"])
      (use ex_at(1,2) ex_mm(1) r in \<open>simp_all add: ex_ecall(3) ex_reader arg_int_def sys_numbers ex_env_def\<close>)
  then show "\<exists>tf s'. trap stride_sched_class ex_env (ex_ecall ((\<lambda>_. 0)(10 := 102, 12 := 0x400000, 13 := 5000))) um ex_reader = Some (Some tf, um, s')
     \<and> gpr tf 10 = 0 \<and> tf_epc tf = 0x800024" by (auto simp: z b ex_ecall_def)
qed

theorem bad_access_panics_witness:
  "\<forall>um. trap stride_sched_class ex_env \<lparr>gpr = (\<lambda>_. 0), tf_status = 0, tf_epc = 0x800020, tf_tval = 0x10, tf_cause = 13\<rparr> um ex_reader = None"
  by (rule allI, rule bad_access_panics)
    (auto simp: CAUSE_LOAD_PAGE_FAULT_def ex_reader ex_mm holds_def ex_data_def ex_text_def)

text \<open>A process asks for its pid.\<close>

lemma killed_never_resumes_witness:
  "\<exists>tf s' t. trap stride_sched_class ex_env (ex_ecall ((\<lambda>_. 0)(10 := 18))) um ex_machine = Some (Some tf, um, s') \<and> gpr tf 10 = 2
     \<and> p_flags (procs t (current t)) AND PF_EXITING = 0 \<and> (\<not> p_need_resched (procs t (current t)) \<longrightarrow> s' = t)"
proof -
  let ?tf = "ex_ecall ((\<lambda>_. 0)(10 := 18))"
  let ?s = "step_epc 2 (ex_machine\<lparr>tfs := (tfs ex_machine)(2 := Some ?tf)\<rparr>)"
  have c: "current ex_machine = 2" by (simp add: ex_machine_def)
  have s: "?s = ex_machine\<lparr>tfs := (tfs ex_machine)(2 := Some (?tf\<lparr>tf_epc := tf_epc ?tf + 4\<rparr>))\<rparr>" by (simp add: step_epc_def)
  let ?u = "?s\<lparr>tfs := (tfs ?s)(2 := Some (?tf\<lparr>tf_epc := tf_epc ?tf + 4, gpr := (gpr ?tf)(10 := 2)\<rparr>))\<rparr>"
  have "syscall stride_sched_class ex_env um ?s = Some (True, um, ?u)"
    unfolding syscall_def by (simp add: s c ex_ecall(3) getpid_entry arg_int_def sys_getpid_def) (simp add: ex_machine_def blank_proc_def)
  then have d: "trap_dispatch stride_sched_class ex_env ?tf um (ex_machine\<lparr>tfs := (tfs ex_machine)(current ex_machine := Some ?tf)\<rparr>) = Some (Back, um, ?u)"
    unfolding ecall_dispatch [OF ex_ecall(1)] by (simp add: c)
  have "trap stride_sched_class ex_env ?tf um ex_machine = Some (tfs ?u (current ex_machine), um, ?u\<lparr>tfs := (tfs ?u)(current ex_machine := tfs ex_machine (current ex_machine))\<rparr>)"
    by (rule trap_back [OF d ex_ecall(2)]) (simp_all add: step_epc_def ex_machine_def blank_proc_def)
  then have t: "trap stride_sched_class ex_env ?tf um ex_machine = Some (Some (?tf\<lparr>tf_epc := tf_epc ?tf + 4, gpr := (gpr ?tf)(10 := 2)\<rparr>), um, ex_machine)"
    by (simp add: c s)
  have b: "unat (tf_cause ?tf) \<noteq> CAUSE_BREAKPOINT" by (simp add: ex_ecall_def CAUSE_BREAKPOINT_def)
  obtain t' where "p_flags (procs t' (current t')) AND PF_EXITING = 0"
    "if p_need_resched (procs t' (current t')) then \<exists>u. schedule stride_sched_class t' = Some u \<and> e_others ex_env u = Some ex_machine else ex_machine = t'"
    using killed_never_resumes [OF t ex_ecall(2)] b by blast
  then show ?thesis using t by (intro exI conjI) auto
qed

end
