(* ===== verification/Exit_Wait.thy ===== *)
theory Exit_Wait
  imports Trap_Props
begin

text \<open>
  The end of a child as its parent sees it: what \<open>sys_wait\<close> stores and what it removes.
\<close>

lemma remove_links_mem: "remove_links p s = Some v \<Longrightarrow> mem_of v = mem_of s \<and> p_kstack (procs v q) = p_kstack (procs s q)"
  by (auto simp: remove_links_def Let_def bind_eq_Some_conv split: option.splits)

text \<open>A dead child whose stack can be freed is reaped.\<close>

lemma reap_returns:
  assumes ok: "stride_proc.life_ok s" and z: "p \<in> set (proc_list s)" "p_state (procs s p) = PROC_ZOMBIE" "initproc s \<noteq> Some p"
    and st: "kva2page (p_kstack (procs s p)) = Some g" "free_pages g KSTACKPAGE (mem_of s) = Some ph"
  shows "\<exists>s'. reap cs p s = Some (map_option (\<lambda>a. (a, p_exit_code (procs s p))) cs, s')"
proof -
  have tree: "tree_ok s" using ok by (simp add: stride_proc.life_ok_def procs_ok_def)
  let ?u = "unhash_proc p s"
  have uf: "procs ?u = procs s" "proc_list ?u = proc_list s" "initproc ?u = initproc s" "idleproc ?u = idleproc s" "nr_process ?u = nr_process s"
    "mem_of ?u = mem_of s"
    by (simp_all add: unhash_proc_def)
  have ut: "tree_ok ?u" by (rule tree_cong [OF tree]) (simp_all add: uf)
  obtain par where par: "p_parent (procs s p) = Some par" using tree z(1) unfolding tree_ok_def by blast
  have nk: "p_cptr (procs s p) = None" "p \<noteq> idleproc s" using tree z by (auto simp: tree_ok_def)
  obtain v where v: "remove_links p ?u = Some v"
    using remove_links_tree [OF ut, of p par] z(1,3) par nk unfolding uf by auto
  have "mem_of v = mem_of s" "p_kstack (procs v p) = p_kstack (procs s p)" using remove_links_mem [OF v] by (simp_all add: uf)
  then have "put_kstack p v = Some (v\<lparr>mem_of := ph\<rparr>)" using st by (simp add: put_kstack_def)
  then show ?thesis using v nk(2) z(3) by (simp add: reap_def kassert_def)
qed

lemma do_wait_found:
  assumes ok: "stride_proc.life_ok s" and p: "p \<in> offspring s (current s)" "p_state (procs s p) = PROC_ZOMBIE"
  shows "wait_loop sc others (p_pid (procs s p)) s = Some (Found p, s)"
proof -
  have pk: "procs_ok s" using ok by (simp add: stride_proc.life_ok_def)
  have pd: "pids_ok s" using pk by (simp add: procs_ok_def)
  have pl: "p \<in> set (proc_list s)" using p(1) by (simp add: offspring_def)
  have pos: "0 < p_pid (procs s p)" using pd pl by (auto simp: pids_ok_def)
  have "inj_on (\<lambda>p. p_pid (procs s p)) (set (proc_list s))" using pd by (auto simp: pids_ok_def pids_def distinct_map)
  then have a: "awaited s (p_pid (procs s p)) = {p}" using p(1) pos by (auto simp: awaited_def offspring_def inj_on_def)
  obtain z where z: "wait_pick (p_pid (procs s p)) s = Some (awaited s (p_pid (procs s p)) \<noteq> {}, z)"
    "case z of None \<Rightarrow> \<forall>q \<in> awaited s (p_pid (procs s p)). p_state (procs s q) \<noteq> PROC_ZOMBIE
        | Some q \<Rightarrow> q \<in> awaited s (p_pid (procs s p)) \<and> p_state (procs s q) = PROC_ZOMBIE"
    using wait_pick_ok [OF pk] by blast
  have "z = Some p" using z(2) p(2) unfolding a by (cases z) auto
  then show ?thesis using z(1) by (simp add: wait_loop.simps [of sc others])
qed

text \<open>
  C3. The exit code reaches the parent.  A process that calls \<open>wait\<close> for a child that has ended, with the
  address of four bytes it may write, returns 0; the four bytes hold the exit code of the child in two's complement
  and no other byte changes; the child has left the table and the family of its parent, its pid finds
  nothing any more, and the process layer is well formed.  The pages of the child's kernel stack can be freed.
\<close>

theorem wait_delivers_exit_code:
  assumes ok: "stride_proc.life_ok s" and p: "p \<in> offspring s (current s)" "p_state (procs s p) = PROC_ZOMBIE" "initproc s \<noteq> Some p"
    and mm: "p_mm (procs s (current s)) = Some m" "mm_ok (mms s m)" "may_range (mms s m) a 4 True"
    and st: "kva2page (p_kstack (procs s p)) = Some g" "free_pages g KSTACKPAGE (mem_of s) = Some ph"
  shows "\<exists>um' s'. sys_wait stride_sched_class env (p_pid (procs s p)) a um s = Some (Some 0, um', s')
     \<and> int (rd 4 um' a) = p_exit_code (procs s p) mod 2 ^ 32 \<and> (\<forall>x. x < a \<or> a + 4 \<le> x \<longrightarrow> um' x = um x)
     \<and> proc_list s' = remove1 p (proc_list s) \<and> offspring s' (current s) = offspring s (current s) - {p}
     \<and> find_proc s' (p_pid (procs s p)) = None \<and> stride_proc.life_ok s'"
proof -
  obtain mm' where c: "user_mem_check (Some (mms s m)) a 4 True = (True, Some mm')"
    using may_range_check [OF mm(2,3)] by auto
  have a0: "a \<noteq> 0" using mm(3) by (simp add: may_range_def USERBASE_def)
  let ?s = "upd_mm m mm' s"
  have b: "beside (current s) s ?s" using here_set(3) [of s m mm'] by (simp add: here_def)
  have ok': "stride_proc.life_ok ?s" using stride_proc.beside_life [OF b ok] by simp
  have f: "procs ?s = procs s" "proc_list ?s = proc_list s" "current ?s = current s" "mem_of ?s = mem_of s" "initproc ?s = initproc s"
    "offspring ?s = offspring s"
    by (simp_all add: upd_mm_def offspring_def fun_eq_iff)
  have pl: "p \<in> set (proc_list s)" using p(1) by (simp add: offspring_def)
  have w: "wait_loop stride_sched_class (e_others env) (p_pid (procs s p)) ?s = Some (Found p, ?s)"
    using do_wait_found [OF ok', of p] p(1,2) by (simp add: f)
  let ?code = "p_exit_code (procs s p)"
  obtain s' where s': "reap (Some a) p ?s = Some (Some (a, ?code), s')"
    using reap_returns [OF ok', of p g ph "Some a"] pl p(2,3) st by (auto simp: f)
  have r: "stride_proc.life_ok s' \<and> proc_list s' = remove1 p (proc_list s) \<and> offspring s' (current s) = offspring s (current s) - {p}
     \<and> find_proc s' (p_pid (procs s p)) = None"
    using stride_proc.reap_ok [OF ok' _ _ s'] pl p(2) by (simp add: f)
  let ?v = "nat (?code mod 2 ^ 32)"
  have "sys_wait stride_sched_class env (p_pid (procs s p)) a um s = Some (Some 0, blit um a (le ?v) 0 4, s')"
    using a0 by (simp add: sys_wait_def do_wait_def mm(1) c w s')
  moreover have "rd 4 (blit um a (le ?v) 0 4) a = ?v"
  proof (rule rd_le_eq)
    have "?code mod 2 ^ 32 < 2 ^ 32" by simp
    then show "?v < 256 ^ 4" by (simp add: nat_less_iff)
  qed (simp add: blit_def)
  ultimately show ?thesis using r by (intro exI [of _ "blit um a (le ?v) 0 4"] exI [of _ s']) (auto simp: blit_def)
qed


definition ex_parent :: machine where
  "ex_parent = upd_mm 0 ex_mm (upd 2 (\<lambda>x. x\<lparr>p_mm := Some 0\<rparr>) (upd 3 (\<lambda>x. x\<lparr>p_exit_code := - 9\<rparr>) ex_machine))"

lemma ex_parent: "stride_proc.life_ok ex_parent" "current ex_parent = 2" "offspring ex_parent 2 = {3}" "p_state (procs ex_parent 3) = PROC_ZOMBIE"
  "p_exit_code (procs ex_parent 3) = - 9" "p_pid (procs ex_parent 3) = 3" "p_mm (procs ex_parent 2) = Some 0" "mms ex_parent 0 = ex_mm"
  "p_kstack (procs ex_parent 3) = nbase + 600" "mem_of ex_parent = ex_phys" "initproc ex_parent = Some 1"
proof -
  let ?a = "upd 3 (\<lambda>x. x\<lparr>p_exit_code := - 9\<rparr>) ex_machine"
  have "stride_trap.sys_ok ?a" by (rule stride_trap.beside_ok [OF beside_upd [OF _ beside_refl] ex_machine_ok(1)]) (simp add: place_def)
  then have "stride_trap.sys_ok (upd (current ?a) (\<lambda>x. x\<lparr>p_mm := Some 0\<rparr>) ?a)" by (rule stride_trap.here_ok [OF here_upd, rotated]) (rule place_mm)
  then have "stride_trap.sys_ok (upd 2 (\<lambda>x. x\<lparr>p_mm := Some 0\<rparr>) ?a)" by (simp add: ex_machine_def)
  then have "stride_trap.sys_ok ex_parent" unfolding ex_parent_def by (rule stride_trap.here_ok [OF here_set(3)])
  then show "stride_proc.life_ok ex_parent" by (rule stride_trap.sys_okD(9))
  show "offspring ex_parent 2 = {3}" by (auto simp: ex_parent_def upd_mm_def offspring_def ex_machine_def blank_proc_def)
qed (simp_all add: ex_parent_def upd_mm_def ex_machine_def blank_proc_def)

theorem wait_delivers_exit_code_witness:
  "\<forall>um. \<exists>um' s'. sys_wait stride_sched_class ex_env 3 0x401000 um ex_parent = Some (Some 0, um', s') \<and> rd 4 um' 0x401000 = 2 ^ 32 - 9
     \<and> proc_list s' = [2, 1] \<and> find_proc s' 3 = None"
proof
  fix um
  have k: "kva2page (nbase + 600) = Some 600"
    by (simp add: kva2page_def PADDR_def kva_def pa2page_def PPN_def nbase_def npage_def PGSIZE_def KERNBASE_def KERNTOP_def
        PHYSICAL_MEMORY_END_def kassert_def unsigned_of_nat unat_drop_bit_eq drop_bit_eq_div take_bit_eq_mod)
  have "\<exists>i \<in> free_set ex_pool. 600 < i" by (rule bexI [of _ 700]) (simp_all add: ex_pool)
  then obtain pl where pl: "default_free_pages 600 2 ex_pool = Some pl"
    using default_free_ok [OF ex_pool(1), of 2 600] by (auto simp: ex_pool)
  have f: "free_pages 600 KSTACKPAGE ex_phys = Some (ex_phys\<lparr>pool := pl\<rparr>)"
    by (simp add: free_pages_def ex_phys_def pl KSTACKPAGE_def)
  have r: "may_range ex_mm 0x401000 4 True" by (rule ex_range) simp_all
  have l: "proc_list ex_parent = [3, 2, 1]" by (simp add: ex_parent_def upd_mm_def ex_machine_def)
  have "\<exists>um' s'. sys_wait stride_sched_class ex_env (p_pid (procs ex_parent 3)) 0x401000 um ex_parent = Some (Some 0, um', s')
     \<and> int (rd 4 um' 0x401000) = p_exit_code (procs ex_parent 3) mod 2 ^ 32 \<and> (\<forall>x. x < 0x401000 \<or> 0x401000 + 4 \<le> x \<longrightarrow> um' x = um x)
     \<and> proc_list s' = remove1 3 (proc_list ex_parent) \<and> offspring s' (current ex_parent) = offspring ex_parent (current ex_parent) - {3}
     \<and> find_proc s' (p_pid (procs ex_parent 3)) = None \<and> stride_proc.life_ok s'"
    by (rule wait_delivers_exit_code [where m = 0 and g = 600 and ph = "ex_phys\<lparr>pool := pl\<rparr>"]) (simp_all add: ex_parent ex_mm(1) r k f)
  then obtain um' s' where "sys_wait stride_sched_class ex_env 3 0x401000 um ex_parent = Some (Some 0, um', s')"
     "int (rd 4 um' 0x401000) = 2 ^ 32 - 9" "proc_list s' = [2, 1]" "find_proc s' 3 = None"
    by (auto simp: ex_parent l)
  then show "\<exists>um' s'. sys_wait stride_sched_class ex_env 3 0x401000 um ex_parent = Some (Some 0, um', s') \<and> rd 4 um' 0x401000 = 2 ^ 32 - 9
     \<and> proc_list s' = [2, 1] \<and> find_proc s' 3 = None" by (intro exI [of _ um'] exI [of _ s']) simp
qed

end
