(* ===== verification/Spec2Isabelle.thy ===== *)
theory Spec2Isabelle
  imports Pmm_Best_Fit Bitmap Philosophers Monitor Stride_Fair Printfmt Fault_Props Kmalloc_Props Exit_Wait
begin

text \<open>
  A model of the uCore kernel, as the repository has it under \<open>src/lab8\<close> (the last lab, which
  contains the final state of the earlier ones) with the best-fit allocator of \<open>src/lab2\<close> and the
  round-robin scheduler of \<open>src/lab6\<close>.  Each C function is a definition of the same name; the
  state it changes is passed and returned.

  Conventions.  A routine that can fail an \<open>assert\<close>, call \<open>panic\<close> or never return yields an option
  and \<open>None\<close> stands for that; an error return is \<open>Inl\<close> of the code of \<open>libs/error.h\<close>, whose state
  is the one the C code leaves behind.  Memory objects are functions from positions to bytes;
  structures that C links by pointers (page lists, skew heap, run queue) keep their pointers.
  For its callers \<open>kmalloc\<close>'s outcome is an argument.  A word of the machine is a word, or a number with the
  wrap-around written out (\<open>addr64\<close>, \<open>int32\<close> of the prelude) where it can occur.  A routine that holds a lock from its first to its last
  access of the shared state is one step.

  Physical memory.  \<open>Kern_List\<close> (\<open>libs/list.h\<close>), \<open>Pmm_Default\<close> (\<open>kern/mm/default_pmm.c\<close>),
  \<open>Pmm_Best_Fit\<close> (\<open>lab2/ft/lab2-basic/kern/mm/best_fit_pmm.c\<close>): allocation, release and coalescing
  against the set of free pages, and the damage an insertion above the last block does.  \<open>Kmalloc\<close> is
  \<open>kern/mm/kmalloc.c\<close>; \<open>Kmalloc_Heap\<close> and \<open>Kmalloc_Props\<close> show that the blocks of the heap stay
  disjoint and that \<open>kfree\<close> undoes \<open>kmalloc\<close>, for the small sizes and for those that get pages of their own.

  Virtual memory.  \<open>Page_Table\<close> is \<open>kern/mm/pmm.c\<close> over frames of bytes, with the swap files;
  \<open>Page_Walk\<close> has what a walk of a well-formed table finds.  \<open>Vmm\<close> is \<open>kern/mm/vmm.c\<close> with
  \<open>kern/mm/swap.c\<close> and \<open>swap_fifo.c\<close>; \<open>Vmm_Areas\<close> has the invariant \<open>mm_ok\<close> of the areas, \<open>Vmm_String\<close> the
  checks of user memory and \<open>copy_string\<close>, \<open>Page_Fault\<close> and \<open>Fault_Props\<close> demand paging and swapping.

  Scheduling.  \<open>Skew_Heap\<close> (\<open>libs/skew_heap.h\<close>), \<open>Sched_Class\<close> (stride and round robin behind the
  locale \<open>run_queue\<close> of a scheduling class), \<open>Sched\<close> (\<open>kern/schedule/sched.c\<close>: wakeup,
  \<open>schedule\<close>, timers), \<open>Stride_Fair\<close> (fair shares of processes whose strides start near each other), \<open>Wait_Sem\<close> (\<open>kern/sync/wait.c\<close>,
  \<open>sem.c\<close>, refining counting semaphores), \<open>Philosophers\<close> (\<open>check_sync.c\<close> as a step relation) and
  \<open>Monitor\<close> (\<open>monitor.c\<close>).

  Processes.  \<open>Proc_Table\<close> has the process list, the hash lists, the pids and the family links of
  \<open>kern/process/proc.c\<close>, \<open>Proc_Tree\<close> the invariant \<open>tree_ok\<close> of the links.  \<open>Proc\<close> is the rest of the life
  of a process: the record \<open>kernel\<close> extends the scheduler's state and the table by memory, address spaces, file
  system, open files and trapframes, and a structure that processes share is one entry of a map
  (\<open>mms\<close>, \<open>filess\<close>).  \<open>Proc_Life\<close> proves, for any scheduling class (locale \<open>proc_queue\<close>), that creation, exit
  and reaping keep \<open>life_ok\<close>, and \<open>Proc_Props\<close> interprets it for both classes.

  Libraries.  \<open>Libs_String\<close> (\<open>libs/string.c\<close>, \<open>hash.c\<close>, \<open>rand.c\<close>), \<open>Printfmt\<close>
  (\<open>libs/printfmt.c\<close>).

  Files.  \<open>Bitmap\<close>, \<open>Disk\<close> (I/O buffers, RAM disk, \<open>disk0\<close>), \<open>Sfs_Io\<close> (blocks, super block,
  mounting), \<open>Sfs_Map\<close> (block map, resizing), \<open>Sfs_Rw\<close> (reading and writing), \<open>Sfs_Dir\<close>
  (directories), \<open>Sfs_Node\<close> (inodes in memory), \<open>Devs\<close> (\<open>kern/fs/devs\<close>), \<open>Vfs\<close>
  (\<open>kern/fs/vfs\<close>), \<open>File\<close> (\<open>kern/fs/file.c\<close>, \<open>fs.c\<close>), with \<open>Counts\<close> and \<open>File_Table\<close> for the
  accounting of references, the ones an exclusive open loses included, and \<open>File_Sfs\<close> for a transfer from the descriptor down to the disk.

  The kernel entry.  \<open>Sysfile\<close> (\<open>kern/fs/sysfile.c\<close>, over the record \<open>sys\<close> of the address space, the user
  memory, the file system and the files of the caller), \<open>Exec\<close> (\<open>load_icode\<close> and \<open>do_execve\<close>) and \<open>Syscall\<close>
  (\<open>kern/syscall/syscall.c\<close>, \<open>kern/trap/trap.c\<close>, \<open>init_main\<close>) join the parts: \<open>trap\<close> takes the frame
  the processor saved, dispatches the interrupt, fault or system call, and returns the frame it
  resumes.  \<open>Sysfile_Props\<close> follows reading and writing through the loops; \<open>Trap_Life\<close> (locale
  \<open>trap_queue\<close>) shows that no trap breaks the process layer; \<open>Trap_Props\<close> and \<open>Exit_Wait\<close> state what a
  program sees of \<open>read\<close>, \<open>exit\<close> and \<open>wait\<close>, and what happens to a bad pointer.

  The world outside.  What the allocators, the keyboard, the clock and the other processes deliver is
  in the records \<open>kalloc\<close>, \<open>fork_mem\<close>, \<open>exec_mem\<close> and \<open>env\<close>, arguments of the operations.  Giving up the
  processor is \<open>schedule\<close> followed by \<open>e_others\<close>, any function for what happens until the process runs again; the
  theorems assume of it only that it keeps the invariant.  The memory of the current process at user addresses is
  passed and returned beside the kernel's state; the page frames follow it where the kernel fills them
  (loading, page faults, copies at a fork), not after each store of a program.

  Loops.  A loop over a list or a counter recurses on it.  The loops without a bound in the code are
  partial functions, whose \<open>None\<close> includes not returning: \<open>namefile_loop\<close>, \<open>pid_repeat\<close>,
  \<open>adopt_children\<close>, \<open>zombie_child\<close>, \<open>wait_loop\<close>, \<open>slob_place\<close>, \<open>slob_search\<close>, \<open>load_text\<close>,
  \<open>load_bss\<close>, \<open>reap_all\<close>.  No definition uses fuel.  Where the state makes such a loop end, the lemmas on its
  operation (\<open>get_pid\<close>, \<open>do_exit\<close>, \<open>do_wait\<close>, \<open>kmalloc\<close>, \<open>kfree\<close>) conclude that it returns.

  Not modelled: boot, the trap entry and context switch (assembly), the console, clock and interrupt
  controller (firmware calls and port I/O), the kernel debugger and monitor (symbol tables and
  printing), the self tests, user programs and their library, the image builder, and the other labs' copies and
  variants of these files.
\<close>

end
